(* ===== verification/Prelude.thy ===== *)
theory Prelude
  imports Main "HOL-Library.Word" "HOL-Library.Signed_Division" "HOL-Library.Monad_Syntax"
begin

text \<open>
  Shared vocabulary of the development: the collections of simplification rules, checked access
  to the fixed-size arrays of the C++ code, the range of its 32-bit integers, C's truncating
  remainder, and generic lemmas on lists, maps of updates and modular positions that the component
  theories use.

  The C++ code indexes raw arrays (\<^verbatim>\<open>m_caSeq[i]\<close>, \<^verbatim>\<open>m_entries[pos]\<close>). An index outside the
  array is undefined behaviour there; here \<open>rd\<close> and \<open>wr\<close> return \<open>None\<close> for it, and
  every operation built from them is in the option monad, so that a theorem of the form
  \<open>op s = Some s'\<close> includes that the operation stays inside its arrays and that its loops end.
\<close>

named_theorems seq_simps \<open>circular sequence numbers over their unwrapped values\<close>
named_theorems arr_simps \<open>checked array access inside the bounds\<close>
named_theorems ring_simps \<open>positions in a ring\<close>

section \<open>Machine integers\<close>

text \<open>Values that a 32-bit signed C++ integer can hold; arithmetic outside is undefined there.\<close>

definition in_int32 :: "int \<Rightarrow> bool" where
  "in_int32 x \<longleftrightarrow> - (2 ^ 31) \<le> x \<and> x < 2 ^ 31"

definition in_int64 :: "int \<Rightarrow> bool" where
  "in_int64 x \<longleftrightarrow> - (2 ^ 63) \<le> x \<and> x < 2 ^ 63"

lemma smod_nonneg [simp]: "0 \<le> a \<Longrightarrow> 0 < b \<Longrightarrow> (a :: int) smod b = a mod b"
  by (cases "a = 0") (simp_all add: signed_modulo_int_def)

lemma sdiv_nonneg [simp]: "0 \<le> a \<Longrightarrow> 0 < b \<Longrightarrow> (a :: int) sdiv b = a div b"
  by (cases "a = 0") (simp_all add: signed_divide_int_def)

section \<open>Checked array access\<close>

definition rd :: "'a list \<Rightarrow> int \<Rightarrow> 'a option" where
  "rd xs i = (if 0 \<le> i \<and> i < int (length xs) then Some (xs ! nat i) else None)"

definition wr :: "'a list \<Rightarrow> int \<Rightarrow> 'a \<Rightarrow> 'a list option" where
  "wr xs i x = (if 0 \<le> i \<and> i < int (length xs) then Some (xs[nat i := x]) else None)"

definition upd :: "'a list \<Rightarrow> int \<Rightarrow> ('a \<Rightarrow> 'a) \<Rightarrow> 'a list option" where
  "upd xs i f = (if 0 \<le> i \<and> i < int (length xs) then Some (xs[nat i := f (xs ! nat i)]) else None)"

lemma rd_Some [arr_simps]: "0 \<le> i \<Longrightarrow> i < int (length xs) \<Longrightarrow> rd xs i = Some (xs ! nat i)"
  by (simp add: rd_def)

lemma wr_Some [arr_simps]: "0 \<le> i \<Longrightarrow> i < int (length xs) \<Longrightarrow> wr xs i x = Some (xs[nat i := x])"
  by (simp add: wr_def)

lemma upd_Some [arr_simps]:
  "0 \<le> i \<Longrightarrow> i < int (length xs) \<Longrightarrow> upd xs i f = Some (xs[nat i := f (xs ! nat i)])"
  by (simp add: upd_def)

lemma rd_eq_Some_iff: "rd xs i = Some x \<longleftrightarrow> 0 \<le> i \<and> i < int (length xs) \<and> xs ! nat i = x"
  by (auto simp: rd_def)

lemma nth_update_int:
  "0 \<le> i \<Longrightarrow> i < int (length xs) \<Longrightarrow> 0 \<le> j \<Longrightarrow>
   (xs[nat i := x]) ! nat j = (if i = j then x else xs ! nat j)"
  by (auto simp: nth_list_update)

section \<open>Modular positions\<close>

lemma mod_eq_iff_small:
  fixes a b m :: int
  assumes "\<bar>a - b\<bar> < m"
  shows "a mod m = b mod m \<longleftrightarrow> a = b"
proof
  assume "a mod m = b mod m"
  then have "m dvd \<bar>a - b\<bar>" by (simp add: mod_eq_dvd_iff)
  with assms have "\<not> 0 < \<bar>a - b\<bar>" by (meson zdvd_not_zless)
  then show "a = b" by simp
qed simp

lemma mod_add_small:
  fixes n k M :: int
  assumes "0 \<le> k" "k < M"
  shows "(n + k) mod M = (if n mod M + k < M then n mod M + k else n mod M + k - M)"
proof (cases "n mod M + k < M")
  case True
  have "(n + k) mod M = (n mod M + k) mod M" by (rule mod_add_left_eq [symmetric])
  also have "\<dots> = n mod M + k"
    using assms True by (intro mod_pos_pos_trivial) simp_all
  finally show ?thesis using True by simp
next
  case False
  have "(n + k) mod M = (n mod M + k) mod M" by (rule mod_add_left_eq [symmetric])
  also have "\<dots> = (n mod M + k - M) mod M" by simp
  also have "\<dots> = n mod M + k - M"
    using assms False pos_mod_bound [of M n] by (intro mod_pos_pos_trivial) linarith+
  finally show ?thesis using False by simp
qed

lemma mod_diff_small:
  fixes n k M :: int
  assumes "0 \<le> k" "k < M"
  shows "(n - k) mod M = (if k \<le> n mod M then n mod M - k else n mod M - k + M)"
proof (cases "k \<le> n mod M")
  case True
  have "(n - k) mod M = (n mod M - k) mod M" by (rule mod_diff_left_eq [symmetric])
  also have "\<dots> = n mod M - k"
    using assms True pos_mod_bound [of M n] by (intro mod_pos_pos_trivial) linarith+
  finally show ?thesis using True by simp
next
  case False
  have "(n - k) mod M = (n mod M - k) mod M" by (rule mod_diff_left_eq [symmetric])
  also have "\<dots> = (n mod M - k + M) mod M" by simp
  also have "\<dots> = n mod M - k + M"
    using assms False pos_mod_sign [of M n] by (intro mod_pos_pos_trivial) linarith+
  finally show ?thesis using False by simp
qed

lemma mod_diff_cases:
  fixes n m M :: int
  assumes "\<bar>n - m\<bar> < M"
  obtains (same) "n mod M - m mod M = n - m"
    | (lower) "n mod M - m mod M = n - m - M" "m < n"
    | (upper) "n mod M - m mod M = n - m + M" "n < m"
proof (cases "m \<le> n")
  case True
  show ?thesis
  proof (cases "m mod M + (n - m) < M")
    case less: True
    with mod_add_small [of "n - m" M m] True assms have "n mod M - m mod M = n - m" by simp
    then show ?thesis by (rule same)
  next
    case geq: False
    with mod_add_small [of "n - m" M m] True assms have "n mod M - m mod M = n - m - M" by simp
    moreover have "m < n" using geq True assms pos_mod_bound [of M m] by (cases "m = n") auto
    ultimately show ?thesis by (rule lower)
  qed
next
  case False
  show ?thesis
  proof (cases "m - n \<le> m mod M")
    case leq: True
    with mod_diff_small [of "m - n" M m] False assms have "n mod M - m mod M = n - m" by simp
    then show ?thesis by (rule same)
  next
    case gt: False
    with mod_diff_small [of "m - n" M m] False assms have "n mod M - m mod M = n - m + M" by simp
    then show ?thesis using False by (intro upper) simp_all
  qed
qed

end
