(* ===== verification/Bitfield.thy ===== *)
theory Bitfield
  imports Prelude
begin

unbundle bit_operations_syntax

text \<open>
  The bit ranges of \<^verbatim>\<open>srtcore/utilities.h\<close> (\<^verbatim>\<open>BitsetMask\<close>, \<^verbatim>\<open>Bits<L, R>\<close>), by which every
  field of a packet header is read and written. \<open>L\<close> is the leftmost (most significant) and
  \<open>R\<close> the rightmost bit. The C++ template does not compile for \<open>L < R\<close>; the equation
  for that case only makes the definition total. The locale \<open>bitfield\<close> holds the laws of one
  field, the locale \<open>disjoint_bitfields\<close> those of two fields of one word.
\<close>

section \<open>Masks and fields\<close>

fun BitsetMask :: "nat \<Rightarrow> nat \<Rightarrow> 32 word" where
  "BitsetMask 0 R = (if R = 0 then 1 else 0)"
| "BitsetMask (Suc L) R =
     (if Suc L = R then push_bit R 1
      else if R < Suc L then push_bit (Suc L) 1 OR BitsetMask L R else 0)"

definition Bits_size :: "nat \<Rightarrow> nat \<Rightarrow> nat" where
  "Bits_size L R = L - R + 1"

definition Bits_fit :: "nat \<Rightarrow> nat \<Rightarrow> 32 word \<Rightarrow> bool" where
  "Bits_fit L R value \<longleftrightarrow> BitsetMask (L - R) 0 AND value = value"

definition Bits_wrap :: "nat \<Rightarrow> nat \<Rightarrow> 32 word \<Rightarrow> 32 word" where
  "Bits_wrap L R baseval = push_bit R baseval AND BitsetMask L R"

definition Bits_unwrap :: "nat \<Rightarrow> nat \<Rightarrow> 32 word \<Rightarrow> 32 word" where
  "Bits_unwrap L R bitset = drop_bit R (bitset AND BitsetMask L R)"

section \<open>The bits of a mask\<close>

lemma bit_BitsetMask:
  "R \<le> L \<Longrightarrow> L < 32 \<Longrightarrow> bit (BitsetMask L R) n \<longleftrightarrow> R \<le> n \<and> n \<le> L"
proof (induction L)
  case 0
  then show ?case by (auto simp: bit_1_iff)
next
  case (Suc L)
  show ?case
  proof (cases "Suc L = R")
    case True
    with Suc.prems show ?thesis by (auto simp: bit_simps)
  next
    case False
    with Suc.prems have "R \<le> L" "L < 32" by auto
    with Suc False show ?thesis by (auto simp: bit_simps)
  qed
qed

lemma bit_Bits_wrap:
  "R \<le> L \<Longrightarrow> L < 32 \<Longrightarrow> bit (Bits_wrap L R v) n \<longleftrightarrow> R \<le> n \<and> n \<le> L \<and> bit v (n - R)"
  by (auto simp: Bits_wrap_def bit_simps bit_BitsetMask)

lemma bit_Bits_unwrap:
  "R \<le> L \<Longrightarrow> L < 32 \<Longrightarrow> bit (Bits_unwrap L R x) n \<longleftrightarrow> R + n \<le> L \<and> bit x (R + n)"
  by (auto simp: Bits_unwrap_def bit_simps bit_BitsetMask)

lemma Bits_fit_iff:
  "R \<le> L \<Longrightarrow> L < 32 \<Longrightarrow> Bits_fit L R v \<longleftrightarrow> (\<forall>n. bit v n \<longrightarrow> R + n \<le> L)"
  using bit_imp_le_length [of v]
  by (fastforce simp: Bits_fit_def bit_eq_iff bit_simps bit_BitsetMask)

lemma Bits_fit_less:
  assumes "R \<le> L" "L < 32"
  shows "Bits_fit L R v \<longleftrightarrow> unat v < 2 ^ (L - R + 1)"
proof -
  have "Bits_fit L R v \<longleftrightarrow> take_bit (L - R + 1) v = v"
    using bit_imp_le_length [of v] assms
    unfolding Bits_fit_iff [OF assms] by (fastforce simp: bit_eq_iff bit_simps less_Suc_eq_le)
  also have "\<dots> \<longleftrightarrow> unat v < 2 ^ (L - R + 1)"
    by (metis bintr_uint le_refl less_imp_le take_bit_nat_eq_self_iff unsigned_take_bit_eq unsigned_word_eqI)
  finally show ?thesis .
qed

section \<open>The laws of one field\<close>

locale bitfield =
  fixes L R :: nat
  assumes order: "R \<le> L" and width: "L < 32"
begin

lemma unwrap_wrap: "Bits_fit L R v \<Longrightarrow> Bits_unwrap L R (Bits_wrap L R v) = v"
  by (rule bit_word_eqI)
    (auto simp: bit_Bits_unwrap bit_Bits_wrap Bits_fit_iff order width)

lemma wrap_unwrap: "Bits_wrap L R (Bits_unwrap L R x) = x AND BitsetMask L R"
  by (rule bit_word_eqI)
    (auto simp: bit_Bits_unwrap bit_Bits_wrap bit_BitsetMask order width bit_simps)

lemma unwrap_fits: "Bits_fit L R (Bits_unwrap L R x)"
  using order by (auto simp: Bits_fit_iff bit_Bits_unwrap order width)

lemma unwrap_bound: "unat (Bits_unwrap L R x) < 2 ^ (L - R + 1)"
  using unwrap_fits by (simp add: Bits_fit_less order width)

text \<open>Clearing a field and writing a value into it, the way the setters of \<^verbatim>\<open>CPacket\<close> do.\<close>

lemma unwrap_update:
  "Bits_fit L R v \<Longrightarrow> Bits_unwrap L R ((x AND NOT (BitsetMask L R)) OR Bits_wrap L R v) = v"
  by (rule bit_word_eqI)
    (auto simp: bit_Bits_unwrap bit_Bits_wrap bit_BitsetMask Bits_fit_iff order width bit_simps)

end

section \<open>Two fields of one word\<close>

locale disjoint_bitfields = f: bitfield L R + g: bitfield L' R' for L R L' R' :: nat +
  assumes disjoint: "L < R' \<or> L' < R"
begin

lemma unwrap_other_wrap: "Bits_unwrap L R (Bits_wrap L' R' v) = 0"
  using disjoint
  by (intro bit_word_eqI) (auto simp: bit_Bits_unwrap bit_Bits_wrap f.order f.width g.order g.width)

lemma unwrap_or_other: "Bits_unwrap L R (x OR Bits_wrap L' R' v) = Bits_unwrap L R x"
  using disjoint
  by (intro bit_word_eqI)
    (auto simp: bit_Bits_unwrap bit_Bits_wrap f.order f.width g.order g.width bit_simps)

lemma unwrap_update_other:
  "Bits_unwrap L R ((x AND NOT (BitsetMask L' R')) OR Bits_wrap L' R' v) = Bits_unwrap L R x"
  using disjoint
  by (intro bit_word_eqI)
    (auto simp: bit_Bits_unwrap bit_Bits_wrap bit_BitsetMask f.order f.width g.order g.width bit_simps
      intro: le_less_trans [OF _ f.width])

end

end
