(* ===== verification/SeqNo.thy ===== *)
theory SeqNo
  imports Bitfield
begin

text \<open>
  Circular numbers of \<^verbatim>\<open>srtcore/common.h\<close>: packet sequence numbers (\<^verbatim>\<open>CSeqNo\<close>), ACK journal
  numbers (\<^verbatim>\<open>CAckNo\<close>) and message numbers (\<^verbatim>\<open>RollNumber\<close>, at \<^verbatim>\<open>MsgNo\<close>).

  Sequence numbers are 31-bit values that roll over; the code compares two of them on the assumption
  that they are less than \<^verbatim>\<open>m_iSeqNoTH\<close> apart. The specification side of this theory reads them as
  unbounded integers: \<open>wrapseq n\<close> is the number on the wire for the \<open>n\<close>-th packet of
  an endless stream. The locale \<open>circular_numbers\<close> states what every user of such numbers relies
  on; it is interpreted for \<^verbatim>\<open>CSeqNo\<close> and for \<^verbatim>\<open>MsgNo\<close>.
\<close>

section \<open>CSeqNo\<close>

definition m_iSeqNoTH :: int where "m_iSeqNoTH = 0x3FFFFFFF"

definition m_iMaxSeqNo :: int where "m_iMaxSeqNo = 0x7FFFFFFF"

definition SRT_SEQNO_NONE :: int where "SRT_SEQNO_NONE = -1"

definition seqcmp :: "int \<Rightarrow> int \<Rightarrow> int" where
  "seqcmp seq1 seq2 = (if \<bar>seq1 - seq2\<bar> < m_iSeqNoTH then seq1 - seq2 else seq2 - seq1)"

definition seqlen :: "int \<Rightarrow> int \<Rightarrow> int" where
  "seqlen seq1 seq2 = (if seq1 \<le> seq2 then seq2 - seq1 + 1 else seq2 - seq1 + m_iMaxSeqNo + 2)"

definition seqoff :: "int \<Rightarrow> int \<Rightarrow> int" where
  "seqoff seq1 seq2 =
     (if \<bar>seq1 - seq2\<bar> < m_iSeqNoTH then seq2 - seq1
      else if seq1 < seq2 then seq2 - seq1 - m_iMaxSeqNo - 1
      else seq2 - seq1 + m_iMaxSeqNo + 1)"

definition incseq :: "int \<Rightarrow> int" where
  "incseq s = (if s = m_iMaxSeqNo then 0 else s + 1)"

definition decseq :: "int \<Rightarrow> int" where
  "decseq s = (if s = 0 then m_iMaxSeqNo else s - 1)"

text \<open>The two-argument overloads of \<^verbatim>\<open>incseq\<close> and \<^verbatim>\<open>decseq\<close>.\<close>

definition incseq_by :: "int \<Rightarrow> int \<Rightarrow> int" where
  "incseq_by s inc = (if m_iMaxSeqNo - s \<ge> inc then s + inc else s - m_iMaxSeqNo + inc - 1)"

definition decseq_by :: "int \<Rightarrow> int \<Rightarrow> int" where
  "decseq_by s dec = (if s < dec then (let left = dec - s in m_iMaxSeqNo - left + 1) else s - dec)"

definition maxseq :: "int \<Rightarrow> int \<Rightarrow> int" where
  "maxseq seq1 seq2 = (if seqcmp seq1 seq2 < 0 then seq2 else seq1)"

section \<open>CAckNo\<close>

definition m_iMaxAckSeqNo :: int where "m_iMaxAckSeqNo = 0x7FFFFFFF"

definition incack :: "int \<Rightarrow> int" where
  "incack ackno = (if ackno = m_iMaxAckSeqNo then 0 else ackno + 1)"

section \<open>RollNumber\<close>

text \<open>
  \<^verbatim>\<open>RollNumber<BITS, MIN>\<close> over 32-bit words; \<open>b\<close> is \<^verbatim>\<open>BITS\<close> and \<open>mn\<close> is \<^verbatim>\<open>MIN\<close>.
  The mask is that of \<^verbatim>\<open>Bits<BITS, 0>\<close>, so the numbers have \<^verbatim>\<open>BITS + 1\<close> bits. The differences
  are taken in 32-bit unsigned arithmetic and then read as signed, as the conversions of the code do.
\<close>

definition roll_mask :: "nat \<Rightarrow> 32 word" where
  "roll_mask b = BitsetMask b 0"

definition roll_OVER :: "nat \<Rightarrow> int" where
  "roll_OVER b = uint (roll_mask b) + 1"

definition roll_HALF :: "nat \<Rightarrow> int \<Rightarrow> int" where
  "roll_HALF b mn = (roll_OVER b - mn) div 2"

definition roll_Diff :: "nat \<Rightarrow> int \<Rightarrow> 32 word \<Rightarrow> 32 word \<Rightarrow> int" where
  "roll_Diff b mn left right =
     (if left < right
      then (let diff = sint (right - left);
                left' = (if diff \<ge> roll_HALF b mn then left + word_of_int (roll_OVER b - mn) else left)
            in sint (left' - right))
      else (let diff = sint (left - right);
                right' = (if diff \<ge> roll_HALF b mn then right + word_of_int (roll_OVER b - mn) else right)
            in sint (left - right')))"

definition roll_less :: "nat \<Rightarrow> int \<Rightarrow> 32 word \<Rightarrow> 32 word \<Rightarrow> bool" where
  "roll_less b mn left right =
     (let ndiff = sint (left - right)
      in if ndiff < - roll_HALF b mn then False
         else if ndiff > roll_HALF b mn then True
         else ndiff < 0)"

definition roll_inc :: "nat \<Rightarrow> int \<Rightarrow> 32 word \<Rightarrow> 32 word" where
  "roll_inc b mn number =
     (let number' = number + 1 in if number' > roll_mask b then word_of_int mn else number')"

definition roll_dec :: "nat \<Rightarrow> int \<Rightarrow> 32 word \<Rightarrow> 32 word" where
  "roll_dec b mn number = (if number = word_of_int mn then roll_mask b else number - 1)"

definition roll_add :: "nat \<Rightarrow> int \<Rightarrow> 32 word \<Rightarrow> int \<Rightarrow> 32 word" where
  "roll_add b mn number delta =
     (if - delta > uint number
      then word_of_int (roll_OVER b - mn + uint number + delta)
      else (let number' = number + word_of_int delta
            in if uint number' \<ge> roll_OVER b then number' - word_of_int (roll_OVER b - mn)
               else number'))"

section \<open>Unwrapped sequence numbers\<close>

definition valid_seq :: "int \<Rightarrow> bool" where
  "valid_seq s \<longleftrightarrow> 0 \<le> s \<and> s \<le> m_iMaxSeqNo"

definition wrapseq :: "int \<Rightarrow> int" where
  "wrapseq n = n mod (m_iMaxSeqNo + 1)"

lemmas seqno_const_defs = m_iSeqNoTH_def m_iMaxSeqNo_def SRT_SEQNO_NONE_def

lemma wrapseq_valid [simp]: "valid_seq (wrapseq n)"
  by (simp add: valid_seq_def wrapseq_def seqno_const_defs)

lemma wrapseq_id: "valid_seq s \<Longrightarrow> wrapseq s = s"
  by (simp add: valid_seq_def wrapseq_def seqno_const_defs)

lemma wrapseq_bounds: "0 \<le> wrapseq n" "wrapseq n \<le> m_iMaxSeqNo"
  using wrapseq_valid [of n] by (simp_all add: valid_seq_def)

lemma wrapseq_neq_none [simp]: "wrapseq n \<noteq> SRT_SEQNO_NONE" "SRT_SEQNO_NONE \<noteq> wrapseq n"
  using wrapseq_bounds(1) [of n] by (auto simp: SRT_SEQNO_NONE_def)

text \<open>
  The operations on wire numbers, computed on unwrapped ones. Differences are exact below the
  threshold; lengths are exact for every distance up to \<^verbatim>\<open>m_iMaxSeqNo\<close>.
\<close>

lemma incseq_by_wrapseq [seq_simps]:
  assumes "0 \<le> k" "k \<le> m_iMaxSeqNo"
  shows "incseq_by (wrapseq n) k = wrapseq (n + k)"
  using assms mod_add_small [of k "m_iMaxSeqNo + 1" n]
  by (auto simp: incseq_by_def wrapseq_def)

lemma decseq_by_wrapseq [seq_simps]:
  assumes "0 \<le> k" "k \<le> m_iMaxSeqNo"
  shows "decseq_by (wrapseq n) k = wrapseq (n - k)"
  using assms mod_diff_small [of k "m_iMaxSeqNo + 1" n]
  by (auto simp: decseq_by_def wrapseq_def Let_def)

lemma incseq_eq_by: "valid_seq s \<Longrightarrow> incseq s = incseq_by s 1"
  by (auto simp: incseq_def incseq_by_def valid_seq_def)

lemma decseq_eq_by: "valid_seq s \<Longrightarrow> decseq s = decseq_by s 1"
  by (auto simp: decseq_def decseq_by_def valid_seq_def Let_def)

lemma incseq_wrapseq [seq_simps]: "incseq (wrapseq n) = wrapseq (n + 1)"
  by (simp add: incseq_eq_by incseq_by_wrapseq seqno_const_defs)

lemma decseq_wrapseq [seq_simps]: "decseq (wrapseq n) = wrapseq (n - 1)"
  by (simp add: decseq_eq_by decseq_by_wrapseq seqno_const_defs)

lemma seqoff_wrapseq [seq_simps]:
  assumes "\<bar>n - m\<bar> < m_iSeqNoTH"
  shows "seqoff (wrapseq m) (wrapseq n) = n - m"
proof -
  have *: "\<bar>n - m\<bar> < m_iMaxSeqNo + 1" using assms by (simp add: seqno_const_defs)
  from * show ?thesis
    by (cases rule: mod_diff_cases)
      (use assms in \<open>auto simp: seqoff_def wrapseq_def seqno_const_defs\<close>)
qed

lemma seqcmp_wrapseq_sgn:
  assumes "\<bar>n - m\<bar> < m_iSeqNoTH"
  shows "sgn (seqcmp (wrapseq n) (wrapseq m)) = sgn (n - m)"
proof -
  have *: "\<bar>n - m\<bar> < m_iMaxSeqNo + 1" using assms by (simp add: seqno_const_defs)
  from * show ?thesis
    by (cases rule: mod_diff_cases)
      (use assms in \<open>auto simp: seqcmp_def wrapseq_def seqno_const_defs sgn_if\<close>)
qed

lemma seqcmp_wrapseq [seq_simps]:
  assumes "\<bar>n - m\<bar> < m_iSeqNoTH"
  shows "seqcmp (wrapseq n) (wrapseq m) < 0 \<longleftrightarrow> n < m"
    and "seqcmp (wrapseq n) (wrapseq m) > 0 \<longleftrightarrow> n > m"
    and "seqcmp (wrapseq n) (wrapseq m) \<le> 0 \<longleftrightarrow> n \<le> m"
    and "seqcmp (wrapseq n) (wrapseq m) \<ge> 0 \<longleftrightarrow> n \<ge> m"
    and "seqcmp (wrapseq n) (wrapseq m) = 0 \<longleftrightarrow> n = m"
  using seqcmp_wrapseq_sgn [OF assms] by (auto simp: sgn_if split: if_splits)

lemma seqlen_wrapseq [seq_simps]:
  assumes "m \<le> n" "n - m \<le> m_iMaxSeqNo"
  shows "seqlen (wrapseq m) (wrapseq n) = n - m + 1"
proof -
  have "wrapseq n = (m + (n - m)) mod (m_iMaxSeqNo + 1)" by (simp add: wrapseq_def)
  then show ?thesis
    using assms mod_add_small [of "n - m" "m_iMaxSeqNo + 1" m] wrapseq_bounds [of m]
    by (auto simp: seqlen_def wrapseq_def split: if_splits)
qed

lemma wrapseq_eq_iff [seq_simps]:
  "\<bar>n - m\<bar> \<le> m_iMaxSeqNo \<Longrightarrow> wrapseq n = wrapseq m \<longleftrightarrow> n = m"
  unfolding wrapseq_def by (rule mod_eq_iff_small) simp

lemma maxseq_wrapseq [seq_simps]:
  "\<bar>n - m\<bar> < m_iSeqNoTH \<Longrightarrow> maxseq (wrapseq n) (wrapseq m) = wrapseq (max n m)"
  by (simp add: maxseq_def seqcmp_wrapseq max_def)

section \<open>The interface of circular numbers\<close>

locale circular_numbers =
  fixes emb :: "int \<Rightarrow> 'a"
    and nxt prv :: "'a \<Rightarrow> 'a"
    and lt :: "'a \<Rightarrow> 'a \<Rightarrow> bool"
    and dist :: "'a \<Rightarrow> 'a \<Rightarrow> int"
    and win :: int
  assumes win_pos: "0 < win"
    and nxt_emb: "nxt (emb n) = emb (n + 1)"
    and prv_emb: "prv (emb n) = emb (n - 1)"
    and lt_emb: "\<bar>n - m\<bar> < win \<Longrightarrow> lt (emb n) (emb m) \<longleftrightarrow> n < m"
    and dist_emb: "\<bar>n - m\<bar> < win \<Longrightarrow> dist (emb m) (emb n) = n - m"
begin

lemma emb_eq_iff: "\<bar>n - m\<bar> < win \<Longrightarrow> emb n = emb m \<longleftrightarrow> n = m"
  using dist_emb [of n m] dist_emb [of n n] dist_emb [of m m] win_pos by auto

lemma prv_nxt: "prv (nxt (emb n)) = emb n" "nxt (prv (emb n)) = emb n"
  by (simp_all add: nxt_emb prv_emb)

lemma nxt_funpow: "(nxt ^^ k) (emb n) = emb (n + int k)"
  by (induction k) (simp_all add: nxt_emb ac_simps)

lemma dist_nxt_funpow: "int k < win \<Longrightarrow> dist (emb n) ((nxt ^^ k) (emb n)) = int k"
  by (simp add: nxt_funpow dist_emb)

lemma dist_additive:
  assumes "\<bar>n - m\<bar> < win" "\<bar>k - n\<bar> < win" "\<bar>k - m\<bar> < win"
  shows "dist (emb m) (emb n) + dist (emb n) (emb k) = dist (emb m) (emb k)"
  using assms by (simp add: dist_emb)

lemma lt_trans_window:
  assumes "\<bar>n - m\<bar> < win" "\<bar>k - n\<bar> < win" "\<bar>k - m\<bar> < win"
    and "lt (emb m) (emb n)" "lt (emb n) (emb k)"
  shows "lt (emb m) (emb k)"
  using assms by (simp add: lt_emb abs_minus_commute)

lemma sorted_wrt_emb:
  assumes "\<And>x y. x \<in> set xs \<Longrightarrow> y \<in> set xs \<Longrightarrow> \<bar>x - y\<bar> < win"
  shows "sorted_wrt lt (map emb xs) \<longleftrightarrow> sorted_wrt (<) xs"
  using assms by (induction xs) (auto simp: lt_emb)

end

interpretation seqno: circular_numbers wrapseq incseq decseq
  "\<lambda>a b. seqcmp a b < 0" seqoff m_iSeqNoTH
  by unfold_locales (simp_all add: seq_simps seqno_const_defs)

section \<open>Message numbers\<close>

definition wrapmsg :: "int \<Rightarrow> 32 word" where
  "wrapmsg n = word_of_int (1 + n mod (2 ^ 26 - 1))"

lemma sint_diff_small:
  fixes a b :: "32 word"
  assumes "uint a < 2 ^ 31" "uint b < 2 ^ 31"
  shows "sint (a - b) = uint a - uint b"
proof -
  have "sint (a - b) = signed_take_bit 31 (uint a - uint b)"
    by (subst word_sub_wi) (simp only: sint_sbintrunc', simp)
  also have "\<dots> = uint a - uint b"
    using assms uint_ge_0 [of a] uint_ge_0 [of b] by (intro signed_take_bit_int_eq_self) linarith+
  finally show ?thesis .
qed

lemma roll_mask_25: "roll_mask 25 = 0x3FFFFFF"
  unfolding roll_mask_def by code_simp

lemma roll_OVER_25: "roll_OVER 25 = 0x4000000"
  by (simp add: roll_OVER_def roll_mask_25)

lemma roll_HALF_25: "roll_HALF 25 1 = 0x1FFFFFF"
  by (simp add: roll_HALF_def roll_OVER_25)

lemma uint_wrapmsg: "uint (wrapmsg n) = 1 + n mod 0x3FFFFFF"
proof -
  have "0 \<le> n mod 0x3FFFFFF" "n mod 0x3FFFFFF < 0x3FFFFFF" by simp_all
  then have "(1 + n mod 0x3FFFFFF) mod 2 ^ 32 = 1 + n mod 0x3FFFFFF"
    by (intro mod_pos_pos_trivial) simp_all
  then show ?thesis
    unfolding wrapmsg_def uint_word_of_int by simp
qed

lemma wrapmsg_bounds: "1 \<le> uint (wrapmsg n)" "uint (wrapmsg n) < 0x4000000"
  by (simp_all add: uint_wrapmsg) 

lemma wrapmsg_inc: "roll_inc 25 1 (wrapmsg n) = wrapmsg (n + 1)"
proof -
  have u: "uint (wrapmsg n + 1) = uint (wrapmsg n) + 1"
    using wrapmsg_bounds [of n] by (simp add: uint_word_ariths)
  show ?thesis
  proof (cases "wrapmsg n + 1 > roll_mask 25")
    case True
    then have "uint (wrapmsg n) + 1 > 0x3FFFFFF" by (simp add: word_less_def roll_mask_25 u)
    with mod_add_small [of 1 "0x3FFFFFF" n] have "uint (wrapmsg (n + 1)) = 1"
      by (simp add: uint_wrapmsg split: if_splits)
    then have "wrapmsg (n + 1) = 1" by (simp add: word_uint_eq_iff)
    with True show ?thesis by (simp add: roll_inc_def Let_def)
  next
    case False
    then have "uint (wrapmsg n) + 1 \<le> 0x3FFFFFF" by (simp add: word_less_def roll_mask_25 u)
    with mod_add_small [of 1 "0x3FFFFFF" n] have "uint (wrapmsg (n + 1)) = uint (wrapmsg n) + 1"
      by (simp add: uint_wrapmsg split: if_splits)
    then have "wrapmsg (n + 1) = wrapmsg n + 1" by (simp add: word_uint_eq_iff u)
    with False show ?thesis by (simp add: roll_inc_def Let_def)
  qed
qed

lemma wrapmsg_dec: "roll_dec 25 1 (wrapmsg n) = wrapmsg (n - 1)"
proof (cases "wrapmsg n = 1")
  case True
  then have "n mod 0x3FFFFFF = 0" using uint_wrapmsg [of n] by simp
  with mod_diff_small [of 1 "0x3FFFFFF" n] have "uint (wrapmsg (n - 1)) = uint (roll_mask 25)"
    by (simp add: uint_wrapmsg roll_mask_25)
  with True show ?thesis by (simp add: roll_dec_def word_uint_eq_iff)
next
  case False
  then have nz: "uint (wrapmsg n) \<noteq> 1" by (simp add: word_uint_eq_iff)
  have u: "uint (wrapmsg n - 1) = uint (wrapmsg n) - 1"
    using wrapmsg_bounds [of n] by (simp add: uint_word_ariths)
  from nz wrapmsg_bounds(1) [of n] have "1 \<le> n mod 0x3FFFFFF"
    unfolding uint_wrapmsg by linarith
  with mod_diff_small [of 1 "0x3FFFFFF" n] have "uint (wrapmsg (n - 1)) = uint (wrapmsg n - 1)"
    by (simp add: uint_wrapmsg u)
  with False show ?thesis by (simp add: roll_dec_def word_uint_eq_iff)
qed

lemma msg_sint_diff: "sint (wrapmsg n - wrapmsg m) = n mod 0x3FFFFFF - m mod 0x3FFFFFF"
  using wrapmsg_bounds [of n] wrapmsg_bounds [of m]
  by (subst sint_diff_small) (simp_all add: uint_wrapmsg)

lemma roll_less_wrapmsg:
  assumes "\<bar>n - m\<bar> \<le> roll_HALF 25 1"
  shows "roll_less 25 1 (wrapmsg n) (wrapmsg m) \<longleftrightarrow> n < m"
proof -
  have "\<bar>n - m\<bar> < 0x3FFFFFF" using assms by (simp add: roll_HALF_25)
  then show ?thesis
    by (cases rule: mod_diff_cases)
      (use assms in \<open>auto simp: roll_less_def msg_sint_diff roll_HALF_25 Let_def\<close>)
qed

lemma wrapmsg_less: "wrapmsg n < wrapmsg m \<longleftrightarrow> n mod 0x3FFFFFF < m mod 0x3FFFFFF"
  by (simp add: word_less_def uint_wrapmsg)

lemma msg_over_sint:
  "sint (wrapmsg n + 0x3FFFFFF - wrapmsg m) = n mod 0x3FFFFFF - m mod 0x3FFFFFF + 0x3FFFFFF"
proof -
  have "uint (wrapmsg n + 0x3FFFFFF) = uint (wrapmsg n) + 0x3FFFFFF"
    using wrapmsg_bounds [of n] by (simp add: uint_word_ariths)
  then show ?thesis
    using wrapmsg_bounds [of n] wrapmsg_bounds [of m]
    by (subst sint_diff_small) (simp_all add: uint_wrapmsg)
qed

lemma msg_under_sint:
  "sint (wrapmsg n - (wrapmsg m + 0x3FFFFFF)) = n mod 0x3FFFFFF - m mod 0x3FFFFFF - 0x3FFFFFF"
proof -
  have "uint (wrapmsg m + 0x3FFFFFF) = uint (wrapmsg m) + 0x3FFFFFF"
    using wrapmsg_bounds [of m] by (simp add: uint_word_ariths)
  then show ?thesis
    using wrapmsg_bounds [of n] wrapmsg_bounds [of m]
    by (subst sint_diff_small) (simp_all add: uint_wrapmsg)
qed

lemma roll_Diff_wrapmsg:
  assumes "\<bar>n - m\<bar> < roll_HALF 25 1"
  shows "roll_Diff 25 1 (wrapmsg n) (wrapmsg m) = n - m"
proof -
  have "\<bar>n - m\<bar> < 0x3FFFFFF" using assms by (simp add: roll_HALF_25)
  then show ?thesis
    by (cases rule: mod_diff_cases)
      (use assms in \<open>auto simp: roll_Diff_def msg_sint_diff msg_over_sint msg_under_sint wrapmsg_less
        roll_HALF_25 roll_OVER_25 Let_def\<close>)
qed

interpretation msgno: circular_numbers wrapmsg "roll_inc 25 1" "roll_dec 25 1"
  "roll_less 25 1" "\<lambda>a b. roll_Diff 25 1 b a" "roll_HALF 25 1"
  by unfold_locales (simp_all add: wrapmsg_inc wrapmsg_dec roll_less_wrapmsg roll_Diff_wrapmsg
      roll_HALF_25)

text \<open>
  \<^verbatim>\<open>operator+=\<close> of a message number: exact, except where the (negative) offset cancels the number
  itself, and then the result is 0, which is below the range.
\<close>

lemma roll_add_wrapmsg:
  assumes "\<bar>d\<bar> < 0x3FFFFFF"
  shows "roll_add 25 1 (wrapmsg n) d =
    (if d = - uint (wrapmsg n) then 0 else wrapmsg (n + d))"
proof -
  define r where "r = n mod 0x3FFFFFF"
  have r: "0 \<le> r" "r < 0x3FFFFFF" by (simp_all add: r_def)
  have u: "uint (wrapmsg n) = 1 + r" by (simp add: uint_wrapmsg r_def)
  have nd: "(n + d) mod 0x3FFFFFF = (r + d) mod 0x3FFFFFF"
    by (simp add: r_def mod_add_left_eq)
  consider (neg) "- d > 1 + r" | (zero) "d = - (1 + r)" | (mid) "0 \<le> r + d" "r + d < 0x3FFFFFF"
    | (over) "0x3FFFFFF \<le> r + d" by linarith
  then show ?thesis
  proof cases
    case neg
    have "(r + d) mod 0x3FFFFFF = (r + d + 0x3FFFFFF) mod 0x3FFFFFF" by simp
    also have "\<dots> = r + d + 0x3FFFFFF" using neg r assms by (intro mod_pos_pos_trivial) linarith+
    finally have "wrapmsg (n + d) = word_of_int (0x4000000 + r + d)"
      unfolding wrapmsg_def using nd by (simp add: algebra_simps)
    with neg u show ?thesis by (simp add: roll_add_def roll_OVER_25 algebra_simps)
  next
    case zero
    then have "wrapmsg n + word_of_int d = 0"
      using u r by (simp add: word_uint_eq_iff uint_word_ariths uint_word_of_int mod_add_right_eq)
    with zero u r show ?thesis by (simp add: roll_add_def roll_OVER_25 Let_def)
  next
    case mid
    then have m: "(r + d) mod 0x3FFFFFF = r + d" by (intro mod_pos_pos_trivial)
    have s: "uint (wrapmsg n + word_of_int d) = 1 + r + d"
      using mid r u by (simp add: uint_word_ariths uint_word_of_int mod_add_right_eq)
    then have "wrapmsg n + word_of_int d = wrapmsg (n + d)"
      using m nd by (simp add: word_uint_eq_iff uint_wrapmsg)
    with mid s u show ?thesis by (simp add: roll_add_def roll_OVER_25 Let_def)
  next
    case over
    have "(r + d) mod 0x3FFFFFF = (r + d - 0x3FFFFFF) mod 0x3FFFFFF" by simp
    also have "\<dots> = r + d - 0x3FFFFFF" using over r assms by (intro mod_pos_pos_trivial) linarith+
    finally have m: "(r + d) mod 0x3FFFFFF = r + d - 0x3FFFFFF" .
    have s: "uint (wrapmsg n + word_of_int d) = 1 + r + d"
      using over r u assms by (simp add: uint_word_ariths uint_word_of_int mod_add_right_eq)
    then have "uint (wrapmsg n + word_of_int d - 0x3FFFFFF) = 1 + (r + d - 0x3FFFFFF)"
      using over r assms by (simp add: uint_word_ariths)
    then have "wrapmsg n + word_of_int d - 0x3FFFFFF = wrapmsg (n + d)"
      using m nd by (simp add: word_uint_eq_iff uint_wrapmsg)
    with over s u show ?thesis by (simp add: roll_add_def roll_OVER_25 Let_def)
  qed
qed

section \<open>Properties\<close>

text \<open>
  C20. Advancing a valid sequence number by less than the threshold and measuring the way back are
  inverse, across the roll-over: offset, length, order and the two-argument decrement all recover the
  distance.
\<close>

theorem seqno_window_exact:
  assumes "valid_seq s" "0 \<le> d" "d < m_iSeqNoTH"
  shows "valid_seq (incseq_by s d)
    \<and> seqoff s (incseq_by s d) = d \<and> seqoff (incseq_by s d) s = - d
    \<and> seqlen s (incseq_by s d) = d + 1
    \<and> decseq_by (incseq_by s d) d = s
    \<and> sgn (seqcmp (incseq_by s d) s) = sgn d"
proof -
  have s: "s = wrapseq s" using assms(1) by (simp add: wrapseq_id)
  have d: "d \<le> m_iMaxSeqNo" using assms by (simp add: seqno_const_defs)
  have i: "incseq_by s d = wrapseq (s + d)" using assms(2) d by (subst s) (simp add: incseq_by_wrapseq)
  have "seqoff s (incseq_by s d) = d" using assms by (subst s) (simp add: i seqoff_wrapseq)
  moreover have "seqoff (incseq_by s d) s = - d"
    using assms by (subst (2) s) (simp add: i seqoff_wrapseq)
  moreover have "seqlen s (incseq_by s d) = d + 1"
    using assms d by (subst s) (simp add: i seqlen_wrapseq)
  moreover have "decseq_by (incseq_by s d) d = s" using assms d s by (simp add: i decseq_by_wrapseq)
  moreover have "sgn (seqcmp (incseq_by s d) s) = sgn d"
    using assms by (subst (2) s) (simp add: i seqcmp_wrapseq_sgn)
  ultimately show ?thesis by (simp add: i)
qed

theorem seqno_window_exact_witness:
  "incseq_by 0x7FFFFFFE 5 = 3 \<and> seqoff 0x7FFFFFFE 3 = 5 \<and> seqlen 0x7FFFFFFE 3 = 6
   \<and> sgn (seqcmp 3 0x7FFFFFFE) = 1"
proof -
  have h: "valid_seq 0x7FFFFFFE" "(0::int) \<le> 5" "5 < m_iSeqNoTH"
    by (simp_all add: valid_seq_def seqno_const_defs)
  have i: "incseq_by 0x7FFFFFFE 5 = 3" by (simp add: incseq_by_def seqno_const_defs)
  show ?thesis using seqno_window_exact [OF h] by (simp add: i)
qed

text \<open>
  No operation on valid sequence numbers leaves the range of a 32-bit integer, with one exception:
  \<^verbatim>\<open>seqlen\<close> of a range that covers the whole number space overflows.
\<close>

theorem seqno_no_overflow:
  assumes "valid_seq s" "valid_seq t"
  shows "in_int32 (s - t) \<and> in_int32 (seqcmp s t) \<and> in_int32 (seqoff s t)
    \<and> valid_seq (incseq s) \<and> valid_seq (decseq s) \<and> valid_seq (maxseq s t)
    \<and> in_int32 (seqlen s t) = (\<not> (s = t + 1 \<or> (s = 0 \<and> t = m_iMaxSeqNo)))"
  using assms
  by (auto simp: in_int32_def valid_seq_def seqcmp_def seqoff_def seqlen_def incseq_def decseq_def
      maxseq_def seqno_const_defs)

theorem seqno_no_overflow_witness:
  "in_int32 (seqlen 7 3) \<and> \<not> in_int32 (seqlen 4 3)"
proof -
  have v: "valid_seq 7" "valid_seq 3" "valid_seq 4"
    by (simp_all add: valid_seq_def seqno_const_defs)
  show ?thesis using seqno_no_overflow [OF v(1,2)] seqno_no_overflow [OF v(3,2)] by simp
qed

text \<open>
  The order of sequence numbers turns around at a difference of exactly the threshold, not above
  it: a number that is \<^verbatim>\<open>m_iSeqNoTH\<close> ahead already counts as earlier, and the offset to it is
  negative, while one step less is still ahead.
\<close>

theorem seqno_threshold_flips:
  assumes "0 \<le> s" "s + m_iSeqNoTH \<le> m_iMaxSeqNo"
  shows "seqcmp (s + m_iSeqNoTH) s < 0 \<and> seqoff s (s + m_iSeqNoTH) = - (m_iSeqNoTH + 2)
    \<and> seqcmp (s + m_iSeqNoTH - 1) s > 0 \<and> seqoff s (s + m_iSeqNoTH - 1) = m_iSeqNoTH - 1"
  using assms by (simp add: seqcmp_def seqoff_def seqno_const_defs)

theorem seqno_threshold_flips_witness: "seqoff 0 0x3FFFFFFF = - 0x40000001"
proof -
  have h: "(0::int) \<le> 0" "0 + m_iSeqNoTH \<le> m_iMaxSeqNo" by (simp_all add: seqno_const_defs)
  show ?thesis using seqno_threshold_flips [OF h] by (simp add: m_iSeqNoTH_def)
qed

text \<open>
  Message numbers step, compare and add like the integers modulo the 26-bit range without zero;
  the one wrong result of \<^verbatim>\<open>operator+=\<close> is adding the number's own negative, which yields 0, a
  value outside the range, where stepping back would have reached the top.
\<close>

theorem msgno_add_except_zero:
  assumes "\<bar>d\<bar> < roll_HALF 25 1"
  shows "roll_add 25 1 (wrapmsg n) d
      = (if d = - uint (wrapmsg n) then 0 else wrapmsg (n + d))
    \<and> roll_Diff 25 1 (wrapmsg (n + d)) (wrapmsg n) = d
    \<and> roll_less 25 1 (wrapmsg n) (wrapmsg (n + d)) = (0 < d)
    \<and> roll_dec 25 1 1 = 0x3FFFFFF"
  using assms msgno.lt_emb [of n "n + d"] msgno.dist_emb [of "n + d" n]
  by (simp add: roll_add_wrapmsg roll_HALF_25 roll_dec_def roll_mask_25)

theorem msgno_add_except_zero_witness:
  "roll_add 25 1 1 (- 1) = 0 \<and> roll_dec 25 1 1 = 0x3FFFFFF"
proof -
  have h: "\<bar>- 1 :: int\<bar> < roll_HALF 25 1" by (simp add: roll_HALF_25)
  have w: "wrapmsg 0 = 1" by (simp add: wrapmsg_def)
  show ?thesis using msgno_add_except_zero [OF h, of 0] by (simp add: w)
qed

end
