(* ===== verification/Ranges.thy ===== *)
theory Ranges
  imports SeqNo
begin

text \<open>
  The abstract side of every loss container: a list of closed ranges of unwrapped sequence numbers,
  ascending and disjoint, the set of numbers they cover, and how many those are. The loss lists of
  \<^verbatim>\<open>srtcore/list.cpp\<close> are refined to these lists in the theories that follow.
\<close>

type_synonym ranges = "(int \<times> int) list"

definition rset :: "ranges \<Rightarrow> int set" where
  "rset rs = (\<Union>(a, b) \<in> set rs. {a..b})"

definition rcount :: "ranges \<Rightarrow> int" where
  "rcount rs = (\<Sum>(a, b) \<leftarrow> rs. b - a + 1)"

definition ranges_ok :: "ranges \<Rightarrow> bool" where
  "ranges_ok rs \<longleftrightarrow> (\<forall>(a, b) \<in> set rs. a \<le> b) \<and> sorted_wrt (\<lambda>x y. snd x < fst y) rs"

lemma rset_Nil [simp]: "rset [] = {}" by (simp add: rset_def)

lemma rset_Cons [simp]: "rset ((a, b) # rs) = {a..b} \<union> rset rs" by (simp add: rset_def)

lemma rset_append [simp]: "rset (xs @ ys) = rset xs \<union> rset ys" by (simp add: rset_def)

lemma rcount_Nil [simp]: "rcount [] = 0" by (simp add: rcount_def)

lemma rcount_Cons [simp]: "rcount ((a, b) # rs) = b - a + 1 + rcount rs" by (simp add: rcount_def)

lemma rcount_append [simp]: "rcount (xs @ ys) = rcount xs + rcount ys" by (simp add: rcount_def)

lemma ranges_ok_Nil [simp]: "ranges_ok []" by (simp add: ranges_ok_def)

lemma ranges_ok_Cons [simp]:
  "ranges_ok ((a, b) # rs) \<longleftrightarrow> a \<le> b \<and> (\<forall>x \<in> set rs. b < fst x) \<and> ranges_ok rs"
  by (auto simp: ranges_ok_def)

lemma ranges_ok_append:
  "ranges_ok (xs @ ys) \<longleftrightarrow>
     ranges_ok xs \<and> ranges_ok ys \<and> (\<forall>x \<in> set xs. \<forall>y \<in> set ys. snd x < fst y)"
  by (auto simp: ranges_ok_def sorted_wrt_append)

lemma ranges_ok_le: "ranges_ok rs \<Longrightarrow> (a, b) \<in> set rs \<Longrightarrow> a \<le> b"
  by (auto simp: ranges_ok_def)

lemma finite_rset [simp]: "finite (rset rs)"
  by (auto simp: rset_def)

lemma rset_above: "(\<forall>x \<in> set rs. k < fst x) \<Longrightarrow> n \<in> rset rs \<Longrightarrow> k < n"
  by (fastforce simp: rset_def)

lemma rset_below: "(\<forall>x \<in> set rs. snd x < k) \<Longrightarrow> n \<in> rset rs \<Longrightarrow> n < k"
  by (fastforce simp: rset_def)

lemma card_rset: "ranges_ok rs \<Longrightarrow> int (card (rset rs)) = rcount rs"
proof (induction rs)
  case (Cons x rs)
  obtain a b where x: "x = (a, b)" by (cases x)
  with Cons.prems have ab: "a \<le> b" "ranges_ok rs" and above: "\<forall>y \<in> set rs. b < fst y" by auto
  have "{a..b} \<inter> rset rs = {}" using rset_above [OF above] by fastforce
  then have "card ({a..b} \<union> rset rs) = card {a..b} + card (rset rs)"
    by (intro card_Un_disjoint) auto
  with Cons.IH ab x show ?case by simp
qed simp

lemma rcount_nonneg: "ranges_ok rs \<Longrightarrow> 0 \<le> rcount rs"
  using card_rset by (metis of_nat_0_le_iff)

lemma rcount_pos: "ranges_ok rs \<Longrightarrow> rs \<noteq> [] \<Longrightarrow> 0 < rcount rs"
  by (cases rs) (use rcount_nonneg in fastforce)+

lemma rcount_zero_iff: "ranges_ok rs \<Longrightarrow> rcount rs = 0 \<longleftrightarrow> rs = []"
  using rcount_pos by fastforce

lemma Min_rset: "ranges_ok ((a, b) # rs) \<Longrightarrow> Min (rset ((a, b) # rs)) = a"
  by (intro Min_eqI) (auto dest: rset_above)

text \<open>Which of the ranges holds a number, or between which two it falls.\<close>

lemma ranges_split:
  assumes "ranges_ok rs"
  obtains (hit) xs a b ys where "rs = xs @ (a, b) # ys" "a \<le> n" "n \<le> b"
      "\<forall>x \<in> set xs. snd x < n" "\<forall>y \<in> set ys. n < fst y"
  | (miss) xs ys where "rs = xs @ ys" "\<forall>x \<in> set xs. snd x < n" "\<forall>y \<in> set ys. n < fst y"
proof -
  from assms have "(\<exists>xs a b ys. rs = xs @ (a, b) # ys \<and> a \<le> n \<and> n \<le> b \<and>
      (\<forall>x \<in> set xs. snd x < n) \<and> (\<forall>y \<in> set ys. n < fst y)) \<or>
    (\<exists>xs ys. rs = xs @ ys \<and> (\<forall>x \<in> set xs. snd x < n) \<and> (\<forall>y \<in> set ys. n < fst y))"
    (is "?hit rs \<or> ?miss rs")
  proof (induction rs)
    case (Cons x rs)
    obtain a b where x: "x = (a, b)" by (cases x)
    with Cons.prems have ok: "a \<le> b" "\<forall>y \<in> set rs. b < fst y" "ranges_ok rs" by auto
    consider "n < a" | "a \<le> n" "n \<le> b" | "b < n" by linarith
    then show ?case
    proof cases
      case 1
      with ok have "\<forall>y \<in> set (x # rs). n < fst y" using x by fastforce
      then show ?thesis by (intro disjI2 exI [of _ "[]"] exI [of _ "x # rs"]) simp
    next
      case 2
      with ok have "\<forall>y \<in> set rs. n < fst y" by fastforce
      with 2 x show ?thesis by (intro disjI1 exI [of _ "[]"]) auto
    next
      case 3
      with Cons.IH ok(3) have "?hit rs \<or> ?miss rs" by blast
      then show ?thesis
      proof
        assume "?hit rs"
        then obtain xs c d ys where "rs = xs @ (c, d) # ys" "c \<le> n" "n \<le> d"
          "\<forall>x \<in> set xs. snd x < n" "\<forall>y \<in> set ys. n < fst y" by blast
        with 3 x show ?thesis
          by (intro disjI1 exI [of _ "x # xs"] exI [of _ c] exI [of _ d] exI [of _ ys]) auto
      next
        assume "?miss rs"
        then obtain xs ys where "rs = xs @ ys" "\<forall>x \<in> set xs. snd x < n" "\<forall>y \<in> set ys. n < fst y"
          by blast
        with 3 x show ?thesis by (intro disjI2 exI [of _ "x # xs"] exI [of _ ys]) auto
      qed
    qed
  qed auto
  then show thesis using hit miss by blast
qed

text \<open>Taking one number out of the range that holds it.\<close>

definition cut :: "int \<Rightarrow> int \<Rightarrow> int \<Rightarrow> ranges" where
  "cut n a b = (if a < n then [(a, n - 1)] else []) @ (if n < b then [(n + 1, b)] else [])"

lemma cut_set: "a \<le> n \<Longrightarrow> n \<le> b \<Longrightarrow> rset (cut n a b) = {a..b} - {n}"
  by (auto simp: cut_def)

lemma cut_count: "a \<le> n \<Longrightarrow> n \<le> b \<Longrightarrow> rcount (cut n a b) = b - a"
  by (auto simp: cut_def)

lemma cut_within: "a \<le> n \<Longrightarrow> n \<le> b \<Longrightarrow> (c, d) \<in> set (cut n a b) \<Longrightarrow> a \<le> c \<and> d \<le> b"
  by (auto simp: cut_def split: if_splits)

lemma cut_ok: "ranges_ok (xs @ (a, b) # ys) \<Longrightarrow> a \<le> n \<Longrightarrow> n \<le> b \<Longrightarrow> ranges_ok (xs @ cut n a b @ ys)"
  by (force simp: cut_def ranges_ok_append)

lemma cut_removes:
  assumes "ranges_ok (xs @ (a, b) # ys)" "a \<le> n" "n \<le> b"
  shows "rset (xs @ cut n a b @ ys) = rset (xs @ (a, b) # ys) - {n}"
proof -
  have "n \<notin> rset xs" "n \<notin> rset ys"
    using assms rset_above [of ys b n] rset_below [of xs a n] by (auto simp: ranges_ok_append)
  with cut_set [OF assms(2,3)] show ?thesis by auto
qed

text \<open>The number \<open>n\<close> can be compared with the ends of all ranges.\<close>

definition near :: "int \<Rightarrow> ranges \<Rightarrow> bool" where
  "near n rs \<longleftrightarrow> (\<forall>(a, b) \<in> set rs. \<bar>n - a\<bar> < m_iSeqNoTH \<and> \<bar>n - b\<bar> < m_iSeqNoTH)"

lemma near_simps [simp]:
  "near n []"
  "near n ((a, b) # rs) \<longleftrightarrow> \<bar>n - a\<bar> < m_iSeqNoTH \<and> \<bar>n - b\<bar> < m_iSeqNoTH \<and> near n rs"
  "near n (xs @ ys) \<longleftrightarrow> near n xs \<and> near n ys"
  by (auto simp: near_def)

end
