(* ===== verification/FreshLoss.thy ===== *)
theory FreshLoss
  imports Ranges
begin

text \<open>
  \<^verbatim>\<open>CRcvFreshLoss\<close> of \<^verbatim>\<open>srtcore/list.h\<close> and \<^verbatim>\<open>list.cpp\<close>: the records of freshly detected losses
  that wait for their reordering tolerance to expire before a loss report is sent. A record holds the
  range \<^verbatim>\<open>seq[0]..seq[1]\<close>, a time to live and the time it was made; the receiver keeps a deque of
  them, modelled as a list. The clock the constructor reads is an argument.
\<close>

section \<open>Records and operations\<close>

record fresh_loss =
  fl_lo :: int
  fl_hi :: int
  fl_ttl :: int
  fl_timestamp :: int

datatype Emod = NONE | STRIPPED | SPLIT | DELETE

definition CRcvFreshLoss :: "int \<Rightarrow> int \<Rightarrow> int \<Rightarrow> int \<Rightarrow> fresh_loss" where
  "CRcvFreshLoss now seqlo seqhi initial_age =
     \<lparr>fl_lo = seqlo, fl_hi = seqhi, fl_ttl = initial_age, fl_timestamp = now\<rparr>"

definition revoke :: "fresh_loss \<Rightarrow> int \<Rightarrow> Emod \<times> fresh_loss" where
  "revoke l sequence =
     (let diffbegin = seqcmp sequence (fl_lo l); diffend = seqcmp sequence (fl_hi l)
      in if diffbegin < 0 \<or> diffend > 0 then (NONE, l)
         else if diffbegin = 0
         then (if diffend = 0 then (DELETE, l)
               else (STRIPPED, l\<lparr>fl_lo := incseq (fl_lo l)\<rparr>))
         else if diffend = 0 then (STRIPPED, l\<lparr>fl_hi := decseq (fl_hi l)\<rparr>)
         else (SPLIT, l))"

text \<open>The overload on a range: \<open>lo\<close> may be \<^verbatim>\<open>SRT_SEQNO_NONE\<close>.\<close>

definition revoke_range :: "fresh_loss \<Rightarrow> int \<Rightarrow> int \<Rightarrow> Emod \<times> fresh_loss" where
  "revoke_range l lo hi =
     (if lo \<noteq> SRT_SEQNO_NONE \<and> seqcmp lo (fl_hi l) > 0 then (DELETE, l)
      else if seqcmp hi (fl_lo l) < 0 then (NONE, l)
      else if seqcmp hi (fl_hi l) < 0 then (STRIPPED, l\<lparr>fl_lo := incseq hi\<rparr>)
      else (DELETE, l))"

text \<open>
  \<^verbatim>\<open>removeOne\<close>: the result is whether the number was found, the TTL of the record that held it
  (0 if none did), and the container.
\<close>

fun removeOne :: "int \<Rightarrow> fresh_loss list \<Rightarrow> int \<Rightarrow> bool \<times> int \<times> fresh_loss list" where
  "removeOne now [] sequence = (False, 0, [])"
| "removeOne now (l # ls) sequence =
     (let had_ttl = fl_ttl l in
      case revoke l sequence of
        (NONE, l') \<Rightarrow> (case removeOne now ls sequence of (found, ttl, ls') \<Rightarrow> (found, ttl, l' # ls'))
      | (DELETE, l') \<Rightarrow> (True, had_ttl, ls)
      | (SPLIT, l') \<Rightarrow>
          (let next_end = fl_hi l'; l'' = l'\<lparr>fl_hi := decseq sequence\<rparr>; next_begin = incseq sequence
           in (True, had_ttl, l'' # CRcvFreshLoss now next_begin next_end (fl_ttl l'') # ls))
      | (STRIPPED, l') \<Rightarrow> (True, had_ttl, l' # ls))"

section \<open>The ranges a container stands for\<close>

definition fl_rep :: "fresh_loss \<Rightarrow> int \<times> int \<Rightarrow> bool" where
  "fl_rep l r \<longleftrightarrow> fl_lo l = wrapseq (fst r) \<and> fl_hi l = wrapseq (snd r)"

lemma revoke_cases:
  assumes "fl_rep l (a, b)" "a \<le> b" "near n [(a, b)]"
  shows "revoke l (wrapseq n) =
    (if n < a \<or> b < n then (NONE, l)
     else if a = n \<and> n = b then (DELETE, l)
     else if a = n then (STRIPPED, l\<lparr>fl_lo := wrapseq (n + 1)\<rparr>)
     else if n = b then (STRIPPED, l\<lparr>fl_hi := wrapseq (n - 1)\<rparr>)
     else (SPLIT, l))"
  using assms by (auto simp: revoke_def fl_rep_def seq_simps Let_def)

text \<open>One record: what remains of its range, as a list of records.\<close>

lemma removeOne_hit:
  assumes "fl_rep l (a, b)" "a \<le> n" "n \<le> b" "near n [(a, b)]"
  shows "\<exists>ls'. removeOne now (l # ls) (wrapseq n) = (True, fl_ttl l, ls' @ ls)
    \<and> list_all2 fl_rep ls' (cut n a b) \<and> (\<forall>l' \<in> set ls'. fl_ttl l' = fl_ttl l)"
proof -
  have c: "revoke l (wrapseq n) =
     (if a = n \<and> n = b then (DELETE, l)
     else if a = n then (STRIPPED, l\<lparr>fl_lo := wrapseq (n + 1)\<rparr>)
     else if n = b then (STRIPPED, l\<lparr>fl_hi := wrapseq (n - 1)\<rparr>)
     else (SPLIT, l))"
    using revoke_cases [of l a b n] assms by auto
  consider "a = n" "n = b" | "a = n" "n < b" | "a < n" "n = b" | "a < n" "n < b"
    using assms by linarith
  then show ?thesis
    using assms c by cases (auto simp: cut_def fl_rep_def CRcvFreshLoss_def seq_simps Let_def)
qed

lemma removeOne_skip:
  assumes "list_all2 fl_rep ls rs" "\<forall>x \<in> set rs. snd x < n" "ranges_ok rs" "near n rs"
  shows "removeOne now (ls @ ls') (wrapseq n) =
    (case removeOne now ls' (wrapseq n) of (found, ttl, ls'') \<Rightarrow> (found, ttl, ls @ ls''))"
  using assms
proof (induction ls rs rule: list_all2_induct)
  case Nil
  then show ?case by (simp split: prod.split)
next
  case (Cons l ls r rs)
  obtain a b where r: "r = (a, b)" by (cases r)
  with Cons have "revoke l (wrapseq n) = (NONE, l)" by (subst revoke_cases [of l a b]) auto
  with Cons r show ?case by (simp split: prod.splits)
qed

lemma removeOne_miss:
  assumes "list_all2 fl_rep ls rs" "ranges_ok rs" "near n rs" "n \<notin> rset rs"
  shows "removeOne now ls (wrapseq n) = (False, 0, ls)"
  using assms
proof (induction ls rs rule: list_all2_induct)
  case (Cons l ls r rs)
  obtain a b where r: "r = (a, b)" by (cases r)
  with Cons have "revoke l (wrapseq n) = (NONE, l)" by (subst revoke_cases [of l a b]) auto
  with Cons r show ?case by simp
qed simp

section \<open>Properties\<close>

text \<open>
  \<^verbatim>\<open>removeOne\<close> takes exactly the given sequence number out of the container: if some record
  covers it, the result is true with that record's TTL, the remaining records are again ascending and
  disjoint and cover everything else as before; if none does, nothing changes.
\<close>

theorem removeOne_removes_exactly:
  assumes rep: "list_all2 fl_rep ls rs" and ok: "ranges_ok rs" and near: "near n rs"
  shows "\<exists>ls' rs' ttl. removeOne now ls (wrapseq n) = (n \<in> rset rs, ttl, ls')
    \<and> list_all2 fl_rep ls' rs' \<and> ranges_ok rs' \<and> rset rs' = rset rs - {n}
    \<and> (if n \<in> rset rs then \<exists>i < length rs. n \<in> {fst (rs ! i)..snd (rs ! i)} \<and> ttl = fl_ttl (ls ! i)
       else ttl = 0 \<and> ls' = ls)"
proof (cases "n \<in> rset rs")
  case False
  with removeOne_miss [OF rep ok near False] rep ok show ?thesis by auto
next
  case True
  from ok True show ?thesis
  proof (cases rule: ranges_split [of rs n])
    case (miss xs ys)
    with True rset_above [of ys n n] rset_below [of xs n n] show ?thesis by auto
  next
    case (hit xs a b ys)
    from rep hit(1) obtain us l vs where ls: "ls = us @ l # vs" and
      u: "list_all2 fl_rep us xs" and l: "fl_rep l (a, b)" and v: "list_all2 fl_rep vs ys"
      by (auto simp: list_all2_append2 list_all2_Cons2)
    from removeOne_hit [OF l hit(2,3), of now vs] near hit obtain ms where
      m: "removeOne now (l # vs) (wrapseq n) = (True, fl_ttl l, ms @ vs)"
         "list_all2 fl_rep ms (cut n a b)" by auto
    have "removeOne now ls (wrapseq n) = (True, fl_ttl l, us @ ms @ vs)"
      using removeOne_skip [OF u hit(4), of now "l # vs"] ok near hit ls m(1)
      by (simp add: ranges_ok_append)
    moreover have "list_all2 fl_rep (us @ ms @ vs) (xs @ cut n a b @ ys)"
      using u m(2) v by (simp add: list_all2_appendI)
    moreover have "\<exists>i < length rs. n \<in> {fst (rs ! i)..snd (rs ! i)} \<and> fl_ttl l = fl_ttl (ls ! i)"
      using hit ls list_all2_lengthD [OF u] by (intro exI [of _ "length xs"]) (simp add: nth_append)
    ultimately show ?thesis
      using cut_ok [of xs a b ys n] cut_removes [of xs a b ys n] ok hit True by auto
  qed
qed

theorem removeOne_removes_exactly_witness:
  "\<exists>ls' rs' ttl. removeOne 9 [CRcvFreshLoss 0 0x7FFFFFFE 3 7] 0
      = (True, ttl, ls') \<and> list_all2 fl_rep ls' rs' \<and> rset rs' = {- 2, - 1, 1, 2, 3}"
proof -
  have w: "wrapseq 0 = 0" by (simp add: wrapseq_def seqno_const_defs)
  have "fl_rep (CRcvFreshLoss 0 0x7FFFFFFE 3 7) (- 2, 3)"
    by (simp add: fl_rep_def CRcvFreshLoss_def wrapseq_def seqno_const_defs)
  then have h: "list_all2 fl_rep [CRcvFreshLoss 0 0x7FFFFFFE 3 7] [(- 2, 3)]"
    "ranges_ok [(- 2, 3)]" "near 0 [(- 2, 3)]"
    by (simp_all add: seqno_const_defs)
  have "rset [(- 2, 3)] - {0} = {- 2, - 1, 1, 2, 3}" by auto
  with removeOne_removes_exactly [OF h, of 9] show ?thesis by (simp add: w) blast
qed

text \<open>
  Revoking a range from a fresh-loss record strips, keeps or deletes it so that what remains is
  exactly the part of the record above the revoked range, including when the record is older than the
  range and no lower bound was given.
\<close>

theorem revoke_range_keeps_newer:
  assumes "fl_rep l (a, b)" "a \<le> b" "lo \<le> hi"
    and "near hi [(a, b)]" "\<bar>lo - b\<bar> < m_iSeqNoTH"
    and "slo = SRT_SEQNO_NONE \<or> slo = wrapseq lo"
  shows "revoke_range l slo (wrapseq hi) =
     (if b \<le> hi then (DELETE, l)
      else if hi < a then (NONE, l)
      else (STRIPPED, l\<lparr>fl_lo := wrapseq (hi + 1)\<rparr>))"
  using assms by (auto simp: revoke_range_def fl_rep_def seq_simps)

theorem revoke_range_keeps_newer_witness:
  "fst (revoke_range (CRcvFreshLoss 0 10 20 7) SRT_SEQNO_NONE 15) = STRIPPED"
proof -
  have h: "fl_rep (CRcvFreshLoss 0 10 20 7) (10, 20)" "near 15 [(10, 20)]" "\<bar>15 - 20 :: int\<bar> < m_iSeqNoTH"
    by (simp_all add: fl_rep_def CRcvFreshLoss_def wrapseq_def seqno_const_defs)
  have w: "wrapseq 15 = 15" by (simp add: wrapseq_def seqno_const_defs)
  show ?thesis
    using revoke_range_keeps_newer [OF h(1) _ _ h(2,3), of SRT_SEQNO_NONE] by (simp add: w)
qed

end
