(* ===== verification/RcvLossList.thy ===== *)
theory RcvLossList
  imports Ranges
begin

text \<open>
  \<^verbatim>\<open>CRcvLossList\<close> of \<^verbatim>\<open>srtcore/list.h\<close> and \<^verbatim>\<open>list.cpp\<close>: the receiver's list of lost sequence
  numbers, a doubly linked list of ranges threaded through a static array. A node for a range that
  starts at \<open>s\<close> sits at the array position that is as far from the head node (modulo the array
  size) as \<open>s\<close> is from the head's number, so that a number finds its node without a search.
  A range of one number has \<^verbatim>\<open>seqend = SRT_SEQNO_NONE\<close>.

  Operations are in the option monad; \<open>None\<close> stands for an access outside the array or a
  loop that does not end. The refinement to lists of ranges shows that neither happens.
\<close>

section \<open>The list and its operations\<close>

record rcv_seq =
  seqstart :: int
  seqend :: int
  inext :: int
  iprior :: int

record rcv_loss_list =
  m_caSeq :: "rcv_seq list"
  m_iHead :: int
  m_iTail :: int
  m_iLength :: int
  m_iSize :: int
  m_iLargestSeq :: int

text \<open>
  The constructor: \<open>mem\<close> is the memory that \<^verbatim>\<open>new Seq[m_iSize]\<close> returns, of which only two fields
  of each node are initialised.
\<close>

definition CRcvLossList :: "rcv_seq list \<Rightarrow> rcv_loss_list" where
  "CRcvLossList mem =
     \<lparr>m_caSeq = map (\<lambda>n. n\<lparr>seqstart := SRT_SEQNO_NONE, seqend := SRT_SEQNO_NONE\<rparr>) mem,
      m_iHead = -1, m_iTail = -1, m_iLength = 0, m_iSize = int (length mem),
      m_iLargestSeq = SRT_SEQNO_NONE\<rparr>"

text \<open>The part of \<^verbatim>\<open>insert\<close> after the check against the largest number seen.\<close>

definition rl_insert_new :: "rcv_loss_list \<Rightarrow> int \<Rightarrow> int \<Rightarrow> (int \<times> rcv_loss_list) option" where
  "rl_insert_new l0 seqno1 seqno2 =
     (let l = l0\<lparr>m_iLargestSeq := seqno2\<rparr> in
      if m_iLength l = 0
      then do {
        arr \<leftarrow> upd (m_caSeq l) 0 (\<lambda>n. n\<lparr>seqstart := seqno1,
                 seqend := (if seqno2 \<noteq> seqno1 then seqno2 else seqend n), inext := -1, iprior := -1\<rparr>);
        let n = seqlen seqno1 seqno2;
        Some (n, l\<lparr>m_caSeq := arr, m_iHead := 0, m_iTail := 0, m_iLength := m_iLength l + n\<rparr>)
      }
      else do {
        h \<leftarrow> rd (m_caSeq l) (m_iHead l);
        let offset = seqoff (seqstart h) seqno1;
        if offset < 0 then Some (-1, l)
        else do {
          let loc = (m_iHead l + offset) smod m_iSize l;
          t \<leftarrow> rd (m_caSeq l) (m_iTail l);
          l' \<leftarrow> (if seqend t \<noteq> SRT_SEQNO_NONE \<and> incseq (seqend t) = seqno1
                then do {
                  arr \<leftarrow> upd (m_caSeq l) (m_iTail l) (\<lambda>n. n\<lparr>seqend := seqno2\<rparr>);
                  Some (l\<lparr>m_caSeq := arr\<rparr>)
                }
                else do {
                  arr1 \<leftarrow> upd (m_caSeq l) loc (\<lambda>n. n\<lparr>seqstart := seqno1,
                            seqend := (if seqno2 \<noteq> seqno1 then seqno2 else seqend n)\<rparr>);
                  arr2 \<leftarrow> upd arr1 (m_iTail l) (\<lambda>n. n\<lparr>inext := loc\<rparr>);
                  arr3 \<leftarrow> upd arr2 loc (\<lambda>n. n\<lparr>iprior := m_iTail l, inext := -1\<rparr>);
                  Some (l\<lparr>m_caSeq := arr3, m_iTail := loc\<rparr>)
                });
          let n = seqlen seqno1 seqno2;
          Some (n, l'\<lparr>m_iLength := m_iLength l' + n\<rparr>)
        }
      })"

definition rl_insert :: "rcv_loss_list \<Rightarrow> int \<Rightarrow> int \<Rightarrow> (int \<times> rcv_loss_list) option" where
  "rl_insert l seqno1 seqno2 =
     (if m_iLargestSeq l \<noteq> SRT_SEQNO_NONE \<and> seqcmp seqno1 (m_iLargestSeq l) \<le> 0
      then (if seqcmp seqno2 (m_iLargestSeq l) > 0
            then rl_insert_new l (incseq (m_iLargestSeq l)) seqno2
            else Some (0, l))
      else rl_insert_new l seqno1 seqno2)"

text \<open>\<^verbatim>\<open>remove\<close>, the branch for a node that holds one number only: unlink the node.\<close>

definition rl_unlink :: "rcv_loss_list \<Rightarrow> int \<Rightarrow> rcv_loss_list option" where
  "rl_unlink l loc = do {
     n \<leftarrow> rd (m_caSeq l) loc;
     l1 \<leftarrow> (if m_iHead l = loc
           then do {
             let head = inext n;
             if head \<noteq> -1
             then do {
               arr \<leftarrow> upd (m_caSeq l) head (\<lambda>n. n\<lparr>iprior := -1\<rparr>);
               Some (l\<lparr>m_iHead := head, m_caSeq := arr\<rparr>)
             }
             else Some (l\<lparr>m_iHead := head, m_iTail := -1\<rparr>)
           }
           else do {
             arr \<leftarrow> upd (m_caSeq l) (iprior n) (\<lambda>p. p\<lparr>inext := inext n\<rparr>);
             n' \<leftarrow> rd arr loc;
             if inext n' \<noteq> -1
             then do {
               arr' \<leftarrow> upd arr (inext n') (\<lambda>q. q\<lparr>iprior := iprior n'\<rparr>);
               Some (l\<lparr>m_caSeq := arr'\<rparr>)
             }
             else Some (l\<lparr>m_caSeq := arr, m_iTail := iprior n'\<rparr>)
           });
     arr \<leftarrow> upd (m_caSeq l1) loc (\<lambda>n. n\<lparr>seqstart := SRT_SEQNO_NONE\<rparr>);
     Some (l1\<lparr>m_caSeq := arr\<rparr>)
   }"

text \<open>\<^verbatim>\<open>remove\<close>, the branch for the first number of a longer range: move the node one position on.\<close>

definition rl_link_prior :: "rcv_seq list \<Rightarrow> int \<Rightarrow> rcv_seq list option" where
  "rl_link_prior arr i = do { m \<leftarrow> rd arr i; upd arr (iprior m) (\<lambda>p. p\<lparr>inext := i\<rparr>) }"

definition rl_link_next :: "rcv_seq list \<Rightarrow> int \<Rightarrow> rcv_seq list option" where
  "rl_link_next arr i = do { m \<leftarrow> rd arr i; upd arr (inext m) (\<lambda>q. q\<lparr>iprior := i\<rparr>) }"

definition rl_shift_node :: "rcv_seq list \<Rightarrow> int \<Rightarrow> int \<Rightarrow> rcv_seq list option" where
  "rl_shift_node arr loc i = do {
     n0 \<leftarrow> rd arr loc;
     arr1 \<leftarrow> upd arr i (\<lambda>m. m\<lparr>seqstart := incseq (seqstart n0)\<rparr>);
     n \<leftarrow> rd arr1 loc;
     arr2 \<leftarrow> (if seqcmp (seqend n) (incseq (seqstart n)) > 0
             then upd arr1 i (\<lambda>m. m\<lparr>seqend := seqend n\<rparr>) else Some arr1);
     arr3 \<leftarrow> upd arr2 loc (\<lambda>m. m\<lparr>seqstart := SRT_SEQNO_NONE, seqend := SRT_SEQNO_NONE\<rparr>);
     n' \<leftarrow> rd arr3 loc;
     upd arr3 i (\<lambda>m. m\<lparr>inext := inext n', iprior := iprior n'\<rparr>)
   }"

definition rl_shift :: "rcv_loss_list \<Rightarrow> int \<Rightarrow> rcv_loss_list option" where
  "rl_shift l loc = do {
     let i = (loc + 1) smod m_iSize l;
     arr \<leftarrow> rl_shift_node (m_caSeq l) loc i;
     l1 \<leftarrow> (if m_iHead l = loc then Some (l\<lparr>m_caSeq := arr, m_iHead := i\<rparr>)
           else do { arr' \<leftarrow> rl_link_prior arr i; Some (l\<lparr>m_caSeq := arr'\<rparr>) });
     if m_iTail l1 = loc then Some (l1\<lparr>m_iTail := i\<rparr>)
     else do { arr' \<leftarrow> rl_link_next (m_caSeq l1) i; Some (l1\<lparr>m_caSeq := arr'\<rparr>) }
   }"

text \<open>\<^verbatim>\<open>remove\<close>, the last number of a range, and a number inside one: the range is cut or split.\<close>

definition rl_cut_end :: "rcv_seq \<Rightarrow> int \<Rightarrow> rcv_seq" where
  "rl_cut_end n seqno =
     (if seqno = incseq (seqstart n) then n\<lparr>seqend := SRT_SEQNO_NONE\<rparr>
      else n\<lparr>seqend := decseq seqno\<rparr>)"

definition rl_split_node :: "rcv_seq list \<Rightarrow> int \<Rightarrow> int \<Rightarrow> int \<Rightarrow> rcv_seq list option" where
  "rl_split_node arr loc i seqno = do {
     arr1 \<leftarrow> upd arr loc (\<lambda>m. m\<lparr>seqstart := incseq seqno\<rparr>);
     n \<leftarrow> rd arr1 i;
     m \<leftarrow> rd arr1 loc;
     arr2 \<leftarrow> (if seqcmp (seqend n) (seqstart m) > 0
             then upd arr1 loc (\<lambda>m. m\<lparr>seqend := seqend n\<rparr>) else Some arr1);
     arr3 \<leftarrow> upd arr2 i (\<lambda>n. rl_cut_end n seqno);
     n' \<leftarrow> rd arr3 i;
     arr4 \<leftarrow> upd arr3 loc (\<lambda>m. m\<lparr>inext := inext n'\<rparr>);
     arr5 \<leftarrow> upd arr4 i (\<lambda>n. n\<lparr>inext := loc\<rparr>);
     upd arr5 loc (\<lambda>m. m\<lparr>iprior := i\<rparr>)
   }"

definition rl_split :: "rcv_loss_list \<Rightarrow> int \<Rightarrow> int \<Rightarrow> int \<Rightarrow> rcv_loss_list option" where
  "rl_split l loc0 i seqno = do {
     let loc = (loc0 + 1) smod m_iSize l;
     arr \<leftarrow> rl_split_node (m_caSeq l) loc i seqno;
     if m_iTail l = i then Some (l\<lparr>m_caSeq := arr, m_iTail := loc\<rparr>)
     else do { arr' \<leftarrow> rl_link_next arr loc; Some (l\<lparr>m_caSeq := arr'\<rparr>) }
   }"

text \<open>The backward search over empty positions.\<close>

partial_function (option) rl_search_prior :: "rcv_seq list \<Rightarrow> int \<Rightarrow> int \<Rightarrow> int option" where
  "rl_search_prior arr sz i =
     Option.bind (rd arr i)
       (\<lambda>n. if seqstart n = SRT_SEQNO_NONE then rl_search_prior arr sz ((i - 1 + sz) smod sz)
            else Some i)"

definition rl_removed :: "rcv_loss_list \<Rightarrow> rcv_loss_list" where
  "rl_removed l =
     (let l' = l\<lparr>m_iLength := m_iLength l - 1\<rparr>
      in if m_iLength l' = 0 then l'\<lparr>m_iLargestSeq := SRT_SEQNO_NONE\<rparr> else l')"

definition rl_note_largest :: "rcv_loss_list \<Rightarrow> int \<Rightarrow> rcv_loss_list" where
  "rl_note_largest l seqno =
     (if m_iLargestSeq l = SRT_SEQNO_NONE \<or> seqcmp seqno (m_iLargestSeq l) > 0
      then l\<lparr>m_iLargestSeq := seqno\<rparr> else l)"

definition rl_remove :: "rcv_loss_list \<Rightarrow> int \<Rightarrow> (bool \<times> rcv_loss_list) option" where
  "rl_remove l0 seqno =
     (let l = rl_note_largest l0 seqno in
      if m_iLength l = 0 then Some (False, l)
      else do {
        h \<leftarrow> rd (m_caSeq l) (m_iHead l);
        let offset = seqoff (seqstart h) seqno;
        if offset < 0 then Some (False, l)
        else do {
          let loc = (m_iHead l + offset) smod m_iSize l;
          n \<leftarrow> rd (m_caSeq l) loc;
          if seqno = seqstart n
          then do {
            l' \<leftarrow> (if seqend n = SRT_SEQNO_NONE then rl_unlink l loc else rl_shift l loc);
            Some (True, rl_removed l')
          }
          else do {
            i \<leftarrow> rl_search_prior (m_caSeq l) (m_iSize l) ((loc - 1 + m_iSize l) smod m_iSize l);
            p \<leftarrow> rd (m_caSeq l) i;
            if seqend p = SRT_SEQNO_NONE \<or> seqcmp seqno (seqend p) > 0 then Some (False, l)
            else do {
              l' \<leftarrow> (if seqno = seqend p
                    then do {
                      arr \<leftarrow> upd (m_caSeq l) i (\<lambda>n. rl_cut_end n seqno);
                      Some (l\<lparr>m_caSeq := arr\<rparr>)
                    }
                    else rl_split l loc i seqno);
              Some (True, rl_removed l')
            }
          }
        }
      })"

text \<open>The loop of the range overload of \<^verbatim>\<open>remove\<close> and of \<^verbatim>\<open>removeUpTo\<close>.\<close>

partial_function (option) remove_loop ::
    "('s \<Rightarrow> int \<Rightarrow> (bool \<times> 's) option) \<Rightarrow> 's \<Rightarrow> int \<Rightarrow> int \<Rightarrow> 's option" where
  "remove_loop rem l i seqno2 =
     (if seqcmp i seqno2 \<le> 0
      then Option.bind (rem l i) (\<lambda>r. remove_loop rem (snd r) (incseq i) seqno2)
      else Some l)"

definition rl_remove_range :: "rcv_loss_list \<Rightarrow> int \<Rightarrow> int \<Rightarrow> (bool \<times> rcv_loss_list) option" where
  "rl_remove_range l seqno1 seqno2 =
     (if seqcmp seqno1 seqno2 > 0 then Some (False, l)
      else do { l' \<leftarrow> remove_loop rl_remove l seqno1 seqno2; Some (True, l') })"

definition rl_getLossLength :: "rcv_loss_list \<Rightarrow> int" where
  "rl_getLossLength l = m_iLength l"

definition rl_getFirstLostSeq :: "rcv_loss_list \<Rightarrow> int option" where
  "rl_getFirstLostSeq l =
     (if m_iLength l = 0 then Some SRT_SEQNO_NONE
      else do { h \<leftarrow> rd (m_caSeq l) (m_iHead l); Some (seqstart h) })"

definition rl_removeUpTo :: "rcv_loss_list \<Rightarrow> int \<Rightarrow> (int \<times> rcv_loss_list) option" where
  "rl_removeUpTo l seqno_last = do {
     first \<leftarrow> rl_getFirstLostSeq l;
     if first = SRT_SEQNO_NONE then Some (first, l)
     else if seqcmp seqno_last first < 0 then Some (first, l)
     else do { l' \<leftarrow> remove_loop rl_remove l first seqno_last; Some (first, l') }
   }"

partial_function (option) rl_find_from :: "rcv_seq list \<Rightarrow> int \<Rightarrow> int \<Rightarrow> int \<Rightarrow> bool option" where
  "rl_find_from arr p seqno1 seqno2 =
     (if p = -1 then Some False
      else Option.bind (rd arr p) (\<lambda>n.
        if seqcmp (seqstart n) seqno1 = 0
           \<or> (seqcmp (seqstart n) seqno1 > 0 \<and> seqcmp (seqstart n) seqno2 \<le> 0)
           \<or> (seqcmp (seqstart n) seqno1 < 0 \<and> seqend n \<noteq> SRT_SEQNO_NONE
              \<and> seqcmp (seqend n) seqno1 \<ge> 0)
        then Some True else rl_find_from arr (inext n) seqno1 seqno2))"

definition rl_find :: "rcv_loss_list \<Rightarrow> int \<Rightarrow> int \<Rightarrow> bool option" where
  "rl_find l seqno1 seqno2 =
     (if m_iLength l = 0 then Some False else rl_find_from (m_caSeq l) (m_iHead l) seqno1 seqno2)"

text \<open>
  \<^verbatim>\<open>getLossArray\<close>: the array is the list of the words written, its length is \<^verbatim>\<open>len\<close>. A range start
  is marked with bit 31, which makes the 32-bit word negative.
\<close>

definition LOSSDATA_SEQNO_RANGE_FIRST :: int where
  "LOSSDATA_SEQNO_RANGE_FIRST = - (2 ^ 31)"

partial_function (option) rl_loss_array :: "rcv_seq list \<Rightarrow> int \<Rightarrow> int list \<Rightarrow> int \<Rightarrow> int list option" where
  "rl_loss_array arr i out limit =
     (if int (length out) < limit - 1 \<and> i \<noteq> -1
      then Option.bind (rd arr i) (\<lambda>n.
        rl_loss_array arr (inext n)
          (if seqend n \<noteq> SRT_SEQNO_NONE
           then out @ [seqstart n + LOSSDATA_SEQNO_RANGE_FIRST, seqend n]
           else out @ [seqstart n]) limit)
      else Some out)"

definition rl_getLossArray :: "rcv_loss_list \<Rightarrow> int \<Rightarrow> int list option" where
  "rl_getLossArray l limit = rl_loss_array (m_caSeq l) (m_iHead l) [] limit"

declare rl_search_prior.simps [code] remove_loop.simps [code] rl_find_from.simps [code]
  rl_loss_array.simps [code]

end
