(* ===== verification/LossPos.thy ===== *)
theory LossPos
  imports Ranges
begin

text \<open>
  Positions of range nodes in the static arrays of the loss lists of \<^verbatim>\<open>srtcore/list.cpp\<close>: the node
  of a range that starts at \<open>a\<close> is at \<open>(a + k) mod size\<close> for a base \<open>k\<close>. Both loss lists
  are represented with these positions; the lemmas here say where a list of ranges begins and ends and
  when two positions differ.
\<close>

definition lpos :: "int \<Rightarrow> int \<Rightarrow> int \<Rightarrow> int" where
  "lpos k sz a = (a + k) mod sz"

definition firstp :: "(int \<Rightarrow> int) \<Rightarrow> ranges \<Rightarrow> int \<Rightarrow> int" where
  "firstp P rs d = (case rs of [] \<Rightarrow> d | (a, b) # _ \<Rightarrow> P a)"

definition lastp :: "(int \<Rightarrow> int) \<Rightarrow> ranges \<Rightarrow> int \<Rightarrow> int" where
  "lastp P rs d = (if rs = [] then d else P (fst (last rs)))"

lemma firstp_simps [simp]:
  "firstp P [] d = d" "firstp P ((a, b) # rs) d = P a"
  by (simp_all add: firstp_def)

lemma firstp_append: "firstp P (xs @ ys) d = firstp P xs (firstp P ys d)"
  by (cases xs) auto

lemma lastp_simps [simp]:
  "lastp P [] d = d" "lastp P (xs @ [(a, b)]) d = P a"
  "lastp P (xs @ y # ys) d = lastp P (y # ys) d" "lastp P [(a, b)] d = P a"
  by (simp_all add: lastp_def)

lemma lastp_Cons: "lastp P ((a, b) # rs) d = lastp P rs (P a)"
  by (simp add: lastp_def)

lemma lastp_default: "rs \<noteq> [] \<Longrightarrow> lastp P rs d = lastp P rs (-1)"
  by (simp add: lastp_def)

lemma firstp_default: "rs \<noteq> [] \<Longrightarrow> firstp P rs d = firstp P rs (-1)"
  by (cases rs) auto

lemma linkp_default:
  "rs \<noteq> [] \<Longrightarrow> lastp P rs (P c) = lastp P rs (-1)"
  "rs \<noteq> [] \<Longrightarrow> lastp P rs (lastp P qs d) = lastp P rs (-1)"
  "rs \<noteq> [] \<Longrightarrow> firstp P rs (P c) = firstp P rs (-1)"
  "rs \<noteq> [] \<Longrightarrow> firstp P rs (firstp P qs d) = firstp P rs (-1)"
  by (rule lastp_default firstp_default, assumption)+

lemma lastp_append: "lastp P (xs @ ys) d = lastp P ys (lastp P xs d)"
  by (simp add: lastp_def)

text \<open>Every range start has a position inside the array.\<close>

definition posf :: "(int \<Rightarrow> int) \<Rightarrow> int \<Rightarrow> bool" where
  "posf P sz \<longleftrightarrow> (\<forall>a. 0 \<le> P a \<and> P a < sz)"

lemma posf_lpos: "0 < sz \<Longrightarrow> posf (lpos k sz) sz"
  by (simp add: posf_def lpos_def)

lemma posfD: "posf P sz \<Longrightarrow> 0 \<le> P a" "posf P sz \<Longrightarrow> P a < sz"
  by (simp_all add: posf_def)

lemma posf_neq: "posf P sz \<Longrightarrow> P a \<noteq> -1"
  using posfD(1) [of P sz a] by auto

lemma posf_nat_eq: "posf P sz \<Longrightarrow> 0 \<le> p \<Longrightarrow> nat p = nat (P b) \<longleftrightarrow> p = P b"
  by (simp add: posf_def eq_nat_nat_iff)

lemma firstp_neg_iff: "posf P sz \<Longrightarrow> firstp P rs (-1) = -1 \<longleftrightarrow> rs = []"
  by (cases rs) (auto dest: posf_neq)

lemma lastp_neg_iff: "posf P sz \<Longrightarrow> lastp P rs (-1) = -1 \<longleftrightarrow> rs = []"
  by (auto simp: lastp_def dest: posf_neq)

lemma firstp_in: "rs \<noteq> [] \<Longrightarrow> firstp P rs d \<in> P ` fst ` set rs"
  by (cases rs) auto

lemma lastp_in: "rs \<noteq> [] \<Longrightarrow> lastp P rs d \<in> P ` fst ` set rs"
  by (auto simp: lastp_def)

lemma pos_in_bounds: "posf P sz \<Longrightarrow> p \<in> P ` fst ` set rs \<Longrightarrow> 0 \<le> p \<and> p < sz"
  by (auto simp: posf_def)

lemma lpos_eq_iff: "\<bar>a - b\<bar> < sz \<Longrightarrow> lpos k sz a = lpos k sz b \<longleftrightarrow> a = b"
  unfolding lpos_def using mod_eq_iff_small [of "a + k" "b + k" sz] by simp

lemma lpos_step: "(lpos k sz a + d) mod sz = lpos k sz (a + d)"
  unfolding lpos_def using mod_add_left_eq [of "a + k" sz d] by (simp add: ac_simps)

lemma ranges_ok_distinct: "ranges_ok rs \<Longrightarrow> distinct (map fst rs)"
  by (induction rs) (force simp: ranges_ok_def)+

lemma image_disjointI: "(\<And>m. m \<in> set ms \<Longrightarrow> f m \<notin> B) \<Longrightarrow> f ` set ms \<inter> B = {}"
  by auto

lemma lpos_bounds: "0 < sz \<Longrightarrow> 0 \<le> lpos k sz m \<and> lpos k sz m < sz"
  by (simp add: lpos_def)

lemma lpos_back: "0 < sz \<Longrightarrow> (lpos k sz m - 1 + sz) smod sz = lpos k sz (m - 1)"
proof -
  assume sz: "0 < sz"
  have "0 \<le> lpos k sz m - 1 + sz" using lpos_bounds [OF sz, of k m] sz by linarith
  then have "(lpos k sz m - 1 + sz) smod sz = (lpos k sz m + -1) mod sz" using sz by simp
  then show ?thesis unfolding lpos_step by simp
qed

lemma lpos_advance:
  "0 < sz \<Longrightarrow> 0 \<le> n - a \<Longrightarrow> (lpos k sz a + (n - a)) smod sz = lpos k sz n"
  using lpos_bounds [of sz k a] lpos_step [of k sz a "n - a"] by simp

end
