(* ===== verification/RcvLossRefine.thy ===== *)
theory RcvLossRefine
  imports RcvLossList LossPos
begin

text \<open>
  The receiver's loss list refined to a list of ranges. \<open>rl_rep k rs l\<close> says that the array, the
  links and the counters of \<open>l\<close> hold exactly the ranges \<open>rs\<close>: the node of a range that starts
  at \<open>a\<close> is at position \<open>(a + k) mod size\<close>, its links are the positions of its neighbours,
  every other position is empty, and the whole span fits into the array. Each branch of \<^verbatim>\<open>remove\<close>
  is shown to be one edit of such a list (\<open>rl_splice\<close>), and the backward search to find the nearest
  node that precedes a number.
\<close>

section \<open>Chains of nodes\<close>

definition rnode :: "int \<Rightarrow> int \<Rightarrow> int \<Rightarrow> int \<Rightarrow> rcv_seq" where
  "rnode a b nxt prv = \<lparr>seqstart = wrapseq a, seqend = (if a = b then SRT_SEQNO_NONE else wrapseq b),
     inext = nxt, iprior = prv\<rparr>"

fun chain :: "rcv_seq list \<Rightarrow> (int \<Rightarrow> int) \<Rightarrow> int \<Rightarrow> ranges \<Rightarrow> int \<Rightarrow> bool" where
  "chain arr P prv [] nxt = True"
| "chain arr P prv ((a, b) # rs) nxt \<longleftrightarrow>
     arr ! nat (P a) = rnode a b (firstp P rs nxt) prv \<and> chain arr P (P a) rs nxt"

definition setnext :: "rcv_seq list \<Rightarrow> int \<Rightarrow> int \<Rightarrow> rcv_seq list" where
  "setnext arr p v = (if p = -1 then arr else arr[nat p := (arr ! nat p)\<lparr>inext := v\<rparr>])"

definition setprior :: "rcv_seq list \<Rightarrow> int \<Rightarrow> int \<Rightarrow> rcv_seq list" where
  "setprior arr p v = (if p = -1 then arr else arr[nat p := (arr ! nat p)\<lparr>iprior := v\<rparr>])"

lemma rnode_sel [simp]:
  "seqstart (rnode a b nxt prv) = wrapseq a"
  "seqend (rnode a b nxt prv) = (if a = b then SRT_SEQNO_NONE else wrapseq b)"
  "inext (rnode a b nxt prv) = nxt"
  "iprior (rnode a b nxt prv) = prv"
  by (simp_all add: rnode_def)

lemma rnode_upd [simp]:
  "(rnode a b nxt prv)\<lparr>inext := v\<rparr> = rnode a b v prv"
  "(rnode a b nxt prv)\<lparr>iprior := v\<rparr> = rnode a b nxt v"
  by (simp_all add: rnode_def)

lemma chain_append:
  "chain arr P prv (xs @ ys) nxt \<longleftrightarrow>
     chain arr P prv xs (firstp P ys nxt) \<and> chain arr P (lastp P xs prv) ys nxt"
  by (induction xs arbitrary: prv) (auto simp: firstp_append lastp_Cons)

lemma chain_other:
  assumes "posf P sz" "p \<notin> P ` fst ` set rs" "0 \<le> p"
  shows "chain (arr[nat p := x]) P prv rs nxt \<longleftrightarrow> chain arr P prv rs nxt"
  using assms(2)
proof (induction rs arbitrary: prv)
  case (Cons r rs)
  obtain a b where r: "r = (a, b)" by (cases r)
  with Cons.prems assms have "nat p \<noteq> nat (P a)" by (auto simp: posf_nat_eq)
  with Cons r show ?case by simp
qed simp

lemma chain_cong:
  "\<forall>x \<in> set rs. arr ! nat (P (fst x)) = arr' ! nat (P (fst x)) \<Longrightarrow>
   chain arr P prv rs nxt = chain arr' P prv rs nxt"
  by (induction rs arbitrary: prv) auto

lemma chain_nth:
  "chain arr P prv (xs @ (a, b) # ys) nxt \<Longrightarrow>
     arr ! nat (P a) = rnode a b (firstp P ys nxt) (lastp P xs prv)"
  by (simp add: chain_append)

lemma setnext_other:
  assumes "posf P sz" "p \<notin> P ` fst ` set rs" "0 \<le> p \<or> p = -1"
  shows "chain (setnext arr p v) P prv rs nxt \<longleftrightarrow> chain arr P prv rs nxt"
  using assms by (auto simp: setnext_def chain_other)

lemma setprior_other:
  assumes "posf P sz" "p \<notin> P ` fst ` set rs" "0 \<le> p \<or> p = -1"
  shows "chain (setprior arr p v) P prv rs nxt \<longleftrightarrow> chain arr P prv rs nxt"
  using assms by (auto simp: setprior_def chain_other)

lemma chain_setnext:
  assumes P: "posf P sz" and ch: "chain arr P prv rs nxt" and inj: "inj_on P (fst ` set rs)"
    and dist: "distinct (map fst rs)" and len: "sz \<le> int (length arr)"
  shows "chain (setnext arr (lastp P rs (-1)) v) P prv rs v"
proof (cases rs rule: rev_cases)
  case (snoc xs r)
  obtain a b where r: "r = (a, b)" by (cases r)
  have nin: "P a \<notin> P ` fst ` set xs"
    using inj dist snoc r by (force simp: inj_on_def)
  have "nat (P a) < length arr" using posfD [OF P, of a] len by linarith
  with ch snoc r nin P show ?thesis
    by (simp add: chain_append setnext_def posf_neq chain_other posfD)
qed (simp add: setnext_def)

lemma chain_setprior:
  assumes P: "posf P sz" and ch: "chain arr P prv rs nxt" and inj: "inj_on P (fst ` set rs)"
    and dist: "distinct (map fst rs)" and len: "sz \<le> int (length arr)"
  shows "chain (setprior arr (firstp P rs (-1)) v) P v rs nxt"
proof (cases rs)
  case (Cons r xs)
  obtain a b where r: "r = (a, b)" by (cases r)
  have nin: "P a \<notin> P ` fst ` set xs"
    using inj dist Cons r by (force simp: inj_on_def)
  have "nat (P a) < length arr" using posfD [OF P, of a] len by linarith
  with ch Cons r nin P show ?thesis
    by (simp add: setprior_def posf_neq chain_other posfD)
qed (simp add: setprior_def)

section \<open>What a list stands for\<close>

definition rl_rep :: "int \<Rightarrow> ranges \<Rightarrow> rcv_loss_list \<Rightarrow> bool" where
  "rl_rep k rs l \<longleftrightarrow>
     0 < m_iSize l \<and> int (length (m_caSeq l)) = m_iSize l \<and> m_iSize l \<le> m_iSeqNoTH
   \<and> ranges_ok rs \<and> (\<forall>x \<in> set rs. \<forall>y \<in> set rs. snd x - fst y < m_iSize l)
   \<and> chain (m_caSeq l) (lpos k (m_iSize l)) (-1) rs (-1)
   \<and> (\<forall>p. 0 \<le> p \<longrightarrow> p < m_iSize l \<longrightarrow> p \<notin> lpos k (m_iSize l) ` fst ` set rs \<longrightarrow>
        seqstart (m_caSeq l ! nat p) = SRT_SEQNO_NONE \<and> seqend (m_caSeq l ! nat p) = SRT_SEQNO_NONE)
   \<and> m_iHead l = firstp (lpos k (m_iSize l)) rs (-1)
   \<and> m_iTail l = lastp (lpos k (m_iSize l)) rs (-1)
   \<and> m_iLength l = rcount rs"

lemma rl_rep_span:
  assumes "rl_rep k rs l" "(a, b) \<in> set rs" "(c, d) \<in> set rs" "a \<le> n" "n \<le> b"
  shows "\<bar>n - c\<bar> < m_iSize l" "\<bar>n - d\<bar> < m_iSize l"
proof -
  have ok: "a \<le> b" "c \<le> d" using assms by (auto simp: rl_rep_def dest: ranges_ok_le)
  have "b - c < m_iSize l" "d - a < m_iSize l" using assms by (fastforce simp: rl_rep_def)+
  with ok assms(4,5) show "\<bar>n - c\<bar> < m_iSize l" "\<bar>n - d\<bar> < m_iSize l" by linarith+
qed

lemma rl_rep_inj:
  assumes "rl_rep k rs l"
  shows "inj_on (lpos k (m_iSize l)) (fst ` set rs)"
proof (rule inj_onI)
  fix x y assume xy: "x \<in> fst ` set rs" "y \<in> fst ` set rs"
    and eq: "lpos k (m_iSize l) x = lpos k (m_iSize l) y"
  from xy obtain x' y' where m: "(x, x') \<in> set rs" "(y, y') \<in> set rs" by auto
  have "x \<le> x'" using assms m by (auto simp: rl_rep_def dest: ranges_ok_le)
  with rl_rep_span(1) [OF assms m, of x] have "\<bar>x - y\<bar> < m_iSize l" by simp
  with eq show "x = y" by (simp add: lpos_eq_iff)
qed

lemma rl_rep_empty: "0 < length mem \<Longrightarrow> int (length mem) \<le> m_iSeqNoTH \<Longrightarrow> rl_rep k [] (CRcvLossList mem)"
  by (simp add: rl_rep_def CRcvLossList_def)

text \<open>A number inside a range, other than its start, has a free position.\<close>

lemma rl_rep_free:
  assumes rep: "rl_rep k (xs @ (a, b) # ys) l" and n: "a < n" "n \<le> b"
  shows "lpos k (m_iSize l) n \<notin> lpos k (m_iSize l) ` fst ` set (xs @ (a, b) # ys)"
proof
  assume "lpos k (m_iSize l) n \<in> lpos k (m_iSize l) ` fst ` set (xs @ (a, b) # ys)"
  then obtain c d where cd: "(c, d) \<in> set (xs @ (a, b) # ys)"
    and eq: "lpos k (m_iSize l) n = lpos k (m_iSize l) c" by (elim imageE) (metis prod.collapse)
  have "\<bar>n - c\<bar> < m_iSize l" using rl_rep_span(1) [OF rep _ cd, of a b n] n by simp
  with eq have "n = c" by (simp add: lpos_eq_iff)
  have ok: "ranges_ok (xs @ (a, b) # ys)" using rep by (simp add: rl_rep_def)
  from ok cd have "c \<le> d" by (rule ranges_ok_le)
  from cd consider "(c, d) \<in> set xs" | "c = a" | "(c, d) \<in> set ys" by auto
  then show False
  proof cases
    case 1
    with ok have "d < a" by (auto simp: ranges_ok_append)
    with \<open>c \<le> d\<close> \<open>n = c\<close> n show False by simp
  next
    case 2
    with \<open>n = c\<close> n show False by simp
  next
    case 3
    with ok have "b < c" by (auto simp: ranges_ok_append)
    with \<open>n = c\<close> n show False by simp
  qed
qed

text \<open>
  The facts about a list and one of its ranges that the operations use, and the obligation for the
  list they leave behind.
\<close>

lemma rl_rep_mid:
  assumes "rl_rep k (xs @ (a, b) # ys) l"
  defines "P \<equiv> lpos k (m_iSize l)"
  shows "posf P (m_iSize l)" "int (length (m_caSeq l)) = m_iSize l"
    "m_caSeq l ! nat (P a) = rnode a b (firstp P ys (-1)) (lastp P xs (-1))"
    "chain (m_caSeq l) P (-1) xs (P a)" "chain (m_caSeq l) P (P a) ys (-1)"
    "P a \<notin> P ` fst ` set xs" "P a \<notin> P ` fst ` set ys"
    "P ` fst ` set xs \<inter> P ` fst ` set ys = {}"
    "inj_on P (fst ` set xs)" "inj_on P (fst ` set ys)"
    "distinct (map fst xs)" "distinct (map fst ys)"
proof -
  from rl_rep_inj [OF assms(1)] have inj: "inj_on P (fst ` set (xs @ (a, b) # ys))" by (simp add: P_def)
  from assms have d: "distinct (map fst (xs @ (a, b) # ys))"
    by (intro ranges_ok_distinct) (simp add: rl_rep_def)
  have ch: "chain (m_caSeq l) P (-1) (xs @ (a, b) # ys) (-1)"
    using assms by (simp add: rl_rep_def)
  show "posf P (m_iSize l)" "int (length (m_caSeq l)) = m_iSize l"
    using assms by (auto simp: rl_rep_def intro: posf_lpos)
  show "m_caSeq l ! nat (P a) = rnode a b (firstp P ys (-1)) (lastp P xs (-1))"
    using chain_nth [OF ch] .
  show "chain (m_caSeq l) P (-1) xs (P a)" "chain (m_caSeq l) P (P a) ys (-1)"
    using ch by (simp_all add: chain_append)
  show "distinct (map fst xs)" "distinct (map fst ys)" using d by simp_all
  show "inj_on P (fst ` set xs)" "inj_on P (fst ` set ys)"
    using inj by (auto intro: inj_on_subset)
  have dj: "a \<notin> fst ` set xs" "a \<notin> fst ` set ys" "fst ` set xs \<inter> fst ` set ys = {}"
    using d by auto
  show "P a \<notin> P ` fst ` set xs"
    using inj_on_image_mem_iff [OF inj, of a "fst ` set xs"] dj by auto
  show "P a \<notin> P ` fst ` set ys"
    using inj_on_image_mem_iff [OF inj, of a "fst ` set ys"] dj by auto
  show "P ` fst ` set xs \<inter> P ` fst ` set ys = {}"
    using inj_on_image_Int [OF inj, of "fst ` set xs" "fst ` set ys"] dj by auto
qed


lemma setnext_length [simp]: "length (setnext arr p v) = length arr"
  by (simp add: setnext_def)

lemma setprior_length [simp]: "length (setprior arr p v) = length arr"
  by (simp add: setprior_def)

lemma setnext_nth:
  "q = -1 \<or> 0 \<le> q \<and> q < int (length arr) \<Longrightarrow> 0 \<le> p \<Longrightarrow>
   setnext arr q v ! nat p = (if p = q then (arr ! nat p)\<lparr>inext := v\<rparr> else arr ! nat p)"
  by (auto simp: setnext_def nth_list_update)

lemma setprior_nth:
  "q = -1 \<or> 0 \<le> q \<and> q < int (length arr) \<Longrightarrow> 0 \<le> p \<Longrightarrow>
   setprior arr q v ! nat p = (if p = q then (arr ! nat p)\<lparr>iprior := v\<rparr> else arr ! nat p)"
  by (auto simp: setprior_def nth_list_update)

text \<open>Replacing one node of a list by new nodes, and linking them to the neighbours.\<close>

lemma chain_splice:
  assumes P: "posf P sz" and len: "sz \<le> int (length arr)"
    and xs: "chain arr P (-1) xs p" "inj_on P (fst ` set xs)" "distinct (map fst xs)"
    and ys: "chain arr P p ys (-1)" "inj_on P (fst ` set ys)" "distinct (map fst ys)"
    and dj: "P ` fst ` set xs \<inter> P ` fst ` set ys = {}"
    and ms: "P ` fst ` set ms \<inter> P ` fst ` set xs = {}" "P ` fst ` set ms \<inter> P ` fst ` set ys = {}"
    and mid: "chain arr P (lastp P xs (-1)) ms (firstp P ys (-1))"
  defines "arr' \<equiv> setprior (setnext arr (lastp P xs (-1)) (firstp P (ms @ ys) (-1)))
      (firstp P ys (-1)) (lastp P (xs @ ms) (-1))"
  shows "chain arr' P (-1) (xs @ ms @ ys) (-1)"
proof -
  let ?q = "lastp P xs (-1)" and ?r = "firstp P ys (-1)"
  have neg: "-1 \<notin> P ` fst ` set zs" for zs :: ranges
    using P by (auto dest: posf_neq)
  have q: "?q \<in> P ` fst ` set xs \<or> ?q = -1" using lastp_in [of xs P "-1"] by (cases "xs = []") auto
  have r: "?r \<in> P ` fst ` set ys \<or> ?r = -1" using firstp_in [of ys P "-1"] by (cases "ys = []") auto
  have qb: "0 \<le> ?q \<or> ?q = -1" using q pos_in_bounds [OF P] by blast
  have rb: "0 \<le> ?r \<or> ?r = -1" using r pos_in_bounds [OF P] by blast
  have qys: "?q \<notin> P ` fst ` set ys" using q dj neg [of ys] by (metis disjoint_iff)
  have qms: "?q \<notin> P ` fst ` set ms" using q ms(1) neg [of ms] by (metis disjoint_iff)
  have rxs: "?r \<notin> P ` fst ` set xs" using r dj neg [of xs] by (metis disjoint_iff)
  have rms: "?r \<notin> P ` fst ` set ms" using r ms(2) neg [of ms] by (metis disjoint_iff)
  have "chain (setnext arr ?q (firstp P (ms @ ys) (-1))) P (-1) xs (firstp P (ms @ ys) (-1))"
    by (rule chain_setnext [OF P xs(1-3) len])
  then have "chain arr' P (-1) xs (firstp P (ms @ ys) (-1))"
    unfolding arr'_def setprior_other [OF P rxs rb] .
  moreover have "chain arr' P ?q ms (firstp P ys (-1))"
    unfolding arr'_def setprior_other [OF P rms rb] setnext_other [OF P qms qb] by (rule mid)
  moreover have "chain arr' P (lastp P (xs @ ms) (-1)) ys (-1)"
  proof -
    have "chain (setnext arr ?q (firstp P (ms @ ys) (-1))) P p ys (-1)"
      unfolding setnext_other [OF P qys qb] by (rule ys(1))
    then show ?thesis unfolding arr'_def
      by (rule chain_setprior [OF P _ ys(2,3)]) (simp add: len)
  qed
  ultimately show ?thesis
    by (simp add: chain_append firstp_append lastp_append)
qed


definition rl_splice :: "int \<Rightarrow> ranges \<Rightarrow> ranges \<Rightarrow> ranges \<Rightarrow> rcv_seq list \<Rightarrow> rcv_loss_list \<Rightarrow> rcv_loss_list" where
  "rl_splice k xs ms ys arr l =
     (let P = lpos k (m_iSize l) in
      l\<lparr>m_caSeq := setprior (setnext arr (lastp P xs (-1)) (firstp P (ms @ ys) (-1)))
          (firstp P ys (-1)) (lastp P (xs @ ms) (-1)),
        m_iHead := firstp P (xs @ ms @ ys) (-1), m_iTail := lastp P (xs @ ms @ ys) (-1)\<rparr>)"

text \<open>The array after an edit that replaces the range \<open>(a, b)\<close> by \<open>ms\<close>, before relinking.\<close>

definition rl_edit :: "int \<Rightarrow> ranges \<Rightarrow> int \<Rightarrow> int \<Rightarrow> ranges \<Rightarrow> ranges \<Rightarrow> rcv_seq list \<Rightarrow> rcv_loss_list \<Rightarrow> bool" where
  "rl_edit k xs a b ms ys arr l \<longleftrightarrow>
     rl_rep k (xs @ (a, b) # ys) l \<and> ranges_ok (xs @ ms @ ys) \<and> (\<forall>(c, d) \<in> set ms. a \<le> c \<and> d \<le> b)
   \<and> length arr = length (m_caSeq l)
   \<and> (\<forall>p. 0 \<le> p \<longrightarrow> p < m_iSize l \<longrightarrow> p \<noteq> lpos k (m_iSize l) a \<longrightarrow>
        p \<notin> lpos k (m_iSize l) ` fst ` set ms \<longrightarrow> arr ! nat p = m_caSeq l ! nat p)
   \<and> chain arr (lpos k (m_iSize l)) (lastp (lpos k (m_iSize l)) xs (-1)) ms
        (firstp (lpos k (m_iSize l)) ys (-1))
   \<and> (lpos k (m_iSize l) a \<notin> lpos k (m_iSize l) ` fst ` set ms \<longrightarrow>
        seqstart (arr ! nat (lpos k (m_iSize l) a)) = SRT_SEQNO_NONE
      \<and> seqend (arr ! nat (lpos k (m_iSize l) a)) = SRT_SEQNO_NONE)"

lemma rl_edit_free:
  assumes ed: "rl_edit k xs a b ms ys arr l"
  defines "P \<equiv> lpos k (m_iSize l)"
  shows "P ` fst ` set ms \<inter> P ` fst ` set xs = {}" "P ` fst ` set ms \<inter> P ` fst ` set ys = {}"
proof -
  have rep: "rl_rep k (xs @ (a, b) # ys) l" using ed by (simp add: rl_edit_def)
  note mid0 = rl_rep_mid [OF rep, folded P_def]
  have free: "P (fst m) \<notin> P ` fst ` set xs \<and> P (fst m) \<notin> P ` fst ` set ys" if "m \<in> set ms" for m
  proof (cases "fst m = a")
    case False
    have "a \<le> fst m" "snd m \<le> b" using that ed by (auto simp: rl_edit_def)
    moreover have "fst m \<le> snd m"
      using ed that by (cases m) (auto simp: rl_edit_def ranges_ok_append dest: ranges_ok_le)
    ultimately have "a < fst m" "fst m \<le> b" using False by linarith+
    from rl_rep_free [OF rep this] show ?thesis by (auto simp: P_def)
  qed (use mid0 in auto)
  show "P ` fst ` set ms \<inter> P ` fst ` set xs = {}" "P ` fst ` set ms \<inter> P ` fst ` set ys = {}"
    using image_disjointI [of ms "\<lambda>m. P (fst m)"] free by (simp_all add: image_image)
qed

lemma rl_edit_chains:
  assumes ed: "rl_edit k xs a b ms ys arr l"
  defines "P \<equiv> lpos k (m_iSize l)"
  shows "chain arr P (-1) xs (P a)" "chain arr P (P a) ys (-1)"
proof -
  have rep: "rl_rep k (xs @ (a, b) # ys) l" using ed by (simp add: rl_edit_def)
  note mid0 = rl_rep_mid [OF rep, folded P_def] and fr = rl_edit_free [OF ed, folded P_def]
  have keep: "\<forall>x \<in> set xs \<union> set ys. arr ! nat (P (fst x)) = m_caSeq l ! nat (P (fst x))"
  proof
    fix x assume x: "x \<in> set xs \<union> set ys"
    have "0 \<le> P (fst x)" "P (fst x) < m_iSize l" using mid0(1) by (simp_all add: posfD)
    moreover have "P (fst x) \<noteq> P a" using x mid0(6,7) by (metis Un_iff image_eqI)
    moreover have "P (fst x) \<notin> P ` fst ` set ms" using x fr by blast
    ultimately show "arr ! nat (P (fst x)) = m_caSeq l ! nat (P (fst x))"
      using ed unfolding rl_edit_def P_def by blast
  qed
  then show "chain arr P (-1) xs (P a)" "chain arr P (P a) ys (-1)"
    using mid0(4,5) chain_cong [of xs arr P "m_caSeq l"] chain_cong [of ys arr P "m_caSeq l"]
    by simp_all
qed

lemma rl_edit_unused:
  assumes ed: "rl_edit k xs a b ms ys arr l"
  defines "P \<equiv> lpos k (m_iSize l)"
  assumes p: "0 \<le> p" "p < m_iSize l" "p \<notin> P ` fst ` set (xs @ ms @ ys)"
  shows "seqstart (m_caSeq (rl_splice k xs ms ys arr l) ! nat p) = SRT_SEQNO_NONE
    \<and> seqend (m_caSeq (rl_splice k xs ms ys arr l) ! nat p) = SRT_SEQNO_NONE"
proof -
  have rep: "rl_rep k (xs @ (a, b) # ys) l" and len: "length arr = length (m_caSeq l)"
    using ed by (simp_all add: rl_edit_def)
  note mid0 = rl_rep_mid [OF rep, folded P_def]
  have q: "lastp P xs (-1) = -1 \<or> 0 \<le> lastp P xs (-1) \<and> lastp P xs (-1) < int (length arr)"
    using pos_in_bounds [OF mid0(1) lastp_in [of xs P "-1"]] len mid0(2) by (cases "xs = []") auto
  have r: "firstp P ys (-1) = -1 \<or> 0 \<le> firstp P ys (-1) \<and> firstp P ys (-1) < int (length arr)"
    using pos_in_bounds [OF mid0(1) firstp_in [of ys P "-1"]] len mid0(2) by (cases "ys = []") auto
  have "seqstart (arr ! nat p) = SRT_SEQNO_NONE \<and> seqend (arr ! nat p) = SRT_SEQNO_NONE"
  proof (cases "p = P a")
    case True
    have "P a \<notin> P ` fst ` set ms" using p(3) True by (simp add: image_Un)
    with ed True show ?thesis by (simp add: P_def rl_edit_def)
  next
    case False
    have "p \<notin> P ` fst ` set ms" using p(3) by (simp add: image_Un)
    with ed p False have "arr ! nat p = m_caSeq l ! nat p" by (simp add: P_def rl_edit_def)
    moreover have "p \<notin> P ` fst ` set (xs @ (a, b) # ys)" using p(3) False by auto
    ultimately show ?thesis using rep p(1,2) by (simp add: rl_rep_def flip: P_def)
  qed
  then show ?thesis
    using p(1) q r by (auto simp: rl_splice_def Let_def setprior_nth setnext_nth simp flip: P_def)
qed

lemma rl_edit_span:
  assumes ed: "rl_edit k xs a b ms ys arr l" and xy: "x \<in> set (xs @ ms @ ys)" "y \<in> set (xs @ ms @ ys)"
  shows "snd x - fst y < m_iSize l"
proof -
  have sp: "snd x - fst y < m_iSize l"
    if "x \<in> set (xs @ (a, b) # ys)" "y \<in> set (xs @ (a, b) # ys)" for x y
    using ed that unfolding rl_edit_def rl_rep_def by blast
  have up: "\<exists>x' \<in> set (xs @ (a, b) # ys). snd x \<le> snd x' \<and> fst x' \<le> fst x"
    if "x \<in> set (xs @ ms @ ys)" for x
    by (cases "x \<in> set ms", use that ed in \<open>fastforce simp: rl_edit_def\<close>, use that in auto)
  from up [OF xy(1)] up [OF xy(2)] obtain x' y' where
    "x' \<in> set (xs @ (a, b) # ys)" "snd x \<le> snd x'" "y' \<in> set (xs @ (a, b) # ys)" "fst y' \<le> fst y"
    by blast
  with sp [of x' y'] show ?thesis by linarith
qed

lemma rl_rep_splice:
  assumes ed: "rl_edit k xs a b ms ys arr l"
  shows "rl_rep k (xs @ ms @ ys)
    ((rl_splice k xs ms ys arr l)\<lparr>m_iLength := m_iLength l - (b - a + 1) + rcount ms\<rparr>)"
proof -
  define P where "P = lpos k (m_iSize l)"
  have rep: "rl_rep k (xs @ (a, b) # ys) l" and len: "length arr = length (m_caSeq l)"
    and mid: "chain arr P (lastp P xs (-1)) ms (firstp P ys (-1))"
    and ok: "ranges_ok (xs @ ms @ ys)"
    using ed by (simp_all add: rl_edit_def P_def)
  note mid0 = rl_rep_mid [OF rep, folded P_def] and fr = rl_edit_free [OF ed, folded P_def]
  have "chain (m_caSeq (rl_splice k xs ms ys arr l)) P (-1) (xs @ ms @ ys) (-1)"
    using chain_splice [OF mid0(1) _ rl_edit_chains(1) [OF ed, folded P_def] mid0(9,11)
      rl_edit_chains(2) [OF ed, folded P_def] mid0(10,12) mid0(8) fr mid]
      len mid0(2) by (simp add: rl_splice_def P_def Let_def)
  then show ?thesis
    unfolding rl_rep_def
    using rl_edit_unused [OF ed] rl_edit_span [OF ed] ok rep mid0(2) len
    by (simp add: rl_splice_def Let_def rl_rep_def P_def)
qed

lemma rcv_loss_list_eqI:
  "l = (l' :: rcv_loss_list) \<longleftrightarrow> m_caSeq l = m_caSeq l' \<and> m_iHead l = m_iHead l' \<and> m_iTail l = m_iTail l' \<and>
   m_iLength l = m_iLength l' \<and> m_iSize l = m_iSize l' \<and> m_iLargestSeq l = m_iLargestSeq l'"
  by (cases l, cases l') simp

lemma rl_unlink_eq:
  assumes rep: "rl_rep k (xs @ (a, a) # ys) l"
  defines "p \<equiv> lpos k (m_iSize l) a"
  shows "rl_unlink l p =
    Some (rl_splice k xs [] ys ((m_caSeq l)[nat p := (m_caSeq l ! nat p)\<lparr>seqstart := SRT_SEQNO_NONE\<rparr>]) l)"
proof -
  define P where "P = lpos k (m_iSize l)"
  note m = rl_rep_mid [OF rep, folded P_def]
  have p: "0 \<le> p" "p < m_iSize l" "p = P a" using posfD [OF m(1)] by (simp_all add: p_def P_def)
  have head: "m_iHead l = firstp P (xs @ (a, a) # ys) (-1)" "m_iTail l = lastp P (xs @ (a, a) # ys) (-1)"
    using rep by (simp_all add: rl_rep_def P_def)
  have q: "xs \<noteq> [] \<Longrightarrow> 0 \<le> lastp P xs (-1) \<and> lastp P xs (-1) < m_iSize l \<and> lastp P xs (-1) \<noteq> p"
    using pos_in_bounds [OF m(1) lastp_in] lastp_in [of xs P] m(6) p(3) by metis
  have f: "xs \<noteq> [] \<Longrightarrow> firstp P xs d \<noteq> p" for d using firstp_in [of xs P] m(6) p(3) by metis
  have r: "ys \<noteq> [] \<Longrightarrow> 0 \<le> firstp P ys (-1) \<and> firstp P ys (-1) < m_iSize l \<and> firstp P ys (-1) \<noteq> p"
    using pos_in_bounds [OF m(1) firstp_in] firstp_in [of ys P] m(7) p(3) by metis
  have rq: "xs \<noteq> [] \<Longrightarrow> ys \<noteq> [] \<Longrightarrow> firstp P ys (-1) \<noteq> lastp P xs (-1)"
    using firstp_in [of ys P] lastp_in [of xs P] m(8) by (metis disjoint_iff)
  have l: "xs \<noteq> [] \<Longrightarrow> lastp P xs p = lastp P xs (-1)" "ys \<noteq> [] \<Longrightarrow> lastp P ys p = lastp P ys (-1)"
    "xs \<noteq> [] \<Longrightarrow> firstp P xs p = firstp P xs (-1)" 
    "xs \<noteq> [] \<Longrightarrow> firstp P xs (firstp P ys d) = firstp P xs (-1)" 
    "ys \<noteq> [] \<Longrightarrow> lastp P ys (lastp P xs d) = lastp P ys (-1)" for d
    by (rule lastp_default firstp_default, assumption)+
  consider "xs = []" "ys = []" | "xs = []" "ys \<noteq> []" | "xs \<noteq> []" "ys = []" | "xs \<noteq> []" "ys \<noteq> []"
    by blast
  then show ?thesis
  proof cases
    case 1
    then show ?thesis using m(2,3) head p
      by (simp add: rl_unlink_def rl_splice_def arr_simps setnext_def setprior_def Let_def flip: P_def)
  next
    case 2
    then show ?thesis using m(2,3) head p r l
      by (simp add: rcv_loss_list_eqI rl_unlink_def rl_splice_def arr_simps setnext_def setprior_def Let_def nth_update_int
        lastp_Cons eq_nat_nat_iff list_update_swap flip: P_def)
  next
    case 3
    then show ?thesis using m(2,3) head p q f l
      by (simp add: rcv_loss_list_eqI rl_unlink_def rl_splice_def arr_simps setnext_def setprior_def Let_def firstp_append nth_update_int
       eq_nat_nat_iff list_update_swap flip: P_def)
  next
    case 4
    then show ?thesis using m(2,3) head p q f r rq l
      by (simp add: rcv_loss_list_eqI rl_unlink_def rl_splice_def arr_simps setnext_def setprior_def Let_def firstp_append lastp_append nth_update_int
         lastp_Cons eq_nat_nat_iff list_update_swap flip: P_def)
  qed
qed

text \<open>The positions an operation on the range \<open>(a, b)\<close> touches, and how they differ.\<close>

lemma rl_rep_links:
  assumes rep: "rl_rep k (xs @ (a, b) # ys) l"
  defines "P \<equiv> lpos k (m_iSize l)"
  shows "0 \<le> P c \<and> P c < m_iSize l \<and> P c \<noteq> -1"
    and "m_iHead l = firstp P (xs @ (a, b) # ys) (-1)" "m_iTail l = lastp P (xs @ (a, b) # ys) (-1)"
    and "xs \<noteq> [] \<Longrightarrow> 0 \<le> lastp P xs (-1) \<and> lastp P xs (-1) < m_iSize l"
    and "xs \<noteq> [] \<Longrightarrow> firstp P xs d \<noteq> P a \<and> lastp P xs (-1) \<noteq> P a"
    and "ys \<noteq> [] \<Longrightarrow> 0 \<le> firstp P ys (-1) \<and> firstp P ys (-1) < m_iSize l"
    and "ys \<noteq> [] \<Longrightarrow> firstp P ys (-1) \<noteq> P a \<and> lastp P ys d \<noteq> P a"
    and "xs \<noteq> [] \<Longrightarrow> ys \<noteq> [] \<Longrightarrow> firstp P ys (-1) \<noteq> lastp P xs (-1)"
    and "a < n \<Longrightarrow> n \<le> b \<Longrightarrow> P n \<noteq> P a"
    and "a < n \<Longrightarrow> n \<le> b \<Longrightarrow> xs \<noteq> [] \<Longrightarrow> lastp P xs (-1) \<noteq> P n"
    and "a < n \<Longrightarrow> n \<le> b \<Longrightarrow> ys \<noteq> [] \<Longrightarrow> firstp P ys (-1) \<noteq> P n"
    and "a < n \<Longrightarrow> n \<le> b \<Longrightarrow> seqstart (m_caSeq l ! nat (P n)) = SRT_SEQNO_NONE
      \<and> seqend (m_caSeq l ! nat (P n)) = SRT_SEQNO_NONE"
proof -
  note m = rl_rep_mid [OF rep, folded P_def]
  show "0 \<le> P c \<and> P c < m_iSize l \<and> P c \<noteq> -1" using posfD [OF m(1)] posf_neq [OF m(1)] by blast
  show "m_iHead l = firstp P (xs @ (a, b) # ys) (-1)" "m_iTail l = lastp P (xs @ (a, b) # ys) (-1)"
    using rep by (simp_all add: rl_rep_def P_def)
  show "xs \<noteq> [] \<Longrightarrow> 0 \<le> lastp P xs (-1) \<and> lastp P xs (-1) < m_iSize l"
    using pos_in_bounds [OF m(1) lastp_in] by blast
  show "ys \<noteq> [] \<Longrightarrow> 0 \<le> firstp P ys (-1) \<and> firstp P ys (-1) < m_iSize l"
    using pos_in_bounds [OF m(1) firstp_in] by blast
  show "xs \<noteq> [] \<Longrightarrow> firstp P xs d \<noteq> P a \<and> lastp P xs (-1) \<noteq> P a"
    using firstp_in [of xs P] lastp_in [of xs P] m(6) by metis
  show "ys \<noteq> [] \<Longrightarrow> firstp P ys (-1) \<noteq> P a \<and> lastp P ys d \<noteq> P a"
    using firstp_in [of ys P] lastp_in [of ys P] m(7) by metis
  show "xs \<noteq> [] \<Longrightarrow> ys \<noteq> [] \<Longrightarrow> firstp P ys (-1) \<noteq> lastp P xs (-1)"
    using firstp_in [of ys P] lastp_in [of xs P] m(8) by (metis disjoint_iff)
  assume n: "a < n" "n \<le> b"
  note fr = rl_rep_free [OF rep n, folded P_def]
  then have fr': "P n \<noteq> P a" "P n \<notin> P ` fst ` set xs" "P n \<notin> P ` fst ` set ys" by auto
  show "P n \<noteq> P a" by (rule fr')
  show "xs \<noteq> [] \<Longrightarrow> lastp P xs (-1) \<noteq> P n" using fr' lastp_in [of xs P] by metis
  show "ys \<noteq> [] \<Longrightarrow> firstp P ys (-1) \<noteq> P n" using fr' firstp_in [of ys P] by metis
  show "seqstart (m_caSeq l ! nat (P n)) = SRT_SEQNO_NONE \<and> seqend (m_caSeq l ! nat (P n)) = SRT_SEQNO_NONE"
    using rep fr posfD [OF m(1), of n] by (simp add: rl_rep_def P_def)
qed

lemmas rl_op_simps = arr_simps setnext_def setprior_def Let_def firstp_append lastp_append lastp_Cons
  nth_update_int eq_nat_nat_iff list_update_swap rcv_loss_list_eqI

lemma rnode_fresh:
  "a \<noteq> b \<Longrightarrow> n\<lparr>seqstart := wrapseq a, seqend := wrapseq b, inext := x, iprior := y\<rparr> = rnode a b x y"
  "seqend n = SRT_SEQNO_NONE \<Longrightarrow> n\<lparr>seqstart := wrapseq b, inext := x, iprior := y\<rparr> = rnode b b x y"
  by (simp_all add: rnode_def)

lemma arr_eq_iff:
  "(xs :: rcv_seq list) = ys \<longleftrightarrow> length xs = length ys
     \<and> (\<forall>p. 0 \<le> p \<longrightarrow> p < int (length xs) \<longrightarrow> xs ! nat p = ys ! nat p)"
proof (intro iffI conjI allI impI)
  assume h: "length xs = length ys \<and> (\<forall>p. 0 \<le> p \<longrightarrow> p < int (length xs) \<longrightarrow> xs ! nat p = ys ! nat p)"
  show "xs = ys"
  proof (rule nth_equalityI)
    fix i assume "i < length xs"
    with h [THEN conjunct2, rule_format, of "int i"] show "xs ! i = ys ! i" by simp
  qed (use h in simp)
qed auto

lemma rl_link_prior_eq:
  assumes "0 \<le> i" "i < int (length arr)" "iprior (arr ! nat i) = q" "0 \<le> q" "q < int (length arr)"
  shows "rl_link_prior arr i = Some (setnext arr q i)"
  using assms by (simp add: rl_link_prior_def arr_simps setnext_def)

lemma rl_link_next_eq:
  assumes "0 \<le> i" "i < int (length arr)" "inext (arr ! nat i) = q" "0 \<le> q" "q < int (length arr)"
  shows "rl_link_next arr i = Some (setprior arr q i)"
  using assms by (simp add: rl_link_next_def arr_simps setprior_def)

lemma rl_shift_node_eq:
  assumes arr: "arr ! nat p = rnode a b x y" "a < b" "\<bar>b - (a + 1)\<bar> < m_iSeqNoTH"
    and p: "0 \<le> p" "p < int (length arr)" "0 \<le> i" "i < int (length arr)" "p \<noteq> i"
    and free: "seqend (arr ! nat i) = SRT_SEQNO_NONE"
  shows "rl_shift_node arr p i = Some (arr[nat i := rnode (a + 1) b x y,
     nat p := (arr ! nat p)\<lparr>seqstart := SRT_SEQNO_NONE, seqend := SRT_SEQNO_NONE\<rparr>])"
  using assms
  by (cases "b = a + 1")
    (simp_all add: rl_shift_node_def arr_simps nth_update_int seq_simps rnode_fresh list_update_swap eq_nat_nat_iff)

lemma rl_shift_eq:
  assumes rep: "rl_rep k (xs @ (a, b) # ys) l" and ab: "a < b"
  defines "P \<equiv> lpos k (m_iSize l)"
  shows "rl_shift l (P a) =
    Some (rl_splice k xs [(a + 1, b)] ys
      ((m_caSeq l)[nat (P (a + 1)) := rnode (a + 1) b (firstp P ys (-1)) (lastp P xs (-1)),
        nat (P a) := (m_caSeq l ! nat (P a))\<lparr>seqstart := SRT_SEQNO_NONE, seqend := SRT_SEQNO_NONE\<rparr>]) l)"
    (is "_ = Some (rl_splice k xs _ ys ?arr l)")
proof -
  note m = rl_rep_mid [OF rep, folded P_def] 
  note k = rl_rep_links [OF rep, folded P_def]
  have n: "a < a + 1" "a + 1 \<le> b" using ab by auto
  have TH: "\<bar>b - (a + 1)\<bar> < m_iSeqNoTH"
    using rl_rep_span(1) [OF rep, of a b a b b] ab rep by (simp add: rl_rep_def)
  have i: "(P a + 1) smod m_iSize l = P (a + 1)"
    using lpos_step [of k "m_iSize l" a 1] k(1) [of a] rep by (simp add: P_def rl_rep_def)
  have node: "rl_shift_node (m_caSeq l) (P a) (P (a + 1)) = Some ?arr"
    using rl_shift_node_eq [OF m(3) ab TH, of "P (a + 1)"] m(2) k(1) k(9,12) [OF n] by simp
  have at: "?arr ! nat (P (a + 1)) = rnode (a + 1) b (firstp P ys (-1)) (lastp P xs (-1))"
    using m(2) k(1) k(9) [OF n] by (simp add: nth_update_int)
  have at': "setnext ?arr q v ! nat (P (a + 1)) = rnode (a + 1) b (firstp P ys (-1)) (lastp P xs (-1))"
    if "q \<noteq> P (a + 1)" "q = -1 \<or> 0 \<le> q \<and> q < m_iSize l" for q v
    using that at m(2) k(1) by (subst setnext_nth) auto
  have L: "rl_link_prior ?arr (P (a + 1)) = Some (setnext ?arr (lastp P xs (-1)) (P (a + 1)))"
    if "xs \<noteq> []" using that at m(2) k(1) k(4) by (intro rl_link_prior_eq) simp_all
  have N: "rl_link_next (setnext ?arr (lastp P xs (-1)) (P (a + 1))) (P (a + 1))
     = Some (setprior (setnext ?arr (lastp P xs (-1)) (P (a + 1))) (firstp P ys (-1)) (P (a + 1)))"
    if "ys \<noteq> []" 
  proof (intro rl_link_next_eq)
    show "inext (setnext ?arr (lastp P xs (-1)) (P (a + 1)) ! nat (P (a + 1))) = firstp P ys (-1)"
      using k(1)[of "a+1"] k(4) k(10)[OF n] by (cases "xs = []"; subst at') auto
  qed (use that m(2) k(1) k(6) in simp_all)
  have s0: "setnext A (- 1) v = A" "setprior A (-1) v = A" for v A by (simp_all add: setnext_def setprior_def)
  show ?thesis
    using k(1)[of a] k(2,3) k(5)[of "-1"] k(7)[of "-1"] L N
    by (cases "xs = []"; cases "ys = []")
      (simp_all add: rl_shift_def rl_splice_def i Let_def node s0 firstp_append lastp_append lastp_Cons
        linkp_default flip: P_def)
qed

lemma rl_split_node_eq:
  assumes arr: "arr ! nat p = rnode a b x y" "a < n" "n < b" "b - a < m_iSeqNoTH"
    and p: "0 \<le> p" "p < int (length arr)" "0 \<le> i" "i < int (length arr)" "p \<noteq> i"
    and free: "seqend (arr ! nat i) = SRT_SEQNO_NONE"
  shows "rl_split_node arr i p (wrapseq n) = Some (arr[nat i := rnode (n + 1) b x p,
     nat p := rnode a (n - 1) i y])"
proof -
  have TH: "\<bar>b - (n + 1)\<bar> < m_iSeqNoTH" "\<bar>n - (a + 1)\<bar> < m_iSeqNoTH"
    "\<bar>n - (a + 1)\<bar> \<le> m_iMaxSeqNo" using arr by (simp_all add: seqno_const_defs)
  have c: "rl_cut_end (rnode a c x y) (wrapseq n) = rnode a (n - 1) x y" for c x y
    using arr(2) TH(3) by (auto simp: rl_cut_end_def seq_simps rnode_def)
  show ?thesis
  using assms TH
  by (cases "b = n + 1")
    (simp_all add: rl_split_node_def arr_simps nth_update_int seq_simps c rnode_fresh list_update_swap eq_nat_nat_iff)
qed

lemma setnext_id:
  "chain arr P prv xs nxt \<Longrightarrow> xs \<noteq> [] \<Longrightarrow> setnext arr (lastp P xs (-1)) nxt = arr"
  by (cases xs rule: rev_cases) (auto simp: chain_append setnext_def intro!: list_update_id
    simp del: list_update_id, metis list_update_id rnode_upd(1))

lemma rl_split_eq:
  assumes rep: "rl_rep k (xs @ (a, b) # ys) l" and ab: "a < n" "n < b"
  defines "P \<equiv> lpos k (m_iSize l)"
  shows "rl_split l (P n) (P a) (wrapseq n) =
    Some (rl_splice k xs [(a, n - 1), (n + 1, b)] ys
      ((m_caSeq l)[nat (P (n + 1)) := rnode (n + 1) b (firstp P ys (-1)) (P a),
        nat (P a) := rnode a (n - 1) (P (n + 1)) (lastp P xs (-1))]) l)"
    (is "_ = Some (rl_splice k xs _ ys ?arr l)")
proof -
  note m = rl_rep_mid [OF rep, folded P_def] 
  note k = rl_rep_links [OF rep, folded P_def]
  have n: "a < n + 1" "n + 1 \<le> b" using ab by auto
  have TH: "b - a < m_iSeqNoTH"
    using rl_rep_span(1) [OF rep, of a b a b b] ab rep by (simp_all add: rl_rep_def)
  have i: "(P n + 1) smod m_iSize l = P (n + 1)"
    using lpos_step [of k "m_iSize l" n 1] k(1) [of n] rep by (simp add: P_def rl_rep_def)
  have node: "rl_split_node (m_caSeq l) (P (n + 1)) (P a) (wrapseq n) = Some ?arr"
    using rl_split_node_eq [OF m(3) ab TH, of "P (n + 1)"] m(2) k(1) k(9,12) [OF n] by simp
  have ch: "chain ?arr P (-1) xs (P a)"
    using m(1,4,6) k(1) rl_rep_free [OF rep n, folded P_def] by (simp add: chain_other image_Un)
  have N: "rl_link_next ?arr (P (n + 1)) = Some (setprior ?arr (firstp P ys (-1)) (P (n + 1)))"
    if "ys \<noteq> []" 
    using that m(2) k(1) k(6) k(9)[OF n] by (intro rl_link_next_eq) (simp_all add: nth_update_int)
  have s0: "setnext ?arr (lastp P xs (- 1)) (P a) = ?arr" "setnext A (-1) v = A" "setprior A (-1) v = A" for v A
    using setnext_id [OF ch] by (cases "xs = []"; simp add: setnext_def setprior_def)+
  show ?thesis
    using k(1)[of a] k(2,3) k(7)[of "-1"] N s0(1)
    by (cases "xs = []"; cases "ys = []")
      (simp_all add: rl_split_def rl_splice_def i Let_def node s0 firstp_append lastp_append lastp_Cons
        linkp_default rcv_loss_list_eqI flip: P_def)
qed

lemma setprior_id:
  "chain arr P prv ys nxt \<Longrightarrow> ys \<noteq> [] \<Longrightarrow> setprior arr (firstp P ys (-1)) prv = arr"
  by (cases ys) (auto simp: setprior_def, metis list_update_id rnode_upd(2))

lemma rl_removed_rep:
  "rl_rep k rs (l\<lparr>m_iLength := m_iLength l - 1\<rparr>) \<Longrightarrow> rl_rep k rs (rl_removed l)"
  by (simp add: rl_removed_def rl_rep_def Let_def)

lemma rl_splice_sel [simp]:
  "m_iSize (rl_splice k xs ms ys arr l) = m_iSize l"
  "m_iLength (rl_splice k xs ms ys arr l) = m_iLength l"
  "m_iLargestSeq (rl_splice k xs ms ys arr l) = m_iLargestSeq l"
  by (simp_all add: rl_splice_def Let_def)

lemma rl_splice_removed:
  assumes rep: "rl_rep k (xs @ (a, b) # ys) l" and n: "a \<le> n" "n \<le> b"
    and len: "length arr = length (m_caSeq l)"
    and same: "\<And>p. 0 \<le> p \<Longrightarrow> p < m_iSize l \<Longrightarrow> p \<noteq> lpos k (m_iSize l) a \<Longrightarrow>
        p \<notin> lpos k (m_iSize l) ` fst ` set (cut n a b) \<Longrightarrow> arr ! nat p = m_caSeq l ! nat p"
    and mid: "chain arr (lpos k (m_iSize l)) (lastp (lpos k (m_iSize l)) xs (-1)) (cut n a b)
        (firstp (lpos k (m_iSize l)) ys (-1))"
    and old: "n = a \<Longrightarrow> seqstart (arr ! nat (lpos k (m_iSize l) a)) = SRT_SEQNO_NONE
      \<and> seqend (arr ! nat (lpos k (m_iSize l) a)) = SRT_SEQNO_NONE"
  shows "rl_rep k (xs @ cut n a b @ ys) (rl_removed (rl_splice k xs (cut n a b) ys arr l))"
proof (rule rl_removed_rep)
  have ok: "ranges_ok (xs @ (a, b) # ys)" using rep by (simp add: rl_rep_def)
  have "lpos k (m_iSize l) a \<notin> lpos k (m_iSize l) ` fst ` set (cut n a b) \<Longrightarrow> n = a"
    using n by (cases "n = a") (auto simp: cut_def)
  then have "rl_edit k xs a b (cut n a b) ys arr l"
    using rep cut_ok [OF ok n] cut_within [OF n] len same mid old by (auto simp: rl_edit_def)
  note rl_rep_splice [OF this]
  then show "rl_rep k (xs @ cut n a b @ ys) ((rl_splice k xs (cut n a b) ys arr l)
     \<lparr>m_iLength := m_iLength (rl_splice k xs (cut n a b) ys arr l) - 1\<rparr>)"
    using cut_count [OF n] by simp
qed

lemma rl_unlink_rep:
  assumes rep: "rl_rep k (xs @ (a, a) # ys) l"
  shows "\<exists>l'. rl_unlink l (lpos k (m_iSize l) a) = Some l' \<and> m_iLargestSeq l' = m_iLargestSeq l
     \<and> m_iSize l' = m_iSize l \<and> rl_rep k (xs @ cut a a a @ ys) (rl_removed l')"
proof -
  note m = rl_rep_mid [OF rep] and k = rl_rep_links [OF rep]
  have c: "cut a a a = []" by (simp add: cut_def)
  show ?thesis
    unfolding rl_unlink_eq [OF rep]
    using rl_splice_removed [OF rep order.refl order.refl, of
      "(m_caSeq l)[nat (lpos k (m_iSize l) a) := (m_caSeq l ! nat (lpos k (m_iSize l) a))\<lparr>seqstart := SRT_SEQNO_NONE\<rparr>]"]
      m(2,3) k(1) by (simp add: c nth_update_int)
qed

lemma rl_shift_rep:
  assumes rep: "rl_rep k (xs @ (a, b) # ys) l" and ab: "a < b"
  shows "\<exists>l'. rl_shift l (lpos k (m_iSize l) a) = Some l' \<and> m_iLargestSeq l' = m_iLargestSeq l
     \<and> m_iSize l' = m_iSize l \<and> rl_rep k (xs @ cut a a b @ ys) (rl_removed l')"
proof -
  define P where "P = lpos k (m_iSize l)"
  note m = rl_rep_mid [OF rep, folded P_def] and k = rl_rep_links [OF rep, folded P_def]
  have c: "cut a a b = [(a + 1, b)]" using ab by (simp add: cut_def)
  have n: "a < a + 1" "a + 1 \<le> b" using ab by auto
  show ?thesis
    unfolding rl_shift_eq [OF rep ab]
    using rl_splice_removed [OF rep order.refl, of "(m_caSeq l)[nat (P (a + 1)) := rnode (a + 1) b (firstp P ys (-1)) (lastp P xs (-1)),
        nat (P a) := (m_caSeq l ! nat (P a))\<lparr>seqstart := SRT_SEQNO_NONE, seqend := SRT_SEQNO_NONE\<rparr>]", folded P_def]
      ab m(2,3) k(1)[of a] k(1)[of "a+1"] k(9) [OF n] by (simp add: c nth_update_int flip: P_def)
qed

lemma rl_split_rep:
  assumes rep: "rl_rep k (xs @ (a, b) # ys) l" and ab: "a < n" "n < b"
  shows "\<exists>l'. rl_split l (lpos k (m_iSize l) n) (lpos k (m_iSize l) a) (wrapseq n) = Some l'
     \<and> m_iLargestSeq l' = m_iLargestSeq l
     \<and> m_iSize l' = m_iSize l \<and> rl_rep k (xs @ cut n a b @ ys) (rl_removed l')"
proof -
  define P where "P = lpos k (m_iSize l)"
  note m = rl_rep_mid [OF rep, folded P_def] and k = rl_rep_links [OF rep, folded P_def]
  have c: "cut n a b = [(a, n - 1), (n + 1, b)]" using ab by (simp add: cut_def)
  have n: "a < n + 1" "n + 1 \<le> b" using ab by auto
  show ?thesis
    unfolding rl_split_eq [OF rep ab]
    using rl_splice_removed [OF rep, of n "(m_caSeq l)[nat (P (n + 1)) := rnode (n + 1) b (firstp P ys (-1)) (P a),
        nat (P a) := rnode a (n - 1) (P (n + 1)) (lastp P xs (-1))]", folded P_def]
      ab m(2,3) k(1)[of a] k(1)[of "n+1"] k(9) [OF n] by (simp add: c nth_update_int flip: P_def)
qed

lemma rl_cut_end_rnode:
  assumes "a < n" "n - a < m_iSeqNoTH"
  shows "rl_cut_end (rnode a c x y) (wrapseq n) = rnode a (n - 1) x y"
  using assms by (auto simp: rl_cut_end_def seq_simps rnode_def seqno_const_defs wrapseq_eq_iff)

lemma rl_cut_end_rep:
  assumes rep: "rl_rep k (xs @ (a, b) # ys) l" and ab: "a < b"
  shows "\<exists>arr. upd (m_caSeq l) (lpos k (m_iSize l) a) (\<lambda>n. rl_cut_end n (wrapseq b)) = Some arr
     \<and> rl_rep k (xs @ cut b a b @ ys) (rl_removed (l\<lparr>m_caSeq := arr\<rparr>))"
proof -
  define P where "P = lpos k (m_iSize l)"
  note m = rl_rep_mid [OF rep, folded P_def] and k = rl_rep_links [OF rep, folded P_def]
  have c: "cut b a b = [(a, b - 1)]" using ab by (simp add: cut_def)
  have TH: "b - a < m_iSeqNoTH"
    using rl_rep_span(1) [OF rep, of a b a b b] ab rep by (simp_all add: rl_rep_def)
  let ?arr = "(m_caSeq l)[nat (P a) := rnode a (b - 1) (firstp P ys (-1)) (lastp P xs (-1))]"
  have "chain ?arr P (-1) xs (P a)" "chain ?arr P (P a) ys (-1)"
    using m(1,4-7) k(1) by (simp_all add: chain_other)
  then have "setnext ?arr (lastp P xs (-1)) (P a) = ?arr" "setprior ?arr (firstp P ys (-1)) (P a) = ?arr"
    using setnext_id setprior_id by (cases "xs = []"; cases "ys = []"; simp add: setnext_def setprior_def)+
  then have "rl_splice k xs (cut b a b) ys ?arr l = l\<lparr>m_caSeq := ?arr\<rparr>"
    using k(2,3) by (simp add: rl_splice_def c Let_def rcv_loss_list_eqI firstp_append lastp_append lastp_Cons flip: P_def)
  moreover have "upd (m_caSeq l) (P a) (\<lambda>n. rl_cut_end n (wrapseq b)) = Some ?arr"
    using m(2,3) k(1) [of a] rl_cut_end_rnode [OF ab TH] by (simp add: arr_simps)
  ultimately show ?thesis
    using rl_splice_removed [OF rep, of b ?arr, folded P_def]
      ab m(2,3) k(1)[of a] by (simp add: c nth_update_int flip: P_def)
qed

lemma rl_search_prior_steps:
  assumes len: "int (length arr) = sz" "0 < sz"
    and hit: "seqstart (arr ! nat (lpos k sz (m - int d))) \<noteq> SRT_SEQNO_NONE"
    and free: "\<forall>e < d. seqstart (arr ! nat (lpos k sz (m - int e))) = SRT_SEQNO_NONE"
  shows "rl_search_prior arr sz (lpos k sz m) = Some (lpos k sz (m - int d))"
  using hit free
proof (induction d arbitrary: m)
  case 0
  with len show ?case by (subst rl_search_prior.simps) (simp add: arr_simps lpos_def)
next
  case (Suc d)
  have "seqstart (arr ! nat (lpos k sz m)) = SRT_SEQNO_NONE" using Suc.prems(2) by force
  moreover have "rl_search_prior arr sz (lpos k sz (m - 1)) = Some (lpos k sz (m - 1 - int d))"
  proof (rule Suc.IH)
    show "\<forall>e<d. seqstart (arr ! nat (lpos k sz (m - 1 - int e))) = SRT_SEQNO_NONE"
    proof (intro allI impI)
      fix e assume "e < d"
      with Suc.prems(2) [rule_format, of "Suc e"]
      show "seqstart (arr ! nat (lpos k sz (m - 1 - int e))) = SRT_SEQNO_NONE" by (simp add: algebra_simps)
    qed
  qed (use Suc.prems(1) in \<open>simp add: algebra_simps\<close>)
  ultimately show ?case
    using len lpos_bounds [OF len(2), of k m]
    by (subst rl_search_prior.simps) (simp add: arr_simps lpos_back del: smod_nonneg mod_add_self2, simp add: algebra_simps)
qed

lemma rl_rep_occupied:
  assumes "rl_rep k rs l"
  shows "seqstart (m_caSeq l ! nat (lpos k (m_iSize l) m)) \<noteq> SRT_SEQNO_NONE \<longleftrightarrow>
     lpos k (m_iSize l) m \<in> lpos k (m_iSize l) ` fst ` set rs"
proof
  assume "lpos k (m_iSize l) m \<in> lpos k (m_iSize l) ` fst ` set rs"
  then obtain a b where ab: "(a, b) \<in> set rs" "lpos k (m_iSize l) m = lpos k (m_iSize l) a" by auto
  from split_list [OF this(1)] obtain xs ys where "rs = xs @ (a, b) # ys" by auto
  with rl_rep_mid(3) [of k xs a b ys l] assms ab(2)
  show "seqstart (m_caSeq l ! nat (lpos k (m_iSize l) m)) \<noteq> SRT_SEQNO_NONE"
    by simp
next
  assume h: "seqstart (m_caSeq l ! nat (lpos k (m_iSize l) m)) \<noteq> SRT_SEQNO_NONE"
  have "0 \<le> lpos k (m_iSize l) m" "lpos k (m_iSize l) m < m_iSize l"
    using assms by (simp_all add: rl_rep_def lpos_def)
  with h assms show "lpos k (m_iSize l) m \<in> lpos k (m_iSize l) ` fst ` set rs"
    unfolding rl_rep_def by blast
qed

text \<open>The search stops at the nearest node before the number, wherever it starts from.\<close>

lemma rl_search:
  assumes rep: "rl_rep k rs l" and ne: "rs \<noteq> []"
  obtains a b d where "(a, b) \<in> set rs" "lpos k (m_iSize l) (m - int d) = lpos k (m_iSize l) a"
    "rl_search_prior (m_caSeq l) (m_iSize l) (lpos k (m_iSize l) m) = Some (lpos k (m_iSize l) a)"
    "\<forall>e < d. lpos k (m_iSize l) (m - int e) \<notin> lpos k (m_iSize l) ` fst ` set rs"
proof -
  define P where "P = lpos k (m_iSize l)"
  define Q where "Q = (\<lambda>d. P (m - int d) \<in> P ` fst ` set rs)"
  have sz: "0 < m_iSize l" "int (length (m_caSeq l)) = m_iSize l" using rep by (auto simp: rl_rep_def)
  obtain a b where ab: "(a, b) \<in> set rs" using ne by (cases rs) auto
  have "P (m - ((m - a) mod m_iSize l)) = P a"
  proof -
    have "(m + k - (m - a) mod m_iSize l) mod m_iSize l = (m + k - (m - a)) mod m_iSize l"
      by (rule mod_diff_right_eq)
    then show ?thesis by (simp add: P_def lpos_def algebra_simps)
  qed
  then have "Q (nat ((m - a) mod m_iSize l))" using sz ab unfolding Q_def by (simp add: rev_image_eqI)
  then have "Q (LEAST d. Q d)" and min: "\<forall>e < (LEAST d. Q d). \<not> Q e"
    by (auto intro: LeastI dest: not_less_Least)
  then obtain a' b' where a': "(a', b') \<in> set rs" "P (m - int (LEAST d. Q d)) = P a'"
    unfolding Q_def by auto
  have "rl_search_prior (m_caSeq l) (m_iSize l) (P m) = Some (P (m - int (LEAST d. Q d)))"
    unfolding P_def using sz rl_rep_occupied [OF rep] min \<open>Q (LEAST d. Q d)\<close>
    by (intro rl_search_prior_steps) (auto simp: Q_def P_def simp del: image_image)
  with a' min show thesis using that unfolding P_def Q_def by auto
qed

end
