(* ===== verification/RcvLossSpec.thy ===== *)
theory RcvLossSpec
  imports RcvLossRefine
begin

text \<open>
  What the receiver's loss list promises: it is a finite set of sequence numbers with a largest number
  seen. \<^verbatim>\<open>insert\<close>, \<^verbatim>\<open>remove\<close>, \<^verbatim>\<open>removeUpTo\<close>, \<^verbatim>\<open>find\<close>, \<^verbatim>\<open>getFirstLostSeq\<close>, \<^verbatim>\<open>getLossLength\<close>
  and \<^verbatim>\<open>getLossArray\<close> are shown to implement the operations on that set. Numbers are unwrapped;
  the hypotheses say that the numbers involved are within half of the circle of each other, and that
  the array is large enough for the span, which the code takes for granted.
\<close>

section \<open>remove\<close>

lemma rl_rep_note [simp]: "rl_rep k rs (rl_note_largest l n) \<longleftrightarrow> rl_rep k rs l"
  by (simp add: rl_rep_def rl_note_largest_def)

lemma rl_note_sel [simp]:
  "m_iSize (rl_note_largest l n) = m_iSize l" "m_caSeq (rl_note_largest l n) = m_caSeq l"
  by (simp_all add: rl_note_largest_def)

text \<open>The number \<open>n\<close> can be compared with every number of the list.\<close>

lemma rl_rep_ok: "rl_rep k rs l \<Longrightarrow> ranges_ok rs"
  by (simp add: rl_rep_def)

lemma rl_rep_head:
  assumes "rl_rep k ((a, b) # rs) l"
  shows "m_iHead l = lpos k (m_iSize l) a" "rd (m_caSeq l) (m_iHead l) = Some (m_caSeq l ! nat (lpos k (m_iSize l) a))"
    "seqstart (m_caSeq l ! nat (lpos k (m_iSize l) a)) = wrapseq a" "0 < m_iLength l" "0 < m_iSize l"
    "int (length (m_caSeq l)) = m_iSize l"
proof -
  from assms have rep: "rl_rep k ([] @ (a, b) # rs) l" by simp
  note m = rl_rep_mid(2,3) [OF rep] and k = rl_rep_links(1,2) [OF rep]
  show "m_iHead l = lpos k (m_iSize l) a" "int (length (m_caSeq l)) = m_iSize l" using k(2) m(1) by simp_all
  then show "rd (m_caSeq l) (m_iHead l) = Some (m_caSeq l ! nat (lpos k (m_iSize l) a))"
    using k(1) [of a] by (simp add: arr_simps)
  show "seqstart (m_caSeq l ! nat (lpos k (m_iSize l) a)) = wrapseq a" using m(2) by simp
  have "m_iLength l = rcount ((a, b) # rs)" "ranges_ok ((a, b) # rs)" using assms unfolding rl_rep_def by blast+
  with rcount_pos [of "(a, b) # rs"] show "0 < m_iLength l" by simp
  show "0 < m_iSize l" using assms unfolding rl_rep_def by blast
qed

lemma rl_search_hit:
  assumes rep: "rl_rep k (xs @ (a, b) # ys) l" and n: "a < n" "n \<le> b"
  shows "rl_search_prior (m_caSeq l) (m_iSize l) (lpos k (m_iSize l) (n - 1)) = Some (lpos k (m_iSize l) a)"
proof -
  note m = rl_rep_mid [OF rep] and k = rl_rep_links [OF rep]
  have "rl_search_prior (m_caSeq l) (m_iSize l) (lpos k (m_iSize l) (n - 1))
     = Some (lpos k (m_iSize l) (n - 1 - int (nat (n - 1 - a))))"
  proof (rule rl_search_prior_steps)
    show "\<forall>e<nat (n - 1 - a). seqstart (m_caSeq l ! nat (lpos k (m_iSize l) (n - 1 - int e))) = SRT_SEQNO_NONE"
    proof (intro allI impI)
      fix e assume "e < nat (n - 1 - a)"
      with n have "a < n - 1 - int e" "n - 1 - int e \<le> b" by linarith+
      from k(12) [OF this] show "seqstart (m_caSeq l ! nat (lpos k (m_iSize l) (n - 1 - int e))) = SRT_SEQNO_NONE"
        by simp
    qed
  qed (use m(2,3) k(1)[of a] n in simp_all)
  with n show ?thesis by simp
qed

lemma rl_search_miss:
  assumes rep: "rl_rep k (xs @ ys) l" and ne: "xs \<noteq> []"
    and xs: "\<forall>x \<in> set xs. snd x < n" and ys: "\<forall>y \<in> set ys. n < fst y"
  shows "\<exists>a b us vs. xs @ ys = us @ (a, b) # vs \<and> b < n \<and>
    rl_search_prior (m_caSeq l) (m_iSize l) (lpos k (m_iSize l) (n - 1)) = Some (lpos k (m_iSize l) a)"
proof -
  define P where "P = lpos k (m_iSize l)"
  obtain a0 b0 xs0 where x0: "xs = (a0, b0) # xs0" using ne by (cases xs) auto
  have ok: "ranges_ok (xs @ ys)" using rep by (rule rl_rep_ok)
  obtain a b d where ab: "(a, b) \<in> set (xs @ ys)" "P (n - 1 - int d) = P a"
    "rl_search_prior (m_caSeq l) (m_iSize l) (P (n - 1)) = Some (P a)"
    "\<forall>e < d. P (n - 1 - int e) \<notin> P ` fst ` set (xs @ ys)"
    using rl_search [OF rep, of "n - 1"] ne unfolding P_def by blast
  have "(a, b) \<in> set xs"
  proof (rule ccontr)
    assume "(a, b) \<notin> set xs"
    with ab have aby: "(a, b) \<in> set ys" by simp
    have a0: "a0 \<le> n - 1" using x0 xs ok by auto
    have "\<not> nat (n - 1 - a0) < d"
    proof
      assume "nat (n - 1 - a0) < d"
      with ab(4) have "P (n - 1 - int (nat (n - 1 - a0))) \<notin> P ` fst ` set (xs @ ys)" by blast
      with a0 have "P a0 \<notin> P ` fst ` set (xs @ ys)" by simp
      with x0 show False by simp
    qed
    with a0 have c: "a0 \<le> n - 1 - int d" by linarith
    have "\<forall>x \<in> set (xs @ ys). \<forall>y \<in> set (xs @ ys). snd x - fst y < m_iSize l"
      using rep unfolding rl_rep_def by blast
    moreover have "(a, b) \<in> set (xs @ ys)" "(a0, b0) \<in> set (xs @ ys)" using aby x0 by auto
    ultimately have "b - a0 < m_iSize l" by fastforce
    moreover have "a \<le> b" using ok ab(1) by (rule ranges_ok_le)
    moreover have "n < a" using ys aby by auto
    ultimately have "\<bar>n - 1 - int d - a\<bar> < m_iSize l" using c by linarith
    with ab(2) have "n - 1 - int d = a" by (simp add: P_def lpos_eq_iff)
    with \<open>n < a\<close> show False by simp
  qed
  then have "b < n" using xs by auto
  with ab split_list [OF ab(1)] show ?thesis unfolding P_def by blast
qed

lemma rl_remove_start:
  assumes rep: "rl_rep k ((a0, b0) # rs0) l" and n: "a0 \<le> n" "n - a0 < m_iSeqNoTH"
  defines "l1 \<equiv> rl_note_largest l (wrapseq n)" and "P \<equiv> lpos k (m_iSize l)"
  shows "rl_remove l (wrapseq n) =
    (if wrapseq n = seqstart (m_caSeq l ! nat (P n))
     then do {
       l' \<leftarrow> (if seqend (m_caSeq l ! nat (P n)) = SRT_SEQNO_NONE then rl_unlink l1 (P n) else rl_shift l1 (P n));
       Some (True, rl_removed l') }
     else do {
       i \<leftarrow> rl_search_prior (m_caSeq l) (m_iSize l) (P (n - 1));
       p \<leftarrow> rd (m_caSeq l) i;
       if seqend p = SRT_SEQNO_NONE \<or> seqcmp (wrapseq n) (seqend p) > 0 then Some (False, l1)
       else do {
         l' \<leftarrow> (if wrapseq n = seqend p
               then do { arr \<leftarrow> upd (m_caSeq l1) i (\<lambda>m. rl_cut_end m (wrapseq n)); Some (l1\<lparr>m_caSeq := arr\<rparr>) }
               else rl_split l1 (P n) i (wrapseq n));
         Some (True, rl_removed l') } })"
proof -
  have rep1: "rl_rep k ((a0, b0) # rs0) l1" using rep by (simp add: l1_def)
  have sz: "m_iSize l1 = m_iSize l" "m_caSeq l1 = m_caSeq l" by (simp_all add: l1_def)
  note h = rl_rep_head [OF rep1, unfolded sz]
  have o: "seqoff (wrapseq a0) (wrapseq n) = n - a0" using n by (simp add: seq_simps)
  have loc: "(P a0 + (n - a0)) smod m_iSize l = P n" "(P n - 1 + m_iSize l) smod m_iSize l = P (n - 1)"
    using lpos_advance [OF h(5), of n a0 k] lpos_back [OF h(5), of k n] n by (simp_all add: P_def)
  have rd: "rd (m_caSeq l) (P n) = Some (m_caSeq l ! nat (P n))"
    using lpos_bounds [OF h(5), of k n] h(6) by (simp add: arr_simps P_def)
  show ?thesis
    unfolding rl_remove_def l1_def [symmetric]
    using n(1) h(1-4) by (simp add: Let_def o loc rd sz flip: P_def)
qed

text \<open>What \<^verbatim>\<open>remove\<close> does to the largest number seen.\<close>

definition largest_after :: "rcv_loss_list \<Rightarrow> ranges \<Rightarrow> int \<Rightarrow> int" where
  "largest_after l rs n =
     (if rset rs = {n} then SRT_SEQNO_NONE else m_iLargestSeq (rl_note_largest l (wrapseq n)))"

lemma rl_removed_largest:
  assumes rep: "rl_rep k rs (rl_removed l')" and "m_iLargestSeq l' = m_iLargestSeq l1"
  shows "m_iLargestSeq (rl_removed l') = (if rset rs = {} then SRT_SEQNO_NONE else m_iLargestSeq l1)"
proof -
  have "m_iLength (rl_removed l') = rcount rs" "ranges_ok rs" using rep unfolding rl_rep_def by blast+
  then have "m_iLength (rl_removed l') = int (card (rset rs))" by (simp add: card_rset)
  with assms(2) show ?thesis by (auto simp: rl_removed_def Let_def)
qed

lemma rl_remove_hit:
  assumes rep: "rl_rep k (xs @ (a, b) # ys) l" and n: "a \<le> n" "n \<le> b"
    and near: "near n (xs @ (a, b) # ys)"
  shows "\<exists>l'. rl_remove l (wrapseq n) = Some (True, l') \<and> rl_rep k (xs @ cut n a b @ ys) l'
    \<and> m_iSize l' = m_iSize l \<and> m_iLargestSeq l' = largest_after l (xs @ (a, b) # ys) n"
proof -
  define l1 where "l1 = rl_note_largest l (wrapseq n)"
  define P where "P = lpos k (m_iSize l)"
  have rep1: "rl_rep k (xs @ (a, b) # ys) l1" using rep by (simp add: l1_def)
  have sz: "m_iSize l1 = m_iSize l" "m_caSeq l1 = m_caSeq l" by (simp_all add: l1_def)
  note ok = rl_rep_ok [OF rep]
  obtain a0 b0 rs0 where rs: "xs @ (a, b) # ys = (a0, b0) # rs0" by (cases xs) auto
  have a0: "a0 \<le> n" "n - a0 < m_iSeqNoTH"
    using rs ok n near by (cases xs; auto simp: ranges_ok_append)+
  note start = rl_remove_start [OF rep [unfolded rs] a0, folded l1_def P_def]
  note m = rl_rep_mid [OF rep1, unfolded sz, folded P_def] and k = rl_rep_links [OF rep1, unfolded sz, folded P_def]
  have "\<exists>l'. rl_remove l (wrapseq n) = Some (True, rl_removed l') \<and> m_iLargestSeq l' = m_iLargestSeq l1
     \<and> m_iSize l' = m_iSize l \<and> rl_rep k (xs @ cut n a b @ ys) (rl_removed l')"
  proof (cases "n = a")
    case True
    then show ?thesis
      using start m(3) rl_unlink_rep [of k xs a ys l1] rl_shift_rep [OF rep1] rep1 sz n
      by (cases "a = b") (auto simp: P_def)
  next
    case False
    with n have an: "a < n" by simp
    have s: "rl_search_prior (m_caSeq l) (m_iSize l) (P (n - 1)) = Some (P a)"
      using rl_search_hit [OF rep an n(2)] by (simp add: P_def)
    have c: "\<not> seqcmp (wrapseq n) (wrapseq b) > 0" "wrapseq n = wrapseq b \<longleftrightarrow> n = b"
      using near n by (simp_all add: seq_simps seqno_const_defs)
    have "rl_remove l (wrapseq n) = do {
         l' \<leftarrow> (if n = b
               then do { arr \<leftarrow> upd (m_caSeq l) (P a) (\<lambda>m. rl_cut_end m (wrapseq n)); Some (l1\<lparr>m_caSeq := arr\<rparr>) }
               else rl_split l1 (P n) (P a) (wrapseq n));
         Some (True, rl_removed l') }"
      using start [unfolded sz] m(2,3) k(1) k(12) [OF an n(2)] s c an n by (simp add: arr_simps)
    then show ?thesis
      using rl_cut_end_rep [OF rep1] rl_split_rep [OF rep1 an] sz an n
      by (cases "n = b") (auto simp: P_def)
  qed
  then obtain l' where l': "rl_remove l (wrapseq n) = Some (True, rl_removed l')"
    "m_iLargestSeq l' = m_iLargestSeq l1" "m_iSize l' = m_iSize l"
    "rl_rep k (xs @ cut n a b @ ys) (rl_removed l')" by blast
  have "rset (xs @ cut n a b @ ys) = {} \<longleftrightarrow> rset (xs @ (a, b) # ys) = {n}"
    unfolding cut_removes [OF ok n] using n by auto
  with rl_removed_largest [OF l'(4,2)] l' show ?thesis
    by (auto simp: largest_after_def l1_def rl_removed_def Let_def)
qed

lemma rl_remove_miss:
  assumes rep: "rl_rep k rs l" and near: "near n rs" and n: "n \<notin> rset rs"
  shows "rl_remove l (wrapseq n) = Some (False, rl_note_largest l (wrapseq n))"
proof (cases rs)
  case Nil
  with rep show ?thesis by (simp add: rl_remove_def Let_def rl_rep_def rl_note_largest_def)
next
  case (Cons r0 rs0)
  obtain a0 b0 where r0: "r0 = (a0, b0)" by (cases r0)
  note rep0 = rep [unfolded Cons r0]
  note h = rl_rep_head [of k a0 b0 rs0 "rl_note_largest l (wrapseq n)", simplified, OF rep0]
  have a0: "\<bar>n - a0\<bar> < m_iSeqNoTH" using near Cons r0 by simp
  show ?thesis
  proof (cases "n < a0")
    case True
    with a0 h show ?thesis by (simp add: rl_remove_def Let_def seq_simps)
  next
    case False
    with a0 have n0: "a0 \<le> n" "n - a0 < m_iSeqNoTH" by auto
    from rl_rep_ok [OF rep] n obtain xs ys where xy: "rs = xs @ ys"
      "\<forall>x \<in> set xs. snd x < n" "\<forall>y \<in> set ys. n < fst y"
      by (cases rule: ranges_split [of rs n]) auto
    have ne: "xs \<noteq> []" using xy n0 Cons r0 by (cases xs) auto
    from rl_search_miss [OF rep [unfolded xy(1)] ne xy(2,3)] obtain a b us vs where
      ab: "xs @ ys = us @ (a, b) # vs" "b < n" and
      s: "rl_search_prior (m_caSeq l) (m_iSize l) (lpos k (m_iSize l) (n - 1)) = Some (lpos k (m_iSize l) a)"
      by blast
    have repab: "rl_rep k (us @ (a, b) # vs) l" using rep xy(1) ab(1) by simp
    note m = rl_rep_mid [OF repab] and k = rl_rep_links [OF repab]
    have "\<bar>n - b\<bar> < m_iSeqNoTH" using near xy(1) ab(1) by simp
    then have c: "seqcmp (wrapseq n) (wrapseq b) > 0" "wrapseq n \<noteq> wrapseq b"
      using ab(2) by (simp_all add: seq_simps seqno_const_defs)
    have "wrapseq n \<noteq> seqstart (m_caSeq l ! nat (lpos k (m_iSize l) n))"
    proof
      assume eq: "wrapseq n = seqstart (m_caSeq l ! nat (lpos k (m_iSize l) n))"
      then have "lpos k (m_iSize l) n \<in> lpos k (m_iSize l) ` fst ` set rs"
        using rl_rep_occupied [OF rep, of n] by (simp flip: eq)
      then obtain c d where cd: "(c, d) \<in> set rs" "lpos k (m_iSize l) n = lpos k (m_iSize l) c" by auto
      from split_list [OF cd(1)] obtain us' vs' where "rs = us' @ (c, d) # vs'" by blast
      with rl_rep_mid(3) [of k us' c d vs' l] rep eq cd(2) have "wrapseq n = wrapseq c" by simp
      moreover have "\<bar>n - c\<bar> < m_iSeqNoTH" "c \<le> d"
        using near cd(1) rl_rep_ok [OF rep] by (auto simp: near_def dest: ranges_ok_le)
      ultimately have "n = c" by (simp add: seq_simps seqno_const_defs)
      with cd(1) n \<open>c \<le> d\<close> show False by (auto simp: rset_def)
    qed
    then show ?thesis
      using m(2,3) k(1) [of a] c s by (simp add: rl_remove_start [OF rep0 n0] arr_simps)
  qed
qed

section \<open>The set of lost numbers\<close>

definition rl_abs :: "rcv_loss_list \<Rightarrow> int set \<Rightarrow> bool" where
  "rl_abs l S \<longleftrightarrow> (\<exists>k rs. rl_rep k rs l \<and> rset rs = S)"

lemma near_rset: "ranges_ok rs \<Longrightarrow> \<forall>m \<in> rset rs. \<bar>n - m\<bar> < m_iSeqNoTH \<Longrightarrow> near n rs"
  by (fastforce simp: near_def rset_def dest: ranges_ok_le)

lemma rl_abs_span:
  assumes "rl_abs l S" "m \<in> S" "m' \<in> S"
  shows "\<bar>m - m'\<bar> < m_iSeqNoTH"
proof -
  from assms obtain k rs where rep: "rl_rep k rs l" and S: "S = rset rs" by (auto simp: rl_abs_def)
  from assms(2,3) S obtain a b c d where
    m: "(a, b) \<in> set rs" "a \<le> m" "m \<le> b" and m': "(c, d) \<in> set rs" "c \<le> m'" "m' \<le> d"
    by (auto simp: rset_def)
  have "\<forall>x \<in> set rs. \<forall>y \<in> set rs. snd x - fst y < m_iSize l" "m_iSize l \<le> m_iSeqNoTH"
    using rep unfolding rl_rep_def by blast+
  with m(1) m'(1) have "b - c < m_iSeqNoTH" "d - a < m_iSeqNoTH" by fastforce+
  with m m' show ?thesis by linarith
qed

lemma rl_abs_remove:
  assumes "rl_abs l S" and "\<forall>m \<in> S. \<bar>n - m\<bar> < m_iSeqNoTH"
  shows "\<exists>l'. rl_remove l (wrapseq n) = Some (n \<in> S, l') \<and> rl_abs l' (S - {n}) \<and> m_iSize l' = m_iSize l
    \<and> m_iLargestSeq l' = (if S = {n} then SRT_SEQNO_NONE else m_iLargestSeq (rl_note_largest l (wrapseq n)))"
proof -
  from assms(1) obtain k rs where rep: "rl_rep k rs l" and S: "S = rset rs" by (auto simp: rl_abs_def)
  note ok = rl_rep_ok [OF rep]
  from near_rset [OF ok] assms(2) S have near: "near n rs" by simp
  show ?thesis
  proof (cases "n \<in> S")
    case False
    then have "rl_remove l (wrapseq n) = Some (n \<in> S, rl_note_largest l (wrapseq n))"
      using rl_remove_miss [OF rep near] S by simp
    moreover have "rl_abs (rl_note_largest l (wrapseq n)) (S - {n})"
      using rep S False unfolding rl_abs_def by auto
    ultimately show ?thesis using False by auto
  next
    case True
    with S obtain a b where "(a, b) \<in> set rs" and n: "a \<le> n" "n \<le> b" by (auto simp: rset_def)
    from split_list [OF this(1)] obtain xs ys where h: "rs = xs @ (a, b) # ys" by blast
    from rl_remove_hit [OF rep [unfolded h] n near [unfolded h]] obtain l' where
      l': "rl_remove l (wrapseq n) = Some (True, l')" "rl_rep k (xs @ cut n a b @ ys) l'"
      "m_iSize l' = m_iSize l" "m_iLargestSeq l' = largest_after l (xs @ (a, b) # ys) n" by blast
    have "rset (xs @ cut n a b @ ys) = S - {n}" using cut_removes [OF ok [unfolded h] n] S h by simp
    with l'(2) have "rl_abs l' (S - {n})" unfolding rl_abs_def by blast
    with l' True S show ?thesis by (auto simp: largest_after_def h)
  qed
qed

text \<open>
  The contract of a container from which single numbers can be removed, and what it gives for the
  loop over a range that \<^verbatim>\<open>remove(seqno1, seqno2)\<close> and \<^verbatim>\<open>removeUpTo\<close> share.
\<close>

locale seq_removal =
  fixes R :: "'s \<Rightarrow> int set \<Rightarrow> bool"
    and rem :: "'s \<Rightarrow> int \<Rightarrow> (bool \<times> 's) option"
  assumes remove_law: "R s S \<Longrightarrow> \<forall>m \<in> S. \<bar>n - m\<bar> < m_iSeqNoTH \<Longrightarrow>
      \<exists>s'. rem s (wrapseq n) = Some (n \<in> S, s') \<and> R s' (S - {n})"
begin

lemma remove_loop_law:
  assumes "R s S" "a \<le> b + 1" "b + 1 - a < m_iSeqNoTH"
    and "\<forall>n \<in> {a..b}. \<forall>m \<in> S. \<bar>n - m\<bar> < m_iSeqNoTH"
  shows "\<exists>s'. remove_loop rem s (wrapseq a) (wrapseq b) = Some s' \<and> R s' (S - {a..b})"
  using assms
proof (induction "nat (b + 1 - a)" arbitrary: a s S)
  case 0
  then have "\<bar>a - b\<bar> < m_iSeqNoTH" "b < a" by (auto simp: seqno_const_defs)
  then have "\<not> seqcmp (wrapseq a) (wrapseq b) \<le> 0" by (simp add: seq_simps)
  with 0 show ?case by (subst remove_loop.simps) simp
next
  case (Suc d)
  then have ab: "a \<le> b" by simp
  have c: "seqcmp (wrapseq a) (wrapseq b) \<le> 0" using ab Suc.prems by (simp add: seq_simps)
  obtain s' where s': "rem s (wrapseq a) = Some (a \<in> S, s')" "R s' (S - {a})"
    using remove_law [OF Suc.prems(1), of a] Suc.prems(4) ab by auto
  have "\<exists>s''. remove_loop rem s' (wrapseq (a + 1)) (wrapseq b) = Some s'' \<and> R s'' (S - {a} - {a + 1..b})"
    using Suc s'(2) by (intro Suc.hyps(1)) auto
  moreover have "S - {a} - {a + 1..b} = S - {a..b}" using ab by auto
  ultimately show ?case
    using c s' by (subst remove_loop.simps) (simp add: seq_simps)
qed

end

interpretation rcvloss: seq_removal rl_abs rl_remove
  by unfold_locales (use rl_abs_remove in blast)

lemma rl_remove_range_correct:
  assumes "rl_abs l S" "a \<le> b" "b + 1 - a < m_iSeqNoTH" "\<forall>n \<in> {a..b}. \<forall>m \<in> S. \<bar>n - m\<bar> < m_iSeqNoTH"
  shows "\<exists>l'. rl_remove_range l (wrapseq a) (wrapseq b) = Some (True, l') \<and> rl_abs l' (S - {a..b})"
  using rcvloss.remove_loop_law [of l S a b] assms
  by (auto simp: rl_remove_range_def seq_simps)

lemma rl_first:
  assumes "rl_abs l S"
  shows "rl_getFirstLostSeq l = Some (if S = {} then SRT_SEQNO_NONE else wrapseq (Min S))"
proof -
  from assms obtain k rs where rep: "rl_rep k rs l" and S: "S = rset rs" by (auto simp: rl_abs_def)
  show ?thesis
  proof (cases rs)
    case Nil
    with rep S show ?thesis by (simp add: rl_getFirstLostSeq_def rl_rep_def)
  next
    case (Cons r rs')
    obtain a b where r: "r = (a, b)" by (cases r)
    note h = rl_rep_head [OF rep [unfolded Cons r]]
    have "S \<noteq> {}" using S Cons r rl_rep_ok [OF rep] by auto
    with h Min_rset [of a b rs'] rl_rep_ok [OF rep] S Cons r show ?thesis
      by (simp add: rl_getFirstLostSeq_def)
  qed
qed

lemma rl_length: "rl_abs l S \<Longrightarrow> finite S \<and> rl_getLossLength l = int (card S)"
  using card_rset by (auto simp: rl_abs_def rl_rep_def rl_getLossLength_def)

lemma rl_removeUpTo_correct:
  assumes abs: "rl_abs l S" and n: "\<forall>m \<in> S. \<bar>n - m\<bar> < m_iSeqNoTH - 1"
  shows "\<exists>l'. rl_removeUpTo l (wrapseq n) = Some (if S = {} then SRT_SEQNO_NONE else wrapseq (Min S), l')
     \<and> rl_abs l' (S - {..n})"
proof (cases "S = {}")
  case True
  with abs rl_first [OF abs] show ?thesis by (simp add: rl_removeUpTo_def)
next
  case False
  have fin: "finite S" using rl_length [OF abs] by simp
  define a where "a = Min S"
  have a: "a \<in> S" "\<forall>m \<in> S. a \<le> m" using fin False by (simp_all add: a_def)
  show ?thesis
  proof (cases "n < a")
    case True
    then have "S - {..n} = S" using a(2) by force
    with True a(1) n abs rl_first [OF abs] False show ?thesis
      by (auto simp: rl_removeUpTo_def seq_simps a_def)
  next
    case ge: False
    have "\<bar>m - m'\<bar> < m_iSeqNoTH" if "m \<in> {a..n}" "m' \<in> S" for m m'
    proof -
      have "a \<le> m" "m \<le> n" using that by auto
      moreover have "\<bar>n - m'\<bar> < m_iSeqNoTH - 1" "\<bar>a - m'\<bar> < m_iSeqNoTH"
        using that n a(1) rl_abs_span [OF abs] by blast+
      ultimately show ?thesis by linarith
    qed
    with rcvloss.remove_loop_law [OF abs, of a n] a n ge obtain l' where
      l': "remove_loop rl_remove l (wrapseq a) (wrapseq n) = Some l'" "rl_abs l' (S - {a..n})" by force
    have "S - {a..n} = S - {..n}" using a(2) by auto
    moreover have "\<not> seqcmp (wrapseq n) (wrapseq a) < 0" 
    proof -
      have "\<bar>n - a\<bar> < m_iSeqNoTH" using n a(1) by force
      with ge show ?thesis by (simp add: seq_simps)
    qed
    ultimately show ?thesis using l' rl_first [OF abs] False by (auto simp: rl_removeUpTo_def a_def)
  qed
qed

section \<open>insert\<close>

lemma rl_insert_empty:
  assumes rep: "rl_rep k [] l" and ab: "a \<le> b" "b - a < m_iSize l"
  shows "\<exists>l'. rl_insert_new l (wrapseq a) (wrapseq b) = Some (b - a + 1, l') \<and> rl_rep (- a) [(a, b)] l'
    \<and> m_iSize l' = m_iSize l \<and> m_iLargestSeq l' = wrapseq b"
proof -
  have sz: "0 < m_iSize l" "int (length (m_caSeq l)) = m_iSize l" "m_iSize l \<le> m_iSeqNoTH" "m_iLength l = 0"
    using rep by (simp_all add: rl_rep_def)
  have free: "seqstart (m_caSeq l ! nat p) = SRT_SEQNO_NONE \<and> seqend (m_caSeq l ! nat p) = SRT_SEQNO_NONE"
    if "0 \<le> p" "p < m_iSize l" for p using rep that unfolding rl_rep_def by simp
  have P: "lpos (- a) (m_iSize l) a = 0" by (simp add: lpos_def)
  have len: "seqlen (wrapseq a) (wrapseq b) = b - a + 1" "wrapseq b = wrapseq a \<longleftrightarrow> b = a"
    using ab sz(3) by (simp_all add: seq_simps seqno_const_defs)
  have node: "(m_caSeq l ! 0)\<lparr>seqstart := wrapseq a,
       seqend := (if b \<noteq> a then wrapseq b else seqend (m_caSeq l ! 0)), inext := -1, iprior := -1\<rparr>
     = rnode a b (-1) (-1)" using free [of 0] sz(1) by (simp add: rnode_def)
  have u: "upd (m_caSeq l) 0 (\<lambda>n. n\<lparr>seqstart := wrapseq a,
       seqend := (if wrapseq b \<noteq> wrapseq a then wrapseq b else seqend n), inext := -1, iprior := -1\<rparr>)
     = Some ((m_caSeq l)[0 := rnode a b (-1) (-1)])"
    using sz node by (cases "a = b") (simp_all add: arr_simps len rnode_fresh)
  let ?l' = "l\<lparr>m_caSeq := (m_caSeq l)[0 := rnode a b (-1) (-1)], m_iHead := 0, m_iTail := 0,
      m_iLength := b - a + 1, m_iLargestSeq := wrapseq b\<rparr>"
  have l': "rl_insert_new l (wrapseq a) (wrapseq b) = Some (b - a + 1, ?l')"
    using u sz by (simp add: rl_insert_new_def Let_def len)
  have "m_caSeq l \<noteq> []" using sz by auto
  then have "rl_rep (- a) [(a, b)] ?l'"
    using sz(1-3) ab free by (simp add: rl_rep_def P nth_list_update)
  with l' show ?thesis by simp
qed

lemma rl_rep_tail:
  assumes rep: "rl_rep k (xs @ [(c, d)]) l"
  shows "m_iTail l = lpos k (m_iSize l) c"
    "rd (m_caSeq l) (m_iTail l) = Some (rnode c d (-1) (lastp (lpos k (m_iSize l)) xs (-1)))"
  using rl_rep_mid(2,3) [OF rep] rl_rep_links(1) [OF rep, of c] rl_rep_links(3) [OF rep] by (simp_all add: arr_simps)

text \<open>The first number of a nonempty list, and where a later number goes.\<close>

lemma rl_insert_place:
  assumes rep: "rl_rep k rs l" and ne: "rs \<noteq> []"
    and ab: "a \<le> b" "\<forall>x \<in> set rs. snd x < a" "\<forall>x \<in> set rs. b - fst x < m_iSize l"
  defines "P \<equiv> lpos k (m_iSize l)"
  shows "\<exists>h. rd (m_caSeq l) (m_iHead l) = Some h \<and> 0 \<le> seqoff (seqstart h) (wrapseq a)
     \<and> (m_iHead l + seqoff (seqstart h) (wrapseq a)) smod m_iSize l = P a"
    and "P a \<notin> P ` fst ` set rs"
proof -
  obtain a0 b0 rs0 where rs: "rs = (a0, b0) # rs0" using ne by (cases rs) auto
  note h = rl_rep_head [OF rep [unfolded rs]]
  have "m_iSize l \<le> m_iSeqNoTH" using rep unfolding rl_rep_def by blast
  then have "a - a0 < m_iSeqNoTH" using ab(1,3) rs by simp
  moreover have le: "fst x < a" if "x \<in> set rs" for x
    using that ab(2) ranges_ok_le [OF rl_rep_ok [OF rep], of "fst x" "snd x"] by force
  ultimately have a0: "a0 < a" "a - a0 < m_iSeqNoTH" using le [of "(a0, b0)"] rs by simp_all
  then have o: "seqoff (wrapseq a0) (wrapseq a) = a - a0" by (simp add: seq_simps)
  show "\<exists>h. rd (m_caSeq l) (m_iHead l) = Some h \<and> 0 \<le> seqoff (seqstart h) (wrapseq a)
     \<and> (m_iHead l + seqoff (seqstart h) (wrapseq a)) smod m_iSize l = P a"
    using h a0 o lpos_advance [OF h(5), of a a0 k] by (auto simp: P_def)
  show "P a \<notin> P ` fst ` set rs"
  proof
    assume "P a \<in> P ` fst ` set rs"
    then obtain x where x: "x \<in> set rs" "P a = P (fst x)" by auto
    then have "fst x < a" "b - fst x < m_iSize l" using le ab by blast+
    then have "\<bar>a - fst x\<bar> < m_iSize l" using ab(1) by linarith
    with x(2) have "a = fst x" by (simp add: P_def lpos_eq_iff)
    with le [OF x(1)] show False by simp
  qed
qed

lemma rl_insert_join:
  assumes rep: "rl_rep k (xs @ [(c, d)]) l" and cd: "c < d" and b: "d < b"
    and span: "\<forall>x \<in> set (xs @ [(c, d)]). b - fst x < m_iSize l"
  shows "rl_rep k (xs @ [(c, b)])
     (l\<lparr>m_caSeq := (m_caSeq l)[nat (m_iTail l) := rnode c b (-1) (lastp (lpos k (m_iSize l)) xs (-1))],
        m_iLength := m_iLength l + (b - d)\<rparr>)" (is "rl_rep k _ ?l'")
proof -
  define P where "P = lpos k (m_iSize l)"
  note m = rl_rep_mid [OF rep, folded P_def] and k = rl_rep_links [OF rep, folded P_def]
  have ok: "ranges_ok (xs @ [(c, b)])" using rl_rep_ok [OF rep] b by (auto simp: ranges_ok_append)
  have t: "m_iTail l = P c" using k(3) by simp
  have ch: "chain (m_caSeq ?l') P (-1) (xs @ [(c, b)]) (-1)"
    using m(1-6) k(1) [of c] by (simp add: t chain_append chain_other nth_update_int flip: P_def)
  have rest: "seqstart (m_caSeq ?l' ! nat p) = SRT_SEQNO_NONE \<and> seqend (m_caSeq ?l' ! nat p) = SRT_SEQNO_NONE"
    if "0 \<le> p" "p < m_iSize l" "p \<notin> P ` fst ` set (xs @ [(c, b)])" for p
    using rep that m(2) k(1) [of c] by (simp add: rl_rep_def t nth_update_int flip: P_def)
  have old: "\<forall>x \<in> set (xs @ [(c, d)]). \<forall>y \<in> set (xs @ [(c, d)]). snd x - fst y < m_iSize l"
    using rep unfolding rl_rep_def by blast
  have sp: "\<forall>x \<in> set (xs @ [(c, b)]). \<forall>y \<in> set (xs @ [(c, b)]). snd x - fst y < m_iSize l"
    using old span by auto
  show ?thesis
    using ch rest sp ok rep m(2) k(2,3) unfolding rl_rep_def
    by (simp add: firstp_append P_def)
qed

lemma rl_insert_node:
  assumes rep: "rl_rep k rs l" and ne: "rs \<noteq> []"
    and ab: "a \<le> b" "\<forall>x \<in> set rs. snd x < a" "\<forall>x \<in> set rs. b - fst x < m_iSize l"
  defines "P \<equiv> lpos k (m_iSize l)"
  shows "rl_rep k (rs @ [(a, b)])
     (l\<lparr>m_caSeq := setnext ((m_caSeq l)[nat (P a) := rnode a b (-1) (m_iTail l)]) (m_iTail l) (P a),
        m_iTail := P a, m_iLength := m_iLength l + (b - a + 1)\<rparr>)" (is "rl_rep k _ ?l'")
proof -
  have sz: "0 < m_iSize l" "int (length (m_caSeq l)) = m_iSize l" "m_iTail l = lastp P rs (-1)"
    "m_iHead l = firstp P rs (-1)"
    "chain (m_caSeq l) P (-1) rs (-1)" "m_iLength l = rcount rs" "m_iSize l \<le> m_iSeqNoTH"
    using rep unfolding rl_rep_def P_def by blast+
  have P: "posf P (m_iSize l)" using posf_lpos [OF sz(1)] by (simp add: P_def)
  note fr = rl_insert_place(2) [OF rep ne ab, folded P_def]
  have ok: "ranges_ok (rs @ [(a, b)])" using rl_rep_ok [OF rep] ab by (simp add: ranges_ok_append)
  have t: "m_iTail l \<in> P ` fst ` set rs" "0 \<le> m_iTail l" "m_iTail l < m_iSize l"
    using lastp_in [OF ne, of P "-1"] pos_in_bounds [OF P] sz(3) by auto
  have tp: "m_iTail l \<noteq> P a" using t(1) fr by metis
  let ?arr = "(m_caSeq l)[nat (P a) := rnode a b (-1) (m_iTail l)]"
  have "chain ?arr P (-1) rs (-1)" using sz(5) P fr by (simp add: chain_other posfD)
  then have "chain (setnext ?arr (lastp P rs (-1)) (P a)) P (-1) rs (P a)"
    by (rule chain_setnext [OF P _ rl_rep_inj [OF rep, folded P_def] ranges_ok_distinct [OF rl_rep_ok [OF rep]]])
      (simp add: sz(2))
  moreover have "setnext ?arr (m_iTail l) (P a) ! nat (P a) = rnode a b (-1) (m_iTail l)"
    using t tp sz(2) posfD [OF P, of a] by (subst setnext_nth) auto
  ultimately have ch: "chain (m_caSeq ?l') P (-1) (rs @ [(a, b)]) (-1)"
    by (simp add: chain_append sz(3))
  have free: "seqstart (m_caSeq l ! nat p) = SRT_SEQNO_NONE \<and> seqend (m_caSeq l ! nat p) = SRT_SEQNO_NONE"
    if "0 \<le> p" "p < m_iSize l" "p \<notin> P ` fst ` set rs" for p
    using rep that unfolding rl_rep_def P_def by blast
  have rest: "seqstart (m_caSeq ?l' ! nat p) = SRT_SEQNO_NONE \<and> seqend (m_caSeq ?l' ! nat p) = SRT_SEQNO_NONE"
    if p: "0 \<le> p" "p < m_iSize l" "p \<notin> P ` fst ` set (rs @ [(a, b)])" for p
  proof -
    have "p \<notin> P ` fst ` set rs" "p \<noteq> P a" "p \<noteq> m_iTail l" using p(3) t(1) by auto
    with free [OF p(1,2)] p(1) t sz(2) posfD [OF P, of a] show ?thesis
      by (simp add: setnext_nth nth_update_int)
  qed
  have old: "\<forall>x \<in> set rs. \<forall>y \<in> set rs. snd x - fst y < m_iSize l"
    using rep unfolding rl_rep_def by blast
  obtain c d where cd: "(c, d) \<in> set rs" using ne by (cases rs) auto
  then have "c \<le> d" "d < a" "b - c < m_iSize l" using ranges_ok_le [OF rl_rep_ok [OF rep]] ab by auto
  then have "b - a < m_iSize l" "\<forall>x \<in> set rs. snd x - a < m_iSize l" using ab(2) sz(1) by auto
  then have sp: "\<forall>x \<in> set (rs @ [(a, b)]). \<forall>y \<in> set (rs @ [(a, b)]). snd x - fst y < m_iSize l"
    using old ab by auto
  show ?thesis
    using ch rest sp ok sz ne unfolding rl_rep_def
    by (simp add: firstp_append P_def linkp_default)
qed

lemma rnode_new:
  "a \<noteq> b \<Longrightarrow> n\<lparr>seqstart := wrapseq a, seqend := wrapseq b, iprior := y, inext := x\<rparr> = rnode a b x y"
  "seqend n = SRT_SEQNO_NONE \<Longrightarrow> n\<lparr>seqstart := wrapseq b, iprior := y, inext := x\<rparr> = rnode b b x y"
  by (simp_all add: rnode_def)

lemma rl_abs_insert_new:
  assumes abs: "rl_abs l S" and ab: "a \<le> b" "\<forall>m \<in> S. m < a" "\<forall>m \<in> insert a S. b - m < m_iSize l"
  shows "\<exists>l'. rl_insert_new l (wrapseq a) (wrapseq b) = Some (b - a + 1, l') \<and> rl_abs l' (S \<union> {a..b})
    \<and> m_iSize l' = m_iSize l \<and> m_iLargestSeq l' = wrapseq b"
proof -
  from abs obtain k rs where rep: "rl_rep k rs l" and S: "S = rset rs" by (auto simp: rl_abs_def)
  note ok = rl_rep_ok [OF rep]
  show ?thesis
  proof (cases rs rule: rev_cases)
    case Nil
    with rl_insert_empty [of k l a b] rep ab S show ?thesis
      by (fastforce simp: rl_abs_def)
  next
    case (snoc xs r)
    obtain c d where r: "r = (c, d)" by (cases r)
    define P where "P = lpos k (m_iSize l)"
    define l1 where "l1 = l\<lparr>m_iLargestSeq := wrapseq b\<rparr>"
    have rep1: "rl_rep k rs l1" using rep by (simp add: l1_def rl_rep_def)
    have ne: "rs \<noteq> []" "m_iLength l \<noteq> 0" using snoc rep rcount_pos [OF ok] by (auto simp: rl_rep_def)
    have ends: "fst x \<in> S \<and> snd x \<in> S" if "x \<in> set rs" for x
      using that S ranges_ok_le [OF ok, of "fst x" "snd x"] by (force simp: rset_def)
    then have pre: "\<forall>x \<in> set rs. snd x < a" "\<forall>x \<in> set rs. b - fst x < m_iSize l"
      using ab by blast+
    obtain h where h: "rd (m_caSeq l) (m_iHead l) = Some h" "0 \<le> seqoff (seqstart h) (wrapseq a)"
      "(m_iHead l + seqoff (seqstart h) (wrapseq a)) smod m_iSize l = P a"
      and fr: "P a \<notin> P ` fst ` set rs"
      using rl_insert_place [OF rep ne(1) ab(1) pre] unfolding P_def by blast
    have rept: "rl_rep k (xs @ [(c, d)]) l" "rl_rep k (xs @ [(c, d)]) l1" using rep rep1 snoc r by simp_all
    note t = rl_rep_tail [OF rept(1), folded P_def]
    note m = rl_rep_mid [OF rept(1), folded P_def] and k = rl_rep_links [OF rept(1), folded P_def]
    have cd: "c \<le> d" "d < a" "b - c < m_iSize l" "m_iSize l \<le> m_iSeqNoTH"
      using ok snoc r pre rep by (auto simp: ranges_ok_append rl_rep_def)
    have w: "seqlen (wrapseq a) (wrapseq b) = b - a + 1" "wrapseq b = wrapseq a \<longleftrightarrow> b = a"
      "incseq (wrapseq d) = wrapseq a \<longleftrightarrow> d + 1 = a"
      using ab(1) cd by (simp_all add: seq_simps seqno_const_defs)
    have tail: "m_iTail l = P c" "m_caSeq l ! nat (P c) = rnode c d (-1) (lastp P xs (-1))"
      using t(1) m(3) by simp_all
    show ?thesis
    proof (cases "c \<noteq> d \<and> d + 1 = a")
      case True
      let ?l' = "l1\<lparr>m_caSeq := (m_caSeq l)[nat (P c) := rnode c b (-1) (lastp P xs (-1))],
        m_iLength := m_iLength l + (b - d)\<rparr>"
      have "rnode c d (-1) (lastp P xs (-1))\<lparr>seqend := wrapseq b\<rparr> = rnode c b (-1) (lastp P xs (-1))"
        using True ab(1) cd by (simp add: rnode_def)
      then have ins: "rl_insert_new l (wrapseq a) (wrapseq b) = Some (b - a + 1, ?l')"
        using ne h t True w tail m(2) k(1) [of c]
        by (auto simp: rl_insert_new_def Let_def arr_simps l1_def rcv_loss_list_eqI)
      have "rl_rep k (xs @ [(c, b)]) ?l'"
        using rl_insert_join [OF rept(2), of b] True ab(1) cd pre snoc r tail
        by (simp add: l1_def P_def)
      moreover have "rset (xs @ [(c, b)]) = S \<union> {a..b}" using S snoc r True cd ab(1) by auto
      ultimately have "rl_abs ?l' (S \<union> {a..b})" unfolding rl_abs_def by blast
      with ins show ?thesis by (auto simp: l1_def)
    next
      case False
      let ?l' = "l1\<lparr>m_caSeq := setnext ((m_caSeq l)[nat (P a) := rnode a b (-1) (m_iTail l)]) (m_iTail l) (P a),
        m_iTail := P a, m_iLength := m_iLength l + (b - a + 1)\<rparr>"
      have pa: "P c \<noteq> P a" "0 \<le> P a" "P a < m_iSize l" "0 \<le> P c" "P c < m_iSize l"
        using fr snoc r k(1) by auto
      have fe: "seqend (m_caSeq l ! nat (P a)) = SRT_SEQNO_NONE"
        using rep fr pa unfolding rl_rep_def P_def by blast
      have nj: "\<not> (seqend (rnode c d (-1) (lastp P xs (-1))) \<noteq> SRT_SEQNO_NONE
          \<and> incseq (seqend (rnode c d (-1) (lastp P xs (-1)))) = wrapseq a)"
        using False w(3) by auto
      have ins: "rl_insert_new l (wrapseq a) (wrapseq b) = Some (b - a + 1, ?l')"
        using ne(2) h t(2) w(1,2) tail m(2) pa fe nj
        by (cases "a = b") (simp_all add: rl_insert_new_def Let_def arr_simps nth_update_int l1_def rcv_loss_list_eqI
          setnext_def list_update_swap eq_nat_nat_iff rnode_new del: rnode_sel)
      have "rl_rep k (rs @ [(a, b)]) ?l'"
        using rl_insert_node [OF rep1 ne(1) ab(1) pre(1)] pre(2) by (simp add: l1_def P_def)
      moreover have "rset (rs @ [(a, b)]) = S \<union> {a..b}" using S by auto
      ultimately have "rl_abs ?l' (S \<union> {a..b})" unfolding rl_abs_def by blast
      with ins show ?thesis by (auto simp: l1_def)
    qed
  qed
qed

section \<open>find and getLossArray\<close>

lemma rl_find_chain:
  assumes "posf P sz" "int (length arr) = sz" "chain arr P prv rs (-1)" "ranges_ok rs"
    and "near a rs" "near b rs" "a \<le> b"
  shows "rl_find_from arr (firstp P rs (-1)) (wrapseq a) (wrapseq b) = Some (rset rs \<inter> {a..b} \<noteq> {})"
  using assms
proof (induction rs arbitrary: prv)
  case Nil
  then show ?case by (subst rl_find_from.simps) simp
next
  case (Cons r rs)
  obtain c d where r: "r = (c, d)" by (cases r)
  with Cons have cd: "c \<le> d" and nd: "arr ! nat (P c) = rnode c d (firstp P rs (-1)) prv"
    and IH: "rl_find_from arr (firstp P rs (-1)) (wrapseq a) (wrapseq b) = Some (rset rs \<inter> {a..b} \<noteq> {})"
    by auto
  have eq0: "seqcmp (wrapseq c) (wrapseq a) = 0 \<longleftrightarrow> c = a"
    using Cons.prems(5) r seqcmp_wrapseq [of c a] by (simp add: abs_minus_commute)
  have n: "\<bar>c - a\<bar> < m_iSeqNoTH" "\<bar>c - b\<bar> < m_iSeqNoTH" "\<bar>d - a\<bar> < m_iSeqNoTH"
    using Cons.prems(5,6) r by (auto simp: abs_minus_commute)
  have test: "(seqcmp (wrapseq c) (wrapseq a) = 0
      \<or> (seqcmp (wrapseq c) (wrapseq a) > 0 \<and> seqcmp (wrapseq c) (wrapseq b) \<le> 0)
      \<or> (seqcmp (wrapseq c) (wrapseq a) < 0 \<and> c \<noteq> d \<and> seqcmp (wrapseq d) (wrapseq a) \<ge> 0))
    \<longleftrightarrow> {c..d} \<inter> {a..b} \<noteq> {}"
    using n cd Cons.prems(7) by (auto simp: eq0 seqcmp_wrapseq)
  have P: "0 \<le> P c" "P c < int (length arr)" "P c \<noteq> -1"
    using Cons.prems(1,2) posfD [of P sz c] posf_neq [of P sz c] by simp_all
  have "rl_find_from arr (P c) (wrapseq a) (wrapseq b) =
      (if {c..d} \<inter> {a..b} \<noteq> {} then Some True else rl_find_from arr (firstp P rs (-1)) (wrapseq a) (wrapseq b))"
    unfolding test [symmetric]
    using P by (subst rl_find_from.simps) (simp add: arr_simps nd cong: conj_cong)
  with IH r show ?case by (auto simp: Int_Un_distrib2)
qed

lemma rl_find_correct:
  assumes abs: "rl_abs l S" and near: "\<forall>m \<in> S. \<bar>a - m\<bar> < m_iSeqNoTH \<and> \<bar>b - m\<bar> < m_iSeqNoTH" and ab: "a \<le> b"
  shows "rl_find l (wrapseq a) (wrapseq b) = Some (S \<inter> {a..b} \<noteq> {})"
proof -
  from abs obtain k rs where rep: "rl_rep k rs l" and S: "S = rset rs" by (auto simp: rl_abs_def)
  note ok = rl_rep_ok [OF rep]
  have sz: "0 < m_iSize l" "int (length (m_caSeq l)) = m_iSize l"
    "m_iHead l = firstp (lpos k (m_iSize l)) rs (-1)"
    "chain (m_caSeq l) (lpos k (m_iSize l)) (-1) rs (-1)" "m_iLength l = rcount rs"
    using rep unfolding rl_rep_def by blast+
  have "near a rs" "near b rs" using near_rset [OF ok] near S by simp_all
  then have "rl_find_from (m_caSeq l) (m_iHead l) (wrapseq a) (wrapseq b) = Some (S \<inter> {a..b} \<noteq> {})"
    using rl_find_chain [OF posf_lpos [OF sz(1)] sz(2,4) ok _ _ ab] S sz(3) by simp
  moreover have "rs = []" if "m_iLength l = 0" using that sz(5) rcount_zero_iff [OF ok] by simp
  ultimately show ?thesis using S by (auto simp: rl_find_def)
qed

definition loss_word :: "int \<times> int \<Rightarrow> int list" where
  "loss_word r = (if fst r = snd r then [wrapseq (fst r)]
     else [wrapseq (fst r) + LOSSDATA_SEQNO_RANGE_FIRST, wrapseq (snd r)])"

lemma rl_loss_array_chain:
  assumes "posf P sz" "int (length arr) = sz" "chain arr P prv rs (-1)"
  shows "\<exists>j. rl_loss_array arr (firstp P rs (-1)) out limit = Some (out @ concat (map loss_word (take j rs)))
     \<and> j \<le> length rs \<and> (int (length out) \<le> limit \<longrightarrow> int (length (out @ concat (map loss_word (take j rs)))) \<le> limit)
     \<and> (j < length rs \<longrightarrow> limit - 1 \<le> int (length (out @ concat (map loss_word (take j rs)))))"
  using assms
proof (induction rs arbitrary: prv out)
  case Nil
  then show ?case by (subst rl_loss_array.simps) simp
next
  case (Cons r rs)
  obtain c d where r: "r = (c, d)" by (cases r)
  show ?case
  proof (cases "int (length out) < limit - 1")
    case False
    then show ?thesis
      by (intro exI [of _ 0]) (subst rl_loss_array.simps, simp)
  next
    case True
    from Cons r have nd: "arr ! nat (P c) = rnode c d (firstp P rs (-1)) prv"
      and ch: "chain arr P (P c) rs (-1)" by auto
    have P: "0 \<le> P c" "P c < int (length arr)" "P c \<noteq> -1"
      using Cons.prems(1,2) posfD [of P sz c] posf_neq [of P sz c] by simp_all
    have "int (length (out @ loss_word r)) \<le> limit" using True by (simp add: loss_word_def)
    with Cons.IH [OF Cons.prems(1,2) ch, of "out @ loss_word r"] obtain j where
      j: "rl_loss_array arr (firstp P rs (-1)) (out @ loss_word r) limit
          = Some ((out @ loss_word r) @ concat (map loss_word (take j rs)))" "j \<le> length rs"
        "int (length ((out @ loss_word r) @ concat (map loss_word (take j rs)))) \<le> limit"
        "j < length rs \<longrightarrow> limit - 1 \<le> int (length ((out @ loss_word r) @ concat (map loss_word (take j rs))))"
      by blast
    have "rl_loss_array arr (P c) out limit = rl_loss_array arr (firstp P rs (-1)) (out @ loss_word r) limit"
      using True P nd r by (subst rl_loss_array.simps) (simp add: arr_simps loss_word_def)
    with j r show ?thesis by (intro exI [of _ "Suc j"]) simp
  qed
qed

section \<open>Properties\<close>

text \<open>
  The state of a list between operations: \<open>S\<close> is the set of the lost numbers, \<open>hi\<close> the
  largest number seen, and no lost number is above it.
\<close>

definition rl_state :: "rcv_loss_list \<Rightarrow> int set \<Rightarrow> int option \<Rightarrow> bool" where
  "rl_state l S hi \<longleftrightarrow> rl_abs l S \<and> (S \<noteq> {} \<longrightarrow> hi \<noteq> None)
     \<and> (case hi of None \<Rightarrow> m_iLargestSeq l = SRT_SEQNO_NONE
        | Some h \<Rightarrow> m_iLargestSeq l = wrapseq h \<and> (\<forall>m \<in> S. m \<le> h))"

lemma rl_insert_state:
  assumes st: "rl_state l S hi" and ab: "a \<le> b"
    and near: "\<forall>h. hi = Some h \<longrightarrow> \<bar>a - h\<bar> < m_iSeqNoTH \<and> \<bar>b - h\<bar> < m_iSeqNoTH"
    and span: "\<forall>m \<in> insert (case hi of None \<Rightarrow> a | Some h \<Rightarrow> max a (h + 1)) S. b - m < m_iSize l"
  defines "T \<equiv> {m \<in> {a..b}. \<forall>h. hi = Some h \<longrightarrow> h < m}"
  shows "\<exists>l'. rl_insert l (wrapseq a) (wrapseq b) = Some (int (card T), l')
     \<and> rl_state l' (S \<union> T) (if T = {} then hi else Some b) \<and> m_iSize l' = m_iSize l"
proof (cases hi)
  case None
  have T: "T = {a..b}" "T \<noteq> {}" using None ab by (auto simp: T_def)
  have abs: "rl_abs l S" and S: "S = {}" and lg: "m_iLargestSeq l = SRT_SEQNO_NONE"
    using st None by (auto simp: rl_state_def)
  from rl_abs_insert_new [OF abs ab] span S None T lg ab show ?thesis
    by (auto simp: rl_insert_def rl_state_def)
next
  case (Some h)
  have abs: "rl_abs l S" and S: "\<forall>m \<in> S. m \<le> h" and lg: "m_iLargestSeq l = wrapseq h"
    using st Some by (auto simp: rl_state_def)
  have n: "\<bar>a - h\<bar> < m_iSeqNoTH" "\<bar>b - h\<bar> < m_iSeqNoTH" using near Some by auto
  have T: "T = {max a (h + 1)..b}" using Some by (auto simp: T_def)
  show ?thesis
  proof (cases "b \<le> h")
    case True
    with T have "T = {}" by auto
    with True n ab st lg show ?thesis by (auto simp: rl_insert_def seqcmp_wrapseq)
  next
    case False
    with ab have le: "max a (h + 1) \<le> b" by simp
    have "\<forall>m \<in> S. m < max a (h + 1)" using S by auto
    from rl_abs_insert_new [OF abs le this] span Some obtain l' where
      l': "rl_insert_new l (wrapseq (max a (h + 1))) (wrapseq b) = Some (b - max a (h + 1) + 1, l')"
        "rl_abs l' (S \<union> T)" "m_iSize l' = m_iSize l" "m_iLargestSeq l' = wrapseq b"
      using T by auto
    have "rl_insert l (wrapseq a) (wrapseq b) = rl_insert_new l (wrapseq (max a (h + 1))) (wrapseq b)"
      using False n lg by (cases "a \<le> h") (simp_all add: rl_insert_def seqcmp_wrapseq seq_simps)
    moreover have "T \<noteq> {}" "int (card T) = b - max a (h + 1) + 1" using T le by auto
    moreover have "\<forall>m \<in> S \<union> T. m \<le> b" using S False T by fastforce
    ultimately show ?thesis using l' by (auto simp: rl_state_def)
  qed
qed

lemma rl_remove_state:
  assumes st: "rl_state l S hi" and n: "\<forall>m \<in> S. \<bar>n - m\<bar> < m_iSeqNoTH"
    and near: "\<forall>h. hi = Some h \<longrightarrow> \<bar>n - h\<bar> < m_iSeqNoTH"
  shows "\<exists>l'. rl_remove l (wrapseq n) = Some (n \<in> S, l') \<and> m_iSize l' = m_iSize l
     \<and> rl_state l' (S - {n}) (if S = {n} then None else Some (case hi of None \<Rightarrow> n | Some h \<Rightarrow> max h n))"
proof -
  have abs: "rl_abs l S" using st by (simp add: rl_state_def)
  from rl_abs_remove [OF abs n] obtain l' where
    l': "rl_remove l (wrapseq n) = Some (n \<in> S, l')" "rl_abs l' (S - {n})" "m_iSize l' = m_iSize l"
    "m_iLargestSeq l' = (if S = {n} then SRT_SEQNO_NONE else m_iLargestSeq (rl_note_largest l (wrapseq n)))"
    by blast
  have "m_iLargestSeq (rl_note_largest l (wrapseq n)) = wrapseq (case hi of None \<Rightarrow> n | Some h \<Rightarrow> max h n)"
    using st near by (cases hi) (auto simp: rl_state_def rl_note_largest_def seqcmp_wrapseq max_def)
  with l' st show ?thesis by (cases hi) (auto simp: rl_state_def)
qed

lemma rl_state_empty:
  "0 < length mem \<Longrightarrow> int (length mem) \<le> m_iSeqNoTH \<Longrightarrow> rl_state (CRcvLossList mem) {} None"
  using rl_rep_empty [of mem] by (auto simp: rl_state_def rl_abs_def CRcvLossList_def intro!: exI [of _ "[]"])

text \<open>A list of eight nodes with the losses 5 to 9, for the witnesses below.\<close>

definition rl_demo_mem :: "rcv_seq list" where
  "rl_demo_mem = replicate 8 \<lparr>seqstart = 0, seqend = 0, inext = 0, iprior = 0\<rparr>"

lemma rl_demo:
  "\<exists>l. rl_insert (CRcvLossList rl_demo_mem) 5 9 = Some (5, l) \<and> rl_state l {5..9} (Some 9) \<and> m_iSize l = 8"
proof -
  have st: "rl_state (CRcvLossList rl_demo_mem) {} None"
    by (rule rl_state_empty) (simp_all add: rl_demo_mem_def seqno_const_defs)
  have w: "wrapseq 5 = 5" "wrapseq 9 = 9" by (simp_all add: wrapseq_def seqno_const_defs)
  have T: "{m \<in> {5..9::int}. \<forall>h. None = Some h \<longrightarrow> h < m} = {5..9}" by auto
  show ?thesis
    using rl_insert_state [OF st, of 5 9, unfolded T] w by (simp add: CRcvLossList_def rl_demo_mem_def)
qed


text \<open>
  C17. \<^verbatim>\<open>CRcvLossList::insert\<close> adds exactly the part of the range that is above the largest number
  seen, returns how many numbers that is, and leaves a well-formed list whose largest number is the end
  of the range; a range that is not above it changes nothing. No access leaves the array.
\<close>

theorem rcv_insert_adds_newer:
  assumes "rl_state l S hi" and "a \<le> b"
    and "\<forall>h. hi = Some h \<longrightarrow> \<bar>a - h\<bar> < m_iSeqNoTH \<and> \<bar>b - h\<bar> < m_iSeqNoTH"
    and "\<forall>m \<in> insert (case hi of None \<Rightarrow> a | Some h \<Rightarrow> max a (h + 1)) S. b - m < m_iSize l"
  shows "\<exists>l'. rl_insert l (wrapseq a) (wrapseq b) = Some (int (card {m \<in> {a..b}. \<forall>h. hi = Some h \<longrightarrow> h < m}), l')
     \<and> rl_state l' (S \<union> {m \<in> {a..b}. \<forall>h. hi = Some h \<longrightarrow> h < m})
         (if {m \<in> {a..b}. \<forall>h. hi = Some h \<longrightarrow> h < m} = {} then hi else Some b)
     \<and> m_iSize l' = m_iSize l"
  using rl_insert_state [OF assms] .

theorem rcv_insert_adds_newer_witness:
  "\<exists>l l'. rl_insert (CRcvLossList rl_demo_mem) 5 9 = Some (5, l) \<and> rl_insert l 8 12 = Some (3, l')
     \<and> rl_getLossLength l' = 8"
proof -
  obtain l where l: "rl_insert (CRcvLossList rl_demo_mem) 5 9 = Some (5, l)" "rl_state l {5..9} (Some 9)" "m_iSize l = 8"
    using rl_demo by blast
  have w: "wrapseq 8 = 8" "wrapseq 12 = 12" by (simp_all add: wrapseq_def seqno_const_defs)
  have T: "{m \<in> {8..12::int}. \<forall>h. Some 9 = Some h \<longrightarrow> h < m} = {10..12}" by auto
  obtain l' where l': "rl_insert l 8 12 = Some (3, l')" "rl_state l' ({5..9} \<union> {10..12}) (Some 12)"
    using rcv_insert_adds_newer [OF l(2), of 8 12, unfolded T w] l(3) by (auto simp: seqno_const_defs)
  have "{5..9} \<union> {10..12::int} = {5..12}" by auto
  with l'(2) rl_length [of l' "{5..12}"] have "rl_getLossLength l' = 8" by (simp add: rl_state_def)
  with l(1) l'(1) show ?thesis by blast
qed

text \<open>
  C7. \<^verbatim>\<open>CRcvLossList::remove\<close> of one number returns whether the number was lost, takes exactly that
  number out (unlinking its node, moving the node, cutting or splitting its range), ends its backward
  search, and keeps the list well-formed; the largest number seen becomes at least the number removed,
  and is reset when the list becomes empty.
\<close>

theorem rcv_remove_exact:
  assumes "rl_state l S hi" and "\<forall>m \<in> S. \<bar>n - m\<bar> < m_iSeqNoTH"
    and "\<forall>h. hi = Some h \<longrightarrow> \<bar>n - h\<bar> < m_iSeqNoTH"
  shows "\<exists>l'. rl_remove l (wrapseq n) = Some (n \<in> S, l') \<and> m_iSize l' = m_iSize l
     \<and> rl_state l' (S - {n}) (if S = {n} then None else Some (case hi of None \<Rightarrow> n | Some h \<Rightarrow> max h n))"
  using rl_remove_state [OF assms] .

theorem rcv_remove_exact_witness:
  "\<exists>l l'. rl_insert (CRcvLossList rl_demo_mem) 5 9 = Some (5, l) \<and> rl_remove l 7 = Some (True, l')
     \<and> rl_state l' {5, 6, 8, 9} (Some 9)"
proof -
  obtain l where l: "rl_insert (CRcvLossList rl_demo_mem) 5 9 = Some (5, l)" "rl_state l {5..9} (Some 9)" "m_iSize l = 8"
    using rl_demo by blast
  have w: "wrapseq 7 = 7" by (simp add: wrapseq_def seqno_const_defs)
  have n: "\<forall>m \<in> {5..9::int}. \<bar>7 - m\<bar> < m_iSeqNoTH" "\<forall>h. Some (9 :: int) = Some h \<longrightarrow> \<bar>7 - h\<bar> < m_iSeqNoTH"
    by (auto simp: seqno_const_defs)
  have "{5..9} - {7} = {5, 6, 8, 9 :: int}" "{5..9} \<noteq> {7 :: int}" "(7 :: int) \<in> {5..9}" by auto
  with rcv_remove_exact [OF l(2) n] w l(1) show ?thesis by auto
qed

text \<open>
  \<^verbatim>\<open>remove(seqno1, seqno2)\<close> ends and takes out exactly the numbers of the range; \<^verbatim>\<open>removeUpTo\<close>
  ends, returns the first lost number (or the no-number value) and takes out every number up to and
  including its argument.
\<close>

theorem rcv_remove_ranges:
  assumes "rl_abs l S" "a \<le> b" "b + 1 - a < m_iSeqNoTH"
    and "\<forall>n \<in> {a..b}. \<forall>m \<in> S. \<bar>n - m\<bar> < m_iSeqNoTH - 1"
  shows "(\<exists>l'. rl_remove_range l (wrapseq a) (wrapseq b) = Some (True, l') \<and> rl_abs l' (S - {a..b}))
    \<and> (\<exists>l'. rl_removeUpTo l (wrapseq b) = Some (if S = {} then SRT_SEQNO_NONE else wrapseq (Min S), l')
         \<and> rl_abs l' (S - {..b}))"
  using rl_remove_range_correct [OF assms(1-3)] rl_removeUpTo_correct [OF assms(1), of b] assms(2,4) by force

theorem rcv_remove_ranges_witness:
  "\<exists>l l'. rl_insert (CRcvLossList rl_demo_mem) 5 9 = Some (5, l) \<and> rl_removeUpTo l 7 = Some (5, l')
     \<and> rl_abs l' {8, 9}"
proof -
  obtain l where l: "rl_insert (CRcvLossList rl_demo_mem) 5 9 = Some (5, l)" "rl_state l {5..9} (Some 9)" "m_iSize l = 8"
    using rl_demo by blast
  have w: "wrapseq 7 = 7" "wrapseq 5 = 5" by (simp_all add: wrapseq_def seqno_const_defs)
  have "Min {5..9::int} = 5" by (intro Min_eqI) auto
  moreover have "rl_abs l {5..9}" using l(2) by (simp add: rl_state_def)
  moreover have "{5..9} - {..7} = {8, 9 :: int}" by auto
  moreover have "\<forall>n \<in> {6..7::int}. \<forall>m \<in> {5..9}. \<bar>n - m\<bar> < m_iSeqNoTH - 1"
    by (auto simp: seqno_const_defs)
  ultimately show ?thesis using rcv_remove_ranges [of l "{5..9}" 6 7] l(1) w
    by (auto simp: seqno_const_defs)
qed

text \<open>
  The queries: \<^verbatim>\<open>getLossLength\<close> is the number of lost numbers, \<^verbatim>\<open>getFirstLostSeq\<close> the least
  of them, and \<^verbatim>\<open>find\<close> ends and tells whether the range it is given meets the lost numbers.
\<close>

theorem rcv_queries:
  assumes "rl_abs l S" and "\<forall>m \<in> S. \<bar>a - m\<bar> < m_iSeqNoTH \<and> \<bar>b - m\<bar> < m_iSeqNoTH" and "a \<le> b"
  shows "rl_getLossLength l = int (card S)
    \<and> rl_getFirstLostSeq l = Some (if S = {} then SRT_SEQNO_NONE else wrapseq (Min S))
    \<and> rl_find l (wrapseq a) (wrapseq b) = Some (S \<inter> {a..b} \<noteq> {})"
  using rl_length [OF assms(1)] rl_first [OF assms(1)] rl_find_correct [OF assms] by simp

theorem rcv_queries_witness:
  "\<exists>l. rl_insert (CRcvLossList rl_demo_mem) 5 9 = Some (5, l) \<and> rl_find l 9 20 = Some True"
proof -
  obtain l where l: "rl_insert (CRcvLossList rl_demo_mem) 5 9 = Some (5, l)" "rl_state l {5..9} (Some 9)" "m_iSize l = 8"
    using rl_demo by blast
  have w: "wrapseq 9 = 9" "wrapseq 20 = 20" by (simp_all add: wrapseq_def seqno_const_defs)
  have "rl_abs l {5..9}" using l(2) by (simp add: rl_state_def)
  moreover have "{5..9} \<inter> {9..20::int} \<noteq> {}" by auto
  ultimately show ?thesis using rcv_queries [of l "{5..9}" 9 20] l(1) w
    by (auto simp: seqno_const_defs)
qed

text \<open>
  \<^verbatim>\<open>getLossArray\<close> ends, writes the encodings of a prefix of the ranges, never more than
  \<^verbatim>\<open>limit\<close> words (no overrun of a buffer of that size, also when the last range takes two), and
  leaves ranges out only when at most one word is left.
\<close>

theorem rcv_getLossArray_bounded:
  assumes "rl_rep k rs l" and "0 \<le> limit"
  shows "\<exists>j. rl_getLossArray l limit = Some (concat (map loss_word (take j rs))) \<and> j \<le> length rs
     \<and> int (length (concat (map loss_word (take j rs)))) \<le> limit
     \<and> (j < length rs \<longrightarrow> limit - 1 \<le> int (length (concat (map loss_word (take j rs)))))"
proof -
  have sz: "0 < m_iSize l" "int (length (m_caSeq l)) = m_iSize l"
    "m_iHead l = firstp (lpos k (m_iSize l)) rs (-1)"
    "chain (m_caSeq l) (lpos k (m_iSize l)) (-1) rs (-1)"
    using assms(1) unfolding rl_rep_def by blast+
  from rl_loss_array_chain [OF posf_lpos [OF sz(1)] sz(2,4), of "[]" limit] assms(2) sz(3) show ?thesis
    by (simp add: rl_getLossArray_def)
qed

theorem rcv_getLossArray_bounded_witness:
  "\<exists>l k. rl_rep k [(5, 9)] l \<and> rl_getLossArray l 4 = Some [5 + LOSSDATA_SEQNO_RANGE_FIRST, 9]"
proof -
  have w: "wrapseq 5 = 5" "wrapseq 9 = 9" by (simp_all add: wrapseq_def seqno_const_defs)
  have "rl_rep 0 [] (CRcvLossList rl_demo_mem)" by (rule rl_rep_empty) (simp_all add: rl_demo_mem_def seqno_const_defs)
  from rl_insert_empty [OF this, of 5 9] obtain l where l: "rl_rep (- 5) [(5, 9)] l"
    by (auto simp: CRcvLossList_def rl_demo_mem_def)
  from rcv_getLossArray_bounded [OF l, of 4] have "rl_getLossArray l 4 = Some (loss_word (5, 9))"
    by (auto simp: le_Suc_eq)
  with l w show ?thesis by (auto simp: loss_word_def)
qed

end
