(* ===== verification/SndLossList.thy ===== *)
theory SndLossList
  imports Ranges
begin

text \<open>
  \<^verbatim>\<open>CSndLossList\<close> of \<^verbatim>\<open>srtcore/list.h\<close> and \<^verbatim>\<open>list.cpp\<close>: the sender's list of the sequence
  numbers to retransmit, a singly linked list of ranges threaded through a static array. Unlike the
  receiver's list it accepts ranges anywhere, joins them with their neighbours, and remembers the
  position of the last insertion to shorten the search. Every public operation runs under the list's
  mutex, so operations are taken as atomic.
\<close>

section \<open>The list and its operations\<close>

record snd_seq =
  sq_start :: int
  sq_end :: int
  sq_next :: int

record snd_loss_list =
  sl_caSeq :: "snd_seq list"
  sl_iHead :: int
  sl_iLength :: int
  sl_iSize :: int
  sl_iLastInsertPos :: int

definition CSndLossList :: "snd_seq list \<Rightarrow> snd_loss_list" where
  "CSndLossList mem =
     \<lparr>sl_caSeq = map (\<lambda>n. n\<lparr>sq_start := SRT_SEQNO_NONE, sq_end := SRT_SEQNO_NONE\<rparr>) mem,
      sl_iHead = -1, sl_iLength = 0, sl_iSize = int (length mem), sl_iLastInsertPos = -1\<rparr>"

definition sl_insertHead :: "snd_loss_list \<Rightarrow> int \<Rightarrow> int \<Rightarrow> int \<Rightarrow> snd_loss_list option" where
  "sl_insertHead l pos seqno1 seqno2 = do {
     arr1 \<leftarrow> upd (sl_caSeq l) pos (\<lambda>n. n\<lparr>sq_start := seqno1,
               sq_end := (if seqno2 \<noteq> seqno1 then seqno2 else sq_end n)\<rparr>);
     arr2 \<leftarrow> upd arr1 pos (\<lambda>n. n\<lparr>sq_next := sl_iHead l\<rparr>);
     Some (l\<lparr>sl_caSeq := arr2, sl_iHead := pos, sl_iLastInsertPos := pos,
             sl_iLength := sl_iLength l + seqlen seqno1 seqno2\<rparr>)
   }"

definition sl_insertAfter :: "snd_loss_list \<Rightarrow> int \<Rightarrow> int \<Rightarrow> int \<Rightarrow> int \<Rightarrow> snd_loss_list option" where
  "sl_insertAfter l pos pos_after seqno1 seqno2 = do {
     arr1 \<leftarrow> upd (sl_caSeq l) pos (\<lambda>n. n\<lparr>sq_start := seqno1,
               sq_end := (if seqno2 \<noteq> seqno1 then seqno2 else sq_end n)\<rparr>);
     p \<leftarrow> rd arr1 pos_after;
     arr2 \<leftarrow> upd arr1 pos (\<lambda>n. n\<lparr>sq_next := sq_next p\<rparr>);
     arr3 \<leftarrow> upd arr2 pos_after (\<lambda>n. n\<lparr>sq_next := pos\<rparr>);
     Some (l\<lparr>sl_caSeq := arr3, sl_iLastInsertPos := pos,
             sl_iLength := sl_iLength l + seqlen seqno1 seqno2\<rparr>)
   }"

text \<open>One pass of the loop of \<^verbatim>\<open>coalesce\<close>; \<open>None\<close> inside the option ends the loop.\<close>

definition sl_coalesce_step :: "snd_loss_list \<Rightarrow> int \<Rightarrow> snd_loss_list option option" where
  "sl_coalesce_step l loc = do {
     n \<leftarrow> rd (sl_caSeq l) loc;
     if \<not> (sq_next n \<noteq> -1 \<and> sq_end n \<noteq> SRT_SEQNO_NONE) then Some None
     else do {
       let i = sq_next n;
       m \<leftarrow> rd (sl_caSeq l) i;
       if seqcmp (sq_start m) (incseq (sq_end n)) > 0 then Some None
       else do {
         l1 \<leftarrow> (if sq_end m \<noteq> SRT_SEQNO_NONE
               then if seqcmp (sq_end m) (sq_end n) > 0
                    then do {
                      let len = (if seqcmp (sq_end n) (sq_start m) \<ge> 0
                                 then sl_iLength l - seqlen (sq_start m) (sq_end n) else sl_iLength l);
                      arr \<leftarrow> upd (sl_caSeq l) loc (\<lambda>n. n\<lparr>sq_end := sq_end m\<rparr>);
                      Some (l\<lparr>sl_caSeq := arr, sl_iLength := len\<rparr>)
                    }
                    else Some (l\<lparr>sl_iLength := sl_iLength l - seqlen (sq_start m) (sq_end m)\<rparr>)
               else if sq_start m = incseq (sq_end n)
                    then do {
                      arr \<leftarrow> upd (sl_caSeq l) loc (\<lambda>n. n\<lparr>sq_end := sq_start m\<rparr>);
                      Some (l\<lparr>sl_caSeq := arr\<rparr>)
                    }
                    else Some (l\<lparr>sl_iLength := sl_iLength l - 1\<rparr>));
         arr1 \<leftarrow> upd (sl_caSeq l1) i (\<lambda>m. m\<lparr>sq_start := SRT_SEQNO_NONE, sq_end := SRT_SEQNO_NONE\<rparr>);
         m' \<leftarrow> rd arr1 i;
         arr2 \<leftarrow> upd arr1 loc (\<lambda>n. n\<lparr>sq_next := sq_next m'\<rparr>);
         Some (Some (l1\<lparr>sl_caSeq := arr2\<rparr>))
       }
     }
   }"

partial_function (option) sl_coalesce :: "snd_loss_list \<Rightarrow> int \<Rightarrow> snd_loss_list option" where
  "sl_coalesce l loc =
     Option.bind (sl_coalesce_step l loc)
       (\<lambda>r. case r of None \<Rightarrow> Some l | Some l' \<Rightarrow> sl_coalesce l' loc)"

definition sl_updateElement :: "snd_loss_list \<Rightarrow> int \<Rightarrow> int \<Rightarrow> int \<Rightarrow> (bool \<times> snd_loss_list) option" where
  "sl_updateElement l0 pos seqno1 seqno2 =
     (let l = l0\<lparr>sl_iLastInsertPos := pos\<rparr> in
      if seqno2 = SRT_SEQNO_NONE \<or> seqno2 = seqno1 then Some (False, l)
      else do {
        n \<leftarrow> rd (sl_caSeq l) pos;
        if sq_end n = SRT_SEQNO_NONE
        then do {
          arr \<leftarrow> upd (sl_caSeq l) pos (\<lambda>n. n\<lparr>sq_end := seqno2\<rparr>);
          Some (True, l\<lparr>sl_caSeq := arr, sl_iLength := sl_iLength l + (seqlen seqno1 seqno2 - 1)\<rparr>)
        }
        else if seqcmp seqno2 (sq_end n) \<le> 0 then Some (False, l)
        else do {
          arr \<leftarrow> upd (sl_caSeq l) pos (\<lambda>n. n\<lparr>sq_end := seqno2\<rparr>);
          Some (True, l\<lparr>sl_caSeq := arr, sl_iLength := sl_iLength l + (seqlen (sq_end n) seqno2 - 1)\<rparr>)
        }
      })"

text \<open>The forward search for the last node that starts before a number.\<close>

partial_function (option) sl_forward :: "snd_seq list \<Rightarrow> int \<Rightarrow> int \<Rightarrow> int option" where
  "sl_forward arr i seqno =
     Option.bind (rd arr i) (\<lambda>n.
       if sq_next n \<noteq> -1
       then Option.bind (rd arr (sq_next n)) (\<lambda>m.
              if seqcmp (sq_start m) seqno < 0 then sl_forward arr (sq_next n) seqno else Some i)
       else Some i)"

text \<open>
  \<^verbatim>\<open>insert\<close>: the branch for a number that is neither the head's nor the start of a node. The result
  is the location to join from, or \<open>None\<close> for the early \<^verbatim>\<open>return 0\<close>.
\<close>

definition sl_insert_prior ::
    "snd_loss_list \<Rightarrow> int \<Rightarrow> int \<Rightarrow> int \<Rightarrow> (int option \<times> snd_loss_list) option" where
  "sl_insert_prior l loc seqno1 seqno2 = do {
     i0 \<leftarrow> (if sl_iLastInsertPos l \<noteq> -1
           then do {
             p \<leftarrow> rd (sl_caSeq l) (sl_iLastInsertPos l);
             Some (if seqcmp (sq_start p) seqno1 < 0 then sl_iLastInsertPos l else sl_iHead l)
           }
           else Some (sl_iHead l));
     i \<leftarrow> sl_forward (sl_caSeq l) i0 seqno1;
     n \<leftarrow> rd (sl_caSeq l) i;
     let send = (if sq_end n = SRT_SEQNO_NONE then sq_start n else sq_end n);
     if seqcmp send seqno1 < 0 \<and> incseq send \<noteq> seqno1
     then do { l' \<leftarrow> sl_insertAfter l loc i seqno1 seqno2; Some (Some loc, l') }
     else if seqcmp send seqno2 \<ge> 0 then Some (None, l\<lparr>sl_iLastInsertPos := i\<rparr>)
     else do {
       arr \<leftarrow> upd (sl_caSeq l) i (\<lambda>n. n\<lparr>sq_end := seqno2\<rparr>);
       Some (Some i, l\<lparr>sl_iLastInsertPos := i, sl_iLength := sl_iLength l + (seqlen send seqno2 - 1),
                       sl_caSeq := arr\<rparr>)
     }
   }"

definition sl_insert_at ::
    "snd_loss_list \<Rightarrow> int \<Rightarrow> int \<Rightarrow> int \<Rightarrow> int \<Rightarrow> (int option \<times> snd_loss_list) option" where
  "sl_insert_at l offset loc seqno1 seqno2 =
     (if offset < 0 then do { l' \<leftarrow> sl_insertHead l loc seqno1 seqno2; Some (Some loc, l') }
      else if offset > 0
      then do {
        n \<leftarrow> rd (sl_caSeq l) loc;
        if seqno1 = sq_start n
        then do {
          (updated, l') \<leftarrow> sl_updateElement l loc seqno1 seqno2;
          Some (if updated then Some loc else None, l')
        }
        else sl_insert_prior l loc seqno1 seqno2
      }
      else do {
        (updated, l') \<leftarrow> sl_updateElement l (sl_iHead l) seqno1 seqno2;
        Some (if updated then Some loc else None, l')
      })"

definition sl_insert :: "snd_loss_list \<Rightarrow> int \<Rightarrow> int \<Rightarrow> (int \<times> snd_loss_list) option" where
  "sl_insert l seqno1 seqno2 =
     (if seqno1 < 0 \<or> seqno2 < 0 then Some (0, l)
      else let inserted_range = seqlen seqno1 seqno2 in
      if inserted_range \<le> 0 \<or> inserted_range \<ge> sl_iSize l then Some (0, l)
      else if sl_iLength l = 0
      then do { l' \<leftarrow> sl_insertHead l 0 seqno1 seqno2; Some (sl_iLength l', l') }
      else do {
        let origlen = sl_iLength l;
        h \<leftarrow> rd (sl_caSeq l) (sl_iHead l);
        let offset = seqoff (sq_start h) seqno1;
        if offset \<ge> sl_iSize l then Some (0, l)
        else do {
          let loc1 = (sl_iHead l + offset + sl_iSize l) smod sl_iSize l;
          let loc2 = (sl_iHead l + seqoff (sq_start h) seqno2 + sl_iSize l) smod sl_iSize l;
          if loc1 < 0 \<and> loc2 < 0 then Some (0, l)
          else do {
            (r, l') \<leftarrow> sl_insert_at l offset (if loc1 < 0 then loc2 else loc1) seqno1 seqno2;
            case r of
              None \<Rightarrow> Some (0, l')
            | Some loc \<Rightarrow> do { l'' \<leftarrow> sl_coalesce l' loc; Some (sl_iLength l'' - origlen, l'') }
          }
        }
      })"

text \<open>\<^verbatim>\<open>removeUpTo\<close>, the loop that empties all nodes before the new head.\<close>

partial_function (option) sl_drop_prior :: "snd_loss_list \<Rightarrow> int \<Rightarrow> snd_loss_list option" where
  "sl_drop_prior l h =
     (if h = sl_iHead l then Some l
      else Option.bind (rd (sl_caSeq l) h) (\<lambda>n.
        Option.bind (wr (sl_caSeq l) h (n\<lparr>sq_start := SRT_SEQNO_NONE, sq_end := SRT_SEQNO_NONE\<rparr>)) (\<lambda>arr.
          sl_drop_prior
            (l\<lparr>sl_caSeq := arr,
               sl_iLength := (if sq_end n \<noteq> SRT_SEQNO_NONE
                              then sl_iLength l - seqlen (sq_start n) (sq_end n) else sl_iLength l - 1),
               sl_iLastInsertPos := (if sl_iLastInsertPos l = h then -1 else sl_iLastInsertPos l)\<rparr>)
            (sq_next n))))"

text \<open>
  The branch for the head's own number. \<open>loc1\<close> is the position after the head.
\<close>

definition sl_remove_head :: "snd_loss_list \<Rightarrow> int \<Rightarrow> int \<Rightarrow> snd_loss_list option" where
  "sl_remove_head l loc1 seqno = do {
     h \<leftarrow> rd (sl_caSeq l) (sl_iHead l);
     (loc, arr) \<leftarrow> (if sq_end h = SRT_SEQNO_NONE then Some (sq_next h, sl_caSeq l)
       else do {
         arr1 \<leftarrow> upd (sl_caSeq l) loc1 (\<lambda>m. m\<lparr>sq_start := incseq seqno\<rparr>);
         h1 \<leftarrow> rd arr1 (sl_iHead l);
         arr2 \<leftarrow> (if seqcmp (sq_end h1) (incseq seqno) > 0
                 then upd arr1 loc1 (\<lambda>m. m\<lparr>sq_end := sq_end h1\<rparr>) else Some arr1);
         arr3 \<leftarrow> upd arr2 (sl_iHead l) (\<lambda>m. m\<lparr>sq_end := SRT_SEQNO_NONE\<rparr>);
         h3 \<leftarrow> rd arr3 (sl_iHead l);
         arr4 \<leftarrow> upd arr3 loc1 (\<lambda>m. m\<lparr>sq_next := sq_next h3\<rparr>);
         Some (loc1, arr4)
       });
     arr' \<leftarrow> upd arr (sl_iHead l) (\<lambda>m. m\<lparr>sq_start := SRT_SEQNO_NONE\<rparr>);
     Some (l\<lparr>sl_caSeq := arr',
             sl_iLastInsertPos := (if sl_iLastInsertPos l = sl_iHead l then -1 else sl_iLastInsertPos l),
             sl_iHead := loc, sl_iLength := sl_iLength l - 1\<rparr>)
   }"

text \<open>The branch for the start of a later node, at \<open>temp\<close>; \<open>loc\<close> is the position after it.\<close>

definition sl_remove_start :: "snd_loss_list \<Rightarrow> int \<Rightarrow> int \<Rightarrow> int \<Rightarrow> snd_loss_list option" where
  "sl_remove_start l temp loc seqno = do {
     t \<leftarrow> rd (sl_caSeq l) temp;
     if sq_end t = SRT_SEQNO_NONE then Some (l\<lparr>sl_iHead := sq_next t\<rparr>)
     else do {
       arr1 \<leftarrow> upd (sl_caSeq l) loc (\<lambda>m. m\<lparr>sq_start := incseq seqno\<rparr>);
       t1 \<leftarrow> rd arr1 temp;
       m1 \<leftarrow> rd arr1 loc;
       arr2 \<leftarrow> (if seqcmp (sq_end t1) (sq_start m1) > 0
               then upd arr1 loc (\<lambda>m. m\<lparr>sq_end := sq_end t1\<rparr>) else Some arr1);
       t2 \<leftarrow> rd arr2 temp;
       arr3 \<leftarrow> upd arr2 loc (\<lambda>m. m\<lparr>sq_next := sq_next t2\<rparr>);
       arr4 \<leftarrow> upd arr3 temp (\<lambda>m. m\<lparr>sq_next := loc, sq_end := SRT_SEQNO_NONE\<rparr>);
       Some (l\<lparr>sl_caSeq := arr4, sl_iHead := loc\<rparr>)
     }
   }"

text \<open>The branch for a number inside a node or between nodes; \<open>i\<close> is the last node that starts before.\<close>

definition sl_remove_inside :: "snd_loss_list \<Rightarrow> int \<Rightarrow> int \<Rightarrow> int \<Rightarrow> snd_loss_list option" where
  "sl_remove_inside l i loc seqno = do {
     n \<leftarrow> rd (sl_caSeq l) i;
     if sq_end n = SRT_SEQNO_NONE then Some (l\<lparr>sl_iHead := sq_next n\<rparr>)
     else if seqcmp (sq_end n) seqno > 0
     then do {
       arr1 \<leftarrow> upd (sl_caSeq l) loc (\<lambda>m. m\<lparr>sq_start := incseq seqno\<rparr>);
       n1 \<leftarrow> rd arr1 i;
       m1 \<leftarrow> rd arr1 loc;
       arr2 \<leftarrow> (if seqcmp (sq_end n1) (sq_start m1) > 0
               then upd arr1 loc (\<lambda>m. m\<lparr>sq_end := sq_end n1\<rparr>) else Some arr1);
       arr3 \<leftarrow> upd arr2 i (\<lambda>n. n\<lparr>sq_end := seqno\<rparr>);
       n3 \<leftarrow> rd arr3 i;
       arr4 \<leftarrow> upd arr3 loc (\<lambda>m. m\<lparr>sq_next := sq_next n3\<rparr>);
       arr5 \<leftarrow> upd arr4 i (\<lambda>n. n\<lparr>sq_next := loc\<rparr>);
       Some (l\<lparr>sl_caSeq := arr5, sl_iHead := loc\<rparr>)
     }
     else Some (l\<lparr>sl_iHead := sq_next n\<rparr>)
   }"

definition sl_removeUpTo :: "snd_loss_list \<Rightarrow> int \<Rightarrow> snd_loss_list option" where
  "sl_removeUpTo l seqno =
     (if sl_iLength l = 0 then Some l
      else do {
        hd \<leftarrow> rd (sl_caSeq l) (sl_iHead l);
        let offset = seqoff (sq_start hd) seqno;
        let loc = (sl_iHead l + offset + sl_iSize l) smod sl_iSize l;
        if offset = 0 then sl_remove_head l ((loc + 1) smod sl_iSize l) seqno
        else if offset > 0
        then do {
          let h = sl_iHead l;
          n \<leftarrow> rd (sl_caSeq l) loc;
          l' \<leftarrow> (if seqno = sq_start n
                then sl_remove_start l loc ((loc + 1) smod sl_iSize l) seqno
                else do {
                  i \<leftarrow> sl_forward (sl_caSeq l) (sl_iHead l) seqno;
                  sl_remove_inside l i ((loc + 1) smod sl_iSize l) seqno
                });
          sl_drop_prior l' h
        }
        else Some l
      })"

definition sl_getLossLength :: "snd_loss_list \<Rightarrow> int" where
  "sl_getLossLength l = sl_iLength l"

definition sl_popLostSeq :: "snd_loss_list \<Rightarrow> (int \<times> snd_loss_list) option" where
  "sl_popLostSeq l =
     (if sl_iLength l = 0 then Some (SRT_SEQNO_NONE, l)
      else do {
        let last = (if sl_iLastInsertPos l = sl_iHead l then -1 else sl_iLastInsertPos l);
        h \<leftarrow> rd (sl_caSeq l) (sl_iHead l);
        let seqno = sq_start h;
        l' \<leftarrow> (if sq_end h = SRT_SEQNO_NONE
              then do {
                arr \<leftarrow> upd (sl_caSeq l) (sl_iHead l) (\<lambda>n. n\<lparr>sq_start := SRT_SEQNO_NONE\<rparr>);
                Some (l\<lparr>sl_caSeq := arr, sl_iHead := sq_next h\<rparr>)
              }
              else do {
                let loc = (sl_iHead l + 1) smod sl_iSize l;
                arr1 \<leftarrow> upd (sl_caSeq l) loc (\<lambda>m. m\<lparr>sq_start := incseq seqno\<rparr>);
                h1 \<leftarrow> rd arr1 (sl_iHead l);
                m1 \<leftarrow> rd arr1 loc;
                arr2 \<leftarrow> (if seqcmp (sq_end h1) (sq_start m1) > 0
                        then upd arr1 loc (\<lambda>m. m\<lparr>sq_end := sq_end h1\<rparr>) else Some arr1);
                arr3 \<leftarrow> upd arr2 (sl_iHead l) (\<lambda>n. n\<lparr>sq_start := SRT_SEQNO_NONE, sq_end := SRT_SEQNO_NONE\<rparr>);
                h3 \<leftarrow> rd arr3 (sl_iHead l);
                arr4 \<leftarrow> upd arr3 loc (\<lambda>m. m\<lparr>sq_next := sq_next h3\<rparr>);
                Some (l\<lparr>sl_caSeq := arr4, sl_iHead := loc\<rparr>)
              });
        Some (seqno, l'\<lparr>sl_iLastInsertPos := last, sl_iLength := sl_iLength l' - 1\<rparr>)
      })"

declare sl_coalesce.simps [code] sl_forward.simps [code] sl_drop_prior.simps [code]

end
