(* ===== verification/SndLossRefine.thy ===== *)
theory SndLossRefine
  imports SndLossList LossPos
begin

text \<open>
  The sender's loss list refined to a list of ranges: \<open>sl_arr\<close> says which ranges an array of nodes
  holds, \<open>sl_rep\<close> adds the head, the length and the position of the last insertion. The general edit
  \<open>sl_arr_edit\<close> replaces neighbouring ranges by others; the private operations \<^verbatim>\<open>insertHead\<close>,
  \<^verbatim>\<open>insertAfter\<close>, \<^verbatim>\<open>updateElement\<close> and \<^verbatim>\<open>coalesce\<close> and the searches are instances of it. Between
  an insertion and the joining loop ranges may overlap, so the representation only asks for ascending
  starts.
\<close>

section \<open>Arrays of nodes\<close>

definition snode :: "int \<Rightarrow> int \<Rightarrow> int \<Rightarrow> snd_seq" where
  "snode a b nxt = \<lparr>sq_start = wrapseq a, sq_end = (if a = b then SRT_SEQNO_NONE else wrapseq b), sq_next = nxt\<rparr>"

definition sfree :: "snd_seq \<Rightarrow> bool" where
  "sfree n \<longleftrightarrow> sq_start n = SRT_SEQNO_NONE \<and> sq_end n = SRT_SEQNO_NONE"

fun schain :: "snd_seq list \<Rightarrow> (int \<Rightarrow> int) \<Rightarrow> ranges \<Rightarrow> int \<Rightarrow> bool" where
  "schain arr P [] nxt = True"
| "schain arr P ((a, b) # rs) nxt \<longleftrightarrow> arr ! nat (P a) = snode a b (firstp P rs nxt) \<and> schain arr P rs nxt"

lemma snode_sel [simp]:
  "sq_start (snode a b nxt) = wrapseq a"
  "sq_end (snode a b nxt) = (if a = b then SRT_SEQNO_NONE else wrapseq b)"
  "sq_next (snode a b nxt) = nxt"
  by (simp_all add: snode_def)

lemma snode_upd [simp]:
  "(snode a b nxt)\<lparr>sq_next := v\<rparr> = snode a b v"
  by (simp add: snode_def)

lemma snode_fresh:
  "a \<noteq> b \<Longrightarrow> n\<lparr>sq_start := wrapseq a, sq_end := wrapseq b, sq_next := x\<rparr> = snode a b x"
  "sq_end n = SRT_SEQNO_NONE \<Longrightarrow> n\<lparr>sq_start := wrapseq b, sq_next := x\<rparr> = snode b b x"
  by (simp_all add: snode_def)

lemma snode_set_end:
  "a \<noteq> b \<Longrightarrow> (snode a c x)\<lparr>sq_end := wrapseq b\<rparr> = snode a b x"
  by (simp add: snode_def)

lemma schain_append:
  "schain arr P (xs @ ys) nxt \<longleftrightarrow> schain arr P xs (firstp P ys nxt) \<and> schain arr P ys nxt"
  by (induction xs) (auto simp: firstp_append)

lemma schain_cong:
  "\<forall>x \<in> set rs. arr ! nat (P (fst x)) = arr' ! nat (P (fst x)) \<Longrightarrow> schain arr P rs nxt = schain arr' P rs nxt"
  by (induction rs) auto

text \<open>Ranges with ascending starts, which may still overlap.\<close>

definition starts_ok :: "ranges \<Rightarrow> bool" where
  "starts_ok rs \<longleftrightarrow> (\<forall>x \<in> set rs. fst x \<le> snd x) \<and> sorted_wrt (\<lambda>x y. fst x < fst y) rs"

definition span_ok :: "int \<Rightarrow> ranges \<Rightarrow> bool" where
  "span_ok sz rs \<longleftrightarrow> (\<forall>x \<in> set rs. \<forall>y \<in> set rs. snd x - fst y < sz)"

lemma starts_ok_Cons [simp]:
  "starts_ok ((a, b) # rs) \<longleftrightarrow> a \<le> b \<and> (\<forall>x \<in> set rs. a < fst x) \<and> starts_ok rs"
  by (auto simp: starts_ok_def)

lemma starts_ok_Nil [simp]: "starts_ok []" by (simp add: starts_ok_def)

lemma starts_ok_append:
  "starts_ok (xs @ ys) \<longleftrightarrow> starts_ok xs \<and> starts_ok ys \<and> (\<forall>x \<in> set xs. \<forall>y \<in> set ys. fst x < fst y)"
  by (auto simp: starts_ok_def sorted_wrt_append)

lemma ranges_ok_starts: "ranges_ok rs \<Longrightarrow> starts_ok rs"
  by (induction rs) force+

lemma starts_ok_distinct: "starts_ok rs \<Longrightarrow> distinct (map fst rs)"
  by (induction rs) (auto simp: starts_ok_def)

lemma starts_ok_le: "starts_ok rs \<Longrightarrow> x \<in> set rs \<Longrightarrow> fst x \<le> snd x"
  by (simp add: starts_ok_def)

definition sl_arr :: "int \<Rightarrow> int \<Rightarrow> ranges \<Rightarrow> snd_seq list \<Rightarrow> bool" where
  "sl_arr k sz rs arr \<longleftrightarrow>
     0 < sz \<and> int (length arr) = sz \<and> sz \<le> m_iSeqNoTH \<and> starts_ok rs \<and> span_ok sz rs
   \<and> schain arr (lpos k sz) rs (-1)
   \<and> (\<forall>p. 0 \<le> p \<longrightarrow> p < sz \<longrightarrow> p \<notin> lpos k sz ` fst ` set rs \<longrightarrow> sfree (arr ! nat p))"

lemma sl_arrD:
  assumes "sl_arr k sz rs arr"
  shows "0 < sz" "int (length arr) = sz" "sz \<le> m_iSeqNoTH" "starts_ok rs" "span_ok sz rs"
    "schain arr (lpos k sz) rs (-1)" "posf (lpos k sz) sz"
    "0 \<le> p \<Longrightarrow> p < sz \<Longrightarrow> p \<notin> lpos k sz ` fst ` set rs \<Longrightarrow> sfree (arr ! nat p)"
  using assms unfolding sl_arr_def by (blast intro: posf_lpos)+

lemma span_starts:
  assumes "span_ok sz rs" "starts_ok rs" "x \<in> set rs" "y \<in> set rs"
  shows "\<bar>fst x - fst y\<bar> < sz"
proof -
  have "snd x - fst y < sz" "snd y - fst x < sz" "fst x \<le> snd x" "fst y \<le> snd y"
    using assms by (auto simp: span_ok_def starts_ok_def)
  then show ?thesis by linarith
qed

lemma lpos_inj: "span_ok sz rs \<Longrightarrow> starts_ok rs \<Longrightarrow> inj_on (lpos k sz) (fst ` set rs)"
  by (auto intro!: inj_onI dest: span_starts simp: lpos_eq_iff)

lemma lpos_disjoint:
  assumes "span_ok sz (xs @ ys)" "starts_ok (xs @ ys)"
  shows "lpos k sz ` fst ` set xs \<inter> lpos k sz ` fst ` set ys = {}"
proof -
  have "fst ` set xs \<inter> fst ` set ys = {}" using starts_ok_distinct [OF assms(2)] by auto
  then show ?thesis
    using inj_on_image_Int [OF lpos_inj [OF assms], of "fst ` set xs" "fst ` set ys" k] by auto
qed

lemma sl_arr_nth:
  assumes "sl_arr k sz (xs @ (a, b) # ys) arr"
  shows "arr ! nat (lpos k sz a) = snode a b (firstp (lpos k sz) ys (-1))"
    "rd arr (lpos k sz a) = Some (snode a b (firstp (lpos k sz) ys (-1)))"
    "0 \<le> lpos k sz a" "lpos k sz a < int (length arr)" "lpos k sz a \<noteq> -1"
proof -
  note d = sl_arrD [OF assms]
  show n: "arr ! nat (lpos k sz a) = snode a b (firstp (lpos k sz) ys (-1))"
    using d(6) by (simp add: schain_append)
  show "0 \<le> lpos k sz a" "lpos k sz a < int (length arr)" "lpos k sz a \<noteq> -1"
    using lpos_bounds [OF d(1), of k a] d(2) by auto
  with n show "rd arr (lpos k sz a) = Some (snode a b (firstp (lpos k sz) ys (-1)))"
    by (simp add: arr_simps)
qed

text \<open>Replacing some neighbouring ranges of the list by others.\<close>

lemma sl_arr_edit:
  assumes old: "sl_arr k sz (xs @ ms @ ys) arr"
    and ok: "starts_ok (xs @ ns @ ys)" "span_ok sz (xs @ ns @ ys)" and len: "length arr' = length arr"
    and same: "\<And>p. 0 \<le> p \<Longrightarrow> p < sz \<Longrightarrow> p \<notin> lpos k sz ` fst ` set ms \<Longrightarrow> p \<notin> lpos k sz ` fst ` set ns \<Longrightarrow>
        p \<noteq> lastp (lpos k sz) xs (-1) \<Longrightarrow> arr' ! nat p = arr ! nat p"
    and link: "xs \<noteq> [] \<Longrightarrow> arr' ! nat (lastp (lpos k sz) xs (-1)) =
        (arr ! nat (lastp (lpos k sz) xs (-1)))\<lparr>sq_next := firstp (lpos k sz) (ns @ ys) (-1)\<rparr>"
    and mid: "schain arr' (lpos k sz) ns (firstp (lpos k sz) ys (-1))"
    and free: "\<And>x. x \<in> set ms \<Longrightarrow> lpos k sz (fst x) \<notin> lpos k sz ` fst ` set ns \<Longrightarrow>
        sfree (arr' ! nat (lpos k sz (fst x)))"
  shows "sl_arr k sz (xs @ ns @ ys) arr'"
proof -
  define P where "P = lpos k sz"
  note d = sl_arrD [OF old, folded P_def]
  have dj: "P ` fst ` set xs \<inter> P ` fst ` set ms = {}" "P ` fst ` set xs \<inter> P ` fst ` set ys = {}"
    "P ` fst ` set ms \<inter> P ` fst ` set ys = {}"
    "P ` fst ` set xs \<inter> P ` fst ` set ns = {}" "P ` fst ` set ns \<inter> P ` fst ` set ys = {}"
    using lpos_disjoint [of sz xs "ms @ ys" k] lpos_disjoint [of sz "xs @ ms" ys k] d(4,5)
      lpos_disjoint [of sz xs "ns @ ys" k] lpos_disjoint [of sz "xs @ ns" ys k] ok
    by (simp_all add: P_def image_Un Int_Un_distrib Int_Un_distrib2)
  have outside: "x \<in> A \<union> B \<Longrightarrow> A \<inter> M = {} \<Longrightarrow> M \<inter> B = {} \<Longrightarrow> x \<notin> M" for x :: int and A B M by blast
  have lastxs: "xs \<noteq> [] \<Longrightarrow> lastp P xs (-1) \<in> P ` fst ` set xs" using lastp_in [of xs P "-1"] by simp
  have keep: "arr' ! nat (P c) = arr ! nat (P c)"
    if "c \<in> fst ` set xs \<union> fst ` set ys" "P c \<noteq> lastp P xs (-1)" for c
  proof (rule same [folded P_def])
    have "P c \<in> P ` fst ` set xs \<union> P ` fst ` set ys" using that(1) by blast
    from outside [OF this dj(1,3)] outside [OF this dj(4,5)]
    show "P c \<notin> P ` fst ` set ms" "P c \<notin> P ` fst ` set ns" .
  qed (use that posfD [OF d(7)] in simp_all)
  have lastys: "P c \<noteq> lastp P xs (-1)" if "c \<in> fst ` set ys" for c
  proof (cases "xs = []")
    case False
    have "P c \<in> P ` fst ` set ys" using that by blast
    with lastxs [OF False] dj(2) show ?thesis by (metis disjoint_iff)
  qed (use posfD(1) [OF d(7), of c] in simp)
  have "schain arr' P ys (-1)"
    using d(6) keep lastys schain_cong [of ys arr' P arr] by (simp add: schain_append)
  moreover have "schain arr' P xs (firstp P (ns @ ys) (-1))"
  proof (cases xs rule: rev_cases)
    case (snoc us x)
    obtain a b where x: "x = (a, b)" by (cases x)
    have "P a \<notin> P ` fst ` set us"
      using lpos_disjoint [of sz us "(a, b) # ms @ ys" k] d(4,5) snoc x by (simp add: P_def)
    then have "P c \<noteq> P a" if "c \<in> fst ` set us" for c using that by (metis image_eqI)
    then have "schain arr' P us (P a)"
      using keep schain_cong [of us arr' P arr] d(6) snoc x by (simp add: schain_append)
    moreover have "arr' ! nat (P a) = snode a b (firstp P (ns @ ys) (-1))"
      using link [folded P_def] d(6) snoc x by (simp add: schain_append)
    ultimately show ?thesis using snoc x by (simp add: schain_append)
  qed simp
  ultimately have ch: "schain arr' P (xs @ ns @ ys) (-1)"
    using mid by (simp add: schain_append P_def firstp_append)
  have "sfree (arr' ! nat p)" if p: "0 \<le> p" "p < sz" "p \<notin> P ` fst ` set (xs @ ns @ ys)" for p
  proof (cases "p \<in> P ` fst ` set ms")
    case True
    then obtain x where "x \<in> set ms" "p = P (fst x)" by auto
    with free [folded P_def, of x] p(3) show ?thesis by auto
  next
    case False
    have "p \<noteq> lastp P xs (-1)" using p lastxs by (cases "xs = []") auto
    with same [folded P_def, of p] p False d(8) [of p] show ?thesis by (simp add: image_Un)
  qed
  with ch ok d(1-3) len show ?thesis by (simp add: sl_arr_def P_def)
qed

definition sl_rep :: "int \<Rightarrow> ranges \<Rightarrow> snd_loss_list \<Rightarrow> bool" where
  "sl_rep k rs l \<longleftrightarrow> sl_arr k (sl_iSize l) rs (sl_caSeq l)
   \<and> sl_iHead l = firstp (lpos k (sl_iSize l)) rs (-1) \<and> sl_iLength l = rcount rs
   \<and> (sl_iLastInsertPos l = -1 \<or> sl_iLastInsertPos l \<in> lpos k (sl_iSize l) ` fst ` set rs)"

lemma sl_repD:
  assumes "sl_rep k rs l"
  shows "sl_arr k (sl_iSize l) rs (sl_caSeq l)" "sl_iHead l = firstp (lpos k (sl_iSize l)) rs (-1)"
    "sl_iLength l = rcount rs"
    "sl_iLastInsertPos l = -1 \<or> sl_iLastInsertPos l \<in> lpos k (sl_iSize l) ` fst ` set rs"
  using assms unfolding sl_rep_def by blast+

lemma sl_rep_empty:
  "0 < length mem \<Longrightarrow> int (length mem) \<le> m_iSeqNoTH \<Longrightarrow> sl_rep k [] (CSndLossList mem)"
  by (simp add: sl_rep_def sl_arr_def CSndLossList_def span_ok_def sfree_def)

lemma sl_rep_rebase: "sl_rep k [] l \<Longrightarrow> sl_rep k' [] l"
  by (auto simp: sl_rep_def sl_arr_def)

lemma nth_upd2:
  assumes "0 \<le> i" "i < int (length xs)" "0 \<le> j" "j < int (length xs)" "0 \<le> p"
  shows "(xs[nat i := x, nat j := y]) ! nat p = (if p = j then y else if p = i then x else xs ! nat p)"
  using assms by (auto simp: nth_list_update)

lemma lpos_fresh:
  assumes "span_ok sz (xs @ (a, b) # ys)" "starts_ok (xs @ (a, b) # ys)"
  shows "lpos k sz a \<notin> lpos k sz ` fst ` set xs" "lpos k sz a \<notin> lpos k sz ` fst ` set ys"
  using lpos_disjoint [of sz xs "(a, b) # ys" k] lpos_disjoint [of sz "xs @ [(a, b)]" ys k] assms by auto

text \<open>A new node at the position of its start.\<close>

lemma sl_new_node:
  assumes arr: "sl_arr k sz (xs @ ys) arr"
    and ok: "span_ok sz (xs @ (a, b) # ys)" "starts_ok (xs @ (a, b) # ys)"
  shows "sfree (arr ! nat (lpos k sz a))"
    "upd arr (lpos k sz a) (\<lambda>n. n\<lparr>sq_start := wrapseq a,
        sq_end := (if wrapseq b \<noteq> wrapseq a then wrapseq b else sq_end n)\<rparr>)
     = Some (arr[nat (lpos k sz a) := snode a b (sq_next (arr ! nat (lpos k sz a)))])"
    "seqlen (wrapseq a) (wrapseq b) = b - a + 1"
proof -
  note d = sl_arrD [OF arr]
  have p: "0 \<le> lpos k sz a" "lpos k sz a < sz" using lpos_bounds [OF d(1)] by auto
  show free: "sfree (arr ! nat (lpos k sz a))"
    using lpos_fresh [OF ok, of k] p by (intro d(8)) (auto simp: image_Un)
  have ab: "a \<le> b" "b - a < m_iSeqNoTH" using ok d(3) by (auto simp: starts_ok_append span_ok_def)
  then show "seqlen (wrapseq a) (wrapseq b) = b - a + 1" by (simp add: seq_simps seqno_const_defs)
  have "wrapseq b = wrapseq a \<longleftrightarrow> b = a" using ab by (simp add: seq_simps seqno_const_defs)
  with p d(2) free show "upd arr (lpos k sz a) (\<lambda>n. n\<lparr>sq_start := wrapseq a,
        sq_end := (if wrapseq b \<noteq> wrapseq a then wrapseq b else sq_end n)\<rparr>)
     = Some (arr[nat (lpos k sz a) := snode a b (sq_next (arr ! nat (lpos k sz a)))])"
    by (cases "arr ! nat (lpos k sz a)") (auto simp: arr_simps snode_def sfree_def)
qed

lemma sl_insertHead_rep:
  assumes rep: "sl_rep k rs l" and ok: "starts_ok ((a, b) # rs)" "span_ok (sl_iSize l) ((a, b) # rs)"
  shows "\<exists>l'. sl_insertHead l (lpos k (sl_iSize l) a) (wrapseq a) (wrapseq b) = Some l'
    \<and> sl_rep k ((a, b) # rs) l' \<and> sl_iSize l' = sl_iSize l"
proof -
  define P where "P = lpos k (sl_iSize l)"
  note r = sl_repD [OF rep, folded P_def] and d = sl_arrD [OF sl_repD(1) [OF rep], folded P_def]
  note n = sl_new_node [of k "sl_iSize l" "[]" rs "sl_caSeq l" a b, simplified, OF r(1) ok(2) ok(1) [simplified], folded P_def]
  let ?arr = "(sl_caSeq l)[nat (P a) := snode a b (sl_iHead l)]"
  have p: "0 \<le> P a" "P a < sl_iSize l" using posfD [OF d(7)] by auto
  have "sl_arr k (sl_iSize l) ([] @ [(a, b)] @ rs) ?arr"
    by (rule sl_arr_edit [where ms = "[]" and arr = "sl_caSeq l"])
      (use r(1,2) ok p d(2) in \<open>simp_all add: nth_update_int flip: P_def\<close>)
  then show ?thesis
    using n(2,3) r(2,3) p d(2)
    by (simp add: sl_insertHead_def arr_simps sl_rep_def flip: P_def)
qed

lemma sl_insertAfter_rep:
  assumes rep: "sl_rep k (xs @ ys) l" and ne: "xs \<noteq> []"
    and ok: "starts_ok (xs @ (a, b) # ys)" "span_ok (sl_iSize l) (xs @ (a, b) # ys)"
  defines "P \<equiv> lpos k (sl_iSize l)"
  shows "\<exists>l'. sl_insertAfter l (P a) (lastp P xs (-1)) (wrapseq a) (wrapseq b) = Some l'
    \<and> sl_rep k (xs @ (a, b) # ys) l' \<and> sl_iSize l' = sl_iSize l"
proof -
  note r = sl_repD [OF rep, folded P_def] and d = sl_arrD [OF sl_repD(1) [OF rep], folded P_def]
  note n = sl_new_node [OF r(1) ok(2,1), folded P_def]
  obtain us c e where xs: "xs = us @ [(c, e)]" using ne by (cases xs rule: rev_cases) auto
  have q: "lastp P xs (-1) = P c" using xs by simp
  have node: "sl_caSeq l ! nat (P c) = snode c e (firstp P ys (-1))"
    using sl_arr_nth(1) [of k "sl_iSize l" us c e ys "sl_caSeq l"] r(1) xs by (simp add: P_def)
  let ?arr = "(sl_caSeq l)[nat (P a) := snode a b (firstp P ys (-1)), nat (P c) := snode c e (P a)]"
  have p: "0 \<le> P a" "P a < sl_iSize l" "0 \<le> P c" "P c < sl_iSize l" using posfD [OF d(7)] by auto
  have ac: "P a \<noteq> P c" using lpos_fresh(1) [OF ok(2,1), of k] xs by (auto simp: P_def)
  have "sl_arr k (sl_iSize l) (xs @ [(a, b)] @ ys) ?arr"
    by (rule sl_arr_edit [where ms = "[]" and arr = "sl_caSeq l"])
      (use r(1) ok p d(2) ac node in \<open>simp_all add: q nth_update_int flip: P_def\<close>)
  moreover have "sl_insertAfter l (P a) (P c) (wrapseq a) (wrapseq b)
    = Some (l\<lparr>sl_caSeq := ?arr, sl_iLastInsertPos := P a, sl_iLength := sl_iLength l + (b - a + 1)\<rparr>)"
    using n(2,3) p d(2) ac node by (simp add: sl_insertAfter_def arr_simps nth_update_int)
  ultimately show ?thesis
    using r(2,3) q xs by (simp add: sl_rep_def firstp_append flip: P_def)
qed

text \<open>Moving the end of a range.\<close>

lemma sl_set_end:
  assumes rep: "sl_rep k (xs @ (a, b) # ys) l" and b: "a < b'" "b' - a < m_iSeqNoTH"
    and ok: "starts_ok (xs @ (a, b') # ys)" "span_ok (sl_iSize l) (xs @ (a, b') # ys)"
  defines "P \<equiv> lpos k (sl_iSize l)"
  shows "\<exists>arr. upd (sl_caSeq l) (P a) (\<lambda>n. n\<lparr>sq_end := wrapseq b'\<rparr>) = Some arr
    \<and> sl_rep k (xs @ (a, b') # ys) (l\<lparr>sl_iLastInsertPos := P a, sl_caSeq := arr, sl_iLength := sl_iLength l + (b' - b)\<rparr>)"
proof -
  note r = sl_repD [OF rep, folded P_def] and d = sl_arrD [OF sl_repD(1) [OF rep], folded P_def]
  note n = sl_arr_nth [OF r(1), folded P_def]
  let ?arr = "(sl_caSeq l)[nat (P a) := snode a b' (firstp P ys (-1))]"
  have pa: "P a \<noteq> lastp P xs (-1)" if "xs \<noteq> []"
    using lpos_fresh(1) [OF d(5,4), of k] lastp_in [OF that, of P "-1"] unfolding P_def by metis
  have u: "upd (sl_caSeq l) (P a) (\<lambda>n. n\<lparr>sq_end := wrapseq b'\<rparr>) = Some ?arr"
    using n b by (simp add: arr_simps snode_set_end)
  have lx: "lastp P xs (-1) \<in> P ` fst ` set xs" if "xs \<noteq> []" using lastp_in [OF that] by blast
  have "(sl_caSeq l ! nat (lastp P xs (-1)))\<lparr>sq_next := P a\<rparr> = sl_caSeq l ! nat (lastp P xs (-1))" if "xs \<noteq> []"
    using that d(6) by (cases xs rule: rev_cases) (auto simp: schain_append)
  then have link: "?arr ! nat (lastp P xs (-1)) = (sl_caSeq l ! nat (lastp P xs (-1)))\<lparr>sq_next := P a\<rparr>"
    if "xs \<noteq> []" using that pos_in_bounds [OF d(7) lx] n(3,4) pa by (simp add: nth_update_int)
  have "sl_arr k (sl_iSize l) (xs @ [(a, b')] @ ys) ?arr"
  proof (rule sl_arr_edit [where ms = "[(a, b)]" and arr = "sl_caSeq l", folded P_def])
    show "sl_arr k (sl_iSize l) (xs @ [(a, b)] @ ys) (sl_caSeq l)" using r(1) by simp
  qed (use ok n(3,4) link in \<open>simp_all add: nth_update_int flip: P_def\<close>)
  with u r(2,3) show ?thesis by (simp add: sl_rep_def firstp_append flip: P_def)
qed

section \<open>Joining overlapping ranges\<close>

fun cojoin :: "int \<Rightarrow> int \<Rightarrow> ranges \<Rightarrow> ranges" where
  "cojoin a b [] = [(a, b)]"
| "cojoin a b ((c, d) # ys) = (if a = b \<or> b + 1 < c then (a, b) # (c, d) # ys else cojoin a (max b d) ys)"

lemma snd_loss_list_eqI:
  "l = (l' :: snd_loss_list) \<longleftrightarrow> sl_caSeq l = sl_caSeq l' \<and> sl_iHead l = sl_iHead l' \<and> sl_iLength l = sl_iLength l' \<and>
   sl_iSize l = sl_iSize l' \<and> sl_iLastInsertPos l = sl_iLastInsertPos l'"
  by (cases l, cases l') simp

lemma span_seq:
  assumes "sl_arr k sz rs arr" "x \<in> set rs" "y \<in> set rs"
  shows "\<bar>fst x - fst y\<bar> < m_iSeqNoTH" "\<bar>snd x - snd y\<bar> < m_iSeqNoTH" "\<bar>snd x - fst y\<bar> < m_iSeqNoTH"
proof -
  note d = sl_arrD [OF assms(1)]
  have "snd x - fst y < sz" "snd y - fst x < sz" "fst x \<le> snd x" "fst y \<le> snd y" "snd x - fst x < sz"
    using assms(2,3) d(4,5) by (auto simp: span_ok_def starts_ok_def)
  with d(3) show "\<bar>fst x - fst y\<bar> < m_iSeqNoTH" "\<bar>snd x - snd y\<bar> < m_iSeqNoTH" "\<bar>snd x - fst y\<bar> < m_iSeqNoTH"
    by linarith+
qed

text \<open>The first part of a pass: the end of the surviving node and the length.\<close>

lemma sl_coalesce_step_eq:
  assumes rep: "sl_rep k (xs @ (a, b) # (c, d) # ys) l" and ab: "a \<noteq> b" and c: "c \<le> b + 1"
  defines "P \<equiv> lpos k (sl_iSize l)"
  shows "sl_coalesce_step l (P a) = Some (Some (l\<lparr>
    sl_caSeq := (sl_caSeq l)[nat (P c) := (sl_caSeq l ! nat (P c))\<lparr>sq_start := SRT_SEQNO_NONE, sq_end := SRT_SEQNO_NONE\<rparr>,
        nat (P a) := snode a (max b d) (firstp P ys (-1))],
    sl_iLength := rcount (xs @ (a, max b d) # ys)\<rparr>))"
proof -
  note r = sl_repD [OF rep, folded P_def] and D = sl_arrD [OF sl_repD(1) [OF rep], folded P_def]
  note na = sl_arr_nth [OF r(1), folded P_def]
  note nc = sl_arr_nth [of k "sl_iSize l" "xs @ [(a, b)]" c d ys "sl_caSeq l", simplified, OF r(1), folded P_def]
  have ac: "a < c" "a < b" "c \<le> d" using D(4) ab by (auto simp: starts_ok_append)
  have PP: "P c \<noteq> P a" using lpos_fresh(2) [OF D(5,4), of k] by (auto simp: P_def)
  have s: "\<bar>c - (b + 1)\<bar> < m_iSeqNoTH" "\<bar>d - b\<bar> < m_iSeqNoTH" "\<bar>b - c\<bar> < m_iSeqNoTH" "\<bar>d - c\<bar> < m_iSeqNoTH"
    using span_seq [OF r(1), of "(a, b)" "(c, d)"] span_seq [OF r(1), of "(c, d)" "(a, b)"]
      span_seq [OF r(1), of "(c, d)" "(c, d)"] span_seq [OF r(1), of "(a, b)" "(a, b)"] c ac by (auto simp: seqno_const_defs)
  have w: "wrapseq c = wrapseq (b + 1) \<longleftrightarrow> c = b + 1" using s(1) by (intro wrapseq_eq_iff) (simp add: seqno_const_defs)
  have seq: "\<not> seqcmp (wrapseq c) (wrapseq (b + 1)) > 0" "seqcmp (wrapseq d) (wrapseq b) > 0 \<longleftrightarrow> b < d"
    "seqcmp (wrapseq b) (wrapseq c) \<ge> 0 \<longleftrightarrow> c \<le> b"
    using s c by (auto simp: seqcmp_wrapseq)
  have len: "c \<le> b \<Longrightarrow> seqlen (wrapseq c) (wrapseq b) = b - c + 1" "seqlen (wrapseq c) (wrapseq d) = d - c + 1"
    using s ac by (simp_all add: seq_simps seqno_const_defs)
  have e: "(snode a b x)\<lparr>sq_end := wrapseq e\<rparr> = snode a e x" if "a \<noteq> e" for e x
    using that by (rule snode_set_end)
  have ix: "nat (P c) \<noteq> nat (P a)" using PP na nc by (simp add: eq_nat_nat_iff)
  consider "d \<le> b" "c = d" | "d \<le> b" "c < d" | "d = b + 1" "c = b + 1" | "b < d" "c < d"
    using ac c by linarith
  then show ?thesis
    using na nc ac c ab r(3) ix PP seq w len
    by cases (auto simp: sl_coalesce_step_def Let_def arr_simps incseq_wrapseq e nth_update_int max_def
      snd_loss_list_eqI list_update_swap)
qed

lemma sl_coalesce_step_rep:
  assumes rep: "sl_rep k (xs @ (a, b) # (c, d) # ys) l" and ab: "a \<noteq> b" and c: "c \<le> b + 1"
    and last: "sl_iLastInsertPos l = lpos k (sl_iSize l) a"
  shows "\<exists>l'. sl_coalesce_step l (lpos k (sl_iSize l) a) = Some (Some l') \<and> sl_rep k (xs @ (a, max b d) # ys) l'
     \<and> sl_iLastInsertPos l' = lpos k (sl_iSize l) a \<and> sl_iSize l' = sl_iSize l"
proof -
  define P where "P = lpos k (sl_iSize l)"
  note r = sl_repD [OF rep, folded P_def] and D = sl_arrD [OF sl_repD(1) [OF rep], folded P_def]
  note na = sl_arr_nth [OF r(1), folded P_def]
  note nc = sl_arr_nth [of k "sl_iSize l" "xs @ [(a, b)]" c d ys "sl_caSeq l", simplified, OF r(1), folded P_def]
  have PP: "P c \<noteq> P a" using lpos_fresh(2) [OF D(5,4), of k] by (auto simp: P_def)
  have ok: "starts_ok (xs @ [(a, max b d)] @ ys)" using D(4) by (auto simp: starts_ok_append)
  have sp: "span_ok (sl_iSize l) (xs @ [(a, max b d)] @ ys)"
    using D(5) by (auto simp: span_ok_def max_def)
  let ?arr = "(sl_caSeq l)[nat (P c) := (sl_caSeq l ! nat (P c))\<lparr>sq_start := SRT_SEQNO_NONE, sq_end := SRT_SEQNO_NONE\<rparr>,
        nat (P a) := snode a (max b d) (firstp P ys (-1))]"
  have lx: "lastp P xs (-1) \<in> P ` fst ` set xs" if "xs \<noteq> []" using lastp_in [OF that] by blast
  have px: "P a \<notin> P ` fst ` set xs" "P c \<notin> P ` fst ` set xs"
    using lpos_fresh(1) [OF D(5,4), of k] lpos_disjoint [OF D(5,4), of k] by (simp_all add: P_def)
  have id: "(sl_caSeq l ! nat (lastp P xs (-1)))\<lparr>sq_next := P a\<rparr> = sl_caSeq l ! nat (lastp P xs (-1))" if "xs \<noteq> []"
    using that D(6) by (cases xs rule: rev_cases) (auto simp: schain_append)
  have link: "?arr ! nat (lastp P xs (-1)) = (sl_caSeq l ! nat (lastp P xs (-1)))\<lparr>sq_next := P a\<rparr>"
    if ne: "xs \<noteq> []"
  proof -
    have "lastp P xs (-1) \<noteq> P a" "lastp P xs (-1) \<noteq> P c" using lx [OF ne] px by metis+
    then show ?thesis using id [OF ne] pos_in_bounds [OF D(7) lx [OF ne]] na nc by (simp add: nth_update_int)
  qed
  have "sl_arr k (sl_iSize l) (xs @ [(a, max b d)] @ ys) ?arr"
  proof (rule sl_arr_edit [where ms = "[(a, b), (c, d)]" and arr = "sl_caSeq l", OF _ ok sp])
    show "sl_arr k (sl_iSize l) (xs @ [(a, b), (c, d)] @ ys) (sl_caSeq l)" using r(1) by simp
    fix x assume "x \<in> set [(a, b), (c, d)]"
      "lpos k (sl_iSize l) (fst x) \<notin> lpos k (sl_iSize l) ` fst ` set [(a, max b d)]"
    then show "sfree (?arr ! nat (lpos k (sl_iSize l) (fst x)))"
      using na nc PP by (auto simp: nth_update_int sfree_def simp flip: P_def)
  qed (use na nc link in \<open>simp_all add: nth_update_int flip: P_def\<close>)
  then show ?thesis
    using sl_coalesce_step_eq [OF rep ab c] r(2) last
    by (simp add: sl_rep_def firstp_append flip: P_def)
qed

lemma sl_coalesce_stop:
  assumes rep: "sl_rep k (xs @ (a, b) # ys) l" and stop: "ys = [] \<or> a = b \<or> b + 1 < fst (hd ys)"
  shows "sl_coalesce_step l (lpos k (sl_iSize l) a) = Some None"
proof (cases ys)
  case Nil
  then show ?thesis using sl_arr_nth [OF sl_repD(1) [OF rep]] by (simp add: sl_coalesce_step_def)
next
  case (Cons y ys')
  obtain c d where y: "y = (c, d)" by (cases y)
  note r = sl_repD [OF rep [unfolded Cons y]]
  note na = sl_arr_nth [OF r(1)]
  note nc = sl_arr_nth [of k "sl_iSize l" "xs @ [(a, b)]" c d ys' "sl_caSeq l", simplified, OF r(1)]
  have "\<bar>c - b\<bar> < m_iSeqNoTH" using span_seq [OF r(1), of "(a, b)" "(c, d)"] by auto
  then have "seqcmp (wrapseq c) (wrapseq (b + 1)) > 0" if "b + 1 < c" using that by (simp add: seqcmp_wrapseq)
  then show ?thesis using na nc stop Cons y by (auto simp: sl_coalesce_step_def Let_def incseq_wrapseq)
qed

lemma sl_coalesce_rep:
  assumes "sl_rep k (xs @ (a, b) # ys) l" and "sl_iLastInsertPos l = lpos k (sl_iSize l) a"
  shows "\<exists>l'. sl_coalesce l (lpos k (sl_iSize l) a) = Some l' \<and> sl_rep k (xs @ cojoin a b ys) l'
     \<and> sl_iSize l' = sl_iSize l"
  using assms
proof (induction a b ys arbitrary: l rule: cojoin.induct)
  case (1 a b)
  then show ?case using sl_coalesce_stop [OF 1(1)] by (subst sl_coalesce.simps) simp
next
  case (2 a b c d ys)
  show ?case
  proof (cases "a = b \<or> b + 1 < c")
    case True
    then show ?thesis using sl_coalesce_stop [OF 2(2)] 2(2) by (subst sl_coalesce.simps) auto
  next
    case False
    then obtain l' where l': "sl_coalesce_step l (lpos k (sl_iSize l) a) = Some (Some l')"
      "sl_rep k (xs @ (a, max b d) # ys) l'" "sl_iLastInsertPos l' = lpos k (sl_iSize l') a" "sl_iSize l' = sl_iSize l"
      using sl_coalesce_step_rep [OF 2(2) _ _ 2(3)] by auto
    with 2(1) [OF False l'(2,3)] False show ?thesis by (subst sl_coalesce.simps) simp
  qed
qed

lemma cojoin_rset:
  "starts_ok ((a, b) # ys) \<Longrightarrow> rset (cojoin a b ys) = {a..b} \<union> rset ys"
proof (induction a b ys rule: cojoin.induct)
  case (2 a b c d ys)
  show ?case
  proof (cases "a = b \<or> b + 1 < c")
    case False
    then have "rset (cojoin a (max b d) ys) = {a..max b d} \<union> rset ys" using 2 by auto
    moreover have "{a..max b d} = {a..b} \<union> {c..d}" using False 2(2) by auto
    ultimately show ?thesis using False by auto
  qed auto
qed simp

lemma cojoin_ok:
  "ranges_ok ys \<Longrightarrow> a \<le> b \<Longrightarrow> \<forall>y \<in> set ys. a < fst y \<Longrightarrow> ranges_ok (cojoin a b ys)"
proof (induction a b ys rule: cojoin.induct)
  case (2 a b c d ys)
  show ?case
  proof (cases "a = b \<or> b + 1 < c")
    case True
    with 2 show ?thesis by force
  next
    case False
    with 2 have "ranges_ok (cojoin a (max b d) ys)" by auto
    with False show ?thesis by simp
  qed
qed simp

lemma cojoin_first: "x \<in> set (cojoin a b ys) \<Longrightarrow> \<forall>y \<in> set ys. a < fst y \<Longrightarrow> a \<le> fst x"
  by (induction a b ys rule: cojoin.induct) (auto split: if_splits)

section \<open>insert\<close>

lemma sl_forward_rep:
  assumes "sl_arr k sz (pre @ (c, d) # mid @ vs) arr"
    and "\<forall>x \<in> set ((c, d) # mid). fst x < n" "\<forall>y \<in> set vs. n \<le> fst y"
    and "\<forall>x \<in> set (mid @ vs). \<bar>fst x - n\<bar> < m_iSeqNoTH"
  shows "sl_forward arr (lpos k sz c) (wrapseq n) = Some (lastp (lpos k sz) ((c, d) # mid) (-1))"
  using assms
proof (induction mid arbitrary: pre c d)
  case Nil
  note na = sl_arr_nth [OF Nil(1)]
  show ?case
  proof (cases vs)
    case Nil
    with na show ?thesis by (subst sl_forward.simps) simp
  next
    case (Cons v vs')
    obtain e f where v: "v = (e, f)" by (cases v)
    note ne = sl_arr_nth [of k sz "pre @ [(c, d)]" e f vs' arr, simplified, OF Nil(1) [simplified, unfolded Cons v]]
    have "\<not> seqcmp (wrapseq e) (wrapseq n) < 0"
      using Nil.prems(3,4) Cons v by (simp add: seqcmp_wrapseq)
    with na ne Cons v show ?thesis by (subst sl_forward.simps) simp
  qed
next
  case (Cons x mid)
  obtain e f where x: "x = (e, f)" by (cases x)
  note na = sl_arr_nth [OF Cons.prems(1)]
  note ne = sl_arr_nth [of k sz "pre @ [(c, d)]" e f "mid @ vs" arr, simplified, OF Cons.prems(1) [simplified, unfolded x]]
  have "seqcmp (wrapseq e) (wrapseq n) < 0"
    using Cons.prems(2,4) x by (simp add: seqcmp_wrapseq)
  moreover have "sl_forward arr (lpos k sz e) (wrapseq n) = Some (lastp (lpos k sz) ((e, f) # mid) (-1))"
    using Cons.prems x by (intro Cons.IH [of "pre @ [(c, d)]"]) simp_all
  ultimately show ?case using na ne x by (subst sl_forward.simps) (simp add: lastp_def)
qed

text \<open>What the insertion leaves for the joining loop, or that it had nothing to do.\<close>

definition sl_ins_ok :: "int \<Rightarrow> ranges \<Rightarrow> int \<Rightarrow> int \<Rightarrow> int option \<Rightarrow> snd_loss_list \<Rightarrow> bool" where
  "sl_ins_ok k rs a b r l' \<longleftrightarrow> (case r of
     None \<Rightarrow> {a..b} \<subseteq> rset rs \<and> sl_rep k rs l'
   | Some loc \<Rightarrow> \<exists>xs c e ys. loc = lpos k (sl_iSize l') c \<and> sl_iLastInsertPos l' = loc
       \<and> sl_rep k (xs @ (c, e) # ys) l' \<and> ranges_ok (xs @ [(c, e)]) \<and> ranges_ok ys
       \<and> rset (xs @ (c, e) # ys) = rset rs \<union> {a..b})"

text \<open>The numbers that a new range may reach.\<close>

definition sl_fits :: "int \<Rightarrow> ranges \<Rightarrow> int \<Rightarrow> int \<Rightarrow> bool" where
  "sl_fits sz rs a b \<longleftrightarrow> a \<le> b \<and> b - a + 1 < sz
     \<and> (\<forall>x \<in> set rs. b - fst x < sz \<and> snd x - a < sz)"

lemma sl_fits_span:
  assumes "sl_fits sz rs a b" "span_ok sz rs" "starts_ok rs"
    and "\<And>x. x \<in> set qs \<Longrightarrow> (x \<in> set rs \<or> (\<exists>r \<in> insert (a, b) (set rs). fst r = fst x) \<and> (\<exists>r \<in> insert (a, b) (set rs). snd x \<le> snd r))"
  shows "span_ok sz qs"
  unfolding span_ok_def
proof (intro ballI)
  fix x y assume xy: "x \<in> set qs" "y \<in> set qs"
  have *: "snd x' - fst y' < sz" if "x' \<in> insert (a, b) (set rs)" "y' \<in> insert (a, b) (set rs)" for x' y'
    using that assms(1,2) by (auto simp: sl_fits_def span_ok_def)
  from assms(4) [OF xy(1)] obtain x' where "x' \<in> insert (a, b) (set rs)" "snd x \<le> snd x'" by blast
  moreover from assms(4) [OF xy(2)] obtain y' where "y' \<in> insert (a, b) (set rs)" "fst y' = fst y" by blast
  ultimately show "snd x - fst y < sz" using * [of x' y'] by linarith
qed

lemma sl_updateElement_rep:
  assumes rep: "sl_rep k (xs @ (a, e) # ys) l" and ok: "ranges_ok (xs @ (a, e) # ys)"
    and fit: "sl_fits (sl_iSize l) (xs @ (a, e) # ys) a b"
  defines "P \<equiv> lpos k (sl_iSize l)"
  shows "\<exists>u l'. sl_updateElement l (P a) (wrapseq a) (wrapseq b) = Some (u, l')
    \<and> sl_iSize l' = sl_iSize l \<and> sl_ins_ok k (xs @ (a, e) # ys) a b (if u then Some (P a) else None) l'"
proof -
  note r = sl_repD [OF rep, folded P_def] and D = sl_arrD [OF sl_repD(1) [OF rep], folded P_def]
  note na = sl_arr_nth [OF r(1), folded P_def]
  have ab: "a \<le> b" "a \<le> e" "b - a < m_iSeqNoTH" "\<bar>b - e\<bar> < m_iSeqNoTH"
    using fit ok D(3) span_seq [OF r(1), of "(a, e)" "(a, e)"] by (auto simp: sl_fits_def ranges_ok_append)
  have w: "wrapseq b = wrapseq a \<longleftrightarrow> b = a" "seqcmp (wrapseq b) (wrapseq e) \<le> 0 \<longleftrightarrow> b \<le> e"
    using ab by (simp_all add: seq_simps seqno_const_defs)
  show ?thesis
  proof (cases "b \<le> e")
    case True
    have "sl_updateElement l (P a) (wrapseq a) (wrapseq b) = Some (False, l\<lparr>sl_iLastInsertPos := P a\<rparr>)"
      using True na(2) w ab(1,2) by (cases "a = b"; cases "a = e") (simp_all add: sl_updateElement_def Let_def)
    moreover have "sl_rep k (xs @ (a, e) # ys) (l\<lparr>sl_iLastInsertPos := P a\<rparr>)"
      using r by (simp add: sl_rep_def P_def)
    moreover have "{a..b} \<subseteq> rset (xs @ (a, e) # ys)" using True by auto
    ultimately show ?thesis
      by (intro exI [of _ False] exI [of _ "l\<lparr>sl_iLastInsertPos := P a\<rparr>"]) (simp add: sl_ins_ok_def)
  next
    case False
    have ok': "starts_ok (xs @ (a, b) # ys)"
      using D(4) ab by (auto simp: starts_ok_append)
    have sp: "span_ok (sl_iSize l) (xs @ (a, b) # ys)"
      by (rule sl_fits_span [OF fit D(5,4)]) auto
    obtain arr where arr: "upd (sl_caSeq l) (P a) (\<lambda>n. n\<lparr>sq_end := wrapseq b\<rparr>) = Some arr"
      "sl_rep k (xs @ (a, b) # ys) (l\<lparr>sl_iLastInsertPos := P a, sl_caSeq := arr, sl_iLength := sl_iLength l + (b - e)\<rparr>)"
      using sl_set_end [OF rep _ ab(3) ok' sp] False ab unfolding P_def by auto
    have "seqlen (wrapseq a) (wrapseq b) = b - a + 1" "seqlen (wrapseq e) (wrapseq b) = b - e + 1"
      using ab False by (simp_all add: seq_simps seqno_const_defs)
    then have "sl_updateElement l (P a) (wrapseq a) (wrapseq b) =
      Some (True, l\<lparr>sl_iLastInsertPos := P a, sl_caSeq := arr, sl_iLength := sl_iLength l + (b - e)\<rparr>)"
      using False na(2) w ab(1,2) arr(1)
      by (cases "a = e") (simp_all add: sl_updateElement_def Let_def snd_loss_list_eqI)
    moreover have "ranges_ok (xs @ [(a, b)])" "ranges_ok ys" using ok ab by (auto simp: ranges_ok_append)
    moreover have "rset (xs @ (a, b) # ys) = rset (xs @ (a, e) # ys) \<union> {a..b}" using False ab by auto
    moreover have "sl_ins_ok k (xs @ (a, e) # ys) a b (Some (P a))
       (l\<lparr>sl_iLastInsertPos := P a, sl_caSeq := arr, sl_iLength := sl_iLength l + (b - e)\<rparr>)"
      unfolding sl_ins_ok_def option.case
      by (intro exI [of _ xs] exI [of _ a] exI [of _ b] exI [of _ ys])
        (use arr(2) calculation(2-4) in \<open>simp add: P_def\<close>)
    ultimately show ?thesis
      by (intro exI [of _ True] exI [of _ "l\<lparr>sl_iLastInsertPos := P a, sl_caSeq := arr, sl_iLength := sl_iLength l + (b - e)\<rparr>"]) simp
  qed
qed

lemma sl_ins_okI:
  assumes "sl_rep k (xs @ (c, e) # ys) l'" "sl_iLastInsertPos l' = lpos k (sl_iSize l') c"
    "ranges_ok (xs @ [(c, e)])" "ranges_ok ys" "rset (xs @ (c, e) # ys) = rset rs \<union> {a..b}"
  shows "sl_ins_ok k rs a b (Some (lpos k (sl_iSize l') c)) l'"
  unfolding sl_ins_ok_def option.case
  by (intro exI [of _ xs] exI [of _ c] exI [of _ e] exI [of _ ys]) (use assms in simp)

lemma sl_rep_last: "sl_rep k rs l \<Longrightarrow> p \<in> lpos k (sl_iSize l) ` fst ` set rs \<Longrightarrow> sl_rep k rs (l\<lparr>sl_iLastInsertPos := p\<rparr>)"
  by (simp add: sl_rep_def)

text \<open>The node the search of \<^verbatim>\<open>insert\<close> starts from, and the one it finds.\<close>

lemma sl_insert_search:
  assumes rep: "sl_rep k (us @ vs) l" and ne: "us \<noteq> []"
    and us: "\<forall>x \<in> set us. fst x < n" and vs: "\<forall>y \<in> set vs. n < fst y"
    and near: "\<forall>x \<in> set (us @ vs). \<bar>fst x - n\<bar> < m_iSeqNoTH"
  shows "\<exists>i0. (if sl_iLastInsertPos l \<noteq> -1
           then do {
             p \<leftarrow> rd (sl_caSeq l) (sl_iLastInsertPos l);
             Some (if seqcmp (sq_start p) (wrapseq n) < 0 then sl_iLastInsertPos l else sl_iHead l)
           }
           else Some (sl_iHead l)) = Some i0
     \<and> sl_forward (sl_caSeq l) i0 (wrapseq n) = Some (lastp (lpos k (sl_iSize l)) us (-1))"
proof -
  define P where "P = lpos k (sl_iSize l)"
  note r = sl_repD [OF rep, folded P_def]
  have fw: "sl_forward (sl_caSeq l) (P c) (wrapseq n) = Some (lastp P us (-1))" if cd: "(c, d) \<in> set us" for c d
  proof -
    from split_list [OF cd] obtain pre mid where u: "us = pre @ (c, d) # mid" by blast
    with sl_forward_rep [of k "sl_iSize l" pre c d mid vs "sl_caSeq l" n] r(1) us vs near
    show ?thesis by (simp add: P_def less_imp_le)
  qed
  obtain c0 d0 us' where u0: "us = (c0, d0) # us'" using ne by (cases us) auto
  have head: "sl_iHead l = P c0" using r(2) u0 by simp
  show ?thesis
  proof (cases "sl_iLastInsertPos l = -1")
    case True
    with head fw [of c0 d0] u0 show ?thesis by (simp add: P_def)
  next
    case False
    with r(4) have "sl_iLastInsertPos l \<in> P ` fst ` set (us @ vs)" by blast
    then obtain c d where cd: "(c, d) \<in> set (us @ vs)" "sl_iLastInsertPos l = P c"
      by (elim imageE) (metis prod.collapse)
    from split_list [OF cd(1)] obtain pre post where "us @ vs = pre @ (c, d) # post" by blast
    with r(1) have nc: "rd (sl_caSeq l) (P c) = Some (snode c d (firstp P post (-1)))"
      using sl_arr_nth(2) [of k "sl_iSize l" pre c d post "sl_caSeq l"] by (simp add: P_def)
    have "seqcmp (wrapseq c) (wrapseq n) < 0 \<longleftrightarrow> c < n"
      using bspec [OF near cd(1)] by (intro seqcmp_wrapseq) simp
    moreover have "(c, d) \<in> set us" if "c < n" using that cd(1) vs by auto
    ultimately show ?thesis
      using False cd(2) nc head fw [of c d] fw [of c0 d0] u0 by (auto simp: P_def)
  qed
qed

lemma sl_insert_prior_rep:
  assumes rep: "sl_rep k (us @ vs) l" and ok: "ranges_ok (us @ vs)" and ne: "us \<noteq> []"
    and us: "\<forall>x \<in> set us. fst x < a" and vs: "\<forall>y \<in> set vs. a < fst y"
    and fit: "sl_fits (sl_iSize l) (us @ vs) a b"
  shows "\<exists>r l'. sl_insert_prior l (lpos k (sl_iSize l) a) (wrapseq a) (wrapseq b) = Some (r, l')
    \<and> sl_iSize l' = sl_iSize l \<and> sl_ins_ok k (us @ vs) a b r l'"
proof -
  define P where "P = lpos k (sl_iSize l)"
  note r = sl_repD [OF rep, folded P_def] and D = sl_arrD [OF sl_repD(1) [OF rep], folded P_def]
  have bounds: "fst x \<le> snd x \<and> b - fst x < sl_iSize l \<and> snd x - a < sl_iSize l" if "x \<in> set (us @ vs)" for x
    using that fit starts_ok_le [OF D(4)] by (auto simp: sl_fits_def)
  have ab: "a \<le> b" "b - a < m_iSeqNoTH" using fit D(3) by (auto simp: sl_fits_def)
  have near: "\<forall>x \<in> set (us @ vs). \<bar>fst x - a\<bar> < m_iSeqNoTH"
  proof
    fix x assume "x \<in> set (us @ vs)"
    from bounds [OF this] ab D(3) show "\<bar>fst x - a\<bar> < m_iSeqNoTH" by linarith
  qed
  obtain ws c e where u: "us = ws @ [(c, e)]" using ne by (cases us rule: rev_cases) auto
  have q: "lastp P us (-1) = P c" using u by simp
  obtain i0 where i0: "(if sl_iLastInsertPos l \<noteq> -1
           then do {
             p \<leftarrow> rd (sl_caSeq l) (sl_iLastInsertPos l);
             Some (if seqcmp (sq_start p) (wrapseq a) < 0 then sl_iLastInsertPos l else sl_iHead l)
           }
           else Some (sl_iHead l)) = Some i0" "sl_forward (sl_caSeq l) i0 (wrapseq a) = Some (P c)"
    using sl_insert_search [OF rep ne us vs near] q unfolding P_def by auto
  have repc: "sl_rep k (ws @ (c, e) # vs) l" using rep u by simp
  note nc = sl_arr_nth [OF sl_repD(1) [OF repc], folded P_def]
  have ce: "c < a" "c \<le> e" "b - c < m_iSeqNoTH" "\<bar>e - a\<bar> < m_iSeqNoTH" "\<bar>e - b\<bar> < m_iSeqNoTH"
    using bounds [of "(c, e)"] us u D(3) ab by auto
  have w: "seqcmp (wrapseq e) (wrapseq a) < 0 \<longleftrightarrow> e < a" "incseq (wrapseq e) = wrapseq a \<longleftrightarrow> e + 1 = a"
    "seqcmp (wrapseq e) (wrapseq b) \<ge> 0 \<longleftrightarrow> b \<le> e"
    using ce by (simp_all add: seq_simps seqno_const_defs)
  have send: "(if sq_end (snode c e x) = SRT_SEQNO_NONE then sq_start (snode c e x) else sq_end (snode c e x)) = wrapseq e" for x
    by simp
  have unf: "sl_insert_prior l (P a) (wrapseq a) (wrapseq b) =
     (if e < a \<and> e + 1 \<noteq> a
      then do { l' \<leftarrow> sl_insertAfter l (P a) (P c) (wrapseq a) (wrapseq b); Some (Some (P a), l') }
      else if b \<le> e then Some (None, l\<lparr>sl_iLastInsertPos := P c\<rparr>)
      else do {
        arr \<leftarrow> upd (sl_caSeq l) (P c) (\<lambda>n. n\<lparr>sq_end := wrapseq b\<rparr>);
        Some (Some (P c), l\<lparr>sl_iLastInsertPos := P c, sl_iLength := sl_iLength l + (seqlen (wrapseq e) (wrapseq b) - 1),
                       sl_caSeq := arr\<rparr>) })"
    unfolding sl_insert_prior_def i0 using i0(2) nc(2) by (simp add: Let_def send w del: snode_sel)
  have oku: "ranges_ok us" "ranges_ok vs" using ok by (auto simp: ranges_ok_append)
  consider "e < a" "e + 1 \<noteq> a" | "a \<le> e + 1" "b \<le> e" | "a \<le> e + 1" "e < b" by linarith
  then show ?thesis
  proof cases
    case 1
    have *: "starts_ok (us @ (a, b) # vs)" using D(4) us vs ab by (auto simp: starts_ok_append)
    have sp: "span_ok (sl_iSize l) (us @ (a, b) # vs)" by (rule sl_fits_span [OF fit D(5,4)]) auto
    from sl_insertAfter_rep [OF rep ne * sp, folded P_def] obtain l' where
      l': "sl_insertAfter l (P a) (P c) (wrapseq a) (wrapseq b) = Some l'" "sl_rep k (us @ (a, b) # vs) l'"
      "sl_iSize l' = sl_iSize l" using q by auto
    have "sl_iLastInsertPos l' = P a" using l'(1) by (auto simp: sl_insertAfter_def bind_eq_Some_conv)
    moreover have "\<forall>x \<in> set us. snd x < a" using oku(1) u 1(1) us by (auto simp: ranges_ok_append dest!: bspec)
    ultimately have "sl_ins_ok k (us @ vs) a b (Some (P a)) l'"
      using sl_ins_okI [OF l'(2), of "us @ vs" a b] oku ab l'(3) by (auto simp: ranges_ok_append P_def)
    with l' 1 unf show ?thesis by (auto simp: P_def)
  next
    case 2
    have "sl_rep k (us @ vs) (l\<lparr>sl_iLastInsertPos := P c\<rparr>)" using sl_rep_last [OF rep] u by (simp add: P_def)
    moreover have "{a..b} \<subseteq> rset (us @ vs)" using 2 ce u by auto
    moreover have "sl_insert_prior l (P a) (wrapseq a) (wrapseq b) = Some (None, l\<lparr>sl_iLastInsertPos := P c\<rparr>)"
      unfolding unf using 2 by auto
    ultimately show ?thesis unfolding P_def [symmetric]
      by (intro exI [of _ None] exI [of _ "l\<lparr>sl_iLastInsertPos := P c\<rparr>"]) (simp add: sl_ins_ok_def)
  next
    case 3
    have *: "starts_ok (ws @ (c, b) # vs)" using D(4) u ce ab by (auto simp: starts_ok_append)
    have sp: "span_ok (sl_iSize l) (ws @ (c, b) # vs)" by (rule sl_fits_span [OF fit D(5,4)]) (use u in auto)
    have cb: "c < b" using ce ab by simp
    obtain arr where arr: "upd (sl_caSeq l) (P c) (\<lambda>n. n\<lparr>sq_end := wrapseq b\<rparr>) = Some arr"
      "sl_rep k (ws @ (c, b) # vs) (l\<lparr>sl_iLastInsertPos := P c, sl_caSeq := arr, sl_iLength := sl_iLength l + (b - e)\<rparr>)"
      using sl_set_end [OF repc cb ce(3) * sp] unfolding P_def by auto
    have "seqlen (wrapseq e) (wrapseq b) = b - e + 1" using 3 ce by (simp add: seq_simps seqno_const_defs)
    then have "sl_insert_prior l (P a) (wrapseq a) (wrapseq b) =
       Some (Some (P c), l\<lparr>sl_iLastInsertPos := P c, sl_caSeq := arr, sl_iLength := sl_iLength l + (b - e)\<rparr>)"
      unfolding unf using 3 arr(1) by (auto simp: snd_loss_list_eqI)
    moreover have "sl_ins_ok k (us @ vs) a b (Some (P c))
        (l\<lparr>sl_iLastInsertPos := P c, sl_caSeq := arr, sl_iLength := sl_iLength l + (b - e)\<rparr>)"
    proof -
      have "{c..b} = {c..e} \<union> {a..b}" using ce 3 ab by auto
      then have "rset (ws @ (c, b) # vs) = rset (us @ vs) \<union> {a..b}" using u by auto
      with sl_ins_okI [OF arr(2), of "us @ vs" a b] oku u ce ab show ?thesis by (simp add: P_def ranges_ok_append)
    qed
    ultimately show ?thesis unfolding P_def [symmetric]
      by (intro exI [of _ "Some (P c)"] exI [of _ "l\<lparr>sl_iLastInsertPos := P c, sl_caSeq := arr, sl_iLength := sl_iLength l + (b - e)\<rparr>"]) simp
  qed
qed

end
