(* ===== verification/SndLossSpec.thy ===== *)
theory SndLossSpec
  imports SndLossRefine
begin

text \<open>
  What the sender's loss list promises: \<open>sl_abs l S\<close> says that the list holds the set \<open>S\<close> of
  sequence numbers. \<^verbatim>\<open>insert\<close>, \<^verbatim>\<open>removeUpTo\<close>, \<^verbatim>\<open>popLostSeq\<close> and \<^verbatim>\<open>getLossLength\<close> implement union,
  removal of a lower set, removal of the least element and the number of elements.
\<close>

lemma starts_split:
  assumes "starts_ok rs"
  obtains us vs where "rs = us @ vs" "\<forall>x \<in> set us. fst x < n" "\<forall>y \<in> set vs. n \<le> fst y"
proof -
  have "\<exists>us vs. rs = us @ vs \<and> (\<forall>x \<in> set us. fst x < n) \<and> (\<forall>y \<in> set vs. n \<le> fst y)"
    using assms
  proof (induction rs)
    case (Cons x rs)
    obtain a b where x: "x = (a, b)" by (cases x)
    show ?case
    proof (cases "a < n")
      case True
      from Cons x obtain us vs where "rs = us @ vs" "\<forall>x \<in> set us. fst x < n" "\<forall>y \<in> set vs. n \<le> fst y" by auto
      with True x show ?thesis by (intro exI [of _ "x # us"] exI [of _ vs]) simp
    next
      case False
      with Cons.prems x show ?thesis by (intro exI [of _ "[]"] exI [of _ "x # rs"]) force
    qed
  qed simp
  then show thesis using that by blast
qed

lemma sl_insert_at_rep:
  assumes rep: "sl_rep k ((a0, b0) # rs0) l" and ok: "ranges_ok ((a0, b0) # rs0)"
    and fit: "sl_fits (sl_iSize l) ((a0, b0) # rs0) a b"
  defines "P \<equiv> lpos k (sl_iSize l)"
  shows "\<exists>r l'. sl_insert_at l (a - a0) (P a) (wrapseq a) (wrapseq b) = Some (r, l')
    \<and> sl_iSize l' = sl_iSize l \<and> sl_ins_ok k ((a0, b0) # rs0) a b r l'"
proof -
  let ?rs = "(a0, b0) # rs0"
  note r = sl_repD [OF rep, folded P_def] and D = sl_arrD [OF sl_repD(1) [OF rep], folded P_def]
  have ab: "a \<le> b" using fit by (simp add: sl_fits_def)
  have head: "sl_iHead l = P a0" using r(2) by simp
  consider "a < a0" | "a = a0" | "a0 < a" by linarith
  then show ?thesis
  proof cases
    case 1
    have *: "starts_ok ((a, b) # ?rs)" using 1 D(4) ab by force
    have sp: "span_ok (sl_iSize l) ((a, b) # ?rs)" by (rule sl_fits_span [OF fit D(5,4)]) auto
    from sl_insertHead_rep [OF rep * sp, folded P_def] obtain l' where
      l': "sl_insertHead l (P a) (wrapseq a) (wrapseq b) = Some l'" "sl_rep k ((a, b) # ?rs) l'"
      "sl_iSize l' = sl_iSize l" by auto
    have "sl_iLastInsertPos l' = P a" using l'(1) by (auto simp: sl_insertHead_def bind_eq_Some_conv)
    then have "sl_ins_ok k ?rs a b (Some (P a)) l'"
      using sl_ins_okI [of k "[]" a b ?rs l' ?rs a b] l'(2,3) ok ab by (simp add: P_def Un_ac)
    with l' 1 show ?thesis by (auto simp: sl_insert_at_def)
  next
    case 2
    from sl_updateElement_rep [of k "[]" a0 b0 rs0 l b] rep ok fit 2 obtain u l' where
      "sl_updateElement l (P a) (wrapseq a) (wrapseq b) = Some (u, l')" "sl_iSize l' = sl_iSize l"
      "sl_ins_ok k ?rs a b (if u then Some (P a) else None) l'" unfolding P_def by fastforce
    with 2 head show ?thesis by (auto simp: sl_insert_at_def)
  next
    case 3
    have p: "rd (sl_caSeq l) (P a) = Some (sl_caSeq l ! nat (P a))"
      using lpos_bounds [OF D(1), of k a] D(2) by (simp add: arr_simps P_def)
    show ?thesis
    proof (cases "a \<in> fst ` set ?rs")
      case True
      then obtain e where "(a, e) \<in> set ?rs" by (elim imageE) (metis prod.collapse)
      from split_list [OF this] obtain xs ys where xy: "?rs = xs @ (a, e) # ys" by blast
      note na = sl_arr_nth [OF r(1) [unfolded xy], folded P_def]
      from sl_updateElement_rep [OF rep [unfolded xy] ok [unfolded xy] fit [unfolded xy]] obtain u l' where
        "sl_updateElement l (P a) (wrapseq a) (wrapseq b) = Some (u, l')" "sl_iSize l' = sl_iSize l"
        "sl_ins_ok k ?rs a b (if u then Some (P a) else None) l'" unfolding xy P_def by blast
      with 3 na show ?thesis by (auto simp: sl_insert_at_def)
    next
      case False
      obtain us vs where sp: "?rs = us @ vs" "\<forall>x \<in> set us. fst x < a" "\<forall>y \<in> set vs. a \<le> fst y"
        using starts_split [OF D(4)] by blast
      have vs: "\<forall>y \<in> set vs. a < fst y" using sp(1,3) False by (force simp: order.order_iff_strict)
      have ne: "us \<noteq> []" using sp 3 by (cases us) auto
      have "\<bar>x - a\<bar> < sl_iSize l" if "x \<in> fst ` set ?rs" for x
        using that fit starts_ok_le [OF D(4)] by (fastforce simp: sl_fits_def)
      then have "P x = P a \<longleftrightarrow> x = a" if "x \<in> fst ` set ?rs" for x using that by (simp add: P_def lpos_eq_iff)
      then have "P a \<notin> P ` fst ` set ?rs" using False by (metis imageE)
      then have "sfree (sl_caSeq l ! nat (P a))" using lpos_bounds [OF D(1), of k a] by (intro D(8)) (auto simp: P_def)
      then have "wrapseq a \<noteq> sq_start (sl_caSeq l ! nat (P a))" by (simp add: sfree_def)
      moreover note sl_insert_prior_rep [OF rep [unfolded sp(1)] ok [unfolded sp(1)] ne sp(2) vs fit [unfolded sp(1)]]
      ultimately show ?thesis using 3 p unfolding sp(1) [symmetric] by (simp add: sl_insert_at_def P_def)
    qed
  qed
qed


definition sl_abs :: "snd_loss_list \<Rightarrow> int set \<Rightarrow> bool" where
  "sl_abs l S \<longleftrightarrow> (\<exists>k rs. sl_rep k rs l \<and> ranges_ok rs \<and> rset rs = S)"

lemma sl_abs_length: "sl_abs l S \<Longrightarrow> finite S \<and> sl_getLossLength l = int (card S)"
  using card_rset by (auto simp: sl_abs_def sl_rep_def sl_getLossLength_def)

lemma sl_ins_coalesce:
  assumes "sl_ins_ok k rs a b (Some loc) l'"
  shows "\<exists>l''. sl_coalesce l' loc = Some l'' \<and> sl_abs l'' (rset rs \<union> {a..b}) \<and> sl_iSize l'' = sl_iSize l'"
proof -
  from assms obtain xs c e ys where i: "loc = lpos k (sl_iSize l') c" "sl_iLastInsertPos l' = loc"
    "sl_rep k (xs @ (c, e) # ys) l'" "ranges_ok (xs @ [(c, e)])" "ranges_ok ys"
    "rset (xs @ (c, e) # ys) = rset rs \<union> {a..b}" by (auto simp: sl_ins_ok_def)
  have st: "starts_ok (xs @ (c, e) # ys)" using sl_arrD(4) [OF sl_repD(1) [OF i(3)]] .
  then have ys: "\<forall>y \<in> set ys. c < fst y" "starts_ok ((c, e) # ys)" "c \<le> e" by (auto simp: starts_ok_append)
  from sl_coalesce_rep [OF i(3)] i(1,2) obtain l'' where
    l'': "sl_coalesce l' loc = Some l''" "sl_rep k (xs @ cojoin c e ys) l''" "sl_iSize l'' = sl_iSize l'" by auto
  have "ranges_ok (xs @ cojoin c e ys)"
    using i(4,5) cojoin_ok [OF i(5) ys(3,1)] cojoin_first [OF _ ys(1)] by (fastforce simp: ranges_ok_append)
  moreover have "rset (xs @ cojoin c e ys) = rset rs \<union> {a..b}" using cojoin_rset [OF ys(2)] i(6) by simp
  ultimately have "sl_abs l'' (rset rs \<union> {a..b})" using l''(2) unfolding sl_abs_def by blast
  with l'' show ?thesis by blast
qed

lemma sl_insert_correct:
  assumes abs: "sl_abs l S" and ab: "a \<le> b" "b - a + 1 < sl_iSize l"
    and fit: "\<forall>m \<in> S. \<bar>a - m\<bar> < sl_iSize l \<and> \<bar>b - m\<bar> < sl_iSize l"
  shows "\<exists>l'. sl_insert l (wrapseq a) (wrapseq b) = Some (int (card ({a..b} - S)), l')
     \<and> sl_abs l' (S \<union> {a..b}) \<and> sl_iSize l' = sl_iSize l"
proof -
  from abs obtain k rs where rep: "sl_rep k rs l" and ok: "ranges_ok rs" and S: "S = rset rs" by (auto simp: sl_abs_def)
  note D = sl_arrD [OF sl_repD(1) [OF rep]]
  have len: "seqlen (wrapseq a) (wrapseq b) = b - a + 1" using ab D(3) by (simp add: seq_simps seqno_const_defs)
  have pre: "\<not> (wrapseq a < 0 \<or> wrapseq b < 0)" "\<not> (b - a + 1 \<le> 0 \<or> sl_iSize l \<le> b - a + 1)"
    using ab by (auto simp: wrapseq_def seqno_const_defs not_less)
  have memb: "fst x \<in> S" "snd x \<in> S" if "x \<in> set rs" for x
  proof -
    have "fst x \<le> snd x" using starts_ok_le [OF D(4) that] .
    then have "fst x \<in> {fst x..snd x}" "snd x \<in> {fst x..snd x}" by simp_all
    then show "fst x \<in> S" "snd x \<in> S" using that S unfolding rset_def by (metis (no_types, lifting) UN_I case_prod_unfold)+
  qed
  show ?thesis
  proof (cases rs)
    case Nil
    have z: "sl_iLength l = 0" using sl_repD(3) [OF rep] Nil by simp
    have rep0: "sl_rep (- a) [] l" using rep Nil sl_rep_rebase by blast
    have p: "lpos (- a) (sl_iSize l) a = 0" by (simp add: lpos_def)
    have ok1: "starts_ok [(a, b)]" "span_ok (sl_iSize l) [(a, b)]" using ab by (simp_all add: span_ok_def)
    from sl_insertHead_rep [OF rep0 ok1] p obtain l' where
      l': "sl_insertHead l 0 (wrapseq a) (wrapseq b) = Some l'" "sl_rep (- a) [(a, b)] l'" "sl_iSize l' = sl_iSize l" by auto
    then have "sl_iLength l' = b - a + 1" using sl_repD(3) [OF l'(2)] by simp
    moreover have "sl_abs l' {a..b}" using l'(2) ab unfolding sl_abs_def by (intro exI [of _ "- a"] exI [of _ "[(a, b)]"]) simp
    ultimately show ?thesis using l' z pre len ab S Nil by (simp add: sl_insert_def Let_def)
  next
    case (Cons x rs0)
    obtain a0 b0 where x: "x = (a0, b0)" by (cases x)
    note rep' = rep [unfolded Cons x] and ok' = ok [unfolded Cons x]
    have fits: "sl_fits (sl_iSize l) ((a0, b0) # rs0) a b"
      unfolding sl_fits_def
    proof (intro conjI ab ballI)
      fix y assume "y \<in> set ((a0, b0) # rs0)"
      with memb [of y] Cons x have "fst y \<in> S" "snd y \<in> S" by auto
      with fit show "b - fst y < sl_iSize l" "snd y - a < sl_iSize l" by force+
    qed
    have a0: "\<bar>a - a0\<bar> < sl_iSize l" using memb [of "(a0, b0)"] fit Cons x by auto
    note n0 = sl_arr_nth [of k "sl_iSize l" "[]" a0 b0 rs0 "sl_caSeq l", simplified, OF sl_repD(1) [OF rep']]
    have head: "sl_iHead l = lpos k (sl_iSize l) a0" using sl_repD(2) [OF rep'] by simp
    have z: "sl_iLength l \<noteq> 0" "sl_iLength l = int (card S)"
      using sl_repD(3) [OF rep] rcount_pos [OF ok] card_rset [OF ok] Cons S by auto
    have nle: "\<not> sl_iSize l \<le> a - a0" using a0 by linarith
    have off: "seqoff (wrapseq a0) (wrapseq a) = a - a0" using a0 D(3) by (simp add: seq_simps)
    have "0 \<le> lpos k (sl_iSize l) a0 + (a - a0) + sl_iSize l" using a0 n0(3) by linarith
    then have loc: "(lpos k (sl_iSize l) a0 + (a - a0) + sl_iSize l) smod sl_iSize l = lpos k (sl_iSize l) a"
      using lpos_step [of k "sl_iSize l" a0 "a - a0"] D(1) by simp
    have pa: "\<not> lpos k (sl_iSize l) a < 0" using lpos_bounds [OF D(1), of k a] by simp
    from sl_insert_at_rep [OF rep' ok' fits] obtain r l' where
      l': "sl_insert_at l (a - a0) (lpos k (sl_iSize l) a) (wrapseq a) (wrapseq b) = Some (r, l')"
      "sl_iSize l' = sl_iSize l" "sl_ins_ok k rs a b r l'" using Cons x by auto
    have unf: "sl_insert l (wrapseq a) (wrapseq b) = (case r of
              None \<Rightarrow> Some (0, l')
            | Some loc \<Rightarrow> do { l'' \<leftarrow> sl_coalesce l' loc; Some (sl_iLength l'' - sl_iLength l, l'') })"
      unfolding sl_insert_def
      using pre len z(1) n0(2) head off nle l'(1) pa loc by (simp add: Let_def)
    show ?thesis
    proof (cases r)
      case None
      with l'(3) S have "{a..b} - S = {}" "S \<union> {a..b} = S" "sl_abs l' S" using ok by (auto simp: sl_ins_ok_def sl_abs_def)
      with None unf l'(2) show ?thesis by simp
    next
      case (Some loc)
      from sl_ins_coalesce [OF l'(3) [unfolded Some]] obtain l'' where
        l'': "sl_coalesce l' loc = Some l''" "sl_abs l'' (S \<union> {a..b})" "sl_iSize l'' = sl_iSize l'" using S by auto
      have "int (card (S \<union> {a..b})) = int (card S) + int (card ({a..b} - S))"
        using card_Un_disjoint [of S "{a..b} - S"] S by (simp add: Un_Diff_cancel)
      then have "sl_iLength l'' - sl_iLength l = int (card ({a..b} - S))"
        using sl_abs_length [OF l''(2)] z by (simp add: sl_getLossLength_def)
      with Some unf l'(2) l'' show ?thesis by simp
    qed
  qed
qed

section \<open>Removing from the front\<close>

lemma sl_arr_delete_first:
  assumes arr: "sl_arr k sz ((a, b) # ys) arr" and free: "sfree n"
  shows "sl_arr k sz ys (arr[nat (lpos k sz a) := n])"
proof -
  note D = sl_arrD [OF arr] and na = sl_arr_nth [of k sz "[]" a b ys arr, simplified, OF arr]
  have "sl_arr k sz ([] @ [] @ ys) (arr[nat (lpos k sz a) := n])"
    by (rule sl_arr_edit [where ms = "[(a, b)]" and arr = arr])
      (use arr D(4,5) na free in \<open>auto simp: nth_update_int span_ok_def\<close>)
  then show ?thesis by simp
qed

lemma sl_arr_trim_first:
  assumes arr: "sl_arr k sz ((a, b) # ys) arr" and ok: "ranges_ok ((a, b) # ys)" and ab: "a < b" and free: "sfree n"
  shows "sl_arr k sz ((a + 1, b) # ys)
    (arr[nat (lpos k sz (a + 1)) := snode (a + 1) b (firstp (lpos k sz) ys (-1)), nat (lpos k sz a) := n])"
    "lpos k sz (a + 1) \<noteq> lpos k sz a" "sfree (arr ! nat (lpos k sz (a + 1)))"
proof -
  define P where "P = lpos k sz"
  note D = sl_arrD [OF arr, folded P_def] and na = sl_arr_nth [of k sz "[]" a b ys arr, simplified, OF arr, folded P_def]
  have st: "starts_ok ((a + 1, b) # ys)" using ok D(4) ab by force
  have sp: "span_ok sz ((a + 1, b) # ys)" using D(5) by (force simp: span_ok_def)
  have sz: "1 < sz" using D(5) ab by (simp add: span_ok_def)
  then show ne: "lpos k sz (a + 1) \<noteq> lpos k sz a" by (simp add: lpos_eq_iff)
  have p: "0 \<le> P (a + 1)" "P (a + 1) < sz" using posfD [OF D(7)] by auto
  have "P (a + 1) \<notin> P ` fst ` set ys" using lpos_fresh(2) [of sz "[]" "a + 1" b ys k] sp st by (simp add: P_def)
  with ne p show fr: "sfree (arr ! nat (lpos k sz (a + 1)))" using D(8) [of "P (a + 1)"] by (simp add: P_def)
  have "sl_arr k sz ([] @ [(a + 1, b)] @ ys) (arr[nat (P (a + 1)) := snode (a + 1) b (firstp P ys (-1)), nat (P a) := n])"
    by (rule sl_arr_edit [where ms = "[(a, b)]" and arr = arr])
      (use arr st sp na free ne p D(2) in \<open>auto simp: nth_update_int simp flip: P_def\<close>)
  then show "sl_arr k sz ((a + 1, b) # ys)
    (arr[nat (lpos k sz (a + 1)) := snode (a + 1) b (firstp (lpos k sz) ys (-1)), nat (lpos k sz a) := n])"
    by (simp add: P_def)
qed

lemma cleared_free: "sfree (n\<lparr>sq_start := SRT_SEQNO_NONE, sq_end := SRT_SEQNO_NONE\<rparr>)"
  "sfree ((snode a a x)\<lparr>sq_start := SRT_SEQNO_NONE\<rparr>)"
  by (simp_all add: sfree_def snode_def)

lemma sl_abs_first:
  assumes "sl_rep k ((a, b) # rs) l" "ranges_ok ((a, b) # rs)"
  shows "Min (rset ((a, b) # rs)) = a" "rset ((a, b) # rs) - {a} = rset (cut a a b @ rs)"
    "ranges_ok (cut a a b @ rs)" "rcount (cut a a b @ rs) = rcount ((a, b) # rs) - 1"
  using Min_rset [OF assms(2)] cut_removes [of "[]" a b rs a] cut_ok [of "[]" a b rs a] cut_count [of a a b] assms(2)
  by auto

lemma sl_last_first:
  assumes "sl_rep k ((a, b) # rs) l"
  shows "(if sl_iLastInsertPos l = lpos k (sl_iSize l) a then -1 else sl_iLastInsertPos l) = -1
    \<or> (if sl_iLastInsertPos l = lpos k (sl_iSize l) a then -1 else sl_iLastInsertPos l) \<in> lpos k (sl_iSize l) ` fst ` set rs"
  using sl_repD(4) [OF assms] by auto

lemma sl_popLostSeq_correct:
  assumes abs: "sl_abs l S"
  shows "\<exists>l'. sl_popLostSeq l = Some (if S = {} then SRT_SEQNO_NONE else wrapseq (Min S), l')
     \<and> sl_abs l' (S - {Min S}) \<and> sl_iSize l' = sl_iSize l"
proof -
  from abs obtain k rs where rep: "sl_rep k rs l" and ok: "ranges_ok rs" and S: "S = rset rs" by (auto simp: sl_abs_def)
  define P where "P = lpos k (sl_iSize l)"
  show ?thesis
  proof (cases rs)
    case Nil
    with rep S abs show ?thesis by (auto simp: sl_popLostSeq_def sl_rep_def)
  next
    case (Cons x ys)
    obtain a b where x: "x = (a, b)" by (cases x)
    note rep' = rep [unfolded Cons x] and ok' = ok [unfolded Cons x]
    note r = sl_repD [OF rep', folded P_def] and f = sl_abs_first [OF rep' ok'] and last = sl_last_first [OF rep', folded P_def]
    note na = sl_arr_nth [of k "sl_iSize l" "[]" a b ys "sl_caSeq l", simplified, OF r(1), folded P_def]
    note D = sl_arrD [OF r(1), folded P_def]
    have ab: "a \<le> b" using ok' by simp
    have ne: "S \<noteq> {}" "sl_iLength l \<noteq> 0" using S Cons x ab r(3) rcount_pos [OF ok'] by auto
    have head: "sl_iHead l = P a" using r(2) by simp
    let ?last = "if sl_iLastInsertPos l = P a then -1 else sl_iLastInsertPos l"
    have "\<exists>l'. sl_popLostSeq l = Some (wrapseq a, l') \<and> sl_rep k (cut a a b @ ys) l' \<and> sl_iSize l' = sl_iSize l"
    proof (cases "a = b")
      case True
      then have c: "cut a a b = []" by (simp add: cut_def)
      let ?arr = "(sl_caSeq l)[nat (P a) := (sl_caSeq l ! nat (P a))\<lparr>sq_start := SRT_SEQNO_NONE\<rparr>]"
      have "sl_arr k (sl_iSize l) ys ?arr"
        using sl_arr_delete_first [OF r(1) cleared_free(2)] na(1) True by (simp add: P_def)
      then have "sl_rep k ys (l\<lparr>sl_caSeq := ?arr, sl_iHead := firstp P ys (-1), sl_iLastInsertPos := ?last, sl_iLength := sl_iLength l - 1\<rparr>)"
        using f(4) r(3) last by (simp add: sl_rep_def c flip: P_def)
      then show ?thesis unfolding c
        using ne head na True by (auto simp: sl_popLostSeq_def Let_def arr_simps)
    next
      case False
      with ab have lt: "a < b" by simp
      then have c: "cut a a b = [(a + 1, b)]" by (simp add: cut_def)
      let ?n = "(sl_caSeq l ! nat (P a))\<lparr>sq_start := SRT_SEQNO_NONE, sq_end := SRT_SEQNO_NONE\<rparr>"
      let ?arr = "(sl_caSeq l)[nat (P (a + 1)) := snode (a + 1) b (firstp P ys (-1)), nat (P a) := ?n]"
      note t = sl_arr_trim_first [OF r(1) ok' lt cleared_free(1) [of "sl_caSeq l ! nat (P a)"], folded P_def]
      have loc: "(P a + 1) smod sl_iSize l = P (a + 1)"
        using lpos_advance [OF D(1), of "a + 1" a k] by (simp add: P_def)
      have p: "0 \<le> P (a + 1)" "P (a + 1) < int (length (sl_caSeq l))" using posfD [OF D(7)] D(2) by auto
      have sc: "seqcmp (wrapseq b) (wrapseq (a + 1)) > 0 \<longleftrightarrow> a + 1 < b"
        using span_seq(3) [OF r(1), of "(a, b)" "(a, b)"] lt by (intro seqcmp_wrapseq) auto
      have ix: "nat (P a) \<noteq> nat (P (a + 1))" using t(2) p na by (simp add: eq_nat_nat_iff)
      have ln: "?last = -1 \<or> ?last \<in> P ` fst ` set ((a + 1, b) # ys)"
        using last unfolding list.set image_insert by blast
      have "sl_rep k ((a + 1, b) # ys) (l\<lparr>sl_caSeq := ?arr, sl_iHead := P (a + 1), sl_iLastInsertPos := ?last, sl_iLength := sl_iLength l - 1\<rparr>)"
        using t(1) r(3) ln by (simp add: sl_rep_def flip: P_def)
      moreover have "sl_popLostSeq l = Some (wrapseq a,
        l\<lparr>sl_caSeq := ?arr, sl_iHead := P (a + 1), sl_iLastInsertPos := ?last, sl_iLength := sl_iLength l - 1\<rparr>)"
        using ne head na lt p ix t(2,3) sc
        by (cases "b = a + 1") (simp_all add: sl_popLostSeq_def Let_def arr_simps loc incseq_wrapseq nth_update_int
          snd_loss_list_eqI snode_fresh sfree_def list_update_swap)
      ultimately show ?thesis by (simp add: c)
    qed
    then obtain l' where l': "sl_popLostSeq l = Some (wrapseq a, l')" "sl_rep k (cut a a b @ ys) l'" "sl_iSize l' = sl_iSize l" by blast
    have Sx: "S = rset ((a, b) # ys)" using S Cons x by simp
    have "sl_abs l' (S - {a})" using f(2,3) Sx l'(2) unfolding sl_abs_def by blast
    moreover have "Min S = a" using f(1) Sx by simp
    ultimately show ?thesis using l' ne by simp
  qed
qed

lemma sl_drop_prior_rep:
  assumes "sl_arr k (sl_iSize l) (zs @ ys) (sl_caSeq l)" "sl_iHead l = firstp (lpos k (sl_iSize l)) ys (-1)"
    "sl_iLength l = rcount (zs @ ys)"
    "sl_iLastInsertPos l = -1 \<or> sl_iLastInsertPos l \<in> lpos k (sl_iSize l) ` fst ` set (zs @ ys)"
  shows "\<exists>l'. sl_drop_prior l (firstp (lpos k (sl_iSize l)) (zs @ ys) (-1)) = Some l' \<and> sl_rep k ys l'
    \<and> sl_iSize l' = sl_iSize l"
  using assms
proof (induction zs arbitrary: l)
  case Nil
  then show ?case by (subst sl_drop_prior.simps) (simp add: sl_rep_def)
next
  case (Cons z zs)
  obtain a b where z: "z = (a, b)" by (cases z)
  define P where "P = lpos k (sl_iSize l)"
  note arr = Cons.prems(1) [unfolded z, simplified]
  note D = sl_arrD [OF arr] and na = sl_arr_nth [of k "sl_iSize l" "[]" a b "zs @ ys" "sl_caSeq l", simplified, OF arr, folded P_def]
  have ab: "a \<le> b" "b - a < m_iSeqNoTH" using D(3,4,5) by (auto simp: span_ok_def)
  have fr: "P a \<notin> P ` fst ` set (zs @ ys)" using lpos_fresh(2) [of "sl_iSize l" "[]" a b "zs @ ys" k] D(4,5) by (simp add: P_def)
  have hd: "P a \<noteq> sl_iHead l"
  proof (cases "ys = []")
    case False
    have "firstp P ys (-1) \<in> P ` fst ` set (zs @ ys)" using firstp_in [OF False, of P "-1"] by (simp add: image_Un)
    with fr Cons.prems(2) show ?thesis by (metis P_def)
  qed (use Cons.prems(2) na(5) in simp)
  let ?n = "(sl_caSeq l ! nat (P a))\<lparr>sq_start := SRT_SEQNO_NONE, sq_end := SRT_SEQNO_NONE\<rparr>"
  define l1 where "l1 = l\<lparr>sl_caSeq := (sl_caSeq l)[nat (P a) := ?n], sl_iLength := sl_iLength l - (b - a + 1),
     sl_iLastInsertPos := (if sl_iLastInsertPos l = P a then -1 else sl_iLastInsertPos l)\<rparr>"
  have "seqlen (wrapseq a) (wrapseq b) = b - a + 1" using ab by (simp add: seq_simps seqno_const_defs)
  then have step: "sl_drop_prior l (P a) = sl_drop_prior l1 (firstp P (zs @ ys) (-1))"
    using hd na by (subst sl_drop_prior.simps) (auto simp: arr_simps l1_def)
  have sz: "sl_iSize l1 = sl_iSize l" by (simp add: l1_def)
  have "\<exists>l'. sl_drop_prior l1 (firstp (lpos k (sl_iSize l1)) (zs @ ys) (-1)) = Some l' \<and> sl_rep k ys l'
    \<and> sl_iSize l' = sl_iSize l1"
  proof (rule Cons.IH)
    show "sl_arr k (sl_iSize l1) (zs @ ys) (sl_caSeq l1)"
      using sl_arr_delete_first [OF arr cleared_free(1)] by (simp add: l1_def P_def)
    show "sl_iHead l1 = firstp (lpos k (sl_iSize l1)) ys (-1)" using Cons.prems(2) by (simp add: l1_def)
    show "sl_iLength l1 = rcount (zs @ ys)" using Cons.prems(3) z by (simp add: l1_def)
    show "sl_iLastInsertPos l1 = -1 \<or> sl_iLastInsertPos l1 \<in> lpos k (sl_iSize l1) ` fst ` set (zs @ ys)"
      using Cons.prems(4) z by (auto simp: l1_def P_def)
  qed
  with step z sz show ?case by (simp add: P_def)
qed

text \<open>A range cut in two behind a number, before the front is dropped.\<close>

lemma sl_arr_cut:
  assumes arr: "sl_arr k sz (xs @ (a, b) # ys) arr" and ok: "ranges_ok (xs @ (a, b) # ys)" and n: "a \<le> n" "n < b"
  defines "P \<equiv> lpos k sz"
  shows "sl_arr k sz (xs @ (a, n) # (n + 1, b) # ys)
     (arr[nat (P (n + 1)) := snode (n + 1) b (firstp P ys (-1)), nat (P a) := snode a n (P (n + 1))])"
    "P (n + 1) \<noteq> P a" "sfree (arr ! nat (P (n + 1)))"
proof -
  note D = sl_arrD [OF arr, folded P_def] and na = sl_arr_nth [OF arr, folded P_def]
  have st: "starts_ok (xs @ [(a, n), (n + 1, b)] @ ys)" using ok n D(4) by (force simp: starts_ok_append ranges_ok_append)
  have sp: "span_ok sz (xs @ [(a, n), (n + 1, b)] @ ys)"
    unfolding span_ok_def
  proof (intro ballI)
    fix x y assume xy: "x \<in> set (xs @ [(a, n), (n + 1, b)] @ ys)" "y \<in> set (xs @ [(a, n), (n + 1, b)] @ ys)"
    have up: "\<exists>x' \<in> set (xs @ (a, b) # ys). snd x \<le> snd x' \<and> fst x' \<le> fst x"
      if "x \<in> set (xs @ [(a, n), (n + 1, b)] @ ys)" for x using that n by auto
    from up [OF xy(1)] up [OF xy(2)] D(5) show "snd x - fst y < sz" unfolding span_ok_def by fastforce
  qed
  have dj: "P (n + 1) \<noteq> P a" "P a \<notin> P ` fst ` set xs" "P (n + 1) \<notin> P ` fst ` set xs" "P (n + 1) \<notin> P ` fst ` set ys"
    using lpos_fresh [of sz xs a n "(n + 1, b) # ys" k] lpos_fresh [of sz "xs @ [(a, n)]" "n + 1" b ys k] st sp by (auto simp: P_def)
  then show "P (n + 1) \<noteq> P a" by simp
  have p: "0 \<le> P (n + 1)" "P (n + 1) < sz" "0 \<le> P a" "P a < sz" using posfD [OF D(7)] by auto
  show "sfree (arr ! nat (P (n + 1)))" using dj p by (intro D(8)) (auto simp: image_Un)
  let ?arr = "arr[nat (P (n + 1)) := snode (n + 1) b (firstp P ys (-1)), nat (P a) := snode a n (P (n + 1))]"
  have lx: "lastp P xs (-1) \<in> P ` fst ` set xs" if "xs \<noteq> []" using lastp_in [OF that] by blast
  have id: "(arr ! nat (lastp P xs (-1)))\<lparr>sq_next := P a\<rparr> = arr ! nat (lastp P xs (-1))" if "xs \<noteq> []"
    using that D(6) by (cases xs rule: rev_cases) (auto simp: schain_append)
  have link: "?arr ! nat (lastp P xs (-1)) = (arr ! nat (lastp P xs (-1)))\<lparr>sq_next := P a\<rparr>" if ne: "xs \<noteq> []"
  proof -
    have "lastp P xs (-1) \<noteq> P a" "lastp P xs (-1) \<noteq> P (n + 1)" using lx [OF ne] dj by metis+
    then show ?thesis using id [OF ne] pos_in_bounds [OF D(7) lx [OF ne]] na p D(2) by (simp add: nth_update_int)
  qed
  have "sl_arr k sz (xs @ [(a, n), (n + 1, b)] @ ys) ?arr"
  proof (rule sl_arr_edit [where ms = "[(a, b)]" and arr = arr, OF _ st sp])
    show "sl_arr k sz (xs @ [(a, b)] @ ys) arr" using arr by simp
  qed (use na link p dj(1) D(2) in \<open>simp_all add: nth_update_int flip: P_def\<close>)
  then show "sl_arr k sz (xs @ (a, n) # (n + 1, b) # ys) ?arr" by simp
qed

lemma snode_cut:
  "(snode n b x)\<lparr>sq_next := y, sq_end := SRT_SEQNO_NONE\<rparr> = snode n n y"
  "c \<noteq> n \<Longrightarrow> (snode c b x)\<lparr>sq_end := wrapseq n, sq_next := y\<rparr> = snode c n y"
  by (simp_all add: snode_def)

lemma snd_seq_clear: "n\<lparr>sq_end := e, sq_start := s\<rparr> = (n :: snd_seq)\<lparr>sq_start := s, sq_end := e\<rparr>"
  by (cases n) simp

lemma upd_overwritten: "i \<noteq> j \<Longrightarrow> xs[i := x, j := y, i := z] = xs[j := y, i := z]"
  by (metis list_update_overwrite list_update_swap)

lemma sl_remove_head_rep:
  assumes rep: "sl_rep k ((a, b) # ys) l" and ok: "ranges_ok ((a, b) # ys)"
  defines "P \<equiv> lpos k (sl_iSize l)"
  shows "\<exists>l'. sl_remove_head l (P (a + 1)) (wrapseq a) = Some l' \<and> sl_rep k (cut a a b @ ys) l' \<and> sl_iSize l' = sl_iSize l"
proof -
  note r = sl_repD [OF rep, folded P_def] and last = sl_last_first [OF rep, folded P_def]
  note na = sl_arr_nth [of k "sl_iSize l" "[]" a b ys "sl_caSeq l", simplified, OF r(1), folded P_def]
  note D = sl_arrD [OF r(1), folded P_def]
  have head: "sl_iHead l = P a" using r(2) by simp
  let ?last = "if sl_iLastInsertPos l = P a then -1 else sl_iLastInsertPos l"
  show ?thesis
  proof (cases "a = b")
    case True
    then have c: "cut a a b = []" by (simp add: cut_def)
    let ?arr = "(sl_caSeq l)[nat (P a) := (sl_caSeq l ! nat (P a))\<lparr>sq_start := SRT_SEQNO_NONE\<rparr>]"
    have "sl_arr k (sl_iSize l) ys ?arr"
      using sl_arr_delete_first [OF r(1) cleared_free(2)] na(1) True by (simp add: P_def)
    then have "sl_rep k ys (l\<lparr>sl_caSeq := ?arr, sl_iLastInsertPos := ?last, sl_iHead := firstp P ys (-1), sl_iLength := sl_iLength l - 1\<rparr>)"
      using r(3) last True by (simp add: sl_rep_def flip: P_def)
    then show ?thesis unfolding c
      using head na True by (auto simp: sl_remove_head_def Let_def arr_simps)
  next
    case False
    with ok have lt: "a < b" by simp
    then have c: "cut a a b = [(a + 1, b)]" by (simp add: cut_def)
    let ?n = "(sl_caSeq l ! nat (P a))\<lparr>sq_start := SRT_SEQNO_NONE, sq_end := SRT_SEQNO_NONE\<rparr>"
    let ?arr = "(sl_caSeq l)[nat (P (a + 1)) := snode (a + 1) b (firstp P ys (-1)), nat (P a) := ?n]"
    note t = sl_arr_trim_first [OF r(1) ok lt cleared_free(1) [of "sl_caSeq l ! nat (P a)"], folded P_def]
    have p: "0 \<le> P (a + 1)" "P (a + 1) < int (length (sl_caSeq l))" using posfD [OF D(7)] D(2) by auto
    have sc: "seqcmp (wrapseq b) (wrapseq (a + 1)) > 0 \<longleftrightarrow> a + 1 < b"
      using span_seq(3) [OF r(1), of "(a, b)" "(a, b)"] lt by (intro seqcmp_wrapseq) auto
    have ix: "nat (P a) \<noteq> nat (P (a + 1))" using t(2) p na by (simp add: eq_nat_nat_iff)
    have ln: "?last = -1 \<or> ?last \<in> P ` fst ` set ((a + 1, b) # ys)"
      using last unfolding list.set image_insert by blast
    have "sl_rep k ((a + 1, b) # ys) (l\<lparr>sl_caSeq := ?arr, sl_iHead := P (a + 1), sl_iLastInsertPos := ?last, sl_iLength := sl_iLength l - 1\<rparr>)"
      using t(1) r(3) ln by (simp add: sl_rep_def flip: P_def)
    moreover have "sl_remove_head l (P (a + 1)) (wrapseq a) = Some (
      l\<lparr>sl_caSeq := ?arr, sl_iHead := P (a + 1), sl_iLastInsertPos := ?last, sl_iLength := sl_iLength l - 1\<rparr>)"
      using head na lt p ix t(2,3) sc
      by (cases "b = a + 1") (simp_all add: sl_remove_head_def Let_def arr_simps incseq_wrapseq nth_update_int
        snd_loss_list_eqI snode_fresh sfree_def snd_seq_clear upd_overwritten)
    ultimately show ?thesis by (simp add: c)
  qed
qed

text \<open>
  The two other branches leave a chain whose head pointer is already at the first number to keep;
  dropping the front then gives the list of what is left.
\<close>

definition sl_headed :: "int \<Rightarrow> ranges \<Rightarrow> ranges \<Rightarrow> snd_loss_list \<Rightarrow> bool" where
  "sl_headed k zs ys l \<longleftrightarrow> sl_arr k (sl_iSize l) (zs @ ys) (sl_caSeq l)
     \<and> sl_iHead l = firstp (lpos k (sl_iSize l)) ys (-1) \<and> sl_iLength l = rcount (zs @ ys)
     \<and> (sl_iLastInsertPos l = -1 \<or> sl_iLastInsertPos l \<in> lpos k (sl_iSize l) ` fst ` set (zs @ ys))"

lemma sl_headed_next:
  assumes "sl_rep k (xs @ (a, b) # ys) l"
  shows "sl_headed k (xs @ [(a, b)]) ys (l\<lparr>sl_iHead := firstp (lpos k (sl_iSize l)) ys (-1)\<rparr>)"
  using assms by (simp add: sl_headed_def sl_rep_def)

lemma sl_headed_cut:
  assumes rep: "sl_rep k (xs @ (a, b) # ys) l" and ok: "ranges_ok (xs @ (a, b) # ys)" and n: "a \<le> n" "n < b"
  defines "P \<equiv> lpos k (sl_iSize l)"
  shows "sl_headed k (xs @ [(a, n)]) ((n + 1, b) # ys)
    (l\<lparr>sl_caSeq := (sl_caSeq l)[nat (P (n + 1)) := snode (n + 1) b (firstp P ys (-1)), nat (P a) := snode a n (P (n + 1))],
       sl_iHead := P (n + 1)\<rparr>)"
proof -
  note r = sl_repD [OF rep, folded P_def]
  have "fst ` set (xs @ (a, b) # ys) \<subseteq> fst ` set ((xs @ [(a, n)]) @ (n + 1, b) # ys)" by auto
  then have "P ` fst ` set (xs @ (a, b) # ys) \<subseteq> P ` fst ` set ((xs @ [(a, n)]) @ (n + 1, b) # ys)" by (rule image_mono)
  with r(4) have "sl_iLastInsertPos l = -1 \<or> sl_iLastInsertPos l \<in> P ` fst ` set ((xs @ [(a, n)]) @ (n + 1, b) # ys)" by blast
  with sl_arr_cut(1) [OF r(1) ok n] r(3) show ?thesis by (simp add: sl_headed_def flip: P_def)
qed

lemma sl_remove_start_headed:
  assumes rep: "sl_rep k (xs @ (n, b) # ys) l" and ok: "ranges_ok (xs @ (n, b) # ys)"
  defines "P \<equiv> lpos k (sl_iSize l)"
  shows "\<exists>l'. sl_remove_start l (P n) (P (n + 1)) (wrapseq n) = Some l' \<and> sl_iSize l' = sl_iSize l
    \<and> sl_headed k (xs @ [(n, n)]) ((if n < b then [(n + 1, b)] else []) @ ys) l'"
proof -
  note r = sl_repD [OF rep, folded P_def]
  note na = sl_arr_nth [OF r(1), folded P_def] and D = sl_arrD [OF r(1), folded P_def]
  show ?thesis
  proof (cases "n = b")
    case True
    then show ?thesis using sl_headed_next [OF rep] na by (simp add: sl_remove_start_def P_def)
  next
    case False
    with ok have lt: "n < b" by (simp add: ranges_ok_append)
    note t = sl_arr_cut [OF r(1) ok order.refl lt, folded P_def]
    have p: "0 \<le> P (n + 1)" "P (n + 1) < int (length (sl_caSeq l))" using posfD [OF D(7)] D(2) by auto
    have sc: "seqcmp (wrapseq b) (wrapseq (n + 1)) > 0 \<longleftrightarrow> n + 1 < b"
      using span_seq(3) [OF r(1), of "(n, b)" "(n, b)"] lt by (intro seqcmp_wrapseq) auto
    have ix: "nat (P n) \<noteq> nat (P (n + 1))" using t(2) p na by (simp add: eq_nat_nat_iff)
    have "sl_remove_start l (P n) (P (n + 1)) (wrapseq n) = Some (l\<lparr>sl_caSeq := (sl_caSeq l)
       [nat (P (n + 1)) := snode (n + 1) b (firstp P ys (-1)), nat (P n) := snode n n (P (n + 1))], sl_iHead := P (n + 1)\<rparr>)"
      using na lt p ix t(2,3) sc
      by (cases "b = n + 1") (simp_all add: sl_remove_start_def arr_simps incseq_wrapseq nth_update_int
        snode_fresh snode_cut sfree_def list_update_swap del: snode_upd)
    with sl_headed_cut [OF rep ok order.refl lt] lt show ?thesis by (simp add: P_def)
  qed
qed

lemma sl_remove_inside_headed:
  assumes rep: "sl_rep k (ws @ (c, e) # vs) l" and ok: "ranges_ok (ws @ (c, e) # vs)"
    and n: "c < n" "\<bar>e - n\<bar> < m_iSeqNoTH"
  defines "P \<equiv> lpos k (sl_iSize l)"
  shows "\<exists>l'. sl_remove_inside l (P c) (P (n + 1)) (wrapseq n) = Some l' \<and> sl_iSize l' = sl_iSize l
    \<and> sl_headed k (ws @ [(c, min n e)]) ((if n < e then [(n + 1, e)] else []) @ vs) l'"
proof -
  note r = sl_repD [OF rep, folded P_def]
  note na = sl_arr_nth [OF r(1), folded P_def] and D = sl_arrD [OF r(1), folded P_def]
  have gt: "seqcmp (wrapseq e) (wrapseq n) > 0 \<longleftrightarrow> n < e" using n(2) by (rule seqcmp_wrapseq)
  show ?thesis
  proof (cases "n < e")
    case False
    then have "sl_remove_inside l (P c) (P (n + 1)) (wrapseq n) = Some (l\<lparr>sl_iHead := firstp P ys (-1)\<rparr>)" if "vs = ys" for ys
      using na gt that by (cases "c = e") (simp_all add: sl_remove_inside_def)
    with False sl_headed_next [OF rep] show ?thesis by (simp add: P_def)
  next
    case True
    have le: "c \<le> n" using n by simp
    note t = sl_arr_cut [OF r(1) ok le True, folded P_def]
    have p: "0 \<le> P (n + 1)" "P (n + 1) < int (length (sl_caSeq l))" using posfD [OF D(7)] D(2) by auto
    have sc: "seqcmp (wrapseq e) (wrapseq (n + 1)) > 0 \<longleftrightarrow> n + 1 < e"
      using n(2) True by (intro seqcmp_wrapseq) auto
    have ix: "nat (P c) \<noteq> nat (P (n + 1))" using t(2) p na by (simp add: eq_nat_nat_iff)
    have "sl_remove_inside l (P c) (P (n + 1)) (wrapseq n) = Some (l\<lparr>sl_caSeq := (sl_caSeq l)
       [nat (P (n + 1)) := snode (n + 1) e (firstp P vs (-1)), nat (P c) := snode c n (P (n + 1))], sl_iHead := P (n + 1)\<rparr>)"
      using na True n(1) p ix t(2,3) sc gt
      by (cases "e = n + 1") (simp_all add: sl_remove_inside_def arr_simps incseq_wrapseq nth_update_int
        snode_fresh snode_cut sfree_def list_update_swap)
    with sl_headed_cut [OF rep ok le True] True show ?thesis by (simp add: P_def min_def)
  qed
qed

lemma if_arms_cong: "b = c \<Longrightarrow> x = u \<Longrightarrow> y = v \<Longrightarrow> (if b then x else y) = (if c then u else v)"
  by simp

lemma ranges_ok_suffix: "ranges_ok (xs @ ys) \<Longrightarrow> ranges_ok ys"
  by (simp add: ranges_ok_append)

lemma rset_upto:
  assumes "ranges_ok (xs @ ys)" "\<forall>x \<in> set xs. snd x \<le> n" "\<forall>y \<in> set ys. n < fst y"
  shows "rset (xs @ ys) - {..n} = rset ys"
proof -
  have "m \<le> n" if "m \<in> rset xs" for m using that assms(2) by (fastforce simp: rset_def)
  moreover have "n < m" if "m \<in> rset ys" for m using that assms(3) rset_above by blast
  ultimately show ?thesis by fastforce
qed

lemma sl_removeUpTo_later:
  assumes rep: "sl_rep k ((a0, b0) # rs0) l" and ok: "ranges_ok ((a0, b0) # rs0)" and n: "a0 < n"
    and near: "\<forall>x \<in> set ((a0, b0) # rs0). \<bar>fst x - n\<bar> < m_iSeqNoTH \<and> \<bar>snd x - n\<bar> < m_iSeqNoTH"
  defines "P \<equiv> lpos k (sl_iSize l)"
  shows "\<exists>l' zs ys. (if wrapseq n = sq_start (sl_caSeq l ! nat (P n))
                then sl_remove_start l (P n) (P (n + 1)) (wrapseq n)
                else do {
                  i \<leftarrow> sl_forward (sl_caSeq l) (sl_iHead l) (wrapseq n);
                  sl_remove_inside l i (P (n + 1)) (wrapseq n)
                }) = Some l' \<and> sl_iSize l' = sl_iSize l \<and> sl_headed k zs ys l'
     \<and> zs \<noteq> [] \<and> fst (hd zs) = a0 \<and> ranges_ok ys \<and> rset ys = rset ((a0, b0) # rs0) - {..n}"
proof -
  let ?rs = "(a0, b0) # rs0"
  note r = sl_repD [OF rep, folded P_def] and D = sl_arrD [OF sl_repD(1) [OF rep], folded P_def]
  have head: "sl_iHead l = P a0" using r(2) by simp
  show ?thesis
  proof (cases "n \<in> fst ` set ?rs")
    case True
    then obtain b where "(n, b) \<in> set ?rs" by (elim imageE) (metis prod.collapse)
    from split_list [OF this] obtain xs ys where xy: "?rs = xs @ (n, b) # ys" by blast
    note na = sl_arr_nth [OF r(1) [unfolded xy], folded P_def]
    note okx = ok [unfolded xy]
    from sl_remove_start_headed [OF rep [unfolded xy] okx] obtain l' where
      l': "sl_remove_start l (P n) (P (n + 1)) (wrapseq n) = Some l'" "sl_iSize l' = sl_iSize l"
      "sl_headed k (xs @ [(n, n)]) ((if n < b then [(n + 1, b)] else []) @ ys) l'" unfolding P_def by blast
    have ne: "xs \<noteq> []" "fst (hd (xs @ [(n, n)])) = a0" using xy n by (cases xs; auto)+
    have sp: "ranges_ok (xs @ [(n, n)] @ (if n < b then [(n + 1, b)] else []) @ ys)"
      using okx by (auto simp: ranges_ok_append)
    have "rset ?rs = rset ((xs @ [(n, n)]) @ (if n < b then [(n + 1, b)] else []) @ ys)"
      unfolding xy using okx by (auto simp: ranges_ok_append)
    also have "\<dots> - {..n} = rset ((if n < b then [(n + 1, b)] else []) @ ys)"
      using sp okx by (intro rset_upto) (auto simp: ranges_ok_append)
    finally have "rset ((if n < b then [(n + 1, b)] else []) @ ys) = rset ?rs - {..n}" by simp
    moreover have "ranges_ok ((if n < b then [(n + 1, b)] else []) @ ys)" "xs @ [(n, n)] \<noteq> []"
      using ranges_ok_suffix [of "xs @ [(n, n)]"] sp by simp_all
    moreover have "(if wrapseq n = sq_start (sl_caSeq l ! nat (P n))
                then sl_remove_start l (P n) (P (n + 1)) (wrapseq n)
                else do {
                  i \<leftarrow> sl_forward (sl_caSeq l) (sl_iHead l) (wrapseq n);
                  sl_remove_inside l i (P (n + 1)) (wrapseq n)
                }) = Some l'" using na(1) l'(1) by simp
    ultimately show ?thesis using l'(2,3) ne(2) by blast
  next
    case False
    obtain us vs where sp: "?rs = us @ vs" "\<forall>x \<in> set us. fst x < n" "\<forall>y \<in> set vs. n \<le> fst y"
      using starts_split [OF D(4)] by blast
    have vs: "\<forall>y \<in> set vs. n < fst y" using sp(1,3) False by (force simp: order.order_iff_strict)
    obtain us' where us: "us = (a0, b0) # us'" using sp n by (cases us) auto
    have "us \<noteq> []" using us by simp
    then obtain ws c e where u: "us = ws @ [(c, e)]" by (cases us rule: rev_cases) auto
    have "sq_start (sl_caSeq l ! nat (P n)) \<noteq> wrapseq n"
    proof (cases "P n \<in> P ` fst ` set ?rs")
      case True
      then obtain c' d' where cd: "(c', d') \<in> set ?rs" "P n = P c'" by (elim imageE) (metis prod.collapse)
      from split_list [OF cd(1)] obtain xs ys where "?rs = xs @ (c', d') # ys" by blast
      with sl_arr_nth(1) [of k "sl_iSize l" xs c' d' ys "sl_caSeq l"] r(1) cd(2)
      have "sq_start (sl_caSeq l ! nat (P n)) = wrapseq c'" by (simp add: P_def)
      moreover have "c' \<noteq> n" using False cd(1) by (metis fst_conv image_eqI)
      moreover have "\<bar>c' - n\<bar> < m_iSeqNoTH" using bspec [OF near cd(1)] by simp
      ultimately show ?thesis by (simp add: wrapseq_eq_iff seqno_const_defs)
    next
      case nin: False
      have "sfree (sl_caSeq l ! nat (P n))" using D(8) [of "P n"] nin posfD [OF D(7), of n] by blast
      then have "sq_start (sl_caSeq l ! nat (P n)) = SRT_SEQNO_NONE" by (simp add: sfree_def)
      then show ?thesis by simp
    qed
    moreover have "sl_forward (sl_caSeq l) (P a0) (wrapseq n) = Some (P c)"
    proof -
      have "lastp P ((a0, b0) # us') (-1) = P c" using u by (simp add: us [symmetric])
      with sl_forward_rep [of k "sl_iSize l" "[]" a0 b0 us' vs "sl_caSeq l" n] r(1) sp us near
      show ?thesis by (simp add: P_def)
    qed
    moreover have repc: "sl_rep k (ws @ (c, e) # vs) l" "ranges_ok (ws @ (c, e) # vs)" using rep ok sp(1) u by simp_all
    moreover have ce: "c < n" "\<bar>e - n\<bar> < m_iSeqNoTH" using sp u near by auto
    ultimately obtain l' where l': "(if wrapseq n = sq_start (sl_caSeq l ! nat (P n))
                then sl_remove_start l (P n) (P (n + 1)) (wrapseq n)
                else do {
                  i \<leftarrow> sl_forward (sl_caSeq l) (sl_iHead l) (wrapseq n);
                  sl_remove_inside l i (P (n + 1)) (wrapseq n)
                }) = Some l'" "sl_iSize l' = sl_iSize l"
      "sl_headed k (ws @ [(c, min n e)]) ((if n < e then [(n + 1, e)] else []) @ vs) l'"
      using sl_remove_inside_headed [OF repc ce] head unfolding P_def by auto
    have ne: "fst (hd (ws @ [(c, min n e)])) = a0" using us u by (cases ws) auto
    have spl: "ranges_ok (ws @ [(c, min n e)] @ (if n < e then [(n + 1, e)] else []) @ vs)"
      using repc(2) ce(1) vs by (auto simp: ranges_ok_append)
    have "rset ?rs = rset ((ws @ [(c, min n e)]) @ (if n < e then [(n + 1, e)] else []) @ vs)"
      unfolding sp(1) u using ce(1) by auto
    also have "\<dots> - {..n} = rset ((if n < e then [(n + 1, e)] else []) @ vs)"
      using spl vs ce(1) by (intro rset_upto) (auto simp: ranges_ok_append)
    finally have "rset ((if n < e then [(n + 1, e)] else []) @ vs) = rset ?rs - {..n}" by simp
    moreover have "ranges_ok ((if n < e then [(n + 1, e)] else []) @ vs)" "ws @ [(c, min n e)] \<noteq> []"
      using ranges_ok_suffix [of "ws @ [(c, min n e)]"] spl by simp_all
    ultimately show ?thesis using l' ne by blast
  qed
qed

lemma sl_removeUpTo_correct:
  assumes abs: "sl_abs l S" and near: "\<forall>m \<in> S. \<bar>m - n\<bar> < m_iSeqNoTH"
  shows "\<exists>l'. sl_removeUpTo l (wrapseq n) = Some l' \<and> sl_abs l' (S - {..n}) \<and> sl_iSize l' = sl_iSize l"
proof -
  from abs obtain k rs where rep: "sl_rep k rs l" and ok: "ranges_ok rs" and S: "S = rset rs" by (auto simp: sl_abs_def)
  define P where "P = lpos k (sl_iSize l)"
  show ?thesis
  proof (cases rs)
    case Nil
    with rep S abs show ?thesis by (auto simp: sl_removeUpTo_def sl_rep_def)
  next
    case (Cons x rs0)
    obtain a0 b0 where x: "x = (a0, b0)" by (cases x)
    note rep' = rep [unfolded Cons x] and ok' = ok [unfolded Cons x]
    have S': "S = rset ((a0, b0) # rs0)" using S Cons x by simp
    note r = sl_repD [OF rep', folded P_def] and D = sl_arrD [OF sl_repD(1) [OF rep'], folded P_def]
    note n0 = sl_arr_nth [of k "sl_iSize l" "[]" a0 b0 rs0 "sl_caSeq l", simplified, OF r(1), folded P_def]
    have head: "sl_iHead l = P a0" using r(2) by simp
    have z: "sl_iLength l \<noteq> 0" using r(3) rcount_pos [OF ok'] by simp
    have near': "\<forall>x \<in> set ((a0, b0) # rs0). \<bar>fst x - n\<bar> < m_iSeqNoTH \<and> \<bar>snd x - n\<bar> < m_iSeqNoTH"
    proof
      fix y assume y: "y \<in> set ((a0, b0) # rs0)"
      then have "fst y \<in> {fst y..snd y}" "snd y \<in> {fst y..snd y}" using starts_ok_le [OF D(4) y] by simp_all
      moreover have "{fst y..snd y} \<subseteq> S" using y unfolding S' rset_def by fastforce
      ultimately show "\<bar>fst y - n\<bar> < m_iSeqNoTH \<and> \<bar>snd y - n\<bar> < m_iSeqNoTH" using near by blast
    qed
    have off: "seqoff (wrapseq a0) (wrapseq n) = n - a0" using near' by (simp add: seq_simps abs_minus_commute)
    have loc: "(P a0 + (n - a0) + sl_iSize l) smod sl_iSize l = P n" if "a0 \<le> n"
    proof -
      have "0 \<le> P a0 + (n - a0) + sl_iSize l" using that n0(3) D(1) by linarith
      then show ?thesis using lpos_step [of k "sl_iSize l" a0 "n - a0"] D(1) by (simp add: P_def)
    qed
    have nxt: "(P n + 1) smod sl_iSize l = P (n + 1)" using lpos_advance [OF D(1), of "n + 1" n k] by (simp add: P_def)
    have rdn: "rd (sl_caSeq l) (P n) = Some (sl_caSeq l ! nat (P n))"
      using posfD [OF D(7), of n] D(2) by (simp add: arr_simps)
    have least: "a0 \<le> m" if "m \<in> S" for m
      using that ok' rset_above [of rs0 b0 m] unfolding S' by auto
    consider "n < a0" | "n = a0" | "a0 < n" by linarith
    then show ?thesis
    proof cases
      case 1
      have "n < m" if "m \<in> S" for m using least [OF that] 1 by simp
      then have "S - {..n} = S" by fastforce
      then show ?thesis using 1 z n0 head off abs by (simp add: sl_removeUpTo_def Let_def)
    next
      case 2
      from sl_remove_head_rep [OF rep' ok', folded P_def] obtain l' where
        l': "sl_remove_head l (P (a0 + 1)) (wrapseq a0) = Some l'" "sl_rep k (cut a0 a0 b0 @ rs0) l'" "sl_iSize l' = sl_iSize l" by blast
      have "S - {..a0} = S - {a0}" using least by fastforce
      then have "sl_abs l' (S - {..a0})"
        using l'(2) sl_abs_first(2,3) [OF rep' ok'] S' unfolding sl_abs_def by metis
      moreover have "sl_removeUpTo l (wrapseq n) = Some l'"
        using 2 z n0 head off loc nxt l'(1) by (simp add: sl_removeUpTo_def Let_def)
      ultimately show ?thesis using 2 l'(3) by blast
    next
      case 3
      from sl_removeUpTo_later [OF rep' ok' 3 near', folded P_def] obtain l' zs ys where
        l': "(if wrapseq n = sq_start (sl_caSeq l ! nat (P n))
                then sl_remove_start l (P n) (P (n + 1)) (wrapseq n)
                else do {
                  i \<leftarrow> sl_forward (sl_caSeq l) (sl_iHead l) (wrapseq n);
                  sl_remove_inside l i (P (n + 1)) (wrapseq n)
                }) = Some l'" "sl_iSize l' = sl_iSize l" "sl_headed k zs ys l'" "zs \<noteq> []" "fst (hd zs) = a0"
        "ranges_ok ys" "rset ys = S - {..n}" using S' by blast
      have h: "firstp (lpos k (sl_iSize l')) (zs @ ys) (-1) = P a0"
        using l'(2,4,5) by (cases zs) (auto simp: firstp_def P_def split: prod.split)
      from l'(3) sl_drop_prior_rep [of k l' zs ys] h obtain l'' where
        l'': "sl_drop_prior l' (P a0) = Some l''" "sl_rep k ys l''" "sl_iSize l'' = sl_iSize l'" by (auto simp: sl_headed_def)
      have off0: "n - a0 \<noteq> 0" "0 < n - a0" using 3 by auto
      have "sl_removeUpTo l (wrapseq n) = Option.bind (Some l') (\<lambda>l'. sl_drop_prior l' (P a0))"
        unfolding sl_removeUpTo_def l'(1) [symmetric]
        using z n0(2) head off off0 3 loc nxt rdn by (simp add: Let_def cong: if_arms_cong split del: if_split)
      then have "sl_removeUpTo l (wrapseq n) = Some l''" using l''(1) by simp
      moreover have "sl_abs l'' (S - {..n})" using l''(2) l'(6,7) unfolding sl_abs_def by blast
      ultimately show ?thesis using l''(3) l'(2) by auto
    qed
  qed
qed

section \<open>Properties\<close>

definition sl_demo_mem :: "snd_seq list" where
  "sl_demo_mem = replicate 8 \<lparr>sq_start = 0, sq_end = 0, sq_next = 0\<rparr>"

lemma sl_abs_empty: "0 < length mem \<Longrightarrow> int (length mem) \<le> m_iSeqNoTH \<Longrightarrow> sl_abs (CSndLossList mem) {}"
  using sl_rep_empty [of mem] by (auto simp: sl_abs_def intro!: exI [of _ "[]"])

lemma sl_demo:
  "\<exists>l. sl_insert (CSndLossList sl_demo_mem) 5 7 = Some (3, l) \<and> sl_abs l {5..7} \<and> sl_iSize l = 8"
proof -
  have "sl_abs (CSndLossList sl_demo_mem) {}" by (rule sl_abs_empty) (simp_all add: sl_demo_mem_def seqno_const_defs)
  moreover have "wrapseq 5 = 5" "wrapseq 7 = 7" by (simp_all add: wrapseq_def seqno_const_defs)
  ultimately show ?thesis using sl_insert_correct [of "CSndLossList sl_demo_mem" "{}" 5 7]
    by (simp add: CSndLossList_def sl_demo_mem_def)
qed

text \<open>
  C18. \<^verbatim>\<open>CSndLossList::insert\<close> of any range that fits into the array with what is already listed
  makes the list the union, whatever the range overlaps or joins, returns the number of the numbers
  that are new, stays inside the array and ends its search and its joining loop.
\<close>

theorem snd_insert_union:
  assumes "sl_abs l S" and "a \<le> b" "b - a + 1 < sl_iSize l"
    and "\<forall>m \<in> S. \<bar>a - m\<bar> < sl_iSize l \<and> \<bar>b - m\<bar> < sl_iSize l"
  shows "\<exists>l'. sl_insert l (wrapseq a) (wrapseq b) = Some (int (card ({a..b} - S)), l')
     \<and> sl_abs l' (S \<union> {a..b}) \<and> sl_iSize l' = sl_iSize l"
  using sl_insert_correct [OF assms] .

theorem snd_insert_union_witness:
  "\<exists>l l'. sl_insert (CSndLossList sl_demo_mem) 5 7 = Some (3, l) \<and> sl_insert l 3 6 = Some (2, l')
     \<and> sl_getLossLength l' = 5"
proof -
  obtain l where l: "sl_insert (CSndLossList sl_demo_mem) 5 7 = Some (3, l)" "sl_abs l {5..7}" "sl_iSize l = 8"
    using sl_demo by blast
  have w: "wrapseq 3 = 3" "wrapseq 6 = 6" by (simp_all add: wrapseq_def seqno_const_defs)
  have "{3..6} - {5..7} = {3..4::int}" "{5..7} \<union> {3..6} = {3..7::int}" by auto
  moreover have "\<forall>m \<in> {5..7::int}. \<bar>3 - m\<bar> < 8 \<and> \<bar>6 - m\<bar> < 8" by auto
  ultimately obtain l' where
    l': "sl_insert l 3 6 = Some (2, l')" "sl_abs l' {3..7}"
    using snd_insert_union [OF l(2), of 3 6] l(3) w by auto
  with sl_abs_length [OF l'(2)] l(1) show ?thesis by auto
qed

text \<open>
  \<^verbatim>\<open>popLostSeq\<close> returns the least listed number and takes exactly it out; on an empty list it
  returns the no-number value and changes nothing.
\<close>

theorem snd_pop_least:
  assumes "sl_abs l S"
  shows "\<exists>l'. sl_popLostSeq l = Some (if S = {} then SRT_SEQNO_NONE else wrapseq (Min S), l')
     \<and> sl_abs l' (S - {Min S}) \<and> sl_iSize l' = sl_iSize l"
  using sl_popLostSeq_correct [OF assms] .

theorem snd_pop_least_witness:
  "\<exists>l l'. sl_insert (CSndLossList sl_demo_mem) 5 7 = Some (3, l) \<and> sl_popLostSeq l = Some (5, l') \<and> sl_abs l' {6, 7}"
proof -
  obtain l where l: "sl_insert (CSndLossList sl_demo_mem) 5 7 = Some (3, l)" "sl_abs l {5..7}" "sl_iSize l = 8"
    using sl_demo by blast
  have m: "Min {5..7::int} = 5" by (intro Min_eqI) auto
  have "{5..7} - {5} = {6, 7::int}" "wrapseq 5 = 5" by (auto simp: wrapseq_def seqno_const_defs)
  with snd_pop_least [OF l(2)] m l(1) show ?thesis by auto
qed

text \<open>
  \<^verbatim>\<open>CSndLossList::removeUpTo\<close> takes out exactly the numbers up to and including its argument,
  also when that lies inside a range, between ranges or beyond the last one, and ends.
\<close>

theorem snd_removeUpTo_exact:
  assumes "sl_abs l S" and "\<forall>m \<in> S. \<bar>m - n\<bar> < m_iSeqNoTH"
  shows "\<exists>l'. sl_removeUpTo l (wrapseq n) = Some l' \<and> sl_abs l' (S - {..n}) \<and> sl_iSize l' = sl_iSize l"
  using sl_removeUpTo_correct [OF assms] .

theorem snd_removeUpTo_exact_witness:
  "\<exists>l l'. sl_insert (CSndLossList sl_demo_mem) 5 7 = Some (3, l) \<and> sl_removeUpTo l 6 = Some l' \<and> sl_abs l' {7}"
proof -
  obtain l where l: "sl_insert (CSndLossList sl_demo_mem) 5 7 = Some (3, l)" "sl_abs l {5..7}" "sl_iSize l = 8"
    using sl_demo by blast
  have "{5..7} - {..6} = {7::int}" "wrapseq 6 = 6" by (auto simp: wrapseq_def seqno_const_defs)
  moreover have "\<forall>m \<in> {5..7::int}. \<bar>m - 6\<bar> < m_iSeqNoTH" by (auto simp: seqno_const_defs)
  ultimately show ?thesis using snd_removeUpTo_exact [OF l(2), of 6] l(1) by auto
qed

end
