(* ===== verification/AckWindow.thy ===== *)
theory AckWindow
  imports SeqNo
begin

text \<open>
  \<^verbatim>\<open>CACKWindow\<close> and \<^verbatim>\<open>ACKWindowTools\<close> of \<^verbatim>\<open>srtcore/window.h\<close> and \<^verbatim>\<open>window.cpp\<close>: the ring of
  the ACK packets sent and not yet confirmed by an ACKACK, from which the receiver estimates the round
  trip time. Clock readings are arguments, in microseconds. The ring is refined to the queue of its
  records, oldest first.
\<close>

section \<open>The window and its operations\<close>

record ack_seq =
  iACKSeqNo :: int
  iACK :: int
  tsTimeStamp :: int

record ack_window =
  aw_aSeq :: "ack_seq list"
  aw_iHead :: int
  aw_iTail :: int

text \<open>Conversion of a 64-bit count to a 32-bit \<^verbatim>\<open>int\<close>.\<close>

definition to_int32 :: "int \<Rightarrow> int" where
  "to_int32 x = signed_take_bit 31 x"

definition CACKWindow :: "nat \<Rightarrow> ack_window" where
  "CACKWindow SIZE =
     \<lparr>aw_aSeq = (replicate SIZE \<lparr>iACKSeqNo = 0, iACK = 0, tsTimeStamp = 0\<rparr>)
        [0 := \<lparr>iACKSeqNo = SRT_SEQNO_NONE, iACK = 0, tsTimeStamp = 0\<rparr>],
      aw_iHead = 0, aw_iTail = 0\<rparr>"

definition aw_size :: "ack_window \<Rightarrow> int" where
  "aw_size w = int (length (aw_aSeq w))"

definition aw_store :: "int \<Rightarrow> ack_window \<Rightarrow> int \<Rightarrow> int \<Rightarrow> ack_window option" where
  "aw_store now w seq ack = do {
     arr \<leftarrow> upd (aw_aSeq w) (aw_iHead w) (\<lambda>s. s\<lparr>iACKSeqNo := seq, iACK := ack, tsTimeStamp := now\<rparr>);
     let head = (aw_iHead w + 1) smod aw_size w;
     let tail = (if head = aw_iTail w then (aw_iTail w + 1) smod aw_size w else aw_iTail w);
     Some (w\<lparr>aw_aSeq := arr, aw_iHead := head, aw_iTail := tail\<rparr>)
   }"

text \<open>
  The loops of \<^verbatim>\<open>acknowledge\<close>: the first position from \<open>i\<close> on, below \<open>n\<close>, whose record has the
  ACK number; \<open>ix\<close> turns the loop variable into an array index.
\<close>

function aw_scan :: "ack_seq list \<Rightarrow> (int \<Rightarrow> int) \<Rightarrow> int \<Rightarrow> int \<Rightarrow> int \<Rightarrow> int option option" where
  "aw_scan arr ix seq i n =
     (if i < n
      then do {
        s \<leftarrow> rd arr (ix i);
        if seq = iACKSeqNo s then Some (Some (ix i)) else aw_scan arr ix seq (i + 1) n
      }
      else Some None)"
  by pat_completeness auto
termination by (relation "measure (\<lambda>(arr, ix, seq, i, n). nat (n - i))") auto

declare aw_scan.simps [simp del]

text \<open>The result is the RTT or -1, the data number written to \<^verbatim>\<open>r_ack\<close> if any, and the window.\<close>

definition aw_acknowledge ::
    "int \<Rightarrow> ack_window \<Rightarrow> int \<Rightarrow> (int \<times> int option \<times> ack_window) option" where
  "aw_acknowledge currtime w seq =
     (let size = aw_size w; head = aw_iHead w; tail = aw_iTail w in
      if head \<ge> tail
      then do {
        r \<leftarrow> aw_scan (aw_aSeq w) (\<lambda>i. i) seq tail head;
        case r of
          None \<Rightarrow> Some (-1, None, w)
        | Some i \<Rightarrow> do {
            s \<leftarrow> rd (aw_aSeq w) i;
            let rtt = to_int32 (currtime - tsTimeStamp s);
            if i + 1 = head
            then do {
              arr \<leftarrow> upd (aw_aSeq w) 0 (\<lambda>s. s\<lparr>iACKSeqNo := SRT_SEQNO_NONE\<rparr>);
              Some (rtt, Some (iACK s), w\<lparr>aw_aSeq := arr, aw_iHead := 0, aw_iTail := 0\<rparr>)
            }
            else Some (rtt, Some (iACK s), w\<lparr>aw_iTail := (i + 1) smod size\<rparr>)
          }
      }
      else do {
        r \<leftarrow> aw_scan (aw_aSeq w) (\<lambda>j. j smod size) seq tail (head + size);
        case r of
          None \<Rightarrow> Some (-1, None, w)
        | Some j \<Rightarrow> do {
            s \<leftarrow> rd (aw_aSeq w) j;
            let rtt = to_int32 (currtime - tsTimeStamp s);
            if j = head
            then do {
              arr \<leftarrow> upd (aw_aSeq w) 0 (\<lambda>s. s\<lparr>iACKSeqNo := -1\<rparr>);
              Some (rtt, Some (iACK s), w\<lparr>aw_aSeq := arr, aw_iHead := 0, aw_iTail := 0\<rparr>)
            }
            else Some (rtt, Some (iACK s), w\<lparr>aw_iTail := (j + 1) smod size\<rparr>)
          }
      })"

section \<open>The queue a window stands for\<close>

definition aw_len :: "ack_window \<Rightarrow> int" where
  "aw_len w = (aw_iHead w - aw_iTail w) mod aw_size w"

definition aw_at :: "ack_window \<Rightarrow> nat \<Rightarrow> ack_seq" where
  "aw_at w j = aw_aSeq w ! nat ((aw_iTail w + int j) mod aw_size w)"

definition aw_queue :: "ack_window \<Rightarrow> ack_seq list" where
  "aw_queue w = map (aw_at w) [0..<nat (aw_len w)]"

definition aw_ok :: "ack_window \<Rightarrow> bool" where
  "aw_ok w \<longleftrightarrow> 2 \<le> aw_size w \<and> 0 \<le> aw_iHead w \<and> aw_iHead w < aw_size w
     \<and> 0 \<le> aw_iTail w \<and> aw_iTail w < aw_size w"

text \<open>The first record with the given ACK number, and the records after it.\<close>

fun q_ack :: "int \<Rightarrow> ack_seq list \<Rightarrow> (ack_seq \<times> ack_seq list) option" where
  "q_ack seq [] = None"
| "q_ack seq (s # q) = (if iACKSeqNo s = seq then Some (s, q) else q_ack seq q)"

lemma aw_len_cases:
  assumes "aw_ok w"
  shows "aw_len w = (if aw_iTail w \<le> aw_iHead w then aw_iHead w - aw_iTail w
     else aw_iHead w - aw_iTail w + aw_size w)" "0 \<le> aw_len w" "aw_len w < aw_size w"
proof -
  show "aw_len w = (if aw_iTail w \<le> aw_iHead w then aw_iHead w - aw_iTail w
     else aw_iHead w - aw_iTail w + aw_size w)"
  proof (cases "aw_iTail w \<le> aw_iHead w")
    case True
    with assms show ?thesis by (simp add: aw_len_def aw_ok_def)
  next
    case False
    have "(aw_iHead w - aw_iTail w) mod aw_size w = (aw_iHead w - aw_iTail w + aw_size w) mod aw_size w" by simp
    also have "\<dots> = aw_iHead w - aw_iTail w + aw_size w"
      using assms False unfolding aw_ok_def by (intro mod_pos_pos_trivial) linarith+
    finally show ?thesis using False by (simp add: aw_len_def)
  qed
  show "0 \<le> aw_len w" "aw_len w < aw_size w" using assms by (auto simp: aw_len_def aw_ok_def)
qed

lemma aw_queue_length: "aw_ok w \<Longrightarrow> int (length (aw_queue w)) = aw_len w"
  using aw_len_cases(2) by (simp add: aw_queue_def)

lemma aw_pos_neq:
  assumes "aw_ok w" "int j < aw_len w"
  shows "(aw_iTail w + int j) mod aw_size w \<noteq> aw_iHead w"
proof
  assume "(aw_iTail w + int j) mod aw_size w = aw_iHead w"
  moreover have "(aw_iTail w + aw_len w) mod aw_size w = aw_iHead w"
    using aw_len_cases(1) [OF assms(1)] assms(1) by (auto simp: aw_ok_def)
  ultimately have "(aw_iTail w + int j) mod aw_size w = (aw_iTail w + aw_len w) mod aw_size w" by simp
  moreover have "\<bar>aw_iTail w + int j - (aw_iTail w + aw_len w)\<bar> < aw_size w"
    using assms aw_len_cases(3) [OF assms(1)] by linarith
  ultimately have "aw_iTail w + int j = aw_iTail w + aw_len w" by (simp only: mod_eq_iff_small)
  with assms(2) show False by simp
qed

section \<open>store\<close>

lemma aw_store_queue:
  fixes now seq ack :: int
  assumes ok: "aw_ok w"
  defines "s \<equiv> \<lparr>iACKSeqNo = seq, iACK = ack, tsTimeStamp = now\<rparr>"
  shows "\<exists>w'. aw_store now w seq ack = Some w' \<and> aw_ok w' \<and> aw_size w' = aw_size w
    \<and> aw_queue w' = (if aw_len w + 1 < aw_size w then aw_queue w else tl (aw_queue w)) @ [s]"
proof -
  let ?H = "aw_iHead w" and ?T = "aw_iTail w" and ?N = "aw_size w"
  let ?H' = "(?H + 1) mod ?N"
  let ?T' = "if ?H' = ?T then (?T + 1) mod ?N else ?T"
  define w' where "w' = w\<lparr>aw_aSeq := (aw_aSeq w)[nat ?H := s], aw_iHead := ?H', aw_iTail := ?T'\<rparr>"
  have b: "2 \<le> ?N" "0 \<le> ?H" "?H < ?N" "0 \<le> ?T" "?T < ?N" using ok by (auto simp: aw_ok_def)
  have L: "int (length (aw_aSeq w)) = ?N" by (simp add: aw_size_def)
  note len = aw_len_cases [OF ok]
  have st: "aw_store now w seq ack = Some w'"
  proof -
    have "int (length (aw_aSeq w)) = ?N" "(?H + 1) smod ?N = ?H'" "(?T + 1) smod ?N = (?T + 1) mod ?N"
      using b by (simp add: aw_size_def, simp_all)
    then show ?thesis using b by (cases "aw_aSeq w ! nat ?H") (simp add: aw_store_def arr_simps w'_def s_def Let_def)
  qed
  have sz: "aw_size w' = ?N" by (simp add: w'_def aw_size_def)
  have tw: "aw_iTail w' = ?T'" by (simp add: w'_def)
  have ok': "aw_ok w'" using b sz unfolding aw_ok_def by (simp add: w'_def)
  have H: "(?T + aw_len w) mod ?N = ?H" using len(1) b by auto
  have at: "aw_aSeq w' ! nat ((?T + int j) mod ?N) = (if int j = aw_len w then s else aw_at w j)" if "int j \<le> aw_len w" for j
  proof -
    have p: "0 \<le> (?T + int j) mod ?N" "(?T + int j) mod ?N < int (length (aw_aSeq w))" using b L by simp_all
    show ?thesis
    proof (cases "int j = aw_len w")
      case True
      have "nat ?H < length (aw_aSeq w)" using b L by simp
      with True H show ?thesis by (simp add: w'_def)
    next
      case False
      with that aw_pos_neq [OF ok, of j] have "(?T + int j) mod ?N \<noteq> ?H" by simp
      with p b show ?thesis using False by (simp add: w'_def aw_at_def eq_nat_nat_iff)
    qed
  qed
  have full: "?H' = ?T \<longleftrightarrow> aw_len w + 1 = ?N"
  proof -
    have "?H' = (?T + (aw_len w + 1)) mod ?N"
      by (subst H [symmetric]) (simp add: mod_add_left_eq add.assoc)
    moreover have "(?T + (aw_len w + 1)) mod ?N = ?T \<longleftrightarrow> aw_len w + 1 = ?N"
    proof (cases "aw_len w + 1 = ?N")
      case False
      with len have "\<bar>?T + (aw_len w + 1) - ?T\<bar> < ?N" by linarith
      from mod_eq_iff_small [OF this] b len False show ?thesis by simp
    qed (use b in simp)
    ultimately show ?thesis by simp
  qed
  have H': "?H' = (?T + (aw_len w + 1)) mod ?N"
    by (subst H [symmetric]) (simp add: mod_add_left_eq add.assoc)
  show ?thesis
  proof (cases "aw_len w + 1 = ?N")
    case False
    with len have lt: "aw_len w + 1 < ?N" by linarith
    have "aw_len w' = (?T + (aw_len w + 1) - ?T) mod ?N"
      using full False H' sz by (simp add: aw_len_def w'_def mod_diff_left_eq)
    then have l': "aw_len w' = aw_len w + 1" using lt len by simp
    have at': "aw_at w' j = (if int j = aw_len w then s else aw_at w j)" if "int j \<le> aw_len w" for j
      unfolding aw_at_def [of w' j] sz tw using at [OF that] full False by simp
    have n: "nat (aw_len w + 1) = Suc (nat (aw_len w))" using len by simp
    have "aw_queue w' = map (aw_at w) [0..<nat (aw_len w)] @ [s]"
      unfolding aw_queue_def l' n using at' len by (simp add: upt_Suc_append)
    with st ok' sz lt show ?thesis by (simp add: aw_queue_def)
  next
    case True
    then have T': "?T' = (?T + 1) mod ?N" "?H' = ?T" using full by simp_all
    have "aw_len w' = (?T - (?T + 1)) mod ?N"
      using T' sz by (simp add: aw_len_def w'_def mod_diff_right_eq)
    also have "\<dots> = ?N - 1" using b by (simp add: zmod_minus1)
    finally have l': "aw_len w' = aw_len w" using True by simp
    have at': "aw_at w' j = (if int (Suc j) = aw_len w then s else aw_at w (Suc j))" if "int (Suc j) \<le> aw_len w" for j
    proof -
      have "((?T + 1) mod ?N + int j) mod ?N = (?T + int (Suc j)) mod ?N" by (simp add: mod_add_left_eq add.assoc)
      then show ?thesis unfolding aw_at_def [of w' j] sz tw T'(1) using at [OF that] by simp
    qed
    define m where "m = nat (aw_len w) - 1"
    have m: "nat (aw_len w) = Suc m" "aw_len w = int (Suc m)" using True b by (auto simp: m_def)
    have "aw_queue w' = map (\<lambda>j. aw_at w (Suc j)) [0..<m] @ [s]"
      unfolding aw_queue_def l' m(1) using at' m(2) by (simp add: upt_Suc_append)
    also have "map (\<lambda>j. aw_at w (Suc j)) [0..<m] = tl (aw_queue w)"
      unfolding aw_queue_def m(1) by (simp add: map_tl [symmetric] upt_rec [of 0 "Suc m"] map_Suc_upt [symmetric] del: upt_Suc)
    finally show ?thesis using st ok' sz True by simp
  qed
qed

section \<open>acknowledge\<close>

lemma aw_scan_queue:
  assumes ok: "aw_ok w" and ix: "\<And>i. int i < aw_len w \<Longrightarrow> ix (aw_iTail w + int i) = (aw_iTail w + int i) mod aw_size w"
    and j: "int j \<le> aw_len w"
  shows "\<exists>r. aw_scan (aw_aSeq w) ix seq (aw_iTail w + int j) (aw_iTail w + aw_len w) = Some r
    \<and> (case r of None \<Rightarrow> q_ack seq (drop j (aw_queue w)) = None
       | Some p \<Rightarrow> \<exists>i. int i < aw_len w \<and> p = (aw_iTail w + int i) mod aw_size w
           \<and> q_ack seq (drop j (aw_queue w)) = Some (aw_at w i, drop (Suc i) (aw_queue w)))"
  using j
proof (induction "nat (aw_len w) - j" arbitrary: j)
  case 0
  then have "int j = aw_len w" by linarith
  moreover have "length (aw_queue w) = nat (aw_len w)" by (simp add: aw_queue_def)
  ultimately show ?case by (subst aw_scan.simps) simp
next
  case (Suc d)
  then have j: "int j < aw_len w" by linarith
  let ?p = "(aw_iTail w + int j) mod aw_size w"
  have "0 \<le> ?p" "?p < aw_size w" using ok by (auto simp: aw_ok_def)
  then have "0 \<le> ?p" "?p < int (length (aw_aSeq w))" by (simp_all add: aw_size_def)
  then have rd: "rd (aw_aSeq w) (ix (aw_iTail w + int j)) = Some (aw_at w j)"
    by (simp add: ix [OF j] arr_simps aw_at_def)
  have q: "drop j (aw_queue w) = aw_at w j # drop (Suc j) (aw_queue w)"
    using j by (simp add: aw_queue_def Cons_nth_drop_Suc [symmetric])
  have nx: "aw_iTail w + int j + 1 = aw_iTail w + int (Suc j)" by simp
  show ?case
  proof (cases "iACKSeqNo (aw_at w j) = seq")
    case True
    have "aw_scan (aw_aSeq w) ix seq (aw_iTail w + int j) (aw_iTail w + aw_len w) = Some (Some ?p)"
      using j rd ix [OF j] True by (subst aw_scan.simps) simp
    then show ?thesis using j q True by auto
  next
    case False
    have *: "aw_scan (aw_aSeq w) ix seq (aw_iTail w + int j) (aw_iTail w + aw_len w)
        = aw_scan (aw_aSeq w) ix seq (aw_iTail w + int (Suc j)) (aw_iTail w + aw_len w)"
      using j rd False unfolding nx [symmetric] by (subst aw_scan.simps) auto
    have **: "q_ack seq (drop j (aw_queue w)) = q_ack seq (drop (Suc j) (aw_queue w))" using q False by simp
    have "d = nat (aw_len w) - Suc j" "int (Suc j) \<le> aw_len w" using Suc.hyps(2) j by auto
    with Suc.hyps(1) [of "Suc j"] show ?thesis unfolding * ** by blast
  qed
qed

lemma aw_drop_queue:
  assumes ok: "aw_ok w" and i: "int i < aw_len w"
  defines "w' \<equiv> w\<lparr>aw_iTail := (aw_iTail w + int (Suc i)) mod aw_size w\<rparr>"
  shows "aw_ok w'" "aw_queue w' = drop (Suc i) (aw_queue w)" "aw_size w' = aw_size w"
proof -
  have b: "2 \<le> aw_size w" "0 \<le> aw_iHead w" "aw_iHead w < aw_size w" using ok by (auto simp: aw_ok_def)
  show sz: "aw_size w' = aw_size w" by (simp add: w'_def aw_size_def)
  show "aw_ok w'" using b unfolding aw_ok_def sz by (simp add: w'_def)
  note len = aw_len_cases [OF ok]
  have "aw_len w' = (aw_iHead w - (aw_iTail w + int (Suc i)) mod aw_size w) mod aw_size w"
    unfolding aw_len_def sz by (simp add: w'_def)
  then have "aw_len w' = (aw_iHead w - aw_iTail w - int (Suc i)) mod aw_size w"
    by (simp add: mod_diff_right_eq diff_diff_eq)
  also have "\<dots> = (aw_len w - int (Suc i)) mod aw_size w" by (simp add: aw_len_def mod_diff_left_eq)
  also have "\<dots> = aw_len w - int (Suc i)" using i len(3) by (intro mod_pos_pos_trivial) simp_all
  finally have l': "nat (aw_len w') = nat (aw_len w) - Suc i" using i by simp
  have at': "aw_at w' j = aw_at w (Suc i + j)" for j
    unfolding aw_at_def sz by (simp add: w'_def mod_add_left_eq add.assoc)
  show "aw_queue w' = drop (Suc i) (aw_queue w)"
    unfolding aw_queue_def l' drop_map drop_upt
    by (intro nth_equalityI) (simp_all add: at')
qed

lemma aw_acknowledge_queue:
  assumes ok: "aw_ok w"
  shows "case q_ack seq (aw_queue w) of
      None \<Rightarrow> aw_acknowledge currtime w seq = Some (-1, None, w)
    | Some (s, q) \<Rightarrow> \<exists>w'. aw_acknowledge currtime w seq =
          Some (to_int32 (currtime - tsTimeStamp s), Some (iACK s), w') \<and> aw_ok w' \<and> aw_queue w' = q"
proof -
  have b: "2 \<le> aw_size w" "0 \<le> aw_iHead w" "aw_iHead w < aw_size w" "0 \<le> aw_iTail w" "aw_iTail w < aw_size w"
    using ok by (auto simp: aw_ok_def)
  note len = aw_len_cases [OF ok]
  define ix where "ix = (if aw_iHead w \<ge> aw_iTail w then (\<lambda>i. i) else (\<lambda>j. j smod aw_size w))"
  define n where "n = (if aw_iHead w \<ge> aw_iTail w then aw_iHead w else aw_iHead w + aw_size w)"
  have n: "n = aw_iTail w + aw_len w" using len(1) by (simp add: n_def)
  have ix: "ix (aw_iTail w + int i) = (aw_iTail w + int i) mod aw_size w" if "int i < aw_len w" for i
    using that len(1) b by (auto simp: ix_def split: if_splits)
  obtain r where r: "aw_scan (aw_aSeq w) ix seq (aw_iTail w) n = Some r"
    "case r of None \<Rightarrow> q_ack seq (aw_queue w) = None
       | Some p \<Rightarrow> \<exists>i. int i < aw_len w \<and> p = (aw_iTail w + int i) mod aw_size w
           \<and> q_ack seq (aw_queue w) = Some (aw_at w i, drop (Suc i) (aw_queue w))"
    using aw_scan_queue [OF ok ix, of 0 seq, unfolded drop_0] n len(2) by auto
  show ?thesis
  proof (cases r)
    case None
    with r show ?thesis by (auto simp: aw_acknowledge_def Let_def ix_def n_def)
  next
    case (Some p)
    with r obtain i where i: "int i < aw_len w" "p = (aw_iTail w + int i) mod aw_size w"
      "q_ack seq (aw_queue w) = Some (aw_at w i, drop (Suc i) (aw_queue w))" by auto
    have "0 \<le> p" "p < aw_size w" using i(2) b by simp_all
    then have p: "0 \<le> p" "p < int (length (aw_aSeq w))" by (simp_all add: aw_size_def)
    have rdp: "rd (aw_aSeq w) p = Some (aw_at w i)" using p i(2) by (simp add: arr_simps aw_at_def)
    have nh: "p \<noteq> aw_iHead w" using aw_pos_neq [OF ok i(1)] i(2) by simp
    have step: "(p + 1) smod aw_size w = (aw_iTail w + int (Suc i)) mod aw_size w"
      using p b i(2) mod_add_left_eq [of "aw_iTail w + int i" "aw_size w" 1] by (simp add: ac_simps)
    note d = aw_drop_queue [OF ok i(1)]
    show ?thesis
    proof (cases "aw_iHead w \<ge> aw_iTail w \<and> p + 1 = aw_iHead w")
      case True
      then have "p = aw_iTail w + int i" using i(1,2) len(1) b by auto
      with True len(1) have "Suc i = length (aw_queue w)" using aw_queue_length [OF ok] by simp
      then have e: "drop (Suc i) (aw_queue w) = []" by simp
      let ?w' = "w\<lparr>aw_aSeq := (aw_aSeq w)[0 := (aw_aSeq w ! 0)\<lparr>iACKSeqNo := SRT_SEQNO_NONE\<rparr>], aw_iHead := 0, aw_iTail := 0\<rparr>"
      have sz: "aw_size ?w' = aw_size w" by (simp add: aw_size_def)
      have "upd (aw_aSeq w) 0 (\<lambda>s. s\<lparr>iACKSeqNo := SRT_SEQNO_NONE\<rparr>)
         = Some ((aw_aSeq w)[0 := (aw_aSeq w ! 0)\<lparr>iACKSeqNo := SRT_SEQNO_NONE\<rparr>])"
        using p by (cases "aw_aSeq w") (simp_all add: upd_def)
      then have "aw_acknowledge currtime w seq
          = Some (to_int32 (currtime - tsTimeStamp (aw_at w i)), Some (iACK (aw_at w i)), ?w')"
        using True r(1) Some rdp by (simp add: aw_acknowledge_def Let_def ix_def n_def)
      moreover have "aw_ok ?w'" using b unfolding aw_ok_def sz by simp
      moreover have "aw_queue ?w' = []" by (simp add: aw_queue_def aw_len_def)
      ultimately show ?thesis using i(3) e by auto
    next
      case False
      then have "aw_acknowledge currtime w seq = Some (to_int32 (currtime - tsTimeStamp (aw_at w i)),
          Some (iACK (aw_at w i)), w\<lparr>aw_iTail := (p + 1) smod aw_size w\<rparr>)"
        using r(1) Some rdp nh by (auto simp: aw_acknowledge_def Let_def ix_def n_def)
      with d i(3) step show ?thesis by auto
    qed
  qed
qed

section \<open>Properties\<close>

text \<open>
  \<^verbatim>\<open>CACKWindow::store\<close> never leaves the array and appends the record to the queue of pending
  ACKs; when all but one of the positions are in use, the oldest record is given up for it.
\<close>

theorem ack_store_appends:
  assumes "aw_ok w"
  shows "\<exists>w'. aw_store now w seq ack = Some w' \<and> aw_ok w'
    \<and> aw_queue w' = (if int (length (aw_queue w)) + 1 < aw_size w then aw_queue w else tl (aw_queue w))
        @ [\<lparr>iACKSeqNo = seq, iACK = ack, tsTimeStamp = now\<rparr>]"
  unfolding aw_queue_length [OF assms] using aw_store_queue [OF assms] by blast

lemma CACKWindow_ok: "2 \<le> SIZE \<Longrightarrow> aw_ok (CACKWindow SIZE) \<and> aw_queue (CACKWindow SIZE) = []"
  by (simp add: aw_ok_def CACKWindow_def aw_size_def aw_queue_def aw_len_def)

theorem ack_store_appends_witness:
  "\<exists>w. aw_store 40 (CACKWindow 4) 7 100 = Some w \<and> aw_queue w = [\<lparr>iACKSeqNo = 7, iACK = 100, tsTimeStamp = 40\<rparr>]"
  using ack_store_appends [of "CACKWindow 4" 40 7 100] CACKWindow_ok [of 4] by (auto simp: aw_size_def CACKWindow_def)

text \<open>
  C22. \<^verbatim>\<open>CACKWindow::acknowledge\<close> ends inside the array; it looks up the oldest pending record with the
  given ACK number, returns the time since it was stored and its data number, and forgets it and all
  older records; if there is none it returns -1 and changes nothing.
\<close>

theorem ack_acknowledge_finds:
  assumes "aw_ok w"
  shows "case q_ack seq (aw_queue w) of
      None \<Rightarrow> aw_acknowledge currtime w seq = Some (-1, None, w)
    | Some (s, q) \<Rightarrow> \<exists>w'. aw_acknowledge currtime w seq =
          Some (to_int32 (currtime - tsTimeStamp s), Some (iACK s), w') \<and> aw_ok w' \<and> aw_queue w' = q"
  using aw_acknowledge_queue [OF assms] .

theorem ack_acknowledge_finds_witness:
  "\<exists>w w'. aw_store 40 (CACKWindow 4) 7 100 = Some w \<and> aw_acknowledge 90 w 7 = Some (50, Some 100, w')"
proof -
  obtain w where w: "aw_store 40 (CACKWindow 4) 7 100 = Some w" "aw_ok w"
    "aw_queue w = [\<lparr>iACKSeqNo = 7, iACK = 100, tsTimeStamp = 40\<rparr>]"
    using aw_store_queue [of "CACKWindow 4" 40 7 100] CACKWindow_ok [of 4]
    by (auto simp: aw_size_def CACKWindow_def aw_len_def)
  have "to_int32 50 = 50" by (simp add: to_int32_def)
  with ack_acknowledge_finds [OF w(2), where seq = 7 and currtime = 90] w show ?thesis by auto
qed

end
