(* ===== verification/TsbpdTime.thy ===== *)
theory TsbpdTime
  imports Prelude
begin

text \<open>
  \<^verbatim>\<open>DriftTracer\<close> of \<^verbatim>\<open>srtcore/utilities.h\<close> and \<^verbatim>\<open>CTsbpdTime\<close> of \<^verbatim>\<open>srtcore/tsbpd_time.h\<close> and
  \<^verbatim>\<open>tsbpd_time.cpp\<close>: delivery times from 32-bit packet time stamps that wrap around every 71 minutes,
  and the correction for the drift between the clocks. Times and durations are in microseconds; a time
  stamp is a 32-bit word. All operations run under the object's mutex.

  The theorems show that the time stamps of a stream are unwrapped to the sender's true time across any
  number of wraps, provided that each packet is within the wrap period (30 s) of the newest one before.
\<close>

section \<open>Drift tracer\<close>

record drift_tracer =
  m_qDrift :: int
  m_qOverdrift :: int
  m_qDriftSum :: int
  m_uDriftSpan :: int

definition DriftTracer :: drift_tracer where
  "DriftTracer = \<lparr>m_qDrift = 0, m_qOverdrift = 0, m_qDriftSum = 0, m_uDriftSpan = 0\<rparr>"

definition dt_update :: "int \<Rightarrow> int \<Rightarrow> bool \<Rightarrow> drift_tracer \<Rightarrow> int \<Rightarrow> bool \<times> drift_tracer" where
  "dt_update MAX_SPAN MAX_DRIFT CLEAR_ON_UPDATE d driftval =
     (let d1 = d\<lparr>m_qDriftSum := m_qDriftSum d + driftval, m_uDriftSpan := m_uDriftSpan d + 1\<rparr>;
          d2 = (if CLEAR_ON_UPDATE then d1\<lparr>m_qOverdrift := 0\<rparr> else d1)
      in if m_uDriftSpan d2 < MAX_SPAN then (False, d2)
         else let d3 = d2\<lparr>m_qDrift := m_qDriftSum d2 sdiv m_uDriftSpan d2, m_qDriftSum := 0, m_uDriftSpan := 0\<rparr>
              in if \<bar>m_qDrift d3\<bar> > MAX_DRIFT
                 then let d4 = d3\<lparr>m_qOverdrift := (if m_qDrift d3 < 0 then - MAX_DRIFT else MAX_DRIFT)\<rparr>
                      in (True, d4\<lparr>m_qDrift := m_qDrift d4 - m_qOverdrift d4\<rparr>)
                 else (True, d3))"

definition forceDrift :: "drift_tracer \<Rightarrow> int \<Rightarrow> drift_tracer" where
  "forceDrift d driftval = d\<lparr>m_qDrift := driftval\<rparr>"

section \<open>Time stamp based delivery\<close>

definition MAX_TIMESTAMP :: int where "MAX_TIMESTAMP = 0xFFFFFFFF"
definition TSBPD_WRAP_PERIOD :: int where "TSBPD_WRAP_PERIOD = 30 * 1000000"
definition TSBPD_DRIFT_MAX_VALUE :: int where "TSBPD_DRIFT_MAX_VALUE = 5000"
definition TSBPD_DRIFT_MAX_SAMPLES :: int where "TSBPD_DRIFT_MAX_SAMPLES = 1000"

lemmas tsbpd_const_defs = MAX_TIMESTAMP_def TSBPD_WRAP_PERIOD_def TSBPD_DRIFT_MAX_VALUE_def
  TSBPD_DRIFT_MAX_SAMPLES_def

record tsbpd_time =
  m_iFirstRTT :: int
  m_bTsbPdMode :: bool
  m_tdTsbPdDelay :: int
  m_tsTsbPdTimeBase :: int
  m_bTsbPdWrapCheck :: bool
  m_DriftTracer :: drift_tracer

definition CTsbpdTime :: tsbpd_time where
  "CTsbpdTime = \<lparr>m_iFirstRTT = -1, m_bTsbPdMode = False, m_tdTsbPdDelay = 0, m_tsTsbPdTimeBase = 0,
     m_bTsbPdWrapCheck = False, m_DriftTracer = DriftTracer\<rparr>"

definition getBaseTimeNoLock :: "tsbpd_time \<Rightarrow> 32 word \<Rightarrow> int" where
  "getBaseTimeNoLock s timestamp_us =
     (let carryover_us = (if m_bTsbPdWrapCheck s \<and> uint timestamp_us \<le> 2 * TSBPD_WRAP_PERIOD
                          then MAX_TIMESTAMP + 1 else 0)
      in m_tsTsbPdTimeBase s + carryover_us)"

definition getBaseTime :: "tsbpd_time \<Rightarrow> 32 word \<Rightarrow> int" where
  "getBaseTime s timestamp_us = getBaseTimeNoLock s timestamp_us"

definition getPktBaseTimeNoLock :: "tsbpd_time \<Rightarrow> 32 word \<Rightarrow> int" where
  "getPktBaseTimeNoLock s usPktTimestamp = getBaseTimeNoLock s usPktTimestamp + uint usPktTimestamp"

definition getPktBaseTime :: "tsbpd_time \<Rightarrow> 32 word \<Rightarrow> int" where
  "getPktBaseTime s usPktTimestamp = getBaseTime s usPktTimestamp + uint usPktTimestamp"

definition tsbpd_getPktTime :: "tsbpd_time \<Rightarrow> 32 word \<Rightarrow> int" where
  "tsbpd_getPktTime s usPktTimestamp =
     getPktBaseTimeNoLock s usPktTimestamp + m_tdTsbPdDelay s + m_qDrift (m_DriftTracer s)"

definition updateBaseTime :: "tsbpd_time \<Rightarrow> 32 word \<Rightarrow> tsbpd_time" where
  "updateBaseTime s usPktTimestamp =
     (if m_bTsbPdWrapCheck s
      then (if uint usPktTimestamp \<ge> TSBPD_WRAP_PERIOD \<and> uint usPktTimestamp \<le> TSBPD_WRAP_PERIOD * 2
            then s\<lparr>m_bTsbPdWrapCheck := False, m_tsTsbPdTimeBase := m_tsTsbPdTimeBase s + (MAX_TIMESTAMP + 1)\<rparr>
            else s)
      else if uint usPktTimestamp > MAX_TIMESTAMP - TSBPD_WRAP_PERIOD
      then s\<lparr>m_bTsbPdWrapCheck := True\<rparr>
      else s)"

definition addDriftSample :: "tsbpd_time \<Rightarrow> 32 word \<Rightarrow> int \<Rightarrow> int \<Rightarrow> bool \<times> tsbpd_time" where
  "addDriftSample s0 usPktTimestamp tsPktArrival usRTTSample =
     (if \<not> m_bTsbPdMode s0 then (False, s0)
      else let s = (if m_iFirstRTT s0 = -1 then s0\<lparr>m_iFirstRTT := usRTTSample\<rparr> else s0);
               tdRTTDelta = (if usRTTSample \<ge> 0 then (usRTTSample - m_iFirstRTT s) sdiv 2 else 0);
               tsPktBaseTime = getPktBaseTimeNoLock s usPktTimestamp;
               tdDrift = tsPktArrival - tsPktBaseTime - tdRTTDelta
           in case dt_update TSBPD_DRIFT_MAX_SAMPLES TSBPD_DRIFT_MAX_VALUE True (m_DriftTracer s) tdDrift of
                (updated, d) \<Rightarrow>
                  let s1 = s\<lparr>m_DriftTracer := d\<rparr>
                  in (updated, if updated
                               then s1\<lparr>m_tsTsbPdTimeBase := m_tsTsbPdTimeBase s1 + m_qOverdrift d\<rparr> else s1))"

definition setTsbPdMode :: "tsbpd_time \<Rightarrow> int \<Rightarrow> bool \<Rightarrow> int \<Rightarrow> tsbpd_time" where
  "setTsbPdMode s timebase wrap delay =
     s\<lparr>m_bTsbPdMode := True, m_bTsbPdWrapCheck := wrap, m_tsTsbPdTimeBase := timebase, m_tdTsbPdDelay := delay\<rparr>"

definition applyGroupTime :: "tsbpd_time \<Rightarrow> int \<Rightarrow> bool \<Rightarrow> 32 word \<Rightarrow> int \<Rightarrow> tsbpd_time" where
  "applyGroupTime s timebase wrp delay udrift =
     s\<lparr>m_bTsbPdMode := True, m_tsTsbPdTimeBase := timebase, m_bTsbPdWrapCheck := wrp,
       m_tdTsbPdDelay := uint delay, m_DriftTracer := forceDrift (m_DriftTracer s) udrift\<rparr>"

definition applyGroupDrift :: "tsbpd_time \<Rightarrow> int \<Rightarrow> bool \<Rightarrow> int \<Rightarrow> tsbpd_time" where
  "applyGroupDrift s timebase wrp udrift =
     s\<lparr>m_tsTsbPdTimeBase := timebase, m_bTsbPdWrapCheck := wrp,
       m_DriftTracer := forceDrift (m_DriftTracer s) udrift\<rparr>"

definition getInternalTimeBase :: "tsbpd_time \<Rightarrow> int \<times> bool \<times> int" where
  "getInternalTimeBase s = (m_tsTsbPdTimeBase s, m_bTsbPdWrapCheck s, m_qDrift (m_DriftTracer s))"

section \<open>Unwrapping the time stamps\<close>

abbreviation tsP :: int where "tsP \<equiv> MAX_TIMESTAMP + 1"

text \<open>The time stamp of a packet sent at the true time \<open>t\<close>.\<close>

definition stamp :: "int \<Rightarrow> 32 word" where
  "stamp t = word_of_int t"

lemma uint_stamp: "uint (stamp t) = t mod tsP"
  by (simp add: stamp_def MAX_TIMESTAMP_def uint_word_of_int)

text \<open>
  \<open>tracked B0 M s\<close>: the state \<open>s\<close> has followed a stream whose true time 0 is the local time
  \<open>B0\<close>, and the newest packet of it was sent at \<open>M\<close>.
\<close>

definition tracked :: "int \<Rightarrow> int \<Rightarrow> tsbpd_time \<Rightarrow> bool" where
  "tracked B0 M s \<longleftrightarrow> (\<exists>e. m_tsTsbPdTimeBase s = B0 + e * tsP
     \<and> (if m_bTsbPdWrapCheck s
        then (e + 1) * tsP - TSBPD_WRAP_PERIOD \<le> M \<and> M < (e + 1) * tsP + TSBPD_WRAP_PERIOD
        else e * tsP + TSBPD_WRAP_PERIOD \<le> M \<and> M < (e + 1) * tsP - TSBPD_WRAP_PERIOD))"

lemma mod_in_epoch: "e * tsP \<le> t \<Longrightarrow> t < (e + 1) * tsP \<Longrightarrow> t mod tsP = t - e * tsP"
  using mod_pos_pos_trivial [of "t - e * tsP" tsP] mod_mult_self3 [of "-e" tsP t]
  by (simp add: algebra_simps)

lemma tracked_base:
  assumes "tracked B0 M s" and "\<bar>t - M\<bar> \<le> TSBPD_WRAP_PERIOD"
  shows "getPktBaseTime s (stamp t) = B0 + t"
proof -
  from assms(1) obtain e where e: "m_tsTsbPdTimeBase s = B0 + e * tsP" and
    r: "if m_bTsbPdWrapCheck s
        then (e + 1) * tsP - TSBPD_WRAP_PERIOD \<le> M \<and> M < (e + 1) * tsP + TSBPD_WRAP_PERIOD
        else e * tsP + TSBPD_WRAP_PERIOD \<le> M \<and> M < (e + 1) * tsP - TSBPD_WRAP_PERIOD"
    by (auto simp: tracked_def)
  note defs = getPktBaseTime_def getBaseTime_def getBaseTimeNoLock_def Let_def uint_stamp
  show ?thesis
  proof (cases "m_bTsbPdWrapCheck s")
    case False
    with r assms(2) have "e * tsP \<le> t" "t < (e + 1) * tsP" by auto
    from mod_in_epoch [OF this] False e show ?thesis by (simp add: defs)
  next
    case True
    show ?thesis
    proof (cases "t < (e + 1) * tsP")
      case lt: True
      have "e * tsP + 2 * TSBPD_WRAP_PERIOD < t" using r assms(2) True by (auto simp: tsbpd_const_defs)
      moreover from this have "t mod tsP = t - e * tsP"
        using lt by (intro mod_in_epoch) (auto simp: tsbpd_const_defs)
      ultimately show ?thesis using True e by (simp add: defs)
    next
      case ge: False
      have "t \<le> (e + 1) * tsP + 2 * TSBPD_WRAP_PERIOD" using r assms(2) True by auto
      moreover from this have "t mod tsP = t - (e + 1) * tsP"
        using ge by (intro mod_in_epoch) (auto simp: tsbpd_const_defs algebra_simps)
      ultimately show ?thesis using True e by (simp add: defs algebra_simps)
    qed
  qed
qed

lemma tracked_update:
  assumes "tracked B0 M s" and t: "\<bar>t - M\<bar> \<le> TSBPD_WRAP_PERIOD"
  shows "tracked B0 (max M t) (updateBaseTime s (stamp t))"
proof -
  from assms(1) obtain e where e: "m_tsTsbPdTimeBase s = B0 + e * tsP" and
    r: "if m_bTsbPdWrapCheck s
        then (e + 1) * tsP - TSBPD_WRAP_PERIOD \<le> M \<and> M < (e + 1) * tsP + TSBPD_WRAP_PERIOD
        else e * tsP + TSBPD_WRAP_PERIOD \<le> M \<and> M < (e + 1) * tsP - TSBPD_WRAP_PERIOD"
    by (auto simp: tracked_def)
  show ?thesis
  proof (cases "m_bTsbPdWrapCheck s")
    case False
    with r t have b: "e * tsP \<le> t" "t < (e + 1) * tsP" by auto
    from mod_in_epoch [OF b] have m: "t mod tsP = t - e * tsP" .
    show ?thesis
    proof (cases "t mod tsP > MAX_TIMESTAMP - TSBPD_WRAP_PERIOD")
      case True
      with m have "(e + 1) * tsP - TSBPD_WRAP_PERIOD \<le> t" by (simp add: algebra_simps)
      with True False e b r show ?thesis
        by (auto simp: tracked_def updateBaseTime_def uint_stamp intro!: exI [of _ e])
    next
      case no: False
      with m have "t < (e + 1) * tsP - TSBPD_WRAP_PERIOD" by (simp add: algebra_simps)
      with no False e r show ?thesis
        by (auto simp: tracked_def updateBaseTime_def uint_stamp intro!: exI [of _ e])
    qed
  next
    case True
    show ?thesis
    proof (cases "t < (e + 1) * tsP + TSBPD_WRAP_PERIOD")
      case lt: True
      have "\<not> (TSBPD_WRAP_PERIOD \<le> t mod tsP \<and> t mod tsP \<le> TSBPD_WRAP_PERIOD * 2)"
      proof (cases "t < (e + 1) * tsP")
        case early: True
        have "e * tsP + 2 * TSBPD_WRAP_PERIOD < t" using r t True by (auto simp: tsbpd_const_defs)
        moreover from this have "t mod tsP = t - e * tsP"
          using early by (intro mod_in_epoch) (auto simp: tsbpd_const_defs)
        ultimately show ?thesis by simp
      next
        case late: False
        then have "t mod tsP = t - (e + 1) * tsP"
          using lt by (intro mod_in_epoch) (auto simp: tsbpd_const_defs algebra_simps)
        with lt show ?thesis by simp
      qed
      with True have "updateBaseTime s (stamp t) = s" unfolding updateBaseTime_def uint_stamp by auto
      with True lt e r show ?thesis by (auto simp: tracked_def intro!: exI [of _ e])
    next
      case ge: False
      have le: "t \<le> (e + 1) * tsP + 2 * TSBPD_WRAP_PERIOD" using r t True by auto
      then have "t mod tsP = t - (e + 1) * tsP"
        using ge by (intro mod_in_epoch) (auto simp: tsbpd_const_defs algebra_simps)
      with ge le True have u: "updateBaseTime s (stamp t)
          = s\<lparr>m_bTsbPdWrapCheck := False, m_tsTsbPdTimeBase := m_tsTsbPdTimeBase s + tsP\<rparr>"
        by (simp add: updateBaseTime_def uint_stamp)
      have "max M t = t" using ge r True by auto
      then show ?thesis unfolding u tracked_def
        using e ge le by (intro exI [of _ "e + 1"]) (auto simp: tsbpd_const_defs algebra_simps)
    qed
  qed
qed

text \<open>A stream of packets, each within the wrap period of the newest one before it.\<close>

fun near_stream :: "int \<Rightarrow> int list \<Rightarrow> bool" where
  "near_stream M [] = True"
| "near_stream M (t # ts) \<longleftrightarrow> \<bar>t - M\<bar> \<le> TSBPD_WRAP_PERIOD \<and> near_stream (max M t) ts"

definition feed :: "tsbpd_time \<Rightarrow> int list \<Rightarrow> tsbpd_time" where
  "feed s ts = foldl (\<lambda>s t. updateBaseTime s (stamp t)) s ts"

lemma tracked_feed: "tracked B0 M s \<Longrightarrow> near_stream M ts \<Longrightarrow> tracked B0 (foldl max M ts) (feed s ts)"
  by (induction ts arbitrary: s M) (auto simp: feed_def tracked_update)

section \<open>Properties\<close>

text \<open>
  C21. After any stream of data packets in which every packet was sent within the wrap period of the
  newest packet before it, however often the time stamps wrapped, the base time of a further such
  packet is its true sending time; a packet's time is the same before and after the update it causes.
\<close>

theorem tsbpd_unwraps_stream:
  assumes "tracked B0 M s" "near_stream M ts" "\<bar>t - foldl max M ts\<bar> \<le> TSBPD_WRAP_PERIOD"
  shows "getPktBaseTime (feed s ts) (stamp t) = B0 + t
    \<and> getPktBaseTime (updateBaseTime (feed s ts) (stamp t)) (stamp t) = B0 + t"
proof -
  note tr = tracked_feed [OF assms(1,2)]
  have "\<bar>t - max (foldl max M ts) t\<bar> \<le> TSBPD_WRAP_PERIOD" using assms(3) by linarith
  with tracked_base [OF tr assms(3)] tracked_base [OF tracked_update [OF tr assms(3)]] show ?thesis by blast
qed

theorem tsbpd_unwraps_stream_witness:
  "let s = setTsbPdMode CTsbpdTime 7000 False 120000
   in getPktBaseTime (feed s [0xFFFFFFF0]) (stamp 0x100000010) = 7000 + 0x100000010"
proof -
  let ?s = "setTsbPdMode CTsbpdTime 7000 False 120000"
  have tr: "tracked 7000 0xFE363C78 ?s"
    by (simp add: tracked_def setTsbPdMode_def tsbpd_const_defs CTsbpdTime_def exI [of _ 0])
  have "near_stream 0xFE363C78 [0xFFFFFFF0]" "\<bar>0x100000010 - foldl max 0xFE363C78 [0xFFFFFFF0]\<bar> \<le> TSBPD_WRAP_PERIOD"
    by (simp_all add: tsbpd_const_defs)
  from tsbpd_unwraps_stream [OF tr this] show ?thesis by (simp add: Let_def)
qed

text \<open>Feeding a sequence of drift samples, with the results of the updates.\<close>

fun dt_updates :: "drift_tracer \<Rightarrow> int list \<Rightarrow> bool list \<times> drift_tracer" where
  "dt_updates d [] = ([], d)"
| "dt_updates d (v # vs) =
     (case dt_update TSBPD_DRIFT_MAX_SAMPLES TSBPD_DRIFT_MAX_VALUE True d v of
        (b, d1) \<Rightarrow> case dt_updates d1 vs of (bs, d2) \<Rightarrow> (b # bs, d2))"

lemma dt_update_pending:
  assumes "m_uDriftSpan d + 1 < TSBPD_DRIFT_MAX_SAMPLES"
  shows "dt_update TSBPD_DRIFT_MAX_SAMPLES TSBPD_DRIFT_MAX_VALUE True d v
    = (False, d\<lparr>m_qDriftSum := m_qDriftSum d + v, m_uDriftSpan := m_uDriftSpan d + 1, m_qOverdrift := 0\<rparr>)"
  using assms by (simp add: dt_update_def)

lemma dt_update_full:
  assumes "m_uDriftSpan d + 1 = TSBPD_DRIFT_MAX_SAMPLES"
  shows "\<exists>d'. dt_update TSBPD_DRIFT_MAX_SAMPLES TSBPD_DRIFT_MAX_VALUE True d v = (True, d')
    \<and> m_qDrift d' + m_qOverdrift d' = (m_qDriftSum d + v) sdiv TSBPD_DRIFT_MAX_SAMPLES
    \<and> \<bar>m_qOverdrift d'\<bar> \<le> TSBPD_DRIFT_MAX_VALUE \<and> m_qDriftSum d' = 0 \<and> m_uDriftSpan d' = 0"
  using assms by (simp add: dt_update_def Let_def tsbpd_const_defs)

lemma dt_updates_span:
  assumes "vs \<noteq> []" "m_uDriftSpan d + int (length vs) = TSBPD_DRIFT_MAX_SAMPLES"
  shows "\<exists>d'. dt_updates d vs = (replicate (length vs - 1) False @ [True], d')
    \<and> m_qDrift d' + m_qOverdrift d' = (m_qDriftSum d + sum_list vs) sdiv TSBPD_DRIFT_MAX_SAMPLES
    \<and> \<bar>m_qOverdrift d'\<bar> \<le> TSBPD_DRIFT_MAX_VALUE \<and> m_qDriftSum d' = 0 \<and> m_uDriftSpan d' = 0"
  using assms
proof (induction vs arbitrary: d)
  case (Cons v vs)
  show ?case
  proof (cases "vs = []")
    case True
    with Cons.prems dt_update_full [of d v] show ?thesis by auto
  next
    case False
    let ?d = "d\<lparr>m_qDriftSum := m_qDriftSum d + v, m_uDriftSpan := m_uDriftSpan d + 1, m_qOverdrift := 0\<rparr>"
    have l: "length vs > 0" using False by simp
    then have "m_uDriftSpan d + 1 < TSBPD_DRIFT_MAX_SAMPLES" using Cons.prems(2) by (simp del: length_greater_0_conv)
    note u = dt_update_pending [OF this, of v]
    from Cons.IH [of ?d] False Cons.prems obtain d' where
      "dt_updates ?d vs = (replicate (length vs - 1) False @ [True], d')"
      "m_qDrift d' + m_qOverdrift d' = (m_qDriftSum d + v + sum_list vs) sdiv TSBPD_DRIFT_MAX_SAMPLES"
      "\<bar>m_qOverdrift d'\<bar> \<le> TSBPD_DRIFT_MAX_VALUE" "m_qDriftSum d' = 0" "m_uDriftSpan d' = 0"
      by auto
    with u l show ?thesis by (cases "length vs") (auto simp: add.assoc)
  qed
qed simp

text \<open>
  The drift tracer ignores every sample but the last of a full span of 1000; with the last one it
  reports an update, and the drift plus the part handed over to the time base is the truncated average
  of the span's samples. The part handed over is never above 5 ms.
\<close>

theorem drift_tracer_averages_span:
  assumes "m_qDriftSum d = 0" "m_uDriftSpan d = 0" "int (length vs) = TSBPD_DRIFT_MAX_SAMPLES"
  shows "\<exists>d'. dt_updates d vs = (replicate (length vs - 1) False @ [True], d')
    \<and> m_qDrift d' + m_qOverdrift d' = sum_list vs sdiv TSBPD_DRIFT_MAX_SAMPLES
    \<and> \<bar>m_qOverdrift d'\<bar> \<le> TSBPD_DRIFT_MAX_VALUE \<and> m_qDriftSum d' = 0 \<and> m_uDriftSpan d' = 0"
proof -
  have "vs \<noteq> []" using assms(3) by (auto simp: tsbpd_const_defs)
  from dt_updates_span [OF this, of d] assms show ?thesis by simp
qed

theorem drift_tracer_averages_span_witness:
  "\<exists>d'. dt_updates DriftTracer (replicate 1000 12000) = (replicate 999 False @ [True], d')
    \<and> m_qDrift d' + m_qOverdrift d' = 12000"
proof -
  have "\<exists>d'. dt_updates DriftTracer (replicate 1000 12000)
      = (replicate (length (replicate 1000 (12000 :: int)) - 1) False @ [True], d')
    \<and> m_qDrift d' + m_qOverdrift d' = sum_list (replicate 1000 12000) sdiv TSBPD_DRIFT_MAX_SAMPLES
    \<and> \<bar>m_qOverdrift d'\<bar> \<le> TSBPD_DRIFT_MAX_VALUE \<and> m_qDriftSum d' = 0 \<and> m_uDriftSpan d' = 0"
    by (rule drift_tracer_averages_span) (simp_all add: DriftTracer_def tsbpd_const_defs)
  then show ?thesis by (auto simp: tsbpd_const_defs sum_list_replicate)
qed

lemma addDriftSample_mode:
  assumes "m_bTsbPdMode s" "addDriftSample s ts arr rtt = (b, s')"
  defines "r0 \<equiv> (if m_iFirstRTT s = -1 then rtt else m_iFirstRTT s)"
  shows "\<exists>d'. dt_update TSBPD_DRIFT_MAX_SAMPLES TSBPD_DRIFT_MAX_VALUE True (m_DriftTracer s)
      (arr - getPktBaseTimeNoLock s ts - (if rtt \<ge> 0 then (rtt - r0) sdiv 2 else 0)) = (b, d')
    \<and> s' = s\<lparr>m_iFirstRTT := r0, m_DriftTracer := d',
        m_tsTsbPdTimeBase := m_tsTsbPdTimeBase s + (if b then m_qOverdrift d' else 0)\<rparr>"
  using assms
  by (auto simp: addDriftSample_def Let_def getPktBaseTimeNoLock_def getBaseTimeNoLock_def split: prod.splits if_splits)

text \<open>
  A drift sample moves no delivery time until a span is complete. The sample that completes it moves
  the delivery time of every packet to its base time before the sample plus the delay plus the average
  drift of the span: splitting the drift into a bounded part and an adjustment of the time base is
  invisible to the receiver.
\<close>

theorem drift_sample_moves_delivery:
  assumes "m_bTsbPdMode s" "0 \<le> m_uDriftSpan (m_DriftTracer s)" "m_uDriftSpan (m_DriftTracer s) < TSBPD_DRIFT_MAX_SAMPLES"
    and "addDriftSample s ts arr rtt = (b, s')"
  defines "r0 \<equiv> (if m_iFirstRTT s = -1 then rtt else m_iFirstRTT s)"
  defines "sample \<equiv> arr - getPktBaseTimeNoLock s ts - (if rtt \<ge> 0 then (rtt - r0) sdiv 2 else 0)"
  shows "tsbpd_getPktTime s' x =
    (if m_uDriftSpan (m_DriftTracer s) + 1 = TSBPD_DRIFT_MAX_SAMPLES
     then getPktBaseTimeNoLock s x + m_tdTsbPdDelay s
       + (m_qDriftSum (m_DriftTracer s) + sample) sdiv TSBPD_DRIFT_MAX_SAMPLES
     else tsbpd_getPktTime s x)
    \<and> b = (m_uDriftSpan (m_DriftTracer s) + 1 = TSBPD_DRIFT_MAX_SAMPLES)"
proof -
  note g = tsbpd_getPktTime_def getPktBaseTimeNoLock_def getBaseTimeNoLock_def Let_def
  from addDriftSample_mode [OF assms(1,4)] obtain d' where
    u: "dt_update TSBPD_DRIFT_MAX_SAMPLES TSBPD_DRIFT_MAX_VALUE True (m_DriftTracer s) sample = (b, d')" and
    s': "s' = s\<lparr>m_iFirstRTT := r0, m_DriftTracer := d',
        m_tsTsbPdTimeBase := m_tsTsbPdTimeBase s + (if b then m_qOverdrift d' else 0)\<rparr>"
    unfolding r0_def sample_def by blast
  show ?thesis
  proof (cases "m_uDriftSpan (m_DriftTracer s) + 1 = TSBPD_DRIFT_MAX_SAMPLES")
    case True
    from dt_update_full [OF this, of sample] u s' True show ?thesis by (auto simp: g)
  next
    case False
    with assms(3) have "m_uDriftSpan (m_DriftTracer s) + 1 < TSBPD_DRIFT_MAX_SAMPLES" by simp
    from dt_update_pending [OF this, of sample] u s' False show ?thesis by (auto simp: g)
  qed
qed

theorem drift_sample_moves_delivery_witness:
  "let s = (setTsbPdMode CTsbpdTime 7000 False 120000)\<lparr>m_DriftTracer := \<lparr>m_qDrift = 0, m_qOverdrift = 0,
        m_qDriftSum = 11988000, m_uDriftSpan = 999\<rparr>\<rparr>;
       s' = snd (addDriftSample s 100 19100 40)
   in tsbpd_getPktTime s' 500 = 7000 + 500 + 120000 + 12000 \<and> m_tsTsbPdTimeBase s' = 12000"
proof -
  let ?s = "(setTsbPdMode CTsbpdTime 7000 False 120000)\<lparr>m_DriftTracer := \<lparr>m_qDrift = 0, m_qOverdrift = 0,
        m_qDriftSum = 11988000, m_uDriftSpan = 999\<rparr>\<rparr>"
  note defs = setTsbPdMode_def tsbpd_const_defs CTsbpdTime_def getPktBaseTimeNoLock_def getBaseTimeNoLock_def
  have "m_bTsbPdMode ?s" "0 \<le> m_uDriftSpan (m_DriftTracer ?s)" "m_uDriftSpan (m_DriftTracer ?s) < TSBPD_DRIFT_MAX_SAMPLES"
    by (simp_all add: defs)
  from drift_sample_moves_delivery [OF this prod.collapse [symmetric], of 100 19100 40 500]
  have "tsbpd_getPktTime (snd (addDriftSample ?s 100 19100 40)) 500 = 7000 + 500 + 120000 + 12000"
    by (simp add: defs)
  moreover have "m_tsTsbPdTimeBase (snd (addDriftSample ?s 100 19100 40)) = 12000"
    by (simp add: addDriftSample_def dt_update_def defs)
  ultimately show ?thesis by (simp add: Let_def)
qed

end
