(* ===== verification/Packet.thy ===== *)
theory Packet
  imports Bitfield
begin

text \<open>
  \<^verbatim>\<open>CPacket\<close> of \<^verbatim>\<open>srtcore/packet.h\<close> and \<^verbatim>\<open>packet.cpp\<close>: the four header words and their bit fields,
  control packets, byte order, and the ownership of the payload buffer. Buffers live in an explicit heap
  of byte arrays; a byte that was never written is \<open>None\<close>. Operations return \<open>None\<close> where the code
  would follow a null pointer, touch a freed buffer or free one twice, or read a byte never written to
  convert it. The destination address and the
  text dumps for logging are left out, except for \<^verbatim>\<open>PacketMessageFlagStr\<close>.
\<close>

section \<open>Header fields\<close>

record header =
  SRT_PH_SEQNO :: "32 word"
  SRT_PH_MSGNO :: "32 word"
  SRT_PH_TIMESTAMP :: "32 word"
  SRT_PH_ID :: "32 word"

datatype PacketBoundary = PB_SUBSEQUENT | PB_LAST | PB_FIRST | PB_SOLO

fun boundary_code :: "PacketBoundary \<Rightarrow> 32 word" where
  "boundary_code PB_SUBSEQUENT = 0"
| "boundary_code PB_LAST = 1"
| "boundary_code PB_FIRST = 2"
| "boundary_code PB_SOLO = 3"

datatype EncryptionKeySpec = EK_NOENC | EK_EVEN | EK_ODD

fun keyspec_code :: "EncryptionKeySpec \<Rightarrow> 32 word" where
  "keyspec_code EK_NOENC = 0"
| "keyspec_code EK_EVEN = 1"
| "keyspec_code EK_ODD = 2"

datatype UDTMessageType = UMSG_HANDSHAKE | UMSG_KEEPALIVE | UMSG_ACK | UMSG_LOSSREPORT | UMSG_CGWARNING
  | UMSG_SHUTDOWN | UMSG_ACKACK | UMSG_DROPREQ | UMSG_PEERERROR | UMSG_EXT

fun msgtype_code :: "UDTMessageType \<Rightarrow> 32 word" where
  "msgtype_code UMSG_HANDSHAKE = 0"
| "msgtype_code UMSG_KEEPALIVE = 1"
| "msgtype_code UMSG_ACK = 2"
| "msgtype_code UMSG_LOSSREPORT = 3"
| "msgtype_code UMSG_CGWARNING = 4"
| "msgtype_code UMSG_SHUTDOWN = 5"
| "msgtype_code UMSG_ACKACK = 6"
| "msgtype_code UMSG_DROPREQ = 7"
| "msgtype_code UMSG_PEERERROR = 8"
| "msgtype_code UMSG_EXT = 0x7FFF"

text \<open>The bit ranges of \<^verbatim>\<open>packet.h\<close>.\<close>

interpretation SEQNO_CONTROL: bitfield 31 31 by unfold_locales simp_all
interpretation SEQNO_MSGTYPE: bitfield 30 16 by unfold_locales simp_all
interpretation SEQNO_EXTTYPE: bitfield 15 0 by unfold_locales simp_all
interpretation SEQNO_VALUE: bitfield 30 0 by unfold_locales simp_all
interpretation MSGNO_PACKET_BOUNDARY: bitfield 31 30 by unfold_locales simp_all
interpretation MSGNO_PACKET_INORDER: bitfield 29 29 by unfold_locales simp_all
interpretation MSGNO_ENCKEYSPEC: bitfield 28 27 by unfold_locales simp_all
interpretation MSGNO_REXMIT: bitfield 26 26 by unfold_locales simp_all
interpretation MSGNO_SEQ: bitfield 25 0 by unfold_locales simp_all
interpretation MSGNO_SEQ_OLD: bitfield 26 0 by unfold_locales simp_all

interpretation control_msgtype: disjoint_bitfields 31 31 30 16 by unfold_locales simp_all
interpretation msgtype_control: disjoint_bitfields 30 16 31 31 by unfold_locales simp_all
interpretation exttype_control: disjoint_bitfields 15 0 31 31 by unfold_locales simp_all
interpretation exttype_msgtype: disjoint_bitfields 15 0 30 16 by unfold_locales simp_all
interpretation boundary_rexmit: disjoint_bitfields 31 30 26 26 by unfold_locales simp_all
interpretation inorder_rexmit: disjoint_bitfields 29 29 26 26 by unfold_locales simp_all
interpretation keyspec_rexmit: disjoint_bitfields 28 27 26 26 by unfold_locales simp_all
interpretation msgseq_rexmit: disjoint_bitfields 25 0 26 26 by unfold_locales simp_all
interpretation boundary_keyspec: disjoint_bitfields 31 30 28 27 by unfold_locales simp_all
interpretation inorder_keyspec: disjoint_bitfields 29 29 28 27 by unfold_locales simp_all
interpretation rexmit_keyspec: disjoint_bitfields 26 26 28 27 by unfold_locales simp_all
interpretation msgseq_keyspec: disjoint_bitfields 25 0 28 27 by unfold_locales simp_all
interpretation msgseqold_keyspec: disjoint_bitfields 26 0 28 27 by unfold_locales simp_all

definition CreateControlSeqNo :: "UDTMessageType \<Rightarrow> 32 word" where
  "CreateControlSeqNo ty = BitsetMask 31 31 OR Bits_wrap 30 16 (msgtype_code ty)"

definition CreateControlExtSeqNo :: "32 word \<Rightarrow> 32 word" where
  "CreateControlExtSeqNo exttype =
     BitsetMask 31 31 OR Bits_wrap 30 16 (msgtype_code UMSG_EXT) OR Bits_wrap 15 0 exttype"

definition PacketBoundaryBits :: "PacketBoundary \<Rightarrow> 32 word" where
  "PacketBoundaryBits pb = Bits_wrap 31 30 (boundary_code pb)"

definition EncryptionKeyBits :: "EncryptionKeySpec \<Rightarrow> 32 word" where
  "EncryptionKeyBits f = Bits_wrap 28 27 (keyspec_code f)"

definition GetEncryptionKeySpec :: "32 word \<Rightarrow> 32 word" where
  "GetEncryptionKeySpec msgno = Bits_unwrap 28 27 msgno"

definition isControl :: "header \<Rightarrow> bool" where
  "isControl h \<longleftrightarrow> 0 \<noteq> Bits_unwrap 31 31 (SRT_PH_SEQNO h)"

definition setControl :: "header \<Rightarrow> UDTMessageType \<Rightarrow> header" where
  "setControl h ty = h\<lparr>SRT_PH_SEQNO := BitsetMask 31 31 OR Bits_wrap 30 16 (msgtype_code ty)\<rparr>"

text \<open>The enumeration values read from a packet are the codes; not every code has a constructor.\<close>

definition getType :: "header \<Rightarrow> 32 word" where
  "getType h = Bits_unwrap 30 16 (SRT_PH_SEQNO h)"

definition isControl_type :: "header \<Rightarrow> UDTMessageType \<Rightarrow> bool" where
  "isControl_type h ty \<longleftrightarrow> isControl h \<and> msgtype_code ty = getType h"

definition getExtendedType :: "header \<Rightarrow> 32 word" where
  "getExtendedType h = Bits_unwrap 15 0 (SRT_PH_SEQNO h)"

definition getControlFlags :: "header \<Rightarrow> 16 word" where
  "getControlFlags h = ucast (Bits_unwrap 15 0 (SRT_PH_SEQNO h))"

definition getAckSeqNo :: "header \<Rightarrow> 32 word" where
  "getAckSeqNo h = SRT_PH_MSGNO h"

definition getSeqNo :: "header \<Rightarrow> 32 word" where
  "getSeqNo h = SRT_PH_SEQNO h"

definition getMsgBoundary :: "header \<Rightarrow> 32 word" where
  "getMsgBoundary h = Bits_unwrap 31 30 (SRT_PH_MSGNO h)"

definition getMsgOrderFlag :: "header \<Rightarrow> bool" where
  "getMsgOrderFlag h \<longleftrightarrow> 0 \<noteq> Bits_unwrap 29 29 (SRT_PH_MSGNO h)"

definition getMsgSeq :: "header \<Rightarrow> bool \<Rightarrow> 32 word" where
  "getMsgSeq h has_rexmit =
     (if has_rexmit then Bits_unwrap 25 0 (SRT_PH_MSGNO h) else Bits_unwrap 26 0 (SRT_PH_MSGNO h))"

definition getRexmitFlag :: "header \<Rightarrow> bool" where
  "getRexmitFlag h \<longleftrightarrow> 0 \<noteq> Bits_unwrap 26 26 (SRT_PH_MSGNO h)"

definition setRexmitFlag :: "header \<Rightarrow> bool \<Rightarrow> header" where
  "setRexmitFlag h bRexmit =
     (let clr_msgno = SRT_PH_MSGNO h AND NOT (BitsetMask 26 26)
      in h\<lparr>SRT_PH_MSGNO := clr_msgno OR Bits_wrap 26 26 (if bRexmit then 1 else 0)\<rparr>)"

definition getMsgCryptoFlags :: "header \<Rightarrow> 32 word" where
  "getMsgCryptoFlags h = Bits_unwrap 28 27 (SRT_PH_MSGNO h)"

definition setMsgCryptoFlags :: "header \<Rightarrow> EncryptionKeySpec \<Rightarrow> header" where
  "setMsgCryptoFlags h spec =
     (let clr_msgno = SRT_PH_MSGNO h AND NOT (BitsetMask 28 27)
      in h\<lparr>SRT_PH_MSGNO := clr_msgno OR EncryptionKeyBits spec\<rparr>)"

definition TIMESTAMP_MASK :: "32 word" where
  "TIMESTAMP_MASK = 0xFFFFFFFF"

definition getMsgTimeStamp :: "header \<Rightarrow> 32 word" where
  "getMsgTimeStamp h = SRT_PH_TIMESTAMP h AND TIMESTAMP_MASK"

definition PacketMessageFlagStr :: "32 word \<Rightarrow> string option" where
  "PacketMessageFlagStr msgno_field =
     do { b \<leftarrow> rd [''PB_SUBSEQUENT'', ''PB_LAST'', ''PB_FIRST'', ''PB_SOLO''] (uint (Bits_unwrap 31 30 msgno_field));
          ord \<leftarrow> rd [''ORD_RELAXED'', ''ORD_REQUIRED''] (uint (Bits_unwrap 29 29 msgno_field));
          c \<leftarrow> rd [''EK_NOENC'', ''EK_EVEN'', ''EK_ODD'', ''EK*ERROR''] (uint (Bits_unwrap 28 27 msgno_field));
          r \<leftarrow> rd [''SN_ORIGINAL'', ''SN_REXMIT''] (uint (Bits_unwrap 26 26 msgno_field));
          Some (b @ '' '' @ ord @ '' '' @ c @ '' '' @ r) }"

section \<open>Payload buffers\<close>

type_synonym byte = "8 word"
type_synonym addr = nat

record heap =
  mem :: "addr \<Rightarrow> byte option list option"
  next_addr :: addr

definition heap_new :: "heap \<Rightarrow> nat \<Rightarrow> addr \<times> heap" where
  "heap_new m n = (next_addr m, m\<lparr>mem := (mem m)(next_addr m \<mapsto> replicate n None), next_addr := next_addr m + 1\<rparr>)"

definition heap_delete :: "heap \<Rightarrow> addr \<Rightarrow> heap option" where
  "heap_delete m a = (case mem m a of None \<Rightarrow> None | Some _ \<Rightarrow> Some (m\<lparr>mem := (mem m)(a := None)\<rparr>))"

definition heap_read :: "heap \<Rightarrow> addr \<Rightarrow> nat \<Rightarrow> byte option list option" where
  "heap_read m a n =
     (case mem m a of None \<Rightarrow> None | Some bs \<Rightarrow> if n \<le> length bs then Some (take n bs) else None)"

definition heap_write :: "heap \<Rightarrow> addr \<Rightarrow> byte option list \<Rightarrow> heap option" where
  "heap_write m a ds =
     (case mem m a of None \<Rightarrow> None
      | Some bs \<Rightarrow> if length ds \<le> length bs then Some (m\<lparr>mem := (mem m)(a \<mapsto> ds @ drop (length ds) bs)\<rparr>) else None)"

text \<open>A payload pointer: null, a buffer of the heap, or the packet's own pad word.\<close>

datatype dataptr = NULL | Buf addr | ExtraPad

record packet =
  m_nHeader :: header
  pv_data :: dataptr
  pv_length :: nat
  m_data_owned :: bool
  m_zCapacity :: "nat option"
  m_extra_pad :: "32 word"

definition CPacket :: packet where
  "CPacket = \<lparr>m_nHeader = \<lparr>SRT_PH_SEQNO = 0, SRT_PH_MSGNO = 0, SRT_PH_TIMESTAMP = 0, SRT_PH_ID = 0\<rparr>,
     pv_data = NULL, pv_length = 0, m_data_owned = False, m_zCapacity = None, m_extra_pad = 0\<rparr>"

definition getLength :: "packet \<Rightarrow> nat" where
  "getLength p = pv_length p"

definition setLength :: "packet \<Rightarrow> nat \<Rightarrow> packet" where
  "setLength p len = p\<lparr>pv_length := len\<rparr>"

definition setLength_cap :: "packet \<Rightarrow> nat \<Rightarrow> nat \<Rightarrow> packet" where
  "setLength_cap p len cap = (setLength p len)\<lparr>m_zCapacity := Some cap\<rparr>"

text \<open>\<^verbatim>\<open>delete[]\<close>: nothing for the null pointer, undefined for anything but a live heap buffer.\<close>

definition delete_ptr :: "heap \<Rightarrow> dataptr \<Rightarrow> heap option" where
  "delete_ptr m q = (case q of NULL \<Rightarrow> Some m | Buf a \<Rightarrow> heap_delete m a | ExtraPad \<Rightarrow> None)"

definition allocate :: "heap \<Rightarrow> packet \<Rightarrow> nat \<Rightarrow> (heap \<times> packet) option" where
  "allocate m p alloc_buffer_size =
     (if m_data_owned p \<and> getLength p = alloc_buffer_size then Some (m, p)
      else do { m1 \<leftarrow> (if m_data_owned p then delete_ptr m (pv_data p) else Some m);
                let (a, m2) = heap_new m1 alloc_buffer_size
                in Some (m2, p\<lparr>pv_data := Buf a, pv_length := alloc_buffer_size, m_data_owned := True\<rparr>) })"

definition deallocate :: "heap \<Rightarrow> packet \<Rightarrow> (heap \<times> packet) option" where
  "deallocate m p =
     do { m1 \<leftarrow> (if m_data_owned p then delete_ptr m (pv_data p) else Some m);
          Some (m1, p\<lparr>pv_data := NULL, pv_length := 0, m_data_owned := False\<rparr>) }"

definition release :: "heap \<Rightarrow> packet \<Rightarrow> (dataptr \<times> heap \<times> packet) option" where
  "release m p =
     (let buffer = (if m_data_owned p then pv_data p else NULL);
          p1 = (if m_data_owned p then p\<lparr>m_data_owned := False\<rparr> else p)
      in do { (m1, p2) \<leftarrow> deallocate m p1; Some (buffer, m1, p2) })"

definition copy_payload :: "heap \<Rightarrow> dataptr \<Rightarrow> dataptr \<Rightarrow> nat \<Rightarrow> heap option" where
  "copy_payload m dst src n =
     (case (dst, src) of
        (Buf d, Buf s) \<Rightarrow> do { bs \<leftarrow> heap_read m s n; heap_write m d bs }
      | _ \<Rightarrow> if n = 0 then Some m else None)"

definition clone :: "heap \<Rightarrow> packet \<Rightarrow> (heap \<times> packet) option" where
  "clone m p =
     do { (m1, pkt) \<leftarrow> allocate m (CPacket\<lparr>m_nHeader := m_nHeader p\<rparr>) (getLength p);
          m2 \<leftarrow> copy_payload m1 (pv_data pkt) (pv_data p) (getLength p);
          Some (m2, pkt) }"

section \<open>Control packets\<close>

definition set_payload :: "packet \<Rightarrow> dataptr \<Rightarrow> nat \<Rightarrow> packet" where
  "set_payload p q n = p\<lparr>pv_data := q, pv_length := n\<rparr>"

definition set_arg :: "packet \<Rightarrow> 32 word \<Rightarrow> packet" where
  "set_arg p v = p\<lparr>m_nHeader := (m_nHeader p)\<lparr>SRT_PH_MSGNO := v\<rparr>\<rparr>"

definition pack :: "packet \<Rightarrow> UDTMessageType \<Rightarrow> 32 word option \<Rightarrow> dataptr \<Rightarrow> nat \<Rightarrow> packet option" where
  "pack p0 pkttype lparam rparam sz =
     (let p = p0\<lparr>m_nHeader := setControl (m_nHeader p0) pkttype\<rparr>
      in case pkttype of
           UMSG_ACK \<Rightarrow>
             Some (set_payload (case lparam of None \<Rightarrow> p | Some v \<Rightarrow> set_arg p v) rparam sz)
         | UMSG_ACKACK \<Rightarrow> do { v \<leftarrow> lparam; Some (set_payload (set_arg p v) ExtraPad 4) }
         | UMSG_LOSSREPORT \<Rightarrow> Some (set_payload p rparam sz)
         | UMSG_CGWARNING \<Rightarrow> Some (set_payload p ExtraPad 4)
         | UMSG_KEEPALIVE \<Rightarrow>
             Some (set_payload (case lparam of None \<Rightarrow> p | Some v \<Rightarrow> set_arg p v) ExtraPad 4)
         | UMSG_HANDSHAKE \<Rightarrow> Some (set_payload p rparam sz)
         | UMSG_SHUTDOWN \<Rightarrow> Some (set_payload p ExtraPad 4)
         | UMSG_DROPREQ \<Rightarrow> do { v \<leftarrow> lparam; Some (set_payload (set_arg p v) rparam sz) }
         | UMSG_PEERERROR \<Rightarrow> do { v \<leftarrow> lparam; Some (set_payload (set_arg p v) ExtraPad 4) }
         | UMSG_EXT \<Rightarrow>
             do { v \<leftarrow> lparam;
                  let p1 = p\<lparr>m_nHeader := (m_nHeader p)\<lparr>SRT_PH_SEQNO := SRT_PH_SEQNO (m_nHeader p) OR v\<rparr>\<rparr>
                  in Some (if rparam \<noteq> NULL then set_payload p1 rparam sz else set_payload p1 ExtraPad 4) })"

section \<open>Byte order\<close>

text \<open>\<open>big\<close> is the byte order of the host.\<close>

definition be_bytes :: "32 word \<Rightarrow> byte list" where
  "be_bytes w = [ucast (drop_bit 24 w), ucast (drop_bit 16 w), ucast (drop_bit 8 w), ucast w]"

definition from_be :: "byte \<Rightarrow> byte \<Rightarrow> byte \<Rightarrow> byte \<Rightarrow> 32 word" where
  "from_be a b c d = push_bit 24 (ucast a) OR push_bit 16 (ucast b) OR push_bit 8 (ucast c) OR ucast d"

definition bswap32 :: "32 word \<Rightarrow> 32 word" where
  "bswap32 w = from_be (ucast w) (ucast (drop_bit 8 w)) (ucast (drop_bit 16 w)) (ucast (drop_bit 24 w))"

definition htobe32 :: "bool \<Rightarrow> 32 word \<Rightarrow> 32 word" where
  "htobe32 big w = (if big then w else bswap32 w)"

definition be32toh :: "bool \<Rightarrow> 32 word \<Rightarrow> 32 word" where
  "be32toh big w = (if big then w else bswap32 w)"

definition HtoNLA :: "bool \<Rightarrow> 32 word list \<Rightarrow> 32 word list" where
  "HtoNLA big = map (htobe32 big)"

definition NtoHLA :: "bool \<Rightarrow> 32 word list \<Rightarrow> 32 word list" where
  "NtoHLA big = map (be32toh big)"

text \<open>The words of a byte array as the host reads and writes them.\<close>

definition store32 :: "bool \<Rightarrow> 32 word \<Rightarrow> byte list" where
  "store32 big w = (if big then be_bytes w else rev (be_bytes w))"

fun load_words :: "bool \<Rightarrow> byte list \<Rightarrow> 32 word list" where
  "load_words big (a # b # c # d # bs) = (if big then from_be a b c d else from_be d c b a) # load_words big bs"
| "load_words big bs = []"

definition store_words :: "bool \<Rightarrow> 32 word list \<Rightarrow> byte list" where
  "store_words big ws = concat (map (store32 big) ws)"

definition convert_payload ::
  "bool \<Rightarrow> (32 word list \<Rightarrow> 32 word list) \<Rightarrow> heap \<Rightarrow> packet \<Rightarrow> (heap \<times> packet) option" where
  "convert_payload big f m p =
     (let n = getLength p div 4
      in case pv_data p of
           NULL \<Rightarrow> if n = 0 then Some (m, p) else None
         | ExtraPad \<Rightarrow> if n = 0 then Some (m, p)
                       else if n = 1 then Some (m, p\<lparr>m_extra_pad := hd (f [m_extra_pad p])\<rparr>) else None
         | Buf a \<Rightarrow>
             do { bs \<leftarrow> heap_read m a (4 * n);
                  vs \<leftarrow> those bs;
                  m1 \<leftarrow> heap_write m a (map Some (store_words big (f (load_words big vs))));
                  Some (m1, p) })"

definition convert_header :: "(32 word list \<Rightarrow> 32 word list) \<Rightarrow> header \<Rightarrow> header" where
  "convert_header f h =
     (let ws = f [SRT_PH_SEQNO h, SRT_PH_MSGNO h, SRT_PH_TIMESTAMP h, SRT_PH_ID h]
      in h\<lparr>SRT_PH_SEQNO := ws ! 0, SRT_PH_MSGNO := ws ! 1, SRT_PH_TIMESTAMP := ws ! 2, SRT_PH_ID := ws ! 3\<rparr>)"

definition toNetworkByteOrder :: "bool \<Rightarrow> heap \<Rightarrow> packet \<Rightarrow> (heap \<times> packet) option" where
  "toNetworkByteOrder big m p =
     do { (m1, p1) \<leftarrow> (if isControl (m_nHeader p) then convert_payload big (HtoNLA big) m p else Some (m, p));
          Some (m1, p1\<lparr>m_nHeader := convert_header (HtoNLA big) (m_nHeader p1)\<rparr>) }"

definition toHostByteOrder :: "bool \<Rightarrow> heap \<Rightarrow> packet \<Rightarrow> (heap \<times> packet) option" where
  "toHostByteOrder big m p =
     (let p1 = p\<lparr>m_nHeader := convert_header (NtoHLA big) (m_nHeader p)\<rparr>
      in if isControl (m_nHeader p1) then convert_payload big (NtoHLA big) m p1 else Some (m, p1))"

section \<open>Lemmas\<close>

lemma bit_from_be:
  "bit (from_be a b c d) n \<longleftrightarrow>
     (if n < 8 then bit d n else if n < 16 then bit c (n - 8)
      else if n < 24 then bit b (n - 16) else n < 32 \<and> bit a (n - 24))"
  using bit_imp_le_length [of a "n - 24"] bit_imp_le_length [of b "n - 16"]
    bit_imp_le_length [of c "n - 8"] bit_imp_le_length [of d n]
  by (auto simp: from_be_def bit_simps)

lemma bytes_from_be [simp]:
  "ucast (from_be a b c d) = d"
  "ucast (drop_bit 8 (from_be a b c d)) = c"
  "ucast (drop_bit 16 (from_be a b c d)) = b"
  "ucast (drop_bit 24 (from_be a b c d)) = a"
  by (rule bit_word_eqI; simp add: bit_simps bit_from_be)+

lemma from_be_bytes [simp]:
  "from_be (ucast (drop_bit 24 w)) (ucast (drop_bit 16 w)) (ucast (drop_bit 8 w)) (ucast w) = w"
  by (rule bit_word_eqI) (auto simp: bit_from_be bit_simps)

lemma bswap32_from_be [simp]: "bswap32 (from_be a b c d) = from_be d c b a"
  by (simp add: bswap32_def)

lemma bswap32_bswap32 [simp]: "bswap32 (bswap32 w) = w"
  using bswap32_from_be [of "ucast w" "ucast (drop_bit 8 w)" "ucast (drop_bit 16 w)" "ucast (drop_bit 24 w)"]
  by (simp add: bswap32_def)

lemma be_htobe32 [simp]: "be32toh big (htobe32 big w) = w"
  by (simp add: be32toh_def htobe32_def)

lemma store_htobe32: "store32 big (htobe32 big w) = be_bytes w"
  by (simp add: store32_def htobe32_def be_bytes_def bswap32_def)

lemma be_bytes_inj: "be_bytes v = be_bytes w \<Longrightarrow> v = w"
  unfolding be_bytes_def list.inject by (metis from_be_bytes)

lemma NtoHLA_HtoNLA [simp]: "NtoHLA big (HtoNLA big ws) = ws"
  by (simp add: NtoHLA_def HtoNLA_def comp_def)

lemma convert_header_back [simp]:
  "convert_header (NtoHLA big) (convert_header (HtoNLA big) h) = h"
  by (simp add: convert_header_def NtoHLA_def HtoNLA_def Let_def)

lemma load_store32:
  "load_words big (store32 big w @ bs) = w # load_words big bs"
  by (simp add: store32_def be_bytes_def)

lemma load_store_words [simp]: "load_words big (store_words big ws) = ws"
  by (induction ws) (simp_all add: store_words_def load_store32)

lemma store_load_words: "length bs mod 4 = 0 \<Longrightarrow> store_words big (load_words big bs) = bs"
proof (induction big bs rule: load_words.induct)
  case (1 big a b c d bs)
  then show ?case by (simp add: store_words_def store32_def be_bytes_def)
qed (simp_all add: store_words_def)

lemma length_store_words [simp]: "length (store_words big ws) = 4 * length ws"
  by (induction ws) (simp_all add: store_words_def store32_def be_bytes_def)

lemma length_load_words: "length (load_words big bs) = length bs div 4"
  by (induction big bs rule: load_words.induct) simp_all

lemma those_map_Some [simp]: "those (map Some vs) = Some vs"
  by (induction vs) simp_all

lemma header_wire:
  "store_words big [SRT_PH_SEQNO h', SRT_PH_MSGNO h', SRT_PH_TIMESTAMP h', SRT_PH_ID h']
    = concat (map be_bytes [SRT_PH_SEQNO h, SRT_PH_MSGNO h, SRT_PH_TIMESTAMP h, SRT_PH_ID h])"
  if "h' = convert_header (HtoNLA big) h"
  by (simp add: that convert_header_def HtoNLA_def Let_def store_words_def store_htobe32)

lemma payload_wire: "store_words big (HtoNLA big ws) = concat (map be_bytes ws)"
  by (simp add: store_words_def HtoNLA_def store_htobe32 comp_def)

lemma heap_read_prefix:
  assumes "heap_read m a n = Some bs"
  obtains rest where "mem m a = Some (bs @ rest)" "length bs = n"
  using assms by (auto simp: heap_read_def split: option.splits if_splits)
    (metis append_take_drop_id length_take min.absorb2)

lemma convert_payload_Buf:
  assumes "pv_data p = Buf a" "mem m a = Some (map Some vs @ rest)" "length vs = 4 * (getLength p div 4)"
    and "length (f (load_words big vs)) = length (load_words big vs)"
  shows "convert_payload big f m p
    = Some (m\<lparr>mem := (mem m)(a \<mapsto> map Some (store_words big (f (load_words big vs))) @ rest)\<rparr>, p)"
  using assms by (simp add: convert_payload_def heap_read_def heap_write_def length_load_words)

definition flagless :: "header \<Rightarrow> 32 word \<times> bool \<times> 32 word \<times> 32 word \<times> 32 word \<times> 32 word" where
  "flagless h = (getMsgBoundary h, getMsgOrderFlag h, getMsgSeq h True,
     SRT_PH_SEQNO h, SRT_PH_TIMESTAMP h, SRT_PH_ID h)"

lemma msgno_setters:
  "SRT_PH_MSGNO (setRexmitFlag h b) = (SRT_PH_MSGNO h AND NOT (BitsetMask 26 26)) OR Bits_wrap 26 26 (if b then 1 else 0)"
  "SRT_PH_MSGNO (setMsgCryptoFlags h k) = (SRT_PH_MSGNO h AND NOT (BitsetMask 28 27)) OR Bits_wrap 28 27 (keyspec_code k)"
  "SRT_PH_SEQNO (setRexmitFlag h b) = SRT_PH_SEQNO h" "SRT_PH_SEQNO (setMsgCryptoFlags h k) = SRT_PH_SEQNO h"
  "SRT_PH_TIMESTAMP (setRexmitFlag h b) = SRT_PH_TIMESTAMP h"
  "SRT_PH_TIMESTAMP (setMsgCryptoFlags h k) = SRT_PH_TIMESTAMP h"
  "SRT_PH_ID (setRexmitFlag h b) = SRT_PH_ID h" "SRT_PH_ID (setMsgCryptoFlags h k) = SRT_PH_ID h"
  by (simp_all add: setRexmitFlag_def setMsgCryptoFlags_def EncryptionKeyBits_def Let_def)

section \<open>Properties of packets\<close>

text \<open>
  C23. Converting a control packet to network byte order and back restores the packet and its payload on
  hosts of either byte order. In between, the header and the payload words lie in memory as their
  big-endian bytes, so that the wire format does not depend on the host.
\<close>

theorem control_packet_wire:
  assumes "isControl (m_nHeader p)" "pv_data p = Buf a"
    and "heap_read m a (4 * (getLength p div 4)) = Some (map Some vs)"
  shows "\<exists>m1 p1. toNetworkByteOrder big m p = Some (m1, p1)
    \<and> toHostByteOrder big m1 p1 = Some (m, p)
    \<and> heap_read m1 a (4 * (getLength p div 4)) = Some (map Some (concat (map be_bytes (load_words big vs))))
    \<and> (let h = m_nHeader p; h1 = m_nHeader p1
       in store_words big [SRT_PH_SEQNO h1, SRT_PH_MSGNO h1, SRT_PH_TIMESTAMP h1, SRT_PH_ID h1]
          = concat (map be_bytes [SRT_PH_SEQNO h, SRT_PH_MSGNO h, SRT_PH_TIMESTAMP h, SRT_PH_ID h]))"
proof -
  from heap_read_prefix [OF assms(3)] obtain rest where
    mem: "mem m a = Some (map Some vs @ rest)" and len: "length vs = 4 * (getLength p div 4)" by auto
  let ?ws = "load_words big vs"
  let ?m1 = "m\<lparr>mem := (mem m)(a \<mapsto> map Some (store_words big (HtoNLA big ?ws)) @ rest)\<rparr>"
  let ?p1 = "p\<lparr>m_nHeader := convert_header (HtoNLA big) (m_nHeader p)\<rparr>"
  have lens: "length (HtoNLA big ?ws) = length ?ws" "length (NtoHLA big ws) = length ws" for ws
    by (simp_all add: HtoNLA_def NtoHLA_def)
  have net: "toNetworkByteOrder big m p = Some (?m1, ?p1)"
    using convert_payload_Buf [OF assms(2) mem len, of "HtoNLA big" big] lens assms(1) by (simp add: toNetworkByteOrder_def)
  have len1: "length (store_words big (HtoNLA big ?ws)) = 4 * (getLength p div 4)"
    using len by (simp add: lens length_load_words)
  have "convert_payload big (NtoHLA big) ?m1 p
      = Some (?m1\<lparr>mem := (mem ?m1)(a \<mapsto> map Some (store_words big ?ws) @ rest)\<rparr>, p)"
    using convert_payload_Buf [OF assms(2) _ len1, of ?m1 rest "NtoHLA big" big] lens by simp
  moreover have "store_words big ?ws = vs" using len by (intro store_load_words) simp
  ultimately have host: "toHostByteOrder big ?m1 ?p1 = Some (m, p)"
    using assms(1) mem by (simp add: toHostByteOrder_def Let_def fun_upd_idem)
  have "heap_read ?m1 a (4 * (getLength p div 4)) = Some (map Some (concat (map be_bytes ?ws)))"
    using len1 by (simp add: heap_read_def payload_wire)
  with net host header_wire [OF refl, of big "m_nHeader p"] show ?thesis by (simp add: Let_def)
qed

theorem control_packet_wire_witness:
  "let p = CPacket\<lparr>m_nHeader := setControl (m_nHeader CPacket) UMSG_LOSSREPORT, pv_data := Buf 0, pv_length := 4\<rparr>;
       m = \<lparr>mem = [0 \<mapsto> [Some 1, Some 2, Some 3, Some 4]], next_addr = 1\<rparr>
   in \<exists>m1 p1. toNetworkByteOrder False m p = Some (m1, p1) \<and> toHostByteOrder False m1 p1 = Some (m, p)
     \<and> heap_read m1 0 4 = Some [Some 4, Some 3, Some 2, Some 1]"
proof -
  let ?p = "CPacket\<lparr>m_nHeader := setControl (m_nHeader CPacket) UMSG_LOSSREPORT, pv_data := Buf 0, pv_length := 4\<rparr>"
  let ?m = "\<lparr>mem = [0 \<mapsto> [Some 1, Some 2, Some 3, Some 4]], next_addr = 1\<rparr>"
  have "isControl (m_nHeader ?p)" by (simp add: isControl_def setControl_def CPacket_def) code_simp
  moreover have "pv_data ?p = Buf 0" by simp
  moreover have "heap_read ?m 0 (4 * (getLength ?p div 4)) = Some (map Some [1, 2, 3, 4])"
    by (simp add: heap_read_def getLength_def)
  ultimately have "\<exists>m1 p1. toNetworkByteOrder False ?m ?p = Some (m1, p1) \<and> toHostByteOrder False m1 p1 = Some (?m, ?p)
      \<and> heap_read m1 0 (4 * (getLength ?p div 4)) = Some (map Some (concat (map be_bytes (load_words False [1, 2, 3, 4]))))"
    using control_packet_wire [of ?p 0 ?m "[1, 2, 3, 4]" False] by blast
  then show ?thesis by (simp add: Let_def getLength_def be_bytes_def)
qed

text \<open>
  Setting the retransmission flag or the encryption key of a data packet changes that field alone:
  the boundary, the order flag, the message number and the other field read as before, and the sequence
  number, time stamp and socket id are untouched.
\<close>

lemma flag_setters_touch_one_field:
  "getRexmitFlag (setRexmitFlag h b) = b
    \<and> getMsgCryptoFlags (setRexmitFlag h b) = getMsgCryptoFlags h
    \<and> flagless (setRexmitFlag h b) = flagless h
    \<and> getMsgCryptoFlags (setMsgCryptoFlags h k) = keyspec_code k
    \<and> getRexmitFlag (setMsgCryptoFlags h k) = getRexmitFlag h
    \<and> flagless (setMsgCryptoFlags h k) = flagless h"
proof -
  have f: "Bits_fit 26 26 (if b then 1 else 0)" "Bits_fit 28 27 (keyspec_code k)"
    by (cases b; simp add: Bits_fit_less) (cases k; simp add: Bits_fit_less)
  have r: "getRexmitFlag (setRexmitFlag h b) = b"
    using f(1) by (simp add: getRexmitFlag_def msgno_setters MSGNO_REXMIT.unwrap_update)
  have c: "getMsgCryptoFlags (setMsgCryptoFlags h k) = keyspec_code k"
    using f(2) by (simp add: getMsgCryptoFlags_def msgno_setters MSGNO_ENCKEYSPEC.unwrap_update)
  have "getMsgCryptoFlags (setRexmitFlag h b) = getMsgCryptoFlags h" "flagless (setRexmitFlag h b) = flagless h"
    "getRexmitFlag (setMsgCryptoFlags h k) = getRexmitFlag h" "flagless (setMsgCryptoFlags h k) = flagless h"
    by (simp_all only: getMsgCryptoFlags_def getRexmitFlag_def flagless_def getMsgBoundary_def getMsgOrderFlag_def
        getMsgSeq_def if_True msgno_setters keyspec_rexmit.unwrap_update_other rexmit_keyspec.unwrap_update_other
        boundary_rexmit.unwrap_update_other inorder_rexmit.unwrap_update_other msgseq_rexmit.unwrap_update_other
        boundary_keyspec.unwrap_update_other inorder_keyspec.unwrap_update_other msgseq_keyspec.unwrap_update_other
        simp_thms)
  with r c show ?thesis by blast
qed

fun needs_arg :: "UDTMessageType \<Rightarrow> bool" where
  "needs_arg ty \<longleftrightarrow> ty \<in> {UMSG_ACKACK, UMSG_DROPREQ, UMSG_PEERERROR, UMSG_EXT}"

fun has_payload :: "UDTMessageType \<Rightarrow> bool" where
  "has_payload ty \<longleftrightarrow> ty \<in> {UMSG_ACK, UMSG_LOSSREPORT, UMSG_HANDSHAKE, UMSG_DROPREQ}"

lemma msgtype_code_inj: "msgtype_code t1 = msgtype_code t2 \<longleftrightarrow> t1 = t2"
  by (cases t1; cases t2; simp)

lemma msgtype_fits: "Bits_fit 30 16 (msgtype_code ty)"
  by (cases ty) (simp_all add: Bits_fit_less)

lemma control_mask_wrap: "BitsetMask 31 31 = Bits_wrap 31 31 1"
  by (rule bit_word_eqI) (auto simp: bit_Bits_wrap bit_BitsetMask bit_1_iff)

lemma control_word:
  "Bits_unwrap 31 31 (BitsetMask 31 31 OR Bits_wrap 30 16 (msgtype_code ty)) = 1"
  "Bits_unwrap 30 16 (BitsetMask 31 31 OR Bits_wrap 30 16 (msgtype_code ty)) = msgtype_code ty"
proof -
  have f: "Bits_fit 31 31 1" by (simp add: Bits_fit_less)
  show "Bits_unwrap 31 31 (BitsetMask 31 31 OR Bits_wrap 30 16 (msgtype_code ty)) = 1"
    by (simp only: control_msgtype.unwrap_or_other control_mask_wrap SEQNO_CONTROL.unwrap_wrap [OF f])
  show "Bits_unwrap 30 16 (BitsetMask 31 31 OR Bits_wrap 30 16 (msgtype_code ty)) = msgtype_code ty"
    by (subst or.commute, simp only: control_mask_wrap msgtype_control.unwrap_or_other
        SEQNO_MSGTYPE.unwrap_wrap [OF msgtype_fits])
qed

lemma setControl_type: "isControl_type (setControl h ty) ty' \<longleftrightarrow> ty' = ty"
  by (auto simp add: isControl_type_def isControl_def getType_def setControl_def control_word msgtype_code_inj)

text \<open>
  A packed control packet reads back with the type it was packed for, also against every other type,
  keeps its time stamp and socket id, and carries the argument and the payload its type has. Packing
  follows a null argument pointer exactly for the types that need an argument and got none.
\<close>

theorem pack_reads_back:
  assumes "ty \<noteq> UMSG_EXT"
  shows "(pack p ty arg q n = None \<longleftrightarrow> needs_arg ty \<and> arg = None)
    \<and> (\<forall>p'. pack p ty arg q n = Some p' \<longrightarrow>
        (\<forall>ty'. isControl_type (m_nHeader p') ty' \<longleftrightarrow> ty' = ty)
        \<and> SRT_PH_TIMESTAMP (m_nHeader p') = SRT_PH_TIMESTAMP (m_nHeader p)
        \<and> SRT_PH_ID (m_nHeader p') = SRT_PH_ID (m_nHeader p)
        \<and> (case arg of Some v \<Rightarrow> (ty = UMSG_ACK \<or> ty = UMSG_KEEPALIVE \<or> needs_arg ty) \<longrightarrow> getAckSeqNo (m_nHeader p') = v
           | None \<Rightarrow> getAckSeqNo (m_nHeader p') = getAckSeqNo (m_nHeader p))
        \<and> (if has_payload ty then pv_data p' = q \<and> getLength p' = n else pv_data p' = ExtraPad \<and> getLength p' = 4))"
proof -
  have s: "isControl_type (h\<lparr>SRT_PH_MSGNO := v\<rparr>) ty' = isControl_type h ty'" for h v ty'
    by (simp add: isControl_type_def isControl_def getType_def)
  have t: "SRT_PH_TIMESTAMP (setControl h ty) = SRT_PH_TIMESTAMP h" "SRT_PH_ID (setControl h ty) = SRT_PH_ID h"
    "SRT_PH_MSGNO (setControl h ty) = SRT_PH_MSGNO h" for h ty by (simp_all add: setControl_def)
  show ?thesis using assms
    by (cases ty; cases arg)
      (simp_all add: pack_def Let_def set_payload_def set_arg_def getLength_def getAckSeqNo_def s t setControl_type)
qed

theorem pack_reads_back_witness:
  "\<exists>p'. pack CPacket UMSG_ACKACK (Some 7) NULL 0 = Some p' \<and> isControl_type (m_nHeader p') UMSG_ACKACK
    \<and> getAckSeqNo (m_nHeader p') = 7"
  using pack_reads_back [of UMSG_ACKACK CPacket "Some 7" NULL 0]
  by (cases "pack CPacket UMSG_ACKACK (Some 7) NULL 0") simp_all

section \<open>Ownership of the payload\<close>

definition heap_ok :: "heap \<Rightarrow> bool" where
  "heap_ok m \<longleftrightarrow> (\<forall>a. mem m a \<noteq> None \<longrightarrow> a < next_addr m)"

text \<open>An owned payload is a live buffer of the packet's own, at least as long as the packet says.\<close>

definition packet_ok :: "heap \<Rightarrow> packet \<Rightarrow> bool" where
  "packet_ok m p \<longleftrightarrow>
     (m_data_owned p \<longrightarrow> (\<exists>a bs. pv_data p = Buf a \<and> mem m a = Some bs \<and> getLength p \<le> length bs))"

definition own_buffer :: "packet \<Rightarrow> addr set" where
  "own_buffer p = (if m_data_owned p then (case pv_data p of Buf a \<Rightarrow> {a} | _ \<Rightarrow> {}) else {})"

lemma deallocate_ok:
  assumes "packet_ok m p"
  shows "\<exists>m' p'. deallocate m p = Some (m', p') \<and> mem m' = (mem m) |` (- own_buffer p)
    \<and> next_addr m' = next_addr m \<and> \<not> m_data_owned p'"
  using assms
  by (auto simp: deallocate_def packet_ok_def own_buffer_def delete_ptr_def heap_delete_def restrict_map_def
      fun_eq_iff)

lemma allocate_ok:
  assumes "heap_ok m" "packet_ok m p"
  shows "\<exists>m' p' a. allocate m p n = Some (m', p') \<and> heap_ok m' \<and> packet_ok m' p'
    \<and> m_data_owned p' \<and> pv_data p' = Buf a \<and> getLength p' = n \<and> m_nHeader p' = m_nHeader p
    \<and> (\<forall>x. x \<notin> own_buffer p \<union> own_buffer p' \<longrightarrow> mem m' x = mem m x)
    \<and> own_buffer p' \<inter> dom (mem m) \<subseteq> own_buffer p
    \<and> (\<forall>x \<in> own_buffer p - own_buffer p'. mem m' x = None)"
proof (cases "m_data_owned p \<and> getLength p = n")
  case True
  with assms show ?thesis by (auto simp: allocate_def packet_ok_def own_buffer_def)
next
  case new: False
  let ?p' = "p\<lparr>pv_data := Buf (next_addr m), pv_length := n, m_data_owned := True\<rparr>"
  let ?m' = "m\<lparr>mem := ((mem m) |` (- own_buffer p))(next_addr m \<mapsto> replicate n None), next_addr := Suc (next_addr m)\<rparr>"
  have "allocate m p n = Some (?m', ?p')"
    using new assms(2)
    by (auto simp: allocate_def packet_ok_def own_buffer_def delete_ptr_def heap_delete_def heap_new_def
        restrict_map_def fun_eq_iff intro!: heap.equality)
  moreover have "heap_ok ?m'" using assms(1) by (auto simp: heap_ok_def restrict_map_def less_Suc_eq)
  moreover have "own_buffer ?p' = {next_addr m}" "packet_ok ?m' ?p'"
    by (simp_all add: own_buffer_def packet_ok_def getLength_def)
  moreover have "next_addr m \<notin> dom (mem m)" using assms(1) by (auto simp: heap_ok_def)
  ultimately show ?thesis by (intro exI [of _ ?m'] exI [of _ ?p'] exI [of _ "next_addr m"]) (simp add: getLength_def restrict_map_def)
qed

text \<open>
  A packet whose owned payload is live always gets a live buffer of the requested size; its former
  buffer is given back, and no buffer but these two is touched.
\<close>

lemma allocate_keeps_others:
  assumes "heap_ok m" "packet_ok m p"
  shows "\<exists>m' p' a. allocate m p n = Some (m', p') \<and> heap_ok m' \<and> packet_ok m' p'
      \<and> own_buffer p' = {a} \<and> (\<exists>bs. heap_read m' a n = Some bs)
      \<and> (\<forall>x. x \<noteq> a \<longrightarrow> mem m' x = (if x \<in> own_buffer p then None else mem m x))"
proof -
  from allocate_ok [OF assms, of n] obtain m' p' a where
    *: "allocate m p n = Some (m', p')" "heap_ok m'" "packet_ok m' p'" "m_data_owned p'" "pv_data p' = Buf a"
      "getLength p' = n" "\<forall>x. x \<notin> own_buffer p \<union> own_buffer p' \<longrightarrow> mem m' x = mem m x"
      "\<forall>x \<in> own_buffer p - own_buffer p'. mem m' x = None" by blast
  then have "own_buffer p' = {a}" by (simp add: own_buffer_def)
  with * show ?thesis
    by (intro exI [of _ m'] exI [of _ p'] exI [of _ a]) (auto simp: packet_ok_def heap_read_def)
qed

lemma copy_payload_Buf:
  assumes "heap_read m s n = Some bs" "mem m d = Some (replicate n None)"
  shows "copy_payload m (Buf d) (Buf s) n = Some (m\<lparr>mem := (mem m)(d \<mapsto> bs)\<rparr>)"
proof -
  have "length bs = n" using heap_read_prefix [OF assms(1)] by blast
  with assms show ?thesis by (simp add: copy_payload_def heap_write_def)
qed

text \<open>
  A clone has the header and the payload bytes of the original in a fresh buffer of its own; all
  buffers that existed are as before, and deallocating the clone leaves exactly those.
\<close>

theorem clone_isolated:
  assumes "heap_ok m" "pv_data p = Buf b" "heap_read m b (getLength p) = Some bs"
  shows "\<exists>m' q a. clone m p = Some (m', q) \<and> m_nHeader q = m_nHeader p \<and> getLength q = getLength p
      \<and> own_buffer q = {a} \<and> mem m a = None \<and> heap_read m' a (getLength q) = Some bs
      \<and> (\<forall>x. x \<noteq> a \<longrightarrow> mem m' x = mem m x)
      \<and> (\<exists>m'' q'. deallocate m' q = Some (m'', q') \<and> mem m'' = mem m)"
proof -
  let ?a = "next_addr m" and ?n = "getLength p"
  let ?q = "CPacket\<lparr>m_nHeader := m_nHeader p, pv_data := Buf ?a, pv_length := ?n, m_data_owned := True\<rparr>"
  let ?m1 = "m\<lparr>mem := (mem m)(?a \<mapsto> replicate ?n None), next_addr := Suc ?a\<rparr>"
  let ?m2 = "?m1\<lparr>mem := (mem m)(?a \<mapsto> bs)\<rparr>"
  have fresh: "mem m ?a = None" using assms(1) by (force simp: heap_ok_def)
  have len: "length bs = ?n" using heap_read_prefix [OF assms(3)] by blast
  have "b \<noteq> ?a" using fresh assms(3) by (auto simp: heap_read_def)
  then have "heap_read ?m1 b ?n = Some bs" using assms(3) by (simp add: heap_read_def)
  from copy_payload_Buf [OF this, of ?a] have "copy_payload ?m1 (Buf ?a) (Buf b) ?n = Some ?m2" by simp
  then have "clone m p = Some (?m2, ?q)"
    using assms(2) by (simp add: clone_def allocate_def heap_new_def CPacket_def)
  moreover have "deallocate ?m2 ?q = Some (?m2\<lparr>mem := mem m\<rparr>, ?q\<lparr>pv_data := NULL, pv_length := 0, m_data_owned := False\<rparr>)"
    using fresh by (simp add: deallocate_def delete_ptr_def heap_delete_def fun_upd_idem)
  ultimately show ?thesis
    using fresh len by (intro exI [of _ ?m2] exI [of _ ?q] exI [of _ ?a]) (simp add: getLength_def own_buffer_def heap_read_def)
qed

theorem clone_isolated_witness:
  "let m = \<lparr>mem = [0 \<mapsto> [Some 5, Some 6]], next_addr = 1\<rparr>;
       p = CPacket\<lparr>pv_data := Buf 0, pv_length := 2\<rparr>
   in \<exists>m' q. clone m p = Some (m', q) \<and> mem m' 0 = Some [Some 5, Some 6]"
proof -
  let ?m = "\<lparr>mem = [0 \<mapsto> [Some 5, Some 6]], next_addr = 1\<rparr>"
  let ?p = "CPacket\<lparr>pv_data := Buf 0, pv_length := 2\<rparr>"
  have "heap_ok ?m" "pv_data ?p = Buf 0" "heap_read ?m 0 (getLength ?p) = Some [Some 5, Some 6]"
    by (simp_all add: heap_ok_def heap_read_def getLength_def)
  from clone_isolated [OF this] obtain m' q a where
    "clone ?m ?p = Some (m', q)" "mem ?m a = None" "\<forall>x. x \<noteq> a \<longrightarrow> mem m' x = mem ?m x" by blast
  then show ?thesis by (cases "a = 0") (auto simp: Let_def)
qed

end
