(* ===== verification/RcvBuffer.thy ===== *)
theory RcvBuffer
  imports SeqNo TsbpdTime Packet
begin

text \<open>
  \<^verbatim>\<open>CRcvBuffer\<close> of \<^verbatim>\<open>srtcore/buffer_rcv.h\<close> and \<^verbatim>\<open>buffer_rcv.cpp\<close>: the ring of received packets
  between the network and the application. Packets arrive in any order, are read as whole messages or as
  a byte stream, and may be dropped by number or by message. Positions are ring indices as in the code;
  every loop runs over them and is a partial function, so that \<open>Some\<close> results include termination
  and the absence of null and out-of-range accesses.

  The unit queue is represented by the flags of its units (\<^verbatim>\<open>CUnitQueue::makeUnitTaken\<close> and
  \<^verbatim>\<open>makeUnitFree\<close> of \<^verbatim>\<open>queue.cpp\<close>); a unit is its identity, header and payload. The moving averages
  of \<^verbatim>\<open>AvgBufSize\<close> (floating point) and the text dump \<^verbatim>\<open>strFullnessState\<close> are left out. The current
  time is an argument where the code reads the clock.
\<close>

section \<open>Units and their queue\<close>

record cunit =
  u_id :: nat
  u_hdr :: header
  u_data :: "byte list"

record unit_queue =
  m_bTaken :: "nat \<Rightarrow> bool"
  m_iNumTaken :: int

definition makeUnitTaken :: "unit_queue \<Rightarrow> cunit \<Rightarrow> unit_queue" where
  "makeUnitTaken q u = q\<lparr>m_iNumTaken := m_iNumTaken q + 1, m_bTaken := (m_bTaken q)(u_id u := True)\<rparr>"

definition makeUnitFree :: "unit_queue \<Rightarrow> cunit \<Rightarrow> unit_queue" where
  "makeUnitFree q u = q\<lparr>m_bTaken := (m_bTaken q)(u_id u := False), m_iNumTaken := m_iNumTaken q - 1\<rparr>"

abbreviation u_seqno :: "cunit \<Rightarrow> int" where "u_seqno u \<equiv> sint (getSeqNo (u_hdr u))"
definition u_first :: "cunit \<Rightarrow> bool" where "u_first u \<longleftrightarrow> getMsgBoundary (u_hdr u) AND boundary_code PB_FIRST \<noteq> 0"
definition u_last :: "cunit \<Rightarrow> bool" where "u_last u \<longleftrightarrow> getMsgBoundary (u_hdr u) AND boundary_code PB_LAST \<noteq> 0"
abbreviation u_order :: "cunit \<Rightarrow> bool" where "u_order u \<equiv> getMsgOrderFlag (u_hdr u)"
abbreviation u_msgno :: "bool \<Rightarrow> cunit \<Rightarrow> int" where "u_msgno rex u \<equiv> sint (getMsgSeq (u_hdr u) rex)"

section \<open>The buffer\<close>

datatype EntryStatus = EntryState_Empty | EntryState_Avail | EntryState_Read | EntryState_Drop

record entry =
  pUnit :: "cunit option"
  status :: EntryStatus

definition Entry :: entry where
  "Entry = \<lparr>pUnit = None, status = EntryState_Empty\<rparr>"

record rcv_buffer =
  m_entries :: "entry list"
  m_szSize :: int
  m_pUnitQueue :: unit_queue
  m_iStartSeqNo :: int
  m_iStartPos :: int
  m_iFirstNonreadPos :: int
  m_iMaxPosOff :: int
  m_iNotch :: int
  m_numOutOfOrderPackets :: int
  m_iFirstReadableOutOfOrder :: int
  m_bPeerRexmitFlag :: bool
  m_bMessageAPI :: bool
  m_tsbpd :: tsbpd_time
  m_iBytesCount :: int
  m_iPktsCount :: int
  m_uAvgPayloadSz :: "32 word"

definition CRcvBuffer :: "int \<Rightarrow> nat \<Rightarrow> unit_queue \<Rightarrow> bool \<Rightarrow> rcv_buffer" where
  "CRcvBuffer initSeqNo sz unitqueue bMessageAPI =
     \<lparr>m_entries = replicate sz Entry, m_szSize = int sz, m_pUnitQueue = unitqueue,
      m_iStartSeqNo = initSeqNo, m_iStartPos = 0, m_iFirstNonreadPos = 0, m_iMaxPosOff = 0, m_iNotch = 0,
      m_numOutOfOrderPackets = 0, m_iFirstReadableOutOfOrder = -1, m_bPeerRexmitFlag = True,
      m_bMessageAPI = bMessageAPI, m_tsbpd = CTsbpdTime, m_iBytesCount = 0, m_iPktsCount = 0,
      m_uAvgPayloadSz = 0\<rparr>"

definition incPos :: "rcv_buffer \<Rightarrow> int \<Rightarrow> int \<Rightarrow> int" where
  "incPos b pos inc = (pos + inc) mod m_szSize b"

definition decPos :: "rcv_buffer \<Rightarrow> int \<Rightarrow> int" where
  "decPos b pos = (if pos - 1 \<ge> 0 then pos - 1 else m_szSize b - 1)"

definition offPos :: "rcv_buffer \<Rightarrow> int \<Rightarrow> int \<Rightarrow> int" where
  "offPos b pos1 pos2 = (if pos2 \<ge> pos1 then pos2 - pos1 else m_szSize b + pos2 - pos1)"

definition capacity :: "rcv_buffer \<Rightarrow> int" where
  "capacity b = m_szSize b - 1"

definition rb_empty :: "rcv_buffer \<Rightarrow> bool" where
  "rb_empty b \<longleftrightarrow> m_iMaxPosOff b = 0"

definition rb_full :: "rcv_buffer \<Rightarrow> bool" where
  "rb_full b \<longleftrightarrow> m_iMaxPosOff b = capacity b"

definition tsbpd_enabled :: "rcv_buffer \<Rightarrow> bool" where
  "tsbpd_enabled b = m_bTsbPdMode (m_tsbpd b)"

definition packetAt :: "rcv_buffer \<Rightarrow> int \<Rightarrow> cunit option" where
  "packetAt b pos = Option.bind (rd (m_entries b) pos) pUnit"

definition hasReadableInorderPkts :: "rcv_buffer \<Rightarrow> bool" where
  "hasReadableInorderPkts b \<longleftrightarrow> m_iFirstNonreadPos b \<noteq> m_iStartPos b"

definition isInRange :: "int \<Rightarrow> int \<Rightarrow> int \<Rightarrow> int \<Rightarrow> bool" where
  "isInRange iStartPos iMaxPosOff iSize iFirstNonreadPos =
     (if iFirstNonreadPos = iStartPos then True
      else let iLastPos = (iStartPos + iMaxPosOff) mod iSize;
               isOverrun = iLastPos < iStartPos
           in if isOverrun then iFirstNonreadPos > iStartPos \<or> iFirstNonreadPos \<le> iLastPos
              else iFirstNonreadPos > iStartPos \<and> iFirstNonreadPos \<le> iLastPos)"

section \<open>Counters, units and time base\<close>

text \<open>The length is a \<^verbatim>\<open>size_t\<close>, so the average is computed with 64 bits.\<close>

definition avg_iir :: "64 word \<Rightarrow> 32 word \<Rightarrow> 32 word \<Rightarrow> 32 word" where
  "avg_iir DEPRLEN old_value new_value = ucast ((ucast old_value * (DEPRLEN - 1) + ucast new_value) div DEPRLEN)"

definition countBytes :: "rcv_buffer \<Rightarrow> int \<Rightarrow> int \<Rightarrow> rcv_buffer" where
  "countBytes b pkts bytes =
     (let b1 = b\<lparr>m_iBytesCount := m_iBytesCount b + bytes, m_iPktsCount := m_iPktsCount b + pkts\<rparr>
      in if bytes > 0
         then (if m_uAvgPayloadSz b1 = 0 then b1\<lparr>m_uAvgPayloadSz := word_of_int bytes\<rparr>
               else b1\<lparr>m_uAvgPayloadSz := avg_iir 100 (m_uAvgPayloadSz b1) (word_of_int bytes)\<rparr>)
         else b1)"

definition releaseUnitInPos :: "rcv_buffer \<Rightarrow> int \<Rightarrow> rcv_buffer option" where
  "releaseUnitInPos b pos =
     do { e \<leftarrow> rd (m_entries b) pos;
          es \<leftarrow> wr (m_entries b) pos Entry;
          Some (b\<lparr>m_entries := es,
                  m_pUnitQueue := (case pUnit e of None \<Rightarrow> m_pUnitQueue b
                                   | Some u \<Rightarrow> makeUnitFree (m_pUnitQueue b) u)\<rparr>) }"

definition setStatus :: "rcv_buffer \<Rightarrow> int \<Rightarrow> EntryStatus \<Rightarrow> rcv_buffer option" where
  "setStatus b pos st = do { es \<leftarrow> upd (m_entries b) pos (\<lambda>e. e\<lparr>status := st\<rparr>); Some (b\<lparr>m_entries := es\<rparr>) }"

definition updateTsbPdTimeBase :: "rcv_buffer \<Rightarrow> 32 word \<Rightarrow> rcv_buffer" where
  "updateTsbPdTimeBase b usPktTimestamp = b\<lparr>m_tsbpd := updateBaseTime (m_tsbpd b) usPktTimestamp\<rparr>"

definition getPktTsbPdTime :: "rcv_buffer \<Rightarrow> 32 word \<Rightarrow> int" where
  "getPktTsbPdTime b usPktTimestamp = tsbpd_getPktTime (m_tsbpd b) usPktTimestamp"

definition dropUnitInPos :: "rcv_buffer \<Rightarrow> int \<Rightarrow> (bool \<times> rcv_buffer) option" where
  "dropUnitInPos b pos =
     do { e \<leftarrow> rd (m_entries b) pos;
          case pUnit e of
            None \<Rightarrow> Some (False, b)
          | Some u \<Rightarrow>
              do { let b1 = (if tsbpd_enabled b then updateTsbPdTimeBase b (getMsgTimeStamp (u_hdr u))
                         else if m_bMessageAPI b \<and> \<not> u_order u
                         then b\<lparr>m_numOutOfOrderPackets := m_numOutOfOrderPackets b - 1,
                                m_iFirstReadableOutOfOrder :=
                                  (if pos = m_iFirstReadableOutOfOrder b then -1 else m_iFirstReadableOutOfOrder b)\<rparr>
                         else b);
                   b2 \<leftarrow> releaseUnitInPos b1 pos;
                   Some (True, b2) } }"

text \<open>One round of the loop of \<^verbatim>\<open>releaseNextFillerEntries\<close>, at the start position.\<close>

definition release_step :: "rcv_buffer \<Rightarrow> rcv_buffer option" where
  "release_step b =
     do { b1 \<leftarrow> releaseUnitInPos (b\<lparr>m_iStartSeqNo := incseq (m_iStartSeqNo b)\<rparr>) (m_iStartPos b);
          Some (b1\<lparr>m_iStartPos := incPos b (m_iStartPos b) 1,
                   m_iMaxPosOff := (if m_iMaxPosOff b - 1 < 0 then 0 else m_iMaxPosOff b - 1)\<rparr>) }"

partial_function (option) releaseNextFillerEntries :: "rcv_buffer \<Rightarrow> rcv_buffer option" where
  "releaseNextFillerEntries b =
     Option.bind (rd (m_entries b) (m_iStartPos b)) (\<lambda>e.
       if status e = EntryState_Read \<or> status e = EntryState_Drop
       then Option.bind (release_step b) releaseNextFillerEntries
       else Some b)"

text \<open>The destructor gives all units back.\<close>

definition destroy :: "rcv_buffer \<Rightarrow> unit_queue" where
  "destroy b = fold (\<lambda>e q. case pUnit e of None \<Rightarrow> q | Some u \<Rightarrow> makeUnitFree q u) (m_entries b) (m_pUnitQueue b)"

section \<open>The first position that cannot be read\<close>

partial_function (option) nonread_scan :: "rcv_buffer \<Rightarrow> int \<Rightarrow> int \<Rightarrow> int \<Rightarrow> rcv_buffer option" where
  "nonread_scan b pos end_pos i =
     (if i = end_pos then Some b
      else Option.bind (rd (m_entries b) i) (\<lambda>ei.
        Option.bind (rd (m_entries b) pos) (\<lambda>ep.
          case pUnit ei of
            None \<Rightarrow> Some b
          | Some u \<Rightarrow>
              if status ep \<noteq> EntryState_Avail then Some b
              else if \<not> m_bMessageAPI b \<or> u_last u then Some (b\<lparr>m_iFirstNonreadPos := incPos b i 1\<rparr>)
              else nonread_scan b pos end_pos (incPos b i 1))))"

partial_function (option) nonread_loop :: "rcv_buffer \<Rightarrow> int \<Rightarrow> int \<Rightarrow> rcv_buffer option" where
  "nonread_loop b end_pos pos =
     Option.bind (rd (m_entries b) pos) (\<lambda>e.
       case pUnit e of
         None \<Rightarrow> Some b
       | Some u \<Rightarrow>
           if status e \<noteq> EntryState_Avail then Some b
           else if m_bMessageAPI b \<and> \<not> u_first u then Some b
           else Option.bind (nonread_scan b pos end_pos pos) (\<lambda>b1.
                  if pos = m_iFirstNonreadPos b1 then Some b1
                  else Option.bind (rd (m_entries b1) (m_iFirstNonreadPos b1)) (\<lambda>en.
                    if pUnit en = None then Some b1
                    else nonread_loop b1 end_pos (m_iFirstNonreadPos b1))))"

definition updateNonreadPos :: "rcv_buffer \<Rightarrow> rcv_buffer option" where
  "updateNonreadPos b =
     (if m_iMaxPosOff b = 0 then Some b
      else nonread_loop b (incPos b (m_iStartPos b) (m_iMaxPosOff b)) (m_iFirstNonreadPos b))"

section \<open>Messages out of order\<close>

partial_function (option) scan_right :: "rcv_buffer \<Rightarrow> int \<Rightarrow> int \<Rightarrow> int \<Rightarrow> int option" where
  "scan_right b msgNo lastPos pos0 =
     (let pos = incPos b pos0 1 in
      Option.bind (rd (m_entries b) pos) (\<lambda>e.
        case pUnit e of
          None \<Rightarrow> Some (-1)
        | Some u \<Rightarrow>
            if u_msgno (m_bPeerRexmitFlag b) u \<noteq> msgNo then Some (-1)
            else if u_last u then Some pos
            else if pos \<noteq> lastPos then scan_right b msgNo lastPos pos
            else Some (-1)))"

definition scanNotInOrderMessageRight :: "rcv_buffer \<Rightarrow> int \<Rightarrow> int \<Rightarrow> int option" where
  "scanNotInOrderMessageRight b startPos msgNo =
     (let lastPos = (m_iStartPos b + m_iMaxPosOff b - 1) mod m_szSize b
      in if startPos = lastPos then Some (-1) else scan_right b msgNo lastPos startPos)"

partial_function (option) scan_left :: "rcv_buffer \<Rightarrow> int \<Rightarrow> int \<Rightarrow> int option" where
  "scan_left b msgNo pos0 =
     (let pos = decPos b pos0 in
      Option.bind (rd (m_entries b) pos) (\<lambda>e.
        case pUnit e of
          None \<Rightarrow> Some (-1)
        | Some u \<Rightarrow>
            if u_msgno (m_bPeerRexmitFlag b) u \<noteq> msgNo then Some (-1)
            else if u_first u then Some pos
            else if pos \<noteq> m_iStartPos b then scan_left b msgNo pos
            else Some (-1)))"

definition scanNotInOrderMessageLeft :: "rcv_buffer \<Rightarrow> int \<Rightarrow> int \<Rightarrow> int option" where
  "scanNotInOrderMessageLeft b startPos msgNo =
     (if startPos = m_iStartPos b then Some (-1) else scan_left b msgNo startPos)"

definition onInsertNotInOrderPacket :: "rcv_buffer \<Rightarrow> int \<Rightarrow> rcv_buffer option" where
  "onInsertNotInOrderPacket b insertPos =
     (if m_numOutOfOrderPackets b = 0 then Some b
      else if m_iFirstReadableOutOfOrder b \<ge> 0 then Some b
      else do {
        pkt \<leftarrow> packetAt b insertPos;
        let msgNo = u_msgno (m_bPeerRexmitFlag b) pkt;
        hasLast \<leftarrow> (if u_last pkt then Some True
                    else do { r \<leftarrow> scanNotInOrderMessageRight b insertPos msgNo; Some (-1 < r) });
        if \<not> hasLast then Some b
        else do {
          firstPktPos \<leftarrow> (if u_first pkt then Some insertPos else scanNotInOrderMessageLeft b insertPos msgNo);
          if firstPktPos < 0 then Some b
          else Some (b\<lparr>m_iFirstReadableOutOfOrder := firstPktPos\<rparr>) } })"

partial_function (option) check_ooo :: "rcv_buffer \<Rightarrow> int \<Rightarrow> int \<Rightarrow> int \<Rightarrow> bool option" where
  "check_ooo b endPos msgno pos =
     (if pos = endPos then Some False
      else Option.bind (rd (m_entries b) pos) (\<lambda>e.
        case pUnit e of
          None \<Rightarrow> Some False
        | Some u \<Rightarrow>
            if u_order u then Some False
            else if msgno \<noteq> -1 \<and> msgno \<noteq> u_msgno (m_bPeerRexmitFlag b) u then Some False
            else if u_last u then Some True
            else check_ooo b endPos (if msgno = -1 then u_msgno (m_bPeerRexmitFlag b) u else msgno) (incPos b pos 1)))"

definition checkFirstReadableOutOfOrder :: "rcv_buffer \<Rightarrow> bool option" where
  "checkFirstReadableOutOfOrder b =
     (if m_numOutOfOrderPackets b \<le> 0 \<or> m_iFirstReadableOutOfOrder b < 0 \<or> m_iMaxPosOff b = 0 then Some False
      else check_ooo b (incPos b (m_iStartPos b) (m_iMaxPosOff b)) (-1) (m_iFirstReadableOutOfOrder b))"

partial_function (option) find_ooo ::
  "rcv_buffer \<Rightarrow> int \<Rightarrow> int \<Rightarrow> int \<Rightarrow> int \<Rightarrow> int \<Rightarrow> rcv_buffer option" where
  "find_ooo b lastPos remain posFirst msgNo pos =
     (if remain = 0 then Some b
      else Option.bind (rd (m_entries b) pos) (\<lambda>e.
        case pUnit e of
          None \<Rightarrow> find_ooo b lastPos remain (-1) (-1) (incPos b pos 1)
        | Some u \<Rightarrow>
            if u_order u then find_ooo b lastPos remain (-1) (-1) (incPos b pos 1)
            else let posFirst' = (if u_first u then pos else posFirst);
                     msgNo' = (if u_first u then u_msgno (m_bPeerRexmitFlag b) u else msgNo)
                 in if u_msgno (m_bPeerRexmitFlag b) u \<noteq> msgNo'
                    then find_ooo b lastPos (remain - 1) (-1) (-1) (incPos b pos 1)
                    else if u_last u then Some (b\<lparr>m_iFirstReadableOutOfOrder := posFirst'\<rparr>)
                    else if pos = lastPos then Some b
                    else find_ooo b lastPos (remain - 1) posFirst' msgNo' (incPos b pos 1)))"

definition updateFirstReadableOutOfOrder :: "rcv_buffer \<Rightarrow> rcv_buffer option" where
  "updateFirstReadableOutOfOrder b =
     (if hasReadableInorderPkts b \<or> m_numOutOfOrderPackets b \<le> 0 \<or> m_iFirstReadableOutOfOrder b \<ge> 0 then Some b
      else if m_iMaxPosOff b = 0 then Some b
      else find_ooo b ((m_iStartPos b + m_iMaxPosOff b - 1) mod m_szSize b) (m_numOutOfOrderPackets b) (-1) (-1)
             (m_iStartPos b))"

section \<open>Inserting\<close>

definition rb_insert :: "rcv_buffer \<Rightarrow> cunit \<Rightarrow> (int \<times> rcv_buffer) option" where
  "rb_insert b u =
     (let offset = seqoff (m_iStartSeqNo b) (u_seqno u)
      in if offset < 0 then Some (-2, b)
         else if offset \<ge> capacity b then Some (-3, b)
         else do {
           let pos = (m_iStartPos b + offset) mod m_szSize b;
           let b1 = (if offset \<ge> m_iMaxPosOff b then b\<lparr>m_iMaxPosOff := offset + 1\<rparr> else b);
           e \<leftarrow> rd (m_entries b1) pos;
           if status e \<noteq> EntryState_Empty then Some (-1, b1)
           else do {
             es \<leftarrow> wr (m_entries b1) pos \<lparr>pUnit = Some u, status = EntryState_Avail\<rparr>;
             let b2 = b1\<lparr>m_pUnitQueue := makeUnitTaken (m_pUnitQueue b1) u, m_entries := es\<rparr>;
             let b3 = countBytes b2 1 (int (length (u_data u)));
             b4 \<leftarrow> (if \<not> tsbpd_enabled b3 \<and> m_bMessageAPI b3 \<and> \<not> u_order u
                    then onInsertNotInOrderPacket
                           (b3\<lparr>m_numOutOfOrderPackets := m_numOutOfOrderPackets b3 + 1\<rparr>) pos
                    else Some b3);
             b5 \<leftarrow> updateNonreadPos b4;
             Some (0, b5) } })"

section \<open>Dropping\<close>

text \<open>One round of the loop of \<^verbatim>\<open>dropUpTo\<close>; the pair counts missing and discarded packets.\<close>

definition drop_step :: "int \<times> int \<Rightarrow> rcv_buffer \<Rightarrow> ((int \<times> int) \<times> rcv_buffer) option" where
  "drop_step cnt b =
     do { e \<leftarrow> rd (m_entries b) (m_iStartPos b);
          let cnt' = (if status e = EntryState_Avail then (fst cnt, snd cnt + 1)
                      else if status e = EntryState_Empty then (fst cnt + 1, snd cnt) else cnt);
          (_, b1) \<leftarrow> dropUnitInPos b (m_iStartPos b);
          b2 \<leftarrow> setStatus b1 (m_iStartPos b) EntryState_Empty;
          Some (cnt', b2\<lparr>m_iStartPos := incPos b2 (m_iStartPos b) 1\<rparr>) }"

fun drop_loop :: "nat \<Rightarrow> int \<times> int \<Rightarrow> rcv_buffer \<Rightarrow> ((int \<times> int) \<times> rcv_buffer) option" where
  "drop_loop 0 cnt b = Some (cnt, b)"
| "drop_loop (Suc len) cnt b = do { (cnt', b') \<leftarrow> drop_step cnt b; drop_loop len cnt' b' }"

definition dropUpTo :: "rcv_buffer \<Rightarrow> int \<Rightarrow> ((int \<times> int) \<times> rcv_buffer) option" where
  "dropUpTo b seqno =
     (let len = seqoff (m_iStartSeqNo b) seqno
      in if len \<le> 0 then Some ((0, 0), b)
         else do {
           let b1 = b\<lparr>m_iMaxPosOff := (if m_iMaxPosOff b - len < 0 then 0 else m_iMaxPosOff b - len)\<rparr>;
           (cnt, b2) \<leftarrow> drop_loop (nat len) (0, 0) b1;
           b3 \<leftarrow> releaseNextFillerEntries (b2\<lparr>m_iStartSeqNo := seqno\<rparr>);
           b4 \<leftarrow> (if \<not> isInRange (m_iStartPos b3) (m_iMaxPosOff b3) (m_szSize b3) (m_iFirstNonreadPos b3)
                  then updateNonreadPos (b3\<lparr>m_iFirstNonreadPos := m_iStartPos b3\<rparr>) else Some b3);
           b5 \<leftarrow> (if \<not> tsbpd_enabled b4 \<and> m_bMessageAPI b4 then updateFirstReadableOutOfOrder b4 else Some b4);
           Some (cnt, b5) })"

definition dropAll :: "rcv_buffer \<Rightarrow> (int \<times> rcv_buffer) option" where
  "dropAll b =
     (if rb_empty b then Some (0, b)
      else do { (cnt, b1) \<leftarrow> dropUpTo b (incseq_by (m_iStartSeqNo b) (m_iMaxPosOff b));
                Some (fst cnt + snd cnt, b1) })"

definition getRcvDataSize :: "rcv_buffer \<Rightarrow> int" where
  "getRcvDataSize b =
     (if m_iFirstNonreadPos b \<ge> m_iStartPos b then m_iFirstNonreadPos b - m_iStartPos b
      else m_szSize b + m_iFirstNonreadPos b - m_iStartPos b)"

datatype DropActionIfExists = DROP_EXISTING | KEEP_EXISTING

definition SRT_MSGNO_CONTROL :: int where "SRT_MSGNO_CONTROL = 0"

text \<open>
  The two loops of \<^verbatim>\<open>dropMessage\<close>. The state is the buffer, \<^verbatim>\<open>bDropByMsgNo\<close>, \<^verbatim>\<open>iDropCnt\<close> and
  \<^verbatim>\<open>minDroppedOffset\<close>.
\<close>

definition drop_entry :: "rcv_buffer \<Rightarrow> int \<Rightarrow> rcv_buffer option" where
  "drop_entry b i = do { (_, b1) \<leftarrow> dropUnitInPos b i; setStatus b1 i EntryState_Drop }"

definition dm_range_step ::
  "bool \<Rightarrow> int \<Rightarrow> rcv_buffer \<times> bool \<times> int \<times> int \<Rightarrow> (rcv_buffer \<times> bool \<times> int \<times> int) option" where
  "dm_range_step bKeepExisting i st =
     (case st of (b, bDropByMsgNo, iDropCnt, minDroppedOffset) \<Rightarrow>
       do { e \<leftarrow> rd (m_entries b) i;
            if status e = EntryState_Drop then Some st
            else if (case pUnit e of None \<Rightarrow> False
                     | Some u \<Rightarrow> bKeepExisting \<and> getMsgBoundary (u_hdr u) = boundary_code PB_SOLO)
            then Some (b, False, iDropCnt, minDroppedOffset)
            else do {
              let byMsg = (case pUnit e of
                  None \<Rightarrow> bDropByMsgNo
                | Some u \<Rightarrow> if getMsgBoundary (u_hdr u) = boundary_code PB_FIRST then False else bDropByMsgNo);
              b1 \<leftarrow> drop_entry b i;
              Some (b1, byMsg, iDropCnt + 1,
                    if minDroppedOffset = -1 then offPos b1 (m_iStartPos b1) i else minDroppedOffset) } })"

partial_function (option) dm_range_loop ::
  "bool \<Rightarrow> int \<Rightarrow> int \<Rightarrow> rcv_buffer \<times> bool \<times> int \<times> int \<Rightarrow> (rcv_buffer \<times> bool \<times> int \<times> int) option" where
  "dm_range_loop bKeepExisting end_pos i st =
     (if i = end_pos then Some st
      else Option.bind (dm_range_step bKeepExisting i st) (\<lambda>st'.
             dm_range_loop bKeepExisting end_pos (incPos (fst st') i 1) st'))"

partial_function (option) dm_msgno_loop ::
  "bool \<Rightarrow> int \<Rightarrow> int \<Rightarrow> int \<Rightarrow> rcv_buffer \<times> int \<times> int \<Rightarrow> (rcv_buffer \<times> int \<times> int) option" where
  "dm_msgno_loop bKeepExisting msgno stop_pos i st =
     (if i = stop_pos then Some st
      else Option.bind (rd (m_entries (fst st)) i) (\<lambda>e.
        case pUnit e of
          None \<Rightarrow> dm_msgno_loop bKeepExisting msgno stop_pos (decPos (fst st) i) st
        | Some u \<Rightarrow>
            if u_msgno (m_bPeerRexmitFlag (fst st)) u \<noteq> msgno then Some st
            else if bKeepExisting \<and> getMsgBoundary (u_hdr u) = boundary_code PB_SOLO then Some st
            else Option.bind (drop_entry (fst st) i) (\<lambda>b1.
                   let st' = (b1, fst (snd st) + 1, offPos b1 (m_iStartPos b1) i)
                   in if getMsgBoundary (u_hdr u) = boundary_code PB_FIRST then Some st'
                      else dm_msgno_loop bKeepExisting msgno stop_pos (decPos b1 i) st')))"

definition dropMessage ::
  "rcv_buffer \<Rightarrow> int \<Rightarrow> int \<Rightarrow> int \<Rightarrow> DropActionIfExists \<Rightarrow> (int \<times> rcv_buffer) option" where
  "dropMessage b seqnolo seqnohi msgno actionOnExisting =
     (let offset_a = seqoff (m_iStartSeqNo b) seqnolo;
          offset_b = seqoff (m_iStartSeqNo b) seqnohi
      in if offset_b < 0 \<or> offset_a \<ge> m_szSize b then Some (0, b)
         else do {
           let bKeepExisting = (actionOnExisting = KEEP_EXISTING);
           let start_off = max 0 offset_a;
           let start_pos = incPos b (m_iStartPos b) start_off;
           let end_off = min (m_szSize b - 1) (offset_b + 1);
           let end_pos = incPos b (m_iStartPos b) end_off;
           (b1, byMsg, cnt1, min1) \<leftarrow>
             dm_range_loop bKeepExisting end_pos start_pos (b, msgno > SRT_MSGNO_CONTROL, 0, -1);
           (b2, cnt2, min2) \<leftarrow>
             (if byMsg then dm_msgno_loop bKeepExisting msgno (decPos b1 (m_iStartPos b1)) start_pos (b1, cnt1, min1)
              else Some (b1, cnt1, min1));
           let needUpdateNonreadPos = (min2 \<noteq> -1 \<and> min2 \<le> getRcvDataSize b2);
           b3 \<leftarrow> releaseNextFillerEntries b2;
           b4 \<leftarrow> (if needUpdateNonreadPos then updateNonreadPos (b3\<lparr>m_iFirstNonreadPos := m_iStartPos b3\<rparr>) else Some b3);
           b5 \<leftarrow> (if \<not> tsbpd_enabled b4 \<and> m_bMessageAPI b4
                  then do { ok \<leftarrow> checkFirstReadableOutOfOrder b4;
                            updateFirstReadableOutOfOrder
                              (if \<not> ok then b4\<lparr>m_iFirstReadableOutOfOrder := -1\<rparr> else b4) }
                  else Some b4);
           Some (cnt2, b5) })"

section \<open>Reading\<close>

record msgctrl =
  mc_msgno :: int
  mc_srctime :: int
  mc_pktseq :: int

text \<open>What one packet does to the control structure of the caller and to the buffer.\<close>

definition rm_ctrl :: "rcv_buffer \<Rightarrow> cunit \<Rightarrow> msgctrl \<Rightarrow> msgctrl" where
  "rm_ctrl b u mc =
     (let mc1 = (if u_first u then mc\<lparr>mc_msgno := u_msgno (m_bPeerRexmitFlag b) u\<rparr> else mc);
          mc2 = (if u_last u then mc1\<lparr>mc_srctime := getPktTsbPdTime b (getMsgTimeStamp (u_hdr u))\<rparr> else mc1)
      in mc2\<lparr>mc_pktseq := u_seqno u\<rparr>)"

definition rm_take :: "rcv_buffer \<Rightarrow> cunit \<Rightarrow> rcv_buffer" where
  "rm_take b u =
     (let b1 = (if tsbpd_enabled b then updateTsbPdTimeBase b (getMsgTimeStamp (u_hdr u)) else b)
      in if m_numOutOfOrderPackets b1 \<noteq> 0 \<and> \<not> u_order u
         then b1\<lparr>m_numOutOfOrderPackets := m_numOutOfOrderPackets b1 - 1\<rparr> else b1)"

definition rm_leave :: "rcv_buffer \<Rightarrow> bool \<Rightarrow> int \<Rightarrow> cunit \<Rightarrow> rcv_buffer option" where
  "rm_leave b updateStartPos i u =
     do { b1 \<leftarrow> releaseUnitInPos b i;
          if updateStartPos
          then Some (b1\<lparr>m_iStartPos := incPos b1 i 1, m_iMaxPosOff := m_iMaxPosOff b1 - 1,
                        m_iStartSeqNo := incseq (u_seqno u)\<rparr>)
          else setStatus b1 i EntryState_Read }"

partial_function (option) rm_loop ::
  "int \<Rightarrow> bool \<Rightarrow> nat \<Rightarrow> int \<Rightarrow> rcv_buffer \<times> msgctrl option \<times> byte list \<times> int \<times> int
     \<Rightarrow> (rcv_buffer \<times> msgctrl option \<times> byte list \<times> int \<times> int) option" where
  "rm_loop readPos updateStartPos remain i st =
     (case st of (b, mc, dst, pkts_read, bytes_extracted) \<Rightarrow>
        Option.bind (rd (m_entries b) i) (\<lambda>e.
          case pUnit e of
            None \<Rightarrow> Some st
          | Some u \<Rightarrow>
              let unitsize = min remain (length (u_data u));
                  b1 = rm_take b u;
                  mc1 = map_option (rm_ctrl b1 u) mc
              in Option.bind (rm_leave b1 updateStartPos i u) (\<lambda>b2.
                   if u_last u
                   then Some (if readPos = m_iFirstReadableOutOfOrder b2 then b2\<lparr>m_iFirstReadableOutOfOrder := -1\<rparr> else b2,
                              mc1, dst @ take unitsize (u_data u), pkts_read + 1, bytes_extracted + int (length (u_data u)))
                   else rm_loop readPos updateStartPos (remain - unitsize) (incPos b2 i 1)
                          (b2, mc1, dst @ take unitsize (u_data u), pkts_read + 1,
                           bytes_extracted + int (length (u_data u))))))"

definition readMessage ::
  "rcv_buffer \<Rightarrow> nat \<Rightarrow> msgctrl option \<Rightarrow> (int \<times> byte list \<times> msgctrl option \<times> rcv_buffer) option" where
  "readMessage b len mc =
     (let canReadInOrder = hasReadableInorderPkts b
      in if \<not> canReadInOrder \<and> m_iFirstReadableOutOfOrder b < 0 then Some (0, [], mc, b)
         else do {
           let readPos = (if canReadInOrder then m_iStartPos b else m_iFirstReadableOutOfOrder b);
           (b1, mc1, dst, pkts_read, bytes_extracted) \<leftarrow>
             rm_loop readPos (readPos = m_iStartPos b) len readPos (b, mc, [], 0, 0);
           b2 \<leftarrow> releaseNextFillerEntries (countBytes b1 (- pkts_read) (- bytes_extracted));
           let b3 = (if \<not> isInRange (m_iStartPos b2) (m_iMaxPosOff b2) (m_szSize b2) (m_iFirstNonreadPos b2)
                     then b2\<lparr>m_iFirstNonreadPos := m_iStartPos b2\<rparr> else b2);
           b4 \<leftarrow> (if \<not> tsbpd_enabled b3 then updateFirstReadableOutOfOrder b3 else Some b3);
           Some (int (length dst), dst, mc1, b4) })"

text \<open>
  Reading as a byte stream. \<open>cpy\<close> stands for the callback \<^verbatim>\<open>funcCopyToDst\<close> on its argument;
  calling it with a negative length is undefined.
\<close>

definition rbt_consume :: "rcv_buffer \<Rightarrow> int \<Rightarrow> int \<Rightarrow> int \<Rightarrow> rcv_buffer option" where
  "rbt_consume b p rs remain_pktlen =
     (if rs \<ge> remain_pktlen
      then do { b1 \<leftarrow> releaseUnitInPos b p;
                Some (b1\<lparr>m_iNotch := 0, m_iStartPos := incPos b1 p 1, m_iMaxPosOff := m_iMaxPosOff b1 - 1,
                         m_iStartSeqNo := incseq (m_iStartSeqNo b1)\<rparr>) }
      else Some (b\<lparr>m_iNotch := m_iNotch b + rs\<rparr>))"

partial_function (option) rbt_loop ::
  "(byte list \<Rightarrow> int \<Rightarrow> 's \<Rightarrow> bool \<times> 's) \<Rightarrow> int \<Rightarrow> int \<Rightarrow> int \<Rightarrow> int \<Rightarrow> rcv_buffer \<Rightarrow> 's
     \<Rightarrow> (bool \<times> int \<times> rcv_buffer \<times> 's) option" where
  "rbt_loop cpy now len end_pos rs b arg =
     (let p = m_iStartPos b in
      if p \<noteq> end_pos \<and> rs > 0
      then Option.bind (rd (m_entries b) p) (\<lambda>e.
        case pUnit e of
          None \<Rightarrow> Some (False, rs, b, arg)
        | Some u \<Rightarrow>
            if tsbpd_enabled b \<and> getPktTsbPdTime b (getMsgTimeStamp (u_hdr u)) > now then Some (True, rs, b, arg)
            else let remain_pktlen = int (length (u_data u)) - m_iNotch b;
                     unitsize = min remain_pktlen rs;
                     r = cpy (take (nat unitsize) (drop (nat (m_iNotch b)) (u_data u))) (len - rs) arg
                 in if unitsize < 0 then None
                    else if \<not> fst r then Some (True, rs, b, snd r)
                    else Option.bind (rbt_consume b p rs remain_pktlen) (\<lambda>b1.
                           rbt_loop cpy now len end_pos (rs - unitsize) b1 (snd r)))
      else Some (True, rs, b, arg))"

definition readBufferTo ::
  "(byte list \<Rightarrow> int \<Rightarrow> 's \<Rightarrow> bool \<times> 's) \<Rightarrow> int \<Rightarrow> rcv_buffer \<Rightarrow> int \<Rightarrow> 's \<Rightarrow> (int \<times> rcv_buffer \<times> 's) option" where
  "readBufferTo cpy now b len arg =
     do { (ok, rs, b1, arg1) \<leftarrow> rbt_loop cpy now len (m_iFirstNonreadPos b) len b arg;
          if \<not> ok then Some (-1, b1, arg1)
          else let iBytesRead = len - rs;
                   b2 = countBytes b1 (-1) (- iBytesRead);
                   b3 = (if \<not> isInRange (m_iStartPos b2) (m_iMaxPosOff b2) (m_szSize b2) (m_iFirstNonreadPos b2)
                         then b2\<lparr>m_iFirstNonreadPos := m_iStartPos b2\<rparr> else b2)
               in Some (iBytesRead, b3, arg1) }"

definition copyBytesToBuf :: "byte list \<Rightarrow> int \<Rightarrow> byte list \<Rightarrow> bool \<times> byte list" where
  "copyBytesToBuf dat dst_offset dst =
     (True, take (nat dst_offset) dst @ dat @ drop (nat dst_offset + length dat) dst)"

definition readBuffer :: "int \<Rightarrow> rcv_buffer \<Rightarrow> byte list \<Rightarrow> int \<Rightarrow> (int \<times> rcv_buffer \<times> byte list) option" where
  "readBuffer now b dst len = readBufferTo copyBytesToBuf now b len dst"

text \<open>The file stream is a parameter: \<open>write\<close> writes bytes and tells whether the stream is still good.\<close>

definition writeBytesToFile :: "(byte list \<Rightarrow> 's \<Rightarrow> bool \<times> 's) \<Rightarrow> byte list \<Rightarrow> int \<Rightarrow> 's \<Rightarrow> bool \<times> 's" where
  "writeBytesToFile write dat dst_offset ofs = write dat ofs"

definition readBufferToFile ::
  "(byte list \<Rightarrow> 's \<Rightarrow> bool \<times> 's) \<Rightarrow> int \<Rightarrow> rcv_buffer \<Rightarrow> 's \<Rightarrow> int \<Rightarrow> (int \<times> rcv_buffer \<times> 's) option" where
  "readBufferToFile write now b ofs len = readBufferTo (writeBytesToFile write) now b len ofs"

section \<open>Queries\<close>

definition hasAvailablePackets :: "rcv_buffer \<Rightarrow> bool" where
  "hasAvailablePackets b \<longleftrightarrow>
     hasReadableInorderPkts b \<or> (m_numOutOfOrderPackets b > 0 \<and> m_iFirstReadableOutOfOrder b \<noteq> -1)"

definition countReadable :: "rcv_buffer \<Rightarrow> int" where
  "countReadable b =
     (if m_iFirstNonreadPos b \<ge> m_iStartPos b then m_iFirstNonreadPos b - m_iStartPos b
      else m_szSize b + m_iFirstNonreadPos b - m_iStartPos b)"

definition getAvailablePacketsRange :: "rcv_buffer \<Rightarrow> int \<times> int" where
  "getAvailablePacketsRange b = (m_iStartSeqNo b, incseq_by (m_iStartSeqNo b) (countReadable b))"

definition getFirstNonreadSeqNo :: "rcv_buffer \<Rightarrow> int" where
  "getFirstNonreadSeqNo b =
     incseq_by (m_iStartSeqNo b) (offPos b (m_iStartPos b) (m_iFirstNonreadPos b))"

definition getAvailSize :: "rcv_buffer \<Rightarrow> int \<Rightarrow> int" where
  "getAvailSize b iFirstUnackSeqNo =
     (if seqcmp (m_iStartSeqNo b) iFirstUnackSeqNo \<ge> 0 then capacity b
      else (capacity b - seqlen (m_iStartSeqNo b) iFirstUnackSeqNo + 1) mod 2 ^ 64)"

record packet_info =
  pi_seqno :: int
  pi_seq_gap :: bool
  pi_tsbpd_time :: int

definition no_packet_info :: packet_info where
  "no_packet_info = \<lparr>pi_seqno = -1, pi_seq_gap = False, pi_tsbpd_time = 0\<rparr>"

partial_function (option) first_valid :: "rcv_buffer \<Rightarrow> int \<Rightarrow> int \<Rightarrow> packet_info option" where
  "first_valid b end_pos i =
     (if i = end_pos then Some no_packet_info
      else Option.bind (rd (m_entries b) i) (\<lambda>e.
        case pUnit e of
          None \<Rightarrow> first_valid b end_pos (incPos b i 1)
        | Some u \<Rightarrow> Some \<lparr>pi_seqno = u_seqno u, pi_seq_gap = (i \<noteq> m_iStartPos b),
                          pi_tsbpd_time = getPktTsbPdTime b (getMsgTimeStamp (u_hdr u))\<rparr>))"

definition getFirstValidPacketInfo :: "rcv_buffer \<Rightarrow> packet_info option" where
  "getFirstValidPacketInfo b = first_valid b (incPos b (m_iStartPos b) (m_iMaxPosOff b)) (m_iStartPos b)"

definition isRcvDataReady :: "rcv_buffer \<Rightarrow> int \<Rightarrow> bool option" where
  "isRcvDataReady b time_now =
     (let haveInorderPackets = hasReadableInorderPkts b
      in if \<not> tsbpd_enabled b
         then Some (haveInorderPackets \<or> (m_numOutOfOrderPackets b > 0 \<and> m_iFirstReadableOutOfOrder b \<noteq> -1))
         else if \<not> haveInorderPackets then Some False
         else do { info \<leftarrow> getFirstValidPacketInfo b; Some (pi_tsbpd_time info \<le> time_now) })"

definition getFirstReadablePacketInfo :: "rcv_buffer \<Rightarrow> int \<Rightarrow> packet_info option" where
  "getFirstReadablePacketInfo b time_now =
     (if \<not> tsbpd_enabled b
      then if hasReadableInorderPkts b
           then do { u \<leftarrow> packetAt b (m_iStartPos b);
                     Some \<lparr>pi_seqno = u_seqno u, pi_seq_gap = False, pi_tsbpd_time = 0\<rparr> }
           else if m_iFirstReadableOutOfOrder b \<ge> 0
           then do { u \<leftarrow> packetAt b (m_iFirstReadableOutOfOrder b);
                     Some \<lparr>pi_seqno = u_seqno u, pi_seq_gap = True, pi_tsbpd_time = 0\<rparr> }
           else Some no_packet_info
      else if \<not> hasReadableInorderPkts b then Some no_packet_info
      else do { info \<leftarrow> getFirstValidPacketInfo b;
                Some (if pi_tsbpd_time info \<le> time_now then info else no_packet_info) })"

partial_function (option) ts_last :: "rcv_buffer \<Rightarrow> int \<Rightarrow> int option" where
  "ts_last b lastpos =
     Option.bind (rd (m_entries b) lastpos) (\<lambda>e.
       if pUnit e = None \<and> lastpos \<noteq> m_iStartPos b then ts_last b (decPos b lastpos) else Some lastpos)"

partial_function (option) ts_first :: "rcv_buffer \<Rightarrow> int \<Rightarrow> int \<Rightarrow> int option" where
  "ts_first b lastpos startpos =
     Option.bind (rd (m_entries b) startpos) (\<lambda>e.
       if pUnit e = None \<and> startpos \<noteq> lastpos then ts_first b lastpos (incPos b startpos 1) else Some startpos)"

definition getTimespan_ms :: "rcv_buffer \<Rightarrow> int option" where
  "getTimespan_ms b =
     (if \<not> tsbpd_enabled b then Some 0
      else if m_iMaxPosOff b = 0 then Some 0
      else do {
        lastpos \<leftarrow> ts_last b (incPos b (m_iStartPos b) (m_iMaxPosOff b - 1));
        el \<leftarrow> rd (m_entries b) lastpos;
        case pUnit el of
          None \<Rightarrow> Some 0
        | Some ul \<Rightarrow> do {
            startpos \<leftarrow> ts_first b lastpos (m_iStartPos b);
            es \<leftarrow> rd (m_entries b) startpos;
            case pUnit es of
              None \<Rightarrow> Some 0
            | Some us \<Rightarrow>
                let startstamp = getPktTsbPdTime b (getMsgTimeStamp (u_hdr us));
                    endstamp = getPktTsbPdTime b (getMsgTimeStamp (u_hdr ul))
                in Some (if endstamp < startstamp then 0 else (endstamp - startstamp) div 1000 + 1) } })"

definition getRcvDataSize_all :: "rcv_buffer \<Rightarrow> (int \<times> int \<times> int) option" where
  "getRcvDataSize_all b = do { timespan \<leftarrow> getTimespan_ms b; Some (m_iPktsCount b, m_iBytesCount b, timespan) }"

partial_function (option) find_last_from :: "rcv_buffer \<Rightarrow> int \<Rightarrow> int option" where
  "find_last_from b i =
     (if i = m_iFirstNonreadPos b then Some (-1)
      else Option.bind (packetAt b i) (\<lambda>u. if u_last u then Some i else find_last_from b (incPos b i 1)))"

definition findLastMessagePkt :: "rcv_buffer \<Rightarrow> int option" where
  "findLastMessagePkt b = find_last_from b (m_iStartPos b)"

section \<open>Time base\<close>

definition addRcvTsbPdDriftSample :: "rcv_buffer \<Rightarrow> 32 word \<Rightarrow> int \<Rightarrow> int \<Rightarrow> bool \<times> rcv_buffer" where
  "addRcvTsbPdDriftSample b usTimestamp tsPktArrival usRTTSample =
     (case addDriftSample (m_tsbpd b) usTimestamp tsPktArrival usRTTSample of (r, t) \<Rightarrow> (r, b\<lparr>m_tsbpd := t\<rparr>))"

definition rb_setTsbPdMode :: "rcv_buffer \<Rightarrow> int \<Rightarrow> bool \<Rightarrow> int \<Rightarrow> rcv_buffer" where
  "rb_setTsbPdMode b timebase wrap delay = b\<lparr>m_tsbpd := setTsbPdMode (m_tsbpd b) timebase wrap delay\<rparr>"

definition rb_applyGroupTime :: "rcv_buffer \<Rightarrow> int \<Rightarrow> bool \<Rightarrow> 32 word \<Rightarrow> int \<Rightarrow> rcv_buffer" where
  "rb_applyGroupTime b timebase wrp delay udrift =
     b\<lparr>m_tsbpd := applyGroupTime (m_tsbpd b) timebase wrp delay udrift\<rparr>"

definition rb_applyGroupDrift :: "rcv_buffer \<Rightarrow> int \<Rightarrow> bool \<Rightarrow> int \<Rightarrow> rcv_buffer" where
  "rb_applyGroupDrift b timebase wrp udrift = b\<lparr>m_tsbpd := applyGroupDrift (m_tsbpd b) timebase wrp udrift\<rparr>"

definition getTsbPdTimeBase :: "rcv_buffer \<Rightarrow> 32 word \<Rightarrow> int" where
  "getTsbPdTimeBase b usPktTimestamp = getBaseTime (m_tsbpd b) usPktTimestamp"

declare releaseNextFillerEntries.simps [code] nonread_scan.simps [code] nonread_loop.simps [code]
  scan_right.simps [code] scan_left.simps [code] check_ooo.simps [code] find_ooo.simps [code]
  dm_range_loop.simps [code] dm_msgno_loop.simps [code] rm_loop.simps [code] rbt_loop.simps [code]
  first_valid.simps [code] ts_last.simps [code] ts_first.simps [code] find_last_from.simps [code]

end
