(* ===== verification/RcvBufferInv.thy ===== *)
theory RcvBufferInv
  imports RcvBuffer
begin

text \<open>
  The invariant of the receiver buffer and the effect of its loops. The ring is looked at as a list from
  the start position on (\<open>view\<close>); every loop over ring positions becomes a statement about that list.
  The invariant says that a cell holds a packet exactly when it is available, that the packet in the
  \<open>k\<close>-th cell has the \<open>k\<close>-th number after the start, that packets lie before the furthest
  position, that the units in the ring are the taken ones, that the out-of-order counter counts them, and
  that everything before the first non-readable position is there.
\<close>

section \<open>The ring as a list\<close>

definition view :: "rcv_buffer \<Rightarrow> entry list" where
  "view b = rotate (nat (m_iStartPos b)) (m_entries b)"

definition posn :: "rcv_buffer \<Rightarrow> nat \<Rightarrow> int" where
  "posn b k = (m_iStartPos b + int k) mod m_szSize b"

definition shape :: "rcv_buffer \<Rightarrow> bool" where
  "shape b \<longleftrightarrow> 2 \<le> m_szSize b \<and> m_szSize b < m_iSeqNoTH \<and> int (length (m_entries b)) = m_szSize b
     \<and> 0 \<le> m_iStartPos b \<and> m_iStartPos b < m_szSize b"

abbreviation sz :: "rcv_buffer \<Rightarrow> nat" where "sz b \<equiv> nat (m_szSize b)"

lemma view_frame [simp]:
  "view (b\<lparr>m_pUnitQueue := q\<rparr>) = view b" "view (b\<lparr>m_iStartSeqNo := i\<rparr>) = view b"
  "view (b\<lparr>m_iFirstNonreadPos := i\<rparr>) = view b" "view (b\<lparr>m_iMaxPosOff := i\<rparr>) = view b"
  "view (b\<lparr>m_iNotch := i\<rparr>) = view b" "view (b\<lparr>m_numOutOfOrderPackets := i\<rparr>) = view b"
  "view (b\<lparr>m_iFirstReadableOutOfOrder := i\<rparr>) = view b" "view (b\<lparr>m_tsbpd := t\<rparr>) = view b"
  "view (b\<lparr>m_iBytesCount := i\<rparr>) = view b" "view (b\<lparr>m_iPktsCount := i\<rparr>) = view b"
  "view (b\<lparr>m_uAvgPayloadSz := w\<rparr>) = view b"
  by (simp_all add: view_def)

lemma posn_frame [simp]:
  "posn (b\<lparr>m_entries := es\<rparr>) k = posn b k"
  "posn (b\<lparr>m_pUnitQueue := q\<rparr>) k = posn b k" "posn (b\<lparr>m_iStartSeqNo := i\<rparr>) k = posn b k"
  "posn (b\<lparr>m_iFirstNonreadPos := i\<rparr>) k = posn b k" "posn (b\<lparr>m_iMaxPosOff := i\<rparr>) k = posn b k"
  "posn (b\<lparr>m_iNotch := i\<rparr>) k = posn b k" "posn (b\<lparr>m_numOutOfOrderPackets := i\<rparr>) k = posn b k"
  "posn (b\<lparr>m_iFirstReadableOutOfOrder := i\<rparr>) k = posn b k" "posn (b\<lparr>m_tsbpd := t\<rparr>) k = posn b k"
  "posn (b\<lparr>m_iBytesCount := i\<rparr>) k = posn b k" "posn (b\<lparr>m_iPktsCount := i\<rparr>) k = posn b k"
  "posn (b\<lparr>m_uAvgPayloadSz := w\<rparr>) k = posn b k"
  by (simp_all add: posn_def)

lemma length_view: "shape b \<Longrightarrow> length (view b) = sz b"
  by (simp add: view_def shape_def) (metis nat_int)

lemma shape_sz: "shape b \<Longrightarrow> 2 \<le> sz b" "shape b \<Longrightarrow> int (sz b) = m_szSize b"
  by (auto simp: shape_def)

lemma posn_bounds: "shape b \<Longrightarrow> 0 \<le> posn b k \<and> posn b k < m_szSize b"
  by (auto simp: posn_def shape_def)

lemma posn_0 [simp]: "shape b \<Longrightarrow> posn b 0 = m_iStartPos b"
  by (simp add: posn_def shape_def)

lemma posn_Suc: "incPos b (posn b k) 1 = posn b (Suc k)"
  by (simp add: incPos_def posn_def mod_add_left_eq mod_add_right_eq ac_simps)

lemma posn_int: "0 \<le> k \<Longrightarrow> incPos b (m_iStartPos b) k = posn b (nat k)"
  by (simp add: incPos_def posn_def)

lemma posn_inj: "shape b \<Longrightarrow> i < sz b \<Longrightarrow> j < sz b \<Longrightarrow> posn b i = posn b j \<longleftrightarrow> i = j"
proof -
  assume "shape b" "i < sz b" "j < sz b"
  then have "\<bar>(m_iStartPos b + int i) - (m_iStartPos b + int j)\<bar> < m_szSize b" by (auto simp: shape_def)
  from mod_eq_iff_small [OF this] show ?thesis by (simp add: posn_def)
qed

lemma posn_cases:
  assumes "shape b" "k < sz b"
  shows "posn b k = (if m_iStartPos b + int k < m_szSize b then m_iStartPos b + int k
                     else m_iStartPos b + int k - m_szSize b)"
  using assms mod_add_small [of "int k" "m_szSize b" "m_iStartPos b"]
  by (simp add: posn_def shape_def)

lemma posn_surj:
  assumes "shape b" "0 \<le> p" "p < m_szSize b"
  obtains k where "k < sz b" "p = posn b k"
proof
  let ?k = "nat (if m_iStartPos b \<le> p then p - m_iStartPos b else p - m_iStartPos b + m_szSize b)"
  show "?k < sz b" using assms by (auto simp: shape_def)
  then show "p = posn b ?k" using assms by (subst posn_cases) (auto simp: shape_def)
qed

lemma offPos_posn: "shape b \<Longrightarrow> k < sz b \<Longrightarrow> offPos b (m_iStartPos b) (posn b k) = int k"
  by (auto simp: posn_cases offPos_def shape_def)

lemma decPos_posn: "shape b \<Longrightarrow> Suc k < sz b \<Longrightarrow> decPos b (posn b (Suc k)) = posn b k"
  by (auto simp: posn_cases decPos_def shape_def)

lemma decPos_start: "shape b \<Longrightarrow> decPos b (m_iStartPos b) = posn b (sz b - 1)"
  by (auto simp: posn_cases decPos_def shape_def)

lemma nat_posn: "shape b \<Longrightarrow> nat (posn b k) = (nat (m_iStartPos b) + k) mod length (m_entries b)"
  by (simp add: posn_def shape_def nat_mod_distrib nat_add_distrib)
    (metis nat_int)

lemma nth_view: "shape b \<Longrightarrow> k < sz b \<Longrightarrow> view b ! k = m_entries b ! nat (posn b k)"
  by (subst nat_posn) (auto simp: view_def nth_rotate shape_def)

lemma rd_posn [arr_simps]: "shape b \<Longrightarrow> k < sz b \<Longrightarrow> rd (m_entries b) (posn b k) = Some (view b ! k)"
  using posn_bounds [of b k] by (simp add: nth_view rd_def shape_def)

lemma view_update:
  assumes "shape b" "k < sz b"
  shows "view (b\<lparr>m_entries := (m_entries b)[nat (posn b k) := e]\<rparr>) = (view b)[k := e]"
proof (rule nth_equalityI)
  have s: "shape (b\<lparr>m_entries := (m_entries b)[nat (posn b k) := e]\<rparr>)" using assms(1) by (simp add: shape_def)
  show l: "length (view (b\<lparr>m_entries := (m_entries b)[nat (posn b k) := e]\<rparr>)) = length ((view b)[k := e])"
    using length_view [OF s] assms by (simp add: length_view)
  fix i
  assume "i < length (view (b\<lparr>m_entries := (m_entries b)[nat (posn b k) := e]\<rparr>))"
  then have i: "i < sz b" using length_view [OF s] by simp
  have "nat (posn b k) = nat (posn b i) \<longleftrightarrow> k = i"
    using posn_inj [OF assms(1,2) i] posn_bounds [OF assms(1), of k] posn_bounds [OF assms(1), of i] by auto
  with i assms posn_bounds [OF assms(1), of k]
  show "view (b\<lparr>m_entries := (m_entries b)[nat (posn b k) := e]\<rparr>) ! i = (view b)[k := e] ! i"
    using nth_view [OF s, of i] by (auto simp: nth_view nth_list_update length_view shape_def)
qed

lemma wr_posn:
  assumes "shape b" "k < sz b"
  obtains es where "wr (m_entries b) (posn b k) e = Some es" "length es = length (m_entries b)"
    "view (b\<lparr>m_entries := es\<rparr>) = (view b)[k := e]"
  using assms posn_bounds [of b k] view_update [OF assms] by (auto simp: wr_def shape_def)

lemma upd_posn:
  assumes "shape b" "k < sz b"
  obtains es where "upd (m_entries b) (posn b k) f = Some es" "length es = length (m_entries b)"
    "view (b\<lparr>m_entries := es\<rparr>) = (view b)[k := f (view b ! k)]"
  using assms posn_bounds [of b k] view_update [OF assms] by (auto simp: upd_def shape_def nth_view)

lemma view_advance: "shape b \<Longrightarrow> view (b\<lparr>m_iStartPos := posn b 1\<rparr>) = rotate1 (view b)"
  using rotate_conv_mod [of "Suc (nat (m_iStartPos b))" "m_entries b"]
  by (simp add: view_def nat_posn)

section \<open>The invariant\<close>

definition filler :: "entry \<Rightarrow> bool" where
  "filler e \<longleftrightarrow> status e = EntryState_Read \<or> status e = EntryState_Drop"

definition unordered :: "entry \<Rightarrow> bool" where
  "unordered e \<longleftrightarrow> (case pUnit e of None \<Rightarrow> False | Some u \<Rightarrow> \<not> u_order u)"

definition cell_ok :: "int \<Rightarrow> int \<Rightarrow> nat \<Rightarrow> entry \<Rightarrow> bool" where
  "cell_ok n0 mx k e \<longleftrightarrow> (status e = EntryState_Avail \<longleftrightarrow> pUnit e \<noteq> None)
     \<and> (\<forall>u. pUnit e = Some u \<longrightarrow> u_seqno u = wrapseq (n0 + int k) \<and> int k < mx)"

definition units_of :: "entry list \<Rightarrow> cunit list" where
  "units_of es = List.map_filter pUnit es"

abbreviation units :: "rcv_buffer \<Rightarrow> cunit list" where "units b \<equiv> units_of (view b)"

text \<open>\<open>T\<close> are the units of the shared queue that others have taken.\<close>

definition taken_ok :: "nat set \<Rightarrow> unit_queue \<Rightarrow> cunit list \<Rightarrow> bool" where
  "taken_ok T q us \<longleftrightarrow> distinct (map u_id us) \<and> u_id ` set us \<inter> T = {}
     \<and> (\<forall>i. m_bTaken q i \<longleftrightarrow> i \<in> T \<union> u_id ` set us) \<and> m_iNumTaken q = int (card T) + int (length us)"

definition ooo_ok :: "rcv_buffer \<Rightarrow> bool" where
  "ooo_ok b \<longleftrightarrow> 0 \<le> m_numOutOfOrderPackets b
     \<and> (\<not> tsbpd_enabled b \<longrightarrow>
         m_numOutOfOrderPackets b = (if m_bMessageAPI b then int (length (filter unordered (view b))) else 0))"

definition ring_ok :: "nat set \<Rightarrow> int \<Rightarrow> int \<Rightarrow> rcv_buffer \<Rightarrow> bool" where
  "ring_ok T n0 mx b \<longleftrightarrow> shape b \<and> (\<forall>k < sz b. cell_ok n0 mx k (view b ! k))
     \<and> view b ! (sz b - 1) = Entry \<and> ooo_ok b
     \<and> -1 \<le> m_iFirstReadableOutOfOrder b \<and> m_iFirstReadableOutOfOrder b < m_szSize b
     \<and> taken_ok T (m_pUnitQueue b) (units b)"

definition rb_core :: "nat set \<Rightarrow> rcv_buffer \<Rightarrow> bool" where
  "rb_core T b \<longleftrightarrow> ring_ok T (m_iStartSeqNo b) (m_iMaxPosOff b) b \<and> valid_seq (m_iStartSeqNo b)
     \<and> 0 \<le> m_iMaxPosOff b \<and> m_iMaxPosOff b < m_szSize b"

lemma Entry_simps [simp]: "pUnit Entry = None" "status Entry = EntryState_Empty" "\<not> filler Entry"
  "\<not> unordered Entry" "cell_ok n0 mx k Entry"
  by (simp_all add: Entry_def filler_def unordered_def cell_ok_def)

lemma entry_eq_iff: "(e :: entry) = e' \<longleftrightarrow> pUnit e = pUnit e' \<and> status e = status e'"
  by auto

lemma units_of_simps [simp]:
  "units_of [] = []" "units_of (e # es) = (case pUnit e of None \<Rightarrow> [] | Some u \<Rightarrow> [u]) @ units_of es"
  "units_of (es @ es') = units_of es @ units_of es'"
  by (simp_all add: units_of_def List.map_filter_def split: option.splits)

lemma units_of_none [simp]: "(\<forall>e \<in> set es. pUnit e = None) \<Longrightarrow> units_of es = []"
  by (induction es) auto

lemma units_of_update:
  assumes "k < length es"
  shows "units_of (es[k := e]) = units_of (take k es) @ units_of [e] @ units_of (drop (Suc k) es)"
  using assms by (simp add: upd_conv_take_nth_drop)

lemma units_of_split:
  assumes "k < length es"
  shows "units_of es = units_of (take k es) @ units_of [es ! k] @ units_of (drop (Suc k) es)"
  using units_of_update [OF assms, of "es ! k"] by simp

lemma filter_update:
  assumes "k < length es"
  shows "int (length (filter P (es[k := e]))) =
    int (length (filter P es)) - (if P (es ! k) then 1 else 0) + (if P e then 1 else 0)"
proof -
  have u: "length (filter P (es[k := x])) = length (filter P (take k es)) + (if P x then 1 else 0)
      + length (filter P (drop (Suc k) es))" for x
    using assms by (simp add: upd_conv_take_nth_drop)
  from u [of e] u [of "es ! k"] show ?thesis by simp
qed

lemma taken_ok_remove:
  assumes "taken_ok T q (xs @ u # ys)"
  shows "taken_ok T (makeUnitFree q u) (xs @ ys)"
  using assms by (auto simp: taken_ok_def makeUnitFree_def)

lemma taken_ok_insert:
  assumes "taken_ok T q (xs @ ys)" "\<not> m_bTaken q (u_id u)"
  shows "taken_ok T (makeUnitTaken q u) (xs @ u # ys)"
  using assms by (auto simp: taken_ok_def makeUnitTaken_def)

lemma ring_okD:
  assumes "ring_ok T n0 mx b"
  shows "shape b" "k < sz b \<Longrightarrow> cell_ok n0 mx k (view b ! k)" "view b ! (sz b - 1) = Entry" "ooo_ok b"
    "taken_ok T (m_pUnitQueue b) (units b)" "length (view b) = sz b"
    "-1 \<le> m_iFirstReadableOutOfOrder b" "m_iFirstReadableOutOfOrder b < m_szSize b"
  using assms length_view by (simp_all add: ring_ok_def)

lemma ring_ok_unit:
  assumes "ring_ok T n0 mx b" "k < sz b" "pUnit (view b ! k) = Some u"
  shows "u_seqno u = wrapseq (n0 + int k)" "int k < mx" "k < sz b - 1" "status (view b ! k) = EntryState_Avail"
proof -
  from ring_okD(2) [OF assms(1,2)] assms(3)
  show "u_seqno u = wrapseq (n0 + int k)" "int k < mx" "status (view b ! k) = EntryState_Avail"
    by (simp_all add: cell_ok_def)
  have "k \<noteq> sz b - 1" using ring_okD(3) [OF assms(1)] assms(3) by auto
  with assms(2) show "k < sz b - 1" by simp
qed

section \<open>Releasing and dropping one cell\<close>

text \<open>What the operations on single cells leave alone.\<close>

definition geo :: "rcv_buffer \<Rightarrow> int \<times> int \<times> int \<times> int \<times> int \<times> bool \<times> bool \<times> bool \<times> int" where
  "geo b = (m_szSize b, m_iStartPos b, m_iStartSeqNo b, m_iFirstNonreadPos b, m_iMaxPosOff b,
     m_bMessageAPI b, m_bPeerRexmitFlag b, tsbpd_enabled b, m_iNotch b)"

lemma geoD:
  assumes "geo b' = geo b"
  shows "m_szSize b' = m_szSize b" "m_iStartPos b' = m_iStartPos b" "m_iStartSeqNo b' = m_iStartSeqNo b"
    "m_iFirstNonreadPos b' = m_iFirstNonreadPos b" "m_iMaxPosOff b' = m_iMaxPosOff b"
    "m_bMessageAPI b' = m_bMessageAPI b" "m_bPeerRexmitFlag b' = m_bPeerRexmitFlag b"
    "tsbpd_enabled b' = tsbpd_enabled b" "m_iNotch b' = m_iNotch b" "posn b' k = posn b k"
  using assms by (simp_all add: geo_def posn_def)

lemma updateBaseTime_mode [simp]: "m_bTsbPdMode (updateBaseTime t ts) = m_bTsbPdMode t"
  by (simp add: updateBaseTime_def)

lemma geo_simps [simp]:
  "geo (b\<lparr>m_entries := es\<rparr>) = geo b" "geo (b\<lparr>m_pUnitQueue := q\<rparr>) = geo b"
  "geo (b\<lparr>m_numOutOfOrderPackets := i\<rparr>) = geo b" "geo (b\<lparr>m_iFirstReadableOutOfOrder := i\<rparr>) = geo b"
  "geo (b\<lparr>m_iBytesCount := i\<rparr>) = geo b" "geo (b\<lparr>m_iPktsCount := i\<rparr>) = geo b"
  "geo (b\<lparr>m_uAvgPayloadSz := w\<rparr>) = geo b" "geo (updateTsbPdTimeBase b ts) = geo b"
  by (simp_all add: geo_def tsbpd_enabled_def updateTsbPdTimeBase_def)

lemma shape_geo: "geo b' = geo b \<Longrightarrow> length (m_entries b') = length (m_entries b) \<Longrightarrow> shape b \<Longrightarrow> shape b'"
  by (simp add: geo_def shape_def)

lemma releaseUnitInPos_posn:
  assumes "shape b" "k < sz b"
  obtains b' where "releaseUnitInPos b (posn b k) = Some b'" "view b' = (view b)[k := Entry]" "geo b' = geo b"
    "shape b'" "m_numOutOfOrderPackets b' = m_numOutOfOrderPackets b"
    "m_iFirstReadableOutOfOrder b' = m_iFirstReadableOutOfOrder b"
    "m_pUnitQueue b' = (case pUnit (view b ! k) of None \<Rightarrow> m_pUnitQueue b | Some u \<Rightarrow> makeUnitFree (m_pUnitQueue b) u)"
    "m_tsbpd b' = m_tsbpd b" "m_iBytesCount b' = m_iBytesCount b" "m_iPktsCount b' = m_iPktsCount b"
proof -
  obtain es where es: "wr (m_entries b) (posn b k) Entry = Some es" "length es = length (m_entries b)"
    "view (b\<lparr>m_entries := es\<rparr>) = (view b)[k := Entry]" by (rule wr_posn [OF assms])
  let ?b = "b\<lparr>m_entries := es, m_pUnitQueue := (case pUnit (view b ! k) of None \<Rightarrow> m_pUnitQueue b
      | Some u \<Rightarrow> makeUnitFree (m_pUnitQueue b) u)\<rparr>"
  have "shape ?b" using assms(1) es(2) by (simp add: shape_def)
  then show ?thesis using es rd_posn [OF assms] by (intro that [of ?b]) (simp_all add: releaseUnitInPos_def)
qed

lemma setStatus_posn:
  assumes "shape b" "k < sz b"
  obtains b' where "setStatus b (posn b k) st = Some b'" "view b' = (view b)[k := (view b ! k)\<lparr>status := st\<rparr>]"
    "b' = b\<lparr>m_entries := m_entries b'\<rparr>" "shape b'"
proof -
  obtain es where es: "upd (m_entries b) (posn b k) (\<lambda>e. e\<lparr>status := st\<rparr>) = Some es"
    "length es = length (m_entries b)" "view (b\<lparr>m_entries := es\<rparr>) = (view b)[k := (view b ! k)\<lparr>status := st\<rparr>]"
    by (rule upd_posn [OF assms])
  have "shape (b\<lparr>m_entries := es\<rparr>)" using assms(1) es(2) by (simp add: shape_def)
  then show ?thesis using es by (intro that [of "b\<lparr>m_entries := es\<rparr>"]) (simp_all add: setStatus_def)
qed

lemma ring_ok_clear:
  assumes r: "ring_ok T n0 mx b" and k: "k < sz b"
    and b': "geo b' = geo b" "shape b'" "view b' = (view b)[k := e]"
    and e: "pUnit e = None" "status e \<noteq> EntryState_Avail" "k = sz b - 1 \<Longrightarrow> e = Entry"
    and q: "m_pUnitQueue b' = (case pUnit (view b ! k) of None \<Rightarrow> m_pUnitQueue b | Some u \<Rightarrow> makeUnitFree (m_pUnitQueue b) u)"
    and num: "0 \<le> m_numOutOfOrderPackets b'" "\<not> tsbpd_enabled b \<Longrightarrow> m_numOutOfOrderPackets b'
      = m_numOutOfOrderPackets b - (if m_bMessageAPI b \<and> unordered (view b ! k) then 1 else 0)"
    and froo: "m_iFirstReadableOutOfOrder b' \<in> {m_iFirstReadableOutOfOrder b, -1}"
  shows "ring_ok T n0 mx b'"
proof -
  note g = geoD [OF b'(1)]
  have l: "k < length (view b)" using ring_okD(6) [OF r] k by simp
  have cells: "\<forall>i < sz b'. cell_ok n0 mx i (view b' ! i)"
    using ring_okD(2) [OF r] e(1,2) l by (auto simp: b' g nth_list_update cell_ok_def)
  have lst: "view b' ! (sz b' - 1) = Entry"
    using ring_okD(3) [OF r] e(3) l by (cases "k = sz b - 1") (auto simp: b' g nth_list_update)
  have "\<not> unordered e" using e(1) by (simp add: unordered_def)
  with num ring_okD(4) [OF r] have "ooo_ok b'"
    by (auto simp: ooo_ok_def g b'(3) filter_update [OF l])
  moreover have "taken_ok T (m_pUnitQueue b') (units b')"
    using ring_okD(5) [OF r] taken_ok_remove [of T "m_pUnitQueue b" "units_of (take k (view b))" _ "units_of (drop (Suc k) (view b))"]
    unfolding b'(3) q units_of_update [OF l] units_of_split [OF l]
    by (auto simp: e(1) split: option.splits)
  ultimately show ?thesis
    using cells lst b'(2) froo ring_okD(7,8) [OF r] shape_sz [OF b'(2)] by (auto simp: ring_ok_def g)
qed

lemma dropUnitInPos_posn:
  assumes r: "ring_ok T n0 mx b" and k: "k < sz b"
  obtains b' where "dropUnitInPos b (posn b k) = Some (pUnit (view b ! k) \<noteq> None, b')"
    "view b' = (view b)[k := (if pUnit (view b ! k) = None then view b ! k else Entry)]"
    "geo b' = geo b" "shape b'" "ring_ok T n0 mx b'" "m_iBytesCount b' = m_iBytesCount b" "m_iPktsCount b' = m_iPktsCount b"
proof (cases "pUnit (view b ! k)")
  case None
  with assms that [of b] ring_okD(1) [OF r] show ?thesis by (simp add: dropUnitInPos_def rd_posn)
next
  case (Some u)
  define c where "c = (if tsbpd_enabled b then updateTsbPdTimeBase b (getMsgTimeStamp (u_hdr u))
     else if m_bMessageAPI b \<and> \<not> u_order u
     then b\<lparr>m_numOutOfOrderPackets := m_numOutOfOrderPackets b - 1,
            m_iFirstReadableOutOfOrder :=
              (if posn b k = m_iFirstReadableOutOfOrder b then -1 else m_iFirstReadableOutOfOrder b)\<rparr>
     else b)"
  have b: "geo c = geo b" "view c = view b" "m_pUnitQueue c = m_pUnitQueue b" "posn c k = posn b k"
    "m_szSize c = m_szSize b" "m_iBytesCount c = m_iBytesCount b" "m_iPktsCount c = m_iPktsCount b"
    "m_iFirstReadableOutOfOrder c \<in> {m_iFirstReadableOutOfOrder b, -1}"
    by (simp_all add: c_def updateTsbPdTimeBase_def geo_def tsbpd_enabled_def)
  have "shape c" using ring_okD(1) [OF r] by (auto simp: c_def updateTsbPdTimeBase_def shape_def)
  moreover have "k < sz c" using k b(5) by simp
  ultimately obtain b' where b': "releaseUnitInPos c (posn c k) = Some b'" "view b' = (view c)[k := Entry]"
    "geo b' = geo c" "shape b'" "m_numOutOfOrderPackets b' = m_numOutOfOrderPackets c"
    "m_iFirstReadableOutOfOrder b' = m_iFirstReadableOutOfOrder c"
    "m_pUnitQueue b' = (case pUnit (view c ! k) of None \<Rightarrow> m_pUnitQueue c | Some u \<Rightarrow> makeUnitFree (m_pUnitQueue c) u)"
    "m_tsbpd b' = m_tsbpd c" "m_iBytesCount b' = m_iBytesCount c" "m_iPktsCount b' = m_iPktsCount c"
    by (rule releaseUnitInPos_posn)
  have u: "unordered (view b ! k) \<longleftrightarrow> \<not> u_order u" using Some by (simp add: unordered_def)
  have "0 < int (length (filter unordered (view b)))" if "\<not> u_order u"
    using that u k ring_okD(6) [OF r] nth_mem [of k "view b"] by (auto simp: filter_empty_conv)
  then have n: "0 \<le> m_numOutOfOrderPackets c" "\<not> tsbpd_enabled b \<Longrightarrow> m_numOutOfOrderPackets c
      = m_numOutOfOrderPackets b - (if m_bMessageAPI b \<and> unordered (view b ! k) then 1 else 0)"
    using ring_okD(4) [OF r] by (auto simp: c_def ooo_ok_def updateTsbPdTimeBase_def u)
  have "ring_ok T n0 mx b'"
    by (rule ring_ok_clear [OF r k, where e = Entry]) (use b' b n Some in simp_all)
  moreover have "dropUnitInPos b (posn b k) = Some (True, b')"
    using b'(1) k ring_okD(1) [OF r] Some unfolding b(4) by (simp add: dropUnitInPos_def rd_posn c_def)
  ultimately show ?thesis using that [of b'] b' b Some by simp
qed

lemma setStatus_ring:
  assumes r: "ring_ok T n0 mx b" and k: "k < sz b" and n: "pUnit (view b ! k) = None"
    and st: "st \<noteq> EntryState_Avail" "k = sz b - 1 \<Longrightarrow> st = EntryState_Empty"
  obtains b' where "setStatus b (posn b k) st = Some b'" "view b' = (view b)[k := \<lparr>pUnit = None, status = st\<rparr>]"
    "geo b' = geo b" "shape b'" "ring_ok T n0 mx b'" "b' = b\<lparr>m_entries := m_entries b'\<rparr>"
proof -
  obtain b' where b': "setStatus b (posn b k) st = Some b'" "view b' = (view b)[k := (view b ! k)\<lparr>status := st\<rparr>]"
    "b' = b\<lparr>m_entries := m_entries b'\<rparr>" "shape b'" by (rule setStatus_posn [OF ring_okD(1) [OF r] k])
  have e: "(view b ! k)\<lparr>status := st\<rparr> = \<lparr>pUnit = None, status = st\<rparr>" using n by simp
  have g: "geo b' = geo b" by (subst b'(3)) simp
  have fields: "m_pUnitQueue b' = m_pUnitQueue b" "m_numOutOfOrderPackets b' = m_numOutOfOrderPackets b"
    "m_iFirstReadableOutOfOrder b' = m_iFirstReadableOutOfOrder b" by (subst b'(3), simp)+
  have "ring_ok T n0 mx b'"
    by (rule ring_ok_clear [OF r k g b'(4) b'(2) [unfolded e]])
      (use fields n st ring_okD(4) [OF r] in \<open>auto simp: ooo_ok_def unordered_def Entry_def\<close>)
  with that [of b'] b' e g show ?thesis by simp
qed

lemma drop_entry_posn:
  assumes r: "ring_ok T n0 mx b" and k: "k < sz b - 1"
  obtains b' where "drop_entry b (posn b k) = Some b'" "view b' = (view b)[k := \<lparr>pUnit = None, status = EntryState_Drop\<rparr>]"
    "geo b' = geo b" "shape b'" "ring_ok T n0 mx b'"
proof -
  have k': "k < sz b" using k by simp
  obtain b1 where b1: "dropUnitInPos b (posn b k) = Some (pUnit (view b ! k) \<noteq> None, b1)"
    "view b1 = (view b)[k := (if pUnit (view b ! k) = None then view b ! k else Entry)]"
    "geo b1 = geo b" "shape b1" "ring_ok T n0 mx b1" by (rule dropUnitInPos_posn [OF r k'])
  note g = geoD [OF b1(3)]
  have "pUnit (view b1 ! k) = None" using b1(2) k' ring_okD(6) [OF r] by simp
  moreover have "k < sz b1" "k = sz b1 - 1 \<Longrightarrow> EntryState_Drop = EntryState_Empty" using k g by auto
  ultimately obtain b' where b': "setStatus b1 (posn b1 k) EntryState_Drop = Some b'"
    "view b' = (view b1)[k := \<lparr>pUnit = None, status = EntryState_Drop\<rparr>]"
    "geo b' = geo b1" "shape b'" "ring_ok T n0 mx b'" using setStatus_ring [OF b1(5)] by blast
  with b1 g that [of b'] show ?thesis by (simp add: drop_entry_def)
qed

text \<open>Moving the start past a cell that holds nothing.\<close>

lemma ring_ok_advance:
  assumes r: "ring_ok T n0 mx b" and e: "view b ! 0 = Entry"
    and b': "shape b'" "view b' = rotate1 (view b)" "m_szSize b' = m_szSize b"
      "m_bMessageAPI b' = m_bMessageAPI b" "tsbpd_enabled b' = tsbpd_enabled b"
      "m_numOutOfOrderPackets b' = m_numOutOfOrderPackets b"
      "m_iFirstReadableOutOfOrder b' = m_iFirstReadableOutOfOrder b" "m_pUnitQueue b' = m_pUnitQueue b"
  shows "ring_ok T (n0 + 1) (mx - 1) b'" "view b' = tl (view b) @ [Entry]"
proof -
  have l: "length (view b) = sz b" "0 < sz b" using ring_okD(6) [OF r] shape_sz(1) [OF ring_okD(1) [OF r]] by auto
  then obtain es where es: "view b = Entry # es" using e by (cases "view b") auto
  then show v: "view b' = tl (view b) @ [Entry]" using b'(2) by simp
  have "cell_ok (n0 + 1) (mx - 1) k ((es @ [Entry]) ! k)" if "k < sz b" for k
  proof (cases "k < length es")
    case True
    with ring_okD(2) [OF r, of "Suc k"] l es show ?thesis
      by (auto simp: nth_append cell_ok_def algebra_simps)
  next
    case False
    with that l es show ?thesis by (simp add: nth_append)
  qed
  moreover have "(es @ [Entry]) ! (sz b - 1) = Entry" using l es by (simp add: nth_append)
  ultimately show "ring_ok T (n0 + 1) (mx - 1) b'"
    using r es v b' by (simp add: ring_ok_def ooo_ok_def)
qed

section \<open>Moving the start\<close>

definition cfg :: "rcv_buffer \<Rightarrow> int \<times> int \<times> bool \<times> bool \<times> bool \<times> int" where
  "cfg b = (m_szSize b, m_iFirstNonreadPos b, m_bMessageAPI b, m_bPeerRexmitFlag b, tsbpd_enabled b, m_iNotch b)"

lemma cfgD:
  assumes "cfg b' = cfg b"
  shows "m_szSize b' = m_szSize b" "m_iFirstNonreadPos b' = m_iFirstNonreadPos b"
    "m_bMessageAPI b' = m_bMessageAPI b" "m_bPeerRexmitFlag b' = m_bPeerRexmitFlag b"
    "tsbpd_enabled b' = tsbpd_enabled b" "m_iNotch b' = m_iNotch b"
  using assms by (simp_all add: cfg_def)

lemma cfg_geo: "geo b' = geo b \<Longrightarrow> cfg b' = cfg b"
  by (simp add: cfg_def geo_def)

text \<open>\<open>b'\<close> is \<open>b\<close> with the first \<open>n\<close> cells given up.\<close>

definition shifted :: "nat \<Rightarrow> rcv_buffer \<Rightarrow> rcv_buffer \<Rightarrow> bool" where
  "shifted n b b' \<longleftrightarrow> view b' = drop n (view b) @ replicate (min n (length (view b))) Entry \<and> m_iStartPos b' = posn b n
     \<and> m_iStartSeqNo b' = wrapseq (m_iStartSeqNo b + int n) \<and> m_iMaxPosOff b' = max 0 (m_iMaxPosOff b - int n)
     \<and> cfg b' = cfg b"

lemma shifted_posn: "shifted n b b' \<Longrightarrow> posn b' k = posn b (n + k)"
  by (auto simp: shifted_def posn_def cfg_def mod_add_left_eq ac_simps mod_add_right_eq)

lemma shifted_0: "rb_core T b \<Longrightarrow> shifted 0 b b"
  by (simp add: shifted_def rb_core_def ring_ok_def wrapseq_id)

lemma nth_drop_fill:
  assumes "i < length v"
  shows "(drop n v @ replicate (min n (length v)) e) ! i = (if n + i < length v then v ! (n + i) else e)"
proof (cases "n + i < length v")
  case True
  then have "i < length (drop n v)" by simp
  with True show ?thesis by (simp add: nth_append)
next
  case False
  then have "i - (length v - n) < min n (length v)" using assms by auto
  moreover have "\<not> i < length (drop n v)" using False by simp
  ultimately show ?thesis using False by (simp add: nth_append)
qed

lemma drop_fill_trans:
  assumes v1: "v1 = drop n v @ replicate (min n (length v)) e"
    and v2: "v2 = drop m v1 @ replicate (min m (length v1)) e"
  shows "v2 = drop (n + m) v @ replicate (min (n + m) (length v)) e"
proof (rule nth_equalityI)
  have l: "length v1 = length v" "length v2 = length v" using assms by simp_all
  then show "length v2 = length (drop (n + m) v @ replicate (min (n + m) (length v)) e)" by simp
  fix k
  assume "k < length v2"
  then have k: "k < length v" "k < length v1" using l by simp_all
  have "v2 ! k = (if m + k < length v1 then v1 ! (m + k) else e)" unfolding v2 by (rule nth_drop_fill [OF k(2)])
  also have "\<dots> = (if n + m + k < length v then v ! (n + m + k) else e)"
    using nth_drop_fill [of "m + k" v n e] l by (auto simp: v1 add.assoc simp del: drop_append)
  also have "\<dots> = (drop (n + m) v @ replicate (min (n + m) (length v)) e) ! k"
    by (rule nth_drop_fill [OF k(1), symmetric])
  finally show "v2 ! k = (drop (n + m) v @ replicate (min (n + m) (length v)) e) ! k" .
qed

lemma shifted_trans:
  assumes "shifted n b b1" "shifted m b1 b2"
  shows "shifted (n + m) b b2"
proof -
  have "view b2 = drop (n + m) (view b) @ replicate (min (n + m) (length (view b))) Entry"
    by (rule drop_fill_trans) (use assms in \<open>auto simp: shifted_def\<close>)
  moreover have "wrapseq (wrapseq x + int m) = wrapseq (x + int m)" for x
    by (simp add: wrapseq_def mod_add_left_eq)
  ultimately show ?thesis using assms shifted_posn [OF assms(1), of m]
    by (auto simp: shifted_def algebra_simps max_def)
qed

lemma rb_coreD:
  assumes "rb_core T b"
  shows "ring_ok T (m_iStartSeqNo b) (m_iMaxPosOff b) b" "valid_seq (m_iStartSeqNo b)"
    "0 \<le> m_iMaxPosOff b" "m_iMaxPosOff b < m_szSize b" "shape b" "length (view b) = sz b"
  using assms ring_okD(1,6) by (auto simp: rb_core_def)

lemma cell_ok_mono: "cell_ok n0 mx k e \<Longrightarrow> mx \<le> mx' \<Longrightarrow> wrapseq n0 = wrapseq n0' \<Longrightarrow> cell_ok n0' mx' k e"
  unfolding cell_ok_def wrapseq_def by (metis mod_add_left_eq order_less_le_trans)

lemma ring_ok_mono: "ring_ok T n0 mx b \<Longrightarrow> mx \<le> mx' \<Longrightarrow> wrapseq n0 = wrapseq n0' \<Longrightarrow> ring_ok T n0' mx' b"
  by (auto simp: ring_ok_def intro: cell_ok_mono)

lemma wrapseq_wrapseq [simp]: "wrapseq (wrapseq n) = wrapseq n"
  by (simp add: wrapseq_def)

lemma wrapseq_add_left [simp]: "wrapseq (wrapseq n + k) = wrapseq (n + k)"
  by (simp add: wrapseq_def mod_add_left_eq)

lemma incseq_valid: "valid_seq s \<Longrightarrow> incseq s = wrapseq (s + 1)"
  by (metis incseq_wrapseq wrapseq_id)

text \<open>An operation that clears the first cell and moves the start past it.\<close>

lemma advance_shifted:
  assumes c: "rb_core T b" and e: "view b ! 0 = Entry"
    and b': "b' = b\<lparr>m_iStartPos := posn b 1, m_iStartSeqNo := wrapseq (m_iStartSeqNo b + 1),
      m_iMaxPosOff := max 0 (m_iMaxPosOff b - 1)\<rparr>"
  shows "shifted 1 b b'" "rb_core T b'"
proof -
  note r = rb_coreD(1) [OF c]
  have sh: "shape b'" using rb_coreD(5) [OF c] posn_bounds [of b 1] by (simp add: b' shape_def)
  have v: "view b' = rotate1 (view b)"
    using view_advance [OF rb_coreD(5) [OF c]] by (simp add: b' view_def)
  have "ring_ok T (m_iStartSeqNo b + 1) (m_iMaxPosOff b - 1) b'" and v': "view b' = tl (view b) @ [Entry]"
    using ring_ok_advance [OF r e sh v] by (simp_all add: b' tsbpd_enabled_def)
  then have "ring_ok T (m_iStartSeqNo b') (m_iMaxPosOff b') b'"
    by (rule_tac ring_ok_mono) (auto simp: b')
  then show "rb_core T b'" using rb_coreD(3,4) [OF c] by (auto simp: rb_core_def b' wrapseq_bounds)
  have "min 1 (length (view b)) = 1" using rb_coreD(6) [OF c] shape_sz(1) [OF rb_coreD(5) [OF c]] by simp
  then show "shifted 1 b b'" using v' by (simp add: shifted_def b' drop_Suc cfg_def tsbpd_enabled_def)
qed

lemma release_step_filler:
  assumes c: "rb_core T b" and f: "filler (view b ! 0)"
  obtains b' where "release_step b = Some b'" "shifted 1 b b'" "rb_core T b'"
    "m_iFirstReadableOutOfOrder b' = m_iFirstReadableOutOfOrder b" "m_iBytesCount b' = m_iBytesCount b"
    "m_iPktsCount b' = m_iPktsCount b"
proof -
  note r = rb_coreD(1) [OF c] and sh = rb_coreD(5) [OF c]
  let ?c = "b\<lparr>m_iStartSeqNo := incseq (m_iStartSeqNo b)\<rparr>"
  have "shape ?c" "0 < sz ?c" using sh by (auto simp: shape_def)
  then obtain b1 where b1: "releaseUnitInPos ?c (posn ?c 0) = Some b1" "view b1 = (view ?c)[0 := Entry]" "geo b1 = geo ?c"
    "shape b1" "m_numOutOfOrderPackets b1 = m_numOutOfOrderPackets ?c"
    "m_iFirstReadableOutOfOrder b1 = m_iFirstReadableOutOfOrder ?c"
    "m_pUnitQueue b1 = (case pUnit (view ?c ! 0) of None \<Rightarrow> m_pUnitQueue ?c | Some u \<Rightarrow> makeUnitFree (m_pUnitQueue ?c) u)"
    "m_iBytesCount b1 = m_iBytesCount ?c" "m_iPktsCount b1 = m_iPktsCount ?c"
    using releaseUnitInPos_posn [of ?c 0] by metis
  define b2 where "b2 = b1\<lparr>m_iStartSeqNo := m_iStartSeqNo b\<rparr>"
  have g: "geo b2 = geo b" using b1(3) by (simp add: b2_def geo_def tsbpd_enabled_def)
  have sh2: "shape b2" using b1(4) by (simp add: b2_def shape_def)
  have l: "0 < sz b" "0 < length (view b)" using shape_sz(1) [OF sh] rb_coreD(6) [OF c] by auto
  have none: "pUnit (view b ! 0) = None"
    using ring_okD(2) [OF r l(1)] f by (auto simp: filler_def cell_ok_def)
  have "ring_ok T (m_iStartSeqNo b) (m_iMaxPosOff b) b2"
    by (rule ring_ok_clear [OF r l(1) g sh2, where e = Entry])
      (use b1 none ring_okD(4) [OF r] in \<open>auto simp: b2_def ooo_ok_def unordered_def\<close>)
  then have c2: "rb_core T b2" using c geoD [OF g] by (simp add: rb_core_def)
  have v2: "view b2 = (view b)[0 := Entry]" using b1(2) by (simp add: b2_def)
  let ?b' = "b2\<lparr>m_iStartPos := posn b2 1, m_iStartSeqNo := wrapseq (m_iStartSeqNo b2 + 1),
      m_iMaxPosOff := max 0 (m_iMaxPosOff b2 - 1)\<rparr>"
  have b': "shifted 1 b2 ?b'" "rb_core T ?b'" using advance_shifted [OF c2 _ refl] v2 l(2) by simp_all
  have "shifted 1 b ?b'"
    using b'(1) v2 geoD [OF g] cfg_geo [OF g] by (cases "view b") (auto simp: shifted_def)
  moreover have "release_step b = Some ?b'"
    using b1(1) sh \<open>shape ?c\<close> geoD [OF g] geoD(3) [OF b1(3)] posn_Suc [of b 0] incseq_valid [OF rb_coreD(2) [OF c]]
    by (auto simp: release_step_def b2_def max_def intro!: rcv_buffer.equality)
  ultimately show ?thesis using that [of ?b'] b' b1 by (simp add: b2_def)
qed

lemma takeWhile_snoc_not: "\<not> P x \<Longrightarrow> takeWhile P (xs @ [x]) = takeWhile P xs"
  by (induction xs) auto

lemma takeWhile_less:
  assumes "i < length xs" "\<not> P (xs ! i)"
  shows "length (takeWhile P xs) \<le> i"
  using assms takeWhile_eq_take [of P xs] by (metis leI nth_length_takeWhile nth_mem set_takeWhileD takeWhile_nth)

lemma releaseNextFillerEntries_ok:
  assumes "rb_core T b"
  shows "\<exists>b'. releaseNextFillerEntries b = Some b' \<and> shifted (length (takeWhile filler (view b))) b b' \<and> rb_core T b'
    \<and> \<not> filler (view b' ! 0) \<and> m_iFirstReadableOutOfOrder b' = m_iFirstReadableOutOfOrder b
    \<and> m_iBytesCount b' = m_iBytesCount b \<and> m_iPktsCount b' = m_iPktsCount b"
  using assms
proof (induction "length (takeWhile filler (view b))" arbitrary: b)
  case 0
  then have "\<not> filler (view b ! 0)" "view b \<noteq> []"
    using rb_coreD(6) [OF 0(2)] shape_sz(1) [OF rb_coreD(5) [OF 0(2)]] by (cases "view b"; auto)+
  moreover have "rd (m_entries b) (m_iStartPos b) = Some (view b ! 0)"
    using rd_posn [OF rb_coreD(5) [OF 0(2)], of 0] shape_sz(1) [OF rb_coreD(5) [OF 0(2)]] rb_coreD(5) [OF 0(2)] by simp
  ultimately show ?case using 0 shifted_0 [OF 0(2)]
    by (subst releaseNextFillerEntries.simps) (simp add: filler_def flip: 0(1))
next
  case (Suc n)
  note sh = rb_coreD(5) [OF Suc(3)]
  have l: "length (view b) = sz b" "0 < sz b" using rb_coreD(6) [OF Suc(3)] shape_sz(1) [OF sh] by auto
  obtain e es where v: "view b = e # es" using l by (cases "view b") auto
  with Suc(2) have f: "filler e" by (auto split: if_splits)
  obtain b1 where b1: "release_step b = Some b1" "shifted 1 b b1" "rb_core T b1"
    "m_iFirstReadableOutOfOrder b1 = m_iFirstReadableOutOfOrder b" "m_iBytesCount b1 = m_iBytesCount b"
    "m_iPktsCount b1 = m_iPktsCount b"
    using release_step_filler [OF Suc(3)] f v by auto
  have "takeWhile filler (view b1) = takeWhile filler es"
    using b1(2) v by (simp add: shifted_def takeWhile_snoc_not)
  then have n: "n = length (takeWhile filler (view b1))" using Suc(2) v f by simp
  from Suc(1) [OF n b1(3)] obtain b' where b': "releaseNextFillerEntries b1 = Some b'" "shifted n b1 b'" "rb_core T b'"
    "\<not> filler (view b' ! 0)" "m_iFirstReadableOutOfOrder b' = m_iFirstReadableOutOfOrder b1"
    "m_iBytesCount b' = m_iBytesCount b1" "m_iPktsCount b' = m_iPktsCount b1"
    using n by auto
  from shifted_trans [OF b1(2) b'(2)] have "shifted (length (takeWhile filler (view b))) b b'" using Suc(2) by simp
  moreover have "rd (m_entries b) (m_iStartPos b) = Some e"
    using rd_posn [OF sh l(2)] sh v by simp
  then have "releaseNextFillerEntries b = Some b'"
    using b1(1) b'(1) f by (subst releaseNextFillerEntries.simps) (simp add: filler_def)
  ultimately show ?case using b' b1 by simp
qed

section \<open>The readable prefix\<close>

text \<open>The length of the message at the head of a list of cells, if all of it is there.\<close>

fun scan_msg :: "bool \<Rightarrow> entry list \<Rightarrow> nat option" where
  "scan_msg api [] = None"
| "scan_msg api (e # es) =
     (case pUnit e of None \<Rightarrow> None
      | Some u \<Rightarrow> if \<not> api \<or> u_last u then Some 1 else map_option Suc (scan_msg api es))"

lemma scan_msg_bounds: "scan_msg api es = Some n \<Longrightarrow> 1 \<le> n \<and> n \<le> length es"
  by (induction es arbitrary: n) (auto split: option.splits if_splits)

lemma scan_msg_units: "scan_msg api es = Some n \<Longrightarrow> k < n \<Longrightarrow> pUnit (es ! k) \<noteq> None"
  by (induction es arbitrary: n k) (auto simp: nth_Cons split: option.splits if_splits nat.splits)

lemma scan_msg_last: "scan_msg True es = Some n \<Longrightarrow> \<exists>u. pUnit (es ! (n - 1)) = Some u \<and> u_last u"
proof (induction es arbitrary: n)
  case (Cons e es)
  then show ?case using scan_msg_bounds [of True es] by (fastforce simp: nth_Cons split: option.splits if_splits nat.splits)
qed simp

lemma scan_msg_exists:
  "k < length es \<Longrightarrow> \<forall>i \<le> k. pUnit (es ! i) \<noteq> None \<Longrightarrow> pUnit (es ! k) = Some u \<Longrightarrow> u_last u \<Longrightarrow>
   \<exists>n \<le> Suc k. scan_msg True es = Some n"
proof (induction es arbitrary: k)
  case (Cons e es)
  show ?case
  proof (cases k)
    case 0
    with Cons.prems show ?thesis by simp
  next
    case (Suc j)
    have "\<forall>i \<le> j. pUnit (es ! i) \<noteq> None" using Cons.prems(2) Suc by auto
    with Cons.IH [of j] Cons.prems Suc obtain n where "n \<le> Suc j" "scan_msg True es = Some n" by auto
    moreover have "pUnit e \<noteq> None" using Cons.prems(2) by auto
    ultimately show ?thesis using Suc by (auto split: option.splits)
  qed
qed simp

text \<open>The number of cells at the head of a list that make up complete messages.\<close>

function readable :: "bool \<Rightarrow> entry list \<Rightarrow> nat" where
  "readable api es =
     (case es of [] \<Rightarrow> 0
      | e # _ \<Rightarrow> (case pUnit e of None \<Rightarrow> 0
         | Some u \<Rightarrow> if api \<and> \<not> u_first u then 0
                   else (case scan_msg api es of None \<Rightarrow> 0 | Some n \<Rightarrow> n + readable api (drop n es))))"
  by pat_completeness auto

termination
  by (relation "measure (\<lambda>(api, es). length es)") (auto simp del: scan_msg.simps dest: scan_msg_bounds)

declare readable.simps [simp del]

lemma readable_none: "pUnit (es ! 0) = None \<Longrightarrow> readable api es = 0"
  by (subst readable.simps) (auto split: list.splits)

lemma readable_step:
  assumes "scan_msg api es = Some n" "pUnit (es ! 0) = Some u" "api \<longrightarrow> u_first u"
  shows "readable api es = n + readable api (drop n es)"
proof -
  have "es \<noteq> []" using assms(1) by auto
  then show ?thesis using assms by (subst readable.simps) (cases es; auto)
qed

lemma readable_le: "readable api es \<le> length es"
proof (induction api es rule: readable.induct)
  case (1 api es)
  show ?case
  proof (cases "scan_msg api es")
    case None
    then show ?thesis by (subst readable.simps) (auto split: list.splits option.splits)
  next
    case (Some n)
    then obtain e es' where es: "es = e # es'" by (cases es) auto
    show ?thesis
    proof (cases "pUnit e")
      case (Some u)
      with 1 [OF es Some _ \<open>scan_msg api es = Some n\<close>] scan_msg_bounds [OF \<open>scan_msg api es = Some n\<close>]
      show ?thesis using es \<open>scan_msg api es = Some n\<close> by (subst readable.simps) auto
    qed (simp add: readable_none es)
  qed
qed

lemma readable_units: "k < readable api es \<Longrightarrow> pUnit (es ! k) \<noteq> None"
proof (induction api es arbitrary: k rule: readable.induct)
  case (1 api es)
  show ?case
  proof (cases "scan_msg api es")
    case None
    with 1(2) show ?thesis by (subst (asm) readable.simps) (auto split: list.splits option.splits if_splits)
  next
    case (Some n)
    then obtain e es' where es: "es = e # es'" by (cases es) auto
    from 1(2) es obtain u where u: "pUnit e = Some u" by (cases "pUnit e") (auto simp: readable_none)
    from 1(2) u es have f: "\<not> (api \<and> \<not> u_first u)" by (subst (asm) readable.simps) (auto split: if_splits)
    with 1(2) Some u es have "k < n + readable api (drop n es)" by (subst (asm) readable.simps) auto
    then show ?thesis
      using 1(1) [OF es u f Some, of "k - n"] scan_msg_units [OF Some, of k] scan_msg_bounds [OF Some]
      by (cases "k < n") (auto simp: nth_drop)
  qed
qed

lemma readable_last:
  "0 < readable True es \<Longrightarrow> \<exists>u. pUnit (es ! (readable True es - 1)) = Some u \<and> u_last u"
proof (induction True es rule: readable.induct)
  case (1 es)
  show ?case
  proof (cases "scan_msg True es")
    case None
    with 1(2) show ?thesis by (subst (asm) readable.simps) (auto split: list.splits option.splits if_splits)
  next
    case (Some n)
    then obtain e es' where es: "es = e # es'" by (cases es) auto
    from 1(2) es obtain u where u: "pUnit e = Some u" by (cases "pUnit e") (auto simp: readable_none)
    from 1(2) u es have f: "\<not> (True \<and> \<not> u_first u)" by (subst (asm) readable.simps) (auto split: if_splits)
    then have r: "readable True es = n + readable True (drop n es)" using Some u es by (intro readable_step) auto
    show ?thesis
    proof (cases "readable True (drop n es) = 0")
      case True
      then show ?thesis using scan_msg_last [OF Some] r by simp
    next
      case False
      with 1(1) [OF es u f Some] r scan_msg_bounds [OF Some] show ?thesis by (simp add: nth_drop)
    qed
  qed
qed

section \<open>The loops over positions\<close>

lemma rb_core_frame [simp]:
  "rb_core T (b\<lparr>m_iFirstNonreadPos := p\<rparr>) = rb_core T b" "rb_core T (b\<lparr>m_iNotch := p\<rparr>) = rb_core T b"
  "rb_core T (b\<lparr>m_iBytesCount := p\<rparr>) = rb_core T b" "rb_core T (b\<lparr>m_iPktsCount := p\<rparr>) = rb_core T b"
  "rb_core T (b\<lparr>m_uAvgPayloadSz := w\<rparr>) = rb_core T b"
  by (simp_all add: rb_core_def ring_ok_def shape_def ooo_ok_def tsbpd_enabled_def)

lemma cell_none_beyond: "rb_core T b \<Longrightarrow> m_iMaxPosOff b \<le> int k \<Longrightarrow> k < sz b \<Longrightarrow> pUnit (view b ! k) = None"
  using ring_ok_unit(2) [OF rb_coreD(1)] by fastforce

lemma max_less_sz: "rb_core T b \<Longrightarrow> nat (m_iMaxPosOff b) < sz b"
  using rb_coreD(3,4,5) [of T b] by (auto simp: shape_def)

lemma drop_view_Cons: "rb_core T b \<Longrightarrow> k < sz b \<Longrightarrow> drop k (view b) = view b ! k # drop (Suc k) (view b)"
  using rb_coreD(6) by (simp add: Cons_nth_drop_Suc)

lemma nonread_scan_ok:
  assumes c: "rb_core T b" and p: "p < sz b" "status (view b ! p) = EntryState_Avail"
    and i: "i \<le> nat (m_iMaxPosOff b)"
  shows "nonread_scan b (posn b p) (posn b (nat (m_iMaxPosOff b))) (posn b i)
    = Some (case scan_msg (m_bMessageAPI b) (drop i (view b)) of None \<Rightarrow> b
            | Some n \<Rightarrow> b\<lparr>m_iFirstNonreadPos := posn b (i + n)\<rparr>)"
  using i
proof (induction "nat (m_iMaxPosOff b) - i" arbitrary: i)
  case 0
  then have i: "i = nat (m_iMaxPosOff b)" by simp
  have "pUnit (view b ! i) = None" using cell_none_beyond [OF c, of i] max_less_sz [OF c] i by simp
  then have "scan_msg (m_bMessageAPI b) (drop i (view b)) = None"
    using drop_view_Cons [OF c, of i] max_less_sz [OF c] i by simp
  then show ?case using i by (subst nonread_scan.simps) simp
next
  case (Suc d)
  note sh = rb_coreD(5) [OF c]
  have i: "i < nat (m_iMaxPosOff b)" "i < sz b" using Suc(2,3) max_less_sz [OF c] by auto
  have ne: "posn b i \<noteq> posn b (nat (m_iMaxPosOff b))"
    using posn_inj [OF sh i(2) max_less_sz [OF c]] i(1) by simp
  have IH: "nonread_scan b (posn b p) (posn b (nat (m_iMaxPosOff b))) (posn b (Suc i))
    = Some (case scan_msg (m_bMessageAPI b) (drop (Suc i) (view b)) of None \<Rightarrow> b
            | Some n \<Rightarrow> b\<lparr>m_iFirstNonreadPos := posn b (Suc i + n)\<rparr>)"
    using Suc(1) [of "Suc i"] Suc(2) i(1) by linarith
  show ?case
    by (subst nonread_scan.simps)
      (auto simp: ne rd_posn [OF sh] p i(2) drop_view_Cons [OF c i(2)] posn_Suc IH split: option.splits)
qed

lemma nonread_loop_ok:
  assumes c: "rb_core T b" and p: "p \<le> nat (m_iMaxPosOff b)" and n: "m_iFirstNonreadPos b = posn b p"
  shows "nonread_loop b (posn b (nat (m_iMaxPosOff b))) (posn b p)
    = Some (b\<lparr>m_iFirstNonreadPos := posn b (p + readable (m_bMessageAPI b) (drop p (view b)))\<rparr>)"
  using assms
proof (induction "sz b - p" arbitrary: b p rule: less_induct)
  case less
  note c = less.prems(1) and sh = rb_coreD(5) [OF less.prems(1)]
  let ?m = "nat (m_iMaxPosOff b)" and ?api = "m_bMessageAPI b"
  have ps: "p < sz b" using less.prems(2) max_less_sz [OF c] by (rule le_less_trans)
  note d = drop_view_Cons [OF c ps]
  have same: "b\<lparr>m_iFirstNonreadPos := posn b p\<rparr> = b" using less.prems(3) by simp
  show ?case
  proof (cases "pUnit (view b ! p)")
    case None
    then show ?thesis using same d readable_none [of "drop p (view b)"]
      by (subst nonread_loop.simps) (simp add: rd_posn [OF sh ps])
  next
    case (Some u)
    have av: "status (view b ! p) = EntryState_Avail" using ring_ok_unit(4) [OF rb_coreD(1) [OF c] ps Some] .
    show ?thesis
    proof (cases "?api \<and> \<not> u_first u")
      case True
      then have "readable ?api (drop p (view b)) = 0" using d Some by (subst readable.simps) auto
      then show ?thesis using same True Some av
        by (subst nonread_loop.simps) (simp add: rd_posn [OF sh ps])
    next
      case f: False
      note scan = nonread_scan_ok [OF c ps av less.prems(2)]
      show ?thesis
      proof (cases "scan_msg ?api (drop p (view b))")
        case None
        then have "readable ?api (drop p (view b)) = 0" using d Some f by (subst readable.simps) auto
        then show ?thesis using same Some f av scan None less.prems(3)
          by (subst nonread_loop.simps) (auto simp add: rd_posn [OF sh ps])
      next
        case m: (Some n)
        let ?b = "b\<lparr>m_iFirstNonreadPos := posn b (p + n)\<rparr>"
        from scan_msg_bounds [OF m] have nb: "1 \<le> n" "n \<le> length (drop p (view b))" by auto
        have "pUnit (drop p (view b) ! (n - 1)) \<noteq> None" using scan_msg_units [OF m, of "n - 1"] nb by simp
        moreover have "p + (n - 1) < sz b" using nb ps rb_coreD(6) [OF c] by simp
        ultimately have "int (p + (n - 1)) < m_iMaxPosOff b"
          using cell_none_beyond [OF c, of "p + (n - 1)"] rb_coreD(6) [OF c] by (force simp: nth_drop)
        then have pn: "p + n \<le> ?m" using nb by linarith
        then have pns: "p + n < sz b" using max_less_sz [OF c] by (rule le_less_trans)
        have r: "readable ?api (drop p (view b)) = n + readable ?api (drop (p + n) (view b))"
          using readable_step [OF m, of u] Some f ps rb_coreD(6) [OF c] by (auto simp: add.commute)
        have ne: "posn b p \<noteq> posn b (p + n)" using posn_inj [OF sh ps pns] nb by simp
        have IH: "nonread_loop ?b (posn b ?m) (posn b (p + n))
            = Some (?b\<lparr>m_iFirstNonreadPos := posn b (p + n + readable ?api (drop (p + n) (view b)))\<rparr>)"
          using less.hyps [of ?b "p + n"] c pn pns nb(1) by simp
        show ?thesis
        proof (cases "pUnit (view b ! (p + n))")
          case None
          then have "readable ?api (drop (p + n) (view b)) = 0"
            using drop_view_Cons [OF c pns] by (simp add: readable_none)
          then show ?thesis using Some av f scan m ne None r
            by (subst nonread_loop.simps) (auto simp: rd_posn [OF sh ps] rd_posn [OF sh pns])
        next
          case (Some u')
          then show ?thesis using \<open>pUnit (view b ! p) = Some u\<close> av f scan m ne r IH
            by (subst nonread_loop.simps) (auto simp: rd_posn [OF sh ps] rd_posn [OF sh pns] add.assoc)
        qed
      qed
    qed
  qed
qed

end
