(* ===== verification/RcvBufferOps.thy ===== *)
theory RcvBufferOps
  imports RcvBufferInv
begin

text \<open>
  Every operation of the receiver buffer keeps the invariant \<open>rb_inv\<close>, and what it does to the ring
  seen as a list.
\<close>

section \<open>The invariant of the whole buffer\<close>

definition readable_to :: "rcv_buffer \<Rightarrow> nat \<Rightarrow> bool" where
  "readable_to b r \<longleftrightarrow> m_iFirstNonreadPos b = posn b r \<and> r \<le> nat (m_iMaxPosOff b)
     \<and> (\<forall>k < r. pUnit (view b ! k) \<noteq> None)
     \<and> (m_bMessageAPI b \<and> 0 < r \<longrightarrow> (\<exists>u. pUnit (view b ! (r - 1)) = Some u \<and> u_last u))"

definition rb_inv :: "nat set \<Rightarrow> rcv_buffer \<Rightarrow> bool" where
  "rb_inv T b \<longleftrightarrow> rb_core T b \<and> (\<exists>r. readable_to b r) \<and> (m_bMessageAPI b \<longrightarrow> \<not> filler (view b ! 0))"

lemma readable_to_0: "shape b \<Longrightarrow> m_iFirstNonreadPos b = m_iStartPos b \<Longrightarrow> readable_to b 0"
  by (simp add: readable_to_def)

lemma readable_to_frame [simp]:
  "readable_to (b\<lparr>m_iFirstReadableOutOfOrder := x\<rparr>) r = readable_to b r"
  "readable_to (b\<lparr>m_numOutOfOrderPackets := x\<rparr>) r = readable_to b r"
  "readable_to (b\<lparr>m_iBytesCount := x\<rparr>) r = readable_to b r" "readable_to (b\<lparr>m_iPktsCount := x\<rparr>) r = readable_to b r"
  "readable_to (b\<lparr>m_uAvgPayloadSz := w\<rparr>) r = readable_to b r"
  by (simp_all add: readable_to_def)

lemma updateNonreadPos_ok:
  assumes c: "rb_core T b" and r: "readable_to b r"
  defines "r' \<equiv> r + readable (m_bMessageAPI b) (drop r (view b))"
  shows "updateNonreadPos b = Some (b\<lparr>m_iFirstNonreadPos := posn b r'\<rparr>)"
    "readable_to (b\<lparr>m_iFirstNonreadPos := posn b r'\<rparr>) r'"
proof -
  let ?R = "readable (m_bMessageAPI b) (drop r (view b))"
  have rm: "r \<le> nat (m_iMaxPosOff b)" "m_iFirstNonreadPos b = posn b r" using r by (simp_all add: readable_to_def)
  have rs: "r < sz b" using rm(1) max_less_sz [OF c] by (rule le_less_trans)
  have units: "pUnit (view b ! k) \<noteq> None" if "k < r'" for k
    using that readable_units [of "k - r" "m_bMessageAPI b" "drop r (view b)"] r rs rb_coreD(6) [OF c]
    by (cases "k < r") (auto simp: readable_to_def r'_def)
  have le: "r' \<le> nat (m_iMaxPosOff b)"
  proof (cases "?R = 0")
    case True
    then show ?thesis using rm by (simp add: r'_def)
  next
    case False
    have "r' \<le> sz b" using readable_le [of "m_bMessageAPI b" "drop r (view b)"] rb_coreD(6) [OF c] rs by (simp add: r'_def)
    then have "r' - 1 < sz b" "0 < r'" using False by (simp_all add: r'_def)
    with cell_none_beyond [OF c _ this(1)] units [of "r' - 1"] show ?thesis by fastforce
  qed
  show "updateNonreadPos b = Some (b\<lparr>m_iFirstNonreadPos := posn b r'\<rparr>)"
  proof (cases "m_iMaxPosOff b = 0")
    case True
    with le rm show ?thesis by (simp add: updateNonreadPos_def)
  next
    case False
    then show ?thesis using nonread_loop_ok [OF c rm] rb_coreD(3) [OF c] rm(2)
      by (simp add: updateNonreadPos_def r'_def posn_int)
  qed
  have "\<exists>u. pUnit (view b ! (r' - 1)) = Some u \<and> u_last u" if "m_bMessageAPI b" "0 < r'"
  proof (cases "?R = 0")
    case True
    then show ?thesis using r that by (simp add: readable_to_def r'_def)
  next
    case False
    with readable_last [of "drop r (view b)"] that rs rb_coreD(6) [OF c] show ?thesis
      by (simp add: r'_def)
  qed
  with le units show "readable_to (b\<lparr>m_iFirstNonreadPos := posn b r'\<rparr>) r'" by (simp add: readable_to_def)
qed

lemma isInRange_posn:
  assumes "shape b" "0 \<le> mx" "mx < m_szSize b" "j < sz b"
  shows "isInRange (m_iStartPos b) mx (m_szSize b) (posn b j) \<longleftrightarrow> j \<le> nat mx"
proof -
  have l: "(m_iStartPos b + mx) mod m_szSize b = posn b (nat mx)" using assms(2) by (simp add: posn_def)
  have m: "nat mx < sz b" using assms by simp
  show ?thesis
    unfolding isInRange_def l Let_def posn_cases [OF assms(1) m] posn_cases [OF assms(1,4)]
    using assms by (auto simp: shape_def)
qed

lemma shifted_nonread:
  assumes c: "rb_core T b" "rb_core T b'" and r: "readable_to b r" and s: "shifted n b b'"
  defines "inr \<equiv> isInRange (m_iStartPos b') (m_iMaxPosOff b') (m_szSize b') (m_iFirstNonreadPos b')"
  shows "inr \<Longrightarrow> readable_to b' (r - n)" "\<not> inr \<Longrightarrow> r < n"
proof -
  note sh = rb_coreD(5) [OF c(1)] and sh' = rb_coreD(5) [OF c(2)]
  have z: "m_szSize b' = m_szSize b" "m_iFirstNonreadPos b' = posn b r" "m_bMessageAPI b' = m_bMessageAPI b"
    "m_iMaxPosOff b' = max 0 (m_iMaxPosOff b - int n)"
    "view b' = drop n (view b) @ replicate (min n (length (view b))) Entry"
    using s r by (auto simp: shifted_def cfg_def readable_to_def)
  have rm: "int r \<le> m_iMaxPosOff b" using r rb_coreD(3) [OF c(1)] by (auto simp: readable_to_def)
  have ms: "m_iMaxPosOff b < m_szSize b" "0 \<le> m_iMaxPosOff b" using rb_coreD(3,4) [OF c(1)] by simp_all
  have "0 \<le> m_iFirstNonreadPos b'" "m_iFirstNonreadPos b' < m_szSize b'"
    using z(1,2) posn_bounds [OF sh, of r] by simp_all
  from posn_surj [OF sh' this] obtain j where js: "j < sz b'" and j: "m_iFirstNonreadPos b' = posn b' j" .
  have inr: "inr \<longleftrightarrow> int j \<le> max 0 (m_iMaxPosOff b - int n)"
    using isInRange_posn [OF sh' rb_coreD(3,4) [OF c(2)] js] unfolding inr_def j by (auto simp: z(4))
  have jr: "posn b (n + j) = posn b r" using j z(2) shifted_posn [OF s, of j] by simp
  show "inr \<Longrightarrow> readable_to b' (r - n)"
  proof (cases "n \<le> r")
    case True
    have "m_iFirstNonreadPos b' = posn b' (r - n)" using True z(2) shifted_posn [OF s, of "r - n"] by simp
    moreover have "view b' ! k = view b ! (n + k)" if "k < r - n" for k
      using that z(5) rm ms rb_coreD(6) [OF c(1)] True by (simp add: nth_append)
    ultimately show ?thesis using True r rm z(3,4) by (auto simp: readable_to_def)
  next
    case False
    assume "inr"
    have "j = 0"
    proof (rule ccontr)
      assume "j \<noteq> 0"
      with \<open>inr\<close> inr have "int j \<le> m_iMaxPosOff b - int n" by auto
      then have "n + j < sz b" "r < sz b" using ms rm by auto
      with posn_inj [OF sh this] jr False show False by simp
    qed
    with j False show ?thesis by (simp add: readable_to_def)
  qed
  show "\<not> inr \<Longrightarrow> r < n"
  proof (rule ccontr)
    assume ni: "\<not> inr" and "\<not> r < n"
    then have le: "n \<le> r" by simp
    then have p: "m_iFirstNonreadPos b' = posn b' (r - n)" using z(2) shifted_posn [OF s, of "r - n"] by simp
    have "r - n < sz b'" using rm ms z(1) by auto
    with posn_inj [OF sh' js this] j p have "j = r - n" by simp
    with ni inr rm le show False by auto
  qed
qed

section \<open>Searching out of order\<close>

lemma rb_core_froo:
  "-1 \<le> x \<Longrightarrow> x < m_szSize b \<Longrightarrow> rb_core T b \<Longrightarrow> rb_core T (b\<lparr>m_iFirstReadableOutOfOrder := x\<rparr>)"
  by (simp add: rb_core_def ring_ok_def shape_def ooo_ok_def tsbpd_enabled_def)

lemma find_ooo_ok:
  assumes c: "rb_core T b" and k: "k \<le> sz b" and pf: "-1 \<le> pf" "pf < m_szSize b"
    and rem: "remain = int (length (filter unordered (drop k (view b))))"
  shows "\<exists>x. find_ooo b lp remain pf mn (posn b k) = Some (b\<lparr>m_iFirstReadableOutOfOrder := x\<rparr>)
    \<and> -1 \<le> x \<and> x < m_szSize b"
  using k pf rem
proof (induction "sz b - k" arbitrary: k pf mn remain)
  case 0
  then have "remain = 0" using rb_coreD(6) [OF c] by simp
  then have "find_ooo b lp remain pf mn (posn b k) = Some (b\<lparr>m_iFirstReadableOutOfOrder := m_iFirstReadableOutOfOrder b\<rparr>)"
    by (subst find_ooo.simps) simp
  then show ?case using ring_okD(7,8) [OF rb_coreD(1) [OF c]] by blast
next
  case (Suc d)
  note sh = rb_coreD(5) [OF c]
  have ks: "k < sz b" using Suc(2,3) by simp
  note IH = Suc(1) [of "Suc k"]
  have rem': "remain = (if unordered (view b ! k) then 1 else 0) + int (length (filter unordered (drop (Suc k) (view b))))"
    using Suc(6) drop_view_Cons [OF c ks] by simp
  have keep: "\<exists>x. Some b = Some (b\<lparr>m_iFirstReadableOutOfOrder := x\<rparr>) \<and> -1 \<le> x \<and> x < m_szSize b"
    using ring_okD(7,8) [OF rb_coreD(1) [OF c]] by (intro exI [of _ "m_iFirstReadableOutOfOrder b"]) simp
  have next': "\<exists>x. find_ooo b lp (remain - (if unordered (view b ! k) then 1 else 0)) p m (incPos b (posn b k) 1)
      = Some (b\<lparr>m_iFirstReadableOutOfOrder := x\<rparr>) \<and> -1 \<le> x \<and> x < m_szSize b"
    if "-1 \<le> p" "p < m_szSize b" for p m
    using IH [of p "remain - (if unordered (view b ! k) then 1 else 0)" m] that Suc(2) ks rem' by (simp add: posn_Suc)
  have m1: "(-1 :: int) < m_szSize b" using sh by (simp add: shape_def)
  have pk: "-1 \<le> posn b k" "posn b k < m_szSize b" using posn_bounds [OF sh, of k] by simp_all
  show ?case
  proof (cases "pUnit (view b ! k)")
    case None
    then show ?thesis using next' [of "-1" "-1"] keep m1
      by (subst find_ooo.simps) (simp add: rd_posn [OF sh ks] unordered_def)
  next
    case (Some u)
    show ?thesis
    proof (cases "u_order u")
      case True
      then show ?thesis using next' [of "-1" "-1"] keep m1 Some
        by (subst find_ooo.simps) (simp add: rd_posn [OF sh ks] unordered_def)
    next
      case False
      then have "unordered (view b ! k)" using Some by (simp add: unordered_def)
      with next' have n1: "\<exists>x. find_ooo b lp (remain - 1) p m (incPos b (posn b k) 1)
          = Some (b\<lparr>m_iFirstReadableOutOfOrder := x\<rparr>) \<and> -1 \<le> x \<and> x < m_szSize b"
        if "-1 \<le> p" "p < m_szSize b" for p m using that by simp
      have pf': "-1 \<le> (if u_first u then posn b k else pf)" "(if u_first u then posn b k else pf) < m_szSize b"
        using pk Suc(4,5) by auto
      show ?thesis
        by (subst find_ooo.simps, simp only: rd_posn [OF sh ks] Some False Option.bind.simps option.case if_False Let_def)
          (use keep n1 [OF pf'] n1 [of "-1" "-1"] m1 pf' in auto)
    qed
  qed
qed

lemma updateFirstReadableOutOfOrder_ok:
  assumes c: "rb_core T b" and t: "\<not> tsbpd_enabled b"
  shows "\<exists>x. updateFirstReadableOutOfOrder b = Some (b\<lparr>m_iFirstReadableOutOfOrder := x\<rparr>) \<and> -1 \<le> x \<and> x < m_szSize b"
proof -
  have keep: "\<exists>x. Some b = Some (b\<lparr>m_iFirstReadableOutOfOrder := x\<rparr>) \<and> -1 \<le> x \<and> x < m_szSize b"
    using ring_okD(7,8) [OF rb_coreD(1) [OF c]] by (intro exI [of _ "m_iFirstReadableOutOfOrder b"]) simp
  have "m_bMessageAPI b" "m_numOutOfOrderPackets b = int (length (filter unordered (drop 0 (view b))))"
    if "0 < m_numOutOfOrderPackets b"
    using that t ring_okD(4) [OF rb_coreD(1) [OF c]] by (auto simp: ooo_ok_def split: if_splits)
  then have "\<exists>x. find_ooo b lp (m_numOutOfOrderPackets b) (-1) (-1) (posn b 0)
      = Some (b\<lparr>m_iFirstReadableOutOfOrder := x\<rparr>) \<and> -1 \<le> x \<and> x < m_szSize b" if "0 < m_numOutOfOrderPackets b" for lp
    using find_ooo_ok [OF c, of 0 "-1"] that rb_coreD(5) [OF c] by (simp add: shape_def)
  with keep rb_coreD(5) [OF c] show ?thesis by (simp add: updateFirstReadableOutOfOrder_def)
qed

lemma keep_froo:
  assumes "rb_core T b"
  shows "\<exists>x. Some b = Some (b\<lparr>m_iFirstReadableOutOfOrder := x\<rparr>) \<and> -1 \<le> x \<and> x < m_szSize b"
  using ring_okD(7,8) [OF rb_coreD(1) [OF assms]] by (intro exI [of _ "m_iFirstReadableOutOfOrder b"]) simp

lemma update_search_ok:
  assumes "rb_core T b" "P \<Longrightarrow> \<not> tsbpd_enabled b"
  shows "\<exists>x. (if P then updateFirstReadableOutOfOrder b else Some b) = Some (b\<lparr>m_iFirstReadableOutOfOrder := x\<rparr>)
    \<and> -1 \<le> x \<and> x < m_szSize b"
  using updateFirstReadableOutOfOrder_ok [OF assms(1)] keep_froo [OF assms(1)] assms(2) by (cases P) simp_all

lemma scan_right_ok:
  assumes c: "rb_core T b" and k: "k < sz b - 1"
  shows "\<exists>x. scan_right b mn lp (posn b k) = Some x \<and> -1 \<le> x \<and> x < m_szSize b"
  using k
proof (induction "sz b - k" arbitrary: k)
  case (Suc d)
  note sh = rb_coreD(5) [OF c]
  have ks: "Suc k < sz b" using Suc(3) by simp
  have m1: "(-1 :: int) < m_szSize b" using sh by (simp add: shape_def)
  have IH: "\<exists>x. scan_right b mn lp (posn b (Suc k)) = Some x \<and> -1 \<le> x \<and> x < m_szSize b"
    if "pUnit (view b ! Suc k) = Some u" for u
    using Suc(1) [of "Suc k"] Suc(2) ring_ok_unit(3) [OF rb_coreD(1) [OF c] ks that] by simp
  show ?case
    using posn_bounds [OF sh, of "Suc k"] m1 IH
    by (subst scan_right.simps) (auto simp: posn_Suc Let_def rd_posn [OF sh ks] split: option.splits)
qed simp

lemma scan_left_ok:
  assumes c: "rb_core T b" and k: "0 < k" "k < sz b"
  shows "\<exists>x. scan_left b mn (posn b k) = Some x \<and> -1 \<le> x \<and> x < m_szSize b"
  using k
proof (induction k)
  case (Suc k)
  note sh = rb_coreD(5) [OF c]
  have ks: "k < sz b" using Suc(3) by simp
  have m1: "(-1 :: int) < m_szSize b" using sh by (simp add: shape_def)
  have IH: "\<exists>x. scan_left b mn (posn b k) = Some x \<and> -1 \<le> x \<and> x < m_szSize b" if "posn b k \<noteq> m_iStartPos b"
    using Suc that sh by (cases k) auto
  show ?case
    using posn_bounds [OF sh, of k] m1 IH
    by (subst scan_left.simps) (auto simp: decPos_posn [OF sh Suc(3)] Let_def rd_posn [OF sh ks] split: option.splits)
qed simp

lemma scans_ok:
  assumes c: "rb_core T b" and k: "k < sz b" "pUnit (view b ! k) = Some u"
  shows "\<exists>x. scanNotInOrderMessageRight b (posn b k) mn = Some x"
    "\<exists>x. scanNotInOrderMessageLeft b (posn b k) mn = Some x \<and> -1 \<le> x \<and> x < m_szSize b"
proof -
  note sh = rb_coreD(5) [OF c]
  show "\<exists>x. scanNotInOrderMessageRight b (posn b k) mn = Some x"
    using scan_right_ok [OF c ring_ok_unit(3) [OF rb_coreD(1) [OF c] k]]
    unfolding scanNotInOrderMessageRight_def Let_def by (metis (full_types))
  show "\<exists>x. scanNotInOrderMessageLeft b (posn b k) mn = Some x \<and> -1 \<le> x \<and> x < m_szSize b"
    using scan_left_ok [OF c _ k(1), of mn] sh
    by (cases "k = 0") (auto simp: scanNotInOrderMessageLeft_def shape_def)
qed

lemma onInsertNotInOrderPacket_ok:
  assumes c: "rb_core T b" and k: "k < sz b" "pUnit (view b ! k) = Some u"
  shows "\<exists>x. onInsertNotInOrderPacket b (posn b k) = Some (b\<lparr>m_iFirstReadableOutOfOrder := x\<rparr>) \<and> -1 \<le> x \<and> x < m_szSize b"
proof (cases "m_numOutOfOrderPackets b = 0 \<or> m_iFirstReadableOutOfOrder b \<ge> 0")
  case True
  then show ?thesis using keep_froo [OF c] by (auto simp: onInsertNotInOrderPacket_def)
next
  case False
  note sh = rb_coreD(5) [OF c]
  let ?mn = "u_msgno (m_bPeerRexmitFlag b) u"
  from scans_ok(1) [OF c k, of ?mn] obtain x where x: "scanNotInOrderMessageRight b (posn b k) ?mn = Some x" ..
  from scans_ok(2) [OF c k, of ?mn] obtain y where
    y: "scanNotInOrderMessageLeft b (posn b k) ?mn = Some y" "-1 \<le> y" "y < m_szSize b" by blast
  let ?has = "u_last u \<or> -1 < x" and ?first = "if u_first u then posn b k else y"
  have "onInsertNotInOrderPacket b (posn b k)
      = (if ?has \<and> 0 \<le> ?first then Some (b\<lparr>m_iFirstReadableOutOfOrder := ?first\<rparr>) else Some b)"
    using False by (simp add: onInsertNotInOrderPacket_def packetAt_def rd_posn [OF sh k(1)] k(2) x y Let_def)
  moreover have "?first < m_szSize b" using posn_bounds [OF sh, of k] y by simp
  ultimately show ?thesis using keep_froo [OF c] by (cases "?has \<and> 0 \<le> ?first") auto
qed

lemma insert_search_ok:
  assumes c: "rb_core T b" and k: "k < sz b" "pUnit (view b ! k) = Some u"
  shows "\<exists>x. (if P then onInsertNotInOrderPacket b (posn b k) else Some b) = Some (b\<lparr>m_iFirstReadableOutOfOrder := x\<rparr>)
    \<and> -1 \<le> x \<and> x < m_szSize b"
  using onInsertNotInOrderPacket_ok [OF assms] keep_froo [OF c] by (cases P) simp_all

section \<open>Insert\<close>

lemma seqoff_wrapseq_of:
  assumes "valid_seq s" "valid_seq t" "0 \<le> seqoff s t"
  shows "t = wrapseq (s + seqoff s t)"
proof (cases "\<bar>s - t\<bar> < m_iSeqNoTH")
  case True
  then show ?thesis using assms(2) by (simp add: seqoff_def wrapseq_id)
next
  case False
  with assms have "s + seqoff s t = t + (m_iMaxSeqNo + 1)"
    by (auto simp: seqoff_def valid_seq_def seqno_const_defs split: if_splits)
  then show ?thesis using assms(2) by (simp add: wrapseq_def valid_seq_def)
qed

lemma countBytes_fields [simp]:
  "view (countBytes b p n) = view b" "geo (countBytes b p n) = geo b" "posn (countBytes b p n) k = posn b k"
  "rb_core T (countBytes b p n) = rb_core T b" "readable_to (countBytes b p n) r = readable_to b r"
  "m_numOutOfOrderPackets (countBytes b p n) = m_numOutOfOrderPackets b"
  "m_iFirstReadableOutOfOrder (countBytes b p n) = m_iFirstReadableOutOfOrder b"
  "m_pUnitQueue (countBytes b p n) = m_pUnitQueue b" "m_entries (countBytes b p n) = m_entries b"
  "m_iBytesCount (countBytes b p n) = m_iBytesCount b + n" "m_iPktsCount (countBytes b p n) = m_iPktsCount b + p"
  "m_tsbpd (countBytes b p n) = m_tsbpd b" "m_bMessageAPI (countBytes b p n) = m_bMessageAPI b"
  by (simp_all add: countBytes_def Let_def)

lemma rb_core_raise_max:
  assumes "rb_core T b" "m_iMaxPosOff b \<le> mx" "mx < m_szSize b"
  shows "rb_core T (b\<lparr>m_iMaxPosOff := mx\<rparr>)"
proof -
  from ring_ok_mono [OF rb_coreD(1) [OF assms(1)] assms(2) refl]
  have "ring_ok T (m_iStartSeqNo b) mx (b\<lparr>m_iMaxPosOff := mx\<rparr>)"
    by (simp add: ring_ok_def shape_def ooo_ok_def tsbpd_enabled_def)
  with assms rb_coreD(2,3) [OF assms(1)] show ?thesis by (simp add: rb_core_def)
qed

lemma readable_to_raise_max: "readable_to b r \<Longrightarrow> m_iMaxPosOff b \<le> mx \<Longrightarrow> readable_to (b\<lparr>m_iMaxPosOff := mx\<rparr>) r"
  by (auto simp: readable_to_def)

lemma rb_core_put:
  assumes c: "rb_core T b" and k: "k < sz b - 1" "int k < m_iMaxPosOff b" "status (view b ! k) = EntryState_Empty"
    and u: "u_seqno u = wrapseq (m_iStartSeqNo b + int k)" "\<not> m_bTaken (m_pUnitQueue b) (u_id u)"
    and b': "geo b' = geo b" "shape b'" "view b' = (view b)[k := \<lparr>pUnit = Some u, status = EntryState_Avail\<rparr>]"
      "m_pUnitQueue b' = makeUnitTaken (m_pUnitQueue b) u"
      "m_iFirstReadableOutOfOrder b' = m_iFirstReadableOutOfOrder b"
      "m_numOutOfOrderPackets b' = m_numOutOfOrderPackets b
         + (if \<not> tsbpd_enabled b \<and> m_bMessageAPI b \<and> \<not> u_order u then 1 else 0)"
  shows "rb_core T b'"
proof -
  note r = rb_coreD(1) [OF c] and g = geoD [OF b'(1)]
  have l: "k < length (view b)" using rb_coreD(6) [OF c] k by simp
  have none: "pUnit (view b ! k) = None"
    using ring_okD(2) [OF r, of k] k by (auto simp: cell_ok_def)
  have cells: "\<forall>i < sz b'. cell_ok (m_iStartSeqNo b) (m_iMaxPosOff b) i (view b' ! i)"
    using ring_okD(2) [OF r] l k(2) u(1) by (auto simp: b' g nth_list_update cell_ok_def)
  have lst: "view b' ! (sz b' - 1) = Entry"
    using ring_okD(3) [OF r] k(1) l by (auto simp: b' g nth_list_update)
  have "unordered \<lparr>pUnit = Some u, status = EntryState_Avail\<rparr> \<longleftrightarrow> \<not> u_order u" "\<not> unordered (view b ! k)"
    using none by (simp_all add: unordered_def)
  with b'(6) ring_okD(4) [OF r] have "ooo_ok b'"
    by (auto simp: ooo_ok_def g b'(3) filter_update [OF l])
  moreover have "taken_ok T (m_pUnitQueue b') (units b')"
    using ring_okD(5) [OF r] taken_ok_insert [OF _ u(2), of T "units_of (take k (view b))" "units_of (drop (Suc k) (view b))"]
    unfolding b'(3,4) units_of_update [OF l] units_of_split [OF l] by (simp add: none)
  ultimately have "ring_ok T (m_iStartSeqNo b) (m_iMaxPosOff b) b'"
    using cells lst b'(2,5) ring_okD(7,8) [OF r] by (auto simp: ring_ok_def g)
  with c show ?thesis by (simp add: rb_core_def g)
qed

text \<open>The state after the packet is in its cell, before the searches.\<close>

definition stored :: "rcv_buffer \<Rightarrow> int \<Rightarrow> entry list \<Rightarrow> cunit \<Rightarrow> rcv_buffer" where
  "stored b mx es u =
     (let b3 = countBytes (b\<lparr>m_iMaxPosOff := mx, m_pUnitQueue := makeUnitTaken (m_pUnitQueue b) u, m_entries := es\<rparr>)
                 1 (int (length (u_data u)))
      in if \<not> tsbpd_enabled b \<and> m_bMessageAPI b \<and> \<not> u_order u
         then b3\<lparr>m_numOutOfOrderPackets := m_numOutOfOrderPackets b + 1\<rparr> else b3)"

lemma stored_fields [simp]:
  "geo (stored b mx es u) = geo (b\<lparr>m_iMaxPosOff := mx\<rparr>)" "view (stored b mx es u) = view (b\<lparr>m_entries := es\<rparr>)"
  "m_entries (stored b mx es u) = es"
  "m_pUnitQueue (stored b mx es u) = makeUnitTaken (m_pUnitQueue b) u"
  "m_iFirstReadableOutOfOrder (stored b mx es u) = m_iFirstReadableOutOfOrder b"
  "m_numOutOfOrderPackets (stored b mx es u) = m_numOutOfOrderPackets b
     + (if \<not> tsbpd_enabled b \<and> m_bMessageAPI b \<and> \<not> u_order u then 1 else 0)"
  "m_iBytesCount (stored b mx es u) = m_iBytesCount b + int (length (u_data u))"
  "m_iPktsCount (stored b mx es u) = m_iPktsCount b + 1"
  by (simp_all add: stored_def Let_def) (simp_all add: geo_def tsbpd_enabled_def view_def)

lemma stored_core:
  assumes c: "rb_core T b" and k: "k < sz b - 1" "status (view b ! k) = EntryState_Empty"
    and mx: "m_iMaxPosOff b \<le> mx" "mx < m_szSize b" "int k < mx"
    and u: "u_seqno u = wrapseq (m_iStartSeqNo b + int k)" "\<not> m_bTaken (m_pUnitQueue b) (u_id u)"
    and es: "length es = length (m_entries b)"
      "view (b\<lparr>m_entries := es\<rparr>) = (view b)[k := \<lparr>pUnit = Some u, status = EntryState_Avail\<rparr>]"
  shows "rb_core T (stored b mx es u)"
proof (rule rb_core_put [OF rb_core_raise_max [OF c mx(1,2)], of k u])
  show "shape (stored b mx es u)"
    using rb_coreD(5) [OF c] es(1) geoD(1,2) [OF stored_fields(1), of b mx es u] by (simp add: shape_def)
qed (use k mx u es in \<open>simp_all add: tsbpd_enabled_def\<close>)

lemma readable_le_empty:
  assumes c: "rb_core T b" and k: "k < sz b" "status (view b ! k) = EntryState_Empty" and r: "readable_to b r"
  shows "r \<le> k"
proof (rule ccontr)
  assume "\<not> r \<le> k"
  then have "pUnit (view b ! k) \<noteq> None" using r by (simp add: readable_to_def)
  with ring_okD(2) [OF rb_coreD(1) [OF c] k(1)] k(2) show False by (simp add: cell_ok_def)
qed

lemma stored_readable:
  assumes c: "rb_core T b" and k: "k < sz b" "status (view b ! k) = EntryState_Empty" and r: "readable_to b r"
    and mx: "m_iMaxPosOff b \<le> mx" and es: "view (b\<lparr>m_entries := es\<rparr>) = (view b)[k := e]"
  shows "readable_to (stored b mx es u) r"
proof -
  note le = readable_le_empty [OF c k r] and g = geoD [OF stored_fields(1), of b mx es u]
  have "view (stored b mx es u) ! j = view b ! j" if "j < r" for j using that le es by simp
  moreover have "r - 1 < r" if "0 < r" using that by simp
  ultimately show ?thesis using readable_to_raise_max [OF r mx] g by (auto simp: readable_to_def)
qed

lemma rb_insert_unfold:
  assumes k: "k = seqoff (m_iStartSeqNo b) (u_seqno u)" "0 \<le> k" "k < capacity b" "nat k < sz b" and sh: "shape b"
    and e: "status (view b ! nat k) = EntryState_Empty"
    and es: "wr (m_entries b) (posn b (nat k)) \<lparr>pUnit = Some u, status = EntryState_Avail\<rparr> = Some es"
  defines "b3 \<equiv> stored b (max (m_iMaxPosOff b) (k + 1)) es u"
  shows "rb_insert b u = do {
    b4 \<leftarrow> (if \<not> tsbpd_enabled b \<and> m_bMessageAPI b \<and> \<not> u_order u then onInsertNotInOrderPacket b3 (posn b (nat k)) else Some b3);
    b5 \<leftarrow> updateNonreadPos b4;
    Some (0, b5) }"
proof -
  have b1: "(if k \<ge> m_iMaxPosOff b then b\<lparr>m_iMaxPosOff := k + 1\<rparr> else b) = b\<lparr>m_iMaxPosOff := max (m_iMaxPosOff b) (k + 1)\<rparr>"
    by (auto simp: max_def intro!: rcv_buffer.equality)
  have "(m_iStartPos b + k) mod m_szSize b = posn b (nat k)" using k by (simp add: posn_def)
  then show ?thesis
    using k es e rd_posn [OF sh k(4)] unfolding rb_insert_def k(1) [symmetric] Let_def b1
    by (simp add: b3_def stored_def Let_def tsbpd_enabled_def)
qed

text \<open>What an insertion returns and leaves behind.\<close>

lemma rb_insert_store:
  assumes c: "rb_core T b" and r: "readable_to b r" and h: "m_bMessageAPI b \<longrightarrow> \<not> filler (view b ! 0)"
    and u: "valid_seq (u_seqno u)" "\<not> m_bTaken (m_pUnitQueue b) (u_id u)"
    and k: "k = seqoff (m_iStartSeqNo b) (u_seqno u)" "0 \<le> k" "k < capacity b"
    and e: "status (view b ! nat k) = EntryState_Empty"
  shows "\<exists>b'. rb_insert b u = Some (0, b') \<and> rb_inv T b' \<and> m_iStartSeqNo b' = m_iStartSeqNo b
    \<and> view b' = (view b)[nat k := \<lparr>pUnit = Some u, status = EntryState_Avail\<rparr>]
    \<and> readable_to b' (r + readable (m_bMessageAPI b) (drop r (view b')))
    \<and> m_iBytesCount b' = m_iBytesCount b + int (length (u_data u)) \<and> m_iPktsCount b' = m_iPktsCount b + 1
    \<and> m_bMessageAPI b' = m_bMessageAPI b \<and> m_iNotch b' = m_iNotch b \<and> tsbpd_enabled b' = tsbpd_enabled b"
proof -
  let ?k = "nat k" and ?e = "\<lparr>pUnit = Some u, status = EntryState_Avail\<rparr>"
  note sh = rb_coreD(5) [OF c]
  have ks: "?k < sz b - 1" "?k < sz b" using k by (auto simp: capacity_def)
  define mx where "mx = max (m_iMaxPosOff b) (k + 1)"
  have mx: "m_iMaxPosOff b \<le> mx" "mx < m_szSize b" "k < mx"
    using rb_coreD(4) [OF c] k by (auto simp: mx_def capacity_def)
  obtain es where es: "wr (m_entries b) (posn b ?k) ?e = Some es" "length es = length (m_entries b)"
    "view (b\<lparr>m_entries := es\<rparr>) = (view b)[?k := ?e]" by (rule wr_posn [OF sh ks(2)])
  let ?b = "stored b mx es u"
  note g = geoD [OF stored_fields(1), of b mx es u]
  have "u_seqno u = wrapseq (m_iStartSeqNo b + int ?k)"
    using seqoff_wrapseq_of [OF rb_coreD(2) [OF c] u(1)] k by simp
  with stored_core [OF c ks(1) e mx(1,2)] mx(3) k(2) u(2) es have c3: "rb_core T ?b" by simp
  have r3: "readable_to ?b r" by (rule stored_readable [OF c ks(2) e r mx(1) es(3)])
  have l: "length (view b) = sz b" using rb_coreD(6) [OF c] .
  have "?k < sz ?b" "pUnit (view ?b ! ?k) = Some u" using ks(2) es(3) g(1) l by simp_all
  from insert_search_ok [OF c3 this, unfolded g(10) posn_frame] obtain x where
    x: "(if \<not> tsbpd_enabled b \<and> m_bMessageAPI b \<and> \<not> u_order u then onInsertNotInOrderPacket ?b (posn b ?k) else Some ?b)
        = Some (?b\<lparr>m_iFirstReadableOutOfOrder := x\<rparr>)" and xb: "-1 \<le> x" "x < m_szSize ?b"
    by blast
  let ?b4 = "?b\<lparr>m_iFirstReadableOutOfOrder := x\<rparr>"
  let ?r = "r + readable (m_bMessageAPI ?b4) (drop r (view ?b4))"
  let ?b5 = "?b4\<lparr>m_iFirstNonreadPos := posn ?b4 ?r\<rparr>"
  have c4: "rb_core T ?b4" by (rule rb_core_froo [OF xb c3])
  have up: "updateNonreadPos ?b4 = Some ?b5" "readable_to ?b5 ?r"
    using updateNonreadPos_ok [OF c4, of r] r3 by simp_all
  have v5: "view ?b5 = (view b)[?k := ?e]" "view ?b4 = view ?b5" "m_bMessageAPI ?b4 = m_bMessageAPI b"
    using es(3) g by simp_all
  have "m_bMessageAPI ?b5 \<longrightarrow> \<not> filler (view ?b5 ! 0)" using h v5 ks l by (simp add: nth_list_update filler_def)
  then have inv: "rb_inv T ?b5" using up(2) c4 unfolding rb_inv_def rb_core_frame by blast
  have ins: "rb_insert b u = Some (0, ?b5)"
    using rb_insert_unfold [OF k ks(2) sh e es(1), folded mx_def] x up(1) by simp
  show ?thesis using inv ins up(2) v5 g by (intro exI [of _ ?b5]) (simp add: tsbpd_enabled_def)
qed

lemma rb_insert_reject:
  assumes i: "rb_inv T b" and k: "k = seqoff (m_iStartSeqNo b) (u_seqno u)"
    and "k < 0 \<or> k \<ge> capacity b \<or> status (view b ! nat k) \<noteq> EntryState_Empty"
  shows "\<exists>c mx. rb_insert b u = Some (c, b\<lparr>m_iMaxPosOff := mx\<rparr>) \<and> rb_inv T (b\<lparr>m_iMaxPosOff := mx\<rparr>)
    \<and> (\<forall>r. readable_to b r \<longrightarrow> readable_to (b\<lparr>m_iMaxPosOff := mx\<rparr>) r)
    \<and> c = (if k < 0 then -2 else if k \<ge> capacity b then -3 else -1)"
proof (cases "k < 0 \<or> k \<ge> capacity b")
  case True
  then show ?thesis using i
    by (intro exI [of _ "if k < 0 then -2 else -3"] exI [of _ "m_iMaxPosOff b"]) (auto simp: rb_insert_def k)
next
  case False
  from i have c: "rb_core T b" by (auto simp: rb_inv_def)
  define mx where "mx = max (m_iMaxPosOff b) (k + 1)"
  have mx: "m_iMaxPosOff b \<le> mx" "mx < m_szSize b"
    using rb_coreD(4) [OF c] False by (auto simp: mx_def capacity_def)
  have "rb_inv T (b\<lparr>m_iMaxPosOff := mx\<rparr>)"
    using i rb_core_raise_max [OF c mx] readable_to_raise_max [OF _ mx(1)] by (auto simp: rb_inv_def)
  moreover have b1: "(if k \<ge> m_iMaxPosOff b then b\<lparr>m_iMaxPosOff := k + 1\<rparr> else b) = b\<lparr>m_iMaxPosOff := mx\<rparr>"
    by (auto simp: mx_def max_def intro!: rcv_buffer.equality)
  have p: "(m_iStartPos b + k) mod m_szSize b = posn b (nat k)" "nat k < sz b"
    using False by (auto simp: posn_def capacity_def)
  have "rb_insert b u = Some (-1, b\<lparr>m_iMaxPosOff := mx\<rparr>)"
    using False assms(3) rd_posn [OF rb_coreD(5) [OF c] p(2)] unfolding rb_insert_def k [symmetric] Let_def b1 p(1)
    by simp
  ultimately show ?thesis using False readable_to_raise_max [OF _ mx(1)]
    by (intro exI [of _ "-1"] exI [of _ mx]) simp
qed

section \<open>Dropping up to a number\<close>

lemma drop_step_ok:
  assumes r: "ring_ok T n0 mx b"
  obtains b' where
    "drop_step cnt b = Some ((fst cnt + (if status (view b ! 0) = EntryState_Empty then 1 else 0),
                             snd cnt + (if status (view b ! 0) = EntryState_Avail then 1 else 0)), b')"
    "ring_ok T (n0 + 1) (mx - 1) b'" "view b' = tl (view b) @ [Entry]" "m_iStartPos b' = posn b 1"
    "cfg b' = cfg b" "m_iStartSeqNo b' = m_iStartSeqNo b" "m_iMaxPosOff b' = m_iMaxPosOff b"
    "m_iBytesCount b' = m_iBytesCount b" "m_iPktsCount b' = m_iPktsCount b"
proof -
  note sh = ring_okD(1) [OF r]
  have z: "0 < sz b" "length (view b) = sz b" using shape_sz(1) [OF sh] ring_okD(6) [OF r] by auto
  obtain b1 where b1: "dropUnitInPos b (posn b 0) = Some (pUnit (view b ! 0) \<noteq> None, b1)"
    "view b1 = (view b)[0 := (if pUnit (view b ! 0) = None then view b ! 0 else Entry)]"
    "geo b1 = geo b" "shape b1" "ring_ok T n0 mx b1" "m_iBytesCount b1 = m_iBytesCount b" "m_iPktsCount b1 = m_iPktsCount b"
    by (rule dropUnitInPos_posn [OF r z(1)])
  note g1 = geoD [OF b1(3)]
  have "0 < sz b1" "pUnit (view b1 ! 0) = None" using b1(2) z g1 by simp_all
  from setStatus_ring [OF b1(5) this, of EntryState_Empty] obtain b2 where
    b2: "setStatus b1 (posn b1 0) EntryState_Empty = Some b2" "view b2 = (view b1)[0 := \<lparr>pUnit = None, status = EntryState_Empty\<rparr>]"
    "geo b2 = geo b1" "shape b2" "ring_ok T n0 mx b2" "b2 = b1\<lparr>m_entries := m_entries b2\<rparr>" by blast
  note g2 = geoD [OF b2(3)]
  let ?b = "b2\<lparr>m_iStartPos := posn b2 1\<rparr>"
  have sh': "shape ?b" using b2(4) posn_bounds [OF b2(4), of 1] by (simp add: shape_def)
  have "view b2 ! 0 = Entry" using b2(2) b1(2) z by (simp add: Entry_def)
  from ring_ok_advance [OF b2(5) this sh' view_advance [OF b2(4)]]
  have ring: "ring_ok T (n0 + 1) (mx - 1) ?b" and v: "view ?b = tl (view b2) @ [Entry]"
    by (simp_all add: tsbpd_enabled_def)
  have counts: "m_iBytesCount b2 = m_iBytesCount b" "m_iPktsCount b2 = m_iPktsCount b"
    using b1(6,7) by (subst b2(6), simp)+
  have "drop_step cnt b = Some ((fst cnt + (if status (view b ! 0) = EntryState_Empty then 1 else 0),
        snd cnt + (if status (view b ! 0) = EntryState_Avail then 1 else 0)), ?b)"
    using b1(1) b2(1) rd_posn [OF sh z(1)] sh g1 g2 posn_Suc [of b2 0] b2(4)
    by (auto simp: drop_step_def Let_def)
  moreover have "tl (view b2) = tl (view b)" using b2(2) b1(2) by (cases "view b") auto
  moreover have "cfg ?b = cfg b" using g1 g2 by (simp add: cfg_def tsbpd_enabled_def)
  ultimately show ?thesis using that [of ?b] ring v g1 g2 counts by simp
qed

text \<open>How many of the first \<open>n\<close> cells are missing (beyond the ring all are) and how many are available.\<close>

definition missing :: "nat \<Rightarrow> entry list \<Rightarrow> int" where
  "missing n v = int (length (filter (\<lambda>e. status e = EntryState_Empty) (take n v))) + int (n - length v)"

definition available :: "nat \<Rightarrow> entry list \<Rightarrow> int" where
  "available n v = int (length (filter (\<lambda>e. status e = EntryState_Avail) (take n v)))"

lemma missing_available_Suc:
  assumes "v \<noteq> []"
  shows "missing (Suc n) v = (if status (v ! 0) = EntryState_Empty then 1 else 0) + missing n (tl v @ [Entry])"
    "available (Suc n) v = (if status (v ! 0) = EntryState_Avail then 1 else 0) + available n (tl v @ [Entry])"
proof -
  from assms obtain e es where v: "v = e # es" by (cases v) auto
  have t: "take n [Entry] = (if n = 0 then [] else [Entry])" for n by (cases n) auto
  show "missing (Suc n) v = (if status (v ! 0) = EntryState_Empty then 1 else 0) + missing n (tl v @ [Entry])"
    by (auto simp: v missing_def t)
  show "available (Suc n) v = (if status (v ! 0) = EntryState_Avail then 1 else 0) + available n (tl v @ [Entry])"
    by (auto simp: v available_def t)
qed

lemma drop_loop_ok:
  assumes "ring_ok T n0 mx b"
  shows "\<exists>b'. drop_loop n cnt b = Some ((fst cnt + missing n (view b), snd cnt + available n (view b)), b')
    \<and> ring_ok T (n0 + int n) (mx - int n) b' \<and> view b' = drop n (view b) @ replicate (min n (length (view b))) Entry
    \<and> m_iStartPos b' = posn b n \<and> cfg b' = cfg b \<and> m_iStartSeqNo b' = m_iStartSeqNo b \<and> m_iMaxPosOff b' = m_iMaxPosOff b
    \<and> m_iBytesCount b' = m_iBytesCount b \<and> m_iPktsCount b' = m_iPktsCount b"
  using assms
proof (induction n arbitrary: n0 mx b cnt)
  case 0
  then show ?case using ring_okD(1,6) [OF 0] by (simp add: missing_def available_def)
next
  case (Suc n)
  obtain b1 where b1:
    "drop_step cnt b = Some ((fst cnt + (if status (view b ! 0) = EntryState_Empty then 1 else 0),
                             snd cnt + (if status (view b ! 0) = EntryState_Avail then 1 else 0)), b1)"
    "ring_ok T (n0 + 1) (mx - 1) b1" "view b1 = tl (view b) @ [Entry]" "m_iStartPos b1 = posn b 1"
    "cfg b1 = cfg b" "m_iStartSeqNo b1 = m_iStartSeqNo b" "m_iMaxPosOff b1 = m_iMaxPosOff b"
    "m_iBytesCount b1 = m_iBytesCount b" "m_iPktsCount b1 = m_iPktsCount b"
    by (rule drop_step_ok [OF Suc.prems])
  let ?cnt = "(fst cnt + (if status (view b ! 0) = EntryState_Empty then 1 else 0),
               snd cnt + (if status (view b ! 0) = EntryState_Avail then 1 else 0))"
  from Suc.IH [OF b1(2), of ?cnt] obtain b' where b':
    "drop_loop n ?cnt b1 = Some ((fst ?cnt + missing n (view b1), snd ?cnt + available n (view b1)), b')"
    "ring_ok T (n0 + 1 + int n) (mx - 1 - int n) b'" "view b' = drop n (view b1) @ replicate (min n (length (view b1))) Entry"
    "m_iStartPos b' = posn b1 n" "cfg b' = cfg b1" "m_iStartSeqNo b' = m_iStartSeqNo b1" "m_iMaxPosOff b' = m_iMaxPosOff b1"
    "m_iBytesCount b' = m_iBytesCount b1" "m_iPktsCount b' = m_iPktsCount b1" by blast
  have ne: "view b \<noteq> []" using ring_okD(6) [OF Suc.prems] shape_sz(1) [OF ring_okD(1) [OF Suc.prems]] by auto
  then have v1: "view b1 = drop 1 (view b) @ replicate (min 1 (length (view b))) Entry"
    using b1(3) by (cases "view b") auto
  have "posn b1 n = posn b (Suc n)"
    using b1(4,5) by (simp add: posn_def cfg_def mod_add_left_eq ac_simps mod_add_right_eq)
  moreover have "drop_loop (Suc n) cnt b = Some ((fst cnt + missing (Suc n) (view b), snd cnt + available (Suc n) (view b)), b')"
    using b1(1,3) b'(1) by (simp add: missing_available_Suc [OF ne])
  moreover have "ring_ok T (n0 + int (Suc n)) (mx - int (Suc n)) b'" using b'(2) by (simp add: algebra_simps)
  ultimately show ?case using b' b1 drop_fill_trans [OF v1 b'(3)] by simp
qed

lemma rb_core_shape_fields:
  assumes "ring_ok T n0 mx b" "m_iStartSeqNo b = wrapseq n0" "mx \<le> m_iMaxPosOff b" "0 \<le> m_iMaxPosOff b" "m_iMaxPosOff b < m_szSize b"
  shows "rb_core T b"
  using ring_ok_mono [OF assms(1,3), of "wrapseq n0"] assms by (simp add: rb_core_def)

lemma dropUpTo_ok:
  assumes i: "rb_inv T b" and s: "valid_seq seqno" "0 < seqoff (m_iStartSeqNo b) seqno"
  defines "n \<equiv> nat (seqoff (m_iStartSeqNo b) seqno)"
  defines "m \<equiv> length (takeWhile filler (drop n (view b)))"
  shows "\<exists>b'. dropUpTo b seqno = Some ((missing n (view b), available n (view b)), b') \<and> rb_inv T b'
    \<and> view b' = drop (n + m) (view b) @ replicate (min (n + m) (sz b)) Entry
    \<and> m_iStartSeqNo b' = wrapseq (m_iStartSeqNo b + int (n + m)) \<and> m_bMessageAPI b' = m_bMessageAPI b
    \<and> m_iBytesCount b' = m_iBytesCount b \<and> m_iPktsCount b' = m_iPktsCount b"
proof -
  from i obtain r where c: "rb_core T b" and r: "readable_to b r" by (auto simp: rb_inv_def)
  note rg = rb_coreD(1) [OF c] and l = rb_coreD(6) [OF c]
  let ?mx = "if m_iMaxPosOff b - int n < 0 then 0 else m_iMaxPosOff b - int n"
  let ?b1 = "b\<lparr>m_iMaxPosOff := ?mx\<rparr>"
  have n: "int n = seqoff (m_iStartSeqNo b) seqno" using s by (simp add: n_def)
  have seq: "seqno = wrapseq (m_iStartSeqNo b + int n)"
    using seqoff_wrapseq_of [OF rb_coreD(2) [OF c] s(1)] s(2) n by simp
  have "ring_ok T (m_iStartSeqNo b) (m_iMaxPosOff b) ?b1"
    using rg by (simp add: ring_ok_def shape_def ooo_ok_def tsbpd_enabled_def)
  from drop_loop_ok [OF this, of n "(0, 0)"] obtain b2 where b2:
    "drop_loop n (0, 0) ?b1 = Some ((missing n (view b), available n (view b)), b2)"
    "ring_ok T (m_iStartSeqNo b + int n) (m_iMaxPosOff b - int n) b2"
    "view b2 = drop n (view b) @ replicate (min n (length (view b))) Entry"
    "m_iStartPos b2 = posn b n" "cfg b2 = cfg b" "m_iMaxPosOff b2 = ?mx"
    "m_iBytesCount b2 = m_iBytesCount b" "m_iPktsCount b2 = m_iPktsCount b"
    by (auto simp: cfg_def tsbpd_enabled_def)
  let ?b2 = "b2\<lparr>m_iStartSeqNo := seqno\<rparr>"
  have c2: "rb_core T ?b2"
    by (rule rb_core_shape_fields [of _ "m_iStartSeqNo b + int n" "m_iMaxPosOff b - int n"])
      (use b2(2,5,6) seq rb_coreD(3,4) [OF c] in \<open>auto simp: ring_ok_def shape_def ooo_ok_def tsbpd_enabled_def cfg_def\<close>)
  have s2: "shifted n b ?b2" using b2 seq by (auto simp: shifted_def cfg_def tsbpd_enabled_def max_def)
  have m: "length (takeWhile filler (view ?b2)) = m"
  proof -
    have "takeWhile filler (xs @ replicate k Entry) = takeWhile filler xs" for xs k
      by (induction xs) (cases k; auto)+
    then show ?thesis by (simp add: b2(3) m_def)
  qed
  from releaseNextFillerEntries_ok [OF c2] obtain b3 where b3: "releaseNextFillerEntries ?b2 = Some b3"
    "shifted m ?b2 b3" "rb_core T b3" "\<not> filler (view b3 ! 0)" "m_iBytesCount b3 = m_iBytesCount b2" "m_iPktsCount b3 = m_iPktsCount b2"
    unfolding m by auto
  note s3 = shifted_trans [OF s2 b3(2)]
  let ?inr = "isInRange (m_iStartPos b3) (m_iMaxPosOff b3) (m_szSize b3) (m_iFirstNonreadPos b3)"
  obtain q where q: "(if \<not> ?inr then updateNonreadPos (b3\<lparr>m_iFirstNonreadPos := m_iStartPos b3\<rparr>) else Some b3)
      = Some (b3\<lparr>m_iFirstNonreadPos := q\<rparr>)" and rq: "\<exists>r. readable_to (b3\<lparr>m_iFirstNonreadPos := q\<rparr>) r"
  proof (cases ?inr)
    case True
    with shifted_nonread(1) [OF c b3(3) r s3] that [of "m_iFirstNonreadPos b3"] show ?thesis by auto
  next
    case False
    let ?c = "b3\<lparr>m_iFirstNonreadPos := m_iStartPos b3\<rparr>"
    have "readable_to ?c 0" using rb_coreD(5) [OF b3(3)] by (intro readable_to_0) (auto simp: shape_def)
    from updateNonreadPos_ok [OF _ this, of T] b3(3) False that show ?thesis by fastforce
  qed
  let ?b4 = "b3\<lparr>m_iFirstNonreadPos := q\<rparr>"
  have c4: "rb_core T ?b4" using b3(3) by simp
  from update_search_ok [OF c4, of "\<not> tsbpd_enabled ?b4 \<and> m_bMessageAPI ?b4"] obtain x where
    x: "(if \<not> tsbpd_enabled ?b4 \<and> m_bMessageAPI ?b4 then updateFirstReadableOutOfOrder ?b4 else Some ?b4)
      = Some (?b4\<lparr>m_iFirstReadableOutOfOrder := x\<rparr>)" "-1 \<le> x" "x < m_szSize ?b4" by blast
  let ?b5 = "?b4\<lparr>m_iFirstReadableOutOfOrder := x\<rparr>"
  have "rb_inv T ?b5" using rb_core_froo [OF x(2,3) c4] rq b3(4) by (simp add: rb_inv_def)
  moreover have "dropUpTo b seqno = Some ((missing n (view b), available n (view b)), ?b5)"
    using s b2(1) b3(1) q x(1) unfolding dropUpTo_def n [symmetric] Let_def by simp
  ultimately show ?thesis using s3 b3 b2 l by (intro exI [of _ ?b5]) (simp add: shifted_def cfg_def)
qed

end
