(* ===== verification/RcvBufferRead.thy ===== *)
theory RcvBufferRead
  imports RcvBufferOps
begin

text \<open>Reading messages and bytes from the receiver buffer.\<close>

section \<open>One packet of a message\<close>

lemma rm_take_fields [simp]:
  "view (rm_take b u) = view b" "geo (rm_take b u) = geo b" "m_pUnitQueue (rm_take b u) = m_pUnitQueue b"
  "m_iFirstReadableOutOfOrder (rm_take b u) = m_iFirstReadableOutOfOrder b" "m_entries (rm_take b u) = m_entries b"
  "posn (rm_take b u) k = posn b k" "m_iBytesCount (rm_take b u) = m_iBytesCount b" "m_iPktsCount (rm_take b u) = m_iPktsCount b"
  by (simp_all add: rm_take_def Let_def updateTsbPdTimeBase_def geo_def tsbpd_enabled_def)

lemma rm_take_num:
  "m_numOutOfOrderPackets (rm_take b u)
    = m_numOutOfOrderPackets b - (if m_numOutOfOrderPackets b \<noteq> 0 \<and> \<not> u_order u then 1 else 0)"
  by (simp add: rm_take_def Let_def updateTsbPdTimeBase_def)

lemma rm_release:
  assumes c: "rb_core T b" and k: "k < sz b" "pUnit (view b ! k) = Some u"
  obtains b' where "releaseUnitInPos (rm_take b u) (posn b k) = Some b'" "view b' = (view b)[k := Entry]" "geo b' = geo b"
    "rb_core T b'" "m_iFirstReadableOutOfOrder b' = m_iFirstReadableOutOfOrder b" "m_iBytesCount b' = m_iBytesCount b"
    "m_iPktsCount b' = m_iPktsCount b"
proof -
  note r = rb_coreD(1) [OF c]
  let ?b = "rm_take b u"
  have "shape ?b" by (rule shape_geo [OF rm_take_fields(2) _ rb_coreD(5) [OF c]]) simp
  moreover have "k < sz ?b" using k geoD(1) [OF rm_take_fields(2), of b u] by simp
  ultimately obtain b' where b': "releaseUnitInPos ?b (posn ?b k) = Some b'" "view b' = (view ?b)[k := Entry]" "geo b' = geo ?b"
    "shape b'" "m_numOutOfOrderPackets b' = m_numOutOfOrderPackets ?b"
    "m_iFirstReadableOutOfOrder b' = m_iFirstReadableOutOfOrder ?b"
    "m_pUnitQueue b' = (case pUnit (view ?b ! k) of None \<Rightarrow> m_pUnitQueue ?b | Some u \<Rightarrow> makeUnitFree (m_pUnitQueue ?b) u)"
    "m_iBytesCount b' = m_iBytesCount ?b" "m_iPktsCount b' = m_iPktsCount ?b"
    using releaseUnitInPos_posn by metis
  have u: "unordered (view b ! k) \<longleftrightarrow> \<not> u_order u" using k by (simp add: unordered_def)
  have "0 < int (length (filter unordered (view b)))" if "\<not> u_order u"
    using that u k rb_coreD(6) [OF c] nth_mem [of k "view b"] by (auto simp: filter_empty_conv)
  then have n: "0 \<le> m_numOutOfOrderPackets ?b" "\<not> tsbpd_enabled b \<Longrightarrow> m_numOutOfOrderPackets ?b
      = m_numOutOfOrderPackets b - (if m_bMessageAPI b \<and> unordered (view b ! k) then 1 else 0)"
    using ring_okD(4) [OF r] by (auto simp: ooo_ok_def u rm_take_num)
  have "ring_ok T (m_iStartSeqNo b) (m_iMaxPosOff b) b'"
    by (rule ring_ok_clear [OF r k(1), where e = Entry]) (use b' n k in simp_all)
  then have "rb_core T b'" using c geoD [of b' b] b'(3) by (simp add: rb_core_def)
  with that [of b'] b' show ?thesis by simp
qed

lemma rm_step_in_order:
  assumes c: "rb_core T b" and u: "pUnit (view b ! 0) = Some u"
  obtains b' where "rm_leave (rm_take b u) True (m_iStartPos b) u = Some b'" "shifted 1 b b'" "rb_core T b'"
    "m_iFirstReadableOutOfOrder b' = m_iFirstReadableOutOfOrder b" "m_iBytesCount b' = m_iBytesCount b"
    "m_iPktsCount b' = m_iPktsCount b"
proof -
  have z: "0 < sz b" using shape_sz(1) [OF rb_coreD(5) [OF c]] by simp
  obtain b1 where b1: "releaseUnitInPos (rm_take b u) (posn b 0) = Some b1" "view b1 = (view b)[0 := Entry]" "geo b1 = geo b"
    "rb_core T b1" "m_iFirstReadableOutOfOrder b1 = m_iFirstReadableOutOfOrder b" "m_iBytesCount b1 = m_iBytesCount b"
    "m_iPktsCount b1 = m_iPktsCount b" by (rule rm_release [OF c z u])
  note g = geoD [OF b1(3)] and v = ring_ok_unit [OF rb_coreD(1) [OF c] z u]
  let ?b = "b1\<lparr>m_iStartPos := posn b1 1, m_iStartSeqNo := wrapseq (m_iStartSeqNo b1 + 1),
      m_iMaxPosOff := max 0 (m_iMaxPosOff b1 - 1)\<rparr>"
  have "view b1 ! 0 = Entry" using b1(2) z rb_coreD(6) [OF c] by simp
  note adv = advance_shifted [OF b1(4) this refl]
  have "shifted 1 b ?b" using adv(1) b1(2) g cfg_geo [OF b1(3)] by (cases "view b") (auto simp: shifted_def)
  moreover have "rm_leave (rm_take b u) True (m_iStartPos b) u = Some ?b"
    using b1(1) v(1,2) rb_coreD(5) [OF c] posn_Suc [of b1 0] g rb_coreD(5) [OF b1(4)]
    by (simp add: rm_leave_def incseq_wrapseq)
  ultimately show ?thesis using that [of ?b] adv(2) b1 by simp
qed

definition ReadEntry :: entry where
  "ReadEntry = \<lparr>pUnit = None, status = EntryState_Read\<rparr>"

lemma rm_step_out_of_order:
  assumes c: "rb_core T b" and k: "k < sz b" "pUnit (view b ! k) = Some u"
  obtains b' where "rm_leave (rm_take b u) False (posn b k) u = Some b'" "view b' = (view b)[k := ReadEntry]"
    "geo b' = geo b" "rb_core T b'" "m_iFirstReadableOutOfOrder b' = m_iFirstReadableOutOfOrder b"
    "m_iBytesCount b' = m_iBytesCount b" "m_iPktsCount b' = m_iPktsCount b"
proof -
  obtain b1 where b1: "releaseUnitInPos (rm_take b u) (posn b k) = Some b1" "view b1 = (view b)[k := Entry]" "geo b1 = geo b"
    "rb_core T b1" "m_iFirstReadableOutOfOrder b1 = m_iFirstReadableOutOfOrder b" "m_iBytesCount b1 = m_iBytesCount b"
    "m_iPktsCount b1 = m_iPktsCount b" by (rule rm_release [OF c k])
  note g = geoD [OF b1(3)]
  have k1: "k < sz b1" "pUnit (view b1 ! k) = None" using k b1(2) g rb_coreD(6) [OF c] by simp_all
  have nl: "k \<noteq> sz b1 - 1" using ring_ok_unit(3) [OF rb_coreD(1) [OF c] k] g by simp
  from setStatus_ring [OF rb_coreD(1) [OF b1(4)] k1, of EntryState_Read] nl obtain b2 where
    b2: "setStatus b1 (posn b1 k) EntryState_Read = Some b2" "view b2 = (view b1)[k := \<lparr>pUnit = None, status = EntryState_Read\<rparr>]"
    "geo b2 = geo b1" "ring_ok T (m_iStartSeqNo b1) (m_iMaxPosOff b1) b2" "b2 = b1\<lparr>m_entries := m_entries b2\<rparr>" by blast
  have "rb_core T b2" using b2(4) b1(4) geoD [OF b2(3)] by (simp add: rb_core_def)
  moreover have "m_iFirstReadableOutOfOrder b2 = m_iFirstReadableOutOfOrder b" "m_iBytesCount b2 = m_iBytesCount b"
    "m_iPktsCount b2 = m_iPktsCount b" using b1(5,6,7) by (subst b2(5), simp)+
  moreover have "rm_leave (rm_take b u) False (posn b k) u = Some b2" using b1(1) b2(1) g by (simp add: rm_leave_def)
  ultimately show ?thesis using that [of b2] b2 b1 by (simp add: ReadEntry_def)
qed

section \<open>The packets of a message\<close>

text \<open>The packets that \<^verbatim>\<open>readMessage\<close> takes from the cells it is pointed at.\<close>

fun span :: "entry list \<Rightarrow> cunit list" where
  "span [] = []"
| "span (e # es) = (case pUnit e of None \<Rightarrow> [] | Some u \<Rightarrow> if u_last u then [u] else u # span es)"

abbreviation payload :: "cunit list \<Rightarrow> byte list" where "payload us \<equiv> concat (map u_data us)"

lemma span_snoc: "pUnit e = None \<Longrightarrow> span (es @ [e]) = span es"
  by (induction es) (auto split: option.splits)

lemma length_span_le: "length (span es) \<le> length es"
  by (induction es) (auto split: option.splits)

lemma span_nth: "i < length (span es) \<Longrightarrow> pUnit (es ! i) = Some (span es ! i)"
  by (induction es arbitrary: i) (auto simp: nth_Cons split: option.splits if_splits nat.splits)

lemma scan_msg_span: "scan_msg True es = Some n \<Longrightarrow> length (span es) = n \<and> u_last (last (span es)) \<and> span es \<noteq> []"
  by (induction es arbitrary: n) (auto split: option.splits if_splits)

lemma take_payload:
  "take n xs @ take (n - min n (length xs)) ys = take n (xs @ ys)"
  by (cases "n \<le> length xs") (auto simp: min_def)

lemma rm_loop_in_order:
  assumes "rb_core T b"
  shows "\<exists>b' mc'. rm_loop rp True remain (m_iStartPos b) (b, mc, dst, pk, bs)
      = Some (b', mc', dst @ take remain (payload (span (view b))), pk + int (length (span (view b))),
              bs + int (length (payload (span (view b)))))
    \<and> shifted (length (span (view b))) b b' \<and> rb_core T b'
    \<and> m_iBytesCount b' = m_iBytesCount b \<and> m_iPktsCount b' = m_iPktsCount b"
  using assms
proof (induction "length (span (view b))" arbitrary: b remain mc dst pk bs)
  case 0
  note c = 0(2)
  have l: "length (view b) = sz b" "0 < sz b" using rb_coreD(6) [OF c] shape_sz(1) [OF rb_coreD(5) [OF c]] by auto
  then obtain e es where v: "view b = e # es" by (cases "view b") auto
  with 0(1) have "pUnit e = None" by (auto split: option.splits if_splits)
  then show ?case using rd_posn [OF rb_coreD(5) [OF c] l(2)] rb_coreD(5) [OF c] v shifted_0 [OF c] c
    by (subst rm_loop.simps) simp
next
  case (Suc n)
  note c = Suc(3)
  have l: "length (view b) = sz b" "0 < sz b" using rb_coreD(6) [OF c] shape_sz(1) [OF rb_coreD(5) [OF c]] by auto
  then obtain e es where v: "view b = e # es" by (cases "view b") auto
  with Suc(2) obtain u where u: "pUnit e = Some u" by (auto split: option.splits)
  obtain b1 where b1: "rm_leave (rm_take b u) True (m_iStartPos b) u = Some b1" "shifted 1 b b1" "rb_core T b1"
    "m_iFirstReadableOutOfOrder b1 = m_iFirstReadableOutOfOrder b" "m_iBytesCount b1 = m_iBytesCount b"
    "m_iPktsCount b1 = m_iPktsCount b" using rm_step_in_order [OF c, of u] u v by auto
  let ?mc = "map_option (rm_ctrl (rm_take b u) u) mc" and ?s = "min remain (length (u_data u))"
  have rd: "rd (m_entries b) (m_iStartPos b) = Some e" using rd_posn [OF rb_coreD(5) [OF c] l(2)] rb_coreD(5) [OF c] v by simp
  show ?case
  proof (cases "u_last u")
    case True
    let ?b = "if rp = m_iFirstReadableOutOfOrder b1 then b1\<lparr>m_iFirstReadableOutOfOrder := -1\<rparr> else b1"
    have "rm_loop rp True remain (m_iStartPos b) (b, mc, dst, pk, bs)
        = Some (?b, ?mc, dst @ take remain (u_data u), pk + 1, bs + int (length (u_data u)))"
      using rd u b1(1) True by (subst rm_loop.simps) (simp add: Let_def min_def)
    moreover have "rb_core T ?b" "shifted 1 b ?b"
      using rb_core_froo [of "-1" b1 T] b1 rb_coreD(5) [OF b1(3)]
      by (auto simp: shape_def shifted_def cfg_def tsbpd_enabled_def)
    ultimately show ?thesis using v u True b1 by auto
  next
    case False
    have sp: "span (view b1) = span es" using b1(2) v by (simp add: shifted_def span_snoc)
    have n: "n = length (span (view b1))" using Suc(2) v u False sp by simp
    have next': "incPos b1 (m_iStartPos b) 1 = m_iStartPos b1"
      using b1(2) rb_coreD(5) [OF c] posn_Suc [of b 0] by (simp add: shifted_def cfg_def incPos_def)
    from Suc(1) [OF n b1(3), of "remain - ?s" ?mc "dst @ take ?s (u_data u)" "pk + 1" "bs + int (length (u_data u))"]
    obtain b' mc' where b':
      "rm_loop rp True (remain - ?s) (m_iStartPos b1) (b1, ?mc, dst @ take ?s (u_data u), pk + 1, bs + int (length (u_data u)))
        = Some (b', mc', (dst @ take ?s (u_data u)) @ take (remain - ?s) (payload (span es)), pk + 1 + int (length (span es)),
                bs + int (length (u_data u)) + int (length (payload (span es))))"
      "shifted (length (span es)) b1 b'" "rb_core T b'" "m_iBytesCount b' = m_iBytesCount b1" "m_iPktsCount b' = m_iPktsCount b1"
      unfolding sp by blast
    have t: "take ?s (u_data u) @ take (remain - ?s) (payload (span es)) = take remain (u_data u @ payload (span es))"
      using take_payload [of remain "u_data u"] by (simp add: min_def)
    have "rm_loop rp True remain (m_iStartPos b) (b, mc, dst, pk, bs)
        = Some (b', mc', dst @ take remain (u_data u @ payload (span es)), pk + 1 + int (length (span es)),
                bs + int (length (u_data u)) + int (length (payload (span es))))"
      using rd u b1(1) False b'(1) unfolding t [symmetric] append_assoc
      by (subst rm_loop.simps) (simp add: Let_def next')
    moreover have "shifted (Suc (length (span es))) b b'" using shifted_trans [OF b1(2) b'(2)] by simp
    ultimately show ?thesis using v u False b' b1 by (simp add: ac_simps)
  qed
qed

text \<open>The cells after a message was read out of order.\<close>

definition mark_read :: "nat \<Rightarrow> nat \<Rightarrow> entry list \<Rightarrow> entry list" where
  "mark_read k n v = take k v @ replicate n ReadEntry @ drop (k + n) v"

lemma mark_read_0 [simp]: "mark_read k 0 v = v"
  by (simp add: mark_read_def)

lemma mark_read_Suc:
  assumes "k < length v" "Suc k + n \<le> length v"
  shows "mark_read (Suc k) n (v[k := ReadEntry]) = mark_read k (Suc n) v"
  using assms by (simp add: mark_read_def take_Suc_conv_app_nth)

lemma rm_loop_out_of_order:
  assumes "rb_core T b" "k < sz b"
  shows "\<exists>b' mc'. rm_loop rp False remain (posn b k) (b, mc, dst, pk, bs)
      = Some (b', mc', dst @ take remain (payload (span (drop k (view b)))), pk + int (length (span (drop k (view b)))),
              bs + int (length (payload (span (drop k (view b))))))
    \<and> geo b' = geo b \<and> rb_core T b' \<and> view b' = mark_read k (length (span (drop k (view b)))) (view b)
    \<and> m_iBytesCount b' = m_iBytesCount b \<and> m_iPktsCount b' = m_iPktsCount b"
  using assms
proof (induction "length (span (drop k (view b)))" arbitrary: b k remain mc dst pk bs)
  case 0
  note c = 0(2)
  have "pUnit (view b ! k) = None"
    using 0(1) drop_view_Cons [OF c 0(3)] by (auto split: option.splits if_splits)
  then show ?case using rd_posn [OF rb_coreD(5) [OF c] 0(3)] c 0(1) drop_view_Cons [OF c 0(3)]
    by (subst rm_loop.simps) simp
next
  case (Suc n)
  note c = Suc(3) and k = Suc(4)
  note d = drop_view_Cons [OF c k] and l = rb_coreD(6) [OF c]
  from Suc(2) d obtain u where u: "pUnit (view b ! k) = Some u" by (auto split: option.splits)
  obtain b1 where b1: "rm_leave (rm_take b u) False (posn b k) u = Some b1" "view b1 = (view b)[k := ReadEntry]"
    "geo b1 = geo b" "rb_core T b1" "m_iFirstReadableOutOfOrder b1 = m_iFirstReadableOutOfOrder b"
    "m_iBytesCount b1 = m_iBytesCount b" "m_iPktsCount b1 = m_iPktsCount b" by (rule rm_step_out_of_order [OF c k u])
  note g = geoD [OF b1(3)]
  let ?mc = "map_option (rm_ctrl (rm_take b u) u) mc" and ?s = "min remain (length (u_data u))"
  note rd = rd_posn [OF rb_coreD(5) [OF c] k]
  show ?case
  proof (cases "u_last u")
    case True
    let ?b = "if rp = m_iFirstReadableOutOfOrder b1 then b1\<lparr>m_iFirstReadableOutOfOrder := -1\<rparr> else b1"
    have "rm_loop rp False remain (posn b k) (b, mc, dst, pk, bs)
        = Some (?b, ?mc, dst @ take remain (u_data u), pk + 1, bs + int (length (u_data u)))"
      using rd u b1(1) True by (subst rm_loop.simps) (simp add: Let_def min_def)
    moreover have "rb_core T ?b" "geo ?b = geo b"
      using rb_core_froo [of "-1" b1 T] b1 rb_coreD(5) [OF b1(4)] by (auto simp: shape_def)
    moreover have "view ?b = mark_read k 1 (view b)"
      using b1(2) k l by (simp add: mark_read_def upd_conv_take_nth_drop)
    ultimately show ?thesis using d u True b1 by auto
  next
    case False
    have k1: "Suc k < sz b" using ring_ok_unit(3) [OF rb_coreD(1) [OF c] k u] by simp
    have sp: "span (drop (Suc k) (view b1)) = span (drop (Suc k) (view b))" using b1(2) by simp
    have n: "n = length (span (drop (Suc k) (view b1)))" using Suc(2) d u False sp by simp
    have pos: "posn b1 (Suc k) = incPos b1 (posn b k) 1" using g posn_Suc [of b1 k] by simp
    let ?sp = "span (drop (Suc k) (view b))"
    from Suc(1) [OF n b1(4), of "remain - ?s" ?mc "dst @ take ?s (u_data u)" "pk + 1" "bs + int (length (u_data u))"] k1 g(1)
    obtain b' mc' where b':
      "rm_loop rp False (remain - ?s) (posn b1 (Suc k)) (b1, ?mc, dst @ take ?s (u_data u), pk + 1, bs + int (length (u_data u)))
        = Some (b', mc', (dst @ take ?s (u_data u)) @ take (remain - ?s) (payload ?sp), pk + 1 + int (length ?sp),
                bs + int (length (u_data u)) + int (length (payload ?sp)))"
      "geo b' = geo b1" "rb_core T b'" "view b' = mark_read (Suc k) (length ?sp) (view b1)"
      "m_iBytesCount b' = m_iBytesCount b1" "m_iPktsCount b' = m_iPktsCount b1"
      unfolding sp by auto
    have t: "take ?s (u_data u) @ take (remain - ?s) (payload ?sp) = take remain (u_data u @ payload ?sp)"
      using take_payload [of remain "u_data u"] by (simp add: min_def)
    have "rm_loop rp False remain (posn b k) (b, mc, dst, pk, bs)
        = Some (b', mc', dst @ take remain (u_data u @ payload ?sp), pk + 1 + int (length ?sp),
                bs + int (length (u_data u)) + int (length (payload ?sp)))"
      using rd u b1(1) False b'(1) unfolding t [symmetric] append_assoc pos
      by (subst rm_loop.simps) (simp add: Let_def)
    moreover have "view b' = mark_read k (Suc (length ?sp)) (view b)"
      using b'(4) b1(2) mark_read_Suc [of k "view b" "length ?sp"] k l length_span_le [of "drop (Suc k) (view b)"] k1 by simp
    ultimately show ?thesis using d u False b' b1 by (simp add: ac_simps)
  qed
qed

section \<open>Reading a message\<close>

text \<open>What follows the loop of \<^verbatim>\<open>readMessage\<close>.\<close>

lemma read_tail_ok:
  assumes c: "rb_core T b" and r: "readable_to b r" and s: "shifted n b b1" and c1: "rb_core T b1"
  defines "m \<equiv> length (takeWhile filler (view b1))"
  shows "\<exists>b4. do { b2 \<leftarrow> releaseNextFillerEntries b1;
      let b3 = (if \<not> isInRange (m_iStartPos b2) (m_iMaxPosOff b2) (m_szSize b2) (m_iFirstNonreadPos b2)
                then b2\<lparr>m_iFirstNonreadPos := m_iStartPos b2\<rparr> else b2);
      b4 \<leftarrow> (if \<not> tsbpd_enabled b3 then updateFirstReadableOutOfOrder b3 else Some b3);
      Some b4 } = Some b4
    \<and> rb_inv T b4 \<and> view b4 = drop (n + m) (view b) @ replicate (min (n + m) (length (view b))) Entry
    \<and> m_iStartSeqNo b4 = wrapseq (m_iStartSeqNo b + int (n + m)) \<and> readable_to b4 (r - (n + m))
    \<and> m_iBytesCount b4 = m_iBytesCount b1 \<and> m_iPktsCount b4 = m_iPktsCount b1 \<and> m_bMessageAPI b4 = m_bMessageAPI b"
proof -
  from releaseNextFillerEntries_ok [OF c1] obtain b2 where b2: "releaseNextFillerEntries b1 = Some b2"
    "shifted m b1 b2" "rb_core T b2" "\<not> filler (view b2 ! 0)" "m_iBytesCount b2 = m_iBytesCount b1" "m_iPktsCount b2 = m_iPktsCount b1"
    unfolding m_def by auto
  note s2 = shifted_trans [OF s b2(2)]
  let ?inr = "isInRange (m_iStartPos b2) (m_iMaxPosOff b2) (m_szSize b2) (m_iFirstNonreadPos b2)"
  let ?b3 = "if \<not> ?inr then b2\<lparr>m_iFirstNonreadPos := m_iStartPos b2\<rparr> else b2"
  have c3: "rb_core T ?b3" using b2(3) by simp
  have r3: "readable_to ?b3 (r - (n + m))"
  proof (cases ?inr)
    case True
    with shifted_nonread(1) [OF c b2(3) r s2] show ?thesis by simp
  next
    case False
    with shifted_nonread(2) [OF c b2(3) r s2] rb_coreD(5) [OF b2(3)] show ?thesis
      by (simp add: readable_to_def)
  qed
  from update_search_ok [OF c3, of "\<not> tsbpd_enabled ?b3"] obtain x where
    x: "(if \<not> tsbpd_enabled ?b3 then updateFirstReadableOutOfOrder ?b3 else Some ?b3)
      = Some (?b3\<lparr>m_iFirstReadableOutOfOrder := x\<rparr>)" "-1 \<le> x" "x < m_szSize ?b3" by blast
  let ?b4 = "?b3\<lparr>m_iFirstReadableOutOfOrder := x\<rparr>"
  have "rb_inv T ?b4" using rb_core_froo [OF x(2,3) c3] r3 b2(4) by (auto simp: rb_inv_def)
  moreover have "view ?b4 = drop (n + m) (view b) @ replicate (min (n + m) (length (view b))) Entry"
    "m_iStartSeqNo ?b4 = wrapseq (m_iStartSeqNo b + int (n + m))" "m_bMessageAPI ?b4 = m_bMessageAPI b"
    using s2 by (auto simp: shifted_def cfg_def)
  ultimately show ?thesis using b2 x(1) r3 by (intro exI [of _ ?b4]) (simp add: Let_def)
qed

lemma readMessage_nothing:
  "\<not> hasReadableInorderPkts b \<Longrightarrow> m_iFirstReadableOutOfOrder b < 0 \<Longrightarrow> readMessage b len mc = Some (0, [], mc, b)"
  by (simp add: readMessage_def)

lemma readMessage_unfold:
  assumes "hasReadableInorderPkts b \<or> 0 \<le> m_iFirstReadableOutOfOrder b"
    and "rp = (if hasReadableInorderPkts b then m_iStartPos b else m_iFirstReadableOutOfOrder b)"
    and "rm_loop rp (rp = m_iStartPos b) len rp (b, mc, [], 0, 0) = Some (b1, mc1, dst, pk, bs)"
    and "do { b2 \<leftarrow> releaseNextFillerEntries (countBytes b1 (- pk) (- bs));
      let b3 = (if \<not> isInRange (m_iStartPos b2) (m_iMaxPosOff b2) (m_szSize b2) (m_iFirstNonreadPos b2)
                then b2\<lparr>m_iFirstNonreadPos := m_iStartPos b2\<rparr> else b2);
      b4 \<leftarrow> (if \<not> tsbpd_enabled b3 then updateFirstReadableOutOfOrder b3 else Some b3);
      Some b4 } = Some b4"
  shows "readMessage b len mc = Some (int (length dst), dst, mc1, b4)"
  using assms by (auto simp: readMessage_def Let_def bind_eq_Some_conv)

text \<open>Reading at the start of the buffer.\<close>

lemma readMessage_at_start:
  assumes i: "rb_inv T b" and r: "readable_to b r"
    and rp: "hasReadableInorderPkts b \<or> m_iFirstReadableOutOfOrder b = m_iStartPos b"
  defines "us \<equiv> span (view b)"
  shows "\<exists>mc' b' m. readMessage b len mc = Some (int (length (take len (payload us))), take len (payload us), mc', b')
    \<and> rb_inv T b' \<and> m = length us + length (takeWhile filler (drop (length us) (view b)))
    \<and> view b' = drop m (view b) @ replicate (min m (length (view b))) Entry
    \<and> m_iStartSeqNo b' = wrapseq (m_iStartSeqNo b + int m) \<and> readable_to b' (r - m)
    \<and> m_iBytesCount b' = m_iBytesCount b - int (length (payload us)) \<and> m_iPktsCount b' = m_iPktsCount b - int (length us)
    \<and> m_bMessageAPI b' = m_bMessageAPI b"
proof -
  from i have c: "rb_core T b" by (simp add: rb_inv_def)
  let ?rp = "if hasReadableInorderPkts b then m_iStartPos b else m_iFirstReadableOutOfOrder b"
  have rp': "?rp = m_iStartPos b" using rp by auto
  from rm_loop_in_order [OF c, of ?rp len mc "[]" 0 0] obtain b1 mc1 where
    b1: "rm_loop ?rp True len (m_iStartPos b) (b, mc, [], 0, 0)
      = Some (b1, mc1, take len (payload us), int (length us), int (length (payload us)))"
    "shifted (length us) b b1" "rb_core T b1" "m_iBytesCount b1 = m_iBytesCount b" "m_iPktsCount b1 = m_iPktsCount b"
    unfolding us_def by auto
  let ?b1 = "countBytes b1 (- int (length us)) (- int (length (payload us)))"
  have s: "shifted (length us) b ?b1" using b1(2) geoD [OF countBytes_fields(2), of b1]
    by (auto simp: shifted_def cfg_def)
  have c1: "rb_core T ?b1" using b1(3) by simp
  have tw: "takeWhile filler (xs @ replicate k Entry) = takeWhile filler xs" for xs k
    by (induction xs) (cases k; auto)+
  have m: "length (takeWhile filler (view ?b1)) = length (takeWhile filler (drop (length us) (view b)))"
    using b1(2) by (simp add: shifted_def tw)
  from read_tail_ok [OF c r s c1, unfolded m] obtain b4 where b4:
    "do { b2 \<leftarrow> releaseNextFillerEntries ?b1;
      let b3 = (if \<not> isInRange (m_iStartPos b2) (m_iMaxPosOff b2) (m_szSize b2) (m_iFirstNonreadPos b2)
                then b2\<lparr>m_iFirstNonreadPos := m_iStartPos b2\<rparr> else b2);
      b4 \<leftarrow> (if \<not> tsbpd_enabled b3 then updateFirstReadableOutOfOrder b3 else Some b3);
      Some b4 } = Some b4" "rb_inv T b4"
    "view b4 = drop (length us + length (takeWhile filler (drop (length us) (view b)))) (view b)
      @ replicate (min (length us + length (takeWhile filler (drop (length us) (view b)))) (length (view b))) Entry"
    "m_iStartSeqNo b4 = wrapseq (m_iStartSeqNo b + int (length us + length (takeWhile filler (drop (length us) (view b)))))"
    "readable_to b4 (r - (length us + length (takeWhile filler (drop (length us) (view b)))))"
    "m_iBytesCount b4 = m_iBytesCount ?b1" "m_iPktsCount b4 = m_iPktsCount ?b1"
    "m_bMessageAPI b4 = m_bMessageAPI b" by blast
  have "readMessage b len mc = Some (int (length (take len (payload us))), take len (payload us), mc1, b4)"
    by (rule readMessage_unfold [OF _ refl _ b4(1)])
      (use rp b1(1) rb_coreD(5) [OF c] in \<open>auto simp: rp' shape_def\<close>)
  with b4 b1(4,5) show ?thesis by (intro exI [of _ mc1] exI [of _ b4] exI) auto
qed

text \<open>Reading a message out of order.\<close>

lemma readMessage_out_of_order:
  assumes i: "rb_inv T b" and n: "m_bMessageAPI b" "\<not> hasReadableInorderPkts b"
    and k: "m_iFirstReadableOutOfOrder b = posn b k" "0 < k" "k < sz b"
  defines "us \<equiv> span (drop k (view b))"
  shows "\<exists>mc' b'. readMessage b len mc = Some (int (length (take len (payload us))), take len (payload us), mc', b')
    \<and> rb_inv T b' \<and> view b' = mark_read k (length us) (view b) \<and> m_iStartSeqNo b' = m_iStartSeqNo b
    \<and> m_iBytesCount b' = m_iBytesCount b - int (length (payload us)) \<and> m_iPktsCount b' = m_iPktsCount b - int (length us)
    \<and> m_bMessageAPI b' = m_bMessageAPI b"
proof -
  from i have c: "rb_core T b" and h: "\<not> filler (view b ! 0)" using n(1) by (simp_all add: rb_inv_def)
  note sh = rb_coreD(5) [OF c]
  have z: "0 < sz b" using shape_sz(1) [OF sh] by simp
  have ne: "posn b k \<noteq> m_iStartPos b" using posn_inj [OF sh k(3) z] k(2) sh by simp
  have p0: "0 \<le> posn b k" using posn_bounds [OF sh] by simp
  from rm_loop_out_of_order [OF c k(3), of "posn b k" len mc "[]" 0 0] obtain b1 mc1 where
    b1: "rm_loop (posn b k) False len (posn b k) (b, mc, [], 0, 0)
      = Some (b1, mc1, take len (payload us), int (length us), int (length (payload us)))"
    "geo b1 = geo b" "rb_core T b1" "view b1 = mark_read k (length us) (view b)"
    "m_iBytesCount b1 = m_iBytesCount b" "m_iPktsCount b1 = m_iPktsCount b"
    unfolding us_def by auto
  let ?b1 = "countBytes b1 (- int (length us)) (- int (length (payload us)))"
  note g = geoD [OF b1(2)] geoD [OF countBytes_fields(2), of b1]
  have c1: "rb_core T ?b1" using b1(3) by simp
  have v0: "view b1 ! 0 = view b ! 0" using b1(4) k rb_coreD(6) [OF c] by (simp add: mark_read_def nth_append)
  have ne1: "view b1 \<noteq> []" using rb_coreD(6) [OF b1(3)] g z by auto
  then have m: "length (takeWhile filler (view ?b1)) = 0" using v0 h by (cases "view b1") auto
  have r: "readable_to ?b1 0" using n g sh rb_coreD(5) [OF b1(3)] by (simp add: readable_to_def hasReadableInorderPkts_def)
  from read_tail_ok [OF c1 r shifted_0 [OF c1] c1, unfolded m] obtain b4 where b4:
    "do { b2 \<leftarrow> releaseNextFillerEntries ?b1;
      let b3 = (if \<not> isInRange (m_iStartPos b2) (m_iMaxPosOff b2) (m_szSize b2) (m_iFirstNonreadPos b2)
                then b2\<lparr>m_iFirstNonreadPos := m_iStartPos b2\<rparr> else b2);
      b4 \<leftarrow> (if \<not> tsbpd_enabled b3 then updateFirstReadableOutOfOrder b3 else Some b3);
      Some b4 } = Some b4" "rb_inv T b4" "view b4 = view b1" "m_iStartSeqNo b4 = wrapseq (m_iStartSeqNo b1)"
    "m_iBytesCount b4 = m_iBytesCount ?b1" "m_iPktsCount b4 = m_iPktsCount ?b1" "m_bMessageAPI b4 = m_bMessageAPI b1"
    using geoD [OF countBytes_fields(2), of b1] by auto
  have "readMessage b len mc = Some (int (length (take len (payload us))), take len (payload us), mc1, b4)"
    by (rule readMessage_unfold [OF _ _ _ b4(1), of _ "posn b k"]) (use n k b1(1) ne p0 in auto)
  moreover have "m_iStartSeqNo b4 = m_iStartSeqNo b" using b4(4) g rb_coreD(2) [OF c] by (simp add: wrapseq_id)
  ultimately show ?thesis using b4 b1 g by (intro exI [of _ mc1] exI [of _ b4]) simp
qed

end
