(* ===== verification/RcvBufferStream.thy ===== *)
theory RcvBufferStream
  imports RcvBufferRead
begin

text \<open>
  Reading the receiver buffer as a byte stream. The callback that takes the bytes is an interface,
  \<open>byte_sink\<close>: whatever keeps what it is given can be on the other side. It is provided by the copy
  into the caller's memory of \<^verbatim>\<open>CRcvBuffer::readBuffer\<close> and by the output file of \<^verbatim>\<open>readBufferToFile\<close>.
\<close>

section \<open>Reading a stream of bytes\<close>

definition notch_ok :: "rcv_buffer \<Rightarrow> nat \<Rightarrow> bool" where
  "notch_ok b r \<longleftrightarrow> 0 \<le> m_iNotch b
     \<and> (m_iNotch b > 0 \<longrightarrow> 0 < r \<and> (\<exists>u. pUnit (view b ! 0) = Some u \<and> m_iNotch b < int (length (u_data u))))"

text \<open>The bytes that wait for a reader: the payloads of the readable packets from the notch on.\<close>

definition stream :: "rcv_buffer \<Rightarrow> nat \<Rightarrow> byte list" where
  "stream b r = drop (nat (m_iNotch b)) (payload (units_of (take r (view b))))"

definition stream_ok :: "nat set \<Rightarrow> rcv_buffer \<Rightarrow> nat \<Rightarrow> bool" where
  "stream_ok T b r \<longleftrightarrow> rb_core T b \<and> readable_to b r \<and> notch_ok b r \<and> \<not> m_bMessageAPI b"

lemma readable_to_shift:
  assumes c: "rb_core T b" and r: "readable_to b (Suc r)" and s: "shifted 1 b b'"
  shows "readable_to b' r"
proof -
  have "0 < m_iMaxPosOff b" "Suc r \<le> nat (m_iMaxPosOff b)" using r by (auto simp: readable_to_def)
  moreover have "Suc r < length (view b)"
    using le_less_trans [OF calculation(2) max_less_sz [OF c]] rb_coreD(6) [OF c] by simp
  then have "view b' ! k = view b ! Suc k" if "k < r" for k
    using that s by (simp add: shifted_def nth_append)
  ultimately show ?thesis
    using r s shifted_posn [OF s, of r] by (auto simp: readable_to_def shifted_def cfg_def)
qed

lemma rbt_consume_all:
  assumes c: "rb_core T b" and api: "\<not> m_bMessageAPI b" and u: "pUnit (view b ! 0) = Some u" and rs: "rem \<le> rs"
  obtains b' where "rbt_consume b (m_iStartPos b) rs rem = Some b'" "shifted 1 b (b'\<lparr>m_iNotch := m_iNotch b\<rparr>)"
    "rb_core T b'" "m_iNotch b' = 0" "m_iBytesCount b' = m_iBytesCount b" "m_iPktsCount b' = m_iPktsCount b"
proof -
  note r = rb_coreD(1) [OF c] and sh = rb_coreD(5) [OF c]
  have z: "0 < sz b" using shape_sz(1) [OF sh] by simp
  obtain b1 where b1: "releaseUnitInPos b (posn b 0) = Some b1" "view b1 = (view b)[0 := Entry]" "geo b1 = geo b"
    "shape b1" "m_numOutOfOrderPackets b1 = m_numOutOfOrderPackets b"
    "m_iFirstReadableOutOfOrder b1 = m_iFirstReadableOutOfOrder b"
    "m_pUnitQueue b1 = (case pUnit (view b ! 0) of None \<Rightarrow> m_pUnitQueue b | Some u \<Rightarrow> makeUnitFree (m_pUnitQueue b) u)"
    "m_iBytesCount b1 = m_iBytesCount b" "m_iPktsCount b1 = m_iPktsCount b"
    using releaseUnitInPos_posn [OF sh z] by metis
  note g = geoD [OF b1(3)]
  have "ring_ok T (m_iStartSeqNo b) (m_iMaxPosOff b) b1"
    by (rule ring_ok_clear [OF r z b1(3,4,2)]) (use b1 api ring_okD(4) [OF r] in \<open>simp_all add: ooo_ok_def\<close>)
  then have c1: "rb_core T b1" using c g by (simp add: rb_core_def)
  have "view b1 ! 0 = Entry" using b1(2) z rb_coreD(6) [OF c] by simp
  note adv = advance_shifted [OF c1 this refl]
  let ?b = "b1\<lparr>m_iStartPos := posn b1 1, m_iStartSeqNo := wrapseq (m_iStartSeqNo b1 + 1),
      m_iMaxPosOff := max 0 (m_iMaxPosOff b1 - 1), m_iNotch := 0\<rparr>"
  have "rbt_consume b (m_iStartPos b) rs rem = Some ?b"
    using b1(1) rs sh posn_Suc [of b1 0] b1(4) g incseq_valid [OF rb_coreD(2) [OF c1]] ring_ok_unit(2) [OF r z u]
    by (simp add: rbt_consume_def)
  moreover have "shifted 1 b (?b\<lparr>m_iNotch := m_iNotch b\<rparr>)"
    using adv(1) b1(2) g cfg_geo [OF b1(3)] by (cases "view b") (auto simp: shifted_def cfg_def tsbpd_enabled_def)
  ultimately show ?thesis using that [of ?b] adv(2) b1 by simp
qed


lemma rbt_consume_part:
  "rs < rem \<Longrightarrow> rbt_consume b p rs rem = Some (b\<lparr>m_iNotch := m_iNotch b + rs\<rparr>)"
  by (simp add: rbt_consume_def)

lemma stream_Suc:
  assumes "rb_core T b" "pUnit (view b ! 0) = Some u" "notch_ok b (Suc r)"
  shows "stream b (Suc r) = drop (nat (m_iNotch b)) (u_data u) @ payload (units_of (take r (tl (view b))))"
    "nat (m_iNotch b) \<le> length (u_data u)"
proof -
  have z: "0 < sz b" using shape_sz(1) [OF rb_coreD(5) [OF assms(1)]] by simp
  show n: "nat (m_iNotch b) \<le> length (u_data u)"
    using assms(2,3) by (cases "m_iNotch b = 0") (auto simp: notch_ok_def)
  obtain e es where "view b = e # es" using z rb_coreD(6) [OF assms(1)] by (cases "view b") auto
  with assms(2) n show "stream b (Suc r) = drop (nat (m_iNotch b)) (u_data u) @ payload (units_of (take r (tl (view b))))"
    by (simp add: stream_def)
qed

lemma stream_ok_notch:
  assumes "stream_ok T b r" "notch_ok (b\<lparr>m_iNotch := x\<rparr>) r"
  shows "stream_ok T (b\<lparr>m_iNotch := x\<rparr>) r"
  using assms by (simp add: stream_ok_def readable_to_def)

text \<open>Consuming the rest of the first packet, and a part of it.\<close>

lemma consume_stream:
  assumes so: "stream_ok T b (Suc r)" and u: "pUnit (view b ! 0) = Some u"
    and rs: "int (length (u_data u)) - m_iNotch b \<le> rs"
  obtains b' where "rbt_consume b (m_iStartPos b) rs (int (length (u_data u)) - m_iNotch b) = Some b'" "stream_ok T b' r"
    "stream b (Suc r) = drop (nat (m_iNotch b)) (u_data u) @ stream b' r" "m_iFirstNonreadPos b' = m_iFirstNonreadPos b"
    "tsbpd_enabled b' = tsbpd_enabled b" "m_iBytesCount b' = m_iBytesCount b" "m_iPktsCount b' = m_iPktsCount b"
proof -
  from so have c: "rb_core T b" and rd: "readable_to b (Suc r)" and no: "notch_ok b (Suc r)"
    and api: "\<not> m_bMessageAPI b" by (auto simp: stream_ok_def)
  note z = shape_sz(1) [OF rb_coreD(5) [OF c]]
  have rb: "Suc r < sz b" using rd le_less_trans [OF _ max_less_sz [OF c], of "Suc r"] by (simp add: readable_to_def)
  obtain b1 where b1: "rbt_consume b (m_iStartPos b) rs (int (length (u_data u)) - m_iNotch b) = Some b1"
    "shifted 1 b (b1\<lparr>m_iNotch := m_iNotch b\<rparr>)"
    "rb_core T b1" "m_iNotch b1 = 0" "m_iBytesCount b1 = m_iBytesCount b" "m_iPktsCount b1 = m_iPktsCount b"
    by (rule rbt_consume_all [OF c api u rs])
  have v: "view b1 = tl (view b) @ [Entry]" using b1(2) z rb_coreD(6) [OF c] by (simp add: shifted_def drop_Suc)
  have f: "m_iFirstNonreadPos b1 = m_iFirstNonreadPos b" "\<not> m_bMessageAPI b1" "tsbpd_enabled b1 = tsbpd_enabled b"
    using b1(2) api by (auto simp: shifted_def cfg_def tsbpd_enabled_def)
  have "readable_to b1 r" using readable_to_shift [OF c rd b1(2)] by (simp add: readable_to_def)
  then have "stream_ok T b1 r" using b1 f by (simp add: stream_ok_def notch_ok_def)
  moreover have "stream b1 r = payload (units_of (take r (tl (view b))))"
    using b1(4) v rb rb_coreD(6) [OF c] by (simp add: stream_def)
  ultimately show ?thesis using that [of b1] b1 f stream_Suc(1) [OF c u no] by simp
qed

lemma consume_part_stream:
  assumes so: "stream_ok T b (Suc r)" and u: "pUnit (view b ! 0) = Some u"
    and rs: "0 \<le> rs" "rs < int (length (u_data u)) - m_iNotch b"
  shows "stream_ok T (b\<lparr>m_iNotch := m_iNotch b + rs\<rparr>) (Suc r)"
    "stream (b\<lparr>m_iNotch := m_iNotch b + rs\<rparr>) (Suc r) = drop (nat rs) (stream b (Suc r))"
proof -
  have no: "notch_ok b (Suc r)" using so by (simp add: stream_ok_def)
  then have "notch_ok (b\<lparr>m_iNotch := m_iNotch b + rs\<rparr>) (Suc r)" using rs u by (auto simp: notch_ok_def)
  then show "stream_ok T (b\<lparr>m_iNotch := m_iNotch b + rs\<rparr>) (Suc r)" by (rule stream_ok_notch [OF so])
  show "stream (b\<lparr>m_iNotch := m_iNotch b + rs\<rparr>) (Suc r) = drop (nat rs) (stream b (Suc r))"
    using no rs by (simp add: stream_def nat_add_distrib add.commute notch_ok_def)
qed

lemma take_drop_min_append:
  fixes d t :: "'a list"
  assumes "length d \<le> m"
  defines "n \<equiv> min m (length (d @ t))" and "k \<equiv> min (m - length d) (length t)"
  shows "n = length d + k" "take n (d @ t) = d @ take k t" "drop n (d @ t) = drop k t"
proof -
  show "n = length d + k" using assms(1) by (auto simp: n_def k_def)
  then show "take n (d @ t) = d @ take k t" "drop n (d @ t) = drop k t" by simp_all
qed

locale byte_sink =
  fixes cpy :: "byte list \<Rightarrow> int \<Rightarrow> 's \<Rightarrow> bool \<times> 's" and holds :: "'s \<Rightarrow> byte list \<Rightarrow> bool"
  assumes accepts: "holds s pre \<Longrightarrow> fst (cpy d (int (length pre)) s)"
    and keeps: "holds s pre \<Longrightarrow> holds (snd (cpy d (int (length pre)) s)) (pre @ d)"
begin

lemma rbt_loop_round:
  assumes so: "stream_ok T b (Suc r)" and u: "pUnit (view b ! 0) = Some u" and t: "\<not> tsbpd_enabled b" "0 < rs"
    and h: "holds s pre" "int (length pre) = len - rs"
  defines "rem \<equiv> int (length (u_data u)) - m_iNotch b"
  defines "d \<equiv> take (nat (min rem rs)) (drop (nat (m_iNotch b)) (u_data u))"
  defines "s' \<equiv> snd (cpy d (int (length pre)) s)"
  shows "rbt_loop cpy now len (m_iFirstNonreadPos b) rs b s = Option.bind (rbt_consume b (m_iStartPos b) rs rem)
      (\<lambda>b1. rbt_loop cpy now len (m_iFirstNonreadPos b) (rs - min rem rs) b1 s')"
    and "holds s' (pre @ d)" and "0 \<le> rem" and "0 \<le> m_iNotch b"
proof -
  from so have c: "rb_core T b" and rd: "readable_to b (Suc r)" and no: "notch_ok b (Suc r)" by (auto simp: stream_ok_def)
  note sh = rb_coreD(5) [OF c] and z = shape_sz(1) [OF rb_coreD(5) [OF c]]
  have rb: "Suc r < sz b" using rd le_less_trans [OF _ max_less_sz [OF c], of "Suc r"] by (simp add: readable_to_def)
  have ne: "m_iStartPos b \<noteq> m_iFirstNonreadPos b"
    using rd posn_inj [OF sh, of 0 "Suc r"] rb sh by (auto simp: readable_to_def)
  show rem: "0 \<le> rem" "0 \<le> m_iNotch b" using stream_Suc(2) [OF c u no] no by (auto simp: notch_ok_def rem_def)
  then have mn: "\<not> min rem rs < 0" using t by simp
  have rd0: "rd (m_entries b) (m_iStartPos b) = Some (view b ! 0)" using rd_posn [OF sh, of 0] z sh by simp
  show "rbt_loop cpy now len (m_iFirstNonreadPos b) rs b s = Option.bind (rbt_consume b (m_iStartPos b) rs rem)
      (\<lambda>b1. rbt_loop cpy now len (m_iFirstNonreadPos b) (rs - min rem rs) b1 s')"
    using t h ne rd0 u accepts [OF h(1), of d] mn unfolding d_def s'_def rem_def
    by (subst rbt_loop.simps) (simp add: Let_def del: min_less_iff_conj)
  show "holds s' (pre @ d)" unfolding s'_def by (rule keeps [OF h(1)])
qed

lemma rbt_loop_stream:
  assumes "stream_ok T b r" "\<not> tsbpd_enabled b" "0 \<le> rs" "holds s pre" "int (length pre) = len - rs"
  defines "n \<equiv> min (nat rs) (length (stream b r))"
  shows "\<exists>b' r' s'. rbt_loop cpy now len (m_iFirstNonreadPos b) rs b s = Some (True, rs - int n, b', s')
    \<and> holds s' (pre @ take n (stream b r)) \<and> stream_ok T b' r' \<and> stream b' r' = drop n (stream b r)
    \<and> r' \<le> r \<and> m_iBytesCount b' = m_iBytesCount b \<and> m_iPktsCount b' = m_iPktsCount b"
  using assms(1-5) unfolding n_def
proof (induction r arbitrary: b rs s pre)
  case 0
  have "m_iFirstNonreadPos b = m_iStartPos b" "stream b 0 = []"
    using 0 by (auto simp: stream_ok_def readable_to_def stream_def rb_coreD(5))
  then show ?case using 0 by (subst rbt_loop.simps) (auto simp: Let_def)
next
  case (Suc r)
  show ?case
  proof (cases "rs = 0")
    case True
    then show ?thesis using Suc.prems by (subst rbt_loop.simps) (auto simp: Let_def)
  next
    case False
    with Suc.prems have rs: "0 < rs" by simp
    from Suc.prems(1) obtain u where u: "pUnit (view b ! 0) = Some u" by (auto simp: stream_ok_def readable_to_def)
    let ?rem = "int (length (u_data u)) - m_iNotch b"
    let ?d = "take (nat (min ?rem rs)) (drop (nat (m_iNotch b)) (u_data u))"
    let ?s = "snd (cpy ?d (int (length pre)) s)"
    note un = rbt_loop_round [OF Suc.prems(1) u Suc.prems(2) rs Suc.prems(4,5)]
    show ?thesis
    proof (cases "?rem \<le> rs")
      case True
      obtain b1 where b1: "rbt_consume b (m_iStartPos b) rs ?rem = Some b1" "stream_ok T b1 r"
        "stream b (Suc r) = drop (nat (m_iNotch b)) (u_data u) @ stream b1 r" "m_iFirstNonreadPos b1 = m_iFirstNonreadPos b"
        "tsbpd_enabled b1 = tsbpd_enabled b" "m_iBytesCount b1 = m_iBytesCount b" "m_iPktsCount b1 = m_iPktsCount b"
        by (rule consume_stream [OF Suc.prems(1) u True])
      have d: "?d = drop (nat (m_iNotch b)) (u_data u)" "int (length ?d) = ?rem" using True un(3,4) by auto
      have rs': "0 \<le> rs - ?rem" "\<not> tsbpd_enabled b1" "int (length (pre @ ?d)) = len - (rs - ?rem)"
        using True Suc.prems b1(5) d(2) by auto
      have le: "length ?d \<le> nat rs" "nat (rs - ?rem) = nat rs - length ?d" using True d(2) by linarith+
      have S: "stream b (Suc r) = ?d @ stream b1 r" unfolding d(1) by (rule b1(3))
      note t = take_drop_min_append [OF le(1), of "stream b1 r"]
      let ?k = "min (nat rs - length ?d) (length (stream b1 r))"
      from Suc.IH [OF b1(2) rs'(2,1) un(2) rs'(3), unfolded le(2)] obtain b' r' s' where IH:
        "rbt_loop cpy now len (m_iFirstNonreadPos b1) (rs - ?rem) b1 ?s = Some (True, rs - ?rem - int ?k, b', s')"
        "holds s' ((pre @ ?d) @ take ?k (stream b1 r))" "stream_ok T b' r'" "stream b' r' = drop ?k (stream b1 r)" "r' \<le> r"
        "m_iBytesCount b' = m_iBytesCount b1" "m_iPktsCount b' = m_iPktsCount b1" by blast
      have "rbt_loop cpy now len (m_iFirstNonreadPos b) rs b s = Some (True, rs - int (length ?d + ?k), b', s')"
        unfolding un(1) using b1(1,4) IH(1) True d(2) by simp
      then show ?thesis unfolding S unfolding t(2,3) unfolding t(1) using IH(2-) [unfolded append_assoc] b1(6,7)
        by (intro exI [of _ b'] exI [of _ r'] exI [of _ s'] conjI) (simp_all only: le_SucI)
    next
      case False
      let ?b = "b\<lparr>m_iNotch := m_iNotch b + rs\<rparr>"
      have cons: "rbt_consume b (m_iStartPos b) rs ?rem = Some ?b" using False by (simp add: rbt_consume_part)
      note p = consume_part_stream [OF Suc.prems(1) u Suc.prems(3)] False
      note st = stream_Suc(1) [OF _ u, of T r] and so = Suc.prems(1) [unfolded stream_ok_def]
      have n: "min (nat rs) (length (stream b (Suc r))) = nat rs" "take (nat rs) (stream b (Suc r)) = ?d"
        using False un(3,4) so by (auto simp: st)
      have "rbt_loop cpy now len (m_iFirstNonreadPos b) 0 ?b x = Some (True, 0, ?b, x)" for x
        by (subst rbt_loop.simps) (simp add: Let_def)
      then show ?thesis using un(1,2) cons p n rs
        by (intro exI [of _ ?b] exI [of _ "Suc r"] exI [of _ ?s]) simp
    qed
  qed
qed

text \<open>A read delivers as much of the stream as fits, and the rest stays.\<close>

lemma readBufferTo_stream:
  assumes so: "stream_ok T b r" and t: "\<not> tsbpd_enabled b" "0 \<le> len" and h: "holds s []"
  defines "n \<equiv> min (nat len) (length (stream b r))"
  shows "\<exists>b' r' s'. readBufferTo cpy now b len s = Some (int n, b', s') \<and> holds s' (take n (stream b r))
    \<and> stream_ok T b' r' \<and> stream b' r' = drop n (stream b r) \<and> r' \<le> r
    \<and> m_iBytesCount b' = m_iBytesCount b - int n \<and> m_iPktsCount b' = m_iPktsCount b - 1"
proof -
  from rbt_loop_stream [OF so t h, of len now] obtain b1 r1 s1 where
    b1: "rbt_loop cpy now len (m_iFirstNonreadPos b) len b s = Some (True, len - int n, b1, s1)"
    "holds s1 (take n (stream b r))" "stream_ok T b1 r1" "stream b1 r1 = drop n (stream b r)" "r1 \<le> r"
    "m_iBytesCount b1 = m_iBytesCount b" "m_iPktsCount b1 = m_iPktsCount b" unfolding n_def by auto
  from b1(3) have c: "rb_core T b1" and rd: "readable_to b1 r1" by (auto simp: stream_ok_def)
  let ?b = "countBytes b1 (-1) (- int n)"
  note g = geoD [OF countBytes_fields(2), of b1 "-1" "- int n"]
  have "r1 < sz b1" using rd le_less_trans [OF _ max_less_sz [OF c], of r1] by (simp add: readable_to_def)
  then have "isInRange (m_iStartPos b1) (m_iMaxPosOff b1) (m_szSize b1) (posn b1 r1)"
    using isInRange_posn [OF rb_coreD(5) [OF c], of "m_iMaxPosOff b1" r1] rd rb_coreD(3,4) [OF c]
    by (simp add: readable_to_def)
  then have "readBufferTo cpy now b len s = Some (int n, ?b, s1)"
    using b1(1) rd by (simp add: readBufferTo_def Let_def g readable_to_def)
  moreover have "stream_ok T ?b r1" "stream ?b r1 = stream b1 r1"
    using b1(3) by (auto simp: stream_ok_def notch_ok_def stream_def g)
  ultimately show ?thesis using b1 by (intro exI [of _ ?b] exI [of _ r1] exI [of _ s1]) simp
qed

end

text \<open>The two sinks of the code.\<close>

interpretation buf: byte_sink copyBytesToBuf "\<lambda>dst pre. dst = pre @ drop (length pre) dst0"
  for dst0 by unfold_locales (auto simp: copyBytesToBuf_def add.commute)

interpretation ofs: byte_sink "writeBytesToFile (\<lambda>dat ofs. (True, ofs @ dat))" "\<lambda>ofs pre. ofs = ofs0 @ pre"
  for ofs0 by unfold_locales (simp_all add: writeBytesToFile_def)

end
