(* ===== verification/RcvBufferDrop.thy ===== *)
theory RcvBufferDrop
  imports RcvBufferRead
begin

text \<open>
  Dropping a message on request of the sender (\<^verbatim>\<open>CRcvBuffer::dropMessage\<close>): the cells of a range of
  sequence numbers become drop marks, then the earlier packets of the same message do. The effect on the
  cells, read from the start position, is given by the list functions \<open>drop_range\<close> and \<open>drop_back\<close>.
\<close>

section \<open>The effect on the cells\<close>

definition DropEntry :: entry where
  "DropEntry = \<lparr>pUnit = None, status = EntryState_Drop\<rparr>"

definition has_boundary :: "PacketBoundary \<Rightarrow> entry \<Rightarrow> bool" where
  "has_boundary p e = (case pUnit e of None \<Rightarrow> False | Some u \<Rightarrow> getMsgBoundary (u_hdr u) = boundary_code p)"

definition drop_cell :: "bool \<Rightarrow> entry \<Rightarrow> entry" where
  "drop_cell keep e = (if keep \<and> has_boundary PB_SOLO e then e else DropEntry)"

definition drop_range :: "bool \<Rightarrow> nat \<Rightarrow> nat \<Rightarrow> entry list \<Rightarrow> entry list" where
  "drop_range keep k t v = take k v @ map (drop_cell keep) (take (t - k) (drop k v)) @ drop t v"

text \<open>A range without the first packet of the message calls for a search backwards.\<close>

definition seeks_first :: "bool \<Rightarrow> nat \<Rightarrow> nat \<Rightarrow> entry list \<Rightarrow> bool" where
  "seeks_first keep k t v \<longleftrightarrow>
     \<not> list_ex (\<lambda>e. has_boundary PB_FIRST e \<or> (keep \<and> has_boundary PB_SOLO e)) (take (t - k) (drop k v))"

text \<open>The cells from a position backwards.\<close>

fun drop_back :: "bool \<Rightarrow> bool \<Rightarrow> int \<Rightarrow> entry list \<Rightarrow> entry list" where
  "drop_back keep rex msgno [] = []"
| "drop_back keep rex msgno (e # es) =
     (case pUnit e of None \<Rightarrow> e # drop_back keep rex msgno es
      | Some u \<Rightarrow> if u_msgno rex u \<noteq> msgno then e # es
                else if keep \<and> has_boundary PB_SOLO e then e # es
                else if has_boundary PB_FIRST e then DropEntry # es
                else DropEntry # drop_back keep rex msgno es)"

definition drop_before :: "bool \<Rightarrow> bool \<Rightarrow> int \<Rightarrow> nat \<Rightarrow> entry list \<Rightarrow> entry list" where
  "drop_before keep rex msgno k v = rev (drop_back keep rex msgno (rev (take (Suc k) v))) @ drop (Suc k) v"

definition drops :: "entry list \<Rightarrow> int" where
  "drops v = int (length (filter (\<lambda>e. status e = EntryState_Drop) v))"

lemma DropEntry_simps [simp]: "pUnit DropEntry = None" "status DropEntry = EntryState_Drop" "filler DropEntry"
  "\<not> has_boundary p DropEntry"
  by (simp_all add: DropEntry_def filler_def has_boundary_def)

lemma drops_update: "k < length v \<Longrightarrow> status (v ! k) \<noteq> EntryState_Drop \<Longrightarrow> drops (v[k := DropEntry]) = drops v + 1"
  by (simp add: drops_def filter_update)

lemma drop_cell_Drop:
  assumes "cell_ok n0 mx k e" "status e = EntryState_Drop"
  shows "drop_cell keep e = e" "\<not> has_boundary p e"
  using assms by (auto simp: drop_cell_def cell_ok_def has_boundary_def DropEntry_def)

lemma drop_range_done: "drop_range keep t t v = v"
  by (simp add: drop_range_def)

lemma split_at:
  assumes "k < length v"
  obtains xs ys where "v = xs @ v ! k # ys" "k = length xs"
  using id_take_nth_drop [OF assms] assms by (metis length_take min.absorb4)

lemma drop_range_Cons:
  assumes "k < t" "t \<le> length v"
  shows "drop_range keep k t v = drop_range keep (Suc k) t (v[k := drop_cell keep (v ! k)])"
    "seeks_first keep k t v \<longleftrightarrow>
      \<not> has_boundary PB_FIRST (v ! k) \<and> \<not> (keep \<and> has_boundary PB_SOLO (v ! k)) \<and> seeks_first keep (Suc k) t (v[k := e])"
proof -
  have "k < length v" using assms by simp
  then obtain xs x ys where v: "v = xs @ x # ys" "k = length xs" by (metis split_at)
  obtain d where d: "t = Suc (length xs + d)" using assms(1) v(2) less_iff_Suc_add by auto
  show "drop_range keep k t v = drop_range keep (Suc k) t (v[k := drop_cell keep (v ! k)])"
    by (simp add: drop_range_def v d list_update_append)
  show "seeks_first keep k t v \<longleftrightarrow>
      \<not> has_boundary PB_FIRST (v ! k) \<and> \<not> (keep \<and> has_boundary PB_SOLO (v ! k)) \<and> seeks_first keep (Suc k) t (v[k := e])"
    by (auto simp: seeks_first_def v d list_update_append)
qed

lemma drop_before_step:
  assumes "k < length v"
  shows "drop_before keep rex msgno k v =
    (case pUnit (v ! k) of None \<Rightarrow> (if k = 0 then v else drop_before keep rex msgno (k - 1) v)
     | Some u \<Rightarrow> if u_msgno rex u \<noteq> msgno then v
               else if keep \<and> has_boundary PB_SOLO (v ! k) then v
               else if has_boundary PB_FIRST (v ! k) \<or> k = 0 then v[k := DropEntry]
               else drop_before keep rex msgno (k - 1) (v[k := DropEntry]))"
proof -
  obtain xs x ys where v: "v = xs @ x # ys" "k = length xs" using assms by (metis split_at)
  have "take (Suc (length xs - 1)) xs = xs" "drop (Suc (length xs - 1)) xs = []" by (cases xs; simp)+
  moreover have "xs \<noteq> [] \<Longrightarrow> Suc (length xs - Suc 0) - length xs = 0" by (cases xs) simp_all
  ultimately show ?thesis
    by (cases "xs = []"; cases "pUnit x") (auto simp: drop_before_def v list_update_append)
qed

section \<open>The loops\<close>

text \<open>\<open>mn\<close> bounds the cells that were changed since \<open>v\<close> from below; \<^verbatim>\<open>-1\<close> says there are none.\<close>

definition changed_from :: "int \<Rightarrow> entry list \<Rightarrow> entry list \<Rightarrow> bool" where
  "changed_from mn v v' \<longleftrightarrow> (mn = -1 \<and> v' = v) \<or> (\<exists>j < length v. mn = int j \<and> take j v' = take j v)"

lemma changed_from_update:
  assumes "changed_from mn v v'" "k < length v" "mn \<le> int k"
  shows "changed_from (if mn = -1 then int k else mn) v (v'[k := e])"
  using assms by (auto simp: changed_from_def)

lemma changed_from_at:
  "take k v' = take k v \<Longrightarrow> k < length v \<Longrightarrow> changed_from (int k) v (v'[k := e])"
  by (auto simp: changed_from_def)

lemma drop_entry_ok:
  assumes c: "rb_core T b" and k: "k < sz b - 1"
  obtains b' where "drop_entry b (posn b k) = Some b'" "view b' = (view b)[k := DropEntry]" "geo b' = geo b" "rb_core T b'"
proof -
  obtain b' where "drop_entry b (posn b k) = Some b'" "view b' = (view b)[k := DropEntry]" "geo b' = geo b"
    "ring_ok T (m_iStartSeqNo b) (m_iMaxPosOff b) b'"
    using drop_entry_posn [OF rb_coreD(1) [OF c] k] unfolding DropEntry_def by metis
  then show ?thesis using that [of b'] c geoD [of b' b] by (simp add: rb_core_def)
qed

lemma dm_range_step_ok:
  assumes c: "rb_core T b" and k: "k < sz b - 1" and mn: "changed_from mn v (view b)" "mn \<le> int k" "length v = sz b"
  obtains b' by' cnt' mn' where "dm_range_step keep (posn b k) (b, by, cnt, mn) = Some (b', by', cnt', mn')"
    "geo b' = geo b" "rb_core T b'" "view b' = (view b)[k := drop_cell keep (view b ! k)]"
    "cnt' = cnt + drops (view b') - drops (view b)"
    "by' \<longleftrightarrow> by \<and> \<not> has_boundary PB_FIRST (view b ! k) \<and> \<not> (keep \<and> has_boundary PB_SOLO (view b ! k))"
    "changed_from mn' v (view b')" "mn' \<le> int k"
proof -
  let ?e = "view b ! k"
  have k': "k < sz b" "k < length (view b)" using k rb_coreD(6) [OF c] by auto
  note rd = rd_posn [OF rb_coreD(5) [OF c] k'(1)] and ok = ring_okD(2) [OF rb_coreD(1) [OF c] k'(1)]
  consider (drp) "status ?e = EntryState_Drop" | (solo) "status ?e \<noteq> EntryState_Drop" "keep" "has_boundary PB_SOLO ?e"
    | (cell) "status ?e \<noteq> EntryState_Drop" "\<not> (keep \<and> has_boundary PB_SOLO ?e)" by blast
  then show ?thesis
  proof cases
    case drp
    with drop_cell_Drop [OF ok drp] show ?thesis
      using rd c mn that [of b "by" cnt mn] by (auto simp: dm_range_step_def)
  next
    case solo
    then obtain u where "pUnit ?e = Some u" "getMsgBoundary (u_hdr u) = boundary_code PB_SOLO"
      by (auto simp: has_boundary_def split: option.splits)
    with solo show ?thesis using rd c mn that [of b False cnt mn] by (auto simp: dm_range_step_def drop_cell_def)
  next
    case cell
    obtain b1 where b1: "drop_entry b (posn b k) = Some b1" "view b1 = (view b)[k := DropEntry]" "geo b1 = geo b" "rb_core T b1"
      by (rule drop_entry_ok [OF c k])
    note g = geoD [OF b1(3)]
    have off: "offPos b1 (m_iStartPos b1) (posn b k) = int k"
      using offPos_posn [OF rb_coreD(5) [OF b1(4)], of k] k' g by simp
    let ?by = "by \<and> \<not> has_boundary PB_FIRST ?e"
    let ?mn = "if mn = -1 then int k else mn"
    have st: "dm_range_step keep (posn b k) (b, by, cnt, mn) = Some (b1, ?by, cnt + 1, ?mn)"
      using rd cell b1(1) off by (auto simp: dm_range_step_def has_boundary_def split: option.splits)
    have ch: "changed_from ?mn v (view b1)"
      unfolding b1(2) by (rule changed_from_update [OF mn(1) _ mn(2)]) (use k' mn(3) in simp)
    have v: "view b1 = (view b)[k := drop_cell keep ?e]" using cell(2) unfolding b1(2) by (simp only: drop_cell_def if_False)
    show ?thesis
      by (rule that [OF st b1(3,4) v _ _ ch]) (use cell(2) mn(2) drops_update [OF k'(2) cell(1), folded b1(2)] in auto)
  qed
qed

lemma dm_range_loop_ok:
  assumes "rb_core T b" "k \<le> t" "t \<le> sz b - 1" "changed_from mn v (view b)" "mn \<le> int k" "length v = sz b"
  shows "\<exists>b' mn'. dm_range_loop keep (posn b t) (posn b k) (b, by, cnt, mn)
      = Some (b', by \<and> seeks_first keep k t (view b), cnt + drops (view b') - drops (view b), mn')
    \<and> geo b' = geo b \<and> rb_core T b' \<and> view b' = drop_range keep k t (view b) \<and> changed_from mn' v (view b')"
  using assms
proof (induction "t - k" arbitrary: b k "by" cnt mn)
  case 0
  then have "k = t" by simp
  with 0 show ?case by (subst dm_range_loop.simps) (auto simp: drop_range_done seeks_first_def)
next
  case (Suc d)
  note c = Suc(3)
  have k: "k < sz b - 1" "k < t" using Suc(2,5) by auto
  have ne: "posn b k \<noteq> posn b t" using posn_inj [OF rb_coreD(5) [OF c], of k t] k Suc(5) by auto
  obtain b1 by1 cnt1 mn1 where b1: "dm_range_step keep (posn b k) (b, by, cnt, mn) = Some (b1, by1, cnt1, mn1)"
    "geo b1 = geo b" "rb_core T b1" "view b1 = (view b)[k := drop_cell keep (view b ! k)]"
    "cnt1 = cnt + drops (view b1) - drops (view b)"
    "by1 \<longleftrightarrow> by \<and> \<not> has_boundary PB_FIRST (view b ! k) \<and> \<not> (keep \<and> has_boundary PB_SOLO (view b ! k))"
    "changed_from mn1 v (view b1)" "mn1 \<le> int k" by (rule dm_range_step_ok [OF c k(1) Suc(6-8)])
  note g = geoD [OF b1(2)]
  have "d = t - Suc k" "Suc k \<le> t" "t \<le> sz b1 - 1" "mn1 \<le> int (Suc k)" "length v = sz b1"
    using Suc(2,5,8) k b1(8) g by auto
  from Suc(1) [OF this(1) b1(3) this(2,3) b1(7) this(4,5), of by1 cnt1] obtain b' mn' where IH:
    "dm_range_loop keep (posn b1 t) (posn b1 (Suc k)) (b1, by1, cnt1, mn1)
      = Some (b', by1 \<and> seeks_first keep (Suc k) t (view b1), cnt1 + drops (view b') - drops (view b1), mn')"
    "geo b' = geo b1" "rb_core T b'" "view b' = drop_range keep (Suc k) t (view b1)" "changed_from mn' v (view b')" by blast
  have tl: "t \<le> length (view b)" using Suc(5) rb_coreD(6) [OF c] by simp
  note dr = drop_range_Cons [OF k(2) tl, of keep]
  have "dm_range_loop keep (posn b t) (posn b k) (b, by, cnt, mn)
      = dm_range_loop keep (posn b1 t) (posn b1 (Suc k)) (b1, by1, cnt1, mn1)"
    using ne b1(1) g posn_Suc [of b1 k] by (subst dm_range_loop.simps) simp
  also have "\<dots> = Some (b', by \<and> seeks_first keep k t (view b), cnt + drops (view b') - drops (view b), mn')"
    using IH(1) b1(5,6) dr(2) [of "drop_cell keep (view b ! k)"] by (auto simp: b1(4))
  finally show ?case using IH b1(2) dr(1) by (auto simp: b1(4))
qed

lemma dm_msgno_loop_ok:
  assumes "rb_core T b" "k < sz b - 1" "changed_from mn v (view b)" "take k (view b) = take k v" "length v = sz b"
  shows "\<exists>b' mn'. dm_msgno_loop keep msgno (decPos b (m_iStartPos b)) (posn b k) (b, cnt, mn)
      = Some (b', cnt + drops (view b') - drops (view b), mn')
    \<and> geo b' = geo b \<and> rb_core T b' \<and> view b' = drop_before keep (m_bPeerRexmitFlag b) msgno k (view b)
    \<and> changed_from mn' v (view b')"
  using assms
proof (induction k arbitrary: b cnt mn rule: less_induct)
  case (less k)
  note c = less(2) and sh = rb_coreD(5) [OF less(2)]
  let ?e = "view b ! k" and ?P = "\<lambda>b1 b' cnt mn'. geo b' = geo b1 \<and> rb_core T b' \<and> changed_from mn' v (view b')"
  have k: "k < sz b" "k < length (view b)" "k < length v" using less(3,6) rb_coreD(6) [OF c] by auto
  have z: "0 < sz b" using k by simp
  note rd = rd_posn [OF sh k(1)] and stp = decPos_start [OF sh]
  have ne: "posn b k \<noteq> posn b (sz b - 1)" using posn_inj [OF sh, of k "sz b - 1"] less(3) by auto
  have stop: "dm_msgno_loop keep msgno (posn b (sz b - 1)) (posn b (sz b - 1)) st = Some st" for st
    by (subst dm_msgno_loop.simps) simp
  have dec: "decPos b (posn b k) = (if k = 0 then posn b (sz b - 1) else posn b (k - 1))"
    using decPos_posn [OF sh, of "k - 1"] stp k(1) sh by (cases k) auto
  note step = drop_before_step [OF k(2), of keep "m_bPeerRexmitFlag b" msgno]
  show ?case
  proof (cases "pUnit ?e")
    case None
    have un: "dm_msgno_loop keep msgno (decPos b (m_iStartPos b)) (posn b k) (b, cnt, mn)
        = dm_msgno_loop keep msgno (decPos b (m_iStartPos b)) (decPos b (posn b k)) (b, cnt, mn)"
      using None rd ne stp by (subst dm_msgno_loop.simps) simp
    show ?thesis
    proof (cases "k = 0")
      case True
      then show ?thesis using un dec stop stp c less(4) None step by auto
    next
      case False
      have "take (k - 1) (view b) = take (k - 1) v" using less(5) by (metis diff_le_self min.absorb1 take_take)
      from less(1) [OF _ c _ less(4) this less(6), of cnt] un dec False less(3) None step show ?thesis by auto
    qed
  next
    case (Some u)
    have solo: "has_boundary p ?e \<longleftrightarrow> getMsgBoundary (u_hdr u) = boundary_code p" for p using Some by (simp add: has_boundary_def)
    show ?thesis
    proof (cases "u_msgno (m_bPeerRexmitFlag b) u \<noteq> msgno \<or> keep \<and> has_boundary PB_SOLO ?e")
      case True
      then show ?thesis using Some rd ne stp c less(4) step solo by (subst dm_msgno_loop.simps) auto
    next
      case False
      obtain b1 where b1: "drop_entry b (posn b k) = Some b1" "view b1 = (view b)[k := DropEntry]" "geo b1 = geo b" "rb_core T b1"
        by (rule drop_entry_ok [OF c less(3)])
      note g = geoD [OF b1(3)]
      have off: "offPos b1 (m_iStartPos b1) (posn b k) = int k" "decPos b1 p = decPos b p" for p
        using offPos_posn [OF rb_coreD(5) [OF b1(4)], of k] k g by (auto simp: decPos_def)
      have "status ?e \<noteq> EntryState_Drop" using ring_ok_unit(4) [OF rb_coreD(1) [OF c] k(1) Some] by simp
      note dn = drops_update [OF k(2) this, folded b1(2)]
      have un: "dm_msgno_loop keep msgno (decPos b (m_iStartPos b)) (posn b k) (b, cnt, mn)
          = (if has_boundary PB_FIRST ?e then Some (b1, cnt + 1, int k)
             else dm_msgno_loop keep msgno (decPos b (m_iStartPos b)) (decPos b (posn b k)) (b1, cnt + 1, int k))"
        using False Some rd ne stp b1(1) off solo by (subst dm_msgno_loop.simps) (auto simp: Let_def)
      have ch: "changed_from (int k) v (view b1)" unfolding b1(2) by (rule changed_from_at [OF less(5) k(3)])
      show ?thesis
      proof (cases "has_boundary PB_FIRST ?e \<or> k = 0")
        case True
        then have "dm_msgno_loop keep msgno (decPos b (m_iStartPos b)) (posn b k) (b, cnt, mn) = Some (b1, cnt + 1, int k)"
          using un dec stop stp by auto
        then show ?thesis using True False Some b1 ch dn step by auto
      next
        case notfirst: False
        have "take (k - 1) (view b1) = take (k - 1) v" using less(5) b1(2) by (metis diff_le_self min.absorb1 take_take take_update_cancel le_refl)
        moreover have "k - 1 < k" "k - 1 < sz b1 - 1" "length v = sz b1" using notfirst less(3,6) g(1) by auto
        ultimately obtain b' mn' where IH:
          "dm_msgno_loop keep msgno (decPos b1 (m_iStartPos b1)) (posn b1 (k - 1)) (b1, cnt + 1, int k)
            = Some (b', cnt + 1 + drops (view b') - drops (view b1), mn')" "geo b' = geo b1" "rb_core T b'"
          "view b' = drop_before keep (m_bPeerRexmitFlag b1) msgno (k - 1) (view b1)" "changed_from mn' v (view b')"
          using less(1) [OF _ b1(4) _ ch, of "k - 1" "cnt + 1"] by blast
        then show ?thesis using un dec notfirst False Some b1 g off(2) dn step by auto
      qed
    qed
  qed
qed

section \<open>What follows the loops\<close>

lemma check_ooo_ok:
  assumes c: "rb_core T b" and k: "k < sz b"
  shows "\<exists>x. check_ooo b end_pos mn (posn b k) = Some x"
  using k
proof (induction "sz b - k" arbitrary: k mn)
  case (Suc d)
  show ?case
  proof (cases "pUnit (view b ! k)")
    case None
    then show ?thesis using rd_posn [OF rb_coreD(5) [OF c] Suc(3)] by (subst check_ooo.simps) auto
  next
    case (Some u)
    then have "Suc k < sz b" using ring_ok_unit(3) [OF rb_coreD(1) [OF c] Suc(3)] by simp
    with Suc(1) [of "Suc k"] Suc(2) have "\<exists>x. check_ooo b end_pos mn' (posn b (Suc k)) = Some x" for mn' by simp
    then show ?thesis using Some rd_posn [OF rb_coreD(5) [OF c] Suc(3)] posn_Suc [of b k]
      by (subst check_ooo.simps) auto
  qed
qed simp

lemma checkFirstReadableOutOfOrder_ok:
  assumes c: "rb_core T b"
  shows "\<exists>x. checkFirstReadableOutOfOrder b = Some x"
proof (cases "m_iFirstReadableOutOfOrder b < 0")
  case True
  then show ?thesis by (auto simp: checkFirstReadableOutOfOrder_def)
next
  case False
  then obtain k where "k < sz b" "m_iFirstReadableOutOfOrder b = posn b k"
    using posn_surj [OF rb_coreD(5) [OF c], of "m_iFirstReadableOutOfOrder b"] ring_okD(8) [OF rb_coreD(1) [OF c]] by auto
  with check_ooo_ok [OF c] show ?thesis by (auto simp: checkFirstReadableOutOfOrder_def)
qed

lemma drop_search_ok:
  assumes c: "rb_core T b" and P: "P \<Longrightarrow> \<not> tsbpd_enabled b"
  shows "\<exists>x. (if P then do { ok \<leftarrow> checkFirstReadableOutOfOrder b;
      updateFirstReadableOutOfOrder (if \<not> ok then b\<lparr>m_iFirstReadableOutOfOrder := -1\<rparr> else b) } else Some b)
    = Some (b\<lparr>m_iFirstReadableOutOfOrder := x\<rparr>) \<and> -1 \<le> x \<and> x < m_szSize b"
proof (cases P)
  case True
  from checkFirstReadableOutOfOrder_ok [OF c] obtain ok where ok: "checkFirstReadableOutOfOrder b = Some ok" by blast
  have "rb_core T (b\<lparr>m_iFirstReadableOutOfOrder := -1\<rparr>)" using rb_core_froo [OF _ _ c, of "-1"] rb_coreD(5) [OF c] by (simp add: shape_def)
  then have "rb_core T (if \<not> ok then b\<lparr>m_iFirstReadableOutOfOrder := -1\<rparr> else b)" using c by simp
  from updateFirstReadableOutOfOrder_ok [OF this] P [OF True] obtain x where
    "updateFirstReadableOutOfOrder (if \<not> ok then b\<lparr>m_iFirstReadableOutOfOrder := -1\<rparr> else b)
      = Some (b\<lparr>m_iFirstReadableOutOfOrder := x\<rparr>)" "-1 \<le> x" "x < m_szSize b"
    by (cases ok) (auto simp: tsbpd_enabled_def)
  with ok True show ?thesis by auto
next
  case False
  then show ?thesis using keep_froo [OF c] by simp
qed

text \<open>The first non-readable position is set back where the readable cells were touched.\<close>

lemma drop_nonread_ok:
  assumes r: "readable_to b r" and c: "rb_core T b" "rb_core T b2" and g: "geo b2 = geo b"
    and ch: "changed_from mn (view b) (view b2)" and h: "\<not> filler (view b ! 0)" "m_bMessageAPI b"
    and rel: "shifted m b2 b3" "rb_core T b3" "m = length (takeWhile filler (view b2))"
  shows "\<exists>q. (if mn \<noteq> -1 \<and> mn \<le> getRcvDataSize b2 then updateNonreadPos (b3\<lparr>m_iFirstNonreadPos := m_iStartPos b3\<rparr>) else Some b3)
      = Some (b3\<lparr>m_iFirstNonreadPos := q\<rparr>) \<and> (\<exists>r. readable_to (b3\<lparr>m_iFirstNonreadPos := q\<rparr>) r)"
proof (cases "mn \<noteq> -1 \<and> mn \<le> getRcvDataSize b2")
  case True
  let ?c = "b3\<lparr>m_iFirstNonreadPos := m_iStartPos b3\<rparr>"
  have "readable_to ?c 0" using rb_coreD(5) [OF rel(2)] by (intro readable_to_0) (auto simp: shape_def)
  from updateNonreadPos_ok [OF _ this, of T] rel(2) True show ?thesis by fastforce
next
  case False
  note g' = geoD [OF g]
  have rs: "r < sz b" using r le_less_trans [OF _ max_less_sz [OF c(1)], of r] by (simp add: readable_to_def)
  have "m_iFirstNonreadPos b = posn b r" using r by (simp add: readable_to_def)
  then have "getRcvDataSize b2 = int r"
    using offPos_posn [OF rb_coreD(5) [OF c(1)] rs] g'(1,2,4) by (simp only: getRcvDataSize_def offPos_def)
  then have eq: "view b2 ! j = view b ! j" if "j \<le> r" for j
  proof (cases "mn = -1")
    case True
    with ch show ?thesis by (auto simp: changed_from_def)
  next
    case mn: False
    with ch obtain i where i: "mn = int i" "take i (view b2) = take i (view b)" by (auto simp: changed_from_def)
    with False \<open>getRcvDataSize b2 = int r\<close> mn that have "j < i" by simp
    with i(2) show ?thesis by (metis nth_take)
  qed
  then have "\<not> filler (view b2 ! 0)" using h(1) by simp
  moreover have "view b2 \<noteq> []" using rb_coreD(6) [OF c(2)] rs g'(1) by auto
  ultimately have "m = 0" using rel(3) by (cases "view b2") auto
  with rel(1) have v: "view b3 = view b2" "m_iStartPos b3 = m_iStartPos b2" "m_iMaxPosOff b3 = m_iMaxPosOff b2" "cfg b3 = cfg b2"
    using rb_coreD(3,5) [OF c(2)] by (auto simp: shifted_def)
  have "readable_to b2 r" using r eq g'(4,5,6,10) by (simp add: readable_to_def)
  then have "readable_to b3 r" using v cfgD [OF v(4)] by (auto simp: readable_to_def posn_def)
  with False show ?thesis by (intro exI [of _ "m_iFirstNonreadPos b3"]) auto
qed

section \<open>Dropping a message\<close>

text \<open>The cells after both loops: \<open>s\<close> and \<open>t\<close> delimit the range.\<close>

definition dropped_view :: "rcv_buffer \<Rightarrow> bool \<Rightarrow> int \<Rightarrow> nat \<Rightarrow> nat \<Rightarrow> entry list" where
  "dropped_view b keep msgno s t =
     (let v1 = drop_range keep s t (view b)
      in if msgno > SRT_MSGNO_CONTROL \<and> seeks_first keep s t (view b) \<and> s < sz b - 1
         then drop_before keep (m_bPeerRexmitFlag b) msgno s v1 else v1)"

lemma drop_loops_ok:
  assumes c: "rb_core T b" and st: "s \<le> t" "t \<le> sz b - 1"
  shows "\<exists>b2 mn. do { (b1, byMsg, cnt1, min1) \<leftarrow> dm_range_loop keep (posn b t) (posn b s) (b, msgno > SRT_MSGNO_CONTROL, 0, -1);
        if byMsg then dm_msgno_loop keep msgno (decPos b1 (m_iStartPos b1)) (posn b s) (b1, cnt1, min1)
        else Some (b1, cnt1, min1) }
      = Some (b2, drops (view b2) - drops (view b), mn)
    \<and> geo b2 = geo b \<and> rb_core T b2 \<and> view b2 = dropped_view b keep msgno s t \<and> changed_from mn (view b) (view b2)"
proof -
  let ?by = "msgno > SRT_MSGNO_CONTROL \<and> seeks_first keep s t (view b)"
  have ch: "changed_from (-1) (view b) (view b)" by (simp add: changed_from_def)
  from dm_range_loop_ok [OF c st ch _ rb_coreD(6) [OF c], of keep "msgno > SRT_MSGNO_CONTROL" 0] obtain b1 mn1 where b1:
    "dm_range_loop keep (posn b t) (posn b s) (b, msgno > SRT_MSGNO_CONTROL, 0, -1)
      = Some (b1, ?by, drops (view b1) - drops (view b), mn1)" "geo b1 = geo b" "rb_core T b1"
    "view b1 = drop_range keep s t (view b)" "changed_from mn1 (view b) (view b1)" by auto
  note g = geoD [OF b1(2)]
  show ?thesis
  proof (cases "?by \<and> s < sz b - 1")
    case True
    have sl: "s < length (view b)" using True rb_coreD(6) [OF c] by linarith
    then have "take s (view b1) = take s (view b)" by (simp add: b1(4) drop_range_def)
    moreover have "s < sz b1 - 1" "length (view b) = sz b1" using True g(1) rb_coreD(6) [OF c] by auto
    ultimately obtain b2 mn where b2:
      "dm_msgno_loop keep msgno (decPos b1 (m_iStartPos b1)) (posn b1 s) (b1, drops (view b1) - drops (view b), mn1)
        = Some (b2, drops (view b1) - drops (view b) + drops (view b2) - drops (view b1), mn)"
      "geo b2 = geo b1" "rb_core T b2" "view b2 = drop_before keep (m_bPeerRexmitFlag b1) msgno s (view b1)"
      "changed_from mn (view b) (view b2)"
      using dm_msgno_loop_ok [OF b1(3) _ b1(5)] by blast
    then show ?thesis using b1 g True by (intro exI [of _ b2] exI [of _ mn]) (auto simp: dropped_view_def)
  next
    case False
    have "dm_msgno_loop keep msgno (decPos b1 (m_iStartPos b1)) (posn b s) st = Some st" if ?by for st
    proof -
      have "s = sz b - 1" using False that st by simp
      then have "posn b s = decPos b1 (m_iStartPos b1)" using decPos_start [OF rb_coreD(5) [OF c]] g
        by (auto simp: decPos_def split: if_splits)
      then show ?thesis by (subst dm_msgno_loop.simps) simp
    qed
    then show ?thesis using b1 g False by (intro exI [of _ b1] exI [of _ mn1]) (auto simp: dropped_view_def)
  qed
qed

definition drop_span :: "rcv_buffer \<Rightarrow> int \<Rightarrow> int \<Rightarrow> nat \<times> nat" where
  "drop_span b lo hi = (nat (max 0 (seqoff (m_iStartSeqNo b) lo)),
     nat (min (m_szSize b - 1) (seqoff (m_iStartSeqNo b) hi + 1)))"

lemma dropMessage_ok:
  fixes msgno :: int and act :: DropActionIfExists
  assumes i: "rb_inv T b" and api: "m_bMessageAPI b" and le: "seqoff (m_iStartSeqNo b) lo \<le> seqoff (m_iStartSeqNo b) hi"
    and in_reach: "0 \<le> seqoff (m_iStartSeqNo b) hi" "seqoff (m_iStartSeqNo b) lo < m_szSize b"
    and st: "drop_span b lo hi = (s, t)"
  defines "v \<equiv> dropped_view b (act = KEEP_EXISTING) msgno s t"
  defines "m \<equiv> length (takeWhile filler v)"
  shows "\<exists>b'. dropMessage b lo hi msgno act = Some (drops v - drops (view b), b') \<and> rb_inv T b'
    \<and> view b' = drop m v @ replicate (min m (sz b)) Entry \<and> m_iStartSeqNo b' = wrapseq (m_iStartSeqNo b + int m)
    \<and> m_bMessageAPI b' = m_bMessageAPI b"
proof -
  from i obtain r where c: "rb_core T b" and r: "readable_to b r" and h: "\<not> filler (view b ! 0)"
    using api by (auto simp: rb_inv_def)
  let ?a = "seqoff (m_iStartSeqNo b) lo" and ?h = "seqoff (m_iStartSeqNo b) hi" and ?k = "act = KEEP_EXISTING"
  have z: "2 \<le> m_szSize b" using rb_coreD(5) [OF c] by (simp add: shape_def)
  have s: "s \<le> t" "t \<le> sz b - 1" "incPos b (m_iStartPos b) (max 0 ?a) = posn b s"
    "incPos b (m_iStartPos b) (min (m_szSize b - 1) (?h + 1)) = posn b t"
    using st le in_reach z by (auto simp: drop_span_def posn_int)
  from drop_loops_ok [OF c s(1,2), of ?k msgno] obtain b2 mn where b2:
    "do { (b1, byMsg, cnt1, min1) \<leftarrow> dm_range_loop ?k (posn b t) (posn b s) (b, msgno > SRT_MSGNO_CONTROL, 0, -1);
        if byMsg then dm_msgno_loop ?k msgno (decPos b1 (m_iStartPos b1)) (posn b s) (b1, cnt1, min1)
        else Some (b1, cnt1, min1) } = Some (b2, drops v - drops (view b), mn)"
    "geo b2 = geo b" "rb_core T b2" "view b2 = v" "changed_from mn (view b) v" unfolding v_def by metis
  from b2(1) obtain b1 byMsg cnt1 min1 where
    b1: "dm_range_loop ?k (posn b t) (posn b s) (b, msgno > SRT_MSGNO_CONTROL, 0, -1) = Some (b1, byMsg, cnt1, min1)"
    "(if byMsg then dm_msgno_loop ?k msgno (decPos b1 (m_iStartPos b1)) (posn b s) (b1, cnt1, min1)
      else Some (b1, cnt1, min1)) = Some (b2, drops v - drops (view b), mn)" by (auto simp: bind_eq_Some_conv)
  from releaseNextFillerEntries_ok [OF b2(3)] obtain b3 where b3: "releaseNextFillerEntries b2 = Some b3" "shifted m b2 b3"
    "rb_core T b3" "\<not> filler (view b3 ! 0)" unfolding b2(4) m_def by auto
  have "m = length (takeWhile filler (view b2))" by (simp add: m_def b2(4))
  from drop_nonread_ok [OF r c b2(3,2) b2(5) [folded b2(4)] h api b3(2,3) this] obtain q r' where
    q: "(if mn \<noteq> -1 \<and> mn \<le> getRcvDataSize b2 then updateNonreadPos (b3\<lparr>m_iFirstNonreadPos := m_iStartPos b3\<rparr>) else Some b3)
      = Some (b3\<lparr>m_iFirstNonreadPos := q\<rparr>)" "readable_to (b3\<lparr>m_iFirstNonreadPos := q\<rparr>) r'" by blast
  let ?b4 = "b3\<lparr>m_iFirstNonreadPos := q\<rparr>"
  have c4: "rb_core T ?b4" using b3(3) by simp
  from drop_search_ok [OF c4, of "\<not> tsbpd_enabled ?b4 \<and> m_bMessageAPI ?b4"] obtain x where
    x: "(if \<not> tsbpd_enabled ?b4 \<and> m_bMessageAPI ?b4 then do { ok \<leftarrow> checkFirstReadableOutOfOrder ?b4;
      updateFirstReadableOutOfOrder (if \<not> ok then ?b4\<lparr>m_iFirstReadableOutOfOrder := -1\<rparr> else ?b4) } else Some ?b4)
    = Some (?b4\<lparr>m_iFirstReadableOutOfOrder := x\<rparr>)" "-1 \<le> x" "x < m_szSize ?b4" by blast
  let ?b5 = "?b4\<lparr>m_iFirstReadableOutOfOrder := x\<rparr>"
  have "rb_inv T ?b5" using rb_core_froo [OF x(2,3) c4] q(2) b3(4) by (auto simp: rb_inv_def)
  moreover have "dropMessage b lo hi msgno act = Some (drops v - drops (view b), ?b5)"
    using in_reach unfolding dropMessage_def Let_def s(3,4)
    by (simp only: b1 b3(1) q(1) x(1) bind.bind_lunit prod.case) simp
  ultimately show ?thesis using b3(2) b2(4) geoD(3) [OF b2(2)] rb_coreD(6) [OF b2(3)] geoD(1,6) [OF b2(2)]
    by (intro exI [of _ ?b5]) (simp add: shifted_def cfg_def)
qed

lemma dropMessage_out_of_reach:
  assumes "seqoff (m_iStartSeqNo b) hi < 0 \<or> seqoff (m_iStartSeqNo b) lo \<ge> m_szSize b"
  shows "dropMessage b lo hi msgno act = Some (0, b)"
  using assms by (auto simp: dropMessage_def Let_def)

end
