(* ===== verification/RcvBufferSpec.thy ===== *)
theory RcvBufferSpec
  imports RcvBufferStream RcvBufferDrop "HOL-Library.Multiset"
begin

text \<open>
  What the receiver buffer promises: every sequence of its operations returns and keeps the invariant
  \<open>rb_inv\<close>; an insert stores a packet or says why not; a read delivers the first message, or as much of
  the byte stream as fits; drops remove what they say they remove.
\<close>

section \<open>Sequences of operations\<close>

datatype rb_op =
    OpInsert cunit
  | OpRead nat
  | OpDropUpTo int
  | OpDropAll
  | OpDropMessage int int int DropActionIfExists
  | OpSetTsbPdMode int bool int
  | OpDriftSample "32 word" int int

fun rb_exec :: "rb_op \<Rightarrow> rcv_buffer \<Rightarrow> rcv_buffer option" where
  "rb_exec (OpInsert u) b = map_option snd (rb_insert b u)"
| "rb_exec (OpRead len) b = map_option (\<lambda>r. snd (snd (snd r))) (readMessage b len None)"
| "rb_exec (OpDropUpTo seqno) b = map_option snd (dropUpTo b seqno)"
| "rb_exec OpDropAll b = map_option snd (dropAll b)"
| "rb_exec (OpDropMessage lo hi msgno act) b = map_option snd (dropMessage b lo hi msgno act)"
| "rb_exec (OpSetTsbPdMode timebase wrap delay) b = Some (rb_setTsbPdMode b timebase wrap delay)"
| "rb_exec (OpDriftSample ts arrival rtt) b = Some (snd (addRcvTsbPdDriftSample b ts arrival rtt))"

fun rb_run :: "rb_op list \<Rightarrow> rcv_buffer \<Rightarrow> rcv_buffer option" where
  "rb_run [] b = Some b"
| "rb_run (op # ops) b = Option.bind (rb_exec op b) (rb_run ops)"

text \<open>What the callers see to: valid numbers, units that are free, and ranges that are not inverted.\<close>

fun op_ok :: "rb_op \<Rightarrow> rcv_buffer \<Rightarrow> bool" where
  "op_ok (OpInsert u) b \<longleftrightarrow> valid_seq (u_seqno u) \<and> \<not> m_bTaken (m_pUnitQueue b) (u_id u)"
| "op_ok (OpDropUpTo seqno) b \<longleftrightarrow> valid_seq seqno"
| "op_ok (OpDropMessage lo hi msgno act) b \<longleftrightarrow> seqoff (m_iStartSeqNo b) lo \<le> seqoff (m_iStartSeqNo b) hi"
| "op_ok (OpRead len) b \<longleftrightarrow> True"
| "op_ok OpDropAll b \<longleftrightarrow> True"
| "op_ok (OpSetTsbPdMode timebase wrap delay) b \<longleftrightarrow> True"
| "op_ok (OpDriftSample ts arrival rtt) b \<longleftrightarrow> True"

inductive rb_reach :: "int \<Rightarrow> nat \<Rightarrow> unit_queue \<Rightarrow> rcv_buffer \<Rightarrow> bool" for ini n q where
  rb_start: "rb_reach ini n q (CRcvBuffer ini n q True)"
| rb_step: "rb_reach ini n q b \<Longrightarrow> op_ok op b \<Longrightarrow> rb_exec op b = Some b' \<Longrightarrow> rb_reach ini n q b'"

text \<open>A unit for examples: identity, sequence number, message field and payload.\<close>

definition sample_unit :: "nat \<Rightarrow> 32 word \<Rightarrow> 32 word \<Rightarrow> byte list \<Rightarrow> cunit" where
  "sample_unit i s msg dat = \<lparr>u_id = i,
     u_hdr = \<lparr>SRT_PH_SEQNO = s, SRT_PH_MSGNO = msg, SRT_PH_TIMESTAMP = 0, SRT_PH_ID = 0\<rparr>, u_data = dat\<rparr>"

definition free_queue :: unit_queue where
  "free_queue = \<lparr>m_bTaken = (\<lambda>i. False), m_iNumTaken = 0\<rparr>"

lemma taken_ok_free: "taken_ok {} free_queue []"
  by (simp add: taken_ok_def free_queue_def)

text \<open>Packets arriving one after the other, each of them accepted.\<close>

fun insert_all :: "rcv_buffer \<Rightarrow> cunit list \<Rightarrow> rcv_buffer option" where
  "insert_all b [] = Some b"
| "insert_all b (u # us) = do { (c, b') \<leftarrow> rb_insert b u; if c = 0 then insert_all b' us else None }"

section \<open>Each operation keeps the invariant\<close>

lemma CRcvBuffer_inv:
  assumes "valid_seq ini" "2 \<le> n" "int n < m_iSeqNoTH" "taken_ok T q []"
  shows "rb_inv T (CRcvBuffer ini n q api)" "readable_to (CRcvBuffer ini n q api) 0"
proof -
  let ?b = "CRcvBuffer ini n q api"
  have v: "view ?b = replicate n Entry" by (simp add: view_def CRcvBuffer_def)
  have sh: "shape ?b" using assms by (simp add: shape_def CRcvBuffer_def)
  then show r: "readable_to ?b 0" by (rule readable_to_0) (simp add: CRcvBuffer_def)
  have "ooo_ok ?b" using v by (simp add: ooo_ok_def) (simp add: CRcvBuffer_def)
  then have "rb_core T ?b" using sh v assms by (simp add: rb_core_def ring_ok_def) (simp add: CRcvBuffer_def)
  then show "rb_inv T ?b" using r v assms(2) by (auto simp: rb_inv_def)
qed

lemma rb_inv_tsbpd:
  assumes "rb_inv T b" "tsbpd_enabled b \<longrightarrow> m_bTsbPdMode t"
  shows "rb_inv T (b\<lparr>m_tsbpd := t\<rparr>)"
  using assms by (auto simp: rb_inv_def rb_core_def ring_ok_def shape_def ooo_ok_def tsbpd_enabled_def readable_to_def)

lemma setTsbPdMode_on: "m_bTsbPdMode (setTsbPdMode t timebase wrap delay)"
  by (simp add: setTsbPdMode_def)

lemma addDriftSample_keeps_mode: "m_bTsbPdMode (snd (addDriftSample t ts arrival rtt)) = m_bTsbPdMode t"
  by (auto simp: addDriftSample_def Let_def split: prod.splits)

lemma rb_insert_ok:
  assumes i: "rb_inv T b" and u: "valid_seq (u_seqno u)" "\<not> m_bTaken (m_pUnitQueue b) (u_id u)"
  defines "k \<equiv> seqoff (m_iStartSeqNo b) (u_seqno u)"
  defines "c \<equiv> if k < 0 then -2 else if k \<ge> capacity b then -3 else if status (view b ! nat k) \<noteq> EntryState_Empty then -1 else 0"
  shows "\<exists>b'. rb_insert b u = Some (c, b') \<and> rb_inv T b' \<and> m_iStartSeqNo b' = m_iStartSeqNo b
    \<and> view b' = (if c = 0 then (view b)[nat k := \<lparr>pUnit = Some u, status = EntryState_Avail\<rparr>] else view b)
    \<and> m_bMessageAPI b' = m_bMessageAPI b \<and> m_iPktsCount b' = m_iPktsCount b + (if c = 0 then 1 else 0)
    \<and> m_iBytesCount b' = m_iBytesCount b + (if c = 0 then int (length (u_data u)) else 0)"
proof (cases "c = 0")
  case True
  then have k: "0 \<le> k" "k < capacity b" "status (view b ! nat k) = EntryState_Empty" by (auto simp: c_def split: if_splits)
  from i obtain r where "rb_core T b" "readable_to b r" "m_bMessageAPI b \<longrightarrow> \<not> filler (view b ! 0)" by (auto simp: rb_inv_def)
  from rb_insert_store [OF this u k_def [THEN meta_eq_to_obj_eq] k] True show ?thesis by auto
next
  case False
  then have "k < 0 \<or> k \<ge> capacity b \<or> status (view b ! nat k) \<noteq> EntryState_Empty" by (auto simp: c_def split: if_splits)
  from rb_insert_reject [OF i k_def [THEN meta_eq_to_obj_eq] this] obtain mx where
    "rb_insert b u = Some (if k < 0 then -2 else if k \<ge> capacity b then -3 else -1, b\<lparr>m_iMaxPosOff := mx\<rparr>)"
    "rb_inv T (b\<lparr>m_iMaxPosOff := mx\<rparr>)" by auto
  then show ?thesis using False by (auto simp: c_def split: if_splits)
qed

lemma dropUpTo_cases:
  assumes i: "rb_inv T b" and s: "valid_seq seqno"
  obtains c b' where "dropUpTo b seqno = Some (c, b')" "rb_inv T b'" "m_bMessageAPI b' = m_bMessageAPI b"
  using i dropUpTo_ok [OF i s] by (cases "0 < seqoff (m_iStartSeqNo b) seqno") (auto simp: dropUpTo_def)

lemma dropAll_cases:
  assumes i: "rb_inv T b"
  obtains c b' where "dropAll b = Some (c, b')" "rb_inv T b'" "m_bMessageAPI b' = m_bMessageAPI b"
proof (cases "rb_empty b")
  case True
  then show ?thesis using i that [of 0 b] by (simp add: dropAll_def)
next
  case False
  have "valid_seq (incseq_by (m_iStartSeqNo b) (m_iMaxPosOff b))"
    using i rb_coreD(2-5) [of T b] incseq_by_wrapseq [of "m_iMaxPosOff b" "m_iStartSeqNo b"]
    by (auto simp: rb_inv_def shape_def wrapseq_id seqno_const_defs)
  from dropUpTo_cases [OF i this] obtain c b' where
    "dropUpTo b (incseq_by (m_iStartSeqNo b) (m_iMaxPosOff b)) = Some (c, b')" "rb_inv T b'" "m_bMessageAPI b' = m_bMessageAPI b" .
  then show ?thesis using False that [of "fst c + snd c" b'] by (simp add: dropAll_def)
qed

lemma dropMessage_cases:
  assumes "rb_inv T b" "m_bMessageAPI b" "seqoff (m_iStartSeqNo b) lo \<le> seqoff (m_iStartSeqNo b) hi"
  obtains c b' where "dropMessage b lo hi msgno act = Some (c, b')" "rb_inv T b'" "m_bMessageAPI b' = m_bMessageAPI b"
proof (cases "seqoff (m_iStartSeqNo b) hi < 0 \<or> seqoff (m_iStartSeqNo b) lo \<ge> m_szSize b")
  case True
  then show ?thesis using that dropMessage_out_of_reach assms(1) by blast
next
  case False
  obtain s t where "drop_span b lo hi = (s, t)" by fastforce
  with dropMessage_ok [OF assms _ _ this] False that show ?thesis by force
qed

lemma readMessage_cases:
  assumes i: "rb_inv T b" and api: "m_bMessageAPI b"
  obtains n dst mc' b' where "readMessage b len mc = Some (n, dst, mc', b')" "rb_inv T b'" "m_bMessageAPI b' = m_bMessageAPI b"
proof -
  from i obtain r where c: "rb_core T b" and r: "readable_to b r" by (auto simp: rb_inv_def)
  note sh = rb_coreD(5) [OF c]
  consider (no) "\<not> hasReadableInorderPkts b" "m_iFirstReadableOutOfOrder b < 0"
    | (start) "hasReadableInorderPkts b \<or> m_iFirstReadableOutOfOrder b = m_iStartPos b"
    | (ooo) "\<not> hasReadableInorderPkts b" "0 \<le> m_iFirstReadableOutOfOrder b" "m_iFirstReadableOutOfOrder b \<noteq> m_iStartPos b"
    by linarith
  then show ?thesis
  proof cases
    case no
    then show ?thesis using that readMessage_nothing i by blast
  next
    case start
    then show ?thesis using that readMessage_at_start [OF i r] by meson
  next
    case ooo
    obtain k where k: "m_iFirstReadableOutOfOrder b = posn b k" "k < sz b"
      using posn_surj [OF sh ooo(2)] ring_okD(8) [OF rb_coreD(1) [OF c]] by metis
    then have "0 < k" using ooo(3) sh by (cases k) auto
    then show ?thesis using that readMessage_out_of_order [OF i api ooo(1) k(1) _ k(2)] by meson
  qed
qed


lemma rb_exec_ok:
  assumes i: "rb_inv T b" "m_bMessageAPI b" and ok: "op_ok op b"
  shows "\<exists>b'. rb_exec op b = Some b' \<and> rb_inv T b' \<and> m_bMessageAPI b'"
proof (cases op)
  case (OpInsert u)
  with rb_insert_ok [OF i(1), of u] i(2) ok show ?thesis by auto
next
  case (OpRead len)
  obtain n dst mc' b' where "readMessage b len None = Some (n, dst, mc', b')" "rb_inv T b'" "m_bMessageAPI b' = m_bMessageAPI b"
    by (rule readMessage_cases [OF i])
  with OpRead i(2) show ?thesis by simp
next
  case (OpDropUpTo s)
  with ok dropUpTo_cases [OF i(1), of s] obtain c b' where "dropUpTo b s = Some (c, b')" "rb_inv T b'" "m_bMessageAPI b' = m_bMessageAPI b"
    by auto
  with OpDropUpTo i(2) show ?thesis by simp
next
  case OpDropAll
  obtain c b' where "dropAll b = Some (c, b')" "rb_inv T b'" "m_bMessageAPI b' = m_bMessageAPI b" by (rule dropAll_cases [OF i(1)])
  with OpDropAll i(2) show ?thesis by simp
next
  case (OpDropMessage lo hi msgno act)
  with ok have "seqoff (m_iStartSeqNo b) lo \<le> seqoff (m_iStartSeqNo b) hi" by simp
  then obtain c b' where "dropMessage b lo hi msgno act = Some (c, b')" "rb_inv T b'" "m_bMessageAPI b' = m_bMessageAPI b"
    by (rule dropMessage_cases [OF i])
  with OpDropMessage i(2) show ?thesis by simp
next
  case OpSetTsbPdMode
  then show ?thesis using rb_inv_tsbpd [OF i(1)] i(2) by (simp add: rb_setTsbPdMode_def setTsbPdMode_on)
next
  case (OpDriftSample ts arrival rtt)
  then show ?thesis using rb_inv_tsbpd [OF i(1)] i(2) addDriftSample_keeps_mode [of "m_tsbpd b" ts arrival rtt]
    by (simp add: addRcvTsbPdDriftSample_def split_beta tsbpd_enabled_def)
qed


text \<open>Destroying the buffer leaves the units of the others taken, and no more.\<close>

lemma free_all:
  "taken_ok T q us \<Longrightarrow> mset (units_of es) = mset us \<Longrightarrow>
   taken_ok T (fold (\<lambda>e q. case pUnit e of None \<Rightarrow> q | Some u \<Rightarrow> makeUnitFree q u) es q) []"
proof (induction es arbitrary: q us)
  case (Cons e es)
  show ?case
  proof (cases "pUnit e")
    case (Some u)
    with Cons.prems(2) have "u \<in> set us" by (simp flip: set_mset_mset) (metis union_single_eq_member)
    then obtain xs ys where us: "us = xs @ u # ys" by (meson split_list)
    from taken_ok_remove [OF Cons.prems(1) [unfolded us]] Cons.IH [of "makeUnitFree q u" "xs @ ys"] Cons.prems(2) Some us
    show ?thesis by simp
  qed (use Cons in simp)
qed simp

lemma mset_rotate: "mset (rotate n xs) = mset xs"
  unfolding rotate_drop_take by (metis append_take_drop_id mset_append union_commute)

lemma destroy_frees:
  assumes "rb_core T b"
  shows "taken_ok T (destroy b) []"
proof -
  have "mset (units_of (m_entries b)) = mset (units b)"
    unfolding units_of_def view_def List.map_filter_def by (simp add: mset_rotate)
  with free_all ring_okD(5) [OF rb_coreD(1) [OF assms]] show ?thesis unfolding destroy_def by blast
qed

section \<open>Packets in any order\<close>

lemma scan_msg_take: "scan_msg api es = Some n \<Longrightarrow> take n es' = take n es \<Longrightarrow> scan_msg api es' = Some n"
proof (induction es arbitrary: n es')
  case (Cons e es)
  from scan_msg_bounds [OF Cons.prems(1)] obtain m where n: "n = Suc m" by (cases n) auto
  with Cons.prems(2) obtain es1 where es': "es' = e # es1" "take m es1 = take m es" by (cases es') auto
  with Cons.prems(1) Cons.IH [of m es1] n show ?case by (auto split: option.splits if_splits)
qed simp

lemma readable_prefix:
  "take (readable api es) es' = take (readable api es) es \<Longrightarrow>
   readable api es' = readable api es + readable api (drop (readable api es) es')"
proof (induction api es arbitrary: es' rule: readable.induct)
  case (1 api es)
  show ?case
  proof (cases "readable api es = 0")
    case False
    then obtain e es1 u n where e: "es = e # es1" "pUnit e = Some u" "\<not> (api \<and> \<not> u_first u)" "scan_msg api es = Some n"
      by (subst (asm) readable.simps) (auto split: list.splits option.splits if_splits)
    then have r: "readable api es = n + readable api (drop n es)" by (intro readable_step) auto
    have n: "1 \<le> n" "n \<le> length es" using scan_msg_bounds [OF e(4)] by auto
    have t: "take n es' = take n es" using 1(2) r by (metis le_add1 min.absorb1 take_take)
    have "take (readable api (drop n es)) (drop n es') = take (readable api (drop n es)) (drop n es)"
      using 1(2) r by (metis add.commute take_drop)
    from 1(1) [OF e this] have IH: "readable api (drop n es')
        = readable api (drop n es) + readable api (drop (readable api (drop n es)) (drop n es'))" .
    have "es' ! 0 = e" using t e(1) n(1) by (metis gr_zeroI less_one nth_Cons_0 nth_take not_less_eq_eq One_nat_def le_zero_eq)
    then have "readable api es' = n + readable api (drop n es')"
      using scan_msg_take [OF e(4) t] e by (intro readable_step) auto
    then show ?thesis using IH r by (simp add: add.commute)
  qed simp
qed

definition Avail :: "cunit \<Rightarrow> entry" where
  "Avail u = \<lparr>pUnit = Some u, status = EntryState_Avail\<rparr>"

lemma Avail_simps [simp]: "pUnit (Avail u) = Some u" "status (Avail u) = EntryState_Avail"
  by (simp_all add: Avail_def)

text \<open>The reader is offered everything that can be read.\<close>

definition rb_all_readable :: "nat set \<Rightarrow> rcv_buffer \<Rightarrow> bool" where
  "rb_all_readable T b \<longleftrightarrow> rb_inv T b \<and> readable_to b (readable (m_bMessageAPI b) (view b))"

lemma insert_at:
  assumes i: "rb_all_readable T b" and u: "\<not> m_bTaken (m_pUnitQueue b) (u_id u)" "u_seqno u = wrapseq (m_iStartSeqNo b + int k)"
    and k: "k < sz b - 1" "view b ! k = Entry"
  obtains b' where "rb_insert b u = Some (0, b')" "rb_all_readable T b'" "view b' = (view b)[k := Avail u]"
    "m_iStartSeqNo b' = m_iStartSeqNo b" "m_bMessageAPI b' = m_bMessageAPI b"
    "m_iNotch b' = m_iNotch b" "tsbpd_enabled b' = tsbpd_enabled b"
proof -
  let ?r = "readable (m_bMessageAPI b) (view b)"
  from i have c: "rb_core T b" and r: "readable_to b ?r" and h: "m_bMessageAPI b \<longrightarrow> \<not> filler (view b ! 0)"
    by (auto simp: rb_all_readable_def rb_inv_def)
  have z: "m_szSize b < m_iSeqNoTH" using rb_coreD(5) [OF c] by (simp add: shape_def)
  have off: "int k = seqoff (m_iStartSeqNo b) (u_seqno u)"
    using seqoff_wrapseq [of "m_iStartSeqNo b + int k" "m_iStartSeqNo b"] rb_coreD(2) [OF c] u(2) k(1) z
    by (simp add: wrapseq_id)
  have "valid_seq (u_seqno u)" "int k < capacity b" "0 \<le> int k" "status (view b ! nat (int k)) = EntryState_Empty"
    using u(2) k by (auto simp: capacity_def)
  from rb_insert_store [OF c r h this(1) u(1) off this(3,2,4)] obtain b' where
    b': "rb_insert b u = Some (0, b')" "rb_inv T b'" "m_iStartSeqNo b' = m_iStartSeqNo b" "view b' = (view b)[k := Avail u]"
    "readable_to b' (?r + readable (m_bMessageAPI b) (drop ?r (view b')))" "m_bMessageAPI b' = m_bMessageAPI b"
    "m_iNotch b' = m_iNotch b" "tsbpd_enabled b' = tsbpd_enabled b"
    by (auto simp: Avail_def)
  have "?r \<le> k" using readable_le_empty [OF c _ _ r, of k] k by simp
  then have "take ?r (view b') = take ?r (view b)" by (simp add: b'(4))
  from readable_prefix [OF this] b'(5,6) have "readable_to b' (readable (m_bMessageAPI b') (view b'))" by simp
  with b' that [of b'] show ?thesis by (simp add: rb_all_readable_def)
qed


text \<open>The cells when the packets \<open>ws ! i\<close> with \<open>i \<in> D\<close> are there.\<close>

definition partial_view :: "cunit list \<Rightarrow> nat set \<Rightarrow> nat \<Rightarrow> entry list" where
  "partial_view ws D n = map (\<lambda>i. if i \<in> D \<and> i < length ws then Avail (ws ! i) else Entry) [0..<n]"

lemma partial_view_simps [simp]:
  "length (partial_view ws D n) = n" "i < n \<Longrightarrow> partial_view ws D n ! i = (if i \<in> D \<and> i < length ws then Avail (ws ! i) else Entry)"
  by (simp_all add: partial_view_def)

lemma partial_view_insert:
  "k < n \<Longrightarrow> k < length ws \<Longrightarrow> (partial_view ws D n)[k := Avail (ws ! k)] = partial_view ws (insert k D) n"
  by (rule nth_equalityI) (auto simp: nth_list_update)

lemma partial_view_units:
  assumes "u \<in> set (units_of (partial_view ws D n))"
  obtains i where "i \<in> D" "i < length ws" "u = ws ! i"
  using assms by (auto simp: units_of_def List.map_filter_def partial_view_def split: if_splits option.splits)

lemma partial_view_all:
  "length ws \<le> n \<Longrightarrow> partial_view ws {..<length ws} n = map Avail ws @ replicate (n - length ws) Entry"
  by (rule nth_equalityI) (auto simp: nth_append)

lemma insert_all_ok:
  assumes "rb_all_readable T b" "view b = partial_view ws D (sz b)" and ws: "distinct (map u_id ws)" "u_id ` set ws \<inter> T = {}"
    and sq: "\<forall>i < length ws. u_seqno (ws ! i) = wrapseq (m_iStartSeqNo b + int i)" and l: "length ws \<le> sz b - 1"
    and "distinct js" "set js \<subseteq> {..<length ws}" "D \<inter> set js = {}"
  shows "\<exists>b'. insert_all b (map ((!) ws) js) = Some b' \<and> rb_all_readable T b' \<and> view b' = partial_view ws (D \<union> set js) (sz b)
    \<and> m_iStartSeqNo b' = m_iStartSeqNo b \<and> m_bMessageAPI b' = m_bMessageAPI b \<and> m_iNotch b' = m_iNotch b
    \<and> tsbpd_enabled b' = tsbpd_enabled b"
  using assms
proof (induction js arbitrary: b D)
  case (Cons j js)
  from Cons.prems(1) have c: "rb_core T b" by (simp add: rb_all_readable_def rb_inv_def)
  have j: "j < length ws" "j \<notin> D" "j < sz b - 1" using Cons.prems by auto
  have "u_id (ws ! j) \<noteq> u_id (ws ! i)" if "i \<in> D" "i < length ws" for i
    using Cons.prems(3) that j nth_eq_iff_index_eq [of "map u_id ws" j i] by auto
  then have "u_id (ws ! j) \<notin> u_id ` set (units b)" by (auto simp: Cons.prems(2) elim!: partial_view_units)
  moreover have "u_id (ws ! j) \<notin> T" using Cons.prems(4) nth_mem [OF j(1)] by auto
  ultimately have free: "\<not> m_bTaken (m_pUnitQueue b) (u_id (ws ! j))"
    using ring_okD(5) [OF rb_coreD(1) [OF c]] by (simp add: taken_ok_def)
  have sj: "u_seqno (ws ! j) = wrapseq (m_iStartSeqNo b + int j)" using Cons.prems(5) j(1) by simp
  have "view b ! j = Entry" using j by (simp add: Cons.prems(2))
  from insert_at [OF Cons.prems(1) free sj j(3) this] obtain b1 where b1: "rb_insert b (ws ! j) = Some (0, b1)"
    "rb_all_readable T b1" "view b1 = (view b)[j := Avail (ws ! j)]" "m_iStartSeqNo b1 = m_iStartSeqNo b"
    "m_bMessageAPI b1 = m_bMessageAPI b" "m_iNotch b1 = m_iNotch b" "tsbpd_enabled b1 = tsbpd_enabled b" by blast
  have "length (view b1) = sz b1" using b1(2) rb_coreD(6) by (auto simp: rb_all_readable_def rb_inv_def)
  then have z: "sz b1 = sz b" using b1(3) rb_coreD(6) [OF c] by simp
  have v: "view b1 = partial_view ws (insert j D) (sz b1)" using b1(3) j partial_view_insert [of j "sz b" ws D] z by (simp add: Cons.prems(2))
  from Cons.IH [OF b1(2) v ws] Cons.prems b1(4) z obtain b' where
    "insert_all b1 (map ((!) ws) js) = Some b'" "rb_all_readable T b'" "view b' = partial_view ws (insert j D \<union> set js) (sz b)"
    "m_iStartSeqNo b' = m_iStartSeqNo b" "m_bMessageAPI b' = m_bMessageAPI b1"
    "m_iNotch b' = m_iNotch b1" "tsbpd_enabled b' = tsbpd_enabled b1" by auto
  then show ?case using b1 by simp
qed simp

text \<open>From an empty buffer, whatever the order of arrival.\<close>

lemma insert_all_fresh:
  assumes ini: "valid_seq ini" "2 \<le> n" "int n < m_iSeqNoTH" "taken_ok T q []"
    and ws: "distinct (map u_id ws)" "u_id ` set ws \<inter> T = {}" "length ws \<le> n - 1"
      "\<forall>i < length ws. u_seqno (ws ! i) = wrapseq (ini + int i)"
    and js: "distinct js" "set js = {..<length ws}"
  obtains b where "insert_all (CRcvBuffer ini n q api) (map ((!) ws) js) = Some b" "rb_all_readable T b"
    "view b = map Avail ws @ replicate (n - length ws) Entry" "m_bMessageAPI b = api" "m_iNotch b = 0" "\<not> tsbpd_enabled b"
proof -
  let ?b = "CRcvBuffer ini n q api"
  have v: "view ?b = replicate n Entry" by (simp add: view_def CRcvBuffer_def)
  have "replicate n Entry = partial_view ws {} n" by (rule nth_equalityI) auto
  moreover have r0: "readable a (replicate n Entry) = 0" for a using ini(2) by (intro readable_none) auto
  moreover have f: "sz ?b = n" "m_iStartSeqNo ?b = ini" "m_bMessageAPI ?b = api" "m_iNotch ?b = 0" "\<not> tsbpd_enabled ?b"
    by (simp_all add: CRcvBuffer_def tsbpd_enabled_def CTsbpdTime_def)
  ultimately have "rb_all_readable T ?b" "view ?b = partial_view ws {} (sz ?b)"
    using CRcvBuffer_inv [OF ini] v by (auto simp: rb_all_readable_def)
  from insert_all_ok [OF this ws(1,2) _ _ js(1)] ws(3,4) js(2) f obtain b where
    "insert_all ?b (map ((!) ws) js) = Some b" "rb_all_readable T b" "view b = partial_view ws {..<length ws} n"
    "m_bMessageAPI b = api" "m_iNotch b = 0" "\<not> tsbpd_enabled b" by auto
  then show ?thesis using that partial_view_all [of ws n] ws(3) by simp
qed


lemma readable_stream: "readable False (map Avail ws @ replicate m Entry) = length ws"
proof (induction ws)
  case Nil
  then show ?case by (cases m) (auto simp: readable_none readable.simps)
next
  case (Cons w ws)
  have "scan_msg False (map Avail (w # ws) @ replicate m Entry) = Some 1" by simp
  from readable_step [OF this, of w] Cons show ?case by simp
qed

lemma scan_msg_whole:
  assumes "ws \<noteq> []" "u_last (last ws)" "\<forall>w \<in> set (butlast ws). \<not> u_last w"
  shows "scan_msg True (map Avail ws @ es) = Some (length ws)" "span (map Avail ws @ es) = ws"
  using assms by (induction ws) (auto split: if_splits)

lemma units_Avail: "units_of (map Avail ws) = ws"
  by (induction ws) simp_all


section \<open>Properties\<close>



text \<open>
  C24. An insert returns -2 for a packet before the buffer, -3 for one beyond it, -1 for a cell in use and 0
  otherwise; only with 0 the packet is stored, in the cell of its number, and counted, and every other cell
  and the start of the buffer stay as they are.
\<close>

theorem rcv_insert_effect:
  assumes i: "rb_inv T b" and u: "valid_seq (u_seqno u)" "\<not> m_bTaken (m_pUnitQueue b) (u_id u)"
    and k: "k = seqoff (m_iStartSeqNo b) (u_seqno u)"
    and c: "c = (if k < 0 then -2 else if k \<ge> capacity b then -3
                 else if status (view b ! nat k) \<noteq> EntryState_Empty then -1 else 0)"
  shows "\<exists>b'. rb_insert b u = Some (c, b') \<and> rb_inv T b' \<and> m_iStartSeqNo b' = m_iStartSeqNo b
    \<and> view b' = (if c = 0 then (view b)[nat k := Avail u] else view b)
    \<and> m_iPktsCount b' = m_iPktsCount b + (if c = 0 then 1 else 0)
    \<and> m_iBytesCount b' = m_iBytesCount b + (if c = 0 then int (length (u_data u)) else 0)"
  using rb_insert_ok [OF i u] unfolding c k Avail_def by blast

theorem rcv_insert_effect_witness:
  "\<exists>b'. rb_insert (CRcvBuffer 5 4 free_queue True) (sample_unit 7 6 0xE0000001 [1, 2]) = Some (0, b')
    \<and> view b' = [Entry, Avail (sample_unit 7 6 0xE0000001 [1, 2]), Entry, Entry] \<and> m_iBytesCount b' = 2"
proof -
  let ?b = "CRcvBuffer 5 4 free_queue True" and ?u = "sample_unit 7 6 0xE0000001 [1, 2]"
  have v: "valid_seq 5" "u_seqno ?u = 6" "valid_seq (u_seqno ?u)" "\<not> m_bTaken (m_pUnitQueue ?b) (u_id ?u)"
    by (simp_all add: valid_seq_def seqno_const_defs sample_unit_def getSeqNo_def CRcvBuffer_def free_queue_def)
  have i: "rb_inv {} ?b" using CRcvBuffer_inv(1) [OF v(1) _ _ taken_ok_free] by (simp add: seqno_const_defs)
  have w: "view ?b = [Entry, Entry, Entry, Entry]" by (simp add: view_def CRcvBuffer_def numeral_eq_Suc)
  have f: "m_iStartSeqNo ?b = 5" "capacity ?b = 3" "m_iBytesCount ?b = 0" "u_data ?u = [1, 2]"
    by (simp_all add: CRcvBuffer_def capacity_def sample_unit_def)
  have "1 = seqoff (m_iStartSeqNo ?b) (u_seqno ?u)" using v(2) f by (simp add: seqoff_def seqno_const_defs)
  from rcv_insert_effect [OF i v(3,4) this refl] f show ?thesis by (auto simp: w)
qed

text \<open>
  C25. Reading in order delivers the first message whole (cut to the caller's length), removes its packets
  together with the dropped and already read cells behind it, and leaves the rest of the buffer alone.
\<close>

theorem rcv_read_in_order:
  assumes i: "rb_inv T b" "m_bMessageAPI b" and h: "hasReadableInorderPkts b"
  shows "\<exists>us mc' b' m. us = span (view b) \<and> us \<noteq> [] \<and> u_last (last us)
    \<and> m = length us + length (takeWhile filler (drop (length us) (view b)))
    \<and> readMessage b len mc = Some (int (min len (length (payload us))), take len (payload us), mc', b')
    \<and> rb_inv T b' \<and> view b' = drop m (view b) @ replicate (min m (length (view b))) Entry
    \<and> m_iStartSeqNo b' = wrapseq (m_iStartSeqNo b + int m)
    \<and> m_iPktsCount b' = m_iPktsCount b - int (length us)"
proof -
  from i obtain r where c: "rb_core T b" and r: "readable_to b r" by (auto simp: rb_inv_def)
  have r0: "0 < r" using r h rb_coreD(5) [OF c] by (cases r) (auto simp: readable_to_def hasReadableInorderPkts_def)
  have "r < sz b" using r le_less_trans [OF _ max_less_sz [OF c], of r] by (simp add: readable_to_def)
  then have "r - 1 < length (view b)" using rb_coreD(6) [OF c] by simp
  moreover from r r0 i(2) obtain u where "pUnit (view b ! (r - 1)) = Some u" "u_last u" "\<forall>j \<le> r - 1. pUnit (view b ! j) \<noteq> None"
    by (auto simp: readable_to_def)
  ultimately obtain n where "scan_msg True (view b) = Some n" using scan_msg_exists [of "r - 1" "view b" u] by auto
  with scan_msg_span readMessage_at_start [OF i(1) r disjI1 [OF h], of len mc] show ?thesis by (simp add: min.commute) blast
qed

theorem rcv_read_in_order_witness:
  "\<exists>b mc' b'. insert_all (CRcvBuffer 5 4 free_queue True) [sample_unit 7 5 0xE0000001 [1, 2]] = Some b
    \<and> readMessage b 10 None = Some (2, [1, 2], mc', b')"
proof -
  let ?w = "sample_unit 7 5 0xE0000001 [1, 2]"
  have w: "valid_seq 5" "u_seqno ?w = wrapseq 5" "u_last ?w" "u_first ?w" "u_data ?w = [1, 2]"
    by (simp_all add: valid_seq_def seqno_const_defs sample_unit_def getSeqNo_def wrapseq_def u_last_def u_first_def
        getMsgBoundary_def) code_simp+
  have q: "\<forall>i < length [?w]. u_seqno ([?w] ! i) = wrapseq (5 + int i)" using w(2) by simp
  obtain b where b: "insert_all (CRcvBuffer 5 4 free_queue True) (map ((!) [?w]) [0]) = Some b" "rb_all_readable {} b"
    "view b = map Avail [?w] @ replicate (4 - length [?w]) Entry" "m_bMessageAPI b = True"
    using insert_all_fresh [OF w(1) _ _ taken_ok_free _ _ _ q, of 4 "[0]" True] by (auto simp: seqno_const_defs)
  have sc: "scan_msg True (view b) = Some 1" using b(3) w(3) by simp
  have "readable True (view b) \<noteq> 0" using readable_step [OF sc, of ?w] b(3) w(4) by simp
  with b(2,4) have i: "rb_inv {} b" "readable_to b (readable True (view b))" by (auto simp: rb_all_readable_def)
  then have c: "rb_core {} b" by (simp add: rb_inv_def)
  have "readable True (view b) < sz b" using i(2) le_less_trans [OF _ max_less_sz [OF c], of "readable True (view b)"]
    by (simp add: readable_to_def)
  then have h: "hasReadableInorderPkts b" using posn_inj [OF rb_coreD(5) [OF c], of "readable True (view b)" 0] i(2)
      \<open>readable True (view b) \<noteq> 0\<close> rb_coreD(5) [OF c] by (auto simp: hasReadableInorderPkts_def readable_to_def)
  have "span (view b) = [?w]" using b(3) w(3) by simp
  with rcv_read_in_order [OF i(1) _ h, of 10 None] b(1,4) w(5) show ?thesis by auto
qed


text \<open>
  Liveness of delivery: when all packets of a message have arrived, in whatever order, every insert was
  accepted and the application reads the message, its payloads in sequence order.
\<close>

lemma delivered_any_order:
  assumes ini: "valid_seq ini" "2 \<le> n" "int n < m_iSeqNoTH" "taken_ok T q []"
    and ws: "distinct (map u_id ws)" "u_id ` set ws \<inter> T = {}" "length ws \<le> n - 1"
      "\<forall>i < length ws. u_seqno (ws ! i) = wrapseq (ini + int i)"
    and js: "distinct js" "set js = {..<length ws}"
    and msg: "ws \<noteq> []" "u_first (hd ws)" "u_last (last ws)" "\<forall>w \<in> set (butlast ws). \<not> u_last w"
    and len: "length (payload ws) \<le> len"
  shows "\<exists>b mc' b'. insert_all (CRcvBuffer ini n q True) (map ((!) ws) js) = Some b
    \<and> readMessage b len mc = Some (int (length (payload ws)), payload ws, mc', b') \<and> rb_inv T b' \<and> units b' = []"
proof -
  obtain b where b: "insert_all (CRcvBuffer ini n q True) (map ((!) ws) js) = Some b" "rb_all_readable T b"
    "view b = map Avail ws @ replicate (n - length ws) Entry" "m_bMessageAPI b = True"
    by (rule insert_all_fresh [OF ini ws js, of True]) blast
  note sm = scan_msg_whole [OF msg(1,3,4), of "replicate (n - length ws) Entry", folded b(3)]
  let ?r = "readable True (view b)"
  have r: "rb_inv T b" "readable_to b ?r" using b(2,4) by (auto simp: rb_all_readable_def)
  then have c: "rb_core T b" by (simp add: rb_inv_def)
  have "view b ! 0 = Avail (hd ws)" using b(3) msg(1) by (cases ws) auto
  then have "?r \<noteq> 0" using readable_step [OF sm(1), of "hd ws"] msg(1,2) by simp
  moreover have "?r < sz b" using r(2) le_less_trans [OF _ max_less_sz [OF c], of ?r] by (simp add: readable_to_def)
  ultimately have h: "hasReadableInorderPkts b" using posn_inj [OF rb_coreD(5) [OF c], of ?r 0] r(2) rb_coreD(5) [OF c]
    by (auto simp: hasReadableInorderPkts_def readable_to_def)
  from readMessage_at_start [OF r disjI1 [OF h], of len mc, unfolded sm(2)] obtain mc' b' m where b':
    "readMessage b len mc = Some (int (length (take len (payload ws))), take len (payload ws), mc', b')" "rb_inv T b'"
    "m = length ws + length (takeWhile filler (drop (length ws) (view b)))"
    "view b' = drop m (view b) @ replicate (min m (length (view b))) Entry" by blast
  have "units b' = []" unfolding b'(4) by (rule units_of_none) (auto simp: b(3) b'(3) dest: in_set_dropD)
  then show ?thesis using b(1) b' len by auto
qed

text \<open>
  C26. Refinement of a byte stream: a read hands out as many bytes of the readable stream as the caller
  asks for, in order and from where the last read stopped inside a packet, and the stream that remains is
  the rest.
\<close>

theorem readBuffer_stream:
  assumes "stream_ok T b r" "\<not> tsbpd_enabled b" "0 \<le> len" and n: "n = min (nat len) (length (stream b r))"
  shows "\<exists>b' r'. readBuffer now b dst len = Some (int n, b', take n (stream b r) @ drop n dst)
    \<and> stream_ok T b' r' \<and> stream b' r' = drop n (stream b r)"
proof -
  from buf.readBufferTo_stream [OF assms(1-3), of dst dst now] obtain b' r' s' where
    "readBufferTo copyBytesToBuf now b len dst = Some (int n, b', s')"
    "s' = take n (stream b r) @ drop (length (take n (stream b r))) dst"
    "stream_ok T b' r'" "stream b' r' = drop n (stream b r)" unfolding n by auto
  moreover have "length (take n (stream b r)) = n" by (simp add: n)
  ultimately show ?thesis unfolding readBuffer_def by metis
qed

theorem readBuffer_stream_witness:
  "\<exists>b b'. insert_all (CRcvBuffer 5 4 free_queue False) [sample_unit 8 6 0 [3, 4], sample_unit 7 5 0 [1, 2]] = Some b
    \<and> readBuffer 0 b [9, 9, 9, 9] 3 = Some (3, b', [1, 2, 3, 9])"
proof -
  let ?ws = "[sample_unit 7 5 0 [1, 2], sample_unit 8 6 0 [3, 4]]"
  have w: "valid_seq 5" "u_seqno (?ws ! 0) = 5" "u_seqno (?ws ! 1) = 6"
    by (simp_all add: valid_seq_def seqno_const_defs sample_unit_def getSeqNo_def)
  have q: "\<forall>i < length ?ws. u_seqno (?ws ! i) = wrapseq (5 + int i)"
    using w by (auto simp: less_Suc_eq wrapseq_def seqno_const_defs)
  have js: "distinct [1, 0 :: nat]" "set [1, 0] = {..<length ?ws}" by auto
  obtain b where b: "insert_all (CRcvBuffer 5 4 free_queue False) (map ((!) ?ws) [1, 0]) = Some b" "rb_all_readable {} b"
    "view b = map Avail ?ws @ replicate (4 - length ?ws) Entry" "m_bMessageAPI b = False" "m_iNotch b = 0" "\<not> tsbpd_enabled b"
    by (rule insert_all_fresh [OF w(1) _ _ taken_ok_free _ _ _ q js, of 4 False])
      (auto simp: seqno_const_defs sample_unit_def)
  have r2: "readable False (view b) = 2" using readable_stream [of ?ws 2] b(3) by simp
  have "stream_ok {} b 2" using b(2,4,5) r2 by (simp add: stream_ok_def notch_ok_def rb_all_readable_def rb_inv_def)
  moreover have "stream b 2 = [1, 2, 3, 4]" using b(3,5) by (simp add: stream_def sample_unit_def)
  ultimately have "\<exists>b' r'. readBuffer 0 b [9, 9, 9, 9] 3 = Some (int 3, b', take 3 [1, 2, 3, 4] @ drop 3 [9, 9, 9, 9])
      \<and> stream_ok {} b' r' \<and> stream b' r' = drop 3 [1, 2, 3, 4]"
    using readBuffer_stream [of "{}" b 2 3 3 0 "[9, 9, 9, 9]"] b(6) by simp
  then show ?thesis using b(1) by auto
qed


text \<open>
  Dropping everything before a number reports how many of those packets were missing and how many were
  thrown away (cells already read or dropped count as neither), frees them and starts the buffer at that
  number, or behind the read and dropped cells that follow it.
\<close>

theorem dropUpTo_counts:
  assumes i: "rb_inv T b" and s: "valid_seq seqno" "0 < seqoff (m_iStartSeqNo b) seqno"
    and n: "n = nat (seqoff (m_iStartSeqNo b) seqno)" and m: "m = length (takeWhile filler (drop n (view b)))"
  shows "\<exists>b'. dropUpTo b seqno = Some ((missing n (view b), available n (view b)), b') \<and> rb_inv T b'
    \<and> view b' = drop (n + m) (view b) @ replicate (min (n + m) (sz b)) Entry
    \<and> m_iStartSeqNo b' = wrapseq (m_iStartSeqNo b + int (n + m))"
  using dropUpTo_ok [OF i s] unfolding m n by blast

theorem dropUpTo_counts_witness:
  "\<exists>b b'. insert_all (CRcvBuffer 5 6 free_queue True) [sample_unit 7 5 0xE0000001 [1]] = Some b
    \<and> dropUpTo b 8 = Some ((2, 1), b') \<and> m_iStartSeqNo b' = 8"
proof -
  let ?w = "sample_unit 7 5 0xE0000001 [1]"
  have w: "valid_seq 5" "u_seqno ?w = wrapseq 5" "valid_seq 8"
    by (simp_all add: valid_seq_def seqno_const_defs sample_unit_def getSeqNo_def wrapseq_def)
  have q: "\<forall>i < length [?w]. u_seqno ([?w] ! i) = wrapseq (5 + int i)" using w(2) by simp
  have js: "distinct [0 :: nat]" "set [0] = {..<length [?w]}" by auto
  let ?b = "CRcvBuffer 5 6 free_queue True"
  have i0: "rb_inv {} ?b" using CRcvBuffer_inv(1) [OF w(1) _ _ taken_ok_free] by (simp add: seqno_const_defs)
  have f: "view ?b = replicate 6 Entry" "m_iStartSeqNo ?b = 5" "capacity ?b = 5" "\<not> m_bTaken (m_pUnitQueue ?b) (u_id ?w)"
    by (simp_all add: CRcvBuffer_def view_def capacity_def free_queue_def)
  have off: "seqoff (m_iStartSeqNo ?b) (u_seqno ?w) = 0"
    using f(2) w(2) by (simp add: seqoff_def wrapseq_def seqno_const_defs)
  have "valid_seq (u_seqno ?w)" using w(2) by simp
  from rb_insert_ok [OF i0 this f(4), unfolded off] f obtain b where b: "rb_insert ?b ?w = Some (0, b)" "rb_inv {} b"
    "view b = (replicate 6 Entry)[0 := Avail ?w]" "m_iStartSeqNo b = 5"
    by (auto simp: Avail_def)
  have v: "view b = Avail ?w # replicate 5 Entry" using b(3) by (simp add: numeral_eq_Suc)
  have "seqoff (m_iStartSeqNo b) 8 = 3" by (simp add: b(4) seqoff_def seqno_const_defs)
  from dropUpTo_counts [OF b(2) w(3) _ refl refl] this b(1,4) v show ?thesis
    by (fastforce simp: missing_def available_def numeral_eq_Suc wrapseq_def seqno_const_defs)
qed

text \<open>
  C27. Dropping a message marks the cells of its range, apart from whole single-packet messages when those
  are to be kept, and, where the range lacks the message's first packet, the earlier packets with the
  message number back to the first one; the count says how many cells were newly marked.
\<close>

theorem dropMessage_effect:
  assumes "rb_inv T b" "m_bMessageAPI b" "seqoff (m_iStartSeqNo b) lo \<le> seqoff (m_iStartSeqNo b) hi"
    "0 \<le> seqoff (m_iStartSeqNo b) hi" "seqoff (m_iStartSeqNo b) lo < m_szSize b"
    and st: "s = nat (max 0 (seqoff (m_iStartSeqNo b) lo))"
      "t = nat (min (m_szSize b - 1) (seqoff (m_iStartSeqNo b) hi + 1))"
    and v: "v = dropped_view b (act = KEEP_EXISTING) msgno s t" and m: "m = length (takeWhile filler v)"
  shows "\<exists>b'. dropMessage b lo hi msgno act = Some (drops v - drops (view b), b') \<and> rb_inv T b'
    \<and> view b' = drop m v @ replicate (min m (sz b)) Entry \<and> m_iStartSeqNo b' = wrapseq (m_iStartSeqNo b + int m)"
  using dropMessage_ok [OF assms(1-5), where s = s and t = t and act = act and msgno = msgno] unfolding v m st drop_span_def by blast

theorem dropMessage_effect_witness:
  "\<exists>b'. dropMessage (CRcvBuffer 5 6 free_queue True) 6 7 1 KEEP_EXISTING = Some (2, b')
    \<and> view b' = [Entry, DropEntry, DropEntry, Entry, Entry, Entry]"
proof -
  let ?b = "CRcvBuffer 5 6 free_queue True"
  have "valid_seq 5" by (simp add: valid_seq_def seqno_const_defs)
  then have i: "rb_inv {} ?b" using CRcvBuffer_inv(1) [OF _ _ _ taken_ok_free] by (simp add: seqno_const_defs)
  have f: "view ?b = [Entry, Entry, Entry, Entry, Entry, Entry]" "m_iStartSeqNo ?b = 5" "m_szSize ?b = 6" "m_bMessageAPI ?b"
    by (simp_all add: CRcvBuffer_def view_def numeral_eq_Suc)
  have o: "seqoff 5 6 = 1" "seqoff 5 7 = 2" by (simp_all add: seqoff_def seqno_const_defs)
  have v: "dropped_view ?b (KEEP_EXISTING = KEEP_EXISTING) 1 1 3 = [Entry, DropEntry, DropEntry, Entry, Entry, Entry]"
    by (simp add: dropped_view_def f SRT_MSGNO_CONTROL_def drop_range_def seeks_first_def drop_before_def drop_cell_def
        has_boundary_def Let_def)
  have d: "drops [Entry, DropEntry, DropEntry, Entry, Entry, Entry] = 2" "drops (view ?b) = 0" by (simp_all add: drops_def f)
  from dropMessage_effect [OF i f(4) _ _ _ _ _ v [symmetric] refl, of 6 7] show ?thesis
    by (simp add: d) (auto simp: f o)
qed


section \<open>Behaviour at the edges\<close>

text \<open>
  Message 2 is read out of order, message 1 arrives and is read; the read releases the cell of message 2
  and brings message 3 to the front, but the first non-readable position is only set to the new start, not
  moved on: a complete message is in the buffer and none is offered, until another packet arrives.
\<close>

lemma read_leaves_message_unoffered:
  "case rb_run [OpInsert (sample_unit 1 6 0xC0000002 [2]), OpRead 10, OpInsert (sample_unit 2 7 0xE0000003 [3]),
      OpInsert (sample_unit 0 5 0xE0000001 [1]), OpRead 10] (CRcvBuffer 5 8 free_queue True) of
     None \<Rightarrow> False
   | Some b \<Rightarrow> \<not> hasReadableInorderPkts b \<and> m_iFirstReadableOutOfOrder b = -1 \<and> readable True (view b) = 1"
  by code_simp

text \<open>An inverted range, from 9 to 7, drops what is outside: seven cells, and with them both packets.\<close>

lemma inverted_drop_range:
  "case rb_run [OpInsert (sample_unit 0 5 0xE0000001 [1]), OpInsert (sample_unit 1 6 0xE0000002 [2])]
      (CRcvBuffer 5 8 free_queue True) of
     None \<Rightarrow> False
   | Some b \<Rightarrow> map_option (\<lambda>r. (fst r, length (units (snd r)))) (dropMessage b 9 7 0 DROP_EXISTING) = Some (7, 0)"
  by code_simp

text \<open>A stream stops at a dropped cell: nothing more is read although a packet waits behind it.\<close>

lemma stream_stalls_at_drop:
  "case rb_run [OpInsert (sample_unit 0 5 0 [1]), OpDropMessage 6 6 0 DROP_EXISTING, OpInsert (sample_unit 1 7 0 [3])]
      (CRcvBuffer 5 8 free_queue False) of
     None \<Rightarrow> False
   | Some b \<Rightarrow> (case readBuffer 0 b [0, 0] 2 of None \<Rightarrow> False
      | Some (n, b', dst) \<Rightarrow> n = 1 \<and> length (units b') = 1
          \<and> map_option fst (Option.bind (rb_insert b' (sample_unit 2 8 0 [4])) (\<lambda>r. readBuffer 0 (snd r) [0, 0] 2)) = Some 0)"
  by code_simp

end
