(* ===== verification/FilterConfig.thy ===== *)
theory FilterConfig
  imports Prelude "HOL-Library.AList" "HOL-Library.Monad_Syntax"
begin

text \<open>
  The configuration strings of packet filters: \<^verbatim>\<open>Split\<close> of \<^verbatim>\<open>utilities.h\<close>, \<^verbatim>\<open>SrtParseConfig\<close> of
  \<^verbatim>\<open>common.cpp\<close>, \<^verbatim>\<open>PacketFilter::Internal\<close> of \<^verbatim>\<open>packetfilter.h\<close> and \<^verbatim>\<open>packetfilter.cpp\<close>, and the check
  of the built-in filter, \<^verbatim>\<open>FECFilterBuiltin::verifyConfig\<close> of \<^verbatim>\<open>fec.cpp\<close>.

  A \<^verbatim>\<open>std::map\<close> of parameters is an association list with distinct keys; the order of its keys is of no
  consequence here. The result of \<^verbatim>\<open>atoi\<close> is \<open>None\<close> where C leaves it undefined.
\<close>

section \<open>Splitting\<close>

fun split_loop :: "char \<Rightarrow> string \<Rightarrow> string \<Rightarrow> string list" where
  "split_loop delimiter tok [] = [rev tok]"
| "split_loop delimiter tok (c # s) =
     (if c = delimiter then rev tok # split_loop delimiter [] s else split_loop delimiter (c # tok) s)"

definition Split :: "string \<Rightarrow> char \<Rightarrow> string list" where
  "Split str delimiter = (if str = [] then [] else split_loop delimiter [] str)"

section \<open>Configurations\<close>

type_synonym par_t = "(string \<times> string) list"

record srt_filter_config =
  fc_type :: string
  fc_parameters :: par_t
  fc_extra_size :: nat

definition SrtFilterConfig :: srt_filter_config where
  "SrtFilterConfig = \<lparr>fc_type = [], fc_parameters = [], fc_extra_size = 0\<rparr>"

fun parse_parts :: "string list \<Rightarrow> srt_filter_config \<Rightarrow> bool \<times> srt_filter_config" where
  "parse_parts [] w_config = (True, w_config)"
| "parse_parts (p # ps) w_config =
     (case Split p CHR '':'' of
        [key, val] \<Rightarrow> parse_parts ps (if val \<noteq> [] then w_config\<lparr>fc_parameters := AList.update key val (fc_parameters w_config)\<rparr>
                                     else w_config)
      | _ \<Rightarrow> (False, w_config))"

definition SrtParseConfig :: "string \<Rightarrow> srt_filter_config \<Rightarrow> bool \<times> srt_filter_config" where
  "SrtParseConfig s w_config =
     (case Split s CHR '','' of
        [] \<Rightarrow> (False, w_config)
      | t # parts \<Rightarrow> parse_parts parts (w_config\<lparr>fc_type := t\<rparr>))"

text \<open>\<^verbatim>\<open>map_get\<close>: the value of a key, or the empty string.\<close>

definition map_get :: "par_t \<Rightarrow> string \<Rightarrow> string" where
  "map_get m key = (case map_of m key of None \<Rightarrow> [] | Some v \<Rightarrow> v)"

section \<open>Numbers\<close>

definition isspace :: "char \<Rightarrow> bool" where
  "isspace c \<longleftrightarrow> c = CHR '' '' \<or> 9 \<le> (of_char c :: nat) \<and> (of_char c :: nat) \<le> 13"

definition isdigit :: "char \<Rightarrow> bool" where
  "isdigit c \<longleftrightarrow> 48 \<le> (of_char c :: nat) \<and> (of_char c :: nat) \<le> 57"

definition digits_value :: "string \<Rightarrow> int" where
  "digits_value s = foldl (\<lambda>n c. 10 * n + (of_char c - 48)) 0 (takeWhile isdigit s)"

definition atoi :: "string \<Rightarrow> int option" where
  "atoi str =
     (let s = dropWhile isspace str;
          n = (case s of [] \<Rightarrow> 0
               | c # r \<Rightarrow> if c = CHR ''-'' then - digits_value r
                        else if c = CHR ''+'' then digits_value r else digits_value s)
      in if in_int32 n then Some n else None)"

definition c_str :: "string \<Rightarrow> string" where
  "c_str s = takeWhile (\<lambda>c. c \<noteq> CHR 0x00) s"

section \<open>The built-in filter\<close>

definition fec_defaultConfig :: string where
  "fec_defaultConfig = ''fec,rows:1,layout:staircase,arq:onreq''"

definition fec_EXTRA_SIZE :: nat where
  "fec_EXTRA_SIZE = 4"

text \<open>The result is an error text or nothing; \<open>None\<close> where a number is out of the range of \<^verbatim>\<open>atoi\<close>.\<close>

definition verify_cols :: "par_t \<Rightarrow> (string + unit) option" where
  "verify_cols params =
     (let colspec = map_get params ''cols'' in
      if colspec \<noteq> [] then do { out_cols \<leftarrow> atoi (c_str colspec);
        Some (if out_cols < 2 then Inl ''at least 'cols' must be specified and > 1'' else Inr ()) }
      else Some (Inr ()))"

definition verify_rows :: "par_t \<Rightarrow> (string + unit) option" where
  "verify_rows params =
     (let rowspec = map_get params ''rows'' in
      if rowspec \<noteq> [] then do { out_rows \<leftarrow> atoi (c_str rowspec);
        Some (if out_rows \<ge> -1 \<and> out_rows < 1 then Inl (CHR 0x27 # ''rows' must be >=1 or negative < -1'') else Inr ()) }
      else Some (Inr ()))"

definition verify_arq :: "par_t \<Rightarrow> string + unit" where
  "verify_arq params =
     (let level = map_get params ''arq'' in
      if level \<noteq> [] \<and> c_str level \<notin> {''never'', ''onreq'', ''always''} then 
        Inl (CHR 0x27 # ''arq' value '' @ CHR 0x27 # level @ CHR 0x27 # '' invalid. Allowed: never, onreq, always'') else Inr ())"

definition fec_verifyConfig :: "srt_filter_config \<Rightarrow> (string + unit) option" where
  "fec_verifyConfig cfg =
     (let params = fc_parameters cfg; arspec = map_get params ''layout'' in
      if arspec \<noteq> [] \<and> arspec \<noteq> ''even'' \<and> arspec \<noteq> ''staircase'' then Some (Inl (''value for 'layout' must be 'even' or 'staircase'' @ [CHR 0x27]))
      else do {
        c \<leftarrow> verify_cols params;
        case c of Inl e \<Rightarrow> Some (Inl e) | Inr _ \<Rightarrow> do {
          r \<leftarrow> verify_rows params;
          case r of Inl e \<Rightarrow> Some (Inl e) | Inr _ \<Rightarrow>
            (case verify_arq params of Inl e \<Rightarrow> Some (Inl e) | Inr _ \<Rightarrow>
               (let defconf = snd (SrtParseConfig fec_defaultConfig SrtFilterConfig);
                    keys = filter (\<lambda>k. k \<notin> set (map fst (fc_parameters defconf))) (map fst params);
                    keys' = filter (\<lambda>k. k \<noteq> ''cols'') keys
                in Some (if keys' \<noteq> [] then Inl ''Extra parameters. Allowed only: cols, rows, layout, arq'' else Inr ()))) } })"

section \<open>Registered filters\<close>

record filter_factory =
  ff_ExtraSize :: nat
  ff_defaultConfig :: string
  ff_verifyConfig :: "srt_filter_config \<Rightarrow> (string + unit) option"

record filter_registry =
  m_builtin_filters :: "string list"
  m_filters :: "(string \<times> filter_factory) list"

definition fec_factory :: filter_factory where
  "fec_factory = \<lparr>ff_ExtraSize = fec_EXTRA_SIZE, ff_defaultConfig = fec_defaultConfig, ff_verifyConfig = fec_verifyConfig\<rparr>"

definition Internal :: filter_registry where
  "Internal = \<lparr>m_builtin_filters = [''fec''], m_filters = [(''fec'', fec_factory)]\<rparr>"

definition filter_add :: "filter_registry \<Rightarrow> string \<Rightarrow> filter_factory \<Rightarrow> bool \<times> filter_registry" where
  "filter_add r name f =
     (if name \<in> set (m_builtin_filters r) then (False, r)
      else (True, r\<lparr>m_filters := AList.update name f (m_filters r)\<rparr>))"

definition filter_find :: "filter_registry \<Rightarrow> string \<Rightarrow> filter_factory option" where
  "filter_find r type = map_of (m_filters r) type"

text \<open>The third component is the factory that was found.\<close>

definition ParseConfig :: "filter_registry \<Rightarrow> string \<Rightarrow> srt_filter_config
    \<Rightarrow> bool \<times> srt_filter_config \<times> filter_factory option" where
  "ParseConfig r s w_config =
     (case SrtParseConfig s w_config of (ok, cfg) \<Rightarrow>
        if \<not> ok then (False, cfg, None)
        else (case filter_find r (fc_type cfg) of
                None \<Rightarrow> (False, cfg, None)
              | Some fac \<Rightarrow> (True, cfg\<lparr>fc_extra_size := ff_ExtraSize fac\<rparr>, Some fac)))"

definition ParseFilterConfig :: "filter_registry \<Rightarrow> string \<Rightarrow> srt_filter_config \<Rightarrow> bool \<times> srt_filter_config" where
  "ParseFilterConfig r s w_config = (case ParseConfig r s w_config of (ok, cfg, _) \<Rightarrow> (ok, cfg))"

text \<open>The loops of \<^verbatim>\<open>CheckFilterCompat\<close> that complete one map from another.\<close>

definition complete :: "par_t \<Rightarrow> par_t \<Rightarrow> par_t" where
  "complete from to = fold (\<lambda>(k, v) m. if map_of m k = None then AList.update k v m else m) from to"

definition CheckFilterCompat ::
  "filter_registry \<Rightarrow> srt_filter_config \<Rightarrow> srt_filter_config \<Rightarrow> bool \<times> srt_filter_config" where
  "CheckFilterCompat r w_agent peer_in =
     (case filter_find r (fc_type w_agent) of
        None \<Rightarrow> (False, w_agent)
      | Some fac \<Rightarrow>
          (case ParseFilterConfig r (ff_defaultConfig fac) SrtFilterConfig of (ok, defaults) \<Rightarrow>
             if \<not> ok then (False, w_agent)
             else let peer1 = complete (fc_parameters w_agent) (fc_parameters peer_in);
                      agent1 = complete peer1 (fc_parameters w_agent);
                      keys = map fst (fc_parameters w_agent) @ map fst peer1;
                      agent2 = complete (fc_parameters defaults) agent1;
                      peer2 = complete (fc_parameters defaults) peer1
                  in (list_all (\<lambda>k. map_get agent2 k = map_get peer2 k) keys, w_agent\<lparr>fc_parameters := agent2\<rparr>)))"

section \<open>Splitting and joining\<close>

fun join :: "char \<Rightarrow> string list \<Rightarrow> string" where
  "join d [] = []"
| "join d [x] = x"
| "join d (x # y # xs) = x @ d # join d (y # xs)"

lemma split_loop_token:
  "d \<notin> set t \<Longrightarrow> split_loop d tok (t @ s) = split_loop d (rev t @ tok) s"
  by (induction t arbitrary: tok) auto

lemma split_loop_join:
  "xs \<noteq> [] \<Longrightarrow> \<forall>x \<in> set xs. d \<notin> set x \<Longrightarrow> split_loop d [] (join d xs) = xs"
proof (induction d xs rule: join.induct)
  case (2 d x)
  then show ?case using split_loop_token [of d x "[]" "[]"] by simp
next
  case (3 d x y xs)
  then show ?case using split_loop_token [of d x "[]" "d # join d (y # xs)"] by simp
qed simp

lemma split_loop_sound:
  "split_loop d tok s \<noteq> []" "d \<notin> set tok \<Longrightarrow> x \<in> set (split_loop d tok s) \<Longrightarrow> d \<notin> set x"
  "join d (split_loop d tok s) = rev tok @ s"
proof -
  show ne: "split_loop d tok s \<noteq> []" for tok s by (induction s arbitrary: tok) auto
  show "d \<notin> set tok \<Longrightarrow> x \<in> set (split_loop d tok s) \<Longrightarrow> d \<notin> set x"
    by (induction s arbitrary: tok) (fastforce split: if_splits)+
  show "join d (split_loop d tok s) = rev tok @ s"
  proof (induction s arbitrary: tok)
    case (Cons c s)
    obtain y ys where "split_loop d [] s = y # ys" using ne by (meson list.exhaust)
    with Cons.IH [of "[]"] Cons.IH [of "c # tok"] show ?case by simp
  qed simp
qed

lemma Split_join: "join d xs \<noteq> [] \<Longrightarrow> xs \<noteq> [] \<Longrightarrow> \<forall>x \<in> set xs. d \<notin> set x \<Longrightarrow> Split (join d xs) d = xs"
  by (simp add: Split_def split_loop_join)

section \<open>Completing a map\<close>

lemma map_of_complete: "map_of (complete from to) = map_of from ++ map_of to" if "distinct (map fst from)"
  using that
proof (induction "from" arbitrary: to)
  case Nil
  then show ?case by (simp add: complete_def)
next
  case (Cons p ps)
  obtain k v where p: "p = (k, v)" by (cases p)
  let ?to = "if map_of to k = None then AList.update k v to else to"
  have "complete (p # ps) to = complete ps ?to" by (simp add: complete_def p)
  then have "map_of (complete (p # ps) to) = map_of ps ++ map_of ?to" using Cons.IH [of ?to] Cons.prems by simp
  also have "\<dots> = map_of (p # ps) ++ map_of to"
    using Cons.prems by (auto simp: p map_add_def fun_eq_iff update_conv' split: option.splits)
  finally show ?case .
qed

lemma complete_keys: "distinct (map fst to) \<Longrightarrow> distinct (map fst (complete from to))"
  "fst ` set (complete from to) = fst ` set from \<union> fst ` set to"
proof -
  have d: "fst ` set m = dom (map_of m)" for m :: par_t by (simp add: dom_map_of_conv_image_fst)
  show "distinct (map fst to) \<Longrightarrow> distinct (map fst (complete from to))" unfolding complete_def
    by (induction "from" arbitrary: to) (auto simp: distinct_update split: prod.splits)
  show "fst ` set (complete from to) = fst ` set from \<union> fst ` set to" unfolding complete_def d
    by (induction "from" arbitrary: to) (auto simp: update_conv' split: prod.splits if_splits)
qed

lemma map_get_eq: "map_of m k = map_of m' k \<Longrightarrow> map_get m k = map_get m' k"
  by (simp add: map_get_def)

section \<open>Printing a configuration\<close>

definition format_param :: "string \<times> string \<Rightarrow> string" where
  "format_param p = fst p @ CHR '':'' # snd p"

definition format_config :: "string \<Rightarrow> par_t \<Rightarrow> string" where
  "format_config t ps = join CHR '','' (t # map format_param ps)"

definition plain :: "string \<Rightarrow> bool" where
  "plain s \<longleftrightarrow> CHR '','' \<notin> set s \<and> CHR '':'' \<notin> set s"

lemma update_fresh: "k \<notin> fst ` set ps \<Longrightarrow> AList.update k v ps = ps @ [(k, v)]"
  by (induction ps) auto

lemma Split_param: "plain (fst p) \<Longrightarrow> plain (snd p) \<Longrightarrow> Split (format_param p) CHR '':'' = [fst p, snd p]"
  using Split_join [of "CHR '':''" "[fst p, snd p]"] by (simp add: format_param_def plain_def)

lemma parse_parts_format:
  assumes "\<forall>p \<in> set ps. plain (fst p) \<and> plain (snd p) \<and> snd p \<noteq> []" "distinct (map fst ps)"
    "fst ` set ps \<inter> fst ` set (fc_parameters w) = {}"
  shows "parse_parts (map format_param ps) w = (True, w\<lparr>fc_parameters := fc_parameters w @ ps\<rparr>)"
  using assms
proof (induction ps arbitrary: w)
  case (Cons p ps)
  let ?w = "w\<lparr>fc_parameters := fc_parameters w @ [p]\<rparr>"
  have "parse_parts (map format_param (p # ps)) w = parse_parts (map format_param ps) ?w"
    using Cons.prems Split_param [of p] update_fresh [of "fst p" "fc_parameters w" "snd p"] by auto
  moreover have "parse_parts (map format_param ps) ?w = (True, ?w\<lparr>fc_parameters := fc_parameters ?w @ ps\<rparr>)"
    by (rule Cons.IH) (use Cons.prems in auto)
  ultimately show ?case by simp
qed simp

section \<open>Properties\<close>

text \<open>
  C29. Round trip: a configuration of plain words, printed with its separators, is read back as it was.
\<close>

theorem filter_config_roundtrip:
  assumes "plain t" "t \<noteq> []" "\<forall>p \<in> set ps. plain (fst p) \<and> plain (snd p) \<and> snd p \<noteq> []" "distinct (map fst ps)"
  shows "SrtParseConfig (format_config t ps) SrtFilterConfig = (True, SrtFilterConfig\<lparr>fc_type := t, fc_parameters := ps\<rparr>)"
proof -
  let ?xs = "t # map format_param ps"
  have "\<forall>x \<in> set ?xs. CHR '','' \<notin> set x" using assms by (auto simp: format_param_def plain_def)
  moreover have "join CHR '','' ?xs \<noteq> []" using assms(2) by (cases ps) auto
  ultimately have "Split (format_config t ps) CHR '','' = ?xs" unfolding format_config_def by (intro Split_join) simp_all
  then show ?thesis
    using parse_parts_format [OF assms(3,4), of "SrtFilterConfig\<lparr>fc_type := t\<rparr>"]
    by (simp add: SrtParseConfig_def SrtFilterConfig_def)
qed

theorem filter_config_roundtrip_witness:
  "SrtParseConfig ''fec,cols:10,rows:5'' SrtFilterConfig
    = (True, SrtFilterConfig\<lparr>fc_type := ''fec'', fc_parameters := [(''cols'', ''10''), (''rows'', ''5'')]\<rparr>)"
  using filter_config_roundtrip [of "''fec''" "[(''cols'', ''10''), (''rows'', ''5'')]"]
  by (simp add: plain_def format_config_def format_param_def)

text \<open>
  C28. Two filter configurations are compatible exactly when they give no parameter different values; what
  results is the agent's parameters, completed by the peer's and then by the filter's defaults.
\<close>

theorem filter_compat_exact:
  assumes r: "filter_find r (fc_type agent) = Some fac" "ParseFilterConfig r (ff_defaultConfig fac) SrtFilterConfig = (True, defaults)"
    and d: "distinct (map fst (fc_parameters agent))" "distinct (map fst (fc_parameters peer))"
      "distinct (map fst (fc_parameters defaults))"
  shows "\<exists>ok agent'. CheckFilterCompat r agent peer = (ok, agent')
    \<and> (ok \<longleftrightarrow> (\<forall>k v v'. map_of (fc_parameters agent) k = Some v \<and> map_of (fc_parameters peer) k = Some v' \<longrightarrow> v = v'))
    \<and> map_of (fc_parameters agent')
        = map_of (fc_parameters defaults) ++ map_of (fc_parameters peer) ++ map_of (fc_parameters agent)"
proof -
  let ?a = "fc_parameters agent" and ?p = "fc_parameters peer" and ?d = "fc_parameters defaults"
  let ?p1 = "complete ?a ?p" and ?ks = "map fst ?a @ map fst (complete ?a ?p)"
  let ?a2 = "complete ?d (complete ?p1 ?a)" and ?p2 = "complete ?d ?p1"
  have p1: "map_of ?p1 = map_of ?a ++ map_of ?p" by (rule map_of_complete [OF d(1)])
  have a2: "map_of ?a2 = map_of ?d ++ map_of ?p ++ map_of ?a"
    using map_of_complete [OF d(3)] map_of_complete [OF complete_keys(1) [OF d(2)]] p1
    by (auto simp: fun_eq_iff map_add_def split: option.splits)
  have p2: "map_of ?p2 = map_of ?d ++ map_of ?a ++ map_of ?p" using map_of_complete [OF d(3)] p1 by simp
  have ks: "set ?ks = dom (map_of ?a) \<union> dom (map_of ?p)"
    using complete_keys(2) [of ?a ?p] by (auto simp: dom_map_of_conv_image_fst)
  have one: "map_get ?a2 k = map_get ?p2 k \<longleftrightarrow> (\<forall>v v'. map_of ?a k = Some v \<and> map_of ?p k = Some v' \<longrightarrow> v = v')"
    if "k \<in> set ?ks" for k
    using that unfolding ks by (auto simp: map_get_def a2 p2 map_add_def split: option.splits)
  have "list_all (\<lambda>k. map_get ?a2 k = map_get ?p2 k) ?ks
      \<longleftrightarrow> (\<forall>k v v'. map_of ?a k = Some v \<and> map_of ?p k = Some v' \<longrightarrow> v = v')"
    unfolding list_all_iff using one ks by blast
  then show ?thesis using r a2 by (simp add: CheckFilterCompat_def Let_def)
qed

theorem filter_compat_exact_witness:
  "\<exists>agent'. CheckFilterCompat Internal (SrtFilterConfig\<lparr>fc_type := ''fec'', fc_parameters := [(''cols'', ''10'')]\<rparr>)
      (SrtFilterConfig\<lparr>fc_type := ''fec'', fc_parameters := [(''rows'', ''5'')]\<rparr>) = (True, agent')
    \<and> map_of (fc_parameters agent') ''rows'' = Some ''5'' \<and> map_of (fc_parameters agent') ''arq'' = Some ''onreq''"
proof -
  let ?a = "SrtFilterConfig\<lparr>fc_type := ''fec'', fc_parameters := [(''cols'', ''10'')]\<rparr>"
  let ?p = "SrtFilterConfig\<lparr>fc_type := ''fec'', fc_parameters := [(''rows'', ''5'')]\<rparr>"
  let ?d = "[(''rows'', ''1''), (''layout'', ''staircase''), (''arq'', ''onreq'')]"
  have f: "filter_find Internal ''fec'' = Some fec_factory" by (simp add: filter_find_def Internal_def)
  have "ParseFilterConfig Internal (ff_defaultConfig fec_factory) SrtFilterConfig
      = (True, \<lparr>fc_type = ''fec'', fc_parameters = ?d, fc_extra_size = 4\<rparr>)"
    by code_simp
  from filter_compat_exact [of Internal ?a fec_factory, OF _ this, of ?p] show ?thesis
    by (auto simp: f SrtFilterConfig_def map_add_def split: if_splits)
qed

end
