(* ===== verification/SocketConfig.thy ===== *)
theory SocketConfig
  imports FilterConfig Packet
begin

text \<open>
  The options of a socket: \<^verbatim>\<open>CSrtConfig\<close> of \<^verbatim>\<open>srtcore/socketconfig.h\<close> and the setters of
  \<^verbatim>\<open>socketconfig.cpp\<close>, one definition per option, dispatched as in \<^verbatim>\<open>dispatchSet\<close>. An option value
  is the memory the caller passes, with its length; a setter that throws gives \<open>Inl InvalidArgument\<close>, and
  what C++ leaves undefined (a read past the caller's memory, a division by zero, a signed overflow)
  gives \<open>Inl Undefined\<close>.

  The build options of \<^verbatim>\<open>CMakeLists.txt\<close>, the registered packet filters and the answer of
  \<^verbatim>\<open>HaiCrypt_IsAESGCM_Supported\<close> are the environment.
\<close>

section \<open>Options and their values\<close>

datatype (plugins only: code size) SRT_SOCKOPT =
    SRTO_MSS | SRTO_SNDSYN | SRTO_RCVSYN | SRTO_ISN | SRTO_FC | SRTO_SNDBUF | SRTO_RCVBUF | SRTO_LINGER
  | SRTO_UDP_SNDBUF | SRTO_UDP_RCVBUF | SRTO_RENDEZVOUS | SRTO_SNDTIMEO | SRTO_RCVTIMEO | SRTO_REUSEADDR
  | SRTO_MAXBW | SRTO_STATE | SRTO_EVENT | SRTO_SNDDATA | SRTO_RCVDATA | SRTO_SENDER | SRTO_TSBPDMODE
  | SRTO_LATENCY | SRTO_INPUTBW | SRTO_OHEADBW | SRTO_PASSPHRASE | SRTO_PBKEYLEN | SRTO_KMSTATE | SRTO_IPTTL
  | SRTO_IPTOS | SRTO_TLPKTDROP | SRTO_SNDDROPDELAY | SRTO_NAKREPORT | SRTO_VERSION | SRTO_PEERVERSION
  | SRTO_CONNTIMEO | SRTO_DRIFTTRACER | SRTO_MININPUTBW | SRTO_SNDKMSTATE | SRTO_RCVKMSTATE | SRTO_LOSSMAXTTL
  | SRTO_RCVLATENCY | SRTO_PEERLATENCY | SRTO_MINVERSION | SRTO_STREAMID | SRTO_CONGESTION | SRTO_MESSAGEAPI
  | SRTO_PAYLOADSIZE | SRTO_TRANSTYPE | SRTO_KMREFRESHRATE | SRTO_KMPREANNOUNCE | SRTO_ENFORCEDENCRYPTION
  | SRTO_IPV6ONLY | SRTO_PEERIDLETIMEO | SRTO_BINDTODEVICE | SRTO_GROUPCONNECT | SRTO_GROUPMINSTABLETIMEO
  | SRTO_GROUPTYPE | SRTO_PACKETFILTER | SRTO_RETRANSMITALGO | SRTO_CRYPTOMODE | SRTO_MAXREXMITBW | SRTO_E_SIZE

datatype cfg_error = InvalidArgument | LengthError | Undefined

record optarg =
  optval :: "byte list"
  optlen :: int
  big_endian :: bool

record build_env =
  ENABLE_BONDING :: bool
  SRT_ENABLE_ENCRYPTION :: bool
  ENABLE_AEAD_API_PREVIEW :: bool
  ENABLE_MAXREXMITBW :: bool
  SRT_ENABLE_BINDTODEVICE :: bool
  IsAESGCM_Supported :: bool
  filters :: filter_registry

text \<open>\<^verbatim>\<open>cast_optval\<close>: the value of the first \<open>n\<close> bytes, unsigned.\<close>

definition host_value :: "bool \<Rightarrow> byte list \<Rightarrow> int" where
  "host_value be bs = foldl (\<lambda>n b. 256 * n + uint b) 0 (if be then bs else rev bs)"

definition signed_value :: "nat \<Rightarrow> int \<Rightarrow> int" where
  "signed_value w n = (if n < 2 ^ (w - 1) then n else n - 2 ^ w)"

definition cast_bytes :: "nat \<Rightarrow> optarg \<Rightarrow> (byte list \<Rightarrow> cfg_error + 'a) \<Rightarrow> cfg_error + 'a" where
  "cast_bytes n a f =
     (if optlen a > 0 \<and> optlen a \<noteq> int n then Inl InvalidArgument
      else if length (optval a) < n then Inl Undefined
      else f (take n (optval a)))"

definition cast_int :: "optarg \<Rightarrow> (int \<Rightarrow> cfg_error + 'a) \<Rightarrow> cfg_error + 'a" where
  "cast_int a f = cast_bytes 4 a (\<lambda>bs. f (signed_value 32 (host_value (big_endian a) bs)))"

definition cast_uint32 :: "optarg \<Rightarrow> (int \<Rightarrow> cfg_error + 'a) \<Rightarrow> cfg_error + 'a" where
  "cast_uint32 a f = cast_bytes 4 a (\<lambda>bs. f (host_value (big_endian a) bs))"

definition cast_int64 :: "optarg \<Rightarrow> (int \<Rightarrow> cfg_error + 'a) \<Rightarrow> cfg_error + 'a" where
  "cast_int64 a f = cast_bytes 8 a (\<lambda>bs. f (signed_value 64 (host_value (big_endian a) bs)))"

definition cast_bool :: "optarg \<Rightarrow> (bool \<Rightarrow> cfg_error + 'a) \<Rightarrow> cfg_error + 'a" where
  "cast_bool a f =
     (if optlen a = 1 then (case optval a of [] \<Rightarrow> Inl Undefined | b # _ \<Rightarrow> f (b \<noteq> 0))
      else if optlen a = 4
      then (if length (optval a) < 4 then Inl Undefined else f (host_value (big_endian a) (take 4 (optval a)) \<noteq> 0))
      else f False)"

text \<open>A string made of \<^verbatim>\<open>optlen\<close> characters; a negative length is no length.\<close>

definition cast_string :: "optarg \<Rightarrow> (string \<Rightarrow> cfg_error + 'a) \<Rightarrow> cfg_error + 'a" where
  "cast_string a f =
     (if optlen a < 0 then Inl LengthError
      else if int (length (optval a)) < optlen a then Inl Undefined
      else f (map (\<lambda>b. char_of (unat b)) (take (nat (optlen a)) (optval a))))"

section \<open>The configuration\<close>

definition UDP_HDR_SIZE :: int where "UDP_HDR_SIZE = 28"
definition hs_ContentSize :: int where "hs_ContentSize = 48"
definition SRT_LIVE_DEF_PLSIZE :: int where "SRT_LIVE_DEF_PLSIZE = 1316"
definition SRT_LIVE_MAX_PLSIZE :: int where "SRT_LIVE_MAX_PLSIZE = 1456"
definition SRT_LIVE_DEF_LATENCY_MS :: int where "SRT_LIVE_DEF_LATENCY_MS = 120"
definition DEF_LINGER_S :: int where "DEF_LINGER_S = 3 * 60"
definition DEF_MIN_FLIGHT_PKT :: int where "DEF_MIN_FLIGHT_PKT = 32"
definition DEF_BUFFER_SIZE :: int where "DEF_BUFFER_SIZE = 8192"
definition DEF_MSS :: int where "DEF_MSS = 1500"
definition DEF_FLIGHT_SIZE :: int where "DEF_FLIGHT_SIZE = 25600"
definition DEF_UDP_BUFFER_SIZE :: int where "DEF_UDP_BUFFER_SIZE = 65536"
definition COMM_RESPONSE_TIMEOUT_MS :: int where "COMM_RESPONSE_TIMEOUT_MS = 5 * 1000"
definition COMM_DEF_MIN_STABILITY_TIMEOUT_MS :: int where "COMM_DEF_MIN_STABILITY_TIMEOUT_MS = 60"
definition SRT_OHEAD_DEFAULT_P100 :: int where "SRT_OHEAD_DEFAULT_P100 = 25"
definition MAX_SID_LENGTH :: nat where "MAX_SID_LENGTH = 512"
definition MAX_PFILTER_LENGTH :: nat where "MAX_PFILTER_LENGTH = 64"
definition MAX_CONG_LENGTH :: nat where "MAX_CONG_LENGTH = 16"
definition HAICRYPT_SECRET_MAX_SZ :: int where "HAICRYPT_SECRET_MAX_SZ = 80"
definition HAICRYPT_AUTHTAG_MAX :: int where "HAICRYPT_AUTHTAG_MAX = 16"
definition HAICRYPT_DEF_KM_REFRESH_RATE :: int where "HAICRYPT_DEF_KM_REFRESH_RATE = 0x1000000"
definition HAICRYPT_DEF_KM_PRE_ANNOUNCE :: int where "HAICRYPT_DEF_KM_PRE_ANNOUNCE = 0x1000"
definition IFNAMSIZ :: nat where "IFNAMSIZ = 16"
definition CIPHER_MODE_AUTO :: int where "CIPHER_MODE_AUTO = 0"
definition CIPHER_MODE_AES_GCM :: int where "CIPHER_MODE_AES_GCM = 2"

text \<open>\<^verbatim>\<open>StringStorage::set\<close>: what does not fit is refused and the old content stays.\<close>

definition storage_set :: "nat \<Rightarrow> string \<Rightarrow> string \<Rightarrow> bool \<times> string" where
  "storage_set SIZE stor s = (if length s > SIZE then (False, stor) else (True, s))"

record srt_muxer_config =
  iIpTTL :: int
  iIpToS :: int
  iIpV6Only :: int
  bReuseAddr :: bool
  sBindToDevice :: string
  iUDPSndBufSize :: int
  iUDPRcvBufSize :: int

record srt_config = srt_muxer_config +
  iMSS :: int
  zExpPayloadSize :: int
  bSynSending :: bool
  bSynRecving :: bool
  iFlightFlagSize :: int
  iSndBufSize :: int
  iRcvBufSize :: int
  Linger_onoff :: int
  Linger_linger :: int
  bRendezvous :: bool
  tdConnTimeOut_ms :: int
  bDriftTracer :: bool
  iSndTimeOut :: int
  iRcvTimeOut :: int
  llMaxBW :: int
  llMaxRexmitBW :: int
  CryptoSecret :: "byte list"
  iSndCryptoKeyLen :: int
  bDataSender :: bool
  bMessageAPI :: bool
  bTSBPD :: bool
  iRcvLatency :: int
  iPeerLatency :: int
  bTLPktDrop :: bool
  iSndDropDelay :: int
  bEnforcedEnc :: bool
  iGroupConnect :: int
  iPeerIdleTimeout_ms :: int
  uMinStabilityTimeout_ms :: int
  iRetransmitAlgo :: int
  iCryptoMode :: int
  llInputBW :: int
  llMinInputBW :: int
  iOverheadBW :: int
  bRcvNakReport :: bool
  iMaxReorderTolerance :: int
  uKmRefreshRatePkt :: int
  uKmPreAnnouncePkt :: int
  uMinimumPeerSrtVersion :: int
  sCongestion :: string
  sPacketFilterConfig :: string
  sStreamName :: string

definition CSrtConfig :: srt_config where
  "CSrtConfig =
     \<lparr>iIpTTL = -1, iIpToS = -1, iIpV6Only = -1, bReuseAddr = True, sBindToDevice = [],
      iUDPSndBufSize = DEF_UDP_BUFFER_SIZE, iUDPRcvBufSize = DEF_BUFFER_SIZE * DEF_MSS,
      iMSS = DEF_MSS, zExpPayloadSize = SRT_LIVE_DEF_PLSIZE, bSynSending = True, bSynRecving = True,
      iFlightFlagSize = DEF_FLIGHT_SIZE, iSndBufSize = DEF_BUFFER_SIZE, iRcvBufSize = DEF_BUFFER_SIZE,
      Linger_onoff = 0, Linger_linger = 0, bRendezvous = False, tdConnTimeOut_ms = 3000, bDriftTracer = True,
      iSndTimeOut = -1, iRcvTimeOut = -1, llMaxBW = -1, llMaxRexmitBW = -1, CryptoSecret = [], iSndCryptoKeyLen = 0,
      bDataSender = False, bMessageAPI = True, bTSBPD = True, iRcvLatency = SRT_LIVE_DEF_LATENCY_MS, iPeerLatency = 0,
      bTLPktDrop = True, iSndDropDelay = 0, bEnforcedEnc = True, iGroupConnect = 0,
      iPeerIdleTimeout_ms = COMM_RESPONSE_TIMEOUT_MS, uMinStabilityTimeout_ms = COMM_DEF_MIN_STABILITY_TIMEOUT_MS,
      iRetransmitAlgo = 1, iCryptoMode = CIPHER_MODE_AUTO, llInputBW = 0, llMinInputBW = 0,
      iOverheadBW = SRT_OHEAD_DEFAULT_P100, bRcvNakReport = True, iMaxReorderTolerance = 0,
      uKmRefreshRatePkt = 0, uKmPreAnnouncePkt = 0, uMinimumPeerSrtVersion = 0x010000,
      sCongestion = ''live'', sPacketFilterConfig = [], sStreamName = []\<rparr>"

definition flightCapacity :: "srt_config \<Rightarrow> int" where
  "flightCapacity co = min (iRcvBufSize co) (iFlightFlagSize co)"

definition bytesPerPkt :: "srt_config \<Rightarrow> int" where
  "bytesPerPkt co = iMSS co - UDP_HDR_SIZE"

text \<open>The first is the multiplexer's configuration, the second the socket's.\<close>

definition isCompatWith :: "'a srt_muxer_config_scheme \<Rightarrow> 'b srt_muxer_config_scheme \<Rightarrow> bool" where
  "isCompatWith m other \<longleftrightarrow> iIpTTL m = iIpTTL other \<and> iIpToS m = iIpToS other \<and> bReuseAddr m = bReuseAddr other
     \<and> sBindToDevice m = sBindToDevice other \<and> iUDPSndBufSize m = iUDPSndBufSize other
     \<and> iUDPRcvBufSize m = iUDPRcvBufSize other \<and> (iIpV6Only other = -1 \<or> iIpV6Only m = iIpV6Only other)"

section \<open>The setters\<close>

definition set_MSS :: "srt_config \<Rightarrow> optarg \<Rightarrow> cfg_error + srt_config" where
  "set_MSS co a = cast_int a (\<lambda>ival.
     if ival < UDP_HDR_SIZE + hs_ContentSize then Inl InvalidArgument
     else let co1 = co\<lparr>iMSS := ival\<rparr>;
              co2 = (if iMSS co1 > iUDPSndBufSize co1 then co1\<lparr>iMSS := iUDPSndBufSize co1\<rparr> else co1);
              co3 = (if iMSS co2 > iUDPRcvBufSize co2 then co2\<lparr>iMSS := iUDPRcvBufSize co2\<rparr> else co2)
          in Inr co3)"

definition set_FC :: "srt_config \<Rightarrow> optarg \<Rightarrow> cfg_error + srt_config" where
  "set_FC co a = cast_int a (\<lambda>fc.
     if fc < DEF_MIN_FLIGHT_PKT then Inl InvalidArgument else Inr (co\<lparr>iFlightFlagSize := fc\<rparr>))"

text \<open>The division is on \<^verbatim>\<open>size_t\<close>.\<close>

definition set_SNDBUF :: "srt_config \<Rightarrow> optarg \<Rightarrow> cfg_error + srt_config" where
  "set_SNDBUF co a = cast_int a (\<lambda>bs.
     if bs \<le> 0 then Inl InvalidArgument
     else let d = (iMSS co - UDP_HDR_SIZE) mod 2 ^ 64
          in if d = 0 then Inl Undefined else Inr (co\<lparr>iSndBufSize := bs div d\<rparr>))"

definition RcvBufferSizeOptionToValue :: "int \<Rightarrow> int \<Rightarrow> int \<Rightarrow> int option" where
  "RcvBufferSizeOptionToValue val flightflag mss =
     (let mssin_size = mss - UDP_HDR_SIZE
      in if \<not> in_int32 (mssin_size * DEF_MIN_FLIGHT_PKT) then None
         else if val > mssin_size * DEF_MIN_FLIGHT_PKT \<and> mssin_size = 0 then None
         else let bufsize = (if val > mssin_size * DEF_MIN_FLIGHT_PKT then val sdiv mssin_size else DEF_MIN_FLIGHT_PKT)
              in Some (if bufsize > flightflag then flightflag else bufsize))"

definition set_RCVBUF :: "srt_config \<Rightarrow> optarg \<Rightarrow> cfg_error + srt_config" where
  "set_RCVBUF co a = cast_int a (\<lambda>val.
     if val \<le> 0 then Inl InvalidArgument
     else (case RcvBufferSizeOptionToValue val (iFlightFlagSize co) (iMSS co) of
             None \<Rightarrow> Inl Undefined | Some n \<Rightarrow> Inr (co\<lparr>iRcvBufSize := n\<rparr>)))"

definition set_LINGER :: "srt_config \<Rightarrow> optarg \<Rightarrow> cfg_error + srt_config" where
  "set_LINGER co a = cast_bytes 8 a (\<lambda>bs.
     Inr (co\<lparr>Linger_onoff := signed_value 32 (host_value (big_endian a) (take 4 bs)),
             Linger_linger := signed_value 32 (host_value (big_endian a) (drop 4 bs))\<rparr>))"

definition set_UDP_SNDBUF :: "srt_config \<Rightarrow> optarg \<Rightarrow> cfg_error + srt_config" where
  "set_UDP_SNDBUF co a = cast_int a (\<lambda>val. Inr (co\<lparr>iUDPSndBufSize := max (iMSS co) val\<rparr>))"

definition set_UDP_RCVBUF :: "srt_config \<Rightarrow> optarg \<Rightarrow> cfg_error + srt_config" where
  "set_UDP_RCVBUF co a = cast_int a (\<lambda>val. Inr (co\<lparr>iUDPRcvBufSize := max (iMSS co) val\<rparr>))"

definition set_RENDEZVOUS :: "srt_config \<Rightarrow> optarg \<Rightarrow> cfg_error + srt_config" where
  "set_RENDEZVOUS co a = cast_bool a (\<lambda>v. Inr (co\<lparr>bRendezvous := v\<rparr>))"

definition set_SNDTIMEO :: "srt_config \<Rightarrow> optarg \<Rightarrow> cfg_error + srt_config" where
  "set_SNDTIMEO co a = cast_int a (\<lambda>val. if val < -1 then Inl InvalidArgument else Inr (co\<lparr>iSndTimeOut := val\<rparr>))"

definition set_RCVTIMEO :: "srt_config \<Rightarrow> optarg \<Rightarrow> cfg_error + srt_config" where
  "set_RCVTIMEO co a = cast_int a (\<lambda>val. if val < -1 then Inl InvalidArgument else Inr (co\<lparr>iRcvTimeOut := val\<rparr>))"

definition set_SNDSYN :: "srt_config \<Rightarrow> optarg \<Rightarrow> cfg_error + srt_config" where
  "set_SNDSYN co a = cast_bool a (\<lambda>v. Inr (co\<lparr>bSynSending := v\<rparr>))"

definition set_RCVSYN :: "srt_config \<Rightarrow> optarg \<Rightarrow> cfg_error + srt_config" where
  "set_RCVSYN co a = cast_bool a (\<lambda>v. Inr (co\<lparr>bSynRecving := v\<rparr>))"

definition set_REUSEADDR :: "srt_config \<Rightarrow> optarg \<Rightarrow> cfg_error + srt_config" where
  "set_REUSEADDR co a = cast_bool a (\<lambda>v. Inr (co\<lparr>bReuseAddr := v\<rparr>))"

definition set_MAXBW :: "srt_config \<Rightarrow> optarg \<Rightarrow> cfg_error + srt_config" where
  "set_MAXBW co a = cast_int64 a (\<lambda>val. if val < -1 then Inl InvalidArgument else Inr (co\<lparr>llMaxBW := val\<rparr>))"

definition set_MAXREXMITBW :: "srt_config \<Rightarrow> optarg \<Rightarrow> cfg_error + srt_config" where
  "set_MAXREXMITBW co a = cast_int64 a (\<lambda>val. if val < -1 then Inl InvalidArgument else Inr (co\<lparr>llMaxRexmitBW := val\<rparr>))"

definition set_IPTTL :: "srt_config \<Rightarrow> optarg \<Rightarrow> cfg_error + srt_config" where
  "set_IPTTL co a = cast_int a (\<lambda>val.
     if \<not> (val = -1) \<and> \<not> (val \<ge> 1 \<and> val \<le> 255) then Inl InvalidArgument else Inr (co\<lparr>iIpTTL := val\<rparr>))"

definition set_IPTOS :: "srt_config \<Rightarrow> optarg \<Rightarrow> cfg_error + srt_config" where
  "set_IPTOS co a = cast_int a (\<lambda>val. Inr (co\<lparr>iIpToS := val\<rparr>))"

definition set_BINDTODEVICE :: "build_env \<Rightarrow> srt_config \<Rightarrow> optarg \<Rightarrow> cfg_error + srt_config" where
  "set_BINDTODEVICE env co a =
     (if \<not> SRT_ENABLE_BINDTODEVICE env then Inl InvalidArgument
      else cast_string a (\<lambda>val. if length val \<ge> IFNAMSIZ then Inl InvalidArgument else Inr (co\<lparr>sBindToDevice := val\<rparr>)))"

definition set_INPUTBW :: "srt_config \<Rightarrow> optarg \<Rightarrow> cfg_error + srt_config" where
  "set_INPUTBW co a = cast_int64 a (\<lambda>val. if val < 0 then Inl InvalidArgument else Inr (co\<lparr>llInputBW := val\<rparr>))"

definition set_MININPUTBW :: "srt_config \<Rightarrow> optarg \<Rightarrow> cfg_error + srt_config" where
  "set_MININPUTBW co a = cast_int64 a (\<lambda>val. if val < 0 then Inl InvalidArgument else Inr (co\<lparr>llMinInputBW := val\<rparr>))"

definition set_OHEADBW :: "srt_config \<Rightarrow> optarg \<Rightarrow> cfg_error + srt_config" where
  "set_OHEADBW co a = cast_int a (\<lambda>val. if val < 5 \<or> val > 100 then Inl InvalidArgument else Inr (co\<lparr>iOverheadBW := val\<rparr>))"

definition set_SENDER :: "srt_config \<Rightarrow> optarg \<Rightarrow> cfg_error + srt_config" where
  "set_SENDER co a = cast_bool a (\<lambda>v. Inr (co\<lparr>bDataSender := v\<rparr>))"

definition set_TSBPDMODE :: "build_env \<Rightarrow> srt_config \<Rightarrow> optarg \<Rightarrow> cfg_error + srt_config" where
  "set_TSBPDMODE env co a = cast_bool a (\<lambda>v.
     if SRT_ENABLE_ENCRYPTION env \<and> v = False \<and> iCryptoMode co = CIPHER_MODE_AES_GCM then Inl InvalidArgument
     else Inr (co\<lparr>bTSBPD := v\<rparr>))"

definition set_LATENCY :: "srt_config \<Rightarrow> optarg \<Rightarrow> cfg_error + srt_config" where
  "set_LATENCY co a = cast_int a (\<lambda>val.
     if val < 0 then Inl InvalidArgument else Inr (co\<lparr>iRcvLatency := val, iPeerLatency := val\<rparr>))"

definition set_RCVLATENCY :: "srt_config \<Rightarrow> optarg \<Rightarrow> cfg_error + srt_config" where
  "set_RCVLATENCY co a = cast_int a (\<lambda>val. if val < 0 then Inl InvalidArgument else Inr (co\<lparr>iRcvLatency := val\<rparr>))"

definition set_PEERLATENCY :: "srt_config \<Rightarrow> optarg \<Rightarrow> cfg_error + srt_config" where
  "set_PEERLATENCY co a = cast_int a (\<lambda>val. if val < 0 then Inl InvalidArgument else Inr (co\<lparr>iPeerLatency := val\<rparr>))"

definition set_TLPKTDROP :: "srt_config \<Rightarrow> optarg \<Rightarrow> cfg_error + srt_config" where
  "set_TLPKTDROP co a = cast_bool a (\<lambda>v. Inr (co\<lparr>bTLPktDrop := v\<rparr>))"

definition set_SNDDROPDELAY :: "srt_config \<Rightarrow> optarg \<Rightarrow> cfg_error + srt_config" where
  "set_SNDDROPDELAY co a = cast_int a (\<lambda>val. if val < -1 then Inl InvalidArgument else Inr (co\<lparr>iSndDropDelay := val\<rparr>))"

text \<open>The secret is its bytes; without encryption only the empty passphrase is accepted.\<close>

definition set_PASSPHRASE :: "build_env \<Rightarrow> srt_config \<Rightarrow> optarg \<Rightarrow> cfg_error + srt_config" where
  "set_PASSPHRASE env co a =
     (if SRT_ENABLE_ENCRYPTION env
      then if optlen a \<noteq> 0 \<and> (optlen a < 10 \<or> optlen a > HAICRYPT_SECRET_MAX_SZ) then Inl InvalidArgument
           else if int (length (optval a)) < optlen a then Inl Undefined
           else Inr (co\<lparr>CryptoSecret := take (nat (optlen a)) (optval a)\<rparr>)
      else if optlen a = 0 then Inr co else Inl InvalidArgument)"

definition set_PBKEYLEN :: "build_env \<Rightarrow> srt_config \<Rightarrow> optarg \<Rightarrow> cfg_error + srt_config" where
  "set_PBKEYLEN env co a =
     (if \<not> SRT_ENABLE_ENCRYPTION env then Inl InvalidArgument
      else cast_int a (\<lambda>v. if v \<notin> set [0, 16, 24, 32] then Inl InvalidArgument else Inr (co\<lparr>iSndCryptoKeyLen := v\<rparr>)))"

definition set_NAKREPORT :: "srt_config \<Rightarrow> optarg \<Rightarrow> cfg_error + srt_config" where
  "set_NAKREPORT co a = cast_bool a (\<lambda>v. Inr (co\<lparr>bRcvNakReport := v\<rparr>))"

definition set_CONNTIMEO :: "srt_config \<Rightarrow> optarg \<Rightarrow> cfg_error + srt_config" where
  "set_CONNTIMEO co a = cast_int a (\<lambda>val. if val < 0 then Inl InvalidArgument else Inr (co\<lparr>tdConnTimeOut_ms := val\<rparr>))"

definition set_DRIFTTRACER :: "srt_config \<Rightarrow> optarg \<Rightarrow> cfg_error + srt_config" where
  "set_DRIFTTRACER co a = cast_bool a (\<lambda>v. Inr (co\<lparr>bDriftTracer := v\<rparr>))"

definition set_LOSSMAXTTL :: "srt_config \<Rightarrow> optarg \<Rightarrow> cfg_error + srt_config" where
  "set_LOSSMAXTTL co a = cast_int a (\<lambda>val. Inr (co\<lparr>iMaxReorderTolerance := val\<rparr>))"

definition set_MINVERSION :: "srt_config \<Rightarrow> optarg \<Rightarrow> cfg_error + srt_config" where
  "set_MINVERSION co a = cast_uint32 a (\<lambda>val. Inr (co\<lparr>uMinimumPeerSrtVersion := val\<rparr>))"

definition set_STREAMID :: "srt_config \<Rightarrow> optarg \<Rightarrow> cfg_error + srt_config" where
  "set_STREAMID co a =
     (if optlen a < 0 \<or> optlen a > int MAX_SID_LENGTH then Inl InvalidArgument
      else cast_string a (\<lambda>val. Inr (co\<lparr>sStreamName := snd (storage_set MAX_SID_LENGTH (sStreamName co) val)\<rparr>)))"

definition congctl_exists :: "string \<Rightarrow> bool" where
  "congctl_exists name \<longleftrightarrow> name \<in> set [''live'', ''file'']"

definition set_CONGESTION :: "srt_config \<Rightarrow> optarg \<Rightarrow> cfg_error + srt_config" where
  "set_CONGESTION co a = cast_string a (\<lambda>arg.
     let val = (if arg = ''vod'' then ''file'' else arg)
     in if \<not> congctl_exists val then Inl InvalidArgument
        else Inr (co\<lparr>sCongestion := snd (storage_set MAX_CONG_LENGTH (sCongestion co) val)\<rparr>))"

definition set_MESSAGEAPI :: "srt_config \<Rightarrow> optarg \<Rightarrow> cfg_error + srt_config" where
  "set_MESSAGEAPI co a = cast_bool a (\<lambda>v. Inr (co\<lparr>srt_config.bMessageAPI := v\<rparr>))"

definition payloadSizeFits :: "build_env \<Rightarrow> srt_config \<Rightarrow> int \<Rightarrow> bool" where
  "payloadSizeFits env co val =
     ((sPacketFilterConfig co = [] \<or>
       (case ParseFilterConfig (filters env) (sPacketFilterConfig co) SrtFilterConfig of (ok, fc) \<Rightarrow>
          ok \<and> \<not> val > (SRT_LIVE_MAX_PLSIZE - int (fc_extra_size fc)) mod 2 ^ 64))
      \<and> \<not> (iCryptoMode co = CIPHER_MODE_AES_GCM \<and> val > SRT_LIVE_MAX_PLSIZE - HAICRYPT_AUTHTAG_MAX))"

definition set_PAYLOADSIZE :: "build_env \<Rightarrow> srt_config \<Rightarrow> optarg \<Rightarrow> cfg_error + srt_config" where
  "set_PAYLOADSIZE env co a = cast_int a (\<lambda>val.
     if val < 0 then Inl InvalidArgument
     else if val > SRT_LIVE_MAX_PLSIZE then Inl InvalidArgument
     else if \<not> payloadSizeFits env co val then Inl InvalidArgument
     else Inr (co\<lparr>zExpPayloadSize := val\<rparr>))"

definition SRTT_LIVE :: int where "SRTT_LIVE = 0"
definition SRTT_FILE :: int where "SRTT_FILE = 1"

definition live_mode :: "srt_config \<Rightarrow> srt_config" where
  "live_mode co = co\<lparr>bTSBPD := True, iRcvLatency := SRT_LIVE_DEF_LATENCY_MS, iPeerLatency := 0, bTLPktDrop := True,
     iSndDropDelay := 0, bMessageAPI := True, bRcvNakReport := True, iRetransmitAlgo := 1,
     zExpPayloadSize := SRT_LIVE_DEF_PLSIZE, Linger_onoff := 0, Linger_linger := 0,
     sCongestion := snd (storage_set MAX_CONG_LENGTH (sCongestion co) ''live'')\<rparr>"

definition file_mode :: "srt_config \<Rightarrow> srt_config" where
  "file_mode co = co\<lparr>bTSBPD := False, iRcvLatency := 0, iPeerLatency := 0, bTLPktDrop := False,
     iSndDropDelay := -1, bMessageAPI := False, bRcvNakReport := False, iRetransmitAlgo := 0,
     zExpPayloadSize := 0, Linger_onoff := 1, Linger_linger := DEF_LINGER_S,
     sCongestion := snd (storage_set MAX_CONG_LENGTH (sCongestion co) ''file'')\<rparr>"

definition set_TRANSTYPE :: "srt_config \<Rightarrow> optarg \<Rightarrow> cfg_error + srt_config" where
  "set_TRANSTYPE co a = cast_int a (\<lambda>val.
     if val = SRTT_LIVE then Inr (live_mode co) else if val = SRTT_FILE then Inr (file_mode co) else Inl InvalidArgument)"

definition set_GROUPCONNECT :: "srt_config \<Rightarrow> optarg \<Rightarrow> cfg_error + srt_config" where
  "set_GROUPCONNECT co a = cast_int a (\<lambda>val. Inr (co\<lparr>iGroupConnect := val\<rparr>))"

text \<open>Both values are unsigned, and the effective refresh rate is at least 1: nothing wraps here.\<close>

definition km_refresh_of :: "int \<Rightarrow> int" where
  "km_refresh_of pkt = (if pkt = 0 then HAICRYPT_DEF_KM_REFRESH_RATE else pkt)"

definition km_preanno_of :: "int \<Rightarrow> int" where
  "km_preanno_of pkt = (if pkt = 0 then HAICRYPT_DEF_KM_PRE_ANNOUNCE else pkt)"

definition set_KMREFRESHRATE :: "srt_config \<Rightarrow> optarg \<Rightarrow> cfg_error + srt_config" where
  "set_KMREFRESHRATE co a = cast_int a (\<lambda>val.
     if val < 0 then Inl InvalidArgument
     else let co1 = co\<lparr>uKmRefreshRatePkt := val\<rparr>
          in if uKmPreAnnouncePkt co1 = 0 \<and> uKmRefreshRatePkt co1 = 0 then Inr co1
             else let km_preanno = km_preanno_of (uKmPreAnnouncePkt co1);
                      km_refresh = km_refresh_of (uKmRefreshRatePkt co1)
                  in Inr (if uKmPreAnnouncePkt co1 = 0 \<or> km_preanno > (km_refresh - 1) div 2
                          then co1\<lparr>uKmPreAnnouncePkt := (km_refresh - 1) div 2\<rparr> else co1))"

definition set_KMPREANNOUNCE :: "srt_config \<Rightarrow> optarg \<Rightarrow> cfg_error + srt_config" where
  "set_KMPREANNOUNCE co a = cast_int a (\<lambda>val.
     if val < 0 then Inl InvalidArgument
     else let km_preanno = km_preanno_of val; kmref = km_refresh_of (uKmRefreshRatePkt co)
          in if km_preanno > (kmref - 1) div 2 then Inl InvalidArgument else Inr (co\<lparr>uKmPreAnnouncePkt := val\<rparr>))"

definition set_ENFORCEDENCRYPTION :: "srt_config \<Rightarrow> optarg \<Rightarrow> cfg_error + srt_config" where
  "set_ENFORCEDENCRYPTION co a = cast_bool a (\<lambda>v. Inr (co\<lparr>bEnforcedEnc := v\<rparr>))"

definition set_PEERIDLETIMEO :: "srt_config \<Rightarrow> optarg \<Rightarrow> cfg_error + srt_config" where
  "set_PEERIDLETIMEO co a = cast_int a (\<lambda>val. if val < 0 then Inl InvalidArgument else Inr (co\<lparr>iPeerIdleTimeout_ms := val\<rparr>))"

definition set_IPV6ONLY :: "srt_config \<Rightarrow> optarg \<Rightarrow> cfg_error + srt_config" where
  "set_IPV6ONLY co a = cast_int a (\<lambda>val. Inr (co\<lparr>iIpV6Only := val\<rparr>))"

definition set_PACKETFILTER :: "build_env \<Rightarrow> srt_config \<Rightarrow> optarg \<Rightarrow> cfg_error + srt_config" where
  "set_PACKETFILTER env co a = cast_string a (\<lambda>arg.
     case ParseConfig (filters env) arg SrtFilterConfig of (ok, fc, fax) \<Rightarrow>
       (case fax of
          None \<Rightarrow> Inl InvalidArgument
        | Some fac \<Rightarrow>
            if \<not> ok then Inl InvalidArgument
            else (case ff_verifyConfig fac fc of
                    None \<Rightarrow> Inl Undefined
                  | Some (Inl error) \<Rightarrow> Inl InvalidArgument
                  | Some (Inr _) \<Rightarrow>
                      let efc_max_payload_size = (SRT_LIVE_MAX_PLSIZE - int (fc_extra_size fc)) mod 2 ^ 64;
                          co1 = (if zExpPayloadSize co > efc_max_payload_size
                                 then co\<lparr>zExpPayloadSize := efc_max_payload_size\<rparr> else co)
                      in Inr (co1\<lparr>sPacketFilterConfig :=
                            snd (storage_set MAX_PFILTER_LENGTH (sPacketFilterConfig co1) arg)\<rparr>))))"

definition set_GROUPMINSTABLETIMEO :: "srt_config \<Rightarrow> optarg \<Rightarrow> cfg_error + srt_config" where
  "set_GROUPMINSTABLETIMEO co a = cast_int a (\<lambda>val_ms.
     if val_ms < COMM_DEF_MIN_STABILITY_TIMEOUT_MS then Inl InvalidArgument
     else if val_ms > iPeerIdleTimeout_ms co then Inl InvalidArgument
     else Inr (co\<lparr>uMinStabilityTimeout_ms := val_ms\<rparr>))"

definition set_RETRANSMITALGO :: "srt_config \<Rightarrow> optarg \<Rightarrow> cfg_error + srt_config" where
  "set_RETRANSMITALGO co a = cast_int a (\<lambda>val.
     if val < 0 \<or> val > 1 then Inl InvalidArgument else Inr (co\<lparr>iRetransmitAlgo := val\<rparr>))"

definition set_CRYPTOMODE :: "build_env \<Rightarrow> srt_config \<Rightarrow> optarg \<Rightarrow> cfg_error + srt_config" where
  "set_CRYPTOMODE env co a = cast_int a (\<lambda>val.
     if \<not> SRT_ENABLE_ENCRYPTION env then Inl InvalidArgument
     else if val < CIPHER_MODE_AUTO \<or> val > CIPHER_MODE_AES_GCM then Inl InvalidArgument
     else if val = CIPHER_MODE_AES_GCM \<and> \<not> IsAESGCM_Supported env then Inl InvalidArgument
     else if val = CIPHER_MODE_AES_GCM \<and> \<not> bTSBPD co then Inl InvalidArgument
     else Inr (co\<lparr>iCryptoMode := val\<rparr>))"

section \<open>Dispatch\<close>

text \<open>The setter of an option, unless the build leaves it out or it is no option of the configuration.\<close>

fun setter_of :: "build_env \<Rightarrow> SRT_SOCKOPT \<Rightarrow> (srt_config \<Rightarrow> optarg \<Rightarrow> cfg_error + srt_config) option" where
  "setter_of env SRTO_MSS = Some set_MSS"
| "setter_of env SRTO_FC = Some set_FC"
| "setter_of env SRTO_SNDBUF = Some set_SNDBUF"
| "setter_of env SRTO_RCVBUF = Some set_RCVBUF"
| "setter_of env SRTO_LINGER = Some set_LINGER"
| "setter_of env SRTO_UDP_SNDBUF = Some set_UDP_SNDBUF"
| "setter_of env SRTO_UDP_RCVBUF = Some set_UDP_RCVBUF"
| "setter_of env SRTO_RENDEZVOUS = Some set_RENDEZVOUS"
| "setter_of env SRTO_SNDTIMEO = Some set_SNDTIMEO"
| "setter_of env SRTO_RCVTIMEO = Some set_RCVTIMEO"
| "setter_of env SRTO_SNDSYN = Some set_SNDSYN"
| "setter_of env SRTO_RCVSYN = Some set_RCVSYN"
| "setter_of env SRTO_REUSEADDR = Some set_REUSEADDR"
| "setter_of env SRTO_MAXBW = Some set_MAXBW"
| "setter_of env SRTO_IPTTL = Some set_IPTTL"
| "setter_of env SRTO_IPTOS = Some set_IPTOS"
| "setter_of env SRTO_BINDTODEVICE = Some (set_BINDTODEVICE env)"
| "setter_of env SRTO_INPUTBW = Some set_INPUTBW"
| "setter_of env SRTO_MININPUTBW = Some set_MININPUTBW"
| "setter_of env SRTO_OHEADBW = Some set_OHEADBW"
| "setter_of env SRTO_SENDER = Some set_SENDER"
| "setter_of env SRTO_TSBPDMODE = Some (set_TSBPDMODE env)"
| "setter_of env SRTO_LATENCY = Some set_LATENCY"
| "setter_of env SRTO_RCVLATENCY = Some set_RCVLATENCY"
| "setter_of env SRTO_PEERLATENCY = Some set_PEERLATENCY"
| "setter_of env SRTO_TLPKTDROP = Some set_TLPKTDROP"
| "setter_of env SRTO_SNDDROPDELAY = Some set_SNDDROPDELAY"
| "setter_of env SRTO_PASSPHRASE = Some (set_PASSPHRASE env)"
| "setter_of env SRTO_PBKEYLEN = Some (set_PBKEYLEN env)"
| "setter_of env SRTO_NAKREPORT = Some set_NAKREPORT"
| "setter_of env SRTO_CONNTIMEO = Some set_CONNTIMEO"
| "setter_of env SRTO_DRIFTTRACER = Some set_DRIFTTRACER"
| "setter_of env SRTO_LOSSMAXTTL = Some set_LOSSMAXTTL"
| "setter_of env SRTO_MINVERSION = Some set_MINVERSION"
| "setter_of env SRTO_STREAMID = Some set_STREAMID"
| "setter_of env SRTO_CONGESTION = Some set_CONGESTION"
| "setter_of env SRTO_MESSAGEAPI = Some set_MESSAGEAPI"
| "setter_of env SRTO_PAYLOADSIZE = Some (set_PAYLOADSIZE env)"
| "setter_of env SRTO_TRANSTYPE = Some set_TRANSTYPE"
| "setter_of env SRTO_GROUPCONNECT = (if ENABLE_BONDING env then Some set_GROUPCONNECT else None)"
| "setter_of env SRTO_GROUPMINSTABLETIMEO = (if ENABLE_BONDING env then Some set_GROUPMINSTABLETIMEO else None)"
| "setter_of env SRTO_KMREFRESHRATE = Some set_KMREFRESHRATE"
| "setter_of env SRTO_KMPREANNOUNCE = Some set_KMPREANNOUNCE"
| "setter_of env SRTO_ENFORCEDENCRYPTION = Some set_ENFORCEDENCRYPTION"
| "setter_of env SRTO_PEERIDLETIMEO = Some set_PEERIDLETIMEO"
| "setter_of env SRTO_IPV6ONLY = Some set_IPV6ONLY"
| "setter_of env SRTO_PACKETFILTER = Some (set_PACKETFILTER env)"
| "setter_of env SRTO_RETRANSMITALGO = Some set_RETRANSMITALGO"
| "setter_of env SRTO_CRYPTOMODE = (if ENABLE_AEAD_API_PREVIEW env then Some (set_CRYPTOMODE env) else None)"
| "setter_of env SRTO_MAXREXMITBW = (if ENABLE_MAXREXMITBW env then Some set_MAXREXMITBW else None)"
| "setter_of env _ = None"

definition dispatchSet :: "build_env \<Rightarrow> SRT_SOCKOPT \<Rightarrow> srt_config \<Rightarrow> optarg \<Rightarrow> cfg_error + int \<times> srt_config" where
  "dispatchSet env optName co a =
     (case setter_of env optName of
        None \<Rightarrow> Inr (-1, co)
      | Some f \<Rightarrow> (case f co a of Inl e \<Rightarrow> Inl e | Inr co' \<Rightarrow> Inr (0, co')))"

definition config_set :: "build_env \<Rightarrow> srt_config \<Rightarrow> SRT_SOCKOPT \<Rightarrow> optarg \<Rightarrow> cfg_error + int \<times> srt_config" where
  "config_set env co optName a = dispatchSet env optName co a"

section \<open>Options of a group member\<close>

record single_option =
  so_option :: SRT_SOCKOPT
  so_length :: "16 word"
  so_storage :: "byte list"

definition member_option :: "SRT_SOCKOPT \<Rightarrow> bool" where
  "member_option optname \<longleftrightarrow> optname \<in> set [SRTO_BINDTODEVICE, SRTO_CONNTIMEO, SRTO_DRIFTTRACER,
     SRTO_GROUPMINSTABLETIMEO, SRTO_IPTOS, SRTO_IPTTL, SRTO_KMREFRESHRATE, SRTO_KMPREANNOUNCE, SRTO_LOSSMAXTTL,
     SRTO_NAKREPORT, SRTO_PEERIDLETIMEO, SRTO_RCVBUF, SRTO_SNDBUF, SRTO_SNDDROPDELAY, SRTO_UDP_RCVBUF, SRTO_UDP_SNDBUF]"

text \<open>Reading past the caller's memory is \<open>None\<close>.\<close>

definition options_add :: "single_option list \<Rightarrow> SRT_SOCKOPT \<Rightarrow> byte list \<Rightarrow> nat \<Rightarrow> (bool \<times> single_option list) option" where
  "options_add options optname val len =
     (if \<not> member_option optname then Some (False, options)
      else if length val < len then None
      else Some (True, options @ [\<lparr>so_option = optname, so_length = of_nat len, so_storage = take len val\<rparr>]))"

end
