(* ===== verification/SocketConfigSpec.thy ===== *)
theory SocketConfigSpec
  imports SocketConfig
begin

text \<open>
  What holds of a socket's configuration whatever options were set on it, and which values each
  integer option accepts.
\<close>

named_theorems wf_intros \<open>setters that keep a configuration well formed\<close>

section \<open>Reading values\<close>

lemma cast_bytesE:
  assumes "cast_bytes n a f = Inr y"
  obtains bs where "f bs = Inr y" "length bs = n"
  using assms by (auto simp: cast_bytes_def split: if_splits intro: that [of "take n (optval a)"])

lemma host_value_Cons: "host_value False (b # bs) = 256 * host_value False bs + uint b"
  by (simp add: host_value_def)

lemma host_value_bound: "0 \<le> host_value be bs \<and> host_value be bs < 256 ^ length bs"
proof -
  have le: "0 \<le> host_value False bs \<and> host_value False bs < 256 ^ length bs" for bs
  proof (induction bs)
    case (Cons b bs)
    have "0 \<le> uint b" "uint b < 256" using uint_bounded [of b] by auto
    with Cons show ?case by (simp add: host_value_Cons)
  qed (simp add: host_value_def)
  have "host_value True bs = host_value False (rev bs)" by (simp add: host_value_def)
  with le [of bs] le [of "rev bs"] show ?thesis by (cases be) auto
qed

lemma cast_intE:
  assumes "cast_int a f = Inr y"
  obtains v where "f v = Inr y" "in_int32 v"
  using assms unfolding cast_int_def
proof (rule cast_bytesE)
  fix bs :: "byte list"
  assume "f (signed_value 32 (host_value (big_endian a) bs)) = Inr y" "length bs = 4"
  then show thesis using that host_value_bound [of "big_endian a" bs] by (simp add: in_int32_def signed_value_def)
qed

lemma cast_int64E:
  assumes "cast_int64 a f = Inr y"
  obtains v where "f v = Inr y"
  using assms unfolding cast_int64_def by (auto elim: cast_bytesE)

lemma cast_uint32E:
  assumes "cast_uint32 a f = Inr y"
  obtains v where "f v = Inr y"
  using assms unfolding cast_uint32_def by (auto elim: cast_bytesE)

lemma cast_boolE:
  assumes "cast_bool a f = Inr y"
  obtains v where "f v = Inr y"
  using assms by (auto simp: cast_bool_def split: if_splits list.splits)

lemma cast_stringE:
  assumes "cast_string a f = Inr y"
  obtains v where "f v = Inr y"
  using assms by (auto simp: cast_string_def split: if_splits)

lemmas castE = cast_bytesE cast_intE cast_int64E cast_uint32E cast_boolE cast_stringE

text \<open>An integer in the caller's memory is the integer the setter sees.\<close>

definition le_bytes :: "nat \<Rightarrow> int \<Rightarrow> byte list" where
  "le_bytes n v = map (\<lambda>i. word_of_int (v div 256 ^ i)) [0..<n]"

definition int_arg :: "int \<Rightarrow> optarg" where
  "int_arg v = \<lparr>optval = le_bytes 4 v, optlen = 4, big_endian = False\<rparr>"

lemma le_bytes_Suc: "le_bytes (Suc n) v = word_of_int v # le_bytes n (v div 256)"
  by (simp add: le_bytes_def upt_conv_Cons map_Suc_upt [symmetric] zdiv_zmult2_eq del: upt_Suc)

lemma host_value_le: "host_value False (le_bytes n v) = v mod 256 ^ n"
proof (induction n arbitrary: v)
  case 0
  then show ?case by (simp add: host_value_def le_bytes_def)
next
  case (Suc n)
  then show ?case using zmod_zmult2_eq [of "256 ^ n" v 256]
    by (simp add: le_bytes_Suc host_value_Cons uint_word_of_int)
qed

lemma signed_value_mod:
  assumes "in_int32 v"
  shows "signed_value 32 (v mod 2 ^ 32) = v"
proof (cases "0 \<le> v")
  case True
  then show ?thesis using assms by (simp add: in_int32_def signed_value_def)
next
  case False
  have "v mod 2 ^ 32 = (v + 2 ^ 32) mod 2 ^ 32" by simp
  also have "\<dots> = v + 2 ^ 32" using assms False by (intro mod_pos_pos_trivial) (auto simp: in_int32_def)
  finally show ?thesis using assms by (simp add: in_int32_def signed_value_def)
qed

lemma cast_int_arg: "in_int32 v \<Longrightarrow> cast_int (int_arg v) f = f v"
  using signed_value_mod [of v] host_value_le [of 4 v]
  by (simp add: cast_int_def cast_bytes_def int_arg_def) (simp add: le_bytes_def)

section \<open>A well-formed configuration\<close>

definition sizes_ok :: "srt_config \<Rightarrow> bool" where
  "sizes_ok co \<longleftrightarrow> UDP_HDR_SIZE + hs_ContentSize \<le> iMSS co \<and> iMSS co \<le> iUDPSndBufSize co \<and> iMSS co \<le> iUDPRcvBufSize co
     \<and> iUDPSndBufSize co < 2 ^ 31 \<and> iUDPRcvBufSize co < 2 ^ 31
     \<and> DEF_MIN_FLIGHT_PKT \<le> iFlightFlagSize co \<and> 0 \<le> iSndBufSize co \<and> DEF_MIN_FLIGHT_PKT \<le> iRcvBufSize co
     \<and> 0 \<le> zExpPayloadSize co \<and> zExpPayloadSize co \<le> SRT_LIVE_MAX_PLSIZE"

definition times_ok :: "srt_config \<Rightarrow> bool" where
  "times_ok co \<longleftrightarrow> -1 \<le> iSndTimeOut co \<and> -1 \<le> iRcvTimeOut co \<and> 0 \<le> tdConnTimeOut_ms co \<and> 0 \<le> iRcvLatency co
     \<and> 0 \<le> iPeerLatency co \<and> -1 \<le> iSndDropDelay co \<and> 0 \<le> iPeerIdleTimeout_ms co
     \<and> COMM_DEF_MIN_STABILITY_TIMEOUT_MS \<le> uMinStabilityTimeout_ms co"

definition rates_ok :: "srt_config \<Rightarrow> bool" where
  "rates_ok co \<longleftrightarrow> -1 \<le> llMaxBW co \<and> -1 \<le> llMaxRexmitBW co \<and> 0 \<le> llInputBW co \<and> 0 \<le> llMinInputBW co
     \<and> 5 \<le> iOverheadBW co \<and> iOverheadBW co \<le> 100 \<and> iRetransmitAlgo co \<in> {0, 1} \<and> sCongestion co \<in> {''live'', ''file''}"

definition crypto_ok :: "srt_config \<Rightarrow> bool" where
  "crypto_ok co \<longleftrightarrow> (CryptoSecret co = [] \<or> 10 \<le> length (CryptoSecret co) \<and> int (length (CryptoSecret co)) \<le> HAICRYPT_SECRET_MAX_SZ)
     \<and> iSndCryptoKeyLen co \<in> {0, 16, 24, 32} \<and> CIPHER_MODE_AUTO \<le> iCryptoMode co \<and> iCryptoMode co \<le> CIPHER_MODE_AES_GCM
     \<and> 0 \<le> uKmRefreshRatePkt co \<and> 0 \<le> uKmPreAnnouncePkt co"

definition names_ok :: "srt_config \<Rightarrow> bool" where
  "names_ok co \<longleftrightarrow> (iIpTTL co = -1 \<or> 1 \<le> iIpTTL co \<and> iIpTTL co \<le> 255) \<and> length (sBindToDevice co) < IFNAMSIZ
     \<and> length (sPacketFilterConfig co) \<le> MAX_PFILTER_LENGTH \<and> length (sStreamName co) \<le> MAX_SID_LENGTH"

definition cfg_wf :: "srt_config \<Rightarrow> bool" where
  "cfg_wf co \<longleftrightarrow> sizes_ok co \<and> times_ok co \<and> rates_ok co \<and> crypto_ok co \<and> names_ok co"

lemmas cfg_wf_defs = cfg_wf_def sizes_ok_def times_ok_def rates_ok_def crypto_ok_def names_ok_def

lemmas cfg_consts = UDP_HDR_SIZE_def hs_ContentSize_def SRT_LIVE_DEF_PLSIZE_def SRT_LIVE_MAX_PLSIZE_def
  SRT_LIVE_DEF_LATENCY_MS_def DEF_LINGER_S_def DEF_MIN_FLIGHT_PKT_def DEF_BUFFER_SIZE_def DEF_MSS_def DEF_FLIGHT_SIZE_def
  DEF_UDP_BUFFER_SIZE_def COMM_RESPONSE_TIMEOUT_MS_def COMM_DEF_MIN_STABILITY_TIMEOUT_MS_def SRT_OHEAD_DEFAULT_P100_def
  MAX_SID_LENGTH_def MAX_PFILTER_LENGTH_def MAX_CONG_LENGTH_def HAICRYPT_SECRET_MAX_SZ_def HAICRYPT_AUTHTAG_MAX_def
  HAICRYPT_DEF_KM_REFRESH_RATE_def HAICRYPT_DEF_KM_PRE_ANNOUNCE_def IFNAMSIZ_def CIPHER_MODE_AUTO_def CIPHER_MODE_AES_GCM_def

lemma CSrtConfig_wf: "cfg_wf CSrtConfig"
  by (simp add: cfg_wf_defs cfg_consts CSrtConfig_def)

lemma storage_set_le: "length (snd (storage_set n st s)) \<le> n" if "length st \<le> n"
  using that by (simp add: storage_set_def)

definition keeps_wf :: "(srt_config \<Rightarrow> optarg \<Rightarrow> cfg_error + srt_config) \<Rightarrow> bool" where
  "keeps_wf f \<longleftrightarrow> (\<forall>co a co'. cfg_wf co \<longrightarrow> f co a = Inr co' \<longrightarrow> cfg_wf co')"

lemma keeps_wf_flags [wf_intros]:
  "keeps_wf set_RENDEZVOUS" "keeps_wf set_SNDSYN" "keeps_wf set_RCVSYN" "keeps_wf set_REUSEADDR"
  "keeps_wf set_SENDER" "keeps_wf (set_TSBPDMODE env)" "keeps_wf set_TLPKTDROP" "keeps_wf set_NAKREPORT"
  "keeps_wf set_DRIFTTRACER" "keeps_wf set_MESSAGEAPI" "keeps_wf set_ENFORCEDENCRYPTION"
  by (auto simp: keeps_wf_def set_RENDEZVOUS_def set_SNDSYN_def set_RCVSYN_def set_REUSEADDR_def set_SENDER_def set_TSBPDMODE_def set_TLPKTDROP_def set_NAKREPORT_def set_DRIFTTRACER_def set_MESSAGEAPI_def set_ENFORCEDENCRYPTION_def
      elim!: castE split: if_splits) (simp_all add: cfg_wf_defs)

lemma keeps_wf_plain [wf_intros]:
  "keeps_wf set_IPTOS" "keeps_wf set_IPV6ONLY" "keeps_wf set_LOSSMAXTTL" "keeps_wf set_MINVERSION"
  "keeps_wf set_GROUPCONNECT" "keeps_wf set_LINGER"
  by (auto simp: keeps_wf_def set_IPTOS_def set_IPV6ONLY_def set_LOSSMAXTTL_def set_MINVERSION_def set_GROUPCONNECT_def set_LINGER_def
      elim!: castE split: if_splits) (simp_all add: cfg_wf_defs)

lemma keeps_wf_times [wf_intros]:
  "keeps_wf set_SNDTIMEO" "keeps_wf set_RCVTIMEO" "keeps_wf set_CONNTIMEO" "keeps_wf set_LATENCY"
  "keeps_wf set_RCVLATENCY" "keeps_wf set_PEERLATENCY" "keeps_wf set_SNDDROPDELAY" "keeps_wf set_PEERIDLETIMEO"
  "keeps_wf set_GROUPMINSTABLETIMEO"
  by (auto simp: keeps_wf_def set_SNDTIMEO_def set_RCVTIMEO_def set_CONNTIMEO_def set_LATENCY_def set_RCVLATENCY_def set_PEERLATENCY_def set_SNDDROPDELAY_def set_PEERIDLETIMEO_def set_GROUPMINSTABLETIMEO_def
      elim!: castE split: if_splits) (simp_all add: cfg_wf_defs)

lemma keeps_wf_rates [wf_intros]:
  "keeps_wf set_MAXBW" "keeps_wf set_MAXREXMITBW" "keeps_wf set_INPUTBW" "keeps_wf set_MININPUTBW"
  "keeps_wf set_OHEADBW" "keeps_wf set_RETRANSMITALGO"
  by (auto simp: keeps_wf_def set_MAXBW_def set_MAXREXMITBW_def set_INPUTBW_def set_MININPUTBW_def set_OHEADBW_def set_RETRANSMITALGO_def
      elim!: castE split: if_splits) (auto simp: cfg_wf_defs)

lemma keeps_wf_names [wf_intros]:
  "keeps_wf set_IPTTL" "keeps_wf (set_BINDTODEVICE env)" "keeps_wf set_STREAMID"
  by (auto simp: keeps_wf_def set_IPTTL_def set_BINDTODEVICE_def set_STREAMID_def
      elim!: castE split: if_splits) (auto simp: cfg_wf_defs storage_set_def)

lemma keeps_wf_sizes [wf_intros]:
  "keeps_wf set_MSS" "keeps_wf set_FC" "keeps_wf set_UDP_SNDBUF" "keeps_wf set_UDP_RCVBUF"
  "keeps_wf (set_PAYLOADSIZE env)"
  by (auto simp: keeps_wf_def set_MSS_def set_FC_def set_UDP_SNDBUF_def set_UDP_RCVBUF_def set_PAYLOADSIZE_def Let_def
      elim!: castE split: if_splits) (auto simp: cfg_wf_defs in_int32_def)

lemma keeps_wf_crypto [wf_intros]:
  "keeps_wf (set_PASSPHRASE env)" "keeps_wf (set_PBKEYLEN env)" "keeps_wf (set_CRYPTOMODE env)"
  "keeps_wf set_KMPREANNOUNCE"
  by (auto simp: keeps_wf_def set_PASSPHRASE_def set_PBKEYLEN_def set_CRYPTOMODE_def set_KMPREANNOUNCE_def Let_def
      elim!: castE split: if_splits) (auto simp: cfg_wf_defs)

lemma keeps_wf_KMREFRESHRATE [wf_intros]: "keeps_wf set_KMREFRESHRATE"
  by (auto simp: keeps_wf_def set_KMREFRESHRATE_def Let_def km_refresh_of_def elim!: castE split: if_splits)
    (auto simp: cfg_wf_defs cfg_consts)

lemma keeps_wf_SNDBUF [wf_intros]: "keeps_wf set_SNDBUF"
  by (auto simp: keeps_wf_def set_SNDBUF_def Let_def elim!: castE split: if_splits) (simp add: cfg_wf_defs div_int_pos_iff)

lemma keeps_wf_CONGESTION [wf_intros]: "keeps_wf set_CONGESTION"
  by (auto simp: keeps_wf_def set_CONGESTION_def Let_def congctl_exists_def elim!: castE split: if_splits)
    (auto simp: cfg_wf_defs storage_set_def cfg_consts)

lemma keeps_wf_TRANSTYPE [wf_intros]: "keeps_wf set_TRANSTYPE"
  by (auto simp: keeps_wf_def set_TRANSTYPE_def elim!: castE split: if_splits)
    (simp_all add: cfg_wf_defs live_mode_def file_mode_def storage_set_def cfg_consts)

lemma RcvBufferSizeOptionToValue_min:
  assumes "RcvBufferSizeOptionToValue val ff mss = Some n" "DEF_MIN_FLIGHT_PKT \<le> ff" "UDP_HDR_SIZE < mss"
  shows "DEF_MIN_FLIGHT_PKT \<le> n"
proof -
  let ?m = "mss - UDP_HDR_SIZE"
  have "DEF_MIN_FLIGHT_PKT \<le> val sdiv ?m" if "val > ?m * DEF_MIN_FLIGHT_PKT"
  proof -
    have "DEF_MIN_FLIGHT_PKT * ?m \<le> val" "0 < ?m" using that assms(3) by (simp_all add: mult.commute)
    moreover from zdiv_mono1 [OF this] \<open>0 < ?m\<close> have "DEF_MIN_FLIGHT_PKT \<le> val div ?m" by simp
    moreover have "0 \<le> val" using calculation(1,2) mult_nonneg_nonneg [of DEF_MIN_FLIGHT_PKT ?m] by (simp add: DEF_MIN_FLIGHT_PKT_def)
    ultimately show ?thesis by simp
  qed
  then show ?thesis using assms(1,2) by (auto simp: RcvBufferSizeOptionToValue_def Let_def split: if_splits)
qed

lemma keeps_wf_RCVBUF [wf_intros]: "keeps_wf set_RCVBUF"
proof -
  have "cfg_wf (co\<lparr>iRcvBufSize := n\<rparr>)"
    if "cfg_wf co" "RcvBufferSizeOptionToValue v (iFlightFlagSize co) (iMSS co) = Some n" for co v n
    using that RcvBufferSizeOptionToValue_min [OF that(2)] by (simp add: cfg_wf_defs hs_ContentSize_def)
  then show ?thesis by (auto simp: keeps_wf_def set_RCVBUF_def elim!: castE split: if_splits option.splits)
qed

lemma keeps_wf_PACKETFILTER [wf_intros]: "keeps_wf (set_PACKETFILTER env)"
  by (auto simp: keeps_wf_def set_PACKETFILTER_def Let_def elim!: castE split: option.splits sum.splits prod.splits if_splits)
    (auto simp: cfg_wf_defs storage_set_def)

lemma keeps_wf_setter: "setter_of env opt = Some f \<Longrightarrow> keeps_wf f"
  by (cases opt) (auto intro: wf_intros split: if_splits)

lemma config_set_wf: "cfg_wf co \<Longrightarrow> config_set env co opt a = Inr (r, co') \<Longrightarrow> cfg_wf co'"
  by (auto simp: config_set_def dispatchSet_def keeps_wf_def dest: keeps_wf_setter split: option.splits sum.splits)


section \<open>Ranges of integer options\<close>

text \<open>The values an integer option accepts.\<close>

fun int_range :: "srt_config \<Rightarrow> SRT_SOCKOPT \<Rightarrow> int set option" where
  "int_range co SRTO_MSS = Some {UDP_HDR_SIZE + hs_ContentSize..}"
| "int_range co SRTO_FC = Some {DEF_MIN_FLIGHT_PKT..}"
| "int_range co SRTO_SNDBUF = Some {1..}"
| "int_range co SRTO_UDP_SNDBUF = Some UNIV"
| "int_range co SRTO_UDP_RCVBUF = Some UNIV"
| "int_range co SRTO_SNDTIMEO = Some {-1..}"
| "int_range co SRTO_RCVTIMEO = Some {-1..}"
| "int_range co SRTO_IPTTL = Some (insert (-1) {1..255})"
| "int_range co SRTO_IPTOS = Some UNIV"
| "int_range co SRTO_OHEADBW = Some {5..100}"
| "int_range co SRTO_LATENCY = Some {0..}"
| "int_range co SRTO_RCVLATENCY = Some {0..}"
| "int_range co SRTO_PEERLATENCY = Some {0..}"
| "int_range co SRTO_SNDDROPDELAY = Some {-1..}"
| "int_range co SRTO_CONNTIMEO = Some {0..}"
| "int_range co SRTO_LOSSMAXTTL = Some UNIV"
| "int_range co SRTO_TRANSTYPE = Some {0, 1}"
| "int_range co SRTO_KMREFRESHRATE = Some {0..}"
| "int_range co SRTO_KMPREANNOUNCE = Some {v. 0 \<le> v \<and> km_preanno_of v \<le> (km_refresh_of (uKmRefreshRatePkt co) - 1) div 2}"
| "int_range co SRTO_PEERIDLETIMEO = Some {0..}"
| "int_range co SRTO_IPV6ONLY = Some UNIV"
| "int_range co SRTO_RETRANSMITALGO = Some {0, 1}"
| "int_range co _ = None"

lemma config_set_int:
  assumes "cfg_wf co" "in_int32 v" "int_range co opt = Some R"
  shows "(v \<in> R \<longrightarrow> (\<exists>co'. config_set env co opt (int_arg v) = Inr (0, co')))
    \<and> (v \<notin> R \<longrightarrow> config_set env co opt (int_arg v) = Inl InvalidArgument)"
proof -
  have "0 < iMSS co - UDP_HDR_SIZE" "iMSS co - UDP_HDR_SIZE < 2 ^ 64" using assms(1) by (simp_all add: cfg_wf_defs cfg_consts)
  then have d: "(iMSS co - UDP_HDR_SIZE) mod 2 ^ 64 \<noteq> 0" by simp
  show ?thesis using assms(3) d
    by (cases opt) (auto simp: config_set_def dispatchSet_def cast_int_arg [OF assms(2)] set_MSS_def set_FC_def set_SNDBUF_def
        set_UDP_SNDBUF_def set_UDP_RCVBUF_def set_SNDTIMEO_def set_RCVTIMEO_def set_IPTTL_def set_IPTOS_def set_OHEADBW_def
        set_LATENCY_def set_RCVLATENCY_def set_PEERLATENCY_def set_SNDDROPDELAY_def set_CONNTIMEO_def set_LOSSMAXTTL_def
        set_TRANSTYPE_def SRTT_LIVE_def SRTT_FILE_def set_KMREFRESHRATE_def set_KMPREANNOUNCE_def set_PEERIDLETIMEO_def
        set_IPV6ONLY_def set_RETRANSMITALGO_def Let_def)
qed

definition default_build :: build_env where
  "default_build = \<lparr>ENABLE_BONDING = False, SRT_ENABLE_ENCRYPTION = True, ENABLE_AEAD_API_PREVIEW = False,
     ENABLE_MAXREXMITBW = False, SRT_ENABLE_BINDTODEVICE = True, IsAESGCM_Supported = False, filters = Internal\<rparr>"

fun set_all :: "build_env \<Rightarrow> (SRT_SOCKOPT \<times> optarg) list \<Rightarrow> srt_config \<Rightarrow> srt_config" where
  "set_all env [] co = co"
| "set_all env ((opt, a) # os) co =
     set_all env os (case config_set env co opt a of Inl _ \<Rightarrow> co | Inr (r, co') \<Rightarrow> co')"

section \<open>Properties\<close>





section \<open>Behaviour at the edges\<close>

text \<open>
  A refresh rate of one or two packets leaves the announcement at 0, which stands for the default of 4096
  packets: more than the refresh rate allows, and refused when asked for directly.
\<close>

lemma refresh_rate_2_default_announce:
  "case config_set default_build CSrtConfig SRTO_KMREFRESHRATE (int_arg 2) of
     Inl _ \<Rightarrow> False
   | Inr (r, co) \<Rightarrow> uKmPreAnnouncePkt co = 0 \<and> km_preanno_of 0 > (km_refresh_of (uKmRefreshRatePkt co) - 1) div 2
       \<and> config_set default_build co SRTO_KMPREANNOUNCE (int_arg 0) = Inl InvalidArgument"
  by code_simp

text \<open>A file-mode preset switches the timed delivery off although AES-GCM is on, which both options refuse.\<close>

lemma file_preset_under_gcm:
  "case set_CRYPTOMODE (default_build\<lparr>IsAESGCM_Supported := True\<rparr>) CSrtConfig (int_arg 2) of
     Inl _ \<Rightarrow> False
   | Inr co \<Rightarrow> set_TSBPDMODE default_build co (int_arg 0) = Inl InvalidArgument
       \<and> (case set_TRANSTYPE co (int_arg 1) of Inl _ \<Rightarrow> False
          | Inr co' \<Rightarrow> iCryptoMode co' = CIPHER_MODE_AES_GCM \<and> \<not> bTSBPD co')"
  by code_simp

text \<open>A filter configuration longer than the storage is accepted, cuts the payload size, and is not stored.\<close>

definition long_filter :: string where
  "long_filter = ''fec,cols:00000000000000000000000000000000000000000000000000000000002''"

lemma long_filter_not_stored:
  "case config_set default_build (CSrtConfig\<lparr>zExpPayloadSize := 1456\<rparr>) SRTO_PACKETFILTER
      \<lparr>optval = map of_char long_filter, optlen = int (length long_filter), big_endian = False\<rparr> of
     Inl _ \<Rightarrow> False
   | Inr (r, co) \<Rightarrow> r = 0 \<and> sPacketFilterConfig co = [] \<and> zExpPayloadSize co = 1452"
  by code_simp

end
