(* ===== verification/SndBuffer.thy ===== *)
theory SndBuffer
  imports SeqNo Packet
begin

text \<open>
  \<^verbatim>\<open>CSndBuffer\<close> of \<^verbatim>\<open>srtcore/buffer_snd.h\<close> and \<^verbatim>\<open>buffer_snd.cpp\<close>: the ring of blocks between the
  application, which adds messages, the sending thread, which reads packets for the first time or again,
  and the acknowledgements, which release them. The blocks are a store indexed by addresses and linked by
  \<^verbatim>\<open>m_pNext\<close> as in the code; an address outside the store, a copy past the end of a block and a loop
  that does not end are \<open>None\<close>.

  Each block owns the slice of \<^verbatim>\<open>m_iBlockLen\<close> bytes of the physical buffer that its \<^verbatim>\<open>m_pcData\<close>
  points to; a packet that was read refers to the slice by the address of the block. Bytes that were never
  written are \<open>None\<close>, and the fields of a \<^verbatim>\<open>new Block\<close> that have no constructor are those of the
  argument \<open>raw\<close>, an arbitrary block for each address. Times are microseconds and the current time is
  an argument where the code reads the clock; allocation succeeds. The rate estimator and the moving
  averages (floating point) are left out.
\<close>

section \<open>Blocks and the buffer\<close>

record block =
  m_pcData :: "byte option list"
  m_iLength :: int
  m_iMsgNoBitset :: "32 word"
  m_iSeqNo :: int
  m_tsOriginTime :: int
  m_tsRexmitTime :: int
  m_iTTL :: int
  m_pNext :: addr

text \<open>\<open>m_buffers\<close> holds the sizes of the list of physical buffers from \<^verbatim>\<open>m_pBuffer\<close>.\<close>

record snd_buffer =
  m_blocks :: "block list"
  m_pFirstBlock :: addr
  m_pCurrBlock :: addr
  m_pLastBlock :: addr
  m_buffers :: "int list"
  m_iNextMsgNo :: "32 word"
  m_iSize :: int
  m_iBlockLen :: int
  m_iAuthTagSize :: int
  m_iCount :: int
  m_iBytesCount :: int
  m_tsLastOriginTime :: int

record snd_msgctrl =
  msgttl :: int
  inorder :: bool
  srctime :: int
  pktseq :: int
  msgno :: "32 word"

definition SRT_MSGNO_NONE :: "32 word" where "SRT_MSGNO_NONE = -1"
definition MSGNO_CONTROL :: "32 word" where "MSGNO_CONTROL = 0"
definition SRT_MSGTTL_INF :: int where "SRT_MSGTTL_INF = -1"

definition block_msgSeq :: "block \<Rightarrow> 32 word" where
  "block_msgSeq s = m_iMsgNoBitset s AND BitsetMask 25 0"

definition MsgNo_inc :: "32 word \<Rightarrow> 32 word" where
  "MsgNo_inc n = roll_inc 25 1 n"

definition deref :: "block list \<Rightarrow> addr \<Rightarrow> block option" where
  "deref bs p = (if p < length bs then Some (bs ! p) else None)"

definition new_block :: "(addr \<Rightarrow> block) \<Rightarrow> int \<Rightarrow> addr \<Rightarrow> addr \<Rightarrow> block" where
  "new_block raw len p nxt = (raw p)\<lparr>m_pcData := replicate (nat len) None, m_tsOriginTime := 0, m_tsRexmitTime := 0,
     m_pNext := nxt\<rparr>"

definition CSndBuffer :: "(addr \<Rightarrow> block) \<Rightarrow> nat \<Rightarrow> int \<Rightarrow> int \<Rightarrow> snd_buffer" where
  "CSndBuffer raw sz maxpld authtag =
     \<lparr>m_blocks = map (\<lambda>i. (new_block raw maxpld i (if i < sz - 1 then i + 1 else 0))\<lparr>m_iMsgNoBitset := 0\<rparr>) [0..<sz],
      m_pFirstBlock = 0, m_pCurrBlock = 0, m_pLastBlock = 0, m_buffers = [int sz], m_iNextMsgNo = 1,
      m_iSize = int sz, m_iBlockLen = maxpld, m_iAuthTagSize = authtag, m_iCount = 0, m_iBytesCount = 0,
      m_tsLastOriginTime = 0\<rparr>"

definition getMaxPacketLen :: "snd_buffer \<Rightarrow> int" where
  "getMaxPacketLen b = m_iBlockLen b - m_iAuthTagSize b"

definition countNumPacketsRequired :: "int \<Rightarrow> int \<Rightarrow> int" where
  "countNumPacketsRequired iPldLen iPktLen = (iPldLen + iPktLen - 1) sdiv iPktLen"

section \<open>Growing\<close>

text \<open>The new blocks are a chain, inserted behind the block after the last occupied one.\<close>

definition increase :: "(addr \<Rightarrow> block) \<Rightarrow> snd_buffer \<Rightarrow> snd_buffer option" where
  "increase raw b =
     (case m_buffers b of [] \<Rightarrow> None
      | unitsize # _ \<Rightarrow>
          do { l \<leftarrow> deref (m_blocks b) (m_pLastBlock b);
               let n = length (m_blocks b); u = nat unitsize;
                   nblk = map (\<lambda>i. new_block raw (m_iBlockLen b) (n + i) (if i + 1 < u then n + i + 1 else m_pNext l)) [0..<u]
               in Some (b\<lparr>m_blocks := (m_blocks b)[m_pLastBlock b := l\<lparr>m_pNext := n\<rparr>] @ nblk,
                          m_buffers := m_buffers b @ [unitsize],
                          m_iSize := m_iSize b + unitsize\<rparr>) })"

partial_function (option) ensure_room :: "(addr \<Rightarrow> block) \<Rightarrow> int \<Rightarrow> snd_buffer \<Rightarrow> snd_buffer option" where
  "ensure_room raw iNumBlocks b =
     (if iNumBlocks + m_iCount b \<ge> m_iSize b
      then do { b' \<leftarrow> increase raw b; ensure_room raw iNumBlocks b' }
      else Some b)"

section \<open>Adding a message\<close>

definition memcpy :: "byte option list \<Rightarrow> byte option list \<Rightarrow> byte option list option" where
  "memcpy dst src = (if length src \<le> length dst then Some (src @ drop (length src) dst) else None)"

definition data_slice :: "byte list \<Rightarrow> int \<Rightarrow> int \<Rightarrow> byte option list" where
  "data_slice dat off len = map Some (take (nat len) (drop (nat off) dat))"

definition msgno_bits :: "32 word \<Rightarrow> int \<Rightarrow> int \<Rightarrow> 32 word" where
  "msgno_bits base i n =
     (let w = (if i = 0 then base OR PacketBoundaryBits PB_FIRST else base)
      in if i = n - 1 then w OR PacketBoundaryBits PB_LAST else w)"

text \<open>
  The loop over the blocks of a message; the first argument is the number of iterations left. It returns
  the store, the block after the last one written and the next sequence number.
\<close>

primrec add_blocks :: "nat \<Rightarrow> int \<Rightarrow> int \<Rightarrow> 32 word \<Rightarrow> int \<Rightarrow> int \<Rightarrow> byte list \<Rightarrow> block list \<Rightarrow> addr \<Rightarrow> int
    \<Rightarrow> (block list \<times> addr \<times> int) option" where
  "add_blocks 0 i iPktLen base ttl otime dat bs s w_seqno = Some (bs, s, w_seqno)"
| "add_blocks (Suc k) i iPktLen base ttl otime dat bs s w_seqno =
     (let pktlen = min (int (length dat) - i * iPktLen) iPktLen
      in do { blk \<leftarrow> deref bs s;
              mem \<leftarrow> memcpy (m_pcData blk) (data_slice dat (i * iPktLen) pktlen);
              let blk' = blk\<lparr>m_pcData := mem, m_iLength := pktlen, m_iSeqNo := w_seqno,
                            m_iMsgNoBitset := msgno_bits base i (i + 1 + int k),
                            m_iTTL := ttl, m_tsRexmitTime := 0, m_tsOriginTime := otime\<rparr>
              in add_blocks k (i + 1) iPktLen base ttl otime dat (bs[s := blk']) (m_pNext blk) (incseq w_seqno) })"

definition addBuffer :: "(addr \<Rightarrow> block) \<Rightarrow> int \<Rightarrow> snd_buffer \<Rightarrow> byte list \<Rightarrow> snd_msgctrl \<Rightarrow> (snd_buffer \<times> snd_msgctrl) option" where
  "addBuffer raw tnow b0 dat mc =
     (let iPktLen = getMaxPacketLen b0;
          iNumBlocks = countNumPacketsRequired (int (length dat)) iPktLen
      in do { b \<leftarrow> ensure_room raw iNumBlocks b0;
              let io = (if inorder mc then BitsetMask 29 29 else 0);
                  otime = (if srctime mc \<noteq> 0 then srctime mc else tnow);
                  w_msgno = (if msgno mc = SRT_MSGNO_NONE then m_iNextMsgNo b else msgno mc)
              in do { (bs, s, w_seqno) \<leftarrow> add_blocks (nat iNumBlocks) 0 iPktLen (w_msgno OR io) (msgttl mc) otime
                                           dat (m_blocks b) (m_pLastBlock b) (pktseq mc);
                      Some (b\<lparr>m_blocks := bs, m_pLastBlock := s, m_iCount := m_iCount b + iNumBlocks,
                              m_iBytesCount := m_iBytesCount b + int (length dat), m_tsLastOriginTime := otime,
                              m_iNextMsgNo := MsgNo_inc w_msgno\<rparr>,
                            mc\<lparr>srctime := otime, pktseq := w_seqno, msgno := w_msgno\<rparr>) } })"

text \<open>
  From a file: \<open>ifs\<close> is what the stream has left and \<open>bad\<close> whether it is in a failed or
  end-of-file state, which a read of more than is left puts it in. Neither the sequence number nor the
  times of the blocks are written.
\<close>

primrec add_file_blocks :: "nat \<Rightarrow> int \<Rightarrow> int \<Rightarrow> 32 word \<Rightarrow> int \<Rightarrow> bool \<Rightarrow> byte list \<Rightarrow> block list \<Rightarrow> addr \<Rightarrow> int
    \<Rightarrow> (block list \<times> addr \<times> int \<times> bool \<times> byte list) option" where
  "add_file_blocks 0 i iPktLen nextno len bad ifs bs s tot = Some (bs, s, tot, bad, ifs)"
| "add_file_blocks (Suc k) i iPktLen nextno len bad ifs bs s tot =
     (if bad then Some (bs, s, tot, bad, ifs)
      else let want = min (len - i * iPktLen) iPktLen;
               got = take (nat want) ifs; pktlen = int (length got); bad' = (pktlen < want)
           in do { blk \<leftarrow> deref bs s;
                   mem \<leftarrow> memcpy (m_pcData blk) (map Some got);
                   if pktlen \<le> 0 then Some (bs[s := blk\<lparr>m_pcData := mem\<rparr>], s, tot, bad', drop (nat want) ifs)
                   else let blk' = blk\<lparr>m_pcData := mem,
                              m_iMsgNoBitset := msgno_bits (nextno OR BitsetMask 29 29) i (i + 1 + int k),
                              m_iLength := pktlen, m_iTTL := SRT_MSGTTL_INF\<rparr>
                        in add_file_blocks k (i + 1) iPktLen nextno len bad' (drop (nat want) ifs)
                             (bs[s := blk']) (m_pNext blk) (tot + pktlen) })"

definition addBufferFromFile :: "(addr \<Rightarrow> block) \<Rightarrow> snd_buffer \<Rightarrow> bool \<Rightarrow> byte list \<Rightarrow> int
    \<Rightarrow> (int \<times> snd_buffer \<times> bool \<times> byte list) option" where
  "addBufferFromFile raw b0 bad ifs len =
     (let iPktLen = getMaxPacketLen b0; iNumBlocks = countNumPacketsRequired len iPktLen
      in do { b \<leftarrow> ensure_room raw iNumBlocks b0;
              (bs, s, tot, bad', ifs') \<leftarrow> add_file_blocks (nat iNumBlocks) 0 iPktLen (m_iNextMsgNo b) len bad ifs
                                             (m_blocks b) (m_pLastBlock b) 0;
              Some (tot, b\<lparr>m_blocks := bs, m_pLastBlock := s, m_iCount := m_iCount b + iNumBlocks,
                             m_iBytesCount := m_iBytesCount b + tot,
                             m_iNextMsgNo := (if m_iNextMsgNo b + 1 = BitsetMask 25 0 then 1 else m_iNextMsgNo b + 1)\<rparr>,
                    bad', ifs') })"

section \<open>Reading packets\<close>

definition expired :: "int \<Rightarrow> block \<Rightarrow> bool" where
  "expired now p \<longleftrightarrow> m_iTTL p \<ge> 0 \<and> (now - m_tsOriginTime p) sdiv 1000 > m_iTTL p"

definition reflect_data :: "snd_buffer \<Rightarrow> packet \<Rightarrow> addr \<Rightarrow> block \<Rightarrow> packet" where
  "reflect_data b w p blk = setLength_cap (w\<lparr>pv_data := Buf p\<rparr>) (nat (m_iLength blk)) (nat (m_iBlockLen b))"

definition set_seqno :: "packet \<Rightarrow> int \<Rightarrow> packet" where
  "set_seqno w n = w\<lparr>m_nHeader := (m_nHeader w)\<lparr>SRT_PH_SEQNO := word_of_int n\<rparr>\<rparr>"

definition set_msgflags :: "packet \<Rightarrow> 32 word \<Rightarrow> packet" where
  "set_msgflags w m = w\<lparr>m_nHeader := (m_nHeader w)\<lparr>SRT_PH_MSGNO := m\<rparr>\<rparr>"

text \<open>
  \<^verbatim>\<open>readData\<close> for packets never sent before: the result is the length read, the packet, its origin time
  and the number of packets skipped because their time to live has passed.
\<close>

partial_function (option) readData_loop :: "int \<Rightarrow> int \<Rightarrow> snd_buffer \<Rightarrow> int \<Rightarrow> packet \<Rightarrow> int \<Rightarrow> int
    \<Rightarrow> (int \<times> packet \<times> int \<times> int \<times> snd_buffer) option" where
  "readData_loop now kflgs b readlen w_packet w_srctime w_seqnoinc =
     (if m_pCurrBlock b = m_pLastBlock b then Some (readlen, w_packet, w_srctime, w_seqnoinc, b)
      else do { blk \<leftarrow> deref (m_blocks b) (m_pCurrBlock b);
                let w1 = set_seqno (reflect_data b w_packet (m_pCurrBlock b) blk) (m_iSeqNo blk);
                    len1 = (if kflgs = -1 then 0 else m_iLength blk);
                    blk1 = (if kflgs = -1 then blk
                            else blk\<lparr>m_iMsgNoBitset := m_iMsgNoBitset blk OR Bits_wrap 28 27 (word_of_int kflgs)\<rparr>);
                    b1 = b\<lparr>m_blocks := (m_blocks b)[m_pCurrBlock b := blk1], m_pCurrBlock := m_pNext blk1\<rparr>;
                    w2 = set_msgflags w1 (m_iMsgNoBitset blk1)
                in if expired now blk1
                   then readData_loop now kflgs b1 0 w2 (m_tsOriginTime blk1) (w_seqnoinc + 1)
                   else Some (len1, w2, m_tsOriginTime blk1, w_seqnoinc, b1) })"

definition readData :: "int \<Rightarrow> int \<Rightarrow> snd_buffer \<Rightarrow> packet \<Rightarrow> int \<Rightarrow> (int \<times> packet \<times> int \<times> int \<times> snd_buffer) option" where
  "readData now kflgs b w_packet w_srctime = readData_loop now kflgs b 0 w_packet w_srctime 0"

definition peekNextOriginal :: "snd_buffer \<Rightarrow> int option" where
  "peekNextOriginal b =
     (if m_pCurrBlock b = m_pLastBlock b then Some 0
      else map_option m_tsOriginTime (deref (m_blocks b) (m_pCurrBlock b)))"

text \<open>\<open>offset\<close> steps along the links.\<close>

primrec walk :: "nat \<Rightarrow> block list \<Rightarrow> addr \<Rightarrow> addr option" where
  "walk 0 bs p = Some p"
| "walk (Suc k) bs p = do { blk \<leftarrow> deref bs p; walk k bs (m_pNext blk) }"

definition getMsgNoAt :: "snd_buffer \<Rightarrow> int \<Rightarrow> 32 word option" where
  "getMsgNoAt b offset =
     (if offset \<ge> m_iCount b then Some MSGNO_CONTROL
      else do { p \<leftarrow> walk (nat offset) (m_blocks b) (m_pFirstBlock b);
                map_option block_msgSeq (deref (m_blocks b) p) })"

text \<open>The same walk, but stopping at the last block.\<close>

primrec walk_to :: "nat \<Rightarrow> snd_buffer \<Rightarrow> addr \<Rightarrow> addr option" where
  "walk_to 0 b p = Some p"
| "walk_to (Suc k) b p =
     (if p = m_pLastBlock b then Some p else do { blk \<leftarrow> deref (m_blocks b) p; walk_to k b (m_pNext blk) })"

record rexmit_drop =
  dr_begin :: int
  dr_end :: int
  dr_msgno :: "32 word"

text \<open>The blocks of the message behind the expired one; the current block is moved past those not sent yet.\<close>

partial_function (option) drop_msg_loop :: "32 word \<Rightarrow> snd_buffer \<Rightarrow> addr \<Rightarrow> bool \<Rightarrow> int \<Rightarrow> (snd_buffer \<times> addr \<times> int) option" where
  "drop_msg_loop no b p move msglen =
     (if p = m_pLastBlock b then Some (b, p, msglen)
      else do { blk \<leftarrow> deref (m_blocks b) p;
                if no \<noteq> block_msgSeq blk then Some (b, p, msglen)
                else let move' = (move \<or> p = m_pCurrBlock b); p' = m_pNext blk;
                         b' = (if move' then b\<lparr>m_pCurrBlock := p'\<rparr> else b)
                     in drop_msg_loop no b' p' move' (msglen + 1) })"

datatype rexmit_read =
    Read_None
  | Read_Drop rexmit_drop
  | Read_Data int packet int

definition readData_rexmit :: "int \<Rightarrow> snd_buffer \<Rightarrow> int \<Rightarrow> packet \<Rightarrow> (rexmit_read \<times> snd_buffer) option" where
  "readData_rexmit now b offset w_packet =
     do { p \<leftarrow> walk_to (nat offset) b (m_pFirstBlock b);
          if p = m_pLastBlock b then Some (Read_None, b)
          else do { blk \<leftarrow> deref (m_blocks b) p;
                    if expired now blk
                    then do { (b', p', msglen) \<leftarrow> drop_msg_loop (block_msgSeq blk) b (m_pNext blk) False 1;
                              let s = sint (SRT_PH_SEQNO (m_nHeader w_packet))
                              in Some (Read_Drop \<lparr>dr_begin = s, dr_end = incseq_by s (msglen - 1),
                                                  dr_msgno = block_msgSeq blk\<rparr>, b') }
                    else Some (Read_Data (m_iLength blk)
                                 (set_msgflags (reflect_data b w_packet p blk) (m_iMsgNoBitset blk)) (m_tsOriginTime blk),
                               b\<lparr>m_blocks := (m_blocks b)[p := blk\<lparr>m_tsRexmitTime := now\<rparr>]\<rparr>) } }"

definition getPacketRexmitTime :: "snd_buffer \<Rightarrow> int \<Rightarrow> int option" where
  "getPacketRexmitTime b offset =
     do { p \<leftarrow> walk (nat offset) (m_blocks b) (m_pFirstBlock b); map_option m_tsRexmitTime (deref (m_blocks b) p) }"

section \<open>Releasing packets\<close>

primrec ack_loop :: "nat \<Rightarrow> snd_buffer \<Rightarrow> bool \<Rightarrow> (snd_buffer \<times> bool) option" where
  "ack_loop 0 b move = Some (b, move)"
| "ack_loop (Suc k) b move =
     do { blk \<leftarrow> deref (m_blocks b) (m_pFirstBlock b);
          ack_loop k (b\<lparr>m_iBytesCount := m_iBytesCount b - m_iLength blk, m_pFirstBlock := m_pNext blk\<rparr>)
            (move \<or> m_pFirstBlock b = m_pCurrBlock b) }"

definition ackData :: "snd_buffer \<Rightarrow> int \<Rightarrow> snd_buffer option" where
  "ackData b offset =
     do { (b1, move) \<leftarrow> ack_loop (nat offset) b False;
          let b2 = (if move then b1\<lparr>m_pCurrBlock := m_pFirstBlock b1\<rparr> else b1)
          in Some (b2\<lparr>m_iCount := m_iCount b2 - offset\<rparr>) }"

definition getCurrBufSize :: "snd_buffer \<Rightarrow> (int \<times> int \<times> int) option" where
  "getCurrBufSize b =
     do { blk \<leftarrow> deref (m_blocks b) (m_pFirstBlock b);
          Some (m_iCount b, m_iBytesCount b,
                if 0 < m_iCount b then (m_tsLastOriginTime b - m_tsOriginTime blk) sdiv 1000 + 1 else 0) }"

definition getBufferingDelay :: "snd_buffer \<Rightarrow> int \<Rightarrow> int option" where
  "getBufferingDelay b tnow =
     (if m_iCount b = 0 then Some 0
      else map_option (\<lambda>blk. tnow - m_tsOriginTime blk) (deref (m_blocks b) (m_pFirstBlock b)))"

text \<open>The first argument bounds the iterations by the packet count; the state is the buffer, the counters and the message.\<close>

primrec late_loop :: "nat \<Rightarrow> int \<Rightarrow> snd_buffer \<Rightarrow> bool \<Rightarrow> int \<Rightarrow> int \<Rightarrow> 32 word \<Rightarrow> (snd_buffer \<times> bool \<times> int \<times> int \<times> 32 word) option" where
  "late_loop 0 late b move dpkts dbytes no = Some (b, move, dpkts, dbytes, no)"
| "late_loop (Suc k) late b move dpkts dbytes no =
     do { blk \<leftarrow> deref (m_blocks b) (m_pFirstBlock b);
          if m_tsOriginTime blk < late
          then late_loop k late (b\<lparr>m_pFirstBlock := m_pNext blk\<rparr>) (move \<or> m_pFirstBlock b = m_pCurrBlock b)
                 (dpkts + 1) (dbytes + m_iLength blk) (block_msgSeq blk)
          else Some (b, move, dpkts, dbytes, no) }"

definition dropLateData :: "snd_buffer \<Rightarrow> int \<Rightarrow> (int \<times> int \<times> 32 word \<times> snd_buffer) option" where
  "dropLateData b too_late_time =
     do { (b1, move, dpkts, dbytes, no) \<leftarrow> late_loop (nat (m_iCount b)) too_late_time b False 0 0 0;
          let b2 = (if move then b1\<lparr>m_pCurrBlock := m_pFirstBlock b1\<rparr> else b1)
          in Some (dpkts, dbytes, MsgNo_inc no,
                   b2\<lparr>m_iCount := m_iCount b2 - dpkts, m_iBytesCount := m_iBytesCount b2 - dbytes\<rparr>) }"

end
