(* ===== verification/SndBufferInv.thy ===== *)
theory SndBufferInv
  imports SndBuffer
begin

text \<open>
  The invariant of the sender buffer: the links form a ring through the first block, the packets are the
  blocks from the first to the last one, and the current block lies among them. Each loop of the code is
  given as a statement about a path along the links.
\<close>

section \<open>Paths along the links\<close>

primrec path :: "block list \<Rightarrow> addr \<Rightarrow> addr list \<Rightarrow> addr \<Rightarrow> bool" where
  "path bs p [] q \<longleftrightarrow> p = q"
| "path bs p (x # xs) q \<longleftrightarrow> p = x \<and> x < length bs \<and> path bs (m_pNext (bs ! x)) xs q"

lemma path_append [simp]: "path bs p (xs @ ys) q \<longleftrightarrow> (\<exists>r. path bs p xs r \<and> path bs r ys q)"
  by (induction xs arbitrary: p) auto

lemma path_in_store: "path bs p xs q \<Longrightarrow> x \<in> set xs \<Longrightarrow> x < length bs"
  by (induction xs arbitrary: p) auto

lemma path_end_unique: "path bs p xs q \<Longrightarrow> path bs p xs q' \<Longrightarrow> q = q'"
  by (induction xs arbitrary: p) auto

lemma path_cong:
  assumes "path bs p xs q" "\<And>x. x \<in> set xs \<Longrightarrow> x < length bs \<Longrightarrow> x < length bs' \<and> m_pNext (bs' ! x) = m_pNext (bs ! x)"
  shows "path bs' p xs q"
  using assms by (induction xs arbitrary: p) auto

lemma path_nth:
  assumes "path bs p r q" "k < length r"
  shows "path bs p (take k r) (r ! k)" "path bs (r ! k) (drop k r) q"
    "path bs (m_pNext (bs ! (r ! k))) (drop (Suc k) r) q"
proof -
  have "r = take k r @ r ! k # drop (Suc k) r" using assms(2) by (rule id_take_nth_drop)
  with assms(1) obtain x where x: "path bs p (take k r) x" "path bs x (r ! k # drop (Suc k) r) q"
    by (metis path_append)
  then show "path bs p (take k r) (r ! k)" "path bs (m_pNext (bs ! (r ! k))) (drop (Suc k) r) q" by auto
  show "path bs (r ! k) (drop k r) q" using x(2) assms(2) by (simp add: Cons_nth_drop_Suc [symmetric])
qed

lemma path_segment:
  assumes "path bs p r q" "j \<le> k" "k < length r"
  shows "path bs (r ! j) (drop j (take k r)) (r ! k)"
proof -
  have "take k r = take j r @ drop j (take k r)" using assms(2) by (metis append_take_drop_id min.absorb1 take_take)
  then obtain x where "path bs p (take j r) x" "path bs x (drop j (take k r)) (r ! k)"
    using path_nth(1) [OF assms(1,3)] path_append by metis
  moreover have "path bs p (take j r) (r ! j)" using assms by (intro path_nth(1)) auto
  ultimately show ?thesis using path_end_unique by metis
qed

lemma deref_in [simp]: "p < length bs \<Longrightarrow> deref bs p = Some (bs ! p)"
  by (simp add: deref_def)

lemma walk_path: "path bs p xs q \<Longrightarrow> walk (length xs) bs p = Some q"
  by (induction xs arbitrary: p) auto

section \<open>The invariant\<close>

definition ring :: "snd_buffer \<Rightarrow> addr list \<Rightarrow> bool" where
  "ring b r \<longleftrightarrow> path (m_blocks b) (m_pFirstBlock b) r (m_pFirstBlock b) \<and> distinct r \<and> int (length r) = m_iSize b"

definition occupied :: "snd_buffer \<Rightarrow> addr list \<Rightarrow> block list" where
  "occupied b r = map ((!) (m_blocks b)) (take (nat (m_iCount b)) r)"

definition block_ok :: "int \<Rightarrow> block \<Rightarrow> bool" where
  "block_ok n blk \<longleftrightarrow> 0 \<le> m_iLength blk \<and> m_iLength blk \<le> n"

definition sb_inv :: "snd_buffer \<Rightarrow> addr list \<Rightarrow> nat \<Rightarrow> bool" where
  "sb_inv b r c \<longleftrightarrow> ring b r \<and> 0 \<le> m_iCount b \<and> m_iCount b < m_iSize b \<and> m_pLastBlock b = r ! nat (m_iCount b)
     \<and> c \<le> nat (m_iCount b) \<and> m_pCurrBlock b = r ! c
     \<and> m_buffers b \<noteq> [] \<and> 0 < hd (m_buffers b) \<and> 0 < getMaxPacketLen b \<and> 0 \<le> m_iAuthTagSize b
     \<and> (\<forall>x \<in> set r. length (m_pcData (m_blocks b ! x)) = nat (m_iBlockLen b))
     \<and> (\<forall>blk \<in> set (occupied b r). block_ok (m_iBlockLen b) blk)
     \<and> m_iBytesCount b = sum_list (map m_iLength (occupied b r))"

lemma sb_invD:
  assumes "sb_inv b r c"
  shows "path (m_blocks b) (m_pFirstBlock b) r (m_pFirstBlock b)" "distinct r" "int (length r) = m_iSize b"
    "0 \<le> m_iCount b" "m_iCount b < m_iSize b" "nat (m_iCount b) < length r" "m_pLastBlock b = r ! nat (m_iCount b)"
    "c \<le> nat (m_iCount b)" "m_pCurrBlock b = r ! c" "0 < getMaxPacketLen b" "0 \<le> m_iAuthTagSize b"
    "\<And>x. x \<in> set r \<Longrightarrow> length (m_pcData (m_blocks b ! x)) = nat (m_iBlockLen b)"
    "\<And>blk. blk \<in> set (occupied b r) \<Longrightarrow> block_ok (m_iBlockLen b) blk"
    "m_iBytesCount b = sum_list (map m_iLength (occupied b r))"
  using assms by (auto simp: sb_inv_def ring_def)

lemma ring_first: "ring b r \<Longrightarrow> r \<noteq> [] \<Longrightarrow> m_pFirstBlock b = r ! 0"
  by (cases r) (auto simp: ring_def)

lemma length_occupied: "sb_inv b r c \<Longrightarrow> length (occupied b r) = nat (m_iCount b)"
  using sb_invD(6) [of b r c] by (simp add: occupied_def)

lemma occupied_nth: "sb_inv b r c \<Longrightarrow> i < nat (m_iCount b) \<Longrightarrow> occupied b r ! i = m_blocks b ! (r ! i)"
  using sb_invD(6) [of b r c] by (simp add: occupied_def)

text \<open>The contents determine the data of a packet: what the length says of the slice.\<close>

record snd_pkt =
  sp_data :: "byte option list"
  sp_bits :: "32 word"
  sp_seq :: int
  sp_origin :: int
  sp_rexmit :: int
  sp_ttl :: int

definition pkt_of :: "block \<Rightarrow> snd_pkt" where
  "pkt_of blk = \<lparr>sp_data = take (nat (m_iLength blk)) (m_pcData blk), sp_bits = m_iMsgNoBitset blk, sp_seq = m_iSeqNo blk,
     sp_origin = m_tsOriginTime blk, sp_rexmit = m_tsRexmitTime blk, sp_ttl = m_iTTL blk\<rparr>"

text \<open>The abstract sender queue: the packets not acknowledged yet and how many of them were sent.\<close>

record send_queue =
  sq_pkts :: "snd_pkt list"
  sq_sent :: nat

definition sb_abs :: "snd_buffer \<Rightarrow> addr list \<Rightarrow> nat \<Rightarrow> send_queue" where
  "sb_abs b r c = \<lparr>sq_pkts = map pkt_of (occupied b r), sq_sent = c\<rparr>"

section \<open>Growing\<close>

definition grown :: "(addr \<Rightarrow> block) \<Rightarrow> int \<Rightarrow> nat \<Rightarrow> nat \<Rightarrow> addr \<Rightarrow> block list" where
  "grown raw len n u nxt = map (\<lambda>i. new_block raw len (n + i) (if i + 1 < u then n + i + 1 else nxt)) [0..<u]"

lemma new_block_simps [simp]:
  "m_pNext (new_block raw len p nxt) = nxt" "length (m_pcData (new_block raw len p nxt)) = nat len"
  by (simp_all add: new_block_def)

lemma chain_path:
  assumes "0 < u" "length bs = n" "j \<le> u" "j < u"
  shows "path (bs @ grown raw len n u nxt) (n + j) [n + j..<n + u] nxt"
  using assms
proof (induction "u - j" arbitrary: j)
  case (Suc k)
  have e: "(bs @ grown raw len n u nxt) ! (n + j) = new_block raw len (n + j) (if j + 1 < u then n + j + 1 else nxt)"
    using Suc.prems by (simp add: nth_append grown_def)
  have l: "[n + j..<n + u] = (n + j) # [n + Suc j..<n + u]" using Suc.prems by (simp add: upt_conv_Cons)
  have "Suc j = u \<or> path (bs @ grown raw len n u nxt) (n + Suc j) [n + Suc j..<n + u] nxt"
    using Suc.hyps(1) [of "Suc j"] Suc.hyps(2) Suc.prems by (cases "Suc j = u") auto
  then show ?case unfolding l using e Suc.prems by (auto simp: grown_def)
qed simp

lemma increase_grown:
  assumes i: "sb_inv b r c" and n: "n = length (m_blocks b)" and k: "k = Suc (nat (m_iCount b))"
    and u: "u = nat (hd (m_buffers b))"
  obtains b' where "increase raw b = Some b'" "sb_inv b' (take k r @ [n..<n + u] @ drop k r) c"
    "m_iCount b' = m_iCount b" "m_iSize b' = m_iSize b + hd (m_buffers b)" "hd (m_buffers b') = hd (m_buffers b)"
    "m_blocks b' = (m_blocks b)[m_pLastBlock b := (m_blocks b ! m_pLastBlock b)\<lparr>m_pNext := n\<rparr>]
        @ grown raw (m_iBlockLen b) n u (m_pNext (m_blocks b ! m_pLastBlock b))"
    "b' = b\<lparr>m_blocks := m_blocks b', m_buffers := m_buffers b', m_iSize := m_iSize b'\<rparr>"
proof -
  let ?bs = "m_blocks b" and ?l = "m_pLastBlock b" and ?c = "nat (m_iCount b)"
  let ?bs' = "?bs[?l := (?bs ! ?l)\<lparr>m_pNext := n\<rparr>] @ grown raw (m_iBlockLen b) n u (m_pNext (?bs ! ?l))"
  let ?r' = "take k r @ [n..<n + u] @ drop k r"
  let ?b' = "b\<lparr>m_blocks := ?bs', m_buffers := m_buffers b @ [hd (m_buffers b)], m_iSize := m_iSize b + hd (m_buffers b)\<rparr>"
  note d = sb_invD [OF i]
  have l: "?l < length ?bs" "r ! ?c = ?l" using path_in_store [OF d(1), of ?l] d(6,7) by auto
  have u0: "0 < u" and hd: "int u = hd (m_buffers b)" using i u by (auto simp: sb_inv_def)
  have inc: "increase raw b = Some ?b'"
    using i l u by (cases "m_buffers b") (auto simp: increase_def sb_inv_def grown_def n Let_def)
  have tk: "take k r = take ?c r @ [?l]" unfolding k using d(6) l by (simp add: take_Suc_conv_app_nth)
  have nl: "?l \<notin> set (take ?c r)" "?l \<notin> set (drop k r)"
    using d(2,6) l(2) id_take_nth_drop [OF d(6)] unfolding k
    by (metis distinct.simps(2) distinct_append list.set_intros(1) disjoint_iff_not_equal)
       (metis d(2,6) l(2) distinct.simps(2) distinct_append id_take_nth_drop)
  have upto: "path ?bs' (m_pFirstBlock b) (take ?c r) ?l"
    by (rule path_cong [OF path_nth(1) [OF d(1,6), unfolded l(2)]]) (use nl(1) l(1) in \<open>auto simp: nth_append nth_list_update\<close>)
  have rest: "path ?bs' (m_pNext (?bs ! ?l)) (drop k r) (m_pFirstBlock b)"
    by (rule path_cong [OF path_nth(3) [OF d(1,6), unfolded l(2)], folded k]) (use nl(2) l(1) in \<open>auto simp: nth_append nth_list_update\<close>)
  have mid: "path ?bs' n [n..<n + u] (m_pNext (?bs ! ?l))"
    using chain_path [OF u0, of "?bs[?l := (?bs ! ?l)\<lparr>m_pNext := n\<rparr>]" n 0 raw] u0 n by simp
  have p: "path ?bs' (m_pFirstBlock b) ?r' (m_pFirstBlock b)"
    using upto rest mid l(1) unfolding tk by (auto simp: nth_append)
  have lt: "\<And>x. x \<in> set r \<Longrightarrow> x < n" unfolding n by (rule path_in_store [OF d(1)])
  have "set (take k r) \<inter> set (drop k r) = {}" by (rule set_take_disj_set_drop_if_distinct [OF d(2) order_refl])
  moreover have "set [n..<n + u] \<inter> set (take k r) = {}" "set [n..<n + u] \<inter> set (drop k r) = {}"
    using lt by (fastforce dest: in_set_takeD, fastforce dest: in_set_dropD)
  ultimately have dst: "distinct ?r'" using d(2) by auto
  have occ: "occupied ?b' ?r' = occupied b r"
  proof -
    have "take ?c ?r' = take ?c r" using d(6) by (simp add: tk)
    moreover have "\<And>x. x \<in> set (take ?c r) \<Longrightarrow> ?bs' ! x = ?bs ! x" using nl(1) l(1) lt by (auto simp: nth_append nth_list_update n dest: in_set_takeD)
    ultimately show ?thesis by (auto simp: occupied_def)
  qed
  have at: "?r' ! j = r ! j" if "j \<le> ?c" for j using that d(6) k by (simp add: nth_append)
  have dat: "length (m_pcData (?bs' ! x)) = nat (m_iBlockLen b)" if "x \<in> set ?r'" for x
  proof (cases "x < n")
    case True
    then have "x \<in> set r" using that by (auto dest: in_set_takeD in_set_dropD)
    then show ?thesis using True d(12) n l(1) by (auto simp: nth_append nth_list_update)
  next
    case False
    then have "n \<le> x" "x < n + u" using that lt by (auto dest: in_set_takeD in_set_dropD)
    then show ?thesis using n by (simp add: nth_append grown_def)
  qed
  have len: "int (length ?r') = m_iSize ?b'" using d(3,6) k hd by simp
  have "sb_inv ?b' ?r' c"
    unfolding sb_inv_def ring_def
    using p dst len occ at [of ?c] at [of c] dat d(4,5,7-11,13,14) i by (auto simp: sb_inv_def getMaxPacketLen_def)
  then show ?thesis using i by (intro that [OF inc]) (auto simp: sb_inv_def)
qed

end
