(* ===== verification/SndBufferAdd.thy ===== *)
theory SndBufferAdd
  imports SndBufferInv
begin

text \<open>
  Adding a message to the sender buffer: growing ends with enough room and leaves the packets as they are,
  and the loop over the blocks appends the message cut into packets.
\<close>

lemma occupied_keep:
  assumes "m_iCount b' = m_iCount b" "\<And>x. x \<in> set (take (nat (m_iCount b)) r) \<Longrightarrow> m_blocks b' ! x = m_blocks b ! x"
    "take (nat (m_iCount b)) r' = take (nat (m_iCount b)) r"
  shows "occupied b' r' = occupied b r"
  using assms by (simp add: occupied_def)

lemma increase_room:
  assumes i: "sb_inv b r c"
  obtains b' r' where "increase raw b = Some b'" "sb_inv b' r' c" "occupied b' r' = occupied b r"
    "m_iSize b' = m_iSize b + hd (m_buffers b)" "hd (m_buffers b') = hd (m_buffers b)"
    "b' = b\<lparr>m_blocks := m_blocks b', m_buffers := m_buffers b', m_iSize := m_iSize b'\<rparr>"
proof -
  let ?k = "Suc (nat (m_iCount b))" and ?n = "length (m_blocks b)" and ?u = "nat (hd (m_buffers b))"
  note d = sb_invD [OF i]
  obtain b' where b': "increase raw b = Some b'" "sb_inv b' (take ?k r @ [?n..<?n + ?u] @ drop ?k r) c"
    "m_iCount b' = m_iCount b" "m_iSize b' = m_iSize b + hd (m_buffers b)" "hd (m_buffers b') = hd (m_buffers b)"
    "m_blocks b' = (m_blocks b)[m_pLastBlock b := (m_blocks b ! m_pLastBlock b)\<lparr>m_pNext := ?n\<rparr>]
        @ grown raw (m_iBlockLen b) ?n ?u (m_pNext (m_blocks b ! m_pLastBlock b))"
    "b' = b\<lparr>m_blocks := m_blocks b', m_buffers := m_buffers b', m_iSize := m_iSize b'\<rparr>"
    by (rule increase_grown [OF i refl refl refl, of raw]) blast
  have "m_pLastBlock b \<noteq> x" if "x \<in> set (take (nat (m_iCount b)) r)" for x
    using that d(2,6,7) by (auto simp: in_set_conv_nth nth_eq_iff_index_eq)
  moreover have "x < ?n" if "x \<in> set (take (nat (m_iCount b)) r)" for x
    using that path_in_store [OF d(1)] by (blast dest: in_set_takeD)
  ultimately have "occupied b' (take ?k r @ [?n..<?n + ?u] @ drop ?k r) = occupied b r"
    using d(6) by (intro occupied_keep b'(3)) (auto simp: b'(6) nth_append)
  then show ?thesis using b' that by blast
qed

lemma ensure_room_done:
  assumes "sb_inv b r c"
  shows "\<exists>b' r'. ensure_room raw need b = Some b' \<and> sb_inv b' r' c \<and> occupied b' r' = occupied b r
    \<and> need + m_iCount b' < m_iSize b'
    \<and> b' = b\<lparr>m_blocks := m_blocks b', m_buffers := m_buffers b', m_iSize := m_iSize b'\<rparr>"
  using assms
proof (induction "nat (need + m_iCount b + 1 - m_iSize b)" arbitrary: b r rule: less_induct)
  case less
  show ?case
  proof (cases "need + m_iCount b \<ge> m_iSize b")
    case True
    obtain b' r' where b': "increase raw b = Some b'" "sb_inv b' r' c" "occupied b' r' = occupied b r"
      "m_iSize b' = m_iSize b + hd (m_buffers b)"
      "b' = b\<lparr>m_blocks := m_blocks b', m_buffers := m_buffers b', m_iSize := m_iSize b'\<rparr>"
      by (rule increase_room [OF less.prems, of raw]) blast
    then have c: "m_iCount b' = m_iCount b" by (metis snd_buffer.surjective snd_buffer.update_convs snd_buffer.select_convs(10))
    have "0 < hd (m_buffers b)" using less.prems by (simp add: sb_inv_def)
    with less.hyps [OF _ b'(2)] True b'(4) c obtain b'' r'' where b'': "ensure_room raw need b' = Some b''" "sb_inv b'' r'' c"
      "occupied b'' r'' = occupied b' r'" "need + m_iCount b'' < m_iSize b''"
      "b'' = b'\<lparr>m_blocks := m_blocks b'', m_buffers := m_buffers b'', m_iSize := m_iSize b''\<rparr>" by fastforce
    have "ensure_room raw need b = Some b''" using True b'(1) b''(1) by (simp add: ensure_room.simps [of _ _ b])
    moreover have "b'' = b\<lparr>m_blocks := m_blocks b'', m_buffers := m_buffers b'', m_iSize := m_iSize b''\<rparr>"
      by (subst b''(5), subst b'(5)) simp
    ultimately show ?thesis using b'' b'(3) by metis
  next
    case False
    then show ?thesis using less.prems by (intro exI [of _ b] exI [of _ r]) (simp add: ensure_room.simps)
  qed
qed

section \<open>The loop over the blocks\<close>

definition pktlen_at :: "int \<Rightarrow> byte list \<Rightarrow> int \<Rightarrow> int" where
  "pktlen_at plen dat i = min (int (length dat) - i * plen) plen"

definition filled :: "int \<Rightarrow> 32 word \<Rightarrow> int \<Rightarrow> int \<Rightarrow> byte list \<Rightarrow> int \<Rightarrow> int \<Rightarrow> int \<Rightarrow> block \<Rightarrow> block" where
  "filled plen base ttl otime dat n seq i blk =
     (let sl = data_slice dat (i * plen) (pktlen_at plen dat i)
      in blk\<lparr>m_pcData := sl @ drop (length sl) (m_pcData blk), m_iLength := pktlen_at plen dat i, m_iSeqNo := seq,
             m_iMsgNoBitset := msgno_bits base i n, m_iTTL := ttl, m_tsRexmitTime := 0, m_tsOriginTime := otime\<rparr>)"

lemma length_data_slice_le: "length (data_slice dat off (pktlen_at plen dat i)) \<le> nat plen"
  by (auto simp: data_slice_def pktlen_at_def)

lemma wrapseq_next: "valid_seq w \<Longrightarrow> incseq w = wrapseq (w + 1)" "wrapseq (wrapseq x + y) = wrapseq (x + y)"
  by (auto simp: incseq_def wrapseq_def valid_seq_def seqno_const_defs mod_simps)

lemma add_blocks_path:
  assumes "path bs s xs q" "distinct xs" "\<forall>x \<in> set xs. length (m_pcData (bs ! x)) = L" "nat plen \<le> L" "valid_seq w"
  shows "\<exists>bs'. add_blocks (length xs) i plen base ttl otime dat bs s w = Some (bs', q, wrapseq (w + int (length xs)))
    \<and> length bs' = length bs \<and> (\<forall>y. y \<notin> set xs \<longrightarrow> bs' ! y = bs ! y)
    \<and> (\<forall>j < length xs. bs' ! (xs ! j)
         = filled plen base ttl otime dat (i + int (length xs)) (wrapseq (w + int j)) (i + int j) (bs ! (xs ! j)))"
  using assms
proof (induction xs arbitrary: bs s i w)
  case Nil
  then show ?case by (simp add: wrapseq_id)
next
  case (Cons x xs)
  let ?n = "i + int (length (x # xs))"
  let ?f = "filled plen base ttl otime dat ?n w i (bs ! x)"
  let ?bs = "bs[x := ?f]"
  have x: "s = x" "x < length bs" "x \<notin> set xs" using Cons.prems(1,2) by auto
  have mc: "memcpy (m_pcData (bs ! x)) (data_slice dat (i * plen) (pktlen_at plen dat i)) = Some (m_pcData ?f)"
    using Cons.prems(3,4) length_data_slice_le [of dat "i * plen" plen i] by (simp add: memcpy_def filled_def Let_def)
  have step: "add_blocks (length (x # xs)) i plen base ttl otime dat bs s w
      = add_blocks (length xs) (i + 1) plen base ttl otime dat ?bs (m_pNext (bs ! x)) (incseq w)"
    using x mc by (simp add: pktlen_at_def [symmetric]) (simp add: filled_def Let_def ac_simps)
  have p: "path ?bs (m_pNext (bs ! x)) xs q"
    by (rule path_cong [of bs]) (use Cons.prems(1) x in \<open>auto simp: nth_list_update\<close>)
  have w: "valid_seq (incseq w)" "incseq w = wrapseq (w + 1)" using Cons.prems(5) wrapseq_valid wrapseq_next by auto
  have d: "\<forall>y \<in> set xs. length (m_pcData (?bs ! y)) = L" using Cons.prems(3) x by (auto simp: nth_list_update)
  from Cons.IH [OF p _ d Cons.prems(4) w(1), of "i + 1"] Cons.prems(2) obtain bs' where
    bs': "add_blocks (length xs) (i + 1) plen base ttl otime dat ?bs (m_pNext (bs ! x)) (incseq w)
            = Some (bs', q, wrapseq (incseq w + int (length xs)))"
      "length bs' = length ?bs" "\<forall>y. y \<notin> set xs \<longrightarrow> bs' ! y = ?bs ! y"
      "\<forall>j < length xs. bs' ! (xs ! j) = filled plen base ttl otime dat (i + 1 + int (length xs)) (wrapseq (incseq w + int j))
          (i + 1 + int j) (?bs ! (xs ! j))" by auto
  have sh: "wrapseq (incseq w + int j) = wrapseq (w + int (Suc j))" for j unfolding w(2) wrapseq_next(2) by (simp add: ac_simps)
  have "\<forall>j < length (x # xs). bs' ! ((x # xs) ! j)
      = filled plen base ttl otime dat ?n (wrapseq (w + int j)) (i + int j) (bs ! ((x # xs) ! j))"
  proof (intro allI impI)
    fix j assume j: "j < length (x # xs)"
    show "bs' ! ((x # xs) ! j) = filled plen base ttl otime dat ?n (wrapseq (w + int j)) (i + int j) (bs ! ((x # xs) ! j))"
    proof (cases j)
      case 0
      then show ?thesis using bs'(3) x Cons.prems(5) by (simp add: wrapseq_id)
    next
      case (Suc k)
      then have k: "k < length xs" "xs ! k \<noteq> x" using j x by (auto simp: in_set_conv_nth)
      then have "?bs ! (xs ! k) = bs ! (xs ! k)" by simp
      then show ?thesis using bs'(4) k(1) sh [of k] Suc by (simp add: ac_simps)
    qed
  qed
  moreover have "\<forall>y. y \<notin> set (x # xs) \<longrightarrow> bs' ! y = bs ! y" using bs'(3) by auto
  ultimately show ?case using step bs'(1,2) sh [of "length xs"] by (intro exI [of _ bs']) (auto simp: ac_simps)
qed

section \<open>A message as packets\<close>

definition split_message :: "int \<Rightarrow> 32 word \<Rightarrow> int \<Rightarrow> int \<Rightarrow> int \<Rightarrow> byte list \<Rightarrow> snd_pkt list" where
  "split_message plen base ttl otime seq dat =
     (let n = nat (countNumPacketsRequired (int (length dat)) plen)
      in map (\<lambda>i. \<lparr>sp_data = map Some (take (nat plen) (drop (i * nat plen) dat)), sp_bits = msgno_bits base (int i) (int n),
                   sp_seq = wrapseq (seq + int i), sp_origin = otime, sp_rexmit = 0, sp_ttl = ttl\<rparr>) [0..<n])"

lemma countNumPacketsRequired_bounds:
  assumes "0 < plen" "n = countNumPacketsRequired (int len) plen"
  shows "0 \<le> n" "int len \<le> n * plen" "(n - 1) * plen < int len \<or> n = 0"
proof -
  have n: "n = (int len + plen - 1) div plen" using assms by (simp add: countNumPacketsRequired_def)
  show "0 \<le> n" using assms(1) unfolding n by (intro pos_imp_zdiv_nonneg_iff [THEN iffD2]) auto
  have e: "int len + plen - 1 = n * plen + (int len + plen - 1) mod plen" unfolding n by (simp only: div_mult_mod_eq)
  have "0 \<le> (int len + plen - 1) mod plen" "(int len + plen - 1) mod plen < plen" using assms(1) by simp_all
  with e show "int len \<le> n * plen" "(n - 1) * plen < int len \<or> n = 0" by (auto simp: algebra_simps)
qed

lemma concat_chunks: "concat (map (\<lambda>i. take p (drop (i * p) dat)) [0..<n]) = take (n * p) dat"
  by (induction n) (simp_all add: take_add [symmetric] add.commute)

lemma split_message_data:
  assumes "0 < plen"
  shows "concat (map sp_data (split_message plen base ttl otime seq dat)) = map Some dat"
proof -
  let ?n = "nat (countNumPacketsRequired (int (length dat)) plen)"
  note c = countNumPacketsRequired_bounds [OF assms refl, of "length dat"]
  have "concat (map sp_data (split_message plen base ttl otime seq dat))
      = map Some (concat (map (\<lambda>i. take (nat plen) (drop (i * nat plen) dat)) [0..<?n]))"
    by (simp add: split_message_def Let_def map_concat comp_def)
  moreover have "length dat \<le> ?n * nat plen" using c(1,2) assms by (simp add: nat_mult_distrib [symmetric] le_nat_iff)
  ultimately show ?thesis by (simp add: concat_chunks)
qed

lemma chunk_at:
  assumes "0 < plen" "i < nat (countNumPacketsRequired (int (length dat)) plen)"
  shows "data_slice dat (int i * plen) (pktlen_at plen dat (int i)) = map Some (take (nat plen) (drop (i * nat plen) dat))"
    "0 < pktlen_at plen dat (int i)" "pktlen_at plen dat (int i) \<le> plen"
    "pktlen_at plen dat (int i) = int (length (take (nat plen) (drop (i * nat plen) dat)))"
proof -
  let ?n = "countNumPacketsRequired (int (length dat)) plen"
  note c = countNumPacketsRequired_bounds [OF assms(1) refl, of "length dat"]
  have "int i * plen \<le> (?n - 1) * plen" using assms by (intro mult_right_mono) auto
  then have lt: "int i * plen < int (length dat)" using c(3) assms(2) by auto
  have ip: "int i * plen = int (i * nat plen)" using assms(1) by simp
  then have "int (length dat) - int i * plen = int (length dat - i * nat plen)" using lt by linarith
  moreover have pl: "int (nat plen) = plen" using assms(1) by simp
  ultimately have e: "pktlen_at plen dat (int i) = int (min (length dat - i * nat plen) (nat plen))"
    unfolding pktlen_at_def of_nat_min pl by simp
  show "data_slice dat (int i * plen) (pktlen_at plen dat (int i)) = map Some (take (nat plen) (drop (i * nat plen) dat))"
    unfolding data_slice_def e ip nat_int by (simp add: min_def)
  show "0 < pktlen_at plen dat (int i)" "pktlen_at plen dat (int i) \<le> plen" using lt assms(1) by (auto simp: pktlen_at_def)
  show "pktlen_at plen dat (int i) = int (length (take (nat plen) (drop (i * nat plen) dat)))"
    unfolding e by simp
qed

lemma int_length_concat: "int (length (concat xss)) = sum_list (map (\<lambda>xs. int (length xs)) xss)"
  by (induction xss) auto

lemma pkt_of_filled:
  assumes "0 < plen" "i < nat n" "n = countNumPacketsRequired (int (length dat)) plen"
  shows "pkt_of (filled plen base ttl otime dat n seq (int i) blk)
      = \<lparr>sp_data = map Some (take (nat plen) (drop (i * nat plen) dat)), sp_bits = msgno_bits base (int i) n,
         sp_seq = seq, sp_origin = otime, sp_rexmit = 0, sp_ttl = ttl\<rparr>"
    "m_iLength (filled plen base ttl otime dat n seq (int i) blk) = int (length (take (nat plen) (drop (i * nat plen) dat)))"
  using chunk_at [OF assms(1) assms(2) [unfolded assms(3)]]
  by (simp_all add: pkt_of_def filled_def Let_def assms(3))

lemma filled_simps [simp]:
  "m_pNext (filled plen base ttl otime dat n seq i blk) = m_pNext blk"
  "length (m_pcData (filled plen base ttl otime dat n seq i blk))
    = max (length (data_slice dat (i * plen) (pktlen_at plen dat i))) (length (m_pcData blk))"
  by (auto simp: filled_def Let_def)

text \<open>
  The whole effect of the loop on the buffer: the blocks from the last one on are filled with the message.
\<close>

lemma add_message:
  fixes b :: snd_buffer
  defines "plen \<equiv> getMaxPacketLen b"
  assumes i: "sb_inv b r c" and n: "n = countNumPacketsRequired (int (length dat)) plen" and room: "n + m_iCount b < m_iSize b"
    and s: "valid_seq seq"
  shows "\<exists>bs' q. add_blocks (nat n) 0 plen base ttl otime dat (m_blocks b) (m_pLastBlock b) seq = Some (bs', q, wrapseq (seq + n))
    \<and> sb_inv (b\<lparr>m_blocks := bs', m_pLastBlock := q, m_iCount := m_iCount b + n, m_iBytesCount := m_iBytesCount b + int (length dat),
                m_tsLastOriginTime := otime, m_iNextMsgNo := no\<rparr>) r c
    \<and> map pkt_of (occupied (b\<lparr>m_blocks := bs', m_iCount := m_iCount b + n\<rparr>) r)
        = map pkt_of (occupied b r) @ split_message plen base ttl otime seq dat"
proof -
  let ?c = "nat (m_iCount b)" and ?n = "nat n" and ?bs = "m_blocks b"
  note d = sb_invD [OF i]
  have p0: "0 < plen" "plen \<le> m_iBlockLen b" using d(10,11) by (auto simp: plen_def getMaxPacketLen_def)
  have n0: "0 \<le> n" using countNumPacketsRequired_bounds(1) [OF p0(1) n] .
  define xs where "xs = drop ?c (take (?c + ?n) r)"
  have l: "?c + ?n < length r" "nat (m_iCount b + n) = ?c + ?n" "length xs = ?n" "int ?n = n"
    using room d(3,4) n0 by (auto simp: xs_def nat_add_distrib)
  have px: "path ?bs (m_pLastBlock b) xs (r ! (?c + ?n))"
    unfolding xs_def d(7) by (rule path_segment [OF d(1)]) (use l in auto)
  have sub: "set xs \<subseteq> set r" by (auto simp: xs_def dest!: in_set_dropD in_set_takeD)
  have dx: "distinct xs" using d(2) by (simp add: xs_def)
  have dl: "\<forall>x \<in> set xs. length (m_pcData (?bs ! x)) = nat (m_iBlockLen b)" using sub d(12) by blast
  have pln: "nat plen \<le> nat (m_iBlockLen b)" using p0(2) by (rule nat_mono)
  from add_blocks_path [OF px dx dl pln s, of 0 base ttl otime dat] l(3,4) obtain bs' where
    a: "add_blocks ?n 0 plen base ttl otime dat ?bs (m_pLastBlock b) seq = Some (bs', r ! (?c + ?n), wrapseq (seq + n))"
      "length bs' = length ?bs" "\<And>y. y \<notin> set xs \<Longrightarrow> bs' ! y = ?bs ! y"
      "\<And>j. j < ?n \<Longrightarrow> bs' ! (xs ! j) = filled plen base ttl otime dat n (wrapseq (seq + int j)) (int j) (?bs ! (xs ! j))"
    by auto
  have in_xs: "\<And>x. x \<in> set xs \<Longrightarrow> \<exists>j < ?n. x = xs ! j" using l(3) by (metis in_set_conv_nth)
  have nx: "m_pNext (bs' ! x) = m_pNext (?bs ! x) \<and> length (m_pcData (bs' ! x)) = nat (m_iBlockLen b)" if "x \<in> set r" for x
  proof (cases "x \<in> set xs")
    case True
    then obtain j where j: "j < ?n" "x = xs ! j" using in_xs by blast
    have "length (data_slice dat (int j * plen) (pktlen_at plen dat (int j))) \<le> length (m_pcData (?bs ! x))"
      using length_data_slice_le pln d(12) [OF that] by (metis order_trans)
    then show ?thesis using a(4) [OF j(1)] d(12) [OF that] j(2) by (simp add: max_def)
  next
    case False
    then show ?thesis using a(3) d(12) [OF that] by simp
  qed
  have new: "map ((!) bs') xs = map (\<lambda>j. filled plen base ttl otime dat n (wrapseq (seq + int j)) (int j) (?bs ! (xs ! j))) [0..<?n]"
    using a(4) l(3) by (intro nth_equalityI) auto
  have "set (take ?c r) \<inter> set xs = {}" unfolding xs_def drop_take
    using set_take_disj_set_drop_if_distinct [OF d(2) order_refl, of ?c] by (auto dest: in_set_takeD)
  then have old: "map ((!) bs') (take ?c r) = occupied b r" unfolding occupied_def by (intro map_cong refl a(3)) auto
  have pk: "map pkt_of (map ((!) bs') xs) = split_message plen base ttl otime seq dat"
    unfolding new split_message_def Let_def n [symmetric] l(4) using pkt_of_filled(1) [OF p0(1) _ n] by (simp add: comp_def)
  have sum: "sum_list (map m_iLength (map ((!) bs') xs)) = int (length dat)"
  proof -
    have "map m_iLength (map ((!) bs') xs) = map (\<lambda>p. int (length (sp_data p))) (split_message plen base ttl otime seq dat)"
      unfolding new split_message_def Let_def n [symmetric] using pkt_of_filled(2) [OF p0(1) _ n] by (simp add: comp_def)
    also have "sum_list \<dots> = int (length (concat (map sp_data (split_message plen base ttl otime seq dat))))"
      by (simp only: int_length_concat map_map comp_def)
    finally show ?thesis by (simp add: split_message_data [OF p0(1)])
  qed
  have ok: "block_ok (m_iBlockLen b) blk" if blk: "blk \<in> set (map ((!) bs') xs)" for blk
  proof -
    obtain j where j: "j < ?n" "blk = filled plen base ttl otime dat n (wrapseq (seq + int j)) (int j) (?bs ! (xs ! j))"
      using blk unfolding new by auto
    then have "m_iLength blk = pktlen_at plen dat (int j)" by (simp add: filled_def Let_def)
    with chunk_at(2,3) [OF p0(1) j(1) [unfolded n]] p0(2) show ?thesis by (simp add: block_ok_def)
  qed
  let ?b' = "b\<lparr>m_blocks := bs', m_pLastBlock := r ! (?c + ?n), m_iCount := m_iCount b + n,
    m_iBytesCount := m_iBytesCount b + int (length dat), m_tsLastOriginTime := otime, m_iNextMsgNo := no\<rparr>"
  have occ: "occupied ?b' r = occupied b r @ map ((!) bs') xs"
    using old l(1,2) by (simp add: occupied_def xs_def take_add drop_take)
  have pr: "path bs' (m_pFirstBlock b) r (m_pFirstBlock b)"
    by (rule path_cong [OF d(1)]) (use nx a(2) in auto)
  have "sb_inv ?b' r c" unfolding sb_inv_def ring_def
    using pr d(2-5,8-11,13,14) occ sum ok nx i n0 room l(2) by (auto simp: sb_inv_def getMaxPacketLen_def)
  moreover have "occupied (b\<lparr>m_blocks := bs', m_iCount := m_iCount b + n\<rparr>) r = occupied ?b' r" by (simp add: occupied_def)
  ultimately show ?thesis using a(1) pk occ by (intro exI [of _ bs'] exI [of _ "r ! (?c + ?n)"]) simp
qed

theorem addBuffer_splits:
  assumes i: "sb_inv b r c" and s: "valid_seq (pktseq mc)"
    and o: "otime = (if srctime mc \<noteq> 0 then srctime mc else tnow)"
    and no: "no = (if msgno mc = SRT_MSGNO_NONE then m_iNextMsgNo b else msgno mc)"
    and pk: "pkts = split_message (getMaxPacketLen b) (no OR (if inorder mc then BitsetMask 29 29 else 0)) (msgttl mc) otime (pktseq mc) dat"
  shows "\<exists>b' r'. addBuffer raw tnow b dat mc
        = Some (b', mc\<lparr>srctime := otime, pktseq := wrapseq (pktseq mc + int (length pkts)), msgno := no\<rparr>)
    \<and> sb_inv b' r' c \<and> sb_abs b' r' c = (sb_abs b r c)\<lparr>sq_pkts := sq_pkts (sb_abs b r c) @ pkts\<rparr>
    \<and> m_iNextMsgNo b' = MsgNo_inc no \<and> getMaxPacketLen b' = getMaxPacketLen b \<and> m_tsLastOriginTime b' = otime"
proof -
  let ?n = "countNumPacketsRequired (int (length dat)) (getMaxPacketLen b)"
  have n0: "0 \<le> ?n" using countNumPacketsRequired_bounds(1) [OF sb_invD(10) [OF i] refl] .
  then have len: "int (length pkts) = ?n" by (simp add: pk split_message_def Let_def)
  obtain b1 r' where b1: "ensure_room raw ?n b = Some b1" "sb_inv b1 r' c" "occupied b1 r' = occupied b r" "?n + m_iCount b1 < m_iSize b1"
    "b1 = b\<lparr>m_blocks := m_blocks b1, m_buffers := m_buffers b1, m_iSize := m_iSize b1\<rparr>"
    using ensure_room_done [OF i, of raw ?n] by blast
  have f: "getMaxPacketLen b1 = getMaxPacketLen b" "m_iNextMsgNo b1 = m_iNextMsgNo b"
    by (subst b1(5), simp add: getMaxPacketLen_def)+
  let ?base = "no OR (if inorder mc then BitsetMask 29 29 else 0)"
  from add_message [OF b1(2) _ b1(4) s, of dat ?base "msgttl mc" otime "MsgNo_inc no", unfolded f(1), OF refl]
  obtain bs' q where m: "add_blocks (nat ?n) 0 (getMaxPacketLen b) ?base (msgttl mc) otime dat (m_blocks b1) (m_pLastBlock b1) (pktseq mc)
      = Some (bs', q, wrapseq (pktseq mc + ?n))"
    "sb_inv (b1\<lparr>m_blocks := bs', m_pLastBlock := q, m_iCount := m_iCount b1 + ?n, m_iBytesCount := m_iBytesCount b1 + int (length dat),
       m_tsLastOriginTime := otime, m_iNextMsgNo := MsgNo_inc no\<rparr>) r' c"
    "map pkt_of (occupied (b1\<lparr>m_blocks := bs', m_iCount := m_iCount b1 + ?n\<rparr>) r') = map pkt_of (occupied b1 r') @ pkts"
    unfolding pk by blast
  let ?b' = "b1\<lparr>m_blocks := bs', m_pLastBlock := q, m_iCount := m_iCount b1 + ?n, m_iBytesCount := m_iBytesCount b1 + int (length dat),
       m_tsLastOriginTime := otime, m_iNextMsgNo := MsgNo_inc no\<rparr>"
  have "addBuffer raw tnow b dat mc = Some (?b', mc\<lparr>srctime := otime, pktseq := wrapseq (pktseq mc + int (length pkts)), msgno := no\<rparr>)"
    unfolding len addBuffer_def Let_def b1(1) Option.bind.bind_lunit o [symmetric] f(2) no [symmetric] m(1) by simp
  moreover have "occupied ?b' r' = occupied (b1\<lparr>m_blocks := bs', m_iCount := m_iCount b1 + ?n\<rparr>) r'" by (simp add: occupied_def)
  then have "sb_abs ?b' r' c = (sb_abs b r c)\<lparr>sq_pkts := sq_pkts (sb_abs b r c) @ pkts\<rparr>" using m(3) b1(3) by (simp add: sb_abs_def)
  moreover have "getMaxPacketLen ?b' = getMaxPacketLen b" using f(1) by (simp add: getMaxPacketLen_def)
  ultimately show ?thesis using m(2) by (intro exI [of _ ?b'] exI [of _ r']) simp
qed

end
