(* ===== verification/SndBufferOps.thy ===== *)
theory SndBufferOps
  imports SndBufferAdd
begin

text \<open>
  Reading, acknowledging and dropping packets of the sender buffer, each as an operation on the abstract
  queue: the first reading advances the sent mark, a retransmission looks a packet up by its offset,
  acknowledging and dropping remove a prefix.
\<close>

section \<open>Updating a block, moving the current one\<close>

lemma next_in_ring:
  assumes "sb_inv b r c" "Suc j < length r"
  shows "m_pNext (m_blocks b ! (r ! j)) = r ! Suc j" "r ! j < length (m_blocks b)"
proof -
  note d = sb_invD [OF assms(1)]
  have "path (m_blocks b) (r ! j) (drop j (take (Suc j) r)) (r ! Suc j)" by (rule path_segment [OF d(1)]) (use assms(2) in auto)
  moreover have "drop j (take (Suc j) r) = [r ! j]" using assms(2) by (simp add: take_Suc_conv_app_nth)
  ultimately show "m_pNext (m_blocks b ! (r ! j)) = r ! Suc j" "r ! j < length (m_blocks b)" by auto
qed

lemma ring_nth_eq: "sb_inv b r c \<Longrightarrow> i < length r \<Longrightarrow> j < length r \<Longrightarrow> r ! i = r ! j \<longleftrightarrow> i = j"
  using sb_invD(2) [of b r c] by (simp add: nth_eq_iff_index_eq)

lemma count_in_ring: "sb_inv b r c \<Longrightarrow> j < nat (m_iCount b) \<Longrightarrow> Suc j < length r"
  using sb_invD(6) [of b r c] by linarith

lemma at_last: "sb_inv b r c \<Longrightarrow> j \<le> nat (m_iCount b) \<Longrightarrow> r ! j = m_pLastBlock b \<longleftrightarrow> j = nat (m_iCount b)"
  using ring_nth_eq [of b r c j "nat (m_iCount b)"] sb_invD(6,7) [of b r c] by auto

lemma sb_inv_curr:
  assumes "sb_inv b r c" "c' \<le> nat (m_iCount b)"
  shows "sb_inv (b\<lparr>m_pCurrBlock := r ! c'\<rparr>) r c'" "occupied (b\<lparr>m_pCurrBlock := r ! c'\<rparr>) r = occupied b r"
  using assms by (simp_all add: sb_inv_def ring_def occupied_def getMaxPacketLen_def)

lemma sb_inv_update:
  assumes i: "sb_inv b r c" and j: "j < nat (m_iCount b)"
    and blk: "m_pNext blk = m_pNext (m_blocks b ! (r ! j))" "m_iLength blk = m_iLength (m_blocks b ! (r ! j))"
      "length (m_pcData blk) = length (m_pcData (m_blocks b ! (r ! j)))"
  shows "sb_inv (b\<lparr>m_blocks := (m_blocks b)[r ! j := blk]\<rparr>) r c"
    "occupied (b\<lparr>m_blocks := (m_blocks b)[r ! j := blk]\<rparr>) r = (occupied b r)[j := blk]"
proof -
  let ?bs = "m_blocks b" let ?b' = "b\<lparr>m_blocks := ?bs[r ! j := blk]\<rparr>"
  note d = sb_invD [OF i]
  have x: "r ! j < length ?bs" using next_in_ring(2) [OF i count_in_ring [OF i j]] .
  have nth: "?bs[r ! j := blk] ! (r ! k) = (if k = j then blk else ?bs ! (r ! k))" if "k < length r" for k
    using that x ring_nth_eq [OF i that, of j] count_in_ring [OF i j] by (auto simp: nth_list_update)
  show occ: "occupied ?b' r = (occupied b r)[j := blk]"
    using nth d(6) by (intro nth_equalityI) (auto simp: occupied_def nth_list_update)
  have jth: "occupied b r ! j = ?bs ! (r ! j)" "j < length (occupied b r)" using occupied_nth [OF i j] length_occupied [OF i] j by auto
  have len: "map m_iLength ((occupied b r)[j := blk]) = map m_iLength (occupied b r)"
    using jth blk(2) by (metis list_update_id map_update)
  have "block_ok (m_iBlockLen b) blk" using d(13) [OF nth_mem [OF jth(2)]] jth blk(2) by (simp add: block_ok_def)
  then have ok: "\<forall>k \<in> set ((occupied b r)[j := blk]). block_ok (m_iBlockLen b) k"
    using d(13) by (auto dest: set_update_subset_insert [THEN subsetD])
  have "path (?bs[r ! j := blk]) (m_pFirstBlock b) r (m_pFirstBlock b)"
    by (rule path_cong [OF d(1)]) (use x in \<open>auto simp: nth_list_update blk(1)\<close>)
  moreover have "\<forall>x \<in> set r. length (m_pcData (?bs[r ! j := blk] ! x)) = nat (m_iBlockLen b)"
    using d(12) blk(3) x by (auto simp: nth_list_update)
  ultimately show "sb_inv ?b' r c" using i occ len ok by (simp add: sb_inv_def ring_def getMaxPacketLen_def)
qed

section \<open>First reading\<close>

definition pkt_expired :: "int \<Rightarrow> snd_pkt \<Rightarrow> bool" where
  "pkt_expired now p \<longleftrightarrow> sp_ttl p \<ge> 0 \<and> (now - sp_origin p) sdiv 1000 > sp_ttl p"

definition stamp :: "int \<Rightarrow> snd_pkt \<Rightarrow> snd_pkt" where
  "stamp kflgs p = (if kflgs = -1 then p else p\<lparr>sp_bits := sp_bits p OR Bits_wrap 28 27 (word_of_int kflgs)\<rparr>)"

definition stamp_block :: "int \<Rightarrow> block \<Rightarrow> block" where
  "stamp_block kflgs blk = (if kflgs = -1 then blk
     else blk\<lparr>m_iMsgNoBitset := m_iMsgNoBitset blk OR Bits_wrap 28 27 (word_of_int kflgs)\<rparr>)"

lemma pkt_of_stamp: "pkt_of (stamp_block kflgs blk) = stamp kflgs (pkt_of blk)" "expired now blk = pkt_expired now (pkt_of blk)"
  by (simp_all add: stamp_block_def stamp_def pkt_of_def expired_def pkt_expired_def)

lemma stamp_block_simps [simp]:
  "m_pNext (stamp_block k blk) = m_pNext blk" "m_iLength (stamp_block k blk) = m_iLength blk"
  "m_pcData (stamp_block k blk) = m_pcData blk" "m_iSeqNo (stamp_block k blk) = m_iSeqNo blk"
  "m_tsOriginTime (stamp_block k blk) = m_tsOriginTime blk" "m_iTTL (stamp_block k blk) = m_iTTL blk"
  by (simp_all add: stamp_block_def)

lemma expired_bits [simp]: "expired now (blk\<lparr>m_iMsgNoBitset := m\<rparr>) = expired now blk"
  by (simp add: expired_def)

text \<open>The packet handed to the channel: header fields and a reference to the block's data.\<close>

definition out_packet :: "snd_buffer \<Rightarrow> packet \<Rightarrow> addr \<Rightarrow> block \<Rightarrow> packet" where
  "out_packet b w p blk = set_msgflags (set_seqno (reflect_data b w p blk) (m_iSeqNo blk)) (m_iMsgNoBitset blk)"

definition packet_bytes :: "snd_buffer \<Rightarrow> packet \<Rightarrow> byte option list" where
  "packet_bytes b w = (case pv_data w of Buf p \<Rightarrow> take (getLength w) (m_pcData (m_blocks b ! p)) | _ \<Rightarrow> [])"

lemma readData_step:
  fixes kflgs :: int
  assumes i: "sb_inv b r c" and c: "c < nat (m_iCount b)"
  defines "blk \<equiv> m_blocks b ! (r ! c)"
  defines "b1 \<equiv> b\<lparr>m_blocks := (m_blocks b)[r ! c := stamp_block kflgs blk], m_pCurrBlock := r ! Suc c\<rparr>"
  shows "readData_loop now kflgs b len w t inc =
      (if expired now blk then readData_loop now kflgs b1 0 (out_packet b w (r ! c) (stamp_block kflgs blk)) (m_tsOriginTime blk) (inc + 1)
       else Some (if kflgs = -1 then 0 else m_iLength blk, out_packet b w (r ! c) (stamp_block kflgs blk), m_tsOriginTime blk, inc, b1))"
    "sb_inv b1 r (Suc c)" "occupied b1 r = (occupied b r)[c := stamp_block kflgs blk]" "m_iCount b1 = m_iCount b" "m_iBlockLen b1 = m_iBlockLen b"
proof -
  note d = sb_invD [OF i]
  note nx = next_in_ring [OF i count_in_ring [OF i c]]
  have "m_pCurrBlock b \<noteq> m_pLastBlock b" using at_last [OF i, of c] c d(9) by auto
  then show "readData_loop now kflgs b len w t inc =
      (if expired now blk then readData_loop now kflgs b1 0 (out_packet b w (r ! c) (stamp_block kflgs blk)) (m_tsOriginTime blk) (inc + 1)
       else Some (if kflgs = -1 then 0 else m_iLength blk, out_packet b w (r ! c) (stamp_block kflgs blk), m_tsOriginTime blk, inc, b1))"
    using nx d(9) unfolding blk_def b1_def
    by (subst readData_loop.simps, cases "kflgs = -1"; cases "expired now (m_blocks b ! (r ! c))")
      (simp_all add: stamp_block_def out_packet_def reflect_data_def Let_def)
  let ?b = "b\<lparr>m_blocks := (m_blocks b)[r ! c := stamp_block kflgs blk]\<rparr>"
  have u: "sb_inv ?b r c" "occupied ?b r = (occupied b r)[c := stamp_block kflgs blk]"
    by (rule sb_inv_update [OF i c]; simp add: blk_def)+
  have "b1 = ?b\<lparr>m_pCurrBlock := r ! Suc c\<rparr>" by (simp add: b1_def)
  then show "sb_inv b1 r (Suc c)" "occupied b1 r = (occupied b r)[c := stamp_block kflgs blk]"
    using sb_inv_curr [OF u(1), of "Suc c"] u(2) c by simp_all
qed (simp_all add: b1_def)

lemma pkts_nth:
  assumes "sb_inv b r c" "j < nat (m_iCount b)"
  shows "map pkt_of (occupied b r) ! j = pkt_of (m_blocks b ! (r ! j))"
    "int (length (sp_data (pkt_of (m_blocks b ! (r ! j))))) = m_iLength (m_blocks b ! (r ! j))"
proof -
  note d = sb_invD [OF assms(1)]
  have o: "occupied b r ! j = m_blocks b ! (r ! j)" "j < length (occupied b r)"
    using occupied_nth [OF assms] length_occupied [OF assms(1)] assms(2) by auto
  then show "map pkt_of (occupied b r) ! j = pkt_of (m_blocks b ! (r ! j))" by simp
  have "block_ok (m_iBlockLen b) (m_blocks b ! (r ! j))" using d(13) [OF nth_mem [OF o(2)]] o(1) by simp
  moreover have "length (m_pcData (m_blocks b ! (r ! j))) = nat (m_iBlockLen b)"
    using d(12) count_in_ring [OF assms] by simp
  ultimately show "int (length (sp_data (pkt_of (m_blocks b ! (r ! j))))) = m_iLength (m_blocks b ! (r ! j))"
    by (simp add: pkt_of_def block_ok_def min_absorb2 nat_mono)
qed

lemma out_packet_fields:
  "packet_bytes b' (out_packet b w p blk) = take (nat (m_iLength blk)) (m_pcData (m_blocks b' ! p))"
  "SRT_PH_SEQNO (m_nHeader (out_packet b w p blk)) = word_of_int (m_iSeqNo blk)"
  "SRT_PH_MSGNO (m_nHeader (out_packet b w p blk)) = m_iMsgNoBitset blk"
  by (simp_all add: packet_bytes_def out_packet_def set_msgflags_def set_seqno_def reflect_data_def setLength_cap_def setLength_def
      getLength_def)

text \<open>What a first reading hands out for the packet \<open>p\<close>.\<close>

definition reads_packet :: "int \<Rightarrow> snd_buffer \<Rightarrow> int \<Rightarrow> packet \<Rightarrow> int \<Rightarrow> snd_pkt \<Rightarrow> bool" where
  "reads_packet kflgs b len w t p \<longleftrightarrow> len = (if kflgs = -1 then 0 else int (length (sp_data p))) \<and> packet_bytes b w = sp_data p
     \<and> SRT_PH_SEQNO (m_nHeader w) = word_of_int (sp_seq p) \<and> SRT_PH_MSGNO (m_nHeader w) = sp_bits (stamp kflgs p)
     \<and> t = sp_origin p"

lemma readData_loop_spec:
  assumes "sb_inv b r c" "P = map pkt_of (occupied b r)" "s = length (takeWhile (pkt_expired now) (drop c P))"
  shows "\<exists>len' w' t' b'. readData_loop now kflgs b len w t inc = Some (len', w', t', inc + int s, b')
    \<and> sb_inv b' r (min (c + Suc s) (length P))
    \<and> map pkt_of (occupied b' r) = take c P @ map (stamp kflgs) (take (Suc s) (drop c P)) @ drop (c + Suc s) P
    \<and> (c + s = length P \<longrightarrow> len' = (if c = length P then len else 0))
    \<and> (c + s < length P \<longrightarrow> reads_packet kflgs b' len' w' t' (P ! (c + s)))"
  using assms
proof (induction "nat (m_iCount b) - c" arbitrary: b c P s len w t inc)
  case 0
  note d = sb_invD [OF 0(2)]
  have c: "c = nat (m_iCount b)" "length P = c" using 0(1) d(8) length_occupied [OF 0(2)] 0(3) by auto
  moreover have "m_pCurrBlock b = m_pLastBlock b" using d(7,9) c by simp
  ultimately show ?case using 0(2-4) by (simp add: readData_loop.simps)
next
  case (Suc k)
  have c: "c < nat (m_iCount b)" "length P = nat (m_iCount b)" using Suc.hyps(2) length_occupied [OF Suc.prems(1)] Suc.prems(2) by auto
  let ?blk = "m_blocks b ! (r ! c)"
  let ?b1 = "b\<lparr>m_blocks := (m_blocks b)[r ! c := stamp_block kflgs ?blk], m_pCurrBlock := r ! Suc c\<rparr>"
  note st1 = readData_step(1) [OF Suc.prems(1) c(1), of now kflgs len w t inc]
  note st = readData_step(2-5) [OF Suc.prems(1) c(1), of kflgs]
  note Pc = pkts_nth [OF Suc.prems(1) c(1), folded Suc.prems(2)]
  have P1: "map pkt_of (occupied ?b1 r) = P[c := stamp kflgs (P ! c)]"
    unfolding st(2) Suc.prems(2) map_update pkt_of_stamp(1) using Pc(1) Suc.prems(2) by simp
  have dr: "drop c P = P ! c # drop (Suc c) P" using c by (simp add: Cons_nth_drop_Suc)
  show ?case
  proof (cases "expired now ?blk")
    case True
    then have e: "pkt_expired now (P ! c)" using Pc(1) pkt_of_stamp(2) by simp
    define s1 where "s1 = length (takeWhile (pkt_expired now) (drop (Suc c) (P[c := stamp kflgs (P ! c)])))"
    have s: "s = Suc s1" using Suc.prems(3) e unfolding dr s1_def by simp
    have k1: "k = nat (m_iCount ?b1) - Suc c" using Suc.hyps(2) by simp
    from Suc.hyps(1) [OF k1 st(1) P1 [symmetric] s1_def, of 0 "out_packet b w (r ! c) (stamp_block kflgs ?blk)" "m_tsOriginTime ?blk" "inc + 1"]
    obtain len' w' t' b' where ih: "readData_loop now kflgs ?b1 0 (out_packet b w (r ! c) (stamp_block kflgs ?blk)) (m_tsOriginTime ?blk) (inc + 1)
        = Some (len', w', t', inc + 1 + int s1, b')"
      "sb_inv b' r (min (Suc c + Suc s1) (length P))"
      "map pkt_of (occupied b' r) = take (Suc c) (P[c := stamp kflgs (P ! c)]) @ map (stamp kflgs) (take (Suc s1) (drop (Suc c) P)) @ drop (Suc c + Suc s1) P"
      "Suc c + s1 = length P \<longrightarrow> len' = 0"
      "Suc c + s1 < length P \<longrightarrow> reads_packet kflgs b' len' w' t' (P ! (Suc c + s1))" by auto
    have tk: "take (Suc c) (P[c := stamp kflgs (P ! c)]) = take c P @ [stamp kflgs (P ! c)]"
      using c by (simp add: take_Suc_conv_app_nth)
    have "readData_loop now kflgs b len w t inc = Some (len', w', t', inc + int s, b')"
      using st1 True ih(1) s by simp
    moreover have "map pkt_of (occupied b' r) = take c P @ map (stamp kflgs) (take (Suc s) (drop c P)) @ drop (c + Suc s) P"
      using ih(3) unfolding tk dr s by simp
    ultimately show ?thesis using ih(2,4,5) s c by (intro exI [of _ len'] exI [of _ w'] exI [of _ t'] exI [of _ b']) simp
  next
    case False
    then have s: "s = 0" using Pc(1) pkt_of_stamp(2) [of now ?blk] Suc.prems(3) unfolding dr by simp
    let ?w = "out_packet b w (r ! c) (stamp_block kflgs ?blk)"
    have "r ! c < length (m_blocks b)" using next_in_ring(2) [OF Suc.prems(1) count_in_ring [OF Suc.prems(1) c(1)]] .
    then have "reads_packet kflgs ?b1 (if kflgs = -1 then 0 else m_iLength ?blk) ?w (m_tsOriginTime ?blk) (P ! c)"
      unfolding reads_packet_def out_packet_fields Pc(1)
      using Pc(2) by (simp add: pkt_of_def stamp_def stamp_block_def)
    moreover have "P[c := stamp kflgs (P ! c)] = take c P @ map (stamp kflgs) (take (Suc s) (drop c P)) @ drop (c + Suc s) P"
      using c unfolding s dr by (simp add: upd_conv_take_nth_drop)
    ultimately show ?thesis using st1 st False s c P1 by (intro exI [of _ "if kflgs = -1 then 0 else m_iLength ?blk"] exI [of _ ?w]
        exI [of _ "m_tsOriginTime ?blk"] exI [of _ ?b1]) simp
  qed
qed

section \<open>Releasing a prefix\<close>

lemma release_prefix:
  assumes i: "sb_inv b r c" and k: "k \<le> nat (m_iCount b)"
  defines "b' \<equiv> b\<lparr>m_pFirstBlock := r ! k, m_pCurrBlock := r ! max c k, m_iCount := m_iCount b - int k,
    m_iBytesCount := m_iBytesCount b - sum_list (map m_iLength (take k (occupied b r)))\<rparr>"
  shows "sb_inv b' (drop k r @ take k r) (c - k)" "occupied b' (drop k r @ take k r) = drop k (occupied b r)"
proof -
  note d = sb_invD [OF i]
  have kl: "k < length r" "nat (m_iCount b - int k) = nat (m_iCount b) - k" using k d(4,6) by auto
  let ?r = "drop k r @ take k r"
  have p: "path (m_blocks b) (r ! k) ?r (r ! k)" using path_nth(1,2) [OF d(1) kl(1)] by auto
  have at: "?r ! (j - k) = r ! max j k" if "j \<le> nat (m_iCount b)" for j
    using that kl(1) d(6) k by (cases "k \<le> j") (auto simp: nth_append max_def)
  have dst: "distinct ?r" using d(2) set_take_disj_set_drop_if_distinct [OF d(2) order_refl, of k] by auto
  show occ: "occupied b' ?r = drop k (occupied b r)"
    using kl d(6) k by (simp add: occupied_def b'_def drop_map drop_take)
  have "sum_list (map m_iLength (occupied b r))
      = sum_list (map m_iLength (take k (occupied b r))) + sum_list (map m_iLength (drop k (occupied b r)))"
    by (metis append_take_drop_id map_append sum_list_append)
  then have sum: "m_iBytesCount b' = sum_list (map m_iLength (occupied b' ?r))" using d(14) occ by (simp add: b'_def)
  have st: "set ?r = set r" by (metis append_take_drop_id set_append sup_commute)
  have ok: "\<forall>blk \<in> set (occupied b' ?r). block_ok (m_iBlockLen b') blk" unfolding occ using d(13) by (auto simp: b'_def dest: in_set_dropD)
  show "sb_inv b' ?r (c - k)" unfolding sb_inv_def ring_def
  proof (intro conjI sum ok)
    show "path (m_blocks b') (m_pFirstBlock b') ?r (m_pFirstBlock b')" "distinct ?r" "int (length ?r) = m_iSize b'"
      using p dst d(3) kl(1) by (simp_all add: b'_def)
    show "0 \<le> m_iCount b'" "m_iCount b' < m_iSize b'" "c - k \<le> nat (m_iCount b')" using k d(4,5,8) kl(2) by (auto simp: b'_def)
    show "m_pLastBlock b' = ?r ! nat (m_iCount b')" "m_pCurrBlock b' = ?r ! (c - k)"
      using at [of "nat (m_iCount b)"] at [OF d(8)] kl(2) k d(7) by (simp_all add: b'_def max_def)
    show "\<forall>x \<in> set ?r. length (m_pcData (m_blocks b' ! x)) = nat (m_iBlockLen b')" unfolding st using d(12) by (simp add: b'_def)
  qed (use i in \<open>simp_all add: b'_def sb_inv_def getMaxPacketLen_def\<close>)
qed

lemma ack_loop_path:
  "path (m_blocks b) (m_pFirstBlock b) xs q \<Longrightarrow> ack_loop (length xs) b mv
    = Some (b\<lparr>m_iBytesCount := m_iBytesCount b - sum_list (map (\<lambda>x. m_iLength (m_blocks b ! x)) xs), m_pFirstBlock := q\<rparr>,
            mv \<or> m_pCurrBlock b \<in> set xs)"
proof (induction xs arbitrary: b mv)
  case (Cons x xs)
  let ?b = "b\<lparr>m_iBytesCount := m_iBytesCount b - m_iLength (m_blocks b ! x), m_pFirstBlock := m_pNext (m_blocks b ! x)\<rparr>"
  have x: "x = m_pFirstBlock b" "x < length (m_blocks b)" "path (m_blocks ?b) (m_pFirstBlock ?b) xs q" using Cons.prems by auto
  from Cons.IH [OF x(3), of "mv \<or> m_pFirstBlock b = m_pCurrBlock b"] x(1,2) show ?case by (auto simp: algebra_simps)
qed simp

lemma curr_in_prefix:
  assumes "sb_inv b r c" "k \<le> nat (m_iCount b)"
  shows "m_pCurrBlock b \<in> set (take k r) \<longleftrightarrow> c < k"
proof -
  note d = sb_invD [OF assms(1)]
  have "r ! j = r ! c \<longleftrightarrow> j = c" if "j < k" for j using that assms(2) d(6,8) by (intro ring_nth_eq [OF assms(1)]) auto
  then show ?thesis using assms(2) d(6,9) by (auto simp: in_set_conv_nth)
qed

theorem ackData_drops:
  assumes i: "sb_inv b r c" and k: "k \<le> nat (m_iCount b)"
  obtains b' r' where "ackData b (int k) = Some b'" "sb_inv b' r' (c - k)" "occupied b' r' = drop k (occupied b r)"
    "getMaxPacketLen b' = getMaxPacketLen b" "m_iNextMsgNo b' = m_iNextMsgNo b"
proof -
  note d = sb_invD [OF i]
  have kl: "k < length r" "length (take k r) = k" using k d(6) by auto
  have tk: "sum_list (map (\<lambda>x. m_iLength (m_blocks b ! x)) (take k r)) = sum_list (map m_iLength (take k (occupied b r)))"
    using k by (simp add: occupied_def take_map comp_def)
  from ack_loop_path [OF path_nth(1) [OF d(1) kl(1)], of False] have l: "ack_loop k b False
    = Some (b\<lparr>m_iBytesCount := m_iBytesCount b - sum_list (map m_iLength (take k (occupied b r))), m_pFirstBlock := r ! k\<rparr>, c < k)"
    unfolding kl(2) tk curr_in_prefix [OF i k] by simp
  have "ackData b (int k) = Some (b\<lparr>m_pFirstBlock := r ! k, m_pCurrBlock := r ! max c k, m_iCount := m_iCount b - int k,
      m_iBytesCount := m_iBytesCount b - sum_list (map m_iLength (take k (occupied b r)))\<rparr>)"
    using l d(9) by (cases "c < k") (simp_all add: ackData_def max_def)
  from that [OF this release_prefix [OF i k]] show ?thesis by (simp add: getMaxPacketLen_def)
qed

lemma late_loop_path:
  "path (m_blocks b) (m_pFirstBlock b) xs q \<Longrightarrow> ys = takeWhile (\<lambda>x. m_tsOriginTime (m_blocks b ! x) < late) xs \<Longrightarrow>
    late_loop (length xs) late b mv dp db no
    = Some (b\<lparr>m_pFirstBlock := (drop (length ys) xs @ [q]) ! 0\<rparr>, mv \<or> m_pCurrBlock b \<in> set ys, dp + int (length ys),
            db + sum_list (map (\<lambda>x. m_iLength (m_blocks b ! x)) ys), last (no # map (\<lambda>x. block_msgSeq (m_blocks b ! x)) ys))"
proof (induction xs arbitrary: b mv dp db no ys)
  case (Cons x xs)
  let ?b = "b\<lparr>m_pFirstBlock := m_pNext (m_blocks b ! x)\<rparr>"
  have x: "x = m_pFirstBlock b" "x < length (m_blocks b)" "path (m_blocks ?b) (m_pFirstBlock ?b) xs q" using Cons.prems by auto
  show ?case
  proof (cases "m_tsOriginTime (m_blocks b ! x) < late")
    case True
    from Cons.IH [OF x(3) refl, of "mv \<or> m_pFirstBlock b = m_pCurrBlock b" "dp + 1" "db + m_iLength (m_blocks b ! x)"
        "block_msgSeq (m_blocks b ! x)"] x(1,2) Cons.prems(2) True
    show ?thesis by (auto simp: algebra_simps)
  next
    case False
    then show ?thesis using x(1,2) Cons.prems(2) by simp
  qed
qed simp

text \<open>Dropping removes the leading packets older than the limit; the next message number follows the last one dropped.\<close>

theorem dropLateData_drops:
  assumes i: "sb_inv b r c" and k: "k = length (takeWhile (\<lambda>p. sp_origin p < late) (map pkt_of (occupied b r)))"
  obtains b' r' where "dropLateData b late = Some (int k, sum_list (map m_iLength (take k (occupied b r))),
      MsgNo_inc (last (0 # map block_msgSeq (take k (occupied b r)))), b')"
    "sb_inv b' r' (c - k)" "occupied b' r' = drop k (occupied b r)"
proof -
  note d = sb_invD [OF i]
  let ?n = "nat (m_iCount b)"
  let ?xs = "take ?n r" and ?ys = "takeWhile (\<lambda>x. m_tsOriginTime (m_blocks b ! x) < late) (take ?n r)"
  have lx: "length ?xs = ?n" using d(6) by simp
  have ky: "k = length ?ys" by (simp add: k occupied_def takeWhile_map comp_def pkt_of_def)
  then have kn: "k \<le> ?n" using length_takeWhile_le [of _ ?xs] lx by metis
  have ys: "?ys = take k r" unfolding ky by (metis ky kn min.absorb1 take_take takeWhile_eq_take)
  have dm: "map f (take k (occupied b r)) = map (\<lambda>x. f (m_blocks b ! x)) (take k r)" for f :: "block \<Rightarrow> 'a"
    using kn by (simp add: occupied_def take_map comp_def)
  have dm2: "map block_msgSeq (take k (occupied b r)) = map (\<lambda>x. block_msgSeq (m_blocks b ! x)) (take k r)"
    using kn by (simp add: occupied_def take_map comp_def)
  have lk: "length (take k r) = k" using kn d(6) by simp
  have hd: "(drop k ?xs @ [r ! ?n]) ! 0 = r ! k" using kn lx d(6) by (cases "k < ?n") (auto simp: nth_append)
  have "late_loop ?n late b False 0 0 0 = Some (b\<lparr>m_pFirstBlock := r ! k\<rparr>, c < k, int k,
      sum_list (map m_iLength (take k (occupied b r))), last (0 # map block_msgSeq (take k (occupied b r))))"
    using late_loop_path [OF path_nth(1) [OF d(1,6)] refl, of late False 0 0 0] kn
    unfolding lx ys lk hd curr_in_prefix [OF i kn] dm dm2 by simp
  then have "dropLateData b late = Some (int k, sum_list (map m_iLength (take k (occupied b r))),
      MsgNo_inc (last (0 # map block_msgSeq (take k (occupied b r)))),
      b\<lparr>m_pFirstBlock := r ! k, m_pCurrBlock := r ! max c k, m_iCount := m_iCount b - int k,
        m_iBytesCount := m_iBytesCount b - sum_list (map m_iLength (take k (occupied b r)))\<rparr>)"
    using d(9) by (cases "c < k") (simp_all add: dropLateData_def max_def)
  from that [OF this release_prefix [OF i kn]] show ?thesis .
qed

section \<open>Retransmission\<close>

definition pkt_msgSeq :: "snd_pkt \<Rightarrow> 32 word" where
  "pkt_msgSeq p = sp_bits p AND BitsetMask 25 0"

lemma pkt_msgSeq_of [simp]: "pkt_msgSeq (pkt_of blk) = block_msgSeq blk"
  by (simp add: pkt_msgSeq_def pkt_of_def block_msgSeq_def)

lemma walk_to_ring:
  assumes i: "sb_inv b r c" and j: "j \<le> nat (m_iCount b)"
  shows "walk_to k b (r ! j) = Some (r ! min (j + k) (nat (m_iCount b)))"
  using j
proof (induction k arbitrary: j)
  case (Suc k)
  show ?case
  proof (cases "j = nat (m_iCount b)")
    case True
    then show ?thesis using at_last [OF i Suc.prems] by simp
  next
    case False
    then have j: "j < nat (m_iCount b)" "r ! j \<noteq> m_pLastBlock b" using Suc.prems at_last [OF i Suc.prems] by auto
    with next_in_ring [OF i count_in_ring [OF i j(1)]] Suc.IH [of "Suc j"] show ?thesis by simp
  qed
qed simp

lemma walk_ring:
  assumes i: "sb_inv b r c" and k: "k \<le> nat (m_iCount b)"
  shows "walk k (m_blocks b) (m_pFirstBlock b) = Some (r ! k)"
proof -
  note d = sb_invD [OF i]
  have "k < length r" using k d(6) by simp
  from walk_path [OF path_nth(1) [OF d(1) this]] this show ?thesis by simp
qed

lemma drop_msg_loop_ring:
  assumes "sb_inv b r c" "j \<le> nat (m_iCount b)" "mv \<longrightarrow> c = j"
    "m = length (takeWhile (\<lambda>p. no = pkt_msgSeq p) (drop j (map pkt_of (occupied b r))))"
  shows "drop_msg_loop no b (r ! j) mv len
    = Some (b\<lparr>m_pCurrBlock := r ! (if mv \<or> j \<le> c \<and> c < j + m then j + m else c)\<rparr>, r ! (j + m), len + int m)"
  using assms
proof (induction "nat (m_iCount b) - j" arbitrary: b c j mv m len)
  case 0
  then have j: "j = nat (m_iCount b)" "m = 0" using length_occupied [OF 0(2)] by auto
  moreover have "b\<lparr>m_pCurrBlock := r ! c\<rparr> = b" using sb_invD(9) [OF 0(2)] by simp
  ultimately show ?case using at_last [OF 0(2,3)] 0(4) by (auto simp: drop_msg_loop.simps)
next
  case (Suc k)
  note i = Suc.prems(1)
  have j: "j < nat (m_iCount b)" "r ! j \<noteq> m_pLastBlock b" using Suc.hyps(2) at_last [OF i Suc.prems(2)] by auto
  note nx = next_in_ring [OF i count_in_ring [OF i j(1)]]
  let ?blk = "m_blocks b ! (r ! j)"
  have dr: "drop j (map pkt_of (occupied b r)) = pkt_of ?blk # drop (Suc j) (map pkt_of (occupied b r))"
    using pkts_nth(1) [OF i j(1)] j(1) length_occupied [OF i] by (metis Cons_nth_drop_Suc length_map)
  have cur: "m_pCurrBlock b = r ! c" using sb_invD(9) [OF i] .
  then have self: "b\<lparr>m_pCurrBlock := r ! c\<rparr> = b" by simp
  have eq: "r ! j = r ! c \<longleftrightarrow> j = c" using ring_nth_eq [OF i, of j c] j(1) sb_invD(6,8) [OF i] by auto
  show ?case
  proof (cases "no = block_msgSeq ?blk")
    case False
    then have "m = 0" using Suc.prems(4) unfolding dr by simp
    then show ?thesis using False j(2) nx(2) cur Suc.prems(3) by (auto simp: drop_msg_loop.simps)
  next
    case True
    let ?mv = "mv \<or> r ! j = r ! c" let ?c = "if ?mv then Suc j else c"
    let ?b = "b\<lparr>m_pCurrBlock := r ! ?c\<rparr>"
    obtain m1 where m1: "m = Suc m1" "m1 = length (takeWhile (\<lambda>p. no = pkt_msgSeq p) (drop (Suc j) (map pkt_of (occupied b r))))"
      using Suc.prems(4) True unfolding dr by simp
    have cc: "?c \<le> nat (m_iCount b)" using j(1) sb_invD(8) [OF i] by simp
    note ib = sb_inv_curr [OF i cc]
    have "drop_msg_loop no b (r ! j) mv len = drop_msg_loop no ?b (r ! Suc j) ?mv (len + 1)"
      using True j(2) nx cur by (subst drop_msg_loop.simps, cases ?mv) (simp_all add: Let_def self)
    also have "\<dots> = Some (?b\<lparr>m_pCurrBlock := r ! (if ?mv \<or> Suc j \<le> ?c \<and> ?c < Suc j + m1 then Suc j + m1 else ?c)\<rparr>,
        r ! (Suc j + m1), len + 1 + int m1)"
      using Suc.hyps(2) j(1) m1(2) ib(2) by (intro Suc.hyps(1) ib(1)) auto
    finally show ?thesis using m1(1) eq Suc.prems(3) by (cases ?mv) (auto simp: algebra_simps)
  qed
qed

text \<open>
  A retransmission by offset: nothing beyond the packets, the same packet again with its time noted, or the
  rest of an expired message to drop, in which case packets of it not sent yet are skipped.
\<close>

theorem readData_rexmit_cases:
  assumes i: "sb_inv b r c" and P: "P = map pkt_of (occupied b r)" and s: "s = sint (SRT_PH_SEQNO (m_nHeader w))"
  shows "length P \<le> k \<Longrightarrow> readData_rexmit now b (int k) w = Some (Read_None, b)"
    "k < length P \<Longrightarrow> \<not> pkt_expired now (P ! k) \<Longrightarrow>
      \<exists>w' b'. readData_rexmit now b (int k) w = Some (Read_Data (int (length (sp_data (P ! k)))) w' (sp_origin (P ! k)), b')
        \<and> sb_inv b' r c \<and> map pkt_of (occupied b' r) = P[k := (P ! k)\<lparr>sp_rexmit := now\<rparr>]
        \<and> packet_bytes b' w' = sp_data (P ! k) \<and> SRT_PH_MSGNO (m_nHeader w') = sp_bits (P ! k)
        \<and> SRT_PH_SEQNO (m_nHeader w') = SRT_PH_SEQNO (m_nHeader w)"
    "k < length P \<Longrightarrow> pkt_expired now (P ! k) \<Longrightarrow>
      n = Suc (length (takeWhile (\<lambda>p. pkt_msgSeq (P ! k) = pkt_msgSeq p) (drop (Suc k) P))) \<Longrightarrow>
      \<exists>b'. readData_rexmit now b (int k) w = Some (Read_Drop \<lparr>dr_begin = s, dr_end = incseq_by s (int n - 1), dr_msgno = pkt_msgSeq (P ! k)\<rparr>, b')
        \<and> sb_inv b' r (if k < c \<and> c < k + n then k + n else c) \<and> map pkt_of (occupied b' r) = P"
proof -
  have lP: "length P = nat (m_iCount b)" using length_occupied [OF i] P by simp
  note d = sb_invD [OF i]
  have r0: "m_pFirstBlock b = r ! 0" using ring_first [of b r] i d(6) by (cases r) (auto simp: sb_inv_def)
  have w: "walk_to k b (m_pFirstBlock b) = Some (r ! min k (nat (m_iCount b)))" using walk_to_ring [OF i, of 0 k] r0 by simp
  show "length P \<le> k \<Longrightarrow> readData_rexmit now b (int k) w = Some (Read_None, b)"
    using w d(7) lP by (simp add: readData_rexmit_def min_absorb2)
  assume k: "k < length P"
  then have k': "k < nat (m_iCount b)" "r ! k \<noteq> m_pLastBlock b" using lP at_last [OF i, of k] by auto
  note nx = next_in_ring [OF i count_in_ring [OF i k'(1)]] and Pk = pkts_nth [OF i k'(1), folded P]
  have wk: "walk_to k b (m_pFirstBlock b) = Some (r ! k)" using w k'(1) by simp
  let ?blk = "m_blocks b ! (r ! k)" let ?b = "b\<lparr>m_blocks := (m_blocks b)[r ! k := ?blk\<lparr>m_tsRexmitTime := now\<rparr>]\<rparr>"
  show "\<exists>w' b'. readData_rexmit now b (int k) w = Some (Read_Data (int (length (sp_data (P ! k)))) w' (sp_origin (P ! k)), b')
        \<and> sb_inv b' r c \<and> map pkt_of (occupied b' r) = P[k := (P ! k)\<lparr>sp_rexmit := now\<rparr>]
        \<and> packet_bytes b' w' = sp_data (P ! k) \<and> SRT_PH_MSGNO (m_nHeader w') = sp_bits (P ! k)
        \<and> SRT_PH_SEQNO (m_nHeader w') = SRT_PH_SEQNO (m_nHeader w)" if "\<not> pkt_expired now (P ! k)"
  proof -
    have e: "\<not> expired now ?blk" using that Pk(1) pkt_of_stamp(2) by simp
    let ?w = "set_msgflags (reflect_data b w (r ! k) ?blk) (m_iMsgNoBitset ?blk)"
    have "readData_rexmit now b (int k) w = Some (Read_Data (int (length (sp_data (P ! k)))) ?w (sp_origin (P ! k)), ?b)"
      using wk k'(2) nx(2) e Pk by (simp add: readData_rexmit_def) (simp add: pkt_of_def)
    moreover have "sb_inv ?b r c" "map pkt_of (occupied ?b r) = P[k := (P ! k)\<lparr>sp_rexmit := now\<rparr>]"
      using sb_inv_update [OF i k'(1), of "?blk\<lparr>m_tsRexmitTime := now\<rparr>"] Pk(1) unfolding P
      by (simp_all add: map_update) (simp add: pkt_of_def)
    moreover have "packet_bytes ?b ?w = sp_data (P ! k)" "SRT_PH_MSGNO (m_nHeader ?w) = sp_bits (P ! k)"
      "SRT_PH_SEQNO (m_nHeader ?w) = SRT_PH_SEQNO (m_nHeader w)"
      unfolding Pk(1) using nx(2) by (simp_all add: packet_bytes_def set_msgflags_def reflect_data_def setLength_cap_def setLength_def getLength_def pkt_of_def)
    ultimately show ?thesis by blast
  qed
  show "\<exists>b'. readData_rexmit now b (int k) w = Some (Read_Drop \<lparr>dr_begin = s, dr_end = incseq_by s (int n - 1), dr_msgno = pkt_msgSeq (P ! k)\<rparr>, b')
        \<and> sb_inv b' r (if k < c \<and> c < k + n then k + n else c) \<and> map pkt_of (occupied b' r) = P"
    if ex: "pkt_expired now (P ! k)" and n: "n = Suc (length (takeWhile (\<lambda>p. pkt_msgSeq (P ! k) = pkt_msgSeq p) (drop (Suc k) P)))"
  proof -
    have e: "expired now ?blk" using ex Pk(1) pkt_of_stamp(2) by simp
    let ?c = "if k < c \<and> c < k + n then k + n else c"
    have n1: "n - 1 = length (takeWhile (\<lambda>p. block_msgSeq ?blk = pkt_msgSeq p) (drop (Suc k) (map pkt_of (occupied b r))))"
      using n Pk(1) by (simp add: P [symmetric])
    have ns: "Suc k + (n - 1) = k + n" "1 + int (n - 1) = int n" using n by simp_all
    have "drop_msg_loop (block_msgSeq ?blk) b (r ! Suc k) False 1 = Some (b\<lparr>m_pCurrBlock := r ! ?c\<rparr>, r ! (k + n), int n)"
      using drop_msg_loop_ring [OF i _ _ n1, of False 1] k'(1) ns by (simp add: Suc_le_eq)
    then have "readData_rexmit now b (int k) w = Some (Read_Drop \<lparr>dr_begin = s, dr_end = incseq_by s (int n - 1), dr_msgno = pkt_msgSeq (P ! k)\<rparr>,
        b\<lparr>m_pCurrBlock := r ! ?c\<rparr>)"
      using wk k'(2) nx e s Pk(1) by (simp add: readData_rexmit_def Let_def)
    moreover have "n \<le> length P - k" using n k length_takeWhile_le [of _ "drop (Suc k) P"] by (simp add: le_diff_conv2 le_trans Suc_diff_Suc)
    then have "?c \<le> nat (m_iCount b)" using k lP d(8) by auto
    ultimately show ?thesis using sb_inv_curr [OF i] P by metis
  qed
qed

end
