(* ===== verification/SndBufferSpec.thy ===== *)
theory SndBufferSpec
  imports SndBufferOps
begin

text \<open>
  What the sender buffer promises: a message goes in as packets that carry its bytes, consecutive numbers
  and the boundary marks; a first reading takes the next packet whose time has not passed; a
  retransmission hands out the same packet; and whatever is submitted, released and read, the packets
  that left the buffer and those still in it carry the submitted bytes in order.
\<close>

section \<open>The new buffer\<close>

lemma upt_path:
  assumes "\<And>i. i < n \<Longrightarrow> m_pNext (bs ! i) = (if Suc i < n then Suc i else 0)" "length bs = n" "k \<le> n" "0 < n"
  shows "path bs (if k < n then k else 0) [k..<n] 0"
  using assms(3)
proof (induction "n - k" arbitrary: k)
  case (Suc j)
  then have "[k..<n] = k # [Suc k..<n]" "path bs (if Suc k < n then Suc k else 0) [Suc k..<n] 0" by (simp_all add: upt_conv_Cons)
  then show ?case using Suc.hyps(2) assms(1,2) by simp
qed simp

lemma CSndBuffer_inv:
  assumes "0 < n" "0 \<le> authtag" "authtag < maxpld"
  shows "sb_inv (CSndBuffer raw n maxpld authtag) [0..<n] 0" "occupied (CSndBuffer raw n maxpld authtag) [0..<n] = []"
proof -
  let ?b = "CSndBuffer raw n maxpld authtag"
  show o: "occupied ?b [0..<n] = []" by (simp add: occupied_def CSndBuffer_def)
  have "path (m_blocks ?b) 0 [0..<n] 0"
    using upt_path [of n "m_blocks ?b" 0] assms(1) by (simp add: CSndBuffer_def less_diff_conv)
  then have "ring ?b [0..<n]" by (simp add: ring_def CSndBuffer_def)
  then show "sb_inv ?b [0..<n] 0" using o assms by (simp add: sb_inv_def) (simp add: CSndBuffer_def getMaxPacketLen_def)
qed

section \<open>Boundary marks\<close>

lemma bit_msgno_bits:
  "bit (msgno_bits base i n) k \<longleftrightarrow> bit base k \<or> k = 31 \<and> i = 0 \<or> k = 30 \<and> i = n - 1"
proof -
  have f: "PacketBoundaryBits PB_FIRST = push_bit 31 1" "PacketBoundaryBits PB_LAST = push_bit 30 1" by code_simp+
  have b: "bit (push_bit m (1 :: 32 word)) k \<longleftrightarrow> k = m" if "m < 32" for m
    using that by (simp only: bit_push_bit_iff bit_1_iff possible_bit_word) auto
  show ?thesis by (cases "i = 0"; cases "i = n - 1") (simp_all only: msgno_bits_def f bit_or_iff Let_def if_True if_False b simp_thms, auto simp: b)
qed

lemma small_msgno_bits:
  fixes no :: "32 word"
  assumes "uint no < 2 ^ 26" "26 \<le> k"
  shows "\<not> bit no k"
proof -
  have "uint no < 2 ^ k" using assms(1) power_increasing [OF assms(2), of "2 :: int"] by linarith
  then have "\<not> bit (uint no) k" by (simp add: bit_iff_odd)
  then show ?thesis by (auto simp: bit_uint_iff dest: bit_imp_le_length)
qed

lemma split_message_nth:
  assumes "0 < plen" "pkts = split_message plen base ttl otime seq dat" "i < length pkts"
  shows "sp_seq (pkts ! i) = wrapseq (seq + int i)" "sp_bits (pkts ! i) = msgno_bits base (int i) (int (length pkts))"
    "sp_origin (pkts ! i) = otime" "sp_ttl (pkts ! i) = ttl" "length (sp_data (pkts ! i)) \<le> nat plen"
proof -
  have n: "length pkts = nat (countNumPacketsRequired (int (length dat)) plen)" by (simp add: assms(2) split_message_def Let_def)
  then have "pkts ! i = \<lparr>sp_data = map Some (take (nat plen) (drop (i * nat plen) dat)), sp_bits = msgno_bits base (int i) (int (length pkts)),
      sp_seq = wrapseq (seq + int i), sp_origin = otime, sp_rexmit = 0, sp_ttl = ttl\<rparr>"
    using assms(3) by (simp add: assms(2) split_message_def Let_def)
  then show "sp_seq (pkts ! i) = wrapseq (seq + int i)" "sp_bits (pkts ! i) = msgno_bits base (int i) (int (length pkts))"
    "sp_origin (pkts ! i) = otime" "sp_ttl (pkts ! i) = ttl" "length (sp_data (pkts ! i)) \<le> nat plen" by simp_all
qed

lemma split_message_nonempty: "0 < plen \<Longrightarrow> dat \<noteq> [] \<Longrightarrow> split_message plen base ttl otime seq dat \<noteq> []"
  using split_message_data [of plen base ttl otime seq dat] by auto

text \<open>A base of the message field: a message number and the order flag, no marks.\<close>

lemma base_bits:
  fixes no :: "32 word"
  assumes "uint no < 2 ^ 26" "k = 30 \<or> k = 31"
  shows "\<not> bit (no OR (if io then BitsetMask 29 29 else 0)) k"
  using assms small_msgno_bits [OF assms(1), of k] bit_BitsetMask [of 29 29 k] by (auto simp: bit_or_iff)

section \<open>Sequences of operations\<close>

text \<open>
  An interface of a queue of packets: submitting appends packets that carry the submitted content, releasing
  removes a prefix, and other operations leave the payloads alone.
\<close>

datatype ('m, 't) fifo_op = Submit 'm | Release nat | Touch 't

fun fifo_step :: "('s \<Rightarrow> 'm \<Rightarrow> 's option) \<Rightarrow> ('s \<Rightarrow> nat \<Rightarrow> 's option) \<Rightarrow> ('t \<Rightarrow> 's \<Rightarrow> 's option) \<Rightarrow> ('m, 't) fifo_op \<Rightarrow> 's \<Rightarrow> 's option" where
  "fifo_step sub rel tch (Submit m) s = sub s m"
| "fifo_step sub rel tch (Release k) s = rel s k"
| "fifo_step sub rel tch (Touch t) s = tch t s"

fun fifo_run :: "('s \<Rightarrow> 'm \<Rightarrow> 's option) \<Rightarrow> ('s \<Rightarrow> nat \<Rightarrow> 's option) \<Rightarrow> ('t \<Rightarrow> 's \<Rightarrow> 's option) \<Rightarrow> ('m, 't) fifo_op list \<Rightarrow> 's \<Rightarrow> 's option" where
  "fifo_run sub rel tch [] s = Some s"
| "fifo_run sub rel tch (op # ops) s = Option.bind (fifo_step sub rel tch op s) (fifo_run sub rel tch ops)"

text \<open>Messages are fit to be submitted, and no more packets are released than there are.\<close>

fun op_allowed :: "('m \<Rightarrow> bool) \<Rightarrow> ('s \<Rightarrow> nat) \<Rightarrow> ('m, 't) fifo_op \<Rightarrow> 's \<Rightarrow> bool" where
  "op_allowed fine cnt (Submit m) s \<longleftrightarrow> fine m"
| "op_allowed fine cnt (Release k) s \<longleftrightarrow> k \<le> cnt s"
| "op_allowed fine cnt (Touch t) s \<longleftrightarrow> True"

fun fifo_ok :: "('s \<Rightarrow> 'm \<Rightarrow> 's option) \<Rightarrow> ('s \<Rightarrow> nat \<Rightarrow> 's option) \<Rightarrow> ('t \<Rightarrow> 's \<Rightarrow> 's option) \<Rightarrow> ('m \<Rightarrow> bool) \<Rightarrow> ('s \<Rightarrow> nat)
    \<Rightarrow> ('m, 't) fifo_op list \<Rightarrow> 's \<Rightarrow> bool" where
  "fifo_ok sub rel tch fine cnt [] s \<longleftrightarrow> True"
| "fifo_ok sub rel tch fine cnt (op # ops) s \<longleftrightarrow> op_allowed fine cnt op s
     \<and> (case fifo_step sub rel tch op s of None \<Rightarrow> True | Some s' \<Rightarrow> fifo_ok sub rel tch fine cnt ops s')"

fun submitted :: "('m \<Rightarrow> 'd list) \<Rightarrow> ('m, 't) fifo_op list \<Rightarrow> 'd list" where
  "submitted con [] = []"
| "submitted con (Submit m # ops) = con m @ submitted con ops"
| "submitted con (op # ops) = submitted con ops"

fun released :: "('m, 't) fifo_op list \<Rightarrow> nat" where
  "released [] = 0"
| "released (Release k # ops) = k + released ops"
| "released (op # ops) = released ops"

locale packet_fifo =
  fixes repr :: "'s \<Rightarrow> 'd list list \<Rightarrow> bool"
    and submit :: "'s \<Rightarrow> 'm \<Rightarrow> 's option"
    and fine :: "'m \<Rightarrow> bool"
    and content :: "'m \<Rightarrow> 'd list"
    and release :: "'s \<Rightarrow> nat \<Rightarrow> 's option"
    and touch :: "'t \<Rightarrow> 's \<Rightarrow> 's option"
    and count :: "'s \<Rightarrow> nat"
  assumes submit_appends: "repr s xs \<Longrightarrow> fine m \<Longrightarrow> \<exists>s' ys. submit s m = Some s' \<and> repr s' (xs @ ys) \<and> concat ys = content m"
    and release_drops: "repr s xs \<Longrightarrow> k \<le> length xs \<Longrightarrow> \<exists>s'. release s k = Some s' \<and> repr s' (drop k xs)"
    and touch_keeps: "repr s xs \<Longrightarrow> \<exists>s'. touch t s = Some s' \<and> repr s' xs"
    and count_length: "repr s xs \<Longrightarrow> count s = length xs"
begin

lemma step_conserves:
  assumes "repr s xs" "op_allowed fine count op s"
  obtains s' ys where "fifo_step submit release touch op s = Some s'" "repr s' (drop (released [op]) xs @ ys)"
    "concat ys = submitted content [op]" "released [op] \<le> length xs"
proof (cases op)
  case (Submit m)
  with submit_appends [OF assms(1)] assms(2) that show ?thesis by fastforce
next
  case (Release k)
  with release_drops [OF assms(1)] count_length [OF assms(1)] assms(2) that [of _ "[]"] show ?thesis by fastforce
next
  case (Touch t)
  with touch_keeps [OF assms(1), of t] that [of _ "[]"] show ?thesis by fastforce
qed

text \<open>A run returns, and the packets released together with those that remain carry what was submitted, in order.\<close>

lemma run_conserves:
  assumes "repr s xs" "fifo_ok submit release touch fine count ops s"
  shows "\<exists>s' gone ys. fifo_run submit release touch ops s = Some s' \<and> length gone = released ops \<and> repr s' ys
    \<and> concat (gone @ ys) = concat xs @ submitted content ops"
  using assms
proof (induction ops arbitrary: s xs)
  case Nil
  then show ?case by auto
next
  case (Cons op ops)
  obtain s1 ys where s1: "fifo_step submit release touch op s = Some s1" "repr s1 (drop (released [op]) xs @ ys)"
    "concat ys = submitted content [op]" "released [op] \<le> length xs"
    by (rule step_conserves [OF Cons.prems(1), of op]) (use Cons.prems(2) in auto)
  obtain s' gone zs where g: "fifo_run submit release touch ops s1 = Some s'" "length gone = released ops" "repr s' zs"
    "concat (gone @ zs) = concat (drop (released [op]) xs @ ys) @ submitted content ops"
    using Cons.IH [OF s1(2)] Cons.prems(2) s1(1) by auto
  have "concat ((take (released [op]) xs @ gone) @ zs) = concat (take (released [op]) xs) @ concat (drop (released [op]) xs) @ concat ys @ submitted content ops"
    using g(4) by simp
  also have "\<dots> = concat xs @ submitted content (op # ops)"
    unfolding s1(3) by (cases op) (simp_all add: concat_append [symmetric] del: concat_append)
  finally have "concat ((take (released [op]) xs @ gone) @ zs) = concat xs @ submitted content (op # ops)" .
  moreover have "length (take (released [op]) xs @ gone) = released (op # ops)" using s1(4) g(2) by (cases op) simp_all
  ultimately show ?case using g(1,3) s1(1) by (metis bind.bind_lunit fifo_run.simps(2))
qed

end


section \<open>The sender buffer as a queue of packets\<close>

definition holds_payloads :: "snd_buffer \<Rightarrow> byte option list list \<Rightarrow> bool" where
  "holds_payloads b xs \<longleftrightarrow> (\<exists>r c. sb_inv b r c \<and> xs = map sp_data (map pkt_of (occupied b r)))"

definition sb_submit :: "snd_buffer \<Rightarrow> (addr \<Rightarrow> block) \<times> int \<times> byte list \<times> snd_msgctrl \<Rightarrow> snd_buffer option" where
  "sb_submit b m = (case m of (raw, tnow, dat, mc) \<Rightarrow> map_option fst (addBuffer raw tnow b dat mc))"

definition sb_fit :: "(addr \<Rightarrow> block) \<times> int \<times> byte list \<times> snd_msgctrl \<Rightarrow> bool" where
  "sb_fit m = (case m of (raw, tnow, dat, mc) \<Rightarrow> valid_seq (pktseq mc))"

definition sb_content :: "(addr \<Rightarrow> block) \<times> int \<times> byte list \<times> snd_msgctrl \<Rightarrow> byte option list" where
  "sb_content m = (case m of (raw, tnow, dat, mc) \<Rightarrow> map Some dat)"

definition sb_release :: "snd_buffer \<Rightarrow> nat \<Rightarrow> snd_buffer option" where
  "sb_release b k = ackData b (int k)"

definition sb_count :: "snd_buffer \<Rightarrow> nat" where
  "sb_count b = nat (m_iCount b)"

datatype sb_read = FirstRead int int packet | Rexmit int nat packet

fun sb_touch :: "sb_read \<Rightarrow> snd_buffer \<Rightarrow> snd_buffer option" where
  "sb_touch (FirstRead now kflgs w) b = map_option (\<lambda>r. snd (snd (snd (snd r)))) (readData now kflgs b w 0)"
| "sb_touch (Rexmit now k w) b = map_option snd (readData_rexmit now b (int k) w)"

lemma stamp_data [simp]: "sp_data (stamp k p) = sp_data p"
  by (simp add: stamp_def)

lemma map_sp_data_stamp: "map sp_data (take c P @ map (stamp k) (take s (drop c P)) @ drop (c + s) P) = map sp_data P"
proof -
  have "P = take c P @ take s (drop c P) @ drop (c + s) P" by (metis append_take_drop_id drop_drop add.commute)
  then have "map sp_data P = map sp_data (take c P) @ map sp_data (take s (drop c P)) @ map sp_data (drop (c + s) P)"
    by (metis map_append)
  then show ?thesis by simp
qed

lemma sb_touch_keeps:
  assumes i: "sb_inv b r c" and that: "xs = map sp_data (map pkt_of (occupied b r))"
  shows "\<exists>b'. sb_touch t b = Some b' \<and> (\<exists>r c. sb_inv b' r c \<and> xs = map sp_data (map pkt_of (occupied b' r)))"
proof (cases t)
  case (FirstRead now kflgs w)
  define P where "P = map pkt_of (occupied b r)"
  define s where "s = length (takeWhile (pkt_expired now) (drop c P))"
  from readData_loop_spec [OF i P_def s_def, of kflgs 0 w 0 0] obtain l w' t' b' where
    b': "readData_loop now kflgs b 0 w 0 0 = Some (l, w', t', 0 + int s, b')" "sb_inv b' r (min (c + Suc s) (length P))"
      "map pkt_of (occupied b' r) = take c P @ map (stamp kflgs) (take (Suc s) (drop c P)) @ drop (c + Suc s) P" by blast
  have "xs = map sp_data (map pkt_of (occupied b' r))" unfolding b'(3) map_sp_data_stamp that P_def ..
  then show ?thesis using b'(1,2) FirstRead by (auto simp: readData_def)
next
  case (Rexmit now k w)
  let ?P = "map pkt_of (occupied b r)"
  note rx = readData_rexmit_cases [OF i refl refl, where k = k and w = w and now = now]
  consider "length ?P \<le> k" | "k < length ?P" "\<not> pkt_expired now (?P ! k)" | "k < length ?P" "pkt_expired now (?P ! k)" by linarith
  then show ?thesis
  proof cases
    case 1
    with rx(1) i that Rexmit show ?thesis by auto
  next
    case 2
    from rx(2) [OF this] obtain w' b' where b': "readData_rexmit now b (int k) w = Some (Read_Data (int (length (sp_data (?P ! k)))) w' (sp_origin (?P ! k)), b')"
      "sb_inv b' r c" "map pkt_of (occupied b' r) = ?P[k := (?P ! k)\<lparr>sp_rexmit := now\<rparr>]" by blast
    have "xs = map sp_data (map pkt_of (occupied b' r))" unfolding b'(3) that map_update by (rule sym, rule list_update_same_conv [THEN iffD2]) (use 2(1) in simp_all)
    then show ?thesis using b'(1,2) Rexmit by auto
  next
    case 3
    from rx(3) [OF this refl] obtain res b' c' where "readData_rexmit now b (int k) w = Some (res, b')" "sb_inv b' r c'"
      "map pkt_of (occupied b' r) = ?P" by blast
    then show ?thesis using that Rexmit by (fastforce simp del: map_map)
  qed
qed

interpretation sb: packet_fifo holds_payloads sb_submit sb_fit sb_content sb_release sb_touch sb_count
proof
  show "\<exists>b' ys. sb_submit b m = Some b' \<and> holds_payloads b' (xs @ ys) \<and> concat ys = sb_content m"
    if r: "holds_payloads b xs" and f: "sb_fit m" for b xs m
  proof -
    obtain raw tnow dat mc where m: "m = (raw, tnow, dat, mc)" by (cases m)
    obtain r c where i: "sb_inv b r c" "xs = map sp_data (map pkt_of (occupied b r))" using r by (auto simp: holds_payloads_def)
    from addBuffer_splits [OF i(1) _ refl refl refl, of mc raw tnow dat] f
    show ?thesis using split_message_data [OF sb_invD(10) [OF i(1)]] i(2)
      unfolding m sb_fit_def sb_submit_def sb_content_def holds_payloads_def sb_abs_def
      by (fastforce simp del: map_map)
  qed
  show "\<exists>b'. sb_release b k = Some b' \<and> holds_payloads b' (drop k xs)" if r: "holds_payloads b xs" and k: "k \<le> length xs" for b xs k
  proof -
    obtain r c where i: "sb_inv b r c" "xs = map sp_data (map pkt_of (occupied b r))" using r by (auto simp: holds_payloads_def)
    with k length_occupied [OF i(1)] have "k \<le> nat (m_iCount b)" by simp
    from ackData_drops [OF i(1) this] show ?thesis unfolding sb_release_def holds_payloads_def i(2) drop_map by metis
  qed
  show "\<exists>b'. sb_touch t b = Some b' \<and> holds_payloads b' xs" if "holds_payloads b xs" for b xs t
    using that sb_touch_keeps unfolding holds_payloads_def by metis
  show "sb_count b = length xs" if "holds_payloads b xs" for b xs
    using that length_occupied by (auto simp: holds_payloads_def sb_count_def)
qed

section \<open>Properties\<close>

text \<open>The initial buffer of the examples: two blocks of three bytes whose uninitialised fields are arbitrary.\<close>

definition sample_ctrl :: "int \<Rightarrow> snd_msgctrl" where
  "sample_ctrl seq = \<lparr>msgttl = -1, inorder = True, srctime = 0, pktseq = seq, msgno = SRT_MSGNO_NONE\<rparr>"

definition raw0 :: "addr \<Rightarrow> block" where
  "raw0 p = \<lparr>m_pcData = [], m_iLength = 77, m_iMsgNoBitset = 77, m_iSeqNo = 77, m_tsOriginTime = 77, m_tsRexmitTime = 77,
     m_iTTL = 77, m_pNext = 77\<rparr>"

lemmas sample_inv = CSndBuffer_inv [of 2 0 3]

lemma sample_buffer [simp]:
  "getMaxPacketLen (CSndBuffer raw 2 3 0) = 3" "m_iNextMsgNo (CSndBuffer raw 2 3 0) = 1"
  by (simp_all add: getMaxPacketLen_def CSndBuffer_def)

text \<open>
  C16. Refinement of submitting a message: \<open>addBuffer\<close> always returns, growing the ring of blocks as far as needed, and
  appends to the queue packets that carry exactly the bytes of the message, none longer than the maximum, with
  consecutive sequence numbers from the given one on (across the wrap), the given message number and order flag, the
  origin time and the time to live; the first packet and only the first is marked as first, the last and only the last
  as last. The caller gets back the number after the last packet, the origin time and the message number.
\<close>

theorem addBuffer_appends_message:
  assumes i: "sb_inv b r c" and s: "valid_seq (pktseq mc)" and d: "dat \<noteq> []"
    and no: "no = (if msgno mc = SRT_MSGNO_NONE then m_iNextMsgNo b else msgno mc)" "uint no < 2 ^ 26"
    and o: "otime = (if srctime mc \<noteq> 0 then srctime mc else tnow)"
  shows "\<exists>b' r' pkts. addBuffer raw tnow b dat mc
        = Some (b', mc\<lparr>srctime := otime, pktseq := wrapseq (pktseq mc + int (length pkts)), msgno := no\<rparr>)
    \<and> sb_inv b' r' c \<and> sb_abs b' r' c = (sb_abs b r c)\<lparr>sq_pkts := sq_pkts (sb_abs b r c) @ pkts\<rparr>
    \<and> pkts \<noteq> [] \<and> concat (map sp_data pkts) = map Some dat
    \<and> (\<forall>i < length pkts. length (sp_data (pkts ! i)) \<le> nat (getMaxPacketLen b) \<and> sp_seq (pkts ! i) = wrapseq (pktseq mc + int i)
         \<and> pkt_msgSeq (pkts ! i) = no AND BitsetMask 25 0 \<and> bit (sp_bits (pkts ! i)) 29 = inorder mc
         \<and> bit (sp_bits (pkts ! i)) 31 = (i = 0) \<and> bit (sp_bits (pkts ! i)) 30 = (Suc i = length pkts)
         \<and> sp_origin (pkts ! i) = otime \<and> sp_ttl (pkts ! i) = msgttl mc)"
proof -
  let ?base = "no OR (if inorder mc then BitsetMask 29 29 else 0)"
  define pkts where "pkts = split_message (getMaxPacketLen b) ?base (msgttl mc) otime (pktseq mc) dat"
  note p0 = sb_invD(10) [OF i]
  note nth = split_message_nth [OF p0 pkts_def]
  have m: "pkt_msgSeq (pkts ! k) = no AND BitsetMask 25 0" if "k < length pkts" for k
    unfolding pkt_msgSeq_def nth(2) [OF that]
    by (rule bit_eqI) (auto simp: bit_and_iff bit_msgno_bits bit_or_iff bit_BitsetMask)
  have "bit (sp_bits (pkts ! k)) 29 = inorder mc" "bit (sp_bits (pkts ! k)) 31 = (k = 0)" "bit (sp_bits (pkts ! k)) 30 = (Suc k = length pkts)"
    if "k < length pkts" for k
    unfolding nth(2) [OF that] bit_msgno_bits using base_bits [OF no(2)] small_msgno_bits [OF no(2), of 29]
    by (auto simp: bit_or_iff bit_BitsetMask)
  then have "\<forall>i < length pkts. length (sp_data (pkts ! i)) \<le> nat (getMaxPacketLen b) \<and> sp_seq (pkts ! i) = wrapseq (pktseq mc + int i)
         \<and> pkt_msgSeq (pkts ! i) = no AND BitsetMask 25 0 \<and> bit (sp_bits (pkts ! i)) 29 = inorder mc
         \<and> bit (sp_bits (pkts ! i)) 31 = (i = 0) \<and> bit (sp_bits (pkts ! i)) 30 = (Suc i = length pkts)
         \<and> sp_origin (pkts ! i) = otime \<and> sp_ttl (pkts ! i) = msgttl mc" using nth m by auto
  moreover have "concat (map sp_data pkts) = map Some dat" unfolding pkts_def by (rule split_message_data [OF p0])
  moreover have "pkts \<noteq> []" unfolding pkts_def by (rule split_message_nonempty [OF p0 d])
  ultimately show ?thesis using addBuffer_splits [OF i s o no(1) pkts_def, of raw] by blast
qed

theorem addBuffer_appends_message_witness:
  "\<exists>b' r' pkts. addBuffer raw0 5 (CSndBuffer raw0 2 3 0) [1, 2, 3, 4, 5, 6, 7] (sample_ctrl 0x7FFFFFFF)
        = Some (b', (sample_ctrl 0x7FFFFFFF)\<lparr>srctime := 5, pktseq := wrapseq (0x7FFFFFFF + int (length pkts)), msgno := 1\<rparr>)
    \<and> sb_inv b' r' 0 \<and> concat (map sp_data (pkts :: snd_pkt list)) = map Some [1, 2, 3, 4, 5, 6, 7]"
proof -
  have "valid_seq 0x7FFFFFFF" by (simp add: valid_seq_def seqno_const_defs)
  from addBuffer_appends_message [OF sample_inv(1), where mc = "sample_ctrl 0x7FFFFFFF" and dat = "[1, 2, 3, 4, 5, 6, 7]"
      and no = 1 and otime = 5 and tnow = 5 and raw = raw0 and raw1 = raw0] this
  show ?thesis by (simp add: sample_ctrl_def) blast
qed

text \<open>
  The first reading of \<open>readData\<close> always returns. Packets whose time to live has passed are skipped and counted; the
  next one is handed out with its payload, sequence number, message field with the key flag set, and origin time,
  or with length 0 if no key is available; the sent mark moves behind it. The payloads, numbers and times of the
  queue stay as they are, and the flag is remembered for retransmissions.
\<close>

theorem readData_next_unexpired:
  assumes "sb_inv b r c" "P = sq_pkts (sb_abs b r c)" "s = length (takeWhile (pkt_expired now) (drop c P))"
  shows "\<exists>len w' t' b'. readData now kflgs b w t = Some (len, w', t', int s, b')
    \<and> sb_inv b' r (min (c + Suc s) (length P))
    \<and> sq_pkts (sb_abs b' r c) = take c P @ map (stamp kflgs) (take (Suc s) (drop c P)) @ drop (c + Suc s) P
    \<and> (if c + s < length P then reads_packet kflgs b' len w' t' (P ! (c + s)) else len = 0)"
proof -
  have P: "P = map pkt_of (occupied b r)" using assms(2) by (simp add: sb_abs_def)
  have "c \<le> length P" using sb_invD(8) [OF assms(1)] length_occupied [OF assms(1)] P by simp
  then have "c + s \<le> length P" using assms(3) length_takeWhile_le [of "pkt_expired now" "drop c P"] by simp
  moreover obtain len w' t' b' where "readData now kflgs b w t = Some (len, w', t', int s, b')"
    "sb_inv b' r (min (c + Suc s) (length P))"
    "map pkt_of (occupied b' r) = take c P @ map (stamp kflgs) (take (Suc s) (drop c P)) @ drop (c + Suc s) P"
    "c + s = length P \<longrightarrow> len = 0" "c + s < length P \<longrightarrow> reads_packet kflgs b' len w' t' (P ! (c + s))"
    using readData_loop_spec [OF assms(1) P assms(3), of kflgs 0 w t 0] by (auto simp: readData_def)
  ultimately show ?thesis by (intro exI [of _ len] exI [of _ w'] exI [of _ t'] exI [of _ b']) (simp add: sb_abs_def)
qed

text \<open>A buffer with one packet, its time to live given.\<close>

lemma sample_filled:
  obtains b r where "addBuffer raw0 5 (CSndBuffer raw0 2 3 0) [1, 2] ((sample_ctrl 7)\<lparr>msgttl := ttl\<rparr>)
      = Some (b, (sample_ctrl 7)\<lparr>msgttl := ttl, srctime := 5, pktseq := 8, msgno := 1\<rparr>)" "sb_inv b r 0"
    "sq_pkts (sb_abs b r 0) = [\<lparr>sp_data = [Some 1, Some 2], sp_bits = 0xE0000001, sp_seq = 7, sp_origin = 5, sp_rexmit = 0, sp_ttl = ttl\<rparr>]"
proof -
  have v: "valid_seq 7" by (simp add: valid_seq_def seqno_const_defs)
  have bits: "msgno_bits (1 OR BitsetMask 29 29) 0 1 = 0xE0000001" by code_simp
  have sm: "split_message 3 (1 OR BitsetMask 29 29) ttl 5 7 [1, 2]
      = [\<lparr>sp_data = [Some 1, Some 2], sp_bits = 0xE0000001, sp_seq = 7, sp_origin = 5, sp_rexmit = 0, sp_ttl = ttl\<rparr>]"
    using bits by (simp add: split_message_def countNumPacketsRequired_def wrapseq_id [OF v])
  have w: "wrapseq 8 = 8" by (rule wrapseq_id) (simp add: valid_seq_def seqno_const_defs)
  from addBuffer_splits [OF sample_inv(1) [of raw0] _ refl refl refl, where mc = "(sample_ctrl 7)\<lparr>msgttl := ttl\<rparr>" and tnow = 5 and dat = "[1, 2]" and raw = raw0] v that show ?thesis
    unfolding sb_abs_def using sample_inv(2) [of raw0] sm w by (auto simp: sample_ctrl_def)
qed

theorem readData_next_unexpired_witness:
  "\<exists>b b' b'' w w' t t'. addBuffer raw0 5 (CSndBuffer raw0 2 3 0) [1, 2] (sample_ctrl 7) = Some b
    \<and> readData 10 1 (fst b) CPacket 0 = Some (2, w, t, 0, b') \<and> packet_bytes b' w = [Some 1, Some 2]
    \<and> readData 10 1 b' CPacket 0 = Some (0, w', t', 0, b'')"
proof -
  obtain b r where b: "addBuffer raw0 5 (CSndBuffer raw0 2 3 0) [1, 2] ((sample_ctrl 7)\<lparr>msgttl := -1\<rparr>)
      = Some (b, (sample_ctrl 7)\<lparr>msgttl := -1, srctime := 5, pktseq := 8, msgno := 1\<rparr>)" "sb_inv b r 0"
    "sq_pkts (sb_abs b r 0) = [\<lparr>sp_data = [Some 1, Some 2], sp_bits = 0xE0000001, sp_seq = 7, sp_origin = 5, sp_rexmit = 0, sp_ttl = -1\<rparr>]"
    by (rule sample_filled)
  have ctrl: "(sample_ctrl 7)\<lparr>msgttl := -1\<rparr> = sample_ctrl 7" by (simp add: sample_ctrl_def)
  from readData_next_unexpired [OF b(2) b(3) [symmetric] refl, of 10 1 CPacket 0] obtain w t b' where
    b': "readData 10 1 b CPacket 0 = Some (2, w, t, 0, b')" "sb_inv b' r 1" "packet_bytes b' w = [Some 1, Some 2]"
      "length (sq_pkts (sb_abs b' r 1)) = 1"
    by (auto simp: pkt_expired_def reads_packet_def sb_abs_def)
  from readData_next_unexpired [OF b'(2) refl refl, of 10 1 CPacket 0] b'(4) obtain w' t' b'' where
    "readData 10 1 b' CPacket 0 = Some (0, w', t', 0, b'')" by auto
  then show ?thesis using b(1) b'(1,3) unfolding ctrl by fastforce
qed

text \<open>
  Retransmission by offset: an offset beyond the packets gives \<open>READ_NONE\<close>; a packet whose time has not passed is handed
  out again with its payload and message field, the number set by the caller, and the time of the retransmission is
  noted; for an expired packet the caller gets the numbers of the rest of its message to drop, and the sent mark moves
  past those of them not sent yet. The payloads, numbers and marks in the queue never change.
\<close>

theorem rexmit_same_packet:
  assumes i: "sb_inv b r c" and P: "P = sq_pkts (sb_abs b r c)"
  shows "\<exists>res b'. readData_rexmit now b (int k) w = Some (res, b') \<and>
    (case res of
       Read_None \<Rightarrow> length P \<le> k \<and> b' = b
     | Read_Data len w' t \<Rightarrow> k < length P \<and> \<not> pkt_expired now (P ! k) \<and> len = int (length (sp_data (P ! k)))
         \<and> packet_bytes b' w' = sp_data (P ! k) \<and> SRT_PH_MSGNO (m_nHeader w') = sp_bits (P ! k)
         \<and> SRT_PH_SEQNO (m_nHeader w') = SRT_PH_SEQNO (m_nHeader w) \<and> t = sp_origin (P ! k)
         \<and> sb_inv b' r c \<and> sq_pkts (sb_abs b' r c) = P[k := (P ! k)\<lparr>sp_rexmit := now\<rparr>] \<and> getPacketRexmitTime b' (int k) = Some now
     | Read_Drop d \<Rightarrow> k < length P \<and> pkt_expired now (P ! k) \<and> dr_msgno d = pkt_msgSeq (P ! k)
         \<and> (\<exists>n. n = Suc (length (takeWhile (\<lambda>p. pkt_msgSeq (P ! k) = pkt_msgSeq p) (drop (Suc k) P)))
              \<and> dr_begin d = sint (SRT_PH_SEQNO (m_nHeader w)) \<and> dr_end d = incseq_by (dr_begin d) (int n - 1)
              \<and> sb_inv b' r (if k < c \<and> c < k + n then k + n else c) \<and> sq_pkts (sb_abs b' r c) = P))"
proof -
  have P': "P = map pkt_of (occupied b r)" using P by (simp add: sb_abs_def)
  note rx = readData_rexmit_cases [OF i P' refl, where k = k and w = w and now = now]
  consider "length P \<le> k" | "k < length P" "\<not> pkt_expired now (P ! k)" | "k < length P" "pkt_expired now (P ! k)" by linarith
  then show ?thesis
  proof cases
    case 1
    with rx(1) show ?thesis by auto
  next
    case 2
    from rx(2) [OF this] obtain w' b' where b': "readData_rexmit now b (int k) w = Some (Read_Data (int (length (sp_data (P ! k)))) w' (sp_origin (P ! k)), b')"
      "sb_inv b' r c" "map pkt_of (occupied b' r) = P[k := (P ! k)\<lparr>sp_rexmit := now\<rparr>]" "packet_bytes b' w' = sp_data (P ! k)"
      "SRT_PH_MSGNO (m_nHeader w') = sp_bits (P ! k)" "SRT_PH_SEQNO (m_nHeader w') = SRT_PH_SEQNO (m_nHeader w)" by blast
    have k: "k < nat (m_iCount b')" using arg_cong [OF b'(3), of length] 2(1) length_occupied [OF b'(2)] by simp
    have "pkt_of (m_blocks b' ! (r ! k)) = (P ! k)\<lparr>sp_rexmit := now\<rparr>" using pkts_nth(1) [OF b'(2) k] b'(3) 2(1) by simp
    then have "m_tsRexmitTime (m_blocks b' ! (r ! k)) = now" by (simp add: pkt_of_def) (metis snd_pkt.select_convs(5) snd_pkt.surjective snd_pkt.update_convs(5))
    then have "getPacketRexmitTime b' (int k) = Some now"
      using walk_ring [OF b'(2), of k] next_in_ring(2) [OF b'(2) count_in_ring [OF b'(2) k]] k by (simp add: getPacketRexmitTime_def)
    then show ?thesis using b' 2 by (simp add: sb_abs_def)
  next
    case 3
    define n where "n = Suc (length (takeWhile (\<lambda>p. pkt_msgSeq (P ! k) = pkt_msgSeq p) (drop (Suc k) P)))"
    from rx(3) [OF 3 n_def] obtain b' where b': "readData_rexmit now b (int k) w = Some (Read_Drop \<lparr>dr_begin = sint (SRT_PH_SEQNO (m_nHeader w)),
        dr_end = incseq_by (sint (SRT_PH_SEQNO (m_nHeader w))) (int n - 1), dr_msgno = pkt_msgSeq (P ! k)\<rparr>, b')"
      "sb_inv b' r (if k < c \<and> c < k + n then k + n else c)" "map pkt_of (occupied b' r) = P" by blast
    show ?thesis unfolding n_def [symmetric] using b'(2,3) 3 by (subst b'(1)) (simp add: sb_abs_def)
  qed
qed

theorem rexmit_same_packet_witness:
  "\<exists>b mc b' w' t. addBuffer raw0 5 (CSndBuffer raw0 2 3 0) [1, 2] (sample_ctrl 7) = Some (b, mc)
    \<and> readData_rexmit 10 b (int 0) CPacket = Some (Read_Data 2 w' t, b') \<and> packet_bytes b' w' = [Some 1, Some 2]"
proof -
  obtain b r where b: "addBuffer raw0 5 (CSndBuffer raw0 2 3 0) [1, 2] ((sample_ctrl 7)\<lparr>msgttl := -1\<rparr>)
      = Some (b, (sample_ctrl 7)\<lparr>msgttl := -1, srctime := 5, pktseq := 8, msgno := 1\<rparr>)" "sb_inv b r 0"
    "sq_pkts (sb_abs b r 0) = [\<lparr>sp_data = [Some 1, Some 2], sp_bits = 0xE0000001, sp_seq = 7, sp_origin = 5, sp_rexmit = 0, sp_ttl = -1\<rparr>]"
    by (rule sample_filled)
  have ctrl: "(sample_ctrl 7)\<lparr>msgttl := -1\<rparr> = sample_ctrl 7" by (simp add: sample_ctrl_def)
  from rexmit_same_packet [OF b(2) b(3) [symmetric], of 10 0 CPacket] obtain b' w' t where
    "readData_rexmit 10 b (int 0) CPacket = Some (Read_Data 2 w' t, b')" "packet_bytes b' w' = [Some 1, Some 2]"
    by (auto simp: pkt_expired_def split: rexmit_read.splits) (metis rexmit_read.exhaust)
  then show ?thesis using b(1) unfolding ctrl by blast
qed



end
