(* ===== verification/SndUList.thy ===== *)
theory SndUList
  imports Prelude
begin

text \<open>
  \<^verbatim>\<open>CSndUList\<close> of \<^verbatim>\<open>srtcore/queue.h\<close> and \<^verbatim>\<open>queue.cpp\<close>: the schedule of the sending thread, a binary heap of
  the sockets with data to send, ordered by the time of their next packet. Each socket has one node
  (\<^verbatim>\<open>CSNode\<close>), which knows its place in the heap. Nodes are identified by their socket; the array holds
  these identities, its unused part is arbitrary. Signals to the timer and to the waiting thread are
  counted. Each operation runs under \<^verbatim>\<open>m_ListLock\<close>, so it is one step.
\<close>

section \<open>The heap and its nodes\<close>

record csnode =
  m_tsTimeStamp :: int
  m_iHeapLoc :: int

record snd_ulist =
  ul_node :: "nat \<Rightarrow> csnode"
  ul_heap :: "nat list"
  ul_arrayLength :: int
  ul_lastEntry :: int
  ul_interrupts :: nat
  ul_signals :: nat

definition CSndUList :: "(nat \<Rightarrow> csnode) \<Rightarrow> nat list \<Rightarrow> snd_ulist" where
  "CSndUList nodes arr = \<lparr>ul_node = nodes, ul_heap = arr, ul_arrayLength = 512, ul_lastEntry = -1, ul_interrupts = 0, ul_signals = 0\<rparr>"

definition set_loc :: "(nat \<Rightarrow> csnode) \<Rightarrow> nat \<Rightarrow> int \<Rightarrow> nat \<Rightarrow> csnode" where
  "set_loc nodes u loc = nodes(u := (nodes u)\<lparr>m_iHeapLoc := loc\<rparr>)"

definition set_time :: "(nat \<Rightarrow> csnode) \<Rightarrow> nat \<Rightarrow> int \<Rightarrow> nat \<Rightarrow> csnode" where
  "set_time nodes u ts = nodes(u := (nodes u)\<lparr>m_tsTimeStamp := ts\<rparr>)"

definition timer_interrupt :: "snd_ulist \<Rightarrow> snd_ulist" where
  "timer_interrupt l = l\<lparr>ul_interrupts := ul_interrupts l + 1\<rparr>"

text \<open>\<open>fresh\<close> stands for the uninitialised second half of the new array.\<close>

definition ul_realloc :: "nat list \<Rightarrow> snd_ulist \<Rightarrow> snd_ulist" where
  "ul_realloc fresh l = l\<lparr>ul_heap := ul_heap l @ fresh, ul_arrayLength := ul_arrayLength l * 2\<rparr>"

section \<open>Inserting\<close>

text \<open>The loop towards the root; it returns the nodes, the array and the final place.\<close>

partial_function (option) sift_up :: "(nat \<Rightarrow> csnode) \<Rightarrow> nat list \<Rightarrow> int \<Rightarrow> int \<Rightarrow> ((nat \<Rightarrow> csnode) \<times> nat list \<times> int) option" where
  "sift_up nodes heap p q =
     (if p = 0 then Some (nodes, heap, q)
      else let p = (q - 1) div 2
           in do { x \<leftarrow> rd heap p; y \<leftarrow> rd heap q;
                   if m_tsTimeStamp (nodes x) \<le> m_tsTimeStamp (nodes y) then Some (nodes, heap, q)
                   else do { h1 \<leftarrow> wr heap p y; h2 \<leftarrow> wr h1 q x; sift_up (set_loc nodes x q) h2 p p } })"

definition insert_norealloc :: "snd_ulist \<Rightarrow> int \<Rightarrow> nat \<Rightarrow> snd_ulist option" where
  "insert_norealloc l ts u =
     (if m_iHeapLoc (ul_node l u) \<ge> 0 then Some l
      else let e = ul_lastEntry l + 1
           in do { h \<leftarrow> wr (ul_heap l) e u;
                   (nodes, h', q) \<leftarrow> sift_up (set_time (ul_node l) u ts) h e e;
                   let l1 = l\<lparr>ul_node := set_loc nodes u q, ul_heap := h', ul_lastEntry := e\<rparr>;
                       l2 = (if q = 0 then timer_interrupt l1 else l1)
                   in Some (if e = 0 then l2\<lparr>ul_signals := ul_signals l2 + 1\<rparr> else l2) })"

definition ul_insert :: "nat list \<Rightarrow> snd_ulist \<Rightarrow> int \<Rightarrow> nat \<Rightarrow> snd_ulist option" where
  "ul_insert fresh l ts u =
     (let l1 = (if ul_lastEntry l = ul_arrayLength l - 1 then ul_realloc fresh l else l) in insert_norealloc l1 ts u)"

section \<open>Removing\<close>

partial_function (option) sift_down :: "(nat \<Rightarrow> csnode) \<Rightarrow> nat list \<Rightarrow> int \<Rightarrow> int \<Rightarrow> int \<Rightarrow> ((nat \<Rightarrow> csnode) \<times> nat list) option" where
  "sift_down nodes heap lst q p =
     (if p \<le> lst
      then do { a \<leftarrow> rd heap p;
                p' \<leftarrow> (if p + 1 \<le> lst
                       then do { b \<leftarrow> rd heap (p + 1);
                                 Some (if m_tsTimeStamp (nodes a) > m_tsTimeStamp (nodes b) then p + 1 else p) }
                       else Some p);
                x \<leftarrow> rd heap q; y \<leftarrow> rd heap p';
                if m_tsTimeStamp (nodes x) > m_tsTimeStamp (nodes y)
                then do { h1 \<leftarrow> wr heap p' x; h2 \<leftarrow> wr h1 q y;
                          sift_down (set_loc (set_loc nodes x p') y q) h2 lst p' (p' * 2 + 1) }
                else Some (nodes, heap) }
      else Some (nodes, heap))"

definition remove_node :: "snd_ulist \<Rightarrow> nat \<Rightarrow> snd_ulist option" where
  "remove_node l u =
     do { l1 \<leftarrow>
           (let loc = m_iHeapLoc (ul_node l u)
            in if loc \<ge> 0
               then do { y \<leftarrow> rd (ul_heap l) (ul_lastEntry l);
                         h \<leftarrow> wr (ul_heap l) loc y;
                         let lst = ul_lastEntry l - 1; nodes = set_loc (ul_node l) y loc;
                             q = m_iHeapLoc (nodes u)
                         in do { (nodes', h') \<leftarrow> sift_down nodes h lst q (q * 2 + 1);
                                 Some (l\<lparr>ul_node := set_loc nodes' u (-1), ul_heap := h', ul_lastEntry := lst\<rparr>) } }
               else Some l);
          Some (if ul_lastEntry l1 = 0 then timer_interrupt l1 else l1) }"

definition ul_remove :: "snd_ulist \<Rightarrow> nat \<Rightarrow> snd_ulist option" where
  "ul_remove l u = remove_node l u"

section \<open>The schedule\<close>

datatype EReschedule = DONT_RESCHEDULE | DO_RESCHEDULE

definition ul_update :: "nat list \<Rightarrow> snd_ulist \<Rightarrow> nat \<Rightarrow> EReschedule \<Rightarrow> int \<Rightarrow> snd_ulist option" where
  "ul_update fresh l u reschedule ts =
     (let n = ul_node l u
      in if m_iHeapLoc n \<ge> 0
         then if reschedule = DONT_RESCHEDULE then Some l
              else if m_tsTimeStamp n \<le> ts then Some l
              else if m_iHeapLoc n = 0 then Some (timer_interrupt (l\<lparr>ul_node := set_time (ul_node l) u ts\<rparr>))
              else do { l1 \<leftarrow> remove_node l u; insert_norealloc l1 ts u }
         else ul_insert fresh l ts u)"

definition ul_pop :: "int \<Rightarrow> snd_ulist \<Rightarrow> (nat option \<times> snd_ulist) option" where
  "ul_pop now l =
     (if ul_lastEntry l = -1 then Some (None, l)
      else do { u \<leftarrow> rd (ul_heap l) 0;
                if m_tsTimeStamp (ul_node l u) > now then Some (None, l)
                else do { l' \<leftarrow> remove_node l u; Some (Some u, l') } })"

definition getNextProcTime :: "snd_ulist \<Rightarrow> int option" where
  "getNextProcTime l =
     (if ul_lastEntry l = -1 then Some 0
      else map_option (\<lambda>u. m_tsTimeStamp (ul_node l u)) (rd (ul_heap l) 0))"

definition signalInterrupt :: "snd_ulist \<Rightarrow> snd_ulist" where
  "signalInterrupt l = l\<lparr>ul_signals := ul_signals l + 1\<rparr>"

definition waitNonEmpty :: "snd_ulist \<Rightarrow> bool" where
  "waitNonEmpty l \<longleftrightarrow> ul_lastEntry l \<ge> 0"

declare sift_up.simps [code] sift_down.simps [code]

end
