(* ===== verification/SndUListInv.thy ===== *)
theory SndUListInv
  imports SndUList "HOL-Library.Multiset"
begin

text \<open>
  The invariant of the schedule: the nodes in the heap know their places, and no other node claims one. The order
  of the heap is a second predicate, because \<^verbatim>\<open>remove_\<close> does not always keep it. The loops are described
  by what they do to the array: they permute it, keep the places right and repair the order at one place.
\<close>

abbreviation tm :: "(nat \<Rightarrow> csnode) \<Rightarrow> nat \<Rightarrow> int" where "tm nodes u \<equiv> m_tsTimeStamp (nodes u)"
abbreviation lc :: "(nat \<Rightarrow> csnode) \<Rightarrow> nat \<Rightarrow> int" where "lc nodes u \<equiv> m_iHeapLoc (nodes u)"
abbreviation par :: "nat \<Rightarrow> nat" where "par i \<equiv> (i - 1) div 2"

definition heap_order :: "(nat \<Rightarrow> int) \<Rightarrow> nat list \<Rightarrow> nat \<Rightarrow> bool" where
  "heap_order t h n \<longleftrightarrow> (\<forall>i. 0 < i \<and> i < n \<longrightarrow> t (h ! par i) \<le> t (h ! i))"

text \<open>Ordered except that the entry at \<open>q\<close> may be too small, or too large, for its place.\<close>

definition order_up :: "(nat \<Rightarrow> int) \<Rightarrow> nat list \<Rightarrow> nat \<Rightarrow> nat \<Rightarrow> bool" where
  "order_up t h n q \<longleftrightarrow> (\<forall>i. 0 < i \<and> i < n \<and> i \<noteq> q \<longrightarrow> t (h ! par i) \<le> t (h ! i))
     \<and> (\<forall>i. 0 < i \<and> i < n \<and> par i = q \<and> 0 < q \<longrightarrow> t (h ! par q) \<le> t (h ! i))"

definition order_down :: "(nat \<Rightarrow> int) \<Rightarrow> nat list \<Rightarrow> nat \<Rightarrow> nat \<Rightarrow> bool" where
  "order_down t h n q \<longleftrightarrow> (\<forall>i. 0 < i \<and> i < n \<and> par i \<noteq> q \<longrightarrow> t (h ! par i) \<le> t (h ! i))
     \<and> (\<forall>i. 0 < i \<and> i < n \<and> par i = q \<and> 0 < q \<longrightarrow> t (h ! par q) \<le> t (h ! i))"

definition places :: "(nat \<Rightarrow> csnode) \<Rightarrow> nat list \<Rightarrow> nat \<Rightarrow> bool" where
  "places nodes h n \<longleftrightarrow> (\<forall>i < n. lc nodes (h ! i) = int i)"

definition places_except :: "(nat \<Rightarrow> csnode) \<Rightarrow> nat list \<Rightarrow> nat \<Rightarrow> nat \<Rightarrow> bool" where
  "places_except nodes h n q \<longleftrightarrow> (\<forall>i < n. i \<noteq> q \<longrightarrow> lc nodes (h ! i) = int i)"

lemma set_loc_simps [simp]:
  "tm (set_loc nodes u k) v = tm nodes v" "lc (set_loc nodes u k) v = (if v = u then k else lc nodes v)"
  "v \<noteq> u \<Longrightarrow> set_loc nodes u k v = nodes v"
  by (simp_all add: set_loc_def)

lemma set_time_simps [simp]:
  "tm (set_time nodes u k) v = (if v = u then k else tm nodes v)" "lc (set_time nodes u k) v = lc nodes v"
  "v \<noteq> u \<Longrightarrow> set_time nodes u k v = nodes v"
  by (simp_all add: set_time_def)

lemma par_less: "0 < i \<Longrightarrow> par i < i"
  by auto

lemma heap_root_least:
  assumes "heap_order t h n" "i < n"
  shows "t (h ! 0) \<le> t (h ! i)"
  using assms(2)
proof (induction i rule: less_induct)
  case (less i)
  show ?case
  proof (cases "i = 0")
    case False
    then have "par i < i" by auto
    with less have "t (h ! 0) \<le> t (h ! par i)" by simp
    also have "\<dots> \<le> t (h ! i)" using assms(1) less.prems False by (simp add: heap_order_def)
    finally show ?thesis .
  qed simp
qed

section \<open>Swapping two entries\<close>

lemma nth_swap:
  "p < length h \<Longrightarrow> q < length h \<Longrightarrow> h[p := h ! q, q := h ! p] ! i = (if i = q then h ! p else if i = p then h ! q else h ! i)"
  by (simp add: nth_list_update)

lemma mset_take_swap:
  assumes "p < n" "q < n" "n \<le> length h"
  shows "mset (take n (h[p := h ! q, q := h ! p])) = mset (take n h)"
proof -
  have "take n (h[p := h ! q, q := h ! p]) = (take n h)[p := take n h ! q, q := take n h ! p]"
    using assms by (simp add: take_update_swap)
  then show ?thesis using mset_swap [of q "take n h" p] assms by simp
qed

lemma distinct_nth_eq: "distinct (take n h) \<Longrightarrow> i < n \<Longrightarrow> j < n \<Longrightarrow> n \<le> length h \<Longrightarrow> h ! i = h ! j \<longleftrightarrow> i = j"
  by (metis length_take min.absorb2 nth_eq_iff_index_eq nth_take)

lemma order_up_swap:
  assumes o: "order_up t h n q" and q: "0 < q" "q < n" "n \<le> length h" and lt: "t (h ! q) < t (h ! par q)"
  shows "order_up t (h[par q := h ! q, q := h ! par q]) n (par q)"
proof -
  let ?p = "par q"
  have p: "?p < q" "?p < n" using q by auto
  note nth = nth_swap [of ?p h q] 
  have s: "h[?p := h ! q, q := h ! ?p] ! i = (if i = q then h ! ?p else if i = ?p then h ! q else h ! i)" for i
    using nth p q by simp
  have o1: "\<And>i. 0 < i \<Longrightarrow> i < n \<Longrightarrow> i \<noteq> q \<Longrightarrow> t (h ! par i) \<le> t (h ! i)"
    and o2: "\<And>i. 0 < i \<Longrightarrow> i < n \<Longrightarrow> par i = q \<Longrightarrow> t (h ! ?p) \<le> t (h ! i)" using o q by (auto simp: order_up_def)
  show ?thesis unfolding order_up_def s
  proof (intro conjI allI impI)
    fix i assume i: "0 < i \<and> i < n \<and> i \<noteq> ?p"
    consider "i = q" | "i \<noteq> q" "par i = q" | "i \<noteq> q" "par i = ?p" "par i \<noteq> q" | "i \<noteq> q" "par i \<noteq> q" "par i \<noteq> ?p" by blast
    then show "t (if par i = q then h ! ?p else if par i = ?p then h ! q else h ! par i) \<le> t (if i = q then h ! ?p else if i = ?p then h ! q else h ! i)"
    proof cases
      case 1
      then show ?thesis using lt p by simp
    next
      case 2
      then show ?thesis using o2 [of i] i by simp
    next
      case 3
      then have "t (h ! ?p) \<le> t (h ! i)" using o1 [of i] i by simp
      then show ?thesis using lt 3 i by simp
    next
      case 4
      then show ?thesis using o1 [of i] i by simp
    qed
  next
    fix i assume i: "0 < i \<and> i < n \<and> par i = ?p \<and> 0 < ?p"
    have "par ?p < ?p" using i by (intro par_less) simp
    then have "par ?p \<noteq> q" "par ?p \<noteq> ?p" using p by auto
    moreover have "t (h ! par ?p) \<le> t (h ! ?p)" using o1 [of ?p] p i by simp
    moreover have "i \<noteq> q \<Longrightarrow> t (h ! ?p) \<le> t (h ! i)" using o1 [of i] i by simp
    moreover have "i \<noteq> ?p" using i par_less [of i] by auto
    ultimately show "t (if par ?p = q then h ! ?p else if par ?p = ?p then h ! q else h ! par ?p) \<le> t (if i = q then h ! ?p else if i = ?p then h ! q else h ! i)"
      by (auto intro: order_trans)
  qed
qed

lemma order_down_swap:
  assumes o: "order_down t h n q" and q: "par p = q" "0 < p" "p < n" "n \<le> length h" and lt: "t (h ! p) < t (h ! q)"
    and least: "\<And>i. 0 < i \<Longrightarrow> i < n \<Longrightarrow> par i = q \<Longrightarrow> t (h ! p) \<le> t (h ! i)"
  shows "order_down t (h[p := h ! q, q := h ! p]) n p"
proof -
  have qp: "q < p" using par_less [OF q(2)] q(1) by simp
  have s: "h[p := h ! q, q := h ! p] ! i = (if i = q then h ! p else if i = p then h ! q else h ! i)" for i
    using nth_swap [of p h q] qp q by simp
  have o1: "\<And>i. 0 < i \<Longrightarrow> i < n \<Longrightarrow> par i \<noteq> q \<Longrightarrow> t (h ! par i) \<le> t (h ! i)"
    and o2: "\<And>i. 0 < i \<Longrightarrow> i < n \<Longrightarrow> par i = q \<Longrightarrow> 0 < q \<Longrightarrow> t (h ! par q) \<le> t (h ! i)" using o by (auto simp: order_down_def)
  show ?thesis unfolding order_down_def s
  proof (intro conjI allI impI)
    fix i assume i: "0 < i \<and> i < n \<and> par i \<noteq> p"
    consider "par i = q" "i = p" | "par i = q" "i \<noteq> p" | "par i \<noteq> q" "i = q" | "par i \<noteq> q" "i \<noteq> q" by blast
    then show "t (if par i = q then h ! p else if par i = p then h ! q else h ! par i) \<le> t (if i = q then h ! p else if i = p then h ! q else h ! i)"
    proof cases
      case 1
      then show ?thesis using lt qp by simp
    next
      case 2
      then have "i \<noteq> q" using par_less [of i] i by auto
      then show ?thesis using least [of i] i 2 by simp
    next
      case 3
      then show ?thesis using o2 [of p] q i by simp
    next
      case 4
      then have "i \<noteq> p" using q by auto
      then show ?thesis using o1 [of i] i 4 by simp
    qed
  next
    fix i assume i: "0 < i \<and> i < n \<and> par i = p \<and> 0 < p"
    then have "i \<noteq> p" "i \<noteq> q" using par_less [of i] qp by auto
    then show "t (if par p = q then h ! p else if par p = p then h ! q else h ! par p) \<le> t (if i = q then h ! p else if i = p then h ! q else h ! i)"
      using o1 [of i] i q qp by simp
  qed
qed

section \<open>The loops\<close>

lemma rd_int [simp]: "i < length h \<Longrightarrow> rd h (int i) = Some (h ! i)"
  by (simp add: rd_def)

lemma wr_int [simp]: "i < length h \<Longrightarrow> wr h (int i) x = Some (h[i := x])"
  by (simp add: wr_def)

text \<open>What both loops do besides repairing the order: permute, keep the places, touch nothing else.\<close>

definition moved :: "nat \<Rightarrow> (nat \<Rightarrow> csnode) \<Rightarrow> nat list \<Rightarrow> (nat \<Rightarrow> csnode) \<Rightarrow> nat list \<Rightarrow> bool" where
  "moved n nodes h nodes' h' \<longleftrightarrow> length h' = length h \<and> mset (take n h') = mset (take n h)
     \<and> (\<forall>u. tm nodes' u = tm nodes u) \<and> (\<forall>u. u \<notin> set (take n h) \<longrightarrow> nodes' u = nodes u)"

lemma nth_in_take: "i < n \<Longrightarrow> n \<le> length h \<Longrightarrow> h ! i \<in> set (take n h)"
  by (metis length_take min.absorb2 nth_mem nth_take)

lemma moved_refl: "moved n nodes h nodes h"
  by (simp add: moved_def)

lemma moved_trans: "moved n nodes h nodes1 h1 \<Longrightarrow> moved n nodes1 h1 nodes2 h2 \<Longrightarrow> moved n nodes h nodes2 h2"
  by (auto simp: moved_def dest: mset_eq_setD)

lemma moved_swap:
  assumes "p < n" "q < n" "n \<le> length h" "\<And>u. tm nodes' u = tm nodes u" "\<And>u. u \<noteq> h ! p \<Longrightarrow> u \<noteq> h ! q \<Longrightarrow> nodes' u = nodes u"
  shows "moved n nodes h nodes' (h[p := h ! q, q := h ! p])"
proof -
  have "h ! p \<in> set (take n h)" "h ! q \<in> set (take n h)" using assms(1-3) nth_in_take by blast+
  then have "\<forall>u. u \<notin> set (take n h) \<longrightarrow> nodes' u = nodes u" using assms(5) by metis
  then show ?thesis using assms(4) mset_take_swap [OF assms(1-3)] by (simp add: moved_def)
qed

lemma moved_distinct: "moved n nodes h nodes' h' \<Longrightarrow> distinct (take n h) \<Longrightarrow> distinct (take n h')"
  unfolding moved_def by (metis mset_eq_imp_distinct_iff)

lemma sift_up_spec:
  assumes "q < n" "n \<le> length h" "distinct (take n h)" "places_except nodes h n q"
  shows "\<exists>nodes' h' q'. sift_up nodes h (int q) (int q) = Some (nodes', h', int q') \<and> q' < n \<and> h' ! q' = h ! q
    \<and> moved n nodes h nodes' h' \<and> places_except nodes' h' n q' \<and> lc nodes' (h ! q) = lc nodes (h ! q)
    \<and> (order_up (tm nodes) h n q \<longrightarrow> heap_order (tm nodes) h' n)"
  using assms
proof (induction q arbitrary: nodes h rule: less_induct)
  case (less q)
  show ?case
  proof (cases "q = 0")
    case True
    then have "order_up (tm nodes) h n q \<longrightarrow> heap_order (tm nodes) h n" by (auto simp: heap_order_def order_up_def)
    then show ?thesis using True less.prems moved_refl by (intro exI [of _ nodes] exI [of _ h] exI [of _ q]) (simp add: sift_up.simps)
  next
    case q0: False
    let ?p = "par q" let ?h = "h[?p := h ! q, q := h ! ?p]" let ?nodes = "set_loc nodes (h ! ?p) (int q)"
    have p: "?p < q" "?p < n" "(int q - 1) div 2 = int ?p" using q0 less.prems(1) by auto
    have l: "q < length h" "?p < length h" using less.prems(1,2) p by auto
    show ?thesis
    proof (cases "tm nodes (h ! ?p) \<le> tm nodes (h ! q)")
      case True
      then have "order_up (tm nodes) h n q \<longrightarrow> heap_order (tm nodes) h n" unfolding heap_order_def order_up_def by metis
      then show ?thesis using True p l q0 less.prems moved_refl
        by (intro exI [of _ nodes] exI [of _ h] exI [of _ q]) (simp add: sift_up.simps [of _ _ "int q"] Let_def)
    next
      case False
      have neq: "h ! ?p \<noteq> h ! q" using distinct_nth_eq [OF less.prems(3) p(2) less.prems(1,2)] p(1) by simp
      have step: "sift_up nodes h (int q) (int q) = sift_up ?nodes ?h (int ?p) (int ?p)"
        using False p l q0 by (subst sift_up.simps) (simp add: Let_def)
      have mv: "moved n nodes h ?nodes ?h" using p less.prems(1,2) by (intro moved_swap) auto
      have d: "distinct (take n ?h)" using moved_distinct [OF mv less.prems(3)] .
      have nth: "?h ! i = (if i = q then h ! ?p else if i = ?p then h ! q else h ! i)" for i using nth_swap [OF l(2,1)] .
      have pl: "places_except ?nodes ?h n ?p" unfolding places_except_def
      proof (intro allI impI)
        fix i assume i: "i < n" "i \<noteq> ?p"
        have "h ! i = h ! ?p \<longleftrightarrow> i = ?p" using distinct_nth_eq [OF less.prems(3) i(1) p(2) less.prems(2)] .
        then show "lc ?nodes (?h ! i) = int i" unfolding nth using i less.prems(4) by (auto simp: places_except_def)
      qed
      have or: "order_up (tm nodes) h n q \<Longrightarrow> order_up (tm ?nodes) ?h n ?p"
        using order_up_swap [OF _ _ less.prems(1,2), of "tm nodes"] q0 False by simp
      from less.IH [OF p(1,2) _ d pl] less.prems(2) obtain nodes' h' q' where
        ih: "sift_up ?nodes ?h (int ?p) (int ?p) = Some (nodes', h', int q')" "q' < n" "h' ! q' = ?h ! ?p"
          "moved n ?nodes ?h nodes' h'" "places_except nodes' h' n q'" "order_up (tm ?nodes) ?h n ?p \<longrightarrow> heap_order (tm ?nodes) h' n"
          "lc nodes' (?h ! ?p) = lc ?nodes (?h ! ?p)" by auto
      have hp: "?h ! ?p = h ! q" using nth [of ?p] p(1) by simp
      show ?thesis using step ih moved_trans [OF mv ih(4)] hp neq or
        by (intro exI [of _ nodes'] exI [of _ h'] exI [of _ q']) simp
    qed
  qed
qed

text \<open>One pass of the loop towards the leaves: the smaller child is compared and possibly swapped up.\<close>

lemma smaller_child:
  fixes nodes :: "nat \<Rightarrow> csnode"
  assumes "2 * q + 1 < n" "n \<le> length h"
  defines "p \<equiv> if 2 * q + 2 < n \<and> tm nodes (h ! (2 * q + 1)) > tm nodes (h ! (2 * q + 2)) then 2 * q + 2 else 2 * q + 1"
  shows "sift_down nodes h (int n - 1) (int q) (int q * 2 + 1) =
      (if tm nodes (h ! q) > tm nodes (h ! p)
       then sift_down (set_loc (set_loc nodes (h ! q) (int p)) (h ! p) (int q)) (h[p := h ! q, q := h ! p]) (int n - 1) (int p) (int p * 2 + 1)
       else Some (nodes, h))"
    "par p = q" "0 < p" "p < n" "q < p"
    "\<And>i. 0 < i \<Longrightarrow> i < n \<Longrightarrow> par i = q \<Longrightarrow> tm nodes (h ! p) \<le> tm nodes (h ! i)"
proof -
  show p: "par p = q" "0 < p" "p < n" "q < p" using assms(1) by (auto simp: p_def)
  have i1: "int q * 2 + 1 = int (2 * q + 1)" "int (2 * q + 1) + 1 = int (2 * q + 2)" by simp_all
  have le: "int (2 * q + 2) \<le> int n - 1 \<longleftrightarrow> 2 * q + 2 < n" by linarith
  have rr: "2 * q + 2 < n \<Longrightarrow> rd h (int (2 * q + 2)) = Some (h ! (2 * q + 2))" using assms(2) by (intro rd_int) simp
  have sel: "(if int (2 * q + 2) \<le> int n - 1
      then Option.bind (rd h (int (2 * q + 2))) (\<lambda>b. Some (if tm nodes (h ! (2 * q + 1)) > tm nodes b then int (2 * q + 2) else int (2 * q + 1)))
      else Some (int (2 * q + 1))) = Some (int p)"
    unfolding le p_def
    by (cases "2 * q + 2 < n"; cases "tm nodes (h ! (2 * q + 1)) > tm nodes (h ! (2 * q + 2))")
      (simp_all only: rr if_True if_False bind.bind_lunit simp_thms)
  have l: "2 * q + 1 < length h" "p < length h" "q < length h" using assms(1,2) p by auto
  show "sift_down nodes h (int n - 1) (int q) (int q * 2 + 1) =
      (if tm nodes (h ! q) > tm nodes (h ! p)
       then sift_down (set_loc (set_loc nodes (h ! q) (int p)) (h ! p) (int q)) (h[p := h ! q, q := h ! p]) (int n - 1) (int p) (int p * 2 + 1)
       else Some (nodes, h))"
    unfolding i1(1) using l assms(1) sel
    by (subst sift_down.simps) (simp only: i1(2) rd_int wr_int length_list_update bind.bind_lunit, simp)
  show "tm nodes (h ! p) \<le> tm nodes (h ! i)" if "0 < i" "i < n" "par i = q" for i
  proof -
    have "i = 2 * q + 1 \<or> i = 2 * q + 2" using that by auto
    then show ?thesis using that by (auto simp: p_def)
  qed
qed

lemma sift_down_spec:
  assumes "n \<le> length h" "distinct (take n h)" "places nodes h n"
  shows "\<exists>nodes' h'. sift_down nodes h (int n - 1) (int q) (int q * 2 + 1) = Some (nodes', h')
    \<and> moved n nodes h nodes' h' \<and> places nodes' h' n \<and> (order_down (tm nodes) h n q \<longrightarrow> heap_order (tm nodes) h' n)"
  using assms
proof (induction "n - q" arbitrary: q nodes h rule: less_induct)
  case less
  show ?case
  proof (cases "2 * q + 1 < n")
    case False
    then have "heap_order t h n" if "order_down t h n q" for t
    proof -
      have "par i \<noteq> q" if "0 < i" "i < n" for i using that False by auto
      then show ?thesis using that unfolding heap_order_def order_down_def by blast
    qed
    then show ?thesis using False less.prems moved_refl by (intro exI [of _ nodes] exI [of _ h]) (simp add: sift_down.simps)
  next
    case True
    define p where "p = (if 2 * q + 2 < n \<and> tm nodes (h ! (2 * q + 1)) > tm nodes (h ! (2 * q + 2)) then 2 * q + 2 else 2 * q + 1)"
    note c = smaller_child [OF True less.prems(1), where nodes = nodes, folded p_def]
    show ?thesis
    proof (cases "tm nodes (h ! q) > tm nodes (h ! p)")
      case False
      have "heap_order (tm nodes) h n" if "order_down (tm nodes) h n q"
        unfolding heap_order_def
      proof (intro allI impI)
        fix i assume i: "0 < i \<and> i < n"
        show "tm nodes (h ! par i) \<le> tm nodes (h ! i)"
        proof (cases "par i = q")
          case True
          then show ?thesis using c(6) [of i] i False by simp
        next
          case ne: False
          then show ?thesis using that i by (simp add: order_down_def)
        qed
      qed
      then show ?thesis using c(1) False less.prems moved_refl by (intro exI [of _ nodes] exI [of _ h]) simp
    next
      case gt: True
      let ?nodes = "set_loc (set_loc nodes (h ! q) (int p)) (h ! p) (int q)" let ?h = "h[p := h ! q, q := h ! p]"
      have l: "p < length h" "q < length h" "q < n" using c(4,5) less.prems(1) by auto
      have mv: "moved n nodes h ?nodes ?h" using c(4) l(3) less.prems(1) by (intro moved_swap) auto
      have nth: "?h ! i = (if i = q then h ! p else if i = p then h ! q else h ! i)" for i using nth_swap [OF l(1,2)] .
      have pl: "places ?nodes ?h n" unfolding places_def
      proof (intro allI impI)
        fix i assume i: "i < n"
        have "h ! i = h ! p \<longleftrightarrow> i = p" "h ! i = h ! q \<longleftrightarrow> i = q" "h ! q = h ! p \<longleftrightarrow> q = p"
          using distinct_nth_eq [OF less.prems(2) _ _ less.prems(1)] i c(4) l(3) by auto
        then show "lc ?nodes (?h ! i) = int i" unfolding nth using i less.prems(3) c(5) by (auto simp: places_def)
      qed
      have lt: "n - p < n - q" "n \<le> length ?h" using c(4,5) less.prems(1) by auto
      from less.hyps [OF lt moved_distinct [OF mv less.prems(2)] pl] obtain nodes' h' where
        ih: "sift_down ?nodes ?h (int n - 1) (int p) (int p * 2 + 1) = Some (nodes', h')" "moved n ?nodes ?h nodes' h'" "places nodes' h' n"
          "order_down (tm ?nodes) ?h n p \<longrightarrow> heap_order (tm ?nodes) h' n" by blast
      have "order_down (tm ?nodes) ?h n p" if "order_down (tm nodes) h n q"
        using order_down_swap [OF that c(2-4) less.prems(1) gt c(6)] by simp
      then show ?thesis using c(1) gt ih moved_trans [OF mv ih(2)] by (intro exI [of _ nodes'] exI [of _ h']) simp
    qed
  qed
qed

end
