(* ===== verification/SndUListSpec.thy ===== *)
theory SndUListSpec
  imports SndUListInv
begin

text \<open>
  What the schedule promises: inserting, removing and rescheduling change the time of one socket only; the places in
  the nodes stay right; and as long as the heap is ordered, the socket taken out is the one due first.
  Removing a socket from the middle of the heap does not always keep the order, because the last entry is
  put in its place and only moved towards the leaves.
\<close>

section \<open>The invariant\<close>

definition entries :: "snd_ulist \<Rightarrow> nat list" where
  "entries l = take (nat (ul_lastEntry l + 1)) (ul_heap l)"

definition ul_inv :: "snd_ulist \<Rightarrow> bool" where
  "ul_inv l \<longleftrightarrow> int (length (ul_heap l)) = ul_arrayLength l \<and> 0 < ul_arrayLength l \<and> -1 \<le> ul_lastEntry l \<and> ul_lastEntry l < ul_arrayLength l
     \<and> distinct (entries l) \<and> places (ul_node l) (ul_heap l) (nat (ul_lastEntry l + 1))
     \<and> (\<forall>u. u \<notin> set (entries l) \<longrightarrow> lc (ul_node l) u = -1)"

definition ul_ordered :: "snd_ulist \<Rightarrow> bool" where
  "ul_ordered l \<longleftrightarrow> heap_order (tm (ul_node l)) (ul_heap l) (nat (ul_lastEntry l + 1))"

text \<open>The abstract schedule: the time of each socket that is waiting.\<close>

definition schedule :: "snd_ulist \<Rightarrow> nat \<rightharpoonup> int" where
  "schedule l u = (if lc (ul_node l) u \<ge> 0 then Some (tm (ul_node l) u) else None)"

lemma ul_invD:
  assumes "ul_inv l"
  shows "int (length (ul_heap l)) = ul_arrayLength l" "nat (ul_lastEntry l + 1) \<le> length (ul_heap l)" "distinct (entries l)"
    "places (ul_node l) (ul_heap l) (nat (ul_lastEntry l + 1))" "\<And>u. u \<notin> set (entries l) \<Longrightarrow> lc (ul_node l) u = -1"
    "-1 \<le> ul_lastEntry l" "ul_lastEntry l < ul_arrayLength l" "0 < ul_arrayLength l"
  using assms by (auto simp: ul_inv_def)

lemma in_entries:
  assumes "ul_inv l"
  shows "u \<in> set (entries l) \<longleftrightarrow> lc (ul_node l) u \<ge> 0"
    "lc (ul_node l) u \<ge> 0 \<Longrightarrow> lc (ul_node l) u \<le> ul_lastEntry l \<and> ul_heap l ! nat (lc (ul_node l) u) = u"
proof -
  note d = ul_invD [OF assms]
  have *: "lc (ul_node l) u \<ge> 0 \<and> lc (ul_node l) u \<le> ul_lastEntry l \<and> ul_heap l ! nat (lc (ul_node l) u) = u" if ue: "u \<in> set (entries l)"
  proof -
    obtain i where i: "i < length (entries l)" "entries l ! i = u" using ue by (auto simp: in_set_conv_nth)
    then have "i < nat (ul_lastEntry l + 1)" "ul_heap l ! i = u" using d(2) by (auto simp: entries_def)
    then show ?thesis using d(4) by (auto simp: places_def)
  qed
  show "u \<in> set (entries l) \<longleftrightarrow> lc (ul_node l) u \<ge> 0" using * d(5) [of u] by (cases "u \<in> set (entries l)") auto
  then show "lc (ul_node l) u \<ge> 0 \<Longrightarrow> lc (ul_node l) u \<le> ul_lastEntry l \<and> ul_heap l ! nat (lc (ul_node l) u) = u" using * by blast
qed

lemma signals_frame [simp]:
  "ul_inv (timer_interrupt l) = ul_inv l" "schedule (timer_interrupt l) = schedule l" "ul_ordered (timer_interrupt l) = ul_ordered l"
  "ul_inv (l\<lparr>ul_signals := k\<rparr>) = ul_inv l" "schedule (l\<lparr>ul_signals := k\<rparr>) = schedule l" "ul_ordered (l\<lparr>ul_signals := k\<rparr>) = ul_ordered l"
  "ul_lastEntry (timer_interrupt l) = ul_lastEntry l" "ul_heap (timer_interrupt l) = ul_heap l" "ul_node (timer_interrupt l) = ul_node l"
  "ul_arrayLength (timer_interrupt l) = ul_arrayLength l"
  by (simp_all add: ul_inv_def entries_def schedule_def ul_ordered_def timer_interrupt_def fun_eq_iff)

lemma CSndUList_inv:
  assumes "length arr = 512" "\<And>u. lc nodes u = -1"
  shows "ul_inv (CSndUList nodes arr)" "ul_ordered (CSndUList nodes arr)" "schedule (CSndUList nodes arr) = Map.empty"
  using assms by (auto simp: ul_inv_def ul_ordered_def CSndUList_def entries_def places_def heap_order_def schedule_def fun_eq_iff)

section \<open>Inserting\<close>

lemma insert_norealloc_spec:
  assumes i: "ul_inv l" and room: "ul_lastEntry l + 1 < ul_arrayLength l" and u: "lc (ul_node l) u < 0"
  shows "\<exists>l'. insert_norealloc l ts u = Some l' \<and> ul_inv l' \<and> schedule l' = (schedule l)(u \<mapsto> ts)
    \<and> ul_lastEntry l' = ul_lastEntry l + 1 \<and> (ul_ordered l \<longrightarrow> ul_ordered l')"
proof -
  note d = ul_invD [OF i]
  define n where "n = nat (ul_lastEntry l + 1)"
  let ?h = "(ul_heap l)[n := u]" let ?nodes = "set_time (ul_node l) u ts"
  have n: "int n = ul_lastEntry l + 1" "n < length (ul_heap l)" using d(1,6) room by (auto simp: n_def)
  have un: "u \<notin> set (take n (ul_heap l))" using in_entries(1) [OF i, of u] u by (simp add: entries_def n_def)
  have tk: "take (Suc n) ?h = take n (ul_heap l) @ [u]" using n(2) by (simp add: take_Suc_conv_app_nth)
  have dist: "distinct (take (Suc n) ?h)" unfolding tk using un d(3) by (simp add: entries_def n_def)
  have pl: "places_except ?nodes ?h (Suc n) n" using d(4) by (simp add: places_except_def places_def n_def)
  from sift_up_spec [OF lessI _ dist pl] n(2) obtain nodes h' q where
    s: "sift_up ?nodes ?h (int n) (int n) = Some (nodes, h', int q)" "q < Suc n" "h' ! q = u" "moved (Suc n) ?nodes ?h nodes h'"
      "places_except nodes h' (Suc n) q" "order_up (tm ?nodes) ?h (Suc n) n \<longrightarrow> heap_order (tm ?nodes) h' (Suc n)" by auto
  have mv: "length h' = length (ul_heap l)" "mset (take (Suc n) h') = mset (take n (ul_heap l) @ [u])" "\<And>x. tm nodes x = tm ?nodes x"
    "\<And>x. x \<notin> set (take n (ul_heap l) @ [u]) \<Longrightarrow> nodes x = ?nodes x" using s(4) unfolding moved_def tk by auto
  have st: "set (take (Suc n) h') = insert u (set (take n (ul_heap l)))" using mset_eq_setD [OF mv(2)] by auto
  have ds: "distinct (take (Suc n) h')" using moved_distinct [OF s(4) dist] .
  let ?l1 = "l\<lparr>ul_node := set_loc nodes u (int q), ul_heap := h', ul_lastEntry := ul_lastEntry l + 1\<rparr>"
  have nn: "nat (ul_lastEntry ?l1 + 1) = Suc n" using n(1) by simp
  have "lc (set_loc nodes u (int q)) (h' ! j) = int j" if "j < Suc n" for j
    using that s(5,3) distinct_nth_eq [OF ds that s(2)] mv(1) n(2) by (auto simp: places_except_def)
  then have pl': "places (ul_node ?l1) (ul_heap ?l1) (nat (ul_lastEntry ?l1 + 1))" unfolding nn by (simp add: places_def)
  have out: "lc (ul_node ?l1) x = -1" if "x \<notin> set (entries ?l1)" for x
    using that mv(4) [of x] d(5) [of x] st unfolding entries_def nn by (auto simp: entries_def n_def)
  have inv: "ul_inv ?l1" using d(1,6,8) room mv(1) ds pl' out nn by (simp add: ul_inv_def entries_def)
  have sc: "schedule ?l1 = (schedule l)(u \<mapsto> ts)"
  proof
    fix x
    have "lc (ul_node ?l1) x \<ge> 0 \<longleftrightarrow> x = u \<or> lc (ul_node l) x \<ge> 0"
      using in_entries(1) [OF inv, of x] in_entries(1) [OF i, of x] st unfolding entries_def nn by (auto simp: n_def)
    then show "schedule ?l1 x = ((schedule l)(u \<mapsto> ts)) x" using mv(3) [of x] by (auto simp: schedule_def)
  qed
  have ord: "ul_ordered ?l1" if "ul_ordered l"
  proof -
    have "order_up (tm ?nodes) ?h (Suc n) n"
      unfolding order_up_def
    proof (intro conjI allI impI)
      fix j assume j: "0 < j \<and> j < Suc n \<and> j \<noteq> n"
      have un': "ul_heap l ! k \<noteq> u" if "k < n" for k using un that n(2) nth_in_take [of k n "ul_heap l"] by auto
      have "tm (ul_node l) (ul_heap l ! par j) \<le> tm (ul_node l) (ul_heap l ! j)" using that j by (simp add: ul_ordered_def heap_order_def n_def [symmetric])
      then show "tm ?nodes (?h ! par j) \<le> tm ?nodes (?h ! j)" using j par_less [of j] un' [of j] un' [of "par j"] by auto
    next
      fix j assume "0 < j \<and> j < Suc n \<and> par j = n \<and> 0 < n"
      then show "tm ?nodes (?h ! par n) \<le> tm ?nodes (?h ! j)" using par_less [of j] by auto
    qed
    then show ?thesis using s(6) mv(3) unfolding ul_ordered_def nn by (simp add: heap_order_def)
  qed
  let ?l2 = "if int q = 0 then timer_interrupt ?l1 else ?l1"
  have "insert_norealloc l ts u = Some (if int n = 0 then ?l2\<lparr>ul_signals := ul_signals ?l2 + 1\<rparr> else ?l2)"
    using s(1) u n(2) unfolding insert_norealloc_def n(1) [symmetric] Let_def by simp
  then show ?thesis using inv sc ord n(1) by (cases "q = 0"; cases "n = 0") simp_all
qed

lemma ul_insert_spec:
  assumes i: "ul_inv l" and u: "lc (ul_node l) u < 0" and f: "int (length fresh) = ul_arrayLength l"
  shows "\<exists>l'. ul_insert fresh l ts u = Some l' \<and> ul_inv l' \<and> schedule l' = (schedule l)(u \<mapsto> ts)
    \<and> ul_lastEntry l' = ul_lastEntry l + 1 \<and> (ul_ordered l \<longrightarrow> ul_ordered l')"
proof (cases "ul_lastEntry l = ul_arrayLength l - 1")
  case True
  note d = ul_invD [OF i]
  let ?l = "ul_realloc fresh l"
  have e: "take (nat (ul_lastEntry l + 1)) (ul_heap l @ fresh) = take (nat (ul_lastEntry l + 1)) (ul_heap l)" using d(2) by simp
  have nth: "(ul_heap l @ fresh) ! k = ul_heap l ! k" if "k < nat (ul_lastEntry l + 1)" for k using that d(2) by (simp add: nth_append)
  have "ul_inv ?l" using i f e nth d(2) by (auto simp: ul_inv_def ul_realloc_def entries_def places_def)
  moreover have "ul_ordered l \<longrightarrow> ul_ordered ?l"
  proof
    assume o: "ul_ordered l"
    show "ul_ordered ?l" unfolding ul_ordered_def heap_order_def
    proof (intro allI impI)
      fix j assume "0 < j \<and> j < nat (ul_lastEntry ?l + 1)"
      then show "tm (ul_node ?l) (ul_heap ?l ! par j) \<le> tm (ul_node ?l) (ul_heap ?l ! j)"
        using o nth [of j] nth [of "par j"] par_less [of j] by (auto simp: ul_realloc_def ul_ordered_def heap_order_def)
    qed
  qed
  moreover have "schedule ?l = schedule l" by (simp add: schedule_def ul_realloc_def fun_eq_iff)
  ultimately show ?thesis using insert_norealloc_spec [of ?l u ts] u True d(8) by (auto simp: ul_insert_def Let_def ul_realloc_def)
next
  case False
  then show ?thesis using insert_norealloc_spec [OF i _ u, of ts] ul_invD(7) [OF i] by (simp add: ul_insert_def Let_def)
qed

section \<open>Removing\<close>

text \<open>The order is kept if the last entry may stand below the parent of the removed one.\<close>

definition fits :: "snd_ulist \<Rightarrow> nat \<Rightarrow> bool" where
  "fits l u \<longleftrightarrow> (let q = nat (lc (ul_node l) u); m = nat (ul_lastEntry l)
     in q = 0 \<or> q = m \<or> tm (ul_node l) (ul_heap l ! par q) \<le> tm (ul_node l) (ul_heap l ! m))"

lemma remove_order:
  assumes o: "heap_order t h (Suc m)" and q: "q \<le> m" "Suc m \<le> length h"
    and f: "q = 0 \<or> q = m \<or> t (h ! par q) \<le> t (h ! m)"
  shows "order_down t (h[q := h ! m]) m q"
proof -
  have s: "h[q := h ! m] ! i = (if i = q then h ! m else h ! i)" for i using q by (simp add: nth_list_update)
  have o': "\<And>i. 0 < i \<Longrightarrow> i < m \<Longrightarrow> t (h ! par i) \<le> t (h ! i)" using o by (simp add: heap_order_def)
  show ?thesis unfolding order_down_def s
  proof (intro conjI allI impI)
    fix i assume i: "0 < i \<and> i < m \<and> par i \<noteq> q"
    then show "t (if par i = q then h ! m else h ! par i) \<le> t (if i = q then h ! m else h ! i)"
      using o' [of i] f by (cases "i = q") auto
  next
    fix i assume i: "0 < i \<and> i < m \<and> par i = q \<and> 0 < q"
    then have "t (h ! par q) \<le> t (h ! q)" "t (h ! q) \<le> t (h ! i)" using o' [of q] o' [of i] par_less [of i] by auto
    moreover have "par q \<noteq> q" "i \<noteq> q" using i par_less [of q] par_less [of i] by auto
    ultimately show "t (if par q = q then h ! m else h ! par q) \<le> t (if i = q then h ! m else h ! i)" by simp
  qed
qed

lemma set_take_remove:
  assumes "distinct (take (Suc m) h)" "q \<le> m" "Suc m \<le> length h"
  shows "distinct (take m (h[q := h ! m]))" "set (take m (h[q := h ! m])) = set (take (Suc m) h) - {h ! q}"
proof -
  have tk: "take (Suc m) h = take m h @ [h ! m]" using assms(3) by (simp add: take_Suc_conv_app_nth)
  have d: "distinct (take m h)" "h ! m \<notin> set (take m h)" using assms(1) unfolding tk by auto
  show "distinct (take m (h[q := h ! m]))" using d by (cases "q = m") (auto simp: take_update_swap distinct_list_update)
  show "set (take m (h[q := h ! m])) = set (take (Suc m) h) - {h ! q}"
  proof (cases "q = m")
    case True
    then show ?thesis using d unfolding tk by auto
  next
    case False
    then have q: "q < length (take m h)" using assms by simp
    have "set ((take m h)[q := h ! m]) = insert (h ! m) (set (take m h) - {take m h ! q})" by (rule set_update_distinct [OF d(1) q])
    moreover have "h ! q \<in> set (take m h)" using q by (metis nth_mem nth_take length_take min_less_iff_conj)
    ultimately show ?thesis using d q unfolding tk by (auto simp: take_update_swap)
  qed
qed

lemma remove_present:
  assumes i: "ul_inv l" and u: "lc (ul_node l) u \<ge> 0"
  shows "\<exists>l'. remove_node l u = Some l' \<and> ul_inv l' \<and> schedule l' = (schedule l)(u := None)
    \<and> ul_lastEntry l' = ul_lastEntry l - 1 \<and> ul_arrayLength l' = ul_arrayLength l \<and> (ul_ordered l \<and> fits l u \<longrightarrow> ul_ordered l')"
proof -
  note d = ul_invD [OF i] and iu = in_entries [OF i, of u]
  define q where "q = nat (lc (ul_node l) u)" define m where "m = nat (ul_lastEntry l)"
  let ?h = "ul_heap l" let ?y = "?h ! m" let ?nodes = "set_loc (ul_node l) ?y (int q)" let ?h1 = "?h[q := ?y]"
  have q: "lc (ul_node l) u = int q" "q \<le> m" "?h ! q = u" and m: "ul_lastEntry l = int m" "nat (ul_lastEntry l + 1) = Suc m" "Suc m \<le> length ?h"
    using u iu(2) d(2) by (auto simp: q_def m_def)
  have ds: "distinct (take (Suc m) ?h)" using d(3) m(2) by (simp add: entries_def)
  note st = set_take_remove [OF ds q(2) m(3)]
  have eq: "?h ! j = ?h ! k \<longleftrightarrow> j = k" if "j < Suc m" "k < Suc m" for j k using distinct_nth_eq [OF ds that m(3)] .
  have pl: "places ?nodes ?h1 m" unfolding places_def
  proof (intro allI impI)
    fix j assume j: "j < m"
    then show "lc ?nodes (?h1 ! j) = int j" using d(4) eq [of j m] m(2,3) q(2) by (auto simp: places_def nth_list_update)
  qed
  have lu: "lc ?nodes u = int q" using q(1) by simp
  from sift_down_spec [of m ?h1 ?nodes q, OF _ st(1) pl] m(3) obtain nodes' h' where
    s: "sift_down ?nodes ?h1 (int m - 1) (int q) (int q * 2 + 1) = Some (nodes', h')" "moved m ?nodes ?h1 nodes' h'" "places nodes' h' m"
      "order_down (tm ?nodes) ?h1 m q \<longrightarrow> heap_order (tm ?nodes) h' m" by auto
  have mv: "length h' = length ?h" "\<And>x. tm nodes' x = tm (ul_node l) x" "\<And>x. x \<notin> set (take m ?h1) \<Longrightarrow> nodes' x = ?nodes x"
    using s(2) by (auto simp: moved_def)
  have "mset (take m h') = mset (take m ?h1)" using s(2) unfolding moved_def by blast
  from mset_eq_setD [OF this] have sm: "set (take m h') = set (take (Suc m) ?h) - {u}" "distinct (take m h')"
    using st(2) q(3) moved_distinct [OF s(2) st(1)] by simp_all
  let ?l = "l\<lparr>ul_node := set_loc nodes' u (-1), ul_heap := h', ul_lastEntry := int m - 1\<rparr>"
  have rw: "rd ?h (int m) = Some ?y" "wr ?h (int q) ?y = Some ?h1" using q(2) m(3) by simp_all
  have rm: "remove_node l u = Some (if ul_lastEntry ?l = 0 then timer_interrupt ?l else ?l)"
    unfolding remove_node_def Let_def q(1) m(1) rw bind.bind_lunit lu s(1) by simp
  have nn: "nat (ul_lastEntry ?l + 1) = m" by simp
  have "u \<notin> set (take m h')" using sm by simp
  then have pl': "places (ul_node ?l) h' m"
    using s(3) nth_in_take [of _ m h'] mv(1) m(3) by (auto simp: places_def)
  have out: "lc (ul_node ?l) x = -1" if x: "x \<notin> set (take m h')" for x
  proof (cases "x = u")
    case False
    then have "x \<notin> set (take (Suc m) ?h)" using x sm(1) by blast
    then have "x \<noteq> ?y" "lc (ul_node l) x = -1" "x \<notin> set (take m ?h1)"
      using d(5) [of x] m(2,3) nth_in_take [of m "Suc m" ?h] st(2) by (auto simp: entries_def)
    then show ?thesis using mv(3) [of x] False by simp
  qed simp
  have inv: "ul_inv ?l" using d(1,6-8) mv(1) pl' out sm(2) m(1) nn by (simp add: ul_inv_def entries_def)
  have e1: "entries ?l = take m h'" and e2: "entries l = take (Suc m) ?h" unfolding entries_def nn m(2) by simp_all
  have sc: "schedule ?l = (schedule l)(u := None)"
  proof
    fix x
    have "lc (ul_node ?l) x \<ge> 0 \<longleftrightarrow> x \<noteq> u \<and> lc (ul_node l) x \<ge> 0"
      using in_entries(1) [OF inv, of x, unfolded e1 sm(1)] in_entries(1) [OF i, of x, unfolded e2] by blast
    then show "schedule ?l x = ((schedule l)(u := None)) x" using mv(2) [of x] by (auto simp: schedule_def)
  qed
  have or: "ul_ordered l \<and> fits l u \<longrightarrow> ul_ordered ?l"
    using remove_order [of "tm (ul_node l)" ?h m q] q(2) m s(4) mv(2)
    by (simp add: ul_ordered_def fits_def Let_def q_def [symmetric] m_def [symmetric] heap_order_def)
  have k: "ul_lastEntry ?l = ul_lastEntry l - 1" "ul_arrayLength ?l = ul_arrayLength l" using m(1) by simp_all
  define l1 where "l1 = ?l"
  show ?thesis using rm inv sc or k unfolding l1_def [symmetric] by (cases "ul_lastEntry l1 = 0") simp_all
qed

lemma remove_absent:
  assumes "lc (ul_node l) u < 0"
  shows "remove_node l u = Some (if ul_lastEntry l = 0 then timer_interrupt l else l)"
  using assms by (simp add: remove_node_def Let_def)

section \<open>Taking out the socket due first\<close>

lemma ul_empty:
  assumes i: "ul_inv l"
  shows "ul_lastEntry l = -1 \<longleftrightarrow> schedule l = Map.empty"
proof -
  have "schedule l = Map.empty \<longleftrightarrow> (\<forall>u. u \<notin> set (entries l))" using in_entries(1) [OF i] by (auto simp: schedule_def fun_eq_iff)
  also have "\<dots> \<longleftrightarrow> length (entries l) = 0" by (cases "entries l") auto
  also have "\<dots> \<longleftrightarrow> ul_lastEntry l = -1" using ul_invD(2,6) [OF i] by (auto simp: entries_def)
  finally show ?thesis by simp
qed

lemma scheduled_place:
  assumes "ul_inv l" "schedule l u = Some t"
  obtains k where "k < nat (ul_lastEntry l + 1)" "ul_heap l ! k = u" "t = tm (ul_node l) u"
  using assms(2) in_entries(2) [OF assms(1), of u] that [of "nat (lc (ul_node l) u)"] by (auto simp: schedule_def split: if_splits)

lemma root_earliest:
  assumes "ul_inv l" "ul_ordered l" "schedule l u = Some t"
  shows "tm (ul_node l) (ul_heap l ! 0) \<le> t"
  using scheduled_place [OF assms(1,3)] heap_root_least [OF assms(2) [unfolded ul_ordered_def]] by metis

lemma ul_root:
  assumes "ul_inv l" "ul_lastEntry l \<noteq> -1"
  shows "rd (ul_heap l) 0 = Some (ul_heap l ! 0)" "lc (ul_node l) (ul_heap l ! 0) = 0" "fits l (ul_heap l ! 0)"
    "schedule l (ul_heap l ! 0) = Some (tm (ul_node l) (ul_heap l ! 0))"
proof -
  note d = ul_invD [OF assms(1)]
  have n: "0 < nat (ul_lastEntry l + 1)" using d(6) assms(2) by linarith
  show "rd (ul_heap l) 0 = Some (ul_heap l ! 0)" using order_less_le_trans [OF n d(2)] by (simp add: rd_def)
  show lc0: "lc (ul_node l) (ul_heap l ! 0) = 0" using d(4) n by (auto simp: places_def)
  then show "fits l (ul_heap l ! 0)" "schedule l (ul_heap l ! 0) = Some (tm (ul_node l) (ul_heap l ! 0))"
    by (simp_all add: fits_def schedule_def)
qed

text \<open>Taking out at most \<open>n\<close> events, as long as one is due.\<close>

fun take_all :: "(int \<Rightarrow> 's \<Rightarrow> ('k option \<times> 's) option) \<Rightarrow> int \<Rightarrow> nat \<Rightarrow> 's \<Rightarrow> ('k list \<times> 's) option" where
  "take_all f now 0 s = Some ([], s)"
| "take_all f now (Suc n) s =
     do { (r, s1) \<leftarrow> f now s;
          case r of None \<Rightarrow> Some ([], s1)
          | Some u \<Rightarrow> do { (us, s2) \<leftarrow> take_all f now n s1; Some (u # us, s2) } }"

text \<open>An interface of a queue of timed events, and what a client draining it sees.\<close>

locale timed_queue =
  fixes ok :: "'s \<Rightarrow> bool"
    and times :: "'s \<Rightarrow> 'k \<rightharpoonup> int"
    and add :: "'s \<Rightarrow> int \<Rightarrow> 'k \<Rightarrow> 's option"
    and take_due :: "int \<Rightarrow> 's \<Rightarrow> ('k option \<times> 's) option"
  assumes add_sets: "ok s \<Longrightarrow> times s u = None \<Longrightarrow> \<exists>s'. add s ts u = Some s' \<and> ok s' \<and> times s' = (times s)(u \<mapsto> ts)"
    and take_earliest: "ok s \<Longrightarrow> times s u = Some t \<Longrightarrow> t \<le> now \<Longrightarrow> (\<exists>v t' s'. take_due now s = Some (Some v, s') \<and> times s v = Some t'
        \<and> t' \<le> now \<and> (\<forall>w t''. times s w = Some t'' \<longrightarrow> t' \<le> t'') \<and> ok s' \<and> times s' = (times s)(v := None))"
    and take_none: "ok s \<Longrightarrow> \<forall>u t. times s u = Some t \<longrightarrow> now < t \<Longrightarrow> take_due now s = Some (None, s)"
begin

lemma add_all:
  assumes "ok s" "distinct (map fst us)" "\<And>u ts. (u, ts) \<in> set us \<Longrightarrow> times s u = None"
  shows "\<exists>s'. fold (\<lambda>(u, ts) r. Option.bind r (\<lambda>s. add s ts u)) us (Some s) = Some s' \<and> ok s' \<and> times s' = times s ++ map_of us"
  using assms
proof (induction us arbitrary: s)
  case (Cons a us)
  obtain u ts where a: "a = (u, ts)" by (cases a)
  obtain s1 where s1: "add s ts u = Some s1" "ok s1" "times s1 = (times s)(u \<mapsto> ts)" using add_sets [OF Cons.prems(1)] Cons.prems(3) a by (metis list.set_intros(1))
  have "times s1 v = None" if "(v, t) \<in> set us" for v t using that s1(3) Cons.prems(2,3) a by (force simp: image_iff)
  with Cons.IH [OF s1(2)] Cons.prems(2) obtain s' where s': "fold (\<lambda>(u, ts) r. Option.bind r (\<lambda>s. add s ts u)) us (Some s1) = Some s'" "ok s'"
    "times s' = times s1 ++ map_of us" by fastforce
  have "map_of us u = None" using Cons.prems(2) a by (simp add: map_of_eq_None_iff)
  then have "times s' = times s ++ map_of (a # us)" unfolding s'(3) s1(3) a by (auto simp: fun_eq_iff map_add_def split: option.splits)
  moreover have "fold (\<lambda>(u, ts) r. Option.bind r (\<lambda>s. add s ts u)) (a # us) (Some s) = Some s'" using s'(1) s1(1) a by simp
  ultimately show ?case using s'(2) by blast
qed simp

text \<open>Taking out as long as something is due gives the events in the order of their times.\<close>

lemma drain_in_order:
  assumes "ok s"
  shows "\<exists>us s'. take_all take_due now n s = Some (us, s') \<and> ok s' \<and> distinct us \<and> sorted (map (\<lambda>u. the (times s u)) us)
    \<and> times s' = (times s) |` (- set us) \<and> (\<forall>u \<in> set us. \<exists>t. times s u = Some t \<and> t \<le> now \<and> (\<forall>v t'. times s' v = Some t' \<longrightarrow> t \<le> t'))
    \<and> (length us < n \<longrightarrow> (\<forall>v t'. times s' v = Some t' \<longrightarrow> now < t'))"
  using assms
proof (induction n arbitrary: s)
  case (Suc n)
  show ?case
  proof (cases "\<exists>u t. times s u = Some t \<and> t \<le> now")
    case False
    then have "take_due now s = Some (None, s)" by (intro take_none [OF Suc.prems]) force
    then show ?thesis using False Suc.prems by (intro exI [of _ "[]"] exI [of _ s]) force
  next
    case True
    then obtain u0 t0 where "times s u0 = Some t0" "t0 \<le> now" by blast
    from take_earliest [OF Suc.prems this] obtain v t s1 where v: "take_due now s = Some (Some v, s1)" "times s v = Some t" "t \<le> now"
      "\<And>w t'. times s w = Some t' \<Longrightarrow> t \<le> t'" "ok s1" "times s1 = (times s)(v := None)" by blast
    from Suc.IH [OF v(5)] obtain us s' where ih: "take_all take_due now n s1 = Some (us, s')" "ok s'" "distinct us"
      "sorted (map (\<lambda>u. the (times s1 u)) us)" "times s' = (times s1) |` (- set us)"
      "\<forall>u \<in> set us. \<exists>t. times s1 u = Some t \<and> t \<le> now \<and> (\<forall>v t'. times s' v = Some t' \<longrightarrow> t \<le> t')"
      "length us < n \<longrightarrow> (\<forall>v t'. times s' v = Some t' \<longrightarrow> now < t')" by blast
    have sub: "u \<noteq> v \<and> times s1 u = times s u" if "u \<in> set us" for u using that ih(6) v(6) by fastforce
    have m: "map (\<lambda>u. the (times s1 u)) us = map (\<lambda>u. the (times s u)) us" using sub by simp
    have ge: "t \<le> the (times s u)" if "u \<in> set us" for u using that sub v(4) ih(6) by fastforce
    have t': "times s' = (times s) |` (- set (v # us))" unfolding ih(5) v(6) by (auto simp: restrict_map_def fun_eq_iff)
    have rest: "t \<le> t'" if "times s' w = Some t'" for w t' using that v(4) [of w t'] unfolding t' by (auto simp: restrict_map_def split: if_splits)
    have "take_all take_due now (Suc n) s = Some (v # us, s')" using v(1) ih(1) by simp
    moreover have "sorted (map (\<lambda>u. the (times s u)) (v # us))" using ih(4) m ge v(2) by simp
    moreover have "distinct (v # us)" using ih(3) sub by auto
    moreover have "\<forall>u \<in> set (v # us). \<exists>t. times s u = Some t \<and> t \<le> now \<and> (\<forall>v t'. times s' v = Some t' \<longrightarrow> t \<le> t')"
      using v(2,3) rest ih(6) sub by (metis set_ConsD)
    ultimately show ?thesis using ih(2,7) t' by (intro exI [of _ "v # us"] exI [of _ s']) simp
  qed
qed (intro exI [of _ "[]"], auto)

end

section \<open>The schedule as such a queue\<close>

definition ul_fine :: "snd_ulist \<Rightarrow> bool" where
  "ul_fine l \<longleftrightarrow> ul_inv l \<and> ul_ordered l"

text \<open>Inserting with new arrays filled by some value.\<close>

definition ul_add :: "nat \<Rightarrow> snd_ulist \<Rightarrow> int \<Rightarrow> nat \<Rightarrow> snd_ulist option" where
  "ul_add fill l ts u = ul_insert (replicate (nat (ul_arrayLength l)) fill) l ts u"

lemma schedule_None: "schedule l u = None \<longleftrightarrow> lc (ul_node l) u < 0"
  by (auto simp: schedule_def)

interpretation ul: timed_queue ul_fine schedule "ul_add fill" ul_pop for fill
proof
  show "\<exists>l'. ul_add fill l ts u = Some l' \<and> ul_fine l' \<and> schedule l' = (schedule l)(u \<mapsto> ts)" if "ul_fine l" "schedule l u = None" for l ts u
    using that ul_insert_spec [of l u "replicate (nat (ul_arrayLength l)) fill" ts] ul_invD(8) [of l]
    by (auto simp: ul_fine_def ul_add_def schedule_None)
  show "\<exists>v t' l'. ul_pop now l = Some (Some v, l') \<and> schedule l v = Some t' \<and> t' \<le> now \<and> (\<forall>w t''. schedule l w = Some t'' \<longrightarrow> t' \<le> t'')
      \<and> ul_fine l' \<and> schedule l' = (schedule l)(v := None)" if f: "ul_fine l" and u: "schedule l u = Some t" "t \<le> now" for l u t now
  proof -
    have i: "ul_inv l" "ul_ordered l" using f by (auto simp: ul_fine_def)
    have ne: "ul_lastEntry l \<noteq> -1" using ul_empty [OF i(1)] u(1) by auto
    note r = ul_root [OF i(1) ne]
    have now: "tm (ul_node l) (ul_heap l ! 0) \<le> now" using root_earliest [OF i u(1)] u(2) by simp
    from remove_present [OF i(1), of "ul_heap l ! 0"] r(2) obtain l' where "remove_node l (ul_heap l ! 0) = Some l'" "ul_inv l'"
      "schedule l' = (schedule l)(ul_heap l ! 0 := None)" "ul_ordered l \<and> fits l (ul_heap l ! 0) \<longrightarrow> ul_ordered l'" by auto
    then show ?thesis using r now ne i root_earliest [OF i]
      by (intro exI [of _ "ul_heap l ! 0"] exI [of _ "tm (ul_node l) (ul_heap l ! 0)"] exI [of _ l']) (simp add: ul_pop_def ul_fine_def)
  qed
  show "ul_pop now l = Some (None, l)" if f: "ul_fine l" and u: "\<forall>u t. schedule l u = Some t \<longrightarrow> now < t" for l now
  proof (cases "ul_lastEntry l = -1")
    case False
    then show ?thesis using ul_root [of l] f u by (auto simp: ul_fine_def ul_pop_def)
  qed (simp add: ul_pop_def)
qed

section \<open>Rescheduling\<close>

lemma update_root:
  assumes i: "ul_inv l" and u: "lc (ul_node l) u = 0" and ts: "ts < tm (ul_node l) u"
  defines "l' \<equiv> l\<lparr>ul_node := set_time (ul_node l) u ts\<rparr>"
  shows "ul_inv l'" "schedule l' = (schedule l)(u \<mapsto> ts)" "ul_ordered l \<longrightarrow> ul_ordered l'"
proof -
  note d = ul_invD [OF i]
  show "ul_inv l'" using i by (simp add: ul_inv_def l'_def entries_def places_def)
  show "schedule l' = (schedule l)(u \<mapsto> ts)" using u by (auto simp: schedule_def l'_def fun_eq_iff)
  have root: "ul_heap l ! 0 = u" using in_entries(2) [OF i, of u] u by simp
  have ne: "ul_heap l ! k \<noteq> u" if "0 < k" "k < nat (ul_lastEntry l + 1)" for k
    using distinct_nth_eq [of "nat (ul_lastEntry l + 1)" "ul_heap l" k 0] that d(2,3) root by (auto simp: entries_def)
  show "ul_ordered l \<longrightarrow> ul_ordered l'"
  proof
    assume o: "ul_ordered l"
    show "ul_ordered l'" unfolding ul_ordered_def heap_order_def
    proof (intro allI impI)
      fix j assume j: "0 < j \<and> j < nat (ul_lastEntry l' + 1)"
      then have le: "tm (ul_node l) (ul_heap l ! par j) \<le> tm (ul_node l) (ul_heap l ! j)" "ul_heap l ! j \<noteq> u"
        using o ne [of j] by (auto simp: ul_ordered_def heap_order_def l'_def)
      then show "tm (ul_node l') (ul_heap l' ! par j) \<le> tm (ul_node l') (ul_heap l' ! j)" using ts by (auto simp: l'_def)
    qed
  qed
qed

definition rescheduled :: "(nat \<rightharpoonup> int) \<Rightarrow> nat \<Rightarrow> EReschedule \<Rightarrow> int \<Rightarrow> nat \<rightharpoonup> int" where
  "rescheduled s u r ts = (case s u of None \<Rightarrow> s(u \<mapsto> ts)
     | Some t \<Rightarrow> if r = DO_RESCHEDULE \<and> ts < t then s(u \<mapsto> ts) else s)"

lemma ul_update_spec:
  assumes i: "ul_inv l" and f: "int (length fresh) = ul_arrayLength l"
  shows "\<exists>l'. ul_update fresh l u r ts = Some l' \<and> ul_inv l' \<and> schedule l' = rescheduled (schedule l) u r ts
    \<and> (ul_ordered l \<and> (lc (ul_node l) u \<ge> 0 \<longrightarrow> fits l u) \<longrightarrow> ul_ordered l')"
proof (cases "lc (ul_node l) u \<ge> 0")
  case False
  then have "schedule l u = None" by (simp add: schedule_None)
  then show ?thesis using ul_insert_spec [OF i _ f, of u ts] False by (auto simp: ul_update_def Let_def rescheduled_def)
next
  case u: True
  then have s: "schedule l u = Some (tm (ul_node l) u)" by (simp add: schedule_def)
  show ?thesis
  proof (cases "r = DO_RESCHEDULE \<and> ts < tm (ul_node l) u")
    case False
    then have "ul_update fresh l u r ts = Some l" using u by (cases r) (auto simp: ul_update_def Let_def)
    then show ?thesis using i s False by (auto simp: rescheduled_def)
  next
    case True
    show ?thesis
    proof (cases "lc (ul_node l) u = 0")
      case z: True
      note ur = update_root [OF i z, of ts]
      have "ul_update fresh l u r ts = Some (timer_interrupt (l\<lparr>ul_node := set_time (ul_node l) u ts\<rparr>))"
        using True z by (simp add: ul_update_def Let_def)
      then show ?thesis using ur True s by (simp add: rescheduled_def)
    next
      case False
      obtain l1 where l1: "remove_node l u = Some l1" "ul_inv l1" "schedule l1 = (schedule l)(u := None)" "ul_lastEntry l1 = ul_lastEntry l - 1"
        "ul_arrayLength l1 = ul_arrayLength l" "ul_ordered l \<and> fits l u \<longrightarrow> ul_ordered l1" using remove_present [OF i u] by blast
      have "ul_lastEntry l1 + 1 < ul_arrayLength l1" using l1(4,5) ul_invD(7) [OF i] by simp
      moreover have "lc (ul_node l1) u < 0" using l1(3) schedule_None [of l1 u] by simp
      ultimately obtain l2 where "insert_norealloc l1 ts u = Some l2" "ul_inv l2" "schedule l2 = (schedule l1)(u \<mapsto> ts)" "ul_ordered l1 \<longrightarrow> ul_ordered l2"
        using insert_norealloc_spec [OF l1(2)] by blast
      moreover have "ul_update fresh l u r ts = Option.bind (remove_node l u) (\<lambda>l1. insert_norealloc l1 ts u)"
        using True False u by (simp add: ul_update_def Let_def)
      ultimately show ?thesis using l1 s True u by (simp add: rescheduled_def)
    qed
  qed
qed

section \<open>Properties\<close>

definition idle_node :: csnode where
  "idle_node = \<lparr>m_tsTimeStamp = 0, m_iHeapLoc = -1\<rparr>"

definition new_ulist :: snd_ulist where
  "new_ulist = CSndUList (\<lambda>u. idle_node) (replicate 512 0)"

lemma new_ulist_inv: "ul_inv new_ulist" "ul_ordered new_ulist" "schedule new_ulist = Map.empty" "ul_arrayLength new_ulist = 512"
  unfolding new_ulist_def by (rule CSndUList_inv; simp add: idle_node_def)+ (simp add: CSndUList_def)

definition add_all_to :: "(nat \<times> int) list \<Rightarrow> snd_ulist \<Rightarrow> snd_ulist option" where
  "add_all_to us l = fold (\<lambda>(u, ts) r. Option.bind r (\<lambda>l. ul_add 0 l ts u)) us (Some l)"

text \<open>
  Earliest first: while the heap is ordered, repeated \<open>pop\<close> returns every socket that is due, each once, in the order of their
  times, none later than any that stays; what stays keeps its time, and when fewer come out than asked for, nothing
  left is due.
\<close>

theorem sockets_popped_in_time_order:
  assumes "ul_inv l" "ul_ordered l"
  shows "\<exists>us l'. take_all ul_pop now n l = Some (us, l') \<and> ul_inv l' \<and> ul_ordered l' \<and> distinct us \<and> sorted (map (\<lambda>u. the (schedule l u)) us)
    \<and> schedule l' = (schedule l) |` (- set us)
    \<and> (\<forall>u \<in> set us. \<exists>t. schedule l u = Some t \<and> t \<le> now \<and> (\<forall>v t'. schedule l' v = Some t' \<longrightarrow> t \<le> t'))
    \<and> (length us < n \<longrightarrow> (\<forall>v t'. schedule l' v = Some t' \<longrightarrow> now < t'))"
  using ul.drain_in_order [of l now n] assms unfolding ul_fine_def by simp

theorem sockets_popped_in_time_order_witness:
  "\<exists>l us l'. add_all_to [(4, 30), (7, 10), (9, 50)] new_ulist = Some l \<and> take_all ul_pop 40 5 l = Some (us, l')
    \<and> sorted (map (\<lambda>u. the (schedule l u)) us) \<and> schedule l' = (schedule l) |` (- set us)"
proof -
  have "\<exists>l. add_all_to [(4, 30), (7, 10), (9, 50)] new_ulist = Some l \<and> ul_fine l \<and> schedule l = schedule new_ulist ++ map_of [(4, 30), (7, 10), (9, 50)]"
    unfolding add_all_to_def by (rule ul.add_all) (use new_ulist_inv in \<open>simp_all add: ul_fine_def\<close>)
  then obtain l where l: "add_all_to [(4, 30), (7, 10), (9, 50)] new_ulist = Some l" "ul_inv l" "ul_ordered l" by (auto simp: ul_fine_def)
  from sockets_popped_in_time_order [OF l(2,3), of 40 5] l(1) show ?thesis by blast
qed

text \<open>
  C15. Refinement of a map from sockets to times: on a consistent list every operation returns and leaves a consistent one.
  \<open>update\<close> schedules a socket that is not there, brings the time of one that is there forward when asked to
  reschedule, and changes nothing otherwise; \<open>remove\<close> takes out exactly its socket; \<open>pop\<close> takes out what it returns.
  Growing the array is part of it. The order of the heap is kept by \<open>update\<close> and \<open>remove\<close> when the last entry
  fits below the parent of the one taken out.
\<close>

theorem schedule_operations:
  assumes i: "ul_inv l" and f: "int (length fresh) = ul_arrayLength l"
  shows "(\<exists>l'. ul_update fresh l u r ts = Some l' \<and> ul_inv l' \<and> schedule l' = rescheduled (schedule l) u r ts
      \<and> (ul_ordered l \<and> (schedule l u \<noteq> None \<longrightarrow> fits l u) \<longrightarrow> ul_ordered l'))
    \<and> (\<exists>l'. ul_remove l u = Some l' \<and> ul_inv l' \<and> schedule l' = (schedule l)(u := None)
      \<and> (ul_ordered l \<and> (schedule l u \<noteq> None \<longrightarrow> fits l u) \<longrightarrow> ul_ordered l'))
    \<and> (\<exists>v l'. ul_pop now l = Some (v, l') \<and> ul_inv l' \<and> schedule l' = (case v of None \<Rightarrow> schedule l | Some w \<Rightarrow> (schedule l)(w := None))
      \<and> (ul_ordered l \<longrightarrow> ul_ordered l'))"
proof (intro conjI)
  have c: "schedule l u \<noteq> None \<longleftrightarrow> lc (ul_node l) u \<ge> 0" using schedule_None [of l u] by auto
  show "\<exists>l'. ul_update fresh l u r ts = Some l' \<and> ul_inv l' \<and> schedule l' = rescheduled (schedule l) u r ts
      \<and> (ul_ordered l \<and> (schedule l u \<noteq> None \<longrightarrow> fits l u) \<longrightarrow> ul_ordered l')" unfolding c by (rule ul_update_spec [OF i f])
  show "\<exists>l'. ul_remove l u = Some l' \<and> ul_inv l' \<and> schedule l' = (schedule l)(u := None)
      \<and> (ul_ordered l \<and> (schedule l u \<noteq> None \<longrightarrow> fits l u) \<longrightarrow> ul_ordered l')"
  proof (cases "lc (ul_node l) u \<ge> 0")
    case True
    then show ?thesis using remove_present [OF i True] c unfolding ul_remove_def by auto
  next
    case False
    then have "(schedule l)(u := None) = schedule l" using schedule_None [of l u] by (auto simp: fun_eq_iff)
    then show ?thesis using remove_absent [of l u] False i unfolding ul_remove_def by simp
  qed
  show "\<exists>v l'. ul_pop now l = Some (v, l') \<and> ul_inv l' \<and> schedule l' = (case v of None \<Rightarrow> schedule l | Some w \<Rightarrow> (schedule l)(w := None))
      \<and> (ul_ordered l \<longrightarrow> ul_ordered l')"
  proof (cases "ul_lastEntry l = -1 \<or> now < tm (ul_node l) (ul_heap l ! 0)")
    case True
    then have "ul_pop now l = Some (None, l)" using ul_root(1) [OF i] by (auto simp: ul_pop_def)
    then show ?thesis using i by simp
  next
    case False
    note rt = ul_root [OF i]
    obtain l' where "remove_node l (ul_heap l ! 0) = Some l'" "ul_inv l'" "schedule l' = (schedule l)(ul_heap l ! 0 := None)"
      "ul_ordered l \<and> fits l (ul_heap l ! 0) \<longrightarrow> ul_ordered l'" using remove_present [OF i, of "ul_heap l ! 0"] rt(2) False by auto
    moreover have "ul_pop now l = Option.bind (remove_node l (ul_heap l ! 0)) (\<lambda>l'. Some (Some (ul_heap l ! 0), l'))" using rt(1) False by (simp add: ul_pop_def)
    ultimately show ?thesis using rt(3) False by simp
  qed
qed

theorem schedule_operations_witness:
  "\<exists>l'. ul_update (replicate 512 0) new_ulist 3 DO_RESCHEDULE 20 = Some l' \<and> ul_inv l' \<and> schedule l' = [3 \<mapsto> 20]"
  using schedule_operations [OF new_ulist_inv(1), of "replicate 512 0" 3 DO_RESCHEDULE 20 0] new_ulist_inv
  by (auto simp: rescheduled_def)


end
