(* ===== verification/Handshake.thy ===== *)
theory Handshake
  imports Bitfield SeqNo
begin

text \<open>
  The handshake records of \<^verbatim>\<open>srtcore/handshake.h\<close> and \<^verbatim>\<open>srtcore/handshake.cpp\<close>: \<^verbatim>\<open>CHandShake\<close>, the
  fixed part of every handshake message, \<^verbatim>\<open>SrtHSRequest\<close>, request types, rejection codes and the
  flag fields. A message buffer is the array of 32-bit words that the code casts it to; writes and
  reads are checked, so a result \<open>Some\<close> includes that they stay inside the buffer.
\<close>

unbundle bit_operations_syntax

section \<open>Reading and writing consecutive words\<close>

primrec put_words :: "'a list \<Rightarrow> int \<Rightarrow> 'a list \<Rightarrow> 'a list option" where
  "put_words buf i [] = Some buf"
| "put_words buf i (w # ws) = do { buf' \<leftarrow> wr buf i w; put_words buf' (i + 1) ws }"

primrec get_words :: "'a list \<Rightarrow> int \<Rightarrow> nat \<Rightarrow> 'a list option" where
  "get_words buf i 0 = Some []"
| "get_words buf i (Suc n) = do { w \<leftarrow> rd buf i; ws \<leftarrow> get_words buf (i + 1) n; Some (w # ws) }"

lemma put_words_Some:
  "i + length ws \<le> length buf \<Longrightarrow>
     put_words buf (int i) ws = Some (take i buf @ ws @ drop (i + length ws) buf)"
proof (induction ws arbitrary: buf i)
  case Nil
  then show ?case by simp
next
  case (Cons w ws)
  have "put_words (buf[i := w]) (int (Suc i)) ws
      = Some (take (Suc i) (buf[i := w]) @ ws @ drop (Suc i + length ws) (buf[i := w]))"
    using Cons.prems by (intro Cons.IH) simp
  moreover have "take (Suc i) (buf[i := w]) = take i buf @ [w]"
    using Cons.prems by (simp add: take_Suc_conv_app_nth)
  ultimately show ?case
    using Cons.prems by (simp add: wr_def add.commute)
qed

lemma get_words_Some:
  "i + n \<le> length buf \<Longrightarrow> get_words buf (int i) n = Some (take n (drop i buf))"
proof (induction n arbitrary: i)
  case 0
  then show ?case by simp
next
  case (Suc n)
  have "get_words buf (int (Suc i)) n = Some (take n (drop (Suc i) buf))"
    using Suc.prems by (intro Suc.IH) simp
  then show ?case
    using Suc.prems by (simp add: rd_def add.commute Cons_nth_drop_Suc [symmetric])
qed

lemma put_words_0: "length ws = n \<Longrightarrow> n \<le> length buf \<Longrightarrow> put_words buf 0 ws = Some (ws @ drop n buf)"
  using put_words_Some [of 0 ws buf] by auto

section \<open>Request types and rejection codes\<close>

definition URQ_INDUCTION_TYPES :: int where "URQ_INDUCTION_TYPES = 0"
definition URQ_INDUCTION :: int where "URQ_INDUCTION = 1"
definition URQ_WAVEAHAND :: int where "URQ_WAVEAHAND = 0"
definition URQ_CONCLUSION :: int where "URQ_CONCLUSION = -1"
definition URQ_AGREEMENT :: int where "URQ_AGREEMENT = -2"
definition URQ_DONE :: int where "URQ_DONE = -3"
definition URQ_FAILURE_TYPES :: int where "URQ_FAILURE_TYPES = 1000"

definition SRT_REJC_PREDEFINED :: int where "SRT_REJC_PREDEFINED = 1000"
definition SRT_REJC_USERDEFINED :: int where "SRT_REJC_USERDEFINED = 2000"

definition URQ_SERVER_FAILURE_TYPES :: int where
  "URQ_SERVER_FAILURE_TYPES = URQ_FAILURE_TYPES + SRT_REJC_PREDEFINED"
definition URQ_USER_FAILURE_TYPES :: int where
  "URQ_USER_FAILURE_TYPES = URQ_FAILURE_TYPES + SRT_REJC_USERDEFINED"

datatype SRT_REJECT_REASON = SRT_REJ_UNKNOWN | SRT_REJ_SYSTEM | SRT_REJ_PEER | SRT_REJ_RESOURCE
  | SRT_REJ_ROGUE | SRT_REJ_BACKLOG | SRT_REJ_IPE | SRT_REJ_CLOSE | SRT_REJ_VERSION | SRT_REJ_RDVCOOKIE
  | SRT_REJ_BADSECRET | SRT_REJ_UNSECURE | SRT_REJ_MESSAGEAPI | SRT_REJ_CONGESTION | SRT_REJ_FILTER
  | SRT_REJ_GROUP | SRT_REJ_TIMEOUT | SRT_REJ_CRYPTO

fun rej_code :: "SRT_REJECT_REASON \<Rightarrow> int" where
  "rej_code SRT_REJ_UNKNOWN = 0" | "rej_code SRT_REJ_SYSTEM = 1" | "rej_code SRT_REJ_PEER = 2"
| "rej_code SRT_REJ_RESOURCE = 3" | "rej_code SRT_REJ_ROGUE = 4" | "rej_code SRT_REJ_BACKLOG = 5"
| "rej_code SRT_REJ_IPE = 6" | "rej_code SRT_REJ_CLOSE = 7" | "rej_code SRT_REJ_VERSION = 8"
| "rej_code SRT_REJ_RDVCOOKIE = 9" | "rej_code SRT_REJ_BADSECRET = 10" | "rej_code SRT_REJ_UNSECURE = 11"
| "rej_code SRT_REJ_MESSAGEAPI = 12" | "rej_code SRT_REJ_CONGESTION = 13" | "rej_code SRT_REJ_FILTER = 14"
| "rej_code SRT_REJ_GROUP = 15" | "rej_code SRT_REJ_TIMEOUT = 16" | "rej_code SRT_REJ_CRYPTO = 17"

definition SRT_REJ_E_SIZE :: int where "SRT_REJ_E_SIZE = 18"

definition URQFailure :: "int \<Rightarrow> int" where
  "URQFailure reason = URQ_FAILURE_TYPES + reason"

definition RejectReasonForURQ :: "int \<Rightarrow> int" where
  "RejectReasonForURQ req =
     (if req < URQ_FAILURE_TYPES then rej_code SRT_REJ_UNKNOWN
      else let reason = req - URQ_FAILURE_TYPES in
           if reason < SRT_REJC_PREDEFINED \<and> reason \<ge> SRT_REJ_E_SIZE then rej_code SRT_REJ_UNKNOWN
           else reason)"

lemmas urq_defs = URQ_INDUCTION_TYPES_def URQ_INDUCTION_def URQ_WAVEAHAND_def URQ_CONCLUSION_def
  URQ_AGREEMENT_def URQ_DONE_def URQ_FAILURE_TYPES_def

lemma rej_code_range: "0 \<le> rej_code r \<and> rej_code r < SRT_REJ_E_SIZE"
  by (cases r) (simp_all add: SRT_REJ_E_SIZE_def)

lemma reject_code_roundtrip: "RejectReasonForURQ (URQFailure (rej_code r)) = rej_code r"
  using rej_code_range [of r] by (simp add: RejectReasonForURQ_def URQFailure_def)

lemma reject_code_known:
  "0 \<le> RejectReasonForURQ req"
  "RejectReasonForURQ req < SRT_REJ_E_SIZE \<or> SRT_REJC_PREDEFINED \<le> RejectReasonForURQ req"
  by (auto simp: RejectReasonForURQ_def Let_def SRT_REJ_E_SIZE_def)

section \<open>Flag fields\<close>

definition SRT_MAGIC_CODE :: "32 word" where "SRT_MAGIC_CODE = 0x4A17"

abbreviation SRT_HSTYPE_ENCFLAGS_wrap :: "32 word \<Rightarrow> 32 word" where "SRT_HSTYPE_ENCFLAGS_wrap \<equiv> Bits_wrap 31 16"
abbreviation SRT_HSTYPE_ENCFLAGS_unwrap :: "32 word \<Rightarrow> 32 word" where "SRT_HSTYPE_ENCFLAGS_unwrap \<equiv> Bits_unwrap 31 16"
abbreviation SRT_HSTYPE_HSFLAGS_unwrap :: "32 word \<Rightarrow> 32 word" where "SRT_HSTYPE_HSFLAGS_unwrap \<equiv> Bits_unwrap 15 0"
abbreviation SRT_PBKEYLEN_BITS_unwrap :: "32 word \<Rightarrow> 32 word" where "SRT_PBKEYLEN_BITS_unwrap \<equiv> Bits_unwrap 5 3"

definition wrapFlags :: "bool \<Rightarrow> 32 word \<Rightarrow> 32 word" where
  "wrapFlags withmagic crypto_keylen =
     (if withmagic then SRT_MAGIC_CODE else 0) OR SRT_HSTYPE_ENCFLAGS_wrap (SRT_PBKEYLEN_BITS_unwrap crypto_keylen)"

definition HS_EXT_HSREQ :: "32 word" where "HS_EXT_HSREQ = 1"
definition HS_EXT_KMREQ :: "32 word" where "HS_EXT_KMREQ = 2"
definition HS_EXT_CONFIG :: "32 word" where "HS_EXT_CONFIG = 4"

text \<open>The low half of the type field carries the extension flags, the high half the key length.\<close>

interpretation hsflags: disjoint_bitfields 15 0 31 16 by unfold_locales simp_all

interpretation encflags: disjoint_bitfields 31 16 15 0 by unfold_locales simp_all

lemma wrapFlags_hsflags:
  "SRT_HSTYPE_HSFLAGS_unwrap (wrapFlags m k) = (if m then SRT_MAGIC_CODE else 0)"
  unfolding wrapFlags_def hsflags.unwrap_or_other
  by (simp add: SRT_MAGIC_CODE_def Bits_unwrap_def eval_nat_numeral)

section \<open>The handshake record\<close>

record handshake =
  m_iVersion :: "32 word"
  m_iType :: "32 word"
  m_iISN :: "32 word"
  m_iMSS :: "32 word"
  m_iFlightFlagSize :: "32 word"
  m_iReqType :: int
  m_iID :: "32 word"
  m_iCookie :: "32 word"
  m_piPeerIP :: "32 word list"
  m_extension :: bool

definition m_iContentSize :: nat where "m_iContentSize = 48"

definition HS_VERSION_UDT4 :: int where "HS_VERSION_UDT4 = 4"
definition HS_VERSION_SRT1 :: int where "HS_VERSION_SRT1 = 5"

definition CHandShake :: handshake where
  "CHandShake = \<lparr>m_iVersion = 0, m_iType = 0, m_iISN = 0, m_iMSS = 0, m_iFlightFlagSize = 0,
     m_iReqType = URQ_WAVEAHAND, m_iID = 0, m_iCookie = 0, m_piPeerIP = replicate 4 0, m_extension = False\<rparr>"

definition store_to :: "handshake \<Rightarrow> 32 word list \<Rightarrow> nat \<Rightarrow> (int \<times> 32 word list \<times> nat) option" where
  "store_to hs buf w_size =
     (if w_size < m_iContentSize then Some (-1, buf, w_size)
      else do {
        ip \<leftarrow> get_words (m_piPeerIP hs) 0 4;
        buf' \<leftarrow> put_words buf 0 ([m_iVersion hs, m_iType hs, m_iISN hs, m_iMSS hs, m_iFlightFlagSize hs,
                  word_of_int (m_iReqType hs), m_iID hs, m_iCookie hs] @ ip);
        Some (0, buf', m_iContentSize) })"

definition load_from :: "handshake \<Rightarrow> 32 word list \<Rightarrow> nat \<Rightarrow> (int \<times> handshake) option" where
  "load_from hs buf len =
     (if len < m_iContentSize then Some (-1, hs)
      else do {
        version \<leftarrow> rd buf 0; type \<leftarrow> rd buf 1; isn \<leftarrow> rd buf 2; mss \<leftarrow> rd buf 3; flw \<leftarrow> rd buf 4;
        req \<leftarrow> rd buf 5; ident \<leftarrow> rd buf 6; cookie \<leftarrow> rd buf 7; ip \<leftarrow> get_words buf 8 4;
        Some (0, hs\<lparr>m_iVersion := version, m_iType := type, m_iISN := isn, m_iMSS := mss,
          m_iFlightFlagSize := flw, m_iReqType := sint req, m_iID := ident, m_iCookie := cookie,
          m_piPeerIP := ip\<rparr>) })"

definition hs_valid :: "handshake \<Rightarrow> bool" where
  "hs_valid hs \<longleftrightarrow>
     \<not> (sint (m_iVersion hs) < HS_VERSION_UDT4 \<or> sint (m_iISN hs) < 0 \<or> sint (m_iISN hs) \<ge> m_iMaxSeqNo
        \<or> sint (m_iMSS hs) < 32 \<or> sint (m_iFlightFlagSize hs) < 2)"

definition v5orHigher :: "handshake \<Rightarrow> bool" where
  "v5orHigher hs \<longleftrightarrow> sint (m_iVersion hs) > 4"

text \<open>A record that the code can hold: four address words, a request type inside the \<^verbatim>\<open>int32_t\<close> range.\<close>

definition hs_wf :: "handshake \<Rightarrow> bool" where
  "hs_wf hs \<longleftrightarrow> length (m_piPeerIP hs) = 4 \<and> in_int32 (m_iReqType hs)"

lemma sint_word_of_int32: "in_int32 x \<Longrightarrow> sint (word_of_int x :: 32 word) = x"
  by (simp add: in_int32_def int_word_sint)

text \<open>The words of the fixed part: they are written to the start of the packet and read back from there.\<close>

lemma store_to_words:
  assumes "hs_wf hs" "m_iContentSize \<le> sz" "sz \<le> 4 * length buf"
  obtains hdr where "length hdr = 12" "store_to hs buf sz = Some (0, hdr @ drop 12 buf, m_iContentSize)"
    "\<And>hs0 rest n. m_iContentSize \<le> n \<Longrightarrow> load_from hs0 (hdr @ rest) n = Some (0, hs\<lparr>m_extension := m_extension hs0\<rparr>)"
proof -
  obtain a b c d where ip: "m_piPeerIP hs = [a, b, c, d]"
    using assms(1) by (auto simp: hs_wf_def numeral_eq_Suc length_Suc_conv)
  define ws where "ws = [m_iVersion hs, m_iType hs, m_iISN hs, m_iMSS hs, m_iFlightFlagSize hs,
    word_of_int (m_iReqType hs), m_iID hs, m_iCookie hs, a, b, c, d]"
  have len: "12 \<le> length buf" using assms(2,3) by (simp add: m_iContentSize_def)
  have get: "get_words [a, b, c, d] 0 4 = Some [a, b, c, d]"
    using get_words_Some [of 0 4 "[a, b, c, d]"] by simp
  have "put_words buf 0 ws = Some (ws @ drop 12 buf)"
    using len by (intro put_words_0) (simp_all add: ws_def)
  then have st: "store_to hs buf sz = Some (0, ws @ drop 12 buf, m_iContentSize)"
    using assms(2) by (simp add: store_to_def ip get ws_def del: put_words.simps)
  have "get_words (ws @ rest) 8 4 = Some [a, b, c, d]" for rest
    using get_words_Some [of 8 4 "ws @ rest"] by (simp add: ws_def)
  moreover have lw: "length ws = 12" by (simp add: ws_def)
  moreover have "rd (ws @ rest) (int i) = Some (ws ! i)" if "i < 12" for rest i
    using that lw by (simp add: rd_def nth_append)
  note this [of 0] this [of 1] this [of 2] this [of 3] this [of 4] this [of 5] this [of 6] this [of 7]
  ultimately have "load_from hs0 (ws @ rest) n = Some (0, hs\<lparr>m_extension := m_extension hs0\<rparr>)" if "m_iContentSize \<le> n" for hs0 rest n
    using assms(1) that
    by (simp add: load_from_def hs_wf_def sint_word_of_int32 ip del: append.simps) (simp add: ws_def sint_word_of_int32 ip)
  with st show thesis by (intro that [of ws]) (simp_all add: ws_def)
qed

text \<open>
  C34. A handshake written into a packet buffer and read back is the handshake that was written: the write succeeds
  for every buffer of at least 48 bytes, sets the size to 48 and leaves the rest of the buffer as it was, and
  the reader gets all fields, signed request types included. Its own \<^verbatim>\<open>m_extension\<close> mark, which is not on the wire,
  stays as it was.
\<close>

theorem handshake_roundtrip:
  assumes "hs_wf hs" "m_iContentSize \<le> sz" "sz \<le> 4 * length buf"
  shows "\<exists>buf'. store_to hs buf sz = Some (0, buf', m_iContentSize)
    \<and> length buf' = length buf \<and> drop 12 buf' = drop 12 buf
    \<and> load_from hs0 buf' m_iContentSize = Some (0, hs\<lparr>m_extension := m_extension hs0\<rparr>)"
proof -
  obtain hdr where h: "length hdr = 12" "store_to hs buf sz = Some (0, hdr @ drop 12 buf, m_iContentSize)"
    "load_from hs0 (hdr @ drop 12 buf) m_iContentSize = Some (0, hs\<lparr>m_extension := m_extension hs0\<rparr>)"
    by (rule store_to_words [OF assms]) simp
  have "12 \<le> length buf" using assms(2,3) by (simp add: m_iContentSize_def)
  with h show ?thesis by (intro exI [of _ "hdr @ drop 12 buf"]) simp
qed

theorem handshake_roundtrip_witness:
  "let hs = CHandShake\<lparr>m_iVersion := 5, m_iReqType := URQ_AGREEMENT, m_iCookie := 77\<rparr> in
   hs_wf hs \<and> (\<exists>buf'. store_to hs (replicate 20 0) 80 = Some (0, buf', m_iContentSize)
     \<and> length buf' = 20 \<and> drop 12 buf' = drop 12 (replicate 20 0)
     \<and> load_from CHandShake buf' m_iContentSize = Some (0, hs))"
proof -
  let ?hs = "CHandShake\<lparr>m_iVersion := 5, m_iReqType := URQ_AGREEMENT, m_iCookie := 77\<rparr>"
  have w: "hs_wf ?hs" by (simp add: hs_wf_def CHandShake_def in_int32_def urq_defs)
  have e: "?hs\<lparr>m_extension := m_extension CHandShake\<rparr> = ?hs" by (simp add: CHandShake_def)
  show ?thesis
    using handshake_roundtrip [OF w, of 80 "replicate 20 0" CHandShake] w e by (simp add: m_iContentSize_def)
qed

text \<open>Too small a buffer is refused on both sides and nothing changes.\<close>

lemma handshake_too_small:
  "sz < m_iContentSize \<Longrightarrow> store_to hs buf sz = Some (-1, buf, sz)"
  "sz < m_iContentSize \<Longrightarrow> load_from hs buf sz = Some (-1, hs)"
  by (simp_all add: store_to_def load_from_def)

text \<open>
  Any datagram of 48 bytes or more can be loaded; the record is well formed whatever the bytes are.
\<close>

lemma load_from_any:
  assumes "m_iContentSize \<le> sz" "sz \<le> 4 * length buf"
  shows "\<exists>hs'. load_from hs buf sz = Some (0, hs') \<and> hs_wf hs' \<and> m_extension hs' = m_extension hs"
proof -
  have len: "12 \<le> length buf" using assms by (simp add: m_iContentSize_def)
  have "get_words buf 8 4 = Some (take 4 (drop 8 buf))" using get_words_Some [of 8 4 buf] len by simp
  moreover have "in_int32 (sint w)" for w :: "32 word"
    using sint_range_size [of w] by (simp add: in_int32_def word_size)
  ultimately show ?thesis
    using assms(1) len by (auto simp: load_from_def rd_def hs_wf_def)
qed

text \<open>
  The check of the initial sequence number excludes the largest number, which \<^verbatim>\<open>CUDT::generateISN\<close> can draw:
  a peer that drew it is refused.
\<close>

definition generateISN_range :: "int set" where
  "generateISN_range = {0..m_iMaxSeqNo}"

lemma largest_isn_refused:
  "m_iMaxSeqNo \<in> generateISN_range \<and> (sint (m_iISN hs) = m_iMaxSeqNo \<longrightarrow> \<not> hs_valid hs)"
  by (simp add: generateISN_range_def hs_valid_def seqno_const_defs)

section \<open>The request record\<close>

record hs_request =
  m_iSrtVersion :: "32 word"
  m_iSrtFlags :: "32 word"
  m_iSrtTsbpd :: "32 word"
  m_iSrtReserved :: "32 word"

definition SRT_HS_SIZE :: nat where "SRT_HS_SIZE = 16"

definition SrtHSRequest :: hs_request where
  "SrtHSRequest = \<lparr>m_iSrtVersion = 0, m_iSrtFlags = 0, m_iSrtTsbpd = 0, m_iSrtReserved = 0\<rparr>"

definition setVersion :: "32 word \<Rightarrow> hs_request \<Rightarrow> hs_request" where
  "setVersion v r = r\<lparr>m_iSrtVersion := v\<rparr>"

definition setFlag :: "32 word \<Rightarrow> hs_request \<Rightarrow> hs_request" where
  "setFlag opt r = r\<lparr>m_iSrtFlags := m_iSrtFlags r OR opt\<rparr>"

definition clearFlag :: "32 word \<Rightarrow> hs_request \<Rightarrow> hs_request" where
  "clearFlag opt r = r\<lparr>m_iSrtFlags := m_iSrtFlags r AND NOT opt\<rparr>"

definition setTsbPdDelay :: "16 word \<Rightarrow> hs_request \<Rightarrow> hs_request" where
  "setTsbPdDelay delay r = r\<lparr>m_iSrtTsbpd := m_iSrtTsbpd r OR Bits_wrap 15 0 (ucast delay)\<rparr>"

definition tsbPdDelay :: "hs_request \<Rightarrow> 16 word" where
  "tsbPdDelay r = ucast (Bits_unwrap 15 0 (m_iSrtTsbpd r))"

definition hsreq_serialize :: "hs_request \<Rightarrow> 32 word list \<Rightarrow> nat \<Rightarrow> (bool \<times> 32 word list) option" where
  "hsreq_serialize r buf len =
     (if len < SRT_HS_SIZE then Some (False, buf)
      else do { buf' \<leftarrow> put_words buf 0 [m_iSrtVersion r, m_iSrtFlags r, m_iSrtTsbpd r, 0]; Some (True, buf') })"

definition hsreq_deserialize :: "hs_request \<Rightarrow> 32 word list \<Rightarrow> nat \<Rightarrow> (bool \<times> hs_request) option" where
  "hsreq_deserialize r buf len =
     (let r0 = r\<lparr>m_iSrtVersion := 0\<rparr> in
      if len < SRT_HS_SIZE then Some (False, r0)
      else do {
        version \<leftarrow> rd buf 0; flg \<leftarrow> rd buf 1; tsbpd \<leftarrow> rd buf 2; reserved \<leftarrow> rd buf 3;
        Some (True, r0\<lparr>m_iSrtVersion := version, m_iSrtFlags := flg, m_iSrtTsbpd := tsbpd,
          m_iSrtReserved := reserved\<rparr>) })"

lemma hsreq_roundtrip:
  assumes "SRT_HS_SIZE \<le> sz" "sz \<le> 4 * length buf"
  shows "\<exists>buf'. hsreq_serialize r buf sz = Some (True, buf')
    \<and> hsreq_deserialize r0 buf' sz = Some (True, r\<lparr>m_iSrtReserved := 0\<rparr>)"
proof -
  let ?ws = "[m_iSrtVersion r, m_iSrtFlags r, m_iSrtTsbpd r, 0]"
  have "put_words buf 0 ?ws = Some (?ws @ drop 4 buf)"
    using assms by (intro put_words_0) (simp_all add: SRT_HS_SIZE_def)
  then show ?thesis
    using assms by (simp add: hsreq_serialize_def hsreq_deserialize_def Let_def rd_def del: put_words.simps)
qed

text \<open>A delay is read back only from a record without one: the setter keeps the bits that are already there.\<close>

lemma tsbPdDelay_set:
  "m_iSrtTsbpd r = 0 \<Longrightarrow> tsbPdDelay (setTsbPdDelay d r) = d"
  "tsbPdDelay (setTsbPdDelay d (setTsbPdDelay d' r)) = (tsbPdDelay r OR d') OR d"
  by (intro bit_word_eqI; auto simp: tsbPdDelay_def setTsbPdDelay_def bit_ucast_iff bit_Bits_unwrap bit_Bits_wrap bit_simps)+

end
