(* ===== verification/HsExtension.thy ===== *)
theory HsExtension
  imports Handshake Packet
begin

text \<open>
  The extension blocks that follow the fixed part of a handshake message (\<^verbatim>\<open>core.cpp\<close>): each starts with a
  word holding command and size and is followed by that many words. \<^verbatim>\<open>FindExtensionBlock\<close>,
  \<^verbatim>\<open>NextExtensionBlock\<close> and \<^verbatim>\<open>SrtExtractHandshakeExtensions\<close> walk over data that comes from the network;
  the \<^verbatim>\<open>fillHsExt...\<close> functions write the blocks. Pointers are positions in the array of words; the
  functions that read are in the option type, \<open>None\<close> being a read outside the packet or a loop without end.
\<close>

unbundle bit_operations_syntax

section \<open>Commands\<close>

definition SRT_CMD_REJECT :: int where "SRT_CMD_REJECT = 0"
definition SRT_CMD_HSREQ :: int where "SRT_CMD_HSREQ = 1"
definition SRT_CMD_HSRSP :: int where "SRT_CMD_HSRSP = 2"
definition SRT_CMD_KMREQ :: int where "SRT_CMD_KMREQ = 3"
definition SRT_CMD_KMRSP :: int where "SRT_CMD_KMRSP = 4"
definition SRT_CMD_SID :: int where "SRT_CMD_SID = 5"
definition SRT_CMD_CONGESTION :: int where "SRT_CMD_CONGESTION = 6"
definition SRT_CMD_FILTER :: int where "SRT_CMD_FILTER = 7"
definition SRT_CMD_GROUP :: int where "SRT_CMD_GROUP = 8"
definition SRT_CMD_NONE :: int where "SRT_CMD_NONE = -1"

lemmas cmd_defs = SRT_CMD_REJECT_def SRT_CMD_HSREQ_def SRT_CMD_HSRSP_def SRT_CMD_KMREQ_def SRT_CMD_KMRSP_def
  SRT_CMD_SID_def SRT_CMD_CONGESTION_def SRT_CMD_FILTER_def SRT_CMD_GROUP_def SRT_CMD_NONE_def

text \<open>\<^verbatim>\<open>HS_CMDSPEC_CMD\<close> and \<^verbatim>\<open>HS_CMDSPEC_SIZE\<close>.\<close>

definition cmdspec :: "int \<Rightarrow> nat \<Rightarrow> 32 word" where
  "cmdspec cmd n = Bits_wrap 31 16 (word_of_int cmd) OR Bits_wrap 15 0 (of_nat n)"

definition cmdspec_cmd :: "32 word \<Rightarrow> int" where
  "cmdspec_cmd w = uint (Bits_unwrap 31 16 w)"

definition cmdspec_size :: "32 word \<Rightarrow> nat" where
  "cmdspec_size w = unat (Bits_unwrap 15 0 w)"

lemma Bits_fit_16: "Bits_fit L R v \<longleftrightarrow> unat v < 2 ^ 16" if "L < 32" "R + 15 = L"
  using Bits_fit_less [of R L v] that by auto

lemma cmdspec_parts:
  "0 \<le> cmd \<Longrightarrow> cmd < 2 ^ 16 \<Longrightarrow> cmdspec_cmd (cmdspec cmd n) = cmd"
  "n < 2 ^ 16 \<Longrightarrow> cmdspec_size (cmdspec cmd n) = n"
proof -
  assume c: "0 \<le> cmd" "cmd < 2 ^ 16"
  then have u: "uint (word_of_int cmd :: 32 word) = cmd" by (simp add: uint_word_of_int)
  then have "Bits_fit 31 16 (word_of_int cmd :: 32 word)" using c by (simp add: Bits_fit_16 unat_eq_nat_uint)
  then show "cmdspec_cmd (cmdspec cmd n) = cmd"
    by (simp add: cmdspec_cmd_def cmdspec_def encflags.unwrap_or_other hsflags.g.unwrap_wrap u)
next
  assume n: "n < 2 ^ 16"
  then have u: "unat (of_nat n :: 32 word) = n" by (simp add: unat_of_nat)
  then have "Bits_fit 15 0 (of_nat n :: 32 word)" using n by (simp add: Bits_fit_16)
  then show "cmdspec_size (cmdspec cmd n) = n"
    by (simp add: cmdspec_size_def cmdspec_def or.commute [of "Bits_wrap 31 16 _"] hsflags.unwrap_or_other
        hsflags.f.unwrap_wrap u)
qed

lemma cmdspec_of_parts: "cmdspec (cmdspec_cmd w) (cmdspec_size w) = w"
proof (rule bit_word_eqI)
  fix n assume "n < LENGTH(32)"
  then show "bit (cmdspec (cmdspec_cmd w) (cmdspec_size w)) n = bit w n"
    by (auto simp: cmdspec_def cmdspec_cmd_def cmdspec_size_def bit_or_iff bit_Bits_wrap bit_Bits_unwrap)
qed

lemma cmdspec_range: "0 \<le> cmdspec_cmd w" "cmdspec_cmd w < 2 ^ 16" "cmdspec_size w < 2 ^ 16"
proof -
  have "nat (uint (Bits_unwrap 31 16 w)) < 65536"
    using hsflags.g.unwrap_bound [of w] by (simp only: unat_eq_nat_uint) simp
  then show "cmdspec_cmd w < 2 ^ 16"
    using nat_less_iff [of "uint (Bits_unwrap 31 16 w)" 65536] by (simp only: cmdspec_cmd_def) simp
  show "0 \<le> cmdspec_cmd w" by (simp add: cmdspec_cmd_def)
  show "cmdspec_size w < 2 ^ 16" using hsflags.f.unwrap_bound [of w] unfolding cmdspec_size_def by simp
qed

section \<open>Walking over the blocks\<close>

text \<open>The output arguments keep their old values when the block does not fit, as in the code.\<close>

definition FindExtensionBlock ::
  "32 word list \<Rightarrow> nat \<Rightarrow> nat \<Rightarrow> nat \<Rightarrow> nat option \<Rightarrow> (int \<times> nat \<times> nat option) option" where
  "FindExtensionBlock buf begin_ix total_length w_out_len w_next_block =
     (if total_length = 0 then Some (SRT_CMD_NONE, 0, None)
      else do {
        w \<leftarrow> rd buf (int begin_ix);
        let cmd = cmdspec_cmd w; sz = cmdspec_size w in
        if sz + 1 > total_length then Some (SRT_CMD_NONE, w_out_len, w_next_block)
        else Some (cmd, sz, if total_length = sz + 1 then None else Some (begin_ix + 1 + sz)) })"

definition NextExtensionBlock :: "nat \<Rightarrow> nat option \<Rightarrow> nat \<Rightarrow> bool \<times> nat \<times> nat" where
  "NextExtensionBlock w_begin next_ix w_length =
     (case next_ix of None \<Rightarrow> (False, w_begin, w_length)
      | Some n \<Rightarrow> (True, n, w_length - (n - w_begin)))"

text \<open>\<^verbatim>\<open>int16_t type\<close>: the command is narrowed to 16 bits when it is stored.\<close>

record hs_extension =
  ext_type :: "16 word"
  ext_contents :: "32 word list"

partial_function (option) extract_loop ::
  "32 word list \<Rightarrow> nat \<Rightarrow> nat \<Rightarrow> nat \<Rightarrow> nat option \<Rightarrow> hs_extension list \<Rightarrow> hs_extension list option" where
  "extract_loop buf begin_ix len blocklen next_ix w_output =
     do { (cmd, blocklen', next') \<leftarrow> FindExtensionBlock buf begin_ix len blocklen next_ix;
          if cmd = SRT_CMD_NONE then Some w_output
          else do {
            ws \<leftarrow> get_words buf (int (begin_ix + 1)) blocklen';
            let out = w_output @ [\<lparr>ext_type = word_of_int cmd, ext_contents = ws\<rparr>] in
            case NextExtensionBlock begin_ix next' len of (has_next, begin', len') \<Rightarrow>
              if \<not> has_next then Some out else extract_loop buf begin' len' blocklen' next' out } }"

declare extract_loop.simps [code]

text \<open>The length is computed in \<^verbatim>\<open>size_t\<close>: a packet shorter than the fixed part would wrap around.\<close>

definition SrtExtractHandshakeExtensions :: "32 word list \<Rightarrow> nat \<Rightarrow> hs_extension list option" where
  "SrtExtractHandshakeExtensions buf buflength =
     extract_loop buf (m_iContentSize div 4) (nat ((int buflength - int m_iContentSize) mod 2 ^ 64) div 4) 0 None []"

section \<open>Writing blocks\<close>

definition HtoILA :: "bool \<Rightarrow> 32 word list \<Rightarrow> 32 word list" where
  "HtoILA big = map (\<lambda>w. if big then bswap32 w else w)"

definition ItoHLA :: "bool \<Rightarrow> 32 word list \<Rightarrow> 32 word list" where
  "ItoHLA big = map (\<lambda>w. if big then bswap32 w else w)"

definition fillHsExtConfigString ::
  "bool \<Rightarrow> 32 word list \<Rightarrow> nat \<Rightarrow> int \<Rightarrow> byte list \<Rightarrow> (nat \<times> 32 word list) option" where
  "fillHsExtConfigString big buf pcmdspec cmd str =
     (let wordsize = (length str + 3) div 4;
          aligned_bytesize = wordsize * 4;
          space = load_words big (str @ replicate (aligned_bytesize - length str) 0) in
      do { buf1 \<leftarrow> put_words buf (int (pcmdspec + 1)) (HtoILA big space);
           buf2 \<leftarrow> wr buf1 (int pcmdspec) (cmdspec cmd wordsize);
           Some (wordsize, buf2) })"

definition fillHsExtGroup ::
  "32 word list \<Rightarrow> nat \<Rightarrow> 32 word \<Rightarrow> 32 word \<Rightarrow> 32 word \<Rightarrow> (nat \<times> 32 word list) option" where
  "fillHsExtGroup buf pcmdspec ident tp weight =
     (let flg = 0;
          dataword = 0 OR Bits_wrap 31 24 tp OR Bits_wrap 23 16 flg OR Bits_wrap 15 0 weight;
          storedata = [ident, dataword] in
      do { buf1 \<leftarrow> put_words buf (int (pcmdspec + 1)) storedata;
           buf2 \<leftarrow> wr buf1 (int pcmdspec) (cmdspec SRT_CMD_GROUP (length storedata));
           Some (length storedata, buf2) })"

text \<open>\<open>keydata\<close> are the words of the key message, in the order of the network, with the last one completed.\<close>

definition fillHsExtKMREQ :: "bool \<Rightarrow> 32 word list \<Rightarrow> nat \<Rightarrow> 32 word list \<Rightarrow> nat \<Rightarrow> (nat \<times> 32 word list) option" where
  "fillHsExtKMREQ big buf pcmdspec keydata msglen =
     (let ra_size = msglen div 4 + (if msglen mod 4 \<noteq> 0 then 1 else 0) in
      do { buf1 \<leftarrow> wr buf (int pcmdspec) (cmdspec SRT_CMD_KMREQ ra_size);
           ws \<leftarrow> get_words keydata 0 ra_size;
           buf2 \<leftarrow> put_words buf1 (int (pcmdspec + 1)) (NtoHLA big ws);
           Some (ra_size, buf2) })"

datatype km_state = SRT_KM_S_UNSECURED | SRT_KM_S_SECURING | SRT_KM_S_SECURED | SRT_KM_S_NOSECRET
  | SRT_KM_S_BADSECRET | SRT_KM_S_BADCRYPTOMODE

text \<open>
  The response to a key message: when there is none, the state \<^verbatim>\<open>SRT_KM_S_UNSECURED\<close> (0) is sent and both
  key states are set. A missing pointer with a nonzero size is an internal error; the size 0 says so.
\<close>

definition fillHsExtKMRSP ::
  "bool \<Rightarrow> 32 word list \<Rightarrow> nat \<Rightarrow> 32 word list option \<Rightarrow> nat \<Rightarrow> km_state \<times> km_state
     \<Rightarrow> (nat \<times> 32 word list \<times> (km_state \<times> km_state) \<times> SRT_REJECT_REASON option) option" where
  "fillHsExtKMRSP big buf pcmdspec kmdata kmdata_wordsize km =
     (let send = (\<lambda>ra_size keydata km'.
        do { buf1 \<leftarrow> wr buf (int pcmdspec) (cmdspec SRT_CMD_KMRSP ra_size);
             ws \<leftarrow> get_words keydata 0 ra_size;
             buf2 \<leftarrow> put_words buf1 (int (pcmdspec + 1)) (NtoHLA big ws);
             Some (ra_size, buf2, km', None) }) in
      if kmdata_wordsize = 0 then send 1 [0] (SRT_KM_S_NOSECRET, SRT_KM_S_UNSECURED)
      else case kmdata of None \<Rightarrow> Some (0, buf, km, Some SRT_REJ_IPE)
        | Some keydata \<Rightarrow> send kmdata_wordsize keydata km)"

section \<open>Reading a stream name\<close>

text \<open>
  The stream name is copied to a cleared array one byte longer than the longest name. The loop looks for the
  last byte that is not zero; \<open>sid_scan t pos bytelen\<close> is the loop from position \<open>pos\<close> downwards.
\<close>

primrec sid_scan :: "byte list \<Rightarrow> nat \<Rightarrow> nat \<Rightarrow> nat option" where
  "sid_scan target 0 bytelen = Some bytelen"
| "sid_scan target (Suc pos) bytelen =
     do { b \<leftarrow> rd target (int (Suc pos));
          if b \<noteq> 0 then Some (Suc pos + 1) else sid_scan target pos bytelen }"

definition interpret_SID ::
  "bool \<Rightarrow> nat \<Rightarrow> 32 word list \<Rightarrow> nat \<Rightarrow> nat \<Rightarrow> byte list option option" where
  "interpret_SID big MAX_LENGTH buf begin_ix blocklen =
     (let bytelen = blocklen * 4 in
      if bytelen = 0 \<or> bytelen > MAX_LENGTH then Some None
      else do {
        ws \<leftarrow> get_words buf (int (begin_ix + 1)) blocklen;
        let target = store_words big (ItoHLA big ws) @ replicate (MAX_LENGTH + 1 - bytelen) 0;
        targetlen \<leftarrow> sid_scan target (bytelen - 1) bytelen;
        Some (Some (take targetlen target)) })"

section \<open>The blocks of a list of words\<close>

text \<open>The same decomposition without pointers: what is left when the next block does not fit is not a block.\<close>

function blocks :: "32 word list \<Rightarrow> hs_extension list" where
  "blocks [] = []"
| "blocks (w # ws) =
     (if cmdspec_size w > length ws then []
      else \<lparr>ext_type = word_of_int (cmdspec_cmd w), ext_contents = take (cmdspec_size w) ws\<rparr>
             # blocks (drop (cmdspec_size w) ws))"
  by pat_completeness auto

termination by (relation "measure length") auto

definition block_words :: "hs_extension \<Rightarrow> 32 word list" where
  "block_words e = cmdspec (uint (ext_type e)) (length (ext_contents e)) # ext_contents e"

lemma extract_loop_blocks:
  assumes "begin_ix + len \<le> length buf"
  shows "extract_loop buf begin_ix len bl nx out = Some (out @ blocks (take len (drop begin_ix buf)))"
  using assms
proof (induction len arbitrary: begin_ix bl nx out rule: less_induct)
  case (less len)
  show ?case
  proof (cases len)
    case 0
    then show ?thesis by (simp add: extract_loop.simps FindExtensionBlock_def)
  next
    case (Suc m)
    define w where "w = buf ! begin_ix"
    define n where "n = cmdspec_size w"
    have dr: "drop begin_ix buf = w # drop (Suc begin_ix) buf"
      using less.prems Suc by (simp add: w_def Cons_nth_drop_Suc)
    have rd: "rd buf (int begin_ix) = Some w" using less.prems Suc by (simp add: rd_def w_def)
    have tl: "take len (drop begin_ix buf) = w # take m (drop (Suc begin_ix) buf)" using Suc dr by simp
    have lt: "length (take m (drop (Suc begin_ix) buf)) = m" using less.prems Suc by simp
    have cmd: "cmdspec_cmd w \<noteq> SRT_CMD_NONE" using cmdspec_range(1) [of w] by (simp add: cmd_defs)
    show ?thesis
    proof (cases "n \<le> m")
      case False
      then show ?thesis
        unfolding tl by (simp add: extract_loop.simps FindExtensionBlock_def rd Suc lt n_def [symmetric] Let_def)
    next
      case True
      let ?e = "\<lparr>ext_type = word_of_int (cmdspec_cmd w), ext_contents = take n (drop (Suc begin_ix) buf)\<rparr>"
      have get: "get_words buf (int (Suc begin_ix)) n = Some (take n (drop (Suc begin_ix) buf))"
        using less.prems Suc True by (intro get_words_Some) simp
      have bl: "blocks (take len (drop begin_ix buf)) = ?e # blocks (take (m - n) (drop (Suc begin_ix + n) buf))"
        unfolding tl using True
        by (simp only: blocks.simps lt n_def [symmetric] take_take drop_take drop_drop add.commute) (simp add: min_absorb1)
      have "extract_loop buf begin_ix len bl nx out
          = (if m = n then Some (out @ [?e])
             else extract_loop buf (Suc begin_ix + n) (m - n) n (Some (Suc begin_ix + n)) (out @ [?e]))"
        using True get cmd Suc
        by (subst extract_loop.simps)
          (simp add: FindExtensionBlock_def rd NextExtensionBlock_def n_def [symmetric] Let_def)
      also have "\<dots> = Some (out @ ?e # blocks (take (m - n) (drop (Suc begin_ix + n) buf)))"
        using less.IH [of "m - n" "Suc begin_ix + n"] less.prems Suc True by simp
      finally show ?thesis using bl by simp
    qed
  qed
qed

lemma block_words_of_header:
  "n = cmdspec_size w \<Longrightarrow> n \<le> length ws \<Longrightarrow>
     block_words \<lparr>ext_type = word_of_int (cmdspec_cmd w), ext_contents = take n ws\<rparr> = w # take n ws"
  using cmdspec_range [of w] by (simp add: block_words_def uint_word_of_int cmdspec_of_parts min_absorb2)

lemma blocks_prefix:
  "\<exists>rest. ws = concat (map block_words (blocks ws)) @ rest
     \<and> (rest = [] \<or> cmdspec_size (hd rest) > length (tl rest))"
proof (induction ws rule: blocks.induct)
  case 1
  then show ?case by simp
next
  case (2 w ws)
  show ?case
  proof (cases "cmdspec_size w > length ws")
    case True
    then show ?thesis by (intro exI [of _ "w # ws"]) simp
  next
    case False
    with 2 obtain rest where "drop (cmdspec_size w) ws = concat (map block_words (blocks (drop (cmdspec_size w) ws))) @ rest"
      "rest = [] \<or> cmdspec_size (hd rest) > length (tl rest)" by blast
    moreover from this(1) have "ws = take (cmdspec_size w) ws @ concat (map block_words (blocks (drop (cmdspec_size w) ws))) @ rest"
      by (metis append_take_drop_id)
    ultimately show ?thesis
      using False block_words_of_header [OF refl, of w ws] by (intro exI [of _ rest]) simp
  qed
qed

lemma blocks_concat:
  assumes "\<And>e. e \<in> set es \<Longrightarrow> length (ext_contents e) < 2 ^ 16"
  shows "blocks (concat (map block_words es)) = es"
  using assms
proof (induction es)
  case (Cons e es)
  have "uint (ext_type e) < 2 ^ 16" using uint_bounded [of "ext_type e"] by simp
  then show ?case
    using Cons by (simp add: block_words_def cmdspec_parts)
qed simp

text \<open>
  Extension blocks of any handshake packet are extracted without a read outside the packet and the loop ends,
  whatever the peer wrote. The blocks found are exactly the words of the packet, one block after the other, up
  to a remainder that is empty or announces more words than there are.
\<close>

theorem extensions_of_any_packet:
  assumes "m_iContentSize \<le> buflength" "buflength \<le> 4 * length buf" "buflength < 2 ^ 63"
  shows "\<exists>es rest. SrtExtractHandshakeExtensions buf buflength = Some es
    \<and> take ((buflength - m_iContentSize) div 4) (drop 12 buf) = concat (map block_words es) @ rest
    \<and> (rest = [] \<or> cmdspec_size (hd rest) > length (tl rest))"
proof -
  let ?n = "(buflength - m_iContentSize) div 4"
  have "nat ((int buflength - int m_iContentSize) mod 2 ^ 64) = buflength - m_iContentSize"
    using assms(1,3) by (simp add: mod_pos_pos_trivial nat_diff_distrib')
  moreover have "12 + ?n \<le> length buf" using assms(1,2) unfolding m_iContentSize_def by linarith
  ultimately have "SrtExtractHandshakeExtensions buf buflength = Some (blocks (take ?n (drop 12 buf)))"
    using extract_loop_blocks [of 12 ?n buf]
    by (simp add: SrtExtractHandshakeExtensions_def m_iContentSize_def)
  then show ?thesis using blocks_prefix [of "take ?n (drop 12 buf)"] by auto
qed

theorem extensions_of_any_packet_witness:
  "\<exists>es rest. SrtExtractHandshakeExtensions (replicate 12 0 @ [0x00050001, 7, 0x00060009, 1]) 64 = Some es
    \<and> [0x00050001, 7, 0x00060009, 1] = concat (map block_words es) @ rest
    \<and> (rest = [] \<or> cmdspec_size (hd rest) > length (tl rest))"
  using extensions_of_any_packet [of 64 "replicate 12 0 @ [0x00050001, 7, 0x00060009, 1]"]
  by (simp add: m_iContentSize_def)

text \<open>
  Blocks written one after the other behind the fixed part are read back as written: same commands, same
  contents, same order.
\<close>

theorem extensions_roundtrip:
  assumes "length hdr = 12" "\<forall>e \<in> set es. length (ext_contents e) < 2 ^ 16"
    and "body = concat (map block_words es)" "length body < 2 ^ 60" "r < 4"
  shows "SrtExtractHandshakeExtensions (hdr @ body @ rest) (m_iContentSize + 4 * length body + r) = Some es"
proof -
  have n: "nat ((int (m_iContentSize + 4 * length body + r) - int m_iContentSize) mod 2 ^ 64) div 4 = length body"
    using assms(4,5) by (simp add: mod_pos_pos_trivial nat_add_distrib nat_mult_distrib)
  have "blocks body = es" using assms(2,3) blocks_concat [of es] by simp
  then show ?thesis
    using extract_loop_blocks [of 12 "length body" "hdr @ body @ rest" 0 None "[]"] assms(1)
    unfolding SrtExtractHandshakeExtensions_def n by (simp add: m_iContentSize_def)
qed

theorem extensions_roundtrip_witness:
  "SrtExtractHandshakeExtensions
     (replicate 12 0 @ concat (map block_words [\<lparr>ext_type = 1, ext_contents = [1, 2, 3]\<rparr>, \<lparr>ext_type = 5, ext_contents = [9]\<rparr>]) @ [8])
     (m_iContentSize + 4 * 6 + 2)
   = Some [\<lparr>ext_type = 1, ext_contents = [1, 2, 3]\<rparr>, \<lparr>ext_type = 5, ext_contents = [9]\<rparr>]"
proof -
  let ?es = "[\<lparr>ext_type = 1, ext_contents = [1, 2, 3]\<rparr>, \<lparr>ext_type = 5, ext_contents = [9]\<rparr>] :: hs_extension list"
  have "length (concat (map block_words ?es)) = 6" by (simp add: block_words_def)
  then show ?thesis
    using extensions_roundtrip [of "replicate 12 0" ?es "concat (map block_words ?es)" 2 "[8]"] by simp
qed

section \<open>Strings in blocks\<close>

lemma HtoILA_load: "length bs mod 4 = 0 \<Longrightarrow> HtoILA big (load_words big bs) = load_words False bs"
  by (induction big bs rule: load_words.induct) (simp_all add: HtoILA_def)

lemma store_ItoHLA: "store_words big (ItoHLA big ws) = store_words False ws"
  by (induction ws) (simp_all add: store_words_def ItoHLA_def store32_def be_bytes_def bswap32_def)

definition padded :: "byte list \<Rightarrow> byte list" where
  "padded str = str @ replicate ((length str + 3) div 4 * 4 - length str) 0"

lemma length_padded: "length (padded str) = (length str + 3) div 4 * 4"
  by (simp add: padded_def)

text \<open>Writing a block: the header and the contents are set, the rest of the packet is as before.\<close>

lemma put_block:
  assumes "pos + 1 + length ws \<le> length buf"
  shows "put_words buf (int (pos + 1)) ws \<bind> (\<lambda>b. wr b (int pos) h)
    = Some (take pos buf @ h # ws @ drop (pos + 1 + length ws) buf)"
proof -
  have "put_words buf (int (pos + 1)) ws = Some (take (pos + 1) buf @ ws @ drop (pos + 1 + length ws) buf)"
    using assms by (intro put_words_Some) simp
  then show ?thesis
    using assms by (simp add: wr_def list_update_append take_Suc_conv_app_nth)
qed

lemma fillHsExtConfigString_block:
  assumes "pos + 1 + (length str + 3) div 4 \<le> length buf"
  shows "fillHsExtConfigString big buf pos cmd str = Some ((length str + 3) div 4,
    take pos buf @ cmdspec cmd ((length str + 3) div 4) # load_words False (padded str)
      @ drop (pos + 1 + (length str + 3) div 4) buf)"
proof -
  have l: "length (load_words False (padded str)) = (length str + 3) div 4"
    by (simp add: length_load_words length_padded)
  have "HtoILA big (load_words big (padded str)) = load_words False (padded str)"
    by (rule HtoILA_load) (simp add: length_padded)
  then show ?thesis
    using put_block [of pos "load_words False (padded str)" buf "cmdspec cmd ((length str + 3) div 4)"] assms
    by (simp add: fillHsExtConfigString_def Let_def l padded_def [symmetric] bind_eq_Some_conv del: of_nat_add)
qed

text \<open>A block that stands at a position is found there with its size.\<close>

lemma FindExtensionBlock_at:
  assumes "buf = pre @ cmdspec cmd (length ws) # ws @ post" "0 \<le> cmd" "cmd < 2 ^ 16" "length ws < 2 ^ 16"
    and "length ws < total_length"
  shows "FindExtensionBlock buf (length pre) total_length bl nx
    = Some (cmd, length ws, if total_length = length ws + 1 then None else Some (length pre + 1 + length ws))"
  using assms by (simp add: FindExtensionBlock_def rd_def Let_def cmdspec_parts nth_append)

lemma get_words_at: "get_words (pre @ h # ws @ post) (int (length pre + 1)) (length ws) = Some ws"
  using get_words_Some [of "length pre + 1" "length ws" "pre @ h # ws @ post"] by simp

lemma sid_scan_last:
  assumes "n < length t" "1 \<le> n" "n \<le> pos" "pos < length t" "t ! n \<noteq> 0" "\<forall>i. n < i \<and> i \<le> pos \<longrightarrow> t ! i = 0"
  shows "sid_scan t pos bytelen = Some (n + 1)"
  using assms
proof (induction pos)
  case (Suc pos)
  show ?case
  proof (cases "n = Suc pos")
    case True
    then show ?thesis using Suc.prems by (simp add: rd_def nat_add_distrib)
  next
    case False
    with Suc show ?thesis by (simp add: rd_def nat_add_distrib)
  qed
qed simp

lemma padded_nth:
  "i < length str \<Longrightarrow> padded str ! i = str ! i"
  "length str \<le> i \<Longrightarrow> i < length (padded str) \<Longrightarrow> padded str ! i = 0"
  by (simp_all add: padded_def nth_append)

text \<open>What the receiver of a string block has in its cleared array: the string and zeros.\<close>

lemma sid_target:
  "store_words big (ItoHLA big (load_words False (padded str))) = padded str"
  unfolding store_ItoHLA by (rule store_load_words) (simp add: length_padded)

lemma interpret_SID_block:
  assumes "buf = pre @ h # load_words False (padded str) @ post" "str \<noteq> []" "length (padded str) \<le> mx"
  shows "interpret_SID big mx buf (length pre) ((length str + 3) div 4)
    = do { n \<leftarrow> sid_scan (padded str @ replicate (mx + 1 - length (padded str)) 0)
             (length (padded str) - 1) (length (padded str));
           Some (Some (take n (padded str @ replicate (mx + 1 - length (padded str)) 0))) }"
proof -
  have l: "length (load_words False (padded str)) = (length str + 3) div 4"
    by (simp add: length_load_words length_padded)
  have "(length str + 3) div 4 \<noteq> 0" using assms(2) by (cases str) auto
  then show ?thesis
    using assms get_words_at [of pre h "load_words False (padded str)" post]
    by (simp add: interpret_SID_def Let_def l sid_target length_padded del: take_append)
qed

text \<open>
  A stream name sent in a handshake is received as it was sent, on hosts of either byte order, when it has at
  least two characters, fits into the limit and does not end in a zero byte: the block is written, is found by the
  receiver, and its text is the name.
\<close>

theorem stream_name_roundtrip:
  assumes "2 \<le> length str" "last str \<noteq> 0" "length (padded str) \<le> mx" "mx < 2 ^ 16"
    and "pos + 1 + (length str + 3) div 4 \<le> length buf"
  shows "\<exists>buf' n nx. fillHsExtConfigString big buf pos SRT_CMD_SID str = Some (n, buf')
    \<and> FindExtensionBlock buf' pos (length buf - pos) 0 None = Some (SRT_CMD_SID, n, nx)
    \<and> interpret_SID big' mx buf' pos n = Some (Some str)"
proof -
  define n where "n = (length str + 3) div 4"
  define ws where "ws = load_words False (padded str)"
  define post where "post = drop (pos + 1 + n) buf"
  have l: "length ws = n" by (simp add: ws_def n_def length_load_words length_padded)
  have n: "n < 2 ^ 16" using assms(3,4) by (simp add: length_padded n_def)
  have pre: "length (take pos buf) = pos" using assms(5) by simp
  have fill: "fillHsExtConfigString big buf pos SRT_CMD_SID str
      = Some (n, take pos buf @ cmdspec SRT_CMD_SID (length ws) # ws @ post)"
    using fillHsExtConfigString_block [OF assms(5)] by (simp add: n_def [symmetric] l ws_def [symmetric] post_def)
  have find: "\<exists>nx. FindExtensionBlock (take pos buf @ cmdspec SRT_CMD_SID (length ws) # ws @ post) pos (length buf - pos) 0 None
      = Some (SRT_CMD_SID, n, nx)"
    using FindExtensionBlock_at [OF refl, of SRT_CMD_SID ws "length buf - pos" "take pos buf" post 0 None] n assms(5) pre
    by (simp add: l n_def [symmetric] cmd_defs)
  let ?t = "padded str @ replicate (mx + 1 - length (padded str)) 0"
  have le: "length str \<le> length (padded str)" by (simp add: padded_def)
  have "str ! (length str - 1) \<noteq> 0" using assms(1,2) by (metis last_conv_nth list.size(3) not_numeral_le_zero)
  then have "sid_scan ?t (length (padded str) - 1) (length (padded str)) = Some (length str - 1 + 1)"
    using assms(1) le padded_nth(1) [of _ str] padded_nth(2) [of str] by (intro sid_scan_last) (auto simp: nth_append)
  moreover have "length str - 1 + 1 = length str" using assms(1) by simp
  moreover have "take (length str) ?t = str" by (simp add: padded_def)
  ultimately have "interpret_SID big' mx (take pos buf @ cmdspec SRT_CMD_SID (length ws) # ws @ post) (length (take pos buf)) n
      = Some (Some str)"
    unfolding ws_def n_def using assms(1)
    by (subst interpret_SID_block [OF refl _ assms(3)]) (auto simp del: take_append One_nat_def)
  with fill find pre show ?thesis by metis
qed

theorem stream_name_roundtrip_witness:
  "\<exists>buf' n nx. fillHsExtConfigString False (replicate 20 0) 16 SRT_CMD_SID [0x61, 0x62, 0x63] = Some (n, buf')
    \<and> FindExtensionBlock buf' 16 4 0 None = Some (SRT_CMD_SID, n, nx)
    \<and> interpret_SID True 512 buf' 16 n = Some (Some [0x61, 0x62, 0x63])"
  using stream_name_roundtrip [of "[0x61, 0x62, 0x63]" 512 16 "replicate 20 0" False True]
  by (simp add: padded_def del: replicate.simps replicate_Suc)

text \<open>
  The scan never looks at the first byte: a name of one character is received with its three padding bytes, as is
  a name that ends in zero bytes only.
\<close>

lemma one_character_name_gets_zeros:
  assumes "4 \<le> mx" "pos + 2 \<le> length buf"
  shows "\<exists>buf'. fillHsExtConfigString big buf pos SRT_CMD_SID [c] = Some (1, buf')
    \<and> interpret_SID big' mx buf' pos 1 = Some (Some [c, 0, 0, 0])"
proof -
  have p: "padded [c] = [c, 0, 0, 0]" by (simp add: padded_def) (simp add: eval_nat_numeral)
  have pre: "length (take pos buf) = pos" using assms(2) by simp
  have "interpret_SID big' mx (take pos buf @ cmdspec SRT_CMD_SID 1 # load_words False (padded [c]) @ drop (pos + 2) buf)
      (length (take pos buf)) ((length [c] + 3) div 4) = Some (Some [c, 0, 0, 0])"
    using assms(1) by (subst interpret_SID_block [OF refl]) (simp_all add: p rd_def)
  then show ?thesis
    using fillHsExtConfigString_block [of pos "[c]" buf big SRT_CMD_SID] assms(2) pre by simp
qed

end
