(* ===== verification/HsNegotiation.thy ===== *)
theory HsNegotiation
  imports HsExtension SocketConfig
begin

text \<open>
  The negotiation of the transmission parameters (\<^verbatim>\<open>core.cpp\<close>): the initiator's request block
  (\<^verbatim>\<open>fillSrtHandshake_HSREQ\<close>), its interpretation by the responder (\<^verbatim>\<open>processSrtMsg_HSREQ\<close>), the response block
  (\<^verbatim>\<open>fillSrtHandshake_HSRSP\<close>) and its interpretation by the initiator (\<^verbatim>\<open>processSrtMsg_HSRSP\<close>). The state is the
  part of \<^verbatim>\<open>CUDT\<close> that these functions read and write; the clock is an argument. A block is the list of its words,
  read with checked access.
\<close>

unbundle bit_operations_syntax

section \<open>Flags\<close>

definition BIT :: "nat \<Rightarrow> 32 word" where "BIT x = push_bit x 1"

definition IsSet :: "32 word \<Rightarrow> 32 word \<Rightarrow> bool" where
  "IsSet bitset flagset \<longleftrightarrow> bitset AND flagset = flagset"

definition SRT_OPT_TSBPDSND :: "32 word" where "SRT_OPT_TSBPDSND = BIT 0"
definition SRT_OPT_TSBPDRCV :: "32 word" where "SRT_OPT_TSBPDRCV = BIT 1"
definition SRT_OPT_HAICRYPT :: "32 word" where "SRT_OPT_HAICRYPT = BIT 2"
definition SRT_OPT_TLPKTDROP :: "32 word" where "SRT_OPT_TLPKTDROP = BIT 3"
definition SRT_OPT_NAKREPORT :: "32 word" where "SRT_OPT_NAKREPORT = BIT 4"
definition SRT_OPT_REXMITFLG :: "32 word" where "SRT_OPT_REXMITFLG = BIT 5"
definition SRT_OPT_STREAM :: "32 word" where "SRT_OPT_STREAM = BIT 6"
definition SRT_OPT_FILTERCAP :: "32 word" where "SRT_OPT_FILTERCAP = BIT 7"

definition SrtVersionCapabilities :: "32 word" where
  "SrtVersionCapabilities = SRT_OPT_HAICRYPT OR SRT_OPT_FILTERCAP"

definition SrtVersion :: "32 word \<Rightarrow> 32 word \<Rightarrow> 32 word \<Rightarrow> 32 word" where
  "SrtVersion major minor patch = patch + minor * 0x100 + major * 0x10000"

definition SRT_VERSION_FEAT_HSv5 :: "32 word" where "SRT_VERSION_FEAT_HSv5 = 0x010300"

definition SRT_CMD_HSREQ_MINSZ :: nat where "SRT_CMD_HSREQ_MINSZ = 8"
definition SRT_CMD_HSRSP_MINSZ :: nat where "SRT_CMD_HSRSP_MINSZ = 8"
definition SRT_HS_E_SIZE :: nat where "SRT_HS_E_SIZE = 3"

lemmas opt_defs = SRT_OPT_TSBPDSND_def SRT_OPT_TSBPDRCV_def SRT_OPT_HAICRYPT_def SRT_OPT_TLPKTDROP_def
  SRT_OPT_NAKREPORT_def SRT_OPT_REXMITFLG_def SRT_OPT_STREAM_def SRT_OPT_FILTERCAP_def

lemma bit_BIT: "bit (BIT k) n \<longleftrightarrow> n = k \<and> n < 32"
  by (auto simp: BIT_def bit_simps)

lemma IsSet_BIT: "k < 32 \<Longrightarrow> IsSet f (BIT k) \<longleftrightarrow> bit f k"
  unfolding IsSet_def
proof
  assume "k < 32" "f AND BIT k = BIT k"
  then have "bit (f AND BIT k) k" by (simp add: bit_BIT)
  then show "bit f k" by (simp add: bit_and_iff)
next
  assume "bit f k"
  then show "f AND BIT k = BIT k" by (intro bit_word_eqI) (auto simp: bit_and_iff bit_BIT)
qed

section \<open>The state of one party\<close>

record hs_agent =
  m_config :: srt_config
  uSrtVersion :: "32 word"
  m_tsRcvPeerStartTime :: int
  m_iTsbPdDelay_ms :: int
  m_iPeerTsbPdDelay_ms :: int
  m_bTsbPd :: bool
  m_bPeerTsbPd :: bool
  m_bTLPktDrop :: bool
  m_bPeerTLPktDrop :: bool
  m_bPeerNakReport :: bool
  m_bPeerRexmitFlag :: bool
  m_uPeerSrtVersion :: "32 word"
  m_uPeerSrtFlags :: "32 word"
  m_iSndHsRetryCnt :: int
  m_RejectReason :: SRT_REJECT_REASON

definition isOPT_TsbPd :: "hs_agent \<Rightarrow> bool" where
  "isOPT_TsbPd a = bTSBPD (m_config a)"

definition handshakeDone :: "hs_agent \<Rightarrow> hs_agent" where
  "handshakeDone a = a\<lparr>m_iSndHsRetryCnt := 0\<rparr>"

text \<open>The part of \<^verbatim>\<open>clearData\<close> that concerns these fields.\<close>

definition clearData :: "hs_agent \<Rightarrow> hs_agent" where
  "clearData a = a\<lparr>m_bPeerTsbPd := False, m_iPeerTsbPdDelay_ms := 0, m_bTsbPd := False,
     m_iTsbPdDelay_ms := iRcvLatency (m_config a), m_bTLPktDrop := bTLPktDrop (m_config a),
     m_bPeerTLPktDrop := False, m_bPeerNakReport := False, m_bPeerRexmitFlag := False,
     m_tsRcvPeerStartTime := 0\<rparr>"

section \<open>Writing request and response\<close>

abbreviation SRT_HS_LATENCY_RCV_wrap :: "int \<Rightarrow> 32 word" where "SRT_HS_LATENCY_RCV_wrap v \<equiv> Bits_wrap 31 16 (word_of_int v)"
abbreviation SRT_HS_LATENCY_SND_wrap :: "int \<Rightarrow> 32 word" where "SRT_HS_LATENCY_SND_wrap v \<equiv> Bits_wrap 15 0 (word_of_int v)"
abbreviation SRT_HS_LATENCY_RCV_unwrap :: "32 word \<Rightarrow> int" where "SRT_HS_LATENCY_RCV_unwrap w \<equiv> uint (Bits_unwrap 31 16 w)"
abbreviation SRT_HS_LATENCY_SND_unwrap :: "32 word \<Rightarrow> int" where "SRT_HS_LATENCY_SND_unwrap w \<equiv> uint (Bits_unwrap 15 0 w)"
abbreviation SRT_HS_LATENCY_LEG_wrap :: "int \<Rightarrow> 32 word" where "SRT_HS_LATENCY_LEG_wrap v \<equiv> Bits_wrap 15 0 (word_of_int v)"
abbreviation SRT_HS_LATENCY_LEG_unwrap :: "32 word \<Rightarrow> int" where "SRT_HS_LATENCY_LEG_unwrap w \<equiv> uint (Bits_unwrap 15 0 w)"

text \<open>Words of the block: version, flags, latency; the arguments are the flags and latency so far.\<close>

definition fillSrtHandshake_HSREQ :: "hs_agent \<Rightarrow> 32 word \<Rightarrow> int \<Rightarrow> nat \<times> 32 word \<times> 32 word \<times> hs_agent" where
  "fillSrtHandshake_HSREQ a flg0 hs_version =
     (let c = m_config a;
          a1 = (if bTSBPD c then a\<lparr>m_iTsbPdDelay_ms := iRcvLatency c, m_iPeerTsbPdDelay_ms := iPeerLatency c\<rparr> else a);
          flg1 = (if bTSBPD c then flg0 OR SRT_OPT_TSBPDSND else flg0);
          lat = (if \<not> bTSBPD c then 0
                 else if hs_version < HS_VERSION_SRT1 then SRT_HS_LATENCY_LEG_wrap (m_iPeerTsbPdDelay_ms a1)
                 else SRT_HS_LATENCY_SND_wrap (m_iPeerTsbPdDelay_ms a1) OR SRT_HS_LATENCY_RCV_wrap (m_iTsbPdDelay_ms a1));
          flg2 = (if bTSBPD c \<and> \<not> hs_version < HS_VERSION_SRT1 then flg1 OR SRT_OPT_TSBPDRCV else flg1);
          flg3 = (if bTSBPD c \<and> \<not> hs_version < HS_VERSION_SRT1 \<and> m_bTLPktDrop a then flg2 OR SRT_OPT_TLPKTDROP else flg2);
          flg4 = (if bRcvNakReport c then flg3 OR SRT_OPT_NAKREPORT else flg3);
          flg5 = flg4 OR SRT_OPT_REXMITFLG;
          flg6 = (if \<not> bMessageAPI c then flg5 OR SRT_OPT_STREAM else flg5)
      in (3, flg6, lat, a1))"

definition fillSrtHandshake_HSRSP :: "hs_agent \<Rightarrow> 32 word \<Rightarrow> int \<Rightarrow> nat \<times> 32 word \<times> 32 word \<times> hs_agent" where
  "fillSrtHandshake_HSRSP a flg0 hs_version =
     (if m_tsRcvPeerStartTime a = 0 then (0, flg0, 0, a)
      else let c = m_config a;
          flg1 = (if isOPT_TsbPd a then flg0 OR SRT_OPT_TSBPDRCV else flg0);
          lat1 = (if \<not> isOPT_TsbPd a then 0
                  else if hs_version < HS_VERSION_SRT1 then SRT_HS_LATENCY_LEG_wrap (m_iTsbPdDelay_ms a)
                  else SRT_HS_LATENCY_RCV_wrap (m_iTsbPdDelay_ms a));
          v5 = (m_bPeerTsbPd a \<and> hs_version \<ge> HS_VERSION_SRT1);
          flg2 = (if v5 then flg1 OR SRT_OPT_TSBPDSND else flg1);
          lat2 = (if v5 then lat1 OR SRT_HS_LATENCY_SND_wrap (m_iPeerTsbPdDelay_ms a) else lat1);
          flg3 = (if m_bTLPktDrop a then flg2 OR SRT_OPT_TLPKTDROP else flg2);
          flg4 = (if bRcvNakReport c then flg3 OR SRT_OPT_NAKREPORT else flg3);
          flg5 = (if bRcvNakReport c \<and> m_uPeerSrtVersion a \<le> SrtVersion 1 0 7 then flg4 AND NOT SRT_OPT_TLPKTDROP else flg4);
          flg6 = (if uSrtVersion a \<ge> SrtVersion 1 2 0 \<and> m_bPeerRexmitFlag a then flg5 OR SRT_OPT_REXMITFLG else flg5)
      in (3, flg6, lat2, a))"

definition fillSrtHandshake ::
  "hs_agent \<Rightarrow> 32 word list \<Rightarrow> nat \<Rightarrow> nat \<Rightarrow> int \<Rightarrow> int \<Rightarrow> (nat \<times> 32 word list \<times> hs_agent) option" where
  "fillSrtHandshake a buf pos srtlen msgtype hs_version =
     (if srtlen < SRT_HS_E_SIZE then Some (0, buf, a)
      else
        let flg0 = 0 OR SrtVersionCapabilities;
            (n, flg, lat, a') =
              (if msgtype = SRT_CMD_HSREQ then fillSrtHandshake_HSREQ a flg0 hs_version
               else if msgtype = SRT_CMD_HSRSP then fillSrtHandshake_HSRSP a flg0 hs_version
               else (0, flg0, 0, a))
        in do { buf' \<leftarrow> put_words buf (int pos) [uSrtVersion a, flg, lat]; Some (n, buf', a') })"

section \<open>Interpreting request and response\<close>

definition processSrtMsg_HSREQ ::
  "int \<Rightarrow> hs_agent \<Rightarrow> 32 word list \<Rightarrow> nat \<Rightarrow> 32 word \<Rightarrow> int \<Rightarrow> (int \<times> hs_agent) option" where
  "processSrtMsg_HSREQ now a srtdata bytelen ts hsv =
     (let c = m_config a;
          a1 = a\<lparr>m_tsRcvPeerStartTime := now - uint ts, m_iTsbPdDelay_ms := iRcvLatency c, m_iPeerTsbPdDelay_ms := iPeerLatency c\<rparr>
      in if bytelen < SRT_CMD_HSREQ_MINSZ then Some (SRT_CMD_NONE, a1\<lparr>m_RejectReason := SRT_REJ_ROGUE\<rparr>)
      else do {
        version \<leftarrow> rd srtdata 0;
        flg \<leftarrow> rd srtdata 1;
        let a2 = a1\<lparr>m_uPeerSrtVersion := version, m_uPeerSrtFlags := flg\<rparr> in
        if hsv = HS_VERSION_UDT4 \<and> version \<ge> SRT_VERSION_FEAT_HSv5
           \<or> hsv \<noteq> HS_VERSION_UDT4 \<and> version < SRT_VERSION_FEAT_HSv5
        then Some (SRT_CMD_REJECT, a2\<lparr>m_RejectReason := SRT_REJ_ROGUE\<rparr>)
        else if uint version < uMinimumPeerSrtVersion c
        then Some (SRT_CMD_REJECT, a2\<lparr>m_RejectReason := SRT_REJ_VERSION\<rparr>)
        else let a3 = a2\<lparr>m_bPeerRexmitFlag := IsSet flg SRT_OPT_REXMITFLG\<rparr>;
                 peer_message_api = (\<not> IsSet flg SRT_OPT_STREAM) in
        if peer_message_api \<noteq> bMessageAPI c
        then Some (SRT_CMD_REJECT, a3\<lparr>m_RejectReason := SRT_REJ_MESSAGEAPI\<rparr>)
        else if bytelen < SRT_HS_E_SIZE * 4
        then (if IsSet flg SRT_OPT_TSBPDSND \<or> IsSet flg SRT_OPT_TSBPDRCV
              then Some (SRT_CMD_REJECT, a3\<lparr>m_RejectReason := SRT_REJ_ROGUE\<rparr>)
              else Some (SRT_CMD_HSRSP, a3\<lparr>m_bTsbPd := False, m_bPeerTsbPd := False\<rparr>))
        else do {
          latencystr \<leftarrow> rd srtdata 2;
          let peer_snd = (if hsv < HS_VERSION_SRT1 then SRT_HS_LATENCY_LEG_unwrap latencystr
                          else SRT_HS_LATENCY_SND_unwrap latencystr);
              a4 = (if IsSet flg SRT_OPT_TSBPDSND \<and> isOPT_TsbPd a3
                    then a3\<lparr>m_iTsbPdDelay_ms := max (m_iTsbPdDelay_ms a3) peer_snd, m_bTsbPd := True\<rparr> else a3);
              a5 = (if hsv > HS_VERSION_UDT4 \<and> IsSet flg SRT_OPT_TSBPDRCV
                    then a4\<lparr>m_bPeerTsbPd := True,
                            m_iPeerTsbPdDelay_ms := max (m_iPeerTsbPdDelay_ms a4) (SRT_HS_LATENCY_RCV_unwrap latencystr)\<rparr>
                    else a4);
              a6 = (if hsv > HS_VERSION_UDT4 \<and> IsSet flg SRT_OPT_TLPKTDROP then a5\<lparr>m_bPeerTLPktDrop := True\<rparr> else a5);
              a7 = (if hsv > HS_VERSION_UDT4 \<and> IsSet flg SRT_OPT_NAKREPORT then a6\<lparr>m_bPeerNakReport := True\<rparr> else a6)
          in Some (SRT_CMD_HSRSP, a7) } })"

definition processSrtMsg_HSRSP ::
  "int \<Rightarrow> hs_agent \<Rightarrow> 32 word list \<Rightarrow> nat \<Rightarrow> 32 word \<Rightarrow> int \<Rightarrow> (int \<times> hs_agent) option" where
  "processSrtMsg_HSRSP now a srtdata bytelen ts hsv =
     do { old \<leftarrow> (if hsv = HS_VERSION_UDT4 then do { v \<leftarrow> rd srtdata 0; Some (v \<ge> SRT_VERSION_FEAT_HSv5) } else Some False);
          if old then Some (SRT_CMD_NONE, a)
          else if bytelen < SRT_CMD_HSRSP_MINSZ then Some (SRT_CMD_NONE, a)
          else do {
            version \<leftarrow> rd srtdata 0;
            flg \<leftarrow> rd srtdata 1;
            let c = m_config a;
                a1 = (if m_tsRcvPeerStartTime a = 0 then a\<lparr>m_tsRcvPeerStartTime := now - uint ts\<rparr> else a);
                a2 = a1\<lparr>m_uPeerSrtVersion := version, m_uPeerSrtFlags := flg\<rparr> in
            if uint version < uMinimumPeerSrtVersion c
            then Some (SRT_CMD_REJECT, a2\<lparr>m_RejectReason := SRT_REJ_VERSION\<rparr>)
            else do {
              a3 \<leftarrow> (if IsSet flg SRT_OPT_TSBPDRCV
                     then do { lat \<leftarrow> rd srtdata 2;
                               Some (a2\<lparr>m_bPeerTsbPd := True,
                                 m_iPeerTsbPdDelay_ms := (if hsv = HS_VERSION_UDT4 then SRT_HS_LATENCY_LEG_unwrap lat
                                                          else SRT_HS_LATENCY_RCV_unwrap lat)\<rparr>) }
                     else Some a2);
              a4 \<leftarrow> (if hsv \<noteq> HS_VERSION_UDT4 \<and> IsSet flg SRT_OPT_TSBPDSND \<and> isOPT_TsbPd a3
                     then do { lat \<leftarrow> rd srtdata 2;
                               Some (a3\<lparr>m_bTsbPd := True, m_iTsbPdDelay_ms := SRT_HS_LATENCY_SND_unwrap lat\<rparr>) }
                     else Some a3);
              let a5 = (if uSrtVersion a \<ge> SrtVersion 1 0 5 \<and> IsSet flg SRT_OPT_TLPKTDROP then a4\<lparr>m_bPeerTLPktDrop := True\<rparr> else a4);
                  a6 = (if uSrtVersion a \<ge> SrtVersion 1 1 0 \<and> IsSet flg SRT_OPT_NAKREPORT then a5\<lparr>m_bPeerNakReport := True\<rparr> else a5);
                  a7 = (if uSrtVersion a \<ge> SrtVersion 1 2 0 \<and> IsSet flg SRT_OPT_REXMITFLG then a6\<lparr>m_bPeerRexmitFlag := True\<rparr> else a6)
              in Some (SRT_CMD_NONE, handshakeDone a7) } } }"

section \<open>Agreement\<close>

text \<open>The fields of the latency word, for delays of at most 16 bits.\<close>

lemma latency_unwrap:
  assumes "0 \<le> v" "v < 2 ^ 16"
  shows "SRT_HS_LATENCY_RCV_unwrap (x OR SRT_HS_LATENCY_SND_wrap u) = SRT_HS_LATENCY_RCV_unwrap x"
    "SRT_HS_LATENCY_SND_unwrap (SRT_HS_LATENCY_SND_wrap u OR SRT_HS_LATENCY_RCV_wrap w) = SRT_HS_LATENCY_SND_unwrap (SRT_HS_LATENCY_SND_wrap u)"
    "SRT_HS_LATENCY_SND_unwrap (SRT_HS_LATENCY_SND_wrap v) = v"
    "SRT_HS_LATENCY_RCV_unwrap (SRT_HS_LATENCY_RCV_wrap v) = v"
    "SRT_HS_LATENCY_RCV_unwrap (SRT_HS_LATENCY_SND_wrap u OR SRT_HS_LATENCY_RCV_wrap v) = v"
    "SRT_HS_LATENCY_SND_unwrap (SRT_HS_LATENCY_RCV_wrap w OR SRT_HS_LATENCY_SND_wrap v) = v"
proof -
  have u: "uint (word_of_int v :: 32 word) = v" using assms by (simp add: uint_word_of_int)
  have f: "Bits_fit 15 0 (word_of_int v :: 32 word)" "Bits_fit 31 16 (word_of_int v :: 32 word)"
    using assms by (simp_all add: Bits_fit_16 unat_eq_nat_uint uint_word_of_int nat_less_iff)
  note w = hsflags.f.unwrap_wrap [OF f(1)] hsflags.g.unwrap_wrap [OF f(2)]
  show "SRT_HS_LATENCY_RCV_unwrap (x OR SRT_HS_LATENCY_SND_wrap u) = SRT_HS_LATENCY_RCV_unwrap x"
    "SRT_HS_LATENCY_SND_unwrap (SRT_HS_LATENCY_SND_wrap u OR SRT_HS_LATENCY_RCV_wrap w) = SRT_HS_LATENCY_SND_unwrap (SRT_HS_LATENCY_SND_wrap u)"
    by (simp_all only: encflags.unwrap_or_other hsflags.unwrap_or_other)
  show "SRT_HS_LATENCY_SND_unwrap (SRT_HS_LATENCY_SND_wrap v) = v"
    "SRT_HS_LATENCY_RCV_unwrap (SRT_HS_LATENCY_RCV_wrap v) = v"
    by (simp_all only: w u)
  show "SRT_HS_LATENCY_RCV_unwrap (SRT_HS_LATENCY_SND_wrap u OR SRT_HS_LATENCY_RCV_wrap v) = v"
    "SRT_HS_LATENCY_SND_unwrap (SRT_HS_LATENCY_RCV_wrap w OR SRT_HS_LATENCY_SND_wrap v) = v"
    by (subst or.commute, simp only: encflags.unwrap_or_other hsflags.unwrap_or_other w u)+
qed

text \<open>The words of a request and of a response, for version 5.\<close>

lemma put_three: "put_words [0, 0, 0 :: 32 word] 0 [x, y, z] = Some [x, y, z]"
  using put_words_0 [of "[x, y, z]" 3 "[0, 0, 0]"] by (simp del: put_words.simps)

lemma fill_words:
  assumes "msgtype = SRT_CMD_HSREQ \<and> fillSrtHandshake_HSREQ a (0 OR SrtVersionCapabilities) v = (3, flg, lat, a')
    \<or> msgtype = SRT_CMD_HSRSP \<and> fillSrtHandshake_HSRSP a (0 OR SrtVersionCapabilities) v = (3, flg, lat, a')"
  shows "fillSrtHandshake a [0, 0, 0] 0 3 msgtype v = Some (3, [uSrtVersion a, flg, lat], a')"
  using assms by (auto simp: fillSrtHandshake_def SRT_HS_E_SIZE_def Let_def put_three cmd_defs simp del: put_words.simps)

lemma fill_HSREQ:
  assumes "0 \<le> iRcvLatency (m_config a)" "iRcvLatency (m_config a) < 2 ^ 16"
    and "0 \<le> iPeerLatency (m_config a)" "iPeerLatency (m_config a) < 2 ^ 16"
  obtains flg lat where "fillSrtHandshake a [0, 0, 0] 0 3 SRT_CMD_HSREQ HS_VERSION_SRT1 = Some (3, [uSrtVersion a, flg, lat],
      if bTSBPD (m_config a) then a\<lparr>m_iTsbPdDelay_ms := iRcvLatency (m_config a), m_iPeerTsbPdDelay_ms := iPeerLatency (m_config a)\<rparr> else a)"
    "bit flg 0 = bTSBPD (m_config a)" "bit flg 1 = bTSBPD (m_config a)" "bit flg 3 = (bTSBPD (m_config a) \<and> m_bTLPktDrop a)"
    "bit flg 4 = bRcvNakReport (m_config a)" "bit flg 5" "bit flg 6 = (\<not> bMessageAPI (m_config a))"
    "bTSBPD (m_config a) \<Longrightarrow> SRT_HS_LATENCY_SND_unwrap lat = iPeerLatency (m_config a)"
    "bTSBPD (m_config a) \<Longrightarrow> SRT_HS_LATENCY_RCV_unwrap lat = iRcvLatency (m_config a)"
proof -
  define flg where "flg = fst (snd (fillSrtHandshake_HSREQ a (0 OR SrtVersionCapabilities) HS_VERSION_SRT1))"
  define lat where "lat = fst (snd (snd (fillSrtHandshake_HSREQ a (0 OR SrtVersionCapabilities) HS_VERSION_SRT1)))"
  have b: "bit flg n = (n < 32 \<and> (n = 2 \<or> n = 7 \<or> (bTSBPD (m_config a) \<and> (n = 0 \<or> n = 1 \<or> n = 3 \<and> m_bTLPktDrop a))
      \<or> n = 4 \<and> bRcvNakReport (m_config a) \<or> n = 5 \<or> n = 6 \<and> \<not> bMessageAPI (m_config a)))" for n
    unfolding flg_def fillSrtHandshake_HSREQ_def Let_def SrtVersionCapabilities_def opt_defs HS_VERSION_SRT1_def
    by (simp add: bit_or_iff bit_BIT) auto
  have l: "lat = (if bTSBPD (m_config a) then SRT_HS_LATENCY_SND_wrap (iPeerLatency (m_config a)) OR SRT_HS_LATENCY_RCV_wrap (iRcvLatency (m_config a)) else 0)"
    by (simp add: lat_def fillSrtHandshake_HSREQ_def Let_def HS_VERSION_SRT1_def)
  have "fillSrtHandshake a [0, 0, 0] 0 3 SRT_CMD_HSREQ HS_VERSION_SRT1 = Some (3, [uSrtVersion a, flg, lat],
      if bTSBPD (m_config a) then a\<lparr>m_iTsbPdDelay_ms := iRcvLatency (m_config a), m_iPeerTsbPdDelay_ms := iPeerLatency (m_config a)\<rparr> else a)"
    by (intro fill_words disjI1 conjI refl) (simp add: flg_def lat_def fillSrtHandshake_HSREQ_def Let_def)
  then show thesis
    using b l latency_unwrap [OF assms(1,2)] latency_unwrap [OF assms(3,4)] by (intro that [of flg lat]) simp_all
qed

lemma fill_HSRSP:
  assumes "m_tsRcvPeerStartTime a \<noteq> 0" "SrtVersion 1 2 0 \<le> uSrtVersion a" "\<not> m_uPeerSrtVersion a \<le> SrtVersion 1 0 7" "m_bPeerRexmitFlag a"
    and "0 \<le> m_iTsbPdDelay_ms a" "m_iTsbPdDelay_ms a < 2 ^ 16" "0 \<le> m_iPeerTsbPdDelay_ms a" "m_iPeerTsbPdDelay_ms a < 2 ^ 16"
  obtains flg lat where "fillSrtHandshake a [0, 0, 0] 0 3 SRT_CMD_HSRSP HS_VERSION_SRT1 = Some (3, [uSrtVersion a, flg, lat], a)"
    "bit flg 0 = m_bPeerTsbPd a" "bit flg 1 = bTSBPD (m_config a)" "bit flg 3 = m_bTLPktDrop a"
    "bit flg 4 = bRcvNakReport (m_config a)" "bit flg 5"
    "m_bPeerTsbPd a \<Longrightarrow> SRT_HS_LATENCY_SND_unwrap lat = m_iPeerTsbPdDelay_ms a"
    "bTSBPD (m_config a) \<Longrightarrow> SRT_HS_LATENCY_RCV_unwrap lat = m_iTsbPdDelay_ms a"
proof -
  define flg where "flg = fst (snd (fillSrtHandshake_HSRSP a (0 OR SrtVersionCapabilities) HS_VERSION_SRT1))"
  define lat where "lat = fst (snd (snd (fillSrtHandshake_HSRSP a (0 OR SrtVersionCapabilities) HS_VERSION_SRT1)))"
  have b: "bit flg n = (n < 32 \<and> (n = 2 \<or> n = 7 \<or> n = 1 \<and> bTSBPD (m_config a) \<or> n = 0 \<and> m_bPeerTsbPd a \<or> n = 3 \<and> m_bTLPktDrop a
      \<or> n = 4 \<and> bRcvNakReport (m_config a) \<or> n = 5))" for n
    using assms(1-4) unfolding flg_def fillSrtHandshake_HSRSP_def Let_def SrtVersionCapabilities_def opt_defs HS_VERSION_SRT1_def isOPT_TsbPd_def
    by (simp add: bit_or_iff bit_BIT) auto
  have l: "lat = (if bTSBPD (m_config a) then SRT_HS_LATENCY_RCV_wrap (m_iTsbPdDelay_ms a) else 0)
      OR (if m_bPeerTsbPd a then SRT_HS_LATENCY_SND_wrap (m_iPeerTsbPdDelay_ms a) else 0)"
    using assms(1) by (simp add: lat_def fillSrtHandshake_HSRSP_def Let_def HS_VERSION_SRT1_def isOPT_TsbPd_def)
  have "fillSrtHandshake a [0, 0, 0] 0 3 SRT_CMD_HSRSP HS_VERSION_SRT1 = Some (3, [uSrtVersion a, flg, lat], a)"
    using assms(1) by (intro fill_words disjI2 conjI refl) (simp add: flg_def lat_def fillSrtHandshake_HSRSP_def Let_def)
  then show thesis
    using b l latency_unwrap [OF assms(5,6)] latency_unwrap [OF assms(7,8)]
    by (intro that [of flg lat]) simp_all
qed

text \<open>
  The exchange of request and response between an initiator \<open>I\<close> and a responder \<open>R\<close>, each at its own time:
  the commands returned by the two interpretations and the two parties afterwards.
\<close>

definition negotiate ::
  "int \<Rightarrow> int \<Rightarrow> 32 word \<Rightarrow> 32 word \<Rightarrow> hs_agent \<Rightarrow> hs_agent \<Rightarrow> (int \<times> int \<times> hs_agent \<times> hs_agent) option" where
  "negotiate nowR nowI ts1 ts2 I R =
     do { (n1, req, I1) \<leftarrow> fillSrtHandshake I [0, 0, 0] 0 3 SRT_CMD_HSREQ HS_VERSION_SRT1;
          (cmd1, R1) \<leftarrow> processSrtMsg_HSREQ nowR R req (n1 * 4) ts1 HS_VERSION_SRT1;
          (n2, rsp, R2) \<leftarrow> fillSrtHandshake R1 [0, 0, 0] 0 3 SRT_CMD_HSRSP HS_VERSION_SRT1;
          (cmd2, I2) \<leftarrow> processSrtMsg_HSRSP nowI I1 rsp (n2 * 4) ts2 HS_VERSION_SRT1;
          Some (cmd1, cmd2, I2, R2) }"

definition hs_ready :: "hs_agent \<Rightarrow> bool" where
  "hs_ready a \<longleftrightarrow> SRT_VERSION_FEAT_HSv5 \<le> uSrtVersion a
     \<and> 0 \<le> iRcvLatency (m_config a) \<and> iRcvLatency (m_config a) < 2 ^ 16
     \<and> 0 \<le> iPeerLatency (m_config a) \<and> iPeerLatency (m_config a) < 2 ^ 16"

lemma hs_readyD:
  assumes "hs_ready a"
  shows "\<not> uSrtVersion a < SRT_VERSION_FEAT_HSv5" "SrtVersion 1 2 0 \<le> uSrtVersion a" "SrtVersion 1 1 0 \<le> uSrtVersion a"
    "SrtVersion 1 0 5 \<le> uSrtVersion a" "\<not> uSrtVersion a \<le> SrtVersion 1 0 7"
    "0 \<le> iRcvLatency (m_config a)" "iRcvLatency (m_config a) < 2 ^ 16"
    "0 \<le> iPeerLatency (m_config a)" "iPeerLatency (m_config a) < 2 ^ 16"
proof -
  have v: "(0x010300 :: 32 word) \<le> uSrtVersion a" using assms by (simp add: hs_ready_def SRT_VERSION_FEAT_HSv5_def)
  have "SrtVersion 1 2 0 \<le> 0x010300" "SrtVersion 1 1 0 \<le> 0x010300" "SrtVersion 1 0 5 \<le> 0x010300" "SrtVersion 1 0 7 < 0x010300"
    by (simp_all add: SrtVersion_def)
  then show "SrtVersion 1 2 0 \<le> uSrtVersion a" "SrtVersion 1 1 0 \<le> uSrtVersion a" "SrtVersion 1 0 5 \<le> uSrtVersion a"
    "\<not> uSrtVersion a \<le> SrtVersion 1 0 7" using v by (auto dest: order.trans order.strict_trans1)
  show "\<not> uSrtVersion a < SRT_VERSION_FEAT_HSv5" "0 \<le> iRcvLatency (m_config a)" "iRcvLatency (m_config a) < 2 ^ 16"
    "0 \<le> iPeerLatency (m_config a)" "iPeerLatency (m_config a) < 2 ^ 16"
    using assms by (auto simp: hs_ready_def)
qed

text \<open>The responder after a request whose fields are known.\<close>

definition after_request :: "int \<Rightarrow> 32 word \<Rightarrow> 32 word \<Rightarrow> hs_agent \<Rightarrow> hs_agent \<Rightarrow> hs_agent" where
  "after_request start version flg I R =
     (let tI = bTSBPD (m_config I); tR = bTSBPD (m_config R) in
      R\<lparr>m_tsRcvPeerStartTime := start, m_uPeerSrtVersion := version, m_uPeerSrtFlags := flg, m_bPeerRexmitFlag := True,
        m_iTsbPdDelay_ms := (if tI \<and> tR then max (iRcvLatency (m_config R)) (iPeerLatency (m_config I)) else iRcvLatency (m_config R)),
        m_bTsbPd := (tI \<and> tR \<or> m_bTsbPd R),
        m_iPeerTsbPdDelay_ms := (if tI then max (iPeerLatency (m_config R)) (iRcvLatency (m_config I)) else iPeerLatency (m_config R)),
        m_bPeerTsbPd := (tI \<or> m_bPeerTsbPd R),
        m_bPeerTLPktDrop := (tI \<and> m_bTLPktDrop I \<or> m_bPeerTLPktDrop R),
        m_bPeerNakReport := (bRcvNakReport (m_config I) \<or> m_bPeerNakReport R)\<rparr>)"

lemma process_request:
  assumes "hs_ready I" "uMinimumPeerSrtVersion (m_config R) \<le> uint (uSrtVersion I)" "bMessageAPI (m_config I) = bMessageAPI (m_config R)"
  obtains flg I1 lat where "fillSrtHandshake I [0, 0, 0] 0 3 SRT_CMD_HSREQ HS_VERSION_SRT1 = Some (3, [uSrtVersion I, flg, lat], I1)"
    "I1 = (if bTSBPD (m_config I) then I\<lparr>m_iTsbPdDelay_ms := iRcvLatency (m_config I), m_iPeerTsbPdDelay_ms := iPeerLatency (m_config I)\<rparr> else I)"
    "processSrtMsg_HSREQ now R [uSrtVersion I, flg, lat] 12 ts HS_VERSION_SRT1
      = Some (SRT_CMD_HSRSP, after_request (now - uint ts) (uSrtVersion I) flg I R)"
proof -
  note v = hs_readyD [OF assms(1)]
  obtain flg lat where f: "fillSrtHandshake I [0, 0, 0] 0 3 SRT_CMD_HSREQ HS_VERSION_SRT1 = Some (3, [uSrtVersion I, flg, lat],
      if bTSBPD (m_config I) then I\<lparr>m_iTsbPdDelay_ms := iRcvLatency (m_config I), m_iPeerTsbPdDelay_ms := iPeerLatency (m_config I)\<rparr> else I)"
    "bit flg 0 = bTSBPD (m_config I)" "bit flg 1 = bTSBPD (m_config I)" "bit flg 3 = (bTSBPD (m_config I) \<and> m_bTLPktDrop I)"
    "bit flg 4 = bRcvNakReport (m_config I)" "bit flg 5" "bit flg 6 = (\<not> bMessageAPI (m_config I))"
    "bTSBPD (m_config I) \<Longrightarrow> SRT_HS_LATENCY_SND_unwrap lat = iPeerLatency (m_config I)"
    "bTSBPD (m_config I) \<Longrightarrow> SRT_HS_LATENCY_RCV_unwrap lat = iRcvLatency (m_config I)"
    using fill_HSREQ [OF v(6-9)] by blast
  have rd: "rd [uSrtVersion I, flg, lat] 0 = Some (uSrtVersion I)" "rd [uSrtVersion I, flg, lat] 1 = Some flg"
    "rd [uSrtVersion I, flg, lat] 2 = Some lat" by (simp_all add: rd_def)
  have set: "IsSet flg SRT_OPT_TSBPDSND = bTSBPD (m_config I)" "IsSet flg SRT_OPT_TSBPDRCV = bTSBPD (m_config I)"
    "IsSet flg SRT_OPT_TLPKTDROP = (bTSBPD (m_config I) \<and> m_bTLPktDrop I)" "IsSet flg SRT_OPT_NAKREPORT = bRcvNakReport (m_config I)"
    "IsSet flg SRT_OPT_REXMITFLG = True" "IsSet flg SRT_OPT_STREAM = (\<not> bMessageAPI (m_config I))"
    using f(2-7) by (simp_all add: opt_defs IsSet_BIT)
  have "processSrtMsg_HSREQ now R [uSrtVersion I, flg, lat] 12 ts HS_VERSION_SRT1
      = Some (SRT_CMD_HSRSP, after_request (now - uint ts) (uSrtVersion I) flg I R)"
    using assms(2,3) v(1) f(8,9)
    unfolding processSrtMsg_HSREQ_def Let_def rd after_request_def isOPT_TsbPd_def
    by (cases "bTSBPD (m_config I)"; cases "bTSBPD (m_config R)"; cases "m_bTLPktDrop I"; cases "bRcvNakReport (m_config I)")
      (simp_all add: set SRT_CMD_HSREQ_MINSZ_def SRT_HS_E_SIZE_def HS_VERSION_SRT1_def HS_VERSION_UDT4_def split del: if_split)
  with f(1) that show thesis by blast
qed

text \<open>The initiator after a response whose fields are known.\<close>

definition after_response :: "int \<Rightarrow> 32 word \<Rightarrow> 32 word \<Rightarrow> hs_agent \<Rightarrow> hs_agent \<Rightarrow> hs_agent" where
  "after_response start version flg R I =
     (let tI = bTSBPD (m_config I); tR = bTSBPD (m_config R) in
      I\<lparr>m_tsRcvPeerStartTime := (if m_tsRcvPeerStartTime I = 0 then start else m_tsRcvPeerStartTime I),
        m_uPeerSrtVersion := version, m_uPeerSrtFlags := flg, m_bPeerRexmitFlag := True,
        m_bPeerTsbPd := (tR \<or> m_bPeerTsbPd I), m_iPeerTsbPdDelay_ms := (if tR then m_iTsbPdDelay_ms R else m_iPeerTsbPdDelay_ms I),
        m_bTsbPd := (m_bPeerTsbPd R \<and> tI \<or> m_bTsbPd I),
        m_iTsbPdDelay_ms := (if m_bPeerTsbPd R \<and> tI then m_iPeerTsbPdDelay_ms R else m_iTsbPdDelay_ms I),
        m_bPeerTLPktDrop := (m_bTLPktDrop R \<or> m_bPeerTLPktDrop I),
        m_bPeerNakReport := (bRcvNakReport (m_config R) \<or> m_bPeerNakReport I), m_iSndHsRetryCnt := 0\<rparr>)"

lemma process_response:
  assumes "m_tsRcvPeerStartTime R \<noteq> 0" "hs_ready R" "hs_ready I" "\<not> m_uPeerSrtVersion R \<le> SrtVersion 1 0 7" "m_bPeerRexmitFlag R"
    and "0 \<le> m_iTsbPdDelay_ms R" "m_iTsbPdDelay_ms R < 2 ^ 16" "0 \<le> m_iPeerTsbPdDelay_ms R" "m_iPeerTsbPdDelay_ms R < 2 ^ 16"
    and "uMinimumPeerSrtVersion (m_config I) \<le> uint (uSrtVersion R)"
  obtains flg lat where "fillSrtHandshake R [0, 0, 0] 0 3 SRT_CMD_HSRSP HS_VERSION_SRT1 = Some (3, [uSrtVersion R, flg, lat], R)"
    "processSrtMsg_HSRSP now I [uSrtVersion R, flg, lat] 12 ts HS_VERSION_SRT1
      = Some (SRT_CMD_NONE, after_response (now - uint ts) (uSrtVersion R) flg R I)"
proof -
  note v = hs_readyD [OF assms(3)]
  obtain flg lat where f: "fillSrtHandshake R [0, 0, 0] 0 3 SRT_CMD_HSRSP HS_VERSION_SRT1 = Some (3, [uSrtVersion R, flg, lat], R)"
    "bit flg 0 = m_bPeerTsbPd R" "bit flg 1 = bTSBPD (m_config R)" "bit flg 3 = m_bTLPktDrop R"
    "bit flg 4 = bRcvNakReport (m_config R)" "bit flg 5"
    "m_bPeerTsbPd R \<Longrightarrow> SRT_HS_LATENCY_SND_unwrap lat = m_iPeerTsbPdDelay_ms R"
    "bTSBPD (m_config R) \<Longrightarrow> SRT_HS_LATENCY_RCV_unwrap lat = m_iTsbPdDelay_ms R"
    using fill_HSRSP [OF assms(1) hs_readyD(2) [OF assms(2)] assms(4-9)] by blast
  have rd: "rd [uSrtVersion R, flg, lat] 0 = Some (uSrtVersion R)" "rd [uSrtVersion R, flg, lat] 1 = Some flg"
    "rd [uSrtVersion R, flg, lat] 2 = Some lat" by (simp_all add: rd_def)
  have set: "IsSet flg SRT_OPT_TSBPDSND = m_bPeerTsbPd R" "IsSet flg SRT_OPT_TSBPDRCV = bTSBPD (m_config R)"
    "IsSet flg SRT_OPT_TLPKTDROP = m_bTLPktDrop R" "IsSet flg SRT_OPT_NAKREPORT = bRcvNakReport (m_config R)"
    "IsSet flg SRT_OPT_REXMITFLG = True"
    using f(2-6) by (simp_all add: opt_defs IsSet_BIT)
  have "processSrtMsg_HSRSP now I [uSrtVersion R, flg, lat] 12 ts HS_VERSION_SRT1
      = Some (SRT_CMD_NONE, after_response (now - uint ts) (uSrtVersion R) flg R I)"
    using assms(10) v(2-4) f(7,8)
    unfolding processSrtMsg_HSRSP_def Let_def rd after_response_def isOPT_TsbPd_def handshakeDone_def
    by (cases "bTSBPD (m_config I)"; cases "bTSBPD (m_config R)"; cases "m_bPeerTsbPd R"; cases "m_bTLPktDrop R";
        cases "bRcvNakReport (m_config R)"; cases "m_tsRcvPeerStartTime I = 0")
      (simp_all add: set SRT_CMD_HSRSP_MINSZ_def HS_VERSION_SRT1_def HS_VERSION_UDT4_def split del: if_split)
  with f(1) that show thesis by blast
qed


definition default_agent :: "srt_config \<Rightarrow> hs_agent" where
  "default_agent c = \<lparr>m_config = c, uSrtVersion = SrtVersion 1 5 6, m_tsRcvPeerStartTime = 0, m_iTsbPdDelay_ms = 0,
     m_iPeerTsbPdDelay_ms = 0, m_bTsbPd = False, m_bPeerTsbPd = False, m_bTLPktDrop = True, m_bPeerTLPktDrop = False,
     m_bPeerNakReport = False, m_bPeerRexmitFlag = False, m_uPeerSrtVersion = 0, m_uPeerSrtFlags = 0,
     m_iSndHsRetryCnt = 0, m_RejectReason = SRT_REJ_UNKNOWN\<rparr>"


section \<open>Safety and limits\<close>

text \<open>
  A request block is read inside its bounds and always leads to one of three results: it is too short, it is
  refused with a reason, or it is to be answered. Nothing is assumed about its contents.
\<close>

theorem request_of_any_content:
  assumes "bytelen = 4 * length srtdata" "m_RejectReason a = SRT_REJ_UNKNOWN"
  shows "\<exists>cmd a'. processSrtMsg_HSREQ now a srtdata bytelen ts hsv = Some (cmd, a')
    \<and> (cmd = SRT_CMD_HSRSP \<longleftrightarrow> m_RejectReason a' = SRT_REJ_UNKNOWN)
    \<and> (cmd = SRT_CMD_NONE \<longleftrightarrow> length srtdata < 2) \<and> cmd \<in> {SRT_CMD_HSRSP, SRT_CMD_REJECT, SRT_CMD_NONE}"
proof -
  consider "length srtdata < 2" | x y where "srtdata = [x, y]" | x y z zs where "srtdata = x # y # z # zs"
    by (cases srtdata rule: list.exhaust [of _ thesis], simp)
      (metis One_nat_def length_Cons less_2_cases_iff list.exhaust list.size(3))
  then show ?thesis
    by cases (use assms in \<open>simp_all add: processSrtMsg_HSREQ_def Let_def rd_def SRT_CMD_HSREQ_MINSZ_def SRT_HS_E_SIZE_def cmd_defs\<close>)
qed

theorem request_of_any_content_witness:
  "\<exists>cmd a'. processSrtMsg_HSREQ 7 (default_agent CSrtConfig) [1, 2] 8 0 HS_VERSION_SRT1 = Some (cmd, a')
    \<and> (cmd = SRT_CMD_HSRSP \<longleftrightarrow> m_RejectReason a' = SRT_REJ_UNKNOWN)
    \<and> cmd \<noteq> SRT_CMD_NONE \<and> cmd \<in> {SRT_CMD_HSRSP, SRT_CMD_REJECT, SRT_CMD_NONE}"
proof -
  have "m_RejectReason (default_agent CSrtConfig) = SRT_REJ_UNKNOWN" by (simp add: default_agent_def)
  from request_of_any_content [of 8 "[1, 2]", OF _ this, of 7 0 HS_VERSION_SRT1] show ?thesis by auto
qed

text \<open>
  A response of two words passes the check of its length, but a set delay flag makes the reader take the third word,
  which the message does not have.
\<close>

lemma short_response_read_past_end:
  "SRT_CMD_HSRSP_MINSZ \<le> 4 * length [0x010200, SRT_OPT_TSBPDRCV]
   \<and> processSrtMsg_HSRSP now (default_agent CSrtConfig) [0x010200, SRT_OPT_TSBPDRCV] 8 ts HS_VERSION_UDT4 = None"
  by (simp add: processSrtMsg_HSRSP_def Let_def rd_def SRT_CMD_HSRSP_MINSZ_def HS_VERSION_UDT4_def SRT_VERSION_FEAT_HSv5_def
      default_agent_def CSrtConfig_def opt_defs IsSet_BIT bit_BIT)

text \<open>Only the low 16 bits of a delay are sent; a longer one is silently replaced.\<close>

lemma long_delay_truncated:
  "SRT_HS_LATENCY_RCV_unwrap (SRT_HS_LATENCY_RCV_wrap 70000) = 4464"
  by code_simp

end
