(* ===== verification/Rendezvous.thy ===== *)
theory Rendezvous
  imports Handshake
begin

text \<open>
  The rendezvous connection of \<^verbatim>\<open>core.cpp\<close>: the contest of the cookies that gives the two equal parties their
  roles (\<^verbatim>\<open>backwardCompatibleCookieContest\<close>, \<^verbatim>\<open>cookieContest\<close>), the state machine
  (\<^verbatim>\<open>rendezvousSwitchState\<close>) and the handlers around it (\<^verbatim>\<open>processConnectResponse\<close>, \<^verbatim>\<open>processRendezvous\<close>,
  \<^verbatim>\<open>createSrtHandshake\<close> as far as the fixed part of the message goes, \<^verbatim>\<open>processCtrlHS\<close>). What depends on other
  parts of the socket (the buffers it creates, the contents of the extensions, the keys) is an argument, the
  record \<open>rdv_env\<close>: the outcome of each such call, \<open>Some r\<close> being a failure with reject reason \<open>r\<close>.
\<close>

unbundle bit_operations_syntax

section \<open>The cookie contest\<close>

datatype HandshakeSide = HSD_DRAW | HSD_INITIATOR | HSD_RESPONDER

definition compareCookies :: "32 word \<Rightarrow> 32 word \<Rightarrow> HandshakeSide" where
  "compareCookies req res =
     (if sint req < sint res then HSD_RESPONDER else if sint req > sint res then HSD_INITIATOR else HSD_DRAW)"

definition backwardCompatibleCookieContest :: "32 word \<Rightarrow> 32 word \<Rightarrow> HandshakeSide" where
  "backwardCompatibleCookieContest req res =
     (let xreq = sint req; xres = sint res; contest = xreq - xres in
      if contest AND 0xFFFFFFFF = 0 then HSD_DRAW
      else if contest AND 0x80000000 \<noteq> 0 then
        let revert = xres - xreq in
        if revert AND 0x80000000 \<noteq> 0 \<and> sint req > sint res then HSD_INITIATOR else HSD_RESPONDER
      else HSD_INITIATOR)"

fun other_side :: "HandshakeSide \<Rightarrow> HandshakeSide" where
  "other_side HSD_DRAW = HSD_DRAW"
| "other_side HSD_INITIATOR = HSD_RESPONDER"
| "other_side HSD_RESPONDER = HSD_INITIATOR"

lemma and_low_32: "(x :: int) AND 0xFFFFFFFF = x mod 2 ^ 32"
proof -
  have "(0xFFFFFFFF :: int) = mask 32" by (simp add: mask_eq_exp_minus_1)
  then show ?thesis by (simp only: take_bit_eq_mask [symmetric] take_bit_eq_mod)
qed

lemma and_bit_31: "(x :: int) AND 0x80000000 \<noteq> 0 \<longleftrightarrow> 2 ^ 31 \<le> x mod 2 ^ 32"
proof -
  define q r where "q = x div 2 ^ 32" and "r = x mod 2 ^ 32"
  have x: "x = r + 2 * q * 2 ^ 31" and r: "0 \<le> r" "r < 2 * 2 ^ 31"
    by (simp_all add: q_def r_def mult.commute)
  have "x AND 0x80000000 \<noteq> 0 \<longleftrightarrow> bit x 31"
    using and_exp_eq_0_iff_not_bit [of x 31] by simp
  also have "\<dots> \<longleftrightarrow> odd (x div 2 ^ 31)" by (simp add: bit_iff_odd)
  also have "x div 2 ^ 31 = r div 2 ^ 31 + 2 * q" unfolding x by simp
  also have "r div 2 ^ 31 = (if 2 ^ 31 \<le> r then 1 else 0)"
    using r by (auto intro: div_pos_pos_trivial int_div_pos_eq [of r _ 1 "r - 2 ^ 31"])
  finally show ?thesis by (simp add: r_def)
qed

lemma neg_mod_32: "(- x) mod 2 ^ 32 = (if x mod 2 ^ 32 = 0 then 0 else 2 ^ 32 - x mod (2 ^ 32 :: int))"
  by (simp add: zmod_zminus1_eq_if)

lemma contest_by_difference:
  assumes "d = sint a - sint b"
  shows "backwardCompatibleCookieContest a b =
    (if d mod 2 ^ 32 = 0 then HSD_DRAW
     else if 2 ^ 31 \<le> d mod 2 ^ 32 then if d mod 2 ^ 32 \<le> 2 ^ 31 \<and> 0 < d then HSD_INITIATOR else HSD_RESPONDER
     else HSD_INITIATOR)"
proof -
  have d': "sint b - sint a = - d" "sint b < sint a \<longleftrightarrow> 0 < d" using assms by auto
  show ?thesis
    unfolding backwardCompatibleCookieContest_def Let_def and_low_32 and_bit_31 assms [symmetric] d' neg_mod_32 by auto
qed

lemma contest_other_side:
  "backwardCompatibleCookieContest b a = other_side (backwardCompatibleCookieContest a b)"
proof -
  define d where "d = sint a - sint b"
  have "- d = sint b - sint a" by (simp add: d_def)
  from contest_by_difference [OF d_def] contest_by_difference [OF this] show ?thesis
    unfolding neg_mod_32 by auto
qed

lemma contest_draw: "backwardCompatibleCookieContest a b = HSD_DRAW \<longleftrightarrow> a = b"
proof -
  define d where "d = sint a - sint b"
  have rng: "- (2 ^ 32) < d" "d < 2 ^ 32"
    using sint_range_size [of a] sint_range_size [of b] by (simp_all add: d_def word_size)
  have "d mod 2 ^ 32 = 0 \<longleftrightarrow> d = 0"
    using rng by (cases "0 \<le> d") (auto simp: mod_pos_pos_trivial dest: zmod_trivial_iff [THEN iffD1] intro: zero_less_mult_pos)
  moreover have "d = 0 \<longleftrightarrow> a = b" by (auto simp: d_def dest: signed_word_eqI)
  ultimately show ?thesis unfolding contest_by_difference [OF d_def] by simp
qed

text \<open>
  Both parties of a rendezvous decide alike: one gets the initiator's side exactly when the other gets the
  responder's, and the contest is a draw only for equal cookies. This holds for all pairs of cookies, those whose
  difference does not fit into 32 bits included.
\<close>

theorem cookie_contest_opposite:
  "backwardCompatibleCookieContest b a = other_side (backwardCompatibleCookieContest a b)
   \<and> (backwardCompatibleCookieContest a b = HSD_DRAW \<longleftrightarrow> a = b)"
  by (simp add: contest_other_side [of b a] contest_draw)

section \<open>The state machine\<close>

datatype RendezvousState = RDV_INVALID | RDV_WAVING | RDV_ATTENTION | RDV_FINE | RDV_INITIATED | RDV_CONNECTED

datatype EConnectStatus = CONN_ACCEPT | CONN_REJECT | CONN_CONTINUE | CONN_RENDEZVOUS | CONN_CONFUSED
  | CONN_RUNNING | CONN_AGAIN

text \<open>
  The part of \<^verbatim>\<open>CUDT\<close> that takes part; \<open>m_hsreq_seen\<close> is \<^verbatim>\<open>!is_zero(m_tsRcvPeerStartTime)\<close>, \<open>reqpkt\<close> the handshake
  that was serialized last and is sent again and again.
\<close>

record rdv_sock =
  m_RdvState :: RendezvousState
  m_SrtHsSide :: HandshakeSide
  m_ConnReq :: handshake
  m_ConnRes :: handshake
  rdv_RejectReason :: int
  m_hsreq_seen :: bool
  reqpkt :: handshake

record rdv_env =
  env_rst_ok :: bool
  env_packet :: bool
  env_objects :: "int option"
  env_interpret :: "int option"
  env_craft :: EConnectStatus
  env_create :: "int option"
  env_post :: "int option"
  env_crypter :: bool
  env_keylen :: "32 word"
  env_config :: bool
  env_km :: bool
  env_flight :: "32 word"

definition hsflags_of :: "handshake \<Rightarrow> 32 word" where
  "hsflags_of hs = SRT_HSTYPE_HSFLAGS_unwrap (m_iType hs)"

definition cookieContest :: "rdv_sock \<Rightarrow> rdv_sock" where
  "cookieContest s =
     (if m_SrtHsSide s \<noteq> HSD_DRAW then s
      else if m_iCookie (m_ConnReq s) = 0 \<or> m_iCookie (m_ConnRes s) = 0 then s
      else s\<lparr>m_SrtHsSide := backwardCompatibleCookieContest (m_iCookie (m_ConnReq s)) (m_iCookie (m_ConnRes s))\<rparr>)"

text \<open>The result: the state, the response type, whether extensions are needed and whether they are a response.\<close>

definition rendezvousSwitchState :: "rdv_sock \<Rightarrow> int \<Rightarrow> RendezvousState \<times> int \<times> bool \<times> bool" where
  "rendezvousSwitchState s w_rsptype =
     (let req = m_iReqType (m_ConnRes s);
          hs_flags = hsflags_of (m_ConnRes s);
          has_extension = (hs_flags \<noteq> 0);
          hsd = m_SrtHsSide s;
          failed = (RDV_WAVING, URQFailure (rej_code SRT_REJ_ROGUE), False, False)
      in case m_RdvState s of
        RDV_INVALID \<Rightarrow> (RDV_INVALID, w_rsptype, False, False)
      | RDV_WAVING \<Rightarrow>
          if req = URQ_WAVEAHAND then (RDV_ATTENTION, URQ_CONCLUSION, hsd = HSD_INITIATOR, False)
          else if req = URQ_CONCLUSION then (RDV_FINE, URQ_CONCLUSION, True, hsd = HSD_RESPONDER)
          else failed
      | RDV_ATTENTION \<Rightarrow>
          if req = URQ_WAVEAHAND then (RDV_ATTENTION, URQ_CONCLUSION, hsd = HSD_INITIATOR, False)
          else if req = URQ_CONCLUSION then
            (if hsd = HSD_INITIATOR then
               (if hs_flags = 0 then (RDV_ATTENTION, URQ_CONCLUSION, True, False)
                else (RDV_CONNECTED, URQ_AGREEMENT, False, False))
             else if hsd = HSD_RESPONDER then
               (if hs_flags = 0 then (RDV_ATTENTION, URQ_CONCLUSION, False, False)
                else (RDV_INITIATED, URQ_CONCLUSION, True, True))
             else (RDV_INVALID, URQFailure (rej_code SRT_REJ_RDVCOOKIE), False, False))
          else if req = URQ_AGREEMENT \<and> hsd = HSD_INITIATOR then (RDV_CONNECTED, URQ_DONE, False, False)
          else if req = URQ_AGREEMENT \<and> hsd = HSD_RESPONDER then (RDV_ATTENTION, URQ_CONCLUSION, True, True)
          else failed
      | RDV_FINE \<Rightarrow>
          if req = URQ_CONCLUSION then
            (let correct_switch = (\<not> (hsd = HSD_INITIATOR \<and> \<not> has_extension) \<and> hsd \<noteq> HSD_RESPONDER) in
             if \<not> correct_switch then (RDV_FINE, URQ_CONCLUSION, True, hsd = HSD_RESPONDER)
             else (RDV_CONNECTED, URQ_AGREEMENT, False, False))
          else if req = URQ_AGREEMENT then (RDV_CONNECTED, URQ_DONE, False, False)
          else failed
      | RDV_INITIATED \<Rightarrow>
          if req = URQ_AGREEMENT then (RDV_CONNECTED, URQ_DONE, False, False)
          else if req = URQ_CONCLUSION then (RDV_INITIATED, URQ_CONCLUSION, True, True)
          else failed
      | RDV_CONNECTED \<Rightarrow> (RDV_CONNECTED, URQ_DONE, False, False))"

section \<open>Building and interpreting messages\<close>

definition UDT_DGRAM :: "32 word" where "UDT_DGRAM = 2"

text \<open>\<open>rsp\<close> says that the command is \<^verbatim>\<open>SRT_CMD_HSRSP\<close> and not \<^verbatim>\<open>SRT_CMD_HSREQ\<close>.\<close>

definition createSrtHandshake_type :: "rdv_env \<Rightarrow> rdv_sock \<Rightarrow> bool \<Rightarrow> handshake \<Rightarrow> int option \<times> handshake" where
  "createSrtHandshake_type e s rsp hs =
     (let hs1 = (if sint (m_iVersion (m_ConnRes s)) = HS_VERSION_UDT4
                 then hs\<lparr>m_iVersion := word_of_int HS_VERSION_UDT4, m_iType := UDT_DGRAM, m_extension := False\<rparr>
                 else hs\<lparr>m_iType := 0\<rparr>);
          hs2 = (if sint (m_iVersion hs1) > HS_VERSION_UDT4
                 then hs1\<lparr>m_extension := (if m_iReqType hs1 = URQ_CONCLUSION \<and> rsp \<and> \<not> m_hsreq_seen s then False else m_extension hs1),
                          m_iType := wrapFlags False (env_keylen e)\<rparr>
                 else hs1\<lparr>m_iType := UDT_DGRAM\<rparr>)
      in if \<not> m_extension hs2 then (None, hs2)
         else if \<not> rsp \<and> m_SrtHsSide s = HSD_RESPONDER then (Some (rej_code SRT_REJ_IPE), hs2)
         else (env_create e,
               hs2\<lparr>m_iType := m_iType hs2 OR HS_EXT_HSREQ OR (if env_config e then HS_EXT_CONFIG else 0)
                              OR (if env_km e then HS_EXT_KMREQ else 0)\<rparr>))"

text \<open>
  The checks at the start of \<^verbatim>\<open>interpretSrtHandshake\<close>, for the version 5 handshakes it is called with here: one without
  extensions is refused; what becomes of the extensions themselves is an argument.
\<close>

definition interpretSrtHandshake_check :: "rdv_env \<Rightarrow> handshake \<Rightarrow> int option" where
  "interpretSrtHandshake_check e hs = (if hsflags_of hs = 0 then Some (rej_code SRT_REJ_ROGUE) else env_interpret e)"

section \<open>The handlers\<close>

definition reject :: "rdv_sock \<Rightarrow> int \<Rightarrow> EConnectStatus \<times> rdv_sock \<times> handshake list" where
  "reject s r = (CONN_REJECT, s\<lparr>rdv_RejectReason := r\<rparr>, [])"

definition rdv_respond :: "rdv_env \<Rightarrow> rdv_sock \<Rightarrow> EConnectStatus \<times> rdv_sock \<times> handshake list" where
  "rdv_respond e s =
     (let s1 = s\<lparr>m_ConnReq := (m_ConnReq s)\<lparr>m_extension := True\<rparr>\<rparr>;
          (failure, hs) = createSrtHandshake_type e s1 True (m_ConnReq s1);
          s2 = s1\<lparr>m_ConnReq := hs\<rparr>
      in case failure of Some r \<Rightarrow> reject s2 r
         | None \<Rightarrow> (CONN_CONTINUE, s2\<lparr>reqpkt := hs\<rparr>, []))"

definition rdv_request :: "rdv_env \<Rightarrow> rdv_sock \<Rightarrow> int \<Rightarrow> EConnectStatus \<times> rdv_sock \<times> handshake list" where
  "rdv_request e s rsp_type =
     (case (if m_RdvState s = RDV_CONNECTED then env_post e else None) of
        Some r \<Rightarrow> reject s r
      | None \<Rightarrow>
          if rsp_type = URQ_DONE then (CONN_ACCEPT, s, [])
          else
            let (failure, hs) = createSrtHandshake_type e s False (m_ConnReq s);
                s1 = s\<lparr>m_ConnReq := hs\<rparr>
            in case failure of Some r \<Rightarrow> reject s1 r
               | None \<Rightarrow>
                   let s2 = s1\<lparr>reqpkt := hs\<rparr> in
                   if rsp_type = URQ_AGREEMENT \<and> m_RdvState s2 = RDV_CONNECTED then (CONN_ACCEPT, s2, [hs])
                   else (CONN_CONTINUE, s2, []))"

definition processRendezvous :: "rdv_env \<Rightarrow> rdv_sock \<Rightarrow> EConnectStatus \<times> rdv_sock \<times> handshake list" where
  "processRendezvous e s =
     (if m_RdvState s = RDV_CONNECTED then (CONN_ACCEPT, s, [])
      else let s1 = cookieContest s in
      if m_SrtHsSide s1 = HSD_DRAW then reject s1 (rej_code SRT_REJ_RDVCOOKIE)
      else
        let (st, rsp_type, needs_extension, needs_hsrsp) = rendezvousSwitchState s1 URQ_FAILURE_TYPES;
            s2 = s1\<lparr>m_RdvState := st\<rparr>
        in if rsp_type > URQ_FAILURE_TYPES then reject s2 (RejectReasonForURQ rsp_type)
        else
          let s3 = s2\<lparr>m_ConnReq := (m_ConnReq s2)\<lparr>m_iReqType := rsp_type, m_extension := needs_extension\<rparr>\<rparr> in
          if \<not> hs_valid (m_ConnRes s3) then reject s3 (rej_code SRT_REJ_ROGUE)
          else case env_objects e of Some r \<Rightarrow> reject s3 r
          | None \<Rightarrow>
              if needs_hsrsp then
                (if env_rst_ok e then
                   (if \<not> env_packet e then reject s3 (rej_code SRT_REJ_IPE)
                    else case interpretSrtHandshake_check e (m_ConnRes s3) of Some r \<Rightarrow> reject s3 r
                         | None \<Rightarrow> rdv_respond e (s3\<lparr>m_hsreq_seen := True\<rparr>))
                 else if env_craft e \<noteq> CONN_ACCEPT then (env_craft e, s3, [])
                 else rdv_respond e s3)
              else if m_SrtHsSide s3 = HSD_INITIATOR \<and> m_iReqType (m_ConnReq s3) = URQ_AGREEMENT \<and> env_rst_ok e \<and> env_packet e then
                (case interpretSrtHandshake_check e (m_ConnRes s3) of
                   Some r \<Rightarrow> reject (s3\<lparr>m_ConnReq := (m_ConnReq s3)\<lparr>m_iReqType := URQFailure r\<rparr>\<rparr>) r
                 | None \<Rightarrow> rdv_request e (s3\<lparr>m_hsreq_seen := True\<rparr>) rsp_type)
              else rdv_request e s3 rsp_type)"

definition ETH_MAX_MTU_SIZE :: int where "ETH_MAX_MTU_SIZE = 1500"

text \<open>The messages a rendezvous socket gets while it is connecting; the last branch is that of old peers.\<close>

definition processConnectResponse_rdv :: "rdv_env \<Rightarrow> rdv_sock \<Rightarrow> handshake \<Rightarrow> EConnectStatus \<times> rdv_sock \<times> handshake list" where
  "processConnectResponse_rdv e s response =
     (let post = (\<lambda>s. case env_post e of Some r \<Rightarrow> reject s r | None \<Rightarrow> (CONN_ACCEPT, s, [])) in
      if m_RdvState s = RDV_CONNECTED \<and> (sint (m_iVersion (m_ConnRes s)) \<ge> HS_VERSION_SRT1 \<or> m_iType (m_ConnRes s) \<noteq> 0) then post s
      else
        let s1 = s\<lparr>m_ConnRes := response\<lparr>m_extension := m_extension (m_ConnRes s)\<rparr>\<rparr>; res = m_ConnRes s1 in
        if m_iReqType res \<ge> URQ_FAILURE_TYPES then reject s1 (RejectReasonForURQ (m_iReqType res))
        else if sint (m_iMSS res) < 0 \<or> sint (m_iMSS res) > ETH_MAX_MTU_SIZE then reject s1 (rej_code SRT_REJ_ROGUE)
        else if m_iReqType res = URQ_INDUCTION then reject s1 (rej_code SRT_REJ_ROGUE)
        else if sint (m_iVersion res) > HS_VERSION_UDT4 then (CONN_RENDEZVOUS, s1, [])
        else if m_iReqType (m_ConnReq s1) = URQ_WAVEAHAND \<or> m_iReqType res = URQ_WAVEAHAND then
          (if \<not> env_crypter e
           then reject (s1\<lparr>m_ConnReq := (m_ConnReq s1)\<lparr>m_iReqType := URQFailure (rej_code SRT_REJ_RESOURCE)\<rparr>\<rparr>) (rej_code SRT_REJ_RESOURCE)
           else (CONN_CONTINUE, s1\<lparr>m_ConnReq := (m_ConnReq s1)\<lparr>m_iReqType := URQ_CONCLUSION\<rparr>\<rparr>, []))
        else post s1)"

text \<open>A received message is passed on as the receiving loops of \<^verbatim>\<open>startConnect\<close> and \<^verbatim>\<open>processAsyncConnectRequest\<close> do.\<close>

definition rdv_receive :: "rdv_env \<Rightarrow> rdv_sock \<Rightarrow> handshake \<Rightarrow> EConnectStatus \<times> rdv_sock \<times> handshake list" where
  "rdv_receive e s response =
     (case processConnectResponse_rdv e s response of
        (cst, s1, out) \<Rightarrow> if cst = CONN_RENDEZVOUS then processRendezvous e s1 else (cst, s1, out))"

text \<open>A handshake that comes when the socket is already connected.\<close>

definition processCtrlHS :: "rdv_env \<Rightarrow> rdv_sock \<Rightarrow> handshake \<Rightarrow> handshake list" where
  "processCtrlHS e s req =
     (if m_iReqType req > URQ_INDUCTION_TYPES \<or> m_iReqType req \<noteq> URQ_AGREEMENT then
        let initdata = CHandShake\<lparr>m_iISN := m_iISN (m_ConnReq s), m_iMSS := m_iMSS (m_ConnRes s),
              m_iFlightFlagSize := env_flight e, m_iReqType := URQ_AGREEMENT, m_iID := m_iID (m_ConnReq s)\<rparr>;
            initdata1 =
              (if sint (m_iVersion req) > HS_VERSION_UDT4 then
                 (if hsflags_of (m_ConnRes s) \<noteq> 0 \<and> interpretSrtHandshake_check e req \<noteq> None
                  then initdata\<lparr>m_iVersion := 0, m_iReqType := URQFailure (rej_code SRT_REJ_ROGUE)\<rparr>
                  else initdata\<lparr>m_iVersion := word_of_int HS_VERSION_SRT1\<rparr>)
               else initdata\<lparr>m_iVersion := word_of_int HS_VERSION_UDT4\<rparr>);
            (failure, hs) = createSrtHandshake_type e s True (initdata1\<lparr>m_extension := False\<rparr>)
        in if failure = None then [hs] else []
      else [])"

section \<open>The start\<close>

text \<open>The rendezvous branch of \<^verbatim>\<open>startConnect\<close>: the first request, which is serialized at once.\<close>

definition startConnect_rdv ::
  "32 word \<Rightarrow> 32 word \<Rightarrow> 32 word \<Rightarrow> 32 word \<Rightarrow> 32 word \<Rightarrow> 32 word list \<Rightarrow> 32 word \<Rightarrow> rdv_sock" where
  "startConnect_rdv cookie keylen mss flight ident ip isn =
     (let hs = CHandShake\<lparr>m_iVersion := word_of_int HS_VERSION_SRT1, m_iReqType := URQ_WAVEAHAND, m_iCookie := cookie,
            m_iType := wrapFlags False keylen, m_iMSS := mss, m_iFlightFlagSize := flight, m_iID := ident,
            m_piPeerIP := ip, m_iISN := isn\<rparr>
      in \<lparr>m_RdvState = RDV_WAVING, m_SrtHsSide = HSD_DRAW, m_ConnReq = hs, m_ConnRes = CHandShake,
          rdv_RejectReason = rej_code SRT_REJ_UNKNOWN, m_hsreq_seen = False, reqpkt = hs\<rparr>)"

end
