(* ===== verification/HsMessage.thy ===== *)
theory HsMessage
  imports HsNegotiation Rendezvous "HOL-Library.List_Lexorder" "HOL-Library.Char_ord"
begin

text \<open>
  A whole version 5 handshake message (\<^verbatim>\<open>core.cpp\<close>): \<^verbatim>\<open>createSrtHandshake\<close> writes the fixed part and the
  extension blocks one after the other into the packet, \<^verbatim>\<open>interpretSrtHandshake\<close> takes a received message apart and
  decides whether the connection is accepted, \<^verbatim>\<open>checkApplyFilterConfig\<close> compares the configurations of the packet
  filters. The build is the default one, with encryption and without bonding. \<^verbatim>\<open>CCryptoControl\<close>, which calls an
  external cipher library, is an argument, the record \<open>crypto_control\<close>. \<open>None\<close> is an access outside the packet.
\<close>

unbundle bit_operations_syntax

section \<open>State\<close>

record hs_party =
  agent :: hs_agent
  hs_side :: HandshakeSide
  m_iMaxSRTPayloadSize :: nat
  m_sPeerPktFilterConfigString :: string
  m_SndKmState :: km_state
  m_RcvKmState :: km_state

text \<open>
  What the functions use of \<^verbatim>\<open>CCryptoControl\<close>: whether it exists, \<^verbatim>\<open>hasPassphrase\<close>, the key messages to be sent with their
  sizes in bytes (\<^verbatim>\<open>getKmMsg_needSend\<close>, \<^verbatim>\<open>getKmMsg_data\<close>, \<^verbatim>\<open>getKmMsg_size\<close>), and the results of \<^verbatim>\<open>processSrtMsg_KMREQ\<close>
  (result, response words, new receiver state) and \<^verbatim>\<open>processSrtMsg_KMRSP\<close> (result, new sender state).
\<close>

record crypto_control =
  cc_exists :: bool
  hasPassphrase :: bool
  getKmMsg :: "nat \<Rightarrow> (32 word list \<times> nat) option"
  processSrtMsg_KMREQ :: "32 word list \<Rightarrow> nat \<Rightarrow> int \<times> 32 word list \<times> km_state"
  processSrtMsg_KMRSP :: "32 word list \<Rightarrow> nat \<Rightarrow> int \<times> km_state"

definition set_reason :: "SRT_REJECT_REASON \<Rightarrow> hs_party \<Rightarrow> hs_party" where
  "set_reason r p = p\<lparr>agent := (agent p)\<lparr>m_RejectReason := r\<rparr>\<rparr>"

definition party_config :: "hs_party \<Rightarrow> srt_config" where
  "party_config p = m_config (agent p)"

definition set_config :: "(srt_config \<Rightarrow> srt_config) \<Rightarrow> hs_party \<Rightarrow> hs_party" where
  "set_config f p = p\<lparr>agent := (agent p)\<lparr>m_config := f (party_config p)\<rparr>\<rparr>"

text \<open>The bytes of a string and the text of an array of bytes.\<close>

definition string_bytes :: "string \<Rightarrow> byte list" where
  "string_bytes s = map of_char s"

definition bytes_string :: "byte list \<Rightarrow> string" where
  "bytes_string bs = map (\<lambda>b. char_of (unat b)) bs"

section \<open>Writing a message\<close>

text \<open>The place of the last block (its offset and size) moves on and the next block is written behind it.\<close>

definition attach ::
  "bool \<Rightarrow> (32 word list \<Rightarrow> nat \<Rightarrow> (nat \<times> 32 word list) option) \<Rightarrow> nat \<times> nat \<times> 32 word list
     \<Rightarrow> (nat \<times> nat \<times> 32 word list) option" where
  "attach have fill c =
     (case c of (offset, ra_size, buf) \<Rightarrow>
        if \<not> have then Some c
        else let offset' = offset + ra_size + 1 in
             do { (ra_size', buf') \<leftarrow> fill buf (offset' - 1); Some (offset', ra_size', buf') })"

definition attach_key :: "bool \<Rightarrow> crypto_control \<Rightarrow> nat \<Rightarrow> nat \<times> nat \<times> 32 word list \<Rightarrow> (nat \<times> nat \<times> 32 word list) option" where
  "attach_key big cc ki c =
     (case getKmMsg cc ki of None \<Rightarrow> Some c
      | Some (keydata, msglen) \<Rightarrow> attach True (\<lambda>buf pos. fillHsExtKMREQ big buf pos keydata msglen) c)"

definition attach_km ::
  "bool \<Rightarrow> crypto_control \<Rightarrow> hs_party \<Rightarrow> int \<Rightarrow> 32 word list option \<Rightarrow> nat \<Rightarrow> nat \<times> nat \<times> 32 word list
     \<Rightarrow> (bool \<times> hs_party \<times> nat \<times> nat \<times> 32 word list) option" where
  "attach_km big cc p srtkm_cmd kmdata kmdata_wordsize c =
     (if \<not> cc_exists cc \<and> (srtkm_cmd = SRT_CMD_KMREQ \<or> srtkm_cmd = SRT_CMD_KMRSP) then Some (False, set_reason SRT_REJ_IPE p, c)
      else if srtkm_cmd = SRT_CMD_KMREQ then
        do { c1 \<leftarrow> attach_key big cc 0 c;
             c2 \<leftarrow> attach_key big cc 1 c1;
             if getKmMsg cc 0 = None \<and> getKmMsg cc 1 = None then Some (False, set_reason SRT_REJ_IPE p, c2)
             else Some (True, p, c2) }
      else if srtkm_cmd = SRT_CMD_KMRSP then
        (case c of (offset, ra_size, buf) \<Rightarrow>
           let offset' = offset + ra_size + 1 in
           do { (ra_size', buf', (snd_st, rcv_st), failure) \<leftarrow>
                  fillHsExtKMRSP big buf (offset' - 1) kmdata kmdata_wordsize (m_SndKmState p, m_RcvKmState p);
                let p1 = p\<lparr>m_SndKmState := snd_st, m_RcvKmState := rcv_st\<rparr>;
                let p2 = (case failure of None \<Rightarrow> p1 | Some r \<Rightarrow> set_reason r p1);
                Some (True, p2, offset', ra_size', buf') })
      else Some (False, set_reason SRT_REJ_IPE p, c))"

text \<open>
  The result: success, the state, the handshake, the packet and its length. Lengths are computed in \<^verbatim>\<open>size_t\<close>, so the
  space left wraps around when there is none. \<open>res_version\<close> is \<^verbatim>\<open>m_ConnRes.m_iVersion\<close>.
\<close>

definition createSrtHandshake ::
  "bool \<Rightarrow> crypto_control \<Rightarrow> hs_party \<Rightarrow> int \<Rightarrow> int \<Rightarrow> int \<Rightarrow> 32 word list option \<Rightarrow> nat \<Rightarrow> 32 word list \<Rightarrow> nat \<Rightarrow> handshake
     \<Rightarrow> (bool \<times> hs_party \<times> handshake \<times> 32 word list \<times> nat) option" where
  "createSrtHandshake big cc p res_version srths_cmd srtkm_cmd kmdata kmdata_wordsize pkt pktlen w_hs =
     (let c = party_config p;
          hs1 = (if res_version = HS_VERSION_UDT4
                 then w_hs\<lparr>m_iVersion := word_of_int HS_VERSION_UDT4, m_iType := UDT_DGRAM, m_extension := False\<rparr>
                 else w_hs\<lparr>m_iType := 0\<rparr>);
          hs2 = (if sint (m_iVersion hs1) > HS_VERSION_UDT4
                 then hs1\<lparr>m_extension := (m_extension hs1 \<and>
                            \<not> (m_iReqType hs1 = URQ_CONCLUSION \<and> srths_cmd = SRT_CMD_HSRSP \<and> m_tsRcvPeerStartTime (agent p) = 0)),
                          m_iType := wrapFlags False (word_of_int (iSndCryptoKeyLen c))\<rparr>
                 else hs1\<lparr>m_iType := UDT_DGRAM\<rparr>)
      in if \<not> m_extension hs2
         then do { (_, pkt', hs_size) \<leftarrow> store_to hs2 pkt pktlen; Some (True, p, hs2, pkt', hs_size) }
         else if srths_cmd = SRT_CMD_HSREQ \<and> hs_side p = HSD_RESPONDER
         then Some (False, set_reason SRT_REJ_IPE p, hs2, pkt, pktlen)
         else
           let have_sid = (srths_cmd = SRT_CMD_HSREQ \<and> sStreamName c \<noteq> []);
               peer_filter_capable = (srths_cmd \<noteq> SRT_CMD_HSRSP \<or> m_sPeerPktFilterConfigString p \<noteq> []
                 \<or> IsSet (m_uPeerSrtFlags (agent p)) SRT_OPT_FILTERCAP);
               have_filter = (peer_filter_capable \<and> sPacketFilterConfig c \<noteq> []);
               sm = sCongestion c;
               have_congctl = (sm \<noteq> [] \<and> sm \<noteq> ''live'');
               have_kmreq = (CryptoSecret c \<noteq> [] \<or> kmdata_wordsize > 0);
               hs3 = hs2\<lparr>m_iType := m_iType hs2 OR HS_EXT_HSREQ
                        OR (if have_sid then HS_EXT_CONFIG else 0) OR (if have_filter then HS_EXT_CONFIG else 0)
                        OR (if have_congctl then HS_EXT_CONFIG else 0)
                        OR (if have_kmreq then HS_EXT_KMREQ else 0)\<rparr>;
               total_ra_size = pktlen div 4
           in do {
             (_, pkt1, hs_size) \<leftarrow> store_to hs3 pkt pktlen;
             let pcmdspec = hs_size div 4;
             let offset = pcmdspec + 1;
             (ra_size, pkt2, agent') \<leftarrow> fillSrtHandshake (agent p) pkt1 offset
                (nat ((int total_ra_size - int offset) mod 2 ^ 64)) srths_cmd HS_VERSION_SRT1;
             pkt3 \<leftarrow> wr pkt2 (int pcmdspec) (cmdspec srths_cmd ra_size);
             let p1 = p\<lparr>agent := agent'\<rparr>;
             if have_sid \<and> length (sStreamName c) \<ge> m_iMaxSRTPayloadSize p div 2
             then Some (False, set_reason SRT_REJ_ROGUE p1, hs3, pkt3, pktlen)
             else do {
               c1 \<leftarrow> attach have_sid (\<lambda>buf pos. fillHsExtConfigString big buf pos SRT_CMD_SID (string_bytes (sStreamName c))) (offset, ra_size, pkt3);
               c2 \<leftarrow> attach have_congctl (\<lambda>buf pos. fillHsExtConfigString big buf pos SRT_CMD_CONGESTION (string_bytes sm)) c1;
               c3 \<leftarrow> attach have_filter (\<lambda>buf pos. fillHsExtConfigString big buf pos SRT_CMD_FILTER (string_bytes (sPacketFilterConfig c))) c2;
               (ok, p2, (offset', ra_size', pkt4)) \<leftarrow> (if have_kmreq then attach_km big cc p1 srtkm_cmd kmdata kmdata_wordsize c3 else Some (True, p1, c3));
               if \<not> ok \<or> ra_size' = 0 then Some (False, p2, hs3, pkt4, pktlen)
               else Some (True, p2, hs3, pkt4, (ra_size' + offset') * 4) } })"

section \<open>Comparing filter configurations\<close>

definition correctConfig :: "filter_registry \<Rightarrow> srt_filter_config \<Rightarrow> bool" where
  "correctConfig r conf =
     (case map_of (fc_parameters conf) ''type'' of
        None \<Rightarrow> True
      | Some pname \<Rightarrow> pname = ''adaptive'' \<or> filter_find r pname \<noteq> None)"

text \<open>A \<^verbatim>\<open>std::map\<close> is printed in the order of its keys.\<close>

definition print_parameters :: "par_t \<Rightarrow> string" where
  "print_parameters ps = concat (map (\<lambda>(k, v). CHR '','' # k @ CHR '':'' # v) (sort_key fst ps))"

definition checkApplyFilterConfig :: "filter_registry \<Rightarrow> HandshakeSide \<Rightarrow> srt_config \<Rightarrow> string \<Rightarrow> bool \<times> srt_config" where
  "checkApplyFilterConfig r side c confstr =
     (case ParseFilterConfig r confstr SrtFilterConfig of (ok, cfg) \<Rightarrow>
      if \<not> ok \<or> \<not> correctConfig r cfg then (False, c)
      else
        let thisconf = sPacketFilterConfig c;
            store = (\<lambda>s. c\<lparr>sPacketFilterConfig := snd (storage_set MAX_PFILTER_LENGTH (sPacketFilterConfig c) s)\<rparr>);
            finish = (\<lambda>c'. let efc_max_payload_size = (SRT_LIVE_MAX_PLSIZE - int (fc_extra_size cfg)) mod 2 ^ 64 in
                       (True, if zExpPayloadSize c' > efc_max_payload_size then c'\<lparr>zExpPayloadSize := efc_max_payload_size\<rparr> else c'))
        in if thisconf \<noteq> [] then
             (if bRendezvous c \<and> thisconf \<noteq> confstr then (False, c)
              else case ParseFilterConfig r thisconf SrtFilterConfig of (ok2, mycfg) \<Rightarrow>
                if \<not> ok2 \<or> fc_type mycfg \<noteq> fc_type cfg then (False, c)
                else if side = HSD_INITIATOR then
                  finish (store (fc_type mycfg @ print_parameters
                    (fold (\<lambda>(k, v). AList.update k v) (fc_parameters cfg) (fc_parameters mycfg))))
                else case CheckFilterCompat r mycfg cfg of (ok3, mycfg') \<Rightarrow>
                  if \<not> ok3 then (False, c)
                  else finish (store (fc_type mycfg' @ print_parameters (fc_parameters mycfg'))))
           else finish (store confstr))"

section \<open>Reading a message\<close>

text \<open>
  The loops over the blocks: \<open>body\<close> gets the command, the size and the place of a block; \<open>Inl\<close> leaves the loop, \<open>Inr\<close> goes on to
  the next block if there is one.
\<close>

partial_function (option) scan_blocks ::
  "(int \<Rightarrow> nat \<Rightarrow> nat \<Rightarrow> 's \<Rightarrow> ('r + 's) option) \<Rightarrow> ('s \<Rightarrow> 'r) \<Rightarrow> 32 word list \<Rightarrow> nat \<Rightarrow> nat \<Rightarrow> nat \<Rightarrow> nat option \<Rightarrow> 's \<Rightarrow> 'r option" where
  "scan_blocks body fin buf begin_ix len blocklen next_ix st =
     do { (cmd, blocklen', next') \<leftarrow> FindExtensionBlock buf begin_ix len blocklen next_ix;
          res \<leftarrow> body cmd blocklen' begin_ix st;
          (case res of Inl r \<Rightarrow> Some r
           | Inr st' \<Rightarrow>
               (case NextExtensionBlock begin_ix next' len of (has_next, begin', len') \<Rightarrow>
                  if \<not> has_next then Some (fin st') else scan_blocks body fin buf begin' len' blocklen' next' st')) }"

declare scan_blocks.simps [code]

definition hsreq_body ::
  "int \<Rightarrow> 32 word list \<Rightarrow> 32 word \<Rightarrow> int \<Rightarrow> nat \<Rightarrow> nat \<Rightarrow> hs_party \<Rightarrow> (bool \<times> hs_party + hs_party) option" where
  "hsreq_body now pkt ts cmd blocklen begin_ix p =
     (if cmd = SRT_CMD_HSREQ then
        (if blocklen < SRT_HS_E_SIZE then Some (Inl (False, set_reason SRT_REJ_ROGUE p))
         else do { (rescmd, a) \<leftarrow> processSrtMsg_HSREQ now (agent p) (drop (begin_ix + 1) pkt) (blocklen * 4) ts HS_VERSION_SRT1;
                   if rescmd \<noteq> SRT_CMD_HSRSP then Some (Inl (False, p\<lparr>agent := a\<rparr>))
                   else Some (Inl (True, p\<lparr>agent := handshakeDone a\<rparr>)) })
      else if cmd = SRT_CMD_HSRSP then
        (if blocklen < SRT_HS_E_SIZE then Some (Inl (False, set_reason SRT_REJ_ROGUE p))
         else do { (rescmd, a) \<leftarrow> processSrtMsg_HSRSP now (agent p) (drop (begin_ix + 1) pkt) (blocklen * 4) ts HS_VERSION_SRT1;
                   if rescmd \<noteq> SRT_CMD_NONE
                   then Some (Inl (False, p\<lparr>agent := a\<lparr>m_RejectReason :=
                     (if m_RejectReason a = SRT_REJ_UNKNOWN then SRT_REJ_ROGUE else m_RejectReason a)\<rparr>\<rparr>))
                   else Some (Inl (True, p\<lparr>agent := handshakeDone a\<rparr>)) })
      else if cmd = SRT_CMD_NONE then Some (Inl (False, set_reason SRT_REJ_ROGUE p))
      else Some (Inr p))"

text \<open>The result of the loop over the key messages: success, whether the peer encrypts, the state and the response words.\<close>

definition km_body ::
  "crypto_control \<Rightarrow> 32 word list \<Rightarrow> bool \<Rightarrow> int \<Rightarrow> nat \<Rightarrow> nat \<Rightarrow> hs_party
     \<Rightarrow> (bool \<times> bool \<times> hs_party \<times> 32 word list + hs_party) option" where
  "km_body cc pkt has_out cmd blocklen begin_ix p =
     (if cmd = SRT_CMD_KMREQ then
        (if \<not> has_out then Some (Inl (False, False, set_reason SRT_REJ_IPE p, []))
         else do { ws \<leftarrow> get_words pkt (int (begin_ix + 1)) blocklen;
                   case processSrtMsg_KMREQ cc ws (blocklen * 4) of (res, out, st) \<Rightarrow>
                     let p1 = p\<lparr>m_RcvKmState := st\<rparr> in
                     if res \<noteq> SRT_CMD_KMRSP then Some (Inl (False, False, set_reason SRT_REJ_IPE p1, out))
                     else if length out = 1 \<and> bEnforcedEnc (party_config p)
                     then Some (Inl (False, False, set_reason (if st = SRT_KM_S_BADSECRET then SRT_REJ_BADSECRET else SRT_REJ_UNSECURE) p1, out))
                     else Some (Inl (True, True, p1, out)) })
      else if cmd = SRT_CMD_KMRSP then
        do { ws \<leftarrow> get_words pkt (int (begin_ix + 1)) blocklen;
             case processSrtMsg_KMRSP cc ws (blocklen * 4) of (res, st) \<Rightarrow>
               let p1 = p\<lparr>m_SndKmState := st\<rparr> in
               if bEnforcedEnc (party_config p) \<and> res = -1
               then Some (Inl (False, False, set_reason (if st = SRT_KM_S_BADSECRET then SRT_REJ_BADSECRET else SRT_REJ_UNSECURE) p1, []))
               else Some (Inl (True, True, p1, [])) }
      else if cmd = SRT_CMD_NONE then Some (Inl (False, False, set_reason SRT_REJ_ROGUE p, []))
      else Some (Inr p))"

text \<open>A string block copied to a cleared array of \<open>mx + 1\<close> characters, as text up to the first zero.\<close>

definition block_text :: "bool \<Rightarrow> nat \<Rightarrow> 32 word list \<Rightarrow> nat \<Rightarrow> nat \<Rightarrow> string option" where
  "block_text big mx pkt begin_ix blocklen =
     do { ws \<leftarrow> get_words pkt (int (begin_ix + 1)) blocklen;
          Some (c_str (bytes_string (store_words big (ItoHLA big ws) @ replicate (mx + 1 - blocklen * 4) 0))) }"

text \<open>The state of the loop over the configuration blocks: whether congestion control and filter were seen, and the party.\<close>

type_synonym config_state = "bool \<times> bool \<times> hs_party"

definition config_body ::
  "filter_registry \<Rightarrow> bool \<Rightarrow> 32 word list \<Rightarrow> string \<Rightarrow> int \<Rightarrow> nat \<Rightarrow> nat \<Rightarrow> config_state
     \<Rightarrow> (bool \<times> config_state + config_state) option" where
  "config_body r big pkt agsm cmd blocklen begin_ix st =
     (case st of (have_congctl, have_filter, p) \<Rightarrow>
      let bytelen = blocklen * 4 in
      if cmd = SRT_CMD_SID then
        do { name \<leftarrow> interpret_SID big MAX_SID_LENGTH pkt begin_ix blocklen;
             (case name of None \<Rightarrow> Some (Inl (False, st))
              | Some bs \<Rightarrow> Some (Inr (have_congctl, have_filter,
                  set_config (\<lambda>c. c\<lparr>sStreamName := snd (storage_set MAX_SID_LENGTH (sStreamName c) (bytes_string bs))\<rparr>) p))) }
      else if cmd = SRT_CMD_CONGESTION then
        (if have_congctl then Some (Inl (False, have_congctl, have_filter, set_reason SRT_REJ_ROGUE p))
         else if bytelen = 0 \<or> bytelen > MAX_CONG_LENGTH then Some (Inl (False, st))
         else do { sm \<leftarrow> block_text big MAX_CONG_LENGTH pkt begin_ix blocklen;
                   if sm \<noteq> agsm then Some (Inl (False, True, have_filter, set_reason SRT_REJ_CONGESTION p))
                   else Some (Inr (True, have_filter, p)) })
      else if cmd = SRT_CMD_FILTER then
        (if have_filter then Some (Inl (False, have_congctl, have_filter, set_reason SRT_REJ_FILTER p))
         else if bytelen = 0 \<or> bytelen > MAX_PFILTER_LENGTH then Some (Inl (False, st))
         else do { fltcfg \<leftarrow> block_text big MAX_PFILTER_LENGTH pkt begin_ix blocklen;
                   case checkApplyFilterConfig r (hs_side p) (party_config p) fltcfg of (ok, c) \<Rightarrow>
                     if \<not> ok then Some (Inl (False, have_congctl, True, set_reason SRT_REJ_FILTER p))
                     else Some (Inr (have_congctl, True, set_config (\<lambda>_. c) p)) })
      else if cmd = SRT_CMD_NONE then Some (Inl (True, st))
      else Some (Inr st))"

definition post_checks :: "string \<Rightarrow> bool \<Rightarrow> config_state \<Rightarrow> bool \<times> hs_party" where
  "post_checks agsm encrypted st =
     (case st of (have_congctl, have_filter, p) \<Rightarrow>
      let c = party_config p in
      if \<not> encrypted \<and> CryptoSecret c \<noteq> [] then
        (if bEnforcedEnc c then (False, set_reason SRT_REJ_UNSECURE p)
         else (True, p\<lparr>m_SndKmState := SRT_KM_S_NOSECRET, m_RcvKmState := SRT_KM_S_UNSECURED\<rparr>))
      else if agsm \<noteq> ''live'' \<and> \<not> have_congctl then (False, set_reason SRT_REJ_CONGESTION p)
      else if sPacketFilterConfig c \<noteq> [] \<and> \<not> have_filter then
        (if hs_side p = HSD_INITIATOR then (False, set_reason SRT_REJ_FILTER p)
         else (True, set_config (\<lambda>c. c\<lparr>sPacketFilterConfig := []\<rparr>) p))
      else (True, p))"

text \<open>
  The packet is its words and its length in bytes. \<open>has_out\<close> says that the caller passes a buffer for the response to a key
  message, whose words are returned.
\<close>

definition interpretSrtHandshake ::
  "filter_registry \<Rightarrow> bool \<Rightarrow> crypto_control \<Rightarrow> int \<Rightarrow> hs_party \<Rightarrow> int \<Rightarrow> handshake \<Rightarrow> 32 word list \<Rightarrow> nat \<Rightarrow> 32 word \<Rightarrow> bool
     \<Rightarrow> (bool \<times> hs_party \<times> 32 word list) option" where
  "interpretSrtHandshake r big cc now p res_version hs pkt pktlen ts has_out =
     (let minver = uMinimumPeerSrtVersion (party_config p); ext_flags = hsflags_of hs;
          words = (pktlen - m_iContentSize) div 4; start = m_iContentSize div 4 in
      if res_version > HS_VERSION_UDT4 \<and> sint (m_iVersion hs) = 0 then Some (False, set_reason SRT_REJ_PEER p, [])
      else if sint (m_iVersion hs) < HS_VERSION_SRT1 then
        (if minver \<noteq> 0 \<and> minver \<ge> uint SRT_VERSION_FEAT_HSv5 then Some (False, set_reason SRT_REJ_VERSION p, [])
         else Some (True, p, []))
      else if pktlen \<le> m_iContentSize then Some (False, set_reason SRT_REJ_ROGUE p, [])
      else if ext_flags = 0 then Some (False, set_reason SRT_REJ_ROGUE p, [])
      else do {
        (ok1, p1) \<leftarrow> (if IsSet ext_flags HS_EXT_HSREQ
                     then scan_blocks (hsreq_body now pkt ts) (Pair True) pkt start words 0 None p else Some (True, p));
        if \<not> ok1 then Some (False, p1, [])
        else if IsSet ext_flags HS_EXT_KMREQ \<and> \<not> hasPassphrase cc \<and> bEnforcedEnc (party_config p1)
        then Some (False, set_reason SRT_REJ_UNSECURE p1, [])
        else do {
          (ok2, encrypted, p2, out) \<leftarrow> (if IsSet ext_flags HS_EXT_KMREQ
                     then scan_blocks (km_body cc pkt has_out) (\<lambda>p. (True, False, p, [])) pkt start words 0 None p1
                     else Some (True, False, p1, []));
          if \<not> ok2 then Some (False, p2, out)
          else
            let p3 = (if sCongestion (party_config p2) = [] then set_config (\<lambda>c. c\<lparr>sCongestion := ''live''\<rparr>) p2 else p2);
                agsm = sCongestion (party_config p3) in
            do { (ok3, st) \<leftarrow> (if IsSet ext_flags HS_EXT_CONFIG
                     then scan_blocks (config_body r big pkt agsm) (Pair True) pkt start words 0 None (False, False, p3)
                     else Some (True, False, False, p3));
                 if \<not> ok3 then Some (False, snd (snd st), out)
                 else (case post_checks agsm encrypted st of (ok, p4) \<Rightarrow> Some (ok, p4, out)) } } })"

end
