(* ===== verification/HsMessageSpec.thy ===== *)
theory HsMessageSpec
  imports HsMessage
begin

text \<open>
  What the functions of \<open>HsMessage\<close> do. A loop over the blocks of a packet is first shown to be the same as a recursion over
  the words (\<open>walk\<close>), which always ends and never leaves the packet; a message with known blocks is then read block by block. On the
  writing side the message is the fixed part followed by a list of blocks. Both sides meet in the last section: what an
  initiator writes, the responder understands.
\<close>

unbundle bit_operations_syntax

section \<open>Loops over blocks\<close>

text \<open>
  \<open>f\<close> gets the command and the words of a block. \<open>none\<close> is the result when there is no block or the next one does not fit, \<open>fin\<close>
  the result after the last block.
\<close>

function walk :: "(int \<Rightarrow> 32 word list \<Rightarrow> 's \<Rightarrow> 'r + 's) \<Rightarrow> ('s \<Rightarrow> 'r) \<Rightarrow> ('s \<Rightarrow> 'r) \<Rightarrow> 32 word list \<Rightarrow> 's \<Rightarrow> 'r" where
  "walk f fin none [] st = none st"
| "walk f fin none (w # ws) st =
     (if cmdspec_size w > length ws then none st
      else case f (cmdspec_cmd w) (take (cmdspec_size w) ws) st of
             Inl r \<Rightarrow> r
           | Inr st' \<Rightarrow> if cmdspec_size w = length ws then fin st' else walk f fin none (drop (cmdspec_size w) ws) st')"
  by pat_completeness auto

termination by (relation "measure (\<lambda>(f, fin, none, ws, st). length ws)") auto

text \<open>The contract of a loop body: it looks at its block only, and leaves the loop when there is none.\<close>

locale block_reader =
  fixes pkt :: "32 word list" and body :: "int \<Rightarrow> nat \<Rightarrow> nat \<Rightarrow> 's \<Rightarrow> ('r + 's) option"
    and f :: "int \<Rightarrow> 32 word list \<Rightarrow> 's \<Rightarrow> 'r + 's" and none :: "'s \<Rightarrow> 'r"
  assumes no_block: "body SRT_CMD_NONE n b st = Some (Inl (none st))"
    and block: "0 \<le> cmd \<Longrightarrow> b + 1 + n \<le> length pkt \<Longrightarrow> body cmd n b st = Some (f cmd (take n (drop (b + 1) pkt)) st)"
begin

lemma scan_blocks_walk:
  assumes "b + len \<le> length pkt"
  shows "scan_blocks body fin pkt b len bl nx st = Some (walk f fin none (take len (drop b pkt)) st)"
  using assms
proof (induction len arbitrary: b bl nx st rule: less_induct)
  case (less len)
  show ?case
  proof (cases len)
    case 0
    then show ?thesis by (simp add: scan_blocks.simps FindExtensionBlock_def no_block)
  next
    case (Suc m)
    define w where "w = pkt ! b"
    define n where "n = cmdspec_size w"
    have rd: "rd pkt (int b) = Some w" using less.prems Suc by (simp add: rd_def w_def)
    have "drop b pkt = w # drop (Suc b) pkt" using less.prems Suc by (simp add: w_def Cons_nth_drop_Suc)
    then have tl: "take len (drop b pkt) = w # take m (drop (Suc b) pkt)" using Suc by simp
    have lt: "length (take m (drop (Suc b) pkt)) = m" using less.prems Suc by simp
    show ?thesis
    proof (cases "n \<le> m")
      case False
      then show ?thesis
        unfolding tl
        by (simp add: scan_blocks.simps FindExtensionBlock_def rd Suc lt n_def [symmetric] Let_def no_block del: length_take)
    next
      case True
      define r where "r = f (cmdspec_cmd w) (take n (drop (Suc b) pkt)) st"
      have body: "body (cmdspec_cmd w) n b st = Some r"
        using block [of "cmdspec_cmd w" b n st] cmdspec_range(1) [of w] less.prems Suc True by (simp add: r_def)
      have "take n (take m (drop (Suc b) pkt)) = take n (drop (Suc b) pkt)" using True by (simp add: min_absorb1)
      moreover have "drop n (take m (drop (Suc b) pkt)) = take (m - n) (drop (Suc b + n) pkt)"
        by (simp add: drop_take add.commute)
      ultimately have wk: "walk f fin none (take len (drop b pkt)) st = (case r of Inl r \<Rightarrow> r
          | Inr st' \<Rightarrow> if n = m then fin st' else walk f fin none (take (m - n) (drop (Suc b + n) pkt)) st')"
        unfolding tl using True by (simp add: lt n_def [symmetric] r_def del: length_take split: sum.split)
      show ?thesis
        unfolding wk using True body Suc less.IH [of "m - n" "Suc b + n"] less.prems
        by (subst scan_blocks.simps)
          (auto simp: FindExtensionBlock_def rd NextExtensionBlock_def n_def [symmetric] Let_def split: sum.split)
    qed
  qed
qed

end

text \<open>A list of blocks, and nothing behind it.\<close>

fun each_block :: "(int \<Rightarrow> 32 word list \<Rightarrow> 's \<Rightarrow> 'r + 's) \<Rightarrow> ('s \<Rightarrow> 'r) \<Rightarrow> hs_extension list \<Rightarrow> 's \<Rightarrow> 'r" where
  "each_block f fin [] st = fin st"
| "each_block f fin (e # es) st =
     (case f (uint (ext_type e)) (ext_contents e) st of Inl r \<Rightarrow> r | Inr st' \<Rightarrow> each_block f fin es st')"

lemma walk_blocks:
  assumes "\<And>e. e \<in> set es \<Longrightarrow> length (ext_contents e) < 2 ^ 16" "es \<noteq> []"
  shows "walk f fin none (concat (map block_words es)) st = each_block f fin es st"
  using assms
proof (induction es arbitrary: st)
  case (Cons e es)
  have t: "uint (ext_type e) < 2 ^ 16" using uint_bounded [of "ext_type e"] by simp
  have l: "length (ext_contents e) < 2 ^ 16" using Cons.prems(1) by simp
  have "concat (map block_words es) = [] \<longleftrightarrow> es = []" by (cases es) (simp_all add: block_words_def)
  then show ?case
    using Cons t l by (cases "es = []") (simp_all add: block_words_def cmdspec_parts split: sum.split)
qed simp

section \<open>The three loops\<close>

text \<open>The bytes of a block, its text, and the name that the scan for its last character finds.\<close>

abbreviation block_bytes :: "32 word list \<Rightarrow> byte list" where "block_bytes ws \<equiv> store_words False ws"

definition text_of :: "32 word list \<Rightarrow> string" where
  "text_of ws = c_str (bytes_string (block_bytes ws))"

definition sid_of :: "nat \<Rightarrow> 32 word list \<Rightarrow> byte list option" where
  "sid_of mx ws =
     (let t = block_bytes ws @ replicate (mx + 1 - length (block_bytes ws)) 0; n = length (block_bytes ws) in
      if n = 0 \<or> n > mx then None else Some (take (the (sid_scan t (n - 1) n)) t))"

lemma sid_scan_total: "pos < length t \<Longrightarrow> \<exists>k. sid_scan t pos n = Some k"
  by (induction pos) (auto simp: rd_def nat_add_distrib)

lemma interpret_SID_of:
  assumes "b + 1 + n \<le> length pkt"
  shows "interpret_SID big mx pkt b n = Some (sid_of mx (take n (drop (b + 1) pkt)))"
proof -
  define ws where "ws = take n (drop (b + 1) pkt)"
  have get: "get_words pkt (1 + int b) n = Some ws"
    using get_words_Some [of "b + 1" n pkt] assms by (simp add: ws_def)
  have l: "length (block_bytes ws) = n * 4" using assms by (simp add: ws_def length_store_words)
  have "\<exists>k. sid_scan (block_bytes ws @ replicate (mx + 1 - n * 4) 0) (n * 4 - 1) (n * 4) = Some k" if "n * 4 \<noteq> 0"
    using that l by (intro sid_scan_total) simp
  then show ?thesis
    unfolding ws_def [symmetric] sid_of_def Let_def l by (auto simp: interpret_SID_def get store_ItoHLA simp del: take_append)
qed

lemma c_str_zeros: "c_str (bytes_string (bs @ replicate k 0)) = c_str (bytes_string bs)"
proof -
  have "takeWhile (\<lambda>c. c \<noteq> CHR 0x00) (replicate k (CHR 0x00)) = []" by (cases k) simp_all
  moreover have "bytes_string (bs @ replicate k 0) = bytes_string bs @ replicate k (CHR 0x00)"
    by (simp add: bytes_string_def map_replicate_const char_of_def)
  ultimately show ?thesis
    unfolding c_str_def by (metis (no_types, lifting) append_Nil2 takeWhile_append takeWhile_eq_all_conv)
qed

lemma block_text_of:
  assumes "b + 1 + n \<le> length pkt"
  shows "block_text big mx pkt b n = Some (text_of (take n (drop (b + 1) pkt)))"
proof -
  have "get_words pkt (int (b + 1)) n = Some (take n (drop (b + 1) pkt))" using assms by (intro get_words_Some) simp
  then show ?thesis by (simp add: block_text_def text_of_def store_ItoHLA c_str_zeros)
qed

text \<open>Requests and responses look at the first three words only, and any three words do.\<close>

lemma rd_take: "i < int n \<Longrightarrow> rd (take n xs) i = rd xs i"
  by (auto simp: rd_def)

lemma three_words:
  assumes "3 \<le> length xs"
  obtains x y z where "rd xs 0 = Some x" "rd xs 1 = Some y" "rd xs 2 = Some z"
proof (rule that)
  have "xs \<noteq> []" using assms by auto
  then show "rd xs 0 = Some (xs ! 0)" "rd xs 1 = Some (xs ! 1)" "rd xs 2 = Some (xs ! 2)" using assms by (simp_all add: rd_def)
qed

lemma request_words:
  assumes "3 \<le> n"
  shows "processSrtMsg_HSREQ now a (take n xs) bl ts hsv = processSrtMsg_HSREQ now a xs bl ts hsv"
    "processSrtMsg_HSRSP now a (take n xs) bl ts hsv = processSrtMsg_HSRSP now a xs bl ts hsv"
proof -
  have "rd (take n xs) 0 = rd xs 0" "rd (take n xs) 1 = rd xs 1" "rd (take n xs) 2 = rd xs 2" using assms by (simp_all add: rd_take)
  then show "processSrtMsg_HSREQ now a (take n xs) bl ts hsv = processSrtMsg_HSREQ now a xs bl ts hsv"
    "processSrtMsg_HSRSP now a (take n xs) bl ts hsv = processSrtMsg_HSRSP now a xs bl ts hsv"
    by (simp_all only: processSrtMsg_HSREQ_def processSrtMsg_HSRSP_def)
qed

lemma request_total:
  assumes "3 \<le> length xs"
  shows "\<exists>res. processSrtMsg_HSREQ now a xs bl ts HS_VERSION_SRT1 = Some res"
    "\<exists>res. processSrtMsg_HSRSP now a xs bl ts HS_VERSION_SRT1 = Some res"
proof -
  obtain x y z where r: "rd xs 0 = Some x" "rd xs 1 = Some y" "rd xs 2 = Some z" using three_words [OF assms] .
  show "\<exists>res. processSrtMsg_HSREQ now a xs bl ts HS_VERSION_SRT1 = Some res"
    by (auto simp: processSrtMsg_HSREQ_def Let_def r)
  show "\<exists>res. processSrtMsg_HSRSP now a xs bl ts HS_VERSION_SRT1 = Some res"
    by (auto simp: processSrtMsg_HSRSP_def Let_def r HS_VERSION_SRT1_def HS_VERSION_UDT4_def)
qed

definition hsreq_block :: "int \<Rightarrow> 32 word \<Rightarrow> int \<Rightarrow> 32 word list \<Rightarrow> hs_party \<Rightarrow> bool \<times> hs_party + hs_party" where
  "hsreq_block now ts cmd ws p =
     (if cmd = SRT_CMD_HSREQ then
        (if length ws < SRT_HS_E_SIZE then Inl (False, set_reason SRT_REJ_ROGUE p)
         else case the (processSrtMsg_HSREQ now (agent p) ws (length ws * 4) ts HS_VERSION_SRT1) of (rescmd, a) \<Rightarrow>
           if rescmd \<noteq> SRT_CMD_HSRSP then Inl (False, p\<lparr>agent := a\<rparr>) else Inl (True, p\<lparr>agent := handshakeDone a\<rparr>))
      else if cmd = SRT_CMD_HSRSP then
        (if length ws < SRT_HS_E_SIZE then Inl (False, set_reason SRT_REJ_ROGUE p)
         else case the (processSrtMsg_HSRSP now (agent p) ws (length ws * 4) ts HS_VERSION_SRT1) of (rescmd, a) \<Rightarrow>
           if rescmd \<noteq> SRT_CMD_NONE
           then Inl (False, p\<lparr>agent := a\<lparr>m_RejectReason :=
             (if m_RejectReason a = SRT_REJ_UNKNOWN then SRT_REJ_ROGUE else m_RejectReason a)\<rparr>\<rparr>)
           else Inl (True, p\<lparr>agent := handshakeDone a\<rparr>))
      else Inr p)"

interpretation hsreq: block_reader pkt "hsreq_body now pkt ts" "hsreq_block now ts" "\<lambda>p. (False, set_reason SRT_REJ_ROGUE p)" for pkt now ts
proof
  show "hsreq_body now pkt ts SRT_CMD_NONE n b p = Some (Inl (False, set_reason SRT_REJ_ROGUE p))" for n b p
    by (simp add: hsreq_body_def cmd_defs)
next
  fix cmd :: int and n b and p :: hs_party
  assume c: "0 \<le> cmd" and r: "b + 1 + n \<le> length pkt"
  let ?ws = "take n (drop (b + 1) pkt)"
  have l: "length ?ws = n" using r by simp
  have "\<exists>res. processSrtMsg_HSREQ now (agent p) ?ws (n * 4) ts HS_VERSION_SRT1 = Some res"
    "\<exists>res. processSrtMsg_HSRSP now (agent p) ?ws (n * 4) ts HS_VERSION_SRT1 = Some res" if "3 \<le> n"
    using request_total [of ?ws] l that by simp_all
  then show "hsreq_body now pkt ts cmd n b p = Some (hsreq_block now ts cmd ?ws p)"
    using c l request_words [of n now "agent p" "drop (b + 1) pkt"]
    by (cases "3 \<le> n") (auto simp: hsreq_body_def hsreq_block_def SRT_HS_E_SIZE_def cmd_defs simp del: length_take take_drop drop_drop split: prod.split)
qed

definition km_block ::
  "crypto_control \<Rightarrow> bool \<Rightarrow> int \<Rightarrow> 32 word list \<Rightarrow> hs_party \<Rightarrow> bool \<times> bool \<times> hs_party \<times> 32 word list + hs_party" where
  "km_block cc has_out cmd ws p = the (km_body cc (0 # ws) has_out cmd (length ws) 0 p)"

interpretation km: block_reader pkt "km_body cc pkt has_out" "km_block cc has_out" "\<lambda>p. (False, False, set_reason SRT_REJ_ROGUE p, [])"
  for pkt cc has_out
proof
  show "km_body cc pkt has_out SRT_CMD_NONE n b p = Some (Inl (False, False, set_reason SRT_REJ_ROGUE p, []))" for n b p
    by (simp add: km_body_def cmd_defs)
next
  fix cmd :: int and n b and p :: hs_party
  assume c: "0 \<le> cmd" and r: "b + 1 + n \<le> length pkt"
  define ws where "ws = take n (drop (b + 1) pkt)"
  have l: "length ws = n" using r by (simp add: ws_def)
  have "get_words pkt (1 + int b) n = Some ws" using get_words_Some [of "b + 1" n pkt] r by (simp add: ws_def)
  moreover have "get_words (0 # ws) 1 n = Some ws" using get_words_Some [of 1 n "0 # ws"] l by simp
  ultimately have eq: "km_body cc pkt has_out cmd n b p = km_body cc (0 # ws) has_out cmd n 0 p"
    by (simp add: km_body_def)
  obtain res out st where 1: "processSrtMsg_KMREQ cc ws (n * 4) = (res, out, st)" by (rule prod_cases3)
  obtain res' st' where 2: "processSrtMsg_KMRSP cc ws (n * 4) = (res', st')" by (rule prod.exhaust)
  have "\<exists>x. km_body cc (0 # ws) has_out cmd n 0 p = Some x"
    using get_words_Some [of 1 n "0 # ws"] l by (simp add: km_body_def 1 2 if_distrib [of Some, symmetric] Let_def)
  with eq show "km_body cc pkt has_out cmd n b p = Some (km_block cc has_out cmd (take n (drop (b + 1) pkt)) p)"
    unfolding ws_def [symmetric] km_block_def l by auto
qed

definition config_block :: "filter_registry \<Rightarrow> string \<Rightarrow> int \<Rightarrow> 32 word list \<Rightarrow> config_state \<Rightarrow> bool \<times> config_state + config_state" where
  "config_block r agsm cmd ws st =
     (case st of (have_congctl, have_filter, p) \<Rightarrow>
      if cmd = SRT_CMD_SID then
        (case sid_of MAX_SID_LENGTH ws of None \<Rightarrow> Inl (False, st)
         | Some bs \<Rightarrow> Inr (have_congctl, have_filter,
             set_config (\<lambda>c. c\<lparr>sStreamName := snd (storage_set MAX_SID_LENGTH (sStreamName c) (bytes_string bs))\<rparr>) p))
      else if cmd = SRT_CMD_CONGESTION then
        (if have_congctl then Inl (False, have_congctl, have_filter, set_reason SRT_REJ_ROGUE p)
         else if length ws * 4 = 0 \<or> length ws * 4 > MAX_CONG_LENGTH then Inl (False, st)
         else if text_of ws \<noteq> agsm then Inl (False, True, have_filter, set_reason SRT_REJ_CONGESTION p)
         else Inr (True, have_filter, p))
      else if cmd = SRT_CMD_FILTER then
        (if have_filter then Inl (False, have_congctl, have_filter, set_reason SRT_REJ_FILTER p)
         else if length ws * 4 = 0 \<or> length ws * 4 > MAX_PFILTER_LENGTH then Inl (False, st)
         else case checkApplyFilterConfig r (hs_side p) (party_config p) (text_of ws) of (ok, c) \<Rightarrow>
           if \<not> ok then Inl (False, have_congctl, True, set_reason SRT_REJ_FILTER p)
           else Inr (have_congctl, True, set_config (\<lambda>_. c) p))
      else Inr st)"

interpretation config: block_reader pkt "config_body r big pkt agsm" "config_block r agsm" "Pair True" for pkt r big agsm
proof
  show "config_body r big pkt agsm SRT_CMD_NONE n b st = Some (Inl (True, st))" for n b st
    by (simp add: config_body_def cmd_defs Let_def split: prod.split)
next
  fix cmd :: int and n b and st :: config_state
  assume c: "0 \<le> cmd" and r: "b + 1 + n \<le> length pkt"
  have l: "length (take n (drop (b + 1) pkt)) = n" using r by simp
  show "config_body r big pkt agsm cmd n b st = Some (config_block r agsm cmd (take n (drop (b + 1) pkt)) st)"
    unfolding config_body_def config_block_def interpret_SID_of [OF r] block_text_of [OF r] l Let_def
    using c by (auto simp: cmd_defs split: prod.split option.split)
qed

section \<open>Any message\<close>

text \<open>The interpretation of a message, given the words behind its fixed part.\<close>

definition interpret_words ::
  "filter_registry \<Rightarrow> crypto_control \<Rightarrow> int \<Rightarrow> hs_party \<Rightarrow> 32 word \<Rightarrow> 32 word list \<Rightarrow> 32 word \<Rightarrow> bool \<Rightarrow> bool \<times> hs_party \<times> 32 word list" where
  "interpret_words r cc now p ext_flags ws ts has_out =
     (case (if IsSet ext_flags HS_EXT_HSREQ
            then walk (hsreq_block now ts) (Pair True) (\<lambda>p. (False, set_reason SRT_REJ_ROGUE p)) ws p else (True, p)) of (ok1, p1) \<Rightarrow>
      if \<not> ok1 then (False, p1, [])
      else if IsSet ext_flags HS_EXT_KMREQ \<and> \<not> hasPassphrase cc \<and> bEnforcedEnc (party_config p1)
      then (False, set_reason SRT_REJ_UNSECURE p1, [])
      else case (if IsSet ext_flags HS_EXT_KMREQ
                 then walk (km_block cc has_out) (\<lambda>p. (True, False, p, [])) (\<lambda>p. (False, False, set_reason SRT_REJ_ROGUE p, [])) ws p1
                 else (True, False, p1, [])) of (ok2, encrypted, p2, out) \<Rightarrow>
        if \<not> ok2 then (False, p2, out)
        else
          let p3 = (if sCongestion (party_config p2) = [] then set_config (\<lambda>c. c\<lparr>sCongestion := ''live''\<rparr>) p2 else p2);
              agsm = sCongestion (party_config p3) in
          case (if IsSet ext_flags HS_EXT_CONFIG
                then walk (config_block r agsm) (Pair True) (Pair True) ws (False, False, p3)
                else (True, False, False, p3)) of (ok3, st) \<Rightarrow>
            if \<not> ok3 then (False, snd (snd st), out)
            else (case post_checks agsm encrypted st of (ok, p4) \<Rightarrow> (ok, p4, out)))"

lemma interpret_message:
  assumes "HS_VERSION_SRT1 \<le> sint (m_iVersion hs)" "m_iContentSize < pktlen" "pktlen \<le> 4 * length pkt" "hsflags_of hs \<noteq> 0"
  shows "interpretSrtHandshake r big cc now p v hs pkt pktlen ts has_out
    = Some (interpret_words r cc now p (hsflags_of hs) (take ((pktlen - m_iContentSize) div 4) (drop 12 pkt)) ts has_out)"
proof -
  define n where "n = (pktlen - m_iContentSize) div 4"
  have range: "12 + n \<le> length pkt" using assms(2,3) unfolding m_iContentSize_def n_def by linarith
  have start: "m_iContentSize div 4 = 12" by (simp add: m_iContentSize_def)
  have v: "\<not> sint (m_iVersion hs) < HS_VERSION_SRT1" "sint (m_iVersion hs) \<noteq> 0"
    using assms(1) by (simp_all add: HS_VERSION_SRT1_def)
  let ?f = "hsflags_of hs" and ?ws = "take n (drop 12 pkt)"
  note scans = hsreq.scan_blocks_walk [OF range] km.scan_blocks_walk [OF range] config.scan_blocks_walk [OF range]
  obtain ok1 p1 where 1: "(if IsSet ?f HS_EXT_HSREQ then walk (hsreq_block now ts) (Pair True) (\<lambda>p. (False, set_reason SRT_REJ_ROGUE p)) ?ws p
      else (True, p)) = (ok1, p1)" by (rule prod.exhaust)
  obtain ok2 e p2 out where 2: "(if IsSet ?f HS_EXT_KMREQ then walk (km_block cc has_out) (\<lambda>p. (True, False, p, []))
      (\<lambda>p. (False, False, set_reason SRT_REJ_ROGUE p, [])) ?ws p1 else (True, False, p1, [])) = (ok2, e, p2, out)" by (rule prod_cases4)
  define p3 where "p3 = (if sCongestion (party_config p2) = [] then set_config (\<lambda>c. c\<lparr>sCongestion := ''live''\<rparr>) p2 else p2)"
  obtain ok3 st where 3: "(if IsSet ?f HS_EXT_CONFIG then walk (config_block r (sCongestion (party_config p3))) (Pair True) (Pair True) ?ws (False, False, p3)
      else (True, False, False, p3)) = (ok3, st)" by (rule prod.exhaust)
  show ?thesis
    unfolding interpretSrtHandshake_def Let_def start n_def [symmetric] scans interpret_words_def if_distrib [of Some, symmetric] 1
    using v assms(2,4)
    by (cases ok1; cases ok2; cases ok3)
      (simp_all only: if_True if_False simp_thms Option.bind.bind_lunit prod.case 2 p3_def [symmetric] 3 not_less [symmetric] HS_VERSION_SRT1_def,
       simp_all add: split_beta)
qed

text \<open>The limits of the texts in the configuration.\<close>

definition names_fit :: "hs_party \<Rightarrow> bool" where
  "names_fit p \<longleftrightarrow> length (sStreamName (party_config p)) \<le> MAX_SID_LENGTH
     \<and> length (sPacketFilterConfig (party_config p)) \<le> MAX_PFILTER_LENGTH \<and> length (sCongestion (party_config p)) \<le> MAX_CONG_LENGTH"

lemma party_config_simps [simp]:
  "party_config (set_reason x p) = party_config p" "party_config (set_config f p) = f (party_config p)"
  "party_config (p\<lparr>m_SndKmState := s\<rparr>) = party_config p" "party_config (p\<lparr>m_RcvKmState := s\<rparr>) = party_config p"
  by (simp_all add: party_config_def set_reason_def set_config_def)

lemma walk_invariant:
  assumes "\<And>cmd ws st. I st \<Longrightarrow> (case f cmd ws st of Inl r \<Rightarrow> J r | Inr st' \<Rightarrow> I st')"
    and "\<And>st. I st \<Longrightarrow> J (fin st)" "\<And>st. I st \<Longrightarrow> J (none st)" "I st"
  shows "J (walk f fin none ws st)"
  using assms(4)
proof (induction "length ws" arbitrary: ws st rule: less_induct)
  case less
  show ?case
  proof (cases ws)
    case Nil
    with less.prems assms(3) show ?thesis by simp
  next
    case (Cons w rest)
    have "case f (cmdspec_cmd w) (take (cmdspec_size w) rest) st of Inl r \<Rightarrow> J r | Inr st' \<Rightarrow> I st'"
      using assms(1) [OF less.prems] .
    moreover have "I st' \<Longrightarrow> J (walk f fin none (drop (cmdspec_size w) rest) st')" for st'
      using less.hyps Cons by simp
    ultimately show ?thesis
      using less.prems assms(2,3) Cons by (cases "f (cmdspec_cmd w) (take (cmdspec_size w) rest) st") simp_all
  qed
qed

text \<open>What the steps keep.\<close>

lemma config_bind:
  fixes m :: "hs_agent option"
  shows "pred_option (\<lambda>a. m_config a = c) m \<Longrightarrow> (\<And>a. m_config a = c \<Longrightarrow> pred_option P (f a)) \<Longrightarrow> pred_option P (m \<bind> f)"
  by (cases m) simp_all

lemma pred_optionI:
  "pred_option P x \<Longrightarrow> pred_option P y \<Longrightarrow> pred_option P (if c then x else y)"
  "(\<And>v. pred_option P (f v)) \<Longrightarrow> pred_option P (m \<bind> f)"
  "P z \<Longrightarrow> pred_option P (Some z)"
  by (simp, cases m) simp_all

lemma pred_option_if:
  "(c \<Longrightarrow> pred_option P x) \<Longrightarrow> (\<not> c \<Longrightarrow> pred_option P y) \<Longrightarrow> pred_option P (if c then x else y)"
  by simp

lemma pred_option_prod: "(\<And>a b. pred_option P (f a b)) \<Longrightarrow> pred_option P (case v of (a, b) \<Rightarrow> f a b)"
  by (cases v) simp

lemma config_kept_if:
  "m_config (if c then a else b) = (if c then m_config a else m_config b)" by simp

lemma HSREQ_config:
  "pred_option (\<lambda>x. m_config (snd x) = m_config a) (processSrtMsg_HSREQ now a ws bl ts hsv)"
  "pred_option (\<lambda>x. m_config (snd x) = m_config a) (processSrtMsg_HSRSP now a ws bl ts hsv)"
  unfolding processSrtMsg_HSREQ_def processSrtMsg_HSRSP_def Let_def
  by (intro config_bind [where c = "m_config a"] pred_optionI; simp add: config_kept_if handshakeDone_def split del: if_split cong: if_cong)+

lemma names_fit_simps [simp]:
  "names_fit (set_reason x p) = names_fit p"
  "names_fit (p\<lparr>m_SndKmState := s\<rparr>) = names_fit p" "names_fit (p\<lparr>m_RcvKmState := s\<rparr>) = names_fit p"
  by (simp_all add: names_fit_def)

lemma names_fit_agent: "m_config a = party_config p \<Longrightarrow> names_fit (p\<lparr>agent := a\<rparr>) = names_fit p"
  by (simp add: names_fit_def party_config_def)

lemma checkApply_fits:
  assumes "checkApplyFilterConfig r sd c s = (ok, c')" "length (sPacketFilterConfig c) \<le> MAX_PFILTER_LENGTH"
  shows "length (sPacketFilterConfig c') \<le> MAX_PFILTER_LENGTH \<and> sStreamName c' = sStreamName c \<and> sCongestion c' = sCongestion c"
  using assms by (auto simp: checkApplyFilterConfig_def storage_set_def Let_def split: prod.splits if_splits)

lemma hsreq_fits:
  assumes "names_fit p"
  shows "case hsreq_block now ts cmd ws p of Inl r \<Rightarrow> names_fit (snd r) | Inr p' \<Rightarrow> names_fit p'"
proof (cases "length ws < SRT_HS_E_SIZE")
  case True
  then show ?thesis using assms by (simp add: hsreq_block_def)
next
  case False
  then obtain r1 a1 r2 a2 where
    "processSrtMsg_HSREQ now (agent p) ws (length ws * 4) ts HS_VERSION_SRT1 = Some (r1, a1)" "m_config a1 = party_config p"
    "processSrtMsg_HSRSP now (agent p) ws (length ws * 4) ts HS_VERSION_SRT1 = Some (r2, a2)" "m_config a2 = party_config p"
    using request_total [of ws now "agent p" "length ws * 4" ts] HSREQ_config [of "agent p" now ws "length ws * 4" ts HS_VERSION_SRT1]
    by (auto simp: SRT_HS_E_SIZE_def party_config_def)
  then show ?thesis using assms False by (simp add: hsreq_block_def names_fit_agent handshakeDone_def)
qed

lemma km_fits:
  assumes "names_fit p"
  shows "case km_block cc has_out cmd ws p of Inl r \<Rightarrow> names_fit (fst (snd (snd r))) | Inr p' \<Rightarrow> names_fit p'"
proof -
  obtain res out st where 1: "processSrtMsg_KMREQ cc ws (length ws * 4) = (res, out, st)" by (rule prod_cases3)
  obtain res' st' where 2: "processSrtMsg_KMRSP cc ws (length ws * 4) = (res', st')" by (rule prod.exhaust)
  show ?thesis
    using assms get_words_Some [of 1 "length ws" "0 # ws"]
    by (simp add: km_block_def km_body_def 1 2 Let_def)
qed

lemma config_fits:
  assumes "names_fit (snd (snd st))"
  shows "case config_block r agsm cmd ws st of Inl r \<Rightarrow> names_fit (snd (snd (snd r))) | Inr st' \<Rightarrow> names_fit (snd (snd st'))"
proof -
  obtain a b p where st: "st = (a, b, p)" by (rule prod_cases3)
  obtain ok c where c: "checkApplyFilterConfig r (hs_side p) (party_config p) (text_of ws) = (ok, c)" by (rule prod.exhaust)
  show ?thesis
    using assms checkApply_fits [OF c]
    by (auto simp: st config_block_def c names_fit_def storage_set_def split: option.split)
qed

text \<open>The interpretation in its stages.\<close>

lemma interpret_words_cases:
  obtains ok1 p1 ok2 e p2 out p3 ok3 st where
    "(if IsSet f HS_EXT_HSREQ then walk (hsreq_block now ts) (Pair True) (\<lambda>p. (False, set_reason SRT_REJ_ROGUE p)) ws p
      else (True, p)) = (ok1, p1)"
    "(if IsSet f HS_EXT_KMREQ then walk (km_block cc has_out) (\<lambda>p. (True, False, p, []))
      (\<lambda>p. (False, False, set_reason SRT_REJ_ROGUE p, [])) ws p1 else (True, False, p1, [])) = (ok2, e, p2, out)"
    "p3 = (if sCongestion (party_config p2) = [] then set_config (\<lambda>c. c\<lparr>sCongestion := ''live''\<rparr>) p2 else p2)"
    "(if IsSet f HS_EXT_CONFIG then walk (config_block r (sCongestion (party_config p3))) (Pair True) (Pair True) ws (False, False, p3)
      else (True, False, False, p3)) = (ok3, st)"
    "interpret_words r cc now p f ws ts has_out =
      (if \<not> ok1 then (False, p1, [])
       else if IsSet f HS_EXT_KMREQ \<and> \<not> hasPassphrase cc \<and> bEnforcedEnc (party_config p1)
       then (False, set_reason SRT_REJ_UNSECURE p1, [])
       else if \<not> ok2 then (False, p2, out)
       else if \<not> ok3 then (False, snd (snd st), out)
       else (case post_checks (sCongestion (party_config p3)) e st of (ok, p4) \<Rightarrow> (ok, p4, out)))"
proof -
  obtain ok1 p1 where 1: "(if IsSet f HS_EXT_HSREQ then walk (hsreq_block now ts) (Pair True) (\<lambda>p. (False, set_reason SRT_REJ_ROGUE p)) ws p
      else (True, p)) = (ok1, p1)" by (rule prod.exhaust)
  obtain ok2 e p2 out where 2: "(if IsSet f HS_EXT_KMREQ then walk (km_block cc has_out) (\<lambda>p. (True, False, p, []))
      (\<lambda>p. (False, False, set_reason SRT_REJ_ROGUE p, [])) ws p1 else (True, False, p1, [])) = (ok2, e, p2, out)" by (rule prod_cases4)
  define p3 where "p3 = (if sCongestion (party_config p2) = [] then set_config (\<lambda>c. c\<lparr>sCongestion := ''live''\<rparr>) p2 else p2)"
  obtain ok3 st where 3: "(if IsSet f HS_EXT_CONFIG then walk (config_block r (sCongestion (party_config p3))) (Pair True) (Pair True) ws (False, False, p3)
      else (True, False, False, p3)) = (ok3, st)" by (rule prod.exhaust)
  show thesis
    by (rule that [OF 1 2 p3_def 3]) (simp only: interpret_words_def 1 2 prod.case p3_def [symmetric] Let_def 3)
qed

lemma interpret_words_fits:
  assumes "names_fit p"
  shows "names_fit (fst (snd (interpret_words r cc now p f ws ts has_out)))"
proof (rule interpret_words_cases [of f now ts ws p cc has_out r])
  fix ok1 p1 ok2 e p2 out p3 ok3 st
  assume 1: "(if IsSet f HS_EXT_HSREQ then walk (hsreq_block now ts) (Pair True) (\<lambda>p. (False, set_reason SRT_REJ_ROGUE p)) ws p
      else (True, p)) = (ok1, p1)"
    and 2: "(if IsSet f HS_EXT_KMREQ then walk (km_block cc has_out) (\<lambda>p. (True, False, p, []))
      (\<lambda>p. (False, False, set_reason SRT_REJ_ROGUE p, [])) ws p1 else (True, False, p1, [])) = (ok2, e, p2, out)"
    and p3_def: "p3 = (if sCongestion (party_config p2) = [] then set_config (\<lambda>c. c\<lparr>sCongestion := ''live''\<rparr>) p2 else p2)"
    and 3: "(if IsSet f HS_EXT_CONFIG then walk (config_block r (sCongestion (party_config p3))) (Pair True) (Pair True) ws (False, False, p3)
      else (True, False, False, p3)) = (ok3, st)"
    and i: "interpret_words r cc now p f ws ts has_out =
      (if \<not> ok1 then (False, p1, [])
       else if IsSet f HS_EXT_KMREQ \<and> \<not> hasPassphrase cc \<and> bEnforcedEnc (party_config p1)
       then (False, set_reason SRT_REJ_UNSECURE p1, [])
       else if \<not> ok2 then (False, p2, out)
       else if \<not> ok3 then (False, snd (snd st), out)
       else (case post_checks (sCongestion (party_config p3)) e st of (ok, p4) \<Rightarrow> (ok, p4, out)))"
  have "names_fit (snd (walk (hsreq_block now ts) (Pair True) (\<lambda>p. (False, set_reason SRT_REJ_ROGUE p)) ws p))"
    by (rule walk_invariant [where I = names_fit and J = "\<lambda>r. names_fit (snd r)", OF hsreq_fits]) (simp_all add: assms)
  then have f1: "names_fit p1" using 1 assms by (auto split: if_splits)
  then have "names_fit (fst (snd (snd (walk (km_block cc has_out) (\<lambda>p. (True, False, p, []))
      (\<lambda>p. (False, False, set_reason SRT_REJ_ROGUE p, [])) ws p1))))"
    by (intro walk_invariant [where I = names_fit and J = "\<lambda>r. names_fit (fst (snd (snd r)))", OF km_fits]) simp_all
  then have f2: "names_fit p2" using 2 f1 by (auto split: if_splits)
  then have f3: "names_fit p3" by (simp add: p3_def names_fit_def MAX_CONG_LENGTH_def)
  then have "names_fit (snd (snd (snd (walk (config_block r (sCongestion (party_config p3))) (Pair True) (Pair True) ws (False, False, p3)))))"
    by (intro walk_invariant [where I = "\<lambda>st. names_fit (snd (snd st))" and J = "\<lambda>r. names_fit (snd (snd (snd r)))", OF config_fits]) simp_all
  then have f4: "names_fit (snd (snd st))" using 3 f3 by (auto split: if_splits)
  then have "names_fit (snd (post_checks x e st))" for x
    by (auto simp: post_checks_def names_fit_def Let_def split: prod.split)
  then show ?thesis using f1 f2 f4 unfolding i by (simp add: split_beta)
qed

text \<open>
  C19. A received handshake message of any content is interpreted to an end: the packet is never read outside its length, the
  connection is accepted or refused, and the texts stored from it stay within their limits.
\<close>

theorem message_of_any_content:
  assumes "pktlen \<le> 4 * length pkt" "names_fit p"
  shows "\<exists>ok p' out. interpretSrtHandshake r big cc now p v hs pkt pktlen ts has_out = Some (ok, p', out) \<and> names_fit p'"
proof (cases "HS_VERSION_SRT1 \<le> sint (m_iVersion hs) \<and> m_iContentSize < pktlen \<and> hsflags_of hs \<noteq> 0")
  case True
  then show ?thesis
    using interpret_words_fits [OF assms(2)] by (auto simp: interpret_message [OF _ _ assms(1)] prod_eq_iff)
next
  case False
  then consider "v > HS_VERSION_UDT4 \<and> sint (m_iVersion hs) = 0"
    | "\<not> (v > HS_VERSION_UDT4 \<and> sint (m_iVersion hs) = 0)" "sint (m_iVersion hs) < HS_VERSION_SRT1"
    | "\<not> (v > HS_VERSION_UDT4 \<and> sint (m_iVersion hs) = 0)" "\<not> sint (m_iVersion hs) < HS_VERSION_SRT1" "pktlen \<le> m_iContentSize"
    | "\<not> (v > HS_VERSION_UDT4 \<and> sint (m_iVersion hs) = 0)" "\<not> sint (m_iVersion hs) < HS_VERSION_SRT1" "\<not> pktlen \<le> m_iContentSize" "hsflags_of hs = 0"
    by fastforce
  then show ?thesis
    using assms(2) unfolding interpretSrtHandshake_def Let_def by cases (simp_all only: if_True if_False simp_thms, auto)
qed

theorem message_of_any_content_witness:
  "\<exists>ok p' out. interpretSrtHandshake Internal False
     \<lparr>cc_exists = False, hasPassphrase = False, getKmMsg = (\<lambda>_. None), processSrtMsg_KMREQ = (\<lambda>_ _. (0, [], SRT_KM_S_NOSECRET)),
       processSrtMsg_KMRSP = (\<lambda>_ _. (-1, SRT_KM_S_NOSECRET))\<rparr> 1000
     \<lparr>agent = default_agent CSrtConfig, hs_side = HSD_RESPONDER, m_iMaxSRTPayloadSize = 1456, m_sPeerPktFilterConfigString = [],
       m_SndKmState = SRT_KM_S_UNSECURED, m_RcvKmState = SRT_KM_S_UNSECURED\<rparr>
     0 (CHandShake\<lparr>m_iVersion := 5, m_iType := 7\<rparr>) (replicate 12 0 @ [0x00050001, 7, 0x00060009, 1]) 64 0 True = Some (ok, p', out) \<and> names_fit p'"
  by (rule message_of_any_content)
    (simp_all add: names_fit_def party_config_def default_agent_def CSrtConfig_def MAX_CONG_LENGTH_def)

section \<open>The fixed part\<close>

text \<open>What the rendezvous handlers use of \<^verbatim>\<open>createSrtHandshake\<close> is the handshake that it leaves behind.\<close>

lemma createSrtHandshake_refines_type:
  assumes "createSrtHandshake big cc p (sint (m_iVersion (m_ConnRes s))) (if rsp then SRT_CMD_HSRSP else SRT_CMD_HSREQ) km kmdata n pkt len hs
      = Some (ok, p', hs', pkt', len')"
    and "env_keylen e = word_of_int (iSndCryptoKeyLen (party_config p))" "m_SrtHsSide s = hs_side p"
    and "m_hsreq_seen s \<longleftrightarrow> m_tsRcvPeerStartTime (agent p) \<noteq> 0"
    and "env_km e \<longleftrightarrow> CryptoSecret (party_config p) \<noteq> [] \<or> 0 < n"
    and "env_config e \<longleftrightarrow> \<not> rsp \<and> sStreamName (party_config p) \<noteq> []
      \<or> (\<not> rsp \<or> m_sPeerPktFilterConfigString p \<noteq> [] \<or> IsSet (m_uPeerSrtFlags (agent p)) SRT_OPT_FILTERCAP) \<and> sPacketFilterConfig (party_config p) \<noteq> []
      \<or> sCongestion (party_config p) \<noteq> [] \<and> sCongestion (party_config p) \<noteq> ''live''"
  shows "hs' = snd (createSrtHandshake_type e s rsp hs)"
proof -
  have cmd: "SRT_CMD_HSRSP \<noteq> SRT_CMD_HSREQ" by (simp add: cmd_defs)
  have flags: "(if a then x else 0) OR (if b then x else 0) OR (if c then x else 0) OR y = (if a \<or> b \<or> c then x else 0) OR (y :: 32 word)"
    for a b c x y by (simp add: or.assoc [symmetric])
  let ?v = "sint (m_iVersion (m_ConnRes s)) = HS_VERSION_UDT4" and ?new = "HS_VERSION_UDT4 < sint (m_iVersion hs)"
  have four: "(HS_VERSION_UDT4 < sint (word_of_int HS_VERSION_UDT4 :: 32 word)) = False" by (simp add: HS_VERSION_UDT4_def)
  have sel: "m_iVersion (hs\<lparr>m_iVersion := x, m_iType := t, m_extension := b\<rparr>) = x" "m_iVersion (hs\<lparr>m_iType := t\<rparr>) = m_iVersion hs" for x t b
    by simp_all
  have "pred_option (\<lambda>(ok, p', hs', pkt', len'). hs' = snd (createSrtHandshake_type e s rsp hs))
    (createSrtHandshake big cc p (sint (m_iVersion (m_ConnRes s))) (if rsp then SRT_CMD_HSRSP else SRT_CMD_HSREQ) km kmdata n pkt len hs)"
    unfolding createSrtHandshake_def createSrtHandshake_type_def Let_def flags assms(2-6)
    by (intro pred_optionI(2) pred_option_if pred_option_prod pred_optionI(3) case_prodI;
        cases ?v; cases ?new; cases rsp; simp only: if_True if_False sel four simp_thms cmd cmd [symmetric];
        cases "m_extension hs"; cases "m_iReqType hs = URQ_CONCLUSION"; cases "m_tsRcvPeerStartTime (agent p) = 0";
        simp add: or.assoc cmd split del: if_split)
  then show ?thesis using assms(1) by simp
qed

end
