(* ===== verification/HsMessageConvey.thy ===== *)
theory HsMessageConvey
  imports HsMessageSpec
begin

text \<open>
  From the writer to the reader: the blocks of a request, the message that \<^verbatim>\<open>createSrtHandshake\<close> makes of them, and what
  \<^verbatim>\<open>interpretSrtHandshake\<close> of the responder gets from it.
\<close>

unbundle bit_operations_syntax

section \<open>Text in blocks\<close>

definition str_block :: "int \<Rightarrow> string \<Rightarrow> hs_extension" where
  "str_block cmd s = \<lparr>ext_type = word_of_int cmd, ext_contents = load_words False (padded (string_bytes s))\<rparr>"

lemma char_of_byte: "char_of (unat (of_char c :: 8 word)) = c"
proof -
  have "unat (of_nat (of_char c) :: 8 word) = of_char c"
    using nat_of_char_less_256 [of c] by (simp only: unat_of_nat) simp
  then show ?thesis by (simp only: of_nat_of_char char_of_char)
qed

lemma bytes_string_of [simp]: "bytes_string (string_bytes s) = s"
  by (simp add: bytes_string_def string_bytes_def comp_def char_of_byte)

lemma length_string_bytes [simp]: "length (string_bytes s) = length s"
  by (simp add: string_bytes_def)

lemma str_block_sel:
  "ext_type (str_block cmd s) = word_of_int cmd" "length (ext_contents (str_block cmd s)) = (length s + 3) div 4"
  "block_bytes (ext_contents (str_block cmd s)) = padded (string_bytes s)"
  by (simp_all add: str_block_def length_load_words length_padded store_load_words)

lemma text_of_str_block:
  assumes "CHR 0x00 \<notin> set s"
  shows "text_of (ext_contents (str_block cmd s)) = s"
proof -
  have "takeWhile (\<lambda>c. c \<noteq> CHR 0x00) s = s" using assms by (auto simp: takeWhile_eq_all_conv)
  then have "c_str (bytes_string (string_bytes s)) = s" by (simp add: c_str_def)
  then show ?thesis by (simp add: text_of_def str_block_sel padded_def c_str_zeros)
qed

lemma sid_of_str_block:
  assumes "2 \<le> length s" "last s \<noteq> CHR 0x00" "length (padded (string_bytes s)) \<le> mx"
  shows "sid_of mx (ext_contents (str_block cmd s)) = Some (string_bytes s)"
proof -
  let ?b = "string_bytes s" and ?n = "length (padded (string_bytes s))"
  let ?t = "padded ?b @ replicate (mx + 1 - ?n) 0"
  have le: "length s \<le> ?n" by (simp add: padded_def)
  have "s ! (length s - 1) \<noteq> CHR 0x00" using assms(1,2) by (metis last_conv_nth list.size(3) not_numeral_le_zero)
  then have "?b ! (length s - 1) \<noteq> 0" using assms(1) char_of_byte [of "s ! (length s - 1)"] by (auto simp: string_bytes_def char_of_def)
  then have "sid_scan ?t (?n - 1) ?n = Some (length s - 1 + 1)"
    using assms(1) le padded_nth(1) [of _ ?b] padded_nth(2) [of ?b] by (intro sid_scan_last) (auto simp: nth_append)
  moreover have "length s - 1 + 1 = length s" using assms(1) by simp
  moreover have "take (length s) ?t = ?b" by (simp add: padded_def)
  moreover have "?n \<noteq> 0" using assms(1) le by linarith
  ultimately show ?thesis
    using assms(3) by (simp add: sid_of_def str_block_sel Let_def del: take_append One_nat_def)
qed

section \<open>Writing blocks behind each other\<close>

text \<open>The packet starts with \<open>pre\<close>, which the place of the last block reaches to the end of, and goes on with \<open>rest\<close>.\<close>

definition at_end :: "32 word list \<Rightarrow> 32 word list \<Rightarrow> nat \<times> nat \<times> 32 word list \<Rightarrow> bool" where
  "at_end pre rest c \<longleftrightarrow> (\<exists>offset ra_size. c = (offset, ra_size, pre @ rest) \<and> offset + ra_size = length pre \<and> 0 < ra_size)"

lemma block_words_str:
  "0 \<le> cmd \<Longrightarrow> cmd < 2 ^ 16 \<Longrightarrow> block_words (str_block cmd s)
    = cmdspec cmd ((length s + 3) div 4) # load_words False (padded (string_bytes s))"
  using str_block_sel(2) [of cmd s] by (simp add: block_words_def str_block_def uint_word_of_int)

lemma attach_at_end:
  assumes "at_end pre rest c" "0 \<le> cmd" "cmd < 2 ^ 16" "have \<longrightarrow> s \<noteq> []"
    and "ws = (if have then block_words (str_block cmd s) else [])" "length ws \<le> length rest"
  shows "\<exists>c'. attach have (\<lambda>buf pos. fillHsExtConfigString big buf pos cmd (string_bytes s)) c = Some c'
    \<and> at_end (pre @ ws) (drop (length ws) rest) c'"
proof (cases "have")
  case False
  then show ?thesis using assms by (auto simp: attach_def at_end_def)
next
  case True
  obtain offset ra_size where c: "c = (offset, ra_size, pre @ rest)" "offset + ra_size = length pre"
    using assms(1) by (auto simp: at_end_def)
  let ?n = "(length s + 3) div 4"
  have ws: "ws = cmdspec cmd ?n # load_words False (padded (string_bytes s))"
    using assms(5) True by (simp add: block_words_str [OF assms(2,3)])
  then have l: "length ws = 1 + ?n" by (simp add: length_load_words length_padded)
  have "fillHsExtConfigString big (pre @ rest) (length pre) cmd (string_bytes s) = Some (?n, pre @ ws @ drop (1 + ?n) rest)"
    using fillHsExtConfigString_block [of "length pre" "string_bytes s" "pre @ rest" big cmd] assms(6) l
    by (simp add: ws)
  moreover have "0 < ?n" using assms(4) True by (cases s) simp_all
  ultimately show ?thesis
    using c True l by (simp add: attach_def at_end_def Let_def)
qed

section \<open>The request\<close>

text \<open>The blocks that an initiator without a passphrase sends; \<open>flg\<close> and \<open>lat\<close> are the words of its request.\<close>

definition congctl_named :: "srt_config \<Rightarrow> bool" where
  "congctl_named c \<longleftrightarrow> sCongestion c \<noteq> [] \<and> sCongestion c \<noteq> ''live''"

definition config_blocks :: "srt_config \<Rightarrow> hs_extension list" where
  "config_blocks c =
     (if sStreamName c \<noteq> [] then [str_block SRT_CMD_SID (sStreamName c)] else [])
     @ (if congctl_named c then [str_block SRT_CMD_CONGESTION (sCongestion c)] else [])
     @ (if sPacketFilterConfig c \<noteq> [] then [str_block SRT_CMD_FILTER (sPacketFilterConfig c)] else [])"

definition hsreq_ext :: "32 word \<Rightarrow> 32 word \<Rightarrow> 32 word \<Rightarrow> hs_extension" where
  "hsreq_ext version flg lat = \<lparr>ext_type = word_of_int SRT_CMD_HSREQ, ext_contents = [version, flg, lat]\<rparr>"

abbreviation blocks_words :: "hs_extension list \<Rightarrow> 32 word list" where "blocks_words es \<equiv> concat (map block_words es)"

text \<open>The words of the configuration blocks are written by the three steps of the code.\<close>

lemma attach_config:
  assumes "at_end pre rest c" "length (blocks_words (config_blocks cfg)) \<le> length rest"
  obtains c1 c2 c3 where
    "attach (sStreamName cfg \<noteq> []) (\<lambda>buf pos. fillHsExtConfigString big buf pos SRT_CMD_SID (string_bytes (sStreamName cfg))) c = Some c1"
    "attach (congctl_named cfg) (\<lambda>buf pos. fillHsExtConfigString big buf pos SRT_CMD_CONGESTION (string_bytes (sCongestion cfg))) c1 = Some c2"
    "attach (sPacketFilterConfig cfg \<noteq> []) (\<lambda>buf pos. fillHsExtConfigString big buf pos SRT_CMD_FILTER (string_bytes (sPacketFilterConfig cfg))) c2 = Some c3"
    "at_end (pre @ blocks_words (config_blocks cfg)) (drop (length (blocks_words (config_blocks cfg))) rest) c3"
proof -
  define w1 where "w1 = (if sStreamName cfg \<noteq> [] then block_words (str_block SRT_CMD_SID (sStreamName cfg)) else [])"
  define w2 where "w2 = (if congctl_named cfg then block_words (str_block SRT_CMD_CONGESTION (sCongestion cfg)) else [])"
  define w3 where "w3 = (if sPacketFilterConfig cfg \<noteq> [] then block_words (str_block SRT_CMD_FILTER (sPacketFilterConfig cfg)) else [])"
  have ws: "blocks_words (config_blocks cfg) = w1 @ w2 @ w3" by (simp add: config_blocks_def w1_def w2_def w3_def)
  have l: "length w2 \<le> length (drop (length w1) rest)" "length w3 \<le> length (drop (length w2) (drop (length w1) rest))"
    using assms(2) by (simp_all add: ws)
  obtain c1 where 1: "attach (sStreamName cfg \<noteq> []) (\<lambda>buf pos. fillHsExtConfigString big buf pos SRT_CMD_SID (string_bytes (sStreamName cfg))) c = Some c1"
    "at_end (pre @ w1) (drop (length w1) rest) c1"
    using attach_at_end [OF assms(1) _ _ _ w1_def, of big] assms(2) by (auto simp: ws cmd_defs)
  obtain c2 where 2: "attach (congctl_named cfg) (\<lambda>buf pos. fillHsExtConfigString big buf pos SRT_CMD_CONGESTION (string_bytes (sCongestion cfg))) c1 = Some c2"
    "at_end ((pre @ w1) @ w2) (drop (length w2) (drop (length w1) rest)) c2"
    using attach_at_end [OF 1(2) _ _ _ w2_def l(1), of big] by (auto simp: cmd_defs congctl_named_def)
  obtain c3 where 3: "attach (sPacketFilterConfig cfg \<noteq> []) (\<lambda>buf pos. fillHsExtConfigString big buf pos SRT_CMD_FILTER (string_bytes (sPacketFilterConfig cfg))) c2 = Some c3"
    "at_end (((pre @ w1) @ w2) @ w3) (drop (length w3) (drop (length w2) (drop (length w1) rest))) c3"
    using attach_at_end [OF 2(2) _ _ _ w3_def l(2), of big] by (auto simp: cmd_defs)
  show thesis using that [OF 1(1) 2(1) 3(1)] 3(2) unfolding ws by (simp add: add.commute add.left_commute)
qed

text \<open>The type word of the message and its flags.\<close>

definition request_type :: "srt_config \<Rightarrow> 32 word" where
  "request_type c = wrapFlags False (word_of_int (iSndCryptoKeyLen c)) OR HS_EXT_HSREQ
     OR (if sStreamName c \<noteq> [] then HS_EXT_CONFIG else 0) OR (if sPacketFilterConfig c \<noteq> [] then HS_EXT_CONFIG else 0)
     OR (if congctl_named c then HS_EXT_CONFIG else 0) OR 0"

lemma request_type_flags:
  assumes "m_iType hs = request_type c"
  shows "IsSet (hsflags_of hs) HS_EXT_HSREQ" "\<not> IsSet (hsflags_of hs) HS_EXT_KMREQ"
    "IsSet (hsflags_of hs) HS_EXT_CONFIG \<longleftrightarrow> config_blocks c \<noteq> []" "hsflags_of hs \<noteq> 0"
proof -
  have ext: "HS_EXT_HSREQ = BIT 0" "HS_EXT_KMREQ = BIT 1" "HS_EXT_CONFIG = BIT 2"
    by (simp_all add: BIT_def HS_EXT_HSREQ_def HS_EXT_KMREQ_def HS_EXT_CONFIG_def)
  have low: "\<not> bit (wrapFlags False k) n" if "n < 16" for k n
    using arg_cong [OF wrapFlags_hsflags [of False k], of "\<lambda>w. bit w n"] that by (simp add: bit_Bits_unwrap)
  have b: "bit (hsflags_of hs) n \<longleftrightarrow> n = 0 \<or> n = 2 \<and> config_blocks c \<noteq> []" if "n < 16" for n
    using that low [OF that] by (auto simp: hsflags_of_def assms request_type_def bit_Bits_unwrap bit_or_iff ext bit_BIT config_blocks_def)
  show "IsSet (hsflags_of hs) HS_EXT_HSREQ" "\<not> IsSet (hsflags_of hs) HS_EXT_KMREQ"
    "IsSet (hsflags_of hs) HS_EXT_CONFIG \<longleftrightarrow> config_blocks c \<noteq> []"
    by (simp_all add: ext IsSet_BIT b)
  show "hsflags_of hs \<noteq> 0" using b [of 0] by (metis bit_0_eq bot_apply bot_bool_def zero_less_numeral)
qed

lemma fill_request:
  assumes "fillSrtHandshake_HSREQ a (0 OR SrtVersionCapabilities) HS_VERSION_SRT1 = (3, flg, lat, a')" "3 \<le> n"
    and "length hdr = 12" "4 \<le> length rest"
  shows "\<exists>buf. fillSrtHandshake a (hdr @ rest) 13 n SRT_CMD_HSREQ HS_VERSION_SRT1 = Some (3, buf, a')
    \<and> wr buf 12 (cmdspec SRT_CMD_HSREQ 3) = Some (hdr @ block_words (hsreq_ext (uSrtVersion a) flg lat) @ drop 4 rest)"
proof -
  let ?ws = "[uSrtVersion a, flg, lat]"
  have "put_words (hdr @ rest) 13 ?ws \<bind> (\<lambda>b. wr b 12 (cmdspec SRT_CMD_HSREQ 3))
      = Some (hdr @ cmdspec SRT_CMD_HSREQ 3 # ?ws @ drop 4 rest)"
    using put_block [of 12 ?ws "hdr @ rest" "cmdspec SRT_CMD_HSREQ 3"] assms(3,4) by (simp del: put_words.simps)
  moreover have "block_words (hsreq_ext (uSrtVersion a) flg lat) = cmdspec SRT_CMD_HSREQ 3 # ?ws"
    by (simp add: block_words_def hsreq_ext_def cmd_defs eval_nat_numeral)
  ultimately show ?thesis
    using assms(1,2) by (auto simp: fillSrtHandshake_def SRT_HS_E_SIZE_def Let_def bind_eq_Some_conv simp del: put_words.simps)
qed

lemma create_request:
  assumes "hs_wf hs" "HS_VERSION_UDT4 < sint (m_iVersion hs)" "m_extension hs" "v \<noteq> HS_VERSION_UDT4"
    and "hs_side p \<noteq> HSD_RESPONDER" "CryptoSecret (party_config p) = []"
    and "fillSrtHandshake_HSREQ (agent p) (0 OR SrtVersionCapabilities) HS_VERSION_SRT1 = (3, flg, lat, a')"
    and "sStreamName (party_config p) = [] \<or> length (sStreamName (party_config p)) < m_iMaxSRTPayloadSize p div 2"
    and "body = blocks_words (hsreq_ext (uSrtVersion (agent p)) flg lat # config_blocks (party_config p))"
    and "m_iContentSize + 4 * length body \<le> pktlen" "pktlen \<le> 4 * length pkt" "pktlen < 2 ^ 63"
  obtains hdr rest where "length hdr = 12"
    "createSrtHandshake big cc p v SRT_CMD_HSREQ SRT_CMD_KMREQ None 0 pkt pktlen hs
      = Some (True, p\<lparr>agent := a'\<rparr>, hs\<lparr>m_iType := request_type (party_config p)\<rparr>, hdr @ body @ rest, m_iContentSize + 4 * length body)"
    "\<And>hs0 n. m_iContentSize \<le> n \<Longrightarrow> load_from hs0 (hdr @ body @ rest) n
      = Some (0, hs\<lparr>m_iType := request_type (party_config p), m_extension := m_extension hs0\<rparr>)"
proof -
  let ?c = "party_config p" and ?b1 = "block_words (hsreq_ext (uSrtVersion (agent p)) flg lat)"
  define hs3 where "hs3 = hs\<lparr>m_iType := request_type ?c\<rparr>"
  have ext: "hs\<lparr>m_iType := t, m_extension := True\<rparr> = hs\<lparr>m_iType := t\<rparr>" for t using assms(3) by simp
  have b1: "length ?b1 = 4" by (simp add: block_words_def hsreq_ext_def)
  have body: "length body = 4 + length (blocks_words (config_blocks ?c))" by (simp add: assms(9) b1)
  have "hs_wf hs3" using assms(1) by (simp add: hs3_def hs_wf_def)
  then obtain hdr where h: "length hdr = 12" "store_to hs3 pkt pktlen = Some (0, hdr @ drop 12 pkt, m_iContentSize)"
    "\<And>hs0 rest n. m_iContentSize \<le> n \<Longrightarrow> load_from hs0 (hdr @ rest) n = Some (0, hs3\<lparr>m_extension := m_extension hs0\<rparr>)"
    by (rule store_to_words [of hs3 pktlen pkt]) (use assms(10,11) in simp_all)
  have room: "16 + length (blocks_words (config_blocks ?c)) \<le> length pkt" "16 \<le> pktlen div 4"
    using assms(10,11) body by (simp_all add: m_iContentSize_def)
  have left: "nat ((int (pktlen div 4) - 13) mod 18446744073709551616) = pktlen div 4 - 13"
    using room(2) assms(12) by (simp add: mod_pos_pos_trivial nat_diff_distrib')
  have n: "3 \<le> pktlen div 4 - 13" "4 \<le> length (drop 12 pkt)" using room by simp_all
  obtain buf where f: "fillSrtHandshake (agent p) (hdr @ drop 12 pkt) 13 (pktlen div 4 - 13) SRT_CMD_HSREQ HS_VERSION_SRT1 = Some (3, buf, a')"
    "wr buf 12 (cmdspec SRT_CMD_HSREQ 3) = Some ((hdr @ ?b1) @ drop 16 pkt)"
    using fill_request [OF assms(7) n(1) h(1) n(2)] by auto
  have e: "at_end (hdr @ ?b1) (drop 16 pkt) (13, 3, (hdr @ ?b1) @ drop 16 pkt)" by (simp add: at_end_def h(1) b1)
  obtain c1 c2 c3 where a:
    "attach (sStreamName ?c \<noteq> []) (\<lambda>buf pos. fillHsExtConfigString big buf pos SRT_CMD_SID (string_bytes (sStreamName ?c))) (13, 3, (hdr @ ?b1) @ drop 16 pkt) = Some c1"
    "attach (congctl_named ?c) (\<lambda>buf pos. fillHsExtConfigString big buf pos SRT_CMD_CONGESTION (string_bytes (sCongestion ?c))) c1 = Some c2"
    "attach (sPacketFilterConfig ?c \<noteq> []) (\<lambda>buf pos. fillHsExtConfigString big buf pos SRT_CMD_FILTER (string_bytes (sPacketFilterConfig ?c))) c2 = Some c3"
    and c3: "at_end ((hdr @ ?b1) @ blocks_words (config_blocks ?c)) (drop (length (blocks_words (config_blocks ?c))) (drop 16 pkt)) c3"
    by (rule attach_config [OF e, of ?c big]) (use room(1) in simp_all)
  obtain offset ra rest where o: "c3 = (offset, ra, hdr @ body @ rest)" "offset + ra = 12 + length body" "0 < ra"
    using c3 h(1) b1 assms(9) by (auto simp: at_end_def)
  have sid: "(sStreamName ?c \<noteq> [] \<and> m_iMaxSRTPayloadSize p div 2 \<le> length (sStreamName ?c)) = False" using assms(8) by auto
  have start: "m_iContentSize div 4 = 12" by (simp add: m_iContentSize_def)
  have req: "SRT_CMD_HSREQ \<noteq> SRT_CMD_HSRSP" by (simp add: cmd_defs)
  have "createSrtHandshake big cc p v SRT_CMD_HSREQ SRT_CMD_KMREQ None 0 pkt pktlen hs
      = Some (True, p\<lparr>agent := a'\<rparr>, hs3, hdr @ body @ rest, (ra + offset) * 4)"
    using assms(2-6) o(3)
    unfolding createSrtHandshake_def
    by (simp add: Let_def ext req sid congctl_named_def [symmetric] request_type_def [symmetric] hs3_def [symmetric] h(2) start left f a o(1)
        del: or.right_neutral append_assoc split del: if_split)
  moreover have "(ra + offset) * 4 = m_iContentSize + 4 * length body" using o(2) by (simp add: m_iContentSize_def)
  ultimately show thesis using h(1) h(3) [of _ _ "body @ rest"] unfolding hs3_def by (intro that [of hdr rest]) simp_all
qed

section \<open>Reading the request\<close>

text \<open>Names that a string block carries unchanged.\<close>

definition sendable :: "srt_config \<Rightarrow> bool" where
  "sendable c \<longleftrightarrow> (sStreamName c = [] \<or> 2 \<le> length (sStreamName c) \<and> last (sStreamName c) \<noteq> CHR 0x00)
     \<and> CHR 0x00 \<notin> set (sCongestion c) \<and> CHR 0x00 \<notin> set (sPacketFilterConfig c)"

definition name_of_peer :: "srt_config \<Rightarrow> hs_party \<Rightarrow> hs_party" where
  "name_of_peer cA p = (if sStreamName cA = [] then p else set_config (\<lambda>c. c\<lparr>sStreamName := sStreamName cA\<rparr>) p)"

lemma uint_cmd [simp]:
  "uint (word_of_int SRT_CMD_HSREQ :: 16 word) = SRT_CMD_HSREQ" "uint (word_of_int SRT_CMD_SID :: 16 word) = SRT_CMD_SID"
  "uint (word_of_int SRT_CMD_CONGESTION :: 16 word) = SRT_CMD_CONGESTION" "uint (word_of_int SRT_CMD_FILTER :: 16 word) = SRT_CMD_FILTER"
  by (simp_all add: SRT_CMD_HSREQ_def SRT_CMD_SID_def SRT_CMD_CONGESTION_def SRT_CMD_FILTER_def)

lemma block_size_limit: "length s \<le> 4 * k \<Longrightarrow> length (ext_contents (str_block cmd s)) * 4 \<le> 4 * k"
  by (simp add: str_block_sel)

lemma block_nonempty: "s \<noteq> [] \<Longrightarrow> ext_contents (str_block cmd s) \<noteq> []"
proof -
  assume "s \<noteq> []"
  then have "0 < (length s + 3) div 4" by (cases s) simp_all
  then have "length (ext_contents (str_block cmd s)) \<noteq> 0" by (simp only: str_block_sel(2))
  then show ?thesis by simp
qed

lemma config_block_SID:
  assumes "2 \<le> length s" "last s \<noteq> CHR 0x00" "length s \<le> MAX_SID_LENGTH"
  shows "config_block r agsm SRT_CMD_SID (ext_contents (str_block SRT_CMD_SID s)) (a, b, p)
    = Inr (a, b, set_config (\<lambda>c. c\<lparr>sStreamName := s\<rparr>) p)"
proof -
  have "length (padded (string_bytes s)) \<le> MAX_SID_LENGTH" using assms(3) by (simp add: length_padded MAX_SID_LENGTH_def)
  then show ?thesis using assms by (simp add: config_block_def sid_of_str_block storage_set_def)
qed

lemma config_block_CONGESTION:
  assumes "s \<noteq> []" "CHR 0x00 \<notin> set s" "length s \<le> MAX_CONG_LENGTH"
  shows "config_block r agsm SRT_CMD_CONGESTION (ext_contents (str_block SRT_CMD_CONGESTION s)) (False, b, p)
    = (if s \<noteq> agsm then Inl (False, True, b, set_reason SRT_REJ_CONGESTION p) else Inr (True, b, p))"
  using block_size_limit [of s 4 SRT_CMD_CONGESTION] block_nonempty [OF assms(1), of SRT_CMD_CONGESTION] assms(2,3)
  by (simp add: config_block_def text_of_str_block cmd_defs(6,7) MAX_CONG_LENGTH_def)

lemma config_block_FILTER:
  assumes "s \<noteq> []" "CHR 0x00 \<notin> set s" "length s \<le> MAX_PFILTER_LENGTH"
  shows "config_block r agsm SRT_CMD_FILTER (ext_contents (str_block SRT_CMD_FILTER s)) (a, False, p)
    = (case checkApplyFilterConfig r (hs_side p) (party_config p) s of (ok, c) \<Rightarrow>
         if \<not> ok then Inl (False, a, True, set_reason SRT_REJ_FILTER p) else Inr (a, True, set_config (\<lambda>_. c) p))"
  using block_size_limit [of s 16 SRT_CMD_FILTER] block_nonempty [OF assms(1), of SRT_CMD_FILTER] assms(2,3)
  by (simp add: config_block_def text_of_str_block cmd_defs(6,7,8) MAX_PFILTER_LENGTH_def)

lemma config_blocks_read:
  assumes "names_fit A" "party_config A = cA" "sendable cA"
  shows "each_block (config_block r agsm) (Pair True) (config_blocks cA) (False, False, p) =
    (let p1 = name_of_peer cA p in
     if congctl_named cA \<and> sCongestion cA \<noteq> agsm then (False, True, False, set_reason SRT_REJ_CONGESTION p1)
     else if sPacketFilterConfig cA = [] then (True, congctl_named cA, False, p1)
     else case checkApplyFilterConfig r (hs_side p1) (party_config p1) (sPacketFilterConfig cA) of (ok, c) \<Rightarrow>
       if \<not> ok then (False, congctl_named cA, True, set_reason SRT_REJ_FILTER p1)
       else (True, congctl_named cA, True, set_config (\<lambda>_. c) p1))"
proof -
  have fit: "length (sStreamName cA) \<le> MAX_SID_LENGTH" "length (sPacketFilterConfig cA) \<le> MAX_PFILTER_LENGTH"
    "length (sCongestion cA) \<le> MAX_CONG_LENGTH"
    using assms(1,2) by (simp_all add: names_fit_def)
  have nul: "CHR 0x00 \<notin> set (sCongestion cA)" "CHR 0x00 \<notin> set (sPacketFilterConfig cA)"
    using assms(3) by (simp_all add: sendable_def)
  have sid: "each_block (config_block r agsm) (Pair True)
      ((if sStreamName cA \<noteq> [] then [str_block SRT_CMD_SID (sStreamName cA)] else []) @ es) (False, False, p)
      = each_block (config_block r agsm) (Pair True) es (False, False, name_of_peer cA p)" for es
    using assms(3) config_block_SID [OF _ _ fit(1)] by (auto simp: sendable_def name_of_peer_def str_block_sel(1))
  have cong: "config_block r agsm SRT_CMD_CONGESTION (ext_contents (str_block SRT_CMD_CONGESTION (sCongestion cA))) (False, False, q)
      = (if sCongestion cA \<noteq> agsm then Inl (False, True, False, set_reason SRT_REJ_CONGESTION q) else Inr (True, False, q))"
    if "congctl_named cA" for q
    using that by (intro config_block_CONGESTION [OF _ nul(1) fit(3)]) (simp add: congctl_named_def)
  show ?thesis
    unfolding config_blocks_def sid Let_def
    by (cases "congctl_named cA"; cases "sPacketFilterConfig cA = []")
      (simp_all add: str_block_sel(1) cong config_block_FILTER [OF _ nul(2) fit(2)] split: prod.split)
qed

section \<open>The responder\<close>

text \<open>
  What both parties agree on: the configuration of the responder after the request, or nothing when their congestion
  control or their filters do not match. An empty name of a congestion control means \<^verbatim>\<open>live\<close>.
\<close>

definition congctl_name :: "srt_config \<Rightarrow> string" where
  "congctl_name c = (if sCongestion c = [] then ''live'' else sCongestion c)"

definition agreed_config :: "filter_registry \<Rightarrow> srt_config \<Rightarrow> srt_config \<Rightarrow> srt_config option" where
  "agreed_config r cA cB =
     (let c = cB\<lparr>sCongestion := congctl_name cB, sStreamName := (if sStreamName cA = [] then sStreamName cB else sStreamName cA)\<rparr> in
      if congctl_name cA \<noteq> congctl_name cB then None
      else if sPacketFilterConfig cA = [] then Some (c\<lparr>sPacketFilterConfig := []\<rparr>)
      else case checkApplyFilterConfig r HSD_RESPONDER c (sPacketFilterConfig cA) of (ok, c') \<Rightarrow> if ok then Some c' else None)"

lemma checkApply_secret:
  "checkApplyFilterConfig r sd c s = (ok, c') \<Longrightarrow> CryptoSecret c' = CryptoSecret c"
  by (auto simp: checkApplyFilterConfig_def Let_def split: prod.splits if_splits)

lemma set_config_sel [simp]:
  "hs_side (set_config f p) = hs_side p" "hs_side (set_reason x p) = hs_side p"
  "agent (set_config f p) = (agent p)\<lparr>m_config := f (party_config p)\<rparr>" "agent (set_reason x p) = (agent p)\<lparr>m_RejectReason := x\<rparr>"
  by (simp_all add: set_config_def set_reason_def)

text \<open>The last two stages of the interpretation, after the request block has been taken.\<close>

lemma config_stage:
  assumes "names_fit A" "party_config A = cA" "sendable cA" "hs_side p = HSD_RESPONDER" "CryptoSecret (party_config p) = []"
    and "p3 = (if sCongestion (party_config p) = [] then set_config (\<lambda>c. c\<lparr>sCongestion := ''live''\<rparr>) p else p)"
    and "each_block (config_block r (congctl_name (party_config p))) (Pair True) (config_blocks cA) (False, False, p3) = (ok3, st)"
    and "(ok, p4) = (if ok3 then post_checks (congctl_name (party_config p)) False st else (False, snd (snd st)))"
  shows "case agreed_config r cA (party_config p) of
      None \<Rightarrow> \<not> ok \<and> m_RejectReason (agent p4) \<in> {SRT_REJ_CONGESTION, SRT_REJ_FILTER}
    | Some c \<Rightarrow> ok \<and> agent p4 = (agent p)\<lparr>m_config := c\<rparr>"
proof -
  let ?cB = "party_config p" and ?agsm = "congctl_name (party_config p)"
  define q where "q = name_of_peer cA p3"
  define c where "c = ?cB\<lparr>sCongestion := ?agsm, sStreamName := (if sStreamName cA = [] then sStreamName ?cB else sStreamName cA)\<rparr>"
  have q: "agent q = (agent p)\<lparr>m_config := c\<rparr>" "hs_side q = HSD_RESPONDER"
    using assms(4) by (simp_all add: q_def name_of_peer_def assms(6) c_def congctl_name_def party_config_def)
  then have cq: "party_config q = c" "CryptoSecret c = []" using assms(5) by (simp_all add: party_config_def c_def)
  have nm: "congctl_name cA = (if congctl_named cA then sCongestion cA else ''live'')" by (auto simp: congctl_name_def congctl_named_def)
  obtain okf cf where f: "checkApplyFilterConfig r HSD_RESPONDER c (sPacketFilterConfig cA) = (okf, cf)" by (rule prod.exhaust)
  have sf: "CryptoSecret cf = []" using checkApply_secret [OF f] cq by simp
  have st: "(ok3, st) = (if congctl_named cA \<and> sCongestion cA \<noteq> ?agsm then (False, True, False, set_reason SRT_REJ_CONGESTION q)
     else if sPacketFilterConfig cA = [] then (True, congctl_named cA, False, q)
     else if \<not> okf then (False, congctl_named cA, True, set_reason SRT_REJ_FILTER q)
     else (True, congctl_named cA, True, set_config (\<lambda>_. cf) q))"
    using assms(7) unfolding config_blocks_read [OF assms(1-3)] Let_def q_def [symmetric] cq(1) q(2) f prod.case by (rule sym)
  have ag: "agreed_config r cA ?cB = (if congctl_name cA \<noteq> ?agsm then None else if sPacketFilterConfig cA = [] then Some (c\<lparr>sPacketFilterConfig := []\<rparr>)
      else if okf then Some cf else None)"
    unfolding agreed_config_def Let_def c_def [symmetric] f by simp
  have c0: "c\<lparr>sPacketFilterConfig := []\<rparr> = c" if "sPacketFilterConfig c = []" using that by simp
  show ?thesis
    unfolding ag nm using assms(8) st cq sf q c0
    by (cases "congctl_named cA"; cases "sPacketFilterConfig cA = []"; cases okf)
      (auto simp: post_checks_def Let_def split: if_splits)
qed

lemma fill_HSREQ_words:
  assumes "fillSrtHandshake a [0, 0, 0] 0 3 SRT_CMD_HSREQ HS_VERSION_SRT1 = Some (3, [uSrtVersion a, flg, lat], a')"
  shows "fillSrtHandshake_HSREQ a (0 OR SrtVersionCapabilities) HS_VERSION_SRT1 = (3, flg, lat, a')"
proof -
  obtain n f l b where "fillSrtHandshake_HSREQ a (0 OR SrtVersionCapabilities) HS_VERSION_SRT1 = (n, f, l, b)" by (rule prod_cases4)
  with assms show ?thesis
    by (simp add: fillSrtHandshake_def SRT_HS_E_SIZE_def put_three del: put_words.simps or.left_neutral)
qed

lemma read_request:
  assumes "names_fit A" "party_config A = cA" "sendable cA" "hs_side B = HSD_RESPONDER" "CryptoSecret (party_config B) = []"
    and "processSrtMsg_HSREQ now (agent B) [version, flg, lat] 12 ts HS_VERSION_SRT1 = Some (SRT_CMD_HSRSP, b)" "m_config b = party_config B"
    and "m_iType hs = request_type cA"
  shows "\<exists>ok B'. interpret_words r cc now B (hsflags_of hs) (blocks_words (hsreq_ext version flg lat # config_blocks cA)) ts has_out = (ok, B', [])
    \<and> (case agreed_config r cA (party_config B) of
         None \<Rightarrow> \<not> ok \<and> m_RejectReason (agent B') \<in> {SRT_REJ_CONGESTION, SRT_REJ_FILTER}
       | Some c \<Rightarrow> ok \<and> agent B' = (handshakeDone b)\<lparr>m_config := c\<rparr>)"
proof -
  let ?es = "hsreq_ext version flg lat # config_blocks cA"
  note flags = request_type_flags [OF assms(8)]
  define p where "p = B\<lparr>agent := handshakeDone b\<rparr>"
  have p: "hs_side p = HSD_RESPONDER" "CryptoSecret (party_config p) = []" "party_config p = party_config B" "agent p = handshakeDone b"
    using assms(4,5,7) by (simp_all add: p_def party_config_def handshakeDone_def)
  have small: "length (ext_contents e) < 2 ^ 16" if "e \<in> set ?es" for e
    using that assms(1,2)
    by (auto simp: config_blocks_def hsreq_ext_def str_block_sel names_fit_def MAX_SID_LENGTH_def MAX_CONG_LENGTH_def MAX_PFILTER_LENGTH_def split: if_splits)
  have 1: "walk (hsreq_block now ts) (Pair True) (\<lambda>p. (False, set_reason SRT_REJ_ROGUE p)) (blocks_words ?es) B = (True, p)"
    using assms(6) by (subst walk_blocks [OF small]) (simp_all add: hsreq_ext_def hsreq_block_def SRT_HS_E_SIZE_def p_def)
  define p3 where "p3 = (if sCongestion (party_config p) = [] then set_config (\<lambda>c. c\<lparr>sCongestion := ''live''\<rparr>) p else p)"
  have agsm: "sCongestion (party_config p3) = congctl_name (party_config p)" by (simp add: p3_def congctl_name_def)
  obtain ok3 st where 3: "each_block (config_block r (congctl_name (party_config p))) (Pair True) (config_blocks cA) (False, False, p3) = (ok3, st)"
    by (rule prod.exhaust)
  have "each_block (config_block r x) (Pair True) ?es (False, False, p3) = each_block (config_block r x) (Pair True) (config_blocks cA) (False, False, p3)" for x
    by (simp add: hsreq_ext_def config_block_def cmd_defs(2,6,7,8))
  then have 2: "(if IsSet (hsflags_of hs) HS_EXT_CONFIG then walk (config_block r (congctl_name (party_config p))) (Pair True) (Pair True) (blocks_words ?es) (False, False, p3)
      else (True, False, False, p3)) = (ok3, st)"
    using 3 flags(3) by (subst walk_blocks [OF small]) auto
  define ok p4 where "ok = fst (if ok3 then post_checks (congctl_name (party_config p)) False st else (False, snd (snd st)))"
    and "p4 = snd (if ok3 then post_checks (congctl_name (party_config p)) False st else (False, snd (snd st)))"
  have "interpret_words r cc now B (hsflags_of hs) (blocks_words ?es) ts has_out = (ok, p4, [])"
    by (simp only: interpret_words_def flags(1,2) if_True if_False 1 prod.case simp_thms not_True_eq_False Let_def p3_def [symmetric] agsm 2)
      (simp add: ok_def p4_def split_beta)
  moreover have "(ok, p4) = (if ok3 then post_checks (congctl_name (party_config p)) False st else (False, snd (snd st)))"
    by (simp add: ok_def p4_def)
  note config_stage [OF assms(1-3) p(1,2) p3_def 3 this, unfolded p(3,4)]
  ultimately show ?thesis by (intro exI [of _ ok] exI [of _ p4]) simp
qed


definition sample_party :: "HandshakeSide \<Rightarrow> string \<Rightarrow> hs_party" where
  "sample_party sd name = \<lparr>agent = default_agent (CSrtConfig\<lparr>sStreamName := name\<rparr>), hs_side = sd, m_iMaxSRTPayloadSize = 1456,
     m_sPeerPktFilterConfigString = [], m_SndKmState = SRT_KM_S_UNSECURED, m_RcvKmState = SRT_KM_S_UNSECURED\<rparr>"

definition sample_crypto :: crypto_control where
  "sample_crypto = \<lparr>cc_exists = True, hasPassphrase = False, getKmMsg = (\<lambda>_. None),
     processSrtMsg_KMREQ = (\<lambda>_ _. (SRT_CMD_KMRSP, [], SRT_KM_S_NOSECRET)), processSrtMsg_KMRSP = (\<lambda>_ _. (-1, SRT_KM_S_NOSECRET))\<rparr>"


section \<open>Messages that are not as they should be\<close>

lemma each_block_skip:
  assumes "\<forall>e \<in> set es. ext_type e \<noteq> 1 \<and> ext_type e \<noteq> 2"
  shows "each_block (hsreq_block now ts) (Pair True) es p = (True, p)"
proof -
  have "uint (ext_type e) \<noteq> SRT_CMD_HSREQ \<and> uint (ext_type e) \<noteq> SRT_CMD_HSRSP" if "e \<in> set es" for e
    using assms that by (auto simp: cmd_defs uint_1_eq [symmetric] word_uint_eq_iff simp del: uint_1_eq)
  then show ?thesis by (induction es) (auto simp: hsreq_block_def)
qed

text \<open>
  C33. A message that announces a request in its flags but carries only other blocks is accepted: nothing has been negotiated, and the
  version and the flags of the peer are still those from before the message.
\<close>

theorem missing_request_accepted:
  assumes "HS_VERSION_SRT1 \<le> sint (m_iVersion hs)" "hsflags_of hs = HS_EXT_HSREQ"
    and "\<forall>e \<in> set es. ext_type e \<noteq> 1 \<and> ext_type e \<noteq> 2 \<and> length (ext_contents e) < 2 ^ 16" "es \<noteq> []"
    and "length hdr = 12" "pktlen = m_iContentSize + 4 * length (blocks_words es)"
    and "sCongestion (party_config p) = ''live''" "sPacketFilterConfig (party_config p) = []" "CryptoSecret (party_config p) = []"
  shows "interpretSrtHandshake r big cc now p v hs (hdr @ blocks_words es) pktlen ts has_out = Some (True, p, [])"
proof -
  have "blocks_words es \<noteq> []" using assms(4) by (cases es) (simp_all add: block_words_def)
  then have l: "m_iContentSize < pktlen" using assms(6) by (cases "blocks_words es") simp_all
  have ws: "take ((pktlen - m_iContentSize) div 4) (drop 12 (hdr @ blocks_words es)) = blocks_words es" using assms(5,6) by simp
  have f: "hsflags_of hs \<noteq> 0" "IsSet HS_EXT_HSREQ HS_EXT_HSREQ" "\<not> IsSet HS_EXT_HSREQ HS_EXT_KMREQ" "\<not> IsSet HS_EXT_HSREQ HS_EXT_CONFIG"
    by (simp_all add: assms(2) HS_EXT_HSREQ_def HS_EXT_KMREQ_def HS_EXT_CONFIG_def IsSet_def)
  have w: "walk (hsreq_block now ts) (Pair True) (\<lambda>p. (False, set_reason SRT_REJ_ROGUE p)) (blocks_words es) p = (True, p)"
    using assms(3,4) by (subst walk_blocks) (auto intro: each_block_skip)
  have "interpretSrtHandshake r big cc now p v hs (hdr @ blocks_words es) pktlen ts has_out
      = Some (interpret_words r cc now p (hsflags_of hs) (blocks_words es) ts has_out)"
    using interpret_message [OF assms(1) l _ f(1), of "hdr @ blocks_words es" r big cc now p v ts has_out] assms(5,6)
    by (simp add: ws m_iContentSize_def)
  also have "\<dots> = Some (True, p, [])"
    unfolding assms(2) interpret_words_def Let_def using f(2-4) assms(7-9) by (simp add: w post_checks_def)
  finally show ?thesis .
qed

theorem missing_request_accepted_witness:
  "interpretSrtHandshake Internal False sample_crypto 1000 (sample_party HSD_RESPONDER []) 0 (CHandShake\<lparr>m_iVersion := 5, m_iType := 1\<rparr>)
     (replicate 12 0 @ blocks_words [\<lparr>ext_type = 9, ext_contents = [7]\<rparr>]) 56 0 True = Some (True, sample_party HSD_RESPONDER [], [])"
proof -
  have 1: "HS_VERSION_SRT1 \<le> sint (m_iVersion (CHandShake\<lparr>m_iVersion := 5, m_iType := 1\<rparr>))"
    "hsflags_of (CHandShake\<lparr>m_iVersion := 5, m_iType := 1\<rparr>) = HS_EXT_HSREQ"
    by (simp_all add: HS_VERSION_SRT1_def hsflags_of_def HS_EXT_HSREQ_def) code_simp
  have 2: "sCongestion (party_config (sample_party HSD_RESPONDER [])) = ''live''" "sPacketFilterConfig (party_config (sample_party HSD_RESPONDER [])) = []"
    "CryptoSecret (party_config (sample_party HSD_RESPONDER [])) = []"
    by (simp_all add: sample_party_def party_config_def default_agent_def CSrtConfig_def)
  show ?thesis
    by (rule missing_request_accepted [OF 1 _ _ _ _ 2]) (simp_all add: block_words_def m_iContentSize_def)
qed

text \<open>
  The space left in the packet is not checked when names are attached. With a segment size of 144 bytes the packet has room for 100, a
  stream name of 40 characters passes the limit of half of that, and its last words are written behind the packet.
\<close>

lemma long_name_overruns_packet:
  "createSrtHandshake False sample_crypto ((sample_party HSD_INITIATOR (replicate 40 CHR ''a''))\<lparr>m_iMaxSRTPayloadSize := 100\<rparr>) 0
     SRT_CMD_HSREQ SRT_CMD_KMREQ None 0 (replicate 25 0) 100 (CHandShake\<lparr>m_iVersion := 5, m_extension := True\<rparr>) = None"
  by code_simp

end
