(* ===== verification/RendezvousSpec.thy ===== *)
theory RendezvousSpec
  imports Rendezvous
begin

text \<open>
  What the rendezvous handlers do, seen from outside: a party is its role, its state and the kind of message it
  repeats. The small machine \<open>party_step\<close> is refined by the handlers of \<open>Rendezvous\<close>. Two parties with a channel
  in each direction then form a system whose channels may lose any message but keep the order; every reachable
  state can still be completed to a connection, and nobody is ever refused. With reordering this fails.
\<close>

section \<open>Messages and requests by kind\<close>

datatype hs_kind = KWave | KConcl | KConclExt | KAgree | KOther

definition kind :: "handshake \<Rightarrow> hs_kind" where
  "kind hs =
     (if m_iReqType hs = URQ_WAVEAHAND then KWave
      else if m_iReqType hs = URQ_CONCLUSION then (if hsflags_of hs = 0 then KConcl else KConclExt)
      else if m_iReqType hs = URQ_AGREEMENT then KAgree
      else KOther)"

definition msg_ok :: "handshake \<Rightarrow> bool" where
  "msg_ok hs \<longleftrightarrow> sint (m_iVersion hs) > HS_VERSION_UDT4 \<and> hs_valid hs \<and> sint (m_iMSS hs) \<le> ETH_MAX_MTU_SIZE"

definition env_good :: "rdv_env \<Rightarrow> bool" where
  "env_good e \<longleftrightarrow> env_packet e \<and> env_objects e = None \<and> env_interpret e = None \<and> env_craft e = CONN_ACCEPT
     \<and> env_create e = None \<and> env_post e = None \<and> sint (env_flight e) \<ge> 2"

fun req_kind :: "HandshakeSide \<Rightarrow> RendezvousState \<Rightarrow> hs_kind" where
  "req_kind sd RDV_WAVING = KWave"
| "req_kind HSD_INITIATOR RDV_ATTENTION = KConclExt"
| "req_kind HSD_RESPONDER RDV_ATTENTION = KConcl"
| "req_kind sd RDV_FINE = KConclExt"
| "req_kind sd RDV_INITIATED = KConclExt"
| "req_kind sd st = KAgree"

fun party_step :: "HandshakeSide \<Rightarrow> RendezvousState \<Rightarrow> hs_kind \<Rightarrow> RendezvousState option" where
  "party_step sd RDV_WAVING KWave = Some RDV_ATTENTION"
| "party_step HSD_INITIATOR RDV_WAVING KConcl = Some RDV_FINE"
| "party_step sd RDV_WAVING KConclExt = Some RDV_FINE"
| "party_step sd RDV_ATTENTION KWave = Some RDV_ATTENTION"
| "party_step sd RDV_ATTENTION KConcl = Some RDV_ATTENTION"
| "party_step HSD_INITIATOR RDV_ATTENTION KConclExt = Some RDV_CONNECTED"
| "party_step HSD_RESPONDER RDV_ATTENTION KConclExt = Some RDV_INITIATED"
| "party_step HSD_INITIATOR RDV_ATTENTION KAgree = Some RDV_CONNECTED"
| "party_step HSD_INITIATOR RDV_FINE KConcl = Some RDV_FINE"
| "party_step HSD_INITIATOR RDV_FINE KConclExt = Some RDV_CONNECTED"
| "party_step HSD_RESPONDER RDV_FINE KConclExt = Some RDV_FINE"
| "party_step sd RDV_FINE KAgree = Some RDV_CONNECTED"
| "party_step HSD_RESPONDER RDV_INITIATED KConclExt = Some RDV_INITIATED"
| "party_step sd RDV_INITIATED KAgree = Some RDV_CONNECTED"
| "party_step sd st k = None"

definition role_states :: "HandshakeSide \<Rightarrow> RendezvousState set" where
  "role_states sd = (if sd = HSD_INITIATOR then {RDV_WAVING, RDV_ATTENTION, RDV_FINE, RDV_CONNECTED}
     else {RDV_WAVING, RDV_ATTENTION, RDV_FINE, RDV_INITIATED, RDV_CONNECTED})"

definition party_inv :: "HandshakeSide \<Rightarrow> 32 word \<Rightarrow> rdv_sock \<Rightarrow> bool" where
  "party_inv sd c s \<longleftrightarrow>
     (sd = HSD_INITIATOR \<or> sd = HSD_RESPONDER) \<and> m_RdvState s \<in> role_states sd
     \<and> m_SrtHsSide s = (if m_RdvState s = RDV_WAVING then HSD_DRAW else sd)
     \<and> msg_ok (m_ConnReq s) \<and> m_iCookie (m_ConnReq s) = c \<and> c \<noteq> 0
     \<and> (m_RdvState s \<noteq> RDV_CONNECTED \<longrightarrow> reqpkt s = m_ConnReq s \<and> kind (m_ConnReq s) = req_kind sd (m_RdvState s))
     \<and> (m_RdvState s \<noteq> RDV_WAVING \<longrightarrow> msg_ok (m_ConnRes s))
     \<and> (sd = HSD_RESPONDER \<and> m_RdvState s \<in> {RDV_FINE, RDV_INITIATED} \<longrightarrow> m_hsreq_seen s)"

section \<open>The handlers refine the machine\<close>

lemma kind_ignores_extension [simp]: "kind (hs\<lparr>m_extension := x\<rparr>) = kind hs"
  by (simp add: kind_def hsflags_of_def)

lemma msg_ok_updates [simp]:
  "msg_ok (hs\<lparr>m_extension := x\<rparr>) = msg_ok hs"
  "msg_ok (hs\<lparr>m_iReqType := r\<rparr>) = msg_ok hs"
  "msg_ok (hs\<lparr>m_iType := t\<rparr>) = msg_ok hs"
  by (simp_all add: msg_ok_def hs_valid_def)

lemma msg_okD:
  assumes "msg_ok hs"
  shows "sint (m_iVersion hs) > HS_VERSION_UDT4" "sint (m_iVersion hs) \<noteq> HS_VERSION_UDT4" "hs_valid hs"
    "\<not> (sint (m_iMSS hs) < 0 \<or> sint (m_iMSS hs) > ETH_MAX_MTU_SIZE)"
  using assms by (auto simp: msg_ok_def hs_valid_def)

lemma ext_flags_nonzero:
  "Bits_unwrap 15 0 (wrapFlags False k OR HS_EXT_HSREQ OR x OR y) \<noteq> 0"
proof
  assume "Bits_unwrap 15 0 (wrapFlags False k OR HS_EXT_HSREQ OR x OR y) = 0"
  then have "\<not> bit (Bits_unwrap 15 0 (wrapFlags False k OR HS_EXT_HSREQ OR x OR y)) 0" by simp
  then show False by (simp add: bit_Bits_unwrap bit_or_iff HS_EXT_HSREQ_def)
qed

lemma createSrtHandshake_good:
  assumes "env_good e" "sint (m_iVersion (m_ConnRes s)) \<noteq> HS_VERSION_UDT4" "sint (m_iVersion hs) > HS_VERSION_UDT4"
    and "rsp \<longrightarrow> m_hsreq_seen s" "m_extension hs \<and> \<not> rsp \<longrightarrow> m_SrtHsSide s \<noteq> HSD_RESPONDER"
  obtains t where "createSrtHandshake_type e s rsp hs = (None, hs\<lparr>m_iType := t\<rparr>)"
    "Bits_unwrap 15 0 t \<noteq> 0 \<longleftrightarrow> m_extension hs"
proof (cases "m_extension hs")
  case True
  then show thesis
    using assms
    by (intro that [of "wrapFlags False (env_keylen e) OR HS_EXT_HSREQ OR (if env_config e then HS_EXT_CONFIG else 0)
                              OR (if env_km e then HS_EXT_KMREQ else 0)"])
      (auto simp: createSrtHandshake_type_def Let_def env_good_def ext_flags_nonzero or.assoc)
next
  case False
  then show thesis
    using assms by (intro that [of "wrapFlags False (env_keylen e)"])
      (auto simp: createSrtHandshake_type_def Let_def wrapFlags_hsflags)
qed

lemma rdv_respond_good:
  assumes "env_good e" "msg_ok (m_ConnRes s)" "msg_ok (m_ConnReq s)" "m_hsreq_seen s"
  obtains t where "rdv_respond e s = (CONN_CONTINUE, s\<lparr>m_ConnReq := (m_ConnReq s)\<lparr>m_extension := True, m_iType := t\<rparr>,
      reqpkt := (m_ConnReq s)\<lparr>m_extension := True, m_iType := t\<rparr>\<rparr>, [])" "Bits_unwrap 15 0 t \<noteq> 0"
proof -
  let ?s = "s\<lparr>m_ConnReq := (m_ConnReq s)\<lparr>m_extension := True\<rparr>\<rparr>"
  obtain t where "createSrtHandshake_type e ?s True (m_ConnReq ?s) = (None, (m_ConnReq ?s)\<lparr>m_iType := t\<rparr>)"
    "Bits_unwrap 15 0 t \<noteq> 0"
    using createSrtHandshake_good [of e ?s "m_ConnReq ?s" True] assms msg_okD [OF assms(2)] msg_okD [OF assms(3)] by auto
  then show thesis by (intro that [of t]) (simp_all add: rdv_respond_def Let_def)
qed

lemma rdv_request_good:
  assumes "env_good e" "msg_ok (m_ConnRes s)" "msg_ok (m_ConnReq s)" "m_extension (m_ConnReq s) \<longrightarrow> m_SrtHsSide s \<noteq> HSD_RESPONDER"
  obtains t where "rdv_request e s r =
      (if r = URQ_DONE then (CONN_ACCEPT, s, [])
       else (if r = URQ_AGREEMENT \<and> m_RdvState s = RDV_CONNECTED then CONN_ACCEPT else CONN_CONTINUE,
             s\<lparr>m_ConnReq := (m_ConnReq s)\<lparr>m_iType := t\<rparr>, reqpkt := (m_ConnReq s)\<lparr>m_iType := t\<rparr>\<rparr>,
             if r = URQ_AGREEMENT \<and> m_RdvState s = RDV_CONNECTED then [(m_ConnReq s)\<lparr>m_iType := t\<rparr>] else []))"
    "Bits_unwrap 15 0 t \<noteq> 0 \<longleftrightarrow> m_extension (m_ConnReq s)"
proof -
  obtain t where "createSrtHandshake_type e s False (m_ConnReq s) = (None, (m_ConnReq s)\<lparr>m_iType := t\<rparr>)"
    "Bits_unwrap 15 0 t \<noteq> 0 \<longleftrightarrow> m_extension (m_ConnReq s)"
    using createSrtHandshake_good [of e s "m_ConnReq s" False] assms msg_okD [OF assms(2)] msg_okD [OF assms(3)] by auto
  then show thesis using assms(1) by (intro that [of t]) (simp_all add: rdv_request_def Let_def env_good_def)
qed

text \<open>The socket after the state switch: roles, state and request are set.\<close>

definition switched :: "rdv_sock \<Rightarrow> HandshakeSide \<Rightarrow> RendezvousState \<Rightarrow> int \<Rightarrow> bool \<Rightarrow> rdv_sock" where
  "switched s sd st r ne = s\<lparr>m_SrtHsSide := sd, m_RdvState := st,
     m_ConnReq := (m_ConnReq s)\<lparr>m_iReqType := r, m_extension := ne\<rparr>\<rparr>"

lemma switched_sel [simp]:
  "m_SrtHsSide (switched s sd st r ne) = sd" "m_RdvState (switched s sd st r ne) = st"
  "m_ConnRes (switched s sd st r ne) = m_ConnRes s" "m_hsreq_seen (switched s sd st r ne) = m_hsreq_seen s"
  "m_ConnReq (switched s sd st r ne) = (m_ConnReq s)\<lparr>m_iReqType := r, m_extension := ne\<rparr>"
  by (simp_all add: switched_def)

lemma processRendezvous_switched:
  assumes "m_RdvState s \<noteq> RDV_CONNECTED" "cookieContest s = s\<lparr>m_SrtHsSide := sd\<rparr>" "sd \<noteq> HSD_DRAW"
    and "rendezvousSwitchState (s\<lparr>m_SrtHsSide := sd\<rparr>) URQ_FAILURE_TYPES = (st, r, ne, nr)" "r \<le> URQ_FAILURE_TYPES"
    and "env_good e" "msg_ok (m_ConnRes s)"
  shows "processRendezvous e s =
    (let s3 = switched s sd st r ne in
     if nr then (if env_rst_ok e
                 then (if hsflags_of (m_ConnRes s) = 0 then reject s3 (rej_code SRT_REJ_ROGUE)
                       else rdv_respond e (s3\<lparr>m_hsreq_seen := True\<rparr>))
                 else rdv_respond e s3)
     else if sd = HSD_INITIATOR \<and> r = URQ_AGREEMENT \<and> env_rst_ok e
     then (if hsflags_of (m_ConnRes s) = 0
           then reject (s3\<lparr>m_ConnReq := (m_ConnReq s3)\<lparr>m_iReqType := URQFailure (rej_code SRT_REJ_ROGUE)\<rparr>\<rparr>) (rej_code SRT_REJ_ROGUE)
           else rdv_request e (s3\<lparr>m_hsreq_seen := True\<rparr>) r)
     else rdv_request e s3 r)"
  using assms msg_okD(3) [OF assms(7)]
  by (simp add: processRendezvous_def Let_def switched_def env_good_def interpretSrtHandshake_check_def)

lemma kind_iff:
  "kind hs = KWave \<longleftrightarrow> m_iReqType hs = URQ_WAVEAHAND"
  "kind hs = KConcl \<longleftrightarrow> m_iReqType hs = URQ_CONCLUSION \<and> hsflags_of hs = 0"
  "kind hs = KConclExt \<longleftrightarrow> m_iReqType hs = URQ_CONCLUSION \<and> hsflags_of hs \<noteq> 0"
  "kind hs = KAgree \<longleftrightarrow> m_iReqType hs = URQ_AGREEMENT"
  by (auto simp: kind_def urq_defs)

text \<open>The socket after a response or a request is a proper party again.\<close>

lemma party_inv_respond:
  assumes "env_good e" "msg_ok (m_ConnRes s)" "msg_ok (m_ConnReq s)" "m_hsreq_seen s"
    and "m_SrtHsSide s = HSD_RESPONDER" "m_RdvState s = st" "st \<in> {RDV_FINE, RDV_INITIATED}"
    and "m_iCookie (m_ConnReq s) = c" "c \<noteq> 0" "m_iReqType (m_ConnReq s) = URQ_CONCLUSION"
  shows "\<exists>s'. rdv_respond e s = (CONN_CONTINUE, s', []) \<and> party_inv HSD_RESPONDER c s' \<and> m_RdvState s' = st
    \<and> m_ConnRes s' = m_ConnRes s"
proof -
  obtain t where t: "rdv_respond e s = (CONN_CONTINUE, s\<lparr>m_ConnReq := (m_ConnReq s)\<lparr>m_extension := True, m_iType := t\<rparr>,
      reqpkt := (m_ConnReq s)\<lparr>m_extension := True, m_iType := t\<rparr>\<rparr>, [])" "Bits_unwrap 15 0 t \<noteq> 0"
    using rdv_respond_good [OF assms(1-4)] by blast
  show ?thesis
    unfolding t(1) using assms t(2)
    by (auto simp: party_inv_def role_states_def kind_def hsflags_of_def urq_defs)
qed

lemma party_inv_request:
  assumes "env_good e" "msg_ok (m_ConnRes s)" "msg_ok (m_ConnReq s)" "sd = HSD_INITIATOR \<or> sd = HSD_RESPONDER"
    and "m_SrtHsSide s = sd" "m_RdvState s = st" "st \<in> role_states sd" "st \<noteq> RDV_WAVING"
    and "m_iCookie (m_ConnReq s) = c" "c \<noteq> 0" "m_iReqType (m_ConnReq s) = r" "m_extension (m_ConnReq s) = ne"
    and "ne \<longrightarrow> sd = HSD_INITIATOR"
    and "st \<noteq> RDV_CONNECTED \<longrightarrow> r = URQ_CONCLUSION \<and> req_kind sd st = (if ne then KConclExt else KConcl)"
    and "st = RDV_CONNECTED \<longrightarrow> r = URQ_AGREEMENT \<or> r = URQ_DONE" "sd = HSD_RESPONDER \<longrightarrow> st = RDV_ATTENTION \<or> st = RDV_CONNECTED"
  shows "\<exists>cst s' out. rdv_request e s r = (cst, s', out) \<and> cst \<noteq> CONN_REJECT \<and> party_inv sd c s' \<and> m_RdvState s' = st
    \<and> m_ConnRes s' = m_ConnRes s \<and> map kind out = (if r = URQ_AGREEMENT then [KAgree] else []) \<and> list_all msg_ok out"
proof -
  obtain t where t: "rdv_request e s r =
      (if r = URQ_DONE then (CONN_ACCEPT, s, [])
       else (if r = URQ_AGREEMENT \<and> m_RdvState s = RDV_CONNECTED then CONN_ACCEPT else CONN_CONTINUE,
             s\<lparr>m_ConnReq := (m_ConnReq s)\<lparr>m_iType := t\<rparr>, reqpkt := (m_ConnReq s)\<lparr>m_iType := t\<rparr>\<rparr>,
             if r = URQ_AGREEMENT \<and> m_RdvState s = RDV_CONNECTED then [(m_ConnReq s)\<lparr>m_iType := t\<rparr>] else []))"
    "Bits_unwrap 15 0 t \<noteq> 0 \<longleftrightarrow> m_extension (m_ConnReq s)"
    using rdv_request_good [of e s] assms(1-3,5,12,13) by (metis HandshakeSide.distinct(5))
  show ?thesis
  proof (cases "st = RDV_CONNECTED")
    case True
    then show ?thesis
      unfolding t(1) using assms by (auto simp: party_inv_def kind_iff urq_defs)
  next
    case False
    then show ?thesis
      unfolding t(1) using assms t(2) by (auto simp: party_inv_def kind_def hsflags_of_def urq_defs)
  qed
qed

text \<open>Each step of the machine is one of two: the responder answers a request, or a request is repeated or completed.\<close>

lemma switch_cases:
  assumes "party_step sd st (kind (m_ConnRes s)) = Some st'" "m_RdvState s = st" "m_SrtHsSide s = sd" "st \<in> role_states sd"
    and "sd = HSD_INITIATOR \<or> sd = HSD_RESPONDER"
  shows "sd = HSD_RESPONDER \<and> st' \<in> {RDV_FINE, RDV_INITIATED} \<and> kind (m_ConnRes s) = KConclExt
      \<and> rendezvousSwitchState s u = (st', URQ_CONCLUSION, True, True)
    \<or> (\<exists>r ne. rendezvousSwitchState s u = (st', r, ne, False) \<and> st' \<in> role_states sd \<and> st' \<noteq> RDV_WAVING
        \<and> (ne \<longrightarrow> sd = HSD_INITIATOR)
        \<and> (st' \<noteq> RDV_CONNECTED \<longrightarrow> r = URQ_CONCLUSION \<and> req_kind sd st' = (if ne then KConclExt else KConcl))
        \<and> (st' = RDV_CONNECTED \<longrightarrow> r = URQ_AGREEMENT \<or> r = URQ_DONE)
        \<and> (sd = HSD_RESPONDER \<longrightarrow> st' = RDV_ATTENTION \<or> st' = RDV_CONNECTED)
        \<and> (r = URQ_AGREEMENT \<longleftrightarrow> st' = RDV_CONNECTED \<and> kind (m_ConnRes s) \<noteq> KAgree)
        \<and> (r = URQ_AGREEMENT \<longrightarrow> hsflags_of (m_ConnRes s) \<noteq> 0))"
proof -
  define req flg where "req = m_iReqType (m_ConnRes s)" and "flg = hsflags_of (m_ConnRes s)"
  have k: "kind (m_ConnRes s) = KWave \<Longrightarrow> req = URQ_WAVEAHAND" "kind (m_ConnRes s) = KConcl \<Longrightarrow> req = URQ_CONCLUSION \<and> flg = 0"
    "kind (m_ConnRes s) = KConclExt \<Longrightarrow> req = URQ_CONCLUSION \<and> flg \<noteq> 0" "kind (m_ConnRes s) = KAgree \<Longrightarrow> req = URQ_AGREEMENT"
    by (simp_all add: kind_iff req_def flg_def)
  have u: "URQ_WAVEAHAND \<noteq> URQ_CONCLUSION" "URQ_WAVEAHAND \<noteq> URQ_AGREEMENT" "URQ_CONCLUSION \<noteq> URQ_AGREEMENT" "URQ_DONE \<noteq> URQ_AGREEMENT"
    by (simp_all add: urq_defs)
  from assms(5) show ?thesis
  proof (elim disjE)
    assume sd: "sd = HSD_INITIATOR"
    show ?thesis
      using assms(1-4) u u [symmetric]
      unfolding sd rendezvousSwitchState_def Let_def req_def [symmetric] flg_def [symmetric]
      by (cases st; cases "kind (m_ConnRes s)") (simp_all add: role_states_def k ex_bool_eq)
  next
    assume sd: "sd = HSD_RESPONDER"
    show ?thesis
      using assms(1-4) u u [symmetric]
      unfolding sd rendezvousSwitchState_def Let_def req_def [symmetric] flg_def [symmetric]
      by (cases st; cases "kind (m_ConnRes s)") (simp_all add: role_states_def k ex_bool_eq)
  qed
qed

lemma processRendezvous_step:
  assumes "env_good e" "m_RdvState s = st" "st \<in> role_states sd" "st \<noteq> RDV_CONNECTED" "sd = HSD_INITIATOR \<or> sd = HSD_RESPONDER"
    and cc: "cookieContest s = s\<lparr>m_SrtHsSide := sd\<rparr>"
    and "msg_ok (m_ConnReq s)" "m_iCookie (m_ConnReq s) = c" "c \<noteq> 0" "msg_ok (m_ConnRes s)"
    and seen: "env_rst_ok e \<or> (sd = HSD_RESPONDER \<and> kind (m_ConnRes s) = KConclExt \<longrightarrow> m_hsreq_seen s)"
    and step: "party_step sd st (kind (m_ConnRes s)) = Some st'"
  shows "\<exists>cst s' out. processRendezvous e s = (cst, s', out) \<and> cst \<noteq> CONN_REJECT \<and> party_inv sd c s' \<and> m_RdvState s' = st'
    \<and> m_ConnRes s' = m_ConnRes s
    \<and> map kind out = (if st' = RDV_CONNECTED \<and> kind (m_ConnRes s) \<noteq> KAgree then [KAgree] else []) \<and> list_all msg_ok out"
proof -
  let ?s = "s\<lparr>m_SrtHsSide := sd\<rparr>"
  have draw: "sd \<noteq> HSD_DRAW" using assms(5) by auto
  have st: "m_RdvState s \<noteq> RDV_CONNECTED" using assms(2,4) by simp
  note eq = processRendezvous_switched [OF st cc draw _ _ assms(1,10)]
  from switch_cases [of sd st ?s st' URQ_FAILURE_TYPES] assms(2,3,5) step
  consider (respond) "sd = HSD_RESPONDER" "st' \<in> {RDV_FINE, RDV_INITIATED}" "kind (m_ConnRes s) = KConclExt"
      "rendezvousSwitchState ?s URQ_FAILURE_TYPES = (st', URQ_CONCLUSION, True, True)"
    | (request) r ne where "rendezvousSwitchState ?s URQ_FAILURE_TYPES = (st', r, ne, False)" "st' \<in> role_states sd" "st' \<noteq> RDV_WAVING"
      "ne \<longrightarrow> sd = HSD_INITIATOR" "st' \<noteq> RDV_CONNECTED \<longrightarrow> r = URQ_CONCLUSION \<and> req_kind sd st' = (if ne then KConclExt else KConcl)"
      "st' = RDV_CONNECTED \<longrightarrow> r = URQ_AGREEMENT \<or> r = URQ_DONE"
      "sd = HSD_RESPONDER \<longrightarrow> st' = RDV_ATTENTION \<or> st' = RDV_CONNECTED"
      "r = URQ_AGREEMENT \<longleftrightarrow> st' = RDV_CONNECTED \<and> kind (m_ConnRes s) \<noteq> KAgree"
      "r = URQ_AGREEMENT \<longrightarrow> hsflags_of (m_ConnRes s) \<noteq> 0" by auto
  then show ?thesis
  proof cases
    case respond
    define s3 where "s3 = (if env_rst_ok e then (switched s sd st' URQ_CONCLUSION True)\<lparr>m_hsreq_seen := True\<rparr>
      else switched s sd st' URQ_CONCLUSION True)"
    have "processRendezvous e s = rdv_respond e s3"
      using eq [OF respond(4)] respond(3) by (simp add: s3_def kind_iff urq_defs Let_def)
    moreover have "\<exists>s'. rdv_respond e s3 = (CONN_CONTINUE, s', []) \<and> party_inv HSD_RESPONDER c s' \<and> m_RdvState s' = st'
        \<and> m_ConnRes s' = m_ConnRes s3"
      using assms respond seen by (intro party_inv_respond) (auto simp: s3_def)
    ultimately show ?thesis using respond(1,2) by (auto simp: s3_def)
  next
    case request
    define s3 where "s3 = (if sd = HSD_INITIATOR \<and> r = URQ_AGREEMENT \<and> env_rst_ok e
      then (switched s sd st' r ne)\<lparr>m_hsreq_seen := True\<rparr> else switched s sd st' r ne)"
    have r: "r \<le> URQ_FAILURE_TYPES" using request(5,6) by (cases "st' = RDV_CONNECTED") (auto simp: urq_defs)
    have "processRendezvous e s = rdv_request e s3 r"
      using eq [OF request(1) r] request(9) by (auto simp: s3_def Let_def)
    moreover have "\<exists>cst s' out. rdv_request e s3 r = (cst, s', out) \<and> cst \<noteq> CONN_REJECT \<and> party_inv sd c s' \<and> m_RdvState s' = st'
        \<and> m_ConnRes s' = m_ConnRes s3 \<and> map kind out = (if r = URQ_AGREEMENT then [KAgree] else []) \<and> list_all msg_ok out"
      using assms request by (intro party_inv_request [where ne = ne]) (auto simp: s3_def)
    ultimately show ?thesis using request(8) by (auto simp: s3_def)
  qed
qed

text \<open>
  A message that arrives: the handler does the step of the machine, keeps the party's invariant, remembers the
  message and sends the agreement exactly when it connects without having got one.
\<close>

definition stepped :: "HandshakeSide \<Rightarrow> 32 word \<Rightarrow> hs_kind \<Rightarrow> RendezvousState \<Rightarrow> EConnectStatus \<times> rdv_sock \<times> handshake list \<Rightarrow> bool" where
  "stepped sd c k st' res \<longleftrightarrow>
     (case res of (cst, s', out) \<Rightarrow>
        cst \<noteq> CONN_REJECT \<and> party_inv sd c s' \<and> m_RdvState s' = st' \<and> kind (m_ConnRes s') = k
        \<and> map kind out = (if st' = RDV_CONNECTED \<and> k \<noteq> KAgree then [KAgree] else []) \<and> list_all msg_ok out)"

lemma processConnectResponse_rendezvous:
  assumes "m_RdvState s \<noteq> RDV_CONNECTED" "msg_ok m" "kind m \<noteq> KOther"
  shows "processConnectResponse_rdv e s m = (CONN_RENDEZVOUS, s\<lparr>m_ConnRes := m\<lparr>m_extension := m_extension (m_ConnRes s)\<rparr>\<rparr>, [])"
proof -
  have "m_iReqType m < URQ_FAILURE_TYPES" "m_iReqType m \<noteq> URQ_INDUCTION"
    using assms(3) by (auto simp: kind_def urq_defs split: if_splits)
  then show ?thesis
    using assms(1) msg_okD [OF assms(2)] by (auto simp: processConnectResponse_rdv_def Let_def)
qed

lemma rdv_receive_step:
  assumes "env_good e" "env_rst_ok e" "party_inv sd c s" "m_RdvState s = st" "st \<noteq> RDV_CONNECTED" "msg_ok m"
    and "st = RDV_WAVING \<Longrightarrow> m_iCookie m \<noteq> 0 \<and> backwardCompatibleCookieContest c (m_iCookie m) = sd"
    and "party_step sd st (kind m) = Some st'"
  shows "stepped sd c (kind m) st' (rdv_receive e s m)"
proof -
  have k: "kind m \<noteq> KOther" using assms(8) by (cases sd; cases st) auto
  define s1 where "s1 = s\<lparr>m_ConnRes := m\<lparr>m_extension := m_extension (m_ConnRes s)\<rparr>\<rparr>"
  have "cookieContest s1 = s1\<lparr>m_SrtHsSide := sd\<rparr>"
    using assms(3,4,7) by (cases "st = RDV_WAVING") (auto simp: cookieContest_def party_inv_def s1_def)
  then have "\<exists>cst s' out. processRendezvous e s1 = (cst, s', out) \<and> cst \<noteq> CONN_REJECT \<and> party_inv sd c s' \<and> m_RdvState s' = st'
    \<and> m_ConnRes s' = m_ConnRes s1
    \<and> map kind out = (if st' = RDV_CONNECTED \<and> kind (m_ConnRes s1) \<noteq> KAgree then [KAgree] else []) \<and> list_all msg_ok out"
    using assms by (intro processRendezvous_step [where st = st]) (auto simp: s1_def party_inv_def)
  moreover have "rdv_receive e s m = processRendezvous e s1"
    using processConnectResponse_rendezvous [OF _ assms(6) k] assms(4,5) by (simp add: rdv_receive_def s1_def)
  ultimately show ?thesis by (auto simp: stepped_def s1_def)
qed

lemma rdv_refresh_step:
  assumes "env_good e" "party_inv sd c s" "m_RdvState s = st" "st \<noteq> RDV_CONNECTED" "st \<noteq> RDV_WAVING"
    and "sd = HSD_RESPONDER \<and> kind (m_ConnRes s) = KConclExt \<Longrightarrow> st \<in> {RDV_FINE, RDV_INITIATED}"
    and "party_step sd st (kind (m_ConnRes s)) = Some st'"
  shows "stepped sd c (kind (m_ConnRes s)) st' (processRendezvous e s)"
proof -
  have "cookieContest s = s\<lparr>m_SrtHsSide := sd\<rparr>"
    using assms(2,3,5) by (auto simp: cookieContest_def party_inv_def)
  then have "\<exists>cst s' out. processRendezvous e s = (cst, s', out) \<and> cst \<noteq> CONN_REJECT \<and> party_inv sd c s' \<and> m_RdvState s' = st'
    \<and> m_ConnRes s' = m_ConnRes s
    \<and> map kind out = (if st' = RDV_CONNECTED \<and> kind (m_ConnRes s) \<noteq> KAgree then [KAgree] else []) \<and> list_all msg_ok out"
    using assms by (intro processRendezvous_step [where st = st]) (auto simp: party_inv_def)
  then show ?thesis by (auto simp: stepped_def)
qed

text \<open>A connected party answers everything but an agreement with an agreement, if its extensions can be read.\<close>

lemma processCtrlHS_agreement:
  assumes "env_good e" "party_inv sd c s" "m_RdvState s = RDV_CONNECTED" "msg_ok m"
    and "hsflags_of (m_ConnRes s) \<noteq> 0 \<Longrightarrow> hsflags_of m \<noteq> 0"
  shows "kind m = KAgree \<Longrightarrow> processCtrlHS e s m = []"
    and "kind m \<noteq> KAgree \<Longrightarrow> \<exists>r. processCtrlHS e s m = [r] \<and> kind r = KAgree \<and> msg_ok r"
proof -
  show "kind m = KAgree \<Longrightarrow> processCtrlHS e s m = []" by (simp add: processCtrlHS_def kind_iff urq_defs)
  assume "kind m \<noteq> KAgree"
  then have r: "m_iReqType m \<noteq> URQ_AGREEMENT" by (simp add: kind_iff)
  have i: "\<not> (hsflags_of (m_ConnRes s) \<noteq> 0 \<and> interpretSrtHandshake_check e m \<noteq> None)"
    using assms(1,5) by (auto simp: interpretSrtHandshake_check_def env_good_def)
  have q: "msg_ok (m_ConnReq s)" "msg_ok (m_ConnRes s)" using assms(2,3) by (auto simp: party_inv_def)
  show "\<exists>r. processCtrlHS e s m = [r] \<and> kind r = KAgree \<and> msg_ok r"
    using r i q msg_okD [OF assms(4)] assms(1)
    by (auto simp: processCtrlHS_def Let_def createSrtHandshake_type_def kind_iff msg_ok_def hs_valid_def env_good_def
        CHandShake_def HS_VERSION_SRT1_def HS_VERSION_UDT4_def)
qed

end
