(* ===== verification/RendezvousNet.thy ===== *)
theory RendezvousNet
  imports RendezvousSpec
begin

text \<open>
  Two rendezvous parties and the network between them. The invariant is stated on the kinds of the messages only:
  what one party has sent is ordered by the phases of the protocol, and the states of the two parties bound each
  other. It is shown for an abstract state first and lifted to the handlers through the refinement of
  \<open>RendezvousSpec\<close>.
\<close>

section \<open>The protocol on kinds of messages\<close>

fun phase :: "HandshakeSide \<Rightarrow> hs_kind \<Rightarrow> nat" where
  "phase HSD_INITIATOR KWave = 0"
| "phase HSD_INITIATOR KConclExt = 1"
| "phase HSD_INITIATOR KAgree = 2"
| "phase HSD_RESPONDER KWave = 0"
| "phase HSD_RESPONDER KConcl = 1"
| "phase HSD_RESPONDER KConclExt = 2"
| "phase HSD_RESPONDER KAgree = 3"
| "phase sd k = 9"

fun level :: "HandshakeSide \<Rightarrow> RendezvousState \<Rightarrow> nat" where
  "level sd RDV_WAVING = 0"
| "level sd RDV_ATTENTION = 1"
| "level HSD_INITIATOR RDV_FINE = 1"
| "level HSD_RESPONDER RDV_FINE = 2"
| "level sd RDV_INITIATED = 2"
| "level HSD_INITIATOR RDV_CONNECTED = 2"
| "level sd st = 3"

text \<open>The message that a party holds from the other one, by its state.\<close>

fun held :: "HandshakeSide \<Rightarrow> RendezvousState \<Rightarrow> hs_kind set" where
  "held HSD_INITIATOR RDV_ATTENTION = {KWave, KConcl}"
| "held HSD_INITIATOR RDV_FINE = {KConcl}"
| "held HSD_INITIATOR RDV_CONNECTED = {KConclExt}"
| "held HSD_RESPONDER RDV_ATTENTION = {KWave}"
| "held HSD_RESPONDER RDV_FINE = {KConclExt}"
| "held HSD_RESPONDER RDV_INITIATED = {KConclExt}"
| "held HSD_RESPONDER RDV_CONNECTED = {KAgree}"
| "held sd st = UNIV"

text \<open>\<open>qI\<close> is what the initiator has sent and is still on the way, \<open>kI\<close> the message it holds; \<open>qR\<close>, \<open>kR\<close> alike.\<close>

definition on_way :: "RendezvousState \<Rightarrow> hs_kind \<Rightarrow> hs_kind list \<Rightarrow> hs_kind list" where
  "on_way st k q = (if st = RDV_WAVING then q else k # q)"

definition proto_inv ::
  "RendezvousState \<Rightarrow> hs_kind \<Rightarrow> hs_kind list \<Rightarrow> RendezvousState \<Rightarrow> hs_kind \<Rightarrow> hs_kind list \<Rightarrow> bool" where
  "proto_inv stI kI qI stR kR qR \<longleftrightarrow>
     stI \<in> role_states HSD_INITIATOR \<and> stR \<in> role_states HSD_RESPONDER
     \<and> sorted (map (phase HSD_INITIATOR) (on_way stR kR qI) @ [level HSD_INITIATOR stI])
     \<and> sorted (map (phase HSD_RESPONDER) (on_way stI kI qR) @ [level HSD_RESPONDER stR])
     \<and> (2 \<le> level HSD_RESPONDER stR \<longrightarrow> 1 \<le> level HSD_INITIATOR stI)
     \<and> (stR = RDV_CONNECTED \<longrightarrow> stI = RDV_CONNECTED)
     \<and> (stI = RDV_CONNECTED \<longrightarrow> 2 \<le> level HSD_RESPONDER stR)
     \<and> kI \<in> held HSD_INITIATOR stI \<and> kR \<in> held HSD_RESPONDER stR"

lemma proto_init: "proto_inv RDV_WAVING kI [] RDV_WAVING kR []"
  by (simp add: proto_inv_def role_states_def on_way_def)

lemma on_way_append: "on_way st k (q @ q') = on_way st k q @ q'"
  by (simp add: on_way_def)

text \<open>A party may repeat its request and may send an agreement when it is connected.\<close>

lemma proto_send:
  assumes "proto_inv stI kI qI stR kR qR"
  shows "stI \<noteq> RDV_CONNECTED \<Longrightarrow> proto_inv stI kI (qI @ [req_kind HSD_INITIATOR stI]) stR kR qR"
    and "stI = RDV_CONNECTED \<Longrightarrow> proto_inv stI kI (qI @ [KAgree]) stR kR qR"
    and "stR \<noteq> RDV_CONNECTED \<Longrightarrow> proto_inv stI kI qI stR kR (qR @ [req_kind HSD_RESPONDER stR])"
proof -
  have rI: "phase HSD_INITIATOR (req_kind HSD_INITIATOR stI) = level HSD_INITIATOR stI" if "stI \<noteq> RDV_CONNECTED"
    using assms that by (cases stI) (auto simp: proto_inv_def role_states_def)
  have rR: "phase HSD_RESPONDER (req_kind HSD_RESPONDER stR) = level HSD_RESPONDER stR" if "stR \<noteq> RDV_CONNECTED"
    using assms that by (cases stR) (auto simp: proto_inv_def role_states_def)
  show "stI \<noteq> RDV_CONNECTED \<Longrightarrow> proto_inv stI kI (qI @ [req_kind HSD_INITIATOR stI]) stR kR qR"
    "stI = RDV_CONNECTED \<Longrightarrow> proto_inv stI kI (qI @ [KAgree]) stR kR qR"
    "stR \<noteq> RDV_CONNECTED \<Longrightarrow> proto_inv stI kI qI stR kR (qR @ [req_kind HSD_RESPONDER stR])"
    using assms rI rR unfolding proto_inv_def on_way_append by (auto simp: sorted_append)
qed

lemma proto_lose:
  assumes "proto_inv stI kI qI stR kR qR"
  shows "qI = xs @ k # ys \<Longrightarrow> proto_inv stI kI (xs @ ys) stR kR qR"
    and "qR = xs @ k # ys \<Longrightarrow> proto_inv stI kI qI stR kR (xs @ ys)"
  using assms unfolding proto_inv_def on_way_append
  by (auto simp: sorted_append on_way_def)

text \<open>A message that comes to the initiator makes a step of the machine; the same for the responder.\<close>

lemma proto_receive_initiator:
  assumes "proto_inv stI kI qI stR kR (k # qR)" "stI \<noteq> RDV_CONNECTED"
  shows "\<exists>st'. party_step HSD_INITIATOR stI k = Some st'
    \<and> proto_inv st' k (qI @ (if st' = RDV_CONNECTED \<and> k \<noteq> KAgree then [KAgree] else [])) stR kR qR
    \<and> (stI = RDV_WAVING \<longrightarrow> k \<noteq> KAgree)"
  using assms
  by (cases stI; cases k; cases stR)
    (auto simp: proto_inv_def role_states_def on_way_def sorted_append)

lemma proto_receive_responder:
  assumes "proto_inv stI kI (k # qI) stR kR qR" "stR \<noteq> RDV_CONNECTED"
  shows "\<exists>st'. party_step HSD_RESPONDER stR k = Some st'
    \<and> proto_inv stI kI qI st' k (qR @ (if st' = RDV_CONNECTED \<and> k \<noteq> KAgree then [KAgree] else []))
    \<and> (stR = RDV_WAVING \<longrightarrow> k \<noteq> KAgree)"
  using assms
  by (cases stR; cases k; cases stI)
    (auto simp: proto_inv_def role_states_def on_way_def sorted_append)

text \<open>Doing the last step again changes nothing.\<close>

lemma proto_refresh:
  assumes "proto_inv stI kI qI stR kR qR"
  shows "stI \<noteq> RDV_WAVING \<Longrightarrow> stI \<noteq> RDV_CONNECTED \<Longrightarrow> party_step HSD_INITIATOR stI kI = Some stI"
    and "stR \<noteq> RDV_WAVING \<Longrightarrow> stR \<noteq> RDV_CONNECTED \<Longrightarrow> party_step HSD_RESPONDER stR kR = Some stR"
  using assms by (cases stI; cases stR; auto simp: proto_inv_def role_states_def)+

lemma proto_connected:
  assumes "proto_inv stI kI qI stR kR qR"
  shows "stI = RDV_CONNECTED \<Longrightarrow> qR = k # q \<Longrightarrow> k = KConclExt \<or> k = KAgree"
    and "stR = RDV_CONNECTED \<Longrightarrow> qI = k # q \<Longrightarrow> k = KAgree"
proof -
  assume "stI = RDV_CONNECTED" "qR = k # q"
  then show "k = KConclExt \<or> k = KAgree"
    using assms by (cases k; cases stR) (auto simp: proto_inv_def on_way_def role_states_def)
next
  assume "stR = RDV_CONNECTED" "qI = k # q"
  then show "k = KAgree"
    using assms by (cases k) (auto simp: proto_inv_def on_way_def role_states_def)
qed

section \<open>Two parties and two channels\<close>

text \<open>
  The parties are \<open>False\<close> and \<open>True\<close>; \<open>chan n p\<close> holds what \<open>p\<close> has sent. The steps: a party sends its request
  again; a message is lost; a message is received by a connecting party; a connecting party does its processing again
  without a packet, as the receiving thread makes it do every 250 ms; a connected party gets a late handshake. The
  calls into the rest of the socket succeed (\<open>env_good\<close>).
\<close>

record rdv_net =
  party :: "bool \<Rightarrow> rdv_sock"
  chan :: "bool \<Rightarrow> handshake list"
  rejected :: "bool \<Rightarrow> bool"

definition deliver :: "rdv_net \<Rightarrow> bool \<Rightarrow> handshake list \<Rightarrow> EConnectStatus \<times> rdv_sock \<times> handshake list \<Rightarrow> rdv_net" where
  "deliver n p rest res =
     (case res of (cst, s', out) \<Rightarrow>
        \<lparr>party = (party n)(p := s'), chan = (chan n)((\<not> p) := rest, p := chan n p @ out),
         rejected = (rejected n)(p := (rejected n p \<or> cst = CONN_REJECT))\<rparr>)"

inductive rdv_step :: "rdv_net \<Rightarrow> rdv_net \<Rightarrow> bool" where
  resend: "m_RdvState (party n p) \<noteq> RDV_CONNECTED \<Longrightarrow>
    rdv_step n (n\<lparr>chan := (chan n)(p := chan n p @ [reqpkt (party n p)])\<rparr>)"
| lose: "chan n p = xs @ m # ys \<Longrightarrow> rdv_step n (n\<lparr>chan := (chan n)(p := xs @ ys)\<rparr>)"
| receive: "chan n (\<not> p) = m # ms \<Longrightarrow> m_RdvState (party n p) \<noteq> RDV_CONNECTED \<Longrightarrow> env_good e \<Longrightarrow> env_rst_ok e \<Longrightarrow>
    rdv_step n (deliver n p ms (rdv_receive e (party n p) m))"
| refresh: "m_RdvState (party n p) \<noteq> RDV_WAVING \<Longrightarrow> m_RdvState (party n p) \<noteq> RDV_CONNECTED \<Longrightarrow> env_good e \<Longrightarrow> \<not> env_rst_ok e \<Longrightarrow>
    rdv_step n (deliver n p (chan n (\<not> p)) (processRendezvous e (party n p)))"
| late: "chan n (\<not> p) = m # ms \<Longrightarrow> m_RdvState (party n p) = RDV_CONNECTED \<Longrightarrow> env_good e \<Longrightarrow>
    rdv_step n (deliver n p ms (CONN_ACCEPT, party n p, processCtrlHS e (party n p) m))"

definition rdv_start :: "(bool \<Rightarrow> rdv_sock) \<Rightarrow> rdv_net" where
  "rdv_start ps = \<lparr>party = ps, chan = (\<lambda>p. []), rejected = (\<lambda>p. False)\<rparr>"

definition chan_ok :: "32 word \<Rightarrow> handshake list \<Rightarrow> bool" where
  "chan_ok c ms \<longleftrightarrow> (\<forall>m \<in> set ms. msg_ok m \<and> (kind m \<noteq> KAgree \<longrightarrow> m_iCookie m = c))"

text \<open>\<open>w\<close> is the winner of the contest, the initiator.\<close>

definition net_inv :: "bool \<Rightarrow> 32 word \<Rightarrow> 32 word \<Rightarrow> rdv_net \<Rightarrow> bool" where
  "net_inv w cI cR n \<longleftrightarrow>
     party_inv HSD_INITIATOR cI (party n w) \<and> party_inv HSD_RESPONDER cR (party n (\<not> w))
     \<and> backwardCompatibleCookieContest cI cR = HSD_INITIATOR \<and> (\<forall>p. \<not> rejected n p)
     \<and> chan_ok cI (chan n w) \<and> chan_ok cR (chan n (\<not> w))
     \<and> proto_inv (m_RdvState (party n w)) (kind (m_ConnRes (party n w))) (map kind (chan n w))
         (m_RdvState (party n (\<not> w))) (kind (m_ConnRes (party n (\<not> w)))) (map kind (chan n (\<not> w)))"

lemma chan_ok_append: "chan_ok c (xs @ ys) \<longleftrightarrow> chan_ok c xs \<and> chan_ok c ys"
  by (auto simp: chan_ok_def)

lemma chan_ok_out:
  assumes "map kind out = (if b then [KAgree] else [])" "list_all msg_ok out"
  shows "chan_ok c out"
  using assms by (auto simp: chan_ok_def list_all_iff split: if_splits)

text \<open>One party has made a step and the rest of the network is as before: what is left to show is on kinds.\<close>

lemma net_inv_initiator:
  assumes "net_inv w cI cR n" "stepped HSD_INITIATOR cI k st' res" "chan_ok cR rest"
    and "proto_inv st' k (map kind (chan n w) @ (if st' = RDV_CONNECTED \<and> k \<noteq> KAgree then [KAgree] else []))
      (m_RdvState (party n (\<not> w))) (kind (m_ConnRes (party n (\<not> w)))) (map kind rest)"
  shows "net_inv w cI cR (deliver n w rest res)"
proof -
  obtain cst s' out where res: "res = (cst, s', out)" by (cases res)
  show ?thesis
    using assms chan_ok_out [of out _ cI] unfolding res
    by (auto simp: net_inv_def deliver_def stepped_def chan_ok_append simp del: not_Cons_self)
qed

lemma net_inv_responder:
  assumes "net_inv w cI cR n" "stepped HSD_RESPONDER cR k st' res" "chan_ok cI rest"
    and "proto_inv (m_RdvState (party n w)) (kind (m_ConnRes (party n w))) (map kind rest)
      st' k (map kind (chan n (\<not> w)) @ (if st' = RDV_CONNECTED \<and> k \<noteq> KAgree then [KAgree] else []))"
  shows "net_inv w cI cR (deliver n (\<not> w) rest res)"
proof -
  obtain cst s' out where res: "res = (cst, s', out)" by (cases res)
  show ?thesis
    using assms chan_ok_out [of out _ cR] unfolding res
    by (auto simp: net_inv_def deliver_def stepped_def chan_ok_append simp del: not_Cons_self)
qed

end
