(* ===== verification/RendezvousConnect.thy ===== *)
theory RendezvousConnect
  imports RendezvousNet
begin

text \<open>
  The theorems on the rendezvous of two parties: over channels that lose messages but keep their order nobody is
  refused and a connection can always be completed; a message that is overtaken by a later one can make a party
  refuse the connection.
\<close>

section \<open>Every step keeps the invariant\<close>

lemma net_invD:
  assumes "net_inv w cI cR n"
  shows "party_inv HSD_INITIATOR cI (party n w)" "party_inv HSD_RESPONDER cR (party n (\<not> w))"
    "backwardCompatibleCookieContest cI cR = HSD_INITIATOR" "backwardCompatibleCookieContest cR cI = HSD_RESPONDER"
    "\<not> rejected n p" "chan_ok cI (chan n w)" "chan_ok cR (chan n (\<not> w))"
    "proto_inv (m_RdvState (party n w)) (kind (m_ConnRes (party n w))) (map kind (chan n w))
       (m_RdvState (party n (\<not> w))) (kind (m_ConnRes (party n (\<not> w)))) (map kind (chan n (\<not> w)))"
  using assms contest_other_side [of cR cI] by (simp_all add: net_inv_def)

lemma party_invD:
  assumes "party_inv sd c s"
  shows "c \<noteq> 0" "m_RdvState s \<noteq> RDV_CONNECTED \<Longrightarrow> reqpkt s = m_ConnReq s"
    "m_RdvState s \<noteq> RDV_CONNECTED \<Longrightarrow> kind (m_ConnReq s) = req_kind sd (m_RdvState s)"
    "msg_ok (m_ConnReq s)" "m_iCookie (m_ConnReq s) = c"
  using assms by (auto simp: party_inv_def)

lemma net_resend:
  assumes "net_inv w cI cR n" "m_RdvState (party n p) \<noteq> RDV_CONNECTED"
  shows "net_inv w cI cR (n\<lparr>chan := (chan n)(p := chan n p @ [reqpkt (party n p)])\<rparr>)"
proof (cases "p = w")
  case True
  then show ?thesis
    using assms(2) assms(1) [unfolded net_inv_def] proto_send(1) [OF net_invD(8) [OF assms(1)]]
      party_invD [OF net_invD(1) [OF assms(1)]]
    unfolding net_inv_def by (auto simp: chan_ok_append chan_ok_def)
next
  case False
  then have "p = (\<not> w)" by auto
  then show ?thesis
    using assms(2) assms(1) [unfolded net_inv_def] proto_send(3) [OF net_invD(8) [OF assms(1)]]
      party_invD [OF net_invD(2) [OF assms(1)]]
    unfolding net_inv_def by (auto simp: chan_ok_append chan_ok_def)
qed

lemma net_lose:
  assumes "net_inv w cI cR n" "chan n p = xs @ m # ys"
  shows "net_inv w cI cR (n\<lparr>chan := (chan n)(p := xs @ ys)\<rparr>)"
proof (cases "p = w")
  case True
  then show ?thesis
    using assms(1) [unfolded net_inv_def] assms(2) proto_lose(1) [OF net_invD(8) [OF assms(1)], of "map kind xs" "kind m" "map kind ys"]
    unfolding net_inv_def by (auto simp: chan_ok_append chan_ok_def)
next
  case False
  then have "p = (\<not> w)" by auto
  then show ?thesis
    using assms(1) [unfolded net_inv_def] assms(2) proto_lose(2) [OF net_invD(8) [OF assms(1)], of "map kind xs" "kind m" "map kind ys"]
    unfolding net_inv_def by (auto simp: chan_ok_append chan_ok_def)
qed

text \<open>A message of the other party carries the cookie that decides the contest, unless it is an agreement.\<close>

lemma net_receive_initiator:
  assumes "net_inv w cI cR n" "chan n (\<not> w) = m # ms" "m_RdvState (party n w) \<noteq> RDV_CONNECTED" "env_good e" "env_rst_ok e"
  obtains st' where "party_step HSD_INITIATOR (m_RdvState (party n w)) (kind m) = Some st'"
    "net_inv w cI cR (deliver n w ms (rdv_receive e (party n w) m))"
    "m_RdvState (party (deliver n w ms (rdv_receive e (party n w) m)) w) = st'"
proof -
  note inv = net_invD [OF assms(1)]
  have ok: "msg_ok m" "kind m \<noteq> KAgree \<longrightarrow> m_iCookie m = cR" "chan_ok cR ms"
    using inv(7) assms(2) by (auto simp: chan_ok_def)
  obtain st' where st': "party_step HSD_INITIATOR (m_RdvState (party n w)) (kind m) = Some st'"
    "proto_inv st' (kind m) (map kind (chan n w) @ (if st' = RDV_CONNECTED \<and> kind m \<noteq> KAgree then [KAgree] else []))
       (m_RdvState (party n (\<not> w))) (kind (m_ConnRes (party n (\<not> w)))) (map kind ms)"
    "m_RdvState (party n w) = RDV_WAVING \<longrightarrow> kind m \<noteq> KAgree"
    using proto_receive_initiator [OF inv(8) [unfolded assms(2) list.map] assms(3)] by blast
  have s: "stepped HSD_INITIATOR cI (kind m) st' (rdv_receive e (party n w) m)"
    using st'(1,3) ok inv(3) party_invD(1) [OF inv(2)] by (intro rdv_receive_step [OF assms(4,5) inv(1) refl assms(3)]) auto
  then have "m_RdvState (party (deliver n w ms (rdv_receive e (party n w) m)) w) = st'"
    by (auto simp: stepped_def deliver_def split: prod.splits)
  with net_inv_initiator [OF assms(1) s ok(3) st'(2)] st'(1) that show thesis by blast
qed

lemma net_receive_responder:
  assumes "net_inv w cI cR n" "chan n w = m # ms" "m_RdvState (party n (\<not> w)) \<noteq> RDV_CONNECTED" "env_good e" "env_rst_ok e"
  obtains st' where "party_step HSD_RESPONDER (m_RdvState (party n (\<not> w))) (kind m) = Some st'"
    "net_inv w cI cR (deliver n (\<not> w) ms (rdv_receive e (party n (\<not> w)) m))"
    "m_RdvState (party (deliver n (\<not> w) ms (rdv_receive e (party n (\<not> w)) m)) (\<not> w)) = st'"
proof -
  note inv = net_invD [OF assms(1)]
  have ok: "msg_ok m" "kind m \<noteq> KAgree \<longrightarrow> m_iCookie m = cI" "chan_ok cI ms"
    using inv(6) assms(2) by (auto simp: chan_ok_def)
  obtain st' where st': "party_step HSD_RESPONDER (m_RdvState (party n (\<not> w))) (kind m) = Some st'"
    "proto_inv (m_RdvState (party n w)) (kind (m_ConnRes (party n w))) (map kind ms)
       st' (kind m) (map kind (chan n (\<not> w)) @ (if st' = RDV_CONNECTED \<and> kind m \<noteq> KAgree then [KAgree] else []))"
    "m_RdvState (party n (\<not> w)) = RDV_WAVING \<longrightarrow> kind m \<noteq> KAgree"
    using proto_receive_responder [OF inv(8) [unfolded assms(2) list.map] assms(3)] by blast
  have s: "stepped HSD_RESPONDER cR (kind m) st' (rdv_receive e (party n (\<not> w)) m)"
    using st'(1,3) ok inv(4) party_invD(1) [OF inv(1)] by (intro rdv_receive_step [OF assms(4,5) inv(2) refl assms(3)]) auto
  then have "m_RdvState (party (deliver n (\<not> w) ms (rdv_receive e (party n (\<not> w)) m)) (\<not> w)) = st'"
    by (auto simp: stepped_def deliver_def split: prod.splits)
  with net_inv_responder [OF assms(1) s ok(3) st'(2)] st'(1) that show thesis by blast
qed

lemma net_refresh:
  assumes "net_inv w cI cR n" "m_RdvState (party n p) \<noteq> RDV_WAVING" "m_RdvState (party n p) \<noteq> RDV_CONNECTED" "env_good e"
  shows "net_inv w cI cR (deliver n p (chan n (\<not> p)) (processRendezvous e (party n p)))"
proof -
  note inv = net_invD [OF assms(1)]
  show ?thesis
  proof (cases "p = w")
    case True
    have step: "party_step HSD_INITIATOR (m_RdvState (party n w)) (kind (m_ConnRes (party n w))) = Some (m_RdvState (party n w))"
      using proto_refresh(1) [OF inv(8)] assms(2,3) True by simp
    have "stepped HSD_INITIATOR cI (kind (m_ConnRes (party n w))) (m_RdvState (party n w)) (processRendezvous e (party n w))"
      using step assms(2,3) True by (intro rdv_refresh_step [OF assms(4) inv(1) refl]) auto
    from net_inv_initiator [OF assms(1) this inv(7)] inv(8) True assms(3) show ?thesis by simp
  next
    case False
    then have p: "p = (\<not> w)" by auto
    have step: "party_step HSD_RESPONDER (m_RdvState (party n p)) (kind (m_ConnRes (party n p))) = Some (m_RdvState (party n p))"
      using proto_refresh(2) [OF inv(8)] assms(2,3) p by simp
    have "kind (m_ConnRes (party n p)) \<in> held HSD_RESPONDER (m_RdvState (party n p))" "m_RdvState (party n p) \<in> role_states HSD_RESPONDER"
      using inv(8) p by (simp_all add: proto_inv_def)
    then have "stepped HSD_RESPONDER cR (kind (m_ConnRes (party n p))) (m_RdvState (party n p)) (processRendezvous e (party n p))"
      using step assms(2,3) inv(2) p
      by (intro rdv_refresh_step [OF assms(4) _ refl]) (auto simp: role_states_def)
    from net_inv_responder [OF assms(1) this [unfolded p] inv(6)] inv(8) p assms(3) show ?thesis by simp
  qed
qed

lemma net_late:
  assumes "net_inv w cI cR n" "chan n (\<not> p) = m # ms" "m_RdvState (party n p) = RDV_CONNECTED" "env_good e"
  shows "net_inv w cI cR (deliver n p ms (CONN_ACCEPT, party n p, processCtrlHS e (party n p) m))"
proof -
  note inv = net_invD [OF assms(1)]
  have quiet: "processCtrlHS e s m = []" if "kind m = KAgree" for s
    using that by (simp add: processCtrlHS_def kind_iff urq_defs)
  show ?thesis
  proof (cases "p = w")
    case True
    have ok: "msg_ok m" "chan_ok cR ms" using inv(7) assms(2) True by (auto simp: chan_ok_def)
    have lost: "proto_inv (m_RdvState (party n w)) (kind (m_ConnRes (party n w))) (map kind (chan n w))
       (m_RdvState (party n (\<not> w))) (kind (m_ConnRes (party n (\<not> w)))) (map kind ms)"
      using proto_lose(2) [OF inv(8), of "[]" "kind m" "map kind ms"] assms(2) True by simp
    have k: "kind m = KConclExt \<or> kind m = KAgree"
      using proto_connected(1) [OF inv(8)] assms(2,3) True by simp
    show ?thesis
    proof (cases "kind m = KAgree")
      case True
      then show ?thesis
        using assms(1) lost ok \<open>p = w\<close> quiet unfolding net_inv_def by (auto simp: deliver_def)
    next
      case False
      then have "hsflags_of m \<noteq> 0" using k by (simp add: kind_iff)
      then obtain r where r: "processCtrlHS e (party n w) m = [r]" "kind r = KAgree" "msg_ok r"
        using processCtrlHS_agreement(2) [OF assms(4) inv(1) _ ok(1)] assms(3) True False by auto
      have "proto_inv (m_RdvState (party n w)) (kind (m_ConnRes (party n w))) (map kind (chan n w) @ [KAgree])
         (m_RdvState (party n (\<not> w))) (kind (m_ConnRes (party n (\<not> w)))) (map kind ms)"
        using proto_send(2) [OF lost] assms(3) True by simp
      then show ?thesis
        using assms(1) ok \<open>p = w\<close> r unfolding net_inv_def by (auto simp: deliver_def chan_ok_append) (auto simp: chan_ok_def)
    qed
  next
    case False
    then have p: "p = (\<not> w)" by auto
    have "kind m = KAgree" using proto_connected(2) [OF inv(8)] assms(2,3) p by simp
    moreover have "proto_inv (m_RdvState (party n w)) (kind (m_ConnRes (party n w))) (map kind ms)
       (m_RdvState (party n (\<not> w))) (kind (m_ConnRes (party n (\<not> w)))) (map kind (chan n (\<not> w)))"
      using proto_lose(1) [OF inv(8), of "[]" "kind m" "map kind ms"] assms(2) p by simp
    moreover have "chan_ok cI ms" using inv(6) assms(2) p by (auto simp: chan_ok_def)
    ultimately show ?thesis
      using assms(1) p quiet unfolding net_inv_def by (auto simp: deliver_def)
  qed
qed

lemma net_step:
  assumes "net_inv w cI cR n" "rdv_step n n'"
  shows "net_inv w cI cR n'"
  using assms(2,1)
proof cases
  case (receive p m ms e)
  show ?thesis
  proof (cases "p = w")
    case True
    with receive show ?thesis by (auto elim: net_receive_initiator [OF assms(1), of m ms e])
  next
    case False
    then have "p = (\<not> w)" by auto
    with receive show ?thesis by (auto elim: net_receive_responder [OF assms(1), of m ms e])
  qed
qed (auto intro: net_resend net_lose net_refresh net_late assms)

lemma net_steps: "rdv_step\<^sup>*\<^sup>* n n' \<Longrightarrow> net_inv w cI cR n \<Longrightarrow> net_inv w cI cR n'"
  by (induction rule: rtranclp_induct) (auto intro: net_step)

section \<open>A connection can always be completed\<close>

text \<open>Nothing is on the way.\<close>

definition quiet :: "bool \<Rightarrow> 32 word \<Rightarrow> 32 word \<Rightarrow> rdv_net \<Rightarrow> bool" where
  "quiet w cI cR n \<longleftrightarrow> net_inv w cI cR n \<and> chan n = (\<lambda>_. [])"

definition env_default :: "bool \<Rightarrow> rdv_env" where
  "env_default ok = \<lparr>env_rst_ok = ok, env_packet = True, env_objects = None, env_interpret = None, env_craft = CONN_ACCEPT,
     env_create = None, env_post = None, env_crypter = True, env_keylen = 0, env_config = False, env_km = False,
     env_flight = 8192\<rparr>"

lemma env_default_good: "env_good (env_default ok)" "env_rst_ok (env_default ok) = ok"
  by (simp_all add: env_good_def env_default_def)

lemma all_lost: "\<exists>n'. rdv_step\<^sup>*\<^sup>* n n' \<and> party n' = party n \<and> chan n' = (\<lambda>_. [])"
proof (induction "length (chan n False) + length (chan n True)" arbitrary: n rule: less_induct)
  case less
  show ?case
  proof (cases "\<exists>p. chan n p \<noteq> []")
    case False
    then show ?thesis by (intro exI [of _ n]) auto
  next
    case True
    then obtain p m ms where p: "chan n p = m # ms" by (metis neq_Nil_conv)
    let ?n = "n\<lparr>chan := (chan n)(p := ms)\<rparr>"
    have s: "rdv_step n ?n" using rdv_step.lose [of n p "[]" m ms] p by simp
    have "length (chan ?n False) + length (chan ?n True) < length (chan n False) + length (chan n True)"
      using p by (cases p) simp_all
    from less [OF this] obtain n' where "rdv_step\<^sup>*\<^sup>* ?n n'" "party n' = party ?n" "chan n' = (\<lambda>_. [])" by blast
    with s show ?thesis by (intro exI [of _ n']) (auto intro: converse_rtranclp_into_rtranclp)
  qed
qed

text \<open>One party sends and the other one receives.\<close>

definition role :: "bool \<Rightarrow> bool \<Rightarrow> HandshakeSide" where
  "role w p = (if p = w then HSD_INITIATOR else HSD_RESPONDER)"

definition cookie_of :: "bool \<Rightarrow> 32 word \<Rightarrow> 32 word \<Rightarrow> bool \<Rightarrow> 32 word" where
  "cookie_of w cI cR p = (if p = w then cI else cR)"

lemma net_party: "net_inv w cI cR n \<Longrightarrow> party_inv (role w p) (cookie_of w cI cR p) (party n p)"
  using net_invD(1,2) [of w cI cR n] by (cases "p = w") (auto simp: role_def cookie_of_def)

lemma net_receive:
  assumes "net_inv w cI cR n" "chan n (\<not> p) = m # ms" "m_RdvState (party n p) \<noteq> RDV_CONNECTED" "env_good e" "env_rst_ok e"
  shows "Some (m_RdvState (party (deliver n p ms (rdv_receive e (party n p) m)) p)) = party_step (role w p) (m_RdvState (party n p)) (kind m)"
proof (cases "p = w")
  case True
  with assms show ?thesis by (auto simp: role_def elim: net_receive_initiator [OF assms(1), of m ms e])
next
  case False
  then have "p = (\<not> w)" by auto
  with assms show ?thesis by (auto simp: role_def elim: net_receive_responder [OF assms(1), of m ms e])
qed

lemma send_and_receive:
  assumes "quiet w cI cR n" "m_RdvState (party n (\<not> p)) \<noteq> RDV_CONNECTED" "m_RdvState (party n p) \<noteq> RDV_CONNECTED"
    and "party_step (role w p) (m_RdvState (party n p)) (req_kind (role w (\<not> p)) (m_RdvState (party n (\<not> p)))) = Some b"
  shows "\<exists>n'. rdv_step\<^sup>*\<^sup>* n n' \<and> quiet w cI cR n' \<and> m_RdvState (party n' p) = b \<and> party n' (\<not> p) = party n (\<not> p)"
proof -
  define m where "m = reqpkt (party n (\<not> p))"
  define n1 where "n1 = n\<lparr>chan := (chan n)((\<not> p) := chan n (\<not> p) @ [reqpkt (party n (\<not> p))])\<rparr>"
  have q: "net_inv w cI cR n" "chan n = (\<lambda>_. [])" using assms(1) by (auto simp: quiet_def)
  have s1: "rdv_step n n1" using assms(2) unfolding n1_def by (rule rdv_step.resend)
  have c1: "chan n1 (\<not> p) = m # []" "party n1 = party n" using q(2) by (simp_all add: n1_def m_def)
  have k: "kind m = req_kind (role w (\<not> p)) (m_RdvState (party n (\<not> p)))"
    using party_invD(2,3) [OF net_party [OF q(1), of "\<not> p"]] assms(2) by (simp add: m_def)
  define n2 where "n2 = deliver n1 p [] (rdv_receive (env_default True) (party n1 p) m)"
  have s2: "rdv_step n1 n2"
    using rdv_step.receive [of n1 p m "[]" "env_default True"] c1 assms(3) env_default_good by (simp add: n2_def)
  have b: "m_RdvState (party n2 p) = b"
    using net_receive [OF net_step [OF q(1) s1] c1(1), of "env_default True"] c1(2) assms(3,4) k env_default_good by (simp add: n2_def)
  have o: "party n2 (\<not> p) = party n (\<not> p)" by (auto simp: n2_def deliver_def c1(2) split: prod.splits)
  obtain n3 where n3: "rdv_step\<^sup>*\<^sup>* n2 n3" "party n3 = party n2" "chan n3 = (\<lambda>_. [])" using all_lost by blast
  have r: "rdv_step\<^sup>*\<^sup>* n n3" using s1 s2 n3(1) by (meson converse_rtranclp_into_rtranclp)
  have "quiet w cI cR n3" using net_steps [OF r q(1)] n3(3) by (simp add: quiet_def)
  with r n3(2) b o show ?thesis by auto
qed

text \<open>The initiator is connected but the responder has not learnt it: the responder asks again and is told.\<close>

lemma ask_again:
  assumes "quiet w cI cR n" "m_RdvState (party n w) = RDV_CONNECTED" "m_RdvState (party n (\<not> w)) \<noteq> RDV_CONNECTED"
  shows "\<exists>n'. rdv_step\<^sup>*\<^sup>* n n' \<and> (\<forall>p. m_RdvState (party n' p) = RDV_CONNECTED)"
proof -
  define m where "m = reqpkt (party n (\<not> w))"
  define n1 where "n1 = n\<lparr>chan := (chan n)((\<not> w) := chan n (\<not> w) @ [reqpkt (party n (\<not> w))])\<rparr>"
  have q: "net_inv w cI cR n" "chan n = (\<lambda>_. [])" using assms(1) by (auto simp: quiet_def)
  note inv = net_invD [OF q(1)]
  have s1: "rdv_step n n1" using assms(3) unfolding n1_def by (rule rdv_step.resend)
  have c1: "chan n1 (\<not> w) = m # []" "chan n1 w = []" "party n1 = party n" using q(2) by (simp_all add: n1_def m_def)
  have b: "m_RdvState (party n (\<not> w)) = RDV_FINE \<or> m_RdvState (party n (\<not> w)) = RDV_INITIATED"
    using inv(8) assms(2,3) by (cases "m_RdvState (party n (\<not> w))") (auto simp: proto_inv_def role_states_def)
  then have k: "kind m = KConclExt" "msg_ok m"
    using party_invD(2-4) [OF inv(2)] assms(3) by (auto simp: m_def)
  then obtain r where r: "processCtrlHS (env_default True) (party n w) m = [r]" "kind r = KAgree"
    using processCtrlHS_agreement(2) [OF env_default_good(1) inv(1) assms(2), of m True] by (auto simp: kind_iff urq_defs)
  define n2 where "n2 = deliver n1 w [] (CONN_ACCEPT, party n1 w, processCtrlHS (env_default True) (party n1 w) m)"
  have s2: "rdv_step n1 n2"
    using rdv_step.late [of n1 w m "[]" "env_default True"] c1 assms(2) env_default_good by (simp add: n2_def)
  have c2: "chan n2 (\<not> (\<not> w)) = r # []" "party n2 = party n" using c1 r(1) by (simp_all add: n2_def deliver_def)
  have i2: "net_inv w cI cR n2" using net_step [OF net_step [OF q(1) s1] s2] .
  define n3 where "n3 = deliver n2 (\<not> w) [] (rdv_receive (env_default True) (party n2 (\<not> w)) r)"
  have s3: "rdv_step n2 n3"
    using rdv_step.receive [of n2 "\<not> w" r "[]" "env_default True"] c2 assms(3) env_default_good by (simp add: n3_def)
  have "m_RdvState (party n3 (\<not> w)) = RDV_CONNECTED"
    using net_receive [OF i2 c2(1), of "env_default True"] c2(2) assms(3) r(2) b env_default_good
    by (auto simp: n3_def role_def)
  moreover have "party n3 w = party n w" by (auto simp: n3_def deliver_def c2(2) split: prod.splits)
  ultimately have "\<forall>p. m_RdvState (party n3 p) = RDV_CONNECTED" using assms(2) by (cases w) (simp_all add: all_bool_eq)
  moreover have "rdv_step\<^sup>*\<^sup>* n n3" using s1 s2 s3 by (meson converse_rtranclp_into_rtranclp rtranclp.rtrancl_refl)
  ultimately show ?thesis by blast
qed

text \<open>The states of the two parties bound each other.\<close>

lemma quiet_states:
  assumes "quiet w cI cR n" "m_RdvState (party n w) \<noteq> RDV_CONNECTED"
  shows "m_RdvState (party n w) = RDV_WAVING \<and> m_RdvState (party n (\<not> w)) \<in> {RDV_WAVING, RDV_ATTENTION}
    \<or> m_RdvState (party n w) \<in> {RDV_ATTENTION, RDV_FINE} \<and> m_RdvState (party n (\<not> w)) \<in> {RDV_WAVING, RDV_ATTENTION}
    \<or> m_RdvState (party n w) \<in> {RDV_ATTENTION, RDV_FINE} \<and> m_RdvState (party n (\<not> w)) \<in> {RDV_FINE, RDV_INITIATED}"
  using assms net_invD(8) [of w cI cR n] unfolding quiet_def
  by (cases "m_RdvState (party n w)"; cases "m_RdvState (party n (\<not> w))") (auto simp: proto_inv_def role_states_def)

abbreviation completes :: "rdv_net \<Rightarrow> bool" where
  "completes n \<equiv> \<exists>n'. rdv_step\<^sup>*\<^sup>* n n' \<and> (\<forall>p. m_RdvState (party n' p) = RDV_CONNECTED)"

lemma completes_later: "rdv_step\<^sup>*\<^sup>* n n' \<Longrightarrow> completes n' \<Longrightarrow> completes n"
  by (meson rtranclp_trans)

lemma complete_connected:
  assumes "quiet w cI cR n" "m_RdvState (party n w) = RDV_CONNECTED"
  shows "completes n"
proof (cases "m_RdvState (party n (\<not> w)) = RDV_CONNECTED")
  case True
  then have "\<forall>p. m_RdvState (party n p) = RDV_CONNECTED" using assms(2) by (cases w) (simp_all add: all_bool_eq)
  then show ?thesis by blast
qed (rule ask_again [OF assms])

lemma complete_answered:
  assumes "quiet w cI cR n" "m_RdvState (party n w) \<in> {RDV_ATTENTION, RDV_FINE}" "m_RdvState (party n (\<not> w)) \<in> {RDV_FINE, RDV_INITIATED}"
  shows "completes n"
proof -
  obtain n' where "rdv_step\<^sup>*\<^sup>* n n'" "quiet w cI cR n'" "m_RdvState (party n' w) = RDV_CONNECTED"
    using send_and_receive [OF assms(1), of w RDV_CONNECTED] assms(2,3) by (auto simp: role_def)
  then show ?thesis using complete_connected completes_later by blast
qed

lemma complete_requested:
  assumes "quiet w cI cR n" "m_RdvState (party n w) \<in> {RDV_ATTENTION, RDV_FINE}" "m_RdvState (party n (\<not> w)) \<in> {RDV_WAVING, RDV_ATTENTION}"
  shows "completes n"
proof -
  obtain n' where "rdv_step\<^sup>*\<^sup>* n n'" "quiet w cI cR n'" "m_RdvState (party n' (\<not> w)) \<in> {RDV_FINE, RDV_INITIATED}" "party n' w = party n w"
    using send_and_receive [OF assms(1), of "\<not> w" "if m_RdvState (party n (\<not> w)) = RDV_WAVING then RDV_FINE else RDV_INITIATED"] assms(2,3)
    by (auto simp: role_def split: if_splits)
  then show ?thesis using complete_answered [of w cI cR n'] assms(2) completes_later by metis
qed

lemma complete_noticed:
  assumes "quiet w cI cR n" "m_RdvState (party n w) = RDV_WAVING" "m_RdvState (party n (\<not> w)) = RDV_ATTENTION"
  shows "completes n"
proof -
  obtain n' where "rdv_step\<^sup>*\<^sup>* n n'" "quiet w cI cR n'" "m_RdvState (party n' w) = RDV_FINE" "party n' (\<not> w) = party n (\<not> w)"
    using send_and_receive [OF assms(1), of w RDV_FINE] assms(2,3) by (auto simp: role_def)
  then show ?thesis using complete_requested [of w cI cR n'] assms(3) completes_later by (metis insertCI)
qed

lemma complete_waving:
  assumes "quiet w cI cR n" "m_RdvState (party n w) = RDV_WAVING" "m_RdvState (party n (\<not> w)) = RDV_WAVING"
  shows "completes n"
proof -
  obtain n' where "rdv_step\<^sup>*\<^sup>* n n'" "quiet w cI cR n'" "m_RdvState (party n' (\<not> w)) = RDV_ATTENTION" "party n' w = party n w"
    using send_and_receive [OF assms(1), of "\<not> w" RDV_ATTENTION] assms(2,3) by (auto simp: role_def)
  then show ?thesis using complete_noticed [of w cI cR n'] assms(2) completes_later by metis
qed

lemma complete_quiet: "quiet w cI cR n \<Longrightarrow> completes n"
  using quiet_states [of w cI cR n] complete_connected [of w cI cR n] complete_answered [of w cI cR n]
    complete_requested [of w cI cR n] complete_noticed [of w cI cR n] complete_waving [of w cI cR n]
  by auto

lemma complete_any:
  assumes "net_inv w cI cR n"
  shows "completes n"
proof -
  obtain n' where "rdv_step\<^sup>*\<^sup>* n n'" "party n' = party n" "chan n' = (\<lambda>_. [])" using all_lost by blast
  then show ?thesis using net_steps [OF _ assms] complete_quiet [of w cI cR n'] completes_later by (auto simp: quiet_def)
qed

section \<open>Two sockets that start a rendezvous\<close>

definition rdv_sockets ::
  "(bool \<Rightarrow> 32 word) \<Rightarrow> (bool \<Rightarrow> 32 word) \<Rightarrow> (bool \<Rightarrow> 32 word) \<Rightarrow> (bool \<Rightarrow> 32 word) \<Rightarrow> (bool \<Rightarrow> 32 word)
     \<Rightarrow> (bool \<Rightarrow> 32 word list) \<Rightarrow> (bool \<Rightarrow> 32 word) \<Rightarrow> rdv_net" where
  "rdv_sockets cookie keylen mss flight ident ip isn =
     rdv_start (\<lambda>p. startConnect_rdv (cookie p) (keylen p) (mss p) (flight p) (ident p) (ip p) (isn p))"

lemma startConnect_party:
  assumes "cookie \<noteq> 0" "32 \<le> sint mss" "sint mss \<le> 1500" "2 \<le> sint flight" "0 \<le> sint isn" "sint isn < m_iMaxSeqNo"
    and "sd = HSD_INITIATOR \<or> sd = HSD_RESPONDER"
  shows "party_inv sd cookie (startConnect_rdv cookie keylen mss flight ident ip isn)"
  using assms
  by (auto simp: party_inv_def startConnect_rdv_def Let_def role_states_def msg_ok_def hs_valid_def kind_def
      HS_VERSION_SRT1_def HS_VERSION_UDT4_def ETH_MAX_MTU_SIZE_def)

text \<open>The cookies are different and not zero; the other fields are what a peer accepts.\<close>

definition rdv_params_ok :: "(bool \<Rightarrow> 32 word) \<Rightarrow> (bool \<Rightarrow> 32 word) \<Rightarrow> (bool \<Rightarrow> 32 word) \<Rightarrow> (bool \<Rightarrow> 32 word) \<Rightarrow> bool" where
  "rdv_params_ok cookie mss flight isn \<longleftrightarrow> cookie False \<noteq> cookie True
     \<and> (\<forall>p. cookie p \<noteq> 0 \<and> 32 \<le> sint (mss p) \<and> sint (mss p) \<le> 1500 \<and> 2 \<le> sint (flight p)
          \<and> 0 \<le> sint (isn p) \<and> sint (isn p) < m_iMaxSeqNo)"

lemma rdv_sockets_inv:
  assumes "rdv_params_ok cookie mss flight isn"
  shows "\<exists>w. net_inv w (cookie w) (cookie (\<not> w)) (rdv_sockets cookie keylen mss flight ident ip isn)"
proof -
  have "\<exists>w. backwardCompatibleCookieContest (cookie w) (cookie (\<not> w)) = HSD_INITIATOR"
    using contest_draw [of "cookie False" "cookie True"] contest_other_side [of "cookie True" "cookie False"] assms
    by (cases "backwardCompatibleCookieContest (cookie False) (cookie True)") (auto simp: ex_bool_eq rdv_params_ok_def)
  then obtain w where w: "backwardCompatibleCookieContest (cookie w) (cookie (\<not> w)) = HSD_INITIATOR" by blast
  have "party_inv sd (cookie p) (startConnect_rdv (cookie p) (keylen p) (mss p) (flight p) (ident p) (ip p) (isn p))"
    if "sd = HSD_INITIATOR \<or> sd = HSD_RESPONDER" for sd p
    using assms that by (intro startConnect_party) (auto simp: rdv_params_ok_def)
  then have "net_inv w (cookie w) (cookie (\<not> w)) (rdv_sockets cookie keylen mss flight ident ip isn)"
    using w by (simp add: net_inv_def rdv_sockets_def rdv_start_def chan_ok_def startConnect_rdv_def Let_def proto_init)
  then show ?thesis by blast
qed

text \<open>
  C6. Rendezvous is safe over a network that loses messages but keeps their order: whatever is lost, repeated and
  processed again, no party ever refuses the connection or leaves the protocol; once they have met, the parties have
  opposite roles; and the responder considers itself connected only when the initiator does.
\<close>

theorem rendezvous_never_refused:
  assumes "rdv_params_ok cookie mss flight isn" "rdv_step\<^sup>*\<^sup>* (rdv_sockets cookie keylen mss flight ident ip isn) n"
  shows "(\<forall>p. \<not> rejected n p \<and> m_RdvState (party n p) \<noteq> RDV_INVALID)
    \<and> (\<forall>p. m_RdvState (party n p) \<noteq> RDV_WAVING \<longrightarrow>
         m_SrtHsSide (party n p) = backwardCompatibleCookieContest (cookie p) (cookie (\<not> p)))
    \<and> (\<forall>p. m_RdvState (party n p) = RDV_CONNECTED \<and> m_SrtHsSide (party n p) = HSD_RESPONDER \<longrightarrow>
         m_RdvState (party n (\<not> p)) = RDV_CONNECTED)"
proof -
  obtain w where "net_inv w (cookie w) (cookie (\<not> w)) (rdv_sockets cookie keylen mss flight ident ip isn)"
    using rdv_sockets_inv [OF assms(1)] by blast
  then have n: "net_inv w (cookie w) (cookie (\<not> w)) n" using net_steps [OF assms(2)] by blast
  note inv = net_invD [OF n]
  have side: "m_SrtHsSide (party n p) = (if m_RdvState (party n p) = RDV_WAVING then HSD_DRAW else role w p)"
    and valid: "m_RdvState (party n p) \<noteq> RDV_INVALID" for p
    using net_party [OF n, of p] by (auto simp: party_inv_def role_states_def split: if_splits)
  have contest: "backwardCompatibleCookieContest (cookie p) (cookie (\<not> p)) = role w p" for p
    using inv(3,4) by (cases "p = w") (auto simp: role_def)
  have "m_RdvState (party n (\<not> p)) = RDV_CONNECTED" if "m_RdvState (party n p) = RDV_CONNECTED" "role w p = HSD_RESPONDER" for p
  proof -
    have "p = (\<not> w)" using that(2) by (auto simp: role_def split: if_splits)
    then show ?thesis using inv(8) that(1) by (simp add: proto_inv_def)
  qed
  with side valid contest inv(5) show ?thesis by simp
qed

text \<open>
  C14. Rendezvous does not get stuck: from every state the two sockets can reach, whatever was lost on the way, messages
  can be exchanged so that both sockets are connected.
\<close>

theorem rendezvous_can_complete:
  assumes "rdv_params_ok cookie mss flight isn" "rdv_step\<^sup>*\<^sup>* (rdv_sockets cookie keylen mss flight ident ip isn) n"
  shows "\<exists>n'. rdv_step\<^sup>*\<^sup>* n n' \<and> (\<forall>p. m_RdvState (party n' p) = RDV_CONNECTED)"
proof -
  obtain w where "net_inv w (cookie w) (cookie (\<not> w)) (rdv_sockets cookie keylen mss flight ident ip isn)"
    using rdv_sockets_inv [OF assms(1)] by blast
  then show ?thesis using net_steps [OF assms(2)] complete_any by blast
qed

text \<open>Parameters of a pair of sockets for the instances below.\<close>

definition sample_net :: rdv_net where
  "sample_net = rdv_sockets (\<lambda>p. if p then 7 else 5) (\<lambda>_. 0) (\<lambda>_. 1500) (\<lambda>_. 8192) (\<lambda>p. if p then 11 else 12) (\<lambda>_. [0, 0, 0, 0]) (\<lambda>_. 100)"

lemma sample_params: "rdv_params_ok (\<lambda>p. if p then 7 else 5) (\<lambda>_. 1500) (\<lambda>_. 8192) (\<lambda>_. 100)"
  by (simp add: rdv_params_ok_def seqno_const_defs)

theorem rendezvous_never_refused_witness:
  "\<exists>n. rdv_step sample_net n \<and> chan n True \<noteq> [] \<and> (\<forall>p. \<not> rejected n p \<and> m_RdvState (party n p) \<noteq> RDV_INVALID)"
proof -
  let ?n = "sample_net\<lparr>chan := (chan sample_net)(True := chan sample_net True @ [reqpkt (party sample_net True)])\<rparr>"
  have "rdv_step sample_net ?n"
    by (rule rdv_step.resend) (simp add: sample_net_def rdv_sockets_def rdv_start_def startConnect_rdv_def Let_def)
  with rendezvous_never_refused [OF sample_params, of "\<lambda>_. 0" "\<lambda>p. if p then 11 else 12" "\<lambda>_. [0, 0, 0, 0]" ?n]
  show ?thesis by (intro exI [of _ ?n]) (simp add: sample_net_def [symmetric] r_into_rtranclp)
qed

theorem rendezvous_can_complete_witness:
  "\<exists>n'. rdv_step\<^sup>*\<^sup>* sample_net n' \<and> (\<forall>p. m_RdvState (party n' p) = RDV_CONNECTED)"
  using rendezvous_can_complete [OF sample_params, of "\<lambda>_. 0" "\<lambda>p. if p then 11 else 12" "\<lambda>_. [0, 0, 0, 0]" sample_net]
  by (simp add: sample_net_def)

section \<open>Reordering\<close>

lemma wave_refused:
  assumes "party_inv sd c s" "m_RdvState s \<in> {RDV_FINE, RDV_INITIATED}" "msg_ok m" "kind m = KWave"
  shows "\<exists>s'. rdv_receive e s m = (CONN_REJECT, s', []) \<and> rdv_RejectReason s' = rej_code SRT_REJ_ROGUE \<and> m_RdvState s' = RDV_WAVING"
proof -
  have "m_SrtHsSide s = sd" "sd \<noteq> HSD_DRAW" using assms(1,2) by (auto simp: party_inv_def)
  moreover have "processConnectResponse_rdv e s m = (CONN_RENDEZVOUS, s\<lparr>m_ConnRes := m\<lparr>m_extension := m_extension (m_ConnRes s)\<rparr>\<rparr>, [])"
    using assms(2-4) by (intro processConnectResponse_rendezvous) auto
  ultimately show ?thesis
    using assms(2,4)
    by (auto simp: rdv_receive_def processRendezvous_def cookieContest_def rendezvousSwitchState_def Let_def kind_iff urq_defs
        URQFailure_def reject_def RejectReasonForURQ_def SRT_REJ_E_SIZE_def)
qed

text \<open>
  C35. The order matters: two sockets can get, by regular steps, to a state in which one has sent a first message and a
  conclusion that are both on the way; if these two are delivered in the wrong order, the other socket refuses the
  connection as rogue, although both behave correctly.
\<close>

theorem overtaken_wave_refuses:
  assumes "rdv_params_ok cookie mss flight isn"
  shows "\<exists>n n' p a b. rdv_step\<^sup>*\<^sup>* (rdv_sockets cookie keylen mss flight ident ip isn) n \<and> chan n (\<not> p) = [a, b]
    \<and> rdv_step\<^sup>*\<^sup>* (n\<lparr>chan := (chan n)((\<not> p) := [b, a])\<rparr>) n' \<and> rejected n' p
    \<and> rdv_RejectReason (party n' p) = rej_code SRT_REJ_ROGUE"
proof -
  let ?n0 = "rdv_sockets cookie keylen mss flight ident ip isn"
  obtain w where i0: "net_inv w (cookie w) (cookie (\<not> w)) ?n0" using rdv_sockets_inv [OF assms] by blast
  have st0: "m_RdvState (party ?n0 p) = RDV_WAVING" for p
    by (simp add: rdv_sockets_def rdv_start_def startConnect_rdv_def Let_def)
  have ch0: "chan ?n0 p = []" for p by (simp add: rdv_sockets_def rdv_start_def)
  define n1 where "n1 = ?n0\<lparr>chan := (chan ?n0)((\<not> w) := chan ?n0 (\<not> w) @ [reqpkt (party ?n0 (\<not> w))])\<rparr>"
  have s1: "rdv_step ?n0 n1" unfolding n1_def by (rule rdv_step.resend) (simp add: st0)
  define n2 where "n2 = n1\<lparr>chan := (chan n1)(w := chan n1 w @ [reqpkt (party n1 w)])\<rparr>"
  have s2: "rdv_step n1 n2" unfolding n2_def by (rule rdv_step.resend) (simp add: n1_def st0)
  have i2: "net_inv w (cookie w) (cookie (\<not> w)) n2" using net_step [OF net_step [OF i0 s1] s2] .
  define wI wR where "wI = reqpkt (party ?n0 w)" and "wR = reqpkt (party ?n0 (\<not> w))"
  have p2: "party n2 = party ?n0" "chan n2 (\<not> (\<not> w)) = [wI]" "chan n2 (\<not> w) = [wR]"
    by (simp_all add: n2_def n1_def ch0 wI_def wR_def)
  have k: "kind wI = KWave" "kind wR = KWave" "msg_ok wR"
    using party_invD(2-4) [OF net_invD(1) [OF i0]] party_invD(2-4) [OF net_invD(2) [OF i0]] st0 by (simp_all add: wI_def wR_def)
  define n3 where "n3 = deliver n2 (\<not> w) [] (rdv_receive (env_default True) (party n2 (\<not> w)) wI)"
  have s3: "rdv_step n2 n3"
    unfolding n3_def using p2 st0 env_default_good by (intro rdv_step.receive) simp_all
  have i3: "net_inv w (cookie w) (cookie (\<not> w)) n3" using net_step [OF i2 s3] .
  have a3: "m_RdvState (party n3 (\<not> w)) = RDV_ATTENTION"
    using net_receive [OF i2 p2(2), of "env_default True"] p2(1) st0 k(1) env_default_good by (simp add: n3_def)
  have p3: "party n3 w = party ?n0 w" by (auto simp: n3_def deliver_def p2(1) split: prod.splits)
  have st2: "stepped HSD_RESPONDER (cookie (\<not> w)) KWave RDV_ATTENTION (rdv_receive (env_default True) (party n2 (\<not> w)) wI)"
    using rdv_receive_step [OF env_default_good(1) _ net_invD(2) [OF i2] refl, of True wI RDV_ATTENTION] net_invD(6) [OF i2] net_invD(4) [OF i2]
      p2 st0 k(1) env_default_good(2) party_invD(1) [OF net_invD(1) [OF i2]] by (simp add: chan_ok_def)
  then have c3: "chan n3 (\<not> w) = [wR]" "chan n3 w = []"
    using p2(3) by (auto simp: n3_def deliver_def stepped_def split: prod.splits)
  define cR where "cR = reqpkt (party n3 (\<not> w))"
  define n4 where "n4 = n3\<lparr>chan := (chan n3)((\<not> w) := chan n3 (\<not> w) @ [reqpkt (party n3 (\<not> w))])\<rparr>"
  have s4: "rdv_step n3 n4" unfolding n4_def by (rule rdv_step.resend) (simp add: a3)
  have i4: "net_inv w (cookie w) (cookie (\<not> w)) n4" using net_step [OF i3 s4] .
  have c4: "chan n4 (\<not> w) = [wR, cR]" "party n4 = party n3" by (simp_all add: n4_def c3 cR_def)
  have kc: "kind cR = KConcl" using party_invD(2,3) [OF net_invD(2) [OF i3]] a3 by (simp add: cR_def)
  have okc: "msg_ok cR" "m_iCookie cR = cookie (\<not> w)" using net_invD(7) [OF i4] c4(1) kc by (simp_all add: chan_ok_def)
  define n5 where "n5 = n4\<lparr>chan := (chan n4)((\<not> w) := [cR, wR])\<rparr>"
  let ?r6 = "rdv_receive (env_default True) (party n5 w) cR"
  define n6 where "n6 = deliver n5 w [wR] ?r6"
  have p5: "party n5 w = party ?n0 w" by (simp add: n5_def c4(2) p3)
  have st6: "stepped HSD_INITIATOR (cookie w) KConcl RDV_FINE ?r6"
    using rdv_receive_step [OF env_default_good(1) _ net_invD(1) [OF i0] refl, of True cR RDV_FINE] okc kc net_invD(3) [OF i0]
      p5 st0 env_default_good(2) party_invD(1) [OF net_invD(2) [OF i0]] by simp
  have s6: "rdv_step n5 n6"
    unfolding n6_def using p5 st0 env_default_good by (intro rdv_step.receive) (simp_all add: n5_def)
  have c6: "chan n6 (\<not> w) = [wR]" by (auto simp: n6_def deliver_def split: prod.splits)
  have p6: "party_inv HSD_INITIATOR (cookie w) (party n6 w)" "m_RdvState (party n6 w) = RDV_FINE"
    using st6 by (auto simp: n6_def deliver_def stepped_def split: prod.splits)
  obtain s' where r7: "rdv_receive (env_default True) (party n6 w) wR = (CONN_REJECT, s', [])" "rdv_RejectReason s' = rej_code SRT_REJ_ROGUE"
    using wave_refused [OF p6(1) _ k(3,2)] p6(2) by blast
  define n7 where "n7 = deliver n6 w [] (rdv_receive (env_default True) (party n6 w) wR)"
  have s7: "rdv_step n6 n7"
    unfolding n7_def using c6 p6(2) env_default_good by (intro rdv_step.receive) simp_all
  have n7: "rejected n7 w" "rdv_RejectReason (party n7 w) = rej_code SRT_REJ_ROGUE" using r7 by (simp_all add: n7_def deliver_def)
  have "rdv_step\<^sup>*\<^sup>* ?n0 n4" using s1 s2 s3 s4 by (meson rtranclp.rtrancl_into_rtrancl rtranclp.rtrancl_refl)
  moreover have "rdv_step\<^sup>*\<^sup>* n5 n7" using s6 s7 by (meson rtranclp.rtrancl_into_rtrancl rtranclp.rtrancl_refl)
  ultimately show ?thesis using c4(1) n7 unfolding n5_def by blast
qed

theorem overtaken_wave_refuses_witness:
  "\<exists>n n' p a b. rdv_step\<^sup>*\<^sup>* sample_net n \<and> chan n (\<not> p) = [a, b]
    \<and> rdv_step\<^sup>*\<^sup>* (n\<lparr>chan := (chan n)((\<not> p) := [b, a])\<rparr>) n' \<and> rejected n' p
    \<and> rdv_RejectReason (party n' p) = rej_code SRT_REJ_ROGUE"
  using overtaken_wave_refuses [OF sample_params, of "\<lambda>_. 0" "\<lambda>p. if p then 11 else 12" "\<lambda>_. [0, 0, 0, 0]"]
  unfolding sample_net_def .

end
