(* ===== verification/SndFeedback.thy ===== *)
theory SndFeedback
  imports Packet SndLossList SndBuffer HsNegotiation
begin

text \<open>
  The part of \<^verbatim>\<open>CUDT\<close> (\<^verbatim>\<open>core.cpp\<close>) that hears the receiver: \<^verbatim>\<open>processCtrlAck\<close> with
  \<^verbatim>\<open>updateSndLossListOnACK\<close>, and \<^verbatim>\<open>processCtrlLossReport\<close>. The record holds the members these
  functions use, the sender buffer and the sender's loss list among them.

  What the handlers do to the outside is recorded in \<open>effects\<close>, in the order in which it is done: control packets
  handed to the channel, the request to the sending thread to take the socket up, the event for the congestion
  control, the signals to waiting threads. A control packet is its header, the words of the buffer behind
  \<^verbatim>\<open>m_pcData\<close> in host byte order and its length in bytes; the buffer may be longer than the packet. A word read outside the buffer,
  and signed 32-bit arithmetic that leaves its range, make the result \<open>None\<close>. Bonding is off.
\<close>

unbundle bit_operations_syntax

section \<open>State\<close>

record ctrl_packet =
  cp_header :: header
  cp_data :: "32 word list"
  cp_length :: nat

datatype ETransmissionEvent = TEV_ACK int | TEV_ACKACK int | TEV_LOSSREPORT "32 word list" | TEV_SEND packet

datatype srt_errno = SRT_ESECFAIL | SRT_ECONNLOST

datatype core_effect =
    Sent UDTMessageType "int option" "int list"
  | Snd_update
  | Update_CC ETransmissionEvent
  | Poll_out
  | Notify_send
  | Broken_dependencies srt_errno
  | Send_HSREQ

record snd_core =
  m_pSndBuffer :: snd_buffer
  m_pSndLossList :: snd_loss_list
  m_iSndCurrSeqNo :: int
  m_iSndLastAck :: int
  m_iSndLastDataAck :: int
  m_iSndLastFullAck :: int
  m_iSndLastAck2 :: int
  m_SndLastAck2Time :: int
  m_iFlowWindowSize :: int
  m_iCongestionWindow :: int
  m_tsLastRspAckTime :: int
  m_iReXmitCount :: int
  m_iSRTT :: int
  m_iRTTVar :: int
  m_bIsFirstRTTReceived :: bool
  m_iBandwidth :: int
  m_iDeliveryRate :: int
  m_iByteDeliveryRate :: int
  m_iMaxPayload :: int
  m_bSynSending :: bool
  m_bBroken :: bool
  m_bClosing :: bool
  m_iBrokenCounter :: int
  sndDuration :: int
  sndDurationTotal :: int
  sndDurationCounter :: int
  stat_rcvr_recvd :: int
  stat_sndr_lost :: int
  stat_sndr_recvdAck :: int
  stat_sndr_recvdNak :: int
  effects :: "core_effect list"

definition effect :: "core_effect \<Rightarrow> snd_core \<Rightarrow> snd_core" where
  "effect e c = c\<lparr>effects := effects c @ [e]\<rparr>"

text \<open>\<^verbatim>\<open>m_bBroken = true\<close> with \<^verbatim>\<open>updateBrokenConnection\<close> and \<^verbatim>\<open>completeBrokenConnectionDependencies\<close>.\<close>

definition break_connection :: "snd_core \<Rightarrow> snd_core" where
  "break_connection c = effect (Broken_dependencies SRT_ESECFAIL) (c\<lparr>m_bBroken := True, m_iBrokenCounter := 0, m_bClosing := True\<rparr>)"

section \<open>Arithmetic\<close>

definition int32 :: "int \<Rightarrow> int option" where
  "int32 x = (if in_int32 x then Some x else None)"

text \<open>\<^verbatim>\<open>CSeqNo::seqcmp\<close> on values that need not be sequence numbers: the difference may not fit.\<close>

definition seqcmp_int :: "int \<Rightarrow> int \<Rightarrow> int option" where
  "seqcmp_int a b = do { _ \<leftarrow> int32 (a - b); Some (seqcmp a b) }"

text \<open>\<^verbatim>\<open>avg_iir\<close> at \<^verbatim>\<open>int\<close>: the length is a \<^verbatim>\<open>size_t\<close>, so the average is computed unsigned with 64 bits.\<close>

definition avg_iir_int :: "64 word \<Rightarrow> int \<Rightarrow> int \<Rightarrow> int" where
  "avg_iir_int DEPRLEN old_value new_value =
     sint (ucast ((word_of_int old_value * (DEPRLEN - 1) + word_of_int new_value) div DEPRLEN) :: 32 word)"

definition getFlightSpan :: "snd_core \<Rightarrow> int" where
  "getFlightSpan c = seqlen (m_iSndLastAck c) (incseq (m_iSndCurrSeqNo c)) - 1"

section \<open>Acknowledgements\<close>

definition updateSndLossListOnACK :: "int \<Rightarrow> snd_core \<Rightarrow> int \<Rightarrow> snd_core option" where
  "updateSndLossListOnACK now c ackdata_seqno =
     (let offset = seqoff (m_iSndLastDataAck c) ackdata_seqno
      in if offset \<le> 0 then Some c
         else do { l \<leftarrow> sl_removeUpTo (m_pSndLossList c) (decseq ackdata_seqno);
                   b \<leftarrow> ackData (m_pSndBuffer c) offset;
                   Some (c\<lparr>m_iSndLastDataAck := ackdata_seqno, m_pSndLossList := l, m_pSndBuffer := b,
                           sndDuration := sndDuration c + (now - sndDurationCounter c),
                           sndDurationTotal := sndDurationTotal c + (now - sndDurationCounter c),
                           sndDurationCounter := now,
                           effects := effects c @ [Poll_out, Snd_update] @ (if m_bSynSending c then [Notify_send] else [])\<rparr>) })"

definition ACKD_RCVLASTACK :: int where "ACKD_RCVLASTACK = 0"
definition ACKD_RTT :: int where "ACKD_RTT = 1"
definition ACKD_RTTVAR :: int where "ACKD_RTTVAR = 2"
definition ACKD_BUFFERLEFT :: int where "ACKD_BUFFERLEFT = 3"
definition ACKD_TOTAL_SIZE_SMALL :: nat where "ACKD_TOTAL_SIZE_SMALL = 4"
definition ACKD_RCVSPEED :: int where "ACKD_RCVSPEED = 4"
definition ACKD_BANDWIDTH :: int where "ACKD_BANDWIDTH = 5"
definition ACKD_TOTAL_SIZE_UDTBASE :: nat where "ACKD_TOTAL_SIZE_UDTBASE = 6"
definition ACKD_RCVRATE :: int where "ACKD_RCVRATE = 6"
definition ACKD_TOTAL_SIZE_VER101 :: nat where "ACKD_TOTAL_SIZE_VER101 = 7"
definition ACKD_XMRATE_VER102_ONLY :: int where "ACKD_XMRATE_VER102_ONLY = 7"
definition ACKD_TOTAL_SIZE_VER102_ONLY :: nat where "ACKD_TOTAL_SIZE_VER102_ONLY = 8"
definition ACKD_FIELD_SIZE :: nat where "ACKD_FIELD_SIZE = 4"
definition SEND_LITE_ACK :: nat where "SEND_LITE_ACK = 4"
definition COMM_SYN_INTERVAL_US :: int where "COMM_SYN_INTERVAL_US = 10 * 1000"
definition INITIAL_RTT :: int where "INITIAL_RTT = 10 * COMM_SYN_INTERVAL_US"
definition INITIAL_RTTVAR :: int where "INITIAL_RTTVAR = INITIAL_RTT div 2"

lemmas ackd_defs = ACKD_RCVLASTACK_def ACKD_RTT_def ACKD_RTTVAR_def ACKD_BUFFERLEFT_def ACKD_TOTAL_SIZE_SMALL_def
  ACKD_RCVSPEED_def ACKD_BANDWIDTH_def ACKD_TOTAL_SIZE_UDTBASE_def ACKD_RCVRATE_def ACKD_TOTAL_SIZE_VER101_def
  ACKD_XMRATE_VER102_ONLY_def ACKD_TOTAL_SIZE_VER102_ONLY_def ACKD_FIELD_SIZE_def SEND_LITE_ACK_def
  COMM_SYN_INTERVAL_US_def INITIAL_RTT_def INITIAL_RTTVAR_def

definition ackdata :: "ctrl_packet \<Rightarrow> int \<Rightarrow> int option" where
  "ackdata p i = map_option sint (rd (cp_data p) i)"

text \<open>The branch for a lite ACK.\<close>

definition lite_ack :: "int \<Rightarrow> snd_core \<Rightarrow> int \<Rightarrow> snd_core" where
  "lite_ack currtime c ack =
     (if seqcmp ack (m_iSndLastAck c) \<ge> 0
      then c\<lparr>m_iFlowWindowSize := m_iFlowWindowSize c - seqoff (m_iSndLastAck c) ack, m_iSndLastAck := ack,
             m_tsLastRspAckTime := currtime, m_iReXmitCount := 1\<rparr>
      else c)"

text \<open>The decision to send an ACKACK.\<close>

definition answer_ack :: "int \<Rightarrow> snd_core \<Rightarrow> int \<Rightarrow> snd_core" where
  "answer_ack currtime c ack_seqno =
     (if currtime - m_SndLastAck2Time c > COMM_SYN_INTERVAL_US \<or> ack_seqno = m_iSndLastAck2 c
      then effect (Sent UMSG_ACKACK (Some ack_seqno) []) c\<lparr>m_iSndLastAck2 := ack_seqno, m_SndLastAck2Time := currtime\<rparr>
      else c)"

text \<open>The flow window and the last ACK, moved together.\<close>

definition move_window :: "int \<Rightarrow> snd_core \<Rightarrow> ctrl_packet \<Rightarrow> int \<Rightarrow> snd_core option" where
  "move_window currtime c p ack =
     (if seqcmp ack (m_iSndLastAck c) \<ge> 0
      then do { left \<leftarrow> ackdata p ACKD_BUFFERLEFT;
                let bWasStuck = min (m_iFlowWindowSize c) (m_iCongestionWindow c) \<le> getFlightSpan c;
                    c1 = c\<lparr>m_iFlowWindowSize := left, m_iSndLastAck := ack, m_tsLastRspAckTime := currtime, m_iReXmitCount := 1\<rparr>
                in Some (if bWasStuck \<and> min (m_iFlowWindowSize c1) (m_iCongestionWindow c1) > getFlightSpan c1
                         then effect Snd_update c1 else c1) }
      else Some c)"

definition take_rtt :: "snd_core \<Rightarrow> int \<Rightarrow> int \<Rightarrow> snd_core option" where
  "take_rtt c rtt rttvar =
     (if m_bIsFirstRTTReceived c
      then (if stat_rcvr_recvd c \<noteq> 0
            then (if rtt \<noteq> INITIAL_RTT \<or> rttvar \<noteq> INITIAL_RTTVAR
                  then do { d \<leftarrow> int32 (rtt - m_iSRTT c); a \<leftarrow> int32 \<bar>d\<bar>;
                            Some (c\<lparr>m_iRTTVar := avg_iir_int 4 (m_iRTTVar c) a, m_iSRTT := avg_iir_int 8 (m_iSRTT c) rtt\<rparr>) }
                  else Some c)
            else Some (c\<lparr>m_iSRTT := rtt, m_iRTTVar := rttvar\<rparr>))
      else if rtt \<noteq> INITIAL_RTT \<and> rttvar \<noteq> INITIAL_RTTVAR
           then Some (c\<lparr>m_iSRTT := rtt, m_iRTTVar := rttvar, m_bIsFirstRTTReceived := True\<rparr>)
           else Some c)"

definition take_rates :: "snd_core \<Rightarrow> ctrl_packet \<Rightarrow> nat \<Rightarrow> snd_core option" where
  "take_rates c p acksize =
     (if acksize > ACKD_TOTAL_SIZE_SMALL
      then do { pktps \<leftarrow> ackdata p ACKD_RCVSPEED;
                bandwidth \<leftarrow> ackdata p ACKD_BANDWIDTH;
                bytesps \<leftarrow> (if acksize > ACKD_TOTAL_SIZE_UDTBASE then ackdata p ACKD_RCVRATE else int32 (pktps * m_iMaxPayload c));
                Some (c\<lparr>m_iBandwidth := avg_iir_int 8 (m_iBandwidth c) bandwidth,
                        m_iDeliveryRate := avg_iir_int 8 (m_iDeliveryRate c) pktps,
                        m_iByteDeliveryRate := avg_iir_int 8 (m_iByteDeliveryRate c) bytesps\<rparr>) }
      else Some c)"

text \<open>What follows when the ACK is full and not a repetition.\<close>

definition full_ack :: "snd_core \<Rightarrow> ctrl_packet \<Rightarrow> int \<Rightarrow> snd_core option" where
  "full_ack c p ack =
     (let acksize = cp_length p div ACKD_FIELD_SIZE
      in if acksize < ACKD_TOTAL_SIZE_SMALL then Some c
         else do { rtt \<leftarrow> ackdata p ACKD_RTT;
                   rttvar \<leftarrow> ackdata p ACKD_RTTVAR;
                   c1 \<leftarrow> take_rtt c rtt rttvar;
                   c2 \<leftarrow> take_rates c1 p acksize;
                   Some (effect (Update_CC (TEV_ACK ack)) c2\<lparr>stat_sndr_recvdAck := stat_sndr_recvdAck c2 + 1\<rparr>) })"

definition processCtrlAck :: "int \<Rightarrow> int \<Rightarrow> snd_core \<Rightarrow> ctrl_packet \<Rightarrow> snd_core option" where
  "processCtrlAck now currtime c p =
     do { ack \<leftarrow> ackdata p ACKD_RCVLASTACK;
          if ack < 0 then Some c
          else do {
            c1 \<leftarrow> updateSndLossListOnACK now c ack;
            if cp_length p = SEND_LITE_ACK then Some (lite_ack currtime c1 ack)
            else let c2 = answer_ack currtime c1 (sint (getAckSeqNo (cp_header p)))
                 in if seqcmp ack (incseq (m_iSndCurrSeqNo c2)) > 0 then Some (break_connection c2)
                    else do { c3 \<leftarrow> move_window currtime c2 p ack;
                              if seqoff (m_iSndLastFullAck c3) ack \<le> 0 then Some c3
                              else full_ack (c3\<lparr>m_iSndLastFullAck := ack\<rparr>) p ack } } }"

section \<open>Loss reports\<close>

definition RANGE_FIRST :: "32 word" where
  "RANGE_FIRST = BitsetMask 31 31"

definition add_lost :: "snd_core \<Rightarrow> int \<Rightarrow> int \<Rightarrow> snd_core option" where
  "add_lost c lo hi =
     do { (num, l) \<leftarrow> sl_insert (m_pSndLossList c) lo hi;
          Some (c\<lparr>m_pSndLossList := l, stat_sndr_lost := stat_sndr_lost c + num\<rparr>) }"

definition drop_request :: "snd_core \<Rightarrow> int \<Rightarrow> int \<Rightarrow> snd_core" where
  "drop_request c lo hi = effect (Sent UMSG_DROPREQ (Some 0) [lo, hi]) c"

text \<open>A range that passed the checks: the part from the last ACK on is lost, the part before it is answered.\<close>

definition lost_range :: "snd_core \<Rightarrow> int \<Rightarrow> int \<Rightarrow> snd_core option" where
  "lost_range c lo hi =
     do { d \<leftarrow> seqcmp_int lo (m_iSndLastAck c);
          if d \<ge> 0 then add_lost c lo hi
          else do { e \<leftarrow> seqcmp_int hi (m_iSndLastAck c);
                    if e \<ge> 0
                    then do { c1 \<leftarrow> add_lost c (m_iSndLastAck c) hi; Some (drop_request c1 lo (decseq (m_iSndLastAck c))) }
                    else Some (drop_request c lo hi) } }"

fun loss_loop :: "32 word list \<Rightarrow> snd_core \<Rightarrow> (bool \<times> snd_core) option" where
  "loss_loop [] c = Some (True, c)"
| "loss_loop (w # ws) c =
     (if IsSet w RANGE_FIRST
      then (case ws of
              [] \<Rightarrow> Some (False, c)
            | h # ws' \<Rightarrow>
                do { let lo = sint (Bits_unwrap 30 0 w);
                     let hi = sint h;
                     d \<leftarrow> seqcmp_int lo hi;
                     if d > 0 then Some (False, c)
                     else do { e \<leftarrow> seqcmp_int hi (m_iSndCurrSeqNo c);
                               if e > 0 then Some (False, c)
                               else do { c' \<leftarrow> lost_range c lo hi; loss_loop ws' c' } } })
      else do { d \<leftarrow> seqcmp_int (sint w) (m_iSndLastAck c);
                if d \<ge> 0
                then do { e \<leftarrow> seqcmp_int (sint w) (m_iSndCurrSeqNo c);
                          if e > 0 then Some (False, c)
                          else do { c' \<leftarrow> add_lost c (sint w) (sint w); loss_loop ws c' } }
                else loss_loop ws (drop_request c (sint w) (sint w)) })"

definition processCtrlLossReport :: "snd_core \<Rightarrow> ctrl_packet \<Rightarrow> snd_core option" where
  "processCtrlLossReport c p =
     (let losslist_len = cp_length p div 4
      in if length (cp_data p) < losslist_len then None
         else do { (secure, c1) \<leftarrow> loss_loop (take losslist_len (cp_data p)) c;
                   let c2 = effect (Update_CC (TEV_LOSSREPORT (take losslist_len (cp_data p)))) c1
                   in Some (if \<not> secure then break_connection c2
                            else effect Snd_update c2\<lparr>stat_sndr_recvdNak := stat_sndr_recvdNak c2 + 1\<rparr>) })"

end
