(* ===== verification/RcvFeedback.thy ===== *)
theory RcvFeedback
  imports SndFeedback RcvBuffer RcvLossList AckWindow FreshLoss
begin

text \<open>
  The part of \<^verbatim>\<open>CUDT\<close> (\<^verbatim>\<open>core.cpp\<close>) that answers the sender: \<^verbatim>\<open>sendCtrlAck\<close> with
  \<^verbatim>\<open>getFirstNoncontSequence\<close>, \<^verbatim>\<open>processCtrlAckAck\<close>, \<^verbatim>\<open>processCtrlDropReq\<close> and
  \<^verbatim>\<open>dropFromLossLists\<close>. The record holds the members they use: the receiver buffer, the receiver's loss list, the
  fresh losses and the ACK window among them. The readings of the clock inside one call are one argument, and so are the
  rates measured by \<^verbatim>\<open>m_RcvTimeWindow\<close>. Effects are recorded as on the sending side. Bonding is off.
\<close>

section \<open>State\<close>

datatype rcv_effect =
    R_Sent UDTMessageType "int option" "int list"
  | R_Update_CC ETransmissionEvent
  | Notify_tsbpd
  | Notify_recv
  | Poll_in

record rcv_core =
  m_pRcvBuffer :: rcv_buffer
  m_pRcvLossList :: rcv_loss_list
  m_FreshLoss :: "fresh_loss list"
  m_ACKWindow :: ack_window
  m_iRcvCurrSeqNo :: int
  m_iRcvLastAck :: int
  m_iRcvLastAckAck :: int
  m_iAckSeqNo :: int
  m_bBufferWasFull :: bool
  m_tsLastAckTime :: int
  m_tdACKInterval :: int
  rc_iSRTT :: int
  rc_iRTTVar :: int
  rc_bIsFirstRTTReceived :: bool
  rc_uPeerSrtVersion :: "32 word"
  rc_iMaxPayload :: int
  rc_bTSBPD :: bool
  rc_bMessageAPI :: bool
  rc_bSynRecving :: bool
  rc_bDriftTracer :: bool
  rc_bTsbPd :: bool
  rc_bTLPktDrop :: bool
  rc_bTsbPdNeedsWakeup :: bool
  rc_bPeerRexmitFlag :: bool
  m_iReorderTolerance :: int
  stat_rcvr_sentAck :: int
  stat_rcvr_dropped :: int
  rc_effects :: "rcv_effect list"

definition r_effect :: "rcv_effect \<Rightarrow> rcv_core \<Rightarrow> rcv_core" where
  "r_effect e c = c\<lparr>rc_effects := rc_effects c @ [e]\<rparr>"

definition getAvailRcvBufferSizeNoLock :: "rcv_core \<Rightarrow> int" where
  "getAvailRcvBufferSizeNoLock c = getAvailSize (m_pRcvBuffer c) (m_iRcvLastAck c)"

section \<open>Acknowledging\<close>

definition getFirstNoncontSequence :: "rcv_core \<Rightarrow> int option" where
  "getFirstNoncontSequence c =
     (if rc_bTSBPD c \<or> \<not> rc_bMessageAPI c
      then let w_seq = getFirstNonreadSeqNo (m_pRcvBuffer c); iNextSeqNo = incseq (m_iRcvCurrSeqNo c)
           in Some (if seqcmp w_seq iNextSeqNo > 0 then iNextSeqNo else w_seq)
      else do { seq \<leftarrow> rl_getFirstLostSeq (m_pRcvLossList c);
                Some (if seq \<noteq> SRT_SEQNO_NONE then seq else incseq (m_iRcvCurrSeqNo c)) })"

text \<open>What waits for acknowledged data is told of it.\<close>

definition signal_reader :: "int \<Rightarrow> rcv_core \<Rightarrow> rcv_core option" where
  "signal_reader now c =
     (if rc_bTsbPd c then Some (if rc_bTsbPdNeedsWakeup c then r_effect Notify_tsbpd c else c)
      else do { ready \<leftarrow> isRcvDataReady (m_pRcvBuffer c) now;
                Some (if ready then r_effect Poll_in (if rc_bSynRecving c then r_effect Notify_recv c else c) else c) })"

text \<open>The words of a full ACK behind the first four; \<open>rates\<close> are the packets and bytes per second and the bandwidth.\<close>

definition ack_rates :: "rcv_core \<Rightarrow> int \<times> int \<times> int \<Rightarrow> int list option" where
  "ack_rates c rates =
     (case rates of (speed, rcvRate, bandwidth) \<Rightarrow>
        if rc_uPeerSrtVersion c = SrtVersion 1 0 2
        then do { x \<leftarrow> int32 (bandwidth * rc_iMaxPayload c); Some [speed, bandwidth, rcvRate, x] }
        else if rc_uPeerSrtVersion c \<ge> SrtVersion 1 0 3 then Some [speed, bandwidth, rcvRate]
        else Some [speed, bandwidth])"

definition send_full_ack :: "int \<Rightarrow> int \<times> int \<times> int \<Rightarrow> rcv_core \<Rightarrow> rcv_core option" where
  "send_full_ack now rates c =
     (let left = to_int32 (getAvailRcvBufferSizeNoLock c);
          c1 = c\<lparr>m_iAckSeqNo := incack (m_iAckSeqNo c), m_bBufferWasFull := (left = 0)\<rparr>;
          small = [m_iRcvLastAck c1, rc_iSRTT c1, rc_iRTTVar c1, left]
      in do { (c2, words) \<leftarrow>
                (if now - m_tsLastAckTime c1 > m_tdACKInterval c1
                 then do { more \<leftarrow> ack_rates c1 rates; Some (c1\<lparr>m_tsLastAckTime := now\<rparr>, small @ more) }
                 else Some (c1, small));
              w \<leftarrow> aw_store now (m_ACKWindow c2) (m_iAckSeqNo c2) (m_iRcvLastAck c2);
              Some (r_effect (R_Sent UMSG_ACK (Some (m_iAckSeqNo c2)) words)
                (c2\<lparr>m_ACKWindow := w, stat_rcvr_sentAck := stat_rcvr_sentAck c2 + 1\<rparr>)) })"

definition sendCtrlAck :: "int \<Rightarrow> int \<times> int \<times> int \<Rightarrow> nat \<Rightarrow> rcv_core \<Rightarrow> rcv_core option" where
  "sendCtrlAck now rates sz c =
     (let bNeedFullAck = (m_bBufferWasFull c \<and> getAvailRcvBufferSizeNoLock c > 0)
      in do { ack \<leftarrow> getFirstNoncontSequence c;
              if m_iRcvLastAckAck c = ack \<and> \<not> bNeedFullAck then Some c
              else if sz = SEND_LITE_ACK \<and> \<not> bNeedFullAck then Some (r_effect (R_Sent UMSG_ACK None [ack]) c)
              else do {
                (go_on, c1) \<leftarrow>
                  (if seqcmp ack (m_iRcvLastAck c) > 0
                   then do { c' \<leftarrow> signal_reader now (c\<lparr>m_iRcvLastAck := ack\<rparr>); Some (True, c') }
                   else if ack = m_iRcvLastAck c \<and> \<not> bNeedFullAck
                   then Some (\<not> (now - m_tsLastAckTime c < rc_iSRTT c + 4 * rc_iRTTVar c), c)
                   else Some (bNeedFullAck, c));
                if \<not> go_on then Some c1
                else if seqcmp (m_iRcvLastAck c1) (m_iRcvLastAckAck c1) > 0 \<or> bNeedFullAck then send_full_ack now rates c1
                else Some c1 } })"

section \<open>Hearing of an acknowledgement\<close>

definition ackack_rtt :: "rcv_core \<Rightarrow> int \<Rightarrow> rcv_core option" where
  "ackack_rtt c rtt =
     (if rc_bIsFirstRTTReceived c
      then do { d \<leftarrow> int32 (rtt - rc_iSRTT c); a \<leftarrow> int32 \<bar>d\<bar>;
                Some (c\<lparr>rc_iRTTVar := avg_iir_int 4 (rc_iRTTVar c) a, rc_iSRTT := avg_iir_int 8 (rc_iSRTT c) rtt\<rparr>) }
      else Some (c\<lparr>rc_iSRTT := rtt, rc_iRTTVar := rtt sdiv 2, rc_bIsFirstRTTReceived := True\<rparr>))"

definition processCtrlAckAck :: "int \<Rightarrow> rcv_core \<Rightarrow> ctrl_packet \<Rightarrow> rcv_core option" where
  "processCtrlAckAck tsArrival c p =
     do { (rtt, r_ack, w) \<leftarrow> aw_acknowledge tsArrival (m_ACKWindow c) (sint (getAckSeqNo (cp_header p)));
          let ack = (case r_ack of None \<Rightarrow> 0 | Some a \<Rightarrow> a);
          let c0 = c\<lparr>m_ACKWindow := w\<rparr>;
          if rtt \<le> 0 then Some c0
          else do {
            c1 \<leftarrow> ackack_rtt c0 rtt;
            let c2 = r_effect (R_Update_CC (TEV_ACKACK ack)) c1;
            let c3 = (if rc_bDriftTracer c2
                      then c2\<lparr>m_pRcvBuffer := snd (addRcvTsbPdDriftSample (m_pRcvBuffer c2) (getMsgTimeStamp (cp_header p)) tsArrival rtt)\<rparr>
                      else c2);
            Some (if seqcmp ack (m_iRcvLastAckAck c3) > 0 then c3\<lparr>m_iRcvLastAckAck := ack\<rparr> else c3) } }"

section \<open>Giving packets up\<close>

text \<open>The loop of \<^verbatim>\<open>dropFromLossLists\<close> over the fresh losses: records at the front go as long as they are covered.\<close>

fun drop_fresh :: "fresh_loss list \<Rightarrow> int \<Rightarrow> int \<Rightarrow> fresh_loss list" where
  "drop_fresh [] from to = []"
| "drop_fresh (l # ls) from to =
     (case revoke_range l from to of
        (DELETE, _) \<Rightarrow> drop_fresh ls from to
      | (_, l') \<Rightarrow> l' # ls)"

definition dropFromLossLists :: "rcv_core \<Rightarrow> int \<Rightarrow> int \<Rightarrow> rcv_core option" where
  "dropFromLossLists c from to =
     do { l \<leftarrow> (if from = SRT_SEQNO_NONE then map_option snd (rl_removeUpTo (m_pRcvLossList c) to)
                else map_option snd (rl_remove_range (m_pRcvLossList c) from to));
          let c1 = c\<lparr>m_pRcvLossList := l\<rparr>
          in Some (if \<not> rc_bPeerRexmitFlag c1 \<or> m_iReorderTolerance c1 = 0 then c1
                   else c1\<lparr>m_FreshLoss := drop_fresh (m_FreshLoss c1) from to\<rparr>) }"

definition processCtrlDropReq :: "rcv_core \<Rightarrow> ctrl_packet \<Rightarrow> rcv_core option" where
  "processCtrlDropReq c p =
     (if cp_length p < 8 then Some c
      else do {
        lo \<leftarrow> ackdata p 0;
        hi \<leftarrow> ackdata p 1;
        c1 \<leftarrow> (if \<not> rc_bTLPktDrop c \<or> \<not> rc_bTsbPd c
               then do { (iDropCnt, b) \<leftarrow> dropMessage (m_pRcvBuffer c) lo hi (uint (getMsgSeq (cp_header p) (rc_bPeerRexmitFlag c))) KEEP_EXISTING;
                         Some (c\<lparr>m_pRcvBuffer := b, stat_rcvr_dropped := stat_rcvr_dropped c + (if iDropCnt > 0 then iDropCnt else 0)\<rparr>) }
               else Some c);
        c2 \<leftarrow> dropFromLossLists (if rc_bTsbPd c1 then r_effect Notify_tsbpd c1 else c1) lo hi;
        Some (if seqcmp lo (incseq (m_iRcvCurrSeqNo c2)) \<le> 0 \<and> seqcmp hi (m_iRcvCurrSeqNo c2) > 0
              then c2\<lparr>m_iRcvCurrSeqNo := hi\<rparr> else c2) })"

end
