(* ===== verification/LossReport.thy ===== *)
theory LossReport
  imports SndFeedback SndLossSpec RcvLossSpec
begin

text \<open>
  Loss reports from end to end: what \<^verbatim>\<open>getLossArray\<close> writes on the receiving side is what
  \<^verbatim>\<open>processCtrlLossReport\<close> reads on the sending side. \<open>heard\<close> says in terms of unwrapped numbers what a
  report means to a sender that has sent up to \<open>cur\<close> and got acknowledged everything before \<open>la\<close>:
  which packets it has to send again, which ranges it answers with a drop request, and whether the report
  is refused.
\<close>

section \<open>Words of a report\<close>

definition report_words :: "ranges \<Rightarrow> 32 word list" where
  "report_words rs = map word_of_int (concat (map loss_word rs))"

lemma IsSet_range_first: "IsSet w RANGE_FIRST \<longleftrightarrow> bit w 31"
proof -
  have "IsSet w RANGE_FIRST \<longleftrightarrow> (\<forall>n < 32. 31 \<le> n \<longrightarrow> bit w n)"
    unfolding IsSet_def RANGE_FIRST_def bit_eq_iff by (auto simp: bit_simps bit_BitsetMask)
  also have "\<dots> \<longleftrightarrow> bit w 31" by (metis eq_iff less_Suc_eq_le numeral_eq_Suc pred_numeral_simps(2,3) semiring_norm(26,27) lessI)
  finally show ?thesis .
qed

lemma unwrap_seqno: "Bits_unwrap 30 0 w = take_bit 31 w"
  by (rule bit_word_eqI) (auto simp: bit_Bits_unwrap bit_simps)

lemma bit_31_sint: "bit w 31 \<longleftrightarrow> sint (w :: 32 word) < 0"
  using bit_last_iff [of w] by simp

lemma word_wrapseq: "\<not> bit (word_of_int (wrapseq n) :: 32 word) 31" "sint (word_of_int (wrapseq n) :: 32 word) = wrapseq n"
proof -
  show s: "sint (word_of_int (wrapseq n) :: 32 word) = wrapseq n"
    using wrapseq_bounds [of n] by (simp add: seqno_const_defs int_word_sint)
  then show "\<not> bit (word_of_int (wrapseq n) :: 32 word) 31" using wrapseq_bounds [of n] by (simp add: bit_31_sint)
qed

lemma word_range_first:
  "bit (word_of_int (wrapseq n + LOSSDATA_SEQNO_RANGE_FIRST) :: 32 word) 31"
  "sint (Bits_unwrap 30 0 (word_of_int (wrapseq n + LOSSDATA_SEQNO_RANGE_FIRST))) = wrapseq n"
proof -
  let ?w = "word_of_int (wrapseq n + LOSSDATA_SEQNO_RANGE_FIRST) :: 32 word"
  have b: "0 \<le> wrapseq n" "wrapseq n < 2 ^ 31" using wrapseq_bounds [of n] by (simp_all add: seqno_const_defs)
  then have s: "sint ?w = wrapseq n - 2 ^ 31"
    unfolding int_word_sint by (simp add: LOSSDATA_SEQNO_RANGE_FIRST_def)
  then show "bit ?w 31" using b by (simp add: bit_31_sint)
  have "take_bit 31 ?w = word_of_int (take_bit 31 (wrapseq n + LOSSDATA_SEQNO_RANGE_FIRST))"
    by (simp only: take_bit_of_int [symmetric])
  moreover have "take_bit 31 (wrapseq n + LOSSDATA_SEQNO_RANGE_FIRST) = wrapseq n"
    using b by (simp add: take_bit_eq_mod LOSSDATA_SEQNO_RANGE_FIRST_def)
  ultimately show "sint (Bits_unwrap 30 0 ?w) = wrapseq n" by (simp add: unwrap_seqno word_wrapseq)
qed

section \<open>What a report means\<close>

fun heard :: "int \<Rightarrow> int \<Rightarrow> ranges \<Rightarrow> bool \<times> int set \<times> ranges" where
  "heard la cur [] = (True, {}, [])"
| "heard la cur ((a, b) # rs) =
     (if b < a \<or> cur < b then (False, {}, [])
      else let (ok, T, ds) = heard la cur rs
           in (ok, {max a la..b} \<union> T, (if a < la then [(a, min b (la - 1))] else []) @ ds))"

text \<open>Numbers close enough together for the circular comparison.\<close>

definition comparable :: "int \<Rightarrow> int \<Rightarrow> int \<times> int \<Rightarrow> bool" where
  "comparable la cur r \<longleftrightarrow> \<bar>fst r - snd r\<bar> < m_iSeqNoTH \<and> \<bar>fst r - la\<bar> < m_iSeqNoTH \<and> \<bar>snd r - la\<bar> < m_iSeqNoTH
     \<and> \<bar>fst r - cur\<bar> < m_iSeqNoTH \<and> \<bar>snd r - cur\<bar> < m_iSeqNoTH"

definition loss_inv :: "snd_core \<Rightarrow> int \<Rightarrow> int \<Rightarrow> int set \<Rightarrow> bool" where
  "loss_inv c la cur S \<longleftrightarrow> m_iSndLastAck c = wrapseq la \<and> m_iSndCurrSeqNo c = wrapseq cur \<and> la \<le> cur + 1
     \<and> sl_abs (m_pSndLossList c) S \<and> cur + 2 - sl_iSize (m_pSndLossList c) \<le> la
     \<and> S \<subseteq> {cur + 2 - sl_iSize (m_pSndLossList c)..cur}"

definition requests :: "ranges \<Rightarrow> core_effect list" where
  "requests ds = map (\<lambda>(a, b). Sent UMSG_DROPREQ (Some 0) [wrapseq a, wrapseq b]) ds"

text \<open>What a report has changed when it has been read: the loss list, the count of lost packets, the requests sent.\<close>

definition report_done :: "snd_core \<Rightarrow> snd_core \<Rightarrow> int set \<Rightarrow> int set \<Rightarrow> ranges \<Rightarrow> bool" where
  "report_done c c' S T ds \<longleftrightarrow> (\<exists>l. sl_abs l (S \<union> T) \<and> sl_iSize l = sl_iSize (m_pSndLossList c)
     \<and> c' = c\<lparr>m_pSndLossList := l, stat_sndr_lost := stat_sndr_lost c + int (card (T - S)), effects := effects c @ requests ds\<rparr>)"

lemma seqcmp_int_wrapseq: "seqcmp_int (wrapseq a) (wrapseq b) = Some (seqcmp (wrapseq a) (wrapseq b))"
  using wrapseq_bounds [of a] wrapseq_bounds [of b] by (simp add: seqcmp_int_def int32_def in_int32_def seqno_const_defs)

lemma add_lost_done:
  assumes "loss_inv c la cur S" "la \<le> a" "a \<le> b" "b \<le> cur"
  shows "\<exists>c'. add_lost c (wrapseq a) (wrapseq b) = Some c' \<and> report_done c c' S {a..b} []"
proof -
  let ?l = "m_pSndLossList c"
  have i: "sl_abs ?l S" "cur + 2 - sl_iSize ?l \<le> la" "S \<subseteq> {cur + 2 - sl_iSize ?l..cur}" using assms(1) by (auto simp: loss_inv_def)
  have f: "\<forall>m \<in> S. \<bar>a - m\<bar> < sl_iSize ?l \<and> \<bar>b - m\<bar> < sl_iSize ?l" using i(2,3) assms(2-4) by (fastforce simp: abs_if)
  have z: "b - a + 1 < sl_iSize ?l" using i(2) assms(2-4) by linarith
  from sl_insert_correct [OF i(1) assms(3) z f] show ?thesis
    by (fastforce simp: add_lost_def report_done_def requests_def)
qed

lemma loss_inv_done: "loss_inv c la cur S \<Longrightarrow> report_done c c' S T ds \<Longrightarrow> T \<subseteq> {la..cur} \<Longrightarrow> loss_inv c' la cur (S \<union> T)"
  by (auto simp: loss_inv_def report_done_def)

lemma report_done_trans:
  assumes "report_done c c1 S T ds" "report_done c1 c2 (S \<union> T) U es" "finite T" "finite U"
  shows "report_done c c2 S (T \<union> U) (ds @ es)"
proof -
  have "(T - S) \<union> (U - (S \<union> T)) = T \<union> U - S" "(T - S) \<inter> (U - (S \<union> T)) = {}" by blast+
  then have "card (T \<union> U - S) = card (T - S) + card (U - (S \<union> T))"
    using card_Un_disjoint [of "T - S" "U - (S \<union> T)"] assms(3,4) by simp
  with assms(1,2) show ?thesis by (auto simp: report_done_def requests_def Un_assoc)
qed

lemma drop_request_done: "sl_abs (m_pSndLossList c) S \<Longrightarrow> report_done c (drop_request c (wrapseq a) (wrapseq b)) S {} [(a, b)]"
  by (auto simp: report_done_def drop_request_def effect_def requests_def)

lemma lost_range_done:
  assumes i: "loss_inv c la cur S" and ab: "a \<le> b" "b \<le> cur" and near: "comparable la cur (a, b)"
  shows "\<exists>c'. lost_range c (wrapseq a) (wrapseq b) = Some c'
    \<and> report_done c c' S {max a la..b} (if a < la then [(a, min b (la - 1))] else [])"
proof -
  have la: "m_iSndLastAck c = wrapseq la" and l: "sl_abs (m_pSndLossList c) S" using i by (simp_all add: loss_inv_def)
  have d: "seqcmp (wrapseq a) (wrapseq la) \<ge> 0 \<longleftrightarrow> la \<le> a" "seqcmp (wrapseq b) (wrapseq la) \<ge> 0 \<longleftrightarrow> la \<le> b"
    using near by (simp_all add: comparable_def seq_simps)
  consider "la \<le> a" | "a < la" "la \<le> b" | "b < la" using ab by linarith
  then show ?thesis
  proof cases
    case 1
    with add_lost_done [OF i 1 ab] d la show ?thesis by (auto simp: lost_range_def seqcmp_int_wrapseq)
  next
    case 2
    from add_lost_done [OF i order_refl 2(2) ab(2)] obtain c1 where
      c1: "add_lost c (wrapseq la) (wrapseq b) = Some c1" "report_done c c1 S {la..b} []" by blast
    then have "sl_abs (m_pSndLossList c1) (S \<union> {la..b})" by (auto simp: report_done_def)
    from report_done_trans [OF c1(2) drop_request_done [OF this, of a "la - 1"]] 2 c1(1) d la
    show ?thesis by (auto simp: lost_range_def seqcmp_int_wrapseq decseq_wrapseq)
  next
    case 3
    with drop_request_done [OF l, of a b] d la ab show ?thesis
      by (auto simp: lost_range_def seqcmp_int_wrapseq)
  qed
qed

lemma heard_range: "heard la cur rs = (ok, T, ds) \<Longrightarrow> T \<subseteq> {la..cur}"
  by (induction rs arbitrary: ok T ds) (fastforce simp: Let_def split: prod.splits if_splits)+

lemma heard_finite: "heard la cur rs = (ok, T, ds) \<Longrightarrow> finite T"
  by (rule finite_subset [OF heard_range finite_atLeastAtMost_int])

lemma report_words_nil [simp]: "report_words [] = []"
  by (simp add: report_words_def)

text \<open>One range of a report, in terms of the numbers.\<close>

lemma loss_loop_single:
  "loss_loop (report_words ((a, a) # rs)) c =
     (if seqcmp (wrapseq a) (m_iSndLastAck c) \<ge> 0
      then (if seqcmp (wrapseq a) (m_iSndCurrSeqNo c) > 0 then Some (False, c)
            else do { c' \<leftarrow> add_lost c (wrapseq a) (wrapseq a); loss_loop (report_words rs) c' })
      else loss_loop (report_words rs) (drop_request c (wrapseq a) (wrapseq a)))"
  if "m_iSndLastAck c = wrapseq la" "m_iSndCurrSeqNo c = wrapseq cur"
  by (simp add: report_words_def loss_word_def IsSet_range_first word_wrapseq seqcmp_int_wrapseq that)

lemma loss_loop_range:
  "loss_loop (report_words ((a, b) # rs)) c =
     (if seqcmp (wrapseq a) (wrapseq b) > 0 \<or> seqcmp (wrapseq b) (m_iSndCurrSeqNo c) > 0 then Some (False, c)
      else do { c' \<leftarrow> lost_range c (wrapseq a) (wrapseq b); loss_loop (report_words rs) c' })"
  if "a \<noteq> b" "m_iSndCurrSeqNo c = wrapseq cur"
proof -
  define w where "w = (word_of_int (wrapseq a + LOSSDATA_SEQNO_RANGE_FIRST) :: 32 word)"
  have w: "IsSet w RANGE_FIRST" "sint (Bits_unwrap 30 0 w) = wrapseq a"
    using word_range_first [of a] by (simp_all only: w_def IsSet_range_first)
  have "report_words ((a, b) # rs) = w # word_of_int (wrapseq b) # report_words rs"
    using that by (simp add: report_words_def loss_word_def w_def)
  then show ?thesis using w by (simp add: word_wrapseq seqcmp_int_wrapseq that Let_def)
qed

lemma loss_loop_head:
  assumes i: "loss_inv c la cur S" and near: "comparable la cur (a, b)"
  shows "if b < a \<or> cur < b then loss_loop (report_words ((a, b) # rs)) c = Some (False, c)
    else \<exists>c'. loss_loop (report_words ((a, b) # rs)) c = loss_loop (report_words rs) c'
       \<and> report_done c c' S {max a la..b} (if a < la then [(a, min b (la - 1))] else [])"
proof -
  have cur: "m_iSndCurrSeqNo c = wrapseq cur" and la: "m_iSndLastAck c = wrapseq la" and le: "la \<le> cur + 1"
    and l: "sl_abs (m_pSndLossList c) S" using i by (simp_all add: loss_inv_def)
  have d: "seqcmp (wrapseq a) (wrapseq b) > 0 \<longleftrightarrow> b < a" "seqcmp (wrapseq b) (wrapseq cur) > 0 \<longleftrightarrow> cur < b"
    "seqcmp (wrapseq a) (wrapseq la) \<ge> 0 \<longleftrightarrow> la \<le> a"
    using near by (simp_all add: comparable_def seq_simps)
  show ?thesis
  proof (cases "a = b")
    case True
    note s = loss_loop_single [OF la cur, of a rs, unfolded la cur, folded True]
    from drop_request_done [OF l, of a a] add_lost_done [OF i, of a a] d le s True show ?thesis
      by (fastforce simp: max_def)
  next
    case False
    note s = loss_loop_range [OF False cur, of rs, unfolded cur]
    from lost_range_done [OF i _ _ near] d s show ?thesis by fastforce
  qed
qed

lemma loss_loop_heard:
  assumes "loss_inv c la cur S" "\<forall>r \<in> set rs. comparable la cur r" "heard la cur rs = (ok, T, ds)"
  shows "\<exists>c'. loss_loop (report_words rs) c = Some (ok, c') \<and> report_done c c' S T ds"
  using assms
proof (induction rs arbitrary: c S ok T ds)
  case Nil
  then show ?case by (auto simp: report_words_def report_done_def requests_def loss_inv_def)
next
  case (Cons r rs)
  obtain a b where r: "r = (a, b)" by (cases r)
  note i = Cons.prems(1) and head = loss_loop_head [OF Cons.prems(1), of a b rs]
  show ?case
  proof (cases "b < a \<or> cur < b")
    case True
    have "report_done c c S {} []" using i by (auto simp: report_done_def requests_def loss_inv_def)
    with True head Cons.prems(2,3) r show ?thesis by auto
  next
    case False
    let ?ds = "if a < la then [(a, min b (la - 1))] else []"
    obtain T' ds' where h: "heard la cur rs = (ok, T', ds')" "T = {max a la..b} \<union> T'" "ds = ?ds @ ds'"
      using Cons.prems(3) False r by (auto simp: Let_def split: prod.splits)
    from head False Cons.prems(2) r obtain c1 where
      c1: "loss_loop (report_words (r # rs)) c = loss_loop (report_words rs) c1" "report_done c c1 S {max a la..b} ?ds" by auto
    have "loss_inv c1 la cur (S \<union> {max a la..b})" using loss_inv_done [OF i c1(2)] False by auto
    from Cons.IH [OF this _ h(1)] Cons.prems(2) obtain c' where
      c': "loss_loop (report_words rs) c1 = Some (ok, c')" "report_done c1 c' (S \<union> {max a la..b}) T' ds'" by auto
    from report_done_trans [OF c1(2) c'(2) _ heard_finite [OF h(1)]] c1(1) c'(1) h(2,3) show ?thesis by auto
  qed
qed

section \<open>Making a report\<close>

text \<open>The periodic report of \<^verbatim>\<open>sendCtrl(UMSG_LOSSREPORT)\<close>: the words of the packet, if one is sent; the count of reports sent is left out.\<close>

definition sendCtrl_lossreport :: "rcv_loss_list \<Rightarrow> int \<Rightarrow> int list option option" where
  "sendCtrl_lossreport l maxPayload =
     (if rl_getLossLength l > 0
      then do { data \<leftarrow> rl_getLossArray l (maxPayload sdiv 4); Some (if data \<noteq> [] then Some data else None) }
      else Some None)"

text \<open>\<^verbatim>\<open>sendLossReport\<close>: the report made when losses are detected; nothing is sent for an empty list.\<close>

definition sendLossReport :: "(int \<times> int) list \<Rightarrow> 32 word list option" where
  "sendLossReport loss_seqs =
     (let seqbuffer = concat (map (\<lambda>(first, second). if first = second then [word_of_int first]
                                  else [word_of_int first OR RANGE_FIRST, word_of_int second]) loss_seqs)
      in if seqbuffer \<noteq> [] then Some seqbuffer else None)"

definition report_packet :: "header \<Rightarrow> 32 word list \<Rightarrow> 32 word list \<Rightarrow> ctrl_packet" where
  "report_packet h ws rest = \<lparr>cp_header = h, cp_data = ws @ rest, cp_length = 4 * length ws\<rparr>"

lemma range_first_or: "(word_of_int (wrapseq a) :: 32 word) OR RANGE_FIRST = word_of_int (wrapseq a + LOSSDATA_SEQNO_RANGE_FIRST)"
proof (rule bit_word_eqI)
  let ?w = "word_of_int (wrapseq a + LOSSDATA_SEQNO_RANGE_FIRST) :: 32 word"
  fix n assume "n < LENGTH(32)"
  then consider "n = 31" | "n < 31" by fastforce
  then show "bit ((word_of_int (wrapseq a) :: 32 word) OR RANGE_FIRST) n \<longleftrightarrow> bit ?w n"
  proof cases
    case 1
    then show ?thesis using word_range_first(1) [of a] by (simp add: bit_simps RANGE_FIRST_def bit_BitsetMask)
  next
    case 2
    have "take_bit 31 ?w = word_of_int (wrapseq a)"
      using word_range_first(2) [of a] word_wrapseq(2) [of a] unfolding unwrap_seqno by (metis signed_word_eqI)
    then have "bit ?w n \<longleftrightarrow> bit (word_of_int (wrapseq a) :: 32 word) n" using 2 by (metis bit_take_bit_iff)
    then show ?thesis using 2 by (simp add: bit_simps RANGE_FIRST_def bit_BitsetMask)
  qed
qed

lemma sendLossReport_words:
  assumes "\<forall>r \<in> set rs. \<bar>fst r - snd r\<bar> < m_iSeqNoTH" "rs \<noteq> []"
  shows "sendLossReport (map (\<lambda>(a, b). (wrapseq a, wrapseq b)) rs) = Some (report_words rs)"
proof -
  have "(if wrapseq a = wrapseq b then [word_of_int (wrapseq a)] else [word_of_int (wrapseq a) OR RANGE_FIRST, word_of_int (wrapseq b)])
      = map word_of_int (loss_word (a, b))" if "(a, b) \<in> set rs" for a b
    using assms(1) that by (auto simp: loss_word_def range_first_or wrapseq_eq_iff seqno_const_defs simp del: of_int_add)
  then have "concat (map ((\<lambda>(first, second). if first = second then [word_of_int first]
      else [word_of_int first OR RANGE_FIRST, word_of_int second]) \<circ> (\<lambda>(a, b). (wrapseq a, wrapseq b))) rs) = report_words rs"
    unfolding report_words_def map_concat by (intro arg_cong [where f = concat]) (auto simp del: of_int_add)
  moreover have "report_words rs \<noteq> []" using assms(2) by (cases rs) (auto simp: report_words_def loss_word_def)
  ultimately show ?thesis by (simp add: sendLossReport_def)
qed

lemma heard_true:
  assumes "\<forall>(a, b) \<in> set rs. a \<le> b \<and> b \<le> cur"
  shows "\<exists>ds. heard la cur rs = (True, rset rs \<inter> {la..}, ds) \<and> (rset rs \<subseteq> {la..} \<longrightarrow> ds = [])"
  using assms
proof (induction rs)
  case (Cons r rs)
  obtain a b where r: "r = (a, b)" by (cases r)
  from Cons obtain ds where ds: "heard la cur rs = (True, rset rs \<inter> {la..}, ds)" "rset rs \<subseteq> {la..} \<longrightarrow> ds = []" by auto
  have "rset (r # rs) \<inter> {la..} = {max a la..b} \<union> (rset rs \<inter> {la..})" using r by (auto simp: rset_def)
  moreover have "a \<in> rset (r # rs)" using r Cons.prems by (auto simp: rset_def)
  moreover have "rset rs \<subseteq> rset (r # rs)" by (auto simp: rset_def)
  ultimately show ?case using ds r Cons.prems by auto
qed (simp add: rset_def)

lemma processCtrlLossReport_heard:
  assumes "loss_inv c la cur S" and "\<forall>r \<in> set rs. comparable la cur r" and "heard la cur rs = (ok, T, ds)"
  shows "\<exists>c1. report_done c c1 S T ds \<and> processCtrlLossReport c (report_packet h (report_words rs) rest) =
    Some (let c2 = effect (Update_CC (TEV_LOSSREPORT (report_words rs))) c1
          in if ok then (effect Snd_update c2)\<lparr>stat_sndr_recvdNak := stat_sndr_recvdNak c + 1\<rparr> else break_connection c2)"
proof -
  from loss_loop_heard [OF assms] obtain c1 where
    c1: "loss_loop (report_words rs) c = Some (ok, c1)" "report_done c c1 S T ds" by blast
  then have "stat_sndr_recvdNak c1 = stat_sndr_recvdNak c" by (auto simp: report_done_def)
  with c1 show ?thesis by (auto simp: processCtrlLossReport_def report_packet_def effect_def Let_def)
qed

section \<open>Properties\<close>

text \<open>
  A loss report of any ranges, in order or not, overlapping or not, is read to the end or up to its first
  range that is the wrong way round or names a packet not sent yet: exactly the packets of the ranges before it
  that are not acknowledged yet are added to the loss list and counted, each acknowledged part is answered with
  one drop request, and then the socket is either handed to the sending thread or, after a bad range, broken.
  Nothing else of the state changes.
\<close>

theorem loss_report_meaning:
  assumes "loss_inv c la cur S" and "\<forall>r \<in> set rs. comparable la cur r" and "heard la cur rs = (ok, T, ds)"
  shows "\<exists>l. sl_abs l (S \<union> T) \<and> T \<subseteq> {la..cur} \<and> processCtrlLossReport c (report_packet h (report_words rs) rest) = Some (c\<lparr>
      m_pSndLossList := l,
      stat_sndr_lost := stat_sndr_lost c + int (card (T - S)),
      stat_sndr_recvdNak := stat_sndr_recvdNak c + of_bool ok,
      m_bBroken := m_bBroken c \<or> \<not> ok, m_bClosing := m_bClosing c \<or> \<not> ok,
      m_iBrokenCounter := if ok then m_iBrokenCounter c else 0,
      effects := effects c @ requests ds @ [Update_CC (TEV_LOSSREPORT (report_words rs))]
        @ [if ok then Snd_update else Broken_dependencies SRT_ESECFAIL]\<rparr>)"
  using processCtrlLossReport_heard [OF assms, of h rest] heard_range [OF assms(3)]
  by (cases ok) (auto simp: report_done_def effect_def break_connection_def Let_def)

definition sample_core :: "snd_buffer \<Rightarrow> snd_loss_list \<Rightarrow> int \<Rightarrow> int \<Rightarrow> snd_core" where
  "sample_core b l la cur = \<lparr>m_pSndBuffer = b, m_pSndLossList = l, m_iSndCurrSeqNo = cur, m_iSndLastAck = la, m_iSndLastDataAck = la,
     m_iSndLastFullAck = la, m_iSndLastAck2 = 0, m_SndLastAck2Time = 0, m_iFlowWindowSize = 100, m_iCongestionWindow = 100,
     m_tsLastRspAckTime = 0, m_iReXmitCount = 0, m_iSRTT = 100000, m_iRTTVar = 50000, m_bIsFirstRTTReceived = False, m_iBandwidth = 0,
     m_iDeliveryRate = 0, m_iByteDeliveryRate = 0, m_iMaxPayload = 1456, m_bSynSending = False, m_bBroken = False, m_bClosing = False,
     m_iBrokenCounter = 0, sndDuration = 0, sndDurationTotal = 0, sndDurationCounter = 0, stat_rcvr_recvd = 0, stat_sndr_lost = 0,
     stat_sndr_recvdAck = 0, stat_sndr_recvdNak = 0, effects = []\<rparr>"

lemma sample_loss_inv:
  assumes "valid_seq la" "valid_seq cur" "la \<le> cur + 1" "cur \<le> la + 6"
  shows "loss_inv (sample_core b (CSndLossList sl_demo_mem) la cur) la cur {}"
proof -
  have "sl_abs (CSndLossList sl_demo_mem) {}" by (rule sl_abs_empty) (simp_all add: sl_demo_mem_def seqno_const_defs)
  then show ?thesis using assms by (simp add: loss_inv_def sample_core_def wrapseq_id CSndLossList_def sl_demo_mem_def)
qed

theorem loss_report_meaning_witness:
  "\<forall>b hdr. \<exists>l c'. sl_abs l {5, 6, 8} \<and> processCtrlLossReport (sample_core b (CSndLossList sl_demo_mem) 5 9)
      (report_packet hdr (report_words [(3, 6), (8, 8), (9, 12)]) []) = Some c'
    \<and> m_pSndLossList c' = l \<and> m_bBroken c' \<and> stat_sndr_lost c' = 3
    \<and> effects c' = [Sent UMSG_DROPREQ (Some 0) [3, 4], Update_CC (TEV_LOSSREPORT (report_words [(3, 6), (8, 8), (9, 12)])),
        Broken_dependencies SRT_ESECFAIL]"
proof (intro allI)
  fix b hdr
  let ?rs = "[(3, 6), (8, 8), (9, 12)]"
  have i: "loss_inv (sample_core b (CSndLossList sl_demo_mem) 5 9) 5 9 {}"
    by (rule sample_loss_inv) (simp_all add: valid_seq_def seqno_const_defs)
  have c: "\<forall>r \<in> set ?rs. comparable 5 9 r" by (simp add: comparable_def seqno_const_defs)
  have "{5..6} \<union> {8..8} = {5, 6, 8 :: int}" by auto
  then have h: "heard 5 9 ?rs = (False, {5, 6, 8}, [(3, 4)])" by (simp add: Un_commute insert_commute)
  have w: "requests [(3, 4)] = [Sent UMSG_DROPREQ (Some 0) [3, 4]]" by (simp add: requests_def wrapseq_def seqno_const_defs)
  from loss_report_meaning [OF i c h, of hdr "[]"] w show "\<exists>l c'. sl_abs l {5, 6, 8}
      \<and> processCtrlLossReport (sample_core b (CSndLossList sl_demo_mem) 5 9) (report_packet hdr (report_words ?rs) []) = Some c'
    \<and> m_pSndLossList c' = l \<and> m_bBroken c' \<and> stat_sndr_lost c' = 3
    \<and> effects c' = [Sent UMSG_DROPREQ (Some 0) [3, 4], Update_CC (TEV_LOSSREPORT (report_words ?rs)), Broken_dependencies SRT_ESECFAIL]"
    by (auto simp: sample_core_def)
qed

text \<open>
  C9. Receiver to sender: when the periodic loss report of the receiver reaches a sender that has sent all the packets
  reported, every number listed in the report and not acknowledged yet is in the loss list of the sender
  afterwards, together with what was there before and nothing else; the connection is not broken. The
  report contains a nonempty part of the receiver's loss list, and all of it if there is room for two words per range.
\<close>

theorem reported_losses_resent:
  assumes rl: "rl_rep k rs l" "rs \<noteq> []" and pay: "8 \<le> maxPayload"
    and i: "loss_inv c la cur S" and near: "\<forall>r \<in> set rs. comparable la cur r \<and> snd r \<le> cur"
  shows "\<exists>j ws c'. sendCtrl_lossreport l maxPayload = Some (Some ws) \<and> int (4 * length ws) \<le> maxPayload
    \<and> 0 < j \<and> j \<le> length rs \<and> (8 * int (length rs) \<le> maxPayload \<longrightarrow> j = length rs)
    \<and> processCtrlLossReport c (report_packet hdr (map word_of_int ws) rest) = Some c'
    \<and> loss_inv c' la cur (S \<union> rset (take j rs) \<inter> {la..}) \<and> m_bBroken c' = m_bBroken c"
proof -
  define lim where "lim = maxPayload div 4"
  have lim: "2 \<le> lim" "maxPayload sdiv 4 = lim" "4 * lim \<le> maxPayload" "8 * n \<le> maxPayload \<longleftrightarrow> 2 * n \<le> lim" for n
    using pay by (auto simp: lim_def)
  have len: "length (concat (map loss_word rs')) \<le> 2 * length rs'" for rs' by (induction rs') (auto simp: loss_word_def)
  have ro: "ranges_ok rs" and pos: "rl_getLossLength l > 0"
    using rl rcount_pos [of rs] by (auto simp: rl_rep_def rl_getLossLength_def)
  have "0 \<le> lim" using lim by simp
  from rcv_getLossArray_bounded [OF rl(1) this] obtain j where j: "rl_getLossArray l lim = Some (concat (map loss_word (take j rs)))"
    "j \<le> length rs" "int (length (concat (map loss_word (take j rs)))) \<le> lim"
    "j < length rs \<longrightarrow> lim - 1 \<le> int (length (concat (map loss_word (take j rs))))" by blast
  let ?ws = "concat (map loss_word (take j rs))"
  have j0: "0 < j" using j(4) lim(1) rl(2) by (cases j) auto
  then have ne: "?ws \<noteq> []" using rl(2) by (cases rs; cases j) (auto simp: loss_word_def)
  have full: "j = length rs" if "2 * int (length rs) \<le> lim"
    using that j(2,4) len [of "take j rs"] by (cases "j < length rs") auto
  have sub: "set (take j rs) \<subseteq> set rs" by (rule set_take_subset)
  have "\<forall>(a, b) \<in> set (take j rs). a \<le> b \<and> b \<le> cur" using sub near ranges_ok_le [OF ro] by fastforce
  from heard_true [OF this, of la] obtain ds where h: "heard la cur (take j rs) = (True, rset (take j rs) \<inter> {la..}, ds)" by blast
  have w: "map word_of_int ?ws = report_words (take j rs)" by (simp only: report_words_def)
  from processCtrlLossReport_heard [OF i _ h] near sub obtain c1 where c1: "report_done c c1 S (rset (take j rs) \<inter> {la..}) ds"
    "processCtrlLossReport c (report_packet hdr (report_words (take j rs)) rest) =
      Some ((effect Snd_update (effect (Update_CC (TEV_LOSSREPORT (report_words (take j rs)))) c1))\<lparr>stat_sndr_recvdNak := stat_sndr_recvdNak c + 1\<rparr>)"
    by (fastforce simp: Let_def)
  have inv: "loss_inv c1 la cur (S \<union> rset (take j rs) \<inter> {la..})" using loss_inv_done [OF i c1(1)] heard_range [OF h] by blast
  have "m_bBroken c1 = m_bBroken c" using c1(1) by (auto simp: report_done_def)
  with inv have "\<exists>c'. processCtrlLossReport c (report_packet hdr (map word_of_int ?ws) rest) = Some c'
      \<and> loss_inv c' la cur (S \<union> rset (take j rs) \<inter> {la..}) \<and> m_bBroken c' = m_bBroken c"
    unfolding w c1(2) by (auto simp: effect_def loss_inv_def)
  moreover have "sendCtrl_lossreport l maxPayload = Some (Some ?ws)" using j(1) pos ne lim(2) by (simp add: sendCtrl_lossreport_def)
  moreover have "int (4 * length ?ws) \<le> maxPayload" using j(3) lim(3) by simp
  ultimately show ?thesis using j0 j(2) full lim(4) by blast
qed

theorem reported_losses_resent_witness:
  "\<exists>rl k. rl_rep k [(5, 9)] rl \<and> (\<forall>b hdr. \<exists>ws c'. sendCtrl_lossreport rl 1456 = Some (Some ws)
    \<and> processCtrlLossReport (sample_core b (CSndLossList sl_demo_mem) 7 9) (report_packet hdr (map word_of_int ws) []) = Some c'
    \<and> loss_inv c' 7 9 {7..9} \<and> \<not> m_bBroken c')"
proof -
  have w: "wrapseq 5 = 5" "wrapseq 9 = 9" by (simp_all add: wrapseq_def seqno_const_defs)
  have "rl_rep 0 [] (CRcvLossList rl_demo_mem)" by (rule rl_rep_empty) (simp_all add: rl_demo_mem_def seqno_const_defs)
  from rl_insert_empty [OF this, of 5 9] w obtain rl where rl: "rl_rep (- 5) [(5, 9)] rl"
    by (auto simp: CRcvLossList_def rl_demo_mem_def)
  have i: "loss_inv (sample_core b (CSndLossList sl_demo_mem) 7 9) 7 9 {}" for b
    by (rule sample_loss_inv) (simp_all add: valid_seq_def seqno_const_defs)
  have n: "\<forall>r \<in> set [(5, 9)]. comparable 7 9 r \<and> snd r \<le> 9" by (simp add: comparable_def seqno_const_defs)
  have s: "rset [(5, 9)] \<inter> {7..} = {7..9}" by (auto simp: rset_def)
  have "\<exists>ws c'. sendCtrl_lossreport rl 1456 = Some (Some ws)
    \<and> processCtrlLossReport (sample_core b (CSndLossList sl_demo_mem) 7 9) (report_packet hdr (map word_of_int ws) []) = Some c'
    \<and> loss_inv c' 7 9 {7..9} \<and> \<not> m_bBroken c'" for b hdr
    using reported_losses_resent [OF rl _ _ i n, of 1456 b hdr "[]"] s by (fastforce simp: sample_core_def)
  with rl show ?thesis by blast
qed

text \<open>
  The checks of a report compare three pairs of circular numbers on their own. A range that begins just more and ends
  just less than half the number space behind the sender passes all of them: the begin counts as after the last ACK, the end as
  before the last packet sent. An empty loss list takes the range, although none of its packets is in flight.
\<close>

lemma forged_range_listed:
  "\<exists>c'. processCtrlLossReport (sample_core b (CSndLossList sl_demo_mem) 5 9)
      (report_packet hdr (report_words [(0x40000003, 0x40000008)]) []) = Some c'
    \<and> \<not> m_bBroken c' \<and> sl_getLossLength (m_pSndLossList c') = 6" for b hdr
proof -
  let ?c = "sample_core b (CSndLossList sl_demo_mem) 5 9"
  have w: "wrapseq 0x40000003 = 0x40000003" "wrapseq 0x40000008 = 0x40000008" "wrapseq 5 = 5" "wrapseq 9 = 9"
    by (simp_all add: wrapseq_def seqno_const_defs)
  have cur: "m_iSndCurrSeqNo ?c = wrapseq 9" and la: "m_iSndLastAck ?c = 5" using w by (simp_all add: sample_core_def)
  have e: "sl_abs (CSndLossList sl_demo_mem) {}" by (rule sl_abs_empty) (simp_all add: sl_demo_mem_def seqno_const_defs)
  from sl_insert_correct [OF e, of "0x40000003" "0x40000008"] w obtain l where
    l: "sl_insert (CSndLossList sl_demo_mem) 0x40000003 0x40000008 = Some (6, l)" "sl_abs l {0x40000003..0x40000008}"
    by (auto simp: CSndLossList_def sl_demo_mem_def)
  have "sl_getLossLength l = 6" using sl_abs_length [OF l(2)] by simp
  moreover have "lost_range ?c 0x40000003 0x40000008 = Some (?c\<lparr>m_pSndLossList := l, stat_sndr_lost := 6\<rparr>)"
    using l(1) by (simp add: lost_range_def la seqcmp_int_def int32_def in_int32_def seqcmp_def seqno_const_defs add_lost_def)
      (simp add: sample_core_def)
  ultimately show ?thesis
    using loss_loop_range [OF _ cur, of "0x40000003" "0x40000008" "[]"] w
    by (simp add: processCtrlLossReport_def report_packet_def cur seqcmp_def seqno_const_defs effect_def)
      (simp add: sample_core_def)
qed

text \<open>
  The second word of a range is not checked for the sign bit before it is compared: the difference of two such numbers
  may leave the 32-bit range, which is undefined behaviour.
\<close>

lemma range_end_overflows:
  "processCtrlLossReport (sample_core b l la cur) (report_packet hdr [0x80000005, 0x80000000] []) = None" for b l la cur hdr
proof -
  have "IsSet 0x80000005 RANGE_FIRST" unfolding IsSet_range_first bit_31_sint by simp
  moreover have "sint (Bits_unwrap 30 0 0x80000005) = 5" by (simp add: unwrap_seqno)
  ultimately show ?thesis
    by (simp add: processCtrlLossReport_def report_packet_def seqcmp_int_def int32_def in_int32_def Let_def)
qed

end
