(* ===== verification/AckReport.thy ===== *)
theory AckReport
  imports LossReport SndBufferSpec
begin

text \<open>
  Acknowledgements at the sender: \<open>sender_inv\<close> ties the numbers of \<^verbatim>\<open>CUDT\<close> to the sender buffer, which
  holds the packets from \<open>da\<close> on, those up to \<open>cur\<close> marked as sent, and to the loss list. An acknowledgement of packets that were sent keeps the
  invariant and releases exactly the packets before it; what an acknowledgement of packets never sent does
  is shown too.
\<close>

definition sender_inv :: "snd_core \<Rightarrow> snd_pkt list \<Rightarrow> int \<Rightarrow> int \<Rightarrow> int \<Rightarrow> int \<Rightarrow> int set \<Rightarrow> bool" where
  "sender_inv c Q la da fa cur S \<longleftrightarrow> loss_inv c la cur S
     \<and> m_iSndLastDataAck c = wrapseq da \<and> m_iSndLastFullAck c = wrapseq fa
     \<and> fa \<le> la \<and> la \<le> da \<and> da \<le> cur + 1 \<and> cur + 1 - fa < m_iSeqNoTH \<and> cur + 1 - da \<le> int (length Q)
     \<and> (\<exists>r. sb_inv (m_pSndBuffer c) r (nat (cur + 1 - da)) \<and> sq_pkts (sb_abs (m_pSndBuffer c) r (nat (cur + 1 - da))) = Q)"

text \<open>An ACK packet that can be read: a lite one, or a full one of four fields or of at least seven, with round trip times that are not negative.\<close>

definition readable_ack :: "ctrl_packet \<Rightarrow> bool" where
  "readable_ack p \<longleftrightarrow> cp_length p \<le> 4 * length (cp_data p)
     \<and> (cp_length p = 4 \<or> (cp_length p div 4 = 4 \<or> 7 \<le> cp_length p div 4) \<and> 0 \<le> sint (cp_data p ! 1) \<and> 0 \<le> sint (cp_data p ! 2))"

text \<open>What the first step of an acknowledgement changes.\<close>

definition acked :: "snd_core \<Rightarrow> snd_core \<Rightarrow> snd_pkt list \<Rightarrow> int set \<Rightarrow> int \<Rightarrow> nat \<Rightarrow> bool" where
  "acked c c' Q S da k \<longleftrightarrow> (\<exists>l b r d e f es. sl_abs l S \<and> sl_iSize l = sl_iSize (m_pSndLossList c)
     \<and> sb_inv b r k \<and> sq_pkts (sb_abs b r k) = Q
     \<and> c' = c\<lparr>m_iSndLastDataAck := wrapseq da, m_pSndLossList := l, m_pSndBuffer := b, sndDuration := d, sndDurationTotal := e,
        sndDurationCounter := f, effects := es\<rparr>)"

lemma ackedI:
  "sl_abs l S \<Longrightarrow> sl_iSize l = sl_iSize (m_pSndLossList c) \<Longrightarrow> sb_inv b r k \<Longrightarrow> sq_pkts (sb_abs b r k) = Q \<Longrightarrow>
   acked c (c\<lparr>m_iSndLastDataAck := wrapseq da, m_pSndLossList := l, m_pSndBuffer := b, sndDuration := d, sndDurationTotal := e,
        sndDurationCounter := f, effects := es\<rparr>) Q S da k"
  unfolding acked_def by blast

lemma updateSndLossListOnACK_done:
  assumes b: "sb_inv (m_pSndBuffer c) r k" "sq_pkts (sb_abs (m_pSndBuffer c) r k) = Q"
    and l: "sl_abs (m_pSndLossList c) S" "da < n \<Longrightarrow> \<forall>m \<in> S. \<bar>m - (n - 1)\<bar> < m_iSeqNoTH"
    and da: "m_iSndLastDataAck c = wrapseq da" "\<bar>n - da\<bar> < m_iSeqNoTH" "n - da \<le> int (length Q)"
  shows "\<exists>c'. updateSndLossListOnACK now c (wrapseq n) = Some c'
    \<and> acked c c' (drop (nat (n - da)) Q) (if da < n then S - {..<n} else S) (max da n) (k - nat (n - da))"
proof (cases "da < n")
  case False
  then have "updateSndLossListOnACK now c (wrapseq n) = Some c" using da by (simp add: updateSndLossListOnACK_def seq_simps)
  moreover have "acked c c Q S da k"
    using ackedI [OF l(1) refl b, where da = da and d = "sndDuration c" and e = "sndDurationTotal c" and f = "sndDurationCounter c" and es = "effects c"]
    by (simp add: da(1) [symmetric])
  ultimately show ?thesis using False by (auto simp: max_def)
next
  case True
  have off: "seqoff (wrapseq da) (wrapseq n) = n - da" "decseq (wrapseq n) = wrapseq (n - 1)" using da(2) by (simp_all add: seq_simps)
  from sl_removeUpTo_correct [OF l(1) l(2) [OF True]] obtain l' where
    l': "sl_removeUpTo (m_pSndLossList c) (wrapseq (n - 1)) = Some l'" "sl_abs l' (S - {..n - 1})" "sl_iSize l' = sl_iSize (m_pSndLossList c)" by blast
  have "nat (n - da) \<le> nat (m_iCount (m_pSndBuffer c))"
    using da(3) b length_occupied [OF b(1)] by (auto simp: sb_abs_def split: if_splits)
  from ackData_drops [OF b(1) this] True obtain b' r' where
    b': "ackData (m_pSndBuffer c) (n - da) = Some b'" "sb_inv b' r' (k - nat (n - da))"
    "occupied b' r' = drop (nat (n - da)) (occupied (m_pSndBuffer c) r)" by (metis int_nat_eq less_imp_le diff_ge_0_iff_ge)
  then have Q: "sq_pkts (sb_abs b' r' (k - nat (n - da))) = drop (nat (n - da)) Q" using b(2) by (auto simp: sb_abs_def drop_map)
  have "S - {..n - 1} = S - {..<n}" by auto
  with ackedI [OF l'(2,3) b'(2) Q, where da = n] True off da(1) l'(1) b'(1) show ?thesis
    by (auto simp: updateSndLossListOnACK_def max_def)
qed

text \<open>The members an acknowledgement is about, and that the later steps leave them alone.\<close>

definition core_view :: "snd_core \<Rightarrow> snd_buffer \<times> snd_loss_list \<times> int \<times> int \<times> int \<times> int \<times> int \<times> bool" where
  "core_view c = (m_pSndBuffer c, m_pSndLossList c, m_iSndCurrSeqNo c, m_iSndLastAck c, m_iSndLastDataAck c, m_iSndLastFullAck c,
     m_iFlowWindowSize c, m_bBroken c)"

lemma core_view_answer [simp]: "core_view (answer_ack t c n) = core_view c"
  by (simp add: core_view_def answer_ack_def effect_def)

lemma move_window_view:
  assumes "ackdata p ACKD_BUFFERLEFT = Some left"
  shows "\<exists>c'. move_window t c p ack = Some c' \<and> m_iSRTT c' = m_iSRTT c
    \<and> core_view c' = core_view (if seqcmp ack (m_iSndLastAck c) \<ge> 0 then c\<lparr>m_iFlowWindowSize := left, m_iSndLastAck := ack\<rparr> else c)"
  using assms by (simp add: move_window_def core_view_def effect_def Let_def)

definition srtt_ok :: "snd_core \<Rightarrow> bool" where
  "srtt_ok c \<longleftrightarrow> 0 \<le> m_iSRTT c \<and> in_int32 (m_iSRTT c)"

text \<open>The 64-bit average of two 32-bit values that are not negative is exact.\<close>

lemma avg_iir_int_8:
  assumes "0 \<le> a" "in_int32 a" "0 \<le> b" "in_int32 b"
  shows "avg_iir_int 8 a b = (a * 7 + b) div 8"
proof -
  have r: "0 \<le> a * 7 + b" "a * 7 + b < 2 ^ 34" "a * 7 + b < 18446744073709551616" "(a * 7 + b) div 8 < 2 ^ 31" using assms by (auto simp: in_int32_def)
  let ?w = "(word_of_int a * 7 + word_of_int b) div 8 :: 64 word"
  have "(word_of_int a * 7 + word_of_int b :: 64 word) = word_of_int (a * 7 + b)" by simp
  then have "uint (word_of_int a * 7 + word_of_int b :: 64 word) = a * 7 + b"
    using r by (simp add: uint_word_of_int take_bit_int_eq_self del: of_int_add of_int_mult)
  then have u: "uint ?w = (a * 7 + b) div 8" by (simp add: uint_div)
  then have "uint (ucast ?w :: 32 word) = (a * 7 + b) div 8"
    using r by (simp add: unsigned_ucast_eq take_bit_int_eq_self)
  then have "sint (ucast ?w :: 32 word) = (a * 7 + b) div 8" using r by (simp add: sint_uint signed_take_bit_int_eq_self)
  then show ?thesis by (simp add: avg_iir_int_def)
qed
lemma take_rtt_view:
  assumes "0 \<le> rtt" "in_int32 rtt" "srtt_ok c"
  shows "\<exists>c'. take_rtt c rtt rttvar = Some c' \<and> core_view c' = core_view c \<and> srtt_ok c'"
proof -
  have "in_int32 (rtt - m_iSRTT c)" "in_int32 \<bar>rtt - m_iSRTT c\<bar>" using assms by (auto simp: in_int32_def srtt_ok_def)
  moreover have "avg_iir_int 8 (m_iSRTT c) rtt = (m_iSRTT c * 7 + rtt) div 8" using assms by (simp add: avg_iir_int_8 srtt_ok_def)
  ultimately show ?thesis using assms by (auto simp: take_rtt_def int32_def core_view_def srtt_ok_def in_int32_def)
qed

lemma ackdata_Some: "0 \<le> i \<Longrightarrow> i < int (length (cp_data p)) \<Longrightarrow> ackdata p i = Some (sint (cp_data p ! nat i))"
  by (simp add: ackdata_def rd_Some)

lemma take_rates_view:
  assumes "sz = 4 \<or> 7 \<le> sz" "sz \<le> length (cp_data p)"
  shows "\<exists>c'. take_rates c p sz = Some c' \<and> core_view c' = core_view c \<and> srtt_ok c' = srtt_ok c"
  using assms by (auto simp: take_rates_def ackd_defs ackdata_Some core_view_def srtt_ok_def)

lemma sint_int32 [simp]: "in_int32 (sint (w :: 32 word))"
  using sint_ge [of w] sint_lt [of w] by (simp add: in_int32_def)

lemma full_ack_view:
  assumes "readable_ack p" "cp_length p \<noteq> 4" "srtt_ok c"
  shows "\<exists>c'. full_ack c p ack = Some c' \<and> core_view c' = core_view c \<and> srtt_ok c'"
proof -
  let ?sz = "cp_length p div 4"
  have p: "?sz = 4 \<or> 7 \<le> ?sz" "?sz \<le> length (cp_data p)" "0 \<le> sint (cp_data p ! 1)" using assms(1,2) by (auto simp: readable_ack_def)
  have d: "ackdata p ACKD_RTT = Some (sint (cp_data p ! 1))" "ackdata p ACKD_RTTVAR = Some (sint (cp_data p ! 2))"
    using p(1,2) by (auto simp: ackd_defs ackdata_Some)
  from take_rtt_view [OF p(3) _ assms(3)] obtain c1 where c1: "take_rtt c (sint (cp_data p ! 1)) (sint (cp_data p ! 2)) = Some c1"
    "core_view c1 = core_view c" "srtt_ok c1" by auto
  from take_rates_view [OF p(1,2)] obtain c2 where "take_rates c1 p ?sz = Some c2" "core_view c2 = core_view c1" "srtt_ok c2 = srtt_ok c1" by blast
  then show ?thesis using p(1) d c1
    by (auto simp: full_ack_def ACKD_FIELD_SIZE_def ACKD_TOTAL_SIZE_SMALL_def core_view_def effect_def srtt_ok_def)
qed

lemma sender_inv_view: "core_view c = core_view c' \<Longrightarrow> sender_inv c Q la da fa cur S = sender_inv c' Q la da fa cur S"
  by (simp add: core_view_def sender_inv_def loss_inv_def)

lemma sl_abs_size: "sl_abs l S \<Longrightarrow> sl_iSize l \<le> m_iSeqNoTH"
  by (auto simp: sl_abs_def sl_rep_def dest: sl_arrD(3))

lemma sender_near:
  assumes "sender_inv c Q la da fa cur S" "da < n" "n \<le> cur + 1" "m \<in> S"
  shows "\<bar>m - (n - 1)\<bar> < m_iSeqNoTH"
proof -
  let ?z = "sl_iSize (m_pSndLossList c)"
  have "?z \<le> m_iSeqNoTH" using assms(1) sl_abs_size by (auto simp: sender_inv_def loss_inv_def)
  moreover have "cur + 2 - ?z \<le> m" "m \<le> cur" "cur + 1 - fa < m_iSeqNoTH" "fa \<le> da" using assms by (auto simp: sender_inv_def loss_inv_def)
  ultimately show ?thesis using assms(2,3) by linarith
qed

lemma sender_inv_moved:
  assumes i: "sender_inv c Q la da fa cur S" and n: "n \<le> cur + 1" and f: "fa \<le> fa'" "fa' \<le> max la n"
    and r: "acked c c1 (drop (nat (n - da)) Q) (if da < n then S - {..<n} else S) (max da n) (nat (cur + 1 - da) - nat (n - da))"
    and v: "core_view c' = core_view (c1\<lparr>m_iSndLastAck := wrapseq (max la n), m_iSndLastFullAck := wrapseq fa', m_iFlowWindowSize := w\<rparr>)"
  shows "sender_inv c' (drop (nat (n - da)) Q) (max la n) (max da n) fa' cur (if da < n then S - {..<n} else S)"
    "m_bBroken c' = m_bBroken c" "m_iFlowWindowSize c' = w" "sl_iSize (m_pSndLossList c') = sl_iSize (m_pSndLossList c)"
proof -
  let ?c = "c1\<lparr>m_iSndLastAck := wrapseq (max la n), m_iSndLastFullAck := wrapseq fa', m_iFlowWindowSize := w\<rparr>"
  have m: "m_iSndCurrSeqNo c1 = wrapseq cur" "m_iSndLastDataAck c1 = wrapseq (max da n)" "m_bBroken c1 = m_bBroken c"
    and l: "sl_abs (m_pSndLossList c1) (if da < n then S - {..<n} else S)" "sl_iSize (m_pSndLossList c1) = sl_iSize (m_pSndLossList c)"
    using r i by (auto simp: acked_def sender_inv_def loss_inv_def)
  have "da \<le> cur + 1" using i by (simp add: sender_inv_def)
  then have k: "nat (cur + 1 - da) - nat (n - da) = nat (cur + 1 - max da n)" using n by auto
  then have b: "\<exists>r. sb_inv (m_pSndBuffer c1) r (nat (cur + 1 - max da n)) \<and> sq_pkts (sb_abs (m_pSndBuffer c1) r (nat (cur + 1 - max da n))) = drop (nat (n - da)) Q"
    using r by (force simp: acked_def)
  have "loss_inv ?c (max la n) cur (if da < n then S - {..<n} else S)"
    using i n m l by (auto simp: sender_inv_def loss_inv_def)
  then have "sender_inv ?c (drop (nat (n - da)) Q) (max la n) (max da n) fa' cur (if da < n then S - {..<n} else S)"
    using i n m f b by (auto simp: sender_inv_def)
  then show "sender_inv c' (drop (nat (n - da)) Q) (max la n) (max da n) fa' cur (if da < n then S - {..<n} else S)"
    using sender_inv_view [OF v] by simp
  show "m_bBroken c' = m_bBroken c" "m_iFlowWindowSize c' = w" "sl_iSize (m_pSndLossList c') = sl_iSize (m_pSndLossList c)"
    using v m l by (simp_all add: core_view_def)
qed

lemma processCtrlAck_done:
  assumes i: "sender_inv c Q la da fa cur S" and n: "cur + 1 - n < m_iSeqNoTH" "n \<le> cur + 1"
    and p: "readable_ack p" "cp_data p ! 0 = word_of_int (wrapseq n)"
    and rtt: "srtt_ok c"
  shows "\<exists>c'. processCtrlAck now t c p = Some c' \<and> m_bBroken c' = m_bBroken c \<and> srtt_ok c' \<and> sl_iSize (m_pSndLossList c') = sl_iSize (m_pSndLossList c)
    \<and> sender_inv c' (drop (nat (n - da)) Q) (max la n) (max da n) (if cp_length p = 4 then fa else max fa n) cur (if da < n then S - {..<n} else S)
    \<and> m_iFlowWindowSize c' = (if n < la then m_iFlowWindowSize c
         else if cp_length p = 4 then m_iFlowWindowSize c - (n - la) else sint (cp_data p ! 3))"
proof -
  have ii: "loss_inv c la cur S" "m_iSndLastDataAck c = wrapseq da" "m_iSndLastFullAck c = wrapseq fa"
    "fa \<le> la" "la \<le> da" "da \<le> cur + 1" "cur + 1 - fa < m_iSeqNoTH" "cur + 1 - da \<le> int (length Q)"
    using i by (simp_all add: sender_inv_def)
  let ?k = "nat (cur + 1 - da)"
  obtain r where b: "sb_inv (m_pSndBuffer c) r ?k" "sq_pkts (sb_abs (m_pSndBuffer c) r ?k) = Q" using i by (auto simp: sender_inv_def)
  have l: "sl_abs (m_pSndLossList c) S" "m_iSndLastAck c = wrapseq la" "m_iSndCurrSeqNo c = wrapseq cur" using ii(1) by (simp_all add: loss_inv_def)
  let ?S = "if da < n then S - {..<n} else S" and ?Q = "drop (nat (n - da)) Q"
  have near: "\<forall>m \<in> S. \<bar>m - (n - 1)\<bar> < m_iSeqNoTH" if "da < n" using sender_near [OF i that n(2)] by blast
  have "\<bar>n - da\<bar> < m_iSeqNoTH" "n - da \<le> int (length Q)" using n ii(4-8) by linarith+
  from updateSndLossListOnACK_done [OF b l(1) near ii(2) this, of now] obtain c1 where
    c1: "updateSndLossListOnACK now c (wrapseq n) = Some c1" "acked c c1 ?Q ?S (max da n) (?k - nat (n - da))" by blast
  have m1: "m_iSndLastAck c1 = wrapseq la" "m_iSndCurrSeqNo c1 = wrapseq cur" "m_iSndLastFullAck c1 = wrapseq fa"
    "m_iFlowWindowSize c1 = m_iFlowWindowSize c" "srtt_ok c1" using c1(2) l ii(3) rtt by (auto simp: acked_def srtt_ok_def)
  have len: "0 < length (cp_data p)" using p(1) by (auto simp: readable_ack_def)
  have a0: "ackdata p ACKD_RCVLASTACK = Some (wrapseq n)" using len p(2) by (simp add: ackdata_Some ackd_defs word_wrapseq)
  have v: "\<not> wrapseq n < 0" using wrapseq_bounds [of n] by simp
  have cm: "seqcmp (wrapseq n) (wrapseq la) \<ge> 0 \<longleftrightarrow> la \<le> n" "seqoff (wrapseq la) (wrapseq n) = n - la"
    "seqoff (wrapseq fa) (wrapseq n) = n - fa" "\<not> seqcmp (wrapseq n) (incseq (wrapseq cur)) > 0"
    using n ii(4-7) by (simp_all add: seq_simps)
  let ?w = "if n < la then m_iFlowWindowSize c else if cp_length p = 4 then m_iFlowWindowSize c - (n - la) else sint (cp_data p ! 3)"
  let ?fa = "if cp_length p = 4 then fa else max fa n"
  have "\<exists>c'. processCtrlAck now t c p = Some c' \<and> srtt_ok c'
      \<and> core_view c' = core_view (c1\<lparr>m_iSndLastAck := wrapseq (max la n), m_iSndLastFullAck := wrapseq ?fa, m_iFlowWindowSize := ?w\<rparr>)"
  proof (cases "cp_length p = 4")
    case True
    then have "processCtrlAck now t c p = Some (lite_ack t c1 (wrapseq n))" using a0 v c1(1) by (simp add: processCtrlAck_def SEND_LITE_ACK_def)
    then show ?thesis using True cm(1,2) m1 by (auto simp: lite_ack_def core_view_def srtt_ok_def)
  next
    case False
    let ?c2 = "answer_ack t c1 (sint (getAckSeqNo (cp_header p)))"
    have v2: "core_view ?c2 = core_view c1" "m_iSRTT ?c2 = m_iSRTT c1" by simp (simp add: answer_ack_def effect_def)
    have "ackdata p ACKD_BUFFERLEFT = Some (sint (cp_data p ! 3))"
      using p(1) False ackdata_Some [of 3 p] by (auto simp: readable_ack_def ackd_defs)
    from move_window_view [OF this, of t ?c2 "wrapseq n"] v2 obtain c3 where
      c3: "move_window t ?c2 p (wrapseq n) = Some c3" "m_iSRTT c3 = m_iSRTT c1"
      "core_view c3 = core_view (if la \<le> n then c1\<lparr>m_iFlowWindowSize := sint (cp_data p ! 3), m_iSndLastAck := wrapseq n\<rparr> else c1)"
      using cm(1) m1 by (auto simp: core_view_def)
    from full_ack_view [OF p(1) False, of "c3\<lparr>m_iSndLastFullAck := wrapseq n\<rparr>" "wrapseq n"] m1(5) c3(2) obtain c4 where
      c4: "full_ack (c3\<lparr>m_iSndLastFullAck := wrapseq n\<rparr>) p (wrapseq n) = Some c4" "core_view c4 = core_view (c3\<lparr>m_iSndLastFullAck := wrapseq n\<rparr>)" "srtt_ok c4"
      by (auto simp: srtt_ok_def)
    have "m_iSndLastFullAck c3 = wrapseq fa" "m_iSndCurrSeqNo ?c2 = wrapseq cur" using c3(3) v2 m1 by (auto simp: core_view_def split: if_splits)
    then have "processCtrlAck now t c p = Some (if n \<le> fa then c3 else c4)"
      using a0 v c1(1) False cm(3,4) c3(1) c4(1) by (simp add: processCtrlAck_def SEND_LITE_ACK_def Let_def)
    then show ?thesis using c3(2,3) c4(2,3) m1 ii(4) False by (auto simp: core_view_def max_def srtt_ok_def split: if_splits)
  qed
  then obtain c' where "processCtrlAck now t c p = Some c'" "srtt_ok c'"
    "core_view c' = core_view (c1\<lparr>m_iSndLastAck := wrapseq (max la n), m_iSndLastFullAck := wrapseq ?fa, m_iFlowWindowSize := ?w\<rparr>)" by blast
  moreover have "fa \<le> ?fa" "?fa \<le> max la n" using ii(4) by auto
  ultimately show ?thesis using sender_inv_moved [OF i n(2) _ _ c1(2)] by blast
qed

text \<open>
  An acknowledgement up to \<open>n\<close>, at most the number after the last packet sent, however late it comes, is
  always processed to the end. Exactly the packets before \<open>n\<close> leave the sender buffer and, with them, the loss list; the last
  ACK numbers only move forward; the flow window takes the room the receiver reports, or shrinks by what a lite
  ACK acknowledges; the connection is not broken, and the sender is again in a consistent state.
\<close>

theorem ack_releases_packets:
  assumes i: "sender_inv c Q la da fa cur S" and n: "cur + 1 - n < m_iSeqNoTH" "n \<le> cur + 1"
    and p: "readable_ack p" "cp_data p ! 0 = word_of_int (wrapseq n)"
    and rtt: "srtt_ok c"
  shows "\<exists>c'. processCtrlAck now t c p = Some c' \<and> m_bBroken c' = m_bBroken c
    \<and> sender_inv c' (drop (nat (n - da)) Q) (max la n) (max da n) (if cp_length p = 4 then fa else max fa n) cur (if da < n then S - {..<n} else S)
    \<and> m_iFlowWindowSize c' = (if n < la then m_iFlowWindowSize c
         else if cp_length p = 4 then m_iFlowWindowSize c - (n - la) else sint (cp_data p ! 3))"
  using processCtrlAck_done [OF assms] by blast

text \<open>A sender with three packets 7, 8 and 9, of which \<open>cur - 6\<close> have been sent.\<close>

lemma sample_sender:
  assumes "cur \<in> {7, 8, 9}"
  obtains c Q where "sender_inv c Q 7 7 7 cur {}" "length Q = 3" "srtt_ok c" "\<not> m_bBroken c" "m_SndLastAck2Time c = 0"
    "\<forall>p \<in> set Q. sp_data p \<noteq> [] \<and> sp_ttl p < 0"
proof -
  have v: "valid_seq (pktseq (sample_ctrl 7))" by (simp add: valid_seq_def seqno_const_defs sample_ctrl_def)
  have i: "sb_inv (CSndBuffer raw0 2 3 0) [0..<2] 0" by (rule sample_inv(1)) simp_all
  define Q where "Q = split_message 3 (1 OR BitsetMask 29 29) (-1) 5 7 [1, 2, 3, 4, 5, 6, 7 :: byte]"
  have q: "length Q = 3" "\<forall>p \<in> set Q. sp_data p \<noteq> [] \<and> sp_ttl p < 0"
    by (auto simp: Q_def split_message_def countNumPacketsRequired_def Let_def)
  from addBuffer_splits [OF i v refl refl refl, of raw0 5 "[1, 2, 3, 4, 5, 6, 7]"] sample_inv(2) [of raw0] obtain b0 r where
    b0: "sb_inv b0 r 0" "sq_pkts (sb_abs b0 r 0) = Q" by (auto simp: sb_abs_def sample_ctrl_def Q_def)
  let ?k = "nat (cur + 1 - 7)"
  let ?b = "b0\<lparr>m_pCurrBlock := r ! ?k\<rparr>"
  have "?k \<le> nat (m_iCount b0)" using length_occupied [OF b0(1)] b0(2) q(1) assms by (auto simp: sb_abs_def)
  from sb_inv_curr [OF b0(1) this] b0(2) have b: "sb_inv ?b r ?k" "sq_pkts (sb_abs ?b r ?k) = Q" by (simp_all add: sb_abs_def)
  let ?c = "sample_core ?b (CSndLossList sl_demo_mem) 7 cur"
  have "loss_inv ?c 7 cur {}" using assms by (intro sample_loss_inv) (auto simp: valid_seq_def seqno_const_defs)
  moreover have "\<exists>r. sb_inv (m_pSndBuffer ?c) r ?k \<and> sq_pkts (sb_abs (m_pSndBuffer ?c) r ?k) = Q" using b by (auto simp: sample_core_def)
  moreover have "wrapseq 7 = 7" by (simp add: wrapseq_def seqno_const_defs)
  ultimately have "sender_inv ?c Q 7 7 7 cur {}" using assms q by (auto simp: sender_inv_def sample_core_def seqno_const_defs)
  then show thesis using that [of ?c Q] q by (simp add: sample_core_def srtt_ok_def in_int32_def)
qed

definition sample_ack :: "int \<Rightarrow> nat \<Rightarrow> ctrl_packet" where
  "sample_ack n len = \<lparr>cp_header = m_nHeader CPacket, cp_data = [word_of_int (wrapseq n), 30000, 2000, 25], cp_length = len\<rparr>"

lemma sample_ack_readable: "readable_ack (sample_ack n 16)" "readable_ack (sample_ack n 4)" "cp_data (sample_ack n len) ! 0 = word_of_int (wrapseq n)"
  by (simp_all add: sample_ack_def readable_ack_def)

theorem ack_releases_packets_witness:
  "\<exists>c Q c'. sender_inv c Q 7 7 7 8 {} \<and> length Q = 3 \<and> processCtrlAck 1 2 c (sample_ack 9 16) = Some c'
    \<and> sender_inv c' (drop 2 Q) 9 9 9 8 {} \<and> m_iFlowWindowSize c' = 25"
proof -
  obtain c Q where c: "sender_inv c Q 7 7 7 8 {}" "length Q = 3" "srtt_ok c" by (rule sample_sender [of 8]) simp_all
  have "cp_length (sample_ack 9 16) = 16" "sint (cp_data (sample_ack 9 16) ! 3) = 25" by (simp_all add: sample_ack_def)
  with ack_releases_packets [OF c(1) _ _ sample_ack_readable(1,3) c(3), of 9 1 2] obtain c' where
    "processCtrlAck 1 2 c (sample_ack 9 16) = Some c'" "sender_inv c' (drop 2 Q) 9 9 9 8 {}" "m_iFlowWindowSize c' = 25"
    by (auto simp: seqno_const_defs)
  with c(1,2) show ?thesis by blast
qed

section \<open>Feedback in any order\<close>

text \<open>What a sender hears: an ACK, with the times at which it is processed, or a loss report. The numbers meant are carried along.\<close>

datatype feedback = Ack int int ctrl_packet int | Nak ctrl_packet ranges

fun hear :: "snd_core \<Rightarrow> feedback list \<Rightarrow> snd_core option" where
  "hear c [] = Some c"
| "hear c (Ack now t p n # fs) = do { c' \<leftarrow> processCtrlAck now t c p; hear c' fs }"
| "hear c (Nak p rs # fs) = do { c' \<leftarrow> processCtrlLossReport c p; hear c' fs }"

fun honest :: "int \<Rightarrow> feedback \<Rightarrow> bool" where
  "honest cur (Ack now t p n) \<longleftrightarrow> cur + 1 - n < m_iSeqNoTH \<and> n \<le> cur + 1 \<and> readable_ack p \<and> cp_data p ! 0 = word_of_int (wrapseq n)"
| "honest cur (Nak p rs) \<longleftrightarrow> p = report_packet (cp_header p) (report_words rs) (drop (length (report_words rs)) (cp_data p))
     \<and> (\<forall>(a, b) \<in> set rs. cur + 1 - a < m_iSeqNoTH \<and> a \<le> b \<and> b \<le> cur)"

fun acked_up_to :: "int \<Rightarrow> feedback list \<Rightarrow> int" where
  "acked_up_to da [] = da"
| "acked_up_to da (Ack now t p n # fs) = acked_up_to (max da n) fs"
| "acked_up_to da (Nak p rs # fs) = acked_up_to da fs"

fun reported :: "feedback list \<Rightarrow> int set" where
  "reported [] = {}"
| "reported (Ack now t p n # fs) = reported fs"
| "reported (Nak p rs # fs) = rset rs \<union> reported fs"

lemma acked_up_to_mono: "da \<le> acked_up_to da fs"
  by (induction da fs rule: acked_up_to.induct) auto

lemma report_done_frame:
  "report_done c c1 S T ds \<Longrightarrow> srtt_ok c1 = srtt_ok c \<and> m_bBroken c1 = m_bBroken c \<and> sl_iSize (m_pSndLossList c1) = sl_iSize (m_pSndLossList c)"
  by (auto simp: report_done_def srtt_ok_def)

lemma sender_inv_report:
  assumes "sender_inv c Q la da fa cur S" "report_done c c1 S T ds" "T \<subseteq> {la..cur}"
  shows "sender_inv c1 Q la da fa cur (S \<union> T)"
proof -
  have "m_pSndBuffer c1 = m_pSndBuffer c" "m_iSndLastDataAck c1 = m_iSndLastDataAck c" "m_iSndLastFullAck c1 = m_iSndLastFullAck c"
    using assms(2) by (auto simp: report_done_def)
  with assms loss_inv_done [of c la cur S c1 T ds] show ?thesis by (simp add: sender_inv_def)
qed

lemma nak_heard:
  assumes i: "sender_inv c Q la da fa cur S" "srtt_ok c" and h: "honest cur (Nak p rs)"
  shows "\<exists>c'. processCtrlLossReport c p = Some c' \<and> sender_inv c' Q la da fa cur (S \<union> rset rs \<inter> {la..}) \<and> srtt_ok c' \<and> m_bBroken c' = m_bBroken c
    \<and> sl_iSize (m_pSndLossList c') = sl_iSize (m_pSndLossList c)"
proof -
  have l: "loss_inv c la cur S" "cur + 1 - la < m_iSeqNoTH" "la \<le> cur + 1" using i by (auto simp: sender_inv_def)
  have "comparable la cur (a, b)" if "(a, b) \<in> set rs" for a b
    using h that l(2,3) by (auto simp: comparable_def)
  then have c: "\<forall>r \<in> set rs. comparable la cur r" by auto
  from heard_true [of rs cur la] h obtain ds where hd: "heard la cur rs = (True, rset rs \<inter> {la..}, ds)" by fastforce
  obtain hdr rest where p: "p = report_packet hdr (report_words rs) rest" using h by auto
  from processCtrlLossReport_heard [OF l(1) c hd, of hdr rest] obtain c1 where c1: "report_done c c1 S (rset rs \<inter> {la..}) ds"
    "processCtrlLossReport c p = Some ((effect Snd_update (effect (Update_CC (TEV_LOSSREPORT (report_words rs))) c1))
       \<lparr>stat_sndr_recvdNak := stat_sndr_recvdNak c + 1\<rparr>)" by (auto simp: p Let_def)
  have s: "sender_inv c1 Q la da fa cur (S \<union> rset rs \<inter> {la..})"
    by (rule sender_inv_report [OF i(1) c1(1) heard_range [OF hd]])
  show ?thesis unfolding c1(2)
    using s i(2) report_done_frame [OF c1(1)] sender_inv_view [of c1 "(effect Snd_update (effect (Update_CC (TEV_LOSSREPORT (report_words rs))) c1))
       \<lparr>stat_sndr_recvdNak := stat_sndr_recvdNak c + 1\<rparr>"] by (auto simp: core_view_def effect_def srtt_ok_def)
qed

text \<open>
  C3. Acknowledgements and loss reports may reach the sender in any order, repeated and late. All of them are processed;
  the sender buffer holds exactly the packets from the highest acknowledged number on, and of these the
  packets that are listed for retransmission are exactly the ones listed before and the ones any report named. The connection stays up.
\<close>

theorem feedback_any_order:
  assumes "sender_inv c Q la da fa cur S" "srtt_ok c" and "\<forall>f \<in> set fs. honest cur f"
  defines "n \<equiv> acked_up_to da fs"
  shows "\<exists>c' la' fa' S'. hear c fs = Some c' \<and> sender_inv c' (drop (nat (n - da)) Q) la' n fa' cur S'
    \<and> S' \<inter> {n..} = (S \<union> reported fs) \<inter> {n..} \<and> m_bBroken c' = m_bBroken c"
  using assms(1-3) unfolding n_def
proof (induction fs arbitrary: c Q la da fa S)
  case Nil
  then show ?case by auto
next
  case (Cons f fs)
  show ?case
  proof (cases f)
    case (Ack now t p n)
    with Cons.prems(3) have h: "cur + 1 - n < m_iSeqNoTH" "n \<le> cur + 1" "readable_ack p" "cp_data p ! 0 = word_of_int (wrapseq n)" by auto
    let ?S = "if da < n then S - {..<n} else S"
    from processCtrlAck_done [OF Cons.prems(1) h Cons.prems(2), of now t] obtain c1 fa1 where
      c1: "processCtrlAck now t c p = Some c1" "m_bBroken c1 = m_bBroken c" "srtt_ok c1"
      "sender_inv c1 (drop (nat (n - da)) Q) (max la n) (max da n) fa1 cur ?S" by auto
    let ?m = "acked_up_to (max da n) fs"
    from Cons.IH [OF c1(4,3)] Cons.prems(3) obtain c' la' fa' S' where c':
      "hear c1 fs = Some c'" "sender_inv c' (drop (nat (?m - max da n)) (drop (nat (n - da)) Q)) la' ?m fa' cur S'"
      "S' \<inter> {?m..} = (?S \<union> reported fs) \<inter> {?m..}" "m_bBroken c' = m_bBroken c1" by auto
    have m: "max da n \<le> ?m" by (rule acked_up_to_mono)
    then have d: "nat (?m - max da n) + nat (n - da) = nat (?m - da)" by auto
    have "?S \<inter> {?m..} = S \<inter> {?m..}" using m by auto
    then have "S' \<inter> {?m..} = (S \<union> reported fs) \<inter> {?m..}" using c'(3) by blast
    then show ?thesis using c'(1,2,4) c1(1,2) d Ack by auto
  next
    case (Nak p rs)
    then have "honest cur (Nak p rs)" using Cons.prems(3) by simp
    from nak_heard [OF Cons.prems(1,2) this] obtain c1 where c1: "processCtrlLossReport c p = Some c1"
      "sender_inv c1 Q la da fa cur (S \<union> rset rs \<inter> {la..})" "srtt_ok c1" "m_bBroken c1 = m_bBroken c" by blast
    let ?m = "acked_up_to da fs"
    from Cons.IH [OF c1(2,3)] Cons.prems(3) obtain c' la' fa' S' where c':
      "hear c1 fs = Some c'" "sender_inv c' (drop (nat (?m - da)) Q) la' ?m fa' cur S'"
      "S' \<inter> {?m..} = (S \<union> rset rs \<inter> {la..} \<union> reported fs) \<inter> {?m..}" "m_bBroken c' = m_bBroken c1" by auto
    have "la \<le> ?m" using acked_up_to_mono [of da fs] Cons.prems(1) by (auto simp: sender_inv_def)
    then have "rset rs \<inter> {la..} \<inter> {?m..} = rset rs \<inter> {?m..}" by auto
    with c'(3) have "S' \<inter> {?m..} = (S \<union> (rset rs \<union> reported fs)) \<inter> {?m..}" by (simp only: Int_Un_distrib2 Un_assoc)
    then show ?thesis using c'(1,2,4) c1(1,4) Nak by auto
  qed
qed

theorem feedback_any_order_witness:
  "\<exists>c Q c' la' fa' S'. sender_inv c Q 7 7 7 9 {} \<and> length Q = 3
    \<and> (let nak = report_packet (m_nHeader CPacket) (report_words [(7, 9)]) []
       in hear c [Nak nak [(7, 9)], Ack 1 2 (sample_ack 9 16) 9, Ack 3 4 (sample_ack 8 4) 8, Nak nak [(7, 9)]]) = Some c'
    \<and> sender_inv c' (drop 2 Q) la' 9 fa' 9 S' \<and> S' \<inter> {9..} = {9} \<and> \<not> m_bBroken c'"
proof -
  obtain c Q where c: "sender_inv c Q 7 7 7 9 {}" "length Q = 3" "srtt_ok c" "\<not> m_bBroken c" by (rule sample_sender [of 9]) simp_all
  let ?nak = "report_packet (m_nHeader CPacket) (report_words [(7, 9)]) []"
  let ?fs = "[Nak ?nak [(7, 9)], Ack 1 2 (sample_ack 9 16) 9, Ack 3 4 (sample_ack 8 4) 8, Nak ?nak [(7, 9)]]"
  have "\<forall>f \<in> set ?fs. honest 9 f"
    using sample_ack_readable by (simp add: report_packet_def seqno_const_defs)
  moreover have "acked_up_to 7 ?fs = 9" "reported ?fs \<inter> {9..} = {9}" by (auto simp: rset_def)
  ultimately obtain c' la' fa' S' where "hear c ?fs = Some c'" "sender_inv c' (drop 2 Q) la' 9 fa' 9 S'" "S' \<inter> {9..} = {9}" "\<not> m_bBroken c'"
    using feedback_any_order [OF c(1,3), of ?fs] c(4) by auto
  with c(1,2) show ?thesis unfolding Let_def by blast
qed

section \<open>Acknowledgements of packets never sent\<close>

text \<open>
  C37. An acknowledgement beyond the last packet sent is checked too late: before the check, the packets in front of it
  have left the sender buffer, the ones never sent among them. A full ACK then breaks the connection; a lite ACK is not
  checked at all and moves the last ACK past the last packet sent.
\<close>

theorem forged_ack_frees_unsent:
  assumes i: "sender_inv c Q la da fa cur S" and n: "cur + 1 < n" "n - da \<le> int (length Q)" "n - fa < m_iSeqNoTH" "\<forall>m \<in> S. n - m < m_iSeqNoTH"
    and p: "readable_ack p" "cp_data p ! 0 = word_of_int (wrapseq n)"
  shows "\<exists>c' r k. processCtrlAck now t c p = Some c'
    \<and> sb_inv (m_pSndBuffer c') r k \<and> sq_pkts (sb_abs (m_pSndBuffer c') r k) = drop (nat (n - da)) Q
    \<and> m_iSndLastDataAck c' = wrapseq n \<and> m_iSndCurrSeqNo c' = wrapseq cur
    \<and> (if cp_length p = 4 then m_bBroken c' = m_bBroken c \<and> m_iSndLastAck c' = wrapseq n else m_bBroken c')"
proof -
  have ii: "m_iSndLastDataAck c = wrapseq da" "fa \<le> la" "la \<le> da" "da \<le> cur + 1" "sl_abs (m_pSndLossList c) S" "m_iSndLastAck c = wrapseq la"
    "m_iSndCurrSeqNo c = wrapseq cur" "\<forall>m \<in> S. m \<le> cur" using i by (auto simp: sender_inv_def loss_inv_def)
  let ?k = "nat (cur + 1 - da)"
  obtain r where b: "sb_inv (m_pSndBuffer c) r ?k" "sq_pkts (sb_abs (m_pSndBuffer c) r ?k) = Q" using i by (auto simp: sender_inv_def)
  have near: "\<forall>m \<in> S. \<bar>m - (n - 1)\<bar> < m_iSeqNoTH" using n(1,4) ii(8) by fastforce
  have d: "\<bar>n - da\<bar> < m_iSeqNoTH" "max da n = n" using n ii(2-4) by linarith+
  from updateSndLossListOnACK_done [OF b ii(5) near ii(1) d(1) n(2), of now] obtain c1 S' where
    c1: "updateSndLossListOnACK now c (wrapseq n) = Some c1" "acked c c1 (drop (nat (n - da)) Q) S' n (?k - nat (n - da))" unfolding d(2) by blast
  obtain r' k' where b': "sb_inv (m_pSndBuffer c1) r' k'" "sq_pkts (sb_abs (m_pSndBuffer c1) r' k') = drop (nat (n - da)) Q"
    using c1(2) by (force simp: acked_def)
  have m: "m_iSndLastAck c1 = wrapseq la" "m_iSndCurrSeqNo c1 = wrapseq cur" "m_bBroken c1 = m_bBroken c" "m_iSndLastDataAck c1 = wrapseq n"
    using c1(2) ii by (auto simp: acked_def)
  have len: "0 < length (cp_data p)" using p(1) by (auto simp: readable_ack_def)
  have a0: "ackdata p ACKD_RCVLASTACK = Some (wrapseq n)" using len p(2) by (simp add: ackdata_Some ackd_defs word_wrapseq)
  have v: "\<not> wrapseq n < 0" using wrapseq_bounds [of n] by simp
  have cm: "seqcmp (wrapseq n) (wrapseq la) \<ge> 0" "seqcmp (wrapseq n) (incseq (wrapseq cur)) > 0"
    using n ii(2-4) by (simp_all add: seq_simps)
  show ?thesis
  proof (cases "cp_length p = 4")
    case True
    then have "processCtrlAck now t c p = Some (lite_ack t c1 (wrapseq n))" using a0 v c1(1) by (simp add: processCtrlAck_def SEND_LITE_ACK_def)
    then show ?thesis using True cm(1) m b' by (auto simp: lite_ack_def)
  next
    case False
    let ?c2 = "answer_ack t c1 (sint (getAckSeqNo (cp_header p)))"
    have "m_iSndCurrSeqNo ?c2 = wrapseq cur" using m by (simp add: answer_ack_def effect_def)
    then have "processCtrlAck now t c p = Some (break_connection ?c2)"
      using a0 v c1(1) False cm(2) by (simp add: processCtrlAck_def SEND_LITE_ACK_def Let_def)
    then show ?thesis using False m b' by (auto simp: break_connection_def answer_ack_def effect_def)
  qed
qed

theorem forged_ack_frees_unsent_witness:
  "\<exists>c Q c' r k. sender_inv c Q 7 7 7 7 {} \<and> length Q = 3 \<and> processCtrlAck 1 2 c (sample_ack 10 4) = Some c'
    \<and> sb_inv (m_pSndBuffer c') r k \<and> sq_pkts (sb_abs (m_pSndBuffer c') r k) = [] \<and> \<not> m_bBroken c' \<and> m_iSndCurrSeqNo c' = 7"
proof -
  obtain c Q where c: "sender_inv c Q 7 7 7 7 {}" "length Q = 3" "\<not> m_bBroken c" by (rule sample_sender [of 7]) simp_all
  have w: "wrapseq 7 = 7" by (simp add: wrapseq_def seqno_const_defs)
  have "cp_length (sample_ack 10 4) = 4" by (simp add: sample_ack_def)
  with forged_ack_frees_unsent [OF c(1) _ _ _ _ sample_ack_readable(2,3), of 10 1 2] c(2,3) w obtain c' r k where
    "processCtrlAck 1 2 c (sample_ack 10 4) = Some c'" "sb_inv (m_pSndBuffer c') r k" "sq_pkts (sb_abs (m_pSndBuffer c') r k) = []"
    "\<not> m_bBroken c'" "m_iSndCurrSeqNo c' = 7" by (auto simp: seqno_const_defs)
  with c(1,2) show ?thesis by blast
qed

text \<open>
  The field with the room left in the receiver buffer is read before the size of the packet is checked. A full ACK of two
  words takes the flow window from whatever the buffer of the packet holds behind its payload.
\<close>

lemma short_ack_takes_stale_window:
  assumes "3 < length (cp_data p)" "cp_length p = 8" "seqcmp ack (m_iSndLastAck c) \<ge> 0"
  shows "\<exists>c'. move_window t c p ack = Some c' \<and> m_iFlowWindowSize c' = sint (cp_data p ! 3)
    \<and> cp_length p div ACKD_FIELD_SIZE < ACKD_TOTAL_SIZE_SMALL"
  using assms move_window_view [of p "sint (cp_data p ! 3)" t c ack] ackdata_Some [of 3 p]
  by (auto simp: ackd_defs core_view_def)

end
