(* ===== verification/FeedbackLoop.thy ===== *)
theory FeedbackLoop
  imports RcvFeedback AckReport
begin

text \<open>
  The loop of acknowledgements over both sides: the receiver acknowledges up to its first missing packet
  (\<^verbatim>\<open>sendCtrlAck\<close>), the sender releases what is acknowledged and answers (\<^verbatim>\<open>processCtrlAck\<close>), and the receiver
  learns the round trip time and that the acknowledgement has arrived (\<^verbatim>\<open>processCtrlAckAck\<close>). Drop requests close gaps that the
  sender gave up.
\<close>

section \<open>The packets between the sides\<close>

definition ack_packet :: "header \<Rightarrow> int \<Rightarrow> int list \<Rightarrow> ctrl_packet" where
  "ack_packet h a words = \<lparr>cp_header = (setControl h UMSG_ACK)\<lparr>SRT_PH_MSGNO := word_of_int a\<rparr>,
     cp_data = map word_of_int words, cp_length = 4 * length words\<rparr>"

definition ackack_packet :: "header \<Rightarrow> int \<Rightarrow> ctrl_packet" where
  "ackack_packet h a = \<lparr>cp_header = (setControl h UMSG_ACKACK)\<lparr>SRT_PH_MSGNO := word_of_int a\<rparr>, cp_data = [0], cp_length = 4\<rparr>"

lemma ack_number: "valid_seq a \<Longrightarrow> sint (getAckSeqNo (cp_header (ack_packet h a ws))) = a"
  "valid_seq a \<Longrightarrow> sint (getAckSeqNo (cp_header (ackack_packet h a))) = a"
  using word_wrapseq(2) [of a] by (simp_all add: ack_packet_def ackack_packet_def getAckSeqNo_def wrapseq_id)

lemma incack_valid: "valid_seq a \<Longrightarrow> valid_seq (incack a)"
  by (auto simp: valid_seq_def incack_def m_iMaxAckSeqNo_def seqno_const_defs)

section \<open>The receiver\<close>

text \<open>The receiver in message mode: \<open>L\<close> is missing up to \<open>R\<close>, \<open>A\<close> is the last number acknowledged, \<open>B\<close> the last one confirmed.\<close>

definition receiver_inv :: "rcv_core \<Rightarrow> int set \<Rightarrow> int \<Rightarrow> int \<Rightarrow> int \<Rightarrow> bool" where
  "receiver_inv c L R A B \<longleftrightarrow> rl_abs (m_pRcvLossList c) L \<and> (\<forall>m \<in> L. A \<le> m \<and> m \<le> R)
     \<and> m_iRcvCurrSeqNo c = wrapseq R \<and> m_iRcvLastAck c = wrapseq A \<and> m_iRcvLastAckAck c = wrapseq B
     \<and> B \<le> A \<and> A \<le> R + 1 \<and> R + 1 - B < m_iSeqNoTH
     \<and> rc_bMessageAPI c \<and> \<not> rc_bTSBPD c \<and> \<not> rc_bTsbPd c \<and> \<not> tsbpd_enabled (m_pRcvBuffer c)
     \<and> aw_ok (m_ACKWindow c) \<and> valid_seq (m_iAckSeqNo c)"

definition next_missing :: "int set \<Rightarrow> int \<Rightarrow> int" where
  "next_missing L R = (if L = {} then R + 1 else Min L)"

lemma noncont_next_missing: "receiver_inv c L R A B \<Longrightarrow> getFirstNoncontSequence c = Some (wrapseq (next_missing L R))"
  using rl_first [of "m_pRcvLossList c" L]
  by (auto simp: receiver_inv_def getFirstNoncontSequence_def next_missing_def incseq_wrapseq)

lemma next_missing_bounds:
  assumes "receiver_inv c L R A B"
  shows "A \<le> next_missing L R" "next_missing L R \<le> R + 1" "m \<in> L \<Longrightarrow> next_missing L R \<le> m"
proof -
  have f: "finite L" "\<forall>m \<in> L. A \<le> m \<and> m \<le> R" "A \<le> R + 1" using assms rl_length [of "m_pRcvLossList c" L] by (auto simp: receiver_inv_def)
  have m: "A \<le> Min L" "Min L \<le> R + 1" if "L \<noteq> {}" using Min_in [OF f(1) that] f(2) by force+
  show "A \<le> next_missing L R" using f m(1) by (cases "L = {}") (simp_all add: next_missing_def)
  show "next_missing L R \<le> R + 1" unfolding next_missing_def using m(2) by (metis order_refl)
  show "m \<in> L \<Longrightarrow> next_missing L R \<le> m" using f(1) by (auto simp: next_missing_def)
qed

lemma signal_reader_frame:
  assumes "\<not> rc_bTsbPd c" "\<not> tsbpd_enabled (m_pRcvBuffer c)"
  shows "\<exists>es. signal_reader now c = Some (c\<lparr>rc_effects := rc_effects c @ es\<rparr>)"
proof -
  have "c = c\<lparr>rc_effects := rc_effects c @ []\<rparr>" by simp
  then have "\<exists>es. c = c\<lparr>rc_effects := rc_effects c @ es\<rparr>" by blast
  then show ?thesis using assms by (auto simp: signal_reader_def isRcvDataReady_def r_effect_def Let_def)
qed

definition new_ack_record :: "int \<Rightarrow> int \<Rightarrow> int \<Rightarrow> ack_seq" where
  "new_ack_record now a n = \<lparr>iACKSeqNo = a, iACK = wrapseq n, tsTimeStamp = now\<rparr>"

lemma send_full_ack_done:
  assumes "receiver_inv c L R n B" "SrtVersion 1 0 3 \<le> rc_uPeerSrtVersion c"
  shows "\<exists>c' ws. send_full_ack now rates c = Some c' \<and> receiver_inv c' L R n B
    \<and> last (rc_effects c') = R_Sent UMSG_ACK (Some (incack (m_iAckSeqNo c))) ws \<and> (length ws = 4 \<or> length ws = 7)
    \<and> take 3 ws = [wrapseq n, rc_iSRTT c, rc_iRTTVar c] \<and> m_iAckSeqNo c' = incack (m_iAckSeqNo c)
    \<and> rc_iSRTT c' = rc_iSRTT c \<and> rc_iRTTVar c' = rc_iRTTVar c \<and> rc_bIsFirstRTTReceived c' = rc_bIsFirstRTTReceived c
    \<and> (\<exists>q. aw_queue (m_ACKWindow c') = q @ [new_ack_record now (incack (m_iAckSeqNo c)) n] \<and> set q \<subseteq> set (aw_queue (m_ACKWindow c)))"
proof -
  let ?a = "incack (m_iAckSeqNo c)"
  have ne: "rc_uPeerSrtVersion c \<noteq> SrtVersion 1 0 2" using assms(2) by (auto simp: SrtVersion_def)
  have ok: "aw_ok (m_ACKWindow c)" and n: "m_iRcvLastAck c = wrapseq n" using assms(1) by (simp_all add: receiver_inv_def)
  have tl: "set (tl xs) \<subseteq> set xs" for xs :: "ack_seq list" by (cases xs) auto
  from aw_store_queue [OF ok, of now ?a "wrapseq n"] tl [of "aw_queue (m_ACKWindow c)"] obtain w where
    w: "aw_store now (m_ACKWindow c) ?a (wrapseq n) = Some w" "aw_ok w"
    "\<exists>q. aw_queue w = q @ [new_ack_record now ?a n] \<and> set q \<subseteq> set (aw_queue (m_ACKWindow c))"
    by (auto simp: new_ack_record_def split: if_splits)
  obtain sp rt bw where r: "rates = (sp, rt, bw)" by (cases rates)
  have i: "valid_seq ?a" "aw_ok w" "receiver_inv c L R n B" using assms(1) w(2) incack_valid by (auto simp: receiver_inv_def)
  show ?thesis
  proof (cases "now - m_tsLastAckTime c > m_tdACKInterval c")
    case True
    with w(1,3) i n ne assms(2) r show ?thesis
      by (simp add: send_full_ack_def ack_rates_def r_effect_def Let_def receiver_inv_def)
  next
    case False
    with w(1,3) i n show ?thesis by (simp add: send_full_ack_def r_effect_def Let_def receiver_inv_def)
  qed
qed

lemma sendCtrlAck_new:
  assumes i: "receiver_inv c L R A B" and n: "n = next_missing L R" "A < n" and sz: "sz \<noteq> 4"
    and v: "SrtVersion 1 0 3 \<le> rc_uPeerSrtVersion c"
  shows "\<exists>c' ws. sendCtrlAck now rates sz c = Some c' \<and> receiver_inv c' L R n B
    \<and> last (rc_effects c') = R_Sent UMSG_ACK (Some (incack (m_iAckSeqNo c))) ws \<and> (length ws = 4 \<or> length ws = 7)
    \<and> take 3 ws = [wrapseq n, rc_iSRTT c, rc_iRTTVar c] \<and> m_iAckSeqNo c' = incack (m_iAckSeqNo c)
    \<and> rc_iSRTT c' = rc_iSRTT c \<and> rc_iRTTVar c' = rc_iRTTVar c \<and> rc_bIsFirstRTTReceived c' = rc_bIsFirstRTTReceived c
    \<and> (\<exists>q. aw_queue (m_ACKWindow c') = q @ [new_ack_record now (incack (m_iAckSeqNo c)) n] \<and> set q \<subseteq> set (aw_queue (m_ACKWindow c)))"
proof -
  note bd = next_missing_bounds [OF i, folded n(1)]
  have w: "B \<le> A" "R + 1 - B < m_iSeqNoTH" "m_iRcvLastAck c = wrapseq A" "m_iRcvLastAckAck c = wrapseq B" "\<not> rc_bTsbPd c" "\<not> tsbpd_enabled (m_pRcvBuffer c)"
    using i by (simp_all add: receiver_inv_def)
  have cm: "seqcmp (wrapseq n) (wrapseq A) > 0" "seqcmp (wrapseq n) (wrapseq B) > 0" "wrapseq B \<noteq> wrapseq n"
    using n(2) w(1,2) bd(2) by (simp_all add: seq_simps seqno_const_defs)
  obtain es where es: "signal_reader now (c\<lparr>m_iRcvLastAck := wrapseq n\<rparr>) = Some (c\<lparr>m_iRcvLastAck := wrapseq n, rc_effects := rc_effects c @ es\<rparr>)"
    using signal_reader_frame [of "c\<lparr>m_iRcvLastAck := wrapseq n\<rparr>" now] w(5,6) by auto
  let ?c = "c\<lparr>m_iRcvLastAck := wrapseq n, rc_effects := rc_effects c @ es\<rparr>"
  have "receiver_inv ?c L R n B" using i bd w n(2) by (auto simp: receiver_inv_def)
  moreover have "sendCtrlAck now rates sz c = send_full_ack now rates ?c"
    using noncont_next_missing [OF i, folded n(1)] cm es w(3,4) sz by (simp add: sendCtrlAck_def SEND_LITE_ACK_def Let_def)
  ultimately show ?thesis using send_full_ack_done [of ?c L R n B now rates] v by simp
qed

text \<open>The receiver's side of an ACKACK that answers a record of the window.\<close>

lemma q_ack_last: "\<forall>s \<in> set q. iACKSeqNo s \<noteq> a \<Longrightarrow> iACKSeqNo r = a \<Longrightarrow> q_ack a (q @ [r]) = Some (r, [])"
  by (induction q) auto

lemma drift_keeps_mode: "tsbpd_enabled (snd (addRcvTsbPdDriftSample b ts t rtt)) = tsbpd_enabled b"
  by (auto simp: addRcvTsbPdDriftSample_def tsbpd_enabled_def addDriftSample_def Let_def split: prod.splits)

lemma ackack_rtt_done:
  assumes "0 < rtt" "in_int32 rtt" "0 \<le> rc_iSRTT c" "in_int32 (rc_iSRTT c)"
  obtains c' where "ackack_rtt c rtt = Some c'" "rc_iSRTT c' = (if rc_bIsFirstRTTReceived c then (rc_iSRTT c * 7 + rtt) div 8 else rtt)"
    "receiver_inv c' = receiver_inv c" "m_ACKWindow c' = m_ACKWindow c" "m_iRcvLastAckAck c' = m_iRcvLastAckAck c"
proof -
  have d: "in_int32 (rtt - rc_iSRTT c)" "in_int32 \<bar>rtt - rc_iSRTT c\<bar>" using assms by (auto simp: in_int32_def)
  show thesis
  proof (cases "rc_bIsFirstRTTReceived c")
    case True
    with d assms show ?thesis by (intro that [of "the (ackack_rtt c rtt)"])
      (simp_all add: ackack_rtt_def int32_def avg_iir_int_8 receiver_inv_def fun_eq_iff)
  next
    case False
    then show ?thesis by (intro that [of "the (ackack_rtt c rtt)"]) (simp_all add: ackack_rtt_def receiver_inv_def fun_eq_iff)
  qed
qed

lemma processCtrlAckAck_done:
  assumes i: "receiver_inv c L R A B" and a: "valid_seq a" "aw_queue (m_ACKWindow c) = q @ [new_ack_record t0 a n]" "\<forall>s \<in> set q. iACKSeqNo s \<noteq> a"
    and n: "B \<le> n" "n \<le> A" and t: "0 < t1 - t0" "in_int32 (t1 - t0)" and r: "0 \<le> rc_iSRTT c" "in_int32 (rc_iSRTT c)"
  shows "\<exists>c'. processCtrlAckAck t1 c (ackack_packet h a) = Some c' \<and> receiver_inv c' L R A n \<and> aw_queue (m_ACKWindow c') = []
    \<and> rc_iSRTT c' = (if rc_bIsFirstRTTReceived c then (rc_iSRTT c * 7 + (t1 - t0)) div 8 else t1 - t0)"
proof -
  have ok: "aw_ok (m_ACKWindow c)" and l: "m_iRcvLastAckAck c = wrapseq B" "R + 1 - B < m_iSeqNoTH" "A \<le> R + 1" using i by (auto simp: receiver_inv_def)
  have "q_ack a (aw_queue (m_ACKWindow c)) = Some (new_ack_record t0 a n, [])"
    using q_ack_last [OF a(3)] by (simp add: a(2) new_ack_record_def)
  with aw_acknowledge_queue [OF ok, where seq = a and currtime = t1] obtain w where
    w: "aw_acknowledge t1 (m_ACKWindow c) a = Some (to_int32 (t1 - t0), Some (wrapseq n), w)" "aw_ok w" "aw_queue w = []"
    by (auto simp: new_ack_record_def)
  have rt: "to_int32 (t1 - t0) = t1 - t0" using t(2) by (simp add: to_int32_def in_int32_def signed_take_bit_int_eq_self_iff)
  let ?c0 = "c\<lparr>m_ACKWindow := w\<rparr>"
  have i0: "receiver_inv ?c0 L R A B" using i w(2) by (simp add: receiver_inv_def)
  have r0: "0 \<le> rc_iSRTT ?c0" "in_int32 (rc_iSRTT ?c0)" using r by simp_all
  obtain c1 where c1: "ackack_rtt ?c0 (t1 - t0) = Some c1"
    "rc_iSRTT c1 = (if rc_bIsFirstRTTReceived ?c0 then (rc_iSRTT ?c0 * 7 + (t1 - t0)) div 8 else t1 - t0)"
    "receiver_inv c1 = receiver_inv ?c0" "m_ACKWindow c1 = m_ACKWindow ?c0" "m_iRcvLastAckAck c1 = m_iRcvLastAckAck ?c0"
    by (rule ackack_rtt_done [OF t r0])
  have i1: "receiver_inv c1 L R A B" using i0 by (simp only: c1(3))
  define c2 where "c2 = r_effect (R_Update_CC (TEV_ACKACK (wrapseq n))) c1"
  have c2: "m_iRcvLastAckAck c2 = wrapseq B" using c1(5) l(1) by (simp add: c2_def r_effect_def)
  define c3 where "c3 = (if rc_bDriftTracer c2
    then c2\<lparr>m_pRcvBuffer := snd (addRcvTsbPdDriftSample (m_pRcvBuffer c2) (getMsgTimeStamp (cp_header (ackack_packet h a))) t1 (t1 - t0))\<rparr> else c2)"
  have c3: "receiver_inv c3 L R A B" "rc_iSRTT c3 = rc_iSRTT c1" "m_ACKWindow c3 = w" "m_iRcvLastAckAck c3 = wrapseq B"
    using c1(4,5) i1 l(1) by (simp_all add: c3_def c2_def r_effect_def receiver_inv_def drift_keeps_mode)
  let ?c4 = "if B < n then c3\<lparr>m_iRcvLastAckAck := wrapseq n\<rparr> else c3"
  have cm: "seqcmp (wrapseq n) (wrapseq B) > 0 \<longleftrightarrow> B < n" using n l(2,3) by (simp add: seq_simps)
  have "processCtrlAckAck t1 c (ackack_packet h a) = Some ?c4"
    using w(1) rt t(1) c1(1) cm c2 ack_number(2) [OF a(1)] by (simp add: processCtrlAckAck_def Let_def c3_def flip: c2_def)
  moreover have "receiver_inv ?c4 L R A n" using c3(1) n by (cases "B < n") (auto simp: receiver_inv_def)
  ultimately show ?thesis using c3(2,3) w(3) c1(2) by auto
qed

section \<open>The sender's answer\<close>

definition grown_effects :: "snd_core \<Rightarrow> snd_core \<Rightarrow> bool" where
  "grown_effects c c' \<longleftrightarrow> (\<exists>es. effects c' = effects c @ es)"

lemma grown_refl: "effects c' = effects c \<Longrightarrow> grown_effects c c'"
  by (auto simp: grown_effects_def)

lemma grown_steps:
  "move_window t c p a = Some c' \<Longrightarrow> grown_effects c c'"
  "full_ack c p a = Some c' \<Longrightarrow> grown_effects c c'"
proof -
  have w: "grown_effects c (if P then effect Snd_update c1 else c1)" if "effects c1 = effects c" for P c1
    using that by (simp add: grown_effects_def effect_def)
  show "grown_effects c c'" if "move_window t c p a = Some c'"
    using that by (cases "ackdata p ACKD_BUFFERLEFT"; cases "seqcmp a (m_iSndLastAck c) \<ge> 0")
      (auto simp: move_window_def Let_def grown_refl simp del: if_split intro: w)
  have r: "effects c1 = effects c" if "take_rtt c r v = Some c1" for r v c1
    using that unfolding take_rtt_def
    by (cases "int32 (r - m_iSRTT c)"; cases "int32 \<bar>r - m_iSRTT c\<bar>") (auto simp: int32_def split: if_splits)
  have x: "effects c2 = effects c1" if "take_rates c1 p k = Some c2" for k c1 c2
    using that by (simp add: take_rates_def split: if_splits Option.bind_splits) auto
  assume f: "full_ack c p a = Some c'"
  show "grown_effects c c'"
  proof (cases "cp_length p div ACKD_FIELD_SIZE < ACKD_TOTAL_SIZE_SMALL")
    case True
    then show ?thesis using f by (simp add: full_ack_def grown_refl)
  next
    case False
    with f obtain r v c1 c2 where "take_rtt c r v = Some c1" "take_rates c1 p (cp_length p div ACKD_FIELD_SIZE) = Some c2"
      "c' = effect (Update_CC (TEV_ACK a)) c2\<lparr>stat_sndr_recvdAck := stat_sndr_recvdAck c2 + 1\<rparr>"
      by (auto simp: full_ack_def Let_def bind_eq_Some_conv)
    then show ?thesis using r x by (simp add: grown_effects_def effect_def)
  qed
qed

lemma ack_answered:
  assumes "processCtrlAck now t c p = Some c'" "ackdata p ACKD_RCVLASTACK = Some n" "0 \<le> n" "cp_length p \<noteq> 4"
    "t - m_SndLastAck2Time c > COMM_SYN_INTERVAL_US"
  shows "Sent UMSG_ACKACK (Some (sint (getAckSeqNo (cp_header p)))) [] \<in> set (effects c')"
proof -
  let ?e = "Sent UMSG_ACKACK (Some (sint (getAckSeqNo (cp_header p)))) []"
  obtain c1 where c1: "updateSndLossListOnACK now c n = Some c1" using assms(1-3) by (auto simp: processCtrlAck_def bind_eq_Some_conv)
  then have "m_SndLastAck2Time c1 = m_SndLastAck2Time c"
    by (auto simp: updateSndLossListOnACK_def Let_def bind_eq_Some_conv split: if_splits)
  then have e: "?e \<in> set (effects (answer_ack t c1 (sint (getAckSeqNo (cp_header p)))))" using assms(5) by (simp add: answer_ack_def effect_def)
  show ?thesis
    using assms(1-4) c1 e
    by (auto simp: processCtrlAck_def SEND_LITE_ACK_def Let_def bind_eq_Some_conv break_connection_def effect_def grown_effects_def
        split: if_splits dest!: grown_steps)
qed

lemma ack_packet_readable:
  assumes ws: "length ws = 4 \<or> length ws = 7" "take 3 ws = [wrapseq n, x, y]" and xy: "0 \<le> x" "in_int32 x" "0 \<le> y" "in_int32 y"
  shows "readable_ack (ack_packet h a ws)" "cp_data (ack_packet h a ws) ! 0 = word_of_int (wrapseq n)" "cp_length (ack_packet h a ws) \<noteq> 4"
    "ackdata (ack_packet h a ws) ACKD_RCVLASTACK = Some (wrapseq n)"
proof -
  have "ws ! i = take 3 ws ! i" if "i < 3" for i using that by simp
  then have w: "ws ! 0 = wrapseq n" "ws ! 1 = x" "ws ! 2 = y" unfolding ws(2) by simp_all
  have l: "2 < length ws" and l0: "0 < length ws" using ws(1) by auto
  show "readable_ack (ack_packet h a ws)"
    using w l ws(1) xy by (auto simp: readable_ack_def ack_packet_def sint_word_of_int32)
  show d: "cp_data (ack_packet h a ws) ! 0 = word_of_int (wrapseq n)" using w(1) nth_map [OF l0, of word_of_int] by (simp add: ack_packet_def)
  show "cp_length (ack_packet h a ws) \<noteq> 4" using l by (simp add: ack_packet_def)
  have "0 < length (cp_data (ack_packet h a ws))" using l0 by (simp add: ack_packet_def)
  then show "ackdata (ack_packet h a ws) ACKD_RCVLASTACK = Some (wrapseq n)" using d by (simp add: ackd_defs ackdata_Some word_wrapseq)
qed

section \<open>Properties\<close>

text \<open>
  C8. One round of acknowledgement over both sides. A receiver that has new data up to its first missing packet
  \<open>n\<close> sends a full ACK for \<open>n\<close> under a fresh ACK number. The sender releases exactly the packets before \<open>n\<close> and answers
  with that ACK number. When the answer arrives, the receiver knows that \<open>n\<close> is confirmed, has emptied its ACK window, and has taken
  the time since the ACK as a sample of the round trip time.
\<close>

theorem ack_round_trip:
  assumes r: "receiver_inv r L R A B" "n = next_missing L R" "A < n" "SrtVersion 1 0 3 \<le> rc_uPeerSrtVersion r"
    and rtt: "0 \<le> rc_iSRTT r" "in_int32 (rc_iSRTT r)" "0 \<le> rc_iRTTVar r" "in_int32 (rc_iRTTVar r)"
    and a: "a = incack (m_iAckSeqNo r)" "\<forall>s \<in> set (aw_queue (m_ACKWindow r)). iACKSeqNo s \<noteq> a"
    and s: "sender_inv c Q la da fa cur S" "srtt_ok c" "n \<le> cur + 1" "cur + 1 - n < m_iSeqNoTH"
    and t: "t1 - m_SndLastAck2Time c > COMM_SYN_INTERVAL_US" "0 < t2 - t0" "in_int32 (t2 - t0)" and sz: "sz \<noteq> 4"
  shows "\<exists>r1 ws c1 r2. sendCtrlAck t0 rates sz r = Some r1 \<and> last (rc_effects r1) = R_Sent UMSG_ACK (Some a) ws
    \<and> processCtrlAck t1 t1 c (ack_packet h a ws) = Some c1
    \<and> sender_inv c1 (drop (nat (n - da)) Q) (max la n) (max da n) (max fa n) cur (if da < n then S - {..<n} else S)
    \<and> Sent UMSG_ACKACK (Some a) [] \<in> set (effects c1)
    \<and> processCtrlAckAck t2 r1 (ackack_packet h' a) = Some r2 \<and> receiver_inv r2 L R n n \<and> aw_queue (m_ACKWindow r2) = []
    \<and> rc_iSRTT r2 = (if rc_bIsFirstRTTReceived r then (rc_iSRTT r * 7 + (t2 - t0)) div 8 else t2 - t0)"
proof -
  have va: "valid_seq a" and B: "B \<le> A" using r(1) a(1) incack_valid by (auto simp: receiver_inv_def)
  from sendCtrlAck_new [OF r(1-3) sz r(4), of t0 rates] obtain r1 ws q where
    r1: "sendCtrlAck t0 rates sz r = Some r1" "receiver_inv r1 L R n B" "last (rc_effects r1) = R_Sent UMSG_ACK (Some a) ws"
    "length ws = 4 \<or> length ws = 7" "take 3 ws = [wrapseq n, rc_iSRTT r, rc_iRTTVar r]"
    "rc_iSRTT r1 = rc_iSRTT r" "rc_bIsFirstRTTReceived r1 = rc_bIsFirstRTTReceived r"
    "aw_queue (m_ACKWindow r1) = q @ [new_ack_record t0 a n]" "set q \<subseteq> set (aw_queue (m_ACKWindow r))"
    unfolding a(1) by blast
  note p = ack_packet_readable [OF r1(4,5) rtt, of h a]
  from processCtrlAck_done [OF s(1,4,3) p(1,2) s(2), of t1 t1] p(3) obtain c1 where
    c1: "processCtrlAck t1 t1 c (ack_packet h a ws) = Some c1"
    "sender_inv c1 (drop (nat (n - da)) Q) (max la n) (max da n) (max fa n) cur (if da < n then S - {..<n} else S)" by auto
  have ans: "Sent UMSG_ACKACK (Some a) [] \<in> set (effects c1)"
    using ack_answered [OF c1(1) p(4) _ p(3) t(1)] wrapseq_bounds(1) [of n] ack_number(1) [OF va, of h ws] by simp
  have "\<forall>s \<in> set q. iACKSeqNo s \<noteq> a" using a(2) r1(9) by blast
  from processCtrlAckAck_done [OF r1(2) va r1(8) this _ order_refl t(2,3), of h'] B r(3) rtt(1,2) r1(6,7) obtain r2 where
    "processCtrlAckAck t2 r1 (ackack_packet h' a) = Some r2" "receiver_inv r2 L R n n" "aw_queue (m_ACKWindow r2) = []"
    "rc_iSRTT r2 = (if rc_bIsFirstRTTReceived r then (rc_iSRTT r * 7 + (t2 - t0)) div 8 else t2 - t0)" by auto
  with r1(1,3) c1 ans show ?thesis by blast
qed

text \<open>A receiver in message mode that has got 7 and 9 and misses 8.\<close>

definition sample_receiver :: "rcv_loss_list \<Rightarrow> rcv_core" where
  "sample_receiver l = \<lparr>m_pRcvBuffer = CRcvBuffer 7 16 \<lparr>m_bTaken = (\<lambda>i. False), m_iNumTaken = 0\<rparr> True, m_pRcvLossList = l, m_FreshLoss = [], m_ACKWindow = CACKWindow 4,
     m_iRcvCurrSeqNo = 9, m_iRcvLastAck = 7, m_iRcvLastAckAck = 7, m_iAckSeqNo = 0, m_bBufferWasFull = False, m_tsLastAckTime = 0,
     m_tdACKInterval = 10000, rc_iSRTT = 100000, rc_iRTTVar = 50000, rc_bIsFirstRTTReceived = False, rc_uPeerSrtVersion = SrtVersion 1 5 6,
     rc_iMaxPayload = 1456, rc_bTSBPD = False, rc_bMessageAPI = True, rc_bSynRecving = True, rc_bDriftTracer = True, rc_bTsbPd = False,
     rc_bTLPktDrop = False, rc_bTsbPdNeedsWakeup = False, rc_bPeerRexmitFlag = True, m_iReorderTolerance = 0, stat_rcvr_sentAck = 0,
     stat_rcvr_dropped = 0, rc_effects = []\<rparr>"

lemma sample_receiver_inv:
  obtains l where "receiver_inv (sample_receiver l) {8} 9 7 7"
proof -
  have w: "wrapseq 7 = 7" "wrapseq 8 = 8" "wrapseq 9 = 9" by (simp_all add: wrapseq_def seqno_const_defs)
  have "rl_rep 0 [] (CRcvLossList rl_demo_mem)" by (rule rl_rep_empty) (simp_all add: rl_demo_mem_def seqno_const_defs)
  from rl_insert_empty [OF this, of 8 8] w obtain l where "rl_rep (- 8) [(8, 8)] l"
    by (auto simp: CRcvLossList_def rl_demo_mem_def)
  then have "rl_abs l {8}" by (force simp: rl_abs_def rset_def)
  moreover have "aw_ok (CACKWindow 4)" using CACKWindow_ok [of 4] by simp
  ultimately have "receiver_inv (sample_receiver l) {8} 9 7 7"
    using w by (simp add: receiver_inv_def sample_receiver_def seqno_const_defs valid_seq_def tsbpd_enabled_def CRcvBuffer_def CTsbpdTime_def)
  then show thesis by (rule that)
qed

theorem ack_round_trip_witness:
  "\<exists>l c Q r1 ws c1 r2. receiver_inv (sample_receiver l) {8} 9 7 7 \<and> sender_inv c Q 7 7 7 9 {} \<and> length Q = 3
    \<and> sendCtrlAck 100 (1, 2, 3) 0 (sample_receiver l) = Some r1 \<and> last (rc_effects r1) = R_Sent UMSG_ACK (Some 1) ws
    \<and> processCtrlAck 20000 20000 c (ack_packet (m_nHeader CPacket) 1 ws) = Some c1 \<and> sender_inv c1 (drop 1 Q) 8 8 8 9 {}
    \<and> processCtrlAckAck 40000 r1 (ackack_packet (m_nHeader CPacket) 1) = Some r2 \<and> receiver_inv r2 {8} 9 8 8 \<and> rc_iSRTT r2 = 39900"
proof -
  obtain l where l: "receiver_inv (sample_receiver l) {8} 9 7 7" by (rule sample_receiver_inv)
  obtain c Q where c: "sender_inv c Q 7 7 7 9 {}" "length Q = 3" "srtt_ok c" "m_SndLastAck2Time c = 0"
    by (rule sample_sender [of 9]) simp_all
  have n: "8 = next_missing {8} 9" by (simp add: next_missing_def)
  have f: "rc_iSRTT (sample_receiver l) = 100000" "rc_iRTTVar (sample_receiver l) = 50000" "incack (m_iAckSeqNo (sample_receiver l)) = 1"
    "SrtVersion 1 0 3 \<le> rc_uPeerSrtVersion (sample_receiver l)" "aw_queue (m_ACKWindow (sample_receiver l)) = []"
    "\<not> rc_bIsFirstRTTReceived (sample_receiver l)"
    using CACKWindow_ok [of 4] by (simp_all add: sample_receiver_def incack_def m_iMaxAckSeqNo_def SrtVersion_def)
  have "0 < 40000 - (100 :: int)" "in_int32 (40000 - 100)" by (simp_all add: in_int32_def)
  from ack_round_trip [OF l n _ f(4), where c = c and a = 1 and ?t0.0 = 100 and ?t1.0 = 20000 and ?t2.0 = 40000 and sz = 0
      and h = "m_nHeader CPacket" and h' = "m_nHeader CPacket" and rates = "(1, 2, 3)" and Q = Q, OF _ _ _ _ _ _ _ c(1,3) _ _ _ this] c(4) f
  obtain r1 ws c1 r2 where "sendCtrlAck 100 (1, 2, 3) 0 (sample_receiver l) = Some r1" "last (rc_effects r1) = R_Sent UMSG_ACK (Some 1) ws"
    "processCtrlAck 20000 20000 c (ack_packet (m_nHeader CPacket) 1 ws) = Some c1" "sender_inv c1 (drop 1 Q) 8 8 8 9 {}"
    "processCtrlAckAck 40000 r1 (ackack_packet (m_nHeader CPacket) 1) = Some r2" "receiver_inv r2 {8} 9 8 8" "rc_iSRTT r2 = 39900"
    by (auto simp: seqno_const_defs in_int32_def COMM_SYN_INTERVAL_US_def)
  with l c(1,2) show ?thesis by blast
qed

section \<open>Losses that the sender gave up\<close>

definition drop_packet :: "header \<Rightarrow> int list \<Rightarrow> ctrl_packet" where
  "drop_packet h ws = \<lparr>cp_header = (setControl h UMSG_DROPREQ)\<lparr>SRT_PH_MSGNO := 0\<rparr>, cp_data = map word_of_int ws, cp_length = 8\<rparr>"

lemma processCtrlDropReq_live:
  assumes m: "rc_bTLPktDrop r" "rc_bTsbPd r" and l: "rl_abs (m_pRcvLossList r) L" "\<forall>n \<in> {a..b}. \<forall>m \<in> L. \<bar>n - m\<bar> < m_iSeqNoTH"
    and ab: "a \<le> b" "b + 1 - a < m_iSeqNoTH" and R: "m_iRcvCurrSeqNo r = wrapseq R" "\<bar>a - (R + 1)\<bar> < m_iSeqNoTH" "\<bar>b - R\<bar> < m_iSeqNoTH"
  shows "\<exists>r'. processCtrlDropReq r (drop_packet h [wrapseq a, wrapseq b]) = Some r' \<and> rl_abs (m_pRcvLossList r') (L - {a..b})
    \<and> m_iRcvCurrSeqNo r' = wrapseq (if a \<le> R + 1 \<and> R < b then b else R) \<and> m_pRcvBuffer r' = m_pRcvBuffer r"
proof -
  let ?p = "drop_packet h [wrapseq a, wrapseq b]"
  have d: "ackdata ?p 0 = Some (wrapseq a)" "ackdata ?p 1 = Some (wrapseq b)" by (simp_all add: ackdata_Some drop_packet_def word_wrapseq)
  from rl_remove_range_correct [OF l(1) ab l(2)] obtain l' where
    l': "rl_remove_range (m_pRcvLossList r) (wrapseq a) (wrapseq b) = Some (True, l')" "rl_abs l' (L - {a..b})" by blast
  have cm: "seqcmp (wrapseq a) (incseq (wrapseq R)) \<le> 0 \<longleftrightarrow> a \<le> R + 1" "seqcmp (wrapseq b) (wrapseq R) > 0 \<longleftrightarrow> R < b"
    using R(2,3) by (simp_all add: seq_simps)
  show ?thesis using m d l' cm R(1)
    by (auto simp: processCtrlDropReq_def dropFromLossLists_def r_effect_def drop_packet_def Let_def)
qed

text \<open>
  C36. A receiver that goes on asking for packets which the sender has released already is settled in one exchange: the
  report neither breaks the connection nor adds anything to the loss list of the sender; the sender answers with a drop request for
  exactly that range, and a receiver with timed delivery and late packet drop then takes exactly that range out of its loss list, moves its latest
  number forward over it if the range reaches it without a gap, and leaves its buffer as it is.
\<close>

theorem stale_losses_settled:
  assumes s: "loss_inv c la cur S" "comparable la cur (a, b)" and ab: "a \<le> b" "b < la" "b + 1 - a < m_iSeqNoTH"
    and r: "rc_bTLPktDrop r" "rc_bTsbPd r" "rl_abs (m_pRcvLossList r) L" "\<forall>n \<in> {a..b}. \<forall>m \<in> L. \<bar>n - m\<bar> < m_iSeqNoTH"
    and R: "m_iRcvCurrSeqNo r = wrapseq R" "\<bar>a - (R + 1)\<bar> < m_iSeqNoTH" "\<bar>b - R\<bar> < m_iSeqNoTH"
  shows "\<exists>c' ws r'. processCtrlLossReport c (report_packet h (report_words [(a, b)]) rest) = Some c'
    \<and> m_bBroken c' = m_bBroken c \<and> sl_abs (m_pSndLossList c') S
    \<and> Sent UMSG_DROPREQ (Some 0) ws \<in> set (effects c')
    \<and> processCtrlDropReq r (drop_packet h' ws) = Some r' \<and> rl_abs (m_pRcvLossList r') (L - {a..b})
    \<and> m_iRcvCurrSeqNo r' = wrapseq (if a \<le> R + 1 \<and> R < b then b else R) \<and> m_pRcvBuffer r' = m_pRcvBuffer r"
proof -
  have "b \<le> cur" using s(1) ab(2) by (simp add: loss_inv_def)
  then have "heard la cur [(a, b)] = (True, {}, [(a, b)])" using ab by simp
  from processCtrlLossReport_heard [OF s(1) _ this, of h rest] s(2) obtain c1 where c1: "report_done c c1 S {} [(a, b)]"
    "processCtrlLossReport c (report_packet h (report_words [(a, b)]) rest) = Some ((effect Snd_update
       (effect (Update_CC (TEV_LOSSREPORT (report_words [(a, b)]))) c1))\<lparr>stat_sndr_recvdNak := stat_sndr_recvdNak c + 1\<rparr>)"
    by (auto simp: Let_def)
  let ?ws = "[wrapseq a, wrapseq b]"
  from processCtrlDropReq_live [OF r ab(1,3) R, of h'] c1 show ?thesis
    by (intro exI [of _ "the (processCtrlLossReport c (report_packet h (report_words [(a, b)]) rest))"] exI [of _ ?ws])
      (auto simp: report_done_def requests_def effect_def)
qed

theorem stale_losses_settled_witness:
  "\<forall>b hdr. \<exists>l c' ws r'. processCtrlLossReport (sample_core b (CSndLossList sl_demo_mem) 9 12) (report_packet hdr (report_words [(8, 8)]) []) = Some c'
    \<and> sl_abs (m_pSndLossList c') {} \<and> processCtrlDropReq (sample_receiver l\<lparr>rc_bTLPktDrop := True, rc_bTsbPd := True\<rparr>) (drop_packet hdr ws) = Some r'
    \<and> rl_abs (m_pRcvLossList (sample_receiver l)) {8} \<and> rl_abs (m_pRcvLossList r') {}"
proof (intro allI)
  fix b hdr
  obtain l where l: "receiver_inv (sample_receiver l) {8} 9 7 7" by (rule sample_receiver_inv)
  let ?r = "sample_receiver l\<lparr>rc_bTLPktDrop := True, rc_bTsbPd := True\<rparr>" and ?c = "sample_core b (CSndLossList sl_demo_mem) 9 12"
  have i: "loss_inv ?c 9 12 {}" by (rule sample_loss_inv) (simp_all add: valid_seq_def seqno_const_defs)
  have r: "rl_abs (m_pRcvLossList ?r) {8}" "rl_abs (m_pRcvLossList (sample_receiver l)) {8}" "m_iRcvCurrSeqNo ?r = wrapseq 9"
    using l by (simp_all add: receiver_inv_def)
  from stale_losses_settled [OF i, of 8 8 ?r "{8}" 9 hdr "[]" hdr] r obtain c' ws r' where
    "processCtrlLossReport ?c (report_packet hdr (report_words [(8, 8)]) []) = Some c'" "sl_abs (m_pSndLossList c') {}"
    "processCtrlDropReq ?r (drop_packet hdr ws) = Some r'" "rl_abs (m_pRcvLossList r') {}"
    by (auto simp: comparable_def seqno_const_defs)
  with r(2) show "\<exists>l c' ws r'. processCtrlLossReport (sample_core b (CSndLossList sl_demo_mem) 9 12) (report_packet hdr (report_words [(8, 8)]) []) = Some c'
    \<and> sl_abs (m_pSndLossList c') {} \<and> processCtrlDropReq (sample_receiver l\<lparr>rc_bTLPktDrop := True, rc_bTsbPd := True\<rparr>) (drop_packet hdr ws) = Some r'
    \<and> rl_abs (m_pRcvLossList (sample_receiver l)) {8} \<and> rl_abs (m_pRcvLossList r') {}" by blast
qed

end
