(* ===== verification/SndPath.thy ===== *)
theory SndPath
  imports SndFeedback
begin

text \<open>
  The way of a data packet out of \<^verbatim>\<open>CUDT\<close> (\<^verbatim>\<open>core.cpp\<close>): \<^verbatim>\<open>packData\<close>, which the sending
  thread calls for the next packet, with \<^verbatim>\<open>packLostData\<close> for the packets listed as lost and \<^verbatim>\<open>packUniqueData\<close> for
  the ones not sent yet, and \<^verbatim>\<open>sndDropTooLate\<close>, which gives up packets that would come too late.

  The state is the core of the sender with what was negotiated in the handshake. Each reading of the clock gives
  the next value of the argument \<open>clk\<close>, the number of readings so far being \<open>ticks\<close>; one reading
  serves a call of \<^verbatim>\<open>readData\<close>. The loops of the code are partial functions: \<open>None\<close> where they do not end. As
  the build has it by default, there is no limit for the bandwidth of retransmissions, no rate measurement and no busy waiting; the
  connection has no packet filter and no group. A socket that sends encrypted packets is left out, except that retransmitted
  packets get the length of the authentication tag.
\<close>

unbundle bit_operations_syntax

section \<open>State\<close>

record snd_path =
  core :: snd_core
  negotiated :: hs_agent
  m_tsStartTime :: int
  m_PeerID :: "32 word"
  m_bModeGCM :: bool
  m_bOpened :: bool
  m_tsNextSendTime :: int
  m_tdSendTimeDiff :: int
  m_tdSendInterval :: int
  m_tsLastSndTime :: int
  m_tsSndHsLastTime :: int
  stat_sndr_sent :: "int \<times> int"
  stat_sndr_sentUnique :: "int \<times> int"
  stat_sndr_sentRetrans :: "int \<times> int"
  stat_sndr_dropped :: "int \<times> int"
  ticks :: nat

text \<open>A counter holds packets and bytes.\<close>

definition count_stat :: "int \<Rightarrow> int \<Rightarrow> int \<times> int \<Rightarrow> int \<times> int" where
  "count_stat n bytes st = (fst st + n, snd st + bytes)"

definition tick :: "snd_path \<Rightarrow> snd_path" where
  "tick s = s\<lparr>ticks := Suc (ticks s)\<rparr>"

definition request_drop :: "32 word \<Rightarrow> int \<Rightarrow> int \<Rightarrow> snd_path \<Rightarrow> snd_path" where
  "request_drop no lo hi s = s\<lparr>core := effect (Sent UMSG_DROPREQ (Some (sint no)) [lo, hi]) (core s)\<rparr>"

section \<open>Time stamps\<close>

definition makeTS :: "int \<Rightarrow> int \<Rightarrow> 32 word" where
  "makeTS from_time tsStart = word_of_int (from_time - tsStart)"

definition set_timestamp :: "packet \<Rightarrow> 32 word \<Rightarrow> packet" where
  "set_timestamp w t = w\<lparr>m_nHeader := (m_nHeader w)\<lparr>SRT_PH_TIMESTAMP := t\<rparr>\<rparr>"

definition set_id :: "packet \<Rightarrow> 32 word \<Rightarrow> packet" where
  "set_id w i = w\<lparr>m_nHeader := (m_nHeader w)\<lparr>SRT_PH_ID := i\<rparr>\<rparr>"

definition setDataPacketTS :: "(nat \<Rightarrow> int) \<Rightarrow> snd_path \<Rightarrow> packet \<Rightarrow> int \<Rightarrow> packet \<times> snd_path" where
  "setDataPacketTS clk s w ts =
     (if \<not> m_bPeerTsbPd (negotiated s) \<or> ts < m_tsStartTime s
      then (set_timestamp w (makeTS (clk (ticks s)) (m_tsStartTime s)), tick s)
      else (set_timestamp w (makeTS ts (m_tsStartTime s)), s))"

section \<open>Retransmission\<close>

definition pop_lost :: "snd_path \<Rightarrow> (int \<times> snd_path) option" where
  "pop_lost s = do { (seq, l) \<leftarrow> sl_popLostSeq (m_pSndLossList (core s)); Some (seq, s\<lparr>core := (core s)\<lparr>m_pSndLossList := l\<rparr>\<rparr>) }"

definition checkRexmitRightTime :: "snd_path \<Rightarrow> int \<Rightarrow> int \<Rightarrow> bool option" where
  "checkRexmitRightTime s offset current_time =
     (if \<not> m_bPeerNakReport (negotiated s) \<or> iRetransmitAlgo (m_config (negotiated s)) = 0 then Some True
      else do { v \<leftarrow> int32 (4 * m_iRTTVar (core s));
                d \<leftarrow> int32 (m_iSRTT (core s) - v);
                t \<leftarrow> getPacketRexmitTime (m_pSndBuffer (core s)) offset;
                Some (\<not> t \<ge> current_time - d) })"

text \<open>The inner loop: on to the first number that is not outdated.\<close>

partial_function (option) skip_outdated :: "snd_path \<Rightarrow> (int \<times> int \<times> snd_path) option" where
  "skip_outdated s =
     do { (seq, s1) \<leftarrow> pop_lost s;
          if seq = SRT_SEQNO_NONE then Some (seq, -1, s1)
          else let offset = seqoff (m_iSndLastDataAck (core s1)) seq
               in if offset \<ge> 0 then Some (seq, offset, s1) else skip_outdated s1 }"

text \<open>The branch for a number that is outdated: one request for all of them.\<close>

definition settle_outdated :: "int \<Rightarrow> snd_path \<Rightarrow> (int \<times> int \<times> snd_path) option" where
  "settle_outdated oldest_outdated_seq s =
     do { (seq, offset, s1) \<leftarrow> skip_outdated s;
          Some (seq, offset, request_drop MSGNO_CONTROL oldest_outdated_seq (decseq (m_iSndLastDataAck (core s1))) s1) }"

partial_function (option) getCleanRexmitOffset :: "(nat \<Rightarrow> int) \<Rightarrow> snd_path \<Rightarrow> (int \<times> int \<times> snd_path) option" where
  "getCleanRexmitOffset clk s =
     do { (seq0, s1) \<leftarrow> pop_lost s;
          if seq0 = SRT_SEQNO_NONE then Some (SRT_SEQNO_NONE, -1, s1)
          else do { (seq, offset, s2) \<leftarrow> (let offset0 = seqoff (m_iSndLastDataAck (core s1)) seq0
                                          in if offset0 < 0 then settle_outdated seq0 s1 else Some (seq0, offset0, s1));
                    if seq = SRT_SEQNO_NONE then Some (SRT_SEQNO_NONE, -1, s2)
                    else do { right \<leftarrow> checkRexmitRightTime s2 offset (clk (ticks s2));
                              if right then Some (seq, offset, tick s2) else getCleanRexmitOffset clk (tick s2) } } }"

text \<open>One round of the repeatable block: \<open>Inl\<close> returns, \<open>Inr\<close> continues.\<close>

definition extract_round :: "(nat \<Rightarrow> int) \<Rightarrow> int \<Rightarrow> int \<Rightarrow> packet \<Rightarrow> snd_path \<Rightarrow> ((int \<times> packet \<times> int \<times> snd_path) + snd_path) option" where
  "extract_round clk seqno offset w_packet s =
     (let w = set_seqno w_packet seqno
      in do { (res, b) \<leftarrow> readData_rexmit (clk (ticks s)) (m_pSndBuffer (core s)) offset w;
              let s1 = (tick s)\<lparr>core := (core s)\<lparr>m_pSndBuffer := b\<rparr>\<rparr>
              in case res of
                   Read_Drop d \<Rightarrow>
                     (let s2 = request_drop (dr_msgno d) (dr_begin d) (dr_end d) s1
                      in do { l \<leftarrow> sl_removeUpTo (m_pSndLossList (core s2)) (dr_end d);
                              Some (Inr (s2\<lparr>core := (core s2)\<lparr>m_pSndLossList := l,
                                 m_iSndCurrSeqNo := maxseq (m_iSndCurrSeqNo (core s2)) (dr_end d)\<rparr>\<rparr>)) })
                 | Read_None \<Rightarrow> Some (Inl (0, w, 0, s1))
                 | Read_Data payload w' tsOrigin \<Rightarrow> Some (Inl (payload, w', tsOrigin, s1)) })"

partial_function (option) extractCleanRexmitPacket :: "(nat \<Rightarrow> int) \<Rightarrow> int \<Rightarrow> int \<Rightarrow> packet \<Rightarrow> snd_path
    \<Rightarrow> (int \<times> packet \<times> int \<times> snd_path) option" where
  "extractCleanRexmitPacket clk seqno offset w_packet s =
     do { r \<leftarrow> extract_round clk seqno offset w_packet s;
          case r of Inl x \<Rightarrow> Some x | Inr s' \<Rightarrow> extractCleanRexmitPacket clk seqno offset w_packet s' }"

definition PACKET_SND_REXMIT :: "32 word" where "PACKET_SND_REXMIT = BitsetMask 26 26"

definition packLostData :: "(nat \<Rightarrow> int) \<Rightarrow> packet \<Rightarrow> snd_path \<Rightarrow> (int \<times> packet \<times> snd_path) option" where
  "packLostData clk w_packet s =
     do { (seqno, offset, s1) \<leftarrow> getCleanRexmitOffset clk s;
          if seqno = SRT_SEQNO_NONE then Some (0, w_packet, s1)
          else do { (payload, w1, tsOrigin, s2) \<leftarrow> extractCleanRexmitPacket clk seqno offset w_packet s1;
                    if payload \<le> 0 then Some (0, w1, s2)
                    else let w2 = (if m_bModeGCM s2 then setLength w1 (getLength w1 + nat HAICRYPT_AUTHTAG_MAX) else w1);
                             s3 = s2\<lparr>stat_sndr_sentRetrans := count_stat 1 (int (getLength w2)) (stat_sndr_sentRetrans s2)\<rparr>;
                             w3 = (if m_bPeerRexmitFlag (negotiated s3)
                                   then set_msgflags w2 (SRT_PH_MSGNO (m_nHeader w2) OR PACKET_SND_REXMIT) else w2);
                             (w4, s4) = setDataPacketTS clk s3 w3 tsOrigin
                         in Some (int (getLength w4), w4, s4) } }"

section \<open>Packets not sent yet\<close>

definition isRegularSendingPriority :: "snd_path \<Rightarrow> bool option" where
  "isRegularSendingPriority s =
     (if \<not> m_bPeerTLPktDrop (negotiated s) \<or> \<not> bMessageAPI (m_config (negotiated s)) then Some False
      else do { tsNextPacket \<leftarrow> peekNextOriginal (m_pSndBuffer (core s)); Some (tsNextPacket \<noteq> 0) })"

text \<open>Without encryption the key flag is 0.\<close>

definition packUniqueData :: "(nat \<Rightarrow> int) \<Rightarrow> packet \<Rightarrow> snd_path \<Rightarrow> (bool \<times> packet \<times> snd_path) option" where
  "packUniqueData clk w_packet s =
     (if min (m_iFlowWindowSize (core s)) (m_iCongestionWindow (core s)) \<le> getFlightSpan (core s) then Some (False, w_packet, s)
      else do { (pld_size, w1, tsOrigin, pktskipseqno, b) \<leftarrow> readData (clk (ticks s)) 0 (m_pSndBuffer (core s)) w_packet 0;
                let c1 = (core s)\<lparr>m_pSndBuffer := b\<rparr>;
                    c2 = (if pktskipseqno \<noteq> 0 then c1\<lparr>m_iSndCurrSeqNo := incseq_by (m_iSndCurrSeqNo c1) pktskipseqno\<rparr> else c1)
                in if pld_size = 0 then Some (False, w1, (tick s)\<lparr>core := c2\<rparr>)
                   else let c3 = c2\<lparr>m_iSndCurrSeqNo := incseq (m_iSndCurrSeqNo c2)\<rparr>;
                            w2 = set_id (set_seqno w1 (m_iSndCurrSeqNo c3)) (m_PeerID s);
                            (w3, s3) = setDataPacketTS clk ((tick s)\<lparr>core := c3\<rparr>) w2 tsOrigin
                        in Some (True, w3, s3) })"

section \<open>The next packet\<close>

definition SRT_MAX_HSRETRY :: int where "SRT_MAX_HSRETRY = 10"
definition PUMASK_SEQNO_PROBE :: "32 word" where "PUMASK_SEQNO_PROBE = 0xF"

text \<open>\<^verbatim>\<open>considerLegacySrtHandshake\<close> as called here, with no time base.\<close>

definition considerLegacySrtHandshake :: "(nat \<Rightarrow> int) \<Rightarrow> snd_path \<Rightarrow> snd_path" where
  "considerLegacySrtHandshake clk s =
     (let a = negotiated s
      in if \<not> isOPT_TsbPd a \<or> \<not> bDataSender (m_config a) \<or> m_iSndHsRetryCnt a \<le> 0 then s
         else if m_iSndHsRetryCnt a < SRT_MAX_HSRETRY + 1 then tick s
         else (tick s)\<lparr>negotiated := a\<lparr>m_iSndHsRetryCnt := m_iSndHsRetryCnt a - 1\<rparr>, m_tsSndHsLastTime := clk (ticks s),
                core := effect Send_HSREQ (core s)\<rparr>)"

text \<open>The time of the next call, at the end of \<^verbatim>\<open>packData\<close>.\<close>

definition next_send_time :: "bool \<Rightarrow> int \<Rightarrow> snd_path \<Rightarrow> snd_path" where
  "next_send_time probe enter_time s =
     (let sendint = m_tdSendInterval s; sendbrw = m_tdSendTimeDiff s
      in if probe then s\<lparr>m_tsNextSendTime := enter_time, m_tdSendTimeDiff := sendbrw - sendint\<rparr>
         else if sendbrw \<ge> sendint then s\<lparr>m_tsNextSendTime := enter_time, m_tdSendTimeDiff := sendbrw - sendint\<rparr>
         else s\<lparr>m_tsNextSendTime := enter_time + (sendint - sendbrw), m_tdSendTimeDiff := 0\<rparr>)"

text \<open>What is done with a packet that was packed, \<open>payload\<close> bytes long.\<close>

definition packed :: "(nat \<Rightarrow> int) \<Rightarrow> int \<Rightarrow> bool \<Rightarrow> int \<Rightarrow> packet \<Rightarrow> snd_path \<Rightarrow> bool \<times> packet \<times> int \<times> snd_path" where
  "packed clk enter_time new_packet_packed payload w_packet s =
     (let probe = (new_packet_packed \<and> SRT_PH_SEQNO (m_nHeader w_packet) AND PUMASK_SEQNO_PROBE = 0);
          w = set_id w_packet (m_PeerID s);
          s1 = considerLegacySrtHandshake clk (s\<lparr>m_tsLastSndTime := enter_time\<rparr>);
          s2 = s1\<lparr>core := effect (Update_CC (TEV_SEND w)) (core s1),
                  stat_sndr_sent := count_stat 1 payload (stat_sndr_sent s1),
                  stat_sndr_sentUnique := (if new_packet_packed then count_stat 1 payload (stat_sndr_sentUnique s1) else stat_sndr_sentUnique s1)\<rparr>;
          s3 = next_send_time probe enter_time s2
      in (payload \<ge> 0, w, m_tsNextSendTime s3, s3))"

definition packData :: "(nat \<Rightarrow> int) \<Rightarrow> packet \<Rightarrow> snd_path \<Rightarrow> (bool \<times> packet \<times> int \<times> snd_path) option" where
  "packData clk w_packet s0 =
     (let enter_time = clk (ticks s0);
          s = (if m_tsNextSendTime s0 \<noteq> 0 \<and> enter_time > m_tsNextSendTime s0
               then (tick s0)\<lparr>m_tdSendTimeDiff := m_tdSendTimeDiff s0 + (enter_time - m_tsNextSendTime s0)\<rparr> else tick s0)
      in if \<not> m_bOpened s then Some (False, w_packet, enter_time, s)
         else do { regular \<leftarrow> isRegularSendingPriority s;
                   (payload, w1, s1) \<leftarrow> (if \<not> regular then packLostData clk w_packet s else Some (0, w_packet, s));
                   let s2 = tick s1
                   in if payload > 0 then Some (packed clk enter_time False payload w1 s2)
                      else do { (ok, w2, s3) \<leftarrow> packUniqueData clk w1 s2;
                                if \<not> ok then Some (False, w2, enter_time, s3\<lparr>m_tsNextSendTime := 0, m_tdSendTimeDiff := 0\<rparr>)
                                else Some (packed clk enter_time True (int (getLength w2)) w2 s3) } })"

section \<open>Packets too late\<close>

definition SRT_TLPKTDROP_MINTHRESHOLD_MS :: int where "SRT_TLPKTDROP_MINTHRESHOLD_MS = 1000"

datatype snd_exception = MN_INVALBUFFERAPI

text \<open>What follows when \<open>dpkts\<close> packets have left the buffer.\<close>

definition give_up :: "int \<Rightarrow> int \<Rightarrow> snd_buffer \<Rightarrow> snd_path \<Rightarrow> snd_path option" where
  "give_up dpkts dbytes b s =
     (let c = core s; fakeack = incseq_by (m_iSndLastDataAck c) dpkts; minlastack = decseq fakeack
      in do { l \<leftarrow> sl_removeUpTo (m_pSndLossList c) minlastack;
              Some (s\<lparr>core := c\<lparr>m_pSndBuffer := b, m_pSndLossList := l, m_iFlowWindowSize := m_iFlowWindowSize c + dpkts,
                        m_iSndLastAck := fakeack, m_iSndLastDataAck := fakeack,
                        m_iSndCurrSeqNo := (if seqcmp (m_iSndCurrSeqNo c) minlastack < 0 then minlastack else m_iSndCurrSeqNo c)\<rparr>,
                      stat_sndr_dropped := count_stat dpkts dbytes (stat_sndr_dropped s)\<rparr>) })"

definition drop_threshold :: "hs_agent \<Rightarrow> int option" where
  "drop_threshold a =
     (let cfg = m_config a
      in if iSndDropDelay cfg \<ge> 0
         then do { d \<leftarrow> int32 (m_iPeerTsbPdDelay_ms a + iSndDropDelay cfg);
                   int32 (max d SRT_TLPKTDROP_MINTHRESHOLD_MS + (2 * COMM_SYN_INTERVAL_US sdiv 1000)) }
         else Some 0)"

definition sndDropTooLate :: "(nat \<Rightarrow> int) \<Rightarrow> snd_path \<Rightarrow> (snd_exception + int \<times> snd_path) option" where
  "sndDropTooLate clk s0 =
     (let a = negotiated s0
      in if \<not> m_bPeerTLPktDrop a then Some (Inr (0, s0))
         else if \<not> bMessageAPI (m_config a) then Some (Inl MN_INVALBUFFERAPI)
         else let tnow = clk (ticks s0); s = tick s0
              in do { delay \<leftarrow> getBufferingDelay (m_pSndBuffer (core s)) tnow;
                      threshold_ms \<leftarrow> drop_threshold a;
                      if threshold_ms = 0 \<or> sint (word_of_int (delay sdiv 1000) :: 32 word) \<le> threshold_ms then Some (Inr (0, s))
                      else do { (dpkts, dbytes, first_msgno, b) \<leftarrow> dropLateData (m_pSndBuffer (core s)) (tnow - threshold_ms * 1000);
                                if dpkts \<le> 0 then Some (Inr (0, s\<lparr>core := (core s)\<lparr>m_pSndBuffer := b\<rparr>\<rparr>))
                                else do { s' \<leftarrow> give_up dpkts dbytes b s; Some (Inr (dpkts, s')) } } })"

end
