(* ===== verification/SndPathSpec.thy ===== *)
theory SndPathSpec
  imports SndPath AckReport
begin

text \<open>
  Retransmission: which of the listed packets is taken up next, that it goes out as it did the first time, and
  what becomes of a packet whose time to live has passed. \<open>listed\<close> ties the loss list and the sender buffer
  together: the buffer holds the packets from \<open>da\<close> on, and the numbers of the loss list lie near them.
\<close>

section \<open>The packet to take up next\<close>

definition listed :: "snd_path \<Rightarrow> snd_pkt list \<Rightarrow> nat \<Rightarrow> int \<Rightarrow> int set \<Rightarrow> bool" where
  "listed s Q k da S \<longleftrightarrow> sl_abs (m_pSndLossList (core s)) S \<and> m_iSndLastDataAck (core s) = wrapseq da
     \<and> (\<forall>m \<in> S. \<bar>m - da\<bar> < m_iSeqNoTH \<and> m < da + int (length Q))
     \<and> (\<exists>r. sb_inv (m_pSndBuffer (core s)) r k \<and> sq_pkts (sb_abs (m_pSndBuffer (core s)) r k) = Q)"

lemma sl_abs_finite: "sl_abs l S \<Longrightarrow> finite S"
  by (auto simp: sl_abs_def finite_rset)

text \<open>The members that the search for a packet and its retransmission leave alone.\<close>

definition frame :: "snd_path \<Rightarrow> hs_agent \<times> (int \<times> 32 word \<times> bool \<times> bool) \<times> (int \<times> int \<times> int \<times> int \<times> int \<times> int \<times> int \<times> int \<times> int) \<times> bool" where
  "frame s = (negotiated s, (m_tsStartTime s, m_PeerID s, m_bModeGCM s, m_bOpened s),
     (m_iSndCurrSeqNo (core s), m_iSndLastAck (core s), m_iSndLastDataAck (core s), m_iSndLastFullAck (core s), m_iFlowWindowSize (core s),
      m_iCongestionWindow (core s), m_iSRTT (core s), m_iRTTVar (core s), sl_iSize (m_pSndLossList (core s))), m_bBroken (core s))"

abbreviation same_path :: "snd_path \<Rightarrow> snd_path \<Rightarrow> bool" where
  "same_path s s' \<equiv> frame s' = frame s"

lemma frame_simps [simp]:
  "frame (tick s) = frame s" "frame (request_drop no lo hi s) = frame s"
  "frame (s\<lparr>core := c\<lparr>m_pSndBuffer := b\<rparr>\<rparr>) = frame (s\<lparr>core := c\<rparr>)"
  "frame (s\<lparr>stat_sndr_sentRetrans := st\<rparr>) = frame s" "frame (s\<lparr>core := core s\<rparr>) = frame s"
  by (simp_all add: frame_def tick_def request_drop_def effect_def)

lemma same_path_tick: "same_path s s' \<Longrightarrow> same_path s (tick s')"
  by simp

lemma same_path_trans: "same_path s s1 \<Longrightarrow> same_path s1 s2 \<Longrightarrow> same_path s s2"
  by simp

lemma pop_lost_least:
  assumes "listed s Q k da S"
  shows "\<exists>s'. pop_lost s = Some (if S = {} then SRT_SEQNO_NONE else wrapseq (Min S), s') \<and> same_path s s' \<and> ticks s' = ticks s
    \<and> effects (core s') = effects (core s) \<and> listed s' Q k da (S - {Min S})"
proof -
  from assms sl_popLostSeq_correct [of "m_pSndLossList (core s)" S] obtain l where
    l: "sl_popLostSeq (m_pSndLossList (core s)) = Some (if S = {} then SRT_SEQNO_NONE else wrapseq (Min S), l)"
      "sl_abs l (S - {Min S})" "sl_iSize l = sl_iSize (m_pSndLossList (core s))" by (auto simp: listed_def)
  let ?s = "s\<lparr>core := (core s)\<lparr>m_pSndLossList := l\<rparr>\<rparr>"
  have "same_path s ?s" using l(3) by (simp add: frame_def)
  moreover have "listed ?s Q k da (S - {Min S})" using assms l(2) by (auto simp: listed_def)
  ultimately show ?thesis using l(1) by (simp add: pop_lost_def)
qed

lemma wrapseq_not_none [simp]: "wrapseq n \<noteq> SRT_SEQNO_NONE"
  using wrapseq_bounds [of n] by (simp add: SRT_SEQNO_NONE_def)

text \<open>The numbers that are outdated, in front of the data the buffer holds, are skipped.\<close>

lemma skip_outdated_done:
  assumes "listed s Q k da S"
  shows "\<exists>s'. skip_outdated s = Some (if S \<inter> {da..} = {} then SRT_SEQNO_NONE else wrapseq (Min (S \<inter> {da..})),
        if S \<inter> {da..} = {} then -1 else Min (S \<inter> {da..}) - da, s') \<and> same_path s s' \<and> ticks s' = ticks s
    \<and> effects (core s') = effects (core s) \<and> listed s' Q k da (S \<inter> {da..} - {Min (S \<inter> {da..})})"
  using assms
proof (induction "card S" arbitrary: s S)
  case 0
  then have S: "S = {}" using sl_abs_finite by (auto simp: listed_def)
  with pop_lost_least [OF 0(2)] show ?case by (auto simp: skip_outdated.simps)
next
  case (Suc j)
  have f: "finite S" "S \<noteq> {}" using Suc.prems Suc.hyps(2) sl_abs_finite by (auto simp: listed_def)
  let ?m = "Min S"
  from pop_lost_least [OF Suc.prems] f obtain s1 where s1: "pop_lost s = Some (wrapseq ?m, s1)" "same_path s s1"
    "ticks s1 = ticks s" "effects (core s1) = effects (core s)" "listed s1 Q k da (S - {?m})" by auto
  have m: "?m \<in> S" "m_iSndLastDataAck (core s1) = wrapseq da" using f s1(5) by (auto simp: listed_def)
  have off: "seqoff (wrapseq da) (wrapseq ?m) = ?m - da" using Suc.prems m(1) by (intro seqoff_wrapseq) (auto simp: listed_def abs_minus_commute)
  show ?case
  proof (cases "da \<le> ?m")
    case True
    then have e: "S \<inter> {da..} = S" using f by (auto intro: order_trans [OF True Min_le])
    show ?thesis unfolding e using s1 True f m off by (simp add: skip_outdated.simps)
  next
    case False
    then have e: "(S - {?m}) \<inter> {da..} = S \<inter> {da..}" by auto
    have "j = card (S - {?m})" using Suc.hyps(2) f by simp
    from Suc.hyps(1) [OF this s1(5)] obtain s' where s': "skip_outdated s1 = Some (if S \<inter> {da..} = {} then SRT_SEQNO_NONE else wrapseq (Min (S \<inter> {da..})),
        if S \<inter> {da..} = {} then -1 else Min (S \<inter> {da..}) - da, s')" "same_path s1 s'" "ticks s' = ticks s1"
      "effects (core s') = effects (core s1)" "listed s' Q k da (S \<inter> {da..} - {Min (S \<inter> {da..})})" unfolding e by blast
    have "skip_outdated s = skip_outdated s1" using s1(1) False m(2) off by (simp add: skip_outdated.simps [of s])
    then show ?thesis using s' same_path_trans [OF s1(2) s'(2)] s1(3,4) by simp
  qed
qed

text \<open>Whether the time is right to send the packet \<open>n\<close> again.\<close>

definition right_time :: "snd_path \<Rightarrow> snd_pkt list \<Rightarrow> int \<Rightarrow> int \<Rightarrow> int \<Rightarrow> bool" where
  "right_time s Q da n now \<longleftrightarrow> \<not> m_bPeerNakReport (negotiated s) \<or> iRetransmitAlgo (m_config (negotiated s)) = 0
     \<or> sp_rexmit (Q ! nat (n - da)) < now - (m_iSRTT (core s) - 4 * m_iRTTVar (core s))"

definition rtt_fits :: "snd_path \<Rightarrow> bool" where
  "rtt_fits s \<longleftrightarrow> \<not> m_bPeerNakReport (negotiated s) \<or> iRetransmitAlgo (m_config (negotiated s)) = 0
     \<or> in_int32 (4 * m_iRTTVar (core s)) \<and> in_int32 (m_iSRTT (core s) - 4 * m_iRTTVar (core s))"

lemma same_path_right: "same_path s s' \<Longrightarrow> right_time s' Q da = right_time s Q da \<and> rtt_fits s' = rtt_fits s"
  by (intro conjI ext) (auto simp: frame_def right_time_def rtt_fits_def)

lemma rexmit_time_of:
  assumes "listed s Q k da S" "i < length Q"
  shows "getPacketRexmitTime (m_pSndBuffer (core s)) (int i) = Some (sp_rexmit (Q ! i))"
proof -
  obtain r where b: "sb_inv (m_pSndBuffer (core s)) r k" "sq_pkts (sb_abs (m_pSndBuffer (core s)) r k) = Q"
    using assms(1) by (auto simp: listed_def)
  have Q: "Q = map pkt_of (occupied (m_pSndBuffer (core s)) r)" using b(2) by (simp add: sb_abs_def)
  have i: "i < nat (m_iCount (m_pSndBuffer (core s)))" using assms(2) length_occupied [OF b(1)] Q by simp
  have "sp_rexmit (Q ! i) = m_tsRexmitTime (m_blocks (m_pSndBuffer (core s)) ! (r ! i))"
    using pkts_nth(1) [OF b(1) i] Q by (simp add: pkt_of_def)
  then show ?thesis using walk_ring [OF b(1), of i] next_in_ring(2) [OF b(1) count_in_ring [OF b(1) i]] i
    by (simp add: getPacketRexmitTime_def)
qed

lemma checkRexmitRightTime_right:
  assumes "listed s Q k da S" "rtt_fits s" "da \<le> n" "n < da + int (length Q)"
  shows "checkRexmitRightTime s (n - da) now = Some (right_time s Q da n now)"
  using assms rexmit_time_of [OF assms(1), of "nat (n - da)"]
  by (auto simp: checkRexmitRightTime_def right_time_def rtt_fits_def int32_def not_le)

text \<open>The first of the numbers whose time is right, what is left behind it, and the clock readings this takes.\<close>

fun next_right :: "(int \<Rightarrow> int \<Rightarrow> bool) \<Rightarrow> (nat \<Rightarrow> int) \<Rightarrow> nat \<Rightarrow> int list \<Rightarrow> int option \<times> int list \<times> nat" where
  "next_right ok clk t [] = (None, [], t)"
| "next_right ok clk t (n # ns) = (if ok n (clk t) then (Some n, ns, Suc t) else next_right ok clk (Suc t) ns)"

lemma next_right_in:
  "next_right ok clk t ns = (res, rest, t') \<Longrightarrow> set rest \<subseteq> set ns \<and> (\<forall>n. res = Some n \<longrightarrow> n \<in> set ns) \<and> (res = None \<longrightarrow> rest = [])"
  by (induction ok clk t ns rule: next_right.induct) (auto split: if_splits)

definition outdated_request :: "int \<Rightarrow> int set \<Rightarrow> core_effect list" where
  "outdated_request da S = (if S \<inter> {..<da} = {} then [] else [Sent UMSG_DROPREQ (Some 0) [wrapseq (Min S), wrapseq (da - 1)]])"

lemma getClean_no_list: "listed s Q k da {} \<Longrightarrow> \<exists>s'. getCleanRexmitOffset clk s = Some (SRT_SEQNO_NONE, -1, s') \<and> same_path s s'
    \<and> ticks s' = ticks s \<and> effects (core s') = effects (core s) \<and> listed s' Q k da {}"
  using pop_lost_least [of s Q k da "{}"] by (auto simp: getCleanRexmitOffset.simps)

text \<open>The first step, up to the check of the time: the first number that is not outdated, with a request for those that are.\<close>

lemma first_candidate:
  assumes l: "listed s Q k da S" and S: "S \<noteq> {}" and T: "T = S \<inter> {da..}"
  shows "\<exists>s'. (do { (seq0, s1) \<leftarrow> pop_lost s;
                     let offset0 = seqoff (m_iSndLastDataAck (core s1)) seq0
                     in if offset0 < 0 then settle_outdated seq0 s1 else Some (seq0, offset0, s1) })
        = Some (if T = {} then SRT_SEQNO_NONE else wrapseq (Min T), if T = {} then -1 else Min T - da, s')
    \<and> same_path s s' \<and> ticks s' = ticks s \<and> effects (core s') = effects (core s) @ outdated_request da S \<and> listed s' Q k da (T - {Min T})"
proof -
  have f: "finite S" using l sl_abs_finite by (auto simp: listed_def)
  let ?m = "Min S"
  from pop_lost_least [OF l] S obtain s1 where s1: "pop_lost s = Some (wrapseq ?m, s1)" "same_path s s1"
    "ticks s1 = ticks s" "effects (core s1) = effects (core s)" "listed s1 Q k da (S - {?m})" by auto
  have m: "?m \<in> S" "m_iSndLastDataAck (core s1) = wrapseq da" using f S s1(5) by (auto simp: listed_def)
  have off: "seqoff (wrapseq da) (wrapseq ?m) = ?m - da" using l m(1) by (intro seqoff_wrapseq) (auto simp: listed_def abs_minus_commute)
  show ?thesis
  proof (cases "da \<le> ?m")
    case True
    then have "T = S" "S \<inter> {..<da} = {}" unfolding T using Min_le [OF f] by fastforce+
    then show ?thesis using s1 m off True S by (simp add: outdated_request_def)
  next
    case False
    have T': "(S - {?m}) \<inter> {da..} = T" unfolding T using False by auto
    from skip_outdated_done [OF s1(5), unfolded T'] obtain s' where s': "skip_outdated s1 = Some (if T = {} then SRT_SEQNO_NONE else wrapseq (Min T),
        if T = {} then -1 else Min T - da, s')" "same_path s1 s'" "ticks s' = ticks s1"
      "effects (core s') = effects (core s1)" "listed s' Q k da (T - {Min T})" by blast
    let ?s = "request_drop MSGNO_CONTROL (wrapseq ?m) (wrapseq (da - 1)) s'"
    have e: "outdated_request da S = [Sent UMSG_DROPREQ (Some 0) [wrapseq ?m, wrapseq (da - 1)]]" using False m(1) by (auto simp: outdated_request_def)
    have "m_iSndLastDataAck (core s') = wrapseq da" using s'(5) by (simp add: listed_def)
    then have "settle_outdated (wrapseq ?m) s1 = Some (if T = {} then SRT_SEQNO_NONE else wrapseq (Min T), if T = {} then -1 else Min T - da, ?s)"
      using s'(1) by (simp add: settle_outdated_def seq_simps)
    moreover have "same_path s ?s" using s1(2) s'(2) by simp
    moreover have "listed ?s Q k da (T - {Min T})" using s'(5) by (simp add: listed_def request_drop_def effect_def)
    moreover have "ticks ?s = ticks s'" "effects (core ?s) = effects (core s') @ outdated_request da S"
      unfolding e by (simp_all add: request_drop_def effect_def MSGNO_CONTROL_def)
    ultimately show ?thesis using s1(1,3,4) s'(3,4) m off False by simp
  qed
qed

lemma getClean_step:
  assumes l: "listed s Q k da S" "rtt_fits s" and S: "S \<noteq> {}" and T: "T = S \<inter> {da..}"
  shows "\<exists>s'. getCleanRexmitOffset clk s = (if T = {} then Some (SRT_SEQNO_NONE, -1, s')
        else if right_time s Q da (Min T) (clk (ticks s)) then Some (wrapseq (Min T), Min T - da, tick s') else getCleanRexmitOffset clk (tick s'))
    \<and> same_path s s' \<and> ticks s' = ticks s \<and> effects (core s') = effects (core s) @ outdated_request da S \<and> listed s' Q k da (T - {Min T})"
proof -
  from first_candidate [OF l(1) S T] obtain s1 s2 seq0 where pop: "pop_lost s = Some (seq0, s1)" and
    s2: "(let offset0 = seqoff (m_iSndLastDataAck (core s1)) seq0 in if offset0 < 0 then settle_outdated seq0 s1 else Some (seq0, offset0, s1))
        = Some (if T = {} then SRT_SEQNO_NONE else wrapseq (Min T), if T = {} then -1 else Min T - da, s2)"
      "same_path s s2" "ticks s2 = ticks s" "effects (core s2) = effects (core s) @ outdated_request da S" "listed s2 Q k da (T - {Min T})"
    by (auto simp: bind_eq_Some_conv split: prod.splits)
  have seq0: "seq0 \<noteq> SRT_SEQNO_NONE" using pop pop_lost_least [OF l(1)] S by auto
  have chk: "checkRexmitRightTime s2 (Min T - da) (clk (ticks s2)) = Some (right_time s Q da (Min T) (clk (ticks s)))" if "T \<noteq> {}"
  proof -
    have "finite T" using l(1) sl_abs_finite by (auto simp: T listed_def)
    then have "Min T \<in> T" using that by (rule Min_in)
    then have "da \<le> Min T" "Min T < da + int (length Q)" using l(1) by (auto simp: T listed_def)
    from checkRexmitRightTime_right [OF s2(5) _ this] same_path_right [OF s2(2), of Q da] l(2) s2(3) show ?thesis by simp
  qed
  then show ?thesis using pop s2 seq0 by (cases "T = {}") (auto simp: getCleanRexmitOffset.simps [of clk s])
qed

lemma getCleanRexmitOffset_done:
  assumes "listed s Q k da S" "rtt_fits s"
    and "next_right (right_time s Q da) clk (ticks s) (sorted_list_of_set (S \<inter> {da..})) = (res, rest, t)"
  shows "\<exists>s'. getCleanRexmitOffset clk s = Some (case res of None \<Rightarrow> (SRT_SEQNO_NONE, -1, s') | Some n \<Rightarrow> (wrapseq n, n - da, s'))
    \<and> same_path s s' \<and> ticks s' = t \<and> effects (core s') = effects (core s) @ outdated_request da S \<and> listed s' Q k da (set rest)"
  using assms
proof (induction "card S" arbitrary: s S rule: less_induct)
  case less
  have f: "finite S" using less.prems(1) sl_abs_finite by (auto simp: listed_def)
  define T where "T = S \<inter> {da..}"
  show ?case
  proof (cases "T = {}")
    case True
    then have r: "res = None" "rest = []" "t = ticks s" using less.prems(3) by (auto simp: T_def)
    show ?thesis
    proof (cases "S = {}")
      case True
      with getClean_no_list [of s Q k da clk] less.prems(1) r show ?thesis by (auto simp: outdated_request_def)
    next
      case False
      from getClean_step [OF less.prems(1,2) False T_def] \<open>T = {}\<close> r show ?thesis by auto
    qed
  next
    case False
    then have "S \<noteq> {}" by (auto simp: T_def)
    from getClean_step [OF less.prems(1,2) this T_def, of clk] False obtain s2 where
      step: "getCleanRexmitOffset clk s = (if right_time s Q da (Min T) (clk (ticks s)) then Some (wrapseq (Min T), Min T - da, tick s2)
          else getCleanRexmitOffset clk (tick s2))" and
      s2: "same_path s s2" "ticks s2 = ticks s" "effects (core s2) = effects (core s) @ outdated_request da S" "listed s2 Q k da (T - {Min T})" by auto
    have fT: "finite T" "Min T \<in> T" using f False Min_in [of T] by (auto simp: T_def)
    have srt: "sorted_list_of_set T = Min T # sorted_list_of_set (T - {Min T})" using sorted_list_of_set_nonempty [OF fT(1) False] .
    have l: "listed (tick s2) Q k da (T - {Min T})" using s2(4) by (simp add: listed_def tick_def)
    have tk: "ticks (tick s2) = Suc (ticks s)" "core (tick s2) = core s2" using s2(2) by (simp_all add: tick_def)
    note pth = same_path_tick [OF s2(1)]
    show ?thesis
    proof (cases "right_time s Q da (Min T) (clk (ticks s))")
      case True
      then have "res = Some (Min T)" "rest = sorted_list_of_set (T - {Min T})" "t = Suc (ticks s)" using less.prems(3) srt by (auto simp: T_def)
      then show ?thesis using step True l tk s2(3) pth fT by simp
    next
      case wrong: False
      have c: "card (T - {Min T}) < card S" using f fT by (intro psubset_card_mono) (auto simp: T_def)
      have e: "(T - {Min T}) \<inter> {da..} = T - {Min T}" "outdated_request da (T - {Min T}) = []" by (auto simp: T_def outdated_request_def)
      have "next_right (right_time s Q da) clk (Suc (ticks s)) (sorted_list_of_set (T - {Min T})) = (res, rest, t)"
        using less.prems(3) srt wrong by (simp add: T_def)
      then obtain s' where "getCleanRexmitOffset clk (tick s2) = Some (case res of None \<Rightarrow> (SRT_SEQNO_NONE, -1, s') | Some n \<Rightarrow> (wrapseq n, n - da, s'))"
        "same_path (tick s2) s'" "ticks s' = t" "effects (core s') = effects (core (tick s2)) @ []" "listed s' Q k da (set rest)"
        using less.hyps [OF c l] tk(1) same_path_right [OF pth] less.prems(2) unfolding e by auto
      then show ?thesis using step wrong tk s2(3) same_path_trans [OF pth] by auto
    qed
  qed
qed

section \<open>Sending it again\<close>

lemma rexmit_length: "readData_rexmit now b i w = Some (Read_Data len w' t, b') \<Longrightarrow> getLength w' = nat len"
  by (auto simp: readData_rexmit_def bind_eq_Some_conv set_msgflags_def reflect_data_def setLength_cap_def setLength_def getLength_def Let_def
      split: if_splits)

text \<open>What goes out for the packet \<open>p\<close> numbered \<open>n\<close>: its bytes, its number, and its message field with \<open>flag\<close> added.\<close>

definition carries :: "snd_buffer \<Rightarrow> packet \<Rightarrow> int \<Rightarrow> snd_pkt \<Rightarrow> 32 word \<Rightarrow> bool" where
  "carries b w n p flag \<longleftrightarrow> packet_bytes b w = sp_data p \<and> getLength w = length (sp_data p)
     \<and> SRT_PH_SEQNO (m_nHeader w) = word_of_int (wrapseq n) \<and> SRT_PH_MSGNO (m_nHeader w) = sp_bits p OR flag"

lemma extract_alive:
  assumes l: "listed s Q k da S" and n: "da \<le> n" "n < da + int (length Q)" and e: "\<not> pkt_expired (clk (ticks s)) (Q ! nat (n - da))"
  shows "\<exists>w' s'. extractCleanRexmitPacket clk (wrapseq n) (n - da) w s = Some (int (length (sp_data (Q ! nat (n - da)))), w', sp_origin (Q ! nat (n - da)), s')
    \<and> carries (m_pSndBuffer (core s')) w' n (Q ! nat (n - da)) 0 \<and> m_nHeader w' = (m_nHeader w)\<lparr>SRT_PH_SEQNO := word_of_int (wrapseq n), SRT_PH_MSGNO := sp_bits (Q ! nat (n - da))\<rparr>
    \<and> listed s' (Q[nat (n - da) := (Q ! nat (n - da))\<lparr>sp_rexmit := clk (ticks s)\<rparr>]) k da S
    \<and> same_path s s' \<and> effects (core s') = effects (core s) \<and> ticks s' = Suc (ticks s)"
proof -
  obtain r where b: "sb_inv (m_pSndBuffer (core s)) r k" "sq_pkts (sb_abs (m_pSndBuffer (core s)) r k) = Q"
    using l by (auto simp: listed_def)
  have Q: "Q = map pkt_of (occupied (m_pSndBuffer (core s)) r)" using b(2) by (simp add: sb_abs_def)
  let ?i = "nat (n - da)" and ?w = "set_seqno w (wrapseq n)"
  let ?p = "Q ! ?i"
  have i: "?i < length Q" "int ?i = n - da" using n by auto
  from readData_rexmit_cases(2) [OF b(1) Q refl i(1) e, of ?w] obtain w' b' where
    w': "readData_rexmit (clk (ticks s)) (m_pSndBuffer (core s)) (n - da) ?w = Some (Read_Data (int (length (sp_data ?p))) w' (sp_origin ?p), b')"
    "sb_inv b' r k" "map pkt_of (occupied b' r) = Q[?i := ?p\<lparr>sp_rexmit := clk (ticks s)\<rparr>]" "packet_bytes b' w' = sp_data ?p"
    "SRT_PH_MSGNO (m_nHeader w') = sp_bits ?p" "SRT_PH_SEQNO (m_nHeader w') = SRT_PH_SEQNO (m_nHeader ?w)" unfolding i(2) by blast
  have h: "m_nHeader w' = (m_nHeader ?w)\<lparr>SRT_PH_MSGNO := sp_bits ?p\<rparr>"
    using w'(1,5) by (auto simp: readData_rexmit_def bind_eq_Some_conv set_msgflags_def reflect_data_def setLength_cap_def setLength_def Let_def split: if_splits)
  let ?s = "(tick s)\<lparr>core := (core s)\<lparr>m_pSndBuffer := b'\<rparr>\<rparr>"
  have "extractCleanRexmitPacket clk (wrapseq n) (n - da) w s = Some (int (length (sp_data ?p)), w', sp_origin ?p, ?s)"
    by (subst extractCleanRexmitPacket.simps) (simp add: extract_round_def w'(1))
  moreover have "carries b' w' n ?p 0" using w' rexmit_length [OF w'(1)] by (simp add: carries_def set_seqno_def)
  moreover have "listed ?s (Q[?i := ?p\<lparr>sp_rexmit := clk (ticks s)\<rparr>]) k da S"
    using l w'(2,3) by (auto simp: listed_def sb_abs_def)
  ultimately show ?thesis using h by (intro exI [of _ w'] exI [of _ ?s]) (auto simp: set_seqno_def tick_def frame_def)
qed

lemma packet_bytes_header [simp]:
  "packet_bytes b (w\<lparr>m_nHeader := h\<rparr>) = packet_bytes b w" "getLength (w\<lparr>m_nHeader := h\<rparr>) = getLength w"
  by (cases "pv_data w"; simp add: packet_bytes_def getLength_def)+

lemma setDataPacketTS_frame:
  assumes "setDataPacketTS clk s w t = (w', s')"
  shows "frame s' = frame s" "core s' = core s" "getLength w' = getLength w" "packet_bytes b w' = packet_bytes b w"
    "SRT_PH_SEQNO (m_nHeader w') = SRT_PH_SEQNO (m_nHeader w)" "SRT_PH_MSGNO (m_nHeader w') = SRT_PH_MSGNO (m_nHeader w)"
    "SRT_PH_ID (m_nHeader w') = SRT_PH_ID (m_nHeader w)"
  using assms by (auto simp: setDataPacketTS_def set_timestamp_def tick_def frame_def split: if_splits)

lemma listed_core: "core s' = core s \<Longrightarrow> listed s' Q k da S = listed s Q k da S"
  by (simp add: listed_def)

definition rexmit_flag :: "snd_path \<Rightarrow> 32 word" where
  "rexmit_flag s = (if m_bPeerRexmitFlag (negotiated s) then PACKET_SND_REXMIT else 0)"

lemma packLostData_done:
  assumes l: "listed s Q k da S" "rtt_fits s" and full: "\<forall>p \<in> set Q. sp_data p \<noteq> []" and gcm: "\<not> m_bModeGCM s"
    and nx: "next_right (right_time s Q da) clk (ticks s) (sorted_list_of_set (S \<inter> {da..})) = (res, rest, t)"
    and alive: "\<forall>n. res = Some n \<longrightarrow> \<not> pkt_expired (clk t) (Q ! nat (n - da))"
  shows "\<exists>len w' s'. packLostData clk w s = Some (len, w', s') \<and> same_path s s' \<and> effects (core s') = effects (core s) @ outdated_request da S
    \<and> (case res of
         None \<Rightarrow> len = 0 \<and> w' = w \<and> listed s' Q k da {}
       | Some n \<Rightarrow> n \<in> S \<and> da \<le> n \<and> len = int (length (sp_data (Q ! nat (n - da)))) \<and> 0 < len
           \<and> carries (m_pSndBuffer (core s')) w' n (Q ! nat (n - da)) (rexmit_flag s)
           \<and> listed s' (Q[nat (n - da) := (Q ! nat (n - da))\<lparr>sp_rexmit := clk t\<rparr>]) k da (set rest))"
proof -
  from getCleanRexmitOffset_done [OF l nx] obtain s1 where
    s1: "getCleanRexmitOffset clk s = Some (case res of None \<Rightarrow> (SRT_SEQNO_NONE, -1, s1) | Some n \<Rightarrow> (wrapseq n, n - da, s1))"
      "same_path s s1" "ticks s1 = t" "effects (core s1) = effects (core s) @ outdated_request da S" "listed s1 Q k da (set rest)" by blast
  show ?thesis
  proof (cases res)
    case None
    then have "rest = []" using next_right_in [OF nx] by simp
    then show ?thesis using None s1 by (auto simp: packLostData_def)
  next
    case (Some n)
    let ?p = "Q ! nat (n - da)"
    have "finite S" using l(1) sl_abs_finite by (auto simp: listed_def)
    then have n: "n \<in> S" "da \<le> n" using next_right_in [OF nx] Some by auto
    then have lt: "n < da + int (length Q)" using l(1) by (auto simp: listed_def)
    then have len: "0 < length (sp_data ?p)" using full n(2) by (auto simp: nth_mem)
    have "\<not> pkt_expired (clk (ticks s1)) ?p" using alive Some s1(3) by simp
    from extract_alive [where clk = clk and w = w, OF s1(5) n(2) lt this] obtain w2 s2 where
      s2: "extractCleanRexmitPacket clk (wrapseq n) (n - da) w s1 = Some (int (length (sp_data ?p)), w2, sp_origin ?p, s2)"
        "carries (m_pSndBuffer (core s2)) w2 n ?p 0" "listed s2 (Q[nat (n - da) := ?p\<lparr>sp_rexmit := clk t\<rparr>]) k da (set rest)"
        "same_path s1 s2" "effects (core s2) = effects (core s1)" unfolding s1(3) by blast
    define s3 where "s3 = s2\<lparr>stat_sndr_sentRetrans := count_stat 1 (int (getLength w2)) (stat_sndr_sentRetrans s2)\<rparr>"
    define w3 where "w3 = (if m_bPeerRexmitFlag (negotiated s) then set_msgflags w2 (SRT_PH_MSGNO (m_nHeader w2) OR PACKET_SND_REXMIT) else w2)"
    obtain w4 s4 where ts: "setDataPacketTS clk s3 w3 (sp_origin ?p) = (w4, s4)" by (cases "setDataPacketTS clk s3 w3 (sp_origin ?p)")
    note f = setDataPacketTS_frame [OF ts]
    have sm: "same_path s s2" "negotiated s2 = negotiated s" "\<not> m_bModeGCM s2" using s1(2) s2(4) gcm by (auto simp: frame_def)
    have w3: "carries b w3 n ?p (rexmit_flag s)" if "carries b w2 n ?p 0" for b
      using that by (auto simp: w3_def carries_def rexmit_flag_def set_msgflags_def)
    have "carries (m_pSndBuffer (core s4)) w4 n ?p (rexmit_flag s)" using w3 [OF s2(2)] f by (simp add: carries_def s3_def)
    moreover from this have "packLostData clk w s = Some (int (length (sp_data ?p)), w4, s4)"
      using s1(1) s2(1) Some len ts sm
      by (cases "m_bPeerRexmitFlag (negotiated s)") (simp_all add: packLostData_def Let_def carries_def s3_def w3_def)
    moreover have "same_path s s4" "effects (core s4) = effects (core s) @ outdated_request da S"
      "listed s4 (Q[nat (n - da) := ?p\<lparr>sp_rexmit := clk t\<rparr>]) k da (set rest)"
      using f(1,2) sm(1) s1(4) s2(3,5) listed_core [of s4 s2] by (simp_all add: s3_def)
    ultimately show ?thesis using n len Some by auto
  qed
qed

section \<open>A packet whose time has passed\<close>

text \<open>The rounds of the repeatable block: \<open>Some\<close> while it continues.\<close>

primrec extract_rounds :: "nat \<Rightarrow> (nat \<Rightarrow> int) \<Rightarrow> int \<Rightarrow> int \<Rightarrow> packet \<Rightarrow> snd_path \<Rightarrow> snd_path option" where
  "extract_rounds 0 clk seqno offset w s = Some s"
| "extract_rounds (Suc j) clk seqno offset w s =
     (case extract_round clk seqno offset w s of Some (Inr s') \<Rightarrow> extract_rounds j clk seqno offset w s' | _ \<Rightarrow> None)"

text \<open>The last number of the rest of the message that the packet \<open>n\<close> begins.\<close>

definition message_end :: "snd_pkt list \<Rightarrow> int \<Rightarrow> int \<Rightarrow> int" where
  "message_end Q da n = n + int (length (takeWhile (\<lambda>p. pkt_msgSeq (Q ! nat (n - da)) = pkt_msgSeq p) (drop (Suc (nat (n - da))) Q)))"

definition expired_at :: "(nat \<Rightarrow> int) \<Rightarrow> snd_path \<Rightarrow> snd_pkt list \<Rightarrow> int \<Rightarrow> int \<Rightarrow> int set \<Rightarrow> bool" where
  "expired_at clk s Q da n S \<longleftrightarrow> (\<exists>k. listed s Q k da S) \<and> da \<le> n \<and> n < da + int (length Q)
     \<and> (\<forall>i \<ge> ticks s. pkt_expired (clk i) (Q ! nat (n - da))) \<and> (\<forall>m \<in> S. \<bar>m - message_end Q da n\<bar> < m_iSeqNoTH)
     \<and> message_end Q da n - n < m_iSeqNoTH"

lemma expired_round:
  assumes e: "expired_at clk s Q da n S"
  shows "\<exists>s'. extract_round clk (wrapseq n) (n - da) w s = Some (Inr s') \<and> expired_at clk s' Q da n (S - {..message_end Q da n})
    \<and> effects (core s') = effects (core s) @ [Sent UMSG_DROPREQ (Some (sint (pkt_msgSeq (Q ! nat (n - da))))) [wrapseq n, wrapseq (message_end Q da n)]]"
proof -
  let ?i = "nat (n - da)" and ?w = "set_seqno w (wrapseq n)" and ?e = "message_end Q da n"
  let ?p = "Q ! ?i"
  obtain k where l: "listed s Q k da S" using e by (auto simp: expired_at_def)
  have ee: "da \<le> n" "n < da + int (length Q)" "pkt_expired (clk (ticks s)) ?p" "\<forall>m \<in> S. \<bar>m - ?e\<bar> < m_iSeqNoTH" "?e - n < m_iSeqNoTH"
    using e by (auto simp: expired_at_def)
  have i: "?i < length Q" "int ?i = n - da" using ee by auto
  obtain r where b: "sb_inv (m_pSndBuffer (core s)) r k" "sq_pkts (sb_abs (m_pSndBuffer (core s)) r k) = Q" using l by (auto simp: listed_def)
  have Q: "Q = map pkt_of (occupied (m_pSndBuffer (core s)) r)" using b(2) by (simp add: sb_abs_def)
  have seq: "sint (SRT_PH_SEQNO (m_nHeader ?w)) = wrapseq n" by (simp add: set_seqno_def word_wrapseq)
  from readData_rexmit_cases(3) [OF b(1) Q seq [symmetric] i(1) ee(3) refl] obtain b' k' where
    b': "readData_rexmit (clk (ticks s)) (m_pSndBuffer (core s)) (n - da) ?w
      = Some (Read_Drop \<lparr>dr_begin = wrapseq n, dr_end = incseq_by (wrapseq n) (?e - n), dr_msgno = pkt_msgSeq ?p\<rparr>, b')"
    "sb_inv b' r k'" "map pkt_of (occupied b' r) = Q" unfolding i(2) by (auto simp: message_end_def)
  have inc: "incseq_by (wrapseq n) (?e - n) = wrapseq ?e" using ee(5) by (subst incseq_by_wrapseq) (auto simp: message_end_def seqno_const_defs)
  from sl_removeUpTo_correct [of "m_pSndLossList (core s)" S ?e] l ee(4) obtain l' where
    l': "sl_removeUpTo (m_pSndLossList (core s)) (wrapseq ?e) = Some l'" "sl_abs l' (S - {..?e})" by (auto simp: listed_def)
  let ?s = "(request_drop (pkt_msgSeq ?p) (wrapseq n) (wrapseq ?e) ((tick s)\<lparr>core := (core s)\<lparr>m_pSndBuffer := b'\<rparr>\<rparr>))"
  let ?s' = "?s\<lparr>core := (core ?s)\<lparr>m_pSndLossList := l', m_iSndCurrSeqNo := maxseq (m_iSndCurrSeqNo (core s)) (wrapseq ?e)\<rparr>\<rparr>"
  have "extract_round clk (wrapseq n) (n - da) w s = Some (Inr ?s')"
    using b'(1) l'(1) by (simp add: extract_round_def inc request_drop_def effect_def)
  moreover have "listed ?s' Q k' da (S - {..?e})" using l l'(2) b'(2,3) by (auto simp: listed_def sb_abs_def request_drop_def effect_def)
  then have "expired_at clk ?s' Q da n (S - {..?e})" using e by (auto simp: expired_at_def request_drop_def tick_def)
  moreover have "effects (core ?s') = effects (core s) @ [Sent UMSG_DROPREQ (Some (sint (pkt_msgSeq ?p))) [wrapseq n, wrapseq ?e]]"
    by (simp add: request_drop_def effect_def)
  ultimately show ?thesis by blast
qed

lemma expired_rounds:
  assumes "expired_at clk s Q da n S"
  shows "\<exists>s'. extract_rounds j clk (wrapseq n) (n - da) w s = Some s' \<and> effects (core s') = effects (core s)
    @ replicate j (Sent UMSG_DROPREQ (Some (sint (pkt_msgSeq (Q ! nat (n - da))))) [wrapseq n, wrapseq (message_end Q da n)])"
  using assms
proof (induction j arbitrary: s S)
  case (Suc j)
  from expired_round [OF Suc.prems, of w] obtain s1 where s1: "extract_round clk (wrapseq n) (n - da) w s = Some (Inr s1)"
    "expired_at clk s1 Q da n (S - {..message_end Q da n})"
    "effects (core s1) = effects (core s) @ [Sent UMSG_DROPREQ (Some (sint (pkt_msgSeq (Q ! nat (n - da))))) [wrapseq n, wrapseq (message_end Q da n)]]"
    by blast
  from Suc.IH [OF s1(2)] s1(1,3) show ?case by auto
qed simp

lemma expired_never_extracted:
  assumes "extractCleanRexmitPacket clk (wrapseq n) (n - da) w s = Some y"
  shows "\<not> expired_at clk s Q da n S"
proof -
  have "\<forall>Q S. \<not> expired_at c x Q da n S"
    if "extractCleanRexmitPacket c sq off v x = Some z" "sq = wrapseq n" "off = n - da" for c sq off v x z
    using that
  proof (induction rule: extractCleanRexmitPacket.raw_induct [rotated, consumes 1])
    case (1 f c sq off v x z)
    show ?case
    proof (intro allI notI)
      fix Q S assume "expired_at c x Q da n S"
      from expired_round [OF this, of v] 1 show False by (cases z) (fastforce simp: bind_eq_Some_conv)
    qed
  qed
  with assms show ?thesis by blast
qed

end
