(* ===== verification/Retransmission.thy ===== *)
theory Retransmission
  imports SndPathSpec
begin

text \<open>
  From the loss report to the packets on the way again: \<open>resend\<close> calls \<^verbatim>\<open>packLostData\<close> until there is nothing
  to send. All listed packets that the sender still has go out again in the order of their numbers, each as it
  was, provided that their messages have no time to live; with one that has passed, \<^verbatim>\<open>packLostData\<close> does not return.
\<close>

section \<open>All listed packets\<close>

text \<open>Up to \<open>j\<close> calls; of each packet the number, the message field and the bytes are kept.\<close>

fun resend :: "nat \<Rightarrow> (nat \<Rightarrow> int) \<Rightarrow> snd_path \<Rightarrow> ((32 word \<times> 32 word \<times> byte option list) list \<times> snd_path) option" where
  "resend 0 clk s = Some ([], s)"
| "resend (Suc j) clk s =
     do { (len, w, s1) \<leftarrow> packLostData clk CPacket s;
          if len \<le> 0 then Some ([], s1)
          else do { (ws, s2) \<leftarrow> resend j clk s1;
                    Some ((SRT_PH_SEQNO (m_nHeader w), SRT_PH_MSGNO (m_nHeader w), packet_bytes (m_pSndBuffer (core s1)) w) # ws, s2) } }"

definition as_sent :: "snd_pkt list \<Rightarrow> int \<Rightarrow> 32 word \<Rightarrow> int \<Rightarrow> 32 word \<times> 32 word \<times> byte option list" where
  "as_sent Q da flag n = (word_of_int (wrapseq n), sp_bits (Q ! nat (n - da)) OR flag, sp_data (Q ! nat (n - da)))"

text \<open>What a retransmission leaves of a packet.\<close>

definition content :: "snd_pkt \<Rightarrow> byte option list \<times> 32 word \<times> int \<times> int \<times> int" where
  "content p = (sp_data p, sp_bits p, sp_seq p, sp_origin p, sp_ttl p)"

lemma content_rexmit: "i < length Q \<Longrightarrow> map content (Q[i := (Q ! i)\<lparr>sp_rexmit := t\<rparr>]) = map content Q"
  by (simp add: map_update list_update_same_conv content_def)

lemma content_nth:
  assumes "map content Q' = map content Q" "i < length Q"
  shows "sp_data (Q' ! i) = sp_data (Q ! i)" "sp_bits (Q' ! i) = sp_bits (Q ! i)" "sp_ttl (Q' ! i) = sp_ttl (Q ! i)"
    "sp_seq (Q' ! i) = sp_seq (Q ! i)"
proof -
  have "i < length Q'" using assms map_eq_imp_length_eq by metis
  then have "content (Q' ! i) = content (Q ! i)" using assms by (metis nth_map)
  then show "sp_data (Q' ! i) = sp_data (Q ! i)" "sp_bits (Q' ! i) = sp_bits (Q ! i)" "sp_ttl (Q' ! i) = sp_ttl (Q ! i)"
    "sp_seq (Q' ! i) = sp_seq (Q ! i)" by (simp_all add: content_def)
qed

definition resendable :: "snd_pkt list \<Rightarrow> bool" where
  "resendable Q \<longleftrightarrow> (\<forall>p \<in> set Q. sp_data p \<noteq> [] \<and> sp_ttl p < 0)"

lemma resendable_content:
  assumes "map content Q' = map content Q"
  shows "resendable Q' = resendable Q"
proof -
  have "resendable P \<longleftrightarrow> (\<forall>x \<in> set (map content P). fst x \<noteq> [] \<and> snd (snd (snd (snd x))) < 0)" for P
    by (simp add: resendable_def content_def)
  then show ?thesis using assms by metis
qed

definition always_right :: "snd_path \<Rightarrow> bool" where
  "always_right s \<longleftrightarrow> \<not> m_bPeerNakReport (negotiated s) \<or> iRetransmitAlgo (m_config (negotiated s)) = 0"

lemma as_sent_content: "map content Q' = map content Q \<Longrightarrow> da \<le> n \<Longrightarrow> n < da + int (length Q) \<Longrightarrow> as_sent Q' da flag n = as_sent Q da flag n"
  using content_nth [of Q' Q "nat (n - da)"] by (simp add: as_sent_def)

lemma resend_listed:
  assumes "listed s Q k da S" "S \<subseteq> {da..}" "always_right s" "resendable Q" "\<not> m_bModeGCM s"
  shows "\<exists>s' Q'. resend (Suc (card S)) clk s = Some (map (as_sent Q da (rexmit_flag s)) (sorted_list_of_set S), s')
    \<and> listed s' Q' k da {} \<and> map content Q' = map content Q \<and> same_path s s' \<and> effects (core s') = effects (core s)"
  using assms
proof (induction "card S" arbitrary: s Q S)
  case 0
  then have S: "S = {}" using sl_abs_finite by (auto simp: listed_def)
  have r: "rtt_fits s" "\<forall>p \<in> set Q. sp_data p \<noteq> []" using 0(4,5) by (auto simp: rtt_fits_def always_right_def resendable_def)
  from packLostData_done [OF 0(2) r 0(6), of clk None "[]" "ticks s" CPacket] S show ?case by (auto simp: outdated_request_def)
next
  case (Suc j)
  have f: "finite S" "S \<noteq> {}" using Suc.prems(1) Suc.hyps(2) sl_abs_finite by (auto simp: listed_def)
  let ?n = "Min S" and ?p = "Q ! nat (Min S - da)"
  have S: "S \<inter> {da..} = S" "outdated_request da S = []" "?n \<in> S" "da \<le> ?n" "?n < da + int (length Q)"
    using Suc.prems(1,2) f Min_in [OF f] by (auto simp: outdated_request_def listed_def)
  have srt: "sorted_list_of_set S = ?n # sorted_list_of_set (S - {?n})" by (rule sorted_list_of_set_nonempty [OF f])
  have r: "rtt_fits s" "\<forall>p \<in> set Q. sp_data p \<noteq> []" "right_time s Q da ?n (clk (ticks s))"
    using Suc.prems(3,4) by (auto simp: rtt_fits_def always_right_def resendable_def right_time_def)
  have i: "nat (?n - da) < length Q" using S by auto
  then have "sp_ttl ?p < 0" using Suc.prems(4) nth_mem [OF i] by (simp add: resendable_def)
  then have p: "\<not> pkt_expired now ?p" for now by (simp add: pkt_expired_def)
  have nx: "next_right (right_time s Q da) clk (ticks s) (sorted_list_of_set (S \<inter> {da..})) = (Some ?n, sorted_list_of_set (S - {?n}), Suc (ticks s))"
    using srt S(1) r(3) by simp
  have "set (sorted_list_of_set (S - {?n})) = S - {?n}" using f by simp
  with packLostData_done [OF Suc.prems(1) r(1,2) Suc.prems(5) nx, of CPacket] p obtain len w s1 where
    s1: "packLostData clk CPacket s = Some (len, w, s1)" "0 < len" "carries (m_pSndBuffer (core s1)) w ?n ?p (rexmit_flag s)" "same_path s s1"
      "effects (core s1) = effects (core s)" "listed s1 (Q[nat (?n - da) := ?p\<lparr>sp_rexmit := clk (Suc (ticks s))\<rparr>]) k da (S - {?n})"
    using S(2) by auto
  let ?Q = "Q[nat (?n - da) := ?p\<lparr>sp_rexmit := clk (Suc (ticks s))\<rparr>]"
  have Q: "map content ?Q = map content Q" by (rule content_rexmit [OF i])
  have fr: "always_right s1" "\<not> m_bModeGCM s1" "rexmit_flag s1 = rexmit_flag s"
    using s1(4) Suc.prems(3,5) by (auto simp: frame_def always_right_def rexmit_flag_def)
  have c: "j = card (S - {?n})" "S - {?n} \<subseteq> {da..}" "Suc (card (S - {?n})) = card S" using Suc.hyps(2) f S(3) Suc.prems(2) by auto
  from Suc.hyps(1) [OF c(1) s1(6) c(2) fr(1) _ fr(2)] resendable_content [OF Q] Suc.prems(4) obtain s' Q' where
    s': "resend (card S) clk s1 = Some (map (as_sent ?Q da (rexmit_flag s)) (sorted_list_of_set (S - {?n})), s')"
      "listed s' Q' k da {}" "map content Q' = map content ?Q" "same_path s1 s'" "effects (core s') = effects (core s1)"
    unfolding c(3) fr(3) by blast
  have "as_sent ?Q da (rexmit_flag s) m = as_sent Q da (rexmit_flag s) m" if "m \<in> S" for m
    using as_sent_content [OF Q] Suc.prems(1,2) that by (auto simp: listed_def)
  then have "map (as_sent ?Q da (rexmit_flag s)) (sorted_list_of_set (S - {?n})) = map (as_sent Q da (rexmit_flag s)) (sorted_list_of_set (S - {?n}))"
    using f by simp
  moreover have "(SRT_PH_SEQNO (m_nHeader w), SRT_PH_MSGNO (m_nHeader w), packet_bytes (m_pSndBuffer (core s1)) w) = as_sent Q da (rexmit_flag s) ?n"
    using s1(3) by (simp add: carries_def as_sent_def)
  ultimately have "resend (Suc (card S)) clk s = Some (map (as_sent Q da (rexmit_flag s)) (sorted_list_of_set S), s')"
    using s1(1,2) s'(1) srt by simp
  then show ?case using s' Q s1(4,5) by auto
qed

section \<open>From the report to the retransmission\<close>

lemma sender_listed:
  assumes i: "sender_inv (core s) Q la da fa cur S" and S: "S \<subseteq> {la..}"
  shows "listed s Q (nat (cur + 1 - da)) da S"
proof -
  have "S \<subseteq> {..cur}" "sl_abs (m_pSndLossList (core s)) S" using i by (auto simp: sender_inv_def loss_inv_def)
  moreover have "fa \<le> la" "la \<le> da" "da \<le> cur + 1" "cur + 1 - fa < m_iSeqNoTH" "cur + 1 - da \<le> int (length Q)" "m_iSndLastDataAck (core s) = wrapseq da"
    using i by (simp_all add: sender_inv_def)
  moreover have "\<exists>r. sb_inv (m_pSndBuffer (core s)) r (nat (cur + 1 - da)) \<and> sq_pkts (sb_abs (m_pSndBuffer (core s)) r (nat (cur + 1 - da))) = Q"
    using i by (simp add: sender_inv_def)
  moreover have "\<bar>m - da\<bar> < m_iSeqNoTH \<and> m < da + int (length Q)" if "m \<in> S" for m
  proof -
    have "la \<le> m" "m \<le> cur" using that S \<open>S \<subseteq> {..cur}\<close> by auto
    with \<open>fa \<le> la\<close> \<open>la \<le> da\<close> \<open>da \<le> cur + 1\<close> \<open>cur + 1 - fa < m_iSeqNoTH\<close> \<open>cur + 1 - da \<le> int (length Q)\<close> show ?thesis by linarith
  qed
  ultimately show ?thesis by (auto simp: listed_def)
qed

text \<open>
  C5. From the loss report to the packets: when a sender that has acknowledged packets up to \<open>da\<close> and lists the
  packets \<open>S\<close> hears a report of packets it has sent, the calls of \<^verbatim>\<open>packLostData\<close> that follow hand out
  every packet listed or reported and not acknowledged yet, exactly once and in the order of the numbers, each
  with the number, the message field and the bytes it had the first time and marked as retransmitted if the
  peer understands the mark; then there is nothing to send again, and the sender still has all its packets. (No message has a time
  to live, and the time of a retransmission is not restricted.)
\<close>

theorem reported_packets_go_out_again:
  assumes i: "sender_inv (core s) Q da da fa cur S" "srtt_ok (core s)" and S: "S \<subseteq> {da..}" and h: "honest cur (Nak p rs)"
    and ok: "always_right s" "resendable Q" "\<not> m_bModeGCM s"
  defines "T \<equiv> (S \<union> rset rs) \<inter> {da..}"
  shows "\<exists>c s' Q'. processCtrlLossReport (core s) p = Some c
    \<and> resend (Suc (card T)) clk (s\<lparr>core := c\<rparr>) = Some (map (as_sent Q da (rexmit_flag s)) (sorted_list_of_set T), s')
    \<and> listed s' Q' (nat (cur + 1 - da)) da {} \<and> map content Q' = map content Q \<and> m_bBroken (core s') = m_bBroken (core s)"
proof -
  from nak_heard [OF i h] obtain c where c: "processCtrlLossReport (core s) p = Some c"
    "sender_inv c Q da da fa cur (S \<union> rset rs \<inter> {da..})" "m_bBroken c = m_bBroken (core s)" by blast
  have T: "S \<union> rset rs \<inter> {da..} = T" using S by (auto simp: T_def)
  let ?s = "s\<lparr>core := c\<rparr>"
  have "sender_inv (core ?s) Q da da fa cur T" using c(2) by (simp add: T)
  then have l: "listed ?s Q (nat (cur + 1 - da)) da T" by (rule sender_listed) (auto simp: T_def)
  have r: "always_right ?s" "\<not> m_bModeGCM ?s" "rexmit_flag ?s = rexmit_flag s" "T \<subseteq> {da..}"
    using ok by (auto simp: always_right_def rexmit_flag_def T_def)
  from resend_listed [OF l r(4,1) ok(2) r(2), of clk] obtain s' Q' where "resend (Suc (card T)) clk ?s = Some (map (as_sent Q da (rexmit_flag s)) (sorted_list_of_set T), s')"
    "listed s' Q' (nat (cur + 1 - da)) da {}" "map content Q' = map content Q" "same_path ?s s'" unfolding r(3) by blast
  moreover from this have "m_bBroken (core s') = m_bBroken (core s)" using c(3) by (simp add: frame_def)
  ultimately show ?thesis using c(1) by blast
qed

text \<open>A connection that restricts the times of retransmissions as \<open>algo\<close> says.\<close>

definition sample_path :: "int \<Rightarrow> snd_core \<Rightarrow> snd_path" where
  "sample_path algo c = \<lparr>core = c, negotiated = (default_agent (CSrtConfig\<lparr>iRetransmitAlgo := algo\<rparr>))\<lparr>m_bPeerRexmitFlag := True, m_bPeerNakReport := True\<rparr>,
     m_tsStartTime = 0, m_PeerID = 1, m_bModeGCM = False, m_bOpened = True, m_tsNextSendTime = 0, m_tdSendTimeDiff = 0, m_tdSendInterval = 0,
     m_tsLastSndTime = 0, m_tsSndHsLastTime = 0, stat_sndr_sent = (0, 0), stat_sndr_sentUnique = (0, 0), stat_sndr_sentRetrans = (0, 0),
     stat_sndr_dropped = (0, 0), ticks = 0\<rparr>"

theorem reported_packets_go_out_again_witness:
  "\<exists>c Q c' ws s'. sender_inv c Q 7 7 7 9 {} \<and> length Q = 3
    \<and> processCtrlLossReport c (report_packet (m_nHeader CPacket) (report_words [(8, 9)]) []) = Some c'
    \<and> resend 3 (\<lambda>i. int i) ((sample_path 0 c)\<lparr>core := c'\<rparr>) = Some (ws, s')
    \<and> map fst ws = [8, 9] \<and> map (snd \<circ> snd) ws = map sp_data (drop 1 Q)"
proof -
  obtain c Q where c: "sender_inv c Q 7 7 7 9 {}" "length Q = 3" "srtt_ok c" "\<forall>p \<in> set Q. sp_data p \<noteq> [] \<and> sp_ttl p < 0"
    by (rule sample_sender [of 9]) simp_all
  let ?s = "sample_path 0 c" and ?p = "report_packet (m_nHeader CPacket) (report_words [(8, 9)]) []"
  have h: "honest 9 (Nak ?p [(8, 9)])" by (simp add: report_packet_def seqno_const_defs)
  have s: "core ?s = c" "always_right ?s" "\<not> m_bModeGCM ?s" "resendable Q" using c(4)
    by (simp_all add: sample_path_def always_right_def resendable_def default_agent_def)
  have T: "({} \<union> rset [(8, 9)]) \<inter> {7..} = {8, 9 :: int}" "card {8, 9 :: int} = 2" by (auto simp: rset_def)
  have srt: "sorted_list_of_set {8, 9 :: int} = [8, 9]" by simp
  have w: "wrapseq 8 = 8" "wrapseq 9 = 9" by (simp_all add: wrapseq_def seqno_const_defs)
  have d: "drop 1 Q = [Q ! 1, Q ! 2]" using c(2) by (cases Q; cases "tl Q"; cases "tl (tl Q)") auto
  from reported_packets_go_out_again [of ?s Q 7 7 9 "{}" ?p "[(8, 9)]" "\<lambda>i. int i", unfolded T srt s(1), OF c(1,3) _ h s(2,4,3)]
  obtain c' s' where "processCtrlLossReport c ?p = Some c'"
    "resend (Suc 2) (\<lambda>i. int i) (?s\<lparr>core := c'\<rparr>) = Some (map (as_sent Q 7 (rexmit_flag ?s)) [8, 9], s')" by blast
  then have "processCtrlLossReport c ?p = Some c'" "resend 3 (\<lambda>i. int i) (?s\<lparr>core := c'\<rparr>) = Some (map (as_sent Q 7 (rexmit_flag ?s)) [8, 9], s')"
    by (simp_all only: numeral_3_eq_3 numeral_2_eq_2)
  then show ?thesis using c(1,2) w d by (fastforce simp: as_sent_def simp del: resend.simps)
qed

section \<open>A message whose time has passed\<close>

lemma pkt_expired_mono:
  assumes "pkt_expired now p" "now \<le> later"
  shows "pkt_expired later p"
proof -
  have "0 < (now - sp_origin p) sdiv 1000" using assms(1) by (auto simp: pkt_expired_def)
  then have "0 \<le> now - sp_origin p" by (simp add: signed_divide_int_def sgn_if split: if_splits)
  then have "(now - sp_origin p) sdiv 1000 = (now - sp_origin p) div 1000" "(later - sp_origin p) sdiv 1000 = (later - sp_origin p) div 1000"
    using assms(2) by (auto simp: signed_divide_int_def sgn_if)
  moreover have "(now - sp_origin p) div 1000 \<le> (later - sp_origin p) div 1000" using assms(2) by (intro zdiv_mono1) auto
  ultimately show ?thesis using assms(1) by (simp add: pkt_expired_def)
qed

lemma message_end_bounds:
  assumes "da \<le> n" "n < da + int (length Q)"
  shows "n \<le> message_end Q da n" "message_end Q da n < da + int (length Q)"
  using assms length_takeWhile_le [of "\<lambda>p. pkt_msgSeq (Q ! nat (n - da)) = pkt_msgSeq p" "drop (Suc (nat (n - da))) Q"]
  by (auto simp: message_end_def)

text \<open>
  C38. A packet is listed whose message has a time to live that has passed when it is to be sent again. Then
  \<^verbatim>\<open>packLostData\<close> does not return: every round of the block that the code calls repeatable, but not a real
  loop, sends the same drop request to the peer and reads the same packet of the sender buffer again, which stays
  expired for as long as the clock does not go back.
\<close>

theorem expired_packet_never_returns:
  assumes l: "listed s Q k da S" "rtt_fits s" and T: "T = S \<inter> {da..}" "T \<noteq> {}" "n = Min T" "right_time s Q da n (clk (ticks s))"
    and clk: "\<And>i j. i \<le> j \<Longrightarrow> clk i \<le> clk j" and e: "pkt_expired (clk (Suc (ticks s))) (Q ! nat (n - da))"
    and near: "int (length Q) < m_iSeqNoTH" "\<forall>m \<in> T. da + int (length Q) - m < m_iSeqNoTH"
  shows "packLostData clk w s = None
    \<and> (\<exists>s1. getCleanRexmitOffset clk s = Some (wrapseq n, n - da, s1)
        \<and> (\<forall>j. \<exists>s2. extract_rounds j clk (wrapseq n) (n - da) w s1 = Some s2
             \<and> effects (core s2) = effects (core s1) @ replicate j
                 (Sent UMSG_DROPREQ (Some (sint (pkt_msgSeq (Q ! nat (n - da))))) [wrapseq n, wrapseq (message_end Q da n)])))"
proof -
  have fT: "finite T" using l(1) T(1) sl_abs_finite by (auto simp: listed_def)
  then have f: "finite T" "n \<in> T" using Min_in [OF fT T(2)] T(3) by simp_all
  then have n: "da \<le> n" "n < da + int (length Q)" using l(1) T(1) by (auto simp: listed_def)
  note me = message_end_bounds [OF n]
  have srt: "sorted_list_of_set T = n # sorted_list_of_set (T - {n})" using sorted_list_of_set_nonempty [OF f(1) T(2)] T(3) by simp
  have nx: "next_right (right_time s Q da) clk (ticks s) (sorted_list_of_set (S \<inter> {da..})) = (Some n, sorted_list_of_set (T - {n}), Suc (ticks s))"
    using T(4) srt unfolding T(1) [symmetric] by simp
  have st: "set (sorted_list_of_set (T - {n})) = T - {n}" using f by simp
  from getCleanRexmitOffset_done [OF l nx] st obtain s1 where
    s1: "getCleanRexmitOffset clk s = Some (wrapseq n, n - da, s1)" "ticks s1 = Suc (ticks s)" "listed s1 Q k da (T - {n})" by auto
  have "pkt_expired (clk i) (Q ! nat (n - da))" if "i \<ge> ticks s1" for i using pkt_expired_mono [OF e clk] that s1(2) by simp
  moreover have "\<bar>m - message_end Q da n\<bar> < m_iSeqNoTH" if "m \<in> T - {n}" for m
  proof -
    have "m < da + int (length Q)" "da \<le> m" "da + int (length Q) - m < m_iSeqNoTH" using that l(1) T(1) near(2) by (auto simp: listed_def)
    then show ?thesis using me near(1) n by linarith
  qed
  moreover have "message_end Q da n - n < m_iSeqNoTH" using me near(1) n by linarith
  ultimately have ex: "expired_at clk s1 Q da n (T - {n})" using s1(3) n unfolding expired_at_def by blast
  have "extractCleanRexmitPacket clk (wrapseq n) (n - da) w s1 = None" using expired_never_extracted [of clk n da w s1] ex by (metis not_None_eq)
  then have "packLostData clk w s = None" using s1(1) by (simp add: packLostData_def)
  then show ?thesis using s1(1) expired_rounds [OF ex] by blast
qed

theorem expired_packet_never_returns_witness:
  "\<exists>b r l. sq_pkts (sb_abs b r 0) = [\<lparr>sp_data = [Some 1, Some 2], sp_bits = 0xE0000001, sp_seq = 7, sp_origin = 5, sp_rexmit = 0, sp_ttl = 10\<rparr>]
    \<and> sl_abs l {7} \<and> packLostData (\<lambda>i. 20000 + int i) CPacket (sample_path 1 (sample_core b l 7 7)) = None"
proof -
  let ?Q = "[\<lparr>sp_data = [Some 1, Some 2], sp_bits = 0xE0000001, sp_seq = 7, sp_origin = 5, sp_rexmit = 0, sp_ttl = 10\<rparr>] :: snd_pkt list"
  obtain b r where b: "sb_inv b r 0" "sq_pkts (sb_abs b r 0) = ?Q" by (rule sample_filled [of 10])
  have "sl_abs (CSndLossList sl_demo_mem) {}" by (rule sl_abs_empty) (simp_all add: sl_demo_mem_def seqno_const_defs)
  from sl_insert_correct [OF this, of 7 7] obtain l where l: "sl_abs l {7}" by (auto simp: CSndLossList_def sl_demo_mem_def)
  let ?s = "sample_path 1 (sample_core b l 7 7)"
  have w: "wrapseq 7 = 7" by (simp add: wrapseq_def seqno_const_defs)
  have "listed ?s ?Q 0 7 {7}" using b l w by (auto simp: listed_def sample_path_def sample_core_def seqno_const_defs)
  moreover have "rtt_fits ?s" "right_time ?s ?Q 7 7 20000" by (simp_all add: rtt_fits_def right_time_def sample_path_def sample_core_def in_int32_def)
  moreover have "pkt_expired 20001 (?Q ! 0)" by (simp add: pkt_expired_def signed_divide_int_def)
  moreover have "{7 :: int} \<inter> {7..} = {7}" "ticks ?s = 0" by (auto simp: sample_path_def)
  ultimately have "packLostData (\<lambda>i. 20000 + int i) CPacket ?s = None"
    using expired_packet_never_returns [of ?s ?Q 0 7 "{7}" "{7}" 7 "\<lambda>i. 20000 + int i" CPacket] by (simp add: seqno_const_defs)
  then show ?thesis using b(2) l by blast
qed

end
