(* ===== verification/SenderSteps.thy ===== *)
theory SenderSteps
  imports Retransmission
begin

text \<open>
  The invariant of the sending side as a whole, \<open>path_inv\<close>, and that it is kept when the sending thread
  asks for a packet, when packets that are too late are given up and when a message is submitted, with what each of these does.
\<close>

section \<open>The invariant\<close>

definition path_inv :: "snd_path \<Rightarrow> snd_pkt list \<Rightarrow> int \<Rightarrow> int \<Rightarrow> int \<Rightarrow> int set \<Rightarrow> bool" where
  "path_inv s Q da fa cur S \<longleftrightarrow> sender_inv (core s) Q da da fa cur S \<and> S \<subseteq> {da..}
     \<and> (\<forall>i < length Q. sp_seq (Q ! i) = wrapseq (da + int i)) \<and> resendable Q \<and> \<not> m_bModeGCM s \<and> \<not> m_bBroken (core s) \<and> srtt_ok (core s)
     \<and> int (length Q) + 1 \<le> sl_iSize (m_pSndLossList (core s)) \<and> da + int (length Q) - fa < m_iSeqNoTH"

definition path_mode :: "snd_path \<Rightarrow> bool \<times> int" where
  "path_mode s = (m_bModeGCM s, m_iSRTT (core s))"

lemma path_inv_view:
  assumes "core_view (core s') = core_view (core s)" "path_mode s' = path_mode s"
  shows "path_inv s' Q da fa cur S = path_inv s Q da fa cur S"
proof -
  have "m_bBroken (core s') = m_bBroken (core s)" "m_pSndLossList (core s') = m_pSndLossList (core s)"
    using assms(1) by (simp_all add: core_view_def)
  then show ?thesis using assms(2) sender_inv_view [OF assms(1)] by (simp add: path_inv_def path_mode_def srtt_ok_def)
qed

lemma path_inv_listed: "path_inv s Q da fa cur S \<Longrightarrow> listed s Q (nat (cur + 1 - da)) da S"
  using sender_listed [of s Q da da fa cur S] by (simp add: path_inv_def)

lemma path_inv_bounds:
  assumes "path_inv s Q da fa cur S"
  shows "da \<le> cur + 1" "cur + 1 \<le> da + int (length Q)" "fa \<le> da" "da + int (length Q) - fa < m_iSeqNoTH" "m_iSndLastDataAck (core s) = wrapseq da"
    "m_iSndCurrSeqNo (core s) = wrapseq cur" "m_iSndLastAck (core s) = wrapseq da"
    "sl_abs (m_pSndLossList (core s)) S" "S \<subseteq> {da..cur}"
proof -
  have "sender_inv (core s) Q da da fa cur S" "S \<subseteq> {da..}" "da + int (length Q) - fa < m_iSeqNoTH" using assms by (simp_all add: path_inv_def)
  then show "da \<le> cur + 1" "cur + 1 \<le> da + int (length Q)" "fa \<le> da" "da + int (length Q) - fa < m_iSeqNoTH" "m_iSndLastDataAck (core s) = wrapseq da"
    "m_iSndCurrSeqNo (core s) = wrapseq cur" "m_iSndLastAck (core s) = wrapseq da" "sl_abs (m_pSndLossList (core s)) S" "S \<subseteq> {da..cur}"
    by (simp_all add: sender_inv_def loss_inv_def) fastforce
qed

lemma content_length: "map content Q' = map content Q \<Longrightarrow> length Q' = length Q"
  by (rule map_eq_imp_length_eq)

text \<open>A state that has the same numbers, the same packets up to the times of retransmissions, and part of the list.\<close>

lemma path_inv_part:
  assumes i: "path_inv s Q da fa cur S" and f: "same_path s s'" and l: "listed s' Q' (nat (cur + 1 - da)) da S'" "S' \<subseteq> S"
    and Q: "map content Q' = map content Q"
  shows "path_inv s' Q' da fa cur S'"
proof -
  have m: "m_iSndLastDataAck (core s') = wrapseq da" "m_iSndLastFullAck (core s') = m_iSndLastFullAck (core s)"
    "m_iSndCurrSeqNo (core s') = m_iSndCurrSeqNo (core s)" "m_iSndLastAck (core s') = m_iSndLastAck (core s)" "m_bBroken (core s') = m_bBroken (core s)"
    "sl_iSize (m_pSndLossList (core s')) = sl_iSize (m_pSndLossList (core s))" "path_mode s' = path_mode s"
    using f l(1) by (auto simp: frame_def listed_def path_mode_def)
  have b: "sl_abs (m_pSndLossList (core s')) S'" "\<exists>r. sb_inv (m_pSndBuffer (core s')) r (nat (cur + 1 - da))
      \<and> sq_pkts (sb_abs (m_pSndBuffer (core s')) r (nat (cur + 1 - da))) = Q'"
    using l(1) by (auto simp: listed_def)
  note d = path_inv_bounds [OF i]
  have z: "sender_inv (core s) Q da da fa cur S" "loss_inv (core s) da cur S" "S \<subseteq> {da..}" "resendable Q" "\<not> m_bModeGCM s" "\<not> m_bBroken (core s)"
    "int (length Q) + 1 \<le> sl_iSize (m_pSndLossList (core s))" "\<forall>i < length Q. sp_seq (Q ! i) = wrapseq (da + int i)"
    using i by (simp_all add: path_inv_def sender_inv_def)
  have "loss_inv (core s') da cur S'" using z(2) m b(1) l(2) by (auto simp: loss_inv_def)
  then have "sender_inv (core s') Q' da da fa cur S'" using z(1) m b(2) content_length [OF Q] by (simp add: sender_inv_def)
  moreover have "\<forall>i < length Q'. sp_seq (Q' ! i) = wrapseq (da + int i)" using z(8) content_nth(4) [OF Q] content_length [OF Q] by simp
  moreover have "srtt_ok (core s')" "\<not> m_bModeGCM s'" using i m(7) by (auto simp: path_inv_def path_mode_def srtt_ok_def)
  ultimately show ?thesis using z m l(2) d(4) resendable_content [OF Q] content_length [OF Q] by (simp add: path_inv_def)
qed

section \<open>Packets sent for the first time\<close>

lemma stamp_0 [simp]: "stamp 0 p = p"
  by (simp add: stamp_def Bits_wrap_def)

lemma readData_length:
  "readData_loop now kflgs b len w t inc = Some y \<Longrightarrow> fst y = len \<or> fst y = 0 \<or> getLength (fst (snd y)) = nat (fst y)"
proof (induction rule: readData_loop.raw_induct [rotated, consumes 1])
  case (1 f now kflgs b len w t inc y)
  show ?case
  proof (cases y)
    case (fields l v t' i b')
    then show ?thesis using 1(2)
      by (auto simp: Let_def bind_eq_Some_conv set_msgflags_def set_seqno_def reflect_data_def setLength_cap_def setLength_def getLength_def
          split: if_splits dest!: 1(1))
  qed
qed

lemma getFlightSpan_path:
  assumes "path_inv s Q da fa cur S"
  shows "getFlightSpan (core s) = cur + 1 - da"
proof -
  note d = path_inv_bounds [OF assms]
  have "cur + 1 - da \<le> m_iMaxSeqNo" using d(2-4) by (simp add: seqno_const_defs)
  then show ?thesis using d(1) by (simp add: getFlightSpan_def d(6,7) seq_simps)
qed

text \<open>A first reading with packets that do not expire: the next packet, the sent mark one further, nothing else changed.\<close>

lemma readData_next:
  assumes i: "sb_inv b r c" and Q: "sq_pkts (sb_abs b r c) = Q" "resendable Q"
  shows "\<exists>len w' t' b'. readData now 0 b w t = Some (len, w', t', 0, b') \<and> sb_inv b' r (min (Suc c) (length Q)) \<and> sq_pkts (sb_abs b' r (min (Suc c) (length Q))) = Q
    \<and> (if c < length Q then len = int (length (sp_data (Q ! c))) \<and> 0 < len \<and> packet_bytes b' w' = sp_data (Q ! c) \<and> getLength w' = length (sp_data (Q ! c))
          \<and> SRT_PH_MSGNO (m_nHeader w') = sp_bits (Q ! c) else len = 0)"
proof -
  have P: "Q = map pkt_of (occupied b r)" using Q(1) by (simp add: sb_abs_def)
  have "\<not> pkt_expired now p" if "p \<in> set Q" for p using Q(2) that by (auto simp: resendable_def pkt_expired_def)
  then have tw: "takeWhile (pkt_expired now) (drop c Q) = []" by (metis hd_in_set in_set_dropD takeWhile_eq_Nil_iff)
  have c: "c \<le> length Q" using sb_invD(8) [OF i] length_occupied [OF i] P by simp
  from readData_loop_spec [OF i P, of 0 now 0 0 w t 0] tw obtain len w' t' b' where
    b': "readData_loop now 0 b 0 w t 0 = Some (len, w', t', 0, b')" "sb_inv b' r (min (Suc c) (length Q))"
      "map pkt_of (occupied b' r) = take c Q @ map (stamp 0) (take 1 (drop c Q)) @ drop (Suc c) Q"
      "c = length Q \<longrightarrow> len = 0" "c < length Q \<longrightarrow> reads_packet 0 b' len w' t' (Q ! c)" by auto
  have "map (stamp 0) xs = xs" for xs by (induction xs) auto
  then have "map pkt_of (occupied b' r) = take c Q @ take 1 (drop c Q) @ drop 1 (drop c Q)" using b'(3) by simp
  then have q: "map pkt_of (occupied b' r) = Q" by (metis append_take_drop_id)
  have "0 < length (sp_data (Q ! c))" if "c < length Q" using Q(2) nth_mem [OF that] by (simp add: resendable_def)
  then show ?thesis using b' q c readData_length [OF b'(1)]
    by (intro exI [of _ len] exI [of _ w'] exI [of _ t'] exI [of _ b']) (auto simp: readData_def reads_packet_def sb_abs_def)
qed

text \<open>The number of the last packet sent moves, with the sent mark of the buffer.\<close>

lemma path_inv_sent:
  assumes i: "path_inv s Q da fa cur S" and n: "cur \<le> n" "n + 1 \<le> da + int (length Q)"
    and b: "sb_inv b r (nat (n + 1 - da))" "sq_pkts (sb_abs b r (nat (n + 1 - da))) = Q"
    and v: "core_view (core s') = core_view ((core s)\<lparr>m_pSndBuffer := b, m_iSndCurrSeqNo := wrapseq n\<rparr>)" "path_mode s' = path_mode s"
  shows "path_inv s' Q da fa n S"
proof -
  note d = path_inv_bounds [OF i]
  let ?c = "(core s)\<lparr>m_pSndBuffer := b, m_iSndCurrSeqNo := wrapseq n\<rparr>"
  have z: "sender_inv (core s) Q da da fa cur S" "loss_inv (core s) da cur S" "int (length Q) + 1 \<le> sl_iSize (m_pSndLossList (core s))"
    using i by (simp_all add: path_inv_def sender_inv_def)
  have "loss_inv ?c da n S" using z(2,3) d(1,9) n by (auto simp: loss_inv_def)
  then have "sender_inv ?c Q da da fa n S" using z(1) b n d(1,4) by (auto simp: sender_inv_def)
  then have "sender_inv (core s') Q da da fa n S" using sender_inv_view [OF v(1)] by simp
  moreover have "m_bBroken (core s') = m_bBroken (core s)" "m_pSndLossList (core s') = m_pSndLossList (core s)" using v(1) by (simp_all add: core_view_def)
  ultimately show ?thesis using i v(2) by (simp add: path_inv_def path_mode_def srtt_ok_def)
qed

lemma packUniqueData_done:
  assumes i: "path_inv s Q da fa cur S"
  defines "sends \<equiv> cur + 1 - da < min (m_iFlowWindowSize (core s)) (m_iCongestionWindow (core s)) \<and> cur + 1 < da + int (length Q)"
  shows "\<exists>w' s'. packUniqueData clk w s = Some (sends, w', s') \<and> path_inv s' Q da fa (if sends then cur + 1 else cur) S
    \<and> (sends \<longrightarrow> carries (m_pSndBuffer (core s')) w' (cur + 1) (Q ! nat (cur + 1 - da)) 0)"
proof (cases "min (m_iFlowWindowSize (core s)) (m_iCongestionWindow (core s)) \<le> cur + 1 - da")
  case True
  then show ?thesis using i getFlightSpan_path [OF i] by (auto simp: packUniqueData_def sends_def)
next
  case False
  note d = path_inv_bounds [OF i]
  let ?k = "nat (cur + 1 - da)"
  obtain r where b: "sb_inv (m_pSndBuffer (core s)) r ?k" "sq_pkts (sb_abs (m_pSndBuffer (core s)) r ?k) = Q" and ok: "resendable Q"
    using i by (auto simp: path_inv_def sender_inv_def)
  from readData_next [OF b ok, of "clk (ticks s)" w 0] obtain len w1 t b1 where
    rd: "readData (clk (ticks s)) 0 (m_pSndBuffer (core s)) w 0 = Some (len, w1, t, 0, b1)"
      "sb_inv b1 r (min (Suc ?k) (length Q))" "sq_pkts (sb_abs b1 r (min (Suc ?k) (length Q))) = Q" and
    out: "if ?k < length Q then len = int (length (sp_data (Q ! ?k))) \<and> 0 < len \<and> packet_bytes b1 w1 = sp_data (Q ! ?k) \<and> getLength w1 = length (sp_data (Q ! ?k))
          \<and> SRT_PH_MSGNO (m_nHeader w1) = sp_bits (Q ! ?k) else len = 0" by blast
  have sp: "\<not> min (m_iFlowWindowSize (core s)) (m_iCongestionWindow (core s)) \<le> getFlightSpan (core s)" using False getFlightSpan_path [OF i] by simp
  show ?thesis
  proof (cases "cur + 1 < da + int (length Q)")
    case True
    then have k: "?k < length Q" "min (Suc ?k) (length Q) = nat (cur + 1 + 1 - da)" "sends" using d(1) False by (auto simp: sends_def)
    let ?c = "(core s)\<lparr>m_pSndBuffer := b1, m_iSndCurrSeqNo := wrapseq (cur + 1)\<rparr>"
    let ?w = "set_id (set_seqno w1 (wrapseq (cur + 1))) (m_PeerID s)"
    obtain w' s' where ts: "setDataPacketTS clk ((tick s)\<lparr>core := ?c\<rparr>) ?w t = (w', s')" by (cases "setDataPacketTS clk ((tick s)\<lparr>core := ?c\<rparr>) ?w t")
    note f = setDataPacketTS_frame [OF ts]
    have "packUniqueData clk w s = Some (True, w', s')"
      using sp rd(1) out k(1) ts d(6) by (auto simp: packUniqueData_def seq_simps Let_def)
    moreover have "path_inv s' Q da fa (cur + 1) S"
      by (rule path_inv_sent [OF i _ _ rd(2,3) [unfolded k(2)]]) (use True f(1,2) in \<open>auto simp: frame_def tick_def path_mode_def\<close>)
    moreover have "carries (m_pSndBuffer (core s')) w' (cur + 1) (Q ! ?k) 0"
      using f out k(1) by (simp add: carries_def set_id_def set_seqno_def)
    ultimately show ?thesis using k(3) by auto
  next
    case False
    then have k: "\<not> ?k < length Q" "min (Suc ?k) (length Q) = nat (cur + 1 - da)" "\<not> sends" using d(1,2) by (auto simp: sends_def)
    let ?s = "(tick s)\<lparr>core := (core s)\<lparr>m_pSndBuffer := b1\<rparr>\<rparr>"
    have "packUniqueData clk w s = Some (False, w1, ?s)" using sp rd(1) out k(1) by (simp add: packUniqueData_def split del: if_split)
    moreover have "path_inv ?s Q da fa cur S"
      by (rule path_inv_sent [OF i _ _ rd(2,3) [unfolded k(2)]]) (use d(2,6) in \<open>auto simp: core_view_def tick_def path_mode_def\<close>)
    ultimately show ?thesis using k(3) by auto
  qed
qed

section \<open>The next packet\<close>

lemma packLostData_path:
  assumes i: "path_inv s Q da fa cur S" and r: "rtt_fits s"
  shows "\<exists>len w' s' Q' S'. packLostData clk w s = Some (len, w', s') \<and> path_inv s' Q' da fa cur S' \<and> map content Q' = map content Q \<and> S' \<subseteq> S \<and> same_path s s'
    \<and> (0 < len \<longrightarrow> (\<exists>n \<in> {da..cur}. carries (m_pSndBuffer (core s')) w' n (Q ! nat (n - da)) (rexmit_flag s)))"
proof -
  note d = path_inv_bounds [OF i]
  have ok: "resendable Q" "\<forall>p \<in> set Q. sp_data p \<noteq> []" "\<not> m_bModeGCM s" using i by (auto simp: path_inv_def resendable_def)
  have S: "S \<inter> {da..} = S" "finite S" using d(8,9) sl_abs_finite by auto
  obtain res rest t where nx: "next_right (right_time s Q da) clk (ticks s) (sorted_list_of_set (S \<inter> {da..})) = (res, rest, t)" by (metis prod_cases3)
  have sub: "set rest \<subseteq> S" "\<forall>n. res = Some n \<longrightarrow> n \<in> S" using next_right_in [OF nx] S by auto
  have lt: "nat (n - da) < length Q" if "n \<in> S" for n using subsetD [OF d(9) that] d(1,2) by auto
  then have alive: "\<forall>n. res = Some n \<longrightarrow> \<not> pkt_expired (clk t) (Q ! nat (n - da))"
    using sub(2) ok(1) nth_mem by (fastforce simp: resendable_def pkt_expired_def)
  from packLostData_done [OF path_inv_listed [OF i] r ok(2,3) nx alive, of w] obtain len w' s' where
    p: "packLostData clk w s = Some (len, w', s')" "same_path s s'" and
    c: "case res of None \<Rightarrow> len = 0 \<and> w' = w \<and> listed s' Q (nat (cur + 1 - da)) da {}
       | Some n \<Rightarrow> n \<in> S \<and> da \<le> n \<and> len = int (length (sp_data (Q ! nat (n - da)))) \<and> 0 < len
           \<and> carries (m_pSndBuffer (core s')) w' n (Q ! nat (n - da)) (rexmit_flag s)
           \<and> listed s' (Q[nat (n - da) := (Q ! nat (n - da))\<lparr>sp_rexmit := clk t\<rparr>]) (nat (cur + 1 - da)) da (set rest)" by blast
  show ?thesis
  proof (cases res)
    case None
    then have "path_inv s' Q da fa cur {}" using c path_inv_part [OF i p(2)] by simp
    then show ?thesis using p c None by auto
  next
    case (Some n)
    let ?Q = "Q[nat (n - da) := (Q ! nat (n - da))\<lparr>sp_rexmit := clk t\<rparr>]"
    have n: "n \<in> S" "n \<in> {da..cur}" using c Some d(9) by auto
    have "map content ?Q = map content Q" by (rule content_rexmit [OF lt [OF n(1)]])
    moreover from this have "path_inv s' ?Q da fa cur (set rest)" using c Some path_inv_part [OF i p(2) _ sub(1)] by simp
    moreover have "carries (m_pSndBuffer (core s')) w' n (Q ! nat (n - da)) (rexmit_flag s)" using c Some by simp
    ultimately show ?thesis using p n(2) sub(1) by blast
  qed
qed

lemma peek_done:
  assumes "sb_inv b r c"
  shows "\<exists>t. peekNextOriginal b = Some t"
proof (cases "m_pCurrBlock b = m_pLastBlock b")
  case False
  have "c < length r" using sb_invD(6,8) [OF assms] by simp
  then have "r ! c < length (m_blocks b)" using path_in_store [OF sb_invD(1) [OF assms]] by simp
  then show ?thesis using sb_invD(9) [OF assms] by (simp add: peekNextOriginal_def)
qed (simp add: peekNextOriginal_def)

lemma isRegularSendingPriority_done: "path_inv s Q da fa cur S \<Longrightarrow> \<exists>v. isRegularSendingPriority s = Some v"
  using peek_done by (fastforce simp: isRegularSendingPriority_def path_inv_def sender_inv_def)

lemma considerLegacy_view:
  "core_view (core (considerLegacySrtHandshake clk s)) = core_view (core s)" "path_mode (considerLegacySrtHandshake clk s) = path_mode s"
  "m_pSndBuffer (core (considerLegacySrtHandshake clk s)) = m_pSndBuffer (core s)"
  by (simp_all add: considerLegacySrtHandshake_def Let_def tick_def effect_def core_view_def path_mode_def)

lemma packed_view:
  assumes "packed clk t0 new len w s = (ok, w', t, s')"
  shows "core_view (core s') = core_view (core s)" "path_mode s' = path_mode s" "ok \<longleftrightarrow> 0 \<le> len" "w' = set_id w (m_PeerID s)"
    "m_pSndBuffer (core s') = m_pSndBuffer (core s)"
proof -
  let ?s1 = "considerLegacySrtHandshake clk (s\<lparr>m_tsLastSndTime := t0\<rparr>)"
  have "core s' = effect (Update_CC (TEV_SEND w')) (core ?s1)" "m_bModeGCM s' = m_bModeGCM ?s1" "ok \<longleftrightarrow> 0 \<le> len" "w' = set_id w (m_PeerID s)"
    using assms by (auto simp: packed_def Let_def next_send_time_def split: if_splits)
  then show "core_view (core s') = core_view (core s)" "path_mode s' = path_mode s" "ok \<longleftrightarrow> 0 \<le> len" "w' = set_id w (m_PeerID s)"
    "m_pSndBuffer (core s') = m_pSndBuffer (core s)"
    using considerLegacy_view [of clk "s\<lparr>m_tsLastSndTime := t0\<rparr>"] by (simp_all add: effect_def core_view_def path_mode_def)
qed

lemma carries_id [simp]: "carries b (set_id w i) n p flag = carries b w n p flag"
  by (simp add: carries_def set_id_def)

lemma packed_path:
  assumes "path_inv s Q da fa cur S" "0 \<le> len"
  shows "\<exists>w' t s'. packed clk t0 new len w s = (True, w', t, s') \<and> path_inv s' Q da fa cur S
    \<and> (\<forall>n p flag. carries (m_pSndBuffer (core s)) w n p flag \<longrightarrow> carries (m_pSndBuffer (core s')) w' n p flag)"
proof -
  obtain ok w' t s' where p: "packed clk t0 new len w s = (ok, w', t, s')" by (metis prod_cases4)
  note v = packed_view [OF p]
  show ?thesis using p v assms path_inv_view [OF v(1,2)] by auto
qed

definition entered :: "(nat \<Rightarrow> int) \<Rightarrow> snd_path \<Rightarrow> snd_path" where
  "entered clk s = (if m_tsNextSendTime s \<noteq> 0 \<and> clk (ticks s) > m_tsNextSendTime s
      then (tick s)\<lparr>m_tdSendTimeDiff := m_tdSendTimeDiff s + (clk (ticks s) - m_tsNextSendTime s)\<rparr> else tick s)"

lemma packData_step:
  assumes "m_bOpened (entered clk s)" "isRegularSendingPriority (entered clk s) = Some reg"
    "(if \<not> reg then packLostData clk w (entered clk s) else Some (0, w, entered clk s)) = Some (len, w1, s1)"
  shows "packData clk w s = (if 0 < len then Some (packed clk (clk (ticks s)) False len w1 (tick s1))
      else do { (ok, w2, s3) \<leftarrow> packUniqueData clk w1 (tick s1);
                if \<not> ok then Some (False, w2, clk (ticks s), s3\<lparr>m_tsNextSendTime := 0, m_tdSendTimeDiff := 0\<rparr>)
                else Some (packed clk (clk (ticks s)) True (int (getLength w2)) w2 s3) })"
  using assms by (cases reg) (simp_all add: packData_def Let_def entered_def [symmetric])

text \<open>What a call of \<^verbatim>\<open>packData\<close> has done: the queue keeps its packets, and a packet handed out is one of those sent by then.\<close>

lemma packData_done:
  assumes i: "path_inv s Q da fa cur S" and r: "rtt_fits s"
  shows "\<exists>ok w' t s' Q' S' cur'. packData clk w s = Some (ok, w', t, s') \<and> path_inv s' Q' da fa cur' S' \<and> map content Q' = map content Q
    \<and> S' \<subseteq> S \<and> cur' \<in> {cur, cur + 1}
    \<and> (ok \<longrightarrow> (\<exists>n \<in> {da..cur'}. \<exists>flag. carries (m_pSndBuffer (core s')) w' n (Q ! nat (n - da)) flag))
    \<and> (m_bOpened s \<and> cur + 1 - da < min (m_iFlowWindowSize (core s)) (m_iCongestionWindow (core s)) \<and> cur + 1 < da + int (length Q) \<longrightarrow> ok)"
proof -
  define s0 where "s0 = entered clk s"
  have i0: "path_inv s0 Q da fa cur S" "rtt_fits s0"
    using i r path_inv_view [of s0 s] by (simp_all add: s0_def entered_def tick_def rtt_fits_def path_mode_def)
  note d = path_inv_bounds [OF i]
  show ?thesis
  proof (cases "m_bOpened s0")
    case False
    then have "packData clk w s = Some (False, w, clk (ticks s), s0)" by (simp add: packData_def Let_def s0_def entered_def)
    moreover have "\<not> m_bOpened s" using False by (simp add: s0_def entered_def tick_def split: if_splits)
    ultimately show ?thesis using i0(1) by auto
  next
    case True
    obtain reg where reg: "isRegularSendingPriority s0 = Some reg" using isRegularSendingPriority_done [OF i0(1)] by blast
    obtain len w1 s1 Q1 S1 where
      lost: "(if \<not> reg then packLostData clk w s0 else Some (0, w, s0)) = Some (len, w1, s1)" "path_inv s1 Q1 da fa cur S1"
        "map content Q1 = map content Q" "S1 \<subseteq> S" "same_path s0 s1"
        "0 < len \<longrightarrow> (\<exists>n \<in> {da..cur}. carries (m_pSndBuffer (core s1)) w1 n (Q ! nat (n - da)) (rexmit_flag s0))"
      using packLostData_path [OF i0, of clk w] i0(1) by (cases reg) force+
    note step = packData_step [OF True [unfolded s0_def] reg [unfolded s0_def] lost(1) [unfolded s0_def]]
    have i2: "path_inv (tick s1) Q1 da fa cur S1" using lost(2) path_inv_view [of "tick s1" s1] by (simp add: tick_def path_mode_def)
    show ?thesis
    proof (cases "0 < len")
      case True
      obtain w' t s' where p: "packed clk (clk (ticks s)) False len w1 (tick s1) = (True, w', t, s')" "path_inv s' Q1 da fa cur S1"
        "\<forall>n p flag. carries (m_pSndBuffer (core (tick s1))) w1 n p flag \<longrightarrow> carries (m_pSndBuffer (core s')) w' n p flag"
        using packed_path [OF i2, of len clk "clk (ticks s)" False w1] True by auto
      have "\<exists>n \<in> {da..cur}. \<exists>flag. carries (m_pSndBuffer (core s')) w' n (Q ! nat (n - da)) flag"
        using lost(6) True p(3) by (simp add: tick_def) blast
      moreover have "packData clk w s = Some (True, w', t, s')" using step True p(1) by simp
      ultimately show ?thesis using p(2) lost(3,4) by blast
    next
      case False
      define sends where "sends = (cur + 1 - da < min (m_iFlowWindowSize (core (tick s1))) (m_iCongestionWindow (core (tick s1))) \<and> cur + 1 < da + int (length Q1))"
      from packUniqueData_done [OF i2, of clk w1] obtain w2 s3 where
        u: "packUniqueData clk w1 (tick s1) = Some (sends, w2, s3)" "path_inv s3 Q1 da fa (if sends then cur + 1 else cur) S1"
          "sends \<longrightarrow> carries (m_pSndBuffer (core s3)) w2 (cur + 1) (Q1 ! nat (cur + 1 - da)) 0" unfolding sends_def by blast
      show ?thesis
      proof (cases sends)
        case True
        then have i3: "path_inv s3 Q1 da fa (cur + 1) S1" using u(2) by simp
        obtain w' t s' where p: "packed clk (clk (ticks s)) True (int (getLength w2)) w2 s3 = (True, w', t, s')" "path_inv s' Q1 da fa (cur + 1) S1"
          "\<forall>n p flag. carries (m_pSndBuffer (core s3)) w2 n p flag \<longrightarrow> carries (m_pSndBuffer (core s')) w' n p flag"
          using packed_path [OF i3, of "int (getLength w2)" clk "clk (ticks s)" True w2] by auto
        have k: "nat (cur + 1 - da) < length Q" using True d(1) content_length [OF lost(3)] by (auto simp: sends_def)
        have "carries (m_pSndBuffer (core s')) w' (cur + 1) (Q1 ! nat (cur + 1 - da)) 0" using p(3) u(3) True by blast
        then have "carries (m_pSndBuffer (core s')) w' (cur + 1) (Q ! nat (cur + 1 - da)) 0"
          using content_nth [OF lost(3) k] by (simp add: carries_def)
        moreover have "packData clk w s = Some (True, w', t, s')" "cur + 1 \<in> {da..cur + 1}" using step False u(1) True p(1) d(1) by simp_all
        ultimately show ?thesis using p(2) lost(3,4) by blast
      next
        case unsent: False
        let ?s = "s3\<lparr>m_tsNextSendTime := 0, m_tdSendTimeDiff := 0\<rparr>"
        have "path_inv ?s Q1 da fa cur S1" using u(2) unsent path_inv_view [of ?s s3] by (simp add: path_mode_def)
        moreover have "packData clk w s = Some (False, w2, clk (ticks s), ?s)" using step False u(1) unsent by simp
        moreover have "m_iFlowWindowSize (core s1) = m_iFlowWindowSize (core s)" "m_iCongestionWindow (core s1) = m_iCongestionWindow (core s)"
          using lost(5) by (auto simp: frame_def s0_def entered_def tick_def split: if_splits)
        then have "\<not> (cur + 1 - da < min (m_iFlowWindowSize (core s)) (m_iCongestionWindow (core s)) \<and> cur + 1 < da + int (length Q))"
          using unsent content_length [OF lost(3)] by (simp add: sends_def tick_def)
        ultimately show ?thesis using lost(3,4) by blast
      qed
    qed
  qed
qed

section \<open>Packets given up\<close>

definition drop_fits :: "hs_agent \<Rightarrow> bool" where
  "drop_fits a \<longleftrightarrow> (m_bPeerTLPktDrop a \<longrightarrow> bMessageAPI (m_config a))
     \<and> in_int32 (m_iPeerTsbPdDelay_ms a + iSndDropDelay (m_config a))
     \<and> in_int32 (max (m_iPeerTsbPdDelay_ms a + iSndDropDelay (m_config a)) 1000 + 20)"

text \<open>The age in milliseconds from which on a packet is too late; with 0 none is.\<close>

definition late_threshold :: "hs_agent \<Rightarrow> int" where
  "late_threshold a = (if m_bPeerTLPktDrop a \<and> iSndDropDelay (m_config a) \<ge> 0
     then max (m_iPeerTsbPdDelay_ms a + iSndDropDelay (m_config a)) 1000 + 20 else 0)"

definition late_count :: "hs_agent \<Rightarrow> int \<Rightarrow> snd_pkt list \<Rightarrow> nat" where
  "late_count a now Q =
     (if late_threshold a = 0 \<or> Q = [] \<or> sint (word_of_int ((now - sp_origin (hd Q)) sdiv 1000) :: 32 word) \<le> late_threshold a then 0
      else length (takeWhile (\<lambda>p. sp_origin p < now - late_threshold a * 1000) Q))"

lemma late_count_le: "late_count a now Q \<le> length Q"
  by (simp add: late_count_def length_takeWhile_le)

lemma getBufferingDelay_done:
  assumes "sb_inv b r c" "sq_pkts (sb_abs b r c) = Q"
  shows "getBufferingDelay b now = Some (if Q = [] then 0 else now - sp_origin (hd Q))"
proof -
  have Q: "Q = map pkt_of (occupied b r)" using assms(2) by (simp add: sb_abs_def)
  have len: "length Q = nat (m_iCount b)" using length_occupied [OF assms(1)] Q by simp
  show ?thesis
  proof (cases "Q = []")
    case True
    then show ?thesis using len sb_invD(4) [OF assms(1)] by (simp add: getBufferingDelay_def)
  next
    case False
    then have c: "0 < nat (m_iCount b)" using len by (metis length_greater_0_conv)
    have r: "m_pFirstBlock b = r ! 0" using ring_first [of b r] assms(1) sb_invD(6) [OF assms(1)] by (cases r) (auto simp: sb_inv_def)
    have "Q ! 0 = pkt_of (m_blocks b ! (r ! 0))" using pkts_nth(1) [OF assms(1) c] Q by simp
    then show ?thesis using c r False next_in_ring(2) [OF assms(1) count_in_ring [OF assms(1) c]]
      by (simp add: getBufferingDelay_def hd_conv_nth pkt_of_def)
  qed
qed

text \<open>The numbers after packets were given up.\<close>

lemma path_inv_given_up:
  assumes i: "path_inv s Q da fa cur S" and k: "k \<le> length Q"
    and b: "sb_inv b r (nat (cur + 1 - da) - k)" "sq_pkts (sb_abs b r (nat (cur + 1 - da) - k)) = drop k Q"
    and l: "sl_abs l (S - {..<da + int k})" "sl_iSize l = sl_iSize (m_pSndLossList (core s))"
    and v: "core_view (core s') = core_view ((core s)\<lparr>m_pSndBuffer := b, m_pSndLossList := l, m_iFlowWindowSize := w, m_iSndLastAck := wrapseq (da + int k),
      m_iSndLastDataAck := wrapseq (da + int k), m_iSndCurrSeqNo := wrapseq (max cur (da + int k - 1))\<rparr>)" "path_mode s' = path_mode s"
  shows "path_inv s' (drop k Q) (da + int k) fa (max cur (da + int k - 1)) (S - {..<da + int k})"
proof -
  note d = path_inv_bounds [OF i]
  let ?da = "da + int k" let ?cur = "max cur (da + int k - 1)" let ?S = "S - {..<da + int k}"
  let ?c = "(core s)\<lparr>m_pSndBuffer := b, m_pSndLossList := l, m_iFlowWindowSize := w, m_iSndLastAck := wrapseq ?da,
      m_iSndLastDataAck := wrapseq ?da, m_iSndCurrSeqNo := wrapseq ?cur\<rparr>"
  have z: "sender_inv (core s) Q da da fa cur S" "int (length Q) + 1 \<le> sl_iSize l" "resendable Q" "\<not> m_bModeGCM s" "\<not> m_bBroken (core s)"
    "\<forall>i < length Q. sp_seq (Q ! i) = wrapseq (da + int i)" using i l(2) by (simp_all add: path_inv_def)
  have kk: "int k \<le> int (length Q)" using k by simp
  have m: "nat (cur + 1 - da) - k = nat (?cur + 1 - ?da)" by auto
  have "cur + 1 \<le> da + int (length Q)" "da \<le> cur + 1" by (rule d(2), rule d(1))
  then have up: "?cur + 1 \<le> da + int (length Q)" using kk by simp
  have "?S \<subseteq> {?cur + 2 - sl_iSize l..?cur}"
  proof
    fix x assume "x \<in> ?S"
    then have "?da \<le> x" "x \<le> cur" using d(9) by auto
    then show "x \<in> {?cur + 2 - sl_iSize l..?cur}" using up z(2) kk by auto
  qed
  then have "loss_inv ?c ?da ?cur ?S" using l(1) z(2) up kk by (simp add: loss_inv_def)
  moreover have "m_iSndLastFullAck ?c = wrapseq fa" using z(1) by (simp add: sender_inv_def)
  moreover have "fa \<le> ?da" "?da \<le> ?cur + 1" "?cur + 1 - fa < m_iSeqNoTH" "?cur + 1 - ?da \<le> int (length (drop k Q))" using d(3,4) up kk k by auto
  ultimately have "sender_inv ?c (drop k Q) ?da ?da fa ?cur ?S" using b unfolding m by (auto simp: sender_inv_def)
  then have "sender_inv (core s') (drop k Q) ?da ?da fa ?cur ?S" using sender_inv_view [OF v(1)] by simp
  moreover have "m_bBroken (core s') = m_bBroken (core s)" "m_pSndLossList (core s') = l" using v(1) by (simp_all add: core_view_def)
  moreover have "\<forall>i < length (drop k Q). sp_seq (drop k Q ! i) = wrapseq (?da + int i)" using z(6) k by (simp add: add.assoc)
  moreover have "resendable (drop k Q)" using z(3) by (auto simp: resendable_def dest: in_set_dropD)
  moreover have "srtt_ok (core s')" "\<not> m_bModeGCM s'" using i v(2) by (auto simp: path_inv_def path_mode_def srtt_ok_def)
  ultimately show ?thesis using z(2,5) d(4) kk k by (auto simp: path_inv_def)
qed

lemma drop_threshold_fits: "drop_fits a \<Longrightarrow> m_bPeerTLPktDrop a \<Longrightarrow> drop_threshold a = Some (late_threshold a)"
  by (simp add: drop_threshold_def drop_fits_def late_threshold_def SRT_TLPKTDROP_MINTHRESHOLD_MS_def int32_def ackd_defs signed_divide_int_def)

lemma give_up_done:
  assumes i: "path_inv s Q da fa cur S" and k: "0 < k" "k \<le> length Q"
    and b: "sb_inv b r (nat (cur + 1 - da) - k)" "sq_pkts (sb_abs b r (nat (cur + 1 - da) - k)) = drop k Q"
  shows "\<exists>s'. give_up (int k) dbytes b s = Some s' \<and> path_inv s' (drop k Q) (da + int k) fa (max cur (da + int k - 1)) (S - {..<da + int k})
    \<and> m_iFlowWindowSize (core s') = m_iFlowWindowSize (core s) + int k"
proof -
  note d = path_inv_bounds [OF i]
  let ?n = "da + int k"
  have kk: "int k \<le> int (length Q)" using k by simp
  have inc: "incseq_by (m_iSndLastDataAck (core s)) (int k) = wrapseq ?n" "decseq (wrapseq ?n) = wrapseq (?n - 1)"
    using d(3-5) kk by (simp_all add: seq_simps seqno_const_defs)
  have cmp: "seqcmp (wrapseq cur) (wrapseq (?n - 1)) < 0 \<longleftrightarrow> cur < ?n - 1" using d(1-4) kk by (simp add: seq_simps)
  have "\<forall>m \<in> S. \<bar>m - (?n - 1)\<bar> < m_iSeqNoTH"
  proof
    fix m assume "m \<in> S"
    then have "da \<le> m" "m \<le> cur" using d(9) by auto
    then show "\<bar>m - (?n - 1)\<bar> < m_iSeqNoTH" using d(2-4) kk k(1) by linarith
  qed
  from sl_removeUpTo_correct [OF d(8) this] obtain l where l: "sl_removeUpTo (m_pSndLossList (core s)) (wrapseq (?n - 1)) = Some l"
    "sl_abs l (S - {..?n - 1})" "sl_iSize l = sl_iSize (m_pSndLossList (core s))" by blast
  have "S - {..?n - 1} = S - {..<?n}" by auto
  note l' = l(2) [unfolded this]
  have mx: "(if seqcmp (m_iSndCurrSeqNo (core s)) (wrapseq (?n - 1)) < 0 then wrapseq (?n - 1) else m_iSndCurrSeqNo (core s)) = wrapseq (max cur (?n - 1))"
    using cmp d(6) by (cases "cur < ?n - 1") (simp_all add: max_absorb1 max_absorb2)
  let ?c = "(core s)\<lparr>m_pSndBuffer := b, m_pSndLossList := l, m_iFlowWindowSize := m_iFlowWindowSize (core s) + int k,
     m_iSndLastAck := wrapseq ?n, m_iSndLastDataAck := wrapseq ?n, m_iSndCurrSeqNo := wrapseq (max cur (?n - 1))\<rparr>"
  let ?s = "s\<lparr>core := ?c, stat_sndr_dropped := count_stat (int k) dbytes (stat_sndr_dropped s)\<rparr>"
  have "give_up (int k) dbytes b s = Some ?s" unfolding give_up_def Let_def inc mx using l(1) by simp
  moreover have "path_inv ?s (drop k Q) ?n fa (max cur (?n - 1)) (S - {..<?n})"
    by (rule path_inv_given_up [OF i k(2) b l' l(3)]) (simp_all add: path_mode_def)
  ultimately show ?thesis by simp
qed

lemma sndDropTooLate_done:
  assumes i: "path_inv s Q da fa cur S" and f: "drop_fits (negotiated s)" and k: "k = late_count (negotiated s) (clk (ticks s)) Q"
  shows "\<exists>s'. sndDropTooLate clk s = Some (Inr (int k, s')) \<and> path_inv s' (drop k Q) (da + int k) fa (max cur (da + int k - 1)) (S - {..<da + int k})
    \<and> m_iFlowWindowSize (core s') = m_iFlowWindowSize (core s) + int k"
proof -
  note d = path_inv_bounds [OF i]
  let ?a = "negotiated s" and ?t = "clk (ticks s)" and ?m = "nat (cur + 1 - da)"
  obtain r where b: "sb_inv (m_pSndBuffer (core s)) r ?m" "sq_pkts (sb_abs (m_pSndBuffer (core s)) r ?m) = Q"
    using i by (auto simp: path_inv_def sender_inv_def)
  note gd = getBufferingDelay_done [OF b, of ?t]
  have "S - {..<da} = S" "max cur (da - 1) = cur" using d(1,9) by auto
  then have same: "?thesis" if "k = 0" "sndDropTooLate clk s = Some (Inr (0, s'))" "path_inv s' Q da fa cur S" "m_iFlowWindowSize (core s') = m_iFlowWindowSize (core s)" for s'
    using that by simp
  have i1: "path_inv (tick s) Q da fa cur S" using i path_inv_view [of "tick s" s] by (simp add: tick_def path_mode_def)
  show ?thesis
  proof (cases "late_threshold ?a = 0 \<or> Q = [] \<or> sint (word_of_int ((?t - sp_origin (hd Q)) sdiv 1000) :: 32 word) \<le> late_threshold ?a")
    case True
    then have k0: "k = 0" using k by (simp add: late_count_def)
    show ?thesis
    proof (cases "m_bPeerTLPktDrop ?a")
      case False
      then have "sndDropTooLate clk s = Some (Inr (0, s))" by (simp add: sndDropTooLate_def Let_def)
      then show ?thesis by (rule same [OF k0 _ i refl])
    next
      case on: True
      have "0 \<le> late_threshold ?a" by (simp add: late_threshold_def)
      then have "late_threshold ?a = 0 \<or> sint (word_of_int ((if Q = [] then 0 else ?t - sp_origin (hd Q)) sdiv 1000) :: 32 word) \<le> late_threshold ?a"
        using True by (auto simp: signed_divide_int_def)
      then have "sndDropTooLate clk s = Some (Inr (0, tick s))"
        using on f gd drop_threshold_fits [OF f on] by (auto simp: sndDropTooLate_def Let_def drop_fits_def tick_def)
      then show ?thesis by (rule same [OF k0 _ i1]) (simp add: tick_def)
    qed
  next
    case False
    then have on: "m_bPeerTLPktDrop ?a" "bMessageAPI (m_config ?a)" using f by (auto simp: late_threshold_def drop_fits_def split: if_splits)
    have kt: "k = length (takeWhile (\<lambda>p. sp_origin p < ?t - late_threshold ?a * 1000) Q)" using False k by (simp add: late_count_def)
    have Q: "Q = map pkt_of (occupied (m_pSndBuffer (core s)) r)" using b(2) by (simp add: sb_abs_def)
    from dropLateData_drops [OF b(1), of k "?t - late_threshold ?a * 1000"] kt Q obtain b' r' dbytes no where
      b': "dropLateData (m_pSndBuffer (core s)) (?t - late_threshold ?a * 1000) = Some (int k, dbytes, no, b')"
        "sb_inv b' r' (?m - k)" "occupied b' r' = drop k (occupied (m_pSndBuffer (core s)) r)" by metis
    have q: "sq_pkts (sb_abs b' r' (?m - k)) = drop k Q" using b'(3) Q by (simp add: sb_abs_def drop_map)
    let ?s0 = "(tick s)\<lparr>core := (core s)\<lparr>m_pSndBuffer := b'\<rparr>\<rparr>"
    have st: "sndDropTooLate clk s = (if k = 0 then Some (Inr (0, ?s0)) else do { s' \<leftarrow> give_up (int k) dbytes b' (tick s); Some (Inr (int k, s')) })"
      using on gd drop_threshold_fits [OF f on(1)] False b'(1) by (simp add: sndDropTooLate_def Let_def tick_def)
    show ?thesis
    proof (cases "k = 0")
      case True
      have "path_inv ?s0 Q da fa cur S"
        by (rule path_inv_sent [OF i]) (use d(2,6) b'(2) q True in \<open>auto simp: core_view_def tick_def path_mode_def\<close>)
      then show ?thesis using st True by (intro same [OF True, of ?s0]) (simp_all add: tick_def)
    next
      case False
      then have "0 < k" "k \<le> length Q" using late_count_le k by simp_all
      from give_up_done [OF i1 this b'(2) q, of dbytes] st False show ?thesis by (auto simp: tick_def)
    qed
  qed
qed

section \<open>Submitting and hearing\<close>

definition payloads :: "int \<Rightarrow> byte list \<Rightarrow> byte option list list" where
  "payloads plen dat = map (\<lambda>i. map Some (take (nat plen) (drop (i * nat plen) dat))) [0..<nat (countNumPacketsRequired (int (length dat)) plen)]"

lemma split_message_payloads: "map sp_data (split_message plen base ttl otime seq dat) = payloads plen dat"
  by (simp add: split_message_def payloads_def Let_def)

lemma payloads_nonempty:
  assumes "0 < plen" "xs \<in> set (payloads plen dat)"
  shows "xs \<noteq> []"
proof -
  define n where "n = countNumPacketsRequired (int (length dat)) plen"
  obtain i where i: "xs = map Some (take (nat plen) (drop (i * nat plen) dat))" "i < nat n" using assms(2) by (auto simp: payloads_def n_def)
  have "(n - 1) * plen < int (length dat)" using countNumPacketsRequired_bounds(3) [OF assms(1) n_def] i(2) by auto
  moreover have "int i * plen \<le> (n - 1) * plen" using i(2) assms(1) by (intro mult_right_mono) auto
  ultimately have "int i * plen < int (length dat)" by linarith
  then have "int (i * nat plen) < int (length dat)" using assms(1) by simp
  then have "i * nat plen < length dat" by linarith
  then show ?thesis using assms(1) i(1) by simp
qed

lemma path_inv_submitted:
  assumes i: "path_inv s Q da fa cur S" and seq: "pktseq mc = wrapseq (da + int (length Q))" and ttl: "msgttl mc < 0"
    and pl: "ps = payloads (getMaxPacketLen (m_pSndBuffer (core s))) dat"
    and room: "int (length Q + length ps) + 1 \<le> sl_iSize (m_pSndLossList (core s))" "da + int (length Q + length ps) - fa < m_iSeqNoTH"
  shows "\<exists>b mc' P. addBuffer raw tnow (m_pSndBuffer (core s)) dat mc = Some (b, mc') \<and> map sp_data P = ps
    \<and> path_inv (s\<lparr>core := (core s)\<lparr>m_pSndBuffer := b\<rparr>\<rparr>) (Q @ P) da fa cur S \<and> pktseq mc' = wrapseq (da + int (length Q + length ps))"
proof -
  let ?b = "m_pSndBuffer (core s)" and ?m = "nat (cur + 1 - da)"
  obtain r where b: "sb_inv ?b r ?m" "sq_pkts (sb_abs ?b r ?m) = Q" using i by (auto simp: path_inv_def sender_inv_def)
  have "valid_seq (pktseq mc)" using seq wrapseq_bounds [of "da + int (length Q)"] by (simp add: valid_seq_def)
  note v = this
  define otime where "otime = (if srctime mc \<noteq> 0 then srctime mc else tnow)"
  define no where "no = (if msgno mc = SRT_MSGNO_NONE then m_iNextMsgNo ?b else msgno mc)"
  define P where "P = split_message (getMaxPacketLen ?b) (no OR (if inorder mc then BitsetMask 29 29 else 0)) (msgttl mc) otime (pktseq mc) dat"
  let ?mc = "mc\<lparr>srctime := otime, pktseq := wrapseq (pktseq mc + int (length P)), msgno := no\<rparr>"
  from addBuffer_splits [OF b(1) v otime_def no_def P_def, of raw] obtain b' r' where
    b': "addBuffer raw tnow ?b dat mc = Some (b', ?mc)" "sb_inv b' r' ?m" "sq_pkts (sb_abs b' r' ?m) = Q @ P" using b(2) by (auto simp: sb_abs_def)
  have data: "map sp_data P = ps" using P_def pl split_message_payloads by simp
  then have len: "length P = length ps" by (metis length_map)
  note p0 = sb_invD(10) [OF b(1)]
  have "sp_data p \<noteq> [] \<and> sp_ttl p < 0" if "p \<in> set P" for p
  proof -
    obtain j where j: "j < length P" "p = P ! j" using \<open>p \<in> set P\<close> by (auto simp: in_set_conv_nth)
    have "sp_data p \<in> set ps" unfolding data [symmetric] using that by simp
    then show ?thesis using payloads_nonempty [OF p0] pl j split_message_nth(4) [OF p0 P_def] ttl by simp
  qed
  then have ok: "resendable (Q @ P)" using i by (auto simp: path_inv_def resendable_def)
  have sq: "sp_seq ((Q @ P) ! j) = wrapseq (da + int j)" if "j < length (Q @ P)" for j
  proof (cases "j < length Q")
    case True
    then show ?thesis using i by (simp add: path_inv_def nth_append)
  next
    case False
    then have "j - length Q < length P" using that by simp
    then have "sp_seq (P ! (j - length Q)) = wrapseq (pktseq mc + int (j - length Q))" by (rule split_message_nth(1) [OF p0 P_def])
    then show ?thesis using False seq by (simp add: nth_append wrapseq_def mod_add_left_eq)
  qed
  have "pktseq ?mc = wrapseq (da + int (length Q + length ps))" using seq len by (simp add: wrapseq_def mod_add_left_eq add.assoc)
  moreover have "path_inv (s\<lparr>core := (core s)\<lparr>m_pSndBuffer := b'\<rparr>\<rparr>) (Q @ P) da fa cur S"
    proof -
    have "sender_inv (core s) Q da da fa cur S" using i by (simp add: path_inv_def)
    then have "sender_inv ((core s)\<lparr>m_pSndBuffer := b'\<rparr>) (Q @ P) da da fa cur S" using b'(2,3) by (auto simp: sender_inv_def loss_inv_def)
    then show ?thesis using i ok sq room len by (simp add: path_inv_def srtt_ok_def)
  qed
  ultimately show ?thesis using b'(1) data by blast
qed

end
