(* ===== verification/SenderRun.thy ===== *)
theory SenderRun
  imports SenderSteps
begin

text \<open>
  The sender as a whole: messages are submitted, the sending thread asks for packets, the peer acknowledges packets and
  reports losses, and packets that are too late are given up, in any order. \<open>reaches\<close> are the states
  these lead to, with a history of what was submitted and what was handed to the channel.
\<close>

section \<open>Feedback\<close>

lemma path_inv_acked:
  assumes i: "path_inv s Q da fa cur S" and h: "honest cur (Ack now t p n)"
  shows "\<exists>c. processCtrlAck now t (core s) p = Some c
    \<and> path_inv (s\<lparr>core := c\<rparr>) (drop (nat (n - da)) Q) (max da n) (if cp_length p = 4 then fa else max fa n) cur (if da < n then S - {..<n} else S)"
proof -
  note d = path_inv_bounds [OF i]
  have z: "sender_inv (core s) Q da da fa cur S" "srtt_ok (core s)" "resendable Q" "\<not> m_bModeGCM s" "\<not> m_bBroken (core s)"
    "int (length Q) + 1 \<le> sl_iSize (m_pSndLossList (core s))" "\<forall>i < length Q. sp_seq (Q ! i) = wrapseq (da + int i)" "S \<subseteq> {da..}"
    using i by (simp_all add: path_inv_def)
  have hh: "cur + 1 - n < m_iSeqNoTH" "n \<le> cur + 1" "readable_ack p" "cp_data p ! 0 = word_of_int (wrapseq n)" using h by auto
  let ?k = "nat (n - da)"
  from processCtrlAck_done [OF z(1) hh z(2), of now t] obtain c where
    c: "processCtrlAck now t (core s) p = Some c" "m_bBroken c = m_bBroken (core s)" "srtt_ok c" "sl_iSize (m_pSndLossList c) = sl_iSize (m_pSndLossList (core s))"
      "sender_inv c (drop ?k Q) (max da n) (max da n) (if cp_length p = 4 then fa else max fa n) cur (if da < n then S - {..<n} else S)" by blast
  have k: "?k \<le> length Q" "max da n = da + int ?k" using d(1,2) hh(2) by auto
  have "\<forall>i < length (drop ?k Q). sp_seq (drop ?k Q ! i) = wrapseq (max da n + int i)" using z(7) k by (simp add: add.assoc)
  moreover have "resendable (drop ?k Q)" using z(3) by (auto simp: resendable_def dest: in_set_dropD)
  moreover have "(if da < n then S - {..<n} else S) \<subseteq> {max da n..}" using z(8) by auto
  moreover have "max da n + int (length (drop ?k Q)) - (if cp_length p = 4 then fa else max fa n) < m_iSeqNoTH" using d(4) k by auto
  ultimately have "path_inv (s\<lparr>core := c\<rparr>) (drop ?k Q) (max da n) (if cp_length p = 4 then fa else max fa n) cur (if da < n then S - {..<n} else S)"
    using c z(4-6) by (simp add: path_inv_def)
  then show ?thesis using c(1) by blast
qed

lemma path_inv_reported:
  assumes i: "path_inv s Q da fa cur S" and h: "honest cur (Nak p rs)"
  shows "\<exists>c. processCtrlLossReport (core s) p = Some c \<and> path_inv (s\<lparr>core := c\<rparr>) Q da fa cur (S \<union> rset rs \<inter> {da..})"
proof -
  have "sender_inv (core s) Q da da fa cur S" "srtt_ok (core s)" using i by (simp_all add: path_inv_def)
  from nak_heard [OF this h] obtain c where "processCtrlLossReport (core s) p = Some c" "sender_inv c Q da da fa cur (S \<union> rset rs \<inter> {da..})" "srtt_ok c"
    "m_bBroken c = m_bBroken (core s)" "sl_iSize (m_pSndLossList c) = sl_iSize (m_pSndLossList (core s))" by blast
  then show ?thesis using i by (auto simp: path_inv_def)
qed

section \<open>Reachable states\<close>

text \<open>
  The history: the number up to which packets were acknowledged by full ACKs, the number up to which they were acknowledged or given up,
  the last number sent, the payloads of all packets submitted, and the numbers and bytes of all packets handed to the channel.
\<close>

record history =
  h_full :: int
  h_acked :: int
  h_sent :: int
  h_log :: "byte option list list"
  h_wire :: "(32 word \<times> byte option list) list"

inductive reaches :: "(nat \<Rightarrow> int) \<Rightarrow> int \<Rightarrow> snd_path \<Rightarrow> history \<Rightarrow> bool" for clk base where
  opened: "path_inv s [] base base (base - 1) {} \<Longrightarrow>
    reaches clk base s \<lparr>h_full = base, h_acked = base, h_sent = base - 1, h_log = [], h_wire = []\<rparr>"
| submits: "reaches clk base s h \<Longrightarrow> addBuffer raw tnow (m_pSndBuffer (core s)) dat mc = Some (b, mc') \<Longrightarrow>
    pktseq mc = wrapseq (base + int (length (h_log h))) \<Longrightarrow> msgttl mc < 0 \<Longrightarrow>
    ps = payloads (getMaxPacketLen (m_pSndBuffer (core s))) dat \<Longrightarrow>
    base + int (length (h_log h @ ps)) - h_acked h + 1 \<le> sl_iSize (m_pSndLossList (core s)) \<Longrightarrow>
    base + int (length (h_log h @ ps)) - h_full h < m_iSeqNoTH \<Longrightarrow>
    reaches clk base (s\<lparr>core := (core s)\<lparr>m_pSndBuffer := b\<rparr>\<rparr>) (h\<lparr>h_log := h_log h @ ps\<rparr>)"
| sends: "reaches clk base s h \<Longrightarrow> rtt_fits s \<Longrightarrow> packData clk w s = Some (ok, w', t, s') \<Longrightarrow>
    reaches clk base s' (h\<lparr>h_sent := (if m_iSndCurrSeqNo (core s') = m_iSndCurrSeqNo (core s) then h_sent h else h_sent h + 1),
      h_wire := h_wire h @ (if ok then [(SRT_PH_SEQNO (m_nHeader w'), packet_bytes (m_pSndBuffer (core s')) w')] else [])\<rparr>)"
| hears_ack: "reaches clk base s h \<Longrightarrow> honest (h_sent h) (Ack now t p n) \<Longrightarrow> processCtrlAck now t (core s) p = Some c \<Longrightarrow>
    reaches clk base (s\<lparr>core := c\<rparr>) (h\<lparr>h_acked := max (h_acked h) n, h_full := (if cp_length p = 4 then h_full h else max (h_full h) n)\<rparr>)"
| hears_report: "reaches clk base s h \<Longrightarrow> honest (h_sent h) (Nak p rs) \<Longrightarrow> processCtrlLossReport (core s) p = Some c \<Longrightarrow>
    reaches clk base (s\<lparr>core := c\<rparr>) h"
| gives_up: "reaches clk base s h \<Longrightarrow> drop_fits (negotiated s) \<Longrightarrow> sndDropTooLate clk s = Some (Inr (k, s')) \<Longrightarrow>
    reaches clk base s' (h\<lparr>h_acked := h_acked h + k, h_sent := max (h_sent h) (h_acked h + k - 1)\<rparr>)"

definition on_wire :: "int \<Rightarrow> byte option list list \<Rightarrow> 32 word \<times> byte option list \<Rightarrow> bool" where
  "on_wire base L x \<longleftrightarrow> (\<exists>i < length L. fst x = word_of_int (wrapseq (base + int i)) \<and> snd x = L ! i)"

lemma on_wire_append: "on_wire base L x \<Longrightarrow> on_wire base (L @ ps) x"
  by (fastforce simp: on_wire_def nth_append)

definition run_inv :: "int \<Rightarrow> snd_path \<Rightarrow> history \<Rightarrow> bool" where
  "run_inv base s h \<longleftrightarrow> (\<exists>Q S. path_inv s Q (h_acked h) (h_full h) (h_sent h) S \<and> base \<le> h_acked h \<and> h_acked h - base \<le> int (length (h_log h))
     \<and> map sp_data Q = drop (nat (h_acked h - base)) (h_log h)) \<and> (\<forall>x \<in> set (h_wire h). on_wire base (h_log h) x)"

lemma run_invE:
  assumes "run_inv base s h"
  obtains Q S where "path_inv s Q (h_acked h) (h_full h) (h_sent h) S" "base \<le> h_acked h" "h_acked h - base \<le> int (length (h_log h))"
    "map sp_data Q = drop (nat (h_acked h - base)) (h_log h)" "\<forall>x \<in> set (h_wire h). on_wire base (h_log h) x"
    "h_acked h + int (length Q) = base + int (length (h_log h))"
proof -
  obtain Q S where q: "path_inv s Q (h_acked h) (h_full h) (h_sent h) S" "base \<le> h_acked h" "h_acked h - base \<le> int (length (h_log h))"
    "map sp_data Q = drop (nat (h_acked h - base)) (h_log h)" "\<forall>x \<in> set (h_wire h). on_wire base (h_log h) x" using assms by (auto simp: run_inv_def)
  have "length Q = length (h_log h) - nat (h_acked h - base)" using arg_cong [OF q(4), of length] by simp
  then have "h_acked h + int (length Q) = base + int (length (h_log h))" using q(2,3) by auto
  with q that show thesis by blast
qed

lemma carried_on_wire:
  assumes Q: "map sp_data Q = drop (nat (da - base)) L" "base \<le> da" "da - base \<le> int (length L)" and n: "da \<le> n" "n < da + int (length Q)"
    and c: "carries b w n (Q ! nat (n - da)) flag"
  shows "on_wire base L (SRT_PH_SEQNO (m_nHeader w), packet_bytes b w)"
proof -
  have i: "nat (n - da) < length Q" "nat (da - base) + nat (n - da) = nat (n - base)" using n Q(2) by auto
  have len: "length Q = length L - nat (da - base)" using arg_cong [OF Q(1), of length] by simp
  have "sp_data (Q ! nat (n - da)) = drop (nat (da - base)) L ! nat (n - da)" using Q(1) i(1) by (metis nth_map)
  also have "\<dots> = L ! nat (n - base)" using Q(2,3) i(2) by (subst nth_drop) auto
  finally have "sp_data (Q ! nat (n - da)) = L ! nat (n - base)" .
  moreover have "nat (n - base) < length L" "base + int (nat (n - base)) = n" using i len n Q(2) by auto
  ultimately show ?thesis using c unfolding on_wire_def carries_def by (intro exI [of _ "nat (n - base)"]) simp
qed

lemma run_inv_sends:
  assumes "run_inv base s h" "rtt_fits s" "packData clk w s = Some (ok, w', t, s')"
  shows "run_inv base s' (h\<lparr>h_sent := (if m_iSndCurrSeqNo (core s') = m_iSndCurrSeqNo (core s) then h_sent h else h_sent h + 1),
      h_wire := h_wire h @ (if ok then [(SRT_PH_SEQNO (m_nHeader w'), packet_bytes (m_pSndBuffer (core s')) w')] else [])\<rparr>)"
proof -
  from assms(1) obtain Q S where q: "path_inv s Q (h_acked h) (h_full h) (h_sent h) S" "base \<le> h_acked h" "h_acked h - base \<le> int (length (h_log h))"
    "map sp_data Q = drop (nat (h_acked h - base)) (h_log h)" "\<forall>x \<in> set (h_wire h). on_wire base (h_log h) x" by (rule run_invE)
  from packData_done [OF q(1) assms(2), of clk w] obtain ok0 w0 t0 s0 Q' S' cur' where
    p0: "packData clk w s = Some (ok0, w0, t0, s0)" "path_inv s0 Q' (h_acked h) (h_full h) cur' S'" "map content Q' = map content Q" "cur' \<in> {h_sent h, h_sent h + 1}"
      "ok0 \<longrightarrow> (\<exists>n \<in> {h_acked h..cur'}. \<exists>flag. carries (m_pSndBuffer (core s0)) w0 n (Q ! nat (n - h_acked h)) flag)" by blast
  have e: "ok0 = ok" "w0 = w'" "s0 = s'" using p0(1) assms(3) by simp_all
  note p = p0(2-5) [unfolded e]
  note d = path_inv_bounds [OF q(1)] and d' = path_inv_bounds [OF p(1)]
  have "seqcmp (wrapseq (h_sent h + 1)) (wrapseq (h_sent h)) > 0" by (simp add: seq_simps seqno_const_defs)
  then have "wrapseq (h_sent h + 1) \<noteq> wrapseq (h_sent h)" by (auto simp: seqcmp_def seqno_const_defs)
  then have cur: "cur' = (if m_iSndCurrSeqNo (core s') = m_iSndCurrSeqNo (core s) then h_sent h else h_sent h + 1)" using p(3) d(6) d'(6) by auto
  have data: "map sp_data Q' = map sp_data Q"
    using arg_cong [OF p(2), of "map fst"] by (simp add: content_def comp_def)
  have "on_wire base (h_log h) (SRT_PH_SEQNO (m_nHeader w'), packet_bytes (m_pSndBuffer (core s')) w')" if ok: ok
  proof -
    obtain n flag where n: "n \<in> {h_acked h..cur'}" "carries (m_pSndBuffer (core s')) w' n (Q ! nat (n - h_acked h)) flag" using p(4) ok by blast
    then have "h_acked h \<le> n" "n < h_acked h + int (length Q)" using d'(2) content_length [OF p(2)] by auto
    from carried_on_wire [OF q(4,2,3) this n(2)] show ?thesis .
  qed
  then show ?thesis unfolding cur [symmetric] run_inv_def using p(1) q(2-5) data by (intro conjI exI [of _ Q'] exI [of _ S']) auto
qed

lemma run_inv_acked:
  assumes "run_inv base s h" "honest (h_sent h) (Ack now t p n)" "processCtrlAck now t (core s) p = Some c"
  shows "run_inv base (s\<lparr>core := c\<rparr>) (h\<lparr>h_acked := max (h_acked h) n, h_full := (if cp_length p = 4 then h_full h else max (h_full h) n)\<rparr>)"
proof -
  from assms(1) obtain Q S where q: "path_inv s Q (h_acked h) (h_full h) (h_sent h) S" "base \<le> h_acked h" "h_acked h - base \<le> int (length (h_log h))"
    "map sp_data Q = drop (nat (h_acked h - base)) (h_log h)" "\<forall>x \<in> set (h_wire h). on_wire base (h_log h) x"
    "h_acked h + int (length Q) = base + int (length (h_log h))" by (rule run_invE)
  from path_inv_acked [OF q(1) assms(2)] assms(3) have
    "path_inv (s\<lparr>core := c\<rparr>) (drop (nat (n - h_acked h)) Q) (max (h_acked h) n) (if cp_length p = 4 then h_full h else max (h_full h) n) (h_sent h)
      (if h_acked h < n then S - {..<n} else S)" by auto
  moreover have "n \<le> h_sent h + 1" using assms(2) by simp
  then have "max (h_acked h) n - base \<le> int (length (h_log h))" using path_inv_bounds(2) [OF q(1)] q(3,6) by linarith
  moreover have "nat (n - h_acked h) + nat (h_acked h - base) = nat (max (h_acked h) n - base)" using q(2) by auto
  then have "map sp_data (drop (nat (n - h_acked h)) Q) = drop (nat (max (h_acked h) n - base)) (h_log h)" using q(4) by (simp add: drop_map [symmetric])
  ultimately show ?thesis using q(2,5) unfolding run_inv_def by (intro conjI exI) auto
qed

lemma run_inv_gives_up:
  assumes "run_inv base s h" "drop_fits (negotiated s)" "sndDropTooLate clk s = Some (Inr (k, s'))"
  shows "run_inv base s' (h\<lparr>h_acked := h_acked h + k, h_sent := max (h_sent h) (h_acked h + k - 1)\<rparr>)"
proof -
  from assms(1) obtain Q S where q: "path_inv s Q (h_acked h) (h_full h) (h_sent h) S" "base \<le> h_acked h" "h_acked h - base \<le> int (length (h_log h))"
    "map sp_data Q = drop (nat (h_acked h - base)) (h_log h)" "\<forall>x \<in> set (h_wire h). on_wire base (h_log h) x"
    "h_acked h + int (length Q) = base + int (length (h_log h))" by (rule run_invE)
  define j where "j = late_count (negotiated s) (clk (ticks s)) Q"
  from sndDropTooLate_done [where clk = clk, OF q(1) assms(2) j_def] assms(3) have k: "k = int j" and
    p: "path_inv s' (drop j Q) (h_acked h + int j) (h_full h) (max (h_sent h) (h_acked h + int j - 1)) (S - {..<h_acked h + int j})" by auto
  have "int j \<le> int (length Q)" using late_count_le j_def by simp
  then have "h_acked h + int j - base \<le> int (length (h_log h))" using q(6) by linarith
  moreover have "j + nat (h_acked h - base) = nat (h_acked h + int j - base)" using q(2) by auto
  then have "map sp_data (drop j Q) = drop (nat (h_acked h + int j - base)) (h_log h)" using q(4) by (simp add: drop_map [symmetric])
  ultimately show ?thesis using p q(2,5) unfolding run_inv_def k by (intro conjI exI) auto
qed

lemma run_inv_submits:
  assumes "run_inv base s h" "addBuffer raw tnow (m_pSndBuffer (core s)) dat mc = Some (b, mc')"
    "pktseq mc = wrapseq (base + int (length (h_log h)))" "msgttl mc < 0" "ps = payloads (getMaxPacketLen (m_pSndBuffer (core s))) dat"
    "base + int (length (h_log h @ ps)) - h_acked h + 1 \<le> sl_iSize (m_pSndLossList (core s))" "base + int (length (h_log h @ ps)) - h_full h < m_iSeqNoTH"
  shows "run_inv base (s\<lparr>core := (core s)\<lparr>m_pSndBuffer := b\<rparr>\<rparr>) (h\<lparr>h_log := h_log h @ ps\<rparr>)"
proof -
  from assms(1) obtain Q S where q: "path_inv s Q (h_acked h) (h_full h) (h_sent h) S" "base \<le> h_acked h" "h_acked h - base \<le> int (length (h_log h))"
    "map sp_data Q = drop (nat (h_acked h - base)) (h_log h)" "\<forall>x \<in> set (h_wire h). on_wire base (h_log h) x"
    "h_acked h + int (length Q) = base + int (length (h_log h))" by (rule run_invE)
  have "pktseq mc = wrapseq (h_acked h + int (length Q))" "int (length Q + length ps) + 1 \<le> sl_iSize (m_pSndLossList (core s))"
    "h_acked h + int (length Q + length ps) - h_full h < m_iSeqNoTH" using assms(3,6,7) q(6) by simp_all
  from path_inv_submitted [OF q(1) this(1) assms(4,5) this(2,3), of raw tnow] assms(2) obtain P where
    P: "map sp_data P = ps" "path_inv (s\<lparr>core := (core s)\<lparr>m_pSndBuffer := b\<rparr>\<rparr>) (Q @ P) (h_acked h) (h_full h) (h_sent h) S" by auto
  have "map sp_data (Q @ P) = drop (nat (h_acked h - base)) (h_log h @ ps)" using q(3,4) P(1) by simp
  then show ?thesis using P(2) q(2,3,5) on_wire_append unfolding run_inv_def by (intro conjI exI) auto
qed

lemma reaches_inv: "reaches clk base s h \<Longrightarrow> run_inv base s h"
proof (induction rule: reaches.induct)
  case (opened s)
  then show ?case by (auto simp: run_inv_def)
next
  case (submits s h raw tnow dat mc b mc' ps)
  then show ?case by (intro run_inv_submits) auto
next
  case (sends s h w ok w' t s')
  then show ?case by (intro run_inv_sends) auto
next
  case (hears_ack s h now t p n c)
  then show ?case by (intro run_inv_acked) auto
next
  case (hears_report s h p rs c)
  from hears_report.IH obtain Q S where q: "path_inv s Q (h_acked h) (h_full h) (h_sent h) S" "base \<le> h_acked h" "h_acked h - base \<le> int (length (h_log h))"
    "map sp_data Q = drop (nat (h_acked h - base)) (h_log h)" "\<forall>x \<in> set (h_wire h). on_wire base (h_log h) x" by (rule run_invE)
  with path_inv_reported [OF q(1) hears_report.hyps(2)] hears_report.hyps(3) show ?case by (auto simp: run_inv_def)
next
  case (gives_up s h k s')
  then show ?case by (intro run_inv_gives_up) auto
qed

section \<open>Properties\<close>




text \<open>
  C39. \<open>sndDropTooLate\<close> gives up exactly the leading packets of the sender buffer that are older than the threshold, if the oldest one is, and nothing
  else: they leave the loss list, count as acknowledged and, where they were not sent yet, as sent, and the flow window grows by their number.
\<close>

theorem late_packets_given_up:
  assumes "path_inv s Q da fa cur S" "drop_fits (negotiated s)" "k = late_count (negotiated s) (clk (ticks s)) Q"
  shows "\<exists>s'. sndDropTooLate clk s = Some (Inr (int k, s')) \<and> path_inv s' (drop k Q) (da + int k) fa (max cur (da + int k - 1)) (S - {..<da + int k})
    \<and> m_iFlowWindowSize (core s') = m_iFlowWindowSize (core s) + int k"
  using sndDropTooLate_done [where clk = clk, OF assms] .

section \<open>A sender with one packet\<close>

definition sample_open :: snd_path where
  "sample_open = sample_path 0 (sample_core (CSndBuffer raw0 2 3 0) (CSndLossList sl_demo_mem) 7 6)"

lemma sample_open_inv: "path_inv sample_open [] 7 7 6 {}"
proof -
  let ?c = "sample_core (CSndBuffer raw0 2 3 0) (CSndLossList sl_demo_mem) 7 6"
  have w: "wrapseq 7 = 7" by (simp add: wrapseq_def seqno_const_defs)
  have "loss_inv ?c 7 6 {}" by (rule sample_loss_inv) (simp_all add: valid_seq_def seqno_const_defs)
  moreover have "sb_inv (CSndBuffer raw0 2 3 0) [0..<2] 0" "occupied (CSndBuffer raw0 2 3 0) [0..<2] = []" using sample_inv [of raw0] by simp_all
  then have "\<exists>r. sb_inv (m_pSndBuffer ?c) r 0 \<and> sq_pkts (sb_abs (m_pSndBuffer ?c) r 0) = []" by (auto simp: sample_core_def sb_abs_def)
  ultimately have "sender_inv ?c [] 7 7 7 6 {}" using w by (auto simp: sender_inv_def sample_core_def seqno_const_defs)
  then show ?thesis by (simp add: path_inv_def sample_open_def sample_path_def resendable_def srtt_ok_def in_int32_def sample_core_def
        CSndLossList_def sl_demo_mem_def seqno_const_defs)
qed

lemma sample_one:
  obtains b r where "reaches clk 7 (sample_open\<lparr>core := (core sample_open)\<lparr>m_pSndBuffer := b\<rparr>\<rparr>)
      \<lparr>h_full = 7, h_acked = 7, h_sent = 6, h_log = [[Some 1, Some 2]], h_wire = []\<rparr>"
    "path_inv (sample_open\<lparr>core := (core sample_open)\<lparr>m_pSndBuffer := b\<rparr>\<rparr>)
      [\<lparr>sp_data = [Some 1, Some 2], sp_bits = 0xE0000001, sp_seq = 7, sp_origin = 5, sp_rexmit = 0, sp_ttl = -1\<rparr>] 7 7 6 {}"
proof -
  let ?Q = "[\<lparr>sp_data = [Some 1, Some 2], sp_bits = 0xE0000001, sp_seq = 7, sp_origin = 5, sp_rexmit = 0, sp_ttl = -1\<rparr>] :: snd_pkt list"
  obtain b r where b: "addBuffer raw0 5 (CSndBuffer raw0 2 3 0) [1, 2] ((sample_ctrl 7)\<lparr>msgttl := -1\<rparr>)
      = Some (b, (sample_ctrl 7)\<lparr>msgttl := -1, srctime := 5, pktseq := 8, msgno := 1\<rparr>)" "sb_inv b r 0" "sq_pkts (sb_abs b r 0) = ?Q" by (rule sample_filled)
  have w: "wrapseq 7 = 7" by (simp add: wrapseq_def seqno_const_defs)
  have p: "payloads 3 [1, 2] = [[Some 1, Some 2]]" by (simp add: payloads_def countNumPacketsRequired_def)
  have "reaches clk 7 sample_open \<lparr>h_full = 7, h_acked = 7, h_sent = 6, h_log = [], h_wire = []\<rparr>"
    using reaches.opened [of sample_open 7 clk] sample_open_inv by simp
  from reaches.submits [OF this, of raw0 5 "[1, 2]" "(sample_ctrl 7)\<lparr>msgttl := -1\<rparr>"] b(1) w p
  have "reaches clk 7 (sample_open\<lparr>core := (core sample_open)\<lparr>m_pSndBuffer := b\<rparr>\<rparr>) \<lparr>h_full = 7, h_acked = 7, h_sent = 6, h_log = [[Some 1, Some 2]], h_wire = []\<rparr>"
    by (simp add: sample_open_def sample_path_def sample_core_def sample_ctrl_def CSndLossList_def sl_demo_mem_def seqno_const_defs)
  moreover have "path_inv (sample_open\<lparr>core := (core sample_open)\<lparr>m_pSndBuffer := b\<rparr>\<rparr>) ?Q 7 7 6 {}"
  proof -
    have "sender_inv (core sample_open) [] 7 7 7 6 {}" using sample_open_inv by (simp add: path_inv_def)
    then have "sender_inv ((core sample_open)\<lparr>m_pSndBuffer := b\<rparr>) ?Q 7 7 7 6 {}" using b(2,3) by (auto simp: sender_inv_def loss_inv_def)
    then show ?thesis using sample_open_inv w
      by (simp add: path_inv_def resendable_def srtt_ok_def sample_open_def sample_path_def sample_core_def CSndLossList_def sl_demo_mem_def seqno_const_defs)
  qed
  ultimately show thesis by (rule that)
qed

lemma sample_open_fits: "rtt_fits (sample_open\<lparr>core := c\<rparr>)" "m_bOpened (sample_open\<lparr>core := c\<rparr>)"
    "m_iFlowWindowSize (core sample_open) = 100" "m_iCongestionWindow (core sample_open) = 100"
  by (simp_all add: rtt_fits_def sample_open_def sample_path_def sample_core_def default_agent_def)




theorem late_packets_given_up_witness:
  "\<exists>s Q s'. path_inv s Q 7 7 6 {} \<and> length Q = 1 \<and> sndDropTooLate (\<lambda>i. 2000000 + int i) s = Some (Inr (1, s')) \<and> path_inv s' [] 8 7 7 {}"
proof -
  let ?Q = "[\<lparr>sp_data = [Some 1, Some 2], sp_bits = 0xE0000001, sp_seq = 7, sp_origin = 5, sp_rexmit = 0, sp_ttl = -1\<rparr>] :: snd_pkt list"
  obtain b where i: "path_inv (sample_open\<lparr>core := (core sample_open)\<lparr>m_pSndBuffer := b\<rparr>\<rparr>) ?Q 7 7 6 {}" by (rule sample_one)
  let ?s = "sample_open\<lparr>core := (core sample_open)\<lparr>m_pSndBuffer := b\<rparr>, negotiated := (negotiated sample_open)\<lparr>m_bPeerTLPktDrop := True\<rparr>\<rparr>"
  have p: "path_inv ?s ?Q 7 7 6 {}" using i path_inv_view [of ?s "sample_open\<lparr>core := (core sample_open)\<lparr>m_pSndBuffer := b\<rparr>\<rparr>"] by (simp add: path_mode_def)
  have f: "drop_fits (negotiated ?s)" by (simp add: drop_fits_def sample_open_def sample_path_def default_agent_def CSrtConfig_def in_int32_def)
  have k: "1 = late_count (negotiated ?s) (2000000 + int (ticks ?s)) ?Q"
    by (simp add: late_count_def late_threshold_def sample_open_def sample_path_def default_agent_def CSrtConfig_def signed_divide_int_def)
  from late_packets_given_up [where clk = "\<lambda>i. 2000000 + int i", OF p f k] p show ?thesis by fastforce
qed

end
