(* ===== verification/Spec2Isabelle.thy ===== *)
theory Spec2Isabelle
  imports FreshLoss RcvLossSpec SndLossSpec AckWindow RcvBufferSpec SocketConfigSpec SndBufferSpec SndUListSpec
    HsMessageConvey RendezvousConnect FeedbackLoop SenderRun
begin

text \<open>
  This development verifies the protocol core of the SRT library under \<^verbatim>\<open>srt-1.5.6/srtcore\<close>: the
  arithmetic of circular numbers, the packet format, the containers that carry data from the application
  to the network and back, the loss bookkeeping, the clock mapping, the schedule of the sending thread,
  the configuration of sockets and packet filters, the handshake that opens a connection, the sending path, and the
  feedback of acknowledgements and loss reports that ties the two ends of a connection together.

  \<^bold>\<open>How the parts work together.\<close> Two parties open a connection by handshake packets: a fixed record
  (\<^verbatim>\<open>CHandShake\<close>) with extension blocks behind it, which carry the request or response of the negotiation, the keys and the
  names. In a rendezvous both parties do the same and decide by a contest of cookies who asks and who answers. Then
  an application hands a message to \<^verbatim>\<open>CSndBuffer\<close>, which cuts it
  into packets. The sending thread takes the socket due next from \<^verbatim>\<open>CSndUList\<close> and reads a packet,
  either a lost one, whose number comes from \<^verbatim>\<open>CSndLossList\<close>, or the next new one. On the other side the
  packet goes into a unit and into \<^verbatim>\<open>CRcvBuffer\<close>; gaps are recorded in \<^verbatim>\<open>CRcvLossList\<close> and
  \<^verbatim>\<open>CRcvFreshLoss\<close>; the application reads messages or bytes when \<^verbatim>\<open>CTsbpdTime\<close> says they are due.
  The receiver reports its losses and acknowledges up to the first of them; the sender puts the losses into its loss list,
  releases what is acknowledged and answers, by which the receiver learns the round trip time through
  \<^verbatim>\<open>ACKWindowTools\<close>. Options come in through \<^verbatim>\<open>CSrtConfigSetter\<close> and the packet filter configuration.

  \<^bold>\<open>Theories.\<close>
  \<^item> \<open>Prelude\<close>: checked array access, 32-bit ranges, modular positions.
  \<^item> \<open>Bitfield\<close>, \<open>SeqNo\<close>: \<^verbatim>\<open>Bits\<close> of \<^verbatim>\<open>utilities.h\<close>; \<^verbatim>\<open>CSeqNo\<close>, \<^verbatim>\<open>CAckNo\<close>, \<^verbatim>\<open>RollNumber\<close>
    of \<^verbatim>\<open>common.h\<close>. Circular comparison is exact inside the window, and nothing overflows.
  \<^item> \<open>Packet\<close>: \<^verbatim>\<open>CPacket\<close> with its header fields, byte order and ownership of payload buffers in an
    explicit heap.
  \<^item> \<open>FreshLoss\<close>, \<open>Ranges\<close>, \<open>LossPos\<close>, \<open>RcvLossList\<close>, \<open>RcvLossRefine\<close>, \<open>RcvLossSpec\<close>,
    \<open>SndLossList\<close>, \<open>SndLossRefine\<close>, \<open>SndLossSpec\<close>: the loss lists of \<^verbatim>\<open>list.h\<close> and \<^verbatim>\<open>list.cpp\<close>, arrays
    with linked nodes refined first to lists of ranges and then to sets of numbers.
  \<^item> \<open>AckWindow\<close>: \<^verbatim>\<open>ACKWindowTools\<close> of \<^verbatim>\<open>window.cpp\<close>, a ring refined to a bounded queue.
  \<^item> \<open>TsbpdTime\<close>: \<^verbatim>\<open>CTsbpdTime\<close> and \<^verbatim>\<open>DriftTracer\<close>; 32-bit time stamps are unwrapped rightly.
  \<^item> \<open>RcvBuffer\<close> and \<open>RcvBufferInv\<close>, \<open>RcvBufferOps\<close>, \<open>RcvBufferRead\<close>, \<open>RcvBufferStream\<close>,
    \<open>RcvBufferDrop\<close>, \<open>RcvBufferSpec\<close>: \<^verbatim>\<open>CRcvBuffer\<close>; every sequence of operations keeps the invariant,
    and each operation has its exact effect on the ring seen as a list.
  \<^item> \<open>SndBuffer\<close> and \<open>SndBufferInv\<close>, \<open>SndBufferAdd\<close>, \<open>SndBufferOps\<close>, \<open>SndBufferSpec\<close>:
    \<^verbatim>\<open>CSndBuffer\<close>; the linked ring of blocks refined to a queue of packets with a sent mark.
  \<^item> \<open>SndUList\<close>, \<open>SndUListInv\<close>, \<open>SndUListSpec\<close>: \<^verbatim>\<open>CSndUList\<close> of \<^verbatim>\<open>queue.cpp\<close>, a binary heap refined to
    a map from sockets to times; sockets come out in the order of their times as long as the heap is
    ordered, and a removal that breaks the order is shown.
  \<^item> \<open>FilterConfig\<close>, \<open>SocketConfig\<close>, \<open>SocketConfigSpec\<close>: \<^verbatim>\<open>ParseFilterConfig\<close>, \<^verbatim>\<open>CheckFilterCompat\<close> and
    all option setters of \<^verbatim>\<open>socketconfig.cpp\<close>; every accepted option keeps the configuration well formed.
  \<^item> \<open>Handshake\<close>, \<open>HsExtension\<close>: the records of \<^verbatim>\<open>handshake.cpp\<close> with their wire format, and the extension
    blocks of a handshake, written and walked over (\<^verbatim>\<open>FindExtensionBlock\<close>, \<^verbatim>\<open>NextExtensionBlock\<close>).
  \<^item> \<open>HsNegotiation\<close>: \<^verbatim>\<open>processSrtMsg_HSREQ\<close>, \<^verbatim>\<open>processSrtMsg_HSRSP\<close> and the functions that fill them; after
    request and response both parties agree.
  \<^item> \<open>HsMessage\<close>, \<open>HsMessageSpec\<close>, \<open>HsMessageConvey\<close>: \<^verbatim>\<open>createSrtHandshake\<close> and \<^verbatim>\<open>interpretSrtHandshake\<close> as a whole; a
    message of any content is interpreted safely (locale \<open>block_reader\<close> for the loops over blocks), and what
    one party writes the other understands.
  \<^item> \<open>Rendezvous\<close>, \<open>RendezvousSpec\<close>, \<open>RendezvousNet\<close>, \<open>RendezvousConnect\<close>: the cookie contest, the state machine
    \<^verbatim>\<open>rendezvousSwitchState\<close> and its callers, and two parties over a network that repeats and loses messages:
    they never refuse each other, and from every state they can still connect.
  \<^item> \<open>SndFeedback\<close>, \<open>LossReport\<close>, \<open>AckReport\<close>: \<^verbatim>\<open>processCtrlAck\<close> and \<^verbatim>\<open>processCtrlLossReport\<close> over the sender
    buffer and the loss list; feedback in any order leaves the sender with exactly the right packets, and what forged feedback does is
    shown.
  \<^item> \<open>RcvFeedback\<close>, \<open>FeedbackLoop\<close>: \<^verbatim>\<open>sendCtrlAck\<close>, \<^verbatim>\<open>processCtrlAckAck\<close>, \<^verbatim>\<open>processCtrlDropReq\<close>, and the
    loop over both sides: acknowledgement, answer and round trip time; losses that the sender gave up.
  \<^item> \<open>SndPath\<close>, \<open>SndPathSpec\<close>, \<open>Retransmission\<close>, \<open>SenderSteps\<close>, \<open>SenderRun\<close>: \<^verbatim>\<open>packData\<close> with
    \<^verbatim>\<open>packLostData\<close> and \<^verbatim>\<open>packUniqueData\<close>, and \<^verbatim>\<open>sndDropTooLate\<close>. Listed packets go out again as they were; over all
    orders of submissions, sends, feedback and late drops (the inductive predicate \<open>reaches\<close>) everything on the wire is what was
    submitted under its number, and no reachable state is stuck; a packet whose time to live has passed makes
    \<^verbatim>\<open>packLostData\<close> loop forever.
  \<^item> This theory composes the two buffers: what one side submits is what the other side reads.

  \<^bold>\<open>How the code is modelled.\<close> A class is a record with the members as fields, an operation a function from the
  record to the new record. Arrays and links are lists with checked access: an access outside, a null
  pointer or a loop that does not end makes the result \<open>None\<close> (loops are \<^verbatim>\<open>partial_function\<close>s in the
  option type, or recursions over the number of iterations), so a theorem that gives \<open>Some\<close> includes
  memory safety and termination. Integers are \<open>32 word\<close> where bits or wrap-around matter and \<open>int\<close>
  with proved bounds elsewhere. Times are microseconds; the clock is an argument, and where one call reads it
  several times a function from the number of the reading to the time. Operations that the
  code runs under one lock are one step. What the handlers of \<^verbatim>\<open>CUDT\<close> do outside the modelled state (packets handed to the
  channel, signals, events of the congestion control) is recorded as a list of effects. Interfaces between components are locales
  (\<open>byte_sink\<close>, \<open>packet_fifo\<close>, \<open>timed_queue\<close>, \<open>block_reader\<close> and those of the loss lists), interpreted on the models.

  \<^bold>\<open>Not modelled.\<close> Of \<^verbatim>\<open>core.cpp\<close>: the listener side, opening and closing, the handler of received data packets,
  the timers and the threads; of the sending path the encryption of new packets, the packet filter and the limit for the bandwidth of
  retransmissions, which the default build leaves out; the socket registry \<^verbatim>\<open>api.cpp\<close> and the groups, which
  tie many sockets together under several threads and locks (bonding is off in the models); the channel and the event polling (system
  calls); encryption (an external cipher; key messages are an argument of the handshake); congestion control, rate estimation and moving averages
  (floating point); the recovery part of the FEC filter; logging and the applications; the tunnel program
  in Rust. The allocation of memory is taken to succeed.

  \<^bold>\<open>Plan.\<close> Next are the handler of \<^verbatim>\<open>core.cpp\<close> that puts received packets into the receiver buffer, the timers and the
  remaining receive queue structures.
\<close>

section \<open>From the sender buffer to the receiver buffer\<close>

text \<open>
  The sending side reads its packets one after the other; what goes out is the header and the payload of each.
  On the receiving side each packet is put into a unit and inserted.
\<close>

fun drain :: "int \<Rightarrow> int \<Rightarrow> nat \<Rightarrow> snd_buffer \<Rightarrow> ((header \<times> byte option list) list \<times> snd_buffer) option" where
  "drain now kflgs 0 b = Some ([], b)"
| "drain now kflgs (Suc n) b =
     do { (len, w, t, inc, b1) \<leftarrow> readData now kflgs b CPacket 0;
          (ps, b2) \<leftarrow> drain now kflgs n b1;
          Some ((m_nHeader w, packet_bytes b1 w) # ps, b2) }"

definition unit_of :: "nat \<Rightarrow> header \<times> byte option list \<Rightarrow> cunit" where
  "unit_of i p = \<lparr>u_id = i, u_hdr = fst p, u_data = map the (snd p)\<rparr>"

lemma drain_packets:
  assumes "sb_inv b r c" "P = sq_pkts (sb_abs b r c)" "c + n \<le> length P" "\<And>p. p \<in> set P \<Longrightarrow> \<not> pkt_expired now p"
  shows "\<exists>ps b'. drain now 0 n b = Some (ps, b') \<and> sb_inv b' r (c + n) \<and> sq_pkts (sb_abs b' r (c + n)) = P \<and> length ps = n
    \<and> (\<forall>i < n. snd (ps ! i) = sp_data (P ! (c + i)) \<and> SRT_PH_SEQNO (fst (ps ! i)) = word_of_int (sp_seq (P ! (c + i)))
         \<and> SRT_PH_MSGNO (fst (ps ! i)) = sp_bits (P ! (c + i)))"
  using assms
proof (induction n arbitrary: b c)
  case 0
  then show ?case by simp
next
  case (Suc n)
  have P: "P = map pkt_of (occupied b r)" using Suc.prems(2) by (simp add: sb_abs_def)
  have c: "c < length P" using Suc.prems(3) by simp
  then have "\<not> pkt_expired now (P ! c)" using Suc.prems(4) by simp
  then have s: "takeWhile (pkt_expired now) (drop c P) = []" using c by (simp add: Cons_nth_drop_Suc [symmetric])
  have same: "take c P @ map (stamp 0) (take (Suc 0) (drop c P)) @ drop (c + Suc 0) P = P"
    using c by (simp add: take_Suc_conv_app_nth Cons_nth_drop_Suc id_take_nth_drop [symmetric])
  from readData_loop_spec [OF Suc.prems(1) P refl, of now 0 0 CPacket 0 0, unfolded s, simplified] c same
  obtain len w t b1 where b1: "readData now 0 b CPacket 0 = Some (len, w, t, 0, b1)" "sb_inv b1 r (Suc c)"
    "map pkt_of (occupied b1 r) = P" "reads_packet 0 b1 len w t (P ! c)"
    by (auto simp: readData_def min_absorb1)
  from Suc.IH [OF b1(2)] b1(3) Suc.prems(3,4) obtain ps b' where b': "drain now 0 n b1 = Some (ps, b')" "sb_inv b' r (Suc c + n)"
    "sq_pkts (sb_abs b' r (Suc c + n)) = P" "length ps = n"
    "\<forall>i < n. snd (ps ! i) = sp_data (P ! (Suc c + i)) \<and> SRT_PH_SEQNO (fst (ps ! i)) = word_of_int (sp_seq (P ! (Suc c + i)))
       \<and> SRT_PH_MSGNO (fst (ps ! i)) = sp_bits (P ! (Suc c + i))" by (auto simp: sb_abs_def)
  have "\<forall>i < Suc n. snd (((m_nHeader w, packet_bytes b1 w) # ps) ! i) = sp_data (P ! (c + i))
      \<and> SRT_PH_SEQNO (fst (((m_nHeader w, packet_bytes b1 w) # ps) ! i)) = word_of_int (sp_seq (P ! (c + i)))
      \<and> SRT_PH_MSGNO (fst (((m_nHeader w, packet_bytes b1 w) # ps) ! i)) = sp_bits (P ! (c + i))"
    using b1(4) b'(5) by (auto simp: nth_Cons reads_packet_def split: nat.splits)
  then show ?case using b1(1) b'(1-4) by (intro exI [of _ "(m_nHeader w, packet_bytes b1 w) # ps"] exI [of _ b']) simp
qed

lemma unit_marks:
  "u_first u \<longleftrightarrow> bit (SRT_PH_MSGNO (u_hdr u)) 31" "u_last u \<longleftrightarrow> bit (SRT_PH_MSGNO (u_hdr u)) 30"
proof -
  have b: "x AND boundary_code PB_FIRST \<noteq> 0 \<longleftrightarrow> bit x 1" "x AND boundary_code PB_LAST \<noteq> 0 \<longleftrightarrow> bit x 0" for x :: "32 word"
    using and_exp_eq_0_iff_not_bit [of x 1] and_exp_eq_0_iff_not_bit [of x 0] by simp_all
  show "u_first u \<longleftrightarrow> bit (SRT_PH_MSGNO (u_hdr u)) 31" "u_last u \<longleftrightarrow> bit (SRT_PH_MSGNO (u_hdr u)) 30"
    unfolding u_first_def u_last_def b getMsgBoundary_def by (simp_all add: bit_Bits_unwrap)
qed

lemma sint_wrapseq: "sint (word_of_int (wrapseq x) :: 32 word) = wrapseq x"
  using wrapseq_bounds [of x] by (simp add: seqno_const_defs int_word_sint)

text \<open>
  C1. End to end: a message submitted to a sender buffer whose earlier packets have all been sent is cut into packets;
  these can be read for sending one after the other; put into units that arrive at a receiver buffer in any
  order, all of them are accepted, and the application then reads exactly the bytes of the message. Sequence
  numbers may wrap around on the way.
\<close>

theorem message_sent_is_received:
  assumes i: "sb_inv b r c" "c = length (sq_pkts (sb_abs b r c))" "\<And>p. p \<in> set (sq_pkts (sb_abs b r c)) \<Longrightarrow> sp_ttl p < 0"
    and mc: "valid_seq (pktseq mc)" "msgno mc = SRT_MSGNO_NONE" "msgttl mc < 0" "uint (m_iNextMsgNo b) < 2 ^ 26"
    and dat: "dat \<noteq> []" "int (length dat) \<le> int (N - 1) * getMaxPacketLen b" "length dat \<le> len"
    and N: "2 \<le> N" "int N < m_iSeqNoTH"
    and n: "n = nat (countNumPacketsRequired (int (length dat)) (getMaxPacketLen b))"
    and js: "distinct js" "set js = {..<n}"
  shows "\<exists>b1 mc1 ps b2 rb mc2 rb'. addBuffer raw tnow b dat mc = Some (b1, mc1) \<and> drain now 0 n b1 = Some (ps, b2)
    \<and> insert_all (CRcvBuffer (pktseq mc) N free_queue True) (map (\<lambda>j. unit_of j (ps ! j)) js) = Some rb
    \<and> readMessage rb len None = Some (int (length dat), dat, mc2, rb')"
proof -
  define base where "base = m_iNextMsgNo b OR (if inorder mc then BitsetMask 29 29 else 0)"
  define otime where "otime = (if srctime mc \<noteq> 0 then srctime mc else tnow)"
  define pkts where "pkts = split_message (getMaxPacketLen b) base (msgttl mc) otime (pktseq mc) dat"
  note p0 = sb_invD(10) [OF i(1)]
  note nth = split_message_nth [OF p0 pkts_def]
  note bd = countNumPacketsRequired_bounds [OF p0 refl, of "length dat"]
  have len: "length pkts = n" by (simp add: pkts_def split_message_def Let_def n)
  have ne: "pkts \<noteq> []" unfolding pkts_def by (rule split_message_nonempty [OF p0 dat(1)])
  have no: "m_iNextMsgNo b = (if msgno mc = SRT_MSGNO_NONE then m_iNextMsgNo b else msgno mc)" using mc(2) by simp
  obtain b1 r' mc1 where b1: "addBuffer raw tnow b dat mc = Some (b1, mc1)" "sb_inv b1 r' c"
    "sq_pkts (sb_abs b1 r' c) = sq_pkts (sb_abs b r c) @ pkts"
    using addBuffer_splits [OF i(1) mc(1) otime_def no pkts_def [unfolded base_def], of raw] by auto
  have "\<not> pkt_expired now p" if "p \<in> set (sq_pkts (sb_abs b r c) @ pkts)" for p
    using that i(3) nth(4) mc(3) by (fastforce simp: pkt_expired_def in_set_conv_nth)
  with drain_packets [OF b1(2) b1(3) [symmetric], of n now] i(2) len obtain ps b2 where
    ps: "drain now 0 n b1 = Some (ps, b2)" "length ps = n" "\<And>j. j < n \<Longrightarrow> snd (ps ! j) = sp_data (pkts ! j)"
      "\<And>j. j < n \<Longrightarrow> SRT_PH_SEQNO (fst (ps ! j)) = word_of_int (sp_seq (pkts ! j))"
      "\<And>j. j < n \<Longrightarrow> SRT_PH_MSGNO (fst (ps ! j)) = sp_bits (pkts ! j)" by (auto simp: nth_append)
  define ws where "ws = map (\<lambda>j. unit_of j (ps ! j)) [0..<n]"
  have wn: "length ws = n" "\<And>j. j < n \<Longrightarrow> ws ! j = unit_of j (ps ! j)" "ws \<noteq> []" using len ne by (auto simp: ws_def)
  have sq: "\<forall>j < length ws. u_seqno (ws ! j) = wrapseq (pktseq mc + int j)"
    using wn ps(4) nth(1) len by (simp add: unit_of_def getSeqNo_def sint_wrapseq)
  have mk: "u_first (ws ! j) = (j = 0)" "u_last (ws ! j) = (Suc j = n)" if "j < n" for j
    unfolding unit_marks using that wn ps(5) nth(2) len base_bits [OF mc(4)]
    by (auto simp: unit_of_def bit_msgno_bits base_def)
  have pay: "payload ws = dat"
  proof -
    have "map u_data ws = map (\<lambda>p. map the (sp_data p)) pkts"
      using wn ps(3) len by (intro nth_equalityI) (simp_all add: unit_of_def)
    then have "payload ws = map the (concat (map sp_data pkts))" by (simp add: map_concat comp_def)
    then show ?thesis unfolding pkts_def split_message_data [OF p0] by (simp add: comp_def)
  qed
  have "int n \<le> int (N - 1)"
  proof -
    have "(int n - 1) * getMaxPacketLen b < int (N - 1) * getMaxPacketLen b" using bd dat(2) n ne len by auto
    then show ?thesis using p0 by (simp add: mult_less_cancel_right)
  qed
  then have nN: "length ws \<le> N - 1" using wn(1) by simp
  have ids: "distinct (map u_id ws)" "u_id ` set ws \<inter> {} = {}" by (simp_all add: ws_def unit_of_def comp_def)
  have fin: "u_first (hd ws)" "u_last (last ws)" "\<forall>w \<in> set (butlast ws). \<not> u_last w"
    using mk wn by (auto simp: hd_conv_nth last_conv_nth in_set_conv_nth nth_butlast)
  have "map ((!) ws) js = map (\<lambda>j. unit_of j (ps ! j)) js" using js(2) wn by auto
  with delivered_any_order [OF mc(1) N taken_ok_free ids nN sq js(1) _ wn(3) fin, of len None] js(2) wn(1) pay dat(3) obtain rb mc2 rb' where
    "insert_all (CRcvBuffer (pktseq mc) N free_queue True) (map (\<lambda>j. unit_of j (ps ! j)) js) = Some rb"
    "readMessage rb len None = Some (int (length dat), dat, mc2, rb')" by auto
  then show ?thesis using b1(1) ps(1) by blast
qed

theorem message_sent_is_received_witness:
  "\<exists>b1 mc1 ps b2 rb mc2 rb'. addBuffer raw0 5 (CSndBuffer raw0 2 3 0) [1, 2, 3, 4, 5, 6, 7] (sample_ctrl 0x7FFFFFFE) = Some (b1, mc1)
    \<and> drain 6 0 3 b1 = Some (ps, b2)
    \<and> insert_all (CRcvBuffer 0x7FFFFFFE 5 free_queue True) (map (\<lambda>j. unit_of j (ps ! j)) [2, 0, 1]) = Some rb
    \<and> readMessage rb 100 None = Some (7, [1, 2, 3, 4, 5, 6, 7], mc2, rb')"
proof -
  have v: "valid_seq (pktseq (sample_ctrl 0x7FFFFFFE))" by (simp add: valid_seq_def seqno_const_defs sample_ctrl_def)
  have i: "sb_inv (CSndBuffer raw0 2 3 0) [0..<2] 0" by (rule sample_inv(1)) simp_all
  have e: "sq_pkts (sb_abs (CSndBuffer raw0 2 3 0) [0..<2] 0) = []" using sample_inv(2) [of raw0] by (simp add: sb_abs_def)
  have n: "3 = nat (countNumPacketsRequired (int (length [1, 2, 3, 4, 5, 6, 7 :: byte])) (getMaxPacketLen (CSndBuffer raw0 2 3 0)))"
    by (simp add: countNumPacketsRequired_def)
  have "set [2, 0, 1 :: nat] = {..<3}" by auto
  then show ?thesis
    using message_sent_is_received [OF i _ _ v, where dat = "[1, 2, 3, 4, 5, 6, 7]" and N = 5 and len = 100 and n = 3 and js = "[2, 0, 1]"
        and raw = raw0 and tnow = 5 and now = 6] n e
    by (simp add: sample_ctrl_def seqno_const_defs)
qed

end
